(* ===== verification/Prelude.thy ===== *)
theory Prelude
  imports Main "HOL-Library.Word"
begin

text \<open>
  Shared vocabulary of the development: fixed-width unsigned arithmetic written out on
  \<^typ>\<open>nat\<close> (\<open>size_t\<close> has 64 bits, \<open>uint32_t\<close> has 32), bounds-checked access to arrays (an access
  outside the array is undefined behaviour in the source and the value \<^term>\<open>None\<close> here),
  circular reads and writes, association lists standing for the code's hash maps where
  the iteration order matters, and the theorem collections the component proofs use.
\<close>

named_theorems width_simps \<open>unsigned arithmetic without wrap-around\<close>
named_theorems circ_simps \<open>facts about circular buffers\<close>

text \<open>
  Why a method has no result: it waits for a mutex its own thread holds, it runs into undefined
  behaviour, an exception leaves it, shared memory could not be mapped, or it ends the process.
\<close>

datatype fault = Deadlock | Undefined | Thrown | ShmFailure | Exited

section \<open>Unsigned arithmetic of a given width\<close>

definition uadd :: "nat \<Rightarrow> nat \<Rightarrow> nat \<Rightarrow> nat" where
  "uadd w a b = (a + b) mod 2 ^ w"

definition usub :: "nat \<Rightarrow> nat \<Rightarrow> nat \<Rightarrow> nat" where
  "usub w a b = (a + (2 ^ w - b mod 2 ^ w)) mod 2 ^ w"

definition umul :: "nat \<Rightarrow> nat \<Rightarrow> nat \<Rightarrow> nat" where
  "umul w a b = (a * b) mod 2 ^ w"

abbreviation sz_add :: "nat \<Rightarrow> nat \<Rightarrow> nat" where "sz_add \<equiv> uadd 64"
abbreviation sz_sub :: "nat \<Rightarrow> nat \<Rightarrow> nat" where "sz_sub \<equiv> usub 64"
abbreviation u32_add :: "nat \<Rightarrow> nat \<Rightarrow> nat" where "u32_add \<equiv> uadd 32"
abbreviation u32_sub :: "nat \<Rightarrow> nat \<Rightarrow> nat" where "u32_sub \<equiv> usub 32"
abbreviation u32_mul :: "nat \<Rightarrow> nat \<Rightarrow> nat" where "u32_mul \<equiv> umul 32"

lemma uadd_small [width_simps]: "a + b < 2 ^ w \<Longrightarrow> uadd w a b = a + b"
  by (simp add: uadd_def)

lemma umul_small [width_simps]: "a * b < 2 ^ w \<Longrightarrow> umul w a b = a * b"
  by (simp add: umul_def)

lemma usub_small [width_simps]:
  assumes "b \<le> a" "a < 2 ^ w"
  shows "usub w a b = a - b"
proof -
  have "b mod 2 ^ w = b" using assms by simp
  then have "usub w a b = (a + (2 ^ w - b)) mod 2 ^ w" by (simp add: usub_def)
  also have "a + (2 ^ w - b) = (a - b) + 2 ^ w" using assms by linarith
  also have "((a - b) + 2 ^ w) mod 2 ^ w = (a - b) mod 2 ^ w" by (rule mod_add_self2)
  also have "\<dots> = a - b" using assms by (intro mod_less) simp
  finally show ?thesis .
qed

lemma uadd_less: "uadd w a b < 2 ^ w"
  by (simp add: uadd_def)

section \<open>Bounds-checked block access (\<open>memcpy\<close>)\<close>

definition mem_read :: "'a list \<Rightarrow> nat \<Rightarrow> nat \<Rightarrow> 'a list option" where
  "mem_read b off n = (if off + n \<le> length b then Some (take n (drop off b)) else None)"

definition mem_write :: "'a list \<Rightarrow> nat \<Rightarrow> 'a list \<Rightarrow> 'a list option" where
  "mem_write b off xs =
     (if off + length xs \<le> length b
      then Some (take off b @ xs @ drop (off + length xs) b) else None)"

lemma mem_write_length: "mem_write b off xs = Some b' \<Longrightarrow> length b' = length b"
  by (auto simp: mem_write_def split: if_splits)

lemma mem_write_nth:
  assumes "mem_write b off xs = Some b'" "j < length b"
  shows "b' ! j = (if off \<le> j \<and> j < off + length xs then xs ! (j - off) else b ! j)"
  using assms
  by (auto simp: mem_write_def nth_append min_def split: if_splits)

section \<open>Circular reads and writes\<close>

definition cread :: "'a list \<Rightarrow> nat \<Rightarrow> nat \<Rightarrow> 'a list" where
  "cread b p k = map (\<lambda>i. b ! ((p + i) mod length b)) [0..<k]"

definition cwritten :: "'a list \<Rightarrow> 'a list \<Rightarrow> nat \<Rightarrow> 'a list \<Rightarrow> bool" where
  "cwritten b b' p xs \<longleftrightarrow>
     length b' = length b \<and>
     (\<forall>i < length xs. b' ! ((p + i) mod length b) = xs ! i) \<and>
     (\<forall>j < length b. (\<forall>i < length xs. j \<noteq> (p + i) mod length b) \<longrightarrow> b' ! j = b ! j)"

lemma cread_length [circ_simps, simp]: "length (cread b p k) = k"
  by (simp add: cread_def)

lemma cread_0 [circ_simps, simp]: "cread b p 0 = []"
  by (simp add: cread_def)

lemma cread_nth [circ_simps]: "i < k \<Longrightarrow> cread b p k ! i = b ! ((p + i) mod length b)"
  by (simp add: cread_def)

lemma cread_split: "cread b p (k + m) = cread b p k @ cread b ((p + k) mod length b) m"
proof (rule nth_equalityI)
  fix i assume "i < length (cread b p (k + m))"
  moreover have "(p + k) mod length b + (i - k) = (p + k) mod length b + i - k" if "k \<le> i"
    using that by simp
  ultimately show "cread b p (k + m) ! i
      = (cread b p k @ cread b ((p + k) mod length b) m) ! i"
    using mod_add_left_eq [of "p + k" "length b" "i - k"]
    by (auto simp: cread_nth nth_append)
qed simp

lemma cread_take: "k \<le> m \<Longrightarrow> take k (cread b p m) = cread b p k"
  by (rule nth_equalityI) (auto simp: cread_nth)

lemma cread_drop:
  assumes "k \<le> m"
  shows "drop k (cread b p m) = cread b ((p + k) mod length b) (m - k)"
proof -
  have "cread b p m = cread b p k @ cread b ((p + k) mod length b) (m - k)"
    using cread_split [of b p k "m - k"] assms by simp
  then show ?thesis by simp
qed

lemma cread_mod: "cread b (p mod length b) k = cread b p k"
  by (rule nth_equalityI) (auto simp: cread_nth mod_add_left_eq)

lemma cread_contiguous: "p + k \<le> length b \<Longrightarrow> take k (drop p b) = cread b p k"
  by (rule nth_equalityI) (auto simp: cread_nth)

lemma cread_wrapped:
  assumes "p < length b" "length b - p \<le> k" "k \<le> length b"
  shows "drop p b @ take (k - (length b - p)) b = cread b p k"
proof -
  have k: "k = (length b - p) + (k - (length b - p))" using assms by simp
  have "cread b p (length b - p) = drop p b"
    using cread_contiguous [of p "length b - p" b] assms by simp
  moreover have "cread b 0 (k - (length b - p)) = take (k - (length b - p)) b"
    using cread_contiguous [of 0 "k - (length b - p)" b] assms by simp
  ultimately show ?thesis
    using cread_split [of b p "length b - p" "k - (length b - p)"] k assms by simp
qed

lemma cwritten_contiguous:
  assumes "mem_write b p xs = Some b'" "p + length xs \<le> length b"
  shows "cwritten b b' p xs"
proof -
  note nth = mem_write_nth [OF assms(1)]
  have 1: "b' ! ((p + i) mod length b) = xs ! i" if "i < length xs" for i
    using that assms(2) nth [of "p + i"] by simp
  have 2: "b' ! j = b ! j"
    if "j < length b" "\<forall>i < length xs. j \<noteq> (p + i) mod length b" for j
  proof -
    have "\<not> (p \<le> j \<and> j < p + length xs)"
    proof
      assume j: "p \<le> j \<and> j < p + length xs"
      then have "j - p < length xs" by arith
      moreover have "j = (p + (j - p)) mod length b" using j that(1) by simp
      ultimately show False using that(2) by blast
    qed
    then show ?thesis using nth that(1) by auto
  qed
  show ?thesis
    using 1 2 mem_write_length [OF assms(1)] by (simp add: cwritten_def)
qed

lemma cwritten_append:
  assumes "cwritten b b1 p xs" "cwritten b1 b2 ((p + length xs) mod length b) ys"
    and n: "length xs + length ys \<le> length b"
  shows "cwritten b b2 p (xs @ ys)"
proof -
  let ?n = "length b"
  have len: "length b1 = ?n" "length b2 = ?n"
    using assms(1,2) by (auto simp: cwritten_def)
  have w2: "b2 ! ((p + (length xs + i)) mod ?n) = ys ! i" if "i < length ys" for i
    using assms(2) that len
    by (simp add: cwritten_def mod_add_left_eq add.assoc)
  have keep: "b2 ! j = b1 ! j"
    if "j < ?n" "\<forall>i < length ys. j \<noteq> (p + (length xs + i)) mod ?n" for j
    using assms(2) that len
    by (simp add: cwritten_def mod_add_left_eq add.assoc)
  have w1: "b2 ! ((p + i) mod ?n) = xs ! i" if i: "i < length xs" for i
  proof -
    have "(p + i) mod ?n \<noteq> (p + (length xs + k)) mod ?n" if k: "k < length ys" for k
    proof
      assume e: "(p + i) mod ?n = (p + (length xs + k)) mod ?n"
      have le: "p + i \<le> p + (length xs + k)" using i by simp
      have "?n dvd (p + (length xs + k)) - (p + i)"
        by (rule mod_eq_dvd_iff_nat [OF le, THEN iffD1, OF e [symmetric]])
      moreover have "0 < (p + (length xs + k)) - (p + i)" using i by simp
      moreover have "(p + (length xs + k)) - (p + i) < ?n" using k n i by simp
      ultimately show False using nat_dvd_not_less by blast
    qed
    moreover have "0 < ?n" using i n by linarith
    then have "(p + i) mod ?n < ?n" by simp
    ultimately have "b2 ! ((p + i) mod ?n) = b1 ! ((p + i) mod ?n)"
      using keep by blast
    then show ?thesis using assms(1) i by (simp add: cwritten_def)
  qed
  have a: "b2 ! ((p + i) mod ?n) = (xs @ ys) ! i" if "i < length (xs @ ys)" for i
  proof (cases "i < length xs")
    case True then show ?thesis using w1 by (simp add: nth_append)
  next
    case False
    then show ?thesis using w2 [of "i - length xs"] that by (simp add: nth_append)
  qed
  have b: "b2 ! j = b ! j"
    if j: "j < ?n" "\<forall>i < length (xs @ ys). j \<noteq> (p + i) mod ?n" for j
  proof -
    have "\<forall>i < length ys. j \<noteq> (p + (length xs + i)) mod ?n" using j(2) by simp
    then have "b2 ! j = b1 ! j" using keep j(1) by blast
    moreover have "b1 ! j = b ! j" using assms(1) j by (simp add: cwritten_def)
    ultimately show ?thesis by simp
  qed
  show ?thesis using a b len by (simp add: cwritten_def)
qed

lemma cwritten_read:
  "cwritten b b' p xs \<Longrightarrow> cread b' p (length xs) = xs"
  by (rule nth_equalityI) (auto simp: cwritten_def cread_nth)

lemma cwritten_read_other:
  assumes "cwritten b b' p xs" "0 < length b"
    and "\<And>i j. i < k \<Longrightarrow> j < length xs \<Longrightarrow> (h + i) mod length b \<noteq> (p + j) mod length b"
  shows "cread b' h k = cread b h k"
proof (rule nth_equalityI)
  fix i assume "i < length (cread b' h k)"
  then have i: "i < k" by simp
  have "(h + i) mod length b < length b" using assms(2) by simp
  then have "b' ! ((h + i) mod length b) = b ! ((h + i) mod length b)"
    using assms(1,3) i unfolding cwritten_def by blast
  then show "cread b' h k ! i = cread b h k ! i"
    using assms(1) i by (simp add: cread_nth cwritten_def)
qed simp

lemma mod_slots_distinct:
  fixes n :: nat
  assumes "i < u" "u + k \<le> n" "j < k"
  shows "(h + i) mod n \<noteq> (h + u + j) mod n"
proof
  assume e: "(h + i) mod n = (h + u + j) mod n"
  have le: "h + i \<le> h + u + j" using assms by simp
  have "n dvd (h + u + j) - (h + i)"
    by (rule mod_eq_dvd_iff_nat [OF le, THEN iffD1, OF e [symmetric]])
  moreover have "0 < (h + u + j) - (h + i)" "(h + u + j) - (h + i) < n"
    using assms by arith+
  ultimately show False using nat_dvd_not_less by blast
qed

lemma cread_update:
  assumes "u < k" "k \<le> length b"
  shows "cread (b[(p + u) mod length b := x]) p k = (cread b p k)[u := x]"
proof (rule nth_equalityI)
  fix i assume "i < length (cread (b[(p + u) mod length b := x]) p k)"
  then have i: "i < k" by simp
  have n: "0 < length b" using assms by linarith
  show "cread (b[(p + u) mod length b := x]) p k ! i = (cread b p k)[u := x] ! i"
  proof (cases "i = u")
    case True
    then show ?thesis using i n by (simp add: cread_nth)
  next
    case False
    have "(p + i) mod length b \<noteq> (p + u) mod length b"
    proof (cases "i < u")
      case True
      then show ?thesis
        using mod_slots_distinct [of i u "k - u" "length b" 0 p] assms by simp
    next
      case False
      with \<open>i \<noteq> u\<close> have "u < i" by simp
      then show ?thesis
        using mod_slots_distinct [of u i "k - i" "length b" 0 p] assms i by simp
    qed
    then show ?thesis using i False n by (simp add: cread_nth)
  qed
qed simp

section \<open>Byte memory with 32-bit words\<close>

text \<open>
  A shared-memory region is a function from offsets to bytes. A \<open>uint32_t\<close> occupies four bytes,
  little-endian; a load or store that does not lie inside the first \<open>tot\<close> bytes is undefined.
\<close>

type_synonym bytes = "nat \<Rightarrow> 8 word"

definition rd32 :: "bytes \<Rightarrow> nat \<Rightarrow> nat" where
  "rd32 m a = unat (m a) + 256 * (unat (m (a + 1)) + 256 * (unat (m (a + 2)) + 256 * unat (m (a + 3))))"

definition wr32 :: "bytes \<Rightarrow> nat \<Rightarrow> nat \<Rightarrow> bytes" where
  "wr32 m a v = m(a := of_nat v, a + 1 := of_nat (v div 256),
                  a + 2 := of_nat (v div 256 div 256), a + 3 := of_nat (v div 256 div 256 div 256))"

definition ld32 :: "nat \<Rightarrow> bytes \<Rightarrow> nat \<Rightarrow> nat option" where
  "ld32 tot m a = (if a + 4 \<le> tot then Some (rd32 m a) else None)"

definition st32 :: "nat \<Rightarrow> bytes \<Rightarrow> nat \<Rightarrow> nat \<Rightarrow> bytes option" where
  "st32 tot m a v = (if a + 4 \<le> tot then Some (wr32 m a v) else None)"

lemma rd32_wr32_same: "v < 2 ^ 32 \<Longrightarrow> rd32 (wr32 m a v) a = v"
proof -
  assume v: "v < 2 ^ 32"
  let ?d = "v div 256" let ?e = "?d div 256" let ?f = "?e div 256"
  have "?f < 256" using v by simp
  then have "?f mod 256 = ?f" by simp
  moreover have "v = v mod 256 + 256 * ?d" "?d = ?d mod 256 + 256 * ?e" "?e = ?e mod 256 + 256 * ?f"
    by simp_all
  ultimately have "v mod 256 + 256 * (?d mod 256 + 256 * (?e mod 256 + 256 * (?f mod 256))) = v"
    by metis
  then show ?thesis by (simp add: rd32_def wr32_def unat_of_nat)
qed

lemma rd32_cong: "(\<And>i. i < 4 \<Longrightarrow> m (a + i) = m' (a + i)) \<Longrightarrow> rd32 m a = rd32 m' a"
proof -
  assume h: "\<And>i. i < 4 \<Longrightarrow> m (a + i) = m' (a + i)"
  show ?thesis using h [of 0] h [of 1] h [of 2] h [of 3] by (simp add: rd32_def)
qed

lemma wr32_outside: "b < a \<or> a + 4 \<le> b \<Longrightarrow> wr32 m a v b = m b"
  by (auto simp: wr32_def)

lemma rd32_wr32_other: "b + 4 \<le> a \<or> a + 4 \<le> b \<Longrightarrow> rd32 (wr32 m a v) b = rd32 m b"
  by (rule rd32_cong) (auto intro!: wr32_outside)

lemma rd32_less: "rd32 m a < 2 ^ 32"
proof -
  have "unat (m x) < 256" for x using unsigned_less [of "m x"] by simp
  then have "unat (m a) < 256" "unat (m (a + 1)) < 256" "unat (m (a + 2)) < 256"
      "unat (m (a + 3)) < 256" by blast+
  then show ?thesis by (simp add: rd32_def)
qed

section \<open>Little-endian integers in byte strings\<close>

definition le_nat :: "8 word list \<Rightarrow> nat" where
  "le_nat xs = foldr (\<lambda>b n. unat b + 256 * n) xs 0"

fun le_bytes :: "nat \<Rightarrow> nat \<Rightarrow> 8 word list" where
  "le_bytes 0 v = []"
| "le_bytes (Suc k) v = of_nat v # le_bytes k (v div 256)"

text \<open>\<open>field off n xs\<close>: the \<open>n\<close>-byte integer member at offset \<open>off\<close> of a packed struct.\<close>

definition field :: "nat \<Rightarrow> nat \<Rightarrow> 8 word list \<Rightarrow> nat" where
  "field off n xs = le_nat (take n (drop off xs))"

lemma le_bytes_length [simp]: "length (le_bytes k v) = k"
  by (induction k arbitrary: v) (auto simp: le_bytes.simps)

declare le_bytes.simps [simp del]

lemma le_nat_le_bytes: "v < 256 ^ k \<Longrightarrow> le_nat (le_bytes k v) = v"
proof (induction k arbitrary: v)
  case 0 then show ?case by (simp add: le_nat_def le_bytes.simps)
next
  case (Suc k)
  have "v div 256 < 256 ^ k" using Suc.prems by (simp add: less_mult_imp_div_less mult.commute)
  then have "foldr (\<lambda>b n. unat b + 256 * n) (le_bytes k (v div 256)) 0 = v div 256"
    using Suc.IH by (simp add: le_nat_def)
  then show ?case by (simp add: le_nat_def unat_of_nat le_bytes.simps)
qed

lemma le_nat_less: "le_nat xs < 256 ^ length xs"
proof (induction xs)
  case Nil then show ?case by (simp add: le_nat_def)
next
  case (Cons x xs)
  have "unat x < 256" using unsigned_less [of x] by simp
  then show ?case using Cons by (simp add: le_nat_def)
qed

lemma le_bytes_le_nat: "length xs = k \<Longrightarrow> le_bytes k (le_nat xs) = xs"
proof (induction k arbitrary: xs)
  case 0 then show ?case by (simp add: le_bytes.simps)
next
  case (Suc k)
  then obtain x ys where xs: "xs = x # ys" "length ys = k" by (cases xs) auto
  have u: "unat x < 256" using unsigned_less [of x] by simp
  have n: "le_nat xs = unat x + 256 * le_nat ys" by (simp add: xs le_nat_def)
  have "word_of_nat (le_nat xs) = x"
  proof -
    have "le_nat xs mod 256 = unat x" using u by (simp add: n)
    then have "unat (word_of_nat (le_nat xs) :: 8 word) = unat x" by (simp add: unat_of_nat)
    then show ?thesis by (rule word_unat_eq_iff [THEN iffD2])
  qed
  moreover have "le_nat xs div 256 = le_nat ys" using u by (simp add: n)
  ultimately show ?case using Suc.IH [OF xs(2)] by (simp add: xs(1) le_bytes.simps)
qed

lemma field_take: "off + n \<le> k \<Longrightarrow> field off n (take k xs) = field off n xs"
  by (simp add: field_def drop_take min_def)

lemma field_append: "off + n \<le> length xs \<Longrightarrow> field off n (xs @ ys) = field off n xs"
  by (simp add: field_def)

lemma field_less: "field off n xs < 256 ^ n"
proof -
  have "(256::nat) ^ length (take n (drop off xs)) \<le> 256 ^ n" by (intro power_increasing) auto
  then show ?thesis unfolding field_def using le_nat_less by (rule order_less_le_trans [rotated])
qed

section \<open>Strings as bytes\<close>

definition str_bytes :: "string \<Rightarrow> 8 word list" where
  "str_bytes s = map (\<lambda>c. of_nat (of_char c)) s"

definition bytes_str :: "8 word list \<Rightarrow> string" where
  "bytes_str bs = map (\<lambda>b. char_of (unat b)) bs"

lemma str_bytes_str [simp]: "str_bytes (bytes_str bs) = bs"
proof -
  have "word_of_nat (of_char (char_of (unat b) :: char)) = (b :: 8 word)" for b
  proof -
    have "unat b < 256" using unsigned_less [of b] by simp
    then show ?thesis by (simp add: of_char_of)
  qed
  then show ?thesis by (simp add: str_bytes_def bytes_str_def o_def)
qed

lemma bytes_str_inj: "bytes_str a = bytes_str b \<longleftrightarrow> a = b"
  by (metis str_bytes_str)

lemma bytes_str_Nil [simp]: "bytes_str [] = []" "bytes_str bs = [] \<longleftrightarrow> bs = []"
  by (simp_all add: bytes_str_def)

text \<open>\<open>std::to_string\<close>\<close>

fun to_string_nat :: "nat \<Rightarrow> 8 word list" where
  "to_string_nat n =
     (if n < 10 then [of_nat (48 + n)] else to_string_nat (n div 10) @ [of_nat (48 + n mod 10)])"

definition to_string :: "int \<Rightarrow> 8 word list" where
  "to_string i = (if i < 0 then 45 # to_string_nat (nat (- i)) else to_string_nat (nat i))"

declare to_string_nat.simps [simp del]

lemma to_string_nat_length: "n < 10 ^ k \<Longrightarrow> 0 < k \<Longrightarrow> length (to_string_nat n) \<le> k"
proof (induction n arbitrary: k rule: to_string_nat.induct)
  case (1 n)
  show ?case
  proof (cases "n < 10")
    case True
    then show ?thesis using 1 by (simp add: to_string_nat.simps)
  next
    case False
    then obtain j where k: "k = Suc j" "0 < j" using 1 by (cases k; cases "k - 1") auto
    then have "n div 10 < 10 ^ j" using 1 by (simp add: less_mult_imp_div_less mult.commute)
    then have "length (to_string_nat (n div 10)) \<le> j" using 1 False k(2) by blast
    then show ?thesis using False k(1) by (subst to_string_nat.simps) simp
  qed
qed

lemma to_string_length: "\<bar>i\<bar> < 10 ^ k \<Longrightarrow> 0 < k \<Longrightarrow> length (to_string i) \<le> Suc k"
  using to_string_nat_length [of "nat \<bar>i\<bar>" k]
  by (auto simp: to_string_def nat_less_iff dest: le_SucI)

end
