(* ===== verification/Shm.thy ===== *)
theory Shm
  imports Prelude
begin

text \<open>
  Named shared memory (server/core/shm/shm.h, shm.cpp, the POSIX branch). The world holds what the system keeps:
  which region a name denotes and the bytes of every region, which outlive the name while they are mapped.
  \<open>Open\<close> is a sequence of system calls between which other processes run; a step says whether its call
  succeeds where it could.
\<close>

section \<open>State\<close>

record shm_world =
  sw_names :: "string \<Rightarrow> nat option"
  sw_regions :: "nat \<Rightarrow> 8 word list"
  sw_next :: nat

record shared_memory =
  sm_addr :: "nat option"
  sm_size :: nat
  sm_name :: string

datatype shm_result = SHM_ERROR | SHM_EXIST | SHM_CREATE

definition SharedMemory_ctor :: shared_memory where
  "SharedMemory_ctor = \<lparr>sm_addr = None, sm_size = 0, sm_name = []\<rparr>"

definition shm_name :: "string \<Rightarrow> string" where
  "shm_name name = (if name = [] \<or> hd name = CHR ''/'' then name else ''/'' @ name)"

definition shm_unlink :: "string \<Rightarrow> shm_world \<Rightarrow> shm_world" where
  "shm_unlink n w = w\<lparr>sw_names := (sw_names w)(n := None)\<rparr>"

section \<open>Open\<close>

text \<open>Where a process is in \<open>Open\<close>: the call it makes next, with the region its descriptor stands for.\<close>

datatype open_pc = FirstOpen | Fstat nat | OpenExcl | Ftruncate nat | Mmap nat shm_result | Opened shm_result

definition open_step :: "bool \<Rightarrow> string \<Rightarrow> nat \<Rightarrow> bool \<Rightarrow> open_pc \<times> shared_memory \<times> shm_world \<Rightarrow> open_pc \<times> shared_memory \<times> shm_world" where
  "open_step ok name sz create s =
     (case s of (pc, m, w) \<Rightarrow>
        (let n = shm_name name in
         case pc of
           FirstOpen \<Rightarrow>
             (if \<not> ok then (Opened SHM_ERROR, m, w)
              else case sw_names w n of
                     Some r \<Rightarrow> (Fstat r, m, w)
                   | None \<Rightarrow> (if create then OpenExcl else Opened SHM_ERROR, m, w))
         | Fstat r \<Rightarrow>
             (if \<not> ok then (Opened SHM_ERROR, m, w)
              else if length (sw_regions w r) \<noteq> sz then (Opened SHM_ERROR, m, w)
              else (Mmap r SHM_EXIST, m\<lparr>sm_size := length (sw_regions w r)\<rparr>, w))
         | OpenExcl \<Rightarrow>
             (if \<not> ok \<or> sw_names w n \<noteq> None then (Opened SHM_ERROR, m, w)
              else let r = sw_next w in
                   (Ftruncate r, m, w\<lparr>sw_names := (sw_names w)(n := Some r), sw_regions := (sw_regions w)(r := []), sw_next := Suc r\<rparr>))
         | Ftruncate r \<Rightarrow>
             (if \<not> ok \<or> 2 ^ 63 \<le> sz then (Opened SHM_ERROR, m, shm_unlink n w)
              else (Mmap r SHM_CREATE, m\<lparr>sm_size := sz\<rparr>, w\<lparr>sw_regions := (sw_regions w)(r := replicate sz 0)\<rparr>))
         | Mmap r res \<Rightarrow>
             (if \<not> ok \<or> sm_size m = 0
              then (Opened SHM_ERROR, m\<lparr>sm_addr := None, sm_size := 0\<rparr>, if create then shm_unlink n w else w)
              else (Opened res, m\<lparr>sm_addr := Some r, sm_name := n\<rparr>, w))
         | Opened res \<Rightarrow> s))"

text \<open>A call that nothing interrupts and whose system calls succeed where they can.\<close>

definition shm_Open :: "string \<Rightarrow> nat \<Rightarrow> bool \<Rightarrow> shared_memory \<times> shm_world \<Rightarrow> open_pc \<times> shared_memory \<times> shm_world" where
  "shm_Open name sz create mw = (open_step True name sz create ^^ 4) (FirstOpen, mw)"

section \<open>Access\<close>

text \<open>Sizes and offsets are below \<open>2 ^ 64\<close>; the subtraction does not wrap where it is reached.\<close>

definition in_mapping :: "shared_memory \<Rightarrow> nat \<Rightarrow> nat \<Rightarrow> bool" where
  "in_mapping m sz offset \<longleftrightarrow> \<not> (sm_addr m = None \<or> offset > sm_size m \<or> sz > sz_sub (sm_size m) offset)"

definition shm_Read :: "shared_memory \<Rightarrow> nat \<Rightarrow> nat \<Rightarrow> shm_world \<Rightarrow> 8 word list option" where
  "shm_Read m sz offset w =
     (if \<not> in_mapping m sz offset then None
      else Some (take sz (drop offset (sw_regions w (the (sm_addr m))))))"

definition shm_Write :: "shared_memory \<Rightarrow> 8 word list \<Rightarrow> nat \<Rightarrow> shm_world \<Rightarrow> bool \<times> shm_world" where
  "shm_Write m buf offset w =
     (if \<not> in_mapping m (length buf) offset then (False, w)
      else let r = the (sm_addr m); old = sw_regions w r
           in (True, w\<lparr>sw_regions := (sw_regions w)(r := take offset old @ buf @ drop (offset + length buf) old)\<rparr>))"

definition shm_Close :: "bool \<Rightarrow> shared_memory \<times> shm_world \<Rightarrow> shared_memory \<times> shm_world" where
  "shm_Close remove mw =
     (case mw of (m, w) \<Rightarrow>
        (m\<lparr>sm_addr := None, sm_size := 0\<rparr>,
         if remove \<and> sm_name m \<noteq> [] then shm_unlink (sm_name m) w else w))"

definition SharedMemory_dtor :: "shared_memory \<times> shm_world \<Rightarrow> shared_memory \<times> shm_world" where
  "SharedMemory_dtor = shm_Close False"

text \<open>A mapping is valid when its region has the size that was mapped.\<close>

definition attached :: "shared_memory \<Rightarrow> shm_world \<Rightarrow> bool" where
  "attached m w \<longleftrightarrow> (case sm_addr m of None \<Rightarrow> True | Some r \<Rightarrow> length (sw_regions w r) = sm_size m \<and> sm_size m < 2 ^ 63)"

lemma in_mapping_iff:
  "attached m w \<Longrightarrow> in_mapping m sz offset \<longleftrightarrow> (\<exists>r. sm_addr m = Some r \<and> offset + sz \<le> length (sw_regions w r))"
proof -
  assume a: "attached m w"
  then have "sm_addr m \<noteq> None \<Longrightarrow> offset \<le> sm_size m \<Longrightarrow> sz_sub (sm_size m) offset = sm_size m - offset"
    by (intro usub_small) (auto simp: attached_def split: option.splits)
  then show "in_mapping m sz offset \<longleftrightarrow> (\<exists>r. sm_addr m = Some r \<and> offset + sz \<le> length (sw_regions w r))"
    using a by (auto simp: in_mapping_def attached_def split: option.splits)
qed

lemma write_attached: "attached m w \<Longrightarrow> attached m' w \<Longrightarrow> shm_Write m' buf offset w = (ok, w') \<Longrightarrow> attached m w'"
  by (auto simp: shm_Write_def in_mapping_iff attached_def Let_def split: if_splits option.splits)

text \<open>
  What one process has written is what another that maps the same region reads there; all other bytes stay.
\<close>

theorem written_bytes_shared:
  assumes "attached m w" "attached m' w" "sm_addr m' = sm_addr m" "shm_Write m buf offset w = (True, w')"
  shows "shm_Read m' (length buf) offset w' = Some buf"
    and "k + n \<le> offset \<or> offset + length buf \<le> k \<Longrightarrow> shm_Read m' n k w' = shm_Read m' n k w"
proof -
  obtain r where r: "sm_addr m = Some r" "offset + length buf \<le> length (sw_regions w r)"
    "w' = w\<lparr>sw_regions := (sw_regions w)(r := take offset (sw_regions w r) @ buf @ drop (offset + length buf) (sw_regions w r))\<rparr>"
    using assms(1,4) by (auto simp: shm_Write_def in_mapping_iff Let_def split: if_splits)
  have a: "attached m' w'" by (rule write_attached [OF assms(2,1,4)])
  show "shm_Read m' (length buf) offset w' = Some buf"
    using r assms(3) by (simp add: shm_Read_def in_mapping_iff [OF a])
  assume h: "k + n \<le> offset \<or> offset + length buf \<le> k"
  let ?x = "sw_regions w r"
  have "take n (drop k (take offset ?x @ buf @ drop (offset + length buf) ?x)) = take n (drop k ?x)"
  proof (cases "k + n \<le> offset")
    case True
    then have "min n (offset - k) = n" by simp
    then show ?thesis using True r(2) by (simp add: drop_take)
  next
    case False
    then have "offset + length buf \<le> k" using h by simp
    then show ?thesis using r(2) by simp
  qed
  then show "shm_Read m' n k w' = shm_Read m' n k w"
    using r assms(3) by (simp add: shm_Read_def in_mapping_iff [OF a] in_mapping_iff [OF assms(2)])
qed

section \<open>Several openers\<close>

text \<open>
  Processes in \<open>Open\<close> with the same name and size. In a run without rollback the calls after the creation of the
  region, \<open>ftruncate\<close> and \<open>mmap\<close>, succeed; all others may fail.
\<close>

fun committed :: "open_pc \<Rightarrow> bool" where
  "committed (Ftruncate r) = True"
| "committed (Mmap r res) = True"
| "committed pc = False"

inductive openers :: "string \<Rightarrow> nat \<Rightarrow> shm_world \<Rightarrow> (open_pc \<times> shared_memory) list \<times> shm_world \<Rightarrow> bool"
  for name sz w0 where
  start: "openers name sz w0 (replicate k (FirstOpen, SharedMemory_ctor), w0)"
| step: "openers name sz w0 (ps, w) \<Longrightarrow> i < length ps \<Longrightarrow> (committed (fst (ps ! i)) \<longrightarrow> ok) \<Longrightarrow>
    open_step ok name sz create (fst (ps ! i), snd (ps ! i), w) = (pc, m, w') \<Longrightarrow>
    openers name sz w0 (ps[i := (pc, m)], w')"

definition creating :: "open_pc \<times> shared_memory \<Rightarrow> bool" where
  "creating p \<longleftrightarrow> (case fst p of Ftruncate r \<Rightarrow> True | Mmap r res \<Rightarrow> res = SHM_CREATE | Opened res \<Rightarrow> res = SHM_CREATE | _ \<Rightarrow> False)"

text \<open>What holds of one process in a world.\<close>

definition opener_ok :: "string \<Rightarrow> nat \<Rightarrow> shm_world \<Rightarrow> open_pc \<times> shared_memory \<Rightarrow> bool" where
  "opener_ok name sz w p \<longleftrightarrow>
     (case p of (pc, m) \<Rightarrow>
        (let n = shm_name name in
         case pc of
           FirstOpen \<Rightarrow> True
         | OpenExcl \<Rightarrow> True
         | Fstat r \<Rightarrow> sw_names w n = Some r
         | Ftruncate r \<Rightarrow> sw_names w n = Some r \<and> sw_regions w r = []
         | Mmap r res \<Rightarrow> sw_names w n = Some r \<and> length (sw_regions w r) = sz \<and> sm_size m = sz \<and> res \<noteq> SHM_ERROR
         | Opened res \<Rightarrow> res \<noteq> SHM_ERROR \<longrightarrow>
             (\<exists>r. sw_names w n = Some r \<and> length (sw_regions w r) = sz \<and> sm_addr m = Some r \<and> sm_size m = sz \<and> sm_name m = n)))"

definition openers_ok :: "string \<Rightarrow> nat \<Rightarrow> (open_pc \<times> shared_memory) list \<times> shm_world \<Rightarrow> bool" where
  "openers_ok name sz s \<longleftrightarrow>
     (\<forall>i < length (fst s). opener_ok name sz (snd s) (fst s ! i)) \<and>
     (\<forall>i < length (fst s). \<forall>j < length (fst s). creating (fst s ! i) \<and> creating (fst s ! j) \<longrightarrow> i = j)"

lemmas opener_defs = opener_ok_def creating_def Let_def

lemma opener_without_name:
  "opener_ok name sz w p \<Longrightarrow> sw_names w (shm_name name) = None \<Longrightarrow> opener_ok name sz w' p \<and> \<not> creating p"
  by (cases p; cases "fst p") (auto simp: opener_defs)

lemma opener_sized:
  assumes "opener_ok name sz w p" "\<not> creating p \<or> sw_regions w r \<noteq> []" "sw_names w (shm_name name) = Some r"
  shows "opener_ok name sz (w\<lparr>sw_regions := (sw_regions w)(r := replicate sz 0)\<rparr>) p"
  using assms by (cases p; cases "fst p") (auto simp: opener_defs)

text \<open>The effect of one step on the process that takes it and on the world.\<close>

lemma open_step_cases:
  assumes "open_step ok name sz create (pc, m, w) = (pc', m', w')" "opener_ok name sz w (pc, m)"
    "committed pc \<longrightarrow> ok" "0 < sz" "sz < 2 ^ 63"
  obtains (same) "w' = w" "opener_ok name sz w (pc', m')" "creating (pc', m') \<longrightarrow> creating (pc, m)"
  | (named) "sw_names w (shm_name name) = None" "opener_ok name sz w' (pc', m')"
  | (sized) r where "sw_names w (shm_name name) = Some r" "sw_regions w r = []" "creating (pc, m)"
      "w' = w\<lparr>sw_regions := (sw_regions w)(r := replicate sz 0)\<rparr>" "opener_ok name sz w' (pc', m')"
proof (cases pc)
  case FirstOpen
  then show thesis using assms(1) same by (auto simp: open_step_def opener_defs split: if_splits option.splits)
next
  case (Fstat r)
  then show thesis using assms(1,2) same by (auto simp: open_step_def opener_defs split: if_splits)
next
  case OpenExcl
  then show thesis using assms(1) same named by (auto simp: open_step_def opener_defs split: if_splits)
next
  case (Ftruncate r)
  then have "pc' = Mmap r SHM_CREATE" "m' = m\<lparr>sm_size := sz\<rparr>" "w' = w\<lparr>sw_regions := (sw_regions w)(r := replicate sz 0)\<rparr>"
    using assms(1,3,5) by (auto simp: open_step_def Let_def)
  then show thesis using sized [of r] assms(2) Ftruncate by (simp add: opener_defs)
next
  case (Mmap r res)
  then have "pc' = Opened res" "m' = m\<lparr>sm_addr := Some r, sm_name := shm_name name\<rparr>" "w' = w"
    using assms by (auto simp: open_step_def opener_defs)
  then show thesis using same assms(2) Mmap by (auto simp: opener_defs)
next
  case (Opened res)
  then show thesis using assms(1,2) same by (simp add: open_step_def)
qed

lemma openers_ok_reached:
  assumes "openers name sz w0 s" "0 < sz" "sz < 2 ^ 63"
  shows "openers_ok name sz s"
  using assms(1)
proof induction
  case (start k)
  then show ?case by (auto simp: openers_ok_def opener_defs)
next
  case (step ps w i ok create pc m w')
  let ?p = "ps ! i" and ?ps = "ps[i := (pc, m)]"
  have ok: "opener_ok name sz w (ps ! j)" if "j < length ps" for j using step.IH that by (simp add: openers_ok_def)
  have one: "creating (ps ! j) \<Longrightarrow> creating (ps ! k) \<Longrightarrow> j = k" if "j < length ps" "k < length ps" for j k
    using step.IH that by (simp add: openers_ok_def)
  have p: "opener_ok name sz w (fst ?p, snd ?p)" using ok [OF step.hyps(2)] by simp
  have "(\<forall>j < length ps. opener_ok name sz w' (?ps ! j)) \<and>
      (\<forall>j < length ps. \<forall>k < length ps. creating (?ps ! j) \<and> creating (?ps ! k) \<longrightarrow> j = k)"
  proof (cases rule: open_step_cases [OF step.hyps(4) p step.hyps(3) assms(2,3)])
    case 1
    then have "creating (pc, m) \<longrightarrow> creating (ps ! i)" by simp
    then show ?thesis using 1 ok one step.hyps(2) by (auto simp: nth_list_update split: if_splits)
  next
    case 2
    then have "opener_ok name sz w' (ps ! j) \<and> \<not> creating (ps ! j)" if "j < length ps" for j
      using opener_without_name ok that by blast
    then show ?thesis using 2 step.hyps(2) by (auto simp: nth_list_update split: if_splits)
  next
    case (3 r)
    have c: "creating (ps ! i)" using 3(3) by simp
    have "opener_ok name sz w' (ps ! j)" if "j < length ps" "j \<noteq> i" for j
      unfolding 3(4) using opener_sized [OF ok [OF that(1)] _ 3(1)] one [OF that(1) step.hyps(2) _ c] that(2) by blast
    then show ?thesis using 3(5) one c step.hyps(2) by (auto simp: nth_list_update)
  qed
  then show ?case by (simp add: openers_ok_def)
qed

text \<open>
  C39: Whatever the interleaving of processes that open a region of the same name and size, as long as sizing and
  mapping succeed: all that are told of success have mapped one and the same region, of exactly that size, and at
  most one of them is told that it has created it.
\<close>

theorem openers_share_one_region:
  assumes "openers name sz w0 (ps, w)" "0 < sz" "sz < 2 ^ 63"
    and "i < length ps" "ps ! i = (Opened a, m)" "a \<noteq> SHM_ERROR"
    and "j < length ps" "ps ! j = (Opened b, m')" "b \<noteq> SHM_ERROR"
  shows "\<exists>r. sm_addr m = Some r \<and> sm_addr m' = Some r \<and> sm_size m = sz \<and> sm_size m' = sz \<and>
      length (sw_regions w r) = sz \<and> (a = SHM_CREATE \<and> b = SHM_CREATE \<longrightarrow> i = j)"
proof -
  note inv = openers_ok_reached [OF assms(1-3), unfolded openers_ok_def, simplified]
  have "opener_ok name sz w (Opened a, m)" "opener_ok name sz w (Opened b, m')" using inv assms(4,5,7,8) by metis+
  moreover have "a = SHM_CREATE \<and> b = SHM_CREATE \<longrightarrow> i = j" using inv assms(4,5,7,8) by (auto simp: creating_def)
  ultimately show ?thesis using assms(6,9) by (auto simp: opener_ok_def Let_def)
qed

section \<open>What goes wrong\<close>

fun open_run :: "string \<Rightarrow> nat \<Rightarrow> (nat \<times> bool) list \<Rightarrow> (open_pc \<times> shared_memory) list \<times> shm_world \<Rightarrow>
    (open_pc \<times> shared_memory) list \<times> shm_world" where
  "open_run name sz [] s = s"
| "open_run name sz ((i, ok) # is') (ps, w) =
     (let (pc, m, w') = open_step ok name sz True (fst (ps ! i), snd (ps ! i), w)
      in open_run name sz is' (ps[i := (pc, m)], w'))"

text \<open>An opener that comes between the creation and the sizing is told of an error, although both wanted the same.\<close>

theorem early_opener_fails:
  assumes "sw_names w (shm_name name) = None" "0 < sz" "sz < 2 ^ 63"
  shows "map fst (fst (open_run name sz [(0, True), (0, True), (1, True), (1, True), (0, True), (0, True)]
      (replicate 2 (FirstOpen, SharedMemory_ctor), w))) = [Opened SHM_CREATE, Opened SHM_ERROR]"
  using assms by (simp add: open_step_def Let_def numeral_2_eq_2)

text \<open>
  A failed \<open>mmap\<close> of a region that another process has created removes its name: the next opener creates a
  second region, and both believe they share one.
\<close>

theorem failed_mmap_splits_region:
  assumes "sw_names w (shm_name name) = None" "0 < sz" "sz < 2 ^ 63"
  shows "let (ps, w') = open_run name sz ([(0, True), (0, True), (0, True), (0, True)] @ [(1, True), (1, True), (1, False)] @
        [(2, True), (2, True), (2, True), (2, True)]) (replicate 3 (FirstOpen, SharedMemory_ctor), w)
    in map fst ps = [Opened SHM_CREATE, Opened SHM_ERROR, Opened SHM_CREATE] \<and>
      sm_addr (snd (ps ! 0)) \<noteq> sm_addr (snd (ps ! 2))"
  using assms by (simp add: open_step_def Let_def numeral_3_eq_3 shm_unlink_def)

text \<open>An existing region is opened only with its size, although the header says the size is ignored then.\<close>

theorem reopen_needs_size:
  assumes "sw_names w (shm_name name) = Some r" "length (sw_regions w r) = old" "0 < old"
  shows "fst (shm_Open name sz create (m, w)) = Opened (if sz = old then SHM_EXIST else SHM_ERROR)"
  using assms by (simp add: shm_Open_def open_step_def eval_nat_numeral Let_def)

section \<open>Witness\<close>

lemma openers_run:
  assumes "openers name sz w0 s" "\<forall>x \<in> set xs. fst x < length (fst s) \<and> snd x"
  shows "openers name sz w0 (open_run name sz xs s)"
  using assms
proof (induction name sz xs s rule: open_run.induct)
  case (2 name sz i ok xs ps w)
  obtain pc m w' where o: "open_step ok name sz True (fst (ps ! i), snd (ps ! i), w) = (pc, m, w')"
    by (metis prod_cases3)
  have "openers name sz w0 (ps[i := (pc, m)], w')" using 2(2,3) o by (auto intro: openers.step [OF _ _ _ o])
  then have "openers name sz w0 (open_run name sz xs (ps[i := (pc, m)], w'))"
    using 2(1) [OF o [symmetric] refl refl] 2(3) by simp
  then show ?case using o by simp
qed simp

theorem openers_share_one_region_witness:
  "\<exists>ps w r. openers ''slab'' 16 \<lparr>sw_names = (\<lambda>n. None), sw_regions = (\<lambda>r. []), sw_next = 0\<rparr> (ps, w) \<and>
     map fst ps = [Opened SHM_CREATE, Opened SHM_EXIST] \<and> sm_addr (snd (ps ! 0)) = Some r \<and> sm_addr (snd (ps ! 1)) = Some r"
proof -
  let ?w0 = "\<lparr>sw_names = (\<lambda>n. None), sw_regions = (\<lambda>r. []), sw_next = 0\<rparr> :: shm_world"
  let ?zs = "[(0, True), (0, True), (0, True), (0, True), (1, True), (1, True), (1, True)] :: (nat \<times> bool) list"
  let ?t = "open_run ''slab'' 16 ?zs (replicate 2 (FirstOpen, SharedMemory_ctor), ?w0)"
  obtain ps w where u: "?t = (ps, w)" by force
  have o: "openers ''slab'' 16 ?w0 (ps, w)"
    using openers_run [OF openers.start [of "''slab''" 16 ?w0 2], of ?zs] unfolding u by simp
  have two: "replicate 2 x = [x, x]" for x :: "open_pc \<times> shared_memory" by (simp add: numeral_2_eq_2)
  have "map fst (fst ?t) = [Opened SHM_CREATE, Opened SHM_EXIST]"
    by (simp add: open_step_def Let_def two shm_name_def SharedMemory_ctor_def)
  then have t: "map fst ps = [Opened SHM_CREATE, Opened SHM_EXIST]" unfolding u by simp
  then obtain m m' where ps: "ps = [(Opened SHM_CREATE, m), (Opened SHM_EXIST, m')]" by (auto simp: map_eq_Cons_conv)
  have "\<exists>r. sm_addr m = Some r \<and> sm_addr m' = Some r"
    using openers_share_one_region [OF o, of 0 SHM_CREATE m 1 SHM_EXIST m'] by (auto simp: ps)
  then show ?thesis using o t by (auto simp: ps)
qed

end
