(* ===== verification/Locks.thy ===== *)
theory Locks
  imports Prelude "HOL-Library.Monad_Syntax"
begin

text \<open>
  The locks that protect the queues and the slab in shared memory: \<open>ShmLock\<close>
  (src/server/core/shm/shm_lock.h), a process-shared POSIX mutex, and \<open>ShmSpinLock\<close>
  (src/server/core/shm/shm_spinlock.h), which spins on its \<open>TryLock\<close>.  The first part is the
  documented behaviour of a POSIX mutex, robust or not, that the two classes use; the second
  the two classes; the third the processes that share one lock, any of which can die.
\<close>

section \<open>A POSIX mutex\<close>

text \<open>
  \<open>Stalled\<close> is a mutex that is not robust and whose owner died, \<open>Orphaned\<close> a robust one;
  \<open>Inherited p\<close> is a robust mutex that \<open>p\<close> locked after its owner died and that was not made
  consistent; unlocking it makes it \<open>NotRecoverable\<close>.  An answer \<^term>\<open>None\<close> stands for \<open>0\<close>.
\<close>

datatype pmutex = Unlocked | LockedBy nat | Stalled | Orphaned | Inherited nat | NotRecoverable

datatype errno = EBUSY | EPERM | EOWNERDEAD | ENOTRECOVERABLE | EINVAL | ENOMEM | ENOTSUP

fun pthread_mutex_trylock :: "nat \<Rightarrow> pmutex \<Rightarrow> errno option \<times> pmutex" where
  "pthread_mutex_trylock p Unlocked = (None, LockedBy p)"
| "pthread_mutex_trylock p Orphaned = (Some EOWNERDEAD, Inherited p)"
| "pthread_mutex_trylock p NotRecoverable = (Some ENOTRECOVERABLE, NotRecoverable)"
| "pthread_mutex_trylock p m = (Some EBUSY, m)"

text \<open>A blocking call has no result while somebody, the caller included, holds the mutex.\<close>

definition pthread_mutex_lock :: "nat \<Rightarrow> pmutex \<Rightarrow> (errno option \<times> pmutex) option" where
  "pthread_mutex_lock p m =
     (let r = pthread_mutex_trylock p m in if fst r = Some EBUSY then None else Some r)"

fun pthread_mutex_unlock :: "nat \<Rightarrow> pmutex \<Rightarrow> errno option \<times> pmutex" where
  "pthread_mutex_unlock p (LockedBy q) = (if p = q then (None, Unlocked) else (Some EPERM, LockedBy q))"
| "pthread_mutex_unlock p (Inherited q) =
     (if p = q then (None, NotRecoverable) else (Some EPERM, Inherited q))"
| "pthread_mutex_unlock p m = (Some EPERM, m)"

fun owner_dies :: "bool \<Rightarrow> nat \<Rightarrow> pmutex \<Rightarrow> pmutex" where
  "owner_dies robust p (LockedBy q) =
     (if p \<noteq> q then LockedBy q else if robust then Orphaned else Stalled)"
| "owner_dies robust p (Inherited q) = (if p = q then Orphaned else Inherited q)"
| "owner_dies robust p m = m"

section \<open>ShmLock\<close>

text \<open>
  \<open>Lock\<close> blocks (\<^term>\<open>None\<close>), throws \<open>std::system_error\<close>, or returns; \<open>TryLock\<close> maps every
  answer but \<open>0\<close> to \<open>false\<close>.
\<close>

definition ShmLock_Lock :: "nat \<Rightarrow> pmutex \<Rightarrow> ((fault + unit) \<times> pmutex) option" where
  "ShmLock_Lock p m =
     (case pthread_mutex_lock p m of
        None \<Rightarrow> None
      | Some (ret, m') \<Rightarrow> Some (if ret \<noteq> None then Inl Thrown else Inr (), m'))"

definition ShmLock_Unlock :: "nat \<Rightarrow> pmutex \<Rightarrow> (fault + unit) \<times> pmutex" where
  "ShmLock_Unlock p m =
     (let (ret, m') = pthread_mutex_unlock p m in (if ret \<noteq> None then Inl Thrown else Inr (), m'))"

definition ShmLock_TryLock :: "nat \<Rightarrow> pmutex \<Rightarrow> bool \<times> pmutex" where
  "ShmLock_TryLock p m = (let (ret, m') = pthread_mutex_trylock p m in (ret = None, m'))"

text \<open>
  \<open>InitMutex\<close>: the answers of the system calls it makes are arguments; the result lists the
  attribute and mutex calls that were made.  \<open>has_robust\<close> says whether the macro
  \<open>PTHREAD_MUTEX_ROBUST\<close> is defined, the answer of \<open>setrobust\<close> is ignored.
\<close>

datatype mutex_call = AttrInit | SetPshared | SetRobust | SetType | MutexInit | AttrDestroy

definition InitMutex ::
  "bool \<Rightarrow> (mutex_call \<Rightarrow> errno option) \<Rightarrow> mutex_call list \<times> (fault + unit)" where
  "InitMutex has_robust ret =
     (if ret AttrInit \<noteq> None then ([AttrInit], Inl Thrown)
      else if ret SetPshared \<noteq> None then ([AttrInit, SetPshared, AttrDestroy], Inl Thrown)
      else let robust = (if has_robust then [SetRobust] else []) in
        if ret SetType \<noteq> None
        then ([AttrInit, SetPshared] @ robust @ [SetType, AttrDestroy], Inl Thrown)
        else if ret MutexInit \<noteq> None
        then ([AttrInit, SetPshared] @ robust @ [SetType, MutexInit, AttrDestroy], Inl Thrown)
        else ([AttrInit, SetPshared] @ robust @ [SetType, MutexInit, AttrDestroy], Inr ()))"

text \<open>The mutex that the calls of \<open>InitMutex\<close> leave is robust if \<open>setrobust\<close> was called and worked.\<close>

definition made_robust :: "bool \<Rightarrow> (mutex_call \<Rightarrow> errno option) \<Rightarrow> bool" where
  "made_robust has_robust ret \<longleftrightarrow> has_robust \<and> ret SetRobust = None"

lemma InitMutex_releases_attr:
  "ret AttrInit = None \<Longrightarrow>
     count_list (fst (InitMutex has_robust ret)) AttrDestroy = 1 \<and>
     last (fst (InitMutex has_robust ret)) = AttrDestroy"
  by (simp add: InitMutex_def Let_def)

lemma InitMutex_returns_iff:
  "snd (InitMutex has_robust ret) = Inr () \<longleftrightarrow>
     ret AttrInit = None \<and> ret SetPshared = None \<and> ret SetType = None \<and> ret MutexInit = None"
  by (simp add: InitMutex_def Let_def)

section \<open>ShmSpinLock\<close>

text \<open>
  \<open>Lock\<close> calls \<open>TryLock\<close> until it succeeds.  The answers are the environment's: \<open>ans n\<close> is the
  answer to its \<open>n\<close>-th call.  The result is the number of the call that succeeded and what the
  thread did in between: so many pauses, or a yield.  Not returning is \<^term>\<open>None\<close>.
\<close>

datatype wait_step = Pauses nat | Yields

partial_function (option) spin_loop ::
  "(nat \<Rightarrow> bool) \<Rightarrow> nat \<Rightarrow> nat \<Rightarrow> nat \<Rightarrow> nat \<Rightarrow> (nat \<times> wait_step list) option" where
  "spin_loop ans max_spins n spins attempts =
     (if ans n then Some (n, [])
      else if spins < max_spins
        then do {
          (k, ws) \<leftarrow> spin_loop ans max_spins (Suc n) (u32_mul spins 2) attempts;
          Some (k, Pauses spins # ws) }
        else do {
          (k, ws) \<leftarrow> spin_loop ans max_spins (Suc n)
                      (if u32_add attempts 1 mod 10 = 0 then 1 else spins) (u32_add attempts 1);
          Some (k, Pauses spins # Yields # ws) })"

definition ShmSpinLock_Lock :: "(nat \<Rightarrow> bool) \<Rightarrow> nat \<Rightarrow> (nat \<times> wait_step list) option" where
  "ShmSpinLock_Lock ans max_spins = (if ans 0 then Some (0, []) else spin_loop ans max_spins 1 1 0)"

definition ShmSpinLock_TryLock :: "nat \<Rightarrow> pmutex \<Rightarrow> bool \<times> pmutex" where
  "ShmSpinLock_TryLock p m = ShmLock_TryLock p m"

definition ShmSpinLock_Unlock :: "nat \<Rightarrow> pmutex \<Rightarrow> (fault + unit) \<times> pmutex" where
  "ShmSpinLock_Unlock p m = ShmLock_Unlock p m"

section \<open>What the spin loop waits\<close>

text \<open>The waits of \<open>k\<close> failing rounds, as a total function.\<close>

fun waits :: "nat \<Rightarrow> nat \<Rightarrow> nat \<Rightarrow> nat \<Rightarrow> wait_step list" where
  "waits max_spins 0 spins attempts = []"
| "waits max_spins (Suc k) spins attempts =
     (if spins < max_spins then Pauses spins # waits max_spins k (u32_mul spins 2) attempts
      else Pauses spins # Yields # waits max_spins k
             (if u32_add attempts 1 mod 10 = 0 then 1 else spins) (u32_add attempts 1))"

lemma spin_loop_stops:
  assumes "\<forall>m. n \<le> m \<and> m < n + k \<longrightarrow> \<not> ans m" "ans (n + k)"
  shows "spin_loop ans max_spins n spins attempts = Some (n + k, waits max_spins k spins attempts)"
  using assms
proof (induction k arbitrary: n spins attempts)
  case 0
  then show ?case by (simp add: spin_loop.simps [of _ _ n])
next
  case (Suc k)
  have now: "\<not> ans n" using Suc.prems(1) by simp
  have rest: "spin_loop ans max_spins (Suc n) s a = Some (Suc n + k, waits max_spins k s a)" for s a
    using Suc.prems by (intro Suc.IH) auto
  show ?case using now by (simp add: spin_loop.simps [of _ _ n] rest)
qed

lemma spin_loop_found:
  "spin_loop ans max_spins n spins attempts = Some r \<Longrightarrow> \<exists>m. ans m"
proof (rule spin_loop.raw_induct [of "\<lambda>ans max_spins n spins attempts r. \<exists>m. ans m"])
  fix rec :: "(nat \<Rightarrow> bool) \<Rightarrow> nat \<Rightarrow> nat \<Rightarrow> nat \<Rightarrow> nat \<Rightarrow> (nat \<times> wait_step list) option"
    and f :: "nat \<Rightarrow> bool" and a b c d r
  assume "\<And>f a b c d r. rec f a b c d = Some r \<Longrightarrow> \<exists>m. f m"
  then show "\<exists>m. f m"
    if "(if f b then Some (b, [])
         else if c < a then do { (k, ws) \<leftarrow> rec f a (Suc b) (u32_mul c 2) d; Some (k, Pauses c # ws) }
         else do { (k, ws) \<leftarrow> rec f a (Suc b) (if u32_add d 1 mod 10 = 0 then 1 else c) (u32_add d 1);
                   Some (k, Pauses c # Yields # ws) }) = Some r"
    using that by (simp add: Option.bind_eq_Some_conv split: if_splits prod.splits) blast+
qed

lemma spin_lock_none:
  assumes "\<forall>n. \<not> ans n"
  shows "ShmSpinLock_Lock ans max_spins = None"
  using spin_loop_found [of ans max_spins 1 1 0] assms
  by (cases "spin_loop ans max_spins 1 1 0") (auto simp: ShmSpinLock_Lock_def)

lemma spin_lock_some:
  assumes "ans n" "\<forall>m<n. \<not> ans m"
  shows "ShmSpinLock_Lock ans max_spins = Some (n, waits max_spins (n - 1) 1 0)"
proof (cases n)
  case 0
  then show ?thesis using assms by (simp add: ShmSpinLock_Lock_def)
next
  case (Suc k)
  then have "\<not> ans 0" using assms(2) by blast
  then show ?thesis
    using spin_loop_stops [of 1 k ans max_spins 1 0] assms Suc by (simp add: ShmSpinLock_Lock_def)
qed

lemma waits_bounded:
  assumes "max_spins \<le> 2 ^ 31" "spins \<le> max 1 (2 * (max_spins - 1))"
  shows "Pauses j \<in> set (waits max_spins k spins attempts) \<Longrightarrow> j \<le> max 1 (2 * (max_spins - 1))"
  using assms(2)
proof (induction k arbitrary: spins attempts)
  case (Suc k)
  have dbl: "u32_mul spins 2 \<le> max 1 (2 * (max_spins - 1))" if "spins < max_spins"
    using that assms(1) by (simp add: umul_small)
  show ?case using Suc.prems Suc.IH dbl
    by (auto split: if_splits)
qed simp

lemma waits_yield:
  assumes "max_spins \<le> 2 ^ 31" "p \<le> 31"
  shows "(k + p) div 32 \<le> count_list (waits max_spins k (2 ^ p) attempts) Yields"
  using assms(2)
proof (induction k arbitrary: p attempts)
  case (Suc k)
  show ?case
  proof (cases "(2::nat) ^ p < max_spins")
    case True
    then have "(2::nat) ^ p < 2 ^ 31" using assms(1) by linarith
    then have p: "Suc p \<le> 31" by (metis Suc_leI one_less_numeral_iff power_strict_increasing_iff semiring_norm(76))
    have "(2::nat) ^ Suc p \<le> 2 ^ 31" using p by (rule power_increasing) simp
    then have "u32_mul (2 ^ p) 2 = 2 ^ Suc p" by (simp add: umul_small)
    then show ?thesis using True Suc.IH [OF p, of attempts] by simp
  next
    case False
    have "1 + (k + q) div 32 \<ge> (Suc k + p) div 32" for q
    proof -
      have "(Suc k + p) div 32 \<le> (k + q + 32) div 32" using Suc.prems by (intro div_le_mono) simp
      then show ?thesis by simp
    qed
    note le = this
    show ?thesis
      using False le [of 0] le [of p] Suc.IH [of 0 "u32_add attempts 1"]
        Suc.IH [OF Suc.prems, of "u32_add attempts 1"]
      by (auto intro: order_trans)
  qed
qed simp

text \<open>
  C30: The loop of \<open>ShmSpinLock::Lock\<close> ends exactly if some call of \<open>TryLock\<close> succeeds, and then
  with the first that does.  With at most \<open>2^31\<close> as \<open>max_spins_\<close> a round pauses less than twice
  that often, and of any 32 rounds one gives the processor away.
\<close>

theorem spin_lock_returns:
  assumes "max_spins \<le> 2 ^ 31"
  shows "((\<exists>r. ShmSpinLock_Lock ans max_spins = Some r) \<longleftrightarrow> (\<exists>n. ans n)) \<and>
    (\<forall>n ws. ShmSpinLock_Lock ans max_spins = Some (n, ws) \<longrightarrow>
       ans n \<and> (\<forall>m<n. \<not> ans m) \<and>
       (\<forall>j. Pauses j \<in> set ws \<longrightarrow> j \<le> max 1 (2 * (max_spins - 1))) \<and>
       (n - 1) div 32 \<le> count_list ws Yields)"
proof (cases "\<exists>n. ans n")
  case False
  then show ?thesis using spin_lock_none [of ans max_spins] by simp
next
  case True
  define n where "n = (LEAST n. ans n)"
  have n: "ans n" "\<forall>m<n. \<not> ans m"
    using True unfolding n_def by (auto intro: LeastI_ex dest: not_less_Least)
  note eq = spin_lock_some [OF n, of max_spins]
  have "j \<le> max 1 (2 * (max_spins - 1))" if "Pauses j \<in> set (waits max_spins (n - 1) 1 0)" for j
    using waits_bounded [OF assms _ that] by simp
  moreover have "(n - 1) div 32 \<le> count_list (waits max_spins (n - 1) 1 0) Yields"
    using waits_yield [OF assms, of 0 "n - 1" 0] by simp
  ultimately show ?thesis using n True by (auto simp: eq)
qed

theorem spin_lock_returns_witness:
  "\<exists>ws. ShmSpinLock_Lock (\<lambda>n. n = 40 \<or> n = 50) 4096 = Some (40, ws) \<and> 1 \<le> count_list ws Yields"
proof -
  define ans where "ans = (\<lambda>n. n = 40 \<or> n = (50::nat))"
  have le: "(4096::nat) \<le> 2 ^ 31" by simp
  note ret = spin_lock_returns [OF le, of ans]
  have "\<exists>n. ans n" unfolding ans_def by blast
  then obtain n ws where r: "ShmSpinLock_Lock ans 4096 = Some (n, ws)"
    using conjunct1 [OF ret] by (metis surj_pair)
  then have n: "ans n" "\<forall>m<n. \<not> ans m" and y: "(n - 1) div 32 \<le> count_list ws Yields"
    using conjunct2 [OF ret] by blast+
  have "\<not> 40 < n" using n(2) unfolding ans_def by blast
  then have "n = 40" using n(1) unfolding ans_def by linarith
  then show ?thesis using r y unfolding ans_def by auto
qed

text \<open>Above \<open>2^31\<close> the doubling wraps to 0 before the bound is reached: nothing waits any more.\<close>

lemma huge_max_spins_never_yields:
  assumes "2 ^ 31 < max_spins" "spins = 0 \<or> (\<exists>p\<le>31. spins = 2 ^ p)"
  shows "Yields \<notin> set (waits max_spins k spins attempts)"
  using assms(2)
proof (induction k arbitrary: spins attempts)
  case (Suc k)
  have "spins \<le> 2 ^ 31" using Suc.prems power_increasing [of _ 31 "2::nat"] by fastforce
  then have lt: "spins < max_spins" using assms(1) by simp
  have "u32_mul spins 2 = 0 \<or> (\<exists>p\<le>31. u32_mul spins 2 = 2 ^ p)"
  proof (cases "spins = 0 \<or> spins = 2 ^ 31")
    case True
    then show ?thesis by (auto simp: umul_def)
  next
    case False
    then obtain p where p: "p \<le> 31" "spins = 2 ^ p" using Suc.prems by blast
    with False have "Suc p \<le> 31" by (metis Suc_leI le_neq_implies_less)
    moreover from this have "(2::nat) ^ Suc p \<le> 2 ^ 31" by (rule power_increasing) simp
    then have "u32_mul spins 2 = 2 ^ Suc p" using p by (simp add: umul_small)
    ultimately show ?thesis by blast
  qed
  from Suc.IH [OF this] lt show ?case by simp
qed simp

section \<open>Processes sharing a lock\<close>

text \<open>
  The processes that are between a successful acquisition and the release (the guarded
  sections of the queue and slab methods), and those that have died.  A process releases only
  what it acquired: all uses in the code are \<open>std::lock_guard\<close>s.
\<close>

record 'm lock_sys =
  lock_mem :: 'm
  inside :: "nat set"
  dead :: "nat set"

datatype lock_event = Tries nat | Waits nat | Leaves nat | Dies nat

definition enters :: "nat \<Rightarrow> bool \<times> 'm \<Rightarrow> 'm lock_sys \<Rightarrow> 'm lock_sys" where
  "enters p r s =
     s\<lparr>lock_mem := snd r, inside := (if fst r then insert p (inside s) else inside s)\<rparr>"

text \<open>
  One step of the system over any lock: \<open>tryl\<close> and \<open>lck\<close> are the two ways in, the second with
  no result while it waits.  A step that is not possible has no result.
\<close>

fun lock_exec ::
  "(nat \<Rightarrow> 'm \<Rightarrow> bool \<times> 'm) \<Rightarrow> (nat \<Rightarrow> 'm \<Rightarrow> (bool \<times> 'm) option) \<Rightarrow> (nat \<Rightarrow> 'm \<Rightarrow> 'm) \<Rightarrow>
   (nat \<Rightarrow> 'm \<Rightarrow> 'm) \<Rightarrow> lock_event \<Rightarrow> 'm lock_sys \<Rightarrow> 'm lock_sys option" where
  "lock_exec tryl lck rel die (Tries p) s =
     (if p \<in> dead s \<or> p \<in> inside s then None else Some (enters p (tryl p (lock_mem s)) s))"
| "lock_exec tryl lck rel die (Waits p) s =
     (if p \<in> dead s \<or> p \<in> inside s then None
      else map_option (\<lambda>r. enters p r s) (lck p (lock_mem s)))"
| "lock_exec tryl lck rel die (Leaves p) s =
     (if p \<in> inside s
      then Some (s\<lparr>lock_mem := rel p (lock_mem s), inside := inside s - {p}\<rparr>) else None)"
| "lock_exec tryl lck rel die (Dies p) s =
     (if p \<in> dead s then None
      else Some (s\<lparr>lock_mem := die p (lock_mem s), inside := inside s - {p},
                   dead := insert p (dead s)\<rparr>))"

text \<open>
  What the processes rely on: a lock has at most one owner, only a free lock is acquired, a
  failed attempt changes neither, and a lock whose owner died is lost.
\<close>

locale process_lock =
  fixes tryl :: "nat \<Rightarrow> 'm \<Rightarrow> bool \<times> 'm"
    and lck :: "nat \<Rightarrow> 'm \<Rightarrow> (bool \<times> 'm) option"
    and rel :: "nat \<Rightarrow> 'm \<Rightarrow> 'm"
    and die :: "nat \<Rightarrow> 'm \<Rightarrow> 'm"
    and owner :: "'m \<Rightarrow> nat option"
    and lost :: "'m \<Rightarrow> bool"
  assumes tryl_gets: "tryl p m = (True, m') \<Longrightarrow> owner m = None \<and> \<not> lost m \<and> owner m' = Some p \<and> \<not> lost m'"
    and tryl_fails: "tryl p m = (False, m') \<Longrightarrow> owner m' = owner m \<and> lost m' = lost m"
    and lck_tryl: "lck p m = Some r \<Longrightarrow> tryl p m = r"
    and rel_frees: "owner m = Some p \<Longrightarrow> owner (rel p m) = None \<and> \<not> lost (rel p m)"
    and die_owner: "owner m = Some p \<Longrightarrow> owner (die p m) = None \<and> lost (die p m)"
    and die_other: "owner m \<noteq> Some p \<Longrightarrow> owner (die p m) = owner m \<and> lost (die p m) = lost m"
    and owned_not_lost: "owner m = Some p \<Longrightarrow> \<not> lost m"
begin

definition exclusive :: "'m lock_sys \<Rightarrow> bool" where
  "exclusive s \<longleftrightarrow> inside s = set_option (owner (lock_mem s)) \<and> inside s \<inter> dead s = {}"

lemma enters_exclusive:
  assumes "exclusive s" "p \<notin> dead s" "tryl p (lock_mem s) = r"
  shows "exclusive (enters p r s) \<and> (lost (lock_mem s) \<longrightarrow> lost (lock_mem (enters p r s)))"
  using assms tryl_gets [of p "lock_mem s" "snd r"] tryl_fails [of p "lock_mem s" "snd r"]
  by (cases "fst r"; cases r) (auto simp: exclusive_def enters_def)

lemma exec_exclusive:
  assumes "exclusive s" "lock_exec tryl lck rel die e s = Some t"
  shows "exclusive t \<and> (lost (lock_mem s) \<longrightarrow> lost (lock_mem t))"
proof (cases e)
  case (Tries p)
  then show ?thesis using assms enters_exclusive [of s p] by (auto split: if_splits)
next
  case (Waits p)
  then show ?thesis using assms enters_exclusive [of s p] lck_tryl [of p "lock_mem s"]
    by (auto split: if_splits)
next
  case (Leaves p)
  then have "p \<in> inside s" and t: "t = s\<lparr>lock_mem := rel p (lock_mem s), inside := inside s - {p}\<rparr>"
    using assms(2) by (auto split: if_splits)
  then have o: "owner (lock_mem s) = Some p" "inside s = {p}"
    using assms(1) by (auto simp: exclusive_def)
  then show ?thesis
    using rel_frees [of "lock_mem s" p] owned_not_lost [of "lock_mem s" p]
    by (simp add: t exclusive_def)
next
  case (Dies p)
  then have t: "t = s\<lparr>lock_mem := die p (lock_mem s), inside := inside s - {p},
                   dead := insert p (dead s)\<rparr>"
    using assms(2) by (auto split: if_splits)
  show ?thesis
  proof (cases "owner (lock_mem s) = Some p")
    case True
    then show ?thesis using assms(1) die_owner [of "lock_mem s" p] by (simp add: t exclusive_def)
  next
    case False
    then show ?thesis using assms(1) die_other [of "lock_mem s" p]
      by (auto simp: t exclusive_def)
  qed
qed

lemma owner_death_loses:
  assumes "exclusive s" "p \<in> inside s" "lock_exec tryl lck rel die (Dies p) s = Some t"
  shows "exclusive t \<and> lost (lock_mem t) \<and> inside t = {}"
proof -
  have "owner (lock_mem s) = Some p" "inside s = {p}" using assms(1,2) by (auto simp: exclusive_def)
  then show ?thesis using assms exec_exclusive [of s "Dies p" t] die_owner [of "lock_mem s" p]
    by (auto split: if_splits)
qed

lemma lost_shut: "lost m \<Longrightarrow> \<not> fst (tryl q m)"
  using tryl_gets [of q m "snd (tryl q m)"] by (metis prod.collapse)

lemma lost_nobody: "exclusive s \<Longrightarrow> lost (lock_mem s) \<Longrightarrow> inside s = {}"
  using owned_not_lost by (cases "owner (lock_mem s)") (auto simp: exclusive_def)

end

text \<open>The lock of the program: \<open>ShmSpinLock\<close>, or \<open>ShmLock\<close>, whose \<open>Lock\<close> may throw.\<close>

definition Lock_in :: "nat \<Rightarrow> pmutex \<Rightarrow> (bool \<times> pmutex) option" where
  "Lock_in p m = map_option (\<lambda>(r, m'). (r = Inr (), m')) (ShmLock_Lock p m)"

definition lock_step :: "bool \<Rightarrow> lock_event \<Rightarrow> pmutex lock_sys \<Rightarrow> pmutex lock_sys option" where
  "lock_step robust =
     lock_exec ShmSpinLock_TryLock Lock_in (\<lambda>p m. snd (ShmSpinLock_Unlock p m)) (owner_dies robust)"

fun mutex_owner :: "pmutex \<Rightarrow> nat option" where
  "mutex_owner (LockedBy p) = Some p"
| "mutex_owner m = None"

fun mutex_lost :: "pmutex \<Rightarrow> bool" where
  "mutex_lost Unlocked = False"
| "mutex_lost (LockedBy p) = False"
| "mutex_lost m = True"

definition lock_init :: "pmutex lock_sys" where
  "lock_init = \<lparr>lock_mem = Unlocked, inside = {}, dead = {}\<rparr>"

inductive lock_reach :: "bool \<Rightarrow> pmutex lock_sys \<Rightarrow> pmutex lock_sys \<Rightarrow> bool" for robust where
  lock_refl: "lock_reach robust s s"
| lock_then: "lock_reach robust s t \<Longrightarrow> lock_step robust e t = Some u \<Longrightarrow> lock_reach robust s u"

lemmas lock_defs = ShmSpinLock_TryLock_def ShmLock_TryLock_def ShmSpinLock_Unlock_def
  ShmLock_Unlock_def Lock_in_def ShmLock_Lock_def pthread_mutex_lock_def

interpretation shm: process_lock ShmSpinLock_TryLock Lock_in "\<lambda>p m. snd (ShmSpinLock_Unlock p m)"
  "owner_dies robust" mutex_owner mutex_lost for robust
proof unfold_locales
  show "ShmSpinLock_TryLock p m = (True, m') \<Longrightarrow>
      mutex_owner m = None \<and> \<not> mutex_lost m \<and> mutex_owner m' = Some p \<and> \<not> mutex_lost m'" for p m m'
    by (cases m) (auto simp: lock_defs)
  show "ShmSpinLock_TryLock p m = (False, m') \<Longrightarrow>
      mutex_owner m' = mutex_owner m \<and> mutex_lost m' = mutex_lost m" for p m m'
    by (cases m) (auto simp: lock_defs)
  show "Lock_in p m = Some r \<Longrightarrow> ShmSpinLock_TryLock p m = r" for p m r
    by (cases m) (auto simp: lock_defs Let_def)
  show "mutex_owner m = Some p \<Longrightarrow> mutex_owner (snd (ShmSpinLock_Unlock p m)) = None \<and>
      \<not> mutex_lost (snd (ShmSpinLock_Unlock p m))" for p m
    by (cases m) (auto simp: lock_defs)
  show "mutex_owner m = Some p \<Longrightarrow>
      mutex_owner (owner_dies robust p m) = None \<and> mutex_lost (owner_dies robust p m)" for p m
    by (cases m) auto
  show "mutex_owner m \<noteq> Some p \<Longrightarrow> mutex_owner (owner_dies robust p m) = mutex_owner m \<and>
      mutex_lost (owner_dies robust p m) = mutex_lost m" for p m
    by (cases m) auto
  show "mutex_owner m = Some p \<Longrightarrow> \<not> mutex_lost m" for p m
    by (cases m) auto
qed

lemma reach_exclusive:
  assumes "lock_reach robust s t"
  shows "shm.exclusive s \<Longrightarrow>
    shm.exclusive t \<and> (mutex_lost (lock_mem s) \<longrightarrow> mutex_lost (lock_mem t))"
  using assms
proof (induction rule: lock_reach.induct)
  case (lock_then s t e u)
  then show ?case
    using shm.exec_exclusive [where robust = robust, of t e u] by (auto simp: lock_step_def)
qed simp

lemma lock_init_exclusive: "shm.exclusive lock_init"
  by (simp add: shm.exclusive_def lock_init_def)

text \<open>
  C31: However processes take the lock, wait for it, leave it and die, at most one is inside, it
  is alive, and releasing the lock never throws.
\<close>

theorem lock_excludes:
  assumes "lock_reach robust lock_init s" "p \<in> inside s"
  shows "inside s = {p} \<and> p \<notin> dead s \<and> ShmSpinLock_Unlock p (lock_mem s) = (Inr (), Unlocked)"
proof -
  have ex: "shm.exclusive s" using reach_exclusive [OF assms(1)] lock_init_exclusive by blast
  then have "mutex_owner (lock_mem s) = Some p" using assms(2) by (auto simp: shm.exclusive_def)
  moreover from this have "lock_mem s = LockedBy p" by (cases "lock_mem s") auto
  ultimately show ?thesis using ex assms(2) by (auto simp: shm.exclusive_def lock_defs)
qed

lemma lock_path: "lock_reach robust s t \<Longrightarrow> lock_step robust e t = Some u \<Longrightarrow> lock_reach robust s u"
  by (rule lock_then)

text \<open>Process 7 acquires, process 8 fails, 7 leaves, and 8 gets the lock.\<close>

definition lock_s1 :: "pmutex lock_sys" where
  "lock_s1 = lock_init\<lparr>lock_mem := LockedBy 7, inside := {7}\<rparr>"

lemma lock_s1_reached: "lock_reach robust lock_init lock_s1"
  by (rule lock_path [OF lock_refl, where e = "Tries 7"])
    (simp add: lock_step_def lock_s1_def lock_init_def enters_def lock_defs)

lemma lock_s2_reached:
  "lock_reach robust lock_init (lock_init\<lparr>lock_mem := LockedBy 8, inside := {8}\<rparr>)"
proof -
  have "lock_reach robust lock_init lock_s1"
    by (rule lock_path [OF lock_s1_reached, where e = "Tries 8"])
      (simp add: lock_step_def lock_s1_def lock_init_def enters_def lock_defs)
  then have "lock_reach robust lock_init lock_init"
    by (rule lock_path [where e = "Leaves 7"])
      (simp add: lock_step_def lock_s1_def lock_init_def enters_def lock_defs)
  then show ?thesis
    by (rule lock_path [where e = "Waits 8"])
      (simp add: lock_step_def lock_init_def enters_def lock_defs)
qed

theorem lock_excludes_witness:
  "ShmSpinLock_Unlock 8 (LockedBy 8) = (Inr (), Unlocked)"
  using lock_excludes [OF lock_s2_reached [of True], of 8] by simp

text \<open>
  C32: A process that dies between acquiring the lock and releasing it shuts the lock for good,
  whether the mutex is robust or not: nobody is inside ever after, every \<open>TryLock\<close> fails and no
  \<open>ShmSpinLock::Lock\<close> returns, however the processes that are left go on.
\<close>

theorem owner_death_shuts_lock:
  assumes "lock_reach robust lock_init s" "p \<in> inside s" "lock_step robust (Dies p) s = Some (run 0)"
    and "\<forall>i. lock_reach robust (run i) (run (Suc i))"
  shows "(\<forall>i q. inside (run i) = {} \<and> \<not> fst (ShmSpinLock_TryLock q (lock_mem (run i)))) \<and>
    (\<forall>q max_spins.
       ShmSpinLock_Lock (\<lambda>i. fst (ShmSpinLock_TryLock q (lock_mem (run i)))) max_spins = None)"
proof -
  have "shm.exclusive s" using reach_exclusive [OF assms(1)] lock_init_exclusive by blast
  then have 0: "shm.exclusive (run 0) \<and> mutex_lost (lock_mem (run 0))"
    using shm.owner_death_loses [where robust = robust, of s p "run 0"] assms(2,3)
    by (simp add: lock_step_def)
  have run: "shm.exclusive (run i) \<and> mutex_lost (lock_mem (run i))" for i
  proof (induction i)
    case (Suc i)
    then show ?case using reach_exclusive [of robust "run i" "run (Suc i)"] assms(4) by blast
  qed (rule 0)
  have shut: "\<not> fst (ShmSpinLock_TryLock q (lock_mem (run i)))" for i q
    using run shm.lost_shut by blast
  show ?thesis
    using run shut shm.lost_nobody spin_lock_none by simp
qed

text \<open>Process 7 dies inside; process 8 tries again and again; its first try takes the
  mutex over and is reported as a failure.\<close>

definition dead_run :: "nat \<Rightarrow> pmutex lock_sys" where
  "dead_run i = \<lparr>lock_mem = (if i = 0 then Orphaned else Inherited 8), inside = {}, dead = {7}\<rparr>"

theorem owner_death_shuts_lock_witness:
  "ShmSpinLock_Lock (\<lambda>i. fst (ShmSpinLock_TryLock 8 (lock_mem (dead_run i)))) 4096 = None"
proof -
  have in7: "7 \<in> inside lock_s1" by (simp add: lock_s1_def)
  have die: "lock_step True (Dies 7) lock_s1 = Some (dead_run 0)"
    by (simp add: lock_step_def lock_s1_def lock_init_def dead_run_def)
  have "lock_reach True (dead_run i) (dead_run (Suc i))" for i
    by (rule lock_path [OF lock_refl, where e = "Tries 8"])
      (simp add: lock_step_def dead_run_def enters_def lock_defs)
  then show ?thesis
    using owner_death_shuts_lock [of True lock_s1 7 dead_run] lock_s1_reached in7 die by blast
qed

text \<open>The blocking \<open>Lock\<close> of \<open>ShmLock\<close> throws on a robust mutex whose owner died, and keeps it locked.\<close>

lemma ShmLock_Lock_throws_holding:
  "ShmLock_Lock p Orphaned = Some (Inl Thrown, Inherited p)"
  by (simp add: lock_defs)

end
