(* ===== verification/RingBuffer.thy ===== *)
theory RingBuffer
  imports Prelude "HOL-Library.Monad_Syntax"
begin

text \<open>
  \<open>ShmRingBuffer\<close> (server/core/shm/shm_ringbuffer.h, shm_ringbuffer.cpp): the circular buffer in
  shared memory behind every connection's receive path and every bus queue. The record holds the
  shared header (\<open>head\<close>, \<open>tail\<close>, \<open>capacity\<close>, \<open>element_size\<close>, \<open>initialized\<close>), the element area and the
  handle's \<open>ring_size_\<close>. Each method runs under the buffer's lock and is one step here; \<open>TryPush\<close>
  and \<open>TryPop\<close> take the outcome of \<open>TryLock\<close> as an argument. \<^term>\<open>None\<close> is undefined behaviour:
  an access outside the element area or a division by zero. \<open>size_t\<close> arithmetic wraps at 64 bits.
\<close>

section \<open>State\<close>

record 'a ring =
  rb_head :: nat
  rb_tail :: nat
  rb_capacity :: nat
  rb_element_size :: nat
  rb_initialized :: bool
  rb_ring_size :: nat
  rb_buffer :: "'a list"

definition sz_mod :: "nat \<Rightarrow> nat \<Rightarrow> nat option" where
  "sz_mod a n = (if n = 0 then None else Some (a mod n))"

section \<open>Construction\<close>

definition InitShm :: "nat \<Rightarrow> bool \<Rightarrow> 'a ring \<Rightarrow> 'a ring option" where
  "InitShm sizeof_T init_header r =
     (if init_header then
        Some (r\<lparr>rb_head := 0, rb_tail := 0, rb_capacity := rb_ring_size r,
                rb_element_size := sizeof_T, rb_initialized := True\<rparr>)
      else if \<not> rb_initialized r \<or> rb_capacity r \<noteq> rb_ring_size r \<or> rb_element_size r \<noteq> sizeof_T
      then None
      else Some r)"

definition CalculateShmSize :: "nat \<Rightarrow> nat \<Rightarrow> nat \<Rightarrow> nat \<Rightarrow> nat" where
  "CalculateShmSize sizeof_mutex sizeof_header sizeof_T ring_size =
     sz_add (sz_add sizeof_mutex sizeof_header) (umul 64 ring_size sizeof_T)"

text \<open>
  The constructor maps the region (a failed \<open>Open\<close> throws, \<^term>\<open>None\<close>) and re-initialises the
  header whether the region is new or already in use.
\<close>

definition ShmRingBuffer_ctor :: "nat \<Rightarrow> nat \<Rightarrow> 'a ring option \<Rightarrow> 'a ring option" where
  "ShmRingBuffer_ctor sizeof_T ring_size mapped =
     do { m \<leftarrow> mapped; InitShm sizeof_T True (m\<lparr>rb_ring_size := ring_size\<rparr>) }"

section \<open>Observers\<close>

definition IsEmpty :: "'a ring \<Rightarrow> bool" where
  "IsEmpty r \<longleftrightarrow> rb_head r = rb_tail r"

definition IsFull :: "'a ring \<Rightarrow> bool option" where
  "IsFull r = map_option (\<lambda>t. t = rb_head r) (sz_mod (sz_add (rb_tail r) 1) (rb_ring_size r))"

definition Used :: "'a ring \<Rightarrow> nat" where
  "Used r =
     (if rb_tail r \<ge> rb_head r then sz_sub (rb_tail r) (rb_head r)
      else sz_sub (rb_ring_size r) (sz_sub (rb_head r) (rb_tail r)))"

definition Available :: "'a ring \<Rightarrow> nat" where
  "Available r =
     (if rb_tail r \<ge> rb_head r
      then sz_sub (sz_sub (rb_ring_size r) (sz_sub (rb_tail r) (rb_head r))) 1
      else sz_sub (sz_sub (rb_head r) (rb_tail r)) 1)"

definition Size :: "'a ring \<Rightarrow> nat" where
  "Size r = Used r"

definition Capacity :: "'a ring \<Rightarrow> nat" where
  "Capacity r = rb_ring_size r"

definition Reset :: "'a ring \<Rightarrow> 'a ring" where
  "Reset r = r\<lparr>rb_head := 0, rb_tail := 0\<rparr>"

section \<open>Element operations\<close>

definition Push :: "'a ring \<Rightarrow> 'a \<Rightarrow> (bool \<times> 'a ring) option" where
  "Push r item =
     do { full \<leftarrow> IsFull r;
          if full then Some (False, r)
          else do { b \<leftarrow> mem_write (rb_buffer r) (rb_tail r) [item];
                    t \<leftarrow> sz_mod (sz_add (rb_tail r) 1) (rb_ring_size r);
                    Some (True, r\<lparr>rb_buffer := b, rb_tail := t\<rparr>) } }"

definition Pop :: "'a ring \<Rightarrow> ('a option \<times> 'a ring) option" where
  "Pop r =
     (if IsEmpty r then Some (None, r)
      else do { xs \<leftarrow> mem_read (rb_buffer r) (rb_head r) 1;
                h \<leftarrow> sz_mod (sz_add (rb_head r) 1) (rb_ring_size r);
                Some (Some (hd xs), r\<lparr>rb_head := h\<rparr>) })"

definition Drop :: "'a ring \<Rightarrow> nat \<Rightarrow> (bool \<times> 'a ring) option" where
  "Drop r count =
     (if count = 0 then Some (False, r)
      else let available = Used r in
        if available = 0 then Some (False, r)
        else do { h \<leftarrow> sz_mod (sz_add (rb_head r) (if count > available then available else count))
                              (rb_ring_size r);
                  Some (True, r\<lparr>rb_head := h\<rparr>) })"

definition TryPush :: "bool \<Rightarrow> 'a ring \<Rightarrow> 'a \<Rightarrow> (bool \<times> 'a ring) option" where
  "TryPush locked r item =
     (if \<not> locked then Some (False, r)
      else do { full \<leftarrow> IsFull r;
                if full then Some (False, r)
                else do { b \<leftarrow> mem_write (rb_buffer r) (rb_tail r) [item];
                          t \<leftarrow> sz_mod (sz_add (rb_tail r) 1) (rb_ring_size r);
                          Some (True, r\<lparr>rb_buffer := b, rb_tail := t\<rparr>) } })"

definition TryPop :: "bool \<Rightarrow> 'a ring \<Rightarrow> ('a option \<times> 'a ring) option" where
  "TryPop locked r =
     (if \<not> locked then Some (None, r)
      else if IsEmpty r then Some (None, r)
      else do { xs \<leftarrow> mem_read (rb_buffer r) (rb_head r) 1;
                h \<leftarrow> sz_mod (sz_add (rb_head r) 1) (rb_ring_size r);
                Some (Some (hd xs), r\<lparr>rb_head := h\<rparr>) })"

text \<open>The generic bulk operations loop over the element operations and stop at the first failure.\<close>

fun PushItems :: "'a ring \<Rightarrow> 'a list \<Rightarrow> (bool \<times> 'a ring) option" where
  "PushItems r [] = Some (True, r)"
| "PushItems r (x # xs) =
     do { (ok, r') \<leftarrow> Push r x;
          if ok then PushItems r' xs else Some (False, r') }"

fun PopItems :: "'a ring \<Rightarrow> nat \<Rightarrow> (bool \<times> 'a list \<times> 'a ring) option" where
  "PopItems r 0 = Some (True, [], r)"
| "PopItems r (Suc k) =
     do { (x, r') \<leftarrow> Pop r;
          case x of None \<Rightarrow> Some (False, [], r')
          | Some y \<Rightarrow> do { (ok, ys, r'') \<leftarrow> PopItems r' k; Some (ok, y # ys, r'') } }"

section \<open>The byte specialisation\<close>

text \<open>
  \<open>items\<close> is the caller's array and \<open>count\<close> the number of bytes to move; the result of \<open>Peek\<close> and
  \<open>PopBytes\<close> is the bytes copied out, or \<^term>\<open>None\<close> inside where the method returns \<open>false\<close>.
\<close>

definition PushBytes :: "'a ring \<Rightarrow> 'a list \<Rightarrow> nat \<Rightarrow> (bool \<times> 'a ring) option" where
  "PushBytes r items count =
     (if count = 0 then Some (True, r)
      else if Available r < count then Some (False, r)
      else
        let contiguous_available = sz_sub (rb_ring_size r) (rb_tail r) in
        if contiguous_available \<ge> count then
          do { src \<leftarrow> mem_read items 0 count;
               b \<leftarrow> mem_write (rb_buffer r) (rb_tail r) src;
               t \<leftarrow> sz_mod (sz_add (rb_tail r) count) (rb_ring_size r);
               Some (True, r\<lparr>rb_buffer := b, rb_tail := t\<rparr>) }
        else
          do { src1 \<leftarrow> mem_read items 0 contiguous_available;
               b1 \<leftarrow> mem_write (rb_buffer r) (rb_tail r) src1;
               src2 \<leftarrow> mem_read items contiguous_available (sz_sub count contiguous_available);
               b2 \<leftarrow> mem_write b1 0 src2;
               Some (True, r\<lparr>rb_buffer := b2, rb_tail := sz_sub count contiguous_available\<rparr>) })"

definition PopBytes :: "'a ring \<Rightarrow> nat \<Rightarrow> ('a list option \<times> 'a ring) option" where
  "PopBytes r count =
     (if count = 0 then Some (Some [], r)
      else if Used r < count then Some (None, r)
      else
        let contiguous_available = sz_sub (rb_ring_size r) (rb_head r) in
        if contiguous_available \<ge> count then
          do { xs \<leftarrow> mem_read (rb_buffer r) (rb_head r) count;
               h \<leftarrow> sz_mod (sz_add (rb_head r) count) (rb_ring_size r);
               Some (Some xs, r\<lparr>rb_head := h\<rparr>) }
        else
          do { xs \<leftarrow> mem_read (rb_buffer r) (rb_head r) contiguous_available;
               ys \<leftarrow> mem_read (rb_buffer r) 0 (sz_sub count contiguous_available);
               Some (Some (xs @ ys), r\<lparr>rb_head := sz_sub count contiguous_available\<rparr>) })"

definition Peek :: "'a ring \<Rightarrow> nat \<Rightarrow> 'a list option option" where
  "Peek r count =
     (if count = 0 then Some (Some [])
      else if Used r < count then Some None
      else
        let contiguous_available = sz_sub (rb_ring_size r) (rb_head r) in
        if contiguous_available \<ge> count then
          do { xs \<leftarrow> mem_read (rb_buffer r) (rb_head r) count; Some (Some xs) }
        else
          do { xs \<leftarrow> mem_read (rb_buffer r) (rb_head r) contiguous_available;
               ys \<leftarrow> mem_read (rb_buffer r) 0 (sz_sub count contiguous_available);
               Some (Some (xs @ ys)) })"

text \<open>\<open>PushFront\<close> also checks its pointer: \<^term>\<open>None\<close> as the items is the null pointer.\<close>

definition PushFront :: "'a ring \<Rightarrow> 'a list option \<Rightarrow> nat \<Rightarrow> (bool \<times> 'a ring) option" where
  "PushFront r items count =
     (if count = 0 then Some (True, r)
      else case items of None \<Rightarrow> Some (False, r)
      | Some xs \<Rightarrow>
        if Available r < count then Some (False, r)
        else
          let contiguous_available = rb_head r in
          if contiguous_available \<ge> count then
            do { src \<leftarrow> mem_read xs 0 count;
                 b \<leftarrow> mem_write (rb_buffer r) (sz_sub (rb_head r) count) src;
                 h \<leftarrow> sz_mod (sz_add (sz_sub (rb_head r) count) (rb_ring_size r)) (rb_ring_size r);
                 Some (True, r\<lparr>rb_buffer := b, rb_head := h\<rparr>) }
          else
            let first_part = sz_sub count contiguous_available in
            do { src1 \<leftarrow> mem_read xs 0 first_part;
                 b1 \<leftarrow> mem_write (rb_buffer r) (sz_sub (rb_ring_size r) first_part) src1;
                 src2 \<leftarrow> mem_read xs first_part contiguous_available;
                 b2 \<leftarrow> mem_write b1 0 src2;
                 Some (True, r\<lparr>rb_buffer := b2,
                               rb_head := sz_sub (rb_ring_size r) first_part\<rparr>) })"

section \<open>Invariant and abstraction\<close>

definition rb_inv :: "'a ring \<Rightarrow> bool" where
  "rb_inv r \<longleftrightarrow>
     0 < rb_ring_size r \<and> rb_ring_size r < 2 ^ 63 \<and>
     length (rb_buffer r) = rb_ring_size r \<and>
     rb_head r < rb_ring_size r \<and> rb_tail r < rb_ring_size r"

definition contents :: "'a ring \<Rightarrow> 'a list" where
  "contents r = cread (rb_buffer r) (rb_head r) (Used r)"

lemma rb_invD:
  assumes "rb_inv r"
  shows "0 < rb_ring_size r" "rb_ring_size r < 2 ^ 63" "length (rb_buffer r) = rb_ring_size r"
    "rb_head r < rb_ring_size r" "rb_tail r < rb_ring_size r"
  using assms by (auto simp: rb_inv_def)

lemma Used_eq:
  assumes "rb_inv r"
  shows "Used r = (if rb_head r \<le> rb_tail r then rb_tail r - rb_head r
                   else rb_ring_size r - (rb_head r - rb_tail r))"
  using rb_invD [OF assms] by (simp add: Used_def usub_small)

lemma Used_less: "rb_inv r \<Longrightarrow> Used r < rb_ring_size r"
  using rb_invD [of r] by (auto simp: Used_eq)

lemma Available_eq: "rb_inv r \<Longrightarrow> Available r = rb_ring_size r - 1 - Used r"
  using rb_invD [of r] by (auto simp: Used_eq Available_def usub_small)

lemma tail_eq: "rb_inv r \<Longrightarrow> rb_tail r = (rb_head r + Used r) mod rb_ring_size r"
  using rb_invD [of r] by (auto simp: Used_eq mod_if)

lemma Used_unique:
  assumes "rb_inv r" "u < rb_ring_size r" "rb_tail r = (rb_head r + u) mod rb_ring_size r"
  shows "Used r = u"
  using assms rb_invD [OF assms(1)] by (auto simp: Used_eq mod_if split: if_splits)

lemma contents_length [simp]: "length (contents r) = Used r"
  by (simp add: contents_def)

lemma IsEmpty_iff: "rb_inv r \<Longrightarrow> IsEmpty r \<longleftrightarrow> contents r = []"
  using rb_invD [of r] by (auto simp: IsEmpty_def Used_eq simp flip: length_0_conv split: if_splits)

lemma IsFull_iff:
  assumes "rb_inv r"
  shows "IsFull r = Some (Used r + 1 = rb_ring_size r)"
proof -
  note d = rb_invD [OF assms]
  have "sz_add (rb_tail r) 1 = rb_tail r + 1"
    using d by (simp add: uadd_small)
  moreover have "(rb_tail r + 1) mod rb_ring_size r
      = (if rb_tail r + 1 = rb_ring_size r then 0 else rb_tail r + 1)"
    using d by (auto simp: mod_if)
  ultimately show ?thesis
    using d by (auto simp: IsFull_def sz_mod_def Used_eq assms)
qed

text \<open>The two ways the state changes: a write behind the tail, a write before the head.\<close>

lemma append_at_tail:
  assumes "rb_inv r" "cwritten (rb_buffer r) b (rb_tail r) xs"
    "Used r + length xs < rb_ring_size r" "t = (rb_tail r + length xs) mod rb_ring_size r"
  defines "r' \<equiv> r\<lparr>rb_buffer := b, rb_tail := t\<rparr>"
  shows "rb_inv r' \<and> contents r' = contents r @ xs"
proof -
  note d = rb_invD [OF assms(1)]
  let ?n = "rb_ring_size r" and ?h = "rb_head r" and ?u = "Used r"
  have lb: "length b = ?n" using assms(2) d by (simp add: cwritten_def)
  have inv: "rb_inv r'" using d lb assms(4) by (simp add: r'_def rb_inv_def)
  have t: "t = (?h + (?u + length xs)) mod ?n"
    using assms(4) tail_eq [OF assms(1)] by (simp add: mod_add_left_eq add.assoc)
  have used: "Used r' = ?u + length xs"
    using Used_unique [OF inv, of "?u + length xs"] assms(3) t by (simp add: r'_def)
  have "cread b ?h ?u = cread (rb_buffer r) ?h ?u"
  proof (rule cwritten_read_other [OF assms(2)])
    show "0 < length (rb_buffer r)" using d by simp
    fix i j assume "i < ?u" "j < length xs"
    then show "(?h + i) mod length (rb_buffer r) \<noteq> (rb_tail r + j) mod length (rb_buffer r)"
      using mod_slots_distinct [of i ?u "length xs" ?n j ?h] assms(3) d
        tail_eq [OF assms(1)] by (simp add: mod_add_left_eq)
  qed
  moreover have "cread b (rb_tail r) (length xs) = xs"
    by (rule cwritten_read [OF assms(2)])
  ultimately have "contents r' = contents r @ xs"
    using used cread_split [of b ?h ?u "length xs"] tail_eq [OF assms(1)] lb
    by (simp add: contents_def r'_def)
  with inv show ?thesis ..
qed

lemma prepend_at_head:
  assumes "rb_inv r" "cwritten (rb_buffer r) b h xs" "h < rb_ring_size r"
    "Used r + length xs < rb_ring_size r" "rb_head r = (h + length xs) mod rb_ring_size r"
  defines "r' \<equiv> r\<lparr>rb_buffer := b, rb_head := h\<rparr>"
  shows "rb_inv r' \<and> contents r' = xs @ contents r"
proof -
  note d = rb_invD [OF assms(1)]
  let ?n = "rb_ring_size r" and ?u = "Used r" and ?k = "length xs"
  have lb: "length b = ?n" using assms(2) d by (simp add: cwritten_def)
  have inv: "rb_inv r'" using d lb assms(3) by (simp add: r'_def rb_inv_def)
  have "rb_tail r = (h + (?k + ?u)) mod ?n"
    using tail_eq [OF assms(1)] assms(5) by (simp add: mod_add_left_eq add.assoc)
  then have used: "Used r' = ?k + ?u"
    using Used_unique [OF inv, of "?k + ?u"] assms(4) by (simp add: r'_def)
  have "cread b (rb_head r) ?u = cread (rb_buffer r) (rb_head r) ?u"
  proof (rule cwritten_read_other [OF assms(2)])
    show "0 < length (rb_buffer r)" using d by simp
    fix i j assume ij: "i < ?u" "j < ?k"
    have "(h + j) mod ?n \<noteq> (h + ?k + i) mod ?n"
      using mod_slots_distinct [of j ?k ?u ?n i h] assms(4) ij by simp
    moreover have "(rb_head r + i) mod ?n = (h + ?k + i) mod ?n"
      unfolding assms(5) by (rule mod_add_left_eq)
    ultimately show "(rb_head r + i) mod length (rb_buffer r) \<noteq> (h + j) mod length (rb_buffer r)"
      unfolding d(3) by simp
  qed
  moreover have "cread b h ?k = xs" by (rule cwritten_read [OF assms(2)])
  ultimately have "contents r' = xs @ contents r"
    using used cread_split [of b h ?k ?u] assms(5) lb by (simp add: contents_def r'_def)
  with inv show ?thesis ..
qed

lemma drop_at_head:
  assumes "rb_inv r" "k \<le> Used r" "h = (rb_head r + k) mod rb_ring_size r"
  defines "r' \<equiv> r\<lparr>rb_head := h\<rparr>"
  shows "rb_inv r' \<and> contents r' = drop k (contents r)"
proof -
  note d = rb_invD [OF assms(1)]
  have inv: "rb_inv r'" using d assms(3) by (simp add: r'_def rb_inv_def)
  have "(h + (Used r - k)) mod rb_ring_size r = (rb_head r + k + (Used r - k)) mod rb_ring_size r"
    unfolding assms(3) by (rule mod_add_left_eq)
  then have "rb_tail r = (h + (Used r - k)) mod rb_ring_size r"
    using tail_eq [OF assms(1)] assms(2) by simp
  then have "Used r' = Used r - k"
    using Used_unique [OF inv, of "Used r - k"] Used_less [OF assms(1)] by (simp add: r'_def)
  then have "contents r' = drop k (contents r)"
    using cread_drop [OF assms(2), of "rb_buffer r" "rb_head r"] d assms(3)
    by (simp add: contents_def r'_def)
  with inv show ?thesis ..
qed

text \<open>A write that wraps past the end is two block writes.\<close>

lemma wrapped_write:
  assumes "p < length b" "length b - p < length xs" "length xs \<le> length b"
  shows "\<exists>b1 b2. mem_write b p (take (length b - p) xs) = Some b1 \<and>
           mem_write b1 0 (drop (length b - p) xs) = Some b2 \<and> cwritten b b2 p xs"
proof -
  let ?c = "length b - p"
  have l: "length (take ?c xs) = ?c" using assms by simp
  then obtain b1 where b1: "mem_write b p (take ?c xs) = Some b1"
    using assms(1) by (simp add: mem_write_def)
  have l1: "length b1 = length b" by (rule mem_write_length [OF b1])
  have "length (drop ?c xs) \<le> length b1" using assms(3) l1 by simp
  then obtain b2 where b2: "mem_write b1 0 (drop ?c xs) = Some b2"
    unfolding mem_write_def by (metis add_0)
  have c1: "cwritten b b1 p (take ?c xs)"
    using cwritten_contiguous [OF b1] l assms(1) by simp
  have "cwritten b1 b2 0 (drop ?c xs)"
    using cwritten_contiguous [OF b2] l1 assms(3) by simp
  moreover have "(p + length (take ?c xs)) mod length b = 0" using l assms(1) by simp
  ultimately have c2: "cwritten b1 b2 ((p + length (take ?c xs)) mod length b) (drop ?c xs)"
    by simp
  have "length (take ?c xs) + length (drop ?c xs) \<le> length b" using assms by simp
  from cwritten_append [OF c1 c2 this] have "cwritten b b2 p xs" by simp
  then show ?thesis using b1 b2 by auto
qed

lemma straight_write:
  assumes "p + length xs \<le> length b"
  shows "\<exists>b1. mem_write b p xs = Some b1 \<and> cwritten b b1 p xs"
  using assms cwritten_contiguous [of b p xs] by (auto simp: mem_write_def)

section \<open>Functional behaviour\<close>

lemma Push_spec:
  assumes "rb_inv r"
  shows "\<exists>r'. Push r x = Some (Used r + 1 < rb_ring_size r, r') \<and> rb_inv r' \<and>
           rb_ring_size r' = rb_ring_size r \<and>
           contents r' = (if Used r + 1 < rb_ring_size r then contents r @ [x] else contents r)"
proof (cases "Used r + 1 < rb_ring_size r")
  case True
  note d = rb_invD [OF assms]
  obtain b where b: "mem_write (rb_buffer r) (rb_tail r) [x] = Some b"
      "cwritten (rb_buffer r) b (rb_tail r) [x]"
    using straight_write [of "rb_tail r" "[x]" "rb_buffer r"] d by auto
  let ?t = "(rb_tail r + 1) mod rb_ring_size r"
  have "Push r x = Some (True, r\<lparr>rb_buffer := b, rb_tail := ?t\<rparr>)"
    using True d b by (simp add: Push_def IsFull_iff assms sz_mod_def uadd_small)
  then show ?thesis
    using append_at_tail [OF assms b(2), of ?t] True by simp
next
  case False
  then show ?thesis
    using assms Used_less [OF assms] by (simp add: Push_def IsFull_iff)
qed

lemma Pop_spec:
  assumes "rb_inv r"
  shows "\<exists>r'. Pop r = Some (case contents r of [] \<Rightarrow> None | x # _ \<Rightarrow> Some x, r') \<and>
           rb_inv r' \<and> rb_ring_size r' = rb_ring_size r \<and> contents r' = tl (contents r)"
proof (cases "contents r = []")
  case True
  then show ?thesis using assms by (simp add: Pop_def IsEmpty_iff)
next
  case False
  note d = rb_invD [OF assms]
  have u: "1 \<le> Used r" using False by (simp flip: length_greater_0_conv)
  let ?h = "(rb_head r + 1) mod rb_ring_size r"
  have hd: "mem_read (rb_buffer r) (rb_head r) 1 = Some (take 1 (contents r))"
    using d cread_contiguous [of "rb_head r" 1 "rb_buffer r"] u cread_take [OF u, of "rb_buffer r" "rb_head r"]
    by (simp add: mem_read_def contents_def)
  have "Pop r = Some (Some (hd (take 1 (contents r))), r\<lparr>rb_head := ?h\<rparr>)"
    using False assms d hd by (simp add: Pop_def IsEmpty_iff sz_mod_def uadd_small)
  moreover have "tl (contents r) = drop 1 (contents r)" by (simp add: drop_Suc)
  ultimately show ?thesis
    using drop_at_head [OF assms u, of ?h] False by (auto simp: neq_Nil_conv)
qed

lemma Drop_spec:
  assumes "rb_inv r"
  shows "\<exists>r'. Drop r count = Some (count \<noteq> 0 \<and> contents r \<noteq> [], r') \<and>
           rb_inv r' \<and> rb_ring_size r' = rb_ring_size r \<and> contents r' = drop count (contents r)"
proof (cases "count = 0 \<or> Used r = 0")
  case True
  then show ?thesis
    using assms by (auto simp: Drop_def Let_def simp flip: length_0_conv)
next
  case False
  note d = rb_invD [OF assms]
  let ?k = "min count (Used r)"
  let ?h = "(rb_head r + ?k) mod rb_ring_size r"
  have k: "?k \<le> Used r" "(if count > Used r then Used r else count) = ?k" by (auto simp: min_def)
  have "Drop r count = Some (True, r\<lparr>rb_head := ?h\<rparr>)"
    using False d Used_less [OF assms] k
    by (simp add: Drop_def Let_def sz_mod_def uadd_small del: if_split)
  moreover have "contents r \<noteq> []" using False by (simp flip: length_0_conv)
  moreover have "drop ?k (contents r) = drop count (contents r)" by (simp add: min_def)
  ultimately show ?thesis using drop_at_head [OF assms k(1), of ?h] False by simp
qed

lemma PushBytes_spec:
  assumes "rb_inv r" "length items = count"
  shows "\<exists>r'. PushBytes r items count = Some (Used r + count < rb_ring_size r, r') \<and> rb_inv r' \<and>
           rb_ring_size r' = rb_ring_size r \<and>
           contents r' = (if Used r + count < rb_ring_size r then contents r @ items else contents r)"
proof -
  note d = rb_invD [OF assms(1)] and used = Used_less [OF assms(1)]
  let ?c = "rb_ring_size r - rb_tail r"
  consider "count = 0" | "count \<noteq> 0" "Available r < count"
    | "count \<noteq> 0" "\<not> Available r < count" "count \<le> ?c"
    | "count \<noteq> 0" "\<not> Available r < count" "?c < count" by linarith
  then show ?thesis
  proof cases
    case 1 then show ?thesis using assms used by (simp add: PushBytes_def)
  next
    case 2 then show ?thesis
      using assms used Available_eq [OF assms(1)] by (simp add: PushBytes_def)
  next
    case 3
    then have fits: "Used r + length items < rb_ring_size r"
      using Available_eq [OF assms(1)] used assms(2) by simp
    obtain b where b: "mem_write (rb_buffer r) (rb_tail r) items = Some b"
        "cwritten (rb_buffer r) b (rb_tail r) items"
      using straight_write [of "rb_tail r" items "rb_buffer r"] d(3,5) 3(3) assms(2)
      by (metis add_le_imp_le_diff le_diff_conv2 less_imp_le_nat add.commute)
    let ?t = "(rb_tail r + count) mod rb_ring_size r"
    have "PushBytes r items count = Some (True, r\<lparr>rb_buffer := b, rb_tail := ?t\<rparr>)"
      using 3 d b assms(2) fits
      by (simp add: PushBytes_def Let_def usub_small uadd_small mem_read_def sz_mod_def)
    then show ?thesis
      using append_at_tail [OF assms(1) b(2) fits, of ?t] fits assms(2) by simp
  next
    case 4
    then have fits: "Used r + length items < rb_ring_size r"
      using Available_eq [OF assms(1)] used assms(2) by simp
    obtain b1 b2 where b: "mem_write (rb_buffer r) (rb_tail r) (take ?c items) = Some b1"
        "mem_write b1 0 (drop ?c items) = Some b2" "cwritten (rb_buffer r) b2 (rb_tail r) items"
      using wrapped_write [of "rb_tail r" "rb_buffer r" items] d 4 assms(2) fits by auto
    have t: "count - ?c = (rb_tail r + length items) mod rb_ring_size r"
    proof -
      have "rb_tail r + length items = (count - ?c) + rb_ring_size r" "count - ?c < rb_ring_size r"
        using 4 d assms(2) fits by linarith+
      then show ?thesis by simp
    qed
    have "PushBytes r items count = Some (True, r\<lparr>rb_buffer := b2, rb_tail := count - ?c\<rparr>)"
      using 4 d b assms(2) fits
      by (simp add: PushBytes_def Let_def usub_small mem_read_def)
    then show ?thesis
      using append_at_tail [OF assms(1) b(3) fits t] fits assms(2) by simp
  qed
qed

text \<open>Both bulk readers copy the first \<open>count\<close> elements, in one block or in two.\<close>

lemma block_read:
  assumes "rb_inv r" "count \<le> Used r"
  shows "count \<le> rb_ring_size r - rb_head r \<Longrightarrow>
           mem_read (rb_buffer r) (rb_head r) count = Some (take count (contents r))"
    and "rb_ring_size r - rb_head r < count \<Longrightarrow>
           mem_read (rb_buffer r) (rb_head r) (rb_ring_size r - rb_head r)
             = Some (drop (rb_head r) (rb_buffer r)) \<and>
           mem_read (rb_buffer r) 0 (count - (rb_ring_size r - rb_head r))
             = Some (take (count - (rb_ring_size r - rb_head r)) (rb_buffer r)) \<and>
           drop (rb_head r) (rb_buffer r) @ take (count - (rb_ring_size r - rb_head r)) (rb_buffer r)
             = take count (contents r)"
  using rb_invD [OF assms(1)] Used_less [OF assms(1)] assms(2)
    cread_contiguous [of "rb_head r" count "rb_buffer r"]
    cread_wrapped [of "rb_head r" "rb_buffer r" count]
    cread_take [OF assms(2), of "rb_buffer r" "rb_head r"]
  by (simp_all add: mem_read_def contents_def)

lemma Peek_spec:
  assumes "rb_inv r"
  shows "Peek r count = Some (if count \<le> Used r then Some (take count (contents r)) else None)"
proof (cases "count = 0 \<or> Used r < count")
  case True then show ?thesis by (auto simp: Peek_def)
next
  case False
  then show ?thesis
    using rb_invD [OF assms] Used_less [OF assms] block_read [OF assms, of count]
    by (auto simp: Peek_def Let_def usub_small not_le not_less)
qed

lemma PopBytes_spec:
  assumes "rb_inv r"
  shows "\<exists>r'. PopBytes r count
             = Some (if count \<le> Used r then Some (take count (contents r)) else None, r') \<and>
           rb_inv r' \<and> rb_ring_size r' = rb_ring_size r \<and>
           contents r' = (if count \<le> Used r then drop count (contents r) else contents r)"
proof (cases "count = 0 \<or> Used r < count")
  case True then show ?thesis using assms by (auto simp: PopBytes_def)
next
  case False
  note d = rb_invD [OF assms] and used = Used_less [OF assms]
  let ?c = "rb_ring_size r - rb_head r" and ?h = "(rb_head r + count) mod rb_ring_size r"
  have le: "count \<le> Used r" using False by simp
  note rd = block_read [OF assms le]
  have "PopBytes r count = Some (Some (take count (contents r)), r\<lparr>rb_head := ?h\<rparr>)"
  proof (cases "count \<le> ?c")
    case True
    then show ?thesis
      using False d used rd
      by (simp add: PopBytes_def Let_def usub_small uadd_small sz_mod_def)
  next
    case c: False
    have "rb_head r + count = (count - ?c) + rb_ring_size r" "count - ?c < rb_ring_size r"
      using c d le used by linarith+
    then have "?h = count - ?c" by (metis mod_add_self2 mod_less)
    then show ?thesis
      using c False d used rd by (simp add: PopBytes_def Let_def usub_small)
  qed
  then show ?thesis using drop_at_head [OF assms le, of ?h] le by simp
qed

lemma PushFront_spec:
  assumes "rb_inv r" "length items = count"
  shows "\<exists>r'. PushFront r (Some items) count = Some (Used r + count < rb_ring_size r, r') \<and>
           rb_inv r' \<and> rb_ring_size r' = rb_ring_size r \<and>
           contents r' = (if Used r + count < rb_ring_size r then items @ contents r else contents r)"
proof -
  note d = rb_invD [OF assms(1)] and used = Used_less [OF assms(1)]
  let ?n = "rb_ring_size r" and ?h = "rb_head r"
  consider "count = 0" | "count \<noteq> 0" "Available r < count"
    | "count \<noteq> 0" "\<not> Available r < count" "count \<le> ?h"
    | "count \<noteq> 0" "\<not> Available r < count" "?h < count" by linarith
  then show ?thesis
  proof cases
    case 1 then show ?thesis using assms used by (simp add: PushFront_def)
  next
    case 2 then show ?thesis
      using assms used Available_eq [OF assms(1)] by (simp add: PushFront_def)
  next
    case 3
    then have fits: "Used r + length items < ?n"
      using Available_eq [OF assms(1)] used assms(2) by simp
    obtain b where b: "mem_write (rb_buffer r) (?h - count) items = Some b"
        "cwritten (rb_buffer r) b (?h - count) items"
      using straight_write [of "?h - count" items "rb_buffer r"] d 3 assms(2) by auto
    have h: "?h = (?h - count + length items) mod ?n" using 3 d assms(2) by simp
    have "(?h - count + ?n) mod ?n = ?h - count" using d by simp
    then have "PushFront r (Some items) count
        = Some (True, r\<lparr>rb_buffer := b, rb_head := ?h - count\<rparr>)"
      using 3 d b assms(2) fits
      by (simp add: PushFront_def Let_def usub_small uadd_small mem_read_def sz_mod_def)
    then show ?thesis
      using prepend_at_head [OF assms(1) b(2) _ fits h] d fits assms(2) by auto
  next
    case 4
    then have fits: "Used r + length items < ?n"
      using Available_eq [OF assms(1)] used assms(2) by simp
    let ?f = "count - ?h"
    let ?p = "?n - ?f"
    have p: "?p < length (rb_buffer r)" "length (rb_buffer r) - ?p = ?f"
      using 4 d fits assms(2) by auto
    have "\<exists>b1 b2. mem_write (rb_buffer r) ?p (take ?f items) = Some b1 \<and>
        mem_write b1 0 (drop ?f items) = Some b2 \<and> cwritten (rb_buffer r) b2 ?p items"
    proof (cases "?h = 0")
      case True
      then have "drop ?f items = []" "take ?f items = items" using assms(2) by auto
      moreover have "?p + length items \<le> length (rb_buffer r)" using True p assms(2) by simp
      ultimately show ?thesis
        using straight_write [of ?p items "rb_buffer r"] by (auto simp: mem_write_def)
    next
      case False
      then show ?thesis
        using wrapped_write [of ?p "rb_buffer r" items] p 4 d fits assms(2) by auto
    qed
    then obtain b1 b2 where b: "mem_write (rb_buffer r) ?p (take ?f items) = Some b1"
        "mem_write b1 0 (drop ?f items) = Some b2" "cwritten (rb_buffer r) b2 ?p items" by blast
    have h: "?h = (?p + length items) mod ?n"
    proof -
      have "?p + length items = ?h + ?n" using 4 d fits assms(2) by linarith
      then show ?thesis using d by simp
    qed
    have "PushFront r (Some items) count = Some (True, r\<lparr>rb_buffer := b2, rb_head := ?p\<rparr>)"
      using 4 d b assms(2) fits
      by (simp add: PushFront_def Let_def usub_small mem_read_def)
    then show ?thesis
      using prepend_at_head [OF assms(1) b(3) _ fits h] p d fits assms(2) by auto
  qed
qed

lemma Reset_spec: "rb_inv r \<Longrightarrow> rb_inv (Reset r) \<and> contents (Reset r) = []"
  by (auto simp: Reset_def rb_inv_def contents_def Used_def usub_small)

lemma PushItems_spec:
  assumes "rb_inv r"
  shows "\<exists>r'. PushItems r xs = Some (Used r + length xs < rb_ring_size r, r') \<and> rb_inv r' \<and>
           rb_ring_size r' = rb_ring_size r \<and>
           contents r' = contents r @ take (rb_ring_size r - 1 - Used r) xs"
  using assms
proof (induction xs arbitrary: r)
  case Nil then show ?case using Used_less by auto
next
  case (Cons x xs)
  obtain r1 where r1: "Push r x = Some (Used r + 1 < rb_ring_size r, r1)" "rb_inv r1"
      "rb_ring_size r1 = rb_ring_size r"
      "contents r1 = (if Used r + 1 < rb_ring_size r then contents r @ [x] else contents r)"
    using Push_spec [OF Cons.prems, of x] by blast
  show ?case
  proof (cases "Used r + 1 < rb_ring_size r")
    case True
    with r1(4) have "length (contents r1) = length (contents r @ [x])" by simp
    then have u: "Used r1 = Used r + 1" by simp
    have "rb_ring_size r - 1 - Used r = Suc (rb_ring_size r - 1 - Used r1)" using u True by simp
    then show ?thesis using Cons.IH [OF r1(2)] r1 True u by auto
  next
    case False
    then show ?thesis using r1 by simp
  qed
qed

lemma PopItems_spec:
  assumes "rb_inv r"
  shows "\<exists>r'. PopItems r k = Some (k \<le> Used r, take k (contents r), r') \<and> rb_inv r' \<and>
           rb_ring_size r' = rb_ring_size r \<and> contents r' = drop k (contents r)"
  using assms
proof (induction k arbitrary: r)
  case 0 then show ?case by auto
next
  case (Suc k)
  obtain r1 where r1: "Pop r = Some (case contents r of [] \<Rightarrow> None | x # _ \<Rightarrow> Some x, r1)"
      "rb_inv r1" "rb_ring_size r1 = rb_ring_size r" "contents r1 = tl (contents r)"
    using Pop_spec [OF Suc.prems] by blast
  show ?case
  proof (cases "contents r")
    case Nil
    then have "Used r = 0" by (metis contents_length list.size(3))
    then show ?thesis using Nil r1 by simp
  next
    case (Cons y ys)
    then have "length (contents r) = Suc (length ys)" "length (contents r1) = length ys"
      using r1(4) by simp_all
    then have "Used r = Suc (Used r1)" by simp
    then show ?thesis using Suc.IH [OF r1(2)] r1 Cons by auto
  qed
qed

lemma TryPush_eq: "TryPush locked r x = (if locked then Push r x else Some (False, r))"
  by (simp add: TryPush_def Push_def)

lemma TryPop_eq: "TryPop locked r = (if locked then Pop r else Some (None, r))"
  by (simp add: TryPop_def Pop_def)

lemma ctor_spec:
  assumes "0 < n" "n < 2 ^ 63" "length (rb_buffer m) = n"
  shows "\<exists>r. ShmRingBuffer_ctor sz n (Some m) = Some r \<and> rb_inv r \<and> contents r = [] \<and>
           rb_ring_size r = n \<and> rb_buffer r = rb_buffer m"
  using assms
  by (auto simp: ShmRingBuffer_ctor_def InitShm_def rb_inv_def contents_def Used_def usub_small)

section \<open>Refinement: the buffer is a bounded double-ended queue\<close>

datatype 'a rb_op =
  OpPush 'a | OpPop | OpTryPush bool 'a | OpTryPop bool
  | OpPushItems "'a list" | OpPopItems nat
  | OpPushBytes "'a list" | OpPopBytes nat | OpPeek nat | OpPushFront "'a list"
  | OpDrop nat | OpReset | OpSize | OpIsEmpty

datatype 'a rb_out =
  OutBool bool | OutItem "'a option" | OutItems "'a list option" | OutMany bool "'a list"
  | OutNat nat | OutUnit

fun rb_step :: "'a ring \<Rightarrow> 'a rb_op \<Rightarrow> ('a rb_out \<times> 'a ring) option" where
  "rb_step r (OpPush x) = map_option (map_prod OutBool id) (Push r x)"
| "rb_step r OpPop = map_option (map_prod OutItem id) (Pop r)"
| "rb_step r (OpTryPush l x) = map_option (map_prod OutBool id) (TryPush l r x)"
| "rb_step r (OpTryPop l) = map_option (map_prod OutItem id) (TryPop l r)"
| "rb_step r (OpPushItems xs) = map_option (map_prod OutBool id) (PushItems r xs)"
| "rb_step r (OpPopItems k) = map_option (\<lambda>(ok, xs, r'). (OutMany ok xs, r')) (PopItems r k)"
| "rb_step r (OpPushBytes xs) = map_option (map_prod OutBool id) (PushBytes r xs (length xs))"
| "rb_step r (OpPopBytes k) = map_option (map_prod OutItems id) (PopBytes r k)"
| "rb_step r (OpPeek k) = map_option (\<lambda>x. (OutItems x, r)) (Peek r k)"
| "rb_step r (OpPushFront xs) =
     map_option (map_prod OutBool id) (PushFront r (Some xs) (length xs))"
| "rb_step r (OpDrop k) = map_option (map_prod OutBool id) (Drop r k)"
| "rb_step r OpReset = Some (OutUnit, Reset r)"
| "rb_step r OpSize = Some (OutNat (Size r), r)"
| "rb_step r OpIsEmpty = Some (OutBool (IsEmpty r), r)"

text \<open>The specification: a list of at most \<open>n - 1\<close> elements.\<close>

fun dq_step :: "nat \<Rightarrow> 'a list \<Rightarrow> 'a rb_op \<Rightarrow> 'a rb_out \<times> 'a list" where
  "dq_step n q (OpPush x) = (if length q + 1 < n then (OutBool True, q @ [x]) else (OutBool False, q))"
| "dq_step n q OpPop = (case q of [] \<Rightarrow> (OutItem None, []) | x # q' \<Rightarrow> (OutItem (Some x), q'))"
| "dq_step n q (OpTryPush l x) =
     (if l \<and> length q + 1 < n then (OutBool True, q @ [x]) else (OutBool False, q))"
| "dq_step n q (OpTryPop l) =
     (if l then (case q of [] \<Rightarrow> (OutItem None, []) | x # q' \<Rightarrow> (OutItem (Some x), q'))
      else (OutItem None, q))"
| "dq_step n q (OpPushItems xs) =
     (OutBool (length q + length xs < n), q @ take (n - 1 - length q) xs)"
| "dq_step n q (OpPopItems k) = (OutMany (k \<le> length q) (take k q), drop k q)"
| "dq_step n q (OpPushBytes xs) =
     (if length q + length xs < n then (OutBool True, q @ xs) else (OutBool False, q))"
| "dq_step n q (OpPopBytes k) =
     (if k \<le> length q then (OutItems (Some (take k q)), drop k q) else (OutItems None, q))"
| "dq_step n q (OpPeek k) = (OutItems (if k \<le> length q then Some (take k q) else None), q)"
| "dq_step n q (OpPushFront xs) =
     (if length q + length xs < n then (OutBool True, xs @ q) else (OutBool False, q))"
| "dq_step n q (OpDrop k) = (OutBool (k \<noteq> 0 \<and> q \<noteq> []), drop k q)"
| "dq_step n q OpReset = (OutUnit, [])"
| "dq_step n q OpSize = (OutNat (length q), q)"
| "dq_step n q OpIsEmpty = (OutBool (q = []), q)"

fun rb_run :: "'a ring \<Rightarrow> 'a rb_op list \<Rightarrow> ('a rb_out list \<times> 'a ring) option" where
  "rb_run r [] = Some ([], r)"
| "rb_run r (p # ps) =
     do { (out, r') \<leftarrow> rb_step r p; (outs, r'') \<leftarrow> rb_run r' ps; Some (out # outs, r'') }"

fun dq_run :: "nat \<Rightarrow> 'a list \<Rightarrow> 'a rb_op list \<Rightarrow> 'a rb_out list \<times> 'a list" where
  "dq_run n q [] = ([], q)"
| "dq_run n q (p # ps) =
     (case dq_step n q p of (out, q') \<Rightarrow> case dq_run n q' ps of (outs, q'') \<Rightarrow> (out # outs, q''))"

lemma rb_step_refines:
  assumes "rb_inv r"
  shows "\<exists>out r'. rb_step r p = Some (out, r') \<and> rb_inv r' \<and> rb_ring_size r' = rb_ring_size r \<and>
           dq_step (rb_ring_size r) (contents r) p = (out, contents r')"
proof (cases p)
  case (OpPush x) then show ?thesis using Push_spec [OF assms, of x] by auto
next
  case OpPop then show ?thesis using Pop_spec [OF assms] by (auto split: list.splits)
next
  case (OpTryPush l x)
  then show ?thesis using Push_spec [OF assms, of x] assms by (auto simp: TryPush_eq)
next
  case (OpTryPop l)
  then show ?thesis using Pop_spec [OF assms] assms by (auto simp: TryPop_eq split: list.splits)
next
  case (OpPushItems xs) then show ?thesis using PushItems_spec [OF assms, of xs] by auto
next
  case (OpPopItems k) then show ?thesis using PopItems_spec [OF assms, of k] by auto
next
  case (OpPushBytes xs) then show ?thesis using PushBytes_spec [OF assms refl, of xs] by auto
next
  case (OpPopBytes k) then show ?thesis using PopBytes_spec [OF assms, of k] by auto
next
  case (OpPeek k) then show ?thesis using Peek_spec [OF assms, of k] assms by auto
next
  case (OpPushFront xs) then show ?thesis using PushFront_spec [OF assms refl, of xs] by auto
next
  case (OpDrop k) then show ?thesis using Drop_spec [OF assms, of k] by auto
next
  case OpReset
  then show ?thesis using Reset_spec [OF assms] by (auto simp: Reset_def)
next
  case OpSize then show ?thesis using assms by (auto simp: Size_def)
next
  case OpIsEmpty then show ?thesis using assms by (auto simp: IsEmpty_iff)
qed

lemma rb_run_refines:
  assumes "rb_inv r"
  shows "\<exists>outs r'. rb_run r ps = Some (outs, r') \<and> rb_inv r' \<and> rb_ring_size r' = rb_ring_size r \<and>
           dq_run (rb_ring_size r) (contents r) ps = (outs, contents r')"
  using assms
proof (induction ps arbitrary: r)
  case Nil then show ?case by simp
next
  case (Cons p ps)
  obtain out r1 where r1: "rb_step r p = Some (out, r1)" "rb_inv r1"
      "rb_ring_size r1 = rb_ring_size r"
      "dq_step (rb_ring_size r) (contents r) p = (out, contents r1)"
    using rb_step_refines [OF Cons.prems, of p] by blast
  from Cons.IH [OF r1(2)] r1 show ?case by auto
qed

section \<open>Properties\<close>

text \<open>
  C1: from the constructor on, any sequence of operations behaves like a bounded double-ended queue
  of capacity \<open>n - 1\<close>: no access leaves the element area, no division by zero happens, every result
  is the queue's and the contents are the queue's.
\<close>

theorem ring_refines_deque:
  assumes "0 < n" "n < 2 ^ 63" "length (rb_buffer m) = n"
  shows "\<exists>r outs r'. ShmRingBuffer_ctor sz n (Some m) = Some r \<and> rb_run r ps = Some (outs, r') \<and>
           dq_run n [] ps = (outs, contents r') \<and> rb_inv r'"
proof -
  obtain r where r: "ShmRingBuffer_ctor sz n (Some m) = Some r" "rb_inv r" "contents r = []"
      "rb_ring_size r = n"
    using ctor_spec [OF assms, of sz] by blast
  then show ?thesis using rb_run_refines [OF r(2), of ps] by auto
qed

definition fresh_ring :: "nat \<Rightarrow> nat ring" where
  "fresh_ring n = \<lparr>rb_head = 7, rb_tail = 9, rb_capacity = 3, rb_element_size = 0,
                    rb_initialized = False, rb_ring_size = 0, rb_buffer = replicate n 0\<rparr>"

theorem ring_refines_deque_witness:
  "\<exists>r outs r'. ShmRingBuffer_ctor 1 4 (Some (fresh_ring 4)) = Some r \<and>
     rb_run r [OpPush 5, OpPushBytes [1, 2], OpPush 6, OpPop, OpPushFront [8], OpPeek 3]
       = Some (outs, r') \<and>
     dq_run 4 [] [OpPush 5, OpPushBytes [1, 2], OpPush 6, OpPop, OpPushFront [8], OpPeek 3]
       = (outs, contents r') \<and> rb_inv r'"
  by (rule ring_refines_deque) (simp_all add: fresh_ring_def)

text \<open>
  byte blocks are all or nothing and come out in order: after a successful \<open>Push\<close> of a block
  that fits, peeking or popping what was there before leaves exactly that block, and a block that
  does not fit leaves the buffer as it was.
\<close>

theorem byte_push_pop_roundtrip:
  assumes "rb_inv r"
  shows "if length (contents r) + length xs < rb_ring_size r
         then \<exists>r1 r2 r3. PushBytes r xs (length xs) = Some (True, r1) \<and>
                PopBytes r1 (length (contents r)) = Some (Some (contents r), r2) \<and>
                Peek r2 (length xs) = Some (Some xs) \<and>
                PopBytes r2 (length xs) = Some (Some xs, r3) \<and> IsEmpty r3 \<and> rb_inv r3
         else xs \<noteq> [] \<longrightarrow> PushBytes r xs (length xs) = Some (False, r)"
proof (cases "length (contents r) + length xs < rb_ring_size r")
  case True
  obtain r1 where r1: "PushBytes r xs (length xs) = Some (True, r1)" "rb_inv r1"
      "contents r1 = contents r @ xs"
    using PushBytes_spec [OF assms refl, of xs] True by auto
  have "length (contents r1) = length (contents r) + length xs" by (simp only: r1(3) length_append)
  then have u: "Used r1 = Used r + length xs" by simp
  obtain r2 where r2: "PopBytes r1 (length (contents r)) = Some (Some (contents r), r2)" "rb_inv r2"
      "contents r2 = xs"
    using PopBytes_spec [OF r1(2), of "length (contents r)"] r1(3) u by auto
  obtain r3 where r3: "PopBytes r2 (length xs) = Some (Some xs, r3)" "rb_inv r3" "contents r3 = []"
    using PopBytes_spec [OF r2(2), of "length xs"] r2(3) by auto
  show ?thesis using True r1 r2 r3 Peek_spec [OF r2(2), of "length xs"] by (auto simp: IsEmpty_iff)
next
  case False
  then have "Available r < length xs" if "xs \<noteq> []"
    using that Used_less [OF assms] by (simp add: Available_eq [OF assms])
  then show ?thesis using False by (simp add: PushBytes_def)
qed

theorem byte_push_pop_roundtrip_witness:
  defines "r \<equiv> (fresh_ring 4)\<lparr>rb_head := 2, rb_tail := 3, rb_ring_size := 4\<rparr>"
  shows "rb_inv r \<and> (if length (contents r) + length [1::nat, 2] < rb_ring_size r
         then \<exists>r1 r2 r3. PushBytes r [1::nat, 2] (length [1::nat, 2]) = Some (True, r1) \<and>
                PopBytes r1 (length (contents r)) = Some (Some (contents r), r2) \<and>
                Peek r2 (length [1::nat, 2]) = Some (Some [1::nat, 2]) \<and>
                PopBytes r2 (length [1::nat, 2]) = Some (Some [1::nat, 2], r3) \<and> IsEmpty r3 \<and> rb_inv r3
         else [1::nat, 2] \<noteq> [] \<longrightarrow> PushBytes r [1::nat, 2] (length [1::nat, 2]) = Some (False, r))"
proof
  show inv: "rb_inv r" by (simp add: r_def fresh_ring_def rb_inv_def)
  show "if length (contents r) + length [1::nat, 2] < rb_ring_size r
         then \<exists>r1 r2 r3. PushBytes r [1::nat, 2] (length [1::nat, 2]) = Some (True, r1) \<and>
                PopBytes r1 (length (contents r)) = Some (Some (contents r), r2) \<and>
                Peek r2 (length [1::nat, 2]) = Some (Some [1::nat, 2]) \<and>
                PopBytes r2 (length [1::nat, 2]) = Some (Some [1::nat, 2], r3) \<and> IsEmpty r3 \<and> rb_inv r3
         else [1::nat, 2] \<noteq> [] \<longrightarrow> PushBytes r [1::nat, 2] (length [1::nat, 2]) = Some (False, r)"
    by (rule byte_push_pop_roundtrip [OF inv])
qed

text \<open>
  Opening a buffer that is in use discards what it holds: the constructor re-initialises the
  header of the region it maps, so a second handle sees (and leaves for the first) an empty queue.
\<close>

theorem attach_discards_pending:
  assumes "rb_inv m"
  shows "\<exists>r. ShmRingBuffer_ctor sz (rb_ring_size m) (Some m) = Some r \<and> contents r = [] \<and>
           rb_buffer r = rb_buffer m \<and> Pop r = Some (None, r)"
proof -
  note d = rb_invD [OF assms]
  obtain r where r: "ShmRingBuffer_ctor sz (rb_ring_size m) (Some m) = Some r" "rb_inv r"
      "contents r = []" "rb_buffer r = rb_buffer m"
    using ctor_spec [OF d(1,2,3), of sz] by blast
  have "IsEmpty r" using r by (simp add: IsEmpty_iff)
  then show ?thesis using r by (simp add: Pop_def)
qed

theorem attach_discards_pending_witness:
  defines "m \<equiv> (fresh_ring 4)\<lparr>rb_head := 2, rb_tail := 0, rb_ring_size := 4\<rparr>"
  shows "length (contents m) = 2 \<and>
    (\<exists>r. ShmRingBuffer_ctor 1 (rb_ring_size m) (Some m) = Some r \<and> contents r = [] \<and>
           rb_buffer r = rb_buffer m \<and> Pop r = Some (None, r))"
proof
  have inv: "rb_inv m" by (simp add: m_def fresh_ring_def rb_inv_def)
  show "length (contents m) = 2" using Used_eq [OF inv] by (simp add: m_def fresh_ring_def)
  show "\<exists>r. ShmRingBuffer_ctor 1 (rb_ring_size m) (Some m) = Some r \<and> contents r = [] \<and>
           rb_buffer r = rb_buffer m \<and> Pop r = Some (None, r)"
    by (rule attach_discards_pending [OF inv])
qed

end
