(* ===== verification/Allocator.thy ===== *)
theory Allocator
  imports Prelude "HOL-Library.Monad_Syntax"
begin

text \<open>
  The interface of the shared-memory allocator as its clients see it (message packs, hash-map
  nodes, retire records): a client asks for a number of bytes, receives an offset or 0, writes
  inside what it owns and gives it back with the size it asked for. The locale states what the
  provider promises; the client's run over a list of requests is defined for any provider.
\<close>

section \<open>A client's run\<close>

datatype heap_op =
    HAlloc "32 word"
  | HFree nat
  | HWrite nat nat "8 word"

text \<open>
  A held block: offset, requested size, and (ghost) the bytes its owner has written. \<open>HFree i\<close> and
  \<open>HWrite i k v\<close> refer to the \<open>i\<close>-th held block; requests outside what is held are not made.
\<close>

type_synonym handle = "nat \<times> 32 word \<times> (nat \<rightharpoonup> 8 word)"

fun heap_step ::
  "('s \<Rightarrow> 32 word \<Rightarrow> (nat \<times> 's) option) \<Rightarrow> ('s \<Rightarrow> nat \<Rightarrow> 32 word \<Rightarrow> 's option) \<Rightarrow>
   ('s \<Rightarrow> nat \<Rightarrow> 8 word \<Rightarrow> 's) \<Rightarrow> 's \<times> handle list \<Rightarrow> heap_op \<Rightarrow> ('s \<times> handle list) option" where
  "heap_step alloc release poke (s, hs) (HAlloc b) =
     do { (off, s') \<leftarrow> alloc s b;
          Some (s', if off = 0 then hs else hs @ [(off, b, Map.empty)]) }"
| "heap_step alloc release poke (s, hs) (HFree i) =
     (if i < length hs then
        case hs ! i of (off, b, g) \<Rightarrow>
          do { s' \<leftarrow> release s off b; Some (s', take i hs @ drop (Suc i) hs) }
      else Some (s, hs))"
| "heap_step alloc release poke (s, hs) (HWrite i k v) =
     (if i < length hs then
        case hs ! i of (off, b, g) \<Rightarrow>
          if k < unat b then Some (poke s (off + k) v, hs[i := (off, b, g(k \<mapsto> v))])
          else Some (s, hs)
      else Some (s, hs))"

fun heap_run ::
  "('s \<Rightarrow> 32 word \<Rightarrow> (nat \<times> 's) option) \<Rightarrow> ('s \<Rightarrow> nat \<Rightarrow> 32 word \<Rightarrow> 's option) \<Rightarrow>
   ('s \<Rightarrow> nat \<Rightarrow> 8 word \<Rightarrow> 's) \<Rightarrow> 's \<times> handle list \<Rightarrow> heap_op list \<Rightarrow> ('s \<times> handle list) option" where
  "heap_run alloc release poke st [] = Some st"
| "heap_run alloc release poke st (p # ps) =
     do { st' \<leftarrow> heap_step alloc release poke st p; heap_run alloc release poke st' ps }"

section \<open>The contract\<close>

locale block_allocator =
  fixes inv :: "'s \<Rightarrow> (nat \<times> nat) set \<Rightarrow> bool"
    and alloc :: "'s \<Rightarrow> 32 word \<Rightarrow> (nat \<times> 's) option"
    and release :: "'s \<Rightarrow> nat \<Rightarrow> 32 word \<Rightarrow> 's option"
    and poke :: "'s \<Rightarrow> nat \<Rightarrow> 8 word \<Rightarrow> 's"
    and peek :: "'s \<Rightarrow> nat \<Rightarrow> 8 word"
    and cls :: "32 word \<Rightarrow> nat option"
    and region :: "nat \<times> nat \<Rightarrow> nat set"
    and valid :: "32 word \<Rightarrow> bool"
    and arena :: "nat set"
  assumes alloc_law: "inv s L \<Longrightarrow> valid b \<Longrightarrow>
      \<exists>off s'. alloc s b = Some (off, s') \<and>
        (off = 0 \<and> s' = s \<or>
         (\<exists>c. off \<noteq> 0 \<and> cls b = Some c \<and> (off, c) \<notin> L \<and> inv s' (insert (off, c) L) \<and>
              (\<forall>x \<in> L. \<forall>a \<in> region x. peek s' a = peek s a)))"
    and release_law: "inv s L \<Longrightarrow> cls b = Some c \<Longrightarrow> (off, c) \<in> L \<Longrightarrow>
      \<exists>s'. release s off b = Some s' \<and> inv s' (L - {(off, c)}) \<and>
        (\<forall>x \<in> L - {(off, c)}. \<forall>a \<in> region x. peek s' a = peek s a)"
    and poke_law: "inv s L \<Longrightarrow> x \<in> L \<Longrightarrow> a \<in> region x \<Longrightarrow> inv (poke s a v) L"
    and peek_poke: "peek (poke s a v) a' = (if a' = a then v else peek s a')"
    and apart_law: "inv s L \<Longrightarrow> x \<in> L \<Longrightarrow> y \<in> L \<Longrightarrow> x \<noteq> y \<Longrightarrow> region x \<inter> region y = {}"
    and fits_law: "valid b \<Longrightarrow> cls b = Some c \<Longrightarrow> k < unat b \<Longrightarrow> off + k \<in> region (off, c)"
    and arena_law: "inv s L \<Longrightarrow> x \<in> L \<Longrightarrow> region x \<subseteq> arena"
begin

definition blk :: "handle \<Rightarrow> nat \<times> nat" where
  "blk h = (fst h, the (cls (fst (snd h))))"

definition handle_ok :: "'s \<Rightarrow> handle \<Rightarrow> bool" where
  "handle_ok s h \<longleftrightarrow>
     valid (fst (snd h)) \<and> cls (fst (snd h)) \<noteq> None \<and> fst h \<noteq> 0 \<and>
     (\<forall>k v. snd (snd h) k = Some v \<longrightarrow> k < unat (fst (snd h)) \<and> peek s (fst h + k) = v)"

definition client_inv :: "'s \<times> handle list \<Rightarrow> bool" where
  "client_inv st \<longleftrightarrow>
     inv (fst st) (set (map blk (snd st))) \<and> distinct (map blk (snd st)) \<and>
     (\<forall>h \<in> set (snd st). handle_ok (fst st) h)"

lemma handle_region:
  assumes "handle_ok s h" "k < unat (fst (snd h))"
  shows "fst h + k \<in> region (blk h)"
  using assms fits_law by (auto simp: handle_ok_def blk_def)

lemma handle_ok_frame:
  assumes "handle_ok s h" "\<forall>a \<in> region (blk h). peek s' a = peek s a"
  shows "handle_ok s' h"
  using assms handle_region [OF assms(1)] by (auto simp: handle_ok_def)

lemma alloc_step:
  assumes "client_inv (s, hs)" "valid b"
  shows "\<exists>st'. heap_step alloc release poke (s, hs) (HAlloc b) = Some st' \<and> client_inv st'"
proof -
  let ?L = "set (map blk hs)"
  have inv: "inv s ?L" and ok: "\<forall>h \<in> set hs. handle_ok s h" and d: "distinct (map blk hs)"
    using assms(1) by (auto simp: client_inv_def)
  obtain off s' where a: "alloc s b = Some (off, s')"
      "off = 0 \<and> s' = s \<or>
         (\<exists>c. off \<noteq> 0 \<and> cls b = Some c \<and> (off, c) \<notin> ?L \<and> inv s' (insert (off, c) ?L) \<and>
              (\<forall>x \<in> ?L. \<forall>a \<in> region x. peek s' a = peek s a))"
    using alloc_law [OF inv assms(2)] by blast
  show ?thesis
  proof (cases "off = 0")
    case True
    then show ?thesis using a assms(1) by auto
  next
    case False
    then obtain c where c: "cls b = Some c" "(off, c) \<notin> ?L" "inv s' (insert (off, c) ?L)"
        "\<forall>x \<in> ?L. \<forall>a \<in> region x. peek s' a = peek s a"
      using a(2) by blast
    have old: "\<forall>h \<in> set hs. handle_ok s' h"
    proof
      fix h assume h: "h \<in> set hs"
      then have "blk h \<in> ?L" by simp
      then have "\<forall>a \<in> region (blk h). peek s' a = peek s a" using c(4) by blast
      moreover have "handle_ok s h" using ok h by blast
      ultimately show "handle_ok s' h" by (intro handle_ok_frame [of s h s'])
    qed
    have new: "handle_ok s' (off, b, Map.empty)" "blk (off, b, Map.empty) = (off, c)"
      using False c(1) assms(2) by (simp_all add: handle_ok_def blk_def)
    have "inv s' (set (map blk (hs @ [(off, b, Map.empty)])))" using c(3) new(2) by simp
    moreover have "distinct (map blk (hs @ [(off, b, Map.empty)]))" using c(2) d new(2) by simp
    moreover have "\<forall>h \<in> set (hs @ [(off, b, Map.empty)]). handle_ok s' h" using old new(1) by simp
    ultimately have "client_inv (s', hs @ [(off, b, Map.empty)])"
      by (simp only: client_inv_def fst_conv snd_conv)
    then show ?thesis using a(1) False by simp
  qed
qed

lemma remove_nth_set:
  assumes "distinct (map f xs)" "i < length xs"
  shows "set (map f (take i xs @ drop (Suc i) xs)) = set (map f xs) - {f (xs ! i)}"
    and "distinct (map f (take i xs @ drop (Suc i) xs))"
proof -
  have xs: "map f xs = map f (take i xs) @ f (xs ! i) # map f (drop (Suc i) xs)"
    using assms(2) by (metis id_take_nth_drop list.simps(9) map_append)
  have "distinct (map f (take i xs) @ f (xs ! i) # map f (drop (Suc i) xs))"
    using assms(1) xs by simp
  then show "set (map f (take i xs @ drop (Suc i) xs)) = set (map f xs) - {f (xs ! i)}"
      "distinct (map f (take i xs @ drop (Suc i) xs))"
    unfolding xs by auto
qed

lemma free_step:
  assumes "client_inv (s, hs)"
  shows "\<exists>st'. heap_step alloc release poke (s, hs) (HFree i) = Some st' \<and> client_inv st'"
proof (cases "i < length hs")
  case False
  then show ?thesis using assms by simp
next
  case True
  obtain off b g where h: "hs ! i = (off, b, g)" by (cases "hs ! i")
  have mem: "(off, b, g) \<in> set hs" using True h by (metis nth_mem)
  have inv: "inv s (set (map blk hs))" and ok: "\<forall>h \<in> set hs. handle_ok s h"
      and d: "distinct (map blk hs)"
    using assms by (auto simp: client_inv_def)
  obtain c where c: "cls b = Some c" using ok mem by (force simp: handle_ok_def)
  have blk: "blk (hs ! i) = (off, c)" using c h by (simp add: blk_def)
  have "(off, c) \<in> set (map blk hs)" using blk True by (metis length_map nth_map nth_mem)
  then obtain s' where s': "release s off b = Some s'"
      "inv s' (set (map blk hs) - {(off, c)})"
      "\<forall>x \<in> set (map blk hs) - {(off, c)}. \<forall>a \<in> region x. peek s' a = peek s a"
    using release_law [OF inv c] by blast
  let ?hs = "take i hs @ drop (Suc i) hs"
  note rem = remove_nth_set [OF d True, unfolded blk]
  have "handle_ok s' h" if "h \<in> set ?hs" for h
  proof (rule handle_ok_frame [of s])
    show "handle_ok s h" using that ok by (auto dest: in_set_takeD in_set_dropD)
    have "blk h \<in> set (map blk ?hs)" using that by (simp only: set_map image_eqI)
    then show "\<forall>a \<in> region (blk h). peek s' a = peek s a" using s'(3) unfolding rem(1) by blast
  qed
  then have "client_inv (s', ?hs)" using s'(2) rem by (simp add: client_inv_def)
  then show ?thesis using s'(1) h True by simp
qed

lemma write_step:
  assumes "client_inv (s, hs)"
  shows "\<exists>st'. heap_step alloc release poke (s, hs) (HWrite i k v) = Some st' \<and> client_inv st'"
proof -
  obtain off b g where h: "hs ! i = (off, b, g)" by (cases "hs ! i")
  show ?thesis
  proof (cases "i < length hs \<and> k < unat b")
    case False
    then show ?thesis using assms h by auto
  next
    case True
    have inv: "inv s (set (map blk hs))" and ok: "\<forall>h \<in> set hs. handle_ok s h"
        and d: "distinct (map blk hs)"
      using assms by (auto simp: client_inv_def)
    have hi: "handle_ok s (off, b, g)" using ok True h by (metis nth_mem)
    have blk: "blk (off, b, g) = blk (hs ! i)" "blk (off, b, g(k \<mapsto> v)) = blk (off, b, g)"
      using h by (simp_all add: blk_def)
    have inL: "blk (off, b, g) \<in> set (map blk hs)" using True h by (metis length_map nth_map nth_mem)
    have reg: "off + k \<in> region (blk (off, b, g))" using handle_region [OF hi] True by simp
    let ?s = "poke s (off + k) v" and ?hs = "hs[i := (off, b, g(k \<mapsto> v))]"
    have maps: "map blk ?hs = map blk hs"
      using blk True by (simp add: map_update list_update_same_conv)
    have il: "i < length hs" and kb: "k < unat b" using True by auto
    have own: "handle_ok ?s (off, b, g(k \<mapsto> v))"
      using hi kb by (auto simp: handle_ok_def peek_poke split: if_splits)
    have other: "handle_ok ?s (hs ! j)" if j: "j < length hs" "j \<noteq> i" for j
    proof -
      have "map blk hs ! j \<noteq> map blk hs ! i"
        using d j il by (metis distinct_conv_nth length_map)
      then have ne: "blk (hs ! j) \<noteq> blk (off, b, g)" using j il blk(1) by simp
      have "blk (hs ! j) \<in> set (map blk hs)" using j by simp
      then have "region (blk (off, b, g)) \<inter> region (blk (hs ! j)) = {}"
        using apart_law [OF inv inL] ne by metis
      then have "off + k \<notin> region (blk (hs ! j))" using reg by blast
      then have fr: "\<forall>a \<in> region (blk (hs ! j)). peek ?s a = peek s a" by (auto simp: peek_poke)
      have "handle_ok s (hs ! j)" using ok j by simp
      then show ?thesis using fr by (rule handle_ok_frame)
    qed
    have "handle_ok ?s (?hs ! j)" if j: "j < length hs" for j
    proof (cases "j = i")
      case True
      then show ?thesis using own il by simp
    next
      case False
      then show ?thesis using other [OF j False] by simp
    qed
    then have "\<forall>h \<in> set ?hs. handle_ok ?s h" by (metis in_set_conv_nth length_list_update)
    then have "client_inv (?s, ?hs)"
      using poke_law [OF inv inL reg] d maps unfolding client_inv_def by (simp del: map_update)
    then show ?thesis using h True by simp
  qed
qed

lemma heap_run_safe:
  assumes "client_inv st" "\<And>b. HAlloc b \<in> set ps \<Longrightarrow> valid b"
  shows "\<exists>st'. heap_run alloc release poke st ps = Some st' \<and> client_inv st'"
  using assms
proof (induction ps arbitrary: st)
  case Nil then show ?case by simp
next
  case (Cons p ps)
  obtain s hs where st: "st = (s, hs)" by (cases st)
  have "\<exists>st'. heap_step alloc release poke st p = Some st' \<and> client_inv st'"
    using Cons.prems alloc_step free_step write_step st by (cases p) auto
  then show ?case using Cons.IH Cons.prems(2) by fastforce
qed

text \<open>What the client sees after any run: its blocks do not overlap and hold what it wrote.\<close>

lemma client_inv_blocks:
  assumes "client_inv (s, hs)" "i < length hs" "j < length hs" "i \<noteq> j"
    and "hs ! i = (off1, b1, g1)" "hs ! j = (off2, b2, g2)"
  shows "{off1..<off1 + unat b1} \<inter> {off2..<off2 + unat b2} = {}"
proof -
  have ok: "handle_ok s (off1, b1, g1)" "handle_ok s (off2, b2, g2)"
    using assms unfolding client_inv_def by (metis fst_conv nth_mem snd_conv)+
  have "blk (hs ! i) \<noteq> blk (hs ! j)"
    using assms(1-4) by (auto simp: client_inv_def distinct_conv_nth)
  moreover have "blk (hs ! i) \<in> set (map blk hs)" "blk (hs ! j) \<in> set (map blk hs)"
    using assms(2,3) by simp_all
  moreover have "inv s (set (map blk hs))" using assms(1) by (simp add: client_inv_def)
  ultimately have dis: "region (blk (hs ! i)) \<inter> region (blk (hs ! j)) = {}"
    using apart_law [of s "set (map blk hs)" "blk (hs ! i)" "blk (hs ! j)"] by blast
  have "{off1..<off1 + unat b1} \<subseteq> region (blk (hs ! i))"
    using handle_region [OF ok(1)] assms(5) by (force simp: le_iff_add)
  moreover have "{off2..<off2 + unat b2} \<subseteq> region (blk (hs ! j))"
    using handle_region [OF ok(2)] assms(6) by (force simp: le_iff_add)
  ultimately show ?thesis using dis by blast
qed

lemma client_inv_arena:
  assumes "client_inv (s, hs)" "(off, b, g) \<in> set hs"
  shows "{off..<off + unat b} \<subseteq> arena"
proof -
  have "handle_ok s (off, b, g)" "inv s (set (map blk hs))" "blk (off, b, g) \<in> set (map blk hs)"
    using assms by (auto simp: client_inv_def)
  then have "off + k \<in> arena" if "k < unat b" for k
    using handle_region [of s "(off, b, g)" k] arena_law
      [of s "set (map blk hs)" "blk (off, b, g)"] that by auto
  then show ?thesis by (force simp: le_iff_add)
qed

lemma client_inv_data:
  assumes "client_inv (s, hs)" "(off, b, g) \<in> set hs" "g k = Some v"
  shows "peek s (off + k) = v"
  using assms by (force simp: client_inv_def handle_ok_def)

end

end
