(* ===== verification/Slab.thy ===== *)
theory Slab
  imports Prelude Allocator "HOL-Library.Monad_Syntax"
begin

text \<open>
  \<open>shmslab::ShmSlab\<close> (server/core/shm/shm_slab.h, shm_slab.cpp): the size-class allocator in shared
  memory that holds every message pack and every hash-map node. The header is a record; page
  headers, bitmaps and the free-list links live in the byte memory, where a free chunk's first
  four bytes hold the offset of the next free chunk (0 ends the list). All methods run under the
  allocator's global lock, so the compare-and-swap on \<open>bump\<close> sees no competitor and each method is
  one step. \<^term>\<open>None\<close> is a load or store outside the mapped region or a division by zero.
\<close>

unbundle bit_operations_syntax

section \<open>State\<close>

record slab_class =
  item_size :: nat
  items_per_page :: nat
  free_list :: nat
  page_list :: nat
  class_lock :: nat

record slab_header =
  magic :: nat
  version :: nat
  total_size :: nat
  base_offset :: nat
  bump :: nat
  end_off :: nat
  classes :: "slab_class list"

record slab =
  hdr :: slab_header
  mem :: bytes

definition kMagic :: nat where "kMagic = 0x534C4142"
definition PAGE_SIZE :: nat where "PAGE_SIZE = 65536"
definition MAX_CLASSES :: nat where "MAX_CLASSES = 10"
definition sizeof_PageHeader :: nat where "sizeof_PageHeader = 16"
definition sizeof_SlabHeader :: nat where "sizeof_SlabHeader = 6 * 4 + 10 * 20"
definition class_sizes :: "nat list" where
  "class_sizes = [16, 32, 64, 128, 256, 512, 1024, 2048, 4096, 8192]"

section \<open>Size classes\<close>

definition Align8 :: "32 word \<Rightarrow> 32 word" where
  "Align8 x = (x + 7) AND NOT 7"

definition pow2ceil :: "32 word \<Rightarrow> 32 word" where
  "pow2ceil x =
     (if x \<le> 1 then 1
      else let x = x - 1;
               x = x OR drop_bit 1 x;
               x = x OR drop_bit 2 x;
               x = x OR drop_bit 4 x;
               x = x OR drop_bit 8 x;
               x = x OR drop_bit 16 x
           in x + 1)"

function class_loop :: "nat \<Rightarrow> nat \<Rightarrow> nat \<Rightarrow> nat" where
  "class_loop v s idx =
     (if v < s \<and> idx + 1 < MAX_CLASSES then class_loop (2 * v mod 2 ^ 32) s (idx + 1) else idx)"
  by pat_completeness auto
termination by (relation "measure (\<lambda>(v, s, idx). MAX_CLASSES - idx)") auto

declare class_loop.simps [simp del]

text \<open>\<^term>\<open>None\<close> stands for the return value \<open>UINT32_MAX\<close>.\<close>

definition SizeClassIndex :: "32 word \<Rightarrow> nat option" where
  "SizeClassIndex bytes =
     (let s = unat (pow2ceil bytes);
          s = (if s < 16 then 16 else s)
      in if s > 8192 then None else Some (class_loop 16 s 0))"

definition RoundToClassSize :: "32 word \<Rightarrow> 32 word" where
  "RoundToClassSize bytes =
     (let s = pow2ceil bytes;
          s = (if s < 16 then 16 else s);
          s = (if s > 8192 then pow2ceil bytes else s)
      in (s + 7) AND NOT 7)"

section \<open>Construction\<close>

definition init_class :: "nat \<Rightarrow> slab_class" where
  "init_class sz =
     (let item = unat ((of_nat sz + 7 :: 32 word) AND NOT 7);
          per_page = u32_sub (u32_sub PAGE_SIZE sizeof_PageHeader) 256 div item
      in \<lparr>item_size = item, items_per_page = (if per_page = 0 then 1 else per_page),
          free_list = 0, page_list = 0, class_lock = 0\<rparr>)"

definition init_header :: "nat \<Rightarrow> nat \<Rightarrow> nat \<Rightarrow> slab_header" where
  "init_header tot region_off region_size =
     \<lparr>magic = kMagic, version = 1, total_size = tot, base_offset = region_off,
      bump = u32_add region_off sizeof_SlabHeader, end_off = u32_add region_off region_size,
      classes = map init_class class_sizes\<rparr>"

text \<open>
  Both constructors do this to the header at \<open>region_off\<close>: initialise it when the region is new,
  otherwise accept it only with the right magic number and version (the exception is \<^term>\<open>None\<close>).
\<close>

definition ShmSlab_ctor :: "bool \<Rightarrow> nat \<Rightarrow> nat \<Rightarrow> nat \<Rightarrow> slab \<Rightarrow> slab option" where
  "ShmSlab_ctor create tot region_off region_size s =
     (if create then Some (s\<lparr>hdr := init_header tot region_off region_size\<rparr>)
      else if magic (hdr s) \<noteq> kMagic \<or> version (hdr s) \<noteq> 1 then None
      else Some s)"

section \<open>Pages\<close>

definition bitmap_bytes :: "nat \<Rightarrow> nat" where
  "bitmap_bytes item =
     (let items = (PAGE_SIZE - sizeof_PageHeader) div item;
          items = (if items > 8192 then 8192 else items)
      in (items + 7) div 8)"

definition payload_off :: "nat \<Rightarrow> nat" where
  "payload_off item = sizeof_PageHeader + bitmap_bytes item"

definition page_capacity :: "nat \<Rightarrow> nat" where
  "page_capacity item = (PAGE_SIZE - payload_off item) div item"

fun memset0 :: "nat \<Rightarrow> bytes \<Rightarrow> nat \<Rightarrow> nat \<Rightarrow> bytes option" where
  "memset0 tot m a 0 = Some m"
| "memset0 tot m a (Suc k) = (if a < tot then memset0 tot (m(a := 0)) (a + 1) k else None)"

text \<open>The loop that threads the chunks \<open>i, i + 1, \<dots>\<close> onto the list that starts at \<open>prev\<close>.\<close>

fun link_chunks :: "nat \<Rightarrow> nat \<Rightarrow> nat \<Rightarrow> nat \<Rightarrow> nat \<Rightarrow> bytes \<Rightarrow> nat \<Rightarrow> (bytes \<times> nat) option" where
  "link_chunks tot start item i 0 m prev = Some (m, prev)"
| "link_chunks tot start item i (Suc k) m prev =
     (let off = u32_add start (u32_mul i item) in
      do { m' \<leftarrow> st32 tot m off prev; link_chunks tot start item (Suc i) k m' off })"

definition upd_class :: "nat \<Rightarrow> (slab_class \<Rightarrow> slab_class) \<Rightarrow> slab \<Rightarrow> slab" where
  "upd_class cls f s =
     s\<lparr>hdr := (hdr s)\<lparr>classes := (classes (hdr s))[cls := f (classes (hdr s) ! cls)]\<rparr>\<rparr>"

definition NewPage :: "nat \<Rightarrow> slab \<Rightarrow> (nat \<times> slab) option" where
  "NewPage cls s =
     (if \<not> cls < length (classes (hdr s)) then None
      else
        let c = classes (hdr s) ! cls;
            tot = total_size (hdr s);
            cur = bump (hdr s);
            nxt = u32_add cur PAGE_SIZE
        in if nxt > end_off (hdr s) then Some (0, s)
        else if item_size c = 0 then None
        else
          let start = u32_add cur (payload_off (item_size c));
              cap = page_capacity (item_size c)
          in do {
            m1 \<leftarrow> st32 tot (mem s) cur (page_list c);
            m2 \<leftarrow> st32 tot m1 (cur + 4) cls;
            m3 \<leftarrow> st32 tot m2 (cur + 8) cap;
            m4 \<leftarrow> st32 tot m3 (cur + 12) sizeof_PageHeader;
            m5 \<leftarrow> memset0 tot m4 (cur + sizeof_PageHeader) (bitmap_bytes (item_size c));
            (m6, first_free) \<leftarrow> link_chunks tot start (item_size c) 0 cap m5 0;
            (m7, fl) \<leftarrow> (if first_free \<noteq> 0
                        then do { m \<leftarrow> st32 tot m6 start (free_list c); Some (m, first_free) }
                        else Some (m6, free_list c));
            Some (cur,
                  upd_class cls (\<lambda>c. c\<lparr>page_list := cur, free_list := fl\<rparr>)
                    (s\<lparr>hdr := (hdr s)\<lparr>bump := nxt\<rparr>, mem := m7\<rparr>)) })"

section \<open>Allocation and release\<close>

definition pop_chunk :: "nat \<Rightarrow> slab \<Rightarrow> (nat \<times> slab) option" where
  "pop_chunk cls s =
     (let off = free_list (classes (hdr s) ! cls) in
      do { nx \<leftarrow> ld32 (total_size (hdr s)) (mem s) off;
           Some (off, upd_class cls (\<lambda>c. c\<lparr>free_list := nx\<rparr>) s) })"

definition Alloc :: "32 word \<Rightarrow> slab \<Rightarrow> (nat \<times> slab) option" where
  "Alloc bytes s =
     (case SizeClassIndex (Align8 bytes) of None \<Rightarrow> Some (0, s)
      | Some cls \<Rightarrow>
        if \<not> cls < length (classes (hdr s)) then None
        else if free_list (classes (hdr s) ! cls) = 0 then
          do { (p, s1) \<leftarrow> NewPage cls s;
               if p = 0 \<and> free_list (classes (hdr s1) ! cls) = 0 then Some (0, s1)
               else pop_chunk cls s1 }
        else pop_chunk cls s)"

definition Free :: "nat \<Rightarrow> 32 word \<Rightarrow> slab \<Rightarrow> slab option" where
  "Free off bytes s =
     (if off = 0 then Some s
      else case SizeClassIndex (Align8 bytes) of None \<Rightarrow> Some s
      | Some cls \<Rightarrow>
        if \<not> cls < length (classes (hdr s)) then None
        else do {
          m \<leftarrow> st32 (total_size (hdr s)) (mem s) off (free_list (classes (hdr s) ! cls));
          Some (upd_class cls (\<lambda>c. c\<lparr>free_list := off\<rparr>) (s\<lparr>mem := m\<rparr>)) })"

section \<open>Size classes are right\<close>

text \<open>After the shifts of \<open>pow2ceil\<close> a bit is set iff a bit at or above it was.\<close>

lemma smear_step:
  fixes a y :: "32 word"
  assumes "\<And>i. bit a i \<longleftrightarrow> (\<exists>d < n. bit y (i + d))"
  shows "bit (a OR drop_bit n a) i \<longleftrightarrow> (\<exists>d < 2 * n. bit y (i + d))"
proof -
  have "bit (a OR drop_bit n a) i \<longleftrightarrow> (\<exists>d < n. bit y (i + d)) \<or> (\<exists>d < n. bit y (i + n + d))"
    using assms by (auto simp: bit_or_iff bit_drop_bit_eq add.commute)
  also have "\<dots> \<longleftrightarrow> (\<exists>d < 2 * n. bit y (i + d))"
  proof
    assume "(\<exists>d < n. bit y (i + d)) \<or> (\<exists>d < n. bit y (i + n + d))"
    then show "\<exists>d < 2 * n. bit y (i + d)"
    proof (elim disjE exE conjE)
      fix d assume "d < n" "bit y (i + d)"
      then show ?thesis by (intro exI [of _ d]) simp
    next
      fix d assume "d < n" "bit y (i + n + d)"
      then show ?thesis by (intro exI [of _ "n + d"]) (simp add: add.assoc)
    qed
  next
    assume "\<exists>d < 2 * n. bit y (i + d)"
    then obtain d where d: "d < 2 * n" "bit y (i + d)" by blast
    show "(\<exists>d < n. bit y (i + d)) \<or> (\<exists>d < n. bit y (i + n + d))"
    proof (cases "d < n")
      case True then show ?thesis using d by blast
    next
      case False
      then have "d - n < n" "i + n + (d - n) = i + d" using d by auto
      then show ?thesis using d by metis
    qed
  qed
  finally show ?thesis .
qed

lemma pow2ceil_eq:
  assumes "1 < x" and k: "2 ^ k \<le> unat (x - 1)" "unat (x - 1) < 2 ^ (k + 1)"
  shows "pow2ceil x = 2 ^ (k + 1)"
proof -
  define y where "y = x - 1"
  define a1 where "a1 = y OR drop_bit 1 y"
  define a2 where "a2 = a1 OR drop_bit 2 a1"
  define a3 where "a3 = a2 OR drop_bit 4 a2"
  define a4 where "a4 = a3 OR drop_bit 8 a3"
  define a5 where "a5 = a4 OR drop_bit 16 a4"
  have b0: "bit y i \<longleftrightarrow> (\<exists>d < 1. bit y (i + d))" for i by auto
  have b1: "bit a1 i \<longleftrightarrow> (\<exists>d < 2. bit y (i + d))" for i
    unfolding a1_def using smear_step [OF b0] by simp
  have b2: "bit a2 i \<longleftrightarrow> (\<exists>d < 4. bit y (i + d))" for i
    unfolding a2_def using smear_step [OF b1] by simp
  have b3: "bit a3 i \<longleftrightarrow> (\<exists>d < 8. bit y (i + d))" for i
    unfolding a3_def using smear_step [OF b2] by simp
  have b4: "bit a4 i \<longleftrightarrow> (\<exists>d < 16. bit y (i + d))" for i
    unfolding a4_def using smear_step [OF b3] by simp
  have b5: "bit a5 i \<longleftrightarrow> (\<exists>d < 32. bit y (i + d))" for i
    unfolding a5_def using smear_step [OF b4] by simp
  have yk: "bit y i \<longleftrightarrow> bit (unat y) i" for i by (simp add: bit_unsigned_iff)
  have hi: "\<not> bit y i" if "k < i" for i
  proof -
    have "2 ^ (k + 1) \<le> (2::nat) ^ i" using that by (intro power_increasing) auto
    with k(2) have "unat y < 2 ^ i" unfolding y_def by (rule order_less_le_trans)
    then show ?thesis unfolding yk by (simp add: bit_iff_odd)
  qed
  have top: "bit y k"
  proof -
    have "unat y div 2 ^ k = 1"
      using k y_def by (intro div_nat_eqI) auto
    then show ?thesis unfolding yk by (simp add: bit_iff_odd)
  qed
  have k32: "k < 32" using top bit_imp_le_length [of y k] by simp
  have "a5 = mask (k + 1)"
  proof (rule bit_word_eqI)
    fix i assume i: "i < LENGTH(32)"
    show "bit a5 i \<longleftrightarrow> bit (mask (k + 1) :: 32 word) i"
    proof (cases "i \<le> k")
      case True
      then have "bit y (i + (k - i))" "k - i < 32" using top k32 by auto
      then have "bit a5 i" unfolding b5 by blast
      then show ?thesis using True i by (simp add: bit_mask_iff)
    next
      case False
      then have "\<not> bit a5 i" unfolding b5 using hi by auto
      then show ?thesis using False by (simp add: bit_mask_iff)
    qed
  qed
  then have "a5 + 1 = 2 ^ (k + 1)" by (simp add: mask_eq_exp_minus_1)
  moreover have "\<not> x \<le> 1" using assms(1) by (simp only: not_le)
  then have "pow2ceil x = a5 + 1"
    by (simp only: pow2ceil_def Let_def a1_def a2_def a3_def a4_def a5_def y_def if_False)
  ultimately show ?thesis by simp
qed

lemma unat_exp32:
  assumes "n < 32"
  shows "unat (2 ^ n :: 32 word) = 2 ^ n"
proof -
  have "(2::nat) ^ n < 2 ^ 32" using assms by (intro power_strict_increasing) auto
  then have "unat (of_nat (2 ^ n) :: 32 word) = 2 ^ n" unfolding unat_of_nat by simp
  then show ?thesis by simp
qed

lemma pow2ceil_range:
  assumes "1 < unat x" "unat x \<le> 2 ^ 31"
  obtains k where "k < 31" "2 ^ k < unat x" "unat x \<le> 2 ^ (k + 1)"
    "unat (pow2ceil x) = 2 ^ (k + 1)"
proof -
  have x1: "1 < x" using assms(1) by (simp add: word_less_nat_alt)
  have ux: "unat (x - 1) = unat x - 1" using assms(1) by (intro unat_minus_one) auto
  obtain k where k: "2 ^ k \<le> unat x - 1" "unat x - 1 < 2 ^ (k + 1)"
  proof -
    have "1 \<le> unat x - 1" using assms(1) by linarith
    then show ?thesis using ex_power_ivl1 [of 2 "unat x - 1"] that by auto
  qed
  have "k < 31"
  proof (rule ccontr)
    assume "\<not> k < 31"
    then have "(2::nat) ^ 31 \<le> 2 ^ k" by (intro power_increasing) auto
    then show False using k assms by simp
  qed
  moreover have "2 ^ k < unat x" "unat x \<le> 2 ^ (k + 1)" using k assms by linarith+
  moreover have "unat (pow2ceil x) = 2 ^ (k + 1)"
  proof -
    have "pow2ceil x = 2 ^ (k + 1)" using pow2ceil_eq [OF x1, of k] k ux by simp
    moreover have "unat (2 ^ (k + 1) :: 32 word) = 2 ^ (k + 1)"
      using unat_exp32 [of "k + 1"] \<open>k < 31\<close> by simp
    ultimately show ?thesis by simp
  qed
  ultimately show thesis by (rule that)
qed

lemma class_loop_eq:
  "i \<le> n \<Longrightarrow> n \<le> 9 \<Longrightarrow> class_loop (16 * 2 ^ i) (16 * 2 ^ n) i = n"
proof (induction "n - i" arbitrary: i)
  case 0
  then show ?case by (subst class_loop.simps) simp
next
  case (Suc d)
  then have lt: "i < n" by simp
  have "(2::nat) ^ i \<le> 2 ^ 8" using lt Suc.prems by (intro power_increasing) auto
  then have "2 * (16 * 2 ^ i) mod 2 ^ 32 = 16 * (2::nat) ^ Suc i" by simp
  moreover have "(16::nat) * 2 ^ i < 16 * 2 ^ n" using lt by simp
  ultimately have "class_loop (16 * 2 ^ i) (16 * 2 ^ n) i = class_loop (16 * 2 ^ Suc i) (16 * 2 ^ n) (Suc i)"
    using lt Suc.prems by (subst class_loop.simps) (simp add: MAX_CLASSES_def)
  then show ?case using Suc.hyps(1) [of "Suc i"] Suc.hyps(2) lt Suc.prems(2) by simp
qed

text \<open>The chosen class is the smallest that holds the request.\<close>

lemma SizeClassIndex_fits:
  assumes "0 < unat b" "unat b \<le> 8192"
  obtains i where "SizeClassIndex b = Some i" "i < 10" "unat b \<le> 16 * 2 ^ i"
    "i = 0 \<or> 16 * 2 ^ (i - 1) < unat b"
proof (cases "unat b \<le> 1")
  case True
  then have "unat (pow2ceil b) = 1" by (simp add: pow2ceil_def word_le_nat_alt)
  then have "SizeClassIndex b = Some 0"
    using class_loop_eq [of 0 0] by (simp add: SizeClassIndex_def Let_def)
  then show ?thesis using that [of 0] True by simp
next
  case False
  then obtain k where k: "k < 31" "2 ^ k < unat b" "unat b \<le> 2 ^ (k + 1)"
      "unat (pow2ceil b) = 2 ^ (k + 1)"
    using pow2ceil_range [of b] assms by auto
  show ?thesis
  proof (cases "k < 3")
    case True
    then have "(2::nat) ^ (k + 1) \<le> 2 ^ 3" by (intro power_increasing) auto
    then have "SizeClassIndex b = Some 0" "unat b \<le> 16"
      using k class_loop_eq [of 0 0] by (simp_all add: SizeClassIndex_def Let_def)
    then show ?thesis using that [of 0] by simp
  next
    case False
    have "(2::nat) ^ k < 2 ^ 13" using k(2) assms(2) by simp
    then have k13: "k < 13" by (rule power_less_imp_less_exp [rotated]) simp
    define n where "n = k - 3"
    have n: "k = n + 3" "n \<le> 9" using False k13 n_def by auto
    have s: "(2::nat) ^ (k + 1) = 16 * 2 ^ n" using n by (simp add: power_add)
    have "(2::nat) ^ n \<le> 2 ^ 9" using n by (intro power_increasing) auto
    then have "SizeClassIndex b = Some n"
      using k(4) s class_loop_eq [of 0 n] n by (simp add: SizeClassIndex_def Let_def)
    moreover have "n = 0 \<or> 16 * 2 ^ (n - 1) < unat b"
      using k(2) n by (cases n) (auto simp: power_add)
    ultimately show ?thesis using that [of n] k(3) s n by simp
  qed
qed

lemma SizeClassIndex_less: "SizeClassIndex b = Some i \<Longrightarrow> i < 10"
proof -
  have "idx \<le> 9 \<Longrightarrow> class_loop v s idx \<le> 9" for v s idx
  proof (induction v s idx rule: class_loop.induct)
    case (1 v s idx)
    then show ?case by (subst class_loop.simps) (auto simp: MAX_CLASSES_def)
  qed
  then have "class_loop v s 0 \<le> 9" for v s by simp
  then have "class_loop v s 0 < 10" for v s by (rule le_less_trans) simp
  then show "SizeClassIndex b = Some i \<Longrightarrow> i < 10"
    by (auto simp: SizeClassIndex_def Let_def split: if_splits)
qed

section \<open>Free lists in memory\<close>

text \<open>\<open>chain_to m p xs e\<close>: following the links from \<open>p\<close> visits \<open>xs\<close> and then reads \<open>e\<close>.\<close>

fun chain_to :: "bytes \<Rightarrow> nat \<Rightarrow> nat list \<Rightarrow> nat \<Rightarrow> bool" where
  "chain_to m p [] e \<longleftrightarrow> p = e"
| "chain_to m p (x # xs) e \<longleftrightarrow> p = x \<and> x \<noteq> 0 \<and> chain_to m (rd32 m x) xs e"

abbreviation chain :: "bytes \<Rightarrow> nat \<Rightarrow> nat list \<Rightarrow> bool" where
  "chain m p xs \<equiv> chain_to m p xs 0"

definition words_apart :: "nat \<Rightarrow> nat \<Rightarrow> bool" where
  "words_apart a b \<longleftrightarrow> a + 4 \<le> b \<or> b + 4 \<le> a"

lemma chain_to_append:
  "chain_to m p (xs @ ys) e \<longleftrightarrow> (\<exists>q. chain_to m p xs q \<and> chain_to m q ys e)"
  by (induction xs arbitrary: p) auto

lemma chain_to_cong:
  "(\<And>x. x \<in> set xs \<Longrightarrow> rd32 m' x = rd32 m x) \<Longrightarrow> chain_to m' p xs e = chain_to m p xs e"
  by (induction xs arbitrary: p) auto

lemma chain_to_wr32:
  "(\<And>x. x \<in> set xs \<Longrightarrow> words_apart a x) \<Longrightarrow> chain_to (wr32 m a v) p xs e = chain_to m p xs e"
  by (rule chain_to_cong, rule rd32_wr32_other) (auto simp: words_apart_def)

lemma chain_nonzero: "chain_to m p xs e \<Longrightarrow> 0 \<notin> set xs"
  by (induction xs arbitrary: p) auto

lemma st32_D: "st32 tot m a v = Some m' \<Longrightarrow> m' = wr32 m a v \<and> a + 4 \<le> tot"
  by (auto simp: st32_def split: if_splits)

lemma memset0_outside:
  "memset0 tot m a k = Some m' \<Longrightarrow> b < a \<or> a + k \<le> b \<Longrightarrow> m' b = m b"
  by (induction k arbitrary: m a) (auto split: if_splits)

lemma memset0_Some: "a + k \<le> tot \<Longrightarrow> \<exists>m'. memset0 tot m a k = Some m'"
  by (induction k arbitrary: m a) auto

text \<open>Linking \<open>k\<close> chunks of a page onto a list.\<close>

lemma link_chunks_spec:
  assumes "4 \<le> item" "0 < start" "start + (i + k) * item \<le> tot" "tot < 2 ^ 32"
    and "prev < 2 ^ 32" "chain_to m prev xs e" "\<And>x. x \<in> set xs \<Longrightarrow> x + 4 \<le> start + i * item"
  shows "\<exists>m' p. link_chunks tot start item i k m prev = Some (m', p) \<and>
           chain_to m' p (rev (map (\<lambda>j. start + j * item) [i..<i + k]) @ xs) e \<and>
           (\<forall>b. b < start + i * item \<or> start + (i + k) * item \<le> b \<longrightarrow> m' b = m b)"
  using assms
proof (induction k arbitrary: i m prev xs)
  case 0
  then show ?case by simp
next
  case (Suc k)
  let ?off = "start + i * item"
  have room: "?off + item + k * item \<le> tot" using Suc.prems(3) by (simp add: algebra_simps)
  have off: "u32_add start (u32_mul i item) = ?off"
    using room Suc.prems(4) by (simp add: umul_small uadd_small)
  let ?m1 = "wr32 m ?off prev"
  have st: "st32 tot m ?off prev = Some ?m1"
    using room Suc.prems(1) by (simp add: st32_def)
  have off32: "?off < 2 ^ 32" using room Suc.prems(4) by linarith
  have c1: "chain_to ?m1 ?off (?off # xs) e"
    using Suc.prems(2,5,6,7)
    by (auto simp: rd32_wr32_same words_apart_def intro!: chain_to_wr32 [THEN iffD2])
  have "start + (Suc i + k) * item \<le> tot" using Suc.prems(3) by simp
  moreover have "x + 4 \<le> start + Suc i * item" if "x \<in> set (?off # xs)" for x
    using that Suc.prems(1) Suc.prems(7) [of x] by auto
  ultimately obtain m' p where ih: "link_chunks tot start item (Suc i) k ?m1 ?off = Some (m', p)"
      "chain_to m' p (rev (map (\<lambda>j. start + j * item) [Suc i..<Suc i + k]) @ ?off # xs) e"
      "\<forall>b. b < start + Suc i * item \<or> start + (Suc i + k) * item \<le> b \<longrightarrow> m' b = ?m1 b"
    using Suc.IH [OF Suc.prems(1,2) _ Suc.prems(4) off32 c1] by blast
  have "[i..<i + Suc k] = i # [Suc i..<Suc i + k]" by (simp add: upt_conv_Cons)
  moreover have "\<forall>b. b < ?off \<or> start + (i + Suc k) * item \<le> b \<longrightarrow> m' b = m b"
    using ih(3) Suc.prems(1) by (auto simp: wr32_outside algebra_simps)
  ultimately show ?case using ih off st by simp
qed

lemma chain_to_set_last:
  assumes "chain_to m p (xs @ [x]) e" "\<And>y. y \<in> set xs \<Longrightarrow> words_apart x y" "v < 2 ^ 32"
  shows "chain_to (wr32 m x v) p (xs @ [x]) v"
proof -
  obtain q where q: "chain_to m p xs q" "chain_to m q [x] e"
    using assms(1) by (auto simp: chain_to_append)
  have "chain_to (wr32 m x v) p xs q" using q(1) assms(2) by (simp add: chain_to_wr32)
  then show ?thesis using q(2) assms(3) by (auto simp: chain_to_append rd32_wr32_same)
qed

section \<open>The allocator's invariant\<close>

text \<open>
  Ghost state: \<open>fl c\<close> is the free list of class \<open>c\<close>, \<open>live\<close> the blocks handed out and not yet
  returned, each an offset with its class. A block of class \<open>c\<close> is \<open>16 * 2 ^ c\<close> bytes.
\<close>

definition class_size :: "nat \<Rightarrow> nat" where
  "class_size c = 16 * 2 ^ c"

definition block_bytes :: "nat \<times> nat \<Rightarrow> nat set" where
  "block_bytes b = {fst b..<fst b + class_size (snd b)}"

definition all_blocks :: "(nat \<Rightarrow> nat list) \<Rightarrow> (nat \<times> nat) set \<Rightarrow> (nat \<times> nat) set" where
  "all_blocks fl live = {(off, c). c < 10 \<and> off \<in> set (fl c)} \<union> live"

definition pairwise_apart :: "(nat \<times> nat) set \<Rightarrow> bool" where
  "pairwise_apart B \<longleftrightarrow> (\<forall>b1 \<in> B. \<forall>b2 \<in> B. b1 \<noteq> b2 \<longrightarrow> block_bytes b1 \<inter> block_bytes b2 = {})"

definition header_wf :: "slab_header \<Rightarrow> bool" where
  "header_wf h \<longleftrightarrow>
     length (classes h) = 10 \<and> (\<forall>c < 10. item_size (classes h ! c) = class_size c) \<and>
     base_offset h + sizeof_SlabHeader \<le> bump h \<and> bump h \<le> end_off h \<and>
     end_off h \<le> total_size h \<and> total_size h < 2 ^ 32 \<and> end_off h + PAGE_SIZE < 2 ^ 32"

definition slab_inv :: "slab \<Rightarrow> (nat \<Rightarrow> nat list) \<Rightarrow> (nat \<times> nat) set \<Rightarrow> bool" where
  "slab_inv s fl live \<longleftrightarrow>
     header_wf (hdr s) \<and>
     (\<forall>c < 10. chain (mem s) (free_list (classes (hdr s) ! c)) (fl c) \<and> distinct (fl c)) \<and>
     (\<forall>b \<in> live. snd b < 10 \<and> fst b \<notin> set (fl (snd b))) \<and>
     (\<forall>b \<in> all_blocks fl live.
        base_offset (hdr s) + sizeof_SlabHeader \<le> fst b \<and>
        fst b + class_size (snd b) \<le> bump (hdr s)) \<and>
     pairwise_apart (all_blocks fl live)"

lemma slab_invD:
  assumes "slab_inv s fl live"
  shows "header_wf (hdr s)"
    "c < 10 \<Longrightarrow> chain (mem s) (free_list (classes (hdr s) ! c)) (fl c)"
    "c < 10 \<Longrightarrow> distinct (fl c)"
    "b \<in> live \<Longrightarrow> snd b < 10" "b \<in> live \<Longrightarrow> fst b \<notin> set (fl (snd b))"
    "b \<in> all_blocks fl live \<Longrightarrow> base_offset (hdr s) + sizeof_SlabHeader \<le> fst b"
    "b \<in> all_blocks fl live \<Longrightarrow> fst b + class_size (snd b) \<le> bump (hdr s)"
    "pairwise_apart (all_blocks fl live)"
  using assms by (auto simp: slab_inv_def)

lemma class_size_ge: "16 \<le> class_size c"
  by (simp add: class_size_def)

lemma free_in_blocks: "c < 10 \<Longrightarrow> off \<in> set (fl c) \<Longrightarrow> (off, c) \<in> all_blocks fl live"
  by (simp add: all_blocks_def)

lemma live_in_blocks: "b \<in> live \<Longrightarrow> b \<in> all_blocks fl live"
  by (simp add: all_blocks_def)

lemma blocks_apart:
  assumes "pairwise_apart B" "(a, c) \<in> B" "(b, d) \<in> B" "(a, c) \<noteq> (b, d)"
  shows "a + class_size c \<le> b \<or> b + class_size d \<le> a"
proof (rule ccontr)
  assume n: "\<not> ?thesis"
  have "max a b \<in> block_bytes (a, c) \<inter> block_bytes (b, d)"
    using n class_size_ge [of c] class_size_ge [of d] by (auto simp: block_bytes_def)
  then show False using assms unfolding pairwise_apart_def by blast
qed

lemma pairwise_apart_Un:
  assumes "pairwise_apart A" "pairwise_apart B"
    and "\<And>a b. a \<in> A \<Longrightarrow> b \<in> B \<Longrightarrow> block_bytes a \<inter> block_bytes b = {}"
  shows "pairwise_apart (A \<union> B)"
  unfolding pairwise_apart_def
proof (intro ballI impI)
  fix b1 b2 assume "b1 \<in> A \<union> B" "b2 \<in> A \<union> B" "b1 \<noteq> b2"
  then consider "b1 \<in> A" "b2 \<in> A" | "b1 \<in> B" "b2 \<in> B" | "b1 \<in> A" "b2 \<in> B" | "b2 \<in> A" "b1 \<in> B"
    by blast
  then show "block_bytes b1 \<inter> block_bytes b2 = {}"
  proof cases
    case 4 then show ?thesis using assms(3) [of b2 b1] by blast
  qed (use assms \<open>b1 \<noteq> b2\<close> in \<open>unfold pairwise_apart_def, blast+\<close>)
qed

lemma blocks_words_apart:
  assumes "pairwise_apart B" "(a, c) \<in> B" "(b, d) \<in> B" "(a, c) \<noteq> (b, d)"
  shows "words_apart a b"
  using blocks_apart [OF assms] class_size_ge [of c] class_size_ge [of d]
  by (auto simp: words_apart_def)

lemma free_list_bound:
  assumes "slab_inv s fl live" "c < 10"
  shows "free_list (classes (hdr s) ! c) < 2 ^ 32"
    and "free_list (classes (hdr s) ! c) = 0 \<longleftrightarrow> fl c = []"
proof -
  note ch = slab_invD(2) [OF assms]
  note wf = slab_invD(1) [OF assms(1)]
  show "free_list (classes (hdr s) ! c) < 2 ^ 32"
  proof (cases "fl c")
    case Nil then show ?thesis using ch by simp
  next
    case (Cons x xs)
    then have "(x, c) \<in> all_blocks fl live" using assms(2) by (simp add: all_blocks_def)
    then have "x + class_size c \<le> bump (hdr s)" using slab_invD(7) [OF assms(1)] by fastforce
    then show ?thesis using Cons ch wf by (simp add: header_wf_def)
  qed
  show "free_list (classes (hdr s) ! c) = 0 \<longleftrightarrow> fl c = []"
    using ch by (cases "fl c") auto
qed

text \<open>Memory outside every free chunk's link word may change freely.\<close>

lemma slab_inv_mem:
  assumes "slab_inv s fl live"
    and "\<And>c x. c < 10 \<Longrightarrow> x \<in> set (fl c) \<Longrightarrow> rd32 m' x = rd32 (mem s) x"
  shows "slab_inv (s\<lparr>mem := m'\<rparr>) fl live"
  using assms by (auto simp: slab_inv_def chain_to_cong [of _ m' "mem s"])

text \<open>The client may write anything into a block it owns.\<close>

lemma client_write_inv:
  assumes "slab_inv s fl live" "b \<in> live" "\<And>a. a \<notin> block_bytes b \<Longrightarrow> m' a = mem s a"
  shows "slab_inv (s\<lparr>mem := m'\<rparr>) fl live"
proof (rule slab_inv_mem [OF assms(1)])
  fix c x assume cx: "c < 10" "x \<in> set (fl c)"
  obtain off d where b: "b = (off, d)" by (cases b)
  have "(x, c) \<noteq> (off, d)" using slab_invD(5) [OF assms(1,2)] b cx by auto
  then have ap: "off + class_size d \<le> x \<or> x + class_size c \<le> off"
    using blocks_apart [OF slab_invD(8) [OF assms(1)], of off d x c]
      free_in_blocks [of c x fl live] cx live_in_blocks [OF assms(2)] b by metis
  show "rd32 m' x = rd32 (mem s) x"
  proof (rule rd32_cong)
    fix i :: nat assume "i < 4"
    then have "x + i \<notin> block_bytes b"
      using ap b class_size_ge [of c] by (auto simp: block_bytes_def)
    then show "m' (x + i) = mem s (x + i)" by (rule assms(3))
  qed
qed

lemma upd_class_simps [simp]:
  "mem (upd_class c f s) = mem s"
  "bump (hdr (upd_class c f s)) = bump (hdr s)"
  "end_off (hdr (upd_class c f s)) = end_off (hdr s)"
  "total_size (hdr (upd_class c f s)) = total_size (hdr s)"
  "base_offset (hdr (upd_class c f s)) = base_offset (hdr s)"
  "classes (hdr (upd_class c f s)) = (classes (hdr s))[c := f (classes (hdr s) ! c)]"
  by (simp_all add: upd_class_def)

lemma item_size_upd:
  "item_size k = item_size (cs ! c) \<Longrightarrow> item_size (cs[c := k] ! d) = item_size (cs ! d)"
  by (cases "c < length cs") (auto simp: nth_list_update list_update_beyond)

lemma header_wf_upd [simp]:
  "header_wf (hdr (upd_class c (\<lambda>k. k\<lparr>free_list := v\<rparr>) s)) = header_wf (hdr s)"
  "header_wf (hdr (upd_class c (\<lambda>k. k\<lparr>page_list := w, free_list := v\<rparr>) s)) = header_wf (hdr s)"
  by (simp_all add: header_wf_def item_size_upd)

section \<open>Pop and push\<close>

lemma pop_chunk_spec:
  assumes "slab_inv s fl live" "c < 10" "fl c = x # xs"
  shows "\<exists>s'. pop_chunk c s = Some (x, s') \<and> x \<noteq> 0 \<and>
           slab_inv s' (fl(c := xs)) (insert (x, c) live) \<and> mem s' = mem s \<and>
           (x, c) \<notin> live \<and> total_size (hdr s') = total_size (hdr s)"
proof -
  note D = slab_invD [OF assms(1)]
  have ch: "chain (mem s) (free_list (classes (hdr s) ! c)) (x # xs)"
    using D(2) [OF assms(2)] assms(3) by simp
  have xb: "(x, c) \<in> all_blocks fl live" using assms(2,3) by (simp add: all_blocks_def)
  have x0: "x \<noteq> 0" "free_list (classes (hdr s) ! c) = x" using ch by auto
  have "x + 4 \<le> total_size (hdr s)"
    using D(7) [OF xb] class_size_ge [of c] D(1) by (simp add: header_wf_def)
  then have "pop_chunk c s = Some (x, upd_class c (\<lambda>k. k\<lparr>free_list := rd32 (mem s) x\<rparr>) s)"
    using x0 by (simp add: pop_chunk_def ld32_def)
  moreover have "all_blocks (fl(c := xs)) (insert (x, c) live) = all_blocks fl live"
    using assms(2,3) by (auto simp: all_blocks_def split: if_splits)
  moreover have "(x, c) \<notin> live" using D(5) [of "(x, c)"] assms(3) by auto
  moreover have "fst b \<notin> set ((fl(c := xs)) (snd b))" if "b \<in> insert (x, c) live" for b
    using that D(3) [OF assms(2)] D(5) [of b] assms(3) by auto
  moreover have "length (classes (hdr s)) = 10" using D(1) by (simp add: header_wf_def)
  ultimately show ?thesis
    using assms(1,2,3) ch x0 by (auto simp: slab_inv_def nth_list_update)
qed

lemma push_chunk_inv:
  assumes "slab_inv s fl live" "(off, c) \<in> live"
  shows "slab_inv (upd_class c (\<lambda>k. k\<lparr>free_list := off\<rparr>)
           (s\<lparr>mem := wr32 (mem s) off (free_list (classes (hdr s) ! c))\<rparr>))
           (fl(c := off # fl c)) (live - {(off, c)})"
proof -
  note D = slab_invD [OF assms(1)]
  have c: "c < 10" using D(4) [OF assms(2)] by simp
  have ob: "(off, c) \<in> all_blocks fl live" by (rule live_in_blocks [OF assms(2)])
  have o0: "off \<noteq> 0" using D(6) [OF ob] by (simp add: sizeof_SlabHeader_def)
  let ?m = "wr32 (mem s) off (free_list (classes (hdr s) ! c))"
  have apart: "words_apart off x" if "d < 10" "x \<in> set (fl d)" for d x
  proof -
    have "(off, c) \<noteq> (x, d)" using D(5) [OF assms(2)] that by auto
    then show ?thesis
      using blocks_words_apart [OF D(8) ob] that free_in_blocks [of d x fl live] by metis
  qed
  have keep: "chain ?m (free_list (classes (hdr s) ! d)) (fl d)" if "d < 10" for d
    using D(2) [OF that] apart that by (simp add: chain_to_wr32)
  have "chain ?m off (off # fl c)"
    using keep [OF c] o0 free_list_bound(1) [OF assms(1) c] by (simp add: rd32_wr32_same)
  moreover have "off \<notin> set (fl c)" using D(5) [OF assms(2)] by simp
  moreover have "all_blocks (fl(c := off # fl c)) (live - {(off, c)}) = all_blocks fl live"
    using assms(2) c by (auto simp: all_blocks_def split: if_splits)
  moreover have "length (classes (hdr s)) = 10" using D(1) by (simp add: header_wf_def)
  ultimately show ?thesis
    using assms(1) c keep by (auto simp: slab_inv_def nth_list_update)
qed

lemma Free_spec:
  assumes "slab_inv s fl live" "SizeClassIndex (Align8 bytes) = Some c" "(off, c) \<in> live"
  shows "\<exists>s'. Free off bytes s = Some s' \<and> slab_inv s' (fl(c := off # fl c)) (live - {(off, c)}) \<and>
           total_size (hdr s') = total_size (hdr s) \<and> end_off (hdr s') = end_off (hdr s) \<and>
           base_offset (hdr s') = base_offset (hdr s) \<and>
           (\<forall>a. a \<notin> block_bytes (off, c) \<longrightarrow> mem s' a = mem s a)"
proof -
  note D = slab_invD [OF assms(1)]
  have ob: "(off, c) \<in> all_blocks fl live" by (rule live_in_blocks [OF assms(3)])
  have o: "off \<noteq> 0" using D(6) [OF ob] by (simp add: sizeof_SlabHeader_def)
  have "off + 4 \<le> total_size (hdr s)"
    using D(7) [OF ob] class_size_ge [of c] D(1) by (simp add: header_wf_def)
  moreover have "c < length (classes (hdr s))"
    using D(1) D(4) [OF assms(3)] by (simp add: header_wf_def)
  moreover have "wr32 m off v a = m a" if "a \<notin> block_bytes (off, c)" for m v a
    using that class_size_ge [of c] by (intro wr32_outside) (auto simp: block_bytes_def)
  ultimately show ?thesis
    using push_chunk_inv [OF assms(1,3)] assms(2) o by (simp add: Free_def st32_def)
qed

section \<open>New pages\<close>

lemma payload_facts:
  assumes "c < 10"
  shows "sizeof_PageHeader \<le> payload_off (class_size c)" "payload_off (class_size c) \<le> 528"
    "payload_off (class_size c) + page_capacity (class_size c) * class_size c \<le> PAGE_SIZE"
    "0 < page_capacity (class_size c)"
proof -
  let ?i = "class_size c"
  have i: "16 \<le> ?i" by (rule class_size_ge)
  have c9: "?i \<le> 8192"
  proof -
    have "(2::nat) ^ c \<le> 2 ^ 9" using assms by (intro power_increasing) auto
    then show ?thesis by (simp add: class_size_def)
  qed
  have "65520 div ?i \<le> 65520 div 16" using i by (intro div_le_mono2) auto
  then have b: "bitmap_bytes ?i \<le> 512"
    by (simp add: bitmap_bytes_def Let_def PAGE_SIZE_def sizeof_PageHeader_def)
  then show p: "payload_off ?i \<le> 528" "sizeof_PageHeader \<le> payload_off ?i"
    by (simp_all add: payload_off_def sizeof_PageHeader_def)
  have "page_capacity ?i * ?i \<le> PAGE_SIZE - payload_off ?i"
    by (simp add: page_capacity_def)
  then show "payload_off ?i + page_capacity ?i * ?i \<le> PAGE_SIZE"
    using p by (simp add: PAGE_SIZE_def)
  have "?i \<le> PAGE_SIZE - payload_off ?i" using p c9 by (simp add: PAGE_SIZE_def)
  then show "0 < page_capacity ?i" using i by (simp add: page_capacity_def div_greater_zero_iff)
qed

definition page_chunks :: "nat \<Rightarrow> nat \<Rightarrow> nat list" where
  "page_chunks cur c =
     rev (map (\<lambda>j. cur + payload_off (class_size c) + j * class_size c)
           [0..<page_capacity (class_size c)])"

lemma page_chunks_range:
  assumes "c < 10" "x \<in> set (page_chunks cur c)"
  shows "cur + payload_off (class_size c) \<le> x" "x + class_size c \<le> cur + PAGE_SIZE"
proof -
  have "x \<in> (\<lambda>j. cur + payload_off (class_size c) + j * class_size c) ` {0..<page_capacity (class_size c)}"
    using assms(2) by (simp add: page_chunks_def)
  then obtain j where "j \<in> {0..<page_capacity (class_size c)}"
      and j1: "x = cur + payload_off (class_size c) + j * class_size c" by blast
  then have j: "x = cur + payload_off (class_size c) + j * class_size c"
      "j < page_capacity (class_size c)" by simp_all
  have "Suc j * class_size c \<le> page_capacity (class_size c) * class_size c"
    using j(2) by (intro mult_le_mono1) simp
  then show "x + class_size c \<le> cur + PAGE_SIZE"
    using j(1) payload_facts(3) [OF assms(1)] by simp
  show "cur + payload_off (class_size c) \<le> x" using j by simp
qed

lemma page_chunks_apart:
  assumes "x \<in> set (page_chunks cur c)" "y \<in> set (page_chunks cur c)" "x \<noteq> y"
  shows "x + class_size c \<le> y \<or> y + class_size c \<le> x"
proof -
  let ?b = "cur + payload_off (class_size c)"
  obtain i j where ij: "x = ?b + i * class_size c" "y = ?b + j * class_size c"
    using assms(1,2) by (auto simp: page_chunks_def)
  then have "i \<noteq> j" using assms(3) by auto
  then consider "Suc i \<le> j" | "Suc j \<le> i" by linarith
  then show ?thesis
  proof cases
    case 1
    then have "Suc i * class_size c \<le> j * class_size c" by (rule mult_le_mono1)
    then show ?thesis using ij by simp
  next
    case 2
    then have "Suc j * class_size c \<le> i * class_size c" by (rule mult_le_mono1)
    then show ?thesis using ij by simp
  qed
qed

lemma page_chunks_distinct: "distinct (page_chunks cur c)"
  using class_size_ge [of c] by (auto simp: page_chunks_def distinct_map inj_on_def)

text \<open>The links written by \<open>NewPage\<close>: the chunks of the page in front of the old list.\<close>

lemma page_links:
  assumes "c < 10" "0 < cur" "cur + PAGE_SIZE \<le> tot" "tot < 2 ^ 32" "old < 2 ^ 32"
  shows "\<exists>m6 m7 p. link_chunks tot (cur + payload_off (class_size c)) (class_size c) 0
             (page_capacity (class_size c)) m5 0 = Some (m6, p) \<and> p \<noteq> 0 \<and>
           st32 tot m6 (cur + payload_off (class_size c)) old = Some m7 \<and>
           chain_to m7 p (page_chunks cur c) old \<and>
           (\<forall>b < cur. m7 b = m5 b)"
proof -
  let ?sz = "class_size c" and ?start = "cur + payload_off (class_size c)"
  let ?cap = "page_capacity (class_size c)"
  note pf = payload_facts [OF assms(1)]
  have sz: "4 \<le> ?sz" using class_size_ge [of c] by simp
  have room: "?start + (0 + ?cap) * ?sz \<le> tot" using pf(3) assms(3) by simp
  have s0: "0 < ?start" using assms(2) by simp
  obtain m6 p where l: "link_chunks tot ?start ?sz 0 ?cap m5 0 = Some (m6, p)"
      "chain_to m6 p (page_chunks cur c) 0"
      "\<forall>b. b < ?start \<or> ?start + ?cap * ?sz \<le> b \<longrightarrow> m6 b = m5 b"
    using link_chunks_spec [OF sz s0 room assms(4), where prev = 0 and xs = "[]" and e = 0 and m = m5]
    by (auto simp: page_chunks_def)
  have split: "page_chunks cur c
      = rev (map (\<lambda>j. ?start + j * ?sz) [1..<?cap]) @ [?start]"
    using pf(4) by (simp add: page_chunks_def upt_conv_Cons [of 0])
  have "1 * ?sz \<le> ?cap * ?sz" using pf(4) by (intro mult_le_mono1) simp
  then have "class_size c \<le> ?cap * ?sz" by (simp only: mult_1)
  moreover have "?start + ?cap * ?sz \<le> tot" using room by (simp only: add_0)
  ultimately have "?start + 4 \<le> tot" using sz by linarith
  then have st: "st32 tot m6 ?start old = Some (wr32 m6 ?start old)" by (simp add: st32_def)
  have ap: "words_apart ?start y" if "y \<in> set (rev (map (\<lambda>j. ?start + j * ?sz) [1..<?cap]))" for y
  proof -
    have "y \<in> (\<lambda>j. ?start + j * ?sz) ` {1..<?cap}" using that by simp
    then obtain j where "j \<in> {1..<?cap}" and j1: "y = ?start + j * ?sz" by blast
    then have j: "y = ?start + j * ?sz" "1 \<le> j" by simp_all
    have "1 * ?sz \<le> j * ?sz" using j(2) by (rule mult_le_mono1)
    then have "?sz \<le> j * ?sz" by (simp only: mult_1)
    then have "?start + 4 \<le> y" using j(1) sz by linarith
    then show ?thesis by (simp add: words_apart_def)
  qed
  have "chain_to (wr32 m6 ?start old) p (page_chunks cur c) old"
    using chain_to_set_last [OF l(2) [unfolded split] ap assms(5)] split by simp
  moreover have "p \<noteq> 0"
    using l(2) unfolding page_chunks_def
    by (cases "rev (map (\<lambda>j. ?start + j * ?sz) [0..<?cap])") (use pf(4) in auto)
  moreover have "\<forall>b < cur. wr32 m6 ?start old b = m5 b"
    using l(3) by (auto simp: wr32_outside)
  ultimately show ?thesis using l(1) st by blast
qed

lemma page_header_writes:
  assumes "c < 10" "cur + PAGE_SIZE \<le> tot"
  shows "\<exists>m1 m2 m3 m4 m5. st32 tot m cur a = Some m1 \<and> st32 tot m1 (cur + 4) b = Some m2 \<and>
           st32 tot m2 (cur + 8) d = Some m3 \<and> st32 tot m3 (cur + 12) e = Some m4 \<and>
           memset0 tot m4 (cur + sizeof_PageHeader) (bitmap_bytes (class_size c)) = Some m5 \<and>
           (\<forall>x < cur. m5 x = m x)"
proof -
  let ?m4 = "wr32 (wr32 (wr32 (wr32 m cur a) (cur + 4) b) (cur + 8) d) (cur + 12) e"
  have "cur + sizeof_PageHeader + bitmap_bytes (class_size c) \<le> tot"
    using assms(2) payload_facts(2) [OF assms(1)] by (simp add: payload_off_def PAGE_SIZE_def)
  then obtain m5 where "memset0 tot ?m4 (cur + sizeof_PageHeader) (bitmap_bytes (class_size c)) = Some m5"
    using memset0_Some by blast
  moreover from this have "\<forall>x < cur. m5 x = m x"
    by (auto simp: memset0_outside wr32_outside)
  ultimately show ?thesis using assms(2) by (auto simp: st32_def PAGE_SIZE_def)
qed

text \<open>Adding a page's chunks, all above \<open>bump\<close>, to a class keeps the invariant.\<close>

lemma new_blocks:
  assumes "slab_inv s fl live" "c < 10"
  defines "fl' \<equiv> fl(c := page_chunks (bump (hdr s)) c @ fl c)"
  shows "all_blocks fl' live = (\<lambda>x. (x, c)) ` set (page_chunks (bump (hdr s)) c) \<union> all_blocks fl live"
    and "pairwise_apart (all_blocks fl' live)"
    and "b \<in> all_blocks fl live \<Longrightarrow> x \<in> set (page_chunks (bump (hdr s)) c) \<Longrightarrow> fst b < x"
    and "d < 10 \<Longrightarrow> distinct (fl' d)"
proof -
  note D = slab_invD [OF assms(1)]
  let ?N = "set (page_chunks (bump (hdr s)) c)"
  show blocks: "all_blocks fl' live = (\<lambda>x. (x, c)) ` ?N \<union> all_blocks fl live"
    using assms(2) by (auto simp: all_blocks_def fl'_def split: if_splits)
  have above: "fst b + class_size (snd b) \<le> x" if "b \<in> all_blocks fl live" "x \<in> ?N" for b x
    using D(7) [OF that(1)] page_chunks_range(1) [OF assms(2) that(2)] by simp
  then show lt: "b \<in> all_blocks fl live \<Longrightarrow> x \<in> ?N \<Longrightarrow> fst b < x" for b x
    using class_size_ge [of "snd b"] by fastforce
  have disj: "block_bytes b1 \<inter> block_bytes (x, c) = {}" if "b1 \<in> all_blocks fl live" "x \<in> ?N" for b1 x
    using above [OF that] by (auto simp: block_bytes_def)
  have "block_bytes (x, c) \<inter> block_bytes (y, c) = {}" if "x \<in> ?N" "y \<in> ?N" "x \<noteq> y" for x y
    using page_chunks_apart [OF that] by (auto simp: block_bytes_def)
  then have "pairwise_apart ((\<lambda>x. (x, c)) ` ?N)" unfolding pairwise_apart_def by blast
  then show "pairwise_apart (all_blocks fl' live)"
    unfolding blocks
  proof (rule pairwise_apart_Un [OF _ D(8)])
    fix a b' assume a: "a \<in> (\<lambda>x. (x, c)) ` ?N" and b: "b' \<in> all_blocks fl live"
    from a obtain x' where "a = (x', c)" "x' \<in> ?N" by blast
    then show "block_bytes a \<inter> block_bytes b' = {}" using disj [OF b, of x'] by blast
  qed
  show "distinct (fl' d)" if "d < 10" for d
  proof (cases "d = c")
    case True
    have "set (page_chunks (bump (hdr s)) c) \<inter> set (fl c) = {}"
      using lt free_in_blocks [OF assms(2), of _ fl live] by fastforce
    then show ?thesis
      using D(3) [OF assms(2)] page_chunks_distinct [of "bump (hdr s)" c] True by (simp add: fl'_def)
  next
    case False
    then show ?thesis using D(3) [OF that] by (simp add: fl'_def)
  qed
qed

lemma NewPage_spec:
  assumes "slab_inv s fl live" "c < 10"
  shows "NewPage c s = Some (0, s) \<and> end_off (hdr s) < bump (hdr s) + PAGE_SIZE \<or>
         (\<exists>s'. NewPage c s = Some (bump (hdr s), s') \<and> bump (hdr s) \<noteq> 0 \<and>
            bump (hdr s) + PAGE_SIZE \<le> end_off (hdr s) \<and>
            slab_inv s' (fl(c := page_chunks (bump (hdr s)) c @ fl c)) live \<and>
            total_size (hdr s') = total_size (hdr s) \<and> end_off (hdr s') = end_off (hdr s) \<and>
            (\<forall>a < bump (hdr s). mem s' a = mem s a))"
proof -
  note D = slab_invD [OF assms(1)]
  let ?cur = "bump (hdr s)" and ?tot = "total_size (hdr s)" and ?k = "classes (hdr s) ! c"
  have wf: "length (classes (hdr s)) = 10" "item_size ?k = class_size c" "?cur \<le> end_off (hdr s)"
      "end_off (hdr s) \<le> ?tot" "?tot < 2 ^ 32" "end_off (hdr s) + PAGE_SIZE < 2 ^ 32" "0 < ?cur"
      "base_offset (hdr s) + sizeof_SlabHeader \<le> ?cur"
    using D(1) assms(2) by (auto simp: header_wf_def sizeof_SlabHeader_def)
  have nxt: "u32_add ?cur PAGE_SIZE = ?cur + PAGE_SIZE" using wf by (simp add: uadd_small)
  show ?thesis
  proof (cases "end_off (hdr s) < ?cur + PAGE_SIZE")
    case True
    then have "NewPage c s = Some (0, s)" using wf(1) assms(2) nxt by (simp add: NewPage_def Let_def)
    then show ?thesis using True by simp
  next
    case False
    then have room: "?cur + PAGE_SIZE \<le> ?tot" using wf by simp
    have item: "class_size c \<noteq> 0" using class_size_ge [of c] by simp
    have start: "u32_add ?cur (payload_off (class_size c)) = ?cur + payload_off (class_size c)"
      using wf room payload_facts(2) [OF assms(2)] by (simp add: uadd_small PAGE_SIZE_def)
    obtain m1 m2 m3 m4 m5 where h: "st32 ?tot (mem s) ?cur (page_list ?k) = Some m1"
        "st32 ?tot m1 (?cur + 4) c = Some m2"
        "st32 ?tot m2 (?cur + 8) (page_capacity (class_size c)) = Some m3"
        "st32 ?tot m3 (?cur + 12) sizeof_PageHeader = Some m4"
        "memset0 ?tot m4 (?cur + sizeof_PageHeader) (bitmap_bytes (class_size c)) = Some m5"
        "\<forall>x < ?cur. m5 x = mem s x"
      using page_header_writes [OF assms(2) room] by meson
    obtain m6 m7 p where l: "link_chunks ?tot (?cur + payload_off (class_size c)) (class_size c) 0
             (page_capacity (class_size c)) m5 0 = Some (m6, p)" "p \<noteq> 0"
        "st32 ?tot m6 (?cur + payload_off (class_size c)) (free_list ?k) = Some m7"
        "chain_to m7 p (page_chunks ?cur c) (free_list ?k)" "\<forall>b < ?cur. m7 b = m5 b"
      using page_links [OF assms(2) wf(7) room wf(5) free_list_bound(1) [OF assms]] by meson
    define s' where "s' = upd_class c (\<lambda>k. k\<lparr>page_list := ?cur, free_list := p\<rparr>)
                            (s\<lparr>hdr := (hdr s)\<lparr>bump := ?cur + PAGE_SIZE\<rparr>, mem := m7\<rparr>)"
    have "NewPage c s = Some (?cur, s')"
      using False wf(1,2) assms(2) nxt item start h l
      by (simp add: NewPage_def Let_def s'_def del: One_nat_def)
    moreover have "slab_inv s' (fl(c := page_chunks ?cur c @ fl c)) live"
      unfolding slab_inv_def
    proof (intro conjI allI impI ballI)
      let ?fl = "fl(c := page_chunks ?cur c @ fl c)"
      show "header_wf (hdr s')"
        using D(1) False wf(8) unfolding s'_def by (simp add: header_wf_def item_size_upd)
      show "pairwise_apart (all_blocks ?fl live)" by (rule new_blocks(2) [OF assms])
      have low: "rd32 m7 x = rd32 (mem s) x" if "d < 10" "x \<in> set (fl d)" for d x
      proof -
        have "x + class_size d \<le> ?cur" using D(7) [OF free_in_blocks [of d x fl live]] that by simp
        then show ?thesis
          using l(5) h(6) class_size_ge [of d] by (intro rd32_cong) auto
      qed
      have old: "chain m7 (free_list (classes (hdr s) ! d)) (fl d)" if "d < 10" for d
        using D(2) [OF that] low that by (simp add: chain_to_cong [of _ m7 "mem s"])
      show "chain (mem s') (free_list (classes (hdr s') ! d)) (?fl d)" if "d < 10" for d
        using old [OF that] old [OF assms(2)] l(4) wf(1) that
        by (auto simp: s'_def nth_list_update chain_to_append)
      show "distinct (?fl d)" if "d < 10" for d by (rule new_blocks(4) [OF assms that])
      fix b
      show "snd b < 10" if "b \<in> live" by (rule D(4) [OF that])
      show "fst b \<notin> set (?fl (snd b))" if "b \<in> live"
        using D(5) [OF that] new_blocks(3) [OF assms live_in_blocks [OF that]] by auto
      assume "b \<in> all_blocks ?fl live"
      then consider x where "b = (x, c)" "x \<in> set (page_chunks ?cur c)" | "b \<in> all_blocks fl live"
        using new_blocks(1) [OF assms] by blast
      then have "base_offset (hdr s) + sizeof_SlabHeader \<le> fst b \<and>
          fst b + class_size (snd b) \<le> ?cur + PAGE_SIZE"
      proof cases
        case 1
        then show ?thesis using page_chunks_range [OF assms(2)] wf(8) by fastforce
      next
        case 2
        then show ?thesis using D(6,7) by fastforce
      qed
      then show "base_offset (hdr s') + sizeof_SlabHeader \<le> fst b"
          "fst b + class_size (snd b) \<le> bump (hdr s')"
        by (simp_all add: s'_def)
    qed
    ultimately show ?thesis
      using False wf h(6) l(5) by (auto simp: s'_def)
  qed
qed

section \<open>Allocation\<close>

lemma and_not_mask_eq: "x AND NOT (mask n) = push_bit n (drop_bit n (x :: 32 word))"
  by (rule bit_word_eqI)
     (auto simp: bit_and_iff bit_not_iff bit_mask_iff bit_push_bit_iff bit_drop_bit_eq not_less)

lemma Align8_eq: "unat b + 7 < 2 ^ 32 \<Longrightarrow> unat (Align8 b) = (unat b + 7) div 8 * 8"
proof -
  assume b: "unat b + 7 < 2 ^ 32"
  have "Align8 b = (b + 7) AND NOT (mask 3)" by (simp add: Align8_def mask_eq_exp_minus_1)
  then have "Align8 b = push_bit 3 (drop_bit 3 (b + 7))" by (simp only: and_not_mask_eq)
  moreover have "unat (b + 7) = unat b + 7" using b by (simp add: unat_word_ariths)
  moreover have "(unat b + 7) div 8 * 8 < 2 ^ 32" using b by linarith
  moreover have "unat (push_bit 3 (drop_bit 3 w)) = take_bit 32 (push_bit 3 (drop_bit 3 (unat w)))"
    for w :: "32 word"
  proof -
    have "unat w < 2 ^ 32" using unsigned_less [of w, where 'a = nat] by simp
    then have "take_bit 32 (unat w) = unat w" by (rule take_bit_nat_eq_self)
    then show ?thesis by (simp add: unsigned_push_bit_eq unsigned_drop_bit_eq)
  qed
  ultimately show ?thesis
    by (simp only: push_bit_eq_mult drop_bit_eq_div take_bit_eq_mod) simp
qed

lemma pow2ceil_large: "8192 < unat b \<Longrightarrow> unat b \<le> 2 ^ 31 \<Longrightarrow> SizeClassIndex b = None"
proof -
  assume b: "8192 < unat b" "unat b \<le> 2 ^ 31"
  then obtain k where k: "unat b \<le> 2 ^ (k + 1)" "unat (pow2ceil b) = 2 ^ (k + 1)"
    using pow2ceil_range [of b] by auto
  then have "8192 < unat (pow2ceil b)" using b by simp
  then show ?thesis by (simp add: SizeClassIndex_def Let_def)
qed

text \<open>For every request up to 2 GiB the class, if there is one, holds the request.\<close>

lemma request_class:
  assumes "unat b \<le> 2 ^ 31" "SizeClassIndex (Align8 b) = Some c"
  shows "c < 10" "unat b \<le> class_size c"
proof -
  show "c < 10" using assms(2) by (rule SizeClassIndex_less)
  have a: "unat b \<le> unat (Align8 b)" "unat (Align8 b) \<le> 2 ^ 31"
    using assms(1) by (auto simp: Align8_eq)
  show "unat b \<le> class_size c"
  proof (cases "unat (Align8 b) = 0")
    case True then show ?thesis using a by simp
  next
    case False
    have "unat (Align8 b) \<le> 8192"
      using pow2ceil_large [of "Align8 b"] a assms(2) by (metis not_le option.distinct(1))
    then show ?thesis
      using SizeClassIndex_fits [of "Align8 b"] False a assms(2)
      by (metis class_size_def le_trans neq0_conv option.inject)
  qed
qed

lemma Alloc_spec:
  assumes "slab_inv s fl live" "SizeClassIndex (Align8 bytes) = Some c"
  shows "(Alloc bytes s = Some (0, s) \<and> fl c = [] \<and> end_off (hdr s) < bump (hdr s) + PAGE_SIZE) \<or>
         (\<exists>off s' fl'. Alloc bytes s = Some (off, s') \<and> off \<noteq> 0 \<and> (off, c) \<notin> live \<and>
            (fl c \<noteq> [] \<or> bump (hdr s) + PAGE_SIZE \<le> end_off (hdr s)) \<and>
            slab_inv s' fl' (insert (off, c) live) \<and>
            total_size (hdr s') = total_size (hdr s) \<and> end_off (hdr s') = end_off (hdr s) \<and>
            (\<forall>a < bump (hdr s). mem s' a = mem s a))"
proof -
  note D = slab_invD [OF assms(1)]
  have c: "c < 10" by (rule SizeClassIndex_less [OF assms(2)])
  then have len: "c < length (classes (hdr s))" using D(1) by (simp add: header_wf_def)
  note fb = free_list_bound(2) [OF assms(1) c]
  have endo: "end_off (hdr s') = end_off (hdr s)" if "pop_chunk c s = Some (x, s')" for s s' x
    using that by (auto simp: pop_chunk_def Let_def ld32_def split: if_splits)
  show ?thesis
  proof (cases "fl c")
    case (Cons x xs)
    then have "Alloc bytes s = pop_chunk c s" using assms(2) len fb by (simp add: Alloc_def)
    then show ?thesis using pop_chunk_spec [OF assms(1) c Cons] Cons endo by fastforce
  next
    case Nil
    consider "NewPage c s = Some (0, s)" "end_off (hdr s) < bump (hdr s) + PAGE_SIZE"
      | s1 where "NewPage c s = Some (bump (hdr s), s1)" "bump (hdr s) \<noteq> 0"
          "bump (hdr s) + PAGE_SIZE \<le> end_off (hdr s)"
          "slab_inv s1 (fl(c := page_chunks (bump (hdr s)) c @ fl c)) live"
          "total_size (hdr s1) = total_size (hdr s)" "end_off (hdr s1) = end_off (hdr s)"
          "\<forall>a < bump (hdr s). mem s1 a = mem s a"
      using NewPage_spec [OF assms(1) c] by blast
    then show ?thesis
    proof cases
      case 1
      then have "Alloc bytes s = Some (0, s)" using assms(2) len fb Nil by (simp add: Alloc_def)
      then show ?thesis using 1 Nil by simp
    next
      case 2
      let ?fl = "fl(c := page_chunks (bump (hdr s)) c @ fl c)"
      obtain x xs where x: "?fl c = x # xs"
        using payload_facts(4) [OF c] Nil by (cases "?fl c") (auto simp: page_chunks_def)
      obtain s2 where p: "pop_chunk c s1 = Some (x, s2)" "x \<noteq> 0"
          "slab_inv s2 (?fl(c := xs)) (insert (x, c) live)" "mem s2 = mem s1" "(x, c) \<notin> live"
          "total_size (hdr s2) = total_size (hdr s1)"
        using pop_chunk_spec [OF 2(4) c x] by blast
      have "Alloc bytes s = Some (x, s2)"
        using assms(2) len fb Nil 2(1,2) p(1) by (simp add: Alloc_def)
      then show ?thesis using p 2 endo [OF p(1)] by force
    qed
  qed
qed

lemma ctor_slab_inv:
  assumes "region_size \<ge> sizeof_SlabHeader" "region_off + region_size \<le> tot"
    "tot < 2 ^ 32" "region_off + region_size + PAGE_SIZE < 2 ^ 32"
  shows "\<exists>s'. ShmSlab_ctor True tot region_off region_size s = Some s' \<and>
           slab_inv s' (\<lambda>_. []) {} \<and> end_off (hdr s') = region_off + region_size \<and>
           base_offset (hdr s') = region_off"
proof -
  have len: "length class_sizes = 10" by (simp add: class_sizes_def)
  have "map (\<lambda>z. item_size (init_class z)) class_sizes = map class_size [0..<10]"
    by (simp add: class_sizes_def init_class_def Let_def class_size_def upt_conv_Cons)
  then have eq: "map (\<lambda>z. item_size (init_class z)) class_sizes ! c = map class_size [0..<10] ! c" for c
    by (rule arg_cong)
  have item: "item_size (init_class (class_sizes ! c)) = class_size c" if "c < 10" for c
  proof -
    have "map (\<lambda>z. item_size (init_class z)) class_sizes ! c = item_size (init_class (class_sizes ! c))"
      using that len by (intro nth_map) simp
    moreover have "map class_size [0..<10] ! c = class_size ([0..<10] ! c)"
      using that by (intro nth_map) simp
    moreover have "[0..<10] ! c = c" using that nth_upt [of 0 c 10] by simp
    ultimately show ?thesis using eq [of c] by metis
  qed
  then have wf: "header_wf (init_header tot region_off region_size)"
    using assms len by (simp add: header_wf_def init_header_def uadd_small)
  let ?h = "init_header tot region_off region_size"
  have fl: "free_list (classes ?h ! c) = 0" if "c < 10" for c
    using that len by (simp add: init_header_def init_class_def Let_def)
  have "slab_inv (s\<lparr>hdr := ?h\<rparr>) (\<lambda>_. []) {}"
    using wf fl by (simp add: slab_inv_def all_blocks_def pairwise_apart_def)
  moreover have "end_off ?h = region_off + region_size" "base_offset ?h = region_off"
    using assms by (simp_all add: init_header_def uadd_small)
  ultimately show ?thesis by (simp add: ShmSlab_ctor_def)
qed

section \<open>The slab provides the allocator interface\<close>

lemma NewPage_frame:
  "NewPage c s = Some (p, s') \<Longrightarrow>
     base_offset (hdr s') = base_offset (hdr s) \<and> length (classes (hdr s')) = length (classes (hdr s))"
  by (auto simp: NewPage_def Let_def Option.bind_eq_Some_conv split: if_splits)

lemma pop_chunk_frame:
  "pop_chunk c s = Some (p, s') \<Longrightarrow>
     base_offset (hdr s') = base_offset (hdr s) \<and> length (classes (hdr s')) = length (classes (hdr s))"
  by (auto simp: pop_chunk_def Let_def Option.bind_eq_Some_conv)

lemma Alloc_frame: "Alloc b s = Some (p, s') \<Longrightarrow> base_offset (hdr s') = base_offset (hdr s)"
  by (auto simp: Alloc_def Option.bind_eq_Some_conv split: option.splits if_splits
           dest!: NewPage_frame pop_chunk_frame)

definition slab_poke :: "slab \<Rightarrow> nat \<Rightarrow> 8 word \<Rightarrow> slab" where
  "slab_poke s a v = s\<lparr>mem := (mem s)(a := v)\<rparr>"

text \<open>The slab with base \<open>B\<close> and end \<open>E\<close> has handed out exactly the blocks \<open>L\<close>.\<close>

definition slab_owns :: "nat \<Rightarrow> nat \<Rightarrow> slab \<Rightarrow> (nat \<times> nat) set \<Rightarrow> bool" where
  "slab_owns B E s L \<longleftrightarrow>
     (\<exists>fl. slab_inv s fl L) \<and> base_offset (hdr s) = B \<and> end_off (hdr s) = E"

lemma slab_alloc_law:
  assumes "slab_owns B E s L" "unat b \<le> 2 ^ 31"
  shows "\<exists>off s'. Alloc b s = Some (off, s') \<and>
        (off = 0 \<and> s' = s \<or>
         (\<exists>c. off \<noteq> 0 \<and> SizeClassIndex (Align8 b) = Some c \<and> (off, c) \<notin> L \<and>
              slab_owns B E s' (insert (off, c) L) \<and>
              (\<forall>x \<in> L. \<forall>a \<in> block_bytes x. mem s' a = mem s a)))"
proof (cases "SizeClassIndex (Align8 b)")
  case None
  then show ?thesis by (simp add: Alloc_def)
next
  case (Some c)
  obtain fl where fl: "slab_inv s fl L" "base_offset (hdr s) = B" "end_off (hdr s) = E"
    using assms(1) by (auto simp: slab_owns_def)
  have low: "a < bump (hdr s)" if "x \<in> L" "a \<in> block_bytes x" for x a
    using slab_invD(7) [OF fl(1) live_in_blocks [OF that(1)]] that(2) by (auto simp: block_bytes_def)
  consider "Alloc b s = Some (0, s)"
    | off s' fl' where "Alloc b s = Some (off, s')" "off \<noteq> 0" "(off, c) \<notin> L"
        "slab_inv s' fl' (insert (off, c) L)" "end_off (hdr s') = end_off (hdr s)"
        "\<forall>a < bump (hdr s). mem s' a = mem s a"
    using Alloc_spec [OF fl(1) Some] by blast
  then show ?thesis
  proof cases
    case 1 then show ?thesis by simp
  next
    case 2
    then have "slab_owns B E s' (insert (off, c) L)"
      using Alloc_frame [OF 2(1)] fl by (auto simp: slab_owns_def)
    moreover have "\<forall>x \<in> L. \<forall>a \<in> block_bytes x. mem s' a = mem s a" using 2(6) low by blast
    ultimately show ?thesis using 2(1-3) Some by blast
  qed
qed

lemma slab_release_law:
  assumes "slab_owns B E s L" "SizeClassIndex (Align8 b) = Some c" "(off, c) \<in> L"
  shows "\<exists>s'. Free off b s = Some s' \<and> slab_owns B E s' (L - {(off, c)}) \<and>
        (\<forall>x \<in> L - {(off, c)}. \<forall>a \<in> block_bytes x. mem s' a = mem s a)"
proof -
  obtain fl where fl: "slab_inv s fl L" "base_offset (hdr s) = B" "end_off (hdr s) = E"
    using assms(1) by (auto simp: slab_owns_def)
  have apart: "a \<notin> block_bytes (off, c)" if "x \<in> L - {(off, c)}" "a \<in> block_bytes x" for x a
    using slab_invD(8) [OF fl(1)] live_in_blocks that assms(3) unfolding pairwise_apart_def by blast
  obtain s' where "Free off b s = Some s'" "slab_inv s' (fl(c := off # fl c)) (L - {(off, c)})"
      "end_off (hdr s') = end_off (hdr s)" "base_offset (hdr s') = base_offset (hdr s)"
      "\<forall>a. a \<notin> block_bytes (off, c) \<longrightarrow> mem s' a = mem s a"
    using Free_spec [OF fl(1) assms(2,3)] by blast
  then show ?thesis using fl apart by (auto simp: slab_owns_def)
qed

interpretation slab_alloc: block_allocator "slab_owns B E" "\<lambda>s b. Alloc b s" "\<lambda>s off b. Free off b s"
    slab_poke mem "\<lambda>b. SizeClassIndex (Align8 b)" block_bytes "\<lambda>b. unat b \<le> 2 ^ 31"
    "{B + sizeof_SlabHeader..<E}"
  for B E
proof
  fix s L b assume "slab_owns B E s L" "unat (b :: 32 word) \<le> 2 ^ 31"
  then show "\<exists>off s'. Alloc b s = Some (off, s') \<and>
        (off = 0 \<and> s' = s \<or>
         (\<exists>c. off \<noteq> 0 \<and> SizeClassIndex (Align8 b) = Some c \<and> (off, c) \<notin> L \<and>
              slab_owns B E s' (insert (off, c) L) \<and>
              (\<forall>x \<in> L. \<forall>a \<in> block_bytes x. mem s' a = mem s a)))"
    by (rule slab_alloc_law)
next
  fix s L b c off assume "slab_owns B E s L" "SizeClassIndex (Align8 b) = Some c" "(off, c) \<in> L"
  then show "\<exists>s'. Free off b s = Some s' \<and> slab_owns B E s' (L - {(off, c)}) \<and>
        (\<forall>x \<in> L - {(off, c)}. \<forall>a \<in> block_bytes x. mem s' a = mem s a)"
    by (rule slab_release_law)
next
  fix s L x a v assume h: "slab_owns B E s L" "x \<in> L" "a \<in> block_bytes x"
  have "slab_inv (slab_poke s a v) fl L" if "slab_inv s fl L" for fl
    unfolding slab_poke_def by (rule client_write_inv [OF that h(2)]) (use h(3) in auto)
  then show "slab_owns B E (slab_poke s a v) L"
    using h(1) by (auto simp: slab_owns_def slab_poke_def)
next
  fix s a v a' show "mem (slab_poke s a v) a' = (if a' = a then v else mem s a')"
    by (simp add: slab_poke_def)
next
  fix s L x y assume "slab_owns B E s L" "x \<in> L" "y \<in> L" "x \<noteq> y"
  then show "block_bytes x \<inter> block_bytes y = {}"
    using slab_invD(8) live_in_blocks unfolding slab_owns_def pairwise_apart_def by blast
next
  fix b :: "32 word" and c k off
  assume "unat b \<le> 2 ^ 31" "SizeClassIndex (Align8 b) = Some c" "k < unat b"
  then show "off + k \<in> block_bytes (off, c)"
    using request_class(2) [of b c] by (simp add: block_bytes_def)
next
  fix s L x assume h: "slab_owns B E s L" "x \<in> L"
  then obtain fl where fl: "slab_inv s fl L" by (auto simp: slab_owns_def)
  note D = slab_invD [OF fl]
  have "bump (hdr s) \<le> E" using D(1) h(1) by (simp add: header_wf_def slab_owns_def)
  then show "block_bytes x \<subseteq> {B + sizeof_SlabHeader..<E}"
    using D(6,7) [OF live_in_blocks [OF h(2)]] h(1)
    by (auto simp: block_bytes_def slab_owns_def)
qed

lemma ctor_owns:
  assumes "region_size \<ge> sizeof_SlabHeader" "region_off + region_size \<le> tot"
    "tot < 2 ^ 32" "region_off + region_size + PAGE_SIZE < 2 ^ 32"
  obtains s' where "ShmSlab_ctor True tot region_off region_size s = Some s'"
    "slab_owns region_off (region_off + region_size) s' {}"
    "bump (hdr s') = region_off + sizeof_SlabHeader"
proof -
  obtain s' where s': "ShmSlab_ctor True tot region_off region_size s = Some s'"
      "slab_inv s' (\<lambda>_. []) {}" "end_off (hdr s') = region_off + region_size"
      "base_offset (hdr s') = region_off"
    using ctor_slab_inv [OF assms] by blast
  have "slab_owns region_off (region_off + region_size) s' {}"
    unfolding slab_owns_def using s'(2-4) by blast
  moreover have "bump (hdr s') = region_off + sizeof_SlabHeader"
    using s'(1) assms by (auto simp: ShmSlab_ctor_def init_header_def uadd_small sizeof_SlabHeader_def)
  ultimately show thesis using that s'(1) by blast
qed

section \<open>Properties\<close>


definition blank_slab :: slab where
  "blank_slab = \<lparr>hdr = init_header 0 0 0, mem = (\<lambda>_. 0)\<rparr>"


text \<open>
  the size class of a request of 1 to 8192 bytes is the smallest of the ten that holds it.
\<close>

theorem size_class_tight:
  assumes "0 < unat b" "unat b \<le> 8192"
  shows "\<exists>i < 10. SizeClassIndex b = Some i \<and> unat b \<le> class_sizes ! i \<and>
           (\<forall>j < i. class_sizes ! j < unat b)"
proof -
  have all: "\<forall>i \<in> set [0..<10]. class_sizes ! i = 16 * 2 ^ i"
    by (simp add: class_sizes_def upt_conv_Cons)
  have nth: "class_sizes ! i = 16 * 2 ^ i" if "i < 10" for i using all that by simp
  obtain i where i: "SizeClassIndex b = Some i" "i < 10" "unat b \<le> 16 * 2 ^ i"
      "i = 0 \<or> 16 * 2 ^ (i - 1) < unat b"
    using SizeClassIndex_fits [OF assms] by blast
  have "class_sizes ! j < unat b" if j: "j < i" for j
  proof -
    have "(2::nat) ^ j \<le> 2 ^ (i - 1)" using j by (intro power_increasing) auto
    moreover have "16 * 2 ^ (i - 1) < unat b" using i(4) j by blast
    ultimately have "16 * 2 ^ j < unat b" by linarith
    then show ?thesis using i(2) j nth [of j] by simp
  qed
  then show ?thesis using i nth [of i] by auto
qed

theorem size_class_tight_witness:
  "0 < unat (100 :: 32 word) \<and> (\<exists>i < 10. SizeClassIndex 100 = Some i \<and>
     unat (100 :: 32 word) \<le> class_sizes ! i \<and> (\<forall>j < i. class_sizes ! j < unat (100 :: 32 word)))"
  using size_class_tight [of 100] by simp

text \<open>
  allocation fails only when the slab is exhausted: for a request with a size class, on a slab
  that has handed out \<open>L\<close>, \<open>Alloc\<close> returns 0 exactly when the class has no free chunk and fewer than
  \<open>PAGE_SIZE\<close> bytes are left behind \<open>bump\<close>, and then changes nothing.
\<close>

theorem alloc_fails_iff_exhausted:
  assumes "slab_owns B E s L" "SizeClassIndex (Align8 b) = Some c"
  shows "\<exists>off s'. Alloc b s = Some (off, s') \<and>
    (off = 0 \<longleftrightarrow> free_list (classes (hdr s) ! c) = 0 \<and> E < bump (hdr s) + PAGE_SIZE) \<and>
    (off = 0 \<longrightarrow> s' = s)"
proof -
  obtain fl where fl: "slab_inv s fl L" "end_off (hdr s) = E"
    using assms(1) by (auto simp: slab_owns_def)
  have e: "free_list (classes (hdr s) ! c) = 0 \<longleftrightarrow> fl c = []"
    using free_list_bound(2) [OF fl(1) SizeClassIndex_less [OF assms(2)]] .
  consider "Alloc b s = Some (0, s)" "fl c = []" "E < bump (hdr s) + PAGE_SIZE"
    | off s' where "Alloc b s = Some (off, s')" "off \<noteq> 0"
        "fl c \<noteq> [] \<or> bump (hdr s) + PAGE_SIZE \<le> E"
    using Alloc_spec [OF fl(1) assms(2)] unfolding fl(2) by blast
  then show ?thesis by cases (auto simp: e)
qed

theorem alloc_fails_iff_exhausted_witness:
  "\<exists>s off s'. ShmSlab_ctor True 200000 64 190000 blank_slab = Some s \<and> Alloc 40 s = Some (off, s') \<and>
    (off = 0 \<longleftrightarrow> free_list (classes (hdr s) ! 2) = 0 \<and> 64 + 190000 < bump (hdr s) + PAGE_SIZE) \<and>
    (off = 0 \<longrightarrow> s' = s)"
proof -
  obtain s where s: "ShmSlab_ctor True 200000 64 190000 blank_slab = Some s"
      "slab_owns 64 (64 + 190000) s {}"
    by (rule ctor_owns [of 190000 64 200000 blank_slab])
      (simp_all add: sizeof_SlabHeader_def PAGE_SIZE_def)
  have "SizeClassIndex (Align8 40) = Some 2" by (simp_all add: SizeClassIndex_def Align8_def pow2ceil_def Let_def class_loop.simps MAX_CLASSES_def word_le_nat_alt)
  from alloc_fails_iff_exhausted [OF s(2) this] show ?thesis using s(1) by blast
qed

text \<open>
  A freed block is the next one its class hands out: \<open>Free\<close> of a held block followed by \<open>Alloc\<close>
  of any size of the same class returns that block.
\<close>

theorem free_then_alloc_reuses:
  assumes "slab_owns B E s L" "(off, c) \<in> L"
    "SizeClassIndex (Align8 b) = Some c" "SizeClassIndex (Align8 b') = Some c"
  shows "\<exists>s1 s2. Free off b s = Some s1 \<and> Alloc b' s1 = Some (off, s2) \<and> slab_owns B E s2 L"
proof -
  obtain fl where fl: "slab_inv s fl L" "base_offset (hdr s) = B" "end_off (hdr s) = E"
    using assms(1) by (auto simp: slab_owns_def)
  obtain s1 where s1: "Free off b s = Some s1" "slab_inv s1 (fl(c := off # fl c)) (L - {(off, c)})"
      "end_off (hdr s1) = E" "base_offset (hdr s1) = B"
    using Free_spec [OF fl(1) assms(3,2)] fl by auto
  have c: "c < 10" by (rule SizeClassIndex_less [OF assms(3)])
  obtain s2 where s2: "pop_chunk c s1 = Some (off, s2)"
      "slab_inv s2 ((fl(c := off # fl c))(c := fl c)) (insert (off, c) (L - {(off, c)}))"
    using pop_chunk_spec [OF s1(2) c, of off "fl c"] by auto
  have "c < length (classes (hdr s1))" using slab_invD(1) [OF s1(2)] c by (simp add: header_wf_def)
  then have a: "Alloc b' s1 = Some (off, s2)"
    using assms(4) free_list_bound(2) [OF s1(2) c] s2(1) by (simp add: Alloc_def)
  moreover have "end_off (hdr s2) = E"
    using s2(1) s1(3) by (auto simp: pop_chunk_def Let_def Option.bind_eq_Some_conv)
  moreover have "insert (off, c) (L - {(off, c)}) = L" using assms(2) by blast
  ultimately show ?thesis
    using s1 s2(2) Alloc_frame [OF a] unfolding slab_owns_def by metis
qed

theorem free_then_alloc_reuses_witness:
  "\<exists>s off s0 s1 s2. ShmSlab_ctor True 200000 64 190000 blank_slab = Some s \<and>
     Alloc 40 s = Some (off, s0) \<and> off \<noteq> 0 \<and>
     Free off 40 s0 = Some s1 \<and> Alloc 60 s1 = Some (off, s2)"
proof -
  obtain s where s: "ShmSlab_ctor True 200000 64 190000 blank_slab = Some s"
      "slab_owns 64 (64 + 190000) s {}" "bump (hdr s) = 64 + sizeof_SlabHeader"
    by (rule ctor_owns [of 190000 64 200000 blank_slab])
      (simp_all add: sizeof_SlabHeader_def PAGE_SIZE_def)
  have c: "SizeClassIndex (Align8 40) = Some 2" "SizeClassIndex (Align8 60) = Some 2" by (simp_all add: SizeClassIndex_def Align8_def pow2ceil_def Let_def class_loop.simps MAX_CLASSES_def word_le_nat_alt)
  have no: "off \<noteq> 0" if "Alloc 40 s = Some (off, s0)" for off s0
  proof -
    obtain fl where "slab_inv s fl {}" "end_off (hdr s) = 190064"
      using s(2) by (auto simp: slab_owns_def)
    moreover have "\<not> 190064 < bump (hdr s) + PAGE_SIZE"
      using s(3) by (simp add: sizeof_SlabHeader_def PAGE_SIZE_def)
    ultimately have "\<exists>off' s'. Alloc 40 s = Some (off', s') \<and> off' \<noteq> 0"
      using Alloc_spec [OF _ c(1), of s fl "{}"] by metis
    then show ?thesis using that by auto
  qed
  obtain off s0 where a: "Alloc 40 s = Some (off, s0)" "slab_owns 64 (64 + 190000) s0 {(off, 2)}"
    using slab_alloc_law [OF s(2), of 40] c(1) no by force
  from free_then_alloc_reuses [OF a(2) _ c] show ?thesis using s(1) a(1) no [OF a(1)] by blast
qed

text \<open>
  C3: a request above 2 GiB is not refused: rounding it up wraps to 0, so it is served from the
  16-byte class as if it were the smallest one.
\<close>

theorem huge_request_gets_smallest_class:
  assumes "2 ^ 31 < unat b"
  shows "SizeClassIndex (Align8 b) = Some 0"
proof -
  have zero: "SizeClassIndex x = Some 0" if "2 ^ 31 < unat x" for x
  proof -
    have u: "unat (x - 1) = unat x - 1" using that by (intro unat_minus_one) auto
    have "unat x < 2 ^ 32" using unsigned_less [of x, where 'a = nat] by simp
    then have "pow2ceil x = 2 ^ (31 + 1)"
      using that u by (intro pow2ceil_eq) (auto simp: word_less_nat_alt)
    then show ?thesis
      using class_loop_eq [of 0 0] by (simp add: SizeClassIndex_def Let_def)
  qed
  show ?thesis
  proof (cases "unat b + 7 < 2 ^ 32")
    case True
    then have "2 ^ 31 < unat (Align8 b)" using assms by (simp add: Align8_eq)
    then show ?thesis by (rule zero)
  next
    case False
    have "unat b < 2 ^ 32" using unsigned_less [of b, where 'a = nat] by simp
    then have "unat b + 7 - 2 ^ 32 < 7" "(unat b + 7) mod 2 ^ 32 = (unat b + 7 - 2 ^ 32) mod 2 ^ 32"
      using False by (auto simp: le_mod_geq)
    moreover have "unat (b + 7) = (unat b + 7) mod 2 ^ 32" by (simp add: unat_word_ariths)
    ultimately obtain k where k: "unat (b + 7) = k" "k < 7" by (simp add: mod_less)
    have "Align8 b = push_bit 3 (drop_bit 3 (b + 7))"
      by (simp only: Align8_def and_not_mask_eq [of _ 3, symmetric] mask_eq_exp_minus_1) simp
    moreover have "drop_bit 3 (b + 7) = 0"
      using k unat_drop_bit_eq [of 3 "b + 7"]
      by (simp only: word_unat_eq_iff drop_bit_eq_div) simp
    ultimately have "Align8 b = 0" by simp
    then show ?thesis
      using class_loop_eq [of 0 0] by (simp add: SizeClassIndex_def Let_def pow2ceil_def)
  qed
qed

theorem huge_request_gets_smallest_class_witness:
  "2 ^ 31 < unat (0xC0000000 :: 32 word) \<and> SizeClassIndex (Align8 0xC0000000) = Some 0"
  using huge_request_gets_smallest_class [of "0xC0000000"] by simp

end
