(* ===== verification/HashMap.thy ===== *)
theory HashMap
  imports Slab
begin

text \<open>
  \<open>ShmHashMap\<close> (server/core/shm/shm_hashmap.h, shm_hashmap.cpp) and \<open>ShmEpoch\<close> (shm_epoch.h): a hash map
  in one region of shared memory. Header, stripe locks, buckets, epoch header, slab header, nodes and
  retirement records all lie in the same bytes, as in the code, since where they lie decides what
  happens. Every method is one step. \<^term>\<open>None\<close> means that a method does not return normally: an access
  outside the region, a lock that is never released, or a loop that does not end.
\<close>

section \<open>Bytes of the region\<close>

definition ld_bytes :: "nat \<Rightarrow> bytes \<Rightarrow> nat \<Rightarrow> nat \<Rightarrow> 8 word list option" where
  "ld_bytes tot m a n = (if a + n \<le> tot then Some (map m [a..<a + n]) else None)"

definition st_bytes :: "nat \<Rightarrow> bytes \<Rightarrow> nat \<Rightarrow> 8 word list \<Rightarrow> bytes option" where
  "st_bytes tot m a xs =
     (if a + length xs \<le> tot then Some (\<lambda>x. if a \<le> x \<and> x < a + length xs then xs ! (x - a) else m x) else None)"

definition fill0 :: "nat \<Rightarrow> bytes \<Rightarrow> nat \<Rightarrow> nat \<Rightarrow> bytes option" where
  "fill0 tot m a n = (if a + n \<le> tot then Some (\<lambda>x. if a \<le> x \<and> x < a + n then 0 else m x) else None)"

fun words_at :: "bytes \<Rightarrow> nat \<Rightarrow> nat list \<Rightarrow> bytes" where
  "words_at m a [] = m"
| "words_at m a (w # ws) = words_at (wr32 m a w) (a + 4) ws"

text \<open>\<open>fetch_add\<close> on the 64-bit counters of the header\<close>

definition inc64 :: "nat \<Rightarrow> bytes \<Rightarrow> nat \<Rightarrow> bytes option" where
  "inc64 tot m a = do { v \<leftarrow> ld_bytes tot m a 8; st_bytes tot m a (le_bytes 8 (le_nat v + 1)) }"

section \<open>Layout\<close>

abbreviation (input) o_magic :: nat where "o_magic \<equiv> 0"
abbreviation (input) o_version :: nat where "o_version \<equiv> 4"
abbreviation (input) o_total_size :: nat where "o_total_size \<equiv> 8"
abbreviation (input) o_header_size :: nat where "o_header_size \<equiv> 12"
abbreviation (input) o_bucket_count_old :: nat where "o_bucket_count_old \<equiv> 16"
abbreviation (input) o_bucket_count_new :: nat where "o_bucket_count_new \<equiv> 20"
abbreviation (input) o_lock_count :: nat where "o_lock_count \<equiv> 24"
abbreviation (input) o_item_count :: nat where "o_item_count \<equiv> 28"
abbreviation (input) o_rehash_cursor :: nat where "o_rehash_cursor \<equiv> 32"
abbreviation (input) o_rehash_active :: nat where "o_rehash_active \<equiv> 36"
abbreviation (input) o_locks_off :: nat where "o_locks_off \<equiv> 40"
abbreviation (input) o_buckets_old_off :: nat where "o_buckets_old_off \<equiv> 44"
abbreviation (input) o_buckets_new_off :: nat where "o_buckets_new_off \<equiv> 48"
abbreviation (input) o_slab_off :: nat where "o_slab_off \<equiv> 52"
abbreviation (input) o_epoch_off :: nat where "o_epoch_off \<equiv> 56"
abbreviation (input) o_gets_ok :: nat where "o_gets_ok \<equiv> 64"
abbreviation (input) o_gets_not_found :: nat where "o_gets_not_found \<equiv> 72"
abbreviation (input) o_puts_ok :: nat where "o_puts_ok \<equiv> 80"
abbreviation (input) o_puts_overwrite :: nat where "o_puts_overwrite \<equiv> 88"
abbreviation (input) o_puts_fail :: nat where "o_puts_fail \<equiv> 96"
abbreviation (input) o_erases_ok :: nat where "o_erases_ok \<equiv> 104"
abbreviation (input) o_erases_not_found :: nat where "o_erases_not_found \<equiv> 112"
abbreviation (input) o_retire_head :: nat where "o_retire_head \<equiv> 120"

definition sizeof_HMHeader :: nat where "sizeof_HMHeader = 128"
definition sizeof_Node :: nat where "sizeof_Node = 24"
definition sizeof_RetireNode :: nat where "sizeof_RetireNode = 16"
definition MAX_READERS :: nat where "MAX_READERS = 1024"
definition sizeof_EpochHeader :: nat where "sizeof_EpochHeader = 12 + 12 * MAX_READERS"
definition HMR2 :: nat where "HMR2 = 0x484D5232"
definition EPOC :: nat where "EPOC = 0x45504F43"

text \<open>The object of one process: the size of its region, and where its slab and epoch headers are.\<close>

record hash_map =
  hm_total :: nat
  hm_slab_at :: nat
  hm_epoch_at :: nat

section \<open>The slab in the region\<close>

text \<open>
  The slab's header is read from the bytes and written back after each call. Its own \<open>total_size\<close> is
  never read by the code; the bound of an access is the region. A call that would write a page or a
  link over this header is not modelled and has no result.
\<close>

definition class_at :: "bytes \<Rightarrow> nat \<Rightarrow> slab_class" where
  "class_at m a = \<lparr>item_size = rd32 m a, items_per_page = rd32 m (a + 4), free_list = rd32 m (a + 8),
     page_list = rd32 m (a + 12), class_lock = rd32 m (a + 16)\<rparr>"

definition slab_view :: "nat \<Rightarrow> nat \<Rightarrow> bytes \<Rightarrow> slab" where
  "slab_view tot s m =
     \<lparr>hdr = \<lparr>magic = rd32 m s, version = rd32 m (s + 4), total_size = tot, base_offset = rd32 m (s + 12),
        bump = rd32 m (s + 16), end_off = rd32 m (s + 20), classes = map (\<lambda>i. class_at m (s + 24 + 20 * i)) [0..<MAX_CLASSES]\<rparr>,
      mem = m\<rparr>"

definition class_words :: "slab_class \<Rightarrow> nat list" where
  "class_words c = [item_size c, items_per_page c, free_list c, page_list c, class_lock c]"

definition slab_store :: "nat \<Rightarrow> bytes \<Rightarrow> slab \<Rightarrow> bytes option" where
  "slab_store s m sl =
     (if list_all (\<lambda>x. mem sl x = m x) [s..<s + sizeof_SlabHeader]
      then Some (words_at (words_at (mem sl) (s + 16) [bump (hdr sl)]) (s + 24) (concat (map class_words (classes (hdr sl)))))
      else None)"

definition hm_alloc :: "hash_map \<Rightarrow> 32 word \<Rightarrow> bytes \<Rightarrow> (nat \<times> bytes) option" where
  "hm_alloc H n m =
     do { (off, sl) \<leftarrow> Alloc n (slab_view (hm_total H) (hm_slab_at H) m);
          m1 \<leftarrow> slab_store (hm_slab_at H) m sl;
          Some (off, m1) }"

definition hm_free :: "hash_map \<Rightarrow> nat \<Rightarrow> 32 word \<Rightarrow> bytes \<Rightarrow> bytes option" where
  "hm_free H off n m =
     do { sl \<leftarrow> Free off n (slab_view (hm_total H) (hm_slab_at H) m);
          slab_store (hm_slab_at H) m sl }"

text \<open>The slab's constructor on a region that is already mapped\<close>

definition slab_attach :: "bool \<Rightarrow> nat \<Rightarrow> nat \<Rightarrow> nat \<Rightarrow> bytes \<Rightarrow> fault + bytes" where
  "slab_attach create tot s region_size m =
     (if \<not> s + sizeof_SlabHeader \<le> tot then Inl Undefined
      else case ShmSlab_ctor create tot s region_size (slab_view tot s m) of
             None \<Rightarrow> Inl Thrown
           | Some sl \<Rightarrow>
               (let h = hdr sl
                in Inr (if create
                        then words_at m s ([magic h, version h, total_size h, base_offset h, bump h, end_off h] @
                               concat (map class_words (classes h)))
                        else m)))"

section \<open>Epochs\<close>

definition ShmEpoch_ctor :: "bool \<Rightarrow> nat \<Rightarrow> nat \<Rightarrow> bytes \<Rightarrow> fault + bytes" where
  "ShmEpoch_ctor create tot off m =
     (if create
      then case fill0 tot m off sizeof_EpochHeader of
             None \<Rightarrow> Inl Undefined
           | Some m1 \<Rightarrow> Inr (words_at m1 off [EPOC, 1, 1])
      else if \<not> off + 8 \<le> tot then Inl Undefined
      else if rd32 m off \<noteq> EPOC \<or> rd32 m (off + 4) \<noteq> 1 then Inl Thrown
      else Inr m)"

text \<open>\<open>readers[idx]\<close>; an index below zero, as \<open>RegisterReader\<close> returns when all slots are taken, is not checked.\<close>

definition slot_at :: "hash_map \<Rightarrow> int \<Rightarrow> nat" where
  "slot_at H idx = nat (int (hm_epoch_at H) + 12 + 12 * idx)"

definition RegisterReader :: "hash_map \<Rightarrow> nat \<Rightarrow> bytes \<Rightarrow> (int \<times> bytes) option" where
  "RegisterReader H tid_hint m =
     (if \<not> hm_epoch_at H + sizeof_EpochHeader \<le> hm_total H then None
      else case List.find (\<lambda>i. rd32 m (slot_at H (int i) + 4) = 0) [0..<MAX_READERS] of
             None \<Rightarrow> Some (- 1, m)
           | Some i \<Rightarrow>
               (let a = slot_at H (int i) in Some (int i, wr32 (wr32 m (a + 4) 1) (a + 8) tid_hint)))"

definition UnregisterReader :: "hash_map \<Rightarrow> int \<Rightarrow> bytes \<Rightarrow> bytes option" where
  "UnregisterReader H idx m =
     (if idx < 0 then Some m
      else do { m1 \<leftarrow> st32 (hm_total H) m (slot_at H idx) 0;
                m2 \<leftarrow> st32 (hm_total H) m1 (slot_at H idx + 8) 0;
                st32 (hm_total H) m2 (slot_at H idx + 4) 0 })"

definition ReaderEnter :: "hash_map \<Rightarrow> int \<Rightarrow> bytes \<Rightarrow> bytes option" where
  "ReaderEnter H idx m =
     do { e \<leftarrow> ld32 (hm_total H) m (hm_epoch_at H + 8); st32 (hm_total H) m (slot_at H idx) e }"

definition ReaderExit :: "hash_map \<Rightarrow> int \<Rightarrow> bytes \<Rightarrow> bytes option" where
  "ReaderExit H idx m = st32 (hm_total H) m (slot_at H idx) 0"

definition BumpEpoch :: "hash_map \<Rightarrow> bytes \<Rightarrow> (nat \<times> bytes) option" where
  "BumpEpoch H m =
     do { e \<leftarrow> ld32 (hm_total H) m (hm_epoch_at H + 8);
          m1 \<leftarrow> st32 (hm_total H) m (hm_epoch_at H + 8) (u32_add e 1);
          Some (u32_add e 1, m1) }"

definition MinActiveEpoch :: "hash_map \<Rightarrow> bytes \<Rightarrow> nat option" where
  "MinActiveEpoch H m =
     (if \<not> hm_epoch_at H + sizeof_EpochHeader \<le> hm_total H then None
      else
        let active = filter (\<lambda>e. e \<noteq> 0) (map (\<lambda>i. rd32 m (slot_at H (int i))) [0..<MAX_READERS]);
            minv = foldr min active (2 ^ 32 - 1)
        in Some (if minv = 2 ^ 32 - 1 then rd32 m (hm_epoch_at H + 8) else minv))"

section \<open>Construction\<close>

definition is_pow2 :: "nat \<Rightarrow> bool" where
  "is_pow2 x = ((of_nat x AND (of_nat x - 1) :: 32 word) = 0)"

text \<open>The doubling loop; above \<open>2 ^ 31\<close> the counter wraps to zero and the loop does not end.\<close>

partial_function (option) double_up :: "nat \<Rightarrow> nat \<Rightarrow> nat option" where
  "double_up b n = (if b < n then double_up (2 * b mod 2 ^ 32) n else Some b)"

definition power_count :: "nat \<Rightarrow> nat \<Rightarrow> nat option" where
  "power_count start n = (if is_pow2 n then Some n else double_up start n)"

definition region_size_of :: "nat \<Rightarrow> nat \<Rightarrow> nat" where
  "region_size_of bucket_new lock_count = sizeof_HMHeader + 4 * lock_count + 4 * bucket_new"

text \<open>The body of the constructor for a new map, after the two members have been constructed.\<close>

definition create_layout :: "nat \<Rightarrow> nat \<Rightarrow> nat \<Rightarrow> nat \<Rightarrow> bytes \<Rightarrow> (nat \<times> bytes) option" where
  "create_layout tot s bucket_new lock_count m =
     do { bucket_new \<leftarrow> power_count 8 bucket_new;
          lock_count \<leftarrow> power_count 4 lock_count;
          m1 \<leftarrow> fill0 tot m 0 sizeof_HMHeader;
          let m2 = words_at m1 0 [HMR2, 2, tot, 0, 0, bucket_new, lock_count, 0, 0, 0];
          let off = sizeof_HMHeader;
          let m3 = wr32 m2 o_locks_off off;
          m4 \<leftarrow> fill0 tot m3 off (4 * lock_count);
          let off = u32_add off (4 * lock_count);
          let m5 = wr32 (wr32 m4 o_buckets_old_off 0) o_buckets_new_off off;
          m6 \<leftarrow> fill0 tot m5 off (4 * bucket_new);
          let off = u32_add off (4 * bucket_new);
          m7 \<leftarrow> fill0 tot (wr32 m6 o_epoch_off off) off sizeof_EpochHeader;
          let m8 = words_at m7 off [EPOC, 1, 1];
          let m9 = wr32 m8 o_slab_off (rd32 m8 (s + 12));
          Some (off, wr32 m9 o_header_size off) }"

definition ShmHashMap_ctor :: "bool \<Rightarrow> nat \<Rightarrow> nat \<Rightarrow> nat \<Rightarrow> bytes \<Rightarrow> fault + hash_map \<times> bytes" where
  "ShmHashMap_ctor create tot bucket_new lock_count m =
     (let s = region_size_of bucket_new lock_count mod 2 ^ 32
      in case slab_attach create tot s (u32_sub tot (region_size_of bucket_new lock_count)) m of
           Inl f \<Rightarrow> Inl f
         | Inr m1 \<Rightarrow>
             (case ShmEpoch_ctor create tot 0 m1 of
                Inl f \<Rightarrow> Inl f
              | Inr m2 \<Rightarrow>
                  if tot < 2 ^ 20 then Inl Thrown
                  else if create
                  then (case create_layout tot s bucket_new lock_count m2 of
                          None \<Rightarrow> Inl Undefined
                        | Some (off, m3) \<Rightarrow> Inr (\<lparr>hm_total = tot, hm_slab_at = s, hm_epoch_at = off\<rparr>, m3))
                  else if rd32 m2 o_magic \<noteq> HMR2 \<or> rd32 m2 o_version \<noteq> 2 then Inl Thrown
                  else (case ShmEpoch_ctor False tot (rd32 m2 o_epoch_off) m2 of
                          Inl f \<Rightarrow> Inl f
                        | Inr m3 \<Rightarrow>
                            Inr (\<lparr>hm_total = tot, hm_slab_at = s, hm_epoch_at = rd32 m2 o_epoch_off\<rparr>, m3))))"

section \<open>Locks, buckets and chains\<close>

definition HashBytes :: "8 word list \<Rightarrow> 64 word" where
  "HashBytes data =
     (let h = foldl (\<lambda>h b. (h XOR ucast b) * 1099511628211) 1469598103934665603 data;
          h = h XOR drop_bit 33 h;
          h = h * 0xff51afd7ed558ccd;
          h = h XOR drop_bit 33 h;
          h = h * 0xc4ceb9fe1a85ec53
      in h XOR drop_bit 33 h)"

text \<open>The offset of an element of an array whose base is at the offset stored at \<open>member\<close>; zero is a null pointer.\<close>

definition array_at :: "hash_map \<Rightarrow> nat \<Rightarrow> nat \<Rightarrow> bytes \<Rightarrow> nat option" where
  "array_at H member idx m =
     do { off \<leftarrow> ld32 (hm_total H) m member; if off = 0 then None else Some (off + 4 * idx) }"

definition lock_index :: "64 word \<Rightarrow> bytes \<Rightarrow> nat" where
  "lock_index h m = unat (h AND of_nat (u32_sub (rd32 m o_lock_count) 1))"

definition bucket_index :: "64 word \<Rightarrow> bool \<Rightarrow> bytes \<Rightarrow> nat" where
  "bucket_index h use_new m =
     unat (h AND of_nat (u32_sub (rd32 m (if use_new then o_bucket_count_new else o_bucket_count_old)) 1))"

definition bucket_at :: "hash_map \<Rightarrow> bool \<Rightarrow> nat \<Rightarrow> bytes \<Rightarrow> nat option" where
  "bucket_at H use_new b m = array_at H (if use_new then o_buckets_new_off else o_buckets_old_off) b m"

definition spin_lock :: "nat \<Rightarrow> nat \<Rightarrow> bytes \<Rightarrow> bytes option" where
  "spin_lock tot a m = do { v \<leftarrow> ld32 tot m a; if v = 0 then st32 tot m a 1 else None }"

definition spin_unlock :: "nat \<Rightarrow> nat \<Rightarrow> bytes \<Rightarrow> bytes option" where
  "spin_unlock tot a m = st32 tot m a 0"

definition node_matches :: "nat \<Rightarrow> bytes \<Rightarrow> nat \<Rightarrow> 64 word \<Rightarrow> 8 word list \<Rightarrow> bool option" where
  "node_matches tot m n h key =
     do { hash \<leftarrow> ld_bytes tot m (n + 8) 8;
          key_len \<leftarrow> ld32 tot m (n + 16);
          if le_nat hash = unat h \<and> key_len = length key
          then do { k \<leftarrow> ld_bytes tot m (n + sizeof_Node) (length key); Some (k = key) }
          else Some False }"

text \<open>The walk all methods share: the matching node with its predecessor and successor.\<close>

partial_function (option) chain_find ::
  "nat \<Rightarrow> bytes \<Rightarrow> 64 word \<Rightarrow> 8 word list \<Rightarrow> nat \<Rightarrow> nat \<Rightarrow> (nat \<times> nat \<times> nat) option option" where
  "chain_find tot m h key cur prev =
     (if cur = 0 then Some None
      else Option.bind (ld32 tot m cur) (\<lambda>nxt. Option.bind (node_matches tot m cur h key) (\<lambda>found.
             if found then Some (Some (cur, prev, nxt)) else chain_find tot m h key nxt cur)))"

definition to_front :: "nat \<Rightarrow> nat \<Rightarrow> nat \<Rightarrow> nat \<Rightarrow> nat \<Rightarrow> bytes \<Rightarrow> bytes option" where
  "to_front tot head cur prev nxt m =
     do { m1 \<leftarrow> st32 tot m prev nxt;
          first \<leftarrow> ld32 tot m1 head;
          m2 \<leftarrow> st32 tot m1 cur first;
          st32 tot m2 head cur }"

definition MoveToFront :: "nat \<Rightarrow> nat \<Rightarrow> 64 word \<Rightarrow> 8 word list \<Rightarrow> bytes \<Rightarrow> (bool \<times> bytes) option" where
  "MoveToFront tot head h key m =
     do { first \<leftarrow> ld32 tot m head;
          r \<leftarrow> chain_find tot m h key first 0;
          case r of
            None \<Rightarrow> Some (False, m)
          | Some (cur, prev, nxt) \<Rightarrow>
              if prev = 0 then Some (True, m)
              else do { m1 \<leftarrow> to_front tot head cur prev nxt m; Some (True, m1) } }"

definition EraseFromList :: "nat \<Rightarrow> nat \<Rightarrow> 64 word \<Rightarrow> 8 word list \<Rightarrow> bytes \<Rightarrow> (nat option \<times> bytes) option" where
  "EraseFromList tot head h key m =
     do { first \<leftarrow> ld32 tot m head;
          r \<leftarrow> chain_find tot m h key first 0;
          case r of
            None \<Rightarrow> Some (None, m)
          | Some (cur, prev, nxt) \<Rightarrow>
              do { m1 \<leftarrow> st32 tot m (if prev = 0 then head else prev) nxt; Some (Some cur, m1) } }"

section \<open>Nodes\<close>

definition NodeSizeBytes :: "nat \<Rightarrow> nat \<Rightarrow> 32 word" where
  "NodeSizeBytes k v = Align8 (of_nat (sizeof_Node + k + v))"

definition AllocNode :: "hash_map \<Rightarrow> 64 word \<Rightarrow> 8 word list \<Rightarrow> 8 word list \<Rightarrow> bytes \<Rightarrow> (nat \<times> bytes) option" where
  "AllocNode H h key val m =
     (let tot = hm_total H
      in do { (off, m1) \<leftarrow> hm_alloc H (NodeSizeBytes (length key) (length val)) m;
              if off = 0 then Some (0, m1)
              else do {
                m2 \<leftarrow> st32 tot m1 off 0;
                m3 \<leftarrow> st_bytes tot m2 (off + 8) (le_bytes 8 (unat h));
                m4 \<leftarrow> st32 tot m3 (off + 16) (length key);
                m5 \<leftarrow> st32 tot m4 (off + 20) (length val);
                m6 \<leftarrow> st_bytes tot m5 (off + sizeof_Node) (key @ val);
                Some (off, m6) } })"

definition RetireNode :: "hash_map \<Rightarrow> nat \<Rightarrow> bytes \<Rightarrow> bytes option" where
  "RetireNode H node_off m =
     (if node_off = 0 then Some m
      else
        let tot = hm_total H
        in do { kl \<leftarrow> ld32 tot m (node_off + 16);
                vl \<leftarrow> ld32 tot m (node_off + 20);
                (e, m1) \<leftarrow> BumpEpoch H m;
                (rec_off, m2) \<leftarrow> hm_alloc H (Align8 (of_nat sizeof_RetireNode)) m1;
                if rec_off = 0 then hm_free H node_off (NodeSizeBytes kl vl) m2
                else do {
                  m3 \<leftarrow> st32 tot m2 (rec_off + 4) node_off;
                  m4 \<leftarrow> st32 tot m3 (rec_off + 8) (unat (NodeSizeBytes kl vl));
                  m5 \<leftarrow> st32 tot m4 (rec_off + 12) e;
                  first \<leftarrow> ld32 tot m5 o_retire_head;
                  m6 \<leftarrow> st32 tot m5 rec_off first;
                  st32 tot m6 o_retire_head rec_off } })"

text \<open>\<open>Reclaim\<close> walks the retirement records, frees the old ones and chains the rest from \<open>keep\<close> to \<open>keep_tail\<close>.\<close>

partial_function (option) reclaim_loop ::
  "hash_map \<Rightarrow> nat \<Rightarrow> nat \<Rightarrow> nat \<Rightarrow> nat \<Rightarrow> bytes \<Rightarrow> (nat \<times> nat \<times> bytes) option" where
  "reclaim_loop H minE cur keep keep_tail m =
     (if cur = 0 then Some (keep, keep_tail, m)
      else Option.bind (ld32 (hm_total H) m cur) (\<lambda>nxt.
           Option.bind (ld32 (hm_total H) m (cur + 12)) (\<lambda>e.
             if u32_add e 1 < minE
             then Option.bind (ld32 (hm_total H) m (cur + 4)) (\<lambda>node.
                  Option.bind (ld32 (hm_total H) m (cur + 8)) (\<lambda>n.
                  Option.bind (hm_free H node (of_nat n) m) (\<lambda>m1.
                  Option.bind (hm_free H cur (Align8 (of_nat sizeof_RetireNode)) m1) (\<lambda>m2.
                    reclaim_loop H minE nxt keep keep_tail m2))))
             else Option.bind (st32 (hm_total H) m cur 0) (\<lambda>m1.
                    if keep = 0 then reclaim_loop H minE nxt cur cur m1
                    else Option.bind (st32 (hm_total H) m1 keep_tail cur) (\<lambda>m2.
                           reclaim_loop H minE nxt keep cur m2)))))"

definition Reclaim :: "hash_map \<Rightarrow> bytes \<Rightarrow> bytes option" where
  "Reclaim H m =
     (let tot = hm_total H
      in do { minE \<leftarrow> MinActiveEpoch H m;
              cur \<leftarrow> ld32 tot m o_retire_head;
              m1 \<leftarrow> st32 tot m o_retire_head 0;
              (keep, keep_tail, m2) \<leftarrow> reclaim_loop H minE cur 0 0 m1;
              if keep = 0 then Some m2
              else do { first \<leftarrow> ld32 tot m2 o_retire_head;
                        m3 \<leftarrow> st32 tot m2 keep_tail first;
                        st32 tot m3 o_retire_head keep } })"

section \<open>Rehashing\<close>

definition RehashInProgress :: "bytes \<Rightarrow> bool" where
  "RehashInProgress m = (rd32 m o_rehash_active \<noteq> 0)"

definition RehashStart :: "hash_map \<Rightarrow> nat \<Rightarrow> bytes \<Rightarrow> (bool \<times> bytes) option" where
  "RehashStart H new_bucket_count m =
     do { n \<leftarrow> power_count 8 new_bucket_count;
          if RehashInProgress m then Some (True, m)
          else
            let tot = hm_total H; old_n = rd32 m o_bucket_count_new; old_off = rd32 m o_buckets_new_off;
                new_off = u32_add old_off (4 * old_n)
            in if new_off + 4 * n + 1 > tot then Some (False, m)
            else
              let m1 = wr32 (wr32 m o_bucket_count_old old_n) o_buckets_old_off old_off;
                  m2 = wr32 (wr32 m1 o_bucket_count_new n) o_buckets_new_off new_off
              in if new_off = 0 \<and> n \<noteq> 0 then None
              else do { m3 \<leftarrow> fill0 tot m2 new_off (4 * n);
                        Some (True, wr32 (wr32 m3 o_rehash_cursor 0) o_rehash_active 1) } }"

definition EnsureBuckets :: "hash_map \<Rightarrow> nat \<Rightarrow> bool \<Rightarrow> bytes \<Rightarrow> bytes option" where
  "EnsureBuckets H buckets is_new m =
     (if is_new then do { n \<leftarrow> power_count 8 buckets; Some m }
      else
        let off = u32_add (rd32 m o_buckets_new_off) (4 * rd32 m o_bucket_count_new);
            m1 = wr32 (wr32 m o_bucket_count_old buckets) o_buckets_old_off off
        in if off = 0 \<and> buckets \<noteq> 0 then None else fill0 (hm_total H) m1 off (4 * buckets))"

fun lock_all :: "hash_map \<Rightarrow> nat list \<Rightarrow> bytes \<Rightarrow> bytes option" where
  "lock_all H [] m = Some m"
| "lock_all H (i # is) m =
     do { a \<leftarrow> array_at H o_locks_off i m; m1 \<leftarrow> spin_lock (hm_total H) a m; lock_all H is m1 }"

fun unlock_all :: "hash_map \<Rightarrow> nat list \<Rightarrow> bytes \<Rightarrow> bytes option" where
  "unlock_all H [] m = Some m"
| "unlock_all H (i # is) m =
     do { a \<leftarrow> array_at H o_locks_off i m; m1 \<leftarrow> spin_unlock (hm_total H) a m; unlock_all H is m1 }"

partial_function (option) migrate_chain :: "hash_map \<Rightarrow> nat \<Rightarrow> bytes \<Rightarrow> bytes option" where
  "migrate_chain H cur m =
     (if cur = 0 then Some m
      else Option.bind (ld32 (hm_total H) m cur) (\<lambda>nxt.
           Option.bind (ld_bytes (hm_total H) m (cur + 8) 8) (\<lambda>hash.
           Option.bind (bucket_at H True (bucket_index (of_nat (le_nat hash)) True m) m) (\<lambda>b.
           Option.bind (ld32 (hm_total H) m b) (\<lambda>first.
           Option.bind (st32 (hm_total H) m cur first) (\<lambda>m1.
           Option.bind (st32 (hm_total H) m1 b cur) (\<lambda>m2. migrate_chain H nxt m2)))))))"

definition MigrateOneBucket :: "hash_map \<Rightarrow> nat \<Rightarrow> bytes \<Rightarrow> (nat \<times> bytes) option" where
  "MigrateOneBucket H b m =
     (if b \<ge> rd32 m o_bucket_count_old then Some (0, m)
      else do {
        a \<leftarrow> bucket_at H False b m;
        head \<leftarrow> ld32 (hm_total H) m a;
        if head = 0 then Some (1, m)
        else do {
          m1 \<leftarrow> lock_all H [0..<rd32 m o_lock_count] m;
          first \<leftarrow> ld32 (hm_total H) m1 a;
          m2 \<leftarrow> st32 (hm_total H) m1 a 0;
          m3 \<leftarrow> migrate_chain H first m2;
          m4 \<leftarrow> unlock_all H [0..<rd32 m3 o_lock_count] m3;
          Some (1, m4) } })"

fun rehash_loop :: "hash_map \<Rightarrow> nat \<Rightarrow> nat \<Rightarrow> bytes \<Rightarrow> (nat \<times> bytes) option" where
  "rehash_loop H 0 finished m = Some (finished, m)"
| "rehash_loop H (Suc steps) finished m =
     (let b = rd32 m o_rehash_cursor; m1 = wr32 m o_rehash_cursor (u32_add b 1)
      in if b \<ge> rd32 m1 o_bucket_count_old then Some (finished, wr32 m1 o_rehash_active 0)
         else do { (k, m2) \<leftarrow> MigrateOneBucket H b m1; rehash_loop H steps (u32_add finished k) m2 })"

definition RehashStep :: "hash_map \<Rightarrow> nat \<Rightarrow> bytes \<Rightarrow> (nat \<times> bytes) option" where
  "RehashStep H steps m = (if \<not> RehashInProgress m then Some (0, m) else rehash_loop H steps 0 m)"

definition HelpRehashStep :: "hash_map \<Rightarrow> bytes \<Rightarrow> bytes option" where
  "HelpRehashStep H m =
     (if RehashInProgress m then do { (k, m1) \<leftarrow> RehashStep H 1 m; Some m1 } else Some m)"

section \<open>The methods of the map\<close>

text \<open>What \<open>Put\<close> and \<open>Erase\<close> do after they have released their lock.\<close>

definition after_write :: "hash_map \<Rightarrow> bytes \<Rightarrow> (bool \<times> bytes) option" where
  "after_write H m = do { m1 \<leftarrow> HelpRehashStep H m; m2 \<leftarrow> Reclaim H m1; Some (True, m2) }"

definition put_failed :: "hash_map \<Rightarrow> nat \<Rightarrow> bytes \<Rightarrow> (bool \<times> bytes) option" where
  "put_failed H l m =
     do { m1 \<leftarrow> inc64 (hm_total H) m o_puts_fail; m2 \<leftarrow> spin_unlock (hm_total H) l m1; Some (False, m2) }"

text \<open>The three ways of storing: over a value of the same length, in place of the old node, or as a new node.\<close>

definition put_same :: "hash_map \<Rightarrow> nat \<Rightarrow> nat \<Rightarrow> nat \<Rightarrow> nat \<Rightarrow> nat \<Rightarrow> 8 word list \<Rightarrow> 8 word list \<Rightarrow> bytes \<Rightarrow> (bool \<times> bytes) option" where
  "put_same H l head cur prev nxt key val m =
     (let tot = hm_total H
      in do { m1 \<leftarrow> st_bytes tot m (cur + sizeof_Node + length key) val;
              m2 \<leftarrow> (if prev \<noteq> 0 then to_front tot head cur prev nxt m1 else Some m1);
              m3 \<leftarrow> inc64 tot m2 o_puts_overwrite;
              m4 \<leftarrow> spin_unlock tot l m3;
              after_write H m4 })"

definition put_other :: "hash_map \<Rightarrow> nat \<Rightarrow> nat \<Rightarrow> nat \<Rightarrow> nat \<Rightarrow> nat \<Rightarrow> 8 word list \<Rightarrow> 8 word list \<Rightarrow> bytes \<Rightarrow> (bool \<times> bytes) option" where
  "put_other H l head cur prev nxt key val m =
     (let tot = hm_total H
      in do { (new_off, m1) \<leftarrow> AllocNode H (HashBytes key) key val m;
              if new_off = 0 then put_failed H l m1
              else do {
                m2 \<leftarrow> st32 tot m1 new_off nxt;
                m3 \<leftarrow> st32 tot m2 (if prev = 0 then head else prev) new_off;
                m4 \<leftarrow> RetireNode H cur m3;
                m5 \<leftarrow> inc64 tot m4 o_puts_overwrite;
                m6 \<leftarrow> spin_unlock tot l m5;
                after_write H m6 } })"

definition put_new :: "hash_map \<Rightarrow> nat \<Rightarrow> nat \<Rightarrow> 8 word list \<Rightarrow> 8 word list \<Rightarrow> bytes \<Rightarrow> (bool \<times> bytes) option" where
  "put_new H l head key val m =
     (let tot = hm_total H
      in do { (new_off, m1) \<leftarrow> AllocNode H (HashBytes key) key val m;
              if new_off = 0 then put_failed H l m1
              else do {
                first \<leftarrow> ld32 tot m1 head;
                m2 \<leftarrow> st32 tot m1 new_off first;
                m3 \<leftarrow> st32 tot m2 head new_off;
                m4 \<leftarrow> st32 tot m3 o_item_count (u32_add (rd32 m3 o_item_count) 1);
                m5 \<leftarrow> inc64 tot m4 o_puts_ok;
                m6 \<leftarrow> spin_unlock tot l m5;
                after_write H m6 } })"

definition Put :: "hash_map \<Rightarrow> 8 word list \<Rightarrow> 8 word list \<Rightarrow> bytes \<Rightarrow> (bool \<times> bytes) option" where
  "Put H key val m =
     (if key = [] then Some (False, m)
      else
        let tot = hm_total H; h = HashBytes key
        in do { l \<leftarrow> array_at H o_locks_off (lock_index h m) m;
                m1 \<leftarrow> spin_lock tot l m;
                head \<leftarrow> bucket_at H True (bucket_index h True m) m1;
                first \<leftarrow> ld32 tot m1 head;
                r \<leftarrow> chain_find tot m1 h key first 0;
                case r of
                  None \<Rightarrow> put_new H l head key val m1
                | Some (cur, prev, nxt) \<Rightarrow>
                    do { val_len \<leftarrow> ld32 tot m1 (cur + 20);
                         if val_len = length val then put_same H l head cur prev nxt key val m1
                         else put_other H l head cur prev nxt key val m1 } })"

text \<open>The value found in one of the two tables\<close>

definition look_up :: "hash_map \<Rightarrow> bool \<Rightarrow> 64 word \<Rightarrow> 8 word list \<Rightarrow> bytes \<Rightarrow> 8 word list option option" where
  "look_up H use_new h key m =
     (let tot = hm_total H
      in do { head \<leftarrow> bucket_at H use_new (bucket_index h use_new m) m;
              first \<leftarrow> ld32 tot m head;
              r \<leftarrow> chain_find tot m h key first 0;
              case r of
                None \<Rightarrow> Some None
              | Some (cur, prev, nxt) \<Rightarrow>
                  do { n \<leftarrow> ld32 tot m (cur + 20);
                       v \<leftarrow> ld_bytes tot m (cur + sizeof_Node + length key) n;
                       Some (Some v) } })"

definition Get :: "hash_map \<Rightarrow> 8 word list \<Rightarrow> int \<Rightarrow> bytes \<Rightarrow> (8 word list option \<times> bytes) option" where
  "Get H key reader_idx m =
     (if key = [] then Some (None, m)
      else
        let tot = hm_total H; h = HashBytes key
        in do { m1 \<leftarrow> ReaderEnter H reader_idx m;
                r \<leftarrow> look_up H True h key m1;
                r \<leftarrow> (if r = None \<and> rd32 m1 o_bucket_count_old \<noteq> 0 then look_up H False h key m1 else Some r);
                m2 \<leftarrow> inc64 tot m1 (if r = None then o_gets_not_found else o_gets_ok);
                m3 \<leftarrow> ReaderExit H reader_idx m2;
                Some (r, m3) })"

definition Exists :: "hash_map \<Rightarrow> 8 word list \<Rightarrow> int \<Rightarrow> bytes \<Rightarrow> (bool \<times> bytes) option" where
  "Exists H key reader_idx m = do { (r, m1) \<leftarrow> Get H key reader_idx m; Some (r \<noteq> None, m1) }"

text \<open>\<open>Erase\<close> in one table, up to the release of the lock.\<close>

definition erase_in :: "hash_map \<Rightarrow> bool \<Rightarrow> 64 word \<Rightarrow> 8 word list \<Rightarrow> bytes \<Rightarrow> (bool \<times> bytes) option" where
  "erase_in H use_new h key m =
     (let tot = hm_total H
      in do { l \<leftarrow> array_at H o_locks_off (lock_index h m) m;
              m1 \<leftarrow> spin_lock tot l m;
              head \<leftarrow> bucket_at H use_new (bucket_index h use_new m) m1;
              (erased, m2) \<leftarrow> EraseFromList tot head h key m1;
              case erased of
                None \<Rightarrow> do { m3 \<leftarrow> spin_unlock tot l m2; Some (False, m3) }
              | Some off \<Rightarrow>
                  do { m3 \<leftarrow> RetireNode H off m2;
                       m4 \<leftarrow> st32 tot m3 o_item_count (u32_sub (rd32 m3 o_item_count) 1);
                       m5 \<leftarrow> inc64 tot m4 o_erases_ok;
                       m6 \<leftarrow> spin_unlock tot l m5;
                       Some (True, m6) } })"

definition Erase :: "hash_map \<Rightarrow> 8 word list \<Rightarrow> bytes \<Rightarrow> (bool \<times> bytes) option" where
  "Erase H key m =
     (if key = [] then Some (False, m)
      else
        let h = HashBytes key
        in do { (ok, m1) \<leftarrow> erase_in H True h key m;
                (ok, m2) \<leftarrow> (if \<not> ok \<and> rd32 m1 o_bucket_count_old \<noteq> 0 then erase_in H False h key m1 else Some (ok, m1));
                if ok then after_write H m2
                else do { m3 \<leftarrow> inc64 (hm_total H) m2 o_erases_not_found; Some (False, m3) } })"

definition TouchMoveToFront :: "hash_map \<Rightarrow> 8 word list \<Rightarrow> bytes \<Rightarrow> (bool \<times> bytes) option" where
  "TouchMoveToFront H key m =
     (if key = [] then Some (False, m)
      else
        let tot = hm_total H; h = HashBytes key
        in do { l \<leftarrow> array_at H o_locks_off (lock_index h m) m;
                m1 \<leftarrow> spin_lock tot l m;
                head \<leftarrow> bucket_at H True (bucket_index h True m) m1;
                (ok, m2) \<leftarrow> MoveToFront tot head h key m1;
                m3 \<leftarrow> spin_unlock tot l m2;
                Some (ok, m3) })"

definition hm_size :: "bytes \<Rightarrow> nat" where
  "hm_size m = rd32 m o_item_count"

section \<open>Attaching never works\<close>

text \<open>
  No process can attach to an existing map, whatever the region holds: the constructor first looks for
  an epoch header at offset 0 and later for the map's own header at the same place.
\<close>

theorem attach_always_throws:
  assumes "region_size_of bucket_new lock_count mod 2 ^ 32 + sizeof_SlabHeader \<le> tot"
  shows "ShmHashMap_ctor False tot bucket_new lock_count m = Inl Thrown"
proof -
  let ?s = "region_size_of bucket_new lock_count mod 2 ^ 32"
  let ?n = "u32_sub tot (region_size_of bucket_new lock_count)"
  have "slab_attach False tot ?s ?n m = Inl Thrown \<or> slab_attach False tot ?s ?n m = Inr m"
    using assms by (simp add: slab_attach_def ShmSlab_ctor_def Let_def split: option.split)
  then consider "slab_attach False tot ?s ?n m = Inl Thrown" | "slab_attach False tot ?s ?n m = Inr m" by blast
  then show ?thesis
  proof cases
    case 1
    then show ?thesis by (simp add: ShmHashMap_ctor_def Let_def)
  next
    case 2
    have "8 \<le> tot" using assms by (simp add: sizeof_SlabHeader_def)
    then show ?thesis using 2 by (simp add: ShmHashMap_ctor_def ShmEpoch_ctor_def Let_def EPOC_def HMR2_def)
  qed
qed

section \<open>Words of the region\<close>

lemma rd32_zero: "rd32 m a = 0 \<longleftrightarrow> m a = 0 \<and> m (a + 1) = 0 \<and> m (a + 2) = 0 \<and> m (a + 3) = 0"
  by (auto simp: rd32_def unat_eq_0)

lemma wr32_rd32 [simp]: "wr32 m a (rd32 m a) = m"
proof -
  have u: "unat (m x) < 256" for x using unsigned_less [of "m x"] by simp
  have d: "(unat (m x) + 256 * n) div 256 = n" for x n using u [of x] by simp
  have w: "(word_of_nat (unat (m x) + 256 * n) :: 8 word) = m x" for x n
  proof -
    have "(unat (m x) + 256 * n) mod 256 = unat (m x)" using u [of x] by simp
    then have "unat (word_of_nat (unat (m x) + 256 * n) :: 8 word) = unat (m x)" by (simp only: unat_of_nat) simp
    then show ?thesis by (rule word_unat_eq_iff [THEN iffD2])
  qed
  show ?thesis unfolding wr32_def rd32_def d w by (simp add: fun_eq_iff)
qed

lemma words_at_same:
  "(\<And>i. i < length ws \<Longrightarrow> ws ! i = rd32 m (a + 4 * i)) \<Longrightarrow> words_at m a ws = m"
proof (induction ws arbitrary: a)
  case (Cons w ws)
  have w: "w = rd32 m a" using Cons.prems [of 0] by simp
  have "ws ! i = rd32 m (a + 4 + 4 * i)" if "i < length ws" for i using Cons.prems [of "Suc i"] that by (simp add: add.assoc)
  then show ?case using Cons.IH by (simp add: w)
qed simp

lemma words_at_outside: "x < a \<or> a + 4 * length ws \<le> x \<Longrightarrow> words_at m a ws x = m x"
  by (induction ws arbitrary: m a) (auto simp: wr32_outside)

lemma rd32_words_at_other: "b + 4 \<le> a \<or> a + 4 * length ws \<le> b \<Longrightarrow> rd32 (words_at m a ws) b = rd32 m b"
  by (rule rd32_cong) (auto intro!: words_at_outside)

lemma rd32_words_at:
  "i < length ws \<Longrightarrow> ws ! i < 2 ^ 32 \<Longrightarrow> rd32 (words_at m a ws) (a + 4 * i) = ws ! i"
proof (induction ws arbitrary: m a i)
  case (Cons w ws)
  show ?case
  proof (cases i)
    case 0
    then show ?thesis using Cons.prems by (simp add: rd32_words_at_other rd32_wr32_same)
  next
    case (Suc j)
    then show ?thesis using Cons.IH [of j "wr32 m a w" "a + 4"] Cons.prems by (simp add: algebra_simps)
  qed
qed simp

lemma rd32_fill0: "fill0 tot m a n = Some m' \<Longrightarrow> a \<le> b \<Longrightarrow> b + 4 \<le> a + n \<Longrightarrow> rd32 m' b = 0"
  by (auto simp: fill0_def rd32_zero split: if_splits)

lemma rd32_fill0_other: "fill0 tot m a n = Some m' \<Longrightarrow> b + 4 \<le> a \<or> a + n \<le> b \<Longrightarrow> rd32 m' b = rd32 m b"
  by (rule rd32_cong) (auto simp: fill0_def split: if_splits)

lemma fill0_fits: "fill0 tot m a n = Some m' \<Longrightarrow> a + n \<le> tot"
  by (auto simp: fill0_def split: if_splits)

lemma inc64_runs:
  assumes "a + 8 \<le> tot"
  obtains m' where "inc64 tot m a = Some m'" "\<forall>x. x < a \<or> a + 8 \<le> x \<longrightarrow> m' x = m x"
  using that assms by (auto simp: inc64_def ld_bytes_def st_bytes_def)

section \<open>The slab under the epoch header\<close>

lemma class_words_read:
  "concat (map class_words (map (\<lambda>i. class_at m (a + 20 * i)) [0..<MAX_CLASSES])) = map (\<lambda>j. rd32 m (a + 4 * j)) [0..<50]"
  by (simp add: MAX_CLASSES_def upt_rec class_words_def class_at_def add.commute)

lemma slab_store_view: "slab_store s m (slab_view tot s m) = Some m"
proof -
  have "words_at m (s + 24) (map (\<lambda>j. rd32 m (s + 24 + 4 * j)) [0..<50]) = m" by (rule words_at_same) simp
  then show ?thesis
    by (simp add: slab_store_def slab_view_def list_all_iff class_words_read [unfolded map_map o_def] o_def)
qed

text \<open>A slab header whose region is empty and whose free lists are empty.\<close>

definition dead_slab :: "nat \<Rightarrow> bytes \<Rightarrow> bool" where
  "dead_slab s m \<longleftrightarrow> rd32 m (s + 16) \<le> 1 \<and> rd32 m (s + 20) = 0 \<and> (\<forall>c < 10. rd32 m (s + 32 + 20 * c) = 0)"

lemma view_simps [simp]:
  "total_size (hdr (slab_view tot s m)) = tot" "bump (hdr (slab_view tot s m)) = rd32 m (s + 16)"
  "end_off (hdr (slab_view tot s m)) = rd32 m (s + 20)" "mem (slab_view tot s m) = m"
  "length (classes (hdr (slab_view tot s m))) = 10"
  by (simp_all add: slab_view_def MAX_CLASSES_def)

lemma view_class: "c < 10 \<Longrightarrow> classes (hdr (slab_view tot s m)) ! c = class_at m (s + 24 + 20 * c)"
  by (simp add: slab_view_def MAX_CLASSES_def)

lemma dead_alloc:
  assumes "dead_slab (hm_slab_at H) m"
  shows "hm_alloc H n m = Some (0, m)"
proof (cases "SizeClassIndex (Align8 n)")
  case None
  then show ?thesis by (simp add: hm_alloc_def Alloc_def slab_store_view)
next
  case (Some c)
  have c: "c < 10" by (rule SizeClassIndex_less [OF Some])
  have "free_list (class_at m (hm_slab_at H + 24 + 20 * c)) = 0"
    using assms c by (simp add: dead_slab_def class_at_def algebra_simps)
  then show ?thesis using assms c Some
    by (simp add: hm_alloc_def Alloc_def NewPage_def view_class Let_def dead_slab_def slab_store_view uadd_small PAGE_SIZE_def)
qed

section \<open>The map that was never written\<close>

text \<open>
  Header, locks and buckets as the constructor leaves them, and the words of the slab header: they are
  those of the first reader slots, since both headers lie at the same offset.
\<close>

definition laid_out :: "hash_map \<Rightarrow> nat \<Rightarrow> nat \<Rightarrow> nat \<Rightarrow> bool" where
  "laid_out H bn lc e \<longleftrightarrow>
     0 < bn \<and> 0 < lc \<and> e = sizeof_HMHeader + 4 * lc + 4 * bn \<and> hm_slab_at H = e \<and> hm_epoch_at H = e \<and>
     e + sizeof_EpochHeader \<le> hm_total H \<and> hm_total H < 2 ^ 32"

definition blank_header :: "nat \<Rightarrow> nat \<Rightarrow> bytes \<Rightarrow> bool" where
  "blank_header bn lc m \<longleftrightarrow>
     rd32 m o_magic = HMR2 \<and> rd32 m o_bucket_count_old = 0 \<and> rd32 m o_bucket_count_new = bn \<and> rd32 m o_lock_count = lc \<and>
     rd32 m o_item_count = 0 \<and> rd32 m o_rehash_active = 0 \<and> rd32 m o_locks_off = sizeof_HMHeader \<and>
     rd32 m o_buckets_new_off = sizeof_HMHeader + 4 * lc \<and> rd32 m o_retire_head = 0 \<and>
     (\<forall>i < lc + bn. rd32 m (sizeof_HMHeader + 4 * i) = 0)"

definition few_readers :: "nat \<Rightarrow> bytes \<Rightarrow> bool" where
  "few_readers e m \<longleftrightarrow>
     (\<forall>i < 3. rd32 m (e + 16 + 12 * i) \<le> 1 \<and> rd32 m (e + 20 + 12 * i) = 0) \<and>
     (\<forall>k. 12 \<le> k \<longrightarrow> k < 56 \<longrightarrow> rd32 m (e + 4 * k) = 0)"

text \<open>The bytes neither of them looks at: the counters and the epochs of the first three slots.\<close>

definition counters :: "nat \<Rightarrow> nat set" where
  "counters e = {64..<120} \<union> {e + 12..<e + 16} \<union> {e + 24..<e + 28} \<union> {e + 36..<e + 40}"

definition same_but :: "nat set \<Rightarrow> bytes \<Rightarrow> bytes \<Rightarrow> bool" where
  "same_but S m m' \<longleftrightarrow> (\<forall>x. x \<notin> S \<longrightarrow> m' x = m x)"

lemma same_but_trans: "same_but S m m1 \<Longrightarrow> same_but S m1 m2 \<Longrightarrow> same_but S m m2"
  by (simp add: same_but_def)

lemma same_but_rd32: "same_but S m m' \<Longrightarrow> {a..<a + 4} \<inter> S = {} \<Longrightarrow> rd32 m' a = rd32 m a"
  by (rule rd32_cong) (auto simp: same_but_def disjoint_iff)

lemma same_but_wr32: "{a..<a + 4} \<subseteq> S \<Longrightarrow> same_but S m (wr32 m a v)"
  unfolding same_but_def
proof (intro allI impI)
  fix x assume "{a..<a + 4} \<subseteq> S" "x \<notin> S"
  then have "x \<notin> {a..<a + 4}" by blast
  then show "wr32 m a v x = m x" by (intro wr32_outside) auto
qed

lemma rewritten: "rd32 m a = 0 \<Longrightarrow> same_but S (wr32 m a v) m1 \<Longrightarrow> same_but S m (wr32 m1 a 0)"
  by (auto simp: same_but_def rd32_zero wr32_def)

lemma few_dead: "few_readers e m \<Longrightarrow> dead_slab e m"
proof -
  assume h: "few_readers e m"
  have w: "rd32 m (e + 32 + 20 * c) = 0" if c: "c < 10" for c
  proof (cases "c = 0")
    case True
    have "rd32 m (e + 20 + 12 * 1) = 0" using h unfolding few_readers_def by (metis one_less_numeral_iff semiring_norm(77))
    then show ?thesis using True by (simp add: add.commute)
  next
    case False
    then have "12 \<le> 8 + 5 * c" "8 + 5 * c < 56" using c by auto
    then have "rd32 m (e + 4 * (8 + 5 * c)) = 0" using h unfolding few_readers_def by blast
    then show ?thesis by (simp add: algebra_simps)
  qed
  have "rd32 m (e + 16 + 12 * 0) \<le> 1 \<and> rd32 m (e + 20 + 12 * 0) = 0" using h unfolding few_readers_def by (metis zero_less_numeral)
  then show ?thesis using w by (simp add: dead_slab_def)
qed

lemma blank_same:
  assumes "laid_out H bn lc e" "same_but (counters e) m m'"
  shows "blank_header bn lc m \<Longrightarrow> blank_header bn lc m'" "few_readers e m \<Longrightarrow> few_readers e m'"
proof -
  have e: "e = 128 + 4 * lc + 4 * bn" using assms(1) by (simp add: laid_out_def sizeof_HMHeader_def)
  note r = same_but_rd32 [OF assms(2)]
  have low: "rd32 m' a = rd32 m a" if "a + 4 \<le> 64 \<or> 120 \<le> a \<and> a + 4 \<le> e" for a
    by (rule r) (use that e in \<open>auto simp: counters_def\<close>)
  show "blank_header bn lc m'" if "blank_header bn lc m"
    using that e unfolding blank_header_def sizeof_HMHeader_def by (auto simp: low)
  have slot: "rd32 m' (e + 16 + 12 * i) = rd32 m (e + 16 + 12 * i)" "rd32 m' (e + 20 + 12 * i) = rd32 m (e + 20 + 12 * i)"
    if "i < 3" for i
    by (rule r, use that e in \<open>auto simp: counters_def less_Suc_eq numeral_3_eq_3\<close>)+
  have rest: "rd32 m' (e + 4 * k) = rd32 m (e + 4 * k)" if "12 \<le> k" for k
    by (rule r) (use that e in \<open>auto simp: counters_def\<close>)
  show "few_readers e m'" if "few_readers e m" using that by (auto simp: few_readers_def slot rest)
qed

text \<open>The lock and the empty bucket of a key\<close>

lemma masked_index: "0 < n \<Longrightarrow> n < 2 ^ 32 \<Longrightarrow> unat ((h :: 64 word) AND of_nat (u32_sub n 1)) < n"
proof -
  assume n: "0 < n" "n < 2 ^ 32"
  have "u32_sub n 1 = n - 1" using n by (intro usub_small) auto
  moreover have "unat (of_nat (n - 1) :: 64 word) = n - 1" using n by (simp only: unat_of_nat) simp
  ultimately have "unat (h AND of_nat (u32_sub n 1)) \<le> n - 1"
    using word_and_le1 [of h "of_nat (n - 1) :: 64 word"] by (simp add: word_le_nat_alt)
  then show ?thesis using n by simp
qed

lemma stripe:
  assumes "laid_out H bn lc e" "blank_header bn lc m"
  obtains l head where "array_at H o_locks_off (lock_index h m) m = Some l" "128 \<le> l" "l + 4 \<le> 128 + 4 * lc" "rd32 m l = 0"
    "bucket_at H True (bucket_index h True m) (wr32 m l 1) = Some head" "bucket_at H True (bucket_index h True m) m = Some head"
    "128 + 4 * lc \<le> head" "head + 4 \<le> e" "e \<le> hm_total H" "rd32 m head = 0"
proof -
  have L: "e = 128 + 4 * lc + 4 * bn" "e + sizeof_EpochHeader \<le> hm_total H" "hm_total H < 2 ^ 32" "0 < bn" "0 < lc"
    using assms(1) by (auto simp: laid_out_def sizeof_HMHeader_def)
  have B: "rd32 m o_bucket_count_new = bn" "rd32 m o_lock_count = lc" "rd32 m o_locks_off = 128"
      "rd32 m o_buckets_new_off = 128 + 4 * lc" "\<And>i. i < lc + bn \<Longrightarrow> rd32 m (128 + 4 * i) = 0"
    using assms(2) by (auto simp: blank_header_def sizeof_HMHeader_def)
  have li: "lock_index h m < lc" using masked_index [of lc h] L B by (simp add: lock_index_def)
  have bi: "bucket_index h True m < bn" using masked_index [of bn h] L B by (simp add: bucket_index_def)
  let ?l = "128 + 4 * lock_index h m" let ?b = "128 + 4 * lc + 4 * bucket_index h True m"
  have b: "rd32 m ?b = 0" using B(5) [of "lc + bucket_index h True m"] bi by (simp add: algebra_simps)
  have "rd32 (wr32 m ?l 1) o_buckets_new_off = 128 + 4 * lc" using B(4) by (simp add: rd32_wr32_other)
  then show thesis using that [of ?l ?b] L B(3,4) B(5) [of "lock_index h m"] li bi b
    by (simp add: array_at_def bucket_at_def ld32_def)
qed

lemma find_empty: "chain_find tot m h key 0 prev = Some None"
  by (subst chain_find.simps) simp

lemma dead_AllocNode: "dead_slab (hm_slab_at H) m \<Longrightarrow> AllocNode H h key val m = Some (0, m)"
  by (simp add: AllocNode_def dead_alloc Let_def)

lemma put_refused:
  assumes "laid_out H bn lc e" "blank_header bn lc m" "few_readers e m"
  obtains m' where "Put H key val m = Some (False, m')" "same_but (counters e) m m'"
proof (cases "key = []")
  case True
  then show thesis using that [of m] by (simp add: Put_def same_but_def)
next
  case False
  let ?h = "HashBytes key"
  obtain l head where s: "array_at H o_locks_off (lock_index ?h m) m = Some l" "128 \<le> l" "l + 4 \<le> 128 + 4 * lc" "rd32 m l = 0"
      "bucket_at H True (bucket_index ?h True m) (wr32 m l 1) = Some head" "128 + 4 * lc \<le> head" "head + 4 \<le> e"
      "e \<le> hm_total H" "rd32 m head = 0"
    by (rule stripe [OF assms(1,2)])
  have E: "hm_slab_at H = e" using assms(1) by (simp add: laid_out_def)
  have "dead_slab (hm_slab_at H) m" using few_dead [OF assms(3)] E by simp
  then have d: "dead_slab (hm_slab_at H) (wr32 m l 1)"
    using s(2-4,6,7) unfolding dead_slab_def E by (simp add: rd32_wr32_other)
  have fits: "o_puts_fail + 8 \<le> hm_total H" using s by simp
  obtain m2 where i: "inc64 (hm_total H) (wr32 m l 1) o_puts_fail = Some m2"
      "\<forall>x. x < o_puts_fail \<or> o_puts_fail + 8 \<le> x \<longrightarrow> m2 x = wr32 m l 1 x" by (rule inc64_runs [OF fits])
  have "same_but (counters e) (wr32 m l 1) m2" using i(2) by (auto simp: same_but_def counters_def)
  then have "same_but (counters e) m (wr32 m2 l 0)" by (rule rewritten [OF s(4)])
  moreover have "Put H key val m = Some (False, wr32 m2 l 0)"
    using False s dead_AllocNode [OF d] i(1) rd32_wr32_other [of head l m 1]
    by (simp add: Put_def Let_def spin_lock_def spin_unlock_def ld32_def st32_def find_empty put_new_def put_failed_def)
  ultimately show thesis by (rule that [rotated])
qed

lemma slot_nat: "slot_at H (int i) = hm_epoch_at H + 12 + 12 * i"
  by (simp add: slot_at_def)

lemma get_nothing:
  assumes "laid_out H bn lc e" "blank_header bn lc m" "i < 3"
  obtains m' where "Get H key (int i) m = Some (None, m')" "same_but (counters e) m m'"
proof (cases "key = []")
  case True
  then show thesis using that [of m] by (simp add: Get_def same_but_def)
next
  case False
  let ?h = "HashBytes key" and ?a = "e + 12 + 12 * i" and ?tot = "hm_total H"
  have E: "hm_epoch_at H = e" "e + sizeof_EpochHeader \<le> ?tot" "128 < e" using assms(1) by (auto simp: laid_out_def sizeof_HMHeader_def)
  have fits: "e + 12 \<le> ?tot" "?a + 4 \<le> ?tot" "o_gets_not_found + 8 \<le> ?tot"
    using E(2,3) assms(3) by (auto simp: sizeof_EpochHeader_def MAX_READERS_def)
  let ?v = "rd32 m (e + 8)"
  let ?m1 = "wr32 m ?a ?v"
  have c1: "same_but (counters e) m ?m1"
    by (rule same_but_wr32) (use assms(3) in \<open>auto simp: counters_def less_Suc_eq numeral_3_eq_3\<close>)
  have b1: "blank_header bn lc ?m1" by (rule blank_same(1) [OF assms(1) c1 assms(2)])
  obtain head where s: "bucket_at H True (bucket_index ?h True ?m1) ?m1 = Some head" "head + 4 \<le> e" "rd32 ?m1 head = 0" "e \<le> ?tot"
    by (rule stripe [OF assms(1) b1, of ?h])
  obtain m2 where m2: "inc64 ?tot ?m1 o_gets_not_found = Some m2"
      "\<forall>x. x < o_gets_not_found \<or> o_gets_not_found + 8 \<le> x \<longrightarrow> m2 x = ?m1 x" by (rule inc64_runs [OF fits(3)])
  have "same_but (counters e) ?m1 m2" using m2(2) by (auto simp: same_but_def counters_def)
  moreover have "same_but (counters e) m2 (wr32 m2 ?a 0)"
    by (rule same_but_wr32) (use assms(3) in \<open>auto simp: counters_def less_Suc_eq numeral_3_eq_3\<close>)
  ultimately have "same_but (counters e) m (wr32 m2 ?a 0)" using c1 same_but_trans by blast
  moreover have "Get H key (int i) m = Some (None, wr32 m2 ?a 0)"
    using False s m2(1) fits b1
    by (simp add: Get_def Let_def ReaderEnter_def ReaderExit_def slot_nat E(1) look_up_def ld32_def st32_def find_empty
        blank_header_def)
  ultimately show thesis by (rule that [rotated])
qed

lemma erase_nothing:
  assumes "laid_out H bn lc e" "blank_header bn lc m"
  obtains m' where "Erase H key m = Some (False, m')" "same_but (counters e) m m'"
proof (cases "key = []")
  case True
  then show thesis using that [of m] by (simp add: Erase_def same_but_def)
next
  case False
  let ?h = "HashBytes key" and ?tot = "hm_total H"
  obtain l head where s: "array_at H o_locks_off (lock_index ?h m) m = Some l" "128 \<le> l" "l + 4 \<le> 128 + 4 * lc" "rd32 m l = 0"
      "bucket_at H True (bucket_index ?h True m) (wr32 m l 1) = Some head" "128 + 4 * lc \<le> head" "head + 4 \<le> e"
      "e \<le> ?tot" "rd32 m head = 0"
    by (rule stripe [OF assms(1,2)])
  have same: "wr32 (wr32 m l 1) l 0 = m" using s(4) by (auto simp: wr32_def rd32_zero fun_eq_iff)
  have fits: "o_erases_not_found + 8 \<le> ?tot" using s by simp
  obtain m2 where m2: "inc64 ?tot m o_erases_not_found = Some m2"
      "\<forall>x. x < o_erases_not_found \<or> o_erases_not_found + 8 \<le> x \<longrightarrow> m2 x = m x" by (rule inc64_runs [OF fits])
  have "erase_in H True ?h key m = Some (False, m)"
    using s same rd32_wr32_other [of head l m 1]
    by (simp add: erase_in_def Let_def spin_lock_def spin_unlock_def ld32_def st32_def EraseFromList_def find_empty)
  then have "Erase H key m = Some (False, m2)" using False m2(1) assms(2) by (simp add: Erase_def Let_def blank_header_def)
  moreover have "same_but (counters e) m m2" using m2(2) by (auto simp: same_but_def counters_def)
  ultimately show thesis by (rule that)
qed

lemma touch_nothing:
  assumes "laid_out H bn lc e" "blank_header bn lc m"
  shows "TouchMoveToFront H key m = Some (False, m)"
proof (cases "key = []")
  case True
  then show ?thesis by (simp add: TouchMoveToFront_def)
next
  case False
  let ?h = "HashBytes key"
  obtain l head where s: "array_at H o_locks_off (lock_index ?h m) m = Some l" "128 \<le> l" "l + 4 \<le> 128 + 4 * lc" "rd32 m l = 0"
      "bucket_at H True (bucket_index ?h True m) (wr32 m l 1) = Some head" "128 + 4 * lc \<le> head" "head + 4 \<le> e"
      "e \<le> hm_total H" "rd32 m head = 0"
    by (rule stripe [OF assms])
  have "wr32 (wr32 m l 1) l 0 = m" using s(4) by (auto simp: wr32_def rd32_zero fun_eq_iff)
  then show ?thesis using False s rd32_wr32_other [of head l m 1]
    by (simp add: TouchMoveToFront_def Let_def spin_lock_def spin_unlock_def ld32_def st32_def MoveToFront_def find_empty)
qed

lemma rehash_idle: "blank_header bn lc m \<Longrightarrow> RehashStep H n m = Some (0, m)"
  by (simp add: RehashStep_def RehashInProgress_def blank_header_def)

lemma register_slot:
  assumes "laid_out H bn lc e" "rd32 m (e + 16 + 12 * j) = 0" "j < MAX_READERS"
  obtains i where "i \<le> j" "RegisterReader H t m = Some (int i, wr32 (wr32 m (e + 16 + 12 * i) 1) (e + 20 + 12 * i) t)"
    "\<forall>k < i. rd32 m (e + 16 + 12 * k) \<noteq> 0" "rd32 m (e + 16 + 12 * i) = 0"
proof -
  have E: "hm_epoch_at H = e" "e + sizeof_EpochHeader \<le> hm_total H" using assms(1) by (auto simp: laid_out_def)
  let ?P = "\<lambda>i. rd32 m (slot_at H (int i) + 4) = 0"
  have P: "?P i \<longleftrightarrow> rd32 m (e + 16 + 12 * i) = 0" for i by (simp add: slot_nat E(1) algebra_simps)
  have "List.find ?P [0..<MAX_READERS] \<noteq> None" using assms(2,3) P by (auto simp: find_None_iff)
  then obtain i where i: "List.find ?P [0..<MAX_READERS] = Some i" by blast
  then have "?P i" "\<forall>k < i. \<not> ?P k" by (auto simp: find_Some_iff)
  moreover have "i \<le> j" using calculation(2) assms(2) P by (meson not_le)
  ultimately show thesis using that [of i] i E by (simp add: RegisterReader_def slot_nat P Let_def algebra_simps)
qed

lemma blank_slot:
  assumes "laid_out H bn lc e" "\<forall>x < e. m' x = m x" "blank_header bn lc m"
  shows "blank_header bn lc m'"
proof -
  have e: "e = 128 + 4 * lc + 4 * bn" using assms(1) by (simp add: laid_out_def sizeof_HMHeader_def)
  have "rd32 m' a = rd32 m a" if "a + 4 \<le> e" for a by (rule rd32_cong) (use assms(2) that in auto)
  then show ?thesis using assms(3) e unfolding blank_header_def sizeof_HMHeader_def by auto
qed

lemma register_result:
  assumes "laid_out H bn lc e" "RegisterReader H t m = Some (int i, m')"
  shows "m' = wr32 (wr32 m (e + 16 + 12 * i) 1) (e + 20 + 12 * i) t"
  using assms by (auto simp: RegisterReader_def laid_out_def slot_nat Let_def algebra_simps split: option.splits)

lemma register_few:
  assumes "laid_out H bn lc e" "blank_header bn lc m" "few_readers e m" "RegisterReader H 0 m = Some (int i, m')" "i < 3"
  shows "blank_header bn lc m' \<and> few_readers e m'"
proof -
  note m' = register_result [OF assms(1,4)]
  have "\<forall>x < e. m' x = m x" unfolding m' by (auto intro!: wr32_outside simp: wr32_outside)
  then have "blank_header bn lc m'" by (rule blank_slot [OF assms(1) _ assms(2)])
  moreover have "rd32 m' (e + 16 + 12 * k) = (if k = i then 1 else rd32 m (e + 16 + 12 * k))"
      "rd32 m' (e + 20 + 12 * k) = (if k = i then 0 else rd32 m (e + 20 + 12 * k))" for k
    unfolding m' by (cases k i rule: linorder_cases; simp add: rd32_wr32_other rd32_wr32_same)+
  moreover have "rd32 m' (e + 4 * k) = rd32 m (e + 4 * k)" if "12 \<le> k" for k
    unfolding m' using that assms(5) by (simp add: rd32_wr32_other)
  ultimately show ?thesis using assms(3) by (simp add: few_readers_def)
qed

lemma unregister_few:
  assumes "laid_out H bn lc e" "blank_header bn lc m" "few_readers e m" "UnregisterReader H (int i) m = Some m'" "i < 3"
  shows "blank_header bn lc m' \<and> few_readers e m'"
proof -
  have E: "hm_epoch_at H = e" using assms(1) by (simp add: laid_out_def)
  have m': "m' = wr32 (wr32 (wr32 m (e + 12 + 12 * i) 0) (e + 20 + 12 * i) 0) (e + 16 + 12 * i) 0"
    using assms(4) by (auto simp: UnregisterReader_def slot_nat E st32_def algebra_simps split: if_splits)
  have "\<forall>x < e. m' x = m x" unfolding m' by (auto simp: wr32_outside)
  then have "blank_header bn lc m'" by (rule blank_slot [OF assms(1) _ assms(2)])
  moreover have "rd32 m' (e + 16 + 12 * k) = (if k = i then 0 else rd32 m (e + 16 + 12 * k))"
      "rd32 m' (e + 20 + 12 * k) = (if k = i then 0 else rd32 m (e + 20 + 12 * k))" for k
    unfolding m' by (cases k i rule: linorder_cases; simp add: rd32_wr32_other rd32_wr32_same)+
  moreover have "rd32 m' (e + 4 * k) = rd32 m (e + 4 * k)" if "12 \<le> k" for k
    unfolding m' using that assms(5) by (simp add: rd32_wr32_other)
  ultimately show ?thesis using assms(3) by (simp add: few_readers_def)
qed

section \<open>A new map\<close>

lemma created_blank:
  assumes "create_layout tot s bn lc m0 = Some (off, m)" "is_pow2 bn" "is_pow2 lc" "tot < 2 ^ 32"
  shows "off = region_size_of bn lc \<and> off + sizeof_EpochHeader \<le> tot \<and> blank_header bn lc m \<and> few_readers off m \<and>
    (\<forall>k. 12 \<le> k \<and> k + 4 \<le> 1024 \<longrightarrow> rd32 m (off + k) = 0)"
proof -
  obtain n1 n4 n6 n7 where c: "fill0 tot m0 0 sizeof_HMHeader = Some n1"
      "fill0 tot (wr32 (words_at n1 0 [HMR2, 2, tot, 0, 0, bn, lc, 0, 0, 0]) o_locks_off 128) 128 (4 * lc) = Some n4"
      "fill0 tot (wr32 (wr32 n4 o_buckets_old_off 0) o_buckets_new_off (u32_add 128 (4 * lc))) (u32_add 128 (4 * lc)) (4 * bn) = Some n6"
      "off = u32_add (u32_add 128 (4 * lc)) (4 * bn)"
      "fill0 tot (wr32 n6 o_epoch_off off) off sizeof_EpochHeader = Some n7"
      "m = wr32 (wr32 (words_at n7 off [EPOC, 1, 1]) o_slab_off (rd32 (words_at n7 off [EPOC, 1, 1]) (s + 12))) o_header_size off"
    using assms(1-3) by (auto simp: create_layout_def power_count_def Let_def sizeof_HMHeader_def Option.bind_eq_Some_conv simp del: words_at.simps)
  have f1: "u32_add 128 (4 * lc) = 128 + 4 * lc" using fill0_fits [OF c(2)] assms(4) by (intro uadd_small) simp
  have f2: "off = 128 + 4 * lc + 4 * bn" using fill0_fits [OF c(3)] assms(4) unfolding c(4) f1 by (intro uadd_small) simp
  have e: "off + sizeof_EpochHeader \<le> tot" by (rule fill0_fits [OF c(5)])
  note other = rd32_wr32_other rd32_words_at_other rd32_fill0_other [OF c(5)]
  let ?n2 = "words_at n1 0 [HMR2, 2, tot, 0, 0, bn, lc, 0, 0, 0]"
  have up: "rd32 m b = rd32 n6 b" if "b + 4 \<le> off" "b \<noteq> o_slab_off" "b \<noteq> o_header_size" "b \<noteq> o_epoch_off" "4 dvd b" for b
  proof -
    have "b + 4 \<le> o_slab_off \<or> o_slab_off + 4 \<le> b" "b + 4 \<le> o_header_size \<or> o_header_size + 4 \<le> b"
        "b + 4 \<le> o_epoch_off \<or> o_epoch_off + 4 \<le> b" using that by (auto elim!: dvdE)
    then show ?thesis unfolding c(6) using that(1) by (simp only: other) (simp add: other)
  qed
  have n6: "rd32 n6 b = rd32 (wr32 (wr32 n4 o_buckets_old_off 0) o_buckets_new_off (128 + 4 * lc)) b"
    if "b + 4 \<le> 128 + 4 * lc" for b
    using rd32_fill0_other [OF c(3)] that unfolding f1 by simp
  have n4: "rd32 n4 b = rd32 (wr32 ?n2 o_locks_off 128) b" if "b + 4 \<le> 128" for b
    using rd32_fill0_other [OF c(2)] that by simp
  have h: "HMR2 < 2 ^ 32" "bn < 2 ^ 32" "lc < 2 ^ 32" "128 + 4 * lc < 2 ^ 32"
    using e f2 assms(4) by (simp_all add: HMR2_def)
  have head: "rd32 m o_magic = HMR2" "rd32 m o_bucket_count_old = 0" "rd32 m o_bucket_count_new = bn" "rd32 m o_lock_count = lc"
      "rd32 m o_item_count = 0" "rd32 m o_rehash_active = 0" "rd32 m o_locks_off = 128" "rd32 m o_buckets_new_off = 128 + 4 * lc"
    using f2 h rd32_words_at [of 0 "[HMR2, 2, tot, 0, 0, bn, lc, 0, 0, 0]" n1 0] rd32_words_at [of 4 "[HMR2, 2, tot, 0, 0, bn, lc, 0, 0, 0]" n1 0]
      rd32_words_at [of 5 "[HMR2, 2, tot, 0, 0, bn, lc, 0, 0, 0]" n1 0] rd32_words_at [of 6 "[HMR2, 2, tot, 0, 0, bn, lc, 0, 0, 0]" n1 0]
      rd32_words_at [of 7 "[HMR2, 2, tot, 0, 0, bn, lc, 0, 0, 0]" n1 0] rd32_words_at [of 9 "[HMR2, 2, tot, 0, 0, bn, lc, 0, 0, 0]" n1 0]
    by (simp_all add: up n6 n4 rd32_wr32_other rd32_wr32_same del: words_at.simps)
  have "rd32 n1 o_retire_head = 0" by (rule rd32_fill0 [OF c(1)]) (simp_all add: sizeof_HMHeader_def)
  then have retire: "rd32 m o_retire_head = 0"
    using f2 by (simp add: up n6 n4 rd32_wr32_other rd32_words_at_other del: words_at.simps)
  have "rd32 m (128 + 4 * i) = 0" if i: "i < lc + bn" for i
  proof (cases "i < lc")
    case True
    then have "rd32 n4 (128 + 4 * i) = 0" by (intro rd32_fill0 [OF c(2)]) auto
    then show ?thesis using True f2 by (simp add: up n6 rd32_wr32_other)
  next
    case False
    then have "rd32 n6 (128 + 4 * i) = 0" using i unfolding f1 by (intro rd32_fill0 [OF c(3)]) (auto simp: f1)
    then show ?thesis using i f2 by (simp add: up)
  qed
  moreover have zero: "rd32 m (off + k) = 0" if "12 \<le> k" "k + 4 \<le> 1024" for k
  proof -
    have "rd32 n7 (off + k) = 0" by (rule rd32_fill0 [OF c(5)]) (use that in \<open>auto simp: sizeof_EpochHeader_def MAX_READERS_def\<close>)
    then show ?thesis unfolding c(6) using that f2 by (simp add: rd32_wr32_other rd32_words_at_other del: words_at.simps)
  qed
  then have "few_readers off m" by (simp add: few_readers_def add.assoc)
  ultimately show ?thesis using head retire e f2 zero
    by (simp add: blank_header_def sizeof_HMHeader_def region_size_of_def)
qed

lemma created:
  assumes "ShmHashMap_ctor True tot bn lc m0 = Inr (H, m)" "is_pow2 bn" "is_pow2 lc" "0 < bn" "0 < lc" "tot < 2 ^ 32"
  obtains e where "laid_out H bn lc e" "blank_header bn lc m" "few_readers e m"
    "\<forall>k. 12 \<le> k \<and> k + 4 \<le> 1024 \<longrightarrow> rd32 m (e + k) = 0"
proof -
  obtain m2 off where c: "create_layout tot (region_size_of bn lc mod 2 ^ 32) bn lc m2 = Some (off, m)"
      "H = \<lparr>hm_total = tot, hm_slab_at = region_size_of bn lc mod 2 ^ 32, hm_epoch_at = off\<rparr>"
    using assms(1) by (auto simp: ShmHashMap_ctor_def Let_def split: sum.splits if_splits option.splits)
  have b: "off = region_size_of bn lc" "off + sizeof_EpochHeader \<le> tot" "blank_header bn lc m" "few_readers off m"
      "\<forall>k. 12 \<le> k \<and> k + 4 \<le> 1024 \<longrightarrow> rd32 m (off + k) = 0"
    using created_blank [OF c(1) assms(2,3,6)] by auto
  then have "region_size_of bn lc mod 2 ^ 32 = off" using assms(6) by simp
  then have "laid_out H bn lc off" using b assms(4-6) c(2) by (simp add: laid_out_def region_size_of_def)
  then show thesis using that b(3-5) by blast
qed

text \<open>
  What may be called on the new map in the following: everything a process calls to store, look up and erase, as
  long as nobody calls \<open>RehashStart\<close> (\<open>RehashStep\<close> alone does nothing) and only the first three slots of readers
  are used, registered with the default hint 0. The theorems after this section show what happens beyond
  these limits.
\<close>

inductive early_step :: "hash_map \<Rightarrow> bytes \<Rightarrow> bytes \<Rightarrow> bool" for H where
  put: "Put H key val m = Some (ok, m') \<Longrightarrow> early_step H m m'"
| get: "Get H key (int i) m = Some (r, m') \<Longrightarrow> i < 3 \<Longrightarrow> early_step H m m'"
| exists: "Exists H key (int i) m = Some (ok, m') \<Longrightarrow> i < 3 \<Longrightarrow> early_step H m m'"
| erase: "Erase H key m = Some (ok, m') \<Longrightarrow> early_step H m m'"
| touch: "TouchMoveToFront H key m = Some (ok, m') \<Longrightarrow> early_step H m m'"
| rehash: "RehashStep H n m = Some (k, m') \<Longrightarrow> early_step H m m'"
| register: "RegisterReader H 0 m = Some (int i, m') \<Longrightarrow> i < 3 \<Longrightarrow> early_step H m m'"
| unregister: "UnregisterReader H (int i) m = Some m' \<Longrightarrow> i < 3 \<Longrightarrow> early_step H m m'"

inductive early_reachable :: "hash_map \<Rightarrow> bytes \<Rightarrow> bytes \<Rightarrow> bool" for H m where
  init: "early_reachable H m m"
| step: "early_reachable H m m1 \<Longrightarrow> early_step H m1 m2 \<Longrightarrow> early_reachable H m m2"

lemma early_step_blank:
  assumes "early_step H m m'" "laid_out H bn lc e" "blank_header bn lc m" "few_readers e m"
  shows "blank_header bn lc m' \<and> few_readers e m'"
proof -
  have same: "blank_header bn lc m' \<and> few_readers e m'" if "same_but (counters e) m m'"
    using blank_same [OF assms(2) that] assms(3,4) by blast
  show ?thesis using assms(1)
  proof cases
    case (put key val ok)
    then show ?thesis using put_refused [OF assms(2-4), of key val] same by (metis option.inject prod.inject)
  next
    case (get key i r)
    then show ?thesis using get_nothing [OF assms(2,3), of i key] same by (metis option.inject prod.inject)
  next
    case (exists key i ok)
    then obtain r where "Get H key (int i) m = Some (r, m')" by (auto simp: Exists_def Option.bind_eq_Some_conv)
    then show ?thesis using exists(2) get_nothing [OF assms(2,3), of i key] same by (metis option.inject prod.inject)
  next
    case (erase key ok)
    then show ?thesis using erase_nothing [OF assms(2,3), of key] same by (metis option.inject prod.inject)
  next
    case (touch key ok)
    then show ?thesis using touch_nothing [OF assms(2,3), of key] assms(3,4) by simp
  next
    case (rehash n k)
    then show ?thesis using rehash_idle [OF assms(3), of H n] assms(3,4) by simp
  next
    case (register i)
    then show ?thesis using register_few [OF assms(2-4)] by blast
  next
    case (unregister i)
    then show ?thesis using unregister_few [OF assms(2-4)] by blast
  qed
qed

lemma early_blank:
  assumes "early_reachable H m m1" "laid_out H bn lc e" "blank_header bn lc m" "few_readers e m"
  shows "blank_header bn lc m1 \<and> few_readers e m1"
  using assms(1)
proof induction
  case init
  then show ?case using assms(3,4) by simp
next
  case (step m1 m2)
  then show ?case using early_step_blank [OF step.hyps(2) assms(2)] by blast
qed

text \<open>
  C36: A new map with power-of-two counts, such as the default ones, never stores anything: after any sequence
  of \<open>Put\<close>, \<open>Get\<close>, \<open>Exists\<close>, \<open>Erase\<close>, \<open>TouchMoveToFront\<close>, \<open>RehashStep\<close>, \<open>UnregisterReader\<close> and \<open>RegisterReader\<close> with
  the default hint, in which only the first three slots of readers are used and nobody has called
  \<open>RehashStart\<close>, every \<open>Put\<close> returns false and every \<open>Get\<close> with one of these slots finds nothing. The constructor has laid the epoch header over the slab header, so that the slab has no memory.
\<close>

theorem fresh_map_stores_nothing:
  assumes "ShmHashMap_ctor True tot bucket_new lock_count m0 = Inr (H, m)" "tot < 2 ^ 32"
    and "is_pow2 bucket_new" "is_pow2 lock_count" "0 < bucket_new" "0 < lock_count" "early_reachable H m m1"
  shows "(\<exists>m2. Put H key val m1 = Some (False, m2)) \<and> hm_size m1 = 0 \<and>
    (\<exists>m2. Get H key 0 m1 = Some (None, m2)) \<and> (\<exists>m2. Get H key 1 m1 = Some (None, m2)) \<and>
    (\<exists>m2. Get H key 2 m1 = Some (None, m2))"
proof -
  obtain e where e: "laid_out H bucket_new lock_count e" "blank_header bucket_new lock_count m" "few_readers e m"
    by (rule created [OF assms(1,3-6,2)])
  have b: "blank_header bucket_new lock_count m1" "few_readers e m1" using early_blank [OF assms(7) e] by simp_all
  have get: "\<exists>m2. Get H key (int i) m1 = Some (None, m2)" if "i < 3" for i
    using get_nothing [OF e(1) b(1) that, of key] by blast
  have "\<exists>m2. Put H key val m1 = Some (False, m2)" using put_refused [OF e(1) b, of key val] by blast
  then show ?thesis using get [of 0] get [of 1] get [of 2] b(1) by (simp add: hm_size_def blank_header_def)
qed

section \<open>A rehash of a new map\<close>

text \<open>
  \<open>RehashStart\<close> on a new map with power-of-two counts puts the new bucket array where the epoch header and the
  slab header lie, and clears it: the epoch header has neither magic number nor version nor epoch any more.
  The next \<open>RegisterReader\<close>, with any hint, sets the flag of its slot in the middle of the buckets: the chain
  of bucket 4 starts at offset 1 then, inside the map's own header, and bucket 5 at the hint.
\<close>

theorem rehash_overlays_readers:
  assumes "ShmHashMap_ctor True tot bucket_new lock_count m0 = Inr (H, m)" "tot < 2 ^ 32"
    and "is_pow2 bucket_new" "is_pow2 lock_count" "0 < bucket_new" "0 < lock_count"
    and "is_pow2 n" "8 \<le> n" "region_size_of bucket_new lock_count + 4 * n + 1 \<le> tot" "t < 2 ^ 32"
  shows "\<exists>m1 m2. RehashStart H n m = Some (True, m1) \<and> rd32 m1 o_bucket_count_new = n \<and>
    rd32 m1 o_buckets_new_off = hm_epoch_at H \<and> hm_epoch_at H = hm_slab_at H \<and>
    rd32 m (hm_epoch_at H) = EPOC \<and> rd32 m1 (hm_epoch_at H) = 0 \<and> rd32 m1 (hm_epoch_at H + 8) = 0 \<and>
    RegisterReader H t m1 = Some (0, m2) \<and>
    (\<exists>a. bucket_at H True 4 m2 = Some a \<and> rd32 m2 a = 1) \<and> (\<exists>a. bucket_at H True 5 m2 = Some a \<and> rd32 m2 a = t)"
proof -
  obtain e where e: "laid_out H bucket_new lock_count e" "blank_header bucket_new lock_count m"
    by (rule created [OF assms(1,3-6,2)])
  have E: "hm_epoch_at H = e" "hm_slab_at H = e" "e + sizeof_EpochHeader \<le> hm_total H" "128 < e"
    "e = region_size_of bucket_new lock_count" "hm_total H = tot"
    using e(1) assms(1) by (auto simp: laid_out_def sizeof_HMHeader_def region_size_of_def ShmHashMap_ctor_def Let_def
        split: sum.splits if_splits option.splits)
  have small: "e < 2 ^ 32" "n < 2 ^ 32" using assms(2,9) E by simp_all
  have epoc: "rd32 m e = EPOC"
  proof -
    obtain m2 off where c: "create_layout tot (region_size_of bucket_new lock_count mod 2 ^ 32) bucket_new lock_count m2 = Some (off, m)"
        "H = \<lparr>hm_total = tot, hm_slab_at = region_size_of bucket_new lock_count mod 2 ^ 32, hm_epoch_at = off\<rparr>"
      using assms(1) by (auto simp: ShmHashMap_ctor_def Let_def split: sum.splits if_splits option.splits)
    then have off: "off = e" using E(1) by simp
    obtain n7 where "m = wr32 (wr32 (words_at n7 e [EPOC, 1, 1]) o_slab_off
        (rd32 (words_at n7 e [EPOC, 1, 1]) (region_size_of bucket_new lock_count mod 2 ^ 32 + 12))) o_header_size e"
      using c(1) assms(3,4) unfolding off
      by (auto simp: create_layout_def power_count_def Let_def Option.bind_eq_Some_conv simp del: words_at.simps)
    then have "rd32 m e = rd32 (words_at n7 e [EPOC, 1, 1]) e"
      using E(4) by (simp add: rd32_wr32_other del: words_at.simps)
    then show ?thesis using rd32_words_at [of 0 "[EPOC, 1, 1]" n7 e] by (simp add: EPOC_def del: words_at.simps)
  qed
  let ?m2 = "wr32 (wr32 (wr32 (wr32 m o_bucket_count_old bucket_new) o_buckets_old_off (128 + 4 * lock_count))
      o_bucket_count_new n) o_buckets_new_off e"
  have "rd32 m o_buckets_new_off = 128 + 4 * lock_count" "rd32 m o_bucket_count_new = bucket_new"
    "rd32 m o_rehash_active = 0" using e(2) by (simp_all add: blank_header_def sizeof_HMHeader_def)
  moreover have "u32_add (128 + 4 * lock_count) (4 * bucket_new) = e"
    using small E(5) by (simp add: uadd_small region_size_of_def sizeof_HMHeader_def)
  moreover obtain m3 where m3: "fill0 tot ?m2 e (4 * n) = Some m3" using assms(9) E(5) by (simp add: fill0_def)
  ultimately have start: "RehashStart H n m = Some (True, wr32 (wr32 m3 o_rehash_cursor 0) o_rehash_active 1)"
    using assms(7,9) E by (simp add: RehashStart_def power_count_def RehashInProgress_def Let_def)
  let ?m1 = "wr32 (wr32 m3 o_rehash_cursor 0) o_rehash_active 1"
  have zero: "rd32 ?m1 (e + k) = 0" if "k + 4 \<le> 4 * n" for k
    using rd32_fill0 [OF m3, of "e + k"] that E(4) by (simp add: rd32_wr32_other)
  have "rd32 m3 b = rd32 ?m2 b" if "b + 4 \<le> e" for b by (rule rd32_fill0_other [OF m3]) (use that in simp)
  then have head: "rd32 ?m1 o_bucket_count_new = n" "rd32 ?m1 o_buckets_new_off = e"
    using E(4) small by (simp_all add: rd32_wr32_other rd32_wr32_same)
  obtain i where "i \<le> 0" "RegisterReader H t ?m1 = Some (int i, wr32 (wr32 ?m1 (e + 16 + 12 * i) 1) (e + 20 + 12 * i) t)"
    by (rule register_slot [OF e(1), of ?m1 0]) (use zero [of 16] assms(8) in \<open>simp_all add: MAX_READERS_def\<close>)
  then have reg: "RegisterReader H t ?m1 = Some (0, wr32 (wr32 ?m1 (e + 16) 1) (e + 20) t)" by simp
  let ?m4 = "wr32 (wr32 ?m1 (e + 16) 1) (e + 20) t"
  have "rd32 ?m4 o_buckets_new_off = e" using head E(4) by (simp add: rd32_wr32_other)
  then have b: "bucket_at H True k ?m4 = Some (e + 4 * k)" for k
    using E by (simp add: bucket_at_def array_at_def ld32_def)
  have "rd32 ?m4 (e + 16) = 1" "rd32 ?m4 (e + 20) = t" using assms(10) by (simp_all add: rd32_wr32_other rd32_wr32_same)
  then have "(\<exists>a. bucket_at H True 4 ?m4 = Some a \<and> rd32 ?m4 a = 1) \<and> (\<exists>a. bucket_at H True 5 ?m4 = Some a \<and> rd32 ?m4 a = t)"
    using b [of 4] b [of 5] by simp
  then show ?thesis using start head reg epoc zero [of 0] zero [of 8] assms(8) E(1,2)
    by (intro exI [of _ ?m1] exI [of _ ?m4]) simp
qed

section \<open>The fourth reader\<close>

text \<open>The \<open>used\<close> flag of the fourth slot is the free list of the 32-byte class: the next small block is at offset 1.\<close>

lemma small_class:
  assumes "0 < k" "k + v \<le> 8"
  shows "SizeClassIndex (Align8 (NodeSizeBytes k v)) = Some 1"
proof -
  define n where "n = k + v"
  then have n: "n = k + v" "n \<in> set [1, 2, 3, 4, 5, 6, 7, 8]" using assms by auto
  from n(2) have "(of_nat (24 + n) :: 32 word) \<in> set [25, 26, 27, 28, 29, 30, 31, 32]" by auto
  moreover have "Align8 w = 32" if "w \<in> set [25, 26, 27, 28, 29, 30, 31, 32]" for w using that by (auto simp: Align8_def)
  ultimately have "Align8 (of_nat (24 + n)) = (32 :: 32 word)" by blast
  then have "NodeSizeBytes k v = 32" by (simp only: NodeSizeBytes_def sizeof_Node_def add.assoc n(1))
  moreover have "Align8 32 = 32" by (simp add: Align8_def)
  moreover have "SizeClassIndex 32 = Some 1"
    by (simp add: SizeClassIndex_def pow2ceil_def Let_def class_loop.simps MAX_CLASSES_def word_le_nat_alt)
  ultimately show ?thesis by simp
qed

lemma alloc_at_one:
  assumes "laid_out H bn lc e" "rd32 m (e + 52) = 1" "SizeClassIndex (Align8 n) = Some 1"
  obtains m' where "hm_alloc H n m = Some (1, m')" "\<forall>x < e. m' x = m x"
proof -
  have E: "hm_slab_at H = e" "128 < e" "e \<le> hm_total H" using assms(1) by (auto simp: laid_out_def sizeof_HMHeader_def)
  let ?v = "slab_view (hm_total H) e m"
  let ?s = "upd_class 1 (\<lambda>c. c\<lparr>free_list := rd32 m 1\<rparr>) ?v"
  have c: "classes (hdr ?v) ! 1 = class_at m (e + 44)" by (simp add: view_class add.commute)
  have f: "free_list (classes (hdr ?v) ! 1) = 1" using assms(2) unfolding c by (simp add: class_at_def add.commute)
  have "Alloc n ?v = Some (1, ?s)" using assms(3) f E(2,3) by (simp add: Alloc_def pop_chunk_def Let_def ld32_def)
  moreover obtain m' where s: "slab_store e m ?s = Some m'" "\<forall>x < e. m' x = m x"
    by (simp add: slab_store_def upd_class_def list_all_iff words_at_outside del: words_at.simps)
  ultimately show thesis using that E(1) by (simp add: hm_alloc_def)
qed

lemma node_at_one:
  assumes "hm_alloc H (NodeSizeBytes (length key) (length val)) m = Some (1, m1)" "64 \<le> hm_total H"
    and "length key + length val \<le> 8"
  obtains m2 where "AllocNode H h key val m = Some (1, m2)" "m2 0 = m1 0" "m2 1 = 0" "m2 2 = 0" "m2 3 = 0"
    "m2 20 = 0" "m2 21 = of_nat (length val)" "m2 22 = 0" "m2 23 = 0" "\<forall>x. 33 \<le> x \<longrightarrow> m2 x = m1 x"
proof -
  let ?a = "wr32 m1 1 0"
  let ?b = "\<lambda>x. if 9 \<le> x \<and> x < 17 then le_bytes 8 (unat h) ! (x - 9) else ?a x"
  let ?c = "wr32 (wr32 ?b 17 (length key)) 21 (length val)"
  let ?d = "\<lambda>x. if 25 \<le> x \<and> x < 25 + length (key @ val) then (key @ val) ! (x - 25) else ?c x"
  have "AllocNode H h key val m = Some (1, ?d)"
    using assms by (simp add: AllocNode_def Let_def st32_def st_bytes_def sizeof_Node_def del: One_nat_def)
  moreover have "?d 0 = m1 0" "?d 1 = 0" "?d 2 = 0" "?d 3 = 0" "?d 20 = 0" "?d 21 = of_nat (length val)" "?d 22 = 0" "?d 23 = 0"
    using assms(3) by (simp_all add: wr32_def)
  moreover have "\<forall>x. 33 \<le> x \<longrightarrow> ?d x = m1 x" using assms(3) by (auto simp: wr32_outside)
  ultimately show thesis by (rule that)
qed

lemma idle_after_write:
  assumes "rd32 m o_rehash_active = 0" "rd32 m o_retire_head = 0" "hm_epoch_at H + sizeof_EpochHeader \<le> hm_total H" "124 \<le> hm_total H"
  shows "after_write H m = Some (True, m)"
proof -
  have "reclaim_loop H minE 0 0 0 m = Some (0, 0, m)" for minE by (subst reclaim_loop.simps) simp
  moreover have "wr32 m 120 0 = m" using wr32_rd32 [of m 120] assms(2) by simp
  ultimately show ?thesis using assms
    by (simp add: after_write_def HelpRehashStep_def RehashInProgress_def Reclaim_def MinActiveEpoch_def Let_def ld32_def st32_def)
qed

text \<open>
  C37: Once a fourth reader is registered, the first pair of at most eight bytes is stored at offset 1 of
  the region, over the map's own header: \<open>Put\<close> returns true, the magic number is gone and the number of
  buckets is 256 times the length of the value.
\<close>

theorem fourth_reader_put_hits_header:
  assumes "ShmHashMap_ctor True tot bucket_new lock_count m0 = Inr (H, m)" "tot < 2 ^ 32"
    and "is_pow2 bucket_new" "is_pow2 lock_count" "0 < bucket_new" "0 < lock_count"
    and "early_reachable H m m1" "RegisterReader H 0 m1 = Some (3, m2)"
    and "key \<noteq> []" "length key + length val \<le> 8"
  shows "\<exists>m3. Put H key val m2 = Some (True, m3) \<and> rd32 m2 o_magic = HMR2 \<and> rd32 m3 o_magic = 50 \<and>
    rd32 m2 o_bucket_count_new = bucket_new \<and> rd32 m3 o_bucket_count_new = 256 * length val"
proof -
  obtain e where e: "laid_out H bucket_new lock_count e" "blank_header bucket_new lock_count m" "few_readers e m"
    by (rule created [OF assms(1,3-6,2)])
  have b: "blank_header bucket_new lock_count m1" using early_blank [OF assms(7) e] by simp
  have m2: "m2 = wr32 (wr32 m1 (e + 52) 1) (e + 56) 0"
    using register_result [of H bucket_new lock_count e 0 m1 3 m2] e(1) assms(8) by (simp add: add.commute)
  have b2: "blank_header bucket_new lock_count m2"
    by (rule blank_slot [OF e(1) _ b]) (auto simp: m2 wr32_outside)
  have E: "hm_epoch_at H = e" "e + sizeof_EpochHeader \<le> hm_total H" "128 < e"
    using e(1) by (auto simp: laid_out_def sizeof_HMHeader_def)
  let ?h = "HashBytes key" and ?tot = "hm_total H"
  obtain l head where s: "array_at H o_locks_off (lock_index ?h m2) m2 = Some l" "128 \<le> l" "l + 4 \<le> 128 + 4 * lock_count"
      "rd32 m2 l = 0" "bucket_at H True (bucket_index ?h True m2) (wr32 m2 l 1) = Some head" "128 + 4 * lock_count \<le> head"
      "head + 4 \<le> e" "e \<le> ?tot" "rd32 m2 head = 0"
    by (rule stripe [OF e(1) b2])
  let ?m3 = "wr32 m2 l 1"
  have free: "rd32 ?m3 (e + 52) = 1" using s(2,3,6,7) by (simp add: m2 rd32_wr32_other rd32_wr32_same)
  have cls: "SizeClassIndex (Align8 (NodeSizeBytes (length key) (length val))) = Some 1"
    using assms(9,10) by (intro small_class) auto
  obtain m4 where m4: "hm_alloc H (NodeSizeBytes (length key) (length val)) ?m3 = Some (1, m4)" "\<forall>x < e. m4 x = ?m3 x"
    by (rule alloc_at_one [OF e(1) free cls])
  obtain m5 where m5: "AllocNode H ?h key val ?m3 = Some (1, m5)" "m5 0 = m4 0" "m5 1 = 0" "m5 2 = 0" "m5 3 = 0"
      "m5 20 = 0" "m5 21 = of_nat (length val)" "m5 22 = 0" "m5 23 = 0" "\<forall>x. 33 \<le> x \<longrightarrow> m5 x = m4 x"
    by (rule node_at_one [OF m4(1) _ assms(10), of ?h]) (use E in simp)
  have low: "rd32 m5 a = rd32 ?m3 a" if "33 \<le> a" "a + 4 \<le> e" for a
    by (rule rd32_cong) (use that m5(10) m4(2) in simp)
  have first: "rd32 m5 head = 0" using low [of head] s(3,6,7,9) by (simp add: rd32_wr32_other)
  let ?m6 = "wr32 (wr32 m5 1 0) head 1"
  let ?m7 = "wr32 ?m6 o_item_count (u32_add (rd32 ?m6 o_item_count) 1)"
  have "o_puts_ok + 8 \<le> ?tot" using E by simp
  then obtain m8 where m8: "inc64 ?tot ?m7 o_puts_ok = Some m8" "\<forall>x. x < o_puts_ok \<or> o_puts_ok + 8 \<le> x \<longrightarrow> m8 x = ?m7 x"
    by (rule inc64_runs)
  let ?m9 = "wr32 m8 l 0"
  have keep: "?m9 x = m5 x" if "x < 1 \<or> 5 \<le> x \<and> x < 28 \<or> 32 \<le> x \<and> x < 80 \<or> 88 \<le> x \<and> x < 128" for x
    using that m8(2) s(2,6) by (auto simp: wr32_outside)
  have "?m9 x = 0" if "1 \<le> x" "x < 5" for x
  proof -
    have "?m9 x = wr32 m5 1 0 x" using that m8(2) s(2,6) by (auto simp: wr32_outside)
    then show ?thesis using that by (auto simp: wr32_def)
  qed
  then have z: "?m9 (0 + 1) = 0" "?m9 (0 + 2) = 0" "?m9 (0 + 3) = 0" by simp_all
  have "unat (m2 0) = HMR2 mod 256"
  proof -
    have "unat (m2 0) < 256" using unsigned_less [of "m2 0"] by simp
    then have "rd32 m2 o_magic mod 256 = unat (m2 0)" unfolding rd32_def mod_mult_self2 by (rule mod_less)
    then show ?thesis using b2 by (simp add: blank_header_def)
  qed
  moreover have "?m9 0 = m2 0" using keep [of 0] m5(2) m4(2) E(3) s(2) by (simp add: wr32_outside)
  ultimately have magic: "rd32 ?m9 o_magic = 50" unfolding rd32_def z by (simp add: HMR2_def)
  have len: "unat (of_nat (length val) :: 8 word) = length val" using assms(10) by (simp add: unat_of_nat)
  have buckets: "rd32 ?m9 o_bucket_count_new = 256 * length val"
    using keep [of 20] keep [of 21] keep [of 22] keep [of 23] m5(6-9) len by (simp add: rd32_def)
  have hold: "rd32 ?m9 a = rd32 m2 a" if "33 \<le> a \<and> a + 4 \<le> 80 \<or> 88 \<le> a \<and> a + 4 \<le> 128" for a
  proof -
    have "rd32 ?m9 a = rd32 m5 a" by (rule rd32_cong) (use that keep in auto)
    also have "\<dots> = rd32 ?m3 a" by (rule low) (use that E in auto)
    also have "\<dots> = rd32 m2 a" using that s(2) by (intro rd32_wr32_other) auto
    finally show ?thesis .
  qed
  have "after_write H ?m9 = Some (True, ?m9)"
    by (rule idle_after_write) (use hold [of 36] hold [of 120] b2 E in \<open>simp_all add: blank_header_def\<close>)
  then have "Put H key val m2 = Some (True, ?m9)"
    using assms(9) s m5(1) first m8(1) E rd32_wr32_other [of head l m2 1]
    by (simp add: Put_def Let_def spin_lock_def spin_unlock_def ld32_def st32_def find_empty put_new_def)
  then show ?thesis using magic buckets b2 by (simp add: blank_header_def)
qed

section \<open>Witnesses\<close>

lemma created_runs:
  assumes "region_size_of bn lc + sizeof_EpochHeader \<le> tot" "2 ^ 20 \<le> tot" "tot < 2 ^ 32" "is_pow2 bn" "is_pow2 lc"
  obtains H m where "ShmHashMap_ctor True tot bn lc m0 = Inr (H, m)"
proof -
  let ?s = "region_size_of bn lc"
  have s: "?s mod 2 ^ 32 = ?s" "?s + sizeof_SlabHeader \<le> tot" "sizeof_EpochHeader \<le> tot"
    using assms(1,3) by (simp_all add: sizeof_SlabHeader_def sizeof_EpochHeader_def MAX_READERS_def)
  have u: "u32_add 128 (4 * lc) = 128 + 4 * lc" "u32_add (128 + 4 * lc) (4 * bn) = 128 + 4 * lc + 4 * bn"
    using assms(1,3) by (simp_all add: uadd_small region_size_of_def sizeof_HMHeader_def)
  have "create_layout tot ?s bn lc m \<noteq> None" for m
    using assms(1,4,5) u by (simp add: create_layout_def power_count_def Let_def fill0_def sizeof_HMHeader_def region_size_of_def del: words_at.simps)
  moreover obtain m1 where m1: "slab_attach True tot ?s (u32_sub tot ?s) m0 = Inr m1"
    using s(2) by (simp add: slab_attach_def ShmSlab_ctor_def Let_def)
  moreover obtain m2 where m2: "ShmEpoch_ctor True tot 0 m1 = Inr m2" using s(3) by (simp add: ShmEpoch_ctor_def fill0_def)
  ultimately obtain off m where "create_layout tot ?s bn lc m2 = Some (off, m)" by fastforce
  then show thesis using that s(1) m1 m2 assms(2) by (simp add: ShmHashMap_ctor_def Let_def)
qed

lemma register_next:
  assumes "laid_out H bn lc e" "\<forall>k < j. rd32 m (e + 16 + 12 * k) \<noteq> 0" "\<forall>k. j \<le> k \<and> k < 8 \<longrightarrow> rd32 m (e + 16 + 12 * k) = 0" "j < 8"
  obtains m' where "RegisterReader H 0 m = Some (int j, m')" "\<forall>k < Suc j. rd32 m' (e + 16 + 12 * k) \<noteq> 0"
    "\<forall>k. Suc j \<le> k \<and> k < 8 \<longrightarrow> rd32 m' (e + 16 + 12 * k) = 0"
proof -
  let ?m = "wr32 (wr32 m (e + 16 + 12 * j) 1) (e + 20 + 12 * j) 0"
  have "rd32 m (e + 16 + 12 * j) = 0" "j < MAX_READERS" using assms(3,4) by (simp_all add: MAX_READERS_def)
  then obtain i where i: "i \<le> j" "RegisterReader H 0 m = Some (int i, wr32 (wr32 m (e + 16 + 12 * i) 1) (e + 20 + 12 * i) 0)"
      "rd32 m (e + 16 + 12 * i) = 0" using register_slot [OF assms(1)] by blast
  then have "i = j" using assms(2) by (metis le_neq_implies_less)
  moreover have "rd32 ?m (e + 16 + 12 * k) = (if k = j then 1 else rd32 m (e + 16 + 12 * k))" for k
    by (cases k j rule: linorder_cases) (simp_all add: rd32_wr32_other rd32_wr32_same)
  ultimately show thesis using that [of ?m] i(2) assms(2,3) by (simp add: less_Suc_eq)
qed

lemma default_pow2: "is_pow2 4096" "is_pow2 64"
  by (simp_all add: is_pow2_def)

lemma four_registered:
  obtains H m m1 m2 where "ShmHashMap_ctor True (2 ^ 20) 4096 64 (\<lambda>x. 0) = Inr (H, m)" "early_reachable H m m1"
    "RegisterReader H 0 m1 = Some (3, m2)"
proof -
  obtain H m where c: "ShmHashMap_ctor True (2 ^ 20) 4096 64 (\<lambda>x. 0) = Inr (H, m)"
    by (rule created_runs [of 4096 64 "2 ^ 20" "\<lambda>x. 0"])
      (simp_all add: default_pow2 region_size_of_def sizeof_HMHeader_def sizeof_EpochHeader_def MAX_READERS_def)
  obtain e where e: "laid_out H 4096 64 e" "\<forall>k. 12 \<le> k \<and> k + 4 \<le> 1024 \<longrightarrow> rd32 m (e + k) = 0"
    by (rule created [OF c default_pow2]) simp_all
  have "\<forall>k. 0 \<le> k \<and> k < 8 \<longrightarrow> rd32 m (e + 16 + 12 * k) = 0" using e(2) by (simp add: add.assoc)
  then obtain a where a: "RegisterReader H 0 m = Some (int 0, a)" "\<forall>k < Suc 0. rd32 a (e + 16 + 12 * k) \<noteq> 0"
      "\<forall>k. Suc 0 \<le> k \<and> k < 8 \<longrightarrow> rd32 a (e + 16 + 12 * k) = 0"
    using register_next [OF e(1), of 0 m] by auto
  obtain b where b: "RegisterReader H 0 a = Some (int 1, b)" "\<forall>k < Suc 1. rd32 b (e + 16 + 12 * k) \<noteq> 0"
      "\<forall>k. Suc 1 \<le> k \<and> k < 8 \<longrightarrow> rd32 b (e + 16 + 12 * k) = 0"
    using register_next [OF e(1), of 1 a] a(2,3) by auto
  obtain d where d: "RegisterReader H 0 b = Some (int 2, d)" "\<forall>k < Suc 2. rd32 d (e + 16 + 12 * k) \<noteq> 0"
      "\<forall>k. Suc 2 \<le> k \<and> k < 8 \<longrightarrow> rd32 d (e + 16 + 12 * k) = 0"
    using register_next [OF e(1), of 2 b] b(2,3) by (auto simp: numeral_2_eq_2)
  have "\<forall>k < 3. rd32 d (e + 16 + 12 * k) \<noteq> 0" "\<forall>k. 3 \<le> k \<and> k < 8 \<longrightarrow> rd32 d (e + 16 + 12 * k) = 0"
    using d(2,3) by (simp_all add: numeral_3_eq_3 numeral_2_eq_2)
  then obtain f where f: "RegisterReader H 0 d = Some (int 3, f)" by (rule register_next [OF e(1)]) simp_all
  have "early_step H m a" by (rule early_step.register [OF a(1)]) simp
  moreover have "early_step H a b" by (rule early_step.register [OF b(1)]) simp
  moreover have "early_step H b d" by (rule early_step.register [OF d(1)]) simp
  ultimately have "early_reachable H m d"
    using early_reachable.init [of H m] early_reachable.step [of H m] by blast
  then show thesis using that [OF c] f by simp
qed

theorem attach_always_throws_witness:
  "ShmHashMap_ctor False (2 ^ 20) 4096 64 (\<lambda>x. 0) = Inl Thrown"
  using attach_always_throws [of 4096 64 "2 ^ 20" "\<lambda>x. 0"]
  by (simp add: region_size_of_def sizeof_HMHeader_def sizeof_SlabHeader_def)

theorem fresh_map_stores_nothing_witness:
  "\<exists>H m m1 m2. ShmHashMap_ctor True (2 ^ 20) 4096 64 (\<lambda>x. 0) = Inr (H, m) \<and> early_reachable H m m1 \<and>
     Put H [1] [2] m1 = Some (False, m2)"
proof -
  obtain H m m1 m2 where c: "ShmHashMap_ctor True (2 ^ 20) 4096 64 (\<lambda>x. 0) = Inr (H, m)" "early_reachable H m m1"
    by (rule four_registered)
  then show ?thesis using fresh_map_stores_nothing [OF c(1) _ default_pow2 _ _ c(2), of "[1]" "[2]"] by fastforce
qed

theorem rehash_overlays_readers_witness:
  "\<exists>H m m1 m2. ShmHashMap_ctor True (2 ^ 20) 4096 64 (\<lambda>x. 0) = Inr (H, m) \<and> RehashStart H 8192 m = Some (True, m1) \<and>
     RegisterReader H 7 m1 = Some (0, m2) \<and> (\<exists>a. bucket_at H True 4 m2 = Some a \<and> rd32 m2 a = 1)"
proof -
  obtain H m where c: "ShmHashMap_ctor True (2 ^ 20) 4096 64 (\<lambda>x. 0) = Inr (H, m)" by (rule four_registered)
  have "is_pow2 8192" by (simp add: is_pow2_def)
  then show ?thesis using rehash_overlays_readers [OF c _ default_pow2 _ _, of 8192 7] c
    by (fastforce simp: region_size_of_def sizeof_HMHeader_def)
qed

theorem fourth_reader_put_hits_header_witness:
  "\<exists>H m2 m3. Put H [1, 2] [3] m2 = Some (True, m3) \<and> rd32 m2 o_magic = HMR2 \<and> rd32 m3 o_magic = 50 \<and>
     rd32 m2 o_bucket_count_new = 4096 \<and> rd32 m3 o_bucket_count_new = 256"
proof -
  obtain H m m1 m2 where c: "ShmHashMap_ctor True (2 ^ 20) 4096 64 (\<lambda>x. 0) = Inr (H, m)" "early_reachable H m m1"
      "RegisterReader H 0 m1 = Some (3, m2)" by (rule four_registered)
  then show ?thesis using fourth_reader_put_hits_header [OF c(1) _ default_pow2 _ _ c(2,3), of "[1, 2]" "[3]"] by fastforce
qed

end
