(* ===== verification/Connection.thy ===== *)
theory Connection
  imports RingBuffer
begin

text \<open>
  \<open>Connection\<close> (server/core/network/TcpConnection.h, TcpConnection.cpp) with the packed message
  layout of PackBase.h and AppMsg.h: reading from the socket into the ring buffer, cutting the byte
  stream into \<open>AppMsg\<close>s, and sending with a saved remainder. What the kernel answers to \<open>read\<close>,
  \<open>write\<close> and \<open>sendmsg\<close> is an argument; the calls the connection makes on its handlers and on the
  poller are the list of actions each method returns. \<^term>\<open>None\<close> is undefined behaviour.
\<close>

section \<open>The message layout\<close>

definition MAGIC_VERSION :: nat where "MAGIC_VERSION = 1"
definition MAX_PACKET_SIZE :: nat where "MAX_PACKET_SIZE = 1048576"
definition sizeof_Header :: nat where "sizeof_Header = 1 + 1 + 4 + 4 + 8"
definition sizeof_AppMsg :: nat where "sizeof_AppMsg = sizeof_Header + 2 + 2 + 8 + 8 + 16 + 16"

record header =
  h_version :: nat
  h_type :: nat
  h_pack_len :: nat
  h_seq :: nat
  h_conn_id :: nat

definition Header_of :: "8 word list \<Rightarrow> header" where
  "Header_of b = \<lparr>h_version = field 0 1 b, h_type = field 1 1 b, h_pack_len = field 2 4 b,
                   h_seq = field 6 4 b, h_conn_id = field 10 8 b\<rparr>"

record app_msg =
  m_header :: header
  m_msg_id :: nat
  m_data_len :: nat
  m_co_id :: nat
  m_src_name :: "8 word list"
  m_dst_name :: "8 word list"
  m_data :: "8 word list"

text \<open>
  A received packet of \<open>pack_len\<close> bytes read as an \<open>AppMsg\<close>: \<open>data_\<close> is redirected to the bytes
  behind the struct and \<open>conn_id_\<close> is overwritten.
\<close>

definition AppMsg_of :: "nat \<Rightarrow> 8 word list \<Rightarrow> app_msg" where
  "AppMsg_of cid raw =
     \<lparr>m_header = (Header_of raw)\<lparr>h_conn_id := cid\<rparr>,
      m_msg_id = field 18 2 raw, m_data_len = field 20 2 raw, m_co_id = field 30 8 raw,
      m_src_name = take 16 (drop 38 raw), m_dst_name = take 16 (drop 54 raw),
      m_data = drop sizeof_AppMsg raw\<rparr>"

section \<open>The connection\<close>

datatype epoll_flag = EV_READ | EV_WRITE | EV_EDGE_TRIGGER | EV_RDHUP

datatype conn_action =
    CallRecv nat app_msg
  | CallClose nat
  | EpollModify int "epoll_flag set"

text \<open>\<open>RBytes []\<close> is end of file; an error is \<open>EAGAIN\<close>/\<open>EWOULDBLOCK\<close> or anything else.\<close>

datatype read_result = RBytes "8 word list" | RErrno bool

text \<open>The value of \<open>write\<close> or \<open>sendmsg\<close>, and whether \<open>errno\<close> says to try again.\<close>

type_synonym write_result = "int \<times> bool"

record connection =
  c_fd :: int
  c_conn_id :: nat
  c_last_active :: nat
  c_recv_buffer :: "8 word ring"
  c_partial_send_buffer :: "8 word list"
  c_partial_send_offset :: nat

definition Connection_ctor :: "int \<Rightarrow> nat \<Rightarrow> nat \<Rightarrow> 8 word ring \<Rightarrow> connection" where
  "Connection_ctor fd conn_id now recv_buffer =
     \<lparr>c_fd = fd, c_conn_id = conn_id, c_last_active = now, c_recv_buffer = recv_buffer,
      c_partial_send_buffer = [], c_partial_send_offset = 0\<rparr>"

definition updateActiveTime :: "nat \<Rightarrow> connection \<Rightarrow> connection" where
  "updateActiveTime now c = c\<lparr>c_last_active := now\<rparr>"

definition conn_close :: "connection \<Rightarrow> connection" where
  "conn_close c = (if c_fd c \<noteq> -1 then c\<lparr>c_fd := -1\<rparr> else c)"

section \<open>Receiving\<close>

text \<open>
  The loop of \<open>processRecvBuffer\<close> over the receive buffer's operations. Every round that goes on
  pops a packet, so a bound on the rounds is enough (see \<open>process_loop_decodes\<close>).
\<close>

fun process_loop ::
  "('q \<Rightarrow> nat) \<Rightarrow> ('q \<Rightarrow> nat \<Rightarrow> 8 word list option option) \<Rightarrow>
   ('q \<Rightarrow> nat \<Rightarrow> (8 word list option \<times> 'q) option) \<Rightarrow> nat \<Rightarrow> nat \<Rightarrow> 'q \<Rightarrow>
   (conn_action list \<times> 'q) option" where
  "process_loop sz pk pp cid 0 q = None"
| "process_loop sz pk pp cid (Suc fuel) q =
     (if sz q < sizeof_Header then Some ([], q)
      else do {
        peeked \<leftarrow> pk q sizeof_Header;
        peek_buf \<leftarrow> peeked;
        let header = Header_of peek_buf in
        if h_version header \<noteq> MAGIC_VERSION then Some ([CallClose cid], q)
        else if h_pack_len header < sizeof_AppMsg \<or> h_pack_len header > MAX_PACKET_SIZE
        then Some ([CallClose cid], q)
        else if sz q < h_pack_len header then Some ([], q)
        else do {
          (popped, q') \<leftarrow> pp q (h_pack_len header);
          case popped of
            None \<Rightarrow> Some ([CallClose cid], q')
          | Some raw \<Rightarrow>
              if field 20 2 raw + sizeof_AppMsg \<noteq> h_pack_len header
              then Some ([CallClose cid], q')
              else do {
                (acts, q'') \<leftarrow> process_loop sz pk pp cid fuel q';
                Some (CallRecv cid (AppMsg_of cid raw) # acts, q'') } } })"

definition processRecvBuffer :: "connection \<Rightarrow> (conn_action list \<times> connection) option" where
  "processRecvBuffer c =
     do { (acts, r) \<leftarrow> process_loop Size Peek PopBytes (c_conn_id c)
                         (Suc (Size (c_recv_buffer c))) (c_recv_buffer c);
          Some (acts, c\<lparr>c_recv_buffer := r\<rparr>) }"

text \<open>
  The read loop: \<open>reads\<close> are the answers of \<open>read\<close>, an exhausted list answers \<open>EAGAIN\<close>. The flag
  tells whether \<open>processRecvBuffer\<close> is reached.
\<close>

fun read_loop :: "nat \<Rightarrow> read_result list \<Rightarrow> connection \<Rightarrow>
    (bool \<times> conn_action list \<times> connection) option" where
  "read_loop now [] c = Some (True, [], c)"
| "read_loop now (RBytes [] # rs) c = Some (True, [CallClose (c_conn_id c)], c)"
| "read_loop now (RBytes (x # xs) # rs) c =
     do { (ok, r) \<leftarrow> PushBytes (c_recv_buffer c) (x # xs) (length (x # xs));
          if \<not> ok then Some (False, [CallClose (c_conn_id c)], c\<lparr>c_recv_buffer := r\<rparr>)
          else read_loop now rs (updateActiveTime now (c\<lparr>c_recv_buffer := r\<rparr>)) }"
| "read_loop now (RErrno again # rs) c =
     (if again then Some (True, [], c) else Some (False, [CallClose (c_conn_id c)], c))"

definition onReadable :: "nat \<Rightarrow> read_result list \<Rightarrow> connection \<Rightarrow>
    (conn_action list \<times> connection) option" where
  "onReadable now reads c =
     do { (go, acts, c1) \<leftarrow> read_loop now reads c;
          if go then do { (acts', c2) \<leftarrow> processRecvBuffer c1; Some (acts @ acts', c2) }
          else Some (acts, c1) }"

section \<open>Sending\<close>

text \<open>
  Each sending method also returns the bytes the kernel took. The packet's length is its header's
  \<open>pack_len_\<close> and its \<open>conn_id_\<close> is overwritten with the connection's.
\<close>

definition get_pack_ptr :: "nat \<Rightarrow> 8 word list \<Rightarrow> 8 word list option" where
  "get_pack_ptr cid p = mem_write p 10 (le_bytes 8 cid)"

definition WRITE_MASK :: "epoll_flag set" where
  "WRITE_MASK = {EV_READ, EV_WRITE, EV_EDGE_TRIGGER, EV_RDHUP}"

definition READ_MASK :: "epoll_flag set" where
  "READ_MASK = {EV_READ, EV_EDGE_TRIGGER, EV_RDHUP}"

definition send_impl :: "nat \<Rightarrow> 8 word list \<Rightarrow> write_result \<Rightarrow> connection \<Rightarrow>
    (8 word list \<times> conn_action list \<times> connection) option" where
  "send_impl now pack res c =
     do { p \<leftarrow> get_pack_ptr (c_conn_id c) pack;
          let pack_len = h_pack_len (Header_of p) in
          do { out \<leftarrow> mem_read p 0 pack_len;
            let (sent, again) = res in
            if sent > int pack_len then None
            else if sent = int pack_len then Some (out, [], updateActiveTime now c)
            else if sent > 0 then
              Some (take (nat sent) out, [EpollModify (c_fd c) WRITE_MASK],
                    c\<lparr>c_partial_send_buffer := drop (nat sent) out, c_partial_send_offset := 0\<rparr>)
            else if \<not> again then Some ([], [CallClose (c_conn_id c)], c)
            else Some ([], [EpollModify (c_fd c) WRITE_MASK],
                       c\<lparr>c_partial_send_buffer := out, c_partial_send_offset := 0\<rparr>) } }"

definition onWritable :: "nat \<Rightarrow> write_result \<Rightarrow> connection \<Rightarrow>
    (8 word list \<times> conn_action list \<times> connection) option" where
  "onWritable now res c =
     (if c_partial_send_buffer c = [] then Some ([], [], c)
      else
        let pending = drop (c_partial_send_offset c) (c_partial_send_buffer c) in
        let (sent, again) = res in
        if sent > int (length pending) then None
        else if sent > 0 then
          let c1 = updateActiveTime now
                     (c\<lparr>c_partial_send_offset := c_partial_send_offset c + nat sent\<rparr>) in
          if c_partial_send_offset c1 \<ge> length (c_partial_send_buffer c1)
          then Some (take (nat sent) pending, [EpollModify (c_fd c) READ_MASK],
                     c1\<lparr>c_partial_send_buffer := [], c_partial_send_offset := 0\<rparr>)
          else Some (take (nat sent) pending, [], c1)
        else if \<not> again then Some ([], [CallClose (c_conn_id c)], c)
        else Some ([], [], c))"

section \<open>The receive buffer as the connection relies on it\<close>

text \<open>What the stream means: the messages it holds, what is left, whether it is malformed.\<close>

function decode :: "nat \<Rightarrow> 8 word list \<Rightarrow> app_msg list \<times> 8 word list \<times> bool" where
  "decode cid xs =
     (if length xs < sizeof_Header then ([], xs, False)
      else let h = Header_of xs in
        if h_version h \<noteq> MAGIC_VERSION then ([], xs, True)
        else if h_pack_len h < sizeof_AppMsg \<or> h_pack_len h > MAX_PACKET_SIZE then ([], xs, True)
        else if length xs < h_pack_len h then ([], xs, False)
        else if field 20 2 xs + sizeof_AppMsg \<noteq> h_pack_len h then ([], drop (h_pack_len h) xs, True)
        else case decode cid (drop (h_pack_len h) xs) of (ms, rest, bad) \<Rightarrow>
               (AppMsg_of cid (take (h_pack_len h) xs) # ms, rest, bad))"
  by pat_completeness auto
termination
  by (relation "measure (\<lambda>(cid, xs). length xs)") (auto simp: sizeof_AppMsg_def sizeof_Header_def)

declare decode.simps [simp del]

locale byte_queue =
  fixes q_inv :: "'q \<Rightarrow> bool"
    and q_contents :: "'q \<Rightarrow> 8 word list"
    and q_same :: "'q \<Rightarrow> 'q \<Rightarrow> bool"
    and sz :: "'q \<Rightarrow> nat"
    and pk :: "'q \<Rightarrow> nat \<Rightarrow> 8 word list option option"
    and pp :: "'q \<Rightarrow> nat \<Rightarrow> (8 word list option \<times> 'q) option"
  assumes size_law: "q_inv q \<Longrightarrow> sz q = length (q_contents q)"
    and peek_law: "q_inv q \<Longrightarrow> k \<le> length (q_contents q) \<Longrightarrow>
           pk q k = Some (Some (take k (q_contents q)))"
    and pop_law: "q_inv q \<Longrightarrow> k \<le> length (q_contents q) \<Longrightarrow>
           \<exists>q'. pp q k = Some (Some (take k (q_contents q)), q') \<and> q_inv q' \<and> q_same q q' \<and>
                q_contents q' = drop k (q_contents q)"
    and same_refl: "q_same q q"
    and same_trans: "q_same q q' \<Longrightarrow> q_same q' q'' \<Longrightarrow> q_same q q''"
begin

text \<open>The packet loop computes \<^const>\<open>decode\<close>; a round per byte is enough fuel.\<close>

lemma process_loop_decodes:
  assumes "q_inv q" "length (q_contents q) < fuel"
  shows "\<exists>q'. process_loop sz pk pp cid fuel q =
      (case decode cid (q_contents q) of (ms, rest, bad) \<Rightarrow>
         Some (map (CallRecv cid) ms @ (if bad then [CallClose cid] else []), q')) \<and>
      q_inv q' \<and> q_same q q' \<and> q_contents q' = fst (snd (decode cid (q_contents q)))"
  using assms
proof (induction fuel arbitrary: q)
  case 0
  then show ?case by simp
next
  case (Suc fuel)
  let ?xs = "q_contents q"
  let ?h = "Header_of ?xs"
  note size = size_law [OF Suc.prems(1)]
  have d: "sizeof_Header \<le> sizeof_AppMsg" "0 < sizeof_AppMsg" "22 \<le> sizeof_AppMsg" "sizeof_Header = 18"
    by (simp_all add: sizeof_AppMsg_def sizeof_Header_def)
  show ?case
  proof (cases "length ?xs < sizeof_Header")
    case True
    then have "process_loop sz pk pp cid (Suc fuel) q = Some ([], q)" using size by simp
    moreover have "decode cid ?xs = ([], ?xs, False)" using True by (subst decode.simps) simp
    ultimately show ?thesis using Suc.prems(1) same_refl by simp
  next
    case False
    have pk: "pk q sizeof_Header = Some (Some (take sizeof_Header ?xs))"
      using peek_law [OF Suc.prems(1)] False by simp
    have hd: "Header_of (take sizeof_Header ?xs) = ?h"
      by (simp add: Header_of_def field_take d)
    show ?thesis
    proof (cases "h_version ?h \<noteq> MAGIC_VERSION \<or> h_pack_len ?h < sizeof_AppMsg \<or>
                  h_pack_len ?h > MAX_PACKET_SIZE")
      case True
      then have "process_loop sz pk pp cid (Suc fuel) q = Some ([CallClose cid], q)"
        using False size pk hd by (auto simp: Let_def)
      moreover have "decode cid ?xs = ([], ?xs, True)"
        using True False by (subst decode.simps) (auto simp: Let_def)
      ultimately show ?thesis using Suc.prems(1) same_refl by simp
    next
      case ok: False
      show ?thesis
      proof (cases "length ?xs < h_pack_len ?h")
        case True
        then have "process_loop sz pk pp cid (Suc fuel) q = Some ([], q)"
          using False ok size pk hd by (simp add: Let_def)
        moreover have "decode cid ?xs = ([], ?xs, False)"
          using True False ok by (subst decode.simps) (simp add: Let_def)
        ultimately show ?thesis using Suc.prems(1) same_refl by simp
      next
        case len: False
        obtain q1 where q1: "pp q (h_pack_len ?h) = Some (Some (take (h_pack_len ?h) ?xs), q1)"
            "q_inv q1" "q_same q q1" "q_contents q1 = drop (h_pack_len ?h) ?xs"
          using pop_law [OF Suc.prems(1), of "h_pack_len ?h"] len by auto
        have dl: "field 20 2 (take (h_pack_len ?h) ?xs) = field 20 2 ?xs"
          using ok d by (intro field_take) simp
        show ?thesis
        proof (cases "field 20 2 ?xs + sizeof_AppMsg = h_pack_len ?h")
          case False': False
          then have "process_loop sz pk pp cid (Suc fuel) q = Some ([CallClose cid], q1)"
            using False ok len size pk hd q1(1) dl by (simp add: Let_def)
          moreover have "decode cid ?xs = ([], drop (h_pack_len ?h) ?xs, True)"
            using False' False ok len by (subst decode.simps) (simp add: Let_def)
          ultimately show ?thesis using q1 by simp
        next
          case True
          have "22 \<le> h_pack_len ?h" using ok d(3) by linarith
          then have "length (q_contents q1) < fuel"
            unfolding q1(4) length_drop using Suc.prems(2) len by linarith
          from Suc.IH [OF q1(2) this] obtain q2 where q2:
              "process_loop sz pk pp cid fuel q1 =
                (case decode cid (q_contents q1) of (ms, rest, bad) \<Rightarrow>
                   Some (map (CallRecv cid) ms @ (if bad then [CallClose cid] else []), q2))"
              "q_inv q2" "q_same q1 q2" "q_contents q2 = fst (snd (decode cid (q_contents q1)))"
            by blast
          obtain ms rest bad where r: "decode cid (q_contents q1) = (ms, rest, bad)"
            by (cases "decode cid (q_contents q1)") auto
          have "process_loop sz pk pp cid (Suc fuel) q =
              Some (CallRecv cid (AppMsg_of cid (take (h_pack_len ?h) ?xs)) #
                    map (CallRecv cid) ms @ (if bad then [CallClose cid] else []), q2)"
            using False ok len size pk hd q1(1) dl True q2(1) r by (simp add: Let_def)
          moreover have "decode cid ?xs =
              (AppMsg_of cid (take (h_pack_len ?h) ?xs) # ms, rest, bad)"
            using True False ok len r q1(4) by (subst decode.simps) (simp add: Let_def)
          ultimately show ?thesis using q2 r same_trans [OF q1(3)] by simp
        qed
      qed
    qed
  qed
qed

end

interpretation recv_ring: byte_queue rb_inv contents "\<lambda>r r'. rb_ring_size r' = rb_ring_size r"
    Size Peek PopBytes
proof
  fix q :: "8 word ring" and k
  assume q: "rb_inv q"
  show "Size q = length (contents q)" by (simp add: Size_def)
  assume k: "k \<le> length (contents q)"
  show "Peek q k = Some (Some (take k (contents q)))" using Peek_spec [OF q, of k] k by simp
  show "\<exists>q'. PopBytes q k = Some (Some (take k (contents q)), q') \<and> rb_inv q' \<and>
      rb_ring_size q' = rb_ring_size q \<and> contents q' = drop k (contents q)"
    using PopBytes_spec [OF q, of k] k by auto
qed auto

lemma processRecvBuffer_decodes:
  assumes "rb_inv (c_recv_buffer c)"
    "decode (c_conn_id c) (contents (c_recv_buffer c)) = (ms, rest, bad)"
  obtains r where "processRecvBuffer c =
      Some (map (CallRecv (c_conn_id c)) ms @ (if bad then [CallClose (c_conn_id c)] else []),
            c\<lparr>c_recv_buffer := r\<rparr>)"
    "rb_inv r" "rb_ring_size r = rb_ring_size (c_recv_buffer c)" "contents r = rest"
  using recv_ring.process_loop_decodes [OF assms(1), of "Suc (Size (c_recv_buffer c))" "c_conn_id c"]
    assms(2) that
  by (fastforce simp: processRecvBuffer_def Size_def)

section \<open>The stream across reads\<close>

lemma Header_of_append: "sizeof_Header \<le> length xs \<Longrightarrow> Header_of (xs @ ys) = Header_of xs"
  by (simp add: Header_of_def field_append sizeof_Header_def)

text \<open>Bytes that arrive later do not change what the earlier ones mean.\<close>

lemma decode_append:
  "decode cid (xs @ ys) =
     (case decode cid xs of (ms, rest, bad) \<Rightarrow>
        if bad then (ms, rest @ ys, True)
        else case decode cid (rest @ ys) of (ms', rest', bad') \<Rightarrow> (ms @ ms', rest', bad'))"
proof (induction cid xs rule: decode.induct)
  case (1 cid xs)
  let ?h = "Header_of xs"
  show ?case
  proof (cases "length xs < sizeof_Header \<or>
      (h_version ?h = MAGIC_VERSION \<and> \<not> h_pack_len ?h < sizeof_AppMsg \<and>
       \<not> h_pack_len ?h > MAX_PACKET_SIZE \<and> length xs < h_pack_len ?h)")
    case True
    then have "decode cid xs = ([], xs, False)" by (subst decode.simps) (auto simp: Let_def)
    then show ?thesis by (auto split: prod.splits)
  next
    case False
    then have hd: "Header_of (xs @ ys) = ?h" by (simp add: Header_of_append)
    show ?thesis
    proof (cases "h_version ?h \<noteq> MAGIC_VERSION \<or> h_pack_len ?h < sizeof_AppMsg \<or>
                  h_pack_len ?h > MAX_PACKET_SIZE")
      case True
      then have "decode cid xs = ([], xs, True)" "decode cid (xs @ ys) = ([], xs @ ys, True)"
        using False hd by (subst decode.simps; auto simp: Let_def)+
      then show ?thesis by simp
    next
      case ok: False
      then have len: "sizeof_Header \<le> length xs" "h_pack_len ?h \<le> length xs" using False by auto
      have "22 \<le> sizeof_AppMsg" by (simp add: sizeof_AppMsg_def sizeof_Header_def)
      then have fld: "field 20 2 (xs @ ys) = field 20 2 xs"
        using ok len by (intro field_append) linarith
      show ?thesis
      proof (cases "field 20 2 xs + sizeof_AppMsg = h_pack_len ?h")
        case bad: False
        then have "decode cid xs = ([], drop (h_pack_len ?h) xs, True)"
          using ok len by (subst decode.simps) (auto simp: Let_def)
        moreover have "decode cid (xs @ ys) = ([], drop (h_pack_len ?h) xs @ ys, True)"
          using bad ok len hd fld by (subst decode.simps) (auto simp: Let_def)
        ultimately show ?thesis by simp
      next
        case True
        obtain ms rest b where r: "decode cid (drop (h_pack_len ?h) xs) = (ms, rest, b)"
          by (cases "decode cid (drop (h_pack_len ?h) xs)") auto
        have "decode cid xs = (AppMsg_of cid (take (h_pack_len ?h) xs) # ms, rest, b)"
          using True ok len r by (subst decode.simps) (auto simp: Let_def)
        moreover have "decode cid (xs @ ys) =
            (case decode cid (drop (h_pack_len ?h) xs @ ys) of (ms, rest, bad) \<Rightarrow>
               (AppMsg_of cid (take (h_pack_len ?h) xs) # ms, rest, bad))"
          using True ok len hd fld by (subst decode.simps) (auto simp: Let_def)
        moreover have "decode cid (drop (h_pack_len ?h) xs @ ys) =
            (if b then (ms, rest @ ys, True)
             else case decode cid (rest @ ys) of (ms', rest', bad') \<Rightarrow> (ms @ ms', rest', bad'))"
          using 1 [OF _ refl] True ok len r by (auto simp: not_less)
        ultimately show ?thesis by (auto split: prod.splits)
      qed
    qed
  qed
qed

lemma read_loop_data:
  assumes "rb_inv (c_recv_buffer c)" "[] \<notin> set chunks"
    "length (contents (c_recv_buffer c)) + length (concat chunks) < rb_ring_size (c_recv_buffer c)"
  shows "\<exists>c'. read_loop now (map RBytes chunks) c = Some (True, [], c') \<and>
           c_conn_id c' = c_conn_id c \<and> rb_inv (c_recv_buffer c') \<and>
           rb_ring_size (c_recv_buffer c') = rb_ring_size (c_recv_buffer c) \<and>
           contents (c_recv_buffer c') = contents (c_recv_buffer c) @ concat chunks"
  using assms
proof (induction chunks arbitrary: c)
  case Nil then show ?case by simp
next
  case (Cons xs chunks)
  obtain y ys where xs: "xs = y # ys" using Cons.prems(2) by (cases xs) auto
  obtain r where r: "PushBytes (c_recv_buffer c) xs (length xs) = Some (True, r)" "rb_inv r"
      "rb_ring_size r = rb_ring_size (c_recv_buffer c)" "contents r = contents (c_recv_buffer c) @ xs"
    using PushBytes_spec [OF Cons.prems(1) refl, of xs] Cons.prems(3) by auto
  let ?c = "updateActiveTime now (c\<lparr>c_recv_buffer := r\<rparr>)"
  have c: "c_recv_buffer ?c = r" "c_conn_id ?c = c_conn_id c" by (simp_all add: updateActiveTime_def)
  have "length (contents r) + length (concat chunks) < rb_ring_size r"
    using Cons.prems(3) r(3) unfolding r(4) by simp
  then obtain c' where "read_loop now (map RBytes chunks) ?c = Some (True, [], c')"
      "c_conn_id c' = c_conn_id c" "rb_inv (c_recv_buffer c')"
      "rb_ring_size (c_recv_buffer c') = rb_ring_size r"
      "contents (c_recv_buffer c') = contents r @ concat chunks"
    using Cons.IH [of ?c] r(2) Cons.prems(2) c by auto
  then show ?case using r xs by simp
qed

fun is_close :: "conn_action \<Rightarrow> bool" where
  "is_close (CallClose _) = True"
| "is_close _ = False"

text \<open>Successive readable events, each with the chunks \<open>read\<close> returned; a closed connection is gone.\<close>

fun receive_rounds :: "nat \<Rightarrow> 8 word list list list \<Rightarrow> connection \<Rightarrow>
    (conn_action list \<times> connection) option" where
  "receive_rounds now [] c = Some ([], c)"
| "receive_rounds now (r # rs) c =
     do { (acts, c1) \<leftarrow> onReadable now (map RBytes r) c;
          if list_ex is_close acts then Some (acts, c1)
          else do { (acts', c2) \<leftarrow> receive_rounds now rs c1; Some (acts @ acts', c2) } }"

text \<open>Every event's bytes fit in the buffer behind the incomplete packet left by the previous one.\<close>

fun rounds_fit :: "nat \<Rightarrow> nat \<Rightarrow> 8 word list \<Rightarrow> 8 word list list list \<Rightarrow> bool" where
  "rounds_fit n cid xs [] \<longleftrightarrow> True"
| "rounds_fit n cid xs (r # rs) \<longleftrightarrow>
     [] \<notin> set r \<and> length xs + length (concat r) < n \<and>
     rounds_fit n cid (fst (snd (decode cid (xs @ concat r)))) rs"

lemma decode_rest_length: "length (fst (snd (decode cid xs))) \<le> length xs"
proof (induction cid xs rule: decode.induct)
  case (1 cid xs)
  let ?d = "decode cid (drop (h_pack_len (Header_of xs)) xs)"
  show ?case
  proof (cases "fst (snd (decode cid xs)) = fst (snd ?d) \<and> \<not> length xs < sizeof_Header \<and>
      h_version (Header_of xs) = MAGIC_VERSION \<and>
      \<not> (h_pack_len (Header_of xs) < sizeof_AppMsg \<or> h_pack_len (Header_of xs) > MAX_PACKET_SIZE) \<and>
      \<not> length xs < h_pack_len (Header_of xs) \<and>
      field 20 2 xs + sizeof_AppMsg = h_pack_len (Header_of xs)")
    case True
    then show ?thesis using 1 [OF _ refl] by fastforce
  next
    case False
    then show ?thesis by (subst decode.simps, subst (asm) decode.simps) (auto simp: Let_def split: prod.splits)
  qed
qed

lemma rounds_fit_total:
  "\<forall>r \<in> set rounds. [] \<notin> set r \<Longrightarrow> length xs + length (concat (concat rounds)) < n \<Longrightarrow>
     rounds_fit n cid xs rounds"
proof (induction rounds arbitrary: xs)
  case (Cons r rounds)
  have "length (fst (snd (decode cid (xs @ concat r)))) \<le> length xs + length (concat r)"
    using decode_rest_length [of cid "xs @ concat r"] by simp
  then show ?case using Cons by auto
qed simp

lemma onReadable_data:
  assumes "rb_inv (c_recv_buffer c)" "[] \<notin> set chunks"
    "length (contents (c_recv_buffer c)) + length (concat chunks) < rb_ring_size (c_recv_buffer c)"
    "decode (c_conn_id c) (contents (c_recv_buffer c) @ concat chunks) = (ms, rest, bad)"
  obtains c' where "onReadable now (map RBytes chunks) c =
      Some (map (CallRecv (c_conn_id c)) ms @ (if bad then [CallClose (c_conn_id c)] else []), c')"
    "c_conn_id c' = c_conn_id c" "rb_inv (c_recv_buffer c')"
    "rb_ring_size (c_recv_buffer c') = rb_ring_size (c_recv_buffer c)"
    "contents (c_recv_buffer c') = rest"
proof -
  obtain c1 where c1: "read_loop now (map RBytes chunks) c = Some (True, [], c1)"
      "c_conn_id c1 = c_conn_id c" "rb_inv (c_recv_buffer c1)"
      "rb_ring_size (c_recv_buffer c1) = rb_ring_size (c_recv_buffer c)"
      "contents (c_recv_buffer c1) = contents (c_recv_buffer c) @ concat chunks"
    using read_loop_data [OF assms(1-3)] by blast
  have "decode (c_conn_id c1) (contents (c_recv_buffer c1)) = (ms, rest, bad)"
    using assms(4) c1 by simp
  from processRecvBuffer_decodes [OF c1(3) this] obtain r where
    "processRecvBuffer c1 =
      Some (map (CallRecv (c_conn_id c1)) ms @ (if bad then [CallClose (c_conn_id c1)] else []),
            c1\<lparr>c_recv_buffer := r\<rparr>)"
    "rb_inv r" "rb_ring_size r = rb_ring_size (c_recv_buffer c1)" "contents r = rest" .
  then show thesis using that [of "c1\<lparr>c_recv_buffer := r\<rparr>"] c1 by (simp add: onReadable_def)
qed

lemma no_close_recv: "\<not> list_ex is_close (map (CallRecv cid) ms)"
  by (induction ms) auto

lemma receive_rounds_decode:
  assumes "rb_inv (c_recv_buffer c)"
    "rounds_fit (rb_ring_size (c_recv_buffer c)) (c_conn_id c) (contents (c_recv_buffer c)) rounds"
    "decode (c_conn_id c) (contents (c_recv_buffer c)) = ([], contents (c_recv_buffer c), False)"
    "decode (c_conn_id c) (contents (c_recv_buffer c) @ concat (concat rounds)) = (ms, rest, bad)"
  shows "\<exists>c'. receive_rounds now rounds c =
      Some (map (CallRecv (c_conn_id c)) ms @ (if bad then [CallClose (c_conn_id c)] else []), c') \<and>
      rb_inv (c_recv_buffer c') \<and> (\<not> bad \<longrightarrow> contents (c_recv_buffer c') = rest)"
  using assms
proof (induction rounds arbitrary: c ms)
  case Nil
  then show ?case by simp
next
  case (Cons r rounds)
  let ?cid = "c_conn_id c" and ?xs = "contents (c_recv_buffer c)"
  obtain ms1 rest1 bad1 where d1: "decode ?cid (?xs @ concat r) = (ms1, rest1, bad1)"
    by (cases "decode ?cid (?xs @ concat r)") auto
  obtain c1 where c1: "onReadable now (map RBytes r) c =
        Some (map (CallRecv ?cid) ms1 @ (if bad1 then [CallClose ?cid] else []), c1)"
      "c_conn_id c1 = ?cid" "rb_inv (c_recv_buffer c1)"
      "rb_ring_size (c_recv_buffer c1) = rb_ring_size (c_recv_buffer c)"
      "contents (c_recv_buffer c1) = rest1"
    using onReadable_data [OF Cons.prems(1) _ _ d1, of now thesis] Cons.prems(2) by auto
  have all: "decode ?cid (?xs @ concat r @ concat (concat rounds)) = (ms, rest, bad)"
    using Cons.prems(4) by simp
  show ?case
  proof (cases bad1)
    case True
    then have "ms = ms1 \<and> bad"
      using decode_append [of ?cid "?xs @ concat r" "concat (concat rounds)"] d1 all by simp
    then show ?thesis using c1 True by simp
  next
    case False
    obtain ms2 where d2: "decode ?cid (rest1 @ concat (concat rounds)) = (ms2, rest, bad)" "ms = ms1 @ ms2"
      using decode_append [of ?cid "?xs @ concat r" "concat (concat rounds)"] d1 all False
      by (auto split: prod.splits)
    have stop: "decode ?cid rest1 = ([], rest1, False)"
      using decode_append [of ?cid "?xs @ concat r" "[]"] d1 False by (auto split: prod.splits)
    have "\<exists>c'. receive_rounds now rounds c1 =
        Some (map (CallRecv ?cid) ms2 @ (if bad then [CallClose ?cid] else []), c') \<and>
        rb_inv (c_recv_buffer c') \<and> (\<not> bad \<longrightarrow> contents (c_recv_buffer c') = rest)"
      using Cons.IH [OF c1(3), unfolded c1(2,4,5), of ms2] Cons.prems(2) d1 d2(1) stop by simp
    then show ?thesis using c1(1) False d2(2) no_close_recv by auto
  qed
qed

section \<open>The sender's layout\<close>

definition encode_header :: "header \<Rightarrow> 8 word list" where
  "encode_header h =
     le_bytes 1 (h_version h) @ le_bytes 1 (h_type h) @ le_bytes 4 (h_pack_len h) @
     le_bytes 4 (h_seq h) @ le_bytes 8 (h_conn_id h)"

text \<open>The struct and its body as they lie in the sender's memory; \<open>ptr\<close> is the sender's \<open>data_\<close>.\<close>

definition encode_AppMsg :: "nat \<Rightarrow> app_msg \<Rightarrow> 8 word list" where
  "encode_AppMsg ptr m =
     encode_header (m_header m) @ le_bytes 2 (m_msg_id m) @ le_bytes 2 (m_data_len m) @
     le_bytes 8 ptr @ le_bytes 8 (m_co_id m) @ m_src_name m @ m_dst_name m @ m_data m"

text \<open>A message whose members fit their fields and whose lengths agree with its body.\<close>

definition msg_wf :: "app_msg \<Rightarrow> bool" where
  "msg_wf m \<longleftrightarrow>
     h_version (m_header m) = MAGIC_VERSION \<and> h_type (m_header m) < 256 \<and>
     h_pack_len (m_header m) = sizeof_AppMsg + length (m_data m) \<and>
     h_seq (m_header m) < 2 ^ 32 \<and> h_conn_id (m_header m) < 2 ^ 64 \<and>
     m_msg_id m < 2 ^ 16 \<and> m_data_len m = length (m_data m) \<and> length (m_data m) < 2 ^ 16 \<and>
     m_co_id m < 2 ^ 64 \<and> length (m_src_name m) = 16 \<and> length (m_dst_name m) = 16"

definition received_as :: "nat \<Rightarrow> app_msg \<Rightarrow> app_msg" where
  "received_as cid m = m\<lparr>m_header := (m_header m)\<lparr>h_conn_id := cid\<rparr>\<rparr>"

lemma length_encode: "msg_wf m \<Longrightarrow> length (encode_AppMsg ptr m) = h_pack_len (m_header m)"
  by (simp add: encode_AppMsg_def encode_header_def msg_wf_def sizeof_AppMsg_def sizeof_Header_def)

lemma Header_of_encode:
  assumes "msg_wf m"
  shows "Header_of (encode_AppMsg ptr m @ ys) = m_header m"
proof -
  have "h_pack_len (m_header m) < 256 ^ 4" "h_version (m_header m) < 256 ^ 1" "h_type (m_header m) < 256 ^ 1"
      "h_seq (m_header m) < 256 ^ 4" "h_conn_id (m_header m) < 256 ^ 8"
    using assms by (simp_all add: msg_wf_def MAGIC_VERSION_def sizeof_AppMsg_def sizeof_Header_def)
  then show ?thesis
    by (simp add: Header_of_def field_def encode_AppMsg_def encode_header_def le_nat_le_bytes)
qed

lemma AppMsg_of_encode:
  assumes "msg_wf m"
  shows "AppMsg_of cid (encode_AppMsg ptr m) = received_as cid m"
proof -
  have "m_msg_id m < 256 ^ 2" "m_data_len m < 256 ^ 2" "m_co_id m < 256 ^ 8"
    using assms by (simp_all add: msg_wf_def)
  then show ?thesis
    using assms Header_of_encode [OF assms, of ptr "[]"]
    by (simp add: AppMsg_of_def received_as_def field_def encode_AppMsg_def encode_header_def
        le_nat_le_bytes msg_wf_def sizeof_AppMsg_def sizeof_Header_def)
qed

lemma decode_encode:
  assumes "msg_wf m"
  shows "decode cid (encode_AppMsg ptr m @ ys) =
           (case decode cid ys of (ms, rest, bad) \<Rightarrow> (received_as cid m # ms, rest, bad))"
proof -
  let ?e = "encode_AppMsg ptr m"
  have len: "length ?e = sizeof_AppMsg + length (m_data m)" "h_pack_len (m_header m) = length ?e"
    using length_encode [OF assms, of ptr] assms by (auto simp: msg_wf_def)
  have "m_data_len (AppMsg_of cid ?e) = m_data_len (received_as cid m)"
    by (simp only: AppMsg_of_encode [OF assms])
  then have "field 20 2 ?e = m_data_len m" by (simp add: AppMsg_of_def received_as_def)
  then have "field 20 2 (?e @ ys) = length (m_data m)"
    using assms len by (simp add: field_append msg_wf_def sizeof_AppMsg_def sizeof_Header_def)
  moreover have "h_version (m_header m) = MAGIC_VERSION" "length ?e \<le> MAX_PACKET_SIZE"
    using assms len by (auto simp: msg_wf_def MAX_PACKET_SIZE_def sizeof_AppMsg_def sizeof_Header_def)
  moreover have "\<not> length (?e @ ys) < sizeof_Header"
    using len by (simp add: sizeof_AppMsg_def)
  ultimately show ?thesis
    using Header_of_encode [OF assms, of ptr ys] len AppMsg_of_encode [OF assms]
    by (subst decode.simps) (simp add: Let_def)
qed

lemma decode_stream:
  assumes "\<forall>m \<in> set ms. msg_wf m"
  shows "decode cid (concat (map (encode_AppMsg ptr) ms)) = (map (received_as cid) ms, [], False)"
  using assms
proof (induction ms)
  case Nil
  show ?case by (subst decode.simps) (simp add: sizeof_Header_def)
next
  case (Cons m ms)
  then show ?case by (simp add: decode_encode)
qed

text \<open>What \<^const>\<open>decode\<close> accepts, whatever the bytes are.\<close>

lemma decode_sound:
  "m \<in> set (fst (decode cid xs)) \<Longrightarrow>
     h_version (m_header m) = MAGIC_VERSION \<and> h_conn_id (m_header m) = cid \<and>
     h_pack_len (m_header m) = sizeof_AppMsg + length (m_data m) \<and>
     m_data_len m = length (m_data m) \<and> h_pack_len (m_header m) \<le> MAX_PACKET_SIZE"
proof (induction cid xs rule: decode.induct)
  case (1 cid xs)
  let ?h = "Header_of xs"
  show ?case
  proof (cases "length xs < sizeof_Header \<or> h_version ?h \<noteq> MAGIC_VERSION \<or>
      h_pack_len ?h < sizeof_AppMsg \<or> h_pack_len ?h > MAX_PACKET_SIZE \<or>
      length xs < h_pack_len ?h \<or> field 20 2 xs + sizeof_AppMsg \<noteq> h_pack_len ?h")
    case True
    then show ?thesis using "1.prems" by (subst (asm) decode.simps) (auto simp: Let_def split: if_splits)
  next
    case False
    let ?n = "h_pack_len ?h"
    have hd: "Header_of (take ?n xs) = ?h" "field 20 2 (take ?n xs) = field 20 2 xs"
      using False by (auto simp: Header_of_def field_take sizeof_AppMsg_def sizeof_Header_def)
    have first: "m_header (AppMsg_of cid (take ?n xs)) = ?h\<lparr>h_conn_id := cid\<rparr>"
        "m_data_len (AppMsg_of cid (take ?n xs)) = ?n - sizeof_AppMsg"
        "length (m_data (AppMsg_of cid (take ?n xs))) = ?n - sizeof_AppMsg"
      using hd False by (auto simp: AppMsg_of_def)
    have "m = AppMsg_of cid (take ?n xs) \<or> m \<in> set (fst (decode cid (drop ?n xs)))"
      using "1.prems" False by (subst (asm) decode.simps) (auto simp: Let_def split: prod.splits)
    then show ?thesis
    proof
      assume m: "m = AppMsg_of cid (take ?n xs)"
      then show ?thesis using first False by auto
    next
      assume "m \<in> set (fst (decode cid (drop ?n xs)))"
      then show ?thesis using "1.IH" [OF _ refl] False by auto
    qed
  qed
qed

section \<open>Properties\<close>

text \<open>
  C4: whatever way the network cuts a stream of messages into reads and readable events, a receiver whose
  buffer is empty delivers exactly those messages, in order, stamped with its connection id, nothing is
  left in the buffer and the connection stays open, as long as the bytes of each event, together with the
  incomplete packet before them, are fewer than the size of the buffer. (A larger event makes the
  connection close.)
\<close>

theorem tcp_messages_roundtrip:
  assumes "rb_inv (c_recv_buffer c)" "contents (c_recv_buffer c) = []"
    and "\<forall>m \<in> set ms. msg_wf m"
    and "concat (concat rounds) = concat (map (encode_AppMsg ptr) ms)"
    and "rounds_fit (rb_ring_size (c_recv_buffer c)) (c_conn_id c) [] rounds"
  shows "\<exists>c'. receive_rounds now rounds c =
           Some (map (\<lambda>m. CallRecv (c_conn_id c) (received_as (c_conn_id c) m)) ms, c') \<and>
         contents (c_recv_buffer c') = []"
proof -
  have "decode (c_conn_id c) [] = ([], [], False)" by (subst decode.simps) (simp add: sizeof_Header_def)
  then show ?thesis
    using receive_rounds_decode [OF assms(1), of rounds "map (received_as (c_conn_id c)) ms" "[]" False now]
      decode_stream [OF assms(3), of "c_conn_id c" ptr] assms(2,4,5) by (auto simp: comp_def)
qed

definition idle_conn :: connection where
  "idle_conn = Connection_ctor 5 3 0
     \<lparr>rb_head = 0, rb_tail = 0, rb_capacity = 400, rb_element_size = 1, rb_initialized = True,
      rb_ring_size = 400, rb_buffer = replicate 400 0\<rparr>"

definition ping_msg :: app_msg where
  "ping_msg = \<lparr>m_header = \<lparr>h_version = 1, h_type = 1, h_pack_len = 72, h_seq = 9, h_conn_id = 77\<rparr>,
     m_msg_id = 1001, m_data_len = 2, m_co_id = 0, m_src_name = replicate 16 0,
     m_dst_name = replicate 16 0, m_data = [65, 66]\<rparr>"

lemma ping_wf: "msg_wf ping_msg"
  by (simp add: msg_wf_def ping_msg_def MAGIC_VERSION_def sizeof_AppMsg_def sizeof_Header_def)

lemma idle_inv: "rb_inv (c_recv_buffer idle_conn)" "contents (c_recv_buffer idle_conn) = []"
  "c_conn_id idle_conn = 3" "rb_ring_size (c_recv_buffer idle_conn) = 400"
  by (simp_all add: idle_conn_def Connection_ctor_def rb_inv_def contents_def Used_def usub_def)

text \<open>Two messages in three events: the first event ends inside the first header.\<close>

theorem tcp_messages_roundtrip_witness:
  defines "s \<equiv> concat (map (encode_AppMsg 0) [ping_msg, ping_msg])"
  shows "\<exists>c'. receive_rounds 1 [[take 7 s], [take 60 (drop 7 s), take 10 (drop 67 s)], [drop 77 s]] idle_conn =
           Some (map (\<lambda>m. CallRecv 3 (received_as 3 m)) [ping_msg, ping_msg], c') \<and>
         contents (c_recv_buffer c') = []"
proof -
  let ?r = "[[take 7 s], [take 60 (drop 7 s), take 10 (drop 67 s)], [drop 77 s]]"
  have len: "length (encode_AppMsg 0 ping_msg) = 72" using length_encode [OF ping_wf] by (simp add: ping_msg_def)
  have l: "length s = 144" using len by (simp add: s_def)
  have "take 77 s = take 7 s @ take 60 (drop 7 s) @ take 10 (drop 67 s)"
    using take_add [of 7 70 s] take_add [of 60 10 "drop 7 s"] by simp
  then have cat: "concat (concat ?r) = s" using append_take_drop_id [of 77 s] by simp
  have "rounds_fit 400 3 [] ?r"
  proof (rule rounds_fit_total)
    show "\<forall>r \<in> set ?r. [] \<notin> set r" using l by (auto simp: take_eq_Nil dest: arg_cong [of _ _ length])
    show "length [] + length (concat (concat ?r)) < 400" unfolding cat using l by simp
  qed
  then show ?thesis
    using tcp_messages_roundtrip [OF idle_inv(1,2), of "[ping_msg, ping_msg]" ?r 0 1] ping_wf cat
    unfolding idle_inv s_def by simp
qed

text \<open>
  C5: whatever bytes a peer sends, in whatever pieces, every message handed up has the right version,
  carries the connection's own id rather than the one in the packet, is at most 1 MiB and has a body of
  exactly the length its header and its \<open>data_len_\<close> announce.
\<close>

theorem tcp_delivers_only_consistent:
  assumes "rb_inv (c_recv_buffer c)" "contents (c_recv_buffer c) = []"
    "rounds_fit (rb_ring_size (c_recv_buffer c)) (c_conn_id c) [] rounds"
  shows "\<exists>acts c'. receive_rounds now rounds c = Some (acts, c') \<and> rb_inv (c_recv_buffer c') \<and>
    (\<forall>cid m. CallRecv cid m \<in> set acts \<longrightarrow>
       cid = c_conn_id c \<and> h_version (m_header m) = MAGIC_VERSION \<and>
       h_conn_id (m_header m) = c_conn_id c \<and> h_pack_len (m_header m) \<le> MAX_PACKET_SIZE \<and>
       h_pack_len (m_header m) = sizeof_AppMsg + length (m_data m) \<and>
       m_data_len m = length (m_data m))"
proof -
  obtain ms rest bad where d: "decode (c_conn_id c) (concat (concat rounds)) = (ms, rest, bad)"
    by (cases "decode (c_conn_id c) (concat (concat rounds))") auto
  have "decode (c_conn_id c) [] = ([], [], False)" by (subst decode.simps) (simp add: sizeof_Header_def)
  then obtain c' where c': "receive_rounds now rounds c =
      Some (map (CallRecv (c_conn_id c)) ms @ (if bad then [CallClose (c_conn_id c)] else []), c')"
      "rb_inv (c_recv_buffer c')"
    using receive_rounds_decode [OF assms(1), of rounds ms rest bad now] d assms(2,3) by auto
  have "m \<in> set ms \<Longrightarrow> h_version (m_header m) = MAGIC_VERSION \<and> h_conn_id (m_header m) = c_conn_id c \<and>
     h_pack_len (m_header m) = sizeof_AppMsg + length (m_data m) \<and>
     m_data_len m = length (m_data m) \<and> h_pack_len (m_header m) \<le> MAX_PACKET_SIZE" for m
    using decode_sound [of m "c_conn_id c"] d by (metis fst_conv)
  then show ?thesis using c' by auto
qed

theorem tcp_delivers_only_consistent_witness:
  "\<exists>acts c'. receive_rounds 1 [[[1, 2, 3], replicate 30 1], [[9, 9]]] idle_conn = Some (acts, c') \<and>
    rb_inv (c_recv_buffer c') \<and>
    (\<forall>cid m. CallRecv cid m \<in> set acts \<longrightarrow>
       cid = c_conn_id idle_conn \<and> h_version (m_header m) = MAGIC_VERSION \<and>
       h_conn_id (m_header m) = c_conn_id idle_conn \<and> h_pack_len (m_header m) \<le> MAX_PACKET_SIZE \<and>
       h_pack_len (m_header m) = sizeof_AppMsg + length (m_data m) \<and>
       m_data_len m = length (m_data m))"
  by (rule tcp_delivers_only_consistent [OF idle_inv(1,2)])
     (unfold idle_inv, rule rounds_fit_total, simp_all)

text \<open>
  a second send before a partial one has drained destroys the first packet's remainder: the first
  packet is cut after \<open>k\<close> bytes, the second takes over the single pending buffer, and once it drains
  the peer has received the head of the first packet followed by the second.
\<close>

theorem second_send_truncates_first:
  assumes "get_pack_ptr (c_conn_id c) p = Some p'" "get_pack_ptr (c_conn_id c) q = Some q'"
    and "h_pack_len (Header_of p') = length p" "h_pack_len (Header_of q') = length q"
    and "0 < k" "k < length p" "q \<noteq> []"
  shows "\<exists>w1 a1 c1 w2 a2 c2 w3 a3 c3. send_impl t1 p (int k, False) c = Some (w1, a1, c1) \<and>
    send_impl t2 q (-1, True) c1 = Some (w2, a2, c2) \<and>
    onWritable t3 (int (length q), False) c2 = Some (w3, a3, c3) \<and>
    w1 @ w2 @ w3 = take k p' @ q' \<and> c_partial_send_buffer c3 = [] \<and>
    CallClose (c_conn_id c) \<notin> set (a1 @ a2 @ a3)"
proof -
  have l: "length p' = length p" "length q' = length q"
    using assms(1,2) by (auto simp: get_pack_ptr_def dest: mem_write_length)
  have "send_impl t1 p (int k, False) c =
      Some (take k p', [EpollModify (c_fd c) WRITE_MASK],
            c\<lparr>c_partial_send_buffer := drop k p', c_partial_send_offset := 0\<rparr>)"
    using assms l by (simp add: send_impl_def mem_read_def)
  moreover have "send_impl t2 q (-1, True) (c\<lparr>c_partial_send_buffer := x, c_partial_send_offset := 0\<rparr>) =
      Some ([], [EpollModify (c_fd c) WRITE_MASK],
            c\<lparr>c_partial_send_buffer := q', c_partial_send_offset := 0\<rparr>)" for x
    using assms l by (simp add: send_impl_def mem_read_def)
  moreover have "q' \<noteq> []" using l assms(7) by auto
  ultimately show ?thesis
    using l assms(7) by (simp add: onWritable_def Let_def updateActiveTime_def)
qed

definition notice :: "8 word list" where
  "notice = encode_AppMsg 0 ping_msg"

lemma notice_header:
  "length notice = 72" "\<exists>p'. get_pack_ptr 3 notice = Some p' \<and> h_pack_len (Header_of p') = length notice"
proof -
  show len: "length notice = 72"
    using length_encode [OF ping_wf] by (simp add: notice_def ping_msg_def)
  then obtain p' where p': "get_pack_ptr 3 notice = Some p'"
    by (simp add: get_pack_ptr_def mem_write_def)
  then have "p' = take 10 notice @ le_bytes 8 3 @ drop 18 notice"
    using len by (simp add: get_pack_ptr_def mem_write_def)
  then have "h_pack_len (Header_of p') = h_pack_len (Header_of notice)"
    using len by (simp add: Header_of_def field_def drop_take)
  moreover have "Header_of notice = m_header ping_msg"
    using Header_of_encode [OF ping_wf, of 0 "[]"] by (simp add: notice_def)
  ultimately show "\<exists>p'. get_pack_ptr 3 notice = Some p' \<and> h_pack_len (Header_of p') = length notice"
    using len p' by (simp add: ping_msg_def)
qed

theorem second_send_truncates_first_witness:
  "\<exists>p'. get_pack_ptr 3 notice = Some p' \<and>
    (\<exists>w1 a1 c1 w2 a2 c2 w3 a3 c3. send_impl 1 notice (int 20, False) idle_conn = Some (w1, a1, c1) \<and>
      send_impl 2 notice (-1, True) c1 = Some (w2, a2, c2) \<and>
      onWritable 3 (int (length notice), False) c2 = Some (w3, a3, c3) \<and>
      w1 @ w2 @ w3 = take 20 p' @ p' \<and> c_partial_send_buffer c3 = [] \<and>
      CallClose (c_conn_id idle_conn) \<notin> set (a1 @ a2 @ a3))"
proof -
  obtain p' where p': "get_pack_ptr 3 notice = Some p'" "h_pack_len (Header_of p') = length notice"
    using notice_header(2) by blast
  have "notice \<noteq> []" using notice_header(1) by auto
  then show ?thesis
    using second_send_truncates_first [of idle_conn notice p' notice p' 20 1 2 3] p' notice_header(1)
    unfolding idle_inv by simp
qed

fun drain :: "nat \<Rightarrow> int list \<Rightarrow> connection \<Rightarrow> (8 word list \<times> connection) option" where
  "drain now [] c = Some ([], c)"
| "drain now (k # ks) c =
     do { (w, acts, c1) \<leftarrow> onWritable now (k, True) c;
          (w', c2) \<leftarrow> drain now ks c1; Some (w @ w', c2) }"

lemma drain_pending:
  assumes "c_partial_send_buffer c \<noteq> []" "c_partial_send_offset c < length (c_partial_send_buffer c)"
    and "\<forall>k \<in> set ks. 0 \<le> k"
    and "sum_list ks = int (length (c_partial_send_buffer c) - c_partial_send_offset c)"
  shows "\<exists>c'. drain now ks c = Some (drop (c_partial_send_offset c) (c_partial_send_buffer c), c') \<and>
           c_partial_send_buffer c' = []"
  using assms
proof (induction ks arbitrary: c)
  case Nil then show ?case by simp
next
  case (Cons k ks)
  let ?b = "c_partial_send_buffer c" and ?o = "c_partial_send_offset c"
  have k: "0 \<le> k" "0 \<le> sum_list ks" "k + sum_list ks = int (length ?b - ?o)"
    using Cons.prems(3,4) by (auto intro: sum_list_nonneg)
  consider "k = 0" | "0 < k" "sum_list ks = 0" | "0 < k" "0 < sum_list ks" using k by linarith
  then show ?case
  proof cases
    case 1
    then show ?thesis using Cons by (simp add: onWritable_def)
  next
    case 2
    have "drain now ks c' = Some ([], c')" if "c_partial_send_buffer c' = []" for c' using that
      by (induction ks) (auto simp: onWritable_def)
    moreover have "take (nat k) (drop ?o ?b) = drop ?o ?b" using 2 k by simp
    ultimately show ?thesis
      using 2 k Cons.prems(1,2) by (auto simp: onWritable_def Let_def updateActiveTime_def)
  next
    case 3
    let ?c = "updateActiveTime now (c\<lparr>c_partial_send_offset := ?o + nat k\<rparr>)"
    have less: "?o + nat k < length ?b" "nat k \<le> length ?b - ?o" using 3 k by linarith+
    then have "onWritable now (k, True) c = Some (take (nat k) (drop ?o ?b), [], ?c)"
      using 3 k Cons.prems(1) by (simp add: onWritable_def Let_def updateActiveTime_def)
    moreover have "\<exists>c'. drain now ks ?c = Some (drop (?o + nat k) ?b, c') \<and> c_partial_send_buffer c' = []"
      using Cons.IH [of ?c] Cons.prems(1,3) less k 3 by (simp add: updateActiveTime_def)
    moreover have "take (nat k) (drop ?o ?b) @ drop (?o + nat k) ?b = drop ?o ?b"
      using append_take_drop_id [of "nat k" "drop ?o ?b"] by (simp add: add.commute)
    ultimately show ?thesis by auto
  qed
qed

text \<open>
  with a single packet outstanding, every way the kernel takes it in pieces puts exactly the packet
  on the wire.
\<close>

theorem single_packet_sent_whole:
  assumes "get_pack_ptr (c_conn_id c) p = Some p'" "h_pack_len (Header_of p') = length p"
    and "0 \<le> k" "\<forall>i \<in> set ks. 0 \<le> i" "k + sum_list ks = int (length p)" "k < int (length p)"
  shows "\<exists>w a c1 w' c2. send_impl now p (k, True) c = Some (w, a, c1) \<and>
    drain now ks c1 = Some (w', c2) \<and> w @ w' = p' \<and> c_partial_send_buffer c2 = [] \<and>
    a = [EpollModify (c_fd c) WRITE_MASK]"
proof -
  have l: "length p' = length p" using assms(1) by (auto simp: get_pack_ptr_def dest: mem_write_length)
  let ?c = "c\<lparr>c_partial_send_buffer := drop (nat k) p', c_partial_send_offset := 0\<rparr>"
  have "send_impl now p (k, True) c = Some (take (nat k) p', [EpollModify (c_fd c) WRITE_MASK], ?c)"
    using assms l by (cases "k = 0") (auto simp: send_impl_def mem_read_def)
  moreover have "\<exists>c2. drain now ks ?c = Some (drop (nat k) p', c2) \<and> c_partial_send_buffer c2 = []"
    using drain_pending [of ?c ks now] assms l by (auto simp: nat_less_iff)
  ultimately show ?thesis by auto
qed

theorem single_packet_sent_whole_witness:
  "\<exists>p' w a c1 w' c2. get_pack_ptr 3 notice = Some p' \<and>
    send_impl 1 notice (30, True) idle_conn = Some (w, a, c1) \<and>
    drain 1 [0, 40, 2] c1 = Some (w', c2) \<and> w @ w' = p' \<and> c_partial_send_buffer c2 = [] \<and>
    a = [EpollModify (c_fd idle_conn) WRITE_MASK]"
proof -
  obtain p' where p': "get_pack_ptr 3 notice = Some p'" "h_pack_len (Header_of p') = length notice"
    using notice_header(2) by blast
  then show ?thesis
    using single_packet_sent_whole [of idle_conn notice p' 30 "[0, 40, 2]" 1] notice_header(1)
    unfolding idle_inv by simp
qed

end
