(* ===== verification/EventLoop.thy ===== *)
theory EventLoop
  imports Connection
begin

text \<open>
  \<open>EventLoopWrapper\<close> (server/core/network/EventLoopWrapper.h, EventLoopWrapper.cpp): the poller that
  every server thread runs. The kernel's interest list is part of the state: a descriptor enters it by
  \<open>EPOLL_CTL_ADD\<close>, leaves it by \<open>EPOLL_CTL_DEL\<close> and also when it is closed, and \<open>epoll_ctl\<close> fails on
  a descriptor that is already (\<open>ADD\<close>) or no longer (\<open>MOD\<close>, \<open>DEL\<close>) in it.
\<close>

record 'cb event_loop =
  el_kernel :: "int set"
  el_monitored :: "int \<rightharpoonup> epoll_flag set"
  el_callbacks :: "int \<rightharpoonup> 'cb"
  el_ready :: "(int \<times> epoll_flag set) list"
  el_capacity :: nat

definition EventLoop_ctor :: "'cb event_loop" where
  "EventLoop_ctor = \<lparr>el_kernel = {}, el_monitored = Map.empty, el_callbacks = Map.empty,
                     el_ready = [], el_capacity = 64\<rparr>"

definition loop_add :: "int \<Rightarrow> epoll_flag set \<Rightarrow> 'cb \<Rightarrow> 'cb event_loop \<Rightarrow> bool \<times> 'cb event_loop" where
  "loop_add fd events callback l =
     (if fd \<in> el_kernel l then (False, l)
      else (True, l\<lparr>el_kernel := insert fd (el_kernel l),
                    el_monitored := (el_monitored l)(fd \<mapsto> events),
                    el_callbacks := (el_callbacks l)(fd \<mapsto> callback)\<rparr>))"

definition loop_modify :: "int \<Rightarrow> epoll_flag set \<Rightarrow> 'cb event_loop \<Rightarrow> bool \<times> 'cb event_loop" where
  "loop_modify fd events l =
     (if el_monitored l fd = None then (False, l)
      else if fd \<notin> el_kernel l then (False, l)
      else (True, l\<lparr>el_monitored := (el_monitored l)(fd \<mapsto> events)\<rparr>))"

definition loop_updateCallback :: "int \<Rightarrow> 'cb \<Rightarrow> 'cb event_loop \<Rightarrow> bool \<times> 'cb event_loop" where
  "loop_updateCallback fd callback l =
     (if el_callbacks l fd = None then (False, l)
      else (True, l\<lparr>el_callbacks := (el_callbacks l)(fd \<mapsto> callback)\<rparr>))"

definition loop_remove :: "int \<Rightarrow> 'cb event_loop \<Rightarrow> bool \<times> 'cb event_loop" where
  "loop_remove fd l =
     (if fd \<notin> el_kernel l then (False, l)
      else (True, l\<lparr>el_kernel := el_kernel l - {fd},
                    el_monitored := (el_monitored l)(fd := None),
                    el_callbacks := (el_callbacks l)(fd := None)\<rparr>))"

text \<open>The kernel's part of \<open>close(fd)\<close>.\<close>

definition kernel_close :: "int \<Rightarrow> 'cb event_loop \<Rightarrow> 'cb event_loop" where
  "kernel_close fd l = l\<lparr>el_kernel := el_kernel l - {fd}\<rparr>"

text \<open>
  \<open>wait\<close>: the ready list the kernel returned, or \<^term>\<open>None\<close> with \<open>errno\<close> telling an interruption
  from an error. A full buffer is doubled for the next call.
\<close>

definition loop_wait :: "(int \<times> epoll_flag set) list option \<Rightarrow> bool \<Rightarrow> 'cb event_loop \<Rightarrow>
    int \<times> 'cb event_loop" where
  "loop_wait polled interrupted l =
     (case polled of
        None \<Rightarrow> (if interrupted then 0 else -1, l)
      | Some evs \<Rightarrow>
          (int (length evs),
           l\<lparr>el_ready := evs,
             el_capacity := (if length evs = el_capacity l then el_capacity l * 2 else el_capacity l)\<rparr>))"

text \<open>The callbacks run one after the other on the world they share with the loop.\<close>

definition processEvents ::
  "('cb \<Rightarrow> int \<Rightarrow> epoll_flag set \<Rightarrow> 'w \<times> 'cb event_loop \<Rightarrow> 'w \<times> 'cb event_loop) \<Rightarrow>
   'w \<times> 'cb event_loop \<Rightarrow> 'w \<times> 'cb event_loop" where
  "processEvents call wl =
     fold (\<lambda>(fd, events) (w, l).
             case el_callbacks l fd of None \<Rightarrow> (w, l) | Some cb \<Rightarrow> call cb fd events (w, l))
          (el_ready (snd wl)) wl"

text \<open>The tables agree with the kernel as long as descriptors are removed before they are closed.\<close>

definition loop_inv :: "'cb event_loop \<Rightarrow> bool" where
  "loop_inv l \<longleftrightarrow> dom (el_monitored l) = el_kernel l \<and> dom (el_callbacks l) = el_kernel l"

lemma loop_inv_steps:
  "loop_inv l \<Longrightarrow> loop_inv (snd (loop_add fd ev cb l))"
  "loop_inv l \<Longrightarrow> loop_inv (snd (loop_modify fd ev l))"
  "loop_inv l \<Longrightarrow> loop_inv (snd (loop_updateCallback fd cb l))"
  "loop_inv l \<Longrightarrow> loop_inv (snd (loop_remove fd l))"
  "loop_inv l \<Longrightarrow> loop_inv (kernel_close fd (snd (loop_remove fd l)))"
  by (auto simp: loop_inv_def loop_add_def loop_modify_def loop_updateCallback_def loop_remove_def
      kernel_close_def split: if_splits)

end
