(* ===== verification/TcpServer.thy ===== *)
theory TcpServer
  imports EventLoop "HOL-Library.AList"
begin

text \<open>
  \<open>TcpServer\<close> (server/core/network/TcpServer.h, TcpServer.cpp) and \<open>TcpListener\<close>, its adapter: the
  tables from connection ids to connections and from descriptors to ids, the accept loop, event
  dispatch, the heartbeat sweep and sending. Calls to the handlers, the poller and \<open>close\<close> are
  events in the order they happen. \<open>conn_mutex_\<close> is not recursive: a method that takes it again on
  the same thread never returns, which is the fault \<open>Deadlock\<close>. \<open>fd_to_conn_\<close> is a map; \<open>conn_map_\<close>
  is an association list because the heartbeat sweep iterates over it.
\<close>

section \<open>State\<close>

datatype srv_event =
    SConnected nat
  | SRecv nat app_msg
  | SClosed nat
  | EpollAdd int
  | EpollMod int "epoll_flag set"
  | EpollRemove int
  | FdClose int

record tcp_server =
  ts_running :: bool
  ts_conn_map :: "(nat \<times> connection) list"
  ts_fd_to_conn :: "int \<rightharpoonup> nat"
  ts_next_conn_id :: nat

definition TcpServer_ctor :: tcp_server where
  "TcpServer_ctor =
     \<lparr>ts_running = True, ts_conn_map = [], ts_fd_to_conn = Map.empty, ts_next_conn_id = 0\<rparr>"

definition ring_default_size :: nat where "ring_default_size = 2 ^ 20"

definition HEARTBEAT_TIMEOUT_SECONDS :: nat where "HEARTBEAT_TIMEOUT_SECONDS = 30"

section \<open>Removal\<close>

definition removeConnection :: "nat \<Rightarrow> tcp_server \<Rightarrow> srv_event list \<times> tcp_server" where
  "removeConnection cid s =
     (case map_of (ts_conn_map s) cid of
        None \<Rightarrow> ([SClosed cid], s)
      | Some c \<Rightarrow>
          let fd = c_fd c in
          ((if fd \<noteq> -1 then [FdClose fd] else []) @ [EpollRemove fd, SClosed cid],
           s\<lparr>ts_fd_to_conn := (ts_fd_to_conn s)(fd := None),
             ts_conn_map := AList.delete cid (ts_conn_map s)\<rparr>))"

definition closeConn :: "nat \<Rightarrow> tcp_server \<Rightarrow> srv_event list \<times> tcp_server" where
  "closeConn cid s = removeConnection cid s"

section \<open>Accepting\<close>

datatype accept_result = Accepted int bool | AcceptAgain | AcceptIntr | AcceptErr

text \<open>
  \<open>Accepted fd ok\<close> carries the new descriptor and whether the poller took it; \<open>region cid\<close> is the
  shared-memory region mapped for the connection's buffer, \<^term>\<open>None\<close> when mapping fails (the
  constructor throws). An exhausted list answers \<open>EAGAIN\<close>. When the poller refuses it, the descriptor is
  closed here and a second time by the destructor of the connection, which still holds it. The counter
  of the ids has 64 bits.
\<close>

fun handleNewConnection :: "nat \<Rightarrow> (nat \<Rightarrow> 8 word ring option) \<Rightarrow> accept_result list \<Rightarrow>
    tcp_server \<Rightarrow> fault + (srv_event list \<times> tcp_server)" where
  "handleNewConnection now region [] s = Inr ([], s)"
| "handleNewConnection now region (AcceptAgain # rs) s = Inr ([], s)"
| "handleNewConnection now region (AcceptErr # rs) s = Inr ([], s)"
| "handleNewConnection now region (AcceptIntr # rs) s =
     (if ts_running s then handleNewConnection now region rs s else Inr ([], s))"
| "handleNewConnection now region (Accepted fd ok # rs) s =
     (if \<not> ts_running s then Inr ([], s)
      else
        let cid = ts_next_conn_id s; s1 = s\<lparr>ts_next_conn_id := (cid + 1) mod 2 ^ 64\<rparr> in
        case ShmRingBuffer_ctor 1 ring_default_size (region cid) of
          None \<Rightarrow> Inl ShmFailure
        | Some buf \<Rightarrow>
            let (evs, s2) =
              (if ok then
                 ([EpollAdd fd, SConnected cid],
                  s1\<lparr>ts_conn_map := AList.update cid (Connection_ctor fd cid now buf) (ts_conn_map s1),
                     ts_fd_to_conn := (ts_fd_to_conn s1)(fd \<mapsto> cid)\<rparr>)
               else ([FdClose fd, FdClose fd], s1)) in
            case handleNewConnection now region rs s2 of
              Inl f \<Rightarrow> Inl f
            | Inr (evs', s3) \<Rightarrow> Inr (evs @ evs', s3))"

section \<open>Events on a connection\<close>

text \<open>The actions of a connection's method, as the handlers installed by the server carry them out.\<close>

fun run_actions :: "conn_action list \<Rightarrow> tcp_server \<Rightarrow> srv_event list \<times> tcp_server" where
  "run_actions [] s = ([], s)"
| "run_actions (CallRecv cid m # acts) s =
     (let (evs, s') = run_actions acts s in (SRecv cid m # evs, s'))"
| "run_actions (EpollModify fd evm # acts) s =
     (let (evs, s') = run_actions acts s in (EpollMod fd evm # evs, s'))"
| "run_actions (CallClose cid # acts) s =
     (let (evs, s1) = removeConnection cid s; (evs', s2) = run_actions acts s1 in (evs @ evs', s2))"

definition store_conn :: "connection \<Rightarrow> tcp_server \<Rightarrow> tcp_server" where
  "store_conn c s =
     (if map_of (ts_conn_map s) (c_conn_id c) \<noteq> None
      then s\<lparr>ts_conn_map := AList.update (c_conn_id c) c (ts_conn_map s)\<rparr> else s)"

text \<open>
  A method of the connection \<open>c\<close> (held by the caller's \<open>shared_ptr\<close>) has produced the actions and the
  connection's new state; when a close handler ran, the object is closed as well.
\<close>

definition after_method :: "conn_action list \<Rightarrow> connection \<Rightarrow> tcp_server \<Rightarrow>
    srv_event list \<times> connection \<times> tcp_server" where
  "after_method acts c s =
     (let (evs, s') = run_actions acts (store_conn c s) in
      (evs, (if list_ex is_close acts then conn_close c else c), s'))"

definition handleClientEvent :: "nat \<Rightarrow> int \<Rightarrow> epoll_flag set \<Rightarrow> read_result list \<Rightarrow> write_result \<Rightarrow>
    tcp_server \<Rightarrow> fault + (srv_event list \<times> tcp_server)" where
  "handleClientEvent now fd events reads wres s =
     (case ts_fd_to_conn s fd of
        None \<Rightarrow> Inr ([EpollRemove fd, FdClose fd], s)
      | Some cid \<Rightarrow>
        case map_of (ts_conn_map s) cid of
          None \<Rightarrow> Inr ([EpollRemove fd, FdClose fd],
                       s\<lparr>ts_fd_to_conn := (ts_fd_to_conn s)(fd := None)\<rparr>)
        | Some c \<Rightarrow>
          if EV_RDHUP \<in> events then Inr (removeConnection cid s)
          else
            case (if EV_READ \<in> events then
                    map_option (\<lambda>(acts, c1). after_method acts c1 s) (onReadable now reads c)
                  else Some ([], c, s)) of
              None \<Rightarrow> Inl Undefined
            | Some (evs1, c1, s1) \<Rightarrow>
              if EV_WRITE \<in> events then
                case onWritable now (if c_fd c1 = -1 then (-1, False) else wres) c1 of
                  None \<Rightarrow> Inl Undefined
                | Some (out, acts, c2) \<Rightarrow>
                    let (evs2, c3, s2) = after_method acts c2 s1 in Inr (evs1 @ evs2, s2)
              else Inr (evs1, s1))"

section \<open>Heartbeats, sending, stopping\<close>

text \<open>Times are in milliseconds.\<close>

definition idle_conns :: "nat \<Rightarrow> tcp_server \<Rightarrow> nat list" where
  "idle_conns now s =
     map fst (filter (\<lambda>(cid, c). (now - c_last_active c) div 1000 > HEARTBEAT_TIMEOUT_SECONDS)
                (ts_conn_map s))"

fun remove_all :: "nat list \<Rightarrow> tcp_server \<Rightarrow> srv_event list \<times> tcp_server" where
  "remove_all [] s = ([], s)"
| "remove_all (cid # cids) s =
     (let (evs, s1) = removeConnection cid s; (evs', s2) = remove_all cids s1 in (evs @ evs', s2))"

definition checkHeartbeats :: "nat \<Rightarrow> tcp_server \<Rightarrow> srv_event list \<times> tcp_server" where
  "checkHeartbeats now s = remove_all (idle_conns now s) s"

text \<open>
  \<open>send\<close> holds \<open>conn_mutex_\<close> while the connection sends; a close handler called there takes the same
  mutex in \<open>removeConnection\<close>. The result is the return code, the bytes the kernel took and the events.
\<close>

definition TcpServer_send :: "nat \<Rightarrow> int \<Rightarrow> 8 word list \<Rightarrow> write_result \<Rightarrow> tcp_server \<Rightarrow>
    fault + (int \<times> 8 word list \<times> srv_event list \<times> tcp_server)" where
  "TcpServer_send now cid pack res s =
     (if cid < 0 then Inr (-1, [], [], s)
      else case map_of (ts_conn_map s) (nat cid) of
        None \<Rightarrow> Inr (-1, [], [], s)
      | Some c \<Rightarrow>
        case send_impl now pack res c of
          None \<Rightarrow> Inl Undefined
        | Some (out, acts, c1) \<Rightarrow>
            if list_ex is_close acts then Inl Deadlock
            else let (evs, c2, s1) = after_method acts c1 s in Inr (0, out, evs, s1))"

text \<open>The listener narrows the connection id to 32 bits.\<close>

definition TcpListener_send :: "nat \<Rightarrow> nat \<Rightarrow> 8 word list \<Rightarrow> write_result \<Rightarrow> tcp_server \<Rightarrow>
    fault + (int \<times> 8 word list \<times> srv_event list \<times> tcp_server)" where
  "TcpListener_send now cid pack res s = TcpServer_send now (sint (of_nat cid :: 32 word)) pack res s"

definition TcpServer_stop :: "tcp_server \<Rightarrow> srv_event list \<times> tcp_server" where
  "TcpServer_stop s =
     (if \<not> ts_running s then ([], s)
      else (concat (map (\<lambda>(cid, c). if c_fd c \<noteq> -1 then [FdClose (c_fd c)] else []) (ts_conn_map s)),
            s\<lparr>ts_running := False, ts_conn_map := [], ts_fd_to_conn := Map.empty\<rparr>))"

section \<open>The tables agree\<close>

definition ts_inv :: "tcp_server \<Rightarrow> bool" where
  "ts_inv s \<longleftrightarrow>
     distinct (map fst (ts_conn_map s)) \<and>
     (\<forall>(cid, c) \<in> set (ts_conn_map s).
        c_conn_id c = cid \<and> cid < ts_next_conn_id s \<and> c_fd c \<noteq> -1 \<and>
        ts_fd_to_conn s (c_fd c) = Some cid \<and> rb_inv (c_recv_buffer c)) \<and>
     (\<forall>fd cid. ts_fd_to_conn s fd = Some cid \<longrightarrow>
        (\<exists>c. map_of (ts_conn_map s) cid = Some c \<and> c_fd c = fd))"

lemma ts_inv_lookup:
  assumes "ts_inv s" "map_of (ts_conn_map s) cid = Some c"
  shows "c_conn_id c = cid" "cid < ts_next_conn_id s" "c_fd c \<noteq> -1"
    "ts_fd_to_conn s (c_fd c) = Some cid" "rb_inv (c_recv_buffer c)"
  using assms map_of_SomeD [OF assms(2)] by (auto simp: ts_inv_def)

text \<open>The invariant over lookups, where association lists behave as maps.\<close>

lemma ts_inv_alt:
  "ts_inv s \<longleftrightarrow> distinct (map fst (ts_conn_map s)) \<and>
     (\<forall>cid c. map_of (ts_conn_map s) cid = Some c \<longrightarrow>
        c_conn_id c = cid \<and> cid < ts_next_conn_id s \<and> c_fd c \<noteq> -1 \<and>
        ts_fd_to_conn s (c_fd c) = Some cid \<and> rb_inv (c_recv_buffer c)) \<and>
     (\<forall>fd cid. ts_fd_to_conn s fd = Some cid \<longrightarrow>
        (\<exists>c. map_of (ts_conn_map s) cid = Some c \<and> c_fd c = fd))"
  by (auto simp: ts_inv_def dest: map_of_SomeD)

lemma removeConnection_inv:
  assumes "ts_inv s"
  shows "ts_inv (snd (removeConnection cid s))"
    and "ts_next_conn_id (snd (removeConnection cid s)) = ts_next_conn_id s"
    and "ts_running (snd (removeConnection cid s)) = ts_running s"
proof -
  note inv = assms [unfolded ts_inv_alt]
  show "ts_inv (snd (removeConnection cid s))"
  proof (cases "map_of (ts_conn_map s) cid")
    case None then show ?thesis using assms by (simp add: removeConnection_def)
  next
    case (Some c)
    have other: "c_fd c' \<noteq> c_fd c" if "map_of (ts_conn_map s) d = Some c'" "d \<noteq> cid" for d c'
      using ts_inv_lookup(4) [OF assms that(1)] ts_inv_lookup(4) [OF assms Some] that(2) by auto
    have own: "fd = c_fd c" if "ts_fd_to_conn s fd = Some cid" for fd
      using inv that Some by (metis option.inject)
    show ?thesis
      unfolding ts_inv_alt using inv Some other own
      by (auto simp: removeConnection_def Let_def delete_conv' distinct_delete restrict_map_def
          split: if_splits)
  qed
qed (simp_all add: removeConnection_def Let_def split: option.splits)

lemma run_actions_snd:
  "snd (run_actions (a # acts) s) =
     snd (run_actions acts (case a of CallClose cid \<Rightarrow> snd (removeConnection cid s) | _ \<Rightarrow> s))"
  by (cases a) (auto split: prod.splits)

lemma run_actions_inv:
  "ts_inv s \<Longrightarrow> ts_inv (snd (run_actions acts s)) \<and>
     ts_next_conn_id (snd (run_actions acts s)) = ts_next_conn_id s"
proof (induction acts arbitrary: s)
  case (Cons a acts)
  then show ?case
    by (cases a) (simp_all add: run_actions_snd removeConnection_inv del: run_actions.simps)
qed simp

text \<open>An object of the connection, still in the table or already removed from it.\<close>

definition conn_obj :: "tcp_server \<Rightarrow> connection \<Rightarrow> bool" where
  "conn_obj s c \<longleftrightarrow> rb_inv (c_recv_buffer c) \<and>
     (map_of (ts_conn_map s) (c_conn_id c) = None \<or>
      map_option c_fd (map_of (ts_conn_map s) (c_conn_id c)) = Some (c_fd c))"

lemma store_conn_inv:
  assumes "ts_inv s" "conn_obj s c"
  shows "ts_inv (store_conn c s)" "ts_next_conn_id (store_conn c s) = ts_next_conn_id s"
proof -
  show "ts_inv (store_conn c s)"
  proof (cases "map_of (ts_conn_map s) (c_conn_id c)")
    case None then show ?thesis using assms by (simp add: store_conn_def)
  next
    case (Some c')
    then have fd: "c_fd c' = c_fd c" using assms(2) by (simp add: conn_obj_def)
    note own = ts_inv_lookup [OF assms(1) Some]
    note inv = assms(1) [unfolded ts_inv_alt]
    let ?s = "store_conn c s"
    have s: "ts_conn_map ?s = AList.update (c_conn_id c) c (ts_conn_map s)"
        "ts_fd_to_conn ?s = ts_fd_to_conn s" "ts_next_conn_id ?s = ts_next_conn_id s"
      using Some by (simp_all add: store_conn_def)
    have "distinct (map fst (ts_conn_map ?s))" 
      unfolding s by (rule distinct_update) (rule conjunct1 [OF inv])
    moreover have "c_conn_id d = cid \<and> cid < ts_next_conn_id ?s \<and> c_fd d \<noteq> -1 \<and>
        ts_fd_to_conn ?s (c_fd d) = Some cid \<and> rb_inv (c_recv_buffer d)"
      if d: "map_of (ts_conn_map ?s) cid = Some d" for cid d
    proof (cases "cid = c_conn_id c")
      case True
      then have "d = c" using d unfolding s update_conv' by simp
      then show ?thesis using True own fd assms(2) s by (simp add: conn_obj_def)
    next
      case False
      then have "map_of (ts_conn_map s) cid = Some d" using d unfolding s update_conv' by simp
      then show ?thesis unfolding s(2,3) using inv by blast
    qed
    moreover have "\<exists>d. map_of (ts_conn_map ?s) cid = Some d \<and> c_fd d = f"
      if f: "ts_fd_to_conn ?s f = Some cid" for f cid
    proof -
      have "ts_fd_to_conn s f = Some cid" using f unfolding s(2) .
      then obtain d where d: "map_of (ts_conn_map s) cid = Some d" "c_fd d = f"
        using inv by blast
      show ?thesis
      proof (cases "cid = c_conn_id c")
        case True
        then have "d = c'" using d Some by simp
        then show ?thesis using True d fd unfolding s update_conv' by simp
      qed (use d in \<open>simp add: s update_conv'\<close>)
    qed
    ultimately show ?thesis unfolding ts_inv_alt by blast
  qed
qed (simp add: store_conn_def)

lemma absent_stays:
  "map_of (ts_conn_map s) cid = None \<Longrightarrow> map_of (ts_conn_map (snd (run_actions acts s))) cid = None"
proof (induction acts arbitrary: s)
  case (Cons a acts)
  have "map_of (ts_conn_map (snd (removeConnection d s))) cid = None" for d
    using Cons.prems by (auto simp: removeConnection_def Let_def delete_conv' split: option.splits)
  then show ?case using Cons
    by (cases a) (simp_all add: run_actions_snd del: run_actions.simps)
qed simp

lemma close_removes:
  "CallClose cid \<in> set acts \<Longrightarrow> map_of (ts_conn_map (snd (run_actions acts s))) cid = None"
proof (induction acts arbitrary: s)
  case (Cons a acts)
  show ?case
  proof (cases "a = CallClose cid")
    case True
    have "map_of (ts_conn_map (snd (removeConnection cid s))) cid = None"
      by (auto simp: removeConnection_def Let_def delete_conv' split: option.splits)
    then show ?thesis using absent_stays True by (simp add: run_actions_snd del: run_actions.simps)
  next
    case False
    then show ?thesis using Cons
      by (cases a) (simp_all add: run_actions_snd del: run_actions.simps)
  qed
qed simp

text \<open>The connection's methods are total and act only on the connection itself.\<close>

lemma processRecvBuffer_total:
  assumes "rb_inv (c_recv_buffer c)"
  obtains acts r where "processRecvBuffer c = Some (acts, c\<lparr>c_recv_buffer := r\<rparr>)" "rb_inv r"
    "\<forall>a \<in> set acts. a = CallClose (c_conn_id c) \<or> (\<exists>m. a = CallRecv (c_conn_id c) m)"
proof -
  obtain ms rest bad where d: "decode (c_conn_id c) (contents (c_recv_buffer c)) = (ms, rest, bad)"
    by (cases "decode (c_conn_id c) (contents (c_recv_buffer c))") auto
  from processRecvBuffer_decodes [OF assms d] obtain r where r: "processRecvBuffer c =
      Some (map (CallRecv (c_conn_id c)) ms @ (if bad then [CallClose (c_conn_id c)] else []),
            c\<lparr>c_recv_buffer := r\<rparr>)" "rb_inv r" .
  then show thesis by (rule that) auto
qed

lemma read_loop_total:
  assumes "rb_inv (c_recv_buffer c)"
  shows "\<exists>go acts c'. read_loop now reads c = Some (go, acts, c') \<and> rb_inv (c_recv_buffer c') \<and>
    c_conn_id c' = c_conn_id c \<and> c_fd c' = c_fd c \<and>
    c_partial_send_buffer c' = c_partial_send_buffer c \<and>
    c_partial_send_offset c' = c_partial_send_offset c \<and>
    set acts \<subseteq> {CallClose (c_conn_id c)}"
  using assms
proof (induction now reads c rule: read_loop.induct)
  case (3 now x xs rs c)
  obtain ok r where r: "PushBytes (c_recv_buffer c) (x # xs) (length (x # xs)) = Some (ok, r)" "rb_inv r"
    using PushBytes_spec [OF 3(2) refl, of "x # xs"] by auto
  show ?case
  proof (cases ok)
    case True
    then show ?thesis using 3(1) [OF r(1) refl] r by (auto simp: updateActiveTime_def)
  qed (use r in auto)
qed auto

lemma onReadable_total:
  assumes "rb_inv (c_recv_buffer c)"
  obtains acts c' where "onReadable now reads c = Some (acts, c')" "rb_inv (c_recv_buffer c')"
    "c_conn_id c' = c_conn_id c" "c_fd c' = c_fd c"
    "c_partial_send_buffer c' = c_partial_send_buffer c"
    "c_partial_send_offset c' = c_partial_send_offset c"
    "\<forall>a \<in> set acts. a = CallClose (c_conn_id c) \<or> (\<exists>m. a = CallRecv (c_conn_id c) m)"
proof -
  obtain go as1 c1 where r: "read_loop now reads c = Some (go, as1, c1)" "rb_inv (c_recv_buffer c1)"
      "c_conn_id c1 = c_conn_id c" "c_fd c1 = c_fd c"
      "c_partial_send_buffer c1 = c_partial_send_buffer c"
      "c_partial_send_offset c1 = c_partial_send_offset c" "set as1 \<subseteq> {CallClose (c_conn_id c)}"
    using read_loop_total [OF assms, of now reads] by blast
  show thesis
  proof (cases go)
    case True
    obtain as2 b where "processRecvBuffer c1 = Some (as2, c1\<lparr>c_recv_buffer := b\<rparr>)" "rb_inv b"
        "\<forall>a \<in> set as2. a = CallClose (c_conn_id c1) \<or> (\<exists>m. a = CallRecv (c_conn_id c1) m)"
      using processRecvBuffer_total [OF r(2)] by blast
    then show thesis using r True by (intro that [of "as1 @ as2" "c1\<lparr>c_recv_buffer := b\<rparr>"])
        (auto simp: onReadable_def)
  next
    case False
    then show thesis using r by (intro that [of as1 c1]) (auto simp: onReadable_def)
  qed
qed

lemma onWritable_total:
  assumes "fst res \<le> int (length (c_partial_send_buffer c) - c_partial_send_offset c)"
  shows "\<exists>out acts c'. onWritable now res c = Some (out, acts, c') \<and>
    c_recv_buffer c' = c_recv_buffer c \<and> c_conn_id c' = c_conn_id c \<and> c_fd c' = c_fd c \<and>
    (\<forall>a \<in> set acts. a = CallClose (c_conn_id c) \<or> (\<exists>m. a = EpollModify (c_fd c) m))"
  using assms by (cases res) (auto simp: onWritable_def Let_def updateActiveTime_def)

section \<open>Reachable states\<close>

datatype srv_op =
    OpAccept nat "nat \<Rightarrow> 8 word ring option" "accept_result list"
  | OpEvent nat int "epoll_flag set" "read_result list" write_result
  | OpHeartbeat nat
  | OpSend nat nat "8 word list" write_result
  | OpClose nat
  | OpStop

fun srv_step :: "srv_op \<Rightarrow> tcp_server \<Rightarrow> fault + (srv_event list \<times> tcp_server)" where
  "srv_step (OpAccept now region rs) s = handleNewConnection now region rs s"
| "srv_step (OpEvent now fd events reads wres) s = handleClientEvent now fd events reads wres s"
| "srv_step (OpHeartbeat now) s = Inr (checkHeartbeats now s)"
| "srv_step (OpSend now cid pack res) s =
     (case TcpListener_send now cid pack res s of
        Inl f \<Rightarrow> Inl f | Inr (rc, out, evs, s') \<Rightarrow> Inr (evs, s'))"
| "srv_step (OpClose cid) s = Inr (closeConn cid s)"
| "srv_step OpStop s = Inr (TcpServer_stop s)"

text \<open>
  What the environment guarantees: \<open>accept\<close> returns descriptors that are not open, regions are mapped
  at their size, the kernel takes no more bytes than offered, packets to send hold the length their
  header announces, and a send does not fail hard (see \<open>hard_send_error_deadlocks\<close>). The server has
  announced fewer than \<open>2 ^ 63\<close> connections.
\<close>

definition accepted_fds :: "accept_result list \<Rightarrow> int list" where
  "accepted_fds rs = concat (map (\<lambda>r. case r of Accepted fd ok \<Rightarrow> [fd] | _ \<Rightarrow> []) rs)"

definition pack_ok :: "8 word list \<Rightarrow> bool" where
  "pack_ok pack \<longleftrightarrow> sizeof_Header \<le> length pack \<and> h_pack_len (Header_of pack) \<le> length pack"

fun op_ok :: "srv_op \<Rightarrow> tcp_server \<Rightarrow> bool" where
  "op_ok (OpAccept now region rs) s \<longleftrightarrow>
     (\<forall>cid. \<exists>m. region cid = Some m \<and> length (rb_buffer m) = ring_default_size) \<and>
     distinct (accepted_fds rs) \<and> ts_next_conn_id s + length (accepted_fds rs) < 2 ^ 63 \<and>
     (\<forall>fd \<in> set (accepted_fds rs). 0 \<le> fd \<and> ts_fd_to_conn s fd = None)"
| "op_ok (OpEvent now fd events reads wres) s \<longleftrightarrow>
     (\<forall>cid c. ts_fd_to_conn s fd = Some cid \<longrightarrow> map_of (ts_conn_map s) cid = Some c \<longrightarrow>
        fst wres \<le> int (length (c_partial_send_buffer c) - c_partial_send_offset c))"
| "op_ok (OpSend now cid pack res) s \<longleftrightarrow>
     pack_ok pack \<and> fst res \<le> int (h_pack_len (Header_of pack)) \<and> (fst res \<le> 0 \<longrightarrow> snd res)"
| "op_ok _ s \<longleftrightarrow> True"

inductive reachable :: "tcp_server \<Rightarrow> srv_event list \<Rightarrow> bool" where
  start: "reachable TcpServer_ctor []"
| step: "reachable s tr \<Longrightarrow> op_ok p s \<Longrightarrow> srv_step p s = Inr (evs, s') \<Longrightarrow> reachable s' (tr @ evs)"

inductive_cases reachable_stepE: "reachable s tr"

lemma fresh_ring_inv:
  assumes "region cid = Some m" "length (rb_buffer m) = ring_default_size"
  obtains b where "ShmRingBuffer_ctor 1 ring_default_size (region cid) = Some b" "rb_inv b"
proof -
  have "0 < ring_default_size" "ring_default_size < 2 ^ 63" by (simp_all add: ring_default_size_def)
  then show thesis using ctor_spec [of ring_default_size m 1] assms that by auto
qed

lemma register_inv:
  assumes "ts_inv s" "rb_inv b" "0 \<le> fd" "ts_fd_to_conn s fd = None"
  shows "ts_inv (s\<lparr>ts_next_conn_id := ts_next_conn_id s + 1,
      ts_conn_map := AList.update (ts_next_conn_id s)
        (Connection_ctor fd (ts_next_conn_id s) now b) (ts_conn_map s),
      ts_fd_to_conn := (ts_fd_to_conn s)(fd \<mapsto> ts_next_conn_id s)\<rparr>)" (is "ts_inv ?s")
proof -
  let ?n = "ts_next_conn_id s" and ?c = "Connection_ctor fd (ts_next_conn_id s) now b"
  note inv = assms(1) [unfolded ts_inv_alt]
  have fresh: "map_of (ts_conn_map s) ?n = None"
    using ts_inv_lookup(2) [OF assms(1), of ?n] by (cases "map_of (ts_conn_map s) ?n") auto
  have "distinct (map fst (ts_conn_map ?s))"
    by simp (rule distinct_update, rule conjunct1 [OF inv])
  moreover have "c_conn_id d = cid \<and> cid < ts_next_conn_id ?s \<and> c_fd d \<noteq> -1 \<and>
        ts_fd_to_conn ?s (c_fd d) = Some cid \<and> rb_inv (c_recv_buffer d)"
    if d: "map_of (ts_conn_map ?s) cid = Some d" for cid d
  proof (cases "cid = ?n")
    case True
    then have "d = ?c" using d by (simp add: update_conv')
    then show ?thesis using True assms(2,3) by (simp add: Connection_ctor_def)
  next
    case False
    then have "map_of (ts_conn_map s) cid = Some d" using d by (simp add: update_conv')
    note l = ts_inv_lookup [OF assms(1) this]
    then have "c_fd d \<noteq> fd" using assms(4) by auto
    then show ?thesis using l by simp
  qed
  moreover have "\<exists>d. map_of (ts_conn_map ?s) cid = Some d \<and> c_fd d = f"
    if f: "ts_fd_to_conn ?s f = Some cid" for f cid
  proof (cases "f = fd")
    case True
    then show ?thesis using f by (simp add: update_conv' Connection_ctor_def)
  next
    case False
    then have "ts_fd_to_conn s f = Some cid" using f by simp
    then obtain d where d: "map_of (ts_conn_map s) cid = Some d" "c_fd d = f" using inv by blast
    then have "cid \<noteq> ?n" using fresh by auto
    then show ?thesis using d by (simp add: update_conv')
  qed
  ultimately show ?thesis unfolding ts_inv_alt by blast
qed

lemma accept_inv:
  assumes "ts_inv s" "op_ok (OpAccept now region rs) s"
  shows "\<exists>evs s'. handleNewConnection now region rs s = Inr (evs, s') \<and> ts_inv s'"
  using assms
proof (induction now region rs s rule: handleNewConnection.induct)
  case (5 now region fd ok rs s)
  show ?case
  proof (cases "ts_running s")
    case False then show ?thesis using 5 by simp
  next
    case True
    let ?s1 = "s\<lparr>ts_next_conn_id := ts_next_conn_id s + 1\<rparr>"
    have nxt: "(ts_next_conn_id s + 1) mod 2 ^ 64 = ts_next_conn_id s + 1" using 5(3) by (simp add: accepted_fds_def)
    obtain m where "region (ts_next_conn_id s) = Some m" "length (rb_buffer m) = ring_default_size"
      using 5(3) by auto
    then obtain b where b: "ShmRingBuffer_ctor 1 ring_default_size (region (ts_next_conn_id s)) = Some b"
        "rb_inv b" by (rule fresh_ring_inv)
    have fd: "0 \<le> fd" "ts_fd_to_conn s fd = None" "fd \<notin> set (accepted_fds rs)"
        "distinct (accepted_fds rs)"
        "\<forall>f \<in> set (accepted_fds rs). 0 \<le> f \<and> ts_fd_to_conn s f = None"
      using 5(3) by (auto simp: accepted_fds_def)
    define s2 where "s2 = (if ok then
        ?s1\<lparr>ts_conn_map := AList.update (ts_next_conn_id s)
               (Connection_ctor fd (ts_next_conn_id s) now b) (ts_conn_map ?s1),
            ts_fd_to_conn := (ts_fd_to_conn ?s1)(fd \<mapsto> ts_next_conn_id s)\<rparr> else ?s1)"
    define ev where "ev = (if ok then [EpollAdd fd, SConnected (ts_next_conn_id s)] else [FdClose fd, FdClose fd])"
    have "ts_inv ?s1" using 5(2) by (fastforce simp: ts_inv_def)
    then have inv2: "ts_inv s2"
      using register_inv [OF 5(2) b(2) fd(1,2), of now] by (simp add: s2_def)
    have ok2: "op_ok (OpAccept now region rs) s2"
      using fd 5(3) by (auto simp: s2_def accepted_fds_def)
    have pair: "(if ok then ([EpollAdd fd, SConnected (ts_next_conn_id s)],
        ?s1\<lparr>ts_conn_map := AList.update (ts_next_conn_id s)
               (Connection_ctor fd (ts_next_conn_id s) now b) (ts_conn_map ?s1),
            ts_fd_to_conn := (ts_fd_to_conn ?s1)(fd \<mapsto> ts_next_conn_id s)\<rparr>)
        else ([FdClose fd, FdClose fd], ?s1)) = (ev, s2)" by (simp add: ev_def s2_def)
    have notnotD': "\<not> \<not> ts_running s" using True by simp
    obtain evs s3 where h3: "handleNewConnection now region rs s2 = Inr (evs, s3)" "ts_inv s3"
      using 5(1) [OF notnotD' refl refl b(1) refl, unfolded nxt, OF pair [symmetric] inv2 ok2] by blast
    then have "handleNewConnection now region (Accepted fd ok # rs) s = Inr (ev @ evs, s3)"
      by (simp only: handleNewConnection.simps Let_def b(1) nxt pair True h3(1) not_True_eq_False
          if_False option.case prod.case sum.case simp_thms)
    then show ?thesis using h3(2) by blast
  qed
qed (auto simp: accepted_fds_def)

lemma after_method_inv:
  assumes "ts_inv s" "conn_obj s c" "after_method acts c s = (evs, c', s')"
    "\<forall>a \<in> set acts. \<forall>d. a = CallClose d \<longrightarrow> d = c_conn_id c"
  shows "ts_inv s'" "conn_obj s' c'"
    "c' = c \<or> c' = conn_close c" "c_fd c \<noteq> -1 \<Longrightarrow> c_fd c' \<noteq> -1 \<Longrightarrow> c' = c"
proof -
  have e: "s' = snd (run_actions acts (store_conn c s))"
      "c' = (if list_ex is_close acts then conn_close c else c)"
    using assms(3) by (auto simp: after_method_def split: prod.splits)
  show "ts_inv s'" using store_conn_inv(1) [OF assms(1,2)] run_actions_inv e by simp
  show "c' = c \<or> c' = conn_close c" using e by simp
  show "c' = c" if "c_fd c \<noteq> -1" "c_fd c' \<noteq> -1"
    using that e by (auto simp: conn_close_def split: if_splits)
  show "conn_obj s' c'"
  proof (cases "list_ex is_close acts")
    case True
    then obtain d where "CallClose d \<in> set acts" by (auto simp: list_ex_iff elim!: is_close.elims(2))
    moreover from this have "d = c_conn_id c" using assms(4) by simp
    ultimately have "CallClose (c_conn_id c) \<in> set acts" by simp
    then have "map_of (ts_conn_map s') (c_conn_id c) = None" using close_removes e(1) by simp
    then show ?thesis using e(2) True assms(2) by (simp add: conn_obj_def conn_close_def)
  next
    case False
    have "run_actions acts t = (fst (run_actions acts t), t)" for t
      using False by (induction acts t rule: run_actions.induct) (auto split: prod.splits)
    then have "s' = store_conn c s" using e(1) by (metis snd_conv)
    then have "map_of (ts_conn_map s') (c_conn_id c) =
        (if map_of (ts_conn_map s) (c_conn_id c) = None then None else Some c)"
      by (cases "map_of (ts_conn_map s) (c_conn_id c)") (auto simp: store_conn_def update_conv')
    moreover have "c' = c" using e(2) False by simp
    ultimately show ?thesis using assms(2) by (simp add: conn_obj_def)
  qed
qed

lemma event_inv:
  assumes "ts_inv s" "op_ok (OpEvent now fd events reads wres) s"
  shows "\<exists>evs s'. handleClientEvent now fd events reads wres s = Inr (evs, s') \<and> ts_inv s'"
proof (cases "ts_fd_to_conn s fd")
  case None then show ?thesis using assms(1) by (simp add: handleClientEvent_def)
next
  case (Some cid)
  then obtain c where c: "map_of (ts_conn_map s) cid = Some c" "c_fd c = fd"
    using assms(1) unfolding ts_inv_alt by blast
  note look = ts_inv_lookup [OF assms(1) c(1)]
  have obj: "conn_obj s c" using c look by (simp add: conn_obj_def)
  show ?thesis
  proof (cases "EV_RDHUP \<in> events")
    case True
    then show ?thesis
      using Some c removeConnection_inv(1) [OF assms(1), of cid]
      by (cases "removeConnection cid s") (simp add: handleClientEvent_def)
  next
    case False
    obtain evs1 c1 s1 where r: "(if EV_READ \<in> events then
          map_option (\<lambda>(acts, c1). after_method acts c1 s) (onReadable now reads c)
        else Some ([], c, s)) = Some (evs1, c1, s1)" "ts_inv s1" "conn_obj s1 c1"
        "c_partial_send_buffer c1 = c_partial_send_buffer c"
        "c_partial_send_offset c1 = c_partial_send_offset c"
    proof (cases "EV_READ \<in> events")
      case no: False
      then show thesis using that [of "[]" c s] assms(1) obj by simp
    next
      case yes: True
      obtain acts c0 where o: "onReadable now reads c = Some (acts, c0)" "rb_inv (c_recv_buffer c0)"
          "c_conn_id c0 = c_conn_id c" "c_fd c0 = c_fd c"
          "c_partial_send_buffer c0 = c_partial_send_buffer c"
          "c_partial_send_offset c0 = c_partial_send_offset c"
          "\<forall>a \<in> set acts. a = CallClose (c_conn_id c) \<or> (\<exists>m. a = CallRecv (c_conn_id c) m)"
        using onReadable_total [OF look(5)] by blast
      obtain e1 d1 t1 where am: "after_method acts c0 s = (e1, d1, t1)"
        by (cases "after_method acts c0 s") auto
      have "conn_obj s c0" using obj o by (simp add: conn_obj_def)
      moreover have "\<forall>a \<in> set acts. \<forall>d. a = CallClose d \<longrightarrow> d = c_conn_id c0"
        unfolding o(3) using o(7) by fastforce
      ultimately have t: "ts_inv t1" "conn_obj t1 d1" "d1 = c0 \<or> d1 = conn_close c0"
        by (rule after_method_inv(1,2,3) [OF assms(1) _ am])+
      have eq: "(if EV_READ \<in> events then
          map_option (\<lambda>(acts, c1). after_method acts c1 s) (onReadable now reads c)
        else Some ([], c, s)) = Some (e1, d1, t1)" using yes o(1) am by simp
      have "c_partial_send_buffer d1 = c_partial_send_buffer c"
          "c_partial_send_offset d1 = c_partial_send_offset c"
        using t(3) o(5,6) by (elim disjE; simp add: conn_close_def)+
      then show thesis by (rule that [OF eq t(1,2)])
    qed
    show ?thesis
    proof (cases "EV_WRITE \<in> events")
      case no: False
      then have "handleClientEvent now fd events reads wres s = Inr (evs1, s1)"
        using Some c False r(1) by (simp add: handleClientEvent_def)
      then show ?thesis using r(2) by simp
    next
      case yes: True
      let ?res = "if c_fd c1 = -1 then (-1, False) else wres"
      have "fst ?res \<le> int (length (c_partial_send_buffer c1) - c_partial_send_offset c1)"
        using assms(2) Some c r(4,5) by auto
      from onWritable_total [OF this, of now] obtain out acts c2 where w:
          "onWritable now ?res c1 = Some (out, acts, c2)" "c_recv_buffer c2 = c_recv_buffer c1"
          "c_conn_id c2 = c_conn_id c1" "c_fd c2 = c_fd c1"
          "\<forall>a \<in> set acts. a = CallClose (c_conn_id c1) \<or> (\<exists>m. a = EpollModify (c_fd c1) m)"
        by blast
      obtain e2 d2 t2 where am: "after_method acts c2 s1 = (e2, d2, t2)"
        by (cases "after_method acts c2 s1") auto
      have "conn_obj s1 c2" using r(3) w by (simp add: conn_obj_def)
      moreover have "\<forall>a \<in> set acts. \<forall>d. a = CallClose d \<longrightarrow> d = c_conn_id c2"
        unfolding w(3) using w(5) by fastforce
      ultimately have "ts_inv t2" by (rule after_method_inv(1) [OF r(2) _ am])
      moreover have "handleClientEvent now fd events reads wres s = Inr (evs1 @ e2, t2)"
        using Some c False r(1) yes w(1) am by (simp add: handleClientEvent_def)
      ultimately show ?thesis by blast
    qed
  qed
qed

lemma remove_all_inv: "ts_inv s \<Longrightarrow> ts_inv (snd (remove_all cids s))"
proof (induction cids arbitrary: s)
  case (Cons cid cids)
  then show ?case
    using Cons.IH [OF removeConnection_inv(1) [OF Cons.prems, of cid]] by (auto split: prod.splits)
qed simp

lemma send_impl_total:
  assumes "pack_ok pack" "fst res \<le> int (h_pack_len (Header_of pack))"
  shows "\<exists>out acts c'. send_impl now pack res c = Some (out, acts, c') \<and>
    c_recv_buffer c' = c_recv_buffer c \<and> c_conn_id c' = c_conn_id c \<and> c_fd c' = c_fd c \<and>
    (CallClose d \<in> set acts \<longrightarrow> fst res \<le> 0 \<and> \<not> snd res \<and> d = c_conn_id c)"
proof -
  have l: "18 \<le> length pack" using assms(1) by (simp add: pack_ok_def sizeof_Header_def)
  then obtain p where p: "get_pack_ptr (c_conn_id c) pack = Some p" "length p = length pack"
    by (auto simp: get_pack_ptr_def mem_write_def)
  have "p = take 10 pack @ le_bytes 8 (c_conn_id c) @ drop 18 pack"
    using p l by (simp add: get_pack_ptr_def mem_write_def)
  then have h: "h_pack_len (Header_of p) = h_pack_len (Header_of pack)"
    using l by (simp add: Header_of_def field_def drop_take)
  show ?thesis
    using assms p h
    by (cases res) (auto simp: send_impl_def mem_read_def pack_ok_def updateActiveTime_def Let_def)
qed

lemma srv_step_inv:
  assumes "ts_inv s" "op_ok p s"
  shows "\<exists>evs s'. srv_step p s = Inr (evs, s') \<and> ts_inv s'"
proof (cases p)
  case (OpAccept now region rs)
  then show ?thesis using accept_inv assms by simp
next
  case (OpEvent now fd events reads wres)
  then show ?thesis using event_inv assms by simp
next
  case (OpHeartbeat now)
  then show ?thesis using remove_all_inv [OF assms(1), of "idle_conns now s"]
    by (cases "checkHeartbeats now s") (simp add: checkHeartbeats_def)
next
  case (OpClose cid)
  then show ?thesis using removeConnection_inv(1) [OF assms(1), of cid]
    by (cases "removeConnection cid s") (simp add: closeConn_def)
next
  case OpStop
  have "ts_inv (s\<lparr>ts_running := False, ts_conn_map := [], ts_fd_to_conn := Map.empty\<rparr>)" by (simp add: ts_inv_def)
  then show ?thesis using OpStop assms(1) by (cases "ts_running s") (simp_all add: TcpServer_stop_def)
next
  case (OpSend now cid pack res)
  let ?k = "sint (of_nat cid :: 32 word)"
  show ?thesis
  proof (cases "?k < 0 \<or> map_of (ts_conn_map s) (nat ?k) = None")
    case True
    then have "TcpListener_send now cid pack res s = Inr (-1, [], [], s)"
      by (auto simp: TcpListener_send_def TcpServer_send_def)
    then show ?thesis using OpSend assms(1) by simp
  next
    case False
    then obtain c where c: "map_of (ts_conn_map s) (nat ?k) = Some c" "\<not> ?k < 0" by auto
    note look = ts_inv_lookup [OF assms(1) c(1)]
    have ok: "pack_ok pack" "fst res \<le> int (h_pack_len (Header_of pack))" "fst res \<le> 0 \<longrightarrow> snd res"
      using assms(2) OpSend by auto
    obtain out acts c1 where r: "send_impl now pack res c = Some (out, acts, c1)"
        "c_recv_buffer c1 = c_recv_buffer c" "c_conn_id c1 = c_conn_id c" "c_fd c1 = c_fd c"
      using send_impl_total [OF ok(1,2)] by blast
    have "CallClose d \<notin> set acts" for d
      using send_impl_total [OF ok(1,2), of now c d] r(1) ok(3) by auto
    then have nc: "\<not> list_ex is_close acts" "\<forall>a \<in> set acts. \<forall>d. a = CallClose d \<longrightarrow> d = c_conn_id c1"
      by (auto simp: list_ex_iff elim!: is_close.elims(2))
    obtain evs c2 s1 where am: "after_method acts c1 s = (evs, c2, s1)"
      by (cases "after_method acts c1 s") auto
    have "conn_obj s c1" using c r look by (simp add: conn_obj_def)
    then have "ts_inv s1" by (rule after_method_inv(1) [OF assms(1) _ am nc(2)])
    moreover have "TcpListener_send now cid pack res s = Inr (0, out, evs, s1)"
      using c r(1) nc(1) am by (simp add: TcpListener_send_def TcpServer_send_def)
    ultimately show ?thesis using OpSend by simp
  qed
qed

lemma reachable_inv: "reachable s tr \<Longrightarrow> ts_inv s"
proof (induction rule: reachable.induct)
  case start then show ?case by (simp add: ts_inv_def TcpServer_ctor_def)
next
  case (step s tr p evs s')
  then show ?case using srv_step_inv by fastforce
qed

text \<open>Connection ids announced by a trace.\<close>

definition connected_ids :: "srv_event list \<Rightarrow> nat list" where
  "connected_ids tr = concat (map (\<lambda>e. case e of SConnected cid \<Rightarrow> [cid] | _ \<Rightarrow> []) tr)"

definition closed_ids :: "srv_event list \<Rightarrow> nat list" where
  "closed_ids tr = concat (map (\<lambda>e. case e of SClosed cid \<Rightarrow> [cid] | _ \<Rightarrow> []) tr)"

lemma connected_ids_simps [simp]:
  "connected_ids [] = []" "connected_ids (xs @ ys) = connected_ids xs @ connected_ids ys"
  "connected_ids (e # xs) = (case e of SConnected cid \<Rightarrow> [cid] | _ \<Rightarrow> []) @ connected_ids xs"
  by (simp_all add: connected_ids_def)

lemma removal_connects_none: "connected_ids (fst (removeConnection cid s)) = []"
  by (simp add: removeConnection_def Let_def split: option.splits)

lemma run_actions_connects_none: "connected_ids (fst (run_actions acts s)) = []"
proof (induction acts s rule: run_actions.induct)
  case (4 cid acts s)
  obtain e1 s1 where r: "removeConnection cid s = (e1, s1)" by (cases "removeConnection cid s") auto
  then show ?case
    using 4 [OF r [symmetric] refl] removal_connects_none [of cid s] by (auto split: prod.splits)
qed (auto split: prod.splits)

lemma accept_connects:
  "handleNewConnection now region rs s = Inr (evs, s') \<Longrightarrow>
     ts_next_conn_id s + length (accepted_fds rs) < 2 ^ 63 \<Longrightarrow>
     distinct (connected_ids evs) \<and> ts_next_conn_id s \<le> ts_next_conn_id s' \<and>
     set (connected_ids evs) \<subseteq> {ts_next_conn_id s..<ts_next_conn_id s'}"
proof (induction now region rs s arbitrary: evs s' rule: handleNewConnection.induct)
  case (5 now region fd ok rs s)
  show ?case
  proof (cases "ts_running s")
    case False then show ?thesis using 5 by simp
  next
    case True
    let ?n = "ts_next_conn_id s"
    have nxt: "(?n + 1) mod 2 ^ 64 = ?n + 1" using 5(3) by (simp add: accepted_fds_def)
    obtain b where b: "ShmRingBuffer_ctor 1 ring_default_size (region ?n) = Some b"
      using 5(2) True by (auto simp: Let_def split: option.splits)
    obtain ev s2 where p: "(if ok then ([EpollAdd fd, SConnected ?n],
        s\<lparr>ts_next_conn_id := ?n + 1,
          ts_conn_map := AList.update ?n (Connection_ctor fd ?n now b)
            (ts_conn_map (s\<lparr>ts_next_conn_id := ?n + 1\<rparr>)),
          ts_fd_to_conn := (ts_fd_to_conn (s\<lparr>ts_next_conn_id := ?n + 1\<rparr>))(fd \<mapsto> ?n)\<rparr>)
        else ([FdClose fd, FdClose fd], s\<lparr>ts_next_conn_id := ?n + 1\<rparr>)) = (ev, s2)"
      by (metis surj_pair)
    then have ev: "connected_ids ev = (if ok then [?n] else [])" "ts_next_conn_id s2 = ?n + 1"
      by (auto split: if_splits)
    have "(case handleNewConnection now region rs s2 of Inl f \<Rightarrow> Inl f
        | Inr (evs', s3) \<Rightarrow> Inr (ev @ evs', s3)) = (Inr (evs, s') :: fault + _)"
      using 5(2) by (simp only: handleNewConnection.simps Let_def b nxt p True not_True_eq_False
          if_False option.case prod.case simp_thms)
    then obtain evs' where r: "handleNewConnection now region rs s2 = Inr (evs', s')" "evs = ev @ evs'"
      by (auto split: sum.splits)
    have nn: "\<not> \<not> ts_running s" using True by simp
    have small: "ts_next_conn_id s2 + length (accepted_fds rs) < 2 ^ 63" using 5(3) ev(2) by (simp add: accepted_fds_def)
    note ih = 5(1) [OF nn refl refl b refl, unfolded nxt, OF p [symmetric] r(1) small]
    show ?thesis using ih ev r(2) by (auto simp: atLeastLessThan_iff)
  qed
next
  case (4 now region rs s)
  then show ?case by (cases "ts_running s") (simp_all add: accepted_fds_def)
qed auto

text \<open>Only accepting announces connections or moves the id counter.\<close>

lemma after_method_quiet:
  assumes "after_method acts c s = (evs, c', s')"
  shows "connected_ids evs = [] \<and> ts_next_conn_id s' = ts_next_conn_id s"
proof -
  have next_rm: "ts_next_conn_id (snd (removeConnection d t)) = ts_next_conn_id t" for d t
    by (simp add: removeConnection_def Let_def split: option.splits)
  have all: "ts_next_conn_id (snd (run_actions bs t)) = ts_next_conn_id t" for bs t
  proof (induction bs arbitrary: t)
    case (Cons b bs)
    then show ?case by (cases b) (simp_all add: run_actions_snd next_rm del: run_actions.simps)
  qed simp
  have "evs = fst (run_actions acts (store_conn c s))" "s' = snd (run_actions acts (store_conn c s))"
    using assms by (auto simp: after_method_def split: prod.splits)
  then show ?thesis
    using run_actions_connects_none [of acts "store_conn c s"] all [of acts "store_conn c s"]
    by (simp add: store_conn_def)
qed

lemma remove_all_quiet:
  "connected_ids (fst (remove_all cids s)) = [] \<and>
     ts_next_conn_id (snd (remove_all cids s)) = ts_next_conn_id s"
proof (induction cids arbitrary: s)
  case (Cons cid cids)
  have "ts_next_conn_id (snd (removeConnection cid s)) = ts_next_conn_id s"
    by (simp add: removeConnection_def Let_def split: option.splits)
  then show ?case
    using Cons.IH [of "snd (removeConnection cid s)"] removal_connects_none [of cid s]
    by (auto split: prod.splits)
qed simp

lemma event_quiet:
  assumes "handleClientEvent now fd events reads wres s = Inr (evs, s')"
  shows "connected_ids evs = [] \<and> ts_next_conn_id s' = ts_next_conn_id s"
proof -
  have rm: "connected_ids e = [] \<and> ts_next_conn_id t = ts_next_conn_id s"
    if "removeConnection cid s = (e, t)" for cid e t
    using that removal_connects_none [of cid s]
    by (auto simp: removeConnection_def Let_def split: option.splits)
  show ?thesis
    using assms
    by (auto simp: handleClientEvent_def Let_def dest: rm dest!: after_method_quiet
        split: option.splits if_splits prod.splits)
qed

lemma send_quiet:
  assumes "TcpListener_send now cid pack res s = Inr (rc, out, evs, s')"
  shows "connected_ids evs = [] \<and> ts_next_conn_id s' = ts_next_conn_id s"
  using assms
  by (auto simp: TcpListener_send_def TcpServer_send_def dest!: after_method_quiet
      split: option.splits if_splits prod.splits)

lemma stop_quiet: "connected_ids (fst (TcpServer_stop s)) = [] \<and> ts_next_conn_id (snd (TcpServer_stop s)) = ts_next_conn_id s"
proof -
  have "connected_ids (concat (map (\<lambda>(cid, c). if c_fd c \<noteq> -1 then [FdClose (c_fd c)] else []) cs)) = []"
    for cs :: "(nat \<times> connection) list"
    by (induction cs) auto
  then show ?thesis by (simp add: TcpServer_stop_def)
qed

lemma srv_step_ids:
  assumes "srv_step p s = Inr (evs, s')" "op_ok p s"
  shows "distinct (connected_ids evs) \<and> ts_next_conn_id s \<le> ts_next_conn_id s' \<and>
     set (connected_ids evs) \<subseteq> {ts_next_conn_id s..<ts_next_conn_id s'}"
proof (cases p)
  case (OpAccept now region rs) then show ?thesis using accept_connects assms by simp
next
  case OpStop
  then show ?thesis using assms(1) stop_quiet [of s] by auto
next
  case (OpEvent now fd events reads wres) then show ?thesis using event_quiet assms by simp
next
  case (OpHeartbeat now)
  then show ?thesis using remove_all_quiet [of "idle_conns now s" s] assms
    by (auto simp: checkHeartbeats_def)
next
  case (OpSend now cid pack res)
  then show ?thesis using send_quiet assms by (auto split: sum.splits prod.splits)
next
  case (OpClose cid)
  then show ?thesis using remove_all_quiet [of "[cid]" s] assms
    by (auto simp: closeConn_def split: prod.splits)
qed

lemma reachable_ids:
  "reachable s tr \<Longrightarrow> distinct (connected_ids tr) \<and> set (connected_ids tr) \<subseteq> {..<ts_next_conn_id s}"
proof (induction rule: reachable.induct)
  case start then show ?case by simp
next
  case (step s tr p evs s')
  then show ?case using srv_step_ids [OF step(3,2)] by fastforce
qed

section \<open>Properties\<close>

text \<open>
  C6: After any sequence of accepts, events, heartbeats, sends, closes and stops, one at a time, in which no
  direct send failed hard and fewer than \<open>2 ^ 63\<close> connections were accepted, the two tables describe the same
  connections, each open, with its own descriptor and a well-formed buffer; no id was ever announced twice;
  and every further operation with an answer of that kind returns and leaves such tables. (A send that
  fails hard does not return: \<open>hard_send_error_deadlocks\<close>.)
\<close>

theorem tcp_server_tables_agree:
  assumes "reachable s tr"
  shows "ts_inv s \<and> distinct (connected_ids tr) \<and>
    (\<forall>p. op_ok p s \<longrightarrow> (\<exists>evs s'. srv_step p s = Inr (evs, s') \<and> ts_inv s'))"
  using reachable_inv [OF assms] reachable_ids [OF assms] srv_step_inv by blast

definition blank_region :: "nat \<Rightarrow> 8 word ring option" where
  "blank_region cid = Some \<lparr>rb_head = 1, rb_tail = 2, rb_capacity = 0, rb_element_size = 0,
     rb_initialized = False, rb_ring_size = 0, rb_buffer = replicate ring_default_size 0\<rparr>"

definition one_conn :: tcp_server where
  "one_conn = snd (projr (srv_step (OpAccept 5 blank_region [Accepted 7 True]) TcpServer_ctor))"

lemma one_conn_step:
  "srv_step (OpAccept 5 blank_region [Accepted 7 True]) TcpServer_ctor =
     Inr ([EpollAdd 7, SConnected 0], one_conn)"
  "\<exists>c. ts_conn_map one_conn = [(0, c)] \<and> c_last_active c = 5 \<and> c_conn_id c = 0 \<and> c_fd c = 7"
  by (simp_all add: one_conn_def TcpServer_ctor_def blank_region_def ShmRingBuffer_ctor_def
      InitShm_def Let_def Connection_ctor_def)

lemma one_conn_reachable: "reachable one_conn ([] @ [EpollAdd 7, SConnected 0])"
  by (rule reachable.step [OF reachable.start _ one_conn_step(1)])
     (simp add: blank_region_def accepted_fds_def TcpServer_ctor_def)

theorem tcp_server_tables_agree_witness:
  "ts_inv one_conn \<and> distinct (connected_ids [EpollAdd 7, SConnected 0]) \<and>
    (\<exists>evs s'. srv_step (OpHeartbeat 40) one_conn = Inr (evs, s') \<and> ts_inv s')"
proof -
  have "op_ok (OpHeartbeat 40) one_conn" by simp
  then show ?thesis using tcp_server_tables_agree [OF one_conn_reachable] by (metis append_Nil)
qed

text \<open>
  a send that fails hard never returns: the connection calls its close handler while the server
  holds \<open>conn_mutex_\<close>, and the handler takes that mutex again.
\<close>

theorem hard_send_error_deadlocks:
  assumes "map_of (ts_conn_map s) cid = Some c" "pack_ok pack"
    "0 < h_pack_len (Header_of pack)" "r < 0"
  shows "TcpServer_send now (int cid) pack (r, False) s = Inl Deadlock"
proof -
  have l: "18 \<le> length pack" using assms(2) by (simp add: pack_ok_def sizeof_Header_def)
  then obtain p where p: "get_pack_ptr (c_conn_id c) pack = Some p" "length p = length pack"
    by (auto simp: get_pack_ptr_def mem_write_def)
  have "p = take 10 pack @ le_bytes 8 (c_conn_id c) @ drop 18 pack"
    using p l by (simp add: get_pack_ptr_def mem_write_def)
  then have h: "h_pack_len (Header_of p) = h_pack_len (Header_of pack)"
    using l by (simp add: Header_of_def field_def drop_take)
  then have "send_impl now pack (r, False) c = Some ([], [CallClose (c_conn_id c)], c)"
    using assms(2-4) p by (simp add: send_impl_def mem_read_def pack_ok_def Let_def)
  then show ?thesis using assms(1) by (simp add: TcpServer_send_def)
qed

theorem hard_send_error_deadlocks_witness:
  "TcpServer_send 9 (int 0) notice (-1, False) one_conn = Inl Deadlock"
proof -
  obtain c where c: "ts_conn_map one_conn = [(0, c)]" using one_conn_step(2) by blast
  have "Header_of notice = m_header ping_msg"
    using Header_of_encode [OF ping_wf, of 0 "[]"] by (simp add: notice_def)
  then have "pack_ok notice" "0 < h_pack_len (Header_of notice)"
    using notice_header(1) by (simp_all add: pack_ok_def ping_msg_def sizeof_Header_def)
  then show ?thesis using hard_send_error_deadlocks [of one_conn 0 c notice "-1" 9] c by simp
qed

text \<open>
  the heartbeat sweep closes exactly the connections that have been silent for more than thirty
  seconds, announces each once, and leaves every other connection as it was.
\<close>

theorem heartbeat_closes_idle:
  assumes "ts_inv s" "checkHeartbeats now s = (evs, s')"
  shows "closed_ids evs = idle_conns now s \<and>
    (\<forall>cid. map_of (ts_conn_map s') cid =
       (case map_of (ts_conn_map s) cid of None \<Rightarrow> None
        | Some c \<Rightarrow> if 31000 \<le> now - c_last_active c then None else Some c))"
proof -
  have rm: "closed_ids (fst (removeConnection cid t)) = [cid]"
      "ts_conn_map (snd (removeConnection cid t)) = AList.delete cid (ts_conn_map t)" for cid t
    by (auto simp: removeConnection_def Let_def closed_ids_def delete_notin_dom map_of_eq_None_iff
        split: option.splits)
  have all: "closed_ids (fst (remove_all cids t)) = cids \<and>
      map_of (ts_conn_map (snd (remove_all cids t))) = (map_of (ts_conn_map t)) |` (- set cids)" for cids t
  proof (induction cids arbitrary: t)
    case Nil then show ?case by (simp add: closed_ids_def)
  next
    case (Cons cid cids)
    obtain e t1 where r: "removeConnection cid t = (e, t1)" by (cases "removeConnection cid t") auto
    obtain e2 t2 where r2: "remove_all cids t1 = (e2, t2)" by (cases "remove_all cids t1") auto
    have "closed_ids e = [cid]" "ts_conn_map t1 = AList.delete cid (ts_conn_map t)"
      using rm [where cid = cid and t = t] r by simp_all
    moreover have "closed_ids e2 = cids" "map_of (ts_conn_map t2) = map_of (ts_conn_map t1) |` (- set cids)"
      using Cons.IH [of t1] r2 by simp_all
    ultimately show ?case using r r2
      by (auto simp: closed_ids_def delete_conv restrict_map_def fun_eq_iff)
  qed
  have "cid \<in> set (idle_conns now s) \<longleftrightarrow>
      (\<exists>c. map_of (ts_conn_map s) cid = Some c \<and> 31000 \<le> now - c_last_active c)" for cid
  proof -
    have "(x div 1000 > HEARTBEAT_TIMEOUT_SECONDS) \<longleftrightarrow> 31000 \<le> x" for x :: nat
      by (auto simp: HEARTBEAT_TIMEOUT_SECONDS_def)
    moreover have "distinct (map fst (ts_conn_map s))" using assms(1) by (simp add: ts_inv_def)
    ultimately show ?thesis by (force simp: idle_conns_def)
  qed
  then show ?thesis
    using all [of "idle_conns now s" s] assms(2)
    by (auto simp: checkHeartbeats_def restrict_map_def split: option.splits)
qed

theorem heartbeat_closes_idle_witness:
  "closed_ids (fst (checkHeartbeats 40000 one_conn)) = idle_conns 40000 one_conn \<and>
   map_of (ts_conn_map (snd (checkHeartbeats 40000 one_conn))) 0 = None"
proof -
  have inv: "ts_inv one_conn" using reachable_inv [OF one_conn_reachable] .
  obtain c where c: "ts_conn_map one_conn = [(0, c)]" "c_last_active c = 5"
    using one_conn_step(2) by blast
  obtain evs s' where e: "checkHeartbeats 40000 one_conn = (evs, s')"
    by (cases "checkHeartbeats 40000 one_conn") auto
  show ?thesis using heartbeat_closes_idle [OF inv e] e c by simp
qed

fun loop_event :: "srv_event \<Rightarrow> 'cb event_loop \<Rightarrow> 'cb event_loop" where
  "loop_event (FdClose fd) l = kernel_close fd l"
| "loop_event (EpollRemove fd) l = snd (loop_remove fd l)"
| "loop_event (EpollMod fd evm) l = snd (loop_modify fd evm l)"
| "loop_event _ l = l"

text \<open>
  Removing a connection leaves its entries in the poller: the descriptor is closed first, so the
  kernel has dropped it when \<open>epoller_.remove\<close> asks for it, \<open>EPOLL_CTL_DEL\<close> fails and \<open>remove\<close> returns
  before it erases the callback and the event mask.
\<close>

theorem removed_connection_leaks_callback:
  assumes "map_of (ts_conn_map s) cid = Some c" "c_fd c \<noteq> -1"
    and "el_callbacks l (c_fd c) = Some cb" "removeConnection cid s = (evs, s')"
  shows "c_fd c \<notin> el_kernel (fold loop_event evs l) \<and>
    el_callbacks (fold loop_event evs l) (c_fd c) = Some cb \<and>
    el_monitored (fold loop_event evs l) = el_monitored l"
  using assms
  by (auto simp: removeConnection_def Let_def loop_remove_def kernel_close_def)

theorem removed_connection_leaks_callback_witness:
  "\<exists>l :: string event_loop. el_callbacks l 7 = Some ''client'' \<and> 7 \<in> el_kernel l \<and>
    7 \<notin> el_kernel (fold loop_event (fst (removeConnection 0 one_conn)) l) \<and>
    el_callbacks (fold loop_event (fst (removeConnection 0 one_conn)) l) 7 = Some ''client'' \<and>
    el_monitored (fold loop_event (fst (removeConnection 0 one_conn)) l) = el_monitored l"
proof -
  obtain c where c: "ts_conn_map one_conn = [(0, c)]" "c_fd c = 7" using one_conn_step(2) by blast
  let ?l = "snd (loop_add 7 {EV_READ} ''client'' EventLoop_ctor)"
  have "el_callbacks ?l 7 = Some ''client''" "7 \<in> el_kernel ?l"
    by (simp_all add: loop_add_def EventLoop_ctor_def)
  then show ?thesis
    using removed_connection_leaks_callback
      [of one_conn 0 c ?l "''client''" "fst (removeConnection 0 one_conn)" "snd (removeConnection 0 one_conn)"] c
    by (intro exI [of _ ?l]) simp
qed

end
