(* ===== verification/TcpClient.thy ===== *)
theory TcpClient
  imports TcpServer
begin

text \<open>
  \<open>TcpClient\<close> (server/core/network/TcpClient.h, TcpClient.cpp): the connection a service keeps to the
  centre and a daemon to other daemons. Three threads meet here: the event thread, which \<open>start\<close>
  creates; the thread of the global timer, which runs \<open>checkHeartbeat\<close>; and callers of \<open>send\<close> and
  \<open>stop\<close>. The model interleaves them at the places where one waits for another (the \<open>join\<close> of \<open>stop\<close>) and
  where \<open>start\<close> waits for the peer. No lock protects \<open>conn_\<close>, \<open>sock_\<close> and the buffers of the connection, so
  accesses may also meet inside what is one step here: the model shows what goes wrong at this grain, and
  not that nothing else does. What the kernel answers to \<open>socket\<close>, \<open>setsockopt\<close>, \<open>connect\<close>, \<open>select\<close>,
  \<open>read\<close> and \<open>write\<close> is an argument.
\<close>

section \<open>State\<close>

text \<open>\<open>InProgress ret err\<close>: what \<open>select\<close> returned within five seconds, and \<open>SO_ERROR\<close> after it.\<close>

datatype connect_answer = Connected | InProgress int int | Refused

record connect_env =
  ce_socket :: int
  ce_nodelay :: bool
  ce_connect :: connect_answer
  ce_region :: "8 word ring option"

text \<open>The thread object: empty, running \<open>eventLoop\<close>, or over but not yet joined.\<close>

datatype event_thread = NoThread | Looping | Returned

text \<open>
  Where the timer's thread is in \<open>checkHeartbeat\<close>: outside, in the \<open>join\<close> of \<open>stop\<close>, before \<open>start\<close>, in
  \<open>start\<close> with \<open>running_\<close> set.
\<close>

datatype check_pc = Outside | StopJoins | Restarts | Connects

text \<open>The threads that may call \<open>stop\<close> besides the event thread.\<close>

datatype stopper = TimerThread | Caller nat

record tcp_client =
  tc_sock :: int
  tc_running :: bool
  tc_thread :: event_thread
  tc_loop :: "unit event_loop"
  tc_open :: "int set"
  tc_conn :: "connection option"
  tc_checks :: nat
  tc_check :: check_pc
  tc_joiner :: "stopper option"
  tc_received :: "app_msg list"

definition TcpClient_ctor :: tcp_client where
  "TcpClient_ctor = \<lparr>tc_sock = -1, tc_running = False, tc_thread = NoThread, tc_loop = EventLoop_ctor, tc_open = {},
     tc_conn = None, tc_checks = 0, tc_check = Outside, tc_joiner = None, tc_received = []\<rparr>"

definition close_fd :: "int \<Rightarrow> tcp_client \<Rightarrow> tcp_client" where
  "close_fd fd c = c\<lparr>tc_open := tc_open c - {fd}, tc_loop := kernel_close fd (tc_loop c)\<rparr>"

text \<open>\<open>Connection::close\<close> on \<open>conn_\<close>, if there is one.\<close>

definition close_conn :: "tcp_client \<Rightarrow> tcp_client" where
  "close_conn c =
     (case tc_conn c of
        None \<Rightarrow> c
      | Some k \<Rightarrow> (if c_fd k \<noteq> -1 then close_fd (c_fd k) c else c)\<lparr>tc_conn := Some (conn_close k)\<rparr>)"

section \<open>Connecting\<close>

definition established :: "connect_answer \<Rightarrow> bool" where
  "established a = (case a of Connected \<Rightarrow> True | InProgress ret err \<Rightarrow> 0 < ret \<and> err = 0 | Refused \<Rightarrow> False)"

text \<open>The connection id is -1, which the header shows as an unsigned number of 64 bits.\<close>

definition client_conn_id :: nat where "client_conn_id = 2 ^ 64 - 1"

definition connectToServer :: "connect_env \<Rightarrow> nat \<Rightarrow> tcp_client \<Rightarrow> fault + bool \<times> tcp_client" where
  "connectToServer env now c =
     (let sock = ce_socket env; c1 = c\<lparr>tc_sock := sock\<rparr>; c2 = c1\<lparr>tc_open := insert sock (tc_open c)\<rparr> in
      if sock < 0 then Inr (False, c1)
      else if \<not> ce_nodelay env then Inr (False, c2)
      else if \<not> established (ce_connect env) then Inr (False, (close_fd sock c2)\<lparr>tc_sock := -1\<rparr>)
      else (case loop_add sock {EV_READ, EV_EDGE_TRIGGER} () (tc_loop c2) of
              (False, l) \<Rightarrow> Inl Exited
            | (True, l) \<Rightarrow>
                (case ShmRingBuffer_ctor 1 ring_default_size (ce_region env) of
                   None \<Rightarrow> Inl ShmFailure
                 | Some buf \<Rightarrow>
                     Inr (True, (close_conn (c2\<lparr>tc_loop := l\<rparr>))\<lparr>tc_conn :=
                       Some (Connection_ctor sock client_conn_id now buf)\<rparr>))))"

text \<open>
  \<open>start\<close> after \<open>running_ = true\<close>. Assigning to a thread object that has not been joined ends the process.
\<close>

definition start_connects :: "connect_env \<Rightarrow> nat \<Rightarrow> tcp_client \<Rightarrow> fault + bool \<times> tcp_client" where
  "start_connects env now c =
     (case connectToServer env now c of
        Inl f \<Rightarrow> Inl f
      | Inr (False, c1) \<Rightarrow> Inr (False, c1)
      | Inr (True, c1) \<Rightarrow>
          if tc_thread c1 \<noteq> NoThread then Inl Exited
          else Inr (True, c1\<lparr>tc_thread := Looping, tc_checks := tc_checks c1 + 1\<rparr>))"

definition client_start :: "connect_env \<Rightarrow> nat \<Rightarrow> tcp_client \<Rightarrow> fault + bool \<times> tcp_client" where
  "client_start env now c = start_connects env now (c\<lparr>tc_running := True\<rparr>)"

section \<open>The event thread\<close>

text \<open>\<open>stop\<close> on the event thread itself, which does not join itself.\<close>

definition stop_here :: "tcp_client \<Rightarrow> tcp_client" where
  "stop_here c = close_conn (c\<lparr>tc_running := False\<rparr>)"

fun client_actions :: "conn_action list \<Rightarrow> tcp_client \<Rightarrow> tcp_client" where
  "client_actions [] c = c"
| "client_actions (CallRecv cid m # acts) c = client_actions acts (c\<lparr>tc_received := tc_received c @ [m]\<rparr>)"
| "client_actions (CallClose cid # acts) c = client_actions acts (stop_here c)"
| "client_actions (EpollModify fd evs # acts) c =
     client_actions acts (c\<lparr>tc_loop := snd (loop_modify fd evs (tc_loop c))\<rparr>)"

text \<open>A method of \<open>conn_\<close> has left the connection \<open>k\<close> and these actions behind.\<close>

definition after_conn :: "conn_action list \<times> connection \<Rightarrow> tcp_client \<Rightarrow> tcp_client" where
  "after_conn res c = client_actions (fst res) (c\<lparr>tc_conn := Some (snd res)\<rparr>)"

definition client_readable :: "nat \<Rightarrow> read_result list \<Rightarrow> tcp_client \<Rightarrow> fault + tcp_client" where
  "client_readable now reads c =
     (case tc_conn c of
        None \<Rightarrow> Inl Undefined
      | Some k \<Rightarrow>
          (case onReadable now (if c_fd k = -1 then [RErrno False] else reads) k of
             None \<Rightarrow> Inl Undefined
           | Some res \<Rightarrow> Inr (after_conn res c)))"

definition client_writable :: "nat \<Rightarrow> write_result \<Rightarrow> tcp_client \<Rightarrow> fault + tcp_client" where
  "client_writable now wres c =
     (case tc_conn c of
        None \<Rightarrow> Inl Undefined
      | Some k \<Rightarrow>
          (case onWritable now (if c_fd k = -1 then (-1, False) else wres) k of
             None \<Rightarrow> Inl Undefined
           | Some (out, res) \<Rightarrow> Inr (after_conn res c)))"

definition client_eventHandler ::
  "nat \<Rightarrow> epoll_flag set \<Rightarrow> read_result list \<Rightarrow> write_result \<Rightarrow> tcp_client \<Rightarrow> fault + tcp_client" where
  "client_eventHandler now events reads wres c =
     (if EV_RDHUP \<in> events then Inr (stop_here c)
      else (case (if EV_READ \<in> events then client_readable now reads c else Inr c) of
              Inl f \<Rightarrow> Inl f
            | Inr c1 \<Rightarrow> if EV_WRITE \<in> events then client_writable now wres c1 else Inr c1))"

section \<open>The other threads\<close>

text \<open>
  \<open>stop\<close> on any other thread: the flag, then the \<open>join\<close>, which waits while the event thread runs, then
  the connection. Two threads that join one thread object run into undefined behaviour.
\<close>

definition client_stop_flag :: "tcp_client \<Rightarrow> tcp_client" where
  "client_stop_flag c = c\<lparr>tc_running := False\<rparr>"

definition stop_begin :: "stopper \<Rightarrow> tcp_client \<Rightarrow> fault + tcp_client" where
  "stop_begin t c =
     (let c1 = client_stop_flag c in
      if tc_thread c = NoThread then Inr (close_conn c1)
      else if tc_joiner c \<noteq> None then Inl Undefined
      else Inr (c1\<lparr>tc_joiner := Some t\<rparr>))"

definition client_stop_joined :: "tcp_client \<Rightarrow> tcp_client" where
  "client_stop_joined c = close_conn (c\<lparr>tc_thread := NoThread, tc_joiner := None\<rparr>)"

text \<open>What \<open>Connection::send\<close> calls on the thread \<open>t\<close>: the close handler is its last call.\<close>

fun caller_actions :: "stopper \<Rightarrow> conn_action list \<Rightarrow> tcp_client \<Rightarrow> fault + tcp_client" where
  "caller_actions t [] c = Inr c"
| "caller_actions t (CallRecv cid m # acts) c = caller_actions t acts (c\<lparr>tc_received := tc_received c @ [m]\<rparr>)"
| "caller_actions t (CallClose cid # acts) c =
     (case stop_begin t c of Inl f \<Rightarrow> Inl f | Inr c1 \<Rightarrow> caller_actions t acts c1)"
| "caller_actions t (EpollModify fd evs # acts) c =
     caller_actions t acts (c\<lparr>tc_loop := snd (loop_modify fd evs (tc_loop c))\<rparr>)"

text \<open>\<open>send\<close> on the thread \<open>t\<close>, up to the \<open>join\<close> if the close handler is called.\<close>

definition client_send :: "stopper \<Rightarrow> nat \<Rightarrow> 8 word list \<Rightarrow> write_result \<Rightarrow> tcp_client \<Rightarrow>
    fault + 8 word list \<times> tcp_client" where
  "client_send t now pack wres c =
     (if \<not> tc_running c then Inr ([], c)
      else (case tc_conn c of
              None \<Rightarrow> Inl Undefined
            | Some k \<Rightarrow>
                (case send_impl now pack (if c_fd k = -1 then (-1, False) else wres) k of
                   None \<Rightarrow> Inl Undefined
                 | Some (out, acts, k1) \<Rightarrow> map_sum id (Pair out) (caller_actions t acts (c\<lparr>tc_conn := Some k1\<rparr>)))))"

text \<open>The same with the event thread's end and the \<open>join\<close>, for a caller that is alone.\<close>

definition client_send_joined :: "nat \<Rightarrow> 8 word list \<Rightarrow> write_result \<Rightarrow> tcp_client \<Rightarrow>
    fault + 8 word list \<times> tcp_client" where
  "client_send_joined now pack wres c =
     (case client_send (Caller 0) now pack wres c of
        Inl f \<Rightarrow> Inl f
      | Inr (out, c1) \<Rightarrow> Inr (out, if tc_joiner c1 = Some (Caller 0) then client_stop_joined c1 else c1))"

definition idle_seconds :: "nat \<Rightarrow> connection \<Rightarrow> nat" where
  "idle_seconds now k = (now - c_last_active k) div 1000"

text \<open>
  \<open>checkHeartbeat\<close> up to the \<open>join\<close>, from there to \<open>start\<close>, and \<open>start\<close>. The timer goes on calling it: nothing
  cancels its tasks.
\<close>

definition check_begin :: "nat \<Rightarrow> tcp_client \<Rightarrow> fault + tcp_client" where
  "check_begin now c =
     (case tc_conn c of
        None \<Rightarrow> Inl Undefined
      | Some k \<Rightarrow>
          if HEARTBEAT_TIMEOUT_SECONDS < idle_seconds now k
          then (case stop_begin TimerThread c of
                  Inl f \<Rightarrow> Inl f
                | Inr c1 \<Rightarrow> Inr (c1\<lparr>tc_check := (if tc_joiner c1 = None then Restarts else StopJoins)\<rparr>))
          else Inr c)"

definition check_joined :: "tcp_client \<Rightarrow> tcp_client" where
  "check_joined c = client_stop_joined (c\<lparr>tc_check := Restarts\<rparr>)"

definition check_restart :: "tcp_client \<Rightarrow> tcp_client" where
  "check_restart c = c\<lparr>tc_running := True, tc_check := Connects\<rparr>"

definition check_connect :: "connect_env \<Rightarrow> nat \<Rightarrow> tcp_client \<Rightarrow> fault + tcp_client" where
  "check_connect env now c = map_sum id snd (start_connects env now (c\<lparr>tc_check := Outside\<rparr>))"

text \<open>
  The steps of the threads; \<^term>\<open>None\<close> where the step is not the next of its thread. Callers are numbered.
\<close>

datatype client_step =
    Events nat "epoll_flag set" "read_result list" write_result
  | LoopEnds
  | CheckBegins nat
  | CheckJoined
  | CheckRestarts
  | CheckConnects connect_env nat
  | Sends nat nat "8 word list" write_result
  | StopBegins nat
  | StopEnds nat

fun client_exec :: "client_step \<Rightarrow> tcp_client \<Rightarrow> (fault + tcp_client) option" where
  "client_exec (Events now events reads wres) c =
     (if tc_thread c = Looping \<and> tc_running c then Some (client_eventHandler now events reads wres c) else None)"
| "client_exec LoopEnds c =
     (if tc_thread c = Looping \<and> \<not> tc_running c then Some (Inr (c\<lparr>tc_thread := Returned\<rparr>)) else None)"
| "client_exec (CheckBegins now) c =
     (if tc_check c = Outside \<and> 0 < tc_checks c then Some (check_begin now c) else None)"
| "client_exec CheckJoined c =
     (if tc_check c = StopJoins \<and> tc_thread c \<noteq> Looping then Some (Inr (check_joined c)) else None)"
| "client_exec CheckRestarts c = (if tc_check c = Restarts then Some (Inr (check_restart c)) else None)"
| "client_exec (CheckConnects env now) c =
     (if tc_check c = Connects then Some (check_connect env now c) else None)"
| "client_exec (Sends t now pack wres) c =
     (if tc_joiner c \<noteq> Some (Caller t) then Some (map_sum id snd (client_send (Caller t) now pack wres c)) else None)"
| "client_exec (StopBegins t) c =
     (if tc_joiner c \<noteq> Some (Caller t) then Some (stop_begin (Caller t) c) else None)"
| "client_exec (StopEnds t) c =
     (if tc_joiner c = Some (Caller t) \<and> tc_thread c \<noteq> Looping then Some (Inr (client_stop_joined c)) else None)"

fun client_run :: "client_step list \<Rightarrow> tcp_client \<Rightarrow> (fault + tcp_client) option" where
  "client_run [] c = Some (Inr c)"
| "client_run (x # xs) c =
     (case client_exec x c of
        None \<Rightarrow> None
      | Some (Inl f) \<Rightarrow> Some (Inl f)
      | Some (Inr c1) \<Rightarrow> client_run xs c1)"

section \<open>What every reachable client keeps\<close>

definition tcp_client_inv :: "tcp_client \<Rightarrow> bool" where
  "tcp_client_inv c \<longleftrightarrow> tc_conn c \<noteq> None \<and> 0 < tc_checks c \<and>
     (tc_check c = Restarts \<or> tc_check c = Connects \<longrightarrow> tc_thread c = NoThread) \<and>
     (tc_check c = StopJoins \<longleftrightarrow> tc_joiner c = Some TimerThread) \<and>
     (tc_joiner c \<noteq> None \<longrightarrow> tc_thread c \<noteq> NoThread \<and> \<not> tc_running c) \<and>
     (\<forall>k. tc_conn c = Some k \<longrightarrow> rb_inv (c_recv_buffer k) \<and> (c_fd k \<noteq> -1 \<longrightarrow> c_fd k \<in> tc_open c) \<and>
        (tc_check c = Restarts \<or> tc_check c = Connects \<longrightarrow> c_fd k = -1)) \<and>
     el_kernel (tc_loop c) \<subseteq> tc_open c"

text \<open>
  What the environment guarantees: \<open>socket\<close> returns a descriptor that is not open, the region is mapped at
  its size, packets hold the length their header announces, and the kernel takes no more than offered.
\<close>

definition env_ok :: "connect_env \<Rightarrow> tcp_client \<Rightarrow> bool" where
  "env_ok env c \<longleftrightarrow> ce_socket env \<notin> tc_open c \<and>
     (\<exists>m. ce_region env = Some m \<and> length (rb_buffer m) = ring_default_size)"

fun step_ok :: "client_step \<Rightarrow> tcp_client \<Rightarrow> bool" where
  "step_ok (Events now events reads wres) c \<longleftrightarrow>
     (\<forall>k. tc_conn c = Some k \<longrightarrow> fst wres \<le> int (length (c_partial_send_buffer k) - c_partial_send_offset k))"
| "step_ok (Sends t now pack wres) c \<longleftrightarrow> pack_ok pack \<and> fst wres \<le> int (h_pack_len (Header_of pack))"
| "step_ok (CheckConnects env now) c \<longleftrightarrow> env_ok env c"
| "step_ok x c \<longleftrightarrow> True"

lemma close_conn_simps [simp]:
  "tc_thread (close_conn c) = tc_thread c" "tc_checks (close_conn c) = tc_checks c" "tc_check (close_conn c) = tc_check c"
  "tc_running (close_conn c) = tc_running c" "tc_received (close_conn c) = tc_received c"
  "tc_sock (close_conn c) = tc_sock c" "tc_joiner (close_conn c) = tc_joiner c"
  "tc_conn (close_conn c) = map_option conn_close (tc_conn c)"
  by (simp_all add: close_conn_def close_fd_def split: option.split)

lemma conn_close_simps [simp]:
  "c_fd (conn_close k) = -1" "c_recv_buffer (conn_close k) = c_recv_buffer k"
  "c_last_active (conn_close k) = c_last_active k" "c_partial_send_buffer (conn_close k) = c_partial_send_buffer k"
  "c_partial_send_offset (conn_close k) = c_partial_send_offset k"
  by (simp_all add: conn_close_def)

lemma close_conn_inv: "tcp_client_inv c \<Longrightarrow> tcp_client_inv (close_conn c)"
proof -
  assume inv: "tcp_client_inv c"
  then obtain k where k: "tc_conn c = Some k" by (auto simp: tcp_client_inv_def)
  have "el_kernel (tc_loop (close_conn c)) \<subseteq> tc_open (close_conn c)"
    using inv k by (cases "c_fd k = -1")
      (simp_all add: tcp_client_inv_def close_conn_def close_fd_def kernel_close_def Diff_mono)
  then show ?thesis using inv k unfolding tcp_client_inv_def by simp
qed

lemma stop_here_simps [simp]:
  "tc_thread (stop_here c) = tc_thread c" "tc_checks (stop_here c) = tc_checks c" "tc_check (stop_here c) = tc_check c"
  "tc_conn (stop_here c) = map_option conn_close (tc_conn c)" "tc_received (stop_here c) = tc_received c"
  "tc_joiner (stop_here c) = tc_joiner c" "\<not> tc_running (stop_here c)"
  by (simp_all add: stop_here_def)

lemma stop_flag_inv: "tcp_client_inv c \<Longrightarrow> tcp_client_inv (client_stop_flag c)"
  by (simp add: tcp_client_inv_def client_stop_flag_def)

lemma stop_here_inv: "tcp_client_inv c \<Longrightarrow> tcp_client_inv (stop_here c)"
  using close_conn_inv [OF stop_flag_inv] by (simp add: stop_here_def client_stop_flag_def)

lemma set_conn_inv:
  "tcp_client_inv c \<Longrightarrow> tc_conn c = Some k \<Longrightarrow> rb_inv (c_recv_buffer k') \<Longrightarrow> c_fd k' = c_fd k \<Longrightarrow>
   tcp_client_inv (c\<lparr>tc_conn := Some k'\<rparr>)"
  by (auto simp: tcp_client_inv_def)

lemma loop_modify_inv:
  "tcp_client_inv c \<Longrightarrow> tcp_client_inv (c\<lparr>tc_loop := snd (loop_modify fd evs (tc_loop c))\<rparr>)"
  by (simp add: tcp_client_inv_def loop_modify_def)

text \<open>What a step of one thread leaves alone of the others.\<close>

definition threads_kept :: "tcp_client \<Rightarrow> tcp_client \<Rightarrow> bool" where
  "threads_kept c c' \<longleftrightarrow> tc_thread c' = tc_thread c \<and> tc_checks c' = tc_checks c \<and> tc_check c' = tc_check c"

lemma client_actions_inv:
  "tcp_client_inv c \<Longrightarrow> tcp_client_inv (client_actions acts c) \<and> threads_kept c (client_actions acts c)"
proof (induction acts arbitrary: c)
  case (Cons a acts)
  show ?case
  proof (cases a)
    case (CallRecv cid m)
    have "tcp_client_inv (c\<lparr>tc_received := tc_received c @ [m]\<rparr>)" using Cons.prems by (simp add: tcp_client_inv_def)
    from Cons.IH [OF this] show ?thesis using CallRecv by (simp add: threads_kept_def)
  next
    case (CallClose cid)
    then show ?thesis using Cons.IH [OF stop_here_inv [OF Cons.prems]] by (simp add: threads_kept_def)
  next
    case (EpollModify fd evs)
    from Cons.IH [OF loop_modify_inv [OF Cons.prems, of fd evs]] show ?thesis
      using EpollModify by (simp add: threads_kept_def)
  qed
qed (simp add: threads_kept_def)

lemma after_conn_inv:
  assumes "tcp_client_inv c" "tc_conn c = Some k" "rb_inv (c_recv_buffer k')" "c_fd k' = c_fd k"
  shows "tcp_client_inv (after_conn (acts, k') c) \<and> threads_kept c (after_conn (acts, k') c)"
  using client_actions_inv [OF set_conn_inv [OF assms], of acts] by (simp add: after_conn_def threads_kept_def)

text \<open>The connection after the actions is the one the method left, closed or not.\<close>

lemma client_actions_conn:
  "tc_conn c = Some k \<Longrightarrow> \<exists>k'. tc_conn (client_actions acts c) = Some k' \<and>
     c_partial_send_buffer k' = c_partial_send_buffer k \<and> c_partial_send_offset k' = c_partial_send_offset k"
proof (induction acts arbitrary: c k)
  case (Cons a acts)
  show ?case
  proof (cases a)
    case (CallRecv cid m)
    then show ?thesis using Cons.IH [of "c\<lparr>tc_received := tc_received c @ [m]\<rparr>" k] Cons.prems by simp
  next
    case (CallClose cid)
    have "tc_conn (stop_here c) = Some (conn_close k)" using Cons.prems by simp
    from Cons.IH [OF this] show ?thesis using CallClose by simp
  next
    case (EpollModify fd evs)
    then show ?thesis using Cons.IH [of "c\<lparr>tc_loop := snd (loop_modify fd evs (tc_loop c))\<rparr>" k] Cons.prems by simp
  qed
qed simp

lemma client_inv_conn:
  assumes "tcp_client_inv c"
  obtains k where "tc_conn c = Some k" "rb_inv (c_recv_buffer k)" "c_fd k \<noteq> -1 \<Longrightarrow> c_fd k \<in> tc_open c"
  using assms by (auto simp: tcp_client_inv_def)

lemma readable_inv:
  assumes "tcp_client_inv c" "tc_conn c = Some k"
  shows "\<exists>c' k'. client_readable now reads c = Inr c' \<and> tcp_client_inv c' \<and> threads_kept c c' \<and> tc_conn c' = Some k' \<and>
    c_partial_send_buffer k' = c_partial_send_buffer k \<and> c_partial_send_offset k' = c_partial_send_offset k"
proof -
  have "rb_inv (c_recv_buffer k)" using assms by (simp add: tcp_client_inv_def)
  then obtain acts k1 where r: "onReadable now (if c_fd k = -1 then [RErrno False] else reads) k = Some (acts, k1)"
      "rb_inv (c_recv_buffer k1)" "c_fd k1 = c_fd k" "c_partial_send_buffer k1 = c_partial_send_buffer k"
      "c_partial_send_offset k1 = c_partial_send_offset k"
    by (rule onReadable_total)
  have "\<exists>k'. tc_conn (after_conn (acts, k1) c) = Some k' \<and> c_partial_send_buffer k' = c_partial_send_buffer k1 \<and>
      c_partial_send_offset k' = c_partial_send_offset k1"
    unfolding after_conn_def by (rule client_actions_conn) simp
  then show ?thesis using after_conn_inv [OF assms r(2,3), of acts] r assms(2) by (auto simp: client_readable_def)
qed

lemma writable_inv:
  assumes "tcp_client_inv c" "tc_conn c = Some k"
    "fst wres \<le> int (length (c_partial_send_buffer k) - c_partial_send_offset k)"
  shows "\<exists>c'. client_writable now wres c = Inr c' \<and> tcp_client_inv c' \<and> threads_kept c c'"
proof -
  let ?res = "if c_fd k = -1 then (-1, False) else wres"
  have "fst ?res \<le> int (length (c_partial_send_buffer k) - c_partial_send_offset k)" using assms(3) by simp
  from onWritable_total [OF this, of now] obtain out acts k1 where
    r: "onWritable now ?res k = Some (out, acts, k1)" "c_recv_buffer k1 = c_recv_buffer k" "c_fd k1 = c_fd k" by blast
  moreover have "rb_inv (c_recv_buffer k1)" using r(2) assms by (simp add: tcp_client_inv_def)
  ultimately show ?thesis using after_conn_inv [OF assms(1,2) _ r(3), of acts] assms(2) by (auto simp: client_writable_def)
qed

lemma events_inv:
  assumes "tcp_client_inv c" "step_ok (Events now events reads wres) c"
  shows "\<exists>c'. client_eventHandler now events reads wres c = Inr c' \<and> tcp_client_inv c' \<and> threads_kept c c'"
proof (cases "EV_RDHUP \<in> events")
  case True
  then show ?thesis using stop_here_inv [OF assms(1)] by (simp add: client_eventHandler_def threads_kept_def)
next
  case False
  obtain k where k: "tc_conn c = Some k" using assms(1) by (rule client_inv_conn)
  obtain c1 k1 where c1: "(if EV_READ \<in> events then client_readable now reads c else Inr c) = Inr c1" "tcp_client_inv c1"
      "threads_kept c c1" "tc_conn c1 = Some k1"
      "c_partial_send_buffer k1 = c_partial_send_buffer k" "c_partial_send_offset k1 = c_partial_send_offset k"
    using readable_inv [OF assms(1) k, of now reads] assms(1) k that
    by (cases "EV_READ \<in> events") (auto simp: threads_kept_def)
  have "fst wres \<le> int (length (c_partial_send_buffer k1) - c_partial_send_offset k1)" using assms(2) k c1 by simp
  from writable_inv [OF c1(2,4) this, of now] show ?thesis
    using False c1 unfolding client_eventHandler_def threads_kept_def by (cases "EV_WRITE \<in> events") auto
qed

text \<open>\<open>stop\<close> on another thread.\<close>

lemma stop_begin_inv:
  assumes "tcp_client_inv c" "stop_begin (Caller t) c = Inr c'"
  shows "tcp_client_inv c' \<and> threads_kept c c'"
proof (cases "tc_thread c = NoThread")
  case True
  then show ?thesis using assms close_conn_inv [OF stop_flag_inv [OF assms(1)]]
    by (auto simp: stop_begin_def threads_kept_def client_stop_flag_def)
next
  case False
  then have "c' = (client_stop_flag c)\<lparr>tc_joiner := Some (Caller t)\<rparr>" "tc_joiner c = None"
    using assms(2) by (auto simp: stop_begin_def split: if_splits)
  then show ?thesis using assms(1) False by (auto simp: tcp_client_inv_def client_stop_flag_def threads_kept_def)
qed

lemma stop_joined_inv:
  assumes "tcp_client_inv c" "tc_joiner c = Some (Caller t)"
  shows "tcp_client_inv (client_stop_joined c)"
proof -
  have "tcp_client_inv (c\<lparr>tc_thread := NoThread, tc_joiner := None\<rparr>)" using assms by (auto simp: tcp_client_inv_def)
  from close_conn_inv [OF this] show ?thesis by (simp add: client_stop_joined_def)
qed

lemma check_joined_inv:
  assumes "tcp_client_inv c" "tc_check c = StopJoins"
  shows "tcp_client_inv (check_joined c)"
proof -
  have e: "client_stop_joined (c\<lparr>tc_check := Restarts\<rparr>) =
      (close_conn (c\<lparr>tc_thread := NoThread, tc_joiner := None, tc_check := Outside\<rparr>))\<lparr>tc_check := Restarts\<rparr>"
    by (simp add: client_stop_joined_def close_conn_def close_fd_def split: option.split)
  have "tcp_client_inv (c\<lparr>tc_thread := NoThread, tc_joiner := None, tc_check := Outside\<rparr>)"
    using assms by (auto simp: tcp_client_inv_def)
  from close_conn_inv [OF this] show ?thesis unfolding check_joined_def e
    by (auto simp: tcp_client_inv_def)
qed

lemma send_impl_actions:
  "send_impl now pack res k = Some (out, acts, k1) \<Longrightarrow>
   acts = [] \<or> acts = [CallClose (c_conn_id k)] \<or> acts = [EpollModify (c_fd k) WRITE_MASK]"
  by (auto simp: send_impl_def Let_def split: prod.splits if_splits Option.bind_splits)

lemma caller_actions_inv:
  assumes "tcp_client_inv c" "acts = [] \<or> acts = [CallClose i] \<or> acts = [EpollModify fd evs]" "tc_joiner c = None"
  shows "\<exists>c'. caller_actions (Caller t) acts c = Inr c' \<and> tcp_client_inv c' \<and> threads_kept c c'"
proof -
  consider "acts = []" | "acts = [CallClose i]" | "acts = [EpollModify fd evs]" using assms(2) by blast
  then show ?thesis
  proof cases
    case 2
    obtain c' where "stop_begin (Caller t) c = Inr c'"
      using assms(3) by (cases "tc_thread c = NoThread") (simp_all add: stop_begin_def Let_def)
    then show ?thesis using 2 stop_begin_inv [OF assms(1)] by simp
  next
    case 3
    then show ?thesis using loop_modify_inv [OF assms(1)] by (simp add: threads_kept_def)
  qed (use assms(1) in \<open>simp add: threads_kept_def\<close>)
qed

lemma client_send_inv:
  assumes "tcp_client_inv c" "pack_ok pack" "fst wres \<le> int (h_pack_len (Header_of pack))"
  shows "\<exists>out c'. client_send (Caller t) now pack wres c = Inr (out, c') \<and> tcp_client_inv c' \<and> threads_kept c c'"
proof (cases "tc_running c")
  case False
  then show ?thesis using assms(1) by (simp add: client_send_def threads_kept_def)
next
  case True
  obtain k where k: "tc_conn c = Some k" "rb_inv (c_recv_buffer k)" using assms(1) by (rule client_inv_conn)
  let ?res = "if c_fd k = -1 then (-1, False) else wres"
  have "fst ?res \<le> int (h_pack_len (Header_of pack))" using assms(3) by simp
  from send_impl_total [OF assms(2) this, of now k] obtain out acts k1 where
    r: "send_impl now pack ?res k = Some (out, acts, k1)" "c_recv_buffer k1 = c_recv_buffer k" "c_fd k1 = c_fd k" by blast
  let ?c = "c\<lparr>tc_conn := Some k1\<rparr>"
  have "tc_joiner ?c = None" using assms(1) True by (cases "tc_joiner c") (auto simp: tcp_client_inv_def)
  moreover have "tcp_client_inv ?c" by (rule set_conn_inv [OF assms(1) k(1)]) (use r(2,3) k(2) in simp_all)
  ultimately obtain c' where "caller_actions (Caller t) acts ?c = Inr c'" "tcp_client_inv c'" "threads_kept ?c c'"
    using caller_actions_inv [OF _ send_impl_actions [OF r(1)]] by blast
  then show ?thesis using r(1) True k(1) by (auto simp: client_send_def threads_kept_def)
qed

text \<open>A start succeeds or fails, but does not end the process, if the thread object is free.\<close>

lemma start_cases:
  assumes free: "tc_thread c = NoThread" and env: "env_ok env c" and kern: "el_kernel (tc_loop c) \<subseteq> tc_open c"
    and old: "\<And>k. tc_conn c = Some k \<Longrightarrow> c_fd k \<noteq> -1 \<Longrightarrow> c_fd k \<in> tc_open c"
  obtains (failed) c1 where "\<not> (0 \<le> ce_socket env \<and> ce_nodelay env \<and> established (ce_connect env))"
      "start_connects env now c = Inr (False, c1)" "threads_kept c c1" "tc_joiner c1 = tc_joiner c"
      "tc_conn c1 = tc_conn c" "tc_open c \<subseteq> tc_open c1" "el_kernel (tc_loop c1) \<subseteq> tc_open c1"
  | (started) c1 buf where "start_connects env now c = Inr (True, c1)" "tc_thread c1 = Looping" "tc_checks c1 = tc_checks c + 1"
      "tc_check c1 = tc_check c" "tc_joiner c1 = tc_joiner c" "tc_running c1 = tc_running c" "tc_received c1 = tc_received c"
      "tc_conn c1 = Some (Connection_ctor (ce_socket env) client_conn_id now buf)" "rb_inv buf" "contents buf = []"
      "ce_socket env \<in> tc_open c1" "el_kernel (tc_loop c1) \<subseteq> tc_open c1" "tc_open c1 \<subseteq> insert (ce_socket env) (tc_open c)"
proof -
  let ?s = "ce_socket env"
  obtain m where m: "ce_region env = Some m" "length (rb_buffer m) = ring_default_size" and fresh: "?s \<notin> tc_open c"
    using env by (auto simp: env_ok_def)
  have "0 < ring_default_size" "ring_default_size < 2 ^ 63" by (simp_all add: ring_default_size_def)
  then obtain buf where buf: "ShmRingBuffer_ctor 1 ring_default_size (ce_region env) = Some buf" "rb_inv buf" "contents buf = []"
    using ctor_spec [of ring_default_size m 1] m by auto
  have add: "?s \<notin> el_kernel (tc_loop c)" using fresh kern by blast
  show thesis
  proof (cases "0 \<le> ?s \<and> ce_nodelay env \<and> established (ce_connect env)")
    case True
    define c2 where "c2 = c\<lparr>tc_sock := ?s, tc_open := insert ?s (tc_open c),
        tc_loop := snd (loop_add ?s {EV_READ, EV_EDGE_TRIGGER} () (tc_loop c))\<rparr>"
    define c1 where "c1 = (close_conn c2)\<lparr>tc_conn := Some (Connection_ctor ?s client_conn_id now buf),
        tc_thread := Looping, tc_checks := tc_checks c + 1\<rparr>"
    have go: "start_connects env now c = Inr (True, c1)"
      using True add buf(1) free
      by (simp add: start_connects_def connectToServer_def Let_def loop_add_def c1_def c2_def)
    have "?s \<in> tc_open c1 \<and> el_kernel (tc_loop c1) \<subseteq> tc_open c1 \<and> tc_open c1 \<subseteq> insert ?s (tc_open c)"
      using kern old fresh True
      by (auto simp: c1_def c2_def close_conn_def close_fd_def kernel_close_def loop_add_def split: option.splits)
    then show thesis using True buf by (intro started [OF go]) (simp_all add: c1_def c2_def)
  next
    case False
    define c1 where "c1 = (if ?s < 0 then c\<lparr>tc_sock := ?s\<rparr>
      else if \<not> ce_nodelay env then c\<lparr>tc_sock := ?s, tc_open := insert ?s (tc_open c)\<rparr>
      else (close_fd ?s (c\<lparr>tc_sock := ?s, tc_open := insert ?s (tc_open c)\<rparr>))\<lparr>tc_sock := -1\<rparr>)"
    have go: "start_connects env now c = Inr (False, c1)"
      using False by (auto simp: start_connects_def connectToServer_def Let_def c1_def)
    show thesis using kern fresh free
      by (intro failed [OF False go]) (auto simp: c1_def close_fd_def kernel_close_def threads_kept_def)
  qed
qed

text \<open>\<open>n\<close> counts the starts that succeeded.\<close>

inductive client_reachable :: "tcp_client \<Rightarrow> nat \<Rightarrow> bool" where
  first: "client_start env now TcpClient_ctor = Inr (True, c) \<Longrightarrow> env_ok env TcpClient_ctor \<Longrightarrow> client_reachable c 1"
| step: "client_reachable c n \<Longrightarrow> step_ok x c \<Longrightarrow> client_exec x c = Some (Inr c') \<Longrightarrow>
    client_reachable c' (if tc_thread c \<noteq> Looping \<and> tc_thread c' = Looping then n + 1 else n)"

lemma started_inv:
  assumes "tc_conn c1 = Some (Connection_ctor s client_conn_id now buf)" "rb_inv buf" "tc_thread c1 = Looping"
    "0 < tc_checks c1" "tc_check c1 = Outside" "tc_joiner c1 = None" "s \<in> tc_open c1" "el_kernel (tc_loop c1) \<subseteq> tc_open c1"
  shows "tcp_client_inv c1"
  using assms by (simp add: tcp_client_inv_def Connection_ctor_def)

definition kept :: "tcp_client \<Rightarrow> tcp_client \<Rightarrow> bool" where
  "kept c c' \<longleftrightarrow> tcp_client_inv c' \<and>
     tc_checks c' = tc_checks c + (if tc_thread c \<noteq> Looping \<and> tc_thread c' = Looping then 1 else 0)"

lemma kept_threads: "tcp_client_inv c' \<Longrightarrow> threads_kept c c' \<Longrightarrow> kept c c'"
  by (simp add: kept_def threads_kept_def)

lemma stop_begin_free: "tc_joiner c = None \<Longrightarrow> \<exists>c'. stop_begin t c = Inr c'"
  by (cases "tc_thread c = NoThread") (simp_all add: stop_begin_def Let_def)

lemma check_begin_kept:
  assumes "tcp_client_inv c" "tc_check c = Outside" "check_begin now c = Inr c'"
  shows "kept c c'"
proof -
  obtain k where k: "tc_conn c = Some k" using assms(1) by (rule client_inv_conn)
  consider "c' = c" | "tc_thread c = NoThread" "c' = (close_conn (client_stop_flag c))\<lparr>tc_check := Restarts\<rparr>" "tc_joiner c = None"
    | "tc_thread c \<noteq> NoThread" "c' = (client_stop_flag c)\<lparr>tc_joiner := Some TimerThread, tc_check := StopJoins\<rparr>" "tc_joiner c = None"
    using assms k by (auto simp: check_begin_def stop_begin_def Let_def client_stop_flag_def tcp_client_inv_def
        split: sum.splits if_splits)
  then show ?thesis
  proof cases
    case 1
    then show ?thesis using assms(1) by (simp add: kept_def)
  next
    case 2
    have "tcp_client_inv (close_conn (client_stop_flag c))" by (intro close_conn_inv stop_flag_inv assms)
    then have "tcp_client_inv c'" using 2 assms(2) by (auto simp: tcp_client_inv_def client_stop_flag_def)
    then show ?thesis using 2 by (simp add: kept_def client_stop_flag_def)
  next
    case 3
    have "tcp_client_inv c'" using stop_flag_inv [OF assms(1)] 3 assms(2)
      by (auto simp: tcp_client_inv_def client_stop_flag_def)
    then show ?thesis using 3 by (simp add: kept_def client_stop_flag_def)
  qed
qed

lemma check_connect_kept:
  assumes "tcp_client_inv c" "tc_check c = Connects" "env_ok env c"
  shows "\<exists>c'. check_connect env now c = Inr c' \<and> kept c c'"
proof -
  obtain k where k: "tc_conn c = Some k" "0 < tc_checks c" "rb_inv (c_recv_buffer k)" "c_fd k = -1"
      "el_kernel (tc_loop c) \<subseteq> tc_open c" "tc_thread c = NoThread" "tc_joiner c = None"
    using assms(1,2) by (cases "tc_joiner c") (auto simp: tcp_client_inv_def)
  let ?c = "c\<lparr>tc_check := Outside\<rparr>"
  have 1: "tc_thread ?c = NoThread" "env_ok env ?c" "el_kernel (tc_loop ?c) \<subseteq> tc_open ?c"
    using k(5,6) assms(3) by (simp_all add: env_ok_def)
  have 2: "c_fd j \<in> tc_open ?c" if "tc_conn ?c = Some j" "c_fd j \<noteq> -1" for j using that k by simp
  show ?thesis
  proof (rule start_cases [OF 1 2, of now])
    fix c1
    assume failed: "start_connects env now ?c = Inr (False, c1)" "threads_kept ?c c1" "tc_joiner c1 = tc_joiner ?c"
      "tc_conn c1 = tc_conn ?c" "tc_open ?c \<subseteq> tc_open c1" "el_kernel (tc_loop c1) \<subseteq> tc_open c1"
    have "tcp_client_inv c1" using failed k by (simp add: tcp_client_inv_def threads_kept_def)
    then show ?thesis using failed k by (auto simp: check_connect_def kept_def threads_kept_def)
  next
    fix c1 buf
    assume started: "start_connects env now ?c = Inr (True, c1)" "tc_thread c1 = Looping"
      "tc_checks c1 = tc_checks ?c + 1" "tc_check c1 = tc_check ?c" "tc_joiner c1 = tc_joiner ?c"
      "tc_conn c1 = Some (Connection_ctor (ce_socket env) client_conn_id now buf)" "rb_inv buf"
      "ce_socket env \<in> tc_open c1" "el_kernel (tc_loop c1) \<subseteq> tc_open c1"
    have "tcp_client_inv c1" by (rule started_inv [OF started(6,7)]) (use started k in simp_all)
    then show ?thesis using started k by (auto simp: check_connect_def kept_def)
  qed
qed

text \<open>
  A step keeps the invariant, and the only one that can go wrong at this grain is the beginning of a
  second \<open>join\<close>.
\<close>

definition joins_twice :: "client_step \<Rightarrow> tcp_client \<Rightarrow> bool" where
  "joins_twice x c \<longleftrightarrow> tc_joiner c \<noteq> None \<and>
     (case x of CheckBegins now \<Rightarrow> \<forall>k. tc_conn c = Some k \<longrightarrow> HEARTBEAT_TIMEOUT_SECONDS < idle_seconds now k
      | StopBegins t \<Rightarrow> True | _ \<Rightarrow> False)"

lemma client_step_inv:
  assumes "tcp_client_inv c" "step_ok x c" "client_exec x c = Some r"
  shows "if joins_twice x c then r = Inl Undefined else \<exists>c'. r = Inr c' \<and> kept c c'"
proof (cases x)
  case (Events now events reads wres)
  then have st: "step_ok (Events now events reads wres) c" and r: "r = client_eventHandler now events reads wres c"
    using assms(2,3) by (simp_all split: if_splits)
  show ?thesis using events_inv [OF assms(1) st] kept_threads r Events by (auto simp: joins_twice_def)
next
  case LoopEnds
  then have r: "r = Inr (c\<lparr>tc_thread := Returned\<rparr>)" "tc_thread c = Looping" using assms(3) by (simp_all split: if_splits)
  then have "kept c (c\<lparr>tc_thread := Returned\<rparr>)" using assms(1) by (auto simp: tcp_client_inv_def kept_def)
  then show ?thesis using r LoopEnds by (simp add: joins_twice_def)
next
  case (CheckBegins now)
  then have o: "tc_check c = Outside" and r: "r = check_begin now c" using assms(3) by (simp_all split: if_splits)
  obtain k where k: "tc_conn c = Some k" using assms(1) by (rule client_inv_conn)
  have thr: "tc_joiner c \<noteq> None \<Longrightarrow> tc_thread c \<noteq> NoThread" using assms(1) by (simp add: tcp_client_inv_def)
  show ?thesis
  proof (cases "joins_twice x c")
    case True
    then show ?thesis using thr r k CheckBegins by (simp add: joins_twice_def check_begin_def stop_begin_def Let_def)
  next
    case False
    then have "tc_joiner c = None \<or> \<not> HEARTBEAT_TIMEOUT_SECONDS < idle_seconds now k"
      using k CheckBegins by (auto simp: joins_twice_def)
    then obtain c' where "r = Inr c'"
      using r k stop_begin_free [of c TimerThread] by (cases "tc_joiner c = None") (fastforce simp: check_begin_def)+
    then show ?thesis using False check_begin_kept [OF assms(1) o] r by simp
  qed
next
  case CheckJoined
  then have c: "tc_check c = StopJoins" "tc_thread c \<noteq> Looping" and r: "r = Inr (check_joined c)"
    using assms(3) by (simp_all split: if_splits)
  have "kept c (check_joined c)" using check_joined_inv [OF assms(1) c(1)] c(2)
    by (simp add: kept_def check_joined_def client_stop_joined_def)
  then show ?thesis using r CheckJoined by (simp add: joins_twice_def)
next
  case CheckRestarts
  then have c: "tc_check c = Restarts" and r: "r = Inr (check_restart c)" using assms(3) by (simp_all split: if_splits)
  have "kept c (check_restart c)" using assms(1) c by (auto simp: kept_def check_restart_def tcp_client_inv_def)
  then show ?thesis using r CheckRestarts by (simp add: joins_twice_def)
next
  case (CheckConnects env now)
  then have "tc_check c = Connects" "env_ok env c" "r = check_connect env now c"
    using assms(2,3) by (simp_all split: if_splits)
  then show ?thesis using check_connect_kept [OF assms(1)] CheckConnects by (simp add: joins_twice_def)
next
  case (Sends t now pack wres)
  then have st: "pack_ok pack" "fst wres \<le> int (h_pack_len (Header_of pack))"
    and r: "r = map_sum id snd (client_send (Caller t) now pack wres c)"
    using assms(2,3) by (simp_all split: if_splits)
  show ?thesis using client_send_inv [OF assms(1) st, of t now] kept_threads r Sends
    by (auto simp: joins_twice_def)
next
  case (StopBegins t)
  then have r: "r = stop_begin (Caller t) c" using assms(3) by (simp split: if_splits)
  have thr: "tc_joiner c \<noteq> None \<Longrightarrow> tc_thread c \<noteq> NoThread" using assms(1) by (simp add: tcp_client_inv_def)
  show ?thesis
  proof (cases "tc_joiner c")
    case None
    then obtain c' where "r = Inr c'" using r stop_begin_free by blast
    then show ?thesis using stop_begin_inv [OF assms(1)] kept_threads r None by (simp add: joins_twice_def)
  next
    case (Some u)
    then show ?thesis using thr r StopBegins by (simp add: joins_twice_def stop_begin_def Let_def)
  qed
next
  case (StopEnds t)
  then have c: "tc_joiner c = Some (Caller t)" "tc_thread c \<noteq> Looping" and r: "r = Inr (client_stop_joined c)"
    using assms(3) by (simp_all split: if_splits)
  have "kept c (client_stop_joined c)" using stop_joined_inv [OF assms(1) c(1)] c(2)
    by (simp add: kept_def client_stop_joined_def)
  then show ?thesis using r StopEnds by (simp add: joins_twice_def)
qed

lemma reachable_client_inv: "client_reachable c n \<Longrightarrow> tcp_client_inv c \<and> tc_checks c = n"
proof (induction rule: client_reachable.induct)
  case (first env now c)
  let ?c = "TcpClient_ctor\<lparr>tc_running := True\<rparr>"
  have 1: "tc_thread ?c = NoThread" "env_ok env ?c" "el_kernel (tc_loop ?c) \<subseteq> tc_open ?c"
    using first(2) by (simp_all add: TcpClient_ctor_def EventLoop_ctor_def env_ok_def)
  have 2: "c_fd k \<in> tc_open ?c" if "tc_conn ?c = Some k" "c_fd k \<noteq> -1" for k
    using that by (simp add: TcpClient_ctor_def)
  show ?case
  proof (rule start_cases [OF 1 2, of now])
    fix c1 assume "start_connects env now ?c = Inr (False, c1)"
    then show ?thesis using first(1) by (simp add: client_start_def)
  next
    fix c1 buf
    assume started: "start_connects env now ?c = Inr (True, c1)" "tc_thread c1 = Looping"
      "tc_checks c1 = tc_checks ?c + 1" "tc_check c1 = tc_check ?c" "tc_joiner c1 = tc_joiner ?c"
      "tc_conn c1 = Some (Connection_ctor (ce_socket env) client_conn_id now buf)" "rb_inv buf"
      "ce_socket env \<in> tc_open c1" "el_kernel (tc_loop c1) \<subseteq> tc_open c1"
    then have "c1 = c" "tc_check c1 = Outside" "tc_checks c1 = 1" "tc_joiner c1 = None"
      using first(1) by (simp_all add: TcpClient_ctor_def client_start_def)
    moreover have "tcp_client_inv c1" by (rule started_inv [OF started(6,7)]) (use started calculation in simp_all)
    ultimately show ?thesis by simp
  qed
next
  case (step c n x c')
  then show ?case using client_step_inv [of c x "Inr c'"] by (auto simp: kept_def split: if_splits)
qed

section \<open>Properties\<close>

text \<open>
  A connection that has been idle for more than 30 seconds, a caller whose send the kernel refuses, and the
  periodic check: the caller's \<open>send\<close> calls \<open>stop\<close>, which waits for the event thread. The check, or any other
  caller's \<open>stop\<close>, that comes before the event thread has noticed joins the same \<open>std::thread\<close> a second
  time, which is undefined. If it comes after the \<open>join\<close>, the check restarts the client.
\<close>

lemma closing_send:
  assumes "tc_running c" "tc_conn c = Some k"
    "send_impl now pack (if c_fd k = -1 then (-1, False) else wres) k = Some ([], [CallClose i], k)"
  shows "client_send t now pack wres c = map_sum id (Pair []) (stop_begin t c)"
proof -
  have e: "c\<lparr>tc_conn := Some k\<rparr> = c" using assms(2) by simp
  have "client_send t now pack wres c = map_sum id (Pair []) (caller_actions t [CallClose i] (c\<lparr>tc_conn := Some k\<rparr>))"
    using assms by (simp add: client_send_def)
  then show ?thesis unfolding e by (simp split: sum.split)
qed

lemma refused_send:
  assumes "tcp_client_inv c" "tc_running c" "tc_thread c = Looping" "tc_conn c = Some k"
    "pack_ok pack" "fst wres \<le> 0" "\<not> snd wres" "0 < h_pack_len (Header_of pack)"
  shows "client_send (Caller t) now pack wres c =
    Inr ([], (client_stop_flag c)\<lparr>tc_joiner := Some (Caller t)\<rparr>)"
proof -
  let ?res = "if c_fd k = -1 then (-1, False) else wres"
  have l: "18 \<le> length pack" using assms(5) by (simp add: pack_ok_def sizeof_Header_def)
  have p: "get_pack_ptr (c_conn_id k) pack = Some (take 10 pack @ le_bytes 8 (c_conn_id k) @ drop 18 pack)"
    using l by (simp add: get_pack_ptr_def mem_write_def)
  have h: "h_pack_len (Header_of (take 10 pack @ le_bytes 8 (c_conn_id k) @ drop 18 pack)) = h_pack_len (Header_of pack)"
    using l by (simp add: Header_of_def field_def drop_take)
  have "send_impl now pack ?res k = Some ([], [CallClose (c_conn_id k)], k)"
    using assms(5-8) p h by (cases wres) (auto simp: send_impl_def mem_read_def pack_ok_def Let_def)
  moreover have "tc_joiner c = None" using assms(1,2) by (cases "tc_joiner c") (auto simp: tcp_client_inv_def)
  ultimately show ?thesis using closing_send [OF assms(2,4)] assms(3) by (simp add: stop_begin_def Let_def)
qed

text \<open>
  When a caller's send on a running client fails for good, \<open>send\<close> calls \<open>stop\<close> on the caller's thread, which
  waits there for the event thread to end. Until then any other \<open>stop\<close> joins the same thread object a second
  time, which is undefined: that of a second caller, and that of the periodic check if the connection has been
  idle for more than 30 seconds. When the event thread has ended and the first \<open>join\<close> has returned, the
  connection is closed and the check goes on to restart the client.
\<close>

theorem refused_send_joins_twice:
  assumes "client_reachable c n" "tc_running c" "tc_thread c = Looping" "tc_check c = Outside" "tc_conn c = Some k"
    and "pack_ok pack" "0 < h_pack_len (Header_of pack)" "fst wres \<le> 0" "\<not> snd wres"
    and "u \<noteq> t" "30 < idle_seconds now' k"
  shows "client_run [Sends t now pack wres, StopBegins u] c = Some (Inl Undefined) \<and>
    client_run [Sends t now pack wres, CheckBegins now'] c = Some (Inl Undefined) \<and>
    (\<exists>c'. client_run [Sends t now pack wres, LoopEnds, StopEnds t, CheckBegins now'] c = Some (Inr c') \<and>
      tc_check c' = Restarts \<and> tc_thread c' = NoThread \<and> \<not> tc_running c' \<and> tc_conn c' = Some (conn_close k))"
proof -
  have inv: "tcp_client_inv c" and n: "0 < tc_checks c" using reachable_client_inv [OF assms(1)]
    by (auto simp: tcp_client_inv_def)
  have j: "tc_joiner c = None" using inv assms(2) by (cases "tc_joiner c") (auto simp: tcp_client_inv_def)
  let ?c1 = "(client_stop_flag c)\<lparr>tc_joiner := Some (Caller t)\<rparr>"
  have s: "client_exec (Sends t now pack wres) c = Some (Inr ?c1)"
    using refused_send [OF inv assms(2,3,5,6,8,9,7), of t now] j by simp
  have u: "client_exec (StopBegins u) ?c1 = Some (Inl Undefined)"
    using assms(3,10) by (simp add: stop_begin_def client_stop_flag_def)
  have b: "client_exec (CheckBegins now') ?c1 = Some (Inl Undefined)"
    using assms(3,4,5,11) n by (simp add: check_begin_def stop_begin_def client_stop_flag_def HEARTBEAT_TIMEOUT_SECONDS_def)
  let ?c2 = "?c1\<lparr>tc_thread := Returned\<rparr>" let ?c3 = "client_stop_joined ?c2"
  have l: "client_exec LoopEnds ?c1 = Some (Inr ?c2)" using assms(3) by (simp add: client_stop_flag_def)
  have e: "client_exec (StopEnds t) ?c2 = Some (Inr ?c3)" by simp
  have c3: "tc_thread ?c3 = NoThread" "tc_check ?c3 = Outside" "tc_checks ?c3 = tc_checks c"
    "tc_conn ?c3 = Some (conn_close k)" "\<not> tc_running ?c3"
    using assms(4,5) by (simp_all add: client_stop_joined_def client_stop_flag_def)
  have i: "idle_seconds now' (conn_close k) = idle_seconds now' k" by (simp add: idle_seconds_def)
  have jj: "tc_joiner ?c3 = None" by (simp add: client_stop_joined_def)
  define c4 where "c4 = (close_conn (client_stop_flag ?c3))\<lparr>tc_check := Restarts\<rparr>"
  have g: "client_exec (CheckBegins now') ?c3 = Some (Inr c4)"
    using c3 jj i n assms(11)
    by (simp add: c4_def check_begin_def stop_begin_def client_stop_flag_def HEARTBEAT_TIMEOUT_SECONDS_def)
  have c4: "tc_check c4 = Restarts" "tc_thread c4 = NoThread" "\<not> tc_running c4" "tc_conn c4 = Some (conn_close k)"
    using c3 by (simp_all add: c4_def client_stop_flag_def conn_close_def)
  show ?thesis
    by (simp only: client_run.simps s u b l e g option.case sum.case) (use c4 in blast)
qed

text \<open>
  C34: While the periodic check reconnects a client, \<open>running_\<close> is set again and \<open>conn_\<close> is still the connection that
  was closed. Any message sent in that time, whatever its content, is not sent, and stops the client: even if
  the peer accepts the new connection, the client is not running afterwards, its new event thread ends at its
  first look at the flag, and further messages are dropped without a word.
\<close>

theorem send_spoils_reconnect:
  assumes "client_reachable c n" "tc_check c = Connects" "tc_running c" "pack_ok pack" "0 < h_pack_len (Header_of pack)"
    "fst wres \<le> int (h_pack_len (Header_of pack))" "env_ok env c"
    "0 \<le> ce_socket env" "ce_nodelay env" "established (ce_connect env)"
  shows "(\<exists>c1. client_send (Caller t) now pack wres c = Inr ([], c1)) \<and>
    (\<exists>c2. client_run [Sends t now pack wres, CheckConnects env now', LoopEnds] c = Some (Inr c2) \<and>
    \<not> tc_running c2 \<and> tc_thread c2 = Returned \<and> tc_checks c2 = n + 1 \<and>
    (\<exists>buf. tc_conn c2 = Some (Connection_ctor (ce_socket env) client_conn_id now' buf)) \<and>
    client_send (Caller u) now2 pack2 wres2 c2 = Inr ([], c2))"
    (is "_ \<and> (\<exists>c2. ?after c2)")
proof -
  have inv: "tcp_client_inv c" and n: "tc_checks c = n" using reachable_client_inv [OF assms(1)] by auto
  obtain k where k: "tc_conn c = Some k" "c_fd k = -1" "tc_thread c = NoThread" "tc_joiner c = None"
    using inv assms(2,3) by (cases "tc_joiner c") (auto simp: tcp_client_inv_def)
  let ?c1 = "close_conn (client_stop_flag c)"
  have l: "18 \<le> length pack" using assms(4) by (simp add: pack_ok_def sizeof_Header_def)
  have p: "get_pack_ptr (c_conn_id k) pack = Some (take 10 pack @ le_bytes 8 (c_conn_id k) @ drop 18 pack)"
    using l by (simp add: get_pack_ptr_def mem_write_def)
  have h: "h_pack_len (Header_of (take 10 pack @ le_bytes 8 (c_conn_id k) @ drop 18 pack)) = h_pack_len (Header_of pack)"
    using l by (simp add: Header_of_def field_def drop_take)
  have "send_impl now pack (-1, False) k = Some ([], [CallClose (c_conn_id k)], k)"
    using assms(4) p h by (auto simp: send_impl_def mem_read_def pack_ok_def Let_def)
  then have s: "client_send (Caller t) now pack wres c = Inr ([], ?c1)"
    using closing_send [OF assms(3) k(1)] k by (simp add: stop_begin_def Let_def)
  then have s': "client_exec (Sends t now pack wres) c = Some (Inr ?c1)" using k by simp
  have inv1: "tcp_client_inv ?c1" by (intro close_conn_inv stop_flag_inv inv)
  have open1: "tc_open ?c1 = tc_open c" using k by (simp add: close_conn_def client_stop_flag_def)
  let ?d = "?c1\<lparr>tc_check := Outside\<rparr>"
  have t1: "tc_thread ?d = NoThread" using k(3) by (simp add: client_stop_flag_def)
  have "tc_open ?d = tc_open c" using open1 by simp
  then have t2: "env_ok env ?d" using assms(7) unfolding env_ok_def by metis
  have "el_kernel (tc_loop ?c1) \<subseteq> tc_open ?c1" using inv1 by (simp only: tcp_client_inv_def)
  then have t3: "el_kernel (tc_loop ?d) \<subseteq> tc_open ?d" by simp
  note pre = t1 t2 t3
  have old: "c_fd j \<in> tc_open ?d" if "tc_conn ?d = Some j" "c_fd j \<noteq> -1" for j
    using that k(1) by (auto simp: client_stop_flag_def)
  show ?thesis
  proof (rule start_cases [OF pre old, of now'])
    assume "\<not> (0 \<le> ce_socket env \<and> ce_nodelay env \<and> established (ce_connect env))"
    then show ?thesis using assms(8-10) by blast
  next
    fix c' buf
    assume st: "start_connects env now' ?d = Inr (True, c')" "tc_thread c' = Looping" "tc_checks c' = tc_checks ?d + 1"
      "tc_running c' = tc_running ?d" "tc_conn c' = Some (Connection_ctor (ce_socket env) client_conn_id now' buf)"
    have "client_exec (CheckConnects env now') ?c1 = Some (Inr c')"
      using st(1) assms(2) by (simp add: check_connect_def client_stop_flag_def)
    moreover have nr: "\<not> tc_running c'" using st(4) by (simp add: client_stop_flag_def)
    moreover have "client_exec LoopEnds c' = Some (Inr (c'\<lparr>tc_thread := Returned\<rparr>))" using nr st(2) by simp
    ultimately have "client_run [Sends t now pack wres, CheckConnects env now', LoopEnds] c =
        Some (Inr (c'\<lparr>tc_thread := Returned\<rparr>))"
      by (simp only: client_run.simps s' option.case sum.case)
    moreover have "tc_checks c' = n + 1" using st(3) n by (simp add: client_stop_flag_def)
    moreover have "client_send (Caller u) now2 pack2 wres2 (c'\<lparr>tc_thread := Returned\<rparr>) = Inr ([], c'\<lparr>tc_thread := Returned\<rparr>)"
      using nr by (simp add: client_send_def)
    ultimately have "?after (c'\<lparr>tc_thread := Returned\<rparr>)" using st(5) nr by (auto simp del: client_run.simps)
    then show ?thesis using s by blast
  qed
qed

text \<open>
  A client whose connection was closed, by the peer, an error or \<open>stop\<close>, sends nothing and stays closed as
  long as a check finds the last activity at most 30 seconds old; each message is dropped without a word.
  The first check after that reconnects, with an empty receive buffer, if the peer accepts, whoever
  stopped the client; and each reconnection leaves one more periodic check behind.
\<close>

theorem closed_client_waits:
  assumes "client_reachable c n" "\<not> tc_running c" "tc_thread c = Returned" "tc_joiner c = None" "tc_check c = Outside"
    "tc_conn c = Some k" "env_ok env (check_joined c)" "0 \<le> ce_socket env" "ce_nodelay env" "established (ce_connect env)"
  shows "client_send t now pack wres c = Inr ([], c) \<and>
    (if idle_seconds now k \<le> 30 then client_exec (CheckBegins now) c = Some (Inr c)
     else \<exists>c' buf. client_run [CheckBegins now, CheckJoined, CheckRestarts, CheckConnects env now'] c = Some (Inr c') \<and>
       tc_running c' \<and> tc_thread c' = Looping \<and> tc_checks c' = n + 1 \<and> tc_received c' = tc_received c \<and>
       tc_conn c' = Some (Connection_ctor (ce_socket env) client_conn_id now' buf) \<and> contents buf = [])"
proof -
  have inv: "tcp_client_inv c" and n: "tc_checks c = n" "0 < n"
    using reachable_client_inv [OF assms(1)] by (auto simp: tcp_client_inv_def)
  have send: "client_send t now pack wres c = Inr ([], c)" using assms(2) by (simp add: client_send_def)
  show ?thesis
  proof (cases "idle_seconds now k \<le> 30")
    case True
    then show ?thesis using send assms(5,6) n by (simp add: check_begin_def HEARTBEAT_TIMEOUT_SECONDS_def)
  next
    case False
    let ?c1 = "c\<lparr>tc_running := False, tc_joiner := Some TimerThread, tc_check := StopJoins\<rparr>"
    have b: "client_exec (CheckBegins now) c = Some (Inr ?c1)"
      using assms(3,4,5,6) n False
      by (simp add: check_begin_def stop_begin_def client_stop_flag_def HEARTBEAT_TIMEOUT_SECONDS_def)
    have j: "client_exec CheckJoined ?c1 = Some (Inr (check_joined ?c1))" using assms(3) by simp
    have "tcp_client_inv ?c1" using inv assms(3,5) by (auto simp: tcp_client_inv_def)
    then have i: "tcp_client_inv (check_joined ?c1)" by (rule check_joined_inv) simp
    have rs: "client_exec CheckRestarts (check_joined ?c1) = Some (Inr (check_restart (check_joined ?c1)))"
      by (simp add: check_joined_def client_stop_joined_def)
    let ?c = "(check_restart (check_joined ?c1))\<lparr>tc_check := Outside\<rparr>"
    have "tc_open (check_joined ?c1) = tc_open (check_joined c)"
      by (simp add: check_joined_def client_stop_joined_def close_conn_def close_fd_def split: option.split)
    then have pre: "tc_thread ?c = NoThread" "env_ok env ?c" "el_kernel (tc_loop ?c) \<subseteq> tc_open ?c"
      using i assms(7)
      by (simp_all add: check_restart_def check_joined_def client_stop_joined_def tcp_client_inv_def env_ok_def)
    have old: "c_fd x \<in> tc_open ?c" if "tc_conn ?c = Some x" "c_fd x \<noteq> -1" for x
      using i that by (simp add: tcp_client_inv_def check_restart_def)
    show ?thesis
    proof (rule start_cases [OF pre old, of now'])
      assume "\<not> (0 \<le> ce_socket env \<and> ce_nodelay env \<and> established (ce_connect env))"
      then show ?thesis using assms(8-10) by blast
    next
      fix c' buf
      assume started: "start_connects env now' ?c = Inr (True, c')" "tc_thread c' = Looping"
        "tc_checks c' = tc_checks ?c + 1" "tc_running c' = tc_running ?c" "tc_received c' = tc_received ?c"
        "tc_conn c' = Some (Connection_ctor (ce_socket env) client_conn_id now' buf)" "contents buf = []"
      have "client_exec (CheckConnects env now') (check_restart (check_joined ?c1)) = Some (Inr c')"
        using started(1) by (simp add: check_connect_def) (simp add: check_restart_def)
      then have "client_run [CheckBegins now, CheckJoined, CheckRestarts, CheckConnects env now'] c = Some (Inr c')"
        by (simp only: client_run.simps b j rs option.case sum.case)
      moreover have "tc_checks c' = n + 1" "tc_received c' = tc_received c" "tc_running c'"
        using started(3,4,5) n(1) by (simp_all add: check_joined_def client_stop_joined_def check_restart_def)
      ultimately show ?thesis using send started False by (simp del: client_run.simps client_exec.simps) blast
    qed
  qed
qed

definition blank_region_of :: "nat \<Rightarrow> 8 word ring" where
  "blank_region_of n = \<lparr>rb_head = 0, rb_tail = 0, rb_capacity = 0, rb_element_size = 0, rb_initialized = False,
     rb_ring_size = 0, rb_buffer = replicate n 0\<rparr>"

definition good_env :: "int \<Rightarrow> connect_env" where
  "good_env fd = \<lparr>ce_socket = fd, ce_nodelay = True, ce_connect = InProgress 1 0,
     ce_region = Some (blank_region_of ring_default_size)\<rparr>"

lemma good_env_ok: "fd \<notin> tc_open c \<Longrightarrow> env_ok (good_env fd) c"
  by (simp add: env_ok_def good_env_def blank_region_of_def)

lemma good_env_answers: "0 \<le> ce_socket (good_env 7)" "ce_nodelay (good_env 7)" "established (ce_connect (good_env 7))"
  by (simp_all add: good_env_def established_def)

lemma started_client:
  obtains c buf where "client_reachable c 1" "tc_thread c = Looping" "tc_running c" "tc_check c = Outside" "tc_checks c = 1"
    "tc_conn c = Some (Connection_ctor 5 client_conn_id 1000 buf)" "tc_open c \<subseteq> {5}" "tc_joiner c = None"
proof -
  let ?c = "TcpClient_ctor\<lparr>tc_running := True\<rparr>"
  have e: "env_ok (good_env 5) TcpClient_ctor" "env_ok (good_env 5) ?c"
    by (rule good_env_ok; simp add: TcpClient_ctor_def)+
  show thesis
  proof (rule start_cases [of ?c "good_env 5" 1000])
    fix c1 buf
    assume c1: "start_connects (good_env 5) 1000 ?c = Inr (True, c1)" "tc_thread c1 = Looping" "tc_running c1 = tc_running ?c"
      "tc_checks c1 = tc_checks ?c + 1" "tc_check c1 = tc_check ?c" "tc_joiner c1 = tc_joiner ?c"
      "tc_conn c1 = Some (Connection_ctor (ce_socket (good_env 5)) client_conn_id 1000 buf)"
      "tc_open c1 \<subseteq> insert (ce_socket (good_env 5)) (tc_open ?c)"
    have "client_start (good_env 5) 1000 TcpClient_ctor = Inr (True, c1)" using c1(1) by (simp add: client_start_def)
    then have "client_reachable c1 1" by (rule client_reachable.first [OF _ e(1)])
    then show thesis using that c1 by (simp add: TcpClient_ctor_def good_env_def)
  qed (use e in \<open>simp_all add: TcpClient_ctor_def EventLoop_ctor_def good_env_def established_def\<close>)
qed

text \<open>A packet that is a header and no more.\<close>

definition plain_pack :: "8 word list" where
  "plain_pack = [0, 0, 18, 0, 0, 0] @ replicate 12 0"

lemma plain_pack_ok: "pack_ok plain_pack" "h_pack_len (Header_of plain_pack) = 18"
  by (simp_all add: plain_pack_def pack_ok_def Header_of_def field_def sizeof_Header_def le_nat_def)

text \<open>A client whose peer has closed, and the same when the check reconnects it.\<close>

lemma closed_client:
  obtains c buf where "client_reachable c 1" "\<not> tc_running c" "tc_thread c = Returned" "tc_check c = Outside"
    "tc_joiner c = None" "tc_checks c = 1" "tc_conn c = Some (conn_close (Connection_ctor 5 client_conn_id 1000 buf))"
    "tc_open c \<subseteq> {5}"
proof -
  obtain c buf where c: "client_reachable c 1" "tc_thread c = Looping" "tc_running c" "tc_check c = Outside"
      "tc_conn c = Some (Connection_ctor 5 client_conn_id 1000 buf)" "tc_checks c = 1"
      "tc_open c \<subseteq> {5}" "tc_joiner c = None"
    by (rule started_client)
  let ?c1 = "stop_here c" let ?c2 = "?c1\<lparr>tc_thread := Returned\<rparr>"
  have "client_exec (Events 2000 {EV_RDHUP} [] (0, False)) c = Some (Inr ?c1)"
    using c(2,3) by (simp add: client_eventHandler_def)
  moreover have "step_ok (Events 2000 {EV_RDHUP} [] (0, False)) c" by (auto simp: c(5))
  ultimately have r1: "client_reachable ?c1 1" using client_reachable.step [OF c(1)] c(2) by fastforce
  have "client_exec LoopEnds ?c1 = Some (Inr ?c2)" using c(2) by simp
  then have r2: "client_reachable ?c2 1" using client_reachable.step [OF r1, of LoopEnds ?c2] by simp
  have "tc_open ?c2 \<subseteq> {5}" using c(7) by (auto simp: stop_here_def close_conn_def close_fd_def split: option.splits)
  then show thesis using that [OF r2] c by simp
qed

lemma joined_open: "tc_open (check_joined c) \<subseteq> tc_open c"
  by (auto simp: check_joined_def client_stop_joined_def close_conn_def close_fd_def split: option.splits if_splits)

lemma reconnecting_client:
  obtains c where "client_reachable c 1" "tc_check c = Connects" "tc_running c" "tc_open c \<subseteq> {5}"
proof -
  obtain c buf where c: "client_reachable c 1" "\<not> tc_running c" "tc_thread c = Returned" "tc_check c = Outside"
      "tc_joiner c = None" "tc_checks c = 1" "tc_conn c = Some (conn_close (Connection_ctor 5 client_conn_id 1000 buf))"
      "tc_open c \<subseteq> {5}"
    by (rule closed_client)
  let ?c1 = "(client_stop_flag c)\<lparr>tc_joiner := Some TimerThread, tc_check := StopJoins\<rparr>"
  let ?c2 = "check_joined ?c1" let ?c3 = "check_restart ?c2"
  have "client_exec (CheckBegins 32000) c = Some (Inr ?c1)"
    using c by (simp add: check_begin_def stop_begin_def client_stop_flag_def HEARTBEAT_TIMEOUT_SECONDS_def
        idle_seconds_def Connection_ctor_def)
  then have r1: "client_reachable ?c1 1"
    using client_reachable.step [OF c(1), of "CheckBegins 32000" ?c1] c(3) by (simp add: client_stop_flag_def)
  have "client_exec CheckJoined ?c1 = Some (Inr ?c2)" using c(3) by (simp add: client_stop_flag_def)
  then have r2: "client_reachable ?c2 1" using client_reachable.step [OF r1, of CheckJoined ?c2]
    by (simp add: check_joined_def client_stop_joined_def)
  have "client_exec CheckRestarts ?c2 = Some (Inr ?c3)" by (simp add: check_joined_def client_stop_joined_def)
  then have r3: "client_reachable ?c3 1" using client_reachable.step [OF r2, of CheckRestarts ?c3]
    by (simp add: check_joined_def client_stop_joined_def check_restart_def)
  have "tc_open ?c3 \<subseteq> tc_open c" using joined_open [of ?c1] by (simp add: check_restart_def client_stop_flag_def)
  then show thesis using that [OF r3] c(8) by (simp add: check_restart_def)
qed

theorem refused_send_joins_twice_witness:
  "\<exists>c. client_reachable c 1 \<and>
     client_run [Sends 3 40000 plain_pack (-1, False), StopBegins 4] c = Some (Inl Undefined) \<and>
     client_run [Sends 3 40000 plain_pack (-1, False), CheckBegins 40000] c = Some (Inl Undefined)"
proof -
  obtain c buf where c: "client_reachable c 1" "tc_thread c = Looping" "tc_running c" "tc_check c = Outside"
      "tc_conn c = Some (Connection_ctor 5 client_conn_id 1000 buf)"
    by (rule started_client)
  have "30 < idle_seconds 40000 (Connection_ctor 5 client_conn_id 1000 buf)"
    by (simp add: idle_seconds_def Connection_ctor_def)
  then show ?thesis
    using refused_send_joins_twice [OF c(1,3,2,4,5) plain_pack_ok(1), of "(-1, False)" 4 3 40000 40000]
      plain_pack_ok(2) c(1) by (auto simp del: client_run.simps)
qed

theorem send_spoils_reconnect_witness:
  "\<exists>c c2. client_reachable c 1 \<and> tc_running c \<and>
     client_run [Sends 3 32002 plain_pack (18, False), CheckConnects (good_env 7) 32003, LoopEnds] c = Some (Inr c2) \<and>
     \<not> tc_running c2"
proof -
  obtain c where c: "client_reachable c 1" "tc_check c = Connects" "tc_running c" "tc_open c \<subseteq> {5}"
    by (rule reconnecting_client)
  have "env_ok (good_env 7) c" using c(4) by (intro good_env_ok) auto
  then show ?thesis
    using send_spoils_reconnect [OF c(1-3) plain_pack_ok(1) _ _ _ good_env_answers, of "(18, False)" 3 32002 32003]
      plain_pack_ok(2) c(1,3) by (simp del: client_run.simps) blast
qed

theorem closed_client_waits_witness:
  "\<exists>c. client_reachable c 1 \<and> client_send TimerThread 31000 [] (0, False) c = Inr ([], c) \<and>
     client_exec (CheckBegins 31000) c = Some (Inr c) \<and>
     (\<exists>c'. client_run [CheckBegins 32000, CheckJoined, CheckRestarts, CheckConnects (good_env 7) 32001] c = Some (Inr c') \<and>
        tc_running c' \<and> tc_checks c' = 2)"
proof -
  obtain c buf where c: "client_reachable c 1" "\<not> tc_running c" "tc_thread c = Returned" "tc_check c = Outside"
      "tc_joiner c = None" "tc_checks c = 1" "tc_conn c = Some (conn_close (Connection_ctor 5 client_conn_id 1000 buf))"
      "tc_open c \<subseteq> {5}"
    by (rule closed_client)
  let ?k = "conn_close (Connection_ctor 5 client_conn_id 1000 buf)"
  have e: "env_ok (good_env 7) (check_joined c)" using c(8) joined_open [of c] by (intro good_env_ok) auto
  note w = closed_client_waits [OF c(1-3,5,4,7) e good_env_answers, where now' = 32001]
  have "idle_seconds 31000 ?k = 30" "idle_seconds 32000 ?k = 31"
    by (simp_all add: idle_seconds_def Connection_ctor_def)
  then show ?thesis using w [of TimerThread 31000 "[]" "(0, False)"] w [of TimerThread 32000 "[]" "(0, False)"] c(1)
    by (auto simp del: client_run.simps client_exec.simps)
qed

end
