(* ===== verification/WsListener.thy ===== *)
theory WsListener
  imports Connection
begin

text \<open>
  \<open>WsListener\<close> (server/core/network/WsListener.h, WsListener.cpp): RFC 6455 frames over a TCP byte
  stream, each binary or text frame holding a packed header, a message id, a length and a body. The
  connection objects are shared between two tables, so they live in a store addressed by connection
  id and both tables hold ids. What \<open>read\<close> returns is an argument; handler calls, writes and closes are
  the events returned. SHA-1 and Base64 come from OpenSSL and are parameters of the handshake.
\<close>

unbundle bit_operations_syntax

section \<open>Frames\<close>

text \<open>\<open>be_bytes k v\<close>: the \<open>k\<close> low bytes of \<open>v\<close>, most significant first.\<close>

definition be_bytes :: "nat \<Rightarrow> nat \<Rightarrow> 8 word list" where
  "be_bytes k v = rev (le_bytes k v)"

definition be_nat :: "8 word list \<Rightarrow> nat" where
  "be_nat xs = le_nat (rev xs)"

definition buildFrame :: "8 word list \<Rightarrow> 8 word list" where
  "buildFrame p =
     [0x82] @
     (if length p \<le> 125 then [of_nat (length p)]
      else if length p \<le> 65535 then [126] @ be_bytes 2 (length p)
      else [127] @ be_bytes 8 (length p)) @ p"

definition unmask :: "8 word list \<Rightarrow> 8 word list \<Rightarrow> 8 word list" where
  "unmask mk p = map (\<lambda>i. (p ! i) XOR (mk ! (i mod 4))) [0..<length p]"

text \<open>A received message: \<open>data_\<close> is \<^term>\<open>None\<close> where the code leaves a null pointer.\<close>

record raw_msg =
  r_header :: header
  r_msg_id :: nat
  r_data_len :: nat
  r_data :: "8 word list option"

definition ws_payload_msg :: "nat \<Rightarrow> 8 word list \<Rightarrow> raw_msg option" where
  "ws_payload_msg cid p =
     (if length p < sizeof_Header then None
      else
        let (msg_id, data_len, data_offset) =
              (if length p \<ge> sizeof_Header + 4
               then (field sizeof_Header 2 p, field (sizeof_Header + 2) 2 p, sizeof_Header + 4)
               else (0, 0, sizeof_Header))
        in Some \<lparr>r_header = (Header_of p)\<lparr>h_conn_id := cid\<rparr>, r_msg_id = msg_id, r_data_len = data_len,
                 r_data = (if data_len > 0 \<and> length p \<ge> data_offset + data_len
                           then Some (take data_len (drop data_offset p)) else None)\<rparr>)"

datatype ws_event =
    WsConnected nat
  | WsRecv nat raw_msg
  | WsWrite int "8 word list"
  | WsEpollAdd int
  | WsEpollDel int
  | WsFdClose int
  | WsClosed nat

datatype ws_end = WsOpen | WsRemove

text \<open>
  \<open>parseFrames\<close>: the events, the bytes left in the buffer and whether the connection is removed. Every
  round that goes on consumes at least two bytes.
\<close>

function parseFrames :: "nat \<Rightarrow> int \<Rightarrow> 8 word list \<Rightarrow> ws_event list \<times> 8 word list \<times> ws_end" where
  "parseFrames cid fd buf =
     (if length buf < 2 then ([], buf, WsOpen)
      else
        let b0 = buf ! 0; b1 = buf ! 1;
            opcode = b0 AND 0x0F;
            masked = (b1 AND 0x80) \<noteq> 0;
            len7 = unat (b1 AND 0x7F);
            hdr_size = 2 + (if len7 = 126 then 2 else if len7 = 127 then 8 else 0) +
                       (if masked then 4 else 0)
        in if length buf < hdr_size then ([], buf, WsOpen)
        else
          let (payload_len, offset) =
                (if len7 = 126 then (be_nat (take 2 (drop 2 buf)), 4)
                 else if len7 = 127 then (be_nat (take 8 (drop 2 buf)), 10)
                 else (len7, 2))
          in if payload_len > MAX_PACKET_SIZE then ([], buf, WsRemove)
          else if length buf < hdr_size + payload_len then ([], buf, WsOpen)
          else
            let mk = (if masked then take 4 (drop offset buf) else replicate 4 0);
                offset = (if masked then offset + 4 else offset);
                raw = take payload_len (drop offset buf);
                payload = (if masked then unmask mk raw else raw);
                rest = drop (hdr_size + payload_len) buf
            in if opcode = 0x8 then ([], rest, WsRemove)
            else
              let evs = (if opcode = 0x9 then [WsWrite fd [0x8A, 0x00]]
                         else if opcode \<noteq> 0x2 \<and> opcode \<noteq> 0x1 then []
                         else case ws_payload_msg cid payload of
                                None \<Rightarrow> [] | Some m \<Rightarrow> [WsRecv cid m]);
                  (evs', buf', e) = parseFrames cid fd rest
              in (evs @ evs', buf', e))"
  by pat_completeness auto
termination by (relation "measure (\<lambda>(cid, fd, buf). length buf)") (auto split: if_splits)

declare parseFrames.simps [simp del]

section \<open>The listener\<close>

record ws_conn =
  wc_fd :: int
  wc_conn_id :: nat
  wc_handshaked :: bool
  wc_recv_buf :: "8 word list"
  wc_last_active :: nat

record ws_listener =
  wl_objs :: "nat \<rightharpoonup> ws_conn"
  wl_fd_to_conn :: "int \<rightharpoonup> nat"
  wl_id_to_conn :: "nat \<rightharpoonup> nat"
  wl_next_conn_id :: nat

definition WsListener_ctor :: ws_listener where
  "WsListener_ctor = \<lparr>wl_objs = Map.empty, wl_fd_to_conn = Map.empty, wl_id_to_conn = Map.empty,
                      wl_next_conn_id = 1000000\<rparr>"

definition ws_accept :: "nat \<Rightarrow> int \<Rightarrow> ws_listener \<Rightarrow> ws_event list \<times> ws_listener" where
  "ws_accept now cfd l =
     (let cid = wl_next_conn_id l;
          conn = \<lparr>wc_fd = cfd, wc_conn_id = cid, wc_handshaked = False, wc_recv_buf = [],
                  wc_last_active = now\<rparr>
      in ([WsEpollAdd cfd],
          l\<lparr>wl_next_conn_id := cid + 1, wl_objs := (wl_objs l)(cid \<mapsto> conn),
            wl_fd_to_conn := (wl_fd_to_conn l)(cfd \<mapsto> cid),
            wl_id_to_conn := (wl_id_to_conn l)(cid \<mapsto> cid)\<rparr>))"

definition removeConn :: "int \<Rightarrow> ws_listener \<Rightarrow> ws_event list \<times> ws_listener" where
  "removeConn fd l =
     (case wl_fd_to_conn l fd of
        None \<Rightarrow> ([], l)
      | Some cid \<Rightarrow>
          ([WsEpollDel fd, WsFdClose fd, WsClosed cid],
           l\<lparr>wl_id_to_conn := (wl_id_to_conn l)(cid := None),
             wl_fd_to_conn := (wl_fd_to_conn l)(fd := None)\<rparr>))"

definition ws_parse :: "nat \<Rightarrow> ws_conn \<Rightarrow> ws_listener \<Rightarrow> ws_event list \<times> ws_listener" where
  "ws_parse cid c l =
     (let (evs, buf, e) = parseFrames (wc_conn_id c) (wc_fd c) (wc_recv_buf c);
          l1 = l\<lparr>wl_objs := (wl_objs l)(cid \<mapsto> c\<lparr>wc_recv_buf := buf\<rparr>)\<rparr>
      in case e of WsOpen \<Rightarrow> (evs, l1)
         | WsRemove \<Rightarrow> (let (evs', l2) = removeConn (wc_fd c) l1 in (evs @ evs', l2)))"

text \<open>\<open>find_sub pat xs from\<close> is \<open>std::string::find\<close>: the first occurrence at or after \<open>from\<close>.\<close>

fun find_at :: "nat \<Rightarrow> 'a list \<Rightarrow> 'a list \<Rightarrow> nat option" where
  "find_at i pat [] = (if pat = [] then Some i else None)"
| "find_at i pat (x # xs) =
     (if take (length pat) (x # xs) = pat then Some i else find_at (Suc i) pat xs)"

definition find_sub :: "'a list \<Rightarrow> 'a list \<Rightarrow> nat \<Rightarrow> nat option" where
  "find_sub pat xs from = (if from > length xs then None else find_at from pat (drop from xs))"

definition CRLF :: "8 word list" where "CRLF = [13, 10]"

definition WS_GUID :: "8 word list" where
  "WS_GUID = str_bytes ''258EAFA5-E914-47DA-95CA-C5AB0DC85B11''"

definition handshake_key :: "8 word list \<Rightarrow> 8 word list option" where
  "handshake_key raw =
     (case find_sub (str_bytes ''Sec-WebSocket-Key:'') raw 0 of
        None \<Rightarrow> None
      | Some p \<Rightarrow>
          let rest = dropWhile (\<lambda>b. b = 32) (drop (p + 18) raw) in
          Some (case find_sub CRLF rest 0 of None \<Rightarrow> rest | Some e \<Rightarrow> take e rest))"

definition handshake_response :: "8 word list \<Rightarrow> 8 word list" where
  "handshake_response accept =
     str_bytes ''HTTP/1.1 101 Switching Protocols'' @ CRLF @
     str_bytes ''Upgrade: websocket'' @ CRLF @
     str_bytes ''Connection: Upgrade'' @ CRLF @
     str_bytes ''Sec-WebSocket-Accept: '' @ accept @ CRLF @ CRLF"

definition doHandshake :: "(8 word list \<Rightarrow> 8 word list) \<Rightarrow> (8 word list \<Rightarrow> 8 word list) \<Rightarrow> nat \<Rightarrow>
    ws_conn \<Rightarrow> ws_listener \<Rightarrow> ws_event list \<times> ws_listener" where
  "doHandshake sha1 base64 cid c l =
     (let raw = wc_recv_buf c in
      case find_sub (CRLF @ CRLF) raw 0 of
        None \<Rightarrow> ([], l\<lparr>wl_objs := (wl_objs l)(cid \<mapsto> c)\<rparr>)
      | Some hdr_end \<Rightarrow>
        case handshake_key raw of
          None \<Rightarrow> removeConn (wc_fd c) (l\<lparr>wl_objs := (wl_objs l)(cid \<mapsto> c)\<rparr>)
        | Some key \<Rightarrow>
            let accept = base64 (sha1 (key @ WS_GUID));
                c1 = c\<lparr>wc_handshaked := True, wc_recv_buf := drop (hdr_end + 4) raw\<rparr>;
                evs = [WsWrite (wc_fd c) (handshake_response accept), WsConnected (wc_conn_id c)]
            in if wc_recv_buf c1 \<noteq> [] then
                 let (evs', l1) = ws_parse cid c1 l in (evs @ evs', l1)
               else (evs, l\<lparr>wl_objs := (wl_objs l)(cid \<mapsto> c1)\<rparr>))"

text \<open>\<open>reads\<close>: the answers of \<open>read\<close>; the flag is \<^term>\<open>False\<close> when the connection is removed.\<close>

fun ws_read_loop :: "read_result list \<Rightarrow> ws_conn \<Rightarrow> bool \<times> ws_conn" where
  "ws_read_loop [] c = (True, c)"
| "ws_read_loop (RBytes [] # rs) c = (False, c)"
| "ws_read_loop (RBytes (x # xs) # rs) c =
     ws_read_loop rs (c\<lparr>wc_recv_buf := wc_recv_buf c @ x # xs\<rparr>)"
| "ws_read_loop (RErrno again # rs) c = (again, c)"

definition readData :: "(8 word list \<Rightarrow> 8 word list) \<Rightarrow> (8 word list \<Rightarrow> 8 word list) \<Rightarrow>
    read_result list \<Rightarrow> nat \<Rightarrow> ws_conn \<Rightarrow> ws_listener \<Rightarrow> ws_event list \<times> ws_listener" where
  "readData sha1 base64 reads cid c l =
     (let (go, c1) = ws_read_loop reads c in
      if \<not> go then removeConn (wc_fd c) (l\<lparr>wl_objs := (wl_objs l)(cid \<mapsto> c1)\<rparr>)
      else if \<not> wc_handshaked c1 then doHandshake sha1 base64 cid c1 l
      else ws_parse cid c1 l)"

definition ws_handleEvent :: "(8 word list \<Rightarrow> 8 word list) \<Rightarrow> (8 word list \<Rightarrow> 8 word list) \<Rightarrow>
    nat \<Rightarrow> int \<Rightarrow> bool \<Rightarrow> bool \<Rightarrow> read_result list \<Rightarrow> ws_listener \<Rightarrow>
    ws_event list \<times> ws_listener" where
  "ws_handleEvent sha1 base64 now fd hup readable reads l =
     (case wl_fd_to_conn l fd of
        None \<Rightarrow> ([], l)
      | Some cid \<Rightarrow>
        case wl_objs l cid of
          None \<Rightarrow> ([], l)
        | Some c \<Rightarrow>
            if hup then removeConn fd l
            else if readable
            then readData sha1 base64 reads cid (c\<lparr>wc_last_active := now\<rparr>) l
            else ([], l))"

text \<open>What is sent: header, message id, length and body in one frame; \<open>wrote\<close> is \<open>write\<close>'s result.\<close>

definition ws_send_bytes :: "raw_msg \<Rightarrow> 8 word list" where
  "ws_send_bytes m =
     encode_header (r_header m) @ le_bytes 2 (r_msg_id m) @ le_bytes 2 (r_data_len m) @
     (case r_data m of None \<Rightarrow> replicate (r_data_len m) 0
      | Some d \<Rightarrow> if r_data_len m > 0 then take (r_data_len m) d else [])"

definition ws_send :: "nat \<Rightarrow> raw_msg option \<Rightarrow> int \<Rightarrow> ws_listener \<Rightarrow> int \<times> ws_event list" where
  "ws_send cid pack wrote l =
     (case wl_id_to_conn l cid of
        None \<Rightarrow> (-1, [])
      | Some k \<Rightarrow>
        case (pack, wl_objs l k) of
          (Some m, Some c) \<Rightarrow>
            (if wrote > 0 then 0 else -1, [WsWrite (wc_fd c) (buildFrame (ws_send_bytes m))])
        | _ \<Rightarrow> (-1, []))"

definition ws_close_conn :: "nat \<Rightarrow> ws_listener \<Rightarrow> ws_event list \<times> ws_listener" where
  "ws_close_conn cid l =
     (case wl_id_to_conn l cid of
        None \<Rightarrow> ([], l)
      | Some k \<Rightarrow>
        case wl_objs l k of
          None \<Rightarrow> ([], l)
        | Some c \<Rightarrow> if wc_fd c \<ge> 0 then removeConn (wc_fd c) l else ([], l))"

section \<open>Frames come back\<close>

lemma be_nat_be_bytes: "v < 256 ^ k \<Longrightarrow> be_nat (be_bytes k v) = v"
  by (simp add: be_nat_def be_bytes_def le_nat_le_bytes)

lemma be_bytes_length [simp]: "length (be_bytes k v) = k"
  by (simp add: be_bytes_def)

lemma low7: "unat (w AND 0x7F :: 8 word) = unat w mod 128"
proof -
  have "(0x7F :: 8 word) = mask 7" by (simp add: mask_eq_exp_minus_1)
  then have "w AND 0x7F = take_bit 7 w" by (simp only: take_bit_eq_mask)
  then have "unat (w AND 0x7F) = take_bit 7 (unat w)" by (simp only: unsigned_take_bit_eq)
  then show ?thesis by (simp only: take_bit_eq_mod) simp
qed

lemma high_bit: "(w AND 0x80 :: 8 word) = 0 \<longleftrightarrow> unat w < 128"
proof -
  have "(w AND 2 ^ 7) = 0 \<longleftrightarrow> \<not> bit w 7" by (rule and_exp_eq_0_iff_not_bit)
  moreover have "bit w 7 \<longleftrightarrow> bit (unat w) 7" by (simp add: bit_unsigned_iff)
  then have "bit w 7 \<longleftrightarrow> odd (unat w div 128)" using bit_iff_odd [of "unat w" 7] by simp
  moreover have "unat w < 256" using unsigned_less [of w] by simp
  ultimately show ?thesis by (auto simp: odd_iff_mod_2_eq_one)
qed

text \<open>
  How a client masks (RFC 6455, 5.3): each byte is combined with the next byte of the key, which is gone
  through again and again.
\<close>

fun rfc_mask :: "8 word list \<Rightarrow> 8 word list \<Rightarrow> 8 word list" where
  "rfc_mask k [] = []"
| "rfc_mask k (x # xs) = (x XOR hd k) # rfc_mask (rotate1 k) xs"

text \<open>A frame as either side builds it: opcode, optional masking key, payload.\<close>

definition ws_len_field :: "nat \<Rightarrow> nat \<Rightarrow> 8 word list" where
  "ws_len_field n tb =
     (if n \<le> 125 then [of_nat (n + tb)]
      else if n \<le> 65535 then of_nat (126 + tb) # be_bytes 2 n
      else of_nat (127 + tb) # be_bytes 8 n)"

definition ws_frame :: "8 word \<Rightarrow> 8 word list option \<Rightarrow> 8 word list \<Rightarrow> 8 word list" where
  "ws_frame opcode mk p =
     (0x80 OR opcode) #
     (case mk of None \<Rightarrow> ws_len_field (length p) 0 @ p
      | Some k \<Rightarrow> ws_len_field (length p) 128 @ k @ rfc_mask k p)"

lemma buildFrame_eq: "buildFrame p = ws_frame 2 None p"
  by (simp add: buildFrame_def ws_frame_def ws_len_field_def)

lemma rfc_mask_length [simp]: "length (rfc_mask k p) = length p"
  by (induction k p rule: rfc_mask.induct) simp_all

lemma rfc_mask_nth: "k \<noteq> [] \<Longrightarrow> i < length p \<Longrightarrow> rfc_mask k p ! i = (p ! i) XOR (k ! (i mod length k))"
proof (induction k p arbitrary: i rule: rfc_mask.induct)
  case (2 k x xs)
  show ?case
  proof (cases i)
    case 0
    then show ?thesis using 2(2) by (simp add: hd_conv_nth)
  next
    case (Suc j)
    have "rotate1 k ! (j mod length k) = k ! (Suc j mod length k)"
      using 2(2) by (simp add: nth_rotate1 mod_Suc_eq)
    then show ?thesis using 2 Suc by simp
  qed
qed simp

text \<open>The listener takes away the mask that RFC 6455 puts on.\<close>

lemma unmask_rfc_mask:
  assumes "length k = 4"
  shows "unmask k (rfc_mask k p) = p"
proof (rule nth_equalityI)
  fix i assume "i < length (unmask k (rfc_mask k p))"
  then have "i < length p" "k \<noteq> []" using assms by (auto simp: unmask_def)
  then show "unmask k (rfc_mask k p) ! i = p ! i"
    using assms rfc_mask_nth [of k i p] by (simp add: unmask_def xor.assoc)
qed (simp add: unmask_def)

lemma unmask_length [simp]: "length (unmask k p) = length p"
  by (simp add: unmask_def)

definition frame_events :: "nat \<Rightarrow> 8 word list \<Rightarrow> ws_event list" where
  "frame_events cid p = (case ws_payload_msg cid p of None \<Rightarrow> [] | Some m \<Rightarrow> [WsRecv cid m])"

lemma parse_frame:
  assumes "opcode = 1 \<or> opcode = 2" "length p \<le> MAX_PACKET_SIZE"
    "\<forall>k. mk = Some k \<longrightarrow> length k = 4"
  shows "parseFrames cid fd (ws_frame opcode mk p @ ys) =
    (case parseFrames cid fd ys of (evs, buf, e) \<Rightarrow> (frame_events cid p @ evs, buf, e))"
proof -
  let ?n = "length p" and ?buf = "ws_frame opcode mk p @ ys"
  define tb where "tb = (if mk = None then 0 else 128 :: nat)"
  define len7 where "len7 = (if ?n \<le> 125 then ?n else if ?n \<le> 65535 then 126 else 127)"
  define body where "body = (case mk of None \<Rightarrow> p | Some k \<Rightarrow> k @ rfc_mask k p)"
  have n64: "?n < 256 ^ 8" using assms(2) by (simp add: MAX_PACKET_SIZE_def)
  have buf: "?buf = (0x80 OR opcode) # ws_len_field ?n tb @ body @ ys"
    by (simp add: ws_frame_def tb_def body_def split: option.splits)
  define lf where "lf = (if ?n \<le> 125 then [] else if ?n \<le> 65535 then be_bytes 2 ?n else be_bytes 8 ?n)"
  have lf: "ws_len_field ?n tb = of_nat (len7 + tb) # lf"
      "length lf = (if len7 = 126 then 2 else if len7 = 127 then 8 else 0)"
      "len7 < 128" "len7 \<noteq> 126 \<Longrightarrow> len7 \<noteq> 127 \<Longrightarrow> len7 = ?n"
    by (auto simp: ws_len_field_def len7_def lf_def split: if_splits)
  have lf_val: "be_nat lf = ?n" if h: "len7 = 126 \<or> len7 = 127"
  proof -
    consider "125 < ?n" "?n \<le> 65535" | "65535 < ?n" using h by (fastforce simp: len7_def split: if_splits)
    then show ?thesis using n64 by cases (simp_all add: lf_def be_nat_be_bytes)
  qed
  have op: "(0x80 OR opcode) AND 0x0F = opcode" "opcode \<noteq> 8" "opcode \<noteq> 9"
    using assms(1) by auto
  have u: "unat (of_nat (len7 + tb) :: 8 word) = len7 + tb"
  proof -
    have "len7 + tb < 256" using lf(3) by (simp add: tb_def)
    moreover have "unat (of_nat (len7 + tb) :: 8 word) = (len7 + tb) mod 256"
      using unat_of_nat [of "len7 + tb", where 'a = 8] by simp
    ultimately show ?thesis by simp
  qed
  have b1: "unat ((of_nat (len7 + tb) :: 8 word) AND 0x7F) = len7"
      "((of_nat (len7 + tb) :: 8 word) AND 0x80) \<noteq> 0 \<longleftrightarrow> mk \<noteq> None"
    using u lf(3) by (simp_all only: low7 high_bit) (auto simp: tb_def)
  have eq: "?buf = (0x80 OR opcode) # of_nat (len7 + tb) # lf @ body @ ys" using buf lf(1) by simp
  have l3: "take (length lf) (drop 2 ?buf) = lf" "drop (2 + length lf) ?buf = body @ ys"
    unfolding eq by (simp_all add: numeral_2_eq_2)
  have lb: "length body = (if mk \<noteq> None then 4 else 0) + ?n"
    using assms(3) by (auto simp: body_def split: option.splits)
  have hs: "2 + (if len7 = 126 then 2 else if len7 = 127 then 8 else 0) + (if mk \<noteq> None then 4 else 0)
      = 2 + length lf + (if mk \<noteq> None then 4 else 0)" using lf(2) by simp
  have lens: "length ?buf = 2 + length lf + length body + length ys" unfolding eq by simp
  have pl: "(if len7 = 126 then (be_nat (take 2 (drop 2 ?buf)), 4)
             else if len7 = 127 then (be_nat (take 8 (drop 2 ?buf)), 10)
             else (len7, 2)) = (?n, 2 + length lf)"
    using lf(2,4) lf_val l3(1) by auto
  have nth: "?buf ! 0 = 0x80 OR opcode" "?buf ! 1 = of_nat (len7 + tb)" unfolding eq by simp_all
  have payload: "(if mk \<noteq> None then
       unmask (take 4 (drop (2 + length lf) ?buf)) (take ?n (drop (2 + length lf + 4) ?buf))
     else take ?n (drop (2 + length lf) ?buf)) = p"
  proof (cases mk)
    case None
    then show ?thesis using l3(2) by (simp add: body_def)
  next
    case (Some k)
    have "drop (2 + length lf + 4) ?buf = drop 4 (drop (2 + length lf) ?buf)"
      by (metis add.commute drop_drop)
    also have "\<dots> = rfc_mask k p @ ys" using Some assms(3) unfolding l3(2) by (simp add: body_def)
    finally have d: "drop (2 + length lf + 4) ?buf = rfc_mask k p @ ys" .
    have "take 4 (drop (2 + length lf) ?buf) = k"
      using Some assms(3) unfolding l3(2) by (simp add: body_def)
    then show ?thesis using Some unfolding d using unmask_rfc_mask [of k p] assms(3) by simp
  qed
  have rest: "drop (2 + length lf + (if mk \<noteq> None then 4 else 0) + ?n) ?buf = ys"
  proof -
    have "2 + length lf + (if mk \<noteq> None then 4 else 0) + ?n = (2 + length lf) + length body"
      using lb by simp
    then have "drop (2 + length lf + (if mk \<noteq> None then 4 else 0) + ?n) ?buf = drop (length body) (body @ ys)"
      using l3(2) by (metis add.commute drop_drop)
    then show ?thesis by simp
  qed
  have neg: "\<not> length ?buf < 2" "\<not> length ?buf < 2 + length lf + (if mk \<noteq> None then 4 else 0)"
      "\<not> ?n > MAX_PACKET_SIZE"
      "\<not> length ?buf < 2 + length lf + (if mk \<noteq> None then 4 else 0) + ?n"
    using lens lb assms(2) by auto
  define B where "B = ?buf"
  define M where "M \<longleftrightarrow> mk \<noteq> None"
  note facts = nth b1 pl hs neg payload rest
  have evs: "parseFrames cid fd B =
      (let evs = (if opcode = 0x9 then [WsWrite fd [0x8A, 0x00]]
                         else if opcode \<noteq> 0x2 \<and> opcode \<noteq> 0x1 then []
                         else case ws_payload_msg cid p of
                                None \<Rightarrow> [] | Some m \<Rightarrow> [WsRecv cid m]);
           (evs', buf', e) = parseFrames cid fd ys in (evs @ evs', buf', e))"
  proof -
    note facts' = facts [folded B_def M_def]
    show ?thesis
    proof (cases M)
      case True
      note facts'' = facts' [unfolded eqTrueI [OF True] if_True]
      show ?thesis
        by (subst parseFrames.simps)
           (simp only: Let_def facts'' op prod.case if_False if_True not_True_eq_False not_False_eq_True)
    next
      case False
      have "M = False" using False by simp
      note facts'' = facts' [unfolded this if_False]
      show ?thesis
        by (subst parseFrames.simps)
           (simp only: Let_def facts'' op prod.case if_False if_True not_True_eq_False not_False_eq_True)
    qed
  qed
  then show ?thesis using assms(1) unfolding B_def by (auto simp: frame_events_def)
qed

lemma parse_frames:
  assumes "\<forall>(mk, p) \<in> set fs. length p \<le> MAX_PACKET_SIZE \<and> (\<forall>k. mk = Some k \<longrightarrow> length k = 4)"
  shows "parseFrames cid fd (concat (map (\<lambda>(mk, p). ws_frame 2 mk p) fs)) =
           (concat (map (\<lambda>(mk, p). frame_events cid p) fs), [], WsOpen)"
  using assms
proof (induction fs)
  case Nil then show ?case by (subst parseFrames.simps) simp
next
  case (Cons f fs)
  obtain mk p where f: "f = (mk, p)" by (cases f)
  then show ?case using Cons parse_frame [of 2 p mk cid fd] by simp
qed

text \<open>What is sent is what \<open>ws_payload_msg\<close> reads back.\<close>

definition ws_msg_wf :: "raw_msg \<Rightarrow> bool" where
  "ws_msg_wf m \<longleftrightarrow>
     h_version (r_header m) < 256 \<and> h_type (r_header m) < 256 \<and> h_pack_len (r_header m) < 2 ^ 32 \<and>
     h_seq (r_header m) < 2 ^ 32 \<and> h_conn_id (r_header m) < 2 ^ 64 \<and> r_msg_id m < 2 ^ 16 \<and>
     r_data_len m < 2 ^ 16 \<and>
     (case r_data m of None \<Rightarrow> r_data_len m = 0 | Some d \<Rightarrow> d \<noteq> [] \<and> r_data_len m = length d)"

lemma ws_payload_roundtrip:
  assumes "ws_msg_wf m"
  shows "ws_payload_msg cid (ws_send_bytes m) =
           Some (m\<lparr>r_header := (r_header m)\<lparr>h_conn_id := cid\<rparr>\<rparr>)"
    and "length (ws_send_bytes m) \<le> MAX_PACKET_SIZE"
proof -
  define body where "body = (case r_data m of None \<Rightarrow> [] | Some d \<Rightarrow> d)"
  have b: "length body = r_data_len m"
      "r_data m = (if r_data_len m > 0 then Some body else None)"
    using assms by (auto simp: ws_msg_wf_def body_def split: option.splits)
  let ?x = "ws_send_bytes m"
  have x: "?x = encode_header (r_header m) @ le_bytes 2 (r_msg_id m) @ le_bytes 2 (r_data_len m) @ body"
    using assms by (auto simp: ws_send_bytes_def ws_msg_wf_def body_def split: option.splits)
  have l: "length ?x = 22 + r_data_len m" unfolding x using b(1) by (simp add: encode_header_def)
  then show "length (ws_send_bytes m) \<le> MAX_PACKET_SIZE"
    using assms by (simp add: ws_msg_wf_def MAX_PACKET_SIZE_def)
  have "h_pack_len (r_header m) < 256 ^ 4" "h_version (r_header m) < 256 ^ 1" "h_type (r_header m) < 256 ^ 1"
      "h_seq (r_header m) < 256 ^ 4" "h_conn_id (r_header m) < 256 ^ 8"
      "r_msg_id m < 256 ^ 2" "r_data_len m < 256 ^ 2"
    using assms by (simp_all add: ws_msg_wf_def)
  then have f: "Header_of ?x = r_header m" "field 18 2 ?x = r_msg_id m" "field 20 2 ?x = r_data_len m"
      "drop 22 ?x = body"
    unfolding x by (simp_all add: Header_of_def field_def encode_header_def le_nat_le_bytes)
  then show "ws_payload_msg cid (ws_send_bytes m) =
           Some (m\<lparr>r_header := (r_header m)\<lparr>h_conn_id := cid\<rparr>\<rparr>)"
    using l b by (simp add: ws_payload_msg_def sizeof_Header_def Let_def)
qed

section \<open>Properties\<close>

text \<open>
  C7: any sequence of messages, each sent as one binary frame, masked as RFC 6455 tells a client to with
  any key of four bytes or unmasked (as \<open>WsListener::send\<close> does), is delivered one for one and in order, with the receiving
  connection's id, and leaves the buffer empty and the connection open.
\<close>

theorem ws_messages_roundtrip:
  assumes "\<forall>(mk, m) \<in> set fs. ws_msg_wf m \<and> (\<forall>k. mk = Some k \<longrightarrow> length k = 4)"
  shows "parseFrames cid fd (concat (map (\<lambda>(mk, m).
             case mk of None \<Rightarrow> buildFrame (ws_send_bytes m)
             | Some k \<Rightarrow> ws_frame 2 (Some k) (ws_send_bytes m)) fs)) =
    (map (\<lambda>(mk, m). WsRecv cid (m\<lparr>r_header := (r_header m)\<lparr>h_conn_id := cid\<rparr>\<rparr>)) fs, [], WsOpen)"
proof -
  let ?fs = "map (\<lambda>(mk, m). (mk, ws_send_bytes m)) fs"
  have "concat (map (\<lambda>(mk, m). case mk of None \<Rightarrow> buildFrame (ws_send_bytes m)
             | Some k \<Rightarrow> ws_frame 2 (Some k) (ws_send_bytes m)) fs) =
        concat (map (\<lambda>(mk, p). ws_frame 2 mk p) ?fs)"
    by (rule arg_cong [of _ _ concat]) (auto simp: buildFrame_eq split: option.splits)
  moreover have "\<forall>(mk, p) \<in> set ?fs. length p \<le> MAX_PACKET_SIZE \<and> (\<forall>k. mk = Some k \<longrightarrow> length k = 4)"
    using assms ws_payload_roundtrip(2) by fastforce
  moreover have "concat (map (\<lambda>(mk, p). frame_events cid p) ?fs) =
      map (\<lambda>(mk, m). WsRecv cid (m\<lparr>r_header := (r_header m)\<lparr>h_conn_id := cid\<rparr>\<rparr>)) fs"
    using assms
  proof (induction fs)
    case (Cons f fs)
    then show ?case using ws_payload_roundtrip(1) by (auto simp: frame_events_def split: prod.splits)
  qed simp
  ultimately show ?thesis using parse_frames [of ?fs cid fd] by simp
qed

definition hello_msg :: raw_msg where
  "hello_msg = \<lparr>r_header = \<lparr>h_version = 1, h_type = 2, h_pack_len = 0, h_seq = 4, h_conn_id = 9\<rparr>,
                r_msg_id = 1001, r_data_len = 2, r_data = Some [72, 73]\<rparr>"

theorem ws_messages_roundtrip_witness:
  "parseFrames 1000000 8 (concat (map (\<lambda>(mk, m).
             case mk of None \<Rightarrow> buildFrame (ws_send_bytes m)
             | Some k \<Rightarrow> ws_frame 2 (Some k) (ws_send_bytes m))
             [(None, hello_msg), (Some [1, 2, 3, 4], hello_msg)])) =
    (map (\<lambda>(mk :: 8 word list option, m). WsRecv 1000000 (m\<lparr>r_header := (r_header m)\<lparr>h_conn_id := 1000000\<rparr>\<rparr>))
       [(None, hello_msg), (Some [1, 2, 3, 4], hello_msg)], [], WsOpen)"
  by (rule ws_messages_roundtrip) (auto simp: ws_msg_wf_def hello_msg_def)

text \<open>
  a frame that announces a longer body than it carries is delivered all the same: the message's
  \<open>data_len_\<close> is the announced length and its \<open>data_\<close> a null pointer, which the next layer reads.
\<close>

theorem ws_delivers_null_body:
  assumes "sizeof_Header + 4 \<le> length p" "length p < sizeof_Header + 4 + field 20 2 p"
    "length p \<le> MAX_PACKET_SIZE"
  shows "\<exists>m. parseFrames cid fd (buildFrame p) = ([WsRecv cid m], [], WsOpen) \<and>
           r_data_len m = field 20 2 p \<and> 0 < r_data_len m \<and> r_data m = None"
proof -
  have "parseFrames cid fd [] = ([], [], WsOpen)" by (subst parseFrames.simps) simp
  then have "parseFrames cid fd (buildFrame p) = (frame_events cid p, [], WsOpen)"
    using parse_frame [of 2 p None cid fd "[]"] assms(3) by (simp add: buildFrame_eq)
  then show ?thesis
    using assms(1,2) by (auto simp: frame_events_def ws_payload_msg_def Let_def sizeof_Header_def)
qed

theorem ws_delivers_null_body_witness:
  "\<exists>m. parseFrames 1000000 8 (buildFrame (replicate 20 0 @ [200, 0])) = ([WsRecv 1000000 m], [], WsOpen) \<and>
     r_data_len m = 200 \<and> 0 < r_data_len m \<and> r_data m = None"
proof -
  have f: "field 20 2 (replicate 20 0 @ [200, 0]) = 200" by (simp add: field_def le_nat_def)
  show ?thesis
    using ws_delivers_null_body [of "replicate 20 0 @ [200, 0]" 1000000 8] f
    by (simp add: sizeof_Header_def MAX_PACKET_SIZE_def)
qed

end
