(* ===== verification/KcpListener.thy ===== *)
theory KcpListener
  imports WsListener "HOL-Library.AList"
begin

text \<open>
  \<open>KcpListener\<close> (server/core/network/KcpListener.h, KcpListener.cpp): sessions over one UDP socket, one
  KCP control block each. The KCP library is not in the repository: its functions are the members of
  \<open>kcp_lib\<close>, which return the datagrams they hand to the output callback. The callback sends through the
  thread-local \<open>tl_udp_fd\<close>, so the listener's state has one value of it per thread. \<open>mu_\<close> is not
  recursive and is held while messages are handed up; \<open>replies cid m\<close> tells whether the handler calls the
  listener back for message \<open>m\<close>.
\<close>

section \<open>State\<close>

type_synonym sockaddr = "nat \<times> nat"

record 'k kcp_lib =
  ikcp_create :: "nat \<Rightarrow> 'k"
  ikcp_input :: "'k \<Rightarrow> 8 word list \<Rightarrow> 8 word list list \<times> 'k"
  ikcp_drain :: "'k \<Rightarrow> 8 word list list \<times> 'k"
  ikcp_send :: "'k \<Rightarrow> 8 word list \<Rightarrow> int \<times> 'k"
  ikcp_update :: "'k \<Rightarrow> nat \<Rightarrow> 8 word list list \<times> 'k"

record 'k kcp_session =
  ks_kcp :: 'k
  ks_conn_id :: nat
  ks_addr :: sockaddr
  ks_last_active :: nat

datatype kcp_thread = IoThread | UpdateThread | OtherThread nat

record 'k kcp_listener =
  kl_udp_fd :: int
  kl_tl_udp_fd :: "kcp_thread \<Rightarrow> int"
  kl_next_conn_id :: nat
  kl_conv_to_sess :: "(nat \<times> 'k kcp_session) list"
  kl_addr_to_conv :: "sockaddr \<rightharpoonup> nat"
  kl_id_to_conv :: "nat \<rightharpoonup> nat"

datatype kcp_event =
    KcpConnected nat
  | KcpRecv nat raw_msg
  | KcpSendto int sockaddr "8 word list"
  | KcpRelease nat
  | KcpClosed nat

definition KCP_IDLE_TIMEOUT_SEC :: nat where "KCP_IDLE_TIMEOUT_SEC = 60"
definition KCP_HEADER :: nat where "KCP_HEADER = 24"

text \<open>After \<open>start\<close>: the socket is open and the io thread has stored it in its own \<open>tl_udp_fd\<close>.\<close>

definition kcp_started :: "int \<Rightarrow> 'k kcp_listener" where
  "kcp_started fd =
     \<lparr>kl_udp_fd = fd, kl_tl_udp_fd = (\<lambda>t. if t = IoThread then fd else -1), kl_next_conn_id = 2000000,
      kl_conv_to_sess = [], kl_addr_to_conv = Map.empty, kl_id_to_conv = Map.empty\<rparr>"

definition kcpOutput :: "kcp_thread \<Rightarrow> 'k kcp_session \<Rightarrow> 'k kcp_listener \<Rightarrow> 8 word list list \<Rightarrow>
    kcp_event list" where
  "kcpOutput t sess l outs = map (KcpSendto (kl_tl_udp_fd l t) (ks_addr sess)) outs"

section \<open>Receiving\<close>

definition kcp_payload_msg :: "nat \<Rightarrow> 8 word list \<Rightarrow> raw_msg option" where
  "kcp_payload_msg cid p =
     (if length p > MAX_PACKET_SIZE then None
      else if length p < sizeof_Header then None
      else
        let (msg_id, data_len, off) =
              (if length p \<ge> sizeof_Header + 4
               then (field sizeof_Header 2 p, field (sizeof_Header + 2) 2 p, sizeof_Header + 4)
               else (0, 0, sizeof_Header))
        in if length p < off + data_len then None
        else Some \<lparr>r_header = (Header_of p)\<lparr>h_conn_id := cid\<rparr>, r_msg_id = msg_id, r_data_len = data_len,
                   r_data = (if data_len > 0 then Some (take data_len (drop off p)) else None)\<rparr>)"

fun kcp_deliver :: "(nat \<Rightarrow> raw_msg \<Rightarrow> bool) \<Rightarrow> nat \<Rightarrow> 8 word list list \<Rightarrow> fault + kcp_event list" where
  "kcp_deliver replies cid [] = Inr []"
| "kcp_deliver replies cid (p # ps) =
     (case kcp_payload_msg cid p of
        None \<Rightarrow> kcp_deliver replies cid ps
      | Some m \<Rightarrow>
          if replies cid m then Inl Deadlock
          else case kcp_deliver replies cid ps of
                 Inl f \<Rightarrow> Inl f | Inr evs \<Rightarrow> Inr (KcpRecv cid m # evs))"

text \<open>
  \<open>dispatchKcpData\<close>: \<open>ikcp_drain\<close> stands for the calls of \<open>ikcp_peeksize\<close> and \<open>ikcp_recv\<close> until no
  complete message is left.
\<close>

definition dispatchKcpData :: "'k kcp_lib \<Rightarrow> (nat \<Rightarrow> raw_msg \<Rightarrow> bool) \<Rightarrow> 'k kcp_session \<Rightarrow>
    fault + (kcp_event list \<times> 'k kcp_session)" where
  "dispatchKcpData lib replies sess =
     (let (msgs, k) = ikcp_drain lib (ks_kcp sess) in
      case kcp_deliver replies (ks_conn_id sess) msgs of
        Inl f \<Rightarrow> Inl f | Inr evs \<Rightarrow> Inr (evs, sess\<lparr>ks_kcp := k\<rparr>))"

definition kcp_find_or_create :: "'k kcp_lib \<Rightarrow> nat \<Rightarrow> nat \<Rightarrow> sockaddr \<Rightarrow> 'k kcp_listener \<Rightarrow>
    kcp_event list \<times> 'k kcp_session \<times> 'k kcp_listener" where
  "kcp_find_or_create lib now conv from l =
     (case map_of (kl_conv_to_sess l) conv of
        Some sess \<Rightarrow> ([], sess, l)
      | None \<Rightarrow>
          let cid = kl_next_conn_id l;
              sess = \<lparr>ks_kcp = ikcp_create lib conv, ks_conn_id = cid, ks_addr = from,
                      ks_last_active = now\<rparr>
          in ([KcpConnected cid], sess,
              l\<lparr>kl_next_conn_id := cid + 1,
                kl_conv_to_sess := AList.update conv sess (kl_conv_to_sess l),
                kl_addr_to_conv := (kl_addr_to_conv l)(from \<mapsto> conv),
                kl_id_to_conv := (kl_id_to_conv l)(cid \<mapsto> conv)\<rparr>))"

definition processUdpPacket :: "'k kcp_lib \<Rightarrow> (nat \<Rightarrow> raw_msg \<Rightarrow> bool) \<Rightarrow> nat \<Rightarrow> 8 word list \<Rightarrow>
    sockaddr \<Rightarrow> 'k kcp_listener \<Rightarrow> fault + (kcp_event list \<times> 'k kcp_listener)" where
  "processUdpPacket lib replies now data from l =
     (if length data < KCP_HEADER then Inr ([], l)
      else
        let conv = field 0 4 data;
            (evs, sess, l1) = kcp_find_or_create lib now conv from l;
            (outs, k) = ikcp_input lib (ks_kcp sess) data;
            sess1 = sess\<lparr>ks_last_active := now, ks_kcp := k\<rparr>
        in case dispatchKcpData lib replies sess1 of
             Inl f \<Rightarrow> Inl f
           | Inr (evs', sess2) \<Rightarrow>
               Inr (evs @ kcpOutput IoThread sess1 l1 outs @ evs',
                    l1\<lparr>kl_conv_to_sess := AList.update conv sess2 (kl_conv_to_sess l1)\<rparr>))"

section \<open>Removal, timing, sending\<close>

definition removeSession :: "nat \<Rightarrow> 'k kcp_listener \<Rightarrow> kcp_event list \<times> 'k kcp_listener" where
  "removeSession conv l =
     (case map_of (kl_conv_to_sess l) conv of
        None \<Rightarrow> ([], l)
      | Some sess \<Rightarrow>
          let cid = ks_conn_id sess in
          (KcpRelease conv # (if cid \<noteq> 0 then [KcpClosed cid] else []),
           l\<lparr>kl_conv_to_sess := AList.delete conv (kl_conv_to_sess l),
             kl_addr_to_conv := (kl_addr_to_conv l)(ks_addr sess := None),
             kl_id_to_conv := (kl_id_to_conv l)(cid := None)\<rparr>))"

definition kcp_close_conn :: "nat \<Rightarrow> 'k kcp_listener \<Rightarrow> kcp_event list \<times> 'k kcp_listener" where
  "kcp_close_conn conn_id l =
     (case kl_id_to_conv l conn_id of
        None \<Rightarrow> ([], l)
      | Some conv \<Rightarrow>
        case map_of (kl_conv_to_sess l) conv of
          None \<Rightarrow> ([], l)
        | Some sess \<Rightarrow>
            let cid = ks_conn_id sess in
            (KcpRelease conv # (if cid \<noteq> 0 then [KcpClosed cid] else []),
             l\<lparr>kl_conv_to_sess := AList.delete conv (kl_conv_to_sess l),
               kl_addr_to_conv := (kl_addr_to_conv l)(ks_addr sess := None),
               kl_id_to_conv := (kl_id_to_conv l)(conn_id := None)\<rparr>))"

text \<open>One round of the update thread; times in milliseconds, the KCP clock has 32 bits.\<close>

fun update_all :: "'k kcp_lib \<Rightarrow> nat \<Rightarrow> 'k kcp_listener \<Rightarrow> (nat \<times> 'k kcp_session) list \<Rightarrow>
    kcp_event list \<times> (nat \<times> 'k kcp_session) list" where
  "update_all lib now l [] = ([], [])"
| "update_all lib now l ((conv, sess) # rest) =
     (let (outs, k) = ikcp_update lib (ks_kcp sess) (now mod 2 ^ 32);
          (evs, rest') = update_all lib now l rest
      in (kcpOutput UpdateThread sess l outs @ evs, (conv, sess\<lparr>ks_kcp := k\<rparr>) # rest'))"

fun remove_sessions :: "nat list \<Rightarrow> 'k kcp_listener \<Rightarrow> kcp_event list \<times> 'k kcp_listener" where
  "remove_sessions [] l = ([], l)"
| "remove_sessions (conv # convs) l =
     (let (evs, l1) = removeSession conv l; (evs', l2) = remove_sessions convs l1 in (evs @ evs', l2))"

definition updateRound :: "'k kcp_lib \<Rightarrow> nat \<Rightarrow> 'k kcp_listener \<Rightarrow> kcp_event list \<times> 'k kcp_listener" where
  "updateRound lib now l =
     (let (evs, sess) = update_all lib now l (kl_conv_to_sess l);
          expired = map fst (filter (\<lambda>(conv, s). (now - ks_last_active s) div 1000 > KCP_IDLE_TIMEOUT_SEC)
                              sess);
          (evs', l') = remove_sessions expired (l\<lparr>kl_conv_to_sess := sess\<rparr>)
      in (evs @ evs', l'))"

definition kcp_send :: "'k kcp_lib \<Rightarrow> kcp_thread \<Rightarrow> nat \<Rightarrow> raw_msg option \<Rightarrow> 'k kcp_listener \<Rightarrow>
    fault + (int \<times> 'k kcp_listener)" where
  "kcp_send lib t conn_id pack l =
     (case pack of None \<Rightarrow> Inr (-1, l)
      | Some m \<Rightarrow>
        case kl_id_to_conv l conn_id of None \<Rightarrow> Inr (-1, l)
        | Some conv \<Rightarrow>
          case map_of (kl_conv_to_sess l) conv of None \<Rightarrow> Inl Thrown
          | Some sess \<Rightarrow>
              let (r, k) = ikcp_send lib (ks_kcp sess) (ws_send_bytes m)
              in Inr (if r < 0 then -1 else 0,
                      l\<lparr>kl_tl_udp_fd := (kl_tl_udp_fd l)(t := kl_udp_fd l),
                        kl_conv_to_sess := AList.update conv (sess\<lparr>ks_kcp := k\<rparr>) (kl_conv_to_sess l)\<rparr>))"

section \<open>Runs\<close>

datatype kcp_op =
    KPacket nat "8 word list" sockaddr
  | KUpdate nat
  | KSend kcp_thread nat "raw_msg option"
  | KClose nat

fun kcp_step :: "'k kcp_lib \<Rightarrow> (nat \<Rightarrow> raw_msg \<Rightarrow> bool) \<Rightarrow> kcp_op \<Rightarrow> 'k kcp_listener \<Rightarrow>
    fault + (kcp_event list \<times> 'k kcp_listener)" where
  "kcp_step lib replies (KPacket now data from) l = processUdpPacket lib replies now data from l"
| "kcp_step lib replies (KUpdate now) l = Inr (updateRound lib now l)"
| "kcp_step lib replies (KSend t cid pack) l =
     (case kcp_send lib t cid pack l of Inl f \<Rightarrow> Inl f | Inr (rc, l') \<Rightarrow> Inr ([], l'))"
| "kcp_step lib replies (KClose cid) l = Inr (kcp_close_conn cid l)"

text \<open>The update thread only runs \<open>updateLoop\<close>: it never calls \<open>send\<close>.\<close>

fun kcp_op_ok :: "kcp_op \<Rightarrow> bool" where
  "kcp_op_ok (KSend t cid pack) \<longleftrightarrow> t \<noteq> UpdateThread"
| "kcp_op_ok _ \<longleftrightarrow> True"

inductive kcp_reach :: "'k kcp_lib \<Rightarrow> (nat \<Rightarrow> raw_msg \<Rightarrow> bool) \<Rightarrow> int \<Rightarrow> 'k kcp_listener \<Rightarrow> bool"
  for lib replies fd where
  start: "kcp_reach lib replies fd (kcp_started fd)"
| step: "kcp_reach lib replies fd l \<Longrightarrow> kcp_op_ok p \<Longrightarrow> kcp_step lib replies p l = Inr (evs, l') \<Longrightarrow>
         kcp_reach lib replies fd l'"

text \<open>The tables describe the same sessions and the update thread's descriptor was never set.\<close>

definition kcp_inv :: "'k kcp_listener \<Rightarrow> bool" where
  "kcp_inv l \<longleftrightarrow>
     kl_tl_udp_fd l UpdateThread = -1 \<and> 2000000 \<le> kl_next_conn_id l \<and>
     distinct (map fst (kl_conv_to_sess l)) \<and>
     (\<forall>conv sess. map_of (kl_conv_to_sess l) conv = Some sess \<longrightarrow>
        2000000 \<le> ks_conn_id sess \<and> ks_conn_id sess < kl_next_conn_id l \<and>
        kl_id_to_conv l (ks_conn_id sess) = Some conv) \<and>
     (\<forall>cid conv. kl_id_to_conv l cid = Some conv \<longrightarrow>
        (\<exists>sess. map_of (kl_conv_to_sess l) conv = Some sess \<and> ks_conn_id sess = cid))"

lemma kcp_remove_inv:
  assumes "kcp_inv l" "map_of (kl_conv_to_sess l) conv = Some sess"
  shows "kcp_inv (l\<lparr>kl_conv_to_sess := AList.delete conv (kl_conv_to_sess l),
             kl_addr_to_conv := a, kl_id_to_conv := (kl_id_to_conv l)(ks_conn_id sess := None)\<rparr>)"
proof -
  note inv = assms(1) [unfolded kcp_inv_def]
  have other: "ks_conn_id s \<noteq> ks_conn_id sess"
    if "map_of (kl_conv_to_sess l) d = Some s" "d \<noteq> conv" for d s
    using inv that assms(2) by (metis option.inject)
  have own: "cid = ks_conn_id sess" if "kl_id_to_conv l cid = Some conv" for cid
    using inv that assms(2) by (metis option.inject)
  show ?thesis
    using inv other own unfolding kcp_inv_def
    by (auto simp: delete_conv' distinct_delete simp del: map_of_eq_Some_iff)
qed

lemma removeSession_inv: "kcp_inv l \<Longrightarrow> kcp_inv (snd (removeSession conv l))"
  by (auto simp: removeSession_def Let_def kcp_remove_inv split: option.splits)

lemma kcp_close_inv:
  assumes inv: "kcp_inv l"
  shows "kcp_inv (snd (kcp_close_conn cid l))"
proof (cases "kl_id_to_conv l cid")
  case None then show ?thesis using inv by (simp add: kcp_close_conn_def)
next
  case (Some conv)
  then obtain sess where s: "map_of (kl_conv_to_sess l) conv = Some sess" "ks_conn_id sess = cid"
    using inv unfolding kcp_inv_def by blast
  show ?thesis
    using kcp_remove_inv [OF inv s(1)] Some s by (simp add: kcp_close_conn_def Let_def)
qed

lemma remove_sessions_inv: "kcp_inv l \<Longrightarrow> kcp_inv (snd (remove_sessions convs l))"
proof (induction convs arbitrary: l)
  case (Cons conv convs)
  show ?case using Cons.IH [OF removeSession_inv [OF Cons.prems, of conv]]
    by (auto split: prod.splits)
qed simp

text \<open>Replacing a session by one with the same id.\<close>

lemma kcp_update_inv:
  assumes "kcp_inv l" "map_of (kl_conv_to_sess l) conv = Some sess" "ks_conn_id sess' = ks_conn_id sess"
    "f UpdateThread = -1"
  shows "kcp_inv (l\<lparr>kl_tl_udp_fd := f,
           kl_conv_to_sess := AList.update conv sess' (kl_conv_to_sess l)\<rparr>)"
  using assms unfolding kcp_inv_def
  by (auto simp: update_conv' distinct_update simp del: map_of_eq_Some_iff) (metis option.inject)

lemma update_all_sessions:
  "map (\<lambda>(conv, s). (conv, ks_conn_id s)) (snd (update_all lib now l xs)) =
     map (\<lambda>(conv, s). (conv, ks_conn_id s)) xs"
  by (induction xs) (auto split: prod.splits)

lemma kcp_inv_ids:
  assumes "kcp_inv l" "map (\<lambda>(conv, s). (conv, ks_conn_id s)) xs =
     map (\<lambda>(conv, s). (conv, ks_conn_id s)) (kl_conv_to_sess l)"
  shows "kcp_inv (l\<lparr>kl_conv_to_sess := xs\<rparr>)"
proof -
  have keys: "map fst xs = map fst (kl_conv_to_sess l)"
    using arg_cong [OF assms(2), of "map fst"] by (simp add: comp_def case_prod_beta)
  have val: "map_option ks_conn_id (map_of zs conv) = map_of (map (\<lambda>(conv, s). (conv, ks_conn_id s)) zs) conv"
    for zs :: "(nat \<times> 'a kcp_session) list" and conv by (induction zs) auto
  have same: "map_option ks_conn_id (map_of xs conv) = map_option ks_conn_id (map_of (kl_conv_to_sess l) conv)"
    for conv unfolding val assms(2) ..
  note inv = assms(1) [unfolded kcp_inv_def]
  have fwd: "\<exists>s'. map_of (kl_conv_to_sess l) conv = Some s' \<and> ks_conn_id s' = ks_conn_id s"
    if "map_of xs conv = Some s" for conv s
    using same [of conv] that by (cases "map_of (kl_conv_to_sess l) conv") auto
  have bwd: "\<exists>s'. map_of xs conv = Some s' \<and> ks_conn_id s' = ks_conn_id s"
    if "map_of (kl_conv_to_sess l) conv = Some s" for conv s
    using same [of conv] that by (cases "map_of xs conv") auto
  show ?thesis
    unfolding kcp_inv_def
  proof (intro conjI allI impI)
    show "distinct (map fst (kl_conv_to_sess (l\<lparr>kl_conv_to_sess := xs\<rparr>)))" using keys inv by simp
  next
    fix conv s assume "map_of (kl_conv_to_sess (l\<lparr>kl_conv_to_sess := xs\<rparr>)) conv = Some s"
    then obtain s' where s': "map_of (kl_conv_to_sess l) conv = Some s'" "ks_conn_id s' = ks_conn_id s"
      using fwd by auto
    then have "2000000 \<le> ks_conn_id s' \<and> ks_conn_id s' < kl_next_conn_id l \<and>
        kl_id_to_conv l (ks_conn_id s') = Some conv" using inv by blast
    then show "2000000 \<le> ks_conn_id s" "ks_conn_id s < kl_next_conn_id (l\<lparr>kl_conv_to_sess := xs\<rparr>)"
        "kl_id_to_conv (l\<lparr>kl_conv_to_sess := xs\<rparr>) (ks_conn_id s) = Some conv"
      using s'(2) by simp_all
  next
    fix cid conv assume "kl_id_to_conv (l\<lparr>kl_conv_to_sess := xs\<rparr>) cid = Some conv"
    then have "kl_id_to_conv l cid = Some conv" by simp
    then obtain s where "map_of (kl_conv_to_sess l) conv = Some s" "ks_conn_id s = cid"
      using inv by blast
    then show "\<exists>sess. map_of (kl_conv_to_sess (l\<lparr>kl_conv_to_sess := xs\<rparr>)) conv = Some sess \<and>
        ks_conn_id sess = cid" using bwd by auto
  qed (use inv in auto)
qed

lemma create_inv:
  assumes "kcp_inv l" "kcp_find_or_create lib now conv from l = (evs, sess, l')"
  shows "kcp_inv l'" "map_of (kl_conv_to_sess l') conv = Some sess"
proof -
  have "kcp_inv l' \<and> map_of (kl_conv_to_sess l') conv = Some sess"
  proof (cases "map_of (kl_conv_to_sess l) conv")
    case (Some s) then show ?thesis using assms by (simp add: kcp_find_or_create_def)
  next
    case None
    let ?n = "kl_next_conn_id l"
    have l': "l' = l\<lparr>kl_next_conn_id := ?n + 1,
        kl_conv_to_sess := AList.update conv sess (kl_conv_to_sess l),
        kl_addr_to_conv := (kl_addr_to_conv l)(from \<mapsto> conv),
        kl_id_to_conv := (kl_id_to_conv l)(?n \<mapsto> conv)\<rparr>" "ks_conn_id sess = ?n"
      using assms(2) None by (auto simp: kcp_find_or_create_def Let_def)
    note inv = assms(1) [unfolded kcp_inv_def]
    have old: "2000000 \<le> ks_conn_id s \<and> ks_conn_id s < ?n \<and> kl_id_to_conv l (ks_conn_id s) = Some d"
      if "map_of (kl_conv_to_sess l) d = Some s" for d s using inv that by blast
    have "d \<noteq> conv" if "kl_id_to_conv l cid = Some d" for cid d
      using inv that None by (metis option.distinct(1))
    then have "kcp_inv l'"
      using inv old unfolding l'(1) kcp_inv_def
      by (auto simp: update_conv' distinct_update l'(2) simp del: map_of_eq_Some_iff) force+
    then show ?thesis using l' by (simp add: update_conv')
  qed
  then show "kcp_inv l'" "map_of (kl_conv_to_sess l') conv = Some sess" by auto
qed

lemma dispatch_same: "dispatchKcpData lib replies sess = Inr (evs, sess') \<Longrightarrow> ks_conn_id sess' = ks_conn_id sess"
  by (auto simp: dispatchKcpData_def split: prod.splits sum.splits)

lemma packet_inv:
  assumes "kcp_inv l" "processUdpPacket lib replies now data from l = Inr (evs, l')"
  shows "kcp_inv l'"
proof (cases "length data < KCP_HEADER")
  case True then show ?thesis using assms by (simp add: processUdpPacket_def)
next
  case False
  let ?conv = "field 0 4 data"
  obtain e1 sess l1 where c: "kcp_find_or_create lib now ?conv from l = (e1, sess, l1)"
    by (metis prod_cases3)
  obtain outs k where i: "ikcp_input lib (ks_kcp sess) data = (outs, k)"
    by (cases "ikcp_input lib (ks_kcp sess) data")
  obtain e2 sess2 where d: "dispatchKcpData lib replies
        (sess\<lparr>ks_last_active := now, ks_kcp := k\<rparr>) = Inr (e2, sess2)"
      "l' = l1\<lparr>kl_conv_to_sess := AList.update ?conv sess2 (kl_conv_to_sess l1)\<rparr>"
    using assms(2) False c i by (auto simp: processUdpPacket_def Let_def split: sum.splits)
  note l1 = create_inv [OF assms(1) c]
  have "kl_tl_udp_fd l1 UpdateThread = -1" using l1(1) by (simp add: kcp_inv_def)
  moreover have "ks_conn_id sess2 = ks_conn_id sess" using dispatch_same [OF d(1)] by simp
  ultimately show ?thesis
    using kcp_update_inv [OF l1, of sess2 "kl_tl_udp_fd l1"] d(2) by simp
qed

lemma update_round_inv:
  assumes "kcp_inv l"
  shows "kcp_inv (snd (updateRound lib now l))"
proof -
  obtain evs sess where u: "update_all lib now l (kl_conv_to_sess l) = (evs, sess)"
    by (cases "update_all lib now l (kl_conv_to_sess l)")
  have "kcp_inv (l\<lparr>kl_conv_to_sess := sess\<rparr>)"
    using kcp_inv_ids [OF assms update_all_sessions [of lib now l "kl_conv_to_sess l"]] u by simp
  from remove_sessions_inv [OF this] show ?thesis
    using u by (simp add: updateRound_def Let_def case_prod_beta)
qed

lemma send_inv:
  assumes "kcp_inv l" "t \<noteq> UpdateThread" "kcp_send lib t cid pack l = Inr (rc, l')"
  shows "kcp_inv l'"
proof -
  have f: "((kl_tl_udp_fd l)(t := kl_udp_fd l)) UpdateThread = -1"
    using assms(1,2) by (auto simp: kcp_inv_def)
  have upd: "kcp_inv (l\<lparr>kl_tl_udp_fd := (kl_tl_udp_fd l)(t := kl_udp_fd l),
        kl_conv_to_sess := AList.update conv (sess\<lparr>ks_kcp := k\<rparr>) (kl_conv_to_sess l)\<rparr>)"
    if "map_of (kl_conv_to_sess l) conv = Some sess" for conv sess k
    by (rule kcp_update_inv [of l conv sess _ "(kl_tl_udp_fd l)(t := kl_udp_fd l)"])
      (use assms(1) that f in simp_all)
  show ?thesis
    using assms(1,3) upd
    by (auto simp: kcp_send_def Let_def simp del: map_of_eq_Some_iff
        split: option.splits prod.splits)
qed

lemma kcp_reach_inv: "kcp_reach lib replies fd l \<Longrightarrow> kcp_inv l"
proof (induction rule: kcp_reach.induct)
  case start then show ?case by (simp add: kcp_inv_def kcp_started_def)
next
  case (step l p evs l')
  then show ?case
  proof (cases p)
    case (KPacket now data addr) 
    then show ?thesis using step packet_inv [of l lib replies now data addr evs l'] by simp
  next
    case (KUpdate now) then show ?thesis using step update_round_inv [of l lib now] by auto
  next
    case (KSend t cid pack)
    then show ?thesis using step send_inv by (auto split: sum.splits)
  next
    case (KClose cid) then show ?thesis using step kcp_close_inv [of l cid] by auto
  qed
qed

section \<open>Properties\<close>

text \<open>
  in every state the listener can reach, its session and id tables describe the same sessions, so
  \<open>send\<close> never throws; and every datagram the update thread flushes, that is every transmission and
  retransmission, goes to descriptor -1: \<open>tl_udp_fd\<close> is thread-local and that thread never sets it.
\<close>

theorem kcp_update_sends_nowhere:
  assumes "kcp_reach lib replies fd l"
  shows "(\<forall>t cid pack. kcp_send lib t cid pack l \<noteq> Inl Thrown) \<and>
    (\<forall>now f a b. KcpSendto f a b \<in> set (fst (updateRound lib now l)) \<longrightarrow> f = -1)"
proof -
  note inv = kcp_reach_inv [OF assms]
  have "kcp_send lib t cid pack l \<noteq> Inl Thrown" for t cid pack
  proof -
    have "map_of (kl_conv_to_sess l) conv \<noteq> None" if "kl_id_to_conv l cid = Some conv" for conv
      using inv that unfolding kcp_inv_def by blast
    then show ?thesis
      by (auto simp: kcp_send_def Let_def simp del: map_of_eq_Some_iff split: option.splits prod.splits)
  qed
  moreover have "f = -1" if h: "KcpSendto f a b \<in> set (fst (updateRound lib now l))" for now f a b
  proof -
    have tl: "kl_tl_udp_fd l UpdateThread = -1" using inv by (simp add: kcp_inv_def)
    have up: "KcpSendto f a b \<in> set (fst (update_all lib now l xs)) \<Longrightarrow> f = -1" for xs
      by (induction xs) (auto simp: kcpOutput_def tl split: prod.splits)
    have rm: "KcpSendto f a b \<notin> set (fst (removeSession conv l))" for conv and l :: "'a kcp_listener"
      by (auto simp: removeSession_def Let_def split: option.splits)
    have rms: "KcpSendto f a b \<notin> set (fst (remove_sessions convs l))" for convs and l :: "'a kcp_listener"
    proof (induction convs arbitrary: l)
      case (Cons conv convs)
      show ?case using rm [of conv l] Cons.IH [of "snd (removeSession conv l)"]
        by (auto split: prod.splits)
    qed simp
    obtain e1 s1 where u: "update_all lib now l (kl_conv_to_sess l) = (e1, s1)"
      by (cases "update_all lib now l (kl_conv_to_sess l)")
    have "fst (updateRound lib now l) = e1 @ fst (remove_sessions
        (map fst (filter (\<lambda>(conv, s). (now - ks_last_active s) div 1000 > KCP_IDLE_TIMEOUT_SEC) s1))
        (l\<lparr>kl_conv_to_sess := s1\<rparr>))"
      using u by (simp add: updateRound_def Let_def split: prod.splits)
    then show ?thesis using h rms up [of "kl_conv_to_sess l"] u by auto
  qed
  ultimately show ?thesis by blast
qed

text \<open>
  whatever the peer puts into a KCP message, a message handed up carries the session's own id and
  exactly the body it announces; oversized and short ones are dropped.
\<close>

theorem kcp_delivers_only_consistent:
  assumes "kcp_deliver replies cid ps = Inr evs"
  shows "\<forall>e \<in> set evs. \<exists>m. e = KcpRecv cid m \<and> h_conn_id (r_header m) = cid \<and>
    r_data_len m = (case r_data m of None \<Rightarrow> 0 | Some d \<Rightarrow> length d)"
  using assms
proof (induction ps arbitrary: evs)
  case Nil then show ?case by simp
next
  case (Cons p ps)
  show ?case
  proof (cases "kcp_payload_msg cid p")
    case None then show ?thesis using Cons by simp
  next
    case (Some m)
    then have m: "h_conn_id (r_header m) = cid \<and>
        r_data_len m = (case r_data m of None \<Rightarrow> 0 | Some d \<Rightarrow> length d)"
      by (auto simp: kcp_payload_msg_def Let_def split: if_splits)
    obtain evs' where "kcp_deliver replies cid ps = Inr evs'" "evs = KcpRecv cid m # evs'"
      using Cons.prems Some by (auto split: if_splits sum.splits)
    then show ?thesis using Cons.IH m by (metis set_ConsD)
  qed
qed

text \<open>
  a handler that answers on the connection deadlocks the io thread: messages are handed up while
  \<open>mu_\<close> is held, and \<open>send\<close> and \<open>close_conn\<close> take it again.
\<close>

theorem kcp_reply_deadlocks:
  assumes "KCP_HEADER \<le> length data" "kcp_find_or_create lib now (field 0 4 data) from l = (e, sess, l1)"
    "p \<in> set (fst (ikcp_drain lib (snd (ikcp_input lib (ks_kcp sess) data))))"
    "kcp_payload_msg (ks_conn_id sess) p = Some m" "replies (ks_conn_id sess) m"
  shows "processUdpPacket lib replies now data from l = Inl Deadlock"
proof -
  have d: "kcp_deliver replies cid ps = Inl Deadlock"
    if "p \<in> set ps" "cid = ks_conn_id sess" for ps cid
    using that(1)
  proof (induction ps)
    case (Cons q ps)
    show ?case
    proof (cases "p = q")
      case True then show ?thesis using assms(4,5) that(2) by simp
    next
      case False
      then have "kcp_deliver replies cid ps = Inl Deadlock" using Cons by simp
      then show ?thesis by (simp split: option.splits)
    qed
  qed simp
  then show ?thesis
    using assms(1-3)
    by (auto simp: processUdpPacket_def dispatchKcpData_def Let_def split: prod.splits)
qed

text \<open>A library whose control block is the queue of received payloads and of bytes to send.\<close>

definition demo_lib :: "(8 word list list \<times> 8 word list list) kcp_lib" where
  "demo_lib = \<lparr>ikcp_create = (\<lambda>conv. ([], [])),
     ikcp_input = (\<lambda>(i, out) d. ([], (i @ [drop 24 d], out))),
     ikcp_drain = (\<lambda>(i, out). (i, ([], out))),
     ikcp_send = (\<lambda>(i, out) d. (0, (i, out @ [d]))),
     ikcp_update = (\<lambda>(i, out) t. (out, (i, [])))\<rparr>"

definition hello_datagram :: "8 word list" where
  "hello_datagram = le_bytes 4 7 @ replicate 20 0 @ ws_send_bytes hello_msg"

lemma hello_arrives:
  "kcp_payload_msg cid (ws_send_bytes hello_msg) =
     Some (hello_msg\<lparr>r_header := (r_header hello_msg)\<lparr>h_conn_id := cid\<rparr>\<rparr>)"
  by (simp add: kcp_payload_msg_def ws_send_bytes_def hello_msg_def encode_header_def Header_of_def
      field_def le_nat_le_bytes MAX_PACKET_SIZE_def sizeof_Header_def)

lemma hello_session:
  "kcp_step demo_lib (\<lambda>_ _. False) (KPacket 0 hello_datagram (1, 2)) (kcp_started 5) =
     Inr ([KcpConnected 2000000, KcpRecv 2000000
             (hello_msg\<lparr>r_header := (r_header hello_msg)\<lparr>h_conn_id := 2000000\<rparr>\<rparr>)],
          (kcp_started 5)\<lparr>kl_next_conn_id := 2000001,
             kl_conv_to_sess := [(7, \<lparr>ks_kcp = ([], []), ks_conn_id = 2000000, ks_addr = (1, 2),
                                      ks_last_active = 0\<rparr>)],
             kl_addr_to_conv := [(1, 2) \<mapsto> 7], kl_id_to_conv := [2000000 \<mapsto> 7]\<rparr>)"
proof -
  have "field 0 4 hello_datagram = 7" "drop 24 hello_datagram = ws_send_bytes hello_msg"
      "\<not> length hello_datagram < KCP_HEADER"
    by (simp_all add: hello_datagram_def field_def le_nat_le_bytes KCP_HEADER_def)
  then show ?thesis
    by (simp add: processUdpPacket_def kcp_find_or_create_def dispatchKcpData_def demo_lib_def Let_def
        kcp_started_def hello_arrives kcpOutput_def)
qed

theorem kcp_update_sends_nowhere_witness:
  "\<exists>l :: (8 word list list \<times> 8 word list list) kcp_listener. kcp_reach demo_lib (\<lambda>_ _. False) 5 l \<and> kl_udp_fd l = 5 \<and>
    fst (updateRound demo_lib 10 l) = [KcpSendto (-1) (1, 2) (ws_send_bytes hello_msg)] \<and>
    (\<forall>t cid pack. kcp_send demo_lib t cid pack l \<noteq> Inl Thrown) \<and>
    (\<forall>now f a b. KcpSendto f a b \<in> set (fst (updateRound demo_lib now l)) \<longrightarrow> f = -1)"
proof -
  note r1 = kcp_reach.step [OF kcp_reach.start _ hello_session]
  define l1 where "l1 = (kcp_started 5)\<lparr>kl_next_conn_id := 2000001,
             kl_conv_to_sess := [(7, \<lparr>ks_kcp = ([] :: 8 word list list, [] :: 8 word list list),
                                      ks_conn_id = 2000000, ks_addr = (1, 2), ks_last_active = 0\<rparr>)],
             kl_addr_to_conv := [(1, 2) \<mapsto> 7], kl_id_to_conv := [2000000 \<mapsto> 7]\<rparr>"
  have r1': "kcp_reach demo_lib (\<lambda>_ _. False) 5 l1" using r1 by (simp add: l1_def)
  obtain l2 where l2: "kcp_step demo_lib (\<lambda>_ _. False) (KSend (OtherThread 0) 2000000 (Some hello_msg)) l1
      = Inr ([], l2)" "kl_udp_fd l2 = 5"
      "fst (updateRound demo_lib 10 l2) = [KcpSendto (-1) (1, 2) (ws_send_bytes hello_msg)]"
    by (simp add: l1_def kcp_send_def demo_lib_def kcp_started_def updateRound_def kcpOutput_def
        Let_def KCP_IDLE_TIMEOUT_SEC_def)
  have "kcp_reach demo_lib (\<lambda>_ _. False) 5 l2" by (rule kcp_reach.step [OF r1' _ l2(1)]) simp
  then show ?thesis using l2 kcp_update_sends_nowhere by blast
qed

theorem kcp_delivers_only_consistent_witness:
  "\<exists>evs. kcp_deliver (\<lambda>_ _. False) 2000000 [ws_send_bytes hello_msg, [1, 2, 3]] = Inr evs \<and> length evs = 1 \<and>
    (\<forall>e \<in> set evs. \<exists>m. e = KcpRecv 2000000 m \<and> h_conn_id (r_header m) = 2000000 \<and>
    r_data_len m = (case r_data m of None \<Rightarrow> 0 | Some d \<Rightarrow> length d))"
proof -
  have "kcp_payload_msg 2000000 [1, 2, 3] = None"
    by (simp add: kcp_payload_msg_def sizeof_Header_def MAX_PACKET_SIZE_def)
  then obtain evs where "kcp_deliver (\<lambda>_ _. False) 2000000 [ws_send_bytes hello_msg, [1, 2, 3]] = Inr evs"
      "length evs = 1"
    by (simp add: hello_arrives)
  then show ?thesis using kcp_delivers_only_consistent by blast
qed

theorem kcp_reply_deadlocks_witness:
  "processUdpPacket demo_lib (\<lambda>_ _. True) 0 hello_datagram (1, 2) (kcp_started 5) = Inl Deadlock"
proof -
  have f: "field 0 4 hello_datagram = 7" "drop 24 hello_datagram = ws_send_bytes hello_msg"
      "KCP_HEADER \<le> length hello_datagram"
    by (simp_all add: hello_datagram_def field_def le_nat_le_bytes KCP_HEADER_def)
  obtain e l1 sess where c: "kcp_find_or_create demo_lib 0 7 (1, 2) (kcp_started 5) = (e, sess, l1)"
      "ks_kcp sess = ([], [])"
    by (simp add: kcp_find_or_create_def kcp_started_def demo_lib_def Let_def)
  show ?thesis
    using kcp_reply_deadlocks [of hello_datagram demo_lib 0 "(1, 2)" "kcp_started 5" e sess l1
        "ws_send_bytes hello_msg" "hello_msg\<lparr>r_header := (r_header hello_msg)\<lparr>h_conn_id := ks_conn_id sess\<rparr>\<rparr>"
        "\<lambda>_ _. True"] f c
    by (simp add: hello_arrives demo_lib_def)
qed

end
