(* ===== verification/Session.thy ===== *)
theory Session
  imports Prelude "HOL-Library.AList"
begin

text \<open>
  \<open>SessionManager\<close> (server/connd/SessionManager.h, SessionManager.cpp): the sessions by connection id
  and the connection a user is bound to. \<open>sessions_\<close> is an association list because
  \<open>online_count\<close> counts it; \<open>user_to_conn_\<close> is a map. No method of the class calls another one, so its lock
  never nests and each method is one atomic step. The interface the dispatcher relies on is the
  locale \<open>session_store\<close>, interpreted on this model.
\<close>

section \<open>State and operations\<close>

record client_session =
  cs_conn_id :: nat
  cs_user_id :: string
  cs_proto :: string
  cs_authed :: bool
  cs_connected_at :: nat

record session_mgr =
  sm_sessions :: "(nat \<times> client_session) list"
  sm_user_to_conn :: "string \<rightharpoonup> nat"

definition SessionManager_ctor :: session_mgr where
  "SessionManager_ctor = \<lparr>sm_sessions = [], sm_user_to_conn = Map.empty\<rparr>"

definition on_connect :: "nat \<Rightarrow> nat \<Rightarrow> string \<Rightarrow> session_mgr \<Rightarrow> session_mgr" where
  "on_connect now conn_id proto s =
     s\<lparr>sm_sessions := AList.update conn_id
         \<lparr>cs_conn_id = conn_id, cs_user_id = '''', cs_proto = proto, cs_authed = False,
          cs_connected_at = now\<rparr> (sm_sessions s)\<rparr>"

definition on_disconnect :: "nat \<Rightarrow> session_mgr \<Rightarrow> session_mgr" where
  "on_disconnect conn_id s =
     (case map_of (sm_sessions s) conn_id of
        None \<Rightarrow> s
      | Some cs \<Rightarrow>
          (let s1 = (if cs_authed cs \<and> cs_user_id cs \<noteq> ''''
                     then (if sm_user_to_conn s (cs_user_id cs) = Some conn_id
                           then s\<lparr>sm_user_to_conn := (sm_user_to_conn s)(cs_user_id cs := None)\<rparr>
                           else s)
                     else s)
           in s1\<lparr>sm_sessions := AList.delete conn_id (sm_sessions s1)\<rparr>))"

definition on_auth_ok :: "nat \<Rightarrow> string \<Rightarrow> session_mgr \<Rightarrow> nat option \<times> session_mgr" where
  "on_auth_ok conn_id user_id s =
     (case sm_user_to_conn s user_id of
        Some old \<Rightarrow>
          if old \<noteq> conn_id then (Some old, s)
          else (case map_of (sm_sessions s) conn_id of
                  None \<Rightarrow> (None, s)
                | Some cs \<Rightarrow> (None, s\<lparr>sm_sessions := AList.update conn_id
                      (cs\<lparr>cs_user_id := user_id, cs_authed := True\<rparr>) (sm_sessions s),
                    sm_user_to_conn := (sm_user_to_conn s)(user_id \<mapsto> conn_id)\<rparr>))
      | None \<Rightarrow>
          (case map_of (sm_sessions s) conn_id of
             None \<Rightarrow> (None, s)
           | Some cs \<Rightarrow> (None, s\<lparr>sm_sessions := AList.update conn_id
                 (cs\<lparr>cs_user_id := user_id, cs_authed := True\<rparr>) (sm_sessions s),
               sm_user_to_conn := (sm_user_to_conn s)(user_id \<mapsto> conn_id)\<rparr>)))"

definition is_authed :: "nat \<Rightarrow> session_mgr \<Rightarrow> bool" where
  "is_authed conn_id s =
     (case map_of (sm_sessions s) conn_id of None \<Rightarrow> False | Some cs \<Rightarrow> cs_authed cs)"

definition get_user_id :: "nat \<Rightarrow> session_mgr \<Rightarrow> string" where
  "get_user_id conn_id s =
     (case map_of (sm_sessions s) conn_id of None \<Rightarrow> '''' | Some cs \<Rightarrow> cs_user_id cs)"

definition find_conn_by_user :: "string \<Rightarrow> session_mgr \<Rightarrow> nat option" where
  "find_conn_by_user user_id s =
     (case sm_user_to_conn s user_id of None \<Rightarrow> None | Some c \<Rightarrow> Some c)"

definition online_count :: "session_mgr \<Rightarrow> nat" where
  "online_count s = length (sm_sessions s)"

definition get_session :: "nat \<Rightarrow> session_mgr \<Rightarrow> client_session option" where
  "get_session conn_id s =
     (case map_of (sm_sessions s) conn_id of None \<Rightarrow> None | Some cs \<Rightarrow> Some cs)"

section \<open>Invariants\<close>

text \<open>The user a connection is authenticated as.\<close>

definition user_of :: "session_mgr \<Rightarrow> nat \<rightharpoonup> string" where
  "user_of s c = (case map_of (sm_sessions s) c of
     None \<Rightarrow> None | Some cs \<Rightarrow> if cs_authed cs then Some (cs_user_id cs) else None)"

definition connected :: "session_mgr \<Rightarrow> nat \<Rightarrow> bool" where
  "connected s c \<longleftrightarrow> map_of (sm_sessions s) c \<noteq> None"

text \<open>Every authenticated connection is the one its user is bound to.\<close>

definition sm_inv :: "session_mgr \<Rightarrow> bool" where
  "sm_inv s \<longleftrightarrow>
     distinct (map fst (sm_sessions s)) \<and>
     (\<forall>c cs. map_of (sm_sessions s) c = Some cs \<longrightarrow> cs_conn_id cs = c) \<and>
     (\<forall>c u. user_of s c = Some u \<longrightarrow> sm_user_to_conn s u = Some c)"

text \<open>No user is bound to a connection that is gone or belongs to somebody else.\<close>

definition sm_clean :: "session_mgr \<Rightarrow> bool" where
  "sm_clean s \<longleftrightarrow> sm_inv s \<and>
     (\<forall>u c. sm_user_to_conn s u = Some c \<longrightarrow> u \<noteq> '''' \<and> user_of s c = Some u)"

lemma map_of_delete: "map_of (AList.delete k xs) = (map_of xs)(k := None)"
  by (rule ext) (simp add: delete_conv')

lemmas session_simps = user_of_def connected_def map_of_delete update_conv'

lemma is_authed_user: "is_authed c s \<longleftrightarrow> user_of s c \<noteq> None"
  by (auto simp: is_authed_def user_of_def split: option.splits)

lemma user_of_connected: "user_of s c = Some u \<Longrightarrow> connected s c"
  by (auto simp: session_simps split: option.splits)

lemma sm_inv_ctor: "sm_inv SessionManager_ctor" "sm_clean SessionManager_ctor"
  by (simp_all add: sm_inv_def sm_clean_def SessionManager_ctor_def user_of_def)

lemma user_of_on_connect: "user_of (on_connect now c p s) = (user_of s)(c := None)"
  by (rule ext) (simp add: on_connect_def session_simps)

lemma connected_on_connect: "connected (on_connect now c p s) d \<longleftrightarrow> d = c \<or> connected s d"
  by (simp add: on_connect_def session_simps)

lemma bound_on_connect [simp]: "sm_user_to_conn (on_connect now c p s) = sm_user_to_conn s"
  by (simp add: on_connect_def)

lemma sessions_on_connect:
  "map_of (sm_sessions (on_connect now c p s)) = (map_of (sm_sessions s))(c \<mapsto>
     \<lparr>cs_conn_id = c, cs_user_id = '''', cs_proto = p, cs_authed = False, cs_connected_at = now\<rparr>)"
  "distinct (map fst (sm_sessions s)) \<Longrightarrow> distinct (map fst (sm_sessions (on_connect now c p s)))"
  by (simp_all add: on_connect_def update_conv' distinct_update)

lemma sm_inv_on_connect: "sm_inv s \<Longrightarrow> sm_inv (on_connect now c p s)"
  by (auto simp: sm_inv_def sessions_on_connect user_of_on_connect split: if_splits
      simp del: map_of_eq_Some_iff)

lemma user_of_on_disconnect: "user_of (on_disconnect c s) = (user_of s)(c := None)"
  by (rule ext) (auto simp: on_disconnect_def session_simps Let_def split: option.splits)

lemma connected_on_disconnect: "connected (on_disconnect c s) d \<longleftrightarrow> d \<noteq> c \<and> connected s d"
  by (auto simp: on_disconnect_def session_simps Let_def split: option.splits)

lemma bound_on_disconnect:
  "sm_user_to_conn (on_disconnect c s) u =
     (if u \<noteq> '''' \<and> user_of s c = Some u \<and> sm_user_to_conn s u = Some c then None
      else sm_user_to_conn s u)"
  by (auto simp: on_disconnect_def session_simps Let_def split: option.splits)

lemma keys_on_disconnect:
  "distinct (map fst (sm_sessions s)) \<Longrightarrow> distinct (map fst (sm_sessions (on_disconnect c s)))"
  by (auto simp: on_disconnect_def Let_def distinct_delete split: option.splits)

lemma ids_on_disconnect:
  "map_of (sm_sessions (on_disconnect c s)) = (map_of (sm_sessions s))(c := None)"
  by (rule ext) (auto simp: on_disconnect_def Let_def map_of_delete split: option.splits)

lemma sm_inv_on_disconnect: "sm_inv s \<Longrightarrow> sm_inv (on_disconnect c s)"
  by (auto simp: sm_inv_def keys_on_disconnect ids_on_disconnect user_of_on_disconnect
      bound_on_disconnect split: if_splits)

lemma on_disconnect_idem: "on_disconnect c (on_disconnect c s) = on_disconnect c s"
  by (subst on_disconnect_def) (simp add: ids_on_disconnect)

lemma sm_clean_on_disconnect: "sm_clean s \<Longrightarrow> sm_clean (on_disconnect c s)"
  by (auto simp: sm_clean_def sm_inv_on_disconnect bound_on_disconnect user_of_on_disconnect
      split: if_splits)

lemma on_auth_ok_kick:
  "sm_user_to_conn s u = Some d \<Longrightarrow> d \<noteq> c \<Longrightarrow> on_auth_ok c u s = (Some d, s)"
  by (simp add: on_auth_ok_def)

lemma on_auth_ok_bind:
  assumes "sm_user_to_conn s u = None \<or> sm_user_to_conn s u = Some c"
  shows "on_auth_ok c u s =
     (None, case map_of (sm_sessions s) c of None \<Rightarrow> s
      | Some cs \<Rightarrow> s\<lparr>sm_sessions := AList.update c (cs\<lparr>cs_user_id := u, cs_authed := True\<rparr>) (sm_sessions s),
                    sm_user_to_conn := (sm_user_to_conn s)(u \<mapsto> c)\<rparr>)"
  using assms by (auto simp: on_auth_ok_def split: option.splits)

lemma on_auth_ok_cases:
  "(\<exists>d. d \<noteq> c \<and> sm_user_to_conn s u = Some d \<and> on_auth_ok c u s = (Some d, s)) \<or>
   \<not> connected s c \<and> on_auth_ok c u s = (None, s) \<or>
   connected s c \<and> (sm_user_to_conn s u = None \<or> sm_user_to_conn s u = Some c) \<and>
     (\<exists>s'. on_auth_ok c u s = (None, s') \<and> user_of s' = (user_of s)(c \<mapsto> u) \<and>
        sm_user_to_conn s' = (sm_user_to_conn s)(u \<mapsto> c) \<and> (\<forall>d. connected s' d = connected s d) \<and>
        (sm_inv s \<longrightarrow> sm_inv s'))"
proof (cases "sm_user_to_conn s u = None \<or> sm_user_to_conn s u = Some c")
  case False
  then show ?thesis by (auto simp: on_auth_ok_kick)
next
  case True
  note b = on_auth_ok_bind [OF True]
  show ?thesis
  proof (cases "map_of (sm_sessions s) c")
    case None
    then show ?thesis by (simp add: b connected_def)
  next
    case (Some cs)
    let ?s' = "s\<lparr>sm_sessions := AList.update c (cs\<lparr>cs_user_id := u, cs_authed := True\<rparr>) (sm_sessions s),
                 sm_user_to_conn := (sm_user_to_conn s)(u \<mapsto> c)\<rparr>"
    have u: "user_of ?s' = (user_of s)(c \<mapsto> u)"
      by (rule ext) (simp add: session_simps)
    have "sm_inv ?s'" if h: "sm_inv s"
    proof -
      have "sm_user_to_conn s w = Some d" if "d \<noteq> c" "user_of s d = Some w" for d w
        using h that by (simp add: sm_inv_def)
      then have "((sm_user_to_conn s)(u \<mapsto> c)) w = Some d" if "((user_of s)(c \<mapsto> u)) d = Some w" for d w
        using that True by (auto split: if_splits)
      then show ?thesis
        using h Some by (auto simp: sm_inv_def u distinct_update update_conv')
    qed
    moreover have "on_auth_ok c u s = (None, ?s')" using Some by (simp add: b)
    moreover have "connected s c" "\<forall>d. connected ?s' d = connected s d"
      using Some by (auto simp: session_simps)
    ultimately show ?thesis using True u by auto
  qed
qed

lemma bound_on_auth_ok:
  "sm_user_to_conn (snd (on_auth_ok c w s)) u =
     (if u = w \<and> connected s c \<and> sm_user_to_conn s u = None then Some c else sm_user_to_conn s u)"
  by (auto simp: on_auth_ok_def connected_def split: option.splits)

lemma sm_inv_on_auth_ok: "sm_inv s \<Longrightarrow> sm_inv (snd (on_auth_ok c u s))"
  using on_auth_ok_cases [of c s u] by auto

text \<open>A connection that is not yet bound to another user keeps the bindings exact.\<close>

lemma sm_clean_on_auth_ok:
  assumes "sm_clean s" "u \<noteq> ''''" "user_of s c = None \<or> user_of s c = Some u"
  shows "sm_clean (snd (on_auth_ok c u s))"
proof -
  have other: "sm_user_to_conn s w \<noteq> Some c" if "w \<noteq> u" for w
    using assms that by (auto simp: sm_clean_def)
  consider "snd (on_auth_ok c u s) = s"
    | s' where "on_auth_ok c u s = (None, s')" "user_of s' = (user_of s)(c \<mapsto> u)"
        "sm_user_to_conn s' = (sm_user_to_conn s)(u \<mapsto> c)" "sm_inv s \<longrightarrow> sm_inv s'"
    using on_auth_ok_cases [of c s u] by fastforce
  then show ?thesis
  proof cases
    case 1
    then show ?thesis using assms(1) by simp
  next
    case 2
    have "w \<noteq> '''' \<and> user_of s' d = Some w" if b: "sm_user_to_conn s' w = Some d" for w d
    proof (cases "w = u")
      case True
      then show ?thesis using b 2 assms(2) by simp
    next
      case False
      then have "sm_user_to_conn s w = Some d" using b 2 by simp
      then show ?thesis using other [OF False] assms(1) 2 by (auto simp: sm_clean_def)
    qed
    then show ?thesis using 2 assms(1) by (simp add: sm_clean_def)
  qed
qed

section \<open>The interface of a session store\<close>

text \<open>
  What the dispatcher needs of the store: binding a user to a connection either names the other
  connection the user is bound to and changes nothing, or binds; dropping a connection forgets it.
  \<open>clean\<close> says that bindings are exact.
\<close>

locale session_store =
  fixes inv :: "'s \<Rightarrow> bool"
    and clean :: "'s \<Rightarrow> bool"
    and user :: "'s \<Rightarrow> nat \<Rightarrow> string option"
    and bound :: "'s \<Rightarrow> string \<Rightarrow> nat option"
    and live :: "'s \<Rightarrow> nat \<Rightarrow> bool"
    and auth :: "nat \<Rightarrow> string \<Rightarrow> 's \<Rightarrow> nat option \<times> 's"
    and drop_conn :: "nat \<Rightarrow> 's \<Rightarrow> 's"
  assumes user_bound: "inv s \<Longrightarrow> user s c = Some u \<Longrightarrow> bound s u = Some c"
    and clean_inv: "clean s \<Longrightarrow> inv s"
    and bound_user: "clean s \<Longrightarrow> bound s u = Some c \<Longrightarrow> user s c = Some u"
    and auth_other: "bound s u = Some d \<Longrightarrow> d \<noteq> c \<Longrightarrow> auth c u s = (Some d, s)"
    and auth_dead: "bound s u \<in> {None, Some c} \<Longrightarrow> \<not> live s c \<Longrightarrow> auth c u s = (None, s)"
    and auth_free: "bound s u \<in> {None, Some c} \<Longrightarrow> live s c \<Longrightarrow>
          fst (auth c u s) = None \<and> user (snd (auth c u s)) = (user s)(c \<mapsto> u)"
    and auth_live: "live (snd (auth c u s)) d = live s d"
    and auth_inv: "inv s \<Longrightarrow> inv (snd (auth c u s))"
    and auth_clean: "clean s \<Longrightarrow> u \<noteq> '''' \<Longrightarrow> user s c = None \<or> user s c = Some u \<Longrightarrow> clean (snd (auth c u s))"
    and drop_user: "user (drop_conn c s) = (user s)(c := None)"
    and drop_live: "live (drop_conn c s) d \<longleftrightarrow> d \<noteq> c \<and> live s d"
    and drop_inv: "inv s \<Longrightarrow> inv (drop_conn c s)"
    and drop_clean: "clean s \<Longrightarrow> clean (drop_conn c s)"
    and drop_stale: "user s d \<noteq> Some u \<Longrightarrow> bound (drop_conn d s) u = bound s u"
begin

lemma unique_session:
  "inv s \<Longrightarrow> user s c = Some u \<Longrightarrow> user s d = Some u \<Longrightarrow> c = d"
  using user_bound [of s c u] user_bound [of s d u] by simp

text \<open>Kick and bind again succeeds when bindings are exact.\<close>

lemma rebind:
  assumes "clean s" "auth c u s = (Some d, s1)" "live s c" "d \<noteq> c" "bound s u = Some d"
  shows "user (snd (auth c u (drop_conn d s))) = (user s)(d := None, c \<mapsto> u)"
proof -
  have "bound (drop_conn d s) u = None"
  proof (cases "bound (drop_conn d s) u")
    case (Some e)
    have c: "clean (drop_conn d s)" by (rule drop_clean [OF assms(1)])
    have u: "user (drop_conn d s) e = Some u" by (rule bound_user [OF c Some])
    then have "e \<noteq> d" "user s e = Some u" by (auto simp: drop_user split: if_splits)
    moreover have "user s d = Some u" by (rule bound_user [OF assms(1,5)])
    ultimately have False using unique_session [OF clean_inv [OF assms(1)]] by blast
    then show ?thesis ..
  qed
  then have "user (snd (auth c u (drop_conn d s))) = (user (drop_conn d s))(c \<mapsto> u)"
    using auth_free [of "drop_conn d s" u c] drop_live [of d s c] assms(3,4) by simp
  then show ?thesis by (simp add: drop_user)
qed

text \<open>A user bound to a connection that is not theirs is never bound again by kick and bind.\<close>

lemma stale_forever:
  assumes "bound s u = Some d" "d \<noteq> c" "user s d \<noteq> Some u"
  shows "auth c u (drop_conn d s) = (Some d, drop_conn d s)"
  by (rule auth_other) (simp_all add: assms drop_stale)

end

interpretation store: session_store sm_inv sm_clean user_of sm_user_to_conn connected on_auth_ok
  on_disconnect
proof unfold_locales
  fix s :: session_mgr and c d :: nat and u :: string
  show "sm_inv s \<Longrightarrow> user_of s c = Some u \<Longrightarrow> sm_user_to_conn s u = Some c"
    by (simp add: sm_inv_def)
  show "sm_clean s \<Longrightarrow> sm_inv s" by (simp add: sm_clean_def)
  show "sm_clean s \<Longrightarrow> sm_user_to_conn s u = Some c \<Longrightarrow> user_of s c = Some u"
    by (simp add: sm_clean_def)
  show "sm_user_to_conn s u = Some d \<Longrightarrow> d \<noteq> c \<Longrightarrow> on_auth_ok c u s = (Some d, s)"
    by (rule on_auth_ok_kick)
  show "sm_user_to_conn s u \<in> {None, Some c} \<Longrightarrow> \<not> connected s c \<Longrightarrow> on_auth_ok c u s = (None, s)"
    using on_auth_ok_cases [of c s u] by auto
  show "sm_user_to_conn s u \<in> {None, Some c} \<Longrightarrow> connected s c \<Longrightarrow>
      fst (on_auth_ok c u s) = None \<and> user_of (snd (on_auth_ok c u s)) = (user_of s)(c \<mapsto> u)"
    using on_auth_ok_cases [of c s u] by (elim disjE exE conjE) simp_all
  show "connected (snd (on_auth_ok c u s)) d = connected s d"
    using on_auth_ok_cases [of c s u] by (elim disjE exE conjE) simp_all
  show "sm_inv s \<Longrightarrow> sm_inv (snd (on_auth_ok c u s))" by (rule sm_inv_on_auth_ok)
  show "sm_clean s \<Longrightarrow> u \<noteq> '''' \<Longrightarrow> user_of s c = None \<or> user_of s c = Some u \<Longrightarrow>
      sm_clean (snd (on_auth_ok c u s))" by (rule sm_clean_on_auth_ok)
  show "user_of (on_disconnect c s) = (user_of s)(c := None)" by (rule user_of_on_disconnect)
  show "connected (on_disconnect c s) d = (d \<noteq> c \<and> connected s d)" by (rule connected_on_disconnect)
  show "sm_inv s \<Longrightarrow> sm_inv (on_disconnect c s)" by (rule sm_inv_on_disconnect)
  show "sm_clean s \<Longrightarrow> sm_clean (on_disconnect c s)" by (rule sm_clean_on_disconnect)
  show "user_of s d \<noteq> Some u \<Longrightarrow> sm_user_to_conn (on_disconnect d s) u = sm_user_to_conn s u"
    by (simp add: bound_on_disconnect)
qed

end
