(* ===== verification/Dispatcher.thy ===== *)
theory Dispatcher
  imports Session WsListener
begin

text \<open>
  \<open>ConndMsgDispatcher\<close> (server/connd/ConndMsgDispatcher.cpp), \<open>ConndHeartHandler\<close> and the wiring of
  \<open>ConndApp\<close> (server/connd/ConndService.h): routing of client messages, login, the replies and the start
  sequence. Calls to listeners and to the bus are events. Protobuf parsing, packet creation and the
  token check are the members of \<open>connd_env\<close>; the token check is modelled in \<open>Jwt\<close>, packet creation in
  \<open>Packing\<close>.
\<close>

section \<open>Parameters and events\<close>

record auth_result =
  ar_ok :: bool
  ar_user_id :: string
  ar_err_msg :: string

datatype connd_reply = AuthReply nat | HeartReply nat nat

datatype connd_event =
    EvSend nat nat connd_reply
  | EvPush nat nat raw_msg
  | EvClose nat nat
  | EvForward nat string raw_msg

record connd_env =
  env_verify :: "8 word list \<Rightarrow> auth_result"
  env_parse_auth :: "8 word list \<Rightarrow> 8 word list option"
  env_parse_heart :: "8 word list \<Rightarrow> bool"
  env_CreateCSPackage :: "connd_reply \<Rightarrow> bool"
  env_CreateSSPack :: "connd_reply \<Rightarrow> bool"
  env_ForwardRawAppMsg :: "raw_msg \<Rightarrow> bool"
  env_listeners :: nat
  env_close_notifies :: bool

definition CS_HEART_BEAT :: nat where "CS_HEART_BEAT = 0"
definition CS_PLAYER_APPLY_TOKEN :: nat where "CS_PLAYER_APPLY_TOKEN = 1"
definition CS_PLAYER_AUTH :: nat where "CS_PLAYER_AUTH = 2"
definition Error_success :: nat where "Error_success = 1"
definition Error_auth_failed :: nat where "Error_auth_failed = 4"
definition kMaxTokenLen :: nat where "kMaxTokenLen = 4096"

text \<open>
  The bytes \<open>ParseFromArray(data_, data_len_)\<close> reads; \<^term>\<open>None\<close> when it reads through a null pointer or
  past the body.
\<close>

definition msg_body :: "raw_msg \<Rightarrow> 8 word list option" where
  "msg_body msg = (if r_data_len msg = 0 then Some []
     else case r_data msg of None \<Rightarrow> None | Some d \<Rightarrow> mem_read d 0 (r_data_len msg))"

section \<open>Operations\<close>

definition findListener :: "connd_env \<Rightarrow> nat \<Rightarrow> nat option" where
  "findListener e conn_id =
     (let idx = (if conn_id < 1000000 then 0 else if conn_id < 2000000 then 1 else 2)
      in if idx < env_listeners e then Some idx else None)"

definition send_reply :: "connd_env \<Rightarrow> nat \<Rightarrow> connd_reply \<Rightarrow> connd_event list" where
  "send_reply e conn_id reply =
     (if env_CreateCSPackage e reply
      then (case findListener e conn_id of None \<Rightarrow> [] | Some l \<Rightarrow> [EvSend l conn_id reply])
      else [])"

definition onHeart :: "connd_env \<Rightarrow> nat \<Rightarrow> raw_msg \<Rightarrow> fault + connd_event list" where
  "onHeart e now msg =
     (case msg_body msg of
        None \<Rightarrow> Inl Undefined
      | Some b \<Rightarrow>
          if \<not> env_parse_heart e b then Inr []
          else (let reply = HeartReply Error_success now; conn_id = h_conn_id (r_header msg)
                in if env_CreateSSPack e reply
                   then (case findListener e conn_id of
                           None \<Rightarrow> Inr [] | Some l \<Rightarrow> Inr [EvSend l conn_id reply])
                   else Inr []))"

text \<open>Closing a connection; the listeners call the close handler, which is \<open>on_disconnect\<close>.\<close>

definition kick :: "connd_env \<Rightarrow> nat \<Rightarrow> session_mgr \<Rightarrow> connd_event list \<times> session_mgr" where
  "kick e old s =
     (case findListener e old of
        None \<Rightarrow> ([], s)
      | Some l \<Rightarrow> ([EvClose l old], if env_close_notifies e then on_disconnect old s else s))"

definition check_token :: "connd_env \<Rightarrow> 8 word list \<Rightarrow> auth_result" where
  "check_token e token =
     (if length token > kMaxTokenLen
      then \<lparr>ar_ok = False, ar_user_id = '''', ar_err_msg = ''token too long''\<rparr>
      else env_verify e token)"

definition handleLogin ::
  "connd_env \<Rightarrow> nat \<Rightarrow> raw_msg \<Rightarrow> session_mgr \<Rightarrow> fault + (connd_event list \<times> session_mgr)" where
  "handleLogin e conn_id msg s =
     (case msg_body msg of
        None \<Rightarrow> Inl Undefined
      | Some b \<Rightarrow>
          (case env_parse_auth e b of
             None \<Rightarrow> Inr ([], s)
           | Some token \<Rightarrow>
               (let res = check_token e token in
                if \<not> ar_ok res then Inr (send_reply e conn_id (AuthReply Error_auth_failed), s)
                else
                  (case on_auth_ok conn_id (ar_user_id res) s of
                     (None, s1) \<Rightarrow> Inr (send_reply e conn_id (AuthReply Error_success), s1)
                   | (Some old, s1) \<Rightarrow>
                       (let (evs, s2) = kick e old s1;
                            s3 = on_disconnect old s2;
                            s4 = snd (on_auth_ok conn_id (ar_user_id res) s3)
                        in Inr (evs @ send_reply e conn_id (AuthReply Error_success), s4))))))"

definition forwardToLogic :: "nat \<Rightarrow> raw_msg \<Rightarrow> connd_event list" where
  "forwardToLogic conn_id msg = [EvForward conn_id ''LogicService'' msg]"

definition forwardToAccount :: "nat \<Rightarrow> raw_msg \<Rightarrow> connd_event list" where
  "forwardToAccount conn_id msg = [EvForward conn_id ''AccountService'' msg]"

definition onClientMessage ::
  "connd_env \<Rightarrow> nat \<Rightarrow> nat \<Rightarrow> raw_msg option \<Rightarrow> session_mgr \<Rightarrow> fault + (connd_event list \<times> session_mgr)" where
  "onClientMessage e now conn_id mo s =
     (case mo of
        None \<Rightarrow> Inr ([], s)
      | Some msg \<Rightarrow>
          if r_msg_id msg = CS_HEART_BEAT then
            (case onHeart e now msg of Inl f \<Rightarrow> Inl f | Inr evs \<Rightarrow> Inr (evs, s))
          else if r_msg_id msg = CS_PLAYER_APPLY_TOKEN then Inr (forwardToAccount conn_id msg, s)
          else if r_msg_id msg = CS_PLAYER_AUTH then handleLogin e conn_id msg s
          else if \<not> is_authed conn_id s then Inr ([], s)
          else Inr (forwardToLogic conn_id msg, s))"

definition onDownstreamMessage :: "connd_env \<Rightarrow> raw_msg \<Rightarrow> connd_event list" where
  "onDownstreamMessage e msg =
     (let conn_id = h_conn_id (r_header msg) in
      case findListener e conn_id of
        None \<Rightarrow> []
      | Some l \<Rightarrow> if env_ForwardRawAppMsg e msg then [EvPush l conn_id msg] else [])"

section \<open>The gateway\<close>

text \<open>
  What reaches the dispatcher: the handlers \<open>ConndApp\<close> installs on its listeners (connect,
  message, close) and the downstream handlers it registers on the bus. A handler is one step here, so these
  runs are those in which no two listeners' threads are in handlers at once; \<open>ConndThreads\<close> interleaves them.
\<close>

datatype connd_op =
    OpConnect nat string
  | OpMessage nat "raw_msg option"
  | OpDisconnect nat
  | OpDownstream raw_msg

fun connd_step ::
  "connd_env \<Rightarrow> nat \<Rightarrow> connd_op \<Rightarrow> session_mgr \<Rightarrow> fault + (connd_event list \<times> session_mgr)" where
  "connd_step e now (OpConnect c proto) s = Inr ([], on_connect now c proto s)"
| "connd_step e now (OpMessage c m) s = onClientMessage e now c m s"
| "connd_step e now (OpDisconnect c) s = Inr ([], on_disconnect c s)"
| "connd_step e now (OpDownstream m) s = Inr (onDownstreamMessage e m, s)"

fun connd_run ::
  "connd_env \<Rightarrow> (nat \<times> connd_op) list \<Rightarrow> session_mgr \<Rightarrow> fault + (connd_event list \<times> session_mgr)" where
  "connd_run e [] s = Inr ([], s)"
| "connd_run e ((now, op) # ops) s =
     (case connd_step e now op s of
        Inl f \<Rightarrow> Inl f
      | Inr (evs, s1) \<Rightarrow>
          (case connd_run e ops s1 of Inl f \<Rightarrow> Inl f | Inr (evs2, s2) \<Rightarrow> Inr (evs @ evs2, s2)))"

datatype init_event = StartBus | RegistMessage nat | StartListener string int

record connd_cfg =
  cfg_provider :: string
  cfg_secret :: string
  cfg_tcp_port :: int
  cfg_ws_port :: int
  cfg_kcp_port :: int

definition SC_NOTIFY :: nat where "SC_NOTIFY = 10000"

text \<open>\<open>ConndApp::onInit\<close>: the calls made and the result; the booleans are what the calls return.\<close>

definition ConndApp_onInit :: "connd_cfg \<Rightarrow> bool \<Rightarrow> bool \<Rightarrow> bool \<Rightarrow> bool \<Rightarrow> init_event list \<times> bool" where
  "ConndApp_onInit cfg bus_ok tcp_ok ws_ok kcp_ok =
     (if cfg_provider cfg = ''jwt'' \<and> cfg_secret cfg = '''' then ([], False)
      else if \<not> bus_ok then ([StartBus], False)
      else
        (let reg = [StartBus, RegistMessage CS_PLAYER_APPLY_TOKEN, RegistMessage SC_NOTIFY] in
         if \<not> tcp_ok then (reg @ [StartListener ''tcp'' (cfg_tcp_port cfg)], False)
         else if \<not> ws_ok then (reg @
           [StartListener ''tcp'' (cfg_tcp_port cfg), StartListener ''ws'' (cfg_ws_port cfg)], False)
         else (reg @
           [StartListener ''tcp'' (cfg_tcp_port cfg), StartListener ''ws'' (cfg_ws_port cfg), StartListener ''kcp'' (cfg_kcp_port cfg)], kcp_ok)))"

lemma connd_run_append:
  "connd_run e (ops @ ops') s =
     (case connd_run e ops s of
        Inl f \<Rightarrow> Inl f
      | Inr (evs, s1) \<Rightarrow>
          (case connd_run e ops' s1 of Inl f \<Rightarrow> Inl f | Inr (evs2, s2) \<Rightarrow> Inr (evs @ evs2, s2)))"
  by (induction e ops s rule: connd_run.induct) (auto split: sum.splits)

lemma connd_run_snocE:
  assumes "connd_run e (ops @ [(now, op)]) s = Inr (evs, s')"
  obtains evs1 s1 evs2 where "connd_run e ops s = Inr (evs1, s1)" "connd_step e now op s1 = Inr (evs2, s')"
    "evs = evs1 @ evs2"
  using assms by (auto simp: connd_run_append split: sum.splits)

section \<open>Logins\<close>

text \<open>The connection and user an operation authenticates, and operations that open or close \<open>c\<close>.\<close>

definition login_user :: "connd_env \<Rightarrow> connd_op \<Rightarrow> (nat \<times> string) option" where
  "login_user e op =
     (case op of
        OpMessage c (Some m) \<Rightarrow>
          if r_msg_id m \<noteq> CS_PLAYER_AUTH then None
          else (case msg_body m of
                  None \<Rightarrow> None
                | Some b \<Rightarrow>
                    (case env_parse_auth e b of
                       None \<Rightarrow> None
                     | Some tok \<Rightarrow>
                         if length tok \<le> kMaxTokenLen \<and> ar_ok (env_verify e tok)
                         then Some (c, ar_user_id (env_verify e tok)) else None))
      | _ \<Rightarrow> None)"

definition reopens :: "nat \<Rightarrow> connd_op \<Rightarrow> bool" where
  "reopens c op = (case op of OpConnect d _ \<Rightarrow> d = c | OpDisconnect d \<Rightarrow> d = c | _ \<Rightarrow> False)"

lemmas msg_ids = CS_HEART_BEAT_def CS_PLAYER_APPLY_TOKEN_def CS_PLAYER_AUTH_def

lemma login_userE:
  assumes "login_user e op = Some (c, u)"
  obtains m b tok where "op = OpMessage c (Some m)" "r_msg_id m = CS_PLAYER_AUTH" "msg_body m = Some b"
    "env_parse_auth e b = Some tok" "length tok \<le> kMaxTokenLen" "ar_ok (env_verify e tok)"
    "ar_user_id (env_verify e tok) = u"
  using assms
  by (auto simp: login_user_def split: connd_op.splits option.splits if_splits)

text \<open>A message either logs its connection in or leaves the sessions alone.\<close>

lemma onClientMessage_cases:
  assumes "onClientMessage e now c mo s = Inr (evs, s')"
  shows "s' = s \<or> (\<exists>m u. mo = Some m \<and> r_msg_id m = CS_PLAYER_AUTH \<and>
     login_user e (OpMessage c mo) = Some (c, u) \<and> handleLogin e c m s = Inr (evs, s'))"
  using assms
  by (auto simp: onClientMessage_def login_user_def handleLogin_def check_token_def Let_def msg_ids
      split: option.splits if_splits sum.splits)

text \<open>What a successful login does.\<close>

lemma handleLogin_ok:
  assumes "login_user e (OpMessage c (Some m)) = Some (c, u)"
  shows "handleLogin e c m s =
     (case on_auth_ok c u s of
        (None, s1) \<Rightarrow> Inr (send_reply e c (AuthReply Error_success), s1)
      | (Some old, s1) \<Rightarrow>
          Inr (fst (kick e old s1) @ send_reply e c (AuthReply Error_success),
               snd (on_auth_ok c u (on_disconnect old s1))))"
  using assms
  by (auto elim!: login_userE simp: handleLogin_def check_token_def kick_def on_disconnect_idem
      split: option.splits prod.splits)

lemma handleLogin_state:
  assumes "login_user e (OpMessage c (Some m)) = Some (c, u)" "handleLogin e c m s = Inr (evs, s')"
  shows "s' = snd (on_auth_ok c u s) \<and> fst (on_auth_ok c u s) = None \<or>
    (\<exists>d. d \<noteq> c \<and> sm_user_to_conn s u = Some d \<and> s' = snd (on_auth_ok c u (on_disconnect d s)))"
  using assms(2) on_auth_ok_cases [of c s u]
  by (auto simp: handleLogin_ok [OF assms(1)] split: prod.splits option.splits)

lemma user_of_on_auth_ok:
  "user_of (snd (on_auth_ok c u s)) d = Some w \<Longrightarrow> user_of s d = Some w \<or> d = c \<and> w = u"
  using on_auth_ok_cases [of c s u] by (auto split: if_splits)

lemma step_inv:
  assumes "connd_step e now op s = Inr (evs, s')" "sm_inv s"
  shows "sm_inv s'"
proof (cases op)
  case (OpMessage c mo)
  then have "onClientMessage e now c mo s = Inr (evs, s')" using assms(1) by simp
  from onClientMessage_cases [OF this] show ?thesis
    using assms(2) handleLogin_state
    by (metis store.auth_inv store.drop_inv)
qed (use assms in \<open>auto simp: sm_inv_on_connect sm_inv_on_disconnect\<close>)

lemma step_user:
  assumes "connd_step e now op s = Inr (evs, s')" "user_of s' c = Some u"
  shows "(user_of s c = Some u \<and> \<not> reopens c op) \<or> login_user e op = Some (c, u)"
proof (cases op)
  case (OpMessage d mo)
  then have h: "onClientMessage e now d mo s = Inr (evs, s')" using assms(1) by simp
  show ?thesis
  proof (cases "s' = s")
    case True
    then show ?thesis using assms(2) OpMessage by (simp add: reopens_def)
  next
    case False
    then obtain m w where m: "mo = Some m" "login_user e (OpMessage d mo) = Some (d, w)"
        "handleLogin e d m s = Inr (evs, s')"
      using onClientMessage_cases [OF h] by auto
    have "user_of s c = Some u \<or> c = d \<and> u = w"
      using handleLogin_state [OF m(2)[unfolded m(1)] m(3)] assms(2)
      by (auto dest!: user_of_on_auth_ok simp: user_of_on_disconnect split: if_splits)
    then show ?thesis using OpMessage m(2) by (auto simp: reopens_def)
  qed
qed (use assms in \<open>auto simp: reopens_def user_of_on_connect user_of_on_disconnect split: if_splits\<close>)

lemma run_inv: "connd_run e ops s = Inr (evs, s') \<Longrightarrow> sm_inv s \<Longrightarrow> sm_inv s'"
proof (induction ops arbitrary: s evs)
  case (Cons x ops)
  then obtain now op evs1 s1 evs2 where "x = (now, op)" "connd_step e now op s = Inr (evs1, s1)"
      "connd_run e ops s1 = Inr (evs2, s')"
    by (cases x) (auto split: sum.splits)
  then show ?case using Cons.IH step_inv Cons.prems(2) by blast
qed simp

lemma authed_since_login:
  assumes "connd_run e ops SessionManager_ctor = Inr (evs, s)" "user_of s c = Some u"
  shows "\<exists>pre now op mid. ops = pre @ (now, op) # mid \<and> login_user e op = Some (c, u) \<and>
           (\<forall>x \<in> set mid. \<not> reopens c (snd x))"
  using assms
proof (induction ops arbitrary: evs s rule: rev_induct)
  case Nil
  then show ?case by (auto simp: SessionManager_ctor_def user_of_def)
next
  case (snoc x ops)
  obtain now op where x: "x = (now, op)" by (cases x)
  obtain evs1 s1 evs2 where r: "connd_run e ops SessionManager_ctor = Inr (evs1, s1)"
      "connd_step e now op s1 = Inr (evs2, s)"
    using connd_run_snocE snoc.prems(1) unfolding x by metis
  from step_user [OF r(2) snoc.prems(2)] show ?case
  proof
    assume "login_user e op = Some (c, u)"
    then show ?thesis using x by fastforce
  next
    assume a: "user_of s1 c = Some u \<and> \<not> reopens c op"
    then obtain pre now1 op1 mid where p: "ops = pre @ (now1, op1) # mid" "login_user e op1 = Some (c, u)"
        "\<forall>x \<in> set mid. \<not> reopens c (snd x)"
      using snoc.IH [OF r(1)] by blast
    then have "ops @ [x] = pre @ (now1, op1) # (mid @ [x]) \<and> (\<forall>y \<in> set (mid @ [x]). \<not> reopens c (snd y))"
      using a x by simp
    then show ?thesis using p(2) by blast
  qed
qed

lemma step_forwards:
  assumes "connd_step e now op s = Inr (evs, s')" "EvForward c ''LogicService'' m \<in> set evs"
  shows "op = OpMessage c (Some m) \<and> is_authed c s \<and>
    r_msg_id m \<notin> {CS_HEART_BEAT, CS_PLAYER_APPLY_TOKEN, CS_PLAYER_AUTH}"
  using assms
  by (cases op)
    (auto simp: onClientMessage_def onHeart_def handleLogin_def kick_def send_reply_def Let_def
      forwardToAccount_def forwardToLogic_def onDownstreamMessage_def
      split: option.splits if_splits sum.splits prod.splits)

text \<open>Stale bindings survive every step.\<close>

lemma gone:
  assumes "\<not> connected t d"
  shows "user_of t d = None" "on_disconnect d t = t"
  using assms by (auto simp: user_of_def connected_def on_disconnect_def)

lemma stale_step:
  assumes "sm_inv s" "sm_user_to_conn s u = Some d" "\<not> connected s d"
    and "connd_step e now op s = Inr (evs, s1)" "\<forall>p. op \<noteq> OpConnect d p"
  shows "sm_user_to_conn s1 u = Some d \<and> \<not> connected s1 d"
proof -
  have auth: "sm_user_to_conn (snd (on_auth_ok b w t)) u = Some d \<and> \<not> connected (snd (on_auth_ok b w t)) d"
    if "sm_user_to_conn t u = Some d" "\<not> connected t d" for b w t
    using that by (simp add: bound_on_auth_ok store.auth_live)
  have drop: "sm_user_to_conn (on_disconnect b s) u = Some d \<and> \<not> connected (on_disconnect b s) d" for b
  proof -
    have "user_of s b \<noteq> Some u"
      using store.user_bound [OF assms(1), of b u] assms(2) gone(1) [OF assms(3)] by auto
    then show ?thesis using assms(2,3) by (simp add: store.drop_stale store.drop_live)
  qed
  show ?thesis
  proof (cases op)
    case (OpMessage b mo)
    then have h: "onClientMessage e now b mo s = Inr (evs, s1)" using assms(4) by simp
    from onClientMessage_cases [OF h] show ?thesis
      using handleLogin_state auth drop assms(2,3) by metis
  next
    case (OpConnect b p)
    then show ?thesis using assms by (auto simp: connected_on_connect)
  qed (use assms drop in auto)
qed

lemma stale_run:
  assumes "sm_inv s" "sm_user_to_conn s u = Some d" "\<not> connected s d"
    and "connd_run e ops s = Inr (evs, s')" "\<forall>x \<in> set ops. \<forall>p. snd x \<noteq> OpConnect d p"
  shows "sm_inv s' \<and> sm_user_to_conn s' u = Some d \<and> \<not> connected s' d"
  using assms
proof (induction ops arbitrary: s evs)
  case (Cons x ops)
  obtain now op evs1 s1 evs2 where x: "x = (now, op)" "connd_step e now op s = Inr (evs1, s1)"
      "connd_run e ops s1 = Inr (evs2, s')"
    using Cons.prems(4) by (cases x) (auto split: sum.splits)
  have "\<forall>p. op \<noteq> OpConnect d p" using Cons.prems(5) x(1) by auto
  then show ?case
    using Cons.IH [OF step_inv [OF x(2) Cons.prems(1)] _ _ x(3)] Cons.prems(5)
      stale_step [OF Cons.prems(1-3) x(2)] by auto
qed simp

section \<open>Properties\<close>

lemma forwarded_since_login:
  assumes "connd_run e ops SessionManager_ctor = Inr (evs, s)"
    and "EvForward c ''LogicService'' m \<in> set evs"
  shows "\<exists>pre t1 login mid t2 post u.
           ops = pre @ (t1, login) # mid @ (t2, OpMessage c (Some m)) # post \<and>
           login_user e login = Some (c, u) \<and> (\<forall>x \<in> set mid. \<not> reopens c (snd x)) \<and>
           r_msg_id m \<notin> {CS_HEART_BEAT, CS_PLAYER_APPLY_TOKEN, CS_PLAYER_AUTH}"
  using assms
proof (induction ops arbitrary: evs s rule: rev_induct)
  case (snoc x ops)
  obtain now op where x: "x = (now, op)" by (cases x)
  obtain evs1 s1 evs2 where r: "connd_run e ops SessionManager_ctor = Inr (evs1, s1)"
      "connd_step e now op s1 = Inr (evs2, s)" "evs = evs1 @ evs2"
    using connd_run_snocE snoc.prems(1) unfolding x by metis
  show ?case
  proof (cases "EvForward c ''LogicService'' m \<in> set evs1")
    case True
    then show ?thesis using snoc.IH [OF r(1)] by fastforce
  next
    case False
    then have "EvForward c ''LogicService'' m \<in> set evs2" using r(3) snoc.prems(2) by simp
    note f = step_forwards [OF r(2) this]
    then obtain u where "user_of s1 c = Some u" by (auto simp: is_authed_user)
    from authed_since_login [OF r(1) this] f x show ?thesis by fastforce
  qed
qed simp

text \<open>
  C8: A message is forwarded to the logic service only on behalf of a connection that presented an
  accepted token after it was opened and that has not been closed or reopened since.
\<close>

theorem logic_needs_login:
  assumes "connd_run e ops SessionManager_ctor = Inr (evs, s)"
    and "EvForward c ''LogicService'' m \<in> set evs"
  shows "\<exists>pre t1 login mid t2 post u.
           ops = pre @ (t1, login) # mid @ (t2, OpMessage c (Some m)) # post \<and>
           login_user e login = Some (c, u) \<and> (\<forall>x \<in> set mid. \<not> reopens c (snd x)) \<and>
           r_msg_id m \<notin> {CS_HEART_BEAT, CS_PLAYER_APPLY_TOKEN, CS_PLAYER_AUTH}"
  by (rule forwarded_since_login [OF assms])

text \<open>
  C9: At every moment a user is authenticated on at most one connection, the one the session manager
  finds for the user.
\<close>

theorem one_connection_per_user:
  assumes "connd_run e ops SessionManager_ctor = Inr (evs, s)"
    and "user_of s c = Some u" "user_of s d = Some u"
  shows "c = d \<and> find_conn_by_user u s = Some c \<and> get_user_id c s = u"
proof -
  have i: "sm_inv s" by (rule run_inv [OF assms(1) sm_inv_ctor(1)])
  have "find_conn_by_user u s = Some c"
    using store.user_bound [OF i assms(2)] by (simp add: find_conn_by_user_def)
  moreover have "get_user_id c s = u"
    using assms(2) by (auto simp: user_of_def get_user_id_def split: option.splits if_splits)
  ultimately show ?thesis using store.unique_session [OF i assms(2,3)] by blast
qed

text \<open>With exact bindings a login moves the user to this connection.\<close>

lemma handleLogin_moves_user:
  assumes "sm_clean s" "connected s c" "u \<noteq> ''''" "user_of s c \<in> {None, Some u}"
    and "login_user e (OpMessage c (Some m)) = Some (c, u)"
  shows "\<exists>evs s'. handleLogin e c m s = Inr (evs @ send_reply e c (AuthReply Error_success), s') \<and>
    sm_clean s' \<and>
    user_of s' = (\<lambda>d. if d = c then Some u else if user_of s d = Some u then None else user_of s d) \<and>
    (\<forall>d. d \<noteq> c \<and> user_of s d = Some u \<longrightarrow>
       \<not> connected s' d \<and> (\<forall>l. findListener e d = Some l \<longrightarrow> EvClose l d \<in> set evs))"
proof (cases "sm_user_to_conn s u \<in> {None, Some c}")
  case True
  have a: "fst (on_auth_ok c u s) = None" "user_of (snd (on_auth_ok c u s)) = (user_of s)(c \<mapsto> u)"
    using store.auth_free [OF True assms(2)] by auto
  have "user_of s d \<noteq> Some u" if "d \<noteq> c" for d
    using store.user_bound [OF store.clean_inv [OF assms(1)], of d u] True that by auto
  moreover have "sm_clean (snd (on_auth_ok c u s))"
    using store.auth_clean [OF assms(1,3)] assms(4) by auto
  moreover have "handleLogin e c m s =
      Inr ([] @ send_reply e c (AuthReply Error_success), snd (on_auth_ok c u s))"
    using a(1) by (auto simp: handleLogin_ok [OF assms(5)] split: prod.splits)
  ultimately show ?thesis using a(2) by fastforce
next
  case False
  then obtain d where d: "sm_user_to_conn s u = Some d" "d \<noteq> c" by auto
  note a = store.auth_other [OF d]
  let ?s2 = "on_disconnect d s" let ?s' = "snd (on_auth_ok c u ?s2)"
  have u: "user_of ?s' = (user_of s)(d := None, c \<mapsto> u)"
    by (rule store.rebind [OF assms(1) a assms(2) d(2,1)])
  have only: "e = d" if "user_of s e = Some u" for e
    using store.user_bound [OF store.clean_inv [OF assms(1)] that] d(1) by simp
  have "user_of ?s2 c \<in> {None, Some u}" using assms(4) d(2) by (auto simp: store.drop_user)
  then have cl: "sm_clean ?s'"
    using store.auth_clean [OF store.drop_clean [OF assms(1)] assms(3)] by auto
  have run: "handleLogin e c m s =
      Inr (fst (kick e d s) @ send_reply e c (AuthReply Error_success), ?s')"
    by (simp add: handleLogin_ok [OF assms(5)] a)
  have us: "user_of ?s' =
      (\<lambda>x. if x = c then Some u else if user_of s x = Some u then None else user_of s x)"
  proof (unfold u, rule ext)
    fix x
    have "user_of s d = Some u" by (rule store.bound_user [OF assms(1) d(1)])
    then have "user_of s x = Some u \<longleftrightarrow> x = d" using only by blast
    then show "((user_of s)(d := None, c \<mapsto> u)) x =
        (if x = c then Some u else if user_of s x = Some u then None else user_of s x)" by simp
  qed
  have closed:
    "\<not> connected ?s' x \<and> (\<forall>l. findListener e x = Some l \<longrightarrow> EvClose l x \<in> set (fst (kick e d s)))"
    if "x \<noteq> c \<and> user_of s x = Some u" for x
  proof -
    have "x = d" using only that by blast
    then show ?thesis by (simp add: store.auth_live store.drop_live kick_def)
  qed
  show ?thesis
    by (rule exI [of _ "fst (kick e d s)"], rule exI [of _ ?s'])
      (intro conjI allI impI run cl us closed [THEN conjunct1]
        closed [THEN conjunct2, THEN spec, THEN mp]; simp)
qed

text \<open>
  C10: While every connection has authenticated as one user only, a login implements the abstract
  operation "the user is now on this connection and on no other": the older connection is closed
  and forgotten, the login is answered with success, and the bindings stay exact.
\<close>

theorem login_replaces_older_connection:
  assumes "sm_clean s" "connected s c" "u \<noteq> ''''" "user_of s c \<in> {None, Some u}"
    and "login_user e (OpMessage c (Some m)) = Some (c, u)"
  shows "\<exists>evs s'. handleLogin e c m s = Inr (evs @ send_reply e c (AuthReply Error_success), s') \<and>
    sm_clean s' \<and>
    user_of s' = (\<lambda>d. if d = c then Some u else if user_of s d = Some u then None else user_of s d) \<and>
    (\<forall>d. d \<noteq> c \<and> user_of s d = Some u \<longrightarrow>
       \<not> connected s' d \<and> (\<forall>l. findListener e d = Some l \<longrightarrow> EvClose l d \<in> set evs))"
  by (rule handleLogin_moves_user [OF assms])

text \<open>
  C11: A user whose binding names a connection that is gone is locked out: however the gateway goes
  on, no connection is ever authenticated as that user again, although every accepted login
  is answered with success. (The state arises when a connection authenticates as a second user.)
\<close>

theorem stale_binding_locks_user_out:
  assumes "sm_inv s" "sm_user_to_conn s u = Some d" "\<not> connected s d"
    and "connd_run e ops s = Inr (evs, s')" "\<forall>x \<in> set ops. \<forall>p. snd x \<noteq> OpConnect d p"
  shows "user_of s' c \<noteq> Some u \<and>
    (\<forall>m. login_user e (OpMessage c (Some m)) = Some (c, u) \<and> c \<noteq> d \<longrightarrow>
       (\<exists>evs2. handleLogin e c m s' = Inr (evs2 @ send_reply e c (AuthReply Error_success), s')))"
proof -
  have f: "sm_inv s'" "sm_user_to_conn s' u = Some d" "\<not> connected s' d"
    using stale_run [OF assms] by auto
  have "user_of s' c \<noteq> Some u"
    using store.user_bound [OF f(1), of c u] f(2) gone(1) [OF f(3)] by auto
  moreover have "handleLogin e c m s' =
      Inr (fst (kick e d s') @ send_reply e c (AuthReply Error_success), s')"
    if "login_user e (OpMessage c (Some m)) = Some (c, u)" "c \<noteq> d" for m
    using handleLogin_ok [OF that(1), of s'] store.auth_other [OF f(2), of c] that(2) gone(2) [OF f(3)]
    by simp
  ultimately show ?thesis by blast
qed

section \<open>A concrete gateway\<close>

text \<open>
  Tokens stand for themselves: the one-byte token 65 is user A, every other one-byte token user B.
\<close>

definition demo_env :: connd_env where
  "demo_env = \<lparr>env_verify = (\<lambda>t. \<lparr>ar_ok = length t = 1, ar_user_id = (if t = [65] then ''A'' else ''B''),
                 ar_err_msg = ''''\<rparr>),
     env_parse_auth = Some, env_parse_heart = (\<lambda>b. True), env_CreateCSPackage = (\<lambda>r. True),
     env_CreateSSPack = (\<lambda>r. True), env_ForwardRawAppMsg = (\<lambda>m. True), env_listeners = 3,
     env_close_notifies = True\<rparr>"

definition client_msg :: "nat \<Rightarrow> 8 word list \<Rightarrow> raw_msg" where
  "client_msg mid b = \<lparr>r_header = \<lparr>h_version = 1, h_type = 1, h_pack_len = 0, h_seq = 0, h_conn_id = 0\<rparr>,
     r_msg_id = mid, r_data_len = length b, r_data = Some b\<rparr>"

definition login_ops :: "(nat \<times> connd_op) list" where
  "login_ops = [(0, OpConnect 1 ''tcp''), (1, OpMessage 1 (Some (client_msg 2 [65]))),
     (2, OpMessage 1 (Some (client_msg 2000 [])))]"

text \<open>Connection 1 authenticates as A and then as B; connection 2 logs in as A.\<close>

definition relogin_ops :: "(nat \<times> connd_op) list" where
  "relogin_ops = [(0, OpConnect 1 ''tcp''), (1, OpMessage 1 (Some (client_msg 2 [65]))),
     (2, OpMessage 1 (Some (client_msg 2 [66]))), (3, OpConnect 2 ''tcp''),
     (4, OpMessage 2 (Some (client_msg 2 [65])))]"

lemmas demo_simps = demo_env_def client_msg_def onClientMessage_def handleLogin_def onHeart_def kick_def
  check_token_def kMaxTokenLen_def msg_body_def mem_read_def send_reply_def findListener_def
  forwardToLogic_def on_connect_def on_disconnect_def on_auth_ok_def is_authed_def
  SessionManager_ctor_def CS_HEART_BEAT_def CS_PLAYER_APPLY_TOKEN_def CS_PLAYER_AUTH_def Let_def

definition logged_in :: session_mgr where
  "logged_in = \<lparr>sm_sessions = [(1, \<lparr>cs_conn_id = 1, cs_user_id = ''A'', cs_proto = ''tcp'', cs_authed = True,
     cs_connected_at = 0\<rparr>)], sm_user_to_conn = [''A'' \<mapsto> 1]\<rparr>"

lemma login_run:
  "connd_run demo_env login_ops SessionManager_ctor =
     Inr ([EvSend 0 1 (AuthReply Error_success), EvForward 1 ''LogicService'' (client_msg 2000 [])], logged_in)"
  by (simp add: login_ops_def demo_simps logged_in_def)

lemma relogin_run:
  "connd_run demo_env relogin_ops SessionManager_ctor =
     Inr ([EvSend 0 1 (AuthReply Error_success), EvSend 0 1 (AuthReply Error_success), EvClose 0 1,
           EvSend 0 2 (AuthReply Error_success)],
       \<lparr>sm_sessions = [(2, \<lparr>cs_conn_id = 2, cs_user_id = '''', cs_proto = ''tcp'', cs_authed = False,
          cs_connected_at = 3\<rparr>)], sm_user_to_conn = [''A'' \<mapsto> 1]\<rparr>)"
  by (simp add: relogin_ops_def demo_simps fun_upd_twist)

lemma login_A: "login_user demo_env (OpMessage c (Some (client_msg 2 [65]))) = Some (c, ''A'')"
  by (simp add: login_user_def demo_simps)

lemma logged_in_facts:
  "sm_clean (on_connect 3 2 ''tcp'' logged_in)" "connected (on_connect 3 2 ''tcp'' logged_in) 2"
  "user_of (on_connect 3 2 ''tcp'' logged_in) 1 = Some ''A''" "user_of (on_connect 3 2 ''tcp'' logged_in) 2 = None"
  by (auto simp: sm_clean_def sm_inv_def user_of_def connected_def logged_in_def on_connect_def
      split: if_splits option.splits)

theorem logic_needs_login_witness:
  "\<exists>pre t1 login mid t2 post u.
     login_ops = pre @ (t1, login) # mid @ (t2, OpMessage 1 (Some (client_msg 2000 []))) # post \<and>
     login_user demo_env login = Some (1, u) \<and> (\<forall>x \<in> set mid. \<not> reopens 1 (snd x)) \<and>
     r_msg_id (client_msg 2000 []) \<notin> {CS_HEART_BEAT, CS_PLAYER_APPLY_TOKEN, CS_PLAYER_AUTH}"
  by (rule logic_needs_login [OF login_run]) simp

theorem one_connection_per_user_witness:
  "find_conn_by_user ''A'' logged_in = Some 1 \<and> get_user_id 1 logged_in = ''A''"
  using one_connection_per_user [OF login_run, of 1 "''A''" 1] by (simp add: user_of_def logged_in_def)

theorem login_replaces_older_connection_witness:
  "\<exists>evs s'. handleLogin demo_env 2 (client_msg 2 [65]) (on_connect 3 2 ''tcp'' logged_in) =
       Inr (evs @ send_reply demo_env 2 (AuthReply Error_success), s') \<and>
     user_of s' 2 = Some ''A'' \<and> \<not> connected s' 1 \<and> EvClose 0 1 \<in> set evs"
proof -
  have l: "findListener demo_env 1 = Some 0" by (simp add: findListener_def demo_env_def)
  show ?thesis
    using login_replaces_older_connection [OF logged_in_facts(1,2) _ _ login_A] logged_in_facts(3,4) l
    by fastforce
qed

theorem stale_binding_locks_user_out_witness:
  "\<exists>evs s s'. connd_run demo_env relogin_ops SessionManager_ctor = Inr (evs, s) \<and>
     connd_run demo_env [(5, OpMessage 2 (Some (client_msg 2 [65])))] s =
       Inr ([EvClose 0 1, EvSend 0 2 (AuthReply Error_success)], s') \<and> user_of s' 2 \<noteq> Some ''A''"
proof -
  obtain evs s where r: "connd_run demo_env relogin_ops SessionManager_ctor = Inr (evs, s)"
      and s: "sm_user_to_conn s ''A'' = Some 1" "\<not> connected s 1"
    by (simp add: relogin_run connected_def)
  have i: "sm_inv s" by (rule run_inv [OF r sm_inv_ctor(1)])
  have d: "connd_run demo_env [(5, OpMessage 2 (Some (client_msg 2 [65])))] s =
       Inr ([EvClose 0 1, EvSend 0 2 (AuthReply Error_success)], s)"
  proof -
    have s2: "s = \<lparr>sm_sessions = [(2, \<lparr>cs_conn_id = 2, cs_user_id = '''', cs_proto = ''tcp'',
        cs_authed = False, cs_connected_at = 3\<rparr>)], sm_user_to_conn = [''A'' \<mapsto> 1]\<rparr>"
      using r by (simp add: relogin_run)
    show ?thesis unfolding s2 by (simp add: demo_simps)
  qed
  show ?thesis
    using stale_binding_locks_user_out [OF i s d, of 2] r d by auto
qed

end
