(* ===== verification/Base64.thy ===== *)
theory Base64
  imports Prelude
begin

text \<open>
  The base64url encoder of the account service (server/account/AccountService.cpp) and the decoder
  every component shares, \<open>Helper::base64Decode\<close> (server/common/Helper.cpp). The decoder's table has
  256 entries of which 128 are written out, so the rest are zero; its arithmetic is that of \<open>int\<close>, where
  characters outside the alphabet are \<open>-1\<close>.
\<close>

unbundle bit_operations_syntax

definition kB64Chars :: "8 word list" where
  "kB64Chars = str_bytes ''ABCDEFGHIJKLMNOPQRSTUVWXYZabcdefghijklmnopqrstuvwxyz0123456789+/''"

definition to_url :: "8 word \<Rightarrow> 8 word" where
  "to_url ch = (if ch = 43 then 45 else if ch = 47 then 95 else ch)"

definition from_url :: "8 word \<Rightarrow> 8 word" where
  "from_url ch = (let c1 = (if ch = 45 then 43 else ch) in if c1 = 95 then 47 else c1)"

definition kTable :: "8 word \<Rightarrow> 8 word" where
  "kTable i = kB64Chars ! unat i"

text \<open>The encoding loop takes three bytes at a time; missing ones count as zero.\<close>

fun encode_groups :: "8 word list \<Rightarrow> 8 word list" where
  "encode_groups [] = []"
| "encode_groups [a] =
     [kTable (drop_bit 2 a), kTable (push_bit 4 (a AND 3) OR drop_bit 4 0), 61, 61]"
| "encode_groups [a, b] =
     [kTable (drop_bit 2 a), kTable (push_bit 4 (a AND 3) OR drop_bit 4 b),
      kTable (push_bit 2 (b AND 15) OR drop_bit 6 0), 61]"
| "encode_groups (a # b # c # xs) =
     [kTable (drop_bit 2 a), kTable (push_bit 4 (a AND 3) OR drop_bit 4 b),
      kTable (push_bit 2 (b AND 15) OR drop_bit 6 c), kTable (c AND 63)] @ encode_groups xs"

definition strip_padding :: "8 word list \<Rightarrow> 8 word list" where
  "strip_padding xs = rev (dropWhile (\<lambda>ch. ch = 61) (rev xs))"

definition base64UrlEncode :: "8 word list \<Rightarrow> 8 word list" where
  "base64UrlEncode input = strip_padding (map to_url (encode_groups input))"

definition decode_row :: "int list" where
  "decode_row =
     [-1, -1, -1, -1, -1, -1, -1, -1, -1, -1, -1, -1, -1, -1, -1, -1,
      -1, -1, -1, -1, -1, -1, -1, -1, -1, -1, -1, -1, -1, -1, -1, -1,
      -1, -1, -1, -1, -1, -1, -1, -1, -1, -1, -1, 62, -1, -1, -1, 63,
      52, 53, 54, 55, 56, 57, 58, 59, 60, 61, -1, -1, -1, -1, -1, -1,
      -1, 0, 1, 2, 3, 4, 5, 6, 7, 8, 9, 10, 11, 12, 13, 14,
      15, 16, 17, 18, 19, 20, 21, 22, 23, 24, 25, -1, -1, -1, -1, -1,
      -1, 26, 27, 28, 29, 30, 31, 32, 33, 34, 35, 36, 37, 38, 39, 40,
      41, 42, 43, 44, 45, 46, 47, 48, 49, 50, 51, -1, -1, -1, -1, -1]"

definition kDecodeTable :: "8 word \<Rightarrow> int" where
  "kDecodeTable ch = (if unat ch < 128 then decode_row ! unat ch else 0)"

text \<open>The decoding loop takes four characters at a time and stops at a bad first or second one.\<close>

fun decode_quads :: "8 word list \<Rightarrow> 8 word list" where
  "decode_quads (w # x # y # z # rest) =
     (let a = kDecodeTable w; b = kDecodeTable x; c = kDecodeTable y; d = kDecodeTable z in
      if a < 0 \<or> b < 0 then []
      else [word_of_int (push_bit 2 a OR drop_bit 4 b)] @
           (if y \<noteq> 61 then [word_of_int (push_bit 4 (b AND 15) OR drop_bit 2 c)] else []) @
           (if z \<noteq> 61 then [word_of_int (push_bit 6 (c AND 3) OR d)] else []) @
           decode_quads rest)"
| "decode_quads _ = []"

definition base64Decode :: "8 word list \<Rightarrow> 8 word list" where
  "base64Decode input =
     (let b64 = map from_url input
      in decode_quads (b64 @ replicate ((4 - length b64 mod 4) mod 4) 61))"

section \<open>The alphabet\<close>

lemma decode_row_length [simp]: "length decode_row = 128"
  by (simp add: decode_row_def)

lemma all_below_64: "(\<forall>i < 64. P i) \<longleftrightarrow> list_all P [0..<64]"
  for P :: "nat \<Rightarrow> bool"
  by (auto simp: list_all_iff)

lemma kB64_length [simp]: "length kB64Chars = 64"
  by (simp add: kB64Chars_def str_bytes_def)

lemma kB64_eval: "kB64Chars =
   [65, 66, 67, 68, 69, 70, 71, 72, 73, 74, 75, 76, 77, 78, 79, 80, 81, 82, 83, 84, 85, 86, 87, 88, 89, 90,
    97, 98, 99, 100, 101, 102, 103, 104, 105, 106, 107, 108, 109, 110, 111, 112, 113, 114, 115, 116, 117,
    118, 119, 120, 121, 122, 48, 49, 50, 51, 52, 53, 54, 55, 56, 57, 43, 47]"
  by (simp add: kB64Chars_def str_bytes_def)

lemma decode_table: "map kDecodeTable kB64Chars =
     [0, 1, 2, 3, 4, 5, 6, 7, 8, 9, 10, 11, 12, 13, 14, 15, 16, 17, 18, 19, 20,
      21, 22, 23, 24, 25, 26, 27, 28, 29, 30, 31, 32, 33, 34, 35, 36, 37, 38, 39, 40, 41, 42,
      43, 44, 45, 46, 47, 48, 49, 50, 51, 52, 53, 54, 55, 56, 57, 58, 59, 60, 61, 62, 63]"
  by (simp add: kB64_eval kDecodeTable_def decode_row_def)

lemma alphabet:
  "list_all (\<lambda>ch. ch \<noteq> 61 \<and> from_url (to_url ch) = ch \<and> to_url ch \<noteq> 61 \<and> to_url ch \<noteq> 46) kB64Chars"
  by (simp add: kB64_eval from_url_def to_url_def Let_def)


section \<open>Decoding inverts encoding\<close>

lemma bit_8: "8 \<le> n \<Longrightarrow> \<not> bit (w :: 8 word) n"
  using bit_imp_le_length [of w n] by auto

lemma below_8: "n < LENGTH(8) \<Longrightarrow> n = 0 \<or> n = 1 \<or> n = 2 \<or> n = 3 \<or> n = 4 \<or> n = 5 \<or> n = 6 \<or> n = (7 :: nat)"
  by auto

lemma sextet_masks:
  "(3 :: 8 word) = Bit_Operations.mask 2" "(15 :: 8 word) = Bit_Operations.mask 4" "(63 :: 8 word) = Bit_Operations.mask 6"
  "(3 :: int) = Bit_Operations.mask 2" "(15 :: int) = Bit_Operations.mask 4"
  by (simp_all add: mask_eq_exp_minus_1)

lemmas sextet_bits = bit_or_iff bit_and_iff bit_push_bit_iff bit_drop_bit_eq bit_word_of_int_iff
  bit_uint_iff bit_mask_iff o_apply sextet_masks size_word.rep_eq possible_bit_word

lemma sextet_1:
  "word_of_int (push_bit 2 (uint (drop_bit 2 a)) OR
     drop_bit 4 (uint (push_bit 4 (a AND 3) OR drop_bit 4 b))) = (a :: 8 word)"
  by (rule bit_word_eqI, unfold sextet_bits)
    (drule below_8, elim disjE, simp_all add: bit_8 eval_nat_numeral)

lemma sextet_2:
  "word_of_int (push_bit 4 (uint (push_bit 4 (a AND 3) OR drop_bit 4 b) AND 15) OR
     drop_bit 2 (uint (push_bit 2 (b AND 15) OR drop_bit 6 c))) = (b :: 8 word)"
  by (rule bit_word_eqI, unfold sextet_bits) (drule below_8, elim disjE, simp_all add: bit_8)

lemma sextet_3:
  "word_of_int (push_bit 6 (uint (push_bit 2 (b AND 15) OR drop_bit 6 c) AND 3) OR
     uint (c AND 63)) = (c :: 8 word)"
  by (rule bit_word_eqI, unfold sextet_bits) (drule below_8, elim disjE, simp_all add: bit_8)

lemma sextetI: "drop_bit 6 (w :: 8 word) = 0 \<Longrightarrow> unat w < 64"
proof -
  assume "drop_bit 6 w = 0"
  then have "unat w div 2 ^ 6 = 0" by (metis drop_bit_eq_div unat_0 unat_drop_bit_eq)
  then show ?thesis by (simp add: div_eq_0_iff)
qed

lemma sextet_small:
  "unat (drop_bit 2 (a :: 8 word)) < 64" "unat (push_bit 4 (a AND 3) OR drop_bit 4 (b :: 8 word)) < 64"
  "unat (push_bit 2 (b AND 15) OR drop_bit 6 (c :: 8 word)) < 64" "unat (c AND (63 :: 8 word)) < 64"
  by (rule sextetI, rule bit_word_eqI, unfold sextet_bits,
      drule below_8, elim disjE, simp_all add: bit_8)+

lemma sextet_table: "[0, 1, 2, 3, 4, 5, 6, 7, 8, 9, 10, 11, 12, 13, 14, 15, 16, 17, 18, 19, 20,
      21, 22, 23, 24, 25, 26, 27, 28, 29, 30, 31, 32, 33, 34, 35, 36, 37, 38, 39, 40, 41, 42,
      43, 44, 45, 46, 47, 48, 49, 50, 51, 52, 53, 54, 55, 56, 57, 58, 59, 60, 61, 62, 63] = map int [0..<64]"
  by code_simp

lemma decode_kTable:
  assumes "unat w < 64"
  shows "kDecodeTable (kTable w) = uint w" "kTable w \<in> set kB64Chars"
proof -
  have "kDecodeTable (kTable w) = map kDecodeTable kB64Chars ! unat w"
    using assms by (simp add: kTable_def)
  also have "\<dots> = map int [0..<64] ! unat w" by (simp only: decode_table sextet_table)
  also have "\<dots> = uint w" using assms by simp
  finally show "kDecodeTable (kTable w) = uint w" .
  show "kTable w \<in> set kB64Chars" using assms by (simp add: kTable_def)
qed

lemmas sextet_decode = sextet_small [THEN decode_kTable(1)]
lemmas sextet_alphabet = sextet_small [THEN decode_kTable(2)]

lemma alphabetD:
  assumes "ch \<in> set kB64Chars"
  shows "ch \<noteq> 61" "from_url (to_url ch) = ch" "to_url ch \<noteq> 61" "to_url ch \<noteq> 46"
  using alphabet assms by (auto simp: list_all_iff)

lemma decode_pad: "kDecodeTable 61 = - 1"
  by (simp add: kDecodeTable_def decode_row_def)

lemma decode_groups: "decode_quads (encode_groups xs) = xs"
proof (induction xs rule: encode_groups.induct)
  case (2 a)
  show ?case
    using sextet_1 [of a 0] sextet_decode(1) [of a] sextet_decode(2) [of a 0]
    by (simp add: Let_def)
next
  case (3 a b)
  show ?case
    using sextet_1 [of a b] sextet_2 [of a b 0] sextet_decode(1) [of a] sextet_decode(2) [of a b]
      sextet_decode(3) [of b 0] alphabetD(1) [OF sextet_alphabet(3) [of b 0]]
    by (simp add: Let_def)
next
  case (4 a b c xs)
  show ?case
    using sextet_1 [of a b] sextet_2 [of a b c] sextet_3 [of b c] sextet_decode(1) [of a]
      sextet_decode(2) [of a b] sextet_decode(3) [of b c] sextet_decode(4) [of c]
      alphabetD(1) [OF sextet_alphabet(3) [of b c]] alphabetD(1) [OF sextet_alphabet(4) [of c]] 4
    by (simp add: Let_def)
qed simp

text \<open>The encoding is a word of the alphabet followed by at most two padding characters.\<close>

lemma encode_groups_shape:
  "\<exists>e k. encode_groups xs = e @ replicate k 61 \<and> set e \<subseteq> set kB64Chars \<and>
     k = (4 - length e mod 4) mod 4 \<and> length e + k = 4 * ((length xs + 2) div 3)"
proof (induction xs rule: encode_groups.induct)
  case 1
  show ?case by (intro exI [of _ "[]"] exI [of _ 0]) simp
next
  case (2 a)
  show ?case
    using sextet_alphabet(1) [of a] sextet_alphabet(2) [of a 0]
    by (intro exI [of _ "take 2 (encode_groups [a])"] exI [of _ 2]) (simp add: numeral_2_eq_2)
next
  case (3 a b)
  show ?case
    using sextet_alphabet(1) [of a] sextet_alphabet(2) [of a b] sextet_alphabet(3) [of b 0]
    by (intro exI [of _ "take 3 (encode_groups [a, b])"] exI [of _ 1]) simp
next
  case (4 a b c xs)
  then obtain e k where e: "encode_groups xs = e @ replicate k 61" "set e \<subseteq> set kB64Chars"
      "k = (4 - length e mod 4) mod 4" "length e + k = 4 * ((length xs + 2) div 3)" by blast
  have "encode_groups (a # b # c # xs) = (take 4 (encode_groups (a # b # c # xs)) @ e) @ replicate k 61"
    by (simp add: e(1))
  moreover have "set (take 4 (encode_groups (a # b # c # xs))) \<subseteq> set kB64Chars"
    using sextet_alphabet(1) [of a] sextet_alphabet(2) [of a b] sextet_alphabet(3) [of b c]
      sextet_alphabet(4) [of c] by simp
  moreover have "length (take 4 (encode_groups (a # b # c # xs)) @ e) = length e + 4" by simp
  then have "k = (4 - length (take 4 (encode_groups (a # b # c # xs)) @ e) mod 4) mod 4"
    using e(3) by (simp only: mod_add_self2)
  moreover have "length (take 4 (encode_groups (a # b # c # xs)) @ e) + k =
      4 * ((length (a # b # c # xs) + 2) div 3)"
  proof -
    have "(length (a # b # c # xs) + 2) div 3 = ((length xs + 2) + 3) div 3" by simp
    also have "\<dots> = (length xs + 2) div 3 + 1" by (rule div_add_self2) simp
    finally show ?thesis using e(4) by simp
  qed
  ultimately show ?case using e(2) by (metis set_append Un_least)
qed

lemma strip_padding_append: "61 \<notin> set e \<Longrightarrow> strip_padding (e @ replicate k 61) = e"
proof -
  assume "61 \<notin> set e"
  then have "dropWhile (\<lambda>ch. ch = 61) (rev e) = rev e" by (cases e rule: rev_cases) auto
  then have "dropWhile (\<lambda>ch. ch = 61) (replicate k 61 @ rev e) = rev e"
    by (induction k) auto
  then show ?thesis by (simp add: strip_padding_def)
qed

lemma base64UrlEncode_shape:
  obtains e k where "base64UrlEncode xs = map to_url e" "encode_groups xs = e @ replicate k 61"
    "set e \<subseteq> set kB64Chars" "k = (4 - length e mod 4) mod 4"
    "length e + k = 4 * ((length xs + 2) div 3)"
proof -
  obtain e k where e: "encode_groups xs = e @ replicate k 61" "set e \<subseteq> set kB64Chars"
      "k = (4 - length e mod 4) mod 4" "length e + k = 4 * ((length xs + 2) div 3)"
    using encode_groups_shape by blast
  have "61 \<notin> set (map to_url e)" using e(2) alphabetD(3) by fastforce
  moreover have "map to_url (encode_groups xs) = map to_url e @ replicate k 61"
    by (simp add: e(1) to_url_def)
  ultimately have "base64UrlEncode xs = map to_url e"
    by (metis base64UrlEncode_def strip_padding_append)
  then show ?thesis using that e by blast
qed

lemma base64UrlEncode_no_dot: "46 \<notin> set (base64UrlEncode xs)"
proof -
  obtain e k where "base64UrlEncode xs = map to_url e" "set e \<subseteq> set kB64Chars"
    by (rule base64UrlEncode_shape)
  then show ?thesis using alphabetD(4) by fastforce
qed

lemma base64UrlEncode_length: "length (base64UrlEncode xs) \<le> 4 * ((length xs + 2) div 3)"
proof -
  obtain e k where "base64UrlEncode xs = map to_url e" "length e + k = 4 * ((length xs + 2) div 3)"
    by (rule base64UrlEncode_shape)
  then show ?thesis by simp
qed

lemma base64_decode_encode: "base64Decode (base64UrlEncode xs) = xs"
proof -
  obtain e k where e: "base64UrlEncode xs = map to_url e" "encode_groups xs = e @ replicate k 61"
    "set e \<subseteq> set kB64Chars" "k = (4 - length e mod 4) mod 4" by (rule base64UrlEncode_shape)
  have "map from_url (map to_url e) = e"
    using e(3) alphabetD(2) by (auto simp: map_idI subsetD)
  then have "base64Decode (base64UrlEncode xs) = decode_quads (e @ replicate k 61)"
    by (simp only: base64Decode_def e(1) e(4) Let_def length_map)
  then show ?thesis using decode_groups [of xs] e(2) by simp
qed

text \<open>
  Decoding a string the account service encoded gives the original bytes, for byte strings of
  every length, padding removed and restored.
\<close>

theorem base64_roundtrip: "base64Decode (base64UrlEncode xs) = xs"
  by (rule base64_decode_encode)

text \<open>
  The decoder does not reject bytes outside ASCII: replacing letters A of the input by
  such bytes does not change what is decoded, so an accepted token has variants that are accepted
  too.
\<close>

theorem base64_accepts_non_ascii:
  assumes "list_all2 (\<lambda>x y. y = x \<or> x = 65 \<and> 128 \<le> unat y) xs ys"
  shows "base64Decode ys = base64Decode xs"
proof -
  let ?r = "\<lambda>x y :: 8 word. y = x \<or> x = 65 \<and> 128 \<le> unat y"
  have quads: "decode_quads vs = decode_quads us" if "list_all2 ?r us vs" for us vs
    using that
  proof (induction us arbitrary: vs rule: decode_quads.induct)
    case (1 w x y z rest)
    then obtain w' x' y' z' rest' where v: "vs = w' # x' # y' # z' # rest'" "list_all2 ?r rest rest'"
        "?r w w'" "?r x x'" "?r y y'" "?r z z'"
      by (auto simp: list_all2_Cons1)
    have t: "kDecodeTable c' = kDecodeTable c \<and> (c' = 61 \<longleftrightarrow> c = 61)" if "?r c c'" for c c'
      using that by (auto simp: kDecodeTable_def decode_row_def)
    show ?case
      using 1 v t [OF v(3)] t [OF v(4)] t [OF v(5)] t [OF v(6)] by (simp add: Let_def)
  qed (auto simp: list_all2_Cons1)
  have "?r (from_url x) (from_url y)" if "?r x y" for x y
    using that by (auto simp: from_url_def Let_def)
  then have "list_all2 ?r (map from_url xs) (map from_url ys)"
    using assms by (auto simp: list_all2_conv_all_nth)
  moreover have "list_all2 ?r (replicate n 61) (replicate n 61)" for n
    by (simp add: list_all2_conv_all_nth)
  ultimately show ?thesis
    using list_all2_lengthD [OF assms] quads by (simp add: base64Decode_def Let_def list_all2_appendI)
qed

theorem base64_accepts_non_ascii_witness:
  "base64Decode (map (\<lambda>c. if c = 65 then 200 else c) (base64UrlEncode [0, 16, 1])) = [0, 16, 1]"
proof -
  have e: "base64UrlEncode [0, 16, 1] = [65, 66, 65, 66]"
    by (simp add: base64UrlEncode_def kTable_def kB64_eval strip_padding_def to_url_def)
  have "base64Decode [200, 66, 200, 66] = base64Decode [65, 66, 65, 66]"
    by (rule base64_accepts_non_ascii) simp
  then show ?thesis using base64_roundtrip [of "[0, 16, 1]"] by (simp add: e)
qed

end
