(* ===== verification/StdText.thy ===== *)
theory StdText
  imports Prelude "HOL-Library.List_Lexorder" "HOL-Library.Char_ord"
begin

text \<open>
  What several components use of the standard library's text and map types, and the values of the
  third-party JSON library: ordered maps, \<open>std::getline\<close>, \<open>std::string::find\<close> of one character,
  the number conversions, and the JSON documents with their member lookup.
\<close>

section \<open>Ordered maps\<close>

fun ordered_put :: "'k::linorder \<Rightarrow> 'v \<Rightarrow> ('k \<times> 'v) list \<Rightarrow> ('k \<times> 'v) list" where
  "ordered_put k v [] = [(k, v)]"
| "ordered_put k v ((k', v') # m) =
     (if k < k' then (k, v) # (k', v') # m
      else if k = k' then (k, v) # m else (k', v') # ordered_put k v m)"

lemma map_of_ordered_put [simp]: "map_of (ordered_put k v m) = (map_of m)(k \<mapsto> v)"
  by (induction k v m rule: ordered_put.induct) auto

lemma ordered_put_sorted:
  "sorted_wrt (<) (map fst m) \<Longrightarrow> sorted_wrt (<) (map fst (ordered_put k v m))"
proof (induction k v m rule: ordered_put.induct)
  case (2 k v k' v' m)
  have "set (map fst (ordered_put k v m)) \<subseteq> insert k (set (map fst m))"
    by (induction k v m rule: ordered_put.induct) auto
  then show ?case using 2 by (fastforce simp: not_less_iff_gr_or_eq)
qed simp

section \<open>Text\<close>

text \<open>The loop \<open>while (std::getline(iss, s, d))\<close>: no line follows a delimiter that is the last character.\<close>

function getlines :: "char \<Rightarrow> string \<Rightarrow> string list" where
  "getlines d s =
     (if s = [] then [] else takeWhile (\<lambda>c. c \<noteq> d) s # getlines d (drop 1 (dropWhile (\<lambda>c. c \<noteq> d) s)))"
  by pat_completeness auto

termination
proof (relation "measure (\<lambda>(d, s). length s)")
  fix d :: char and s :: string
  assume "s \<noteq> []"
  then have "length (drop 1 (dropWhile (\<lambda>c. c \<noteq> d) s)) < length s"
    using length_dropWhile_le [of "\<lambda>c. c \<noteq> d" s] by (cases s) auto
  then show "((d, drop 1 (dropWhile (\<lambda>c. c \<noteq> d) s)), (d, s)) \<in> measure (\<lambda>(d, s). length s)" by simp
qed simp

declare getlines.simps [simp del]

text \<open>What precedes and what follows the first occurrence of a character.\<close>

definition cut :: "char \<Rightarrow> string \<Rightarrow> (string \<times> string) option" where
  "cut c s = (if c \<in> set s then Some (takeWhile (\<lambda>x. x \<noteq> c) s, tl (dropWhile (\<lambda>x. x \<noteq> c) s)) else None)"

definition is_digit :: "char \<Rightarrow> bool" where
  "is_digit c \<longleftrightarrow> c \<in> set ''0123456789''"

definition digit_val :: "char \<Rightarrow> nat" where
  "digit_val c = of_char c - 48"

definition decimal :: "string \<Rightarrow> nat" where
  "decimal s = fold (\<lambda>c n. 10 * n + digit_val c) s 0"

text \<open>
  \<open>std::stoul\<close>: blanks and a sign may precede the digits, what follows them is ignored, a negative
  number wraps around; without a digit, or out of range, it throws (\<^term>\<open>None\<close>). \<open>std::stoi\<close> likewise.
\<close>

definition std_space :: "char \<Rightarrow> bool" where
  "std_space c \<longleftrightarrow> c \<in> set '' '' \<or> of_char c \<in> {9, 10, 11, 12, 13 :: nat}"

definition signed_digits :: "string \<Rightarrow> (bool \<times> nat) option" where
  "signed_digits s =
     (let s1 = dropWhile std_space s;
          neg = (take 1 s1 = ''-'');
          s2 = (if neg \<or> take 1 s1 = ''+'' then drop 1 s1 else s1);
          ds = takeWhile is_digit s2
      in if ds = [] then None else Some (neg, decimal ds))"

definition std_stoul :: "string \<Rightarrow> nat option" where
  "std_stoul s =
     (case signed_digits s of
        None \<Rightarrow> None
      | Some (neg, v) \<Rightarrow>
          if v < 2 ^ 64 then Some (if neg then (2 ^ 64 - v) mod 2 ^ 64 else v) else None)"

definition std_stoi :: "string \<Rightarrow> int option" where
  "std_stoi s =
     (case signed_digits s of
        None \<Rightarrow> None
      | Some (neg, v) \<Rightarrow>
          let i = (if neg then - int v else int v) in
          if - (2 ^ 31) \<le> i \<and> i < 2 ^ 31 then Some i else None)"

section \<open>JSON documents\<close>

datatype json =
    JNull
  | JBool bool
  | JNum int
  | JStr "8 word list"
  | JArr "json list"
  | JObj "(8 word list \<times> json) list"

fun json_get :: "string \<Rightarrow> json \<Rightarrow> json option" where
  "json_get k (JObj kvs) = map_of kvs (str_bytes k)"
| "json_get k _ = None"

end
