(* ===== verification/Jwt.thy ===== *)
theory Jwt
  imports Base64 Dispatcher StdText
begin

text \<open>
  Token issue and token check: \<open>AccountApp\<close> (server/account/AccountService.cpp) and
  \<open>JwtAuthProvider\<close> (server/connd/auth/JwtAuthProvider.cpp). HMAC-SHA256 (OpenSSL) and the JSON parser
  (third-party) are the members of \<open>jwt_env\<close>; a parse error, which is an exception in the source, is
  \<^term>\<open>None\<close>. A JSON number is its conversion to \<open>int64_t\<close>.
\<close>

section \<open>Parameters\<close>

record jwt_env =
  jw_parse :: "8 word list \<Rightarrow> json option"
  jw_hmacSha256 :: "8 word list \<Rightarrow> 8 word list \<Rightarrow> 8 word list"

section \<open>Checking a token\<close>

definition split_dot :: "8 word list \<Rightarrow> (8 word list \<times> 8 word list) option" where
  "split_dot token =
     (let dot = length (takeWhile (\<lambda>c. c \<noteq> 46) token)
      in if dot < length token then Some (take dot token, drop (dot + 1) token) else None)"

definition reject :: "string \<Rightarrow> auth_result" where
  "reject msg = \<lparr>ar_ok = False, ar_user_id = '''', ar_err_msg = msg\<rparr>"

text \<open>\<open>payload["exp"].get<int64_t>()\<close> throws when the member is not a number.\<close>

definition check_claims :: "int \<Rightarrow> json \<Rightarrow> auth_result" where
  "check_claims now payload =
     (let threw = reject ''payload parse error: '';
          subject = (case json_get ''sub'' payload of
             Some (JStr u) \<Rightarrow> \<lparr>ar_ok = True, ar_user_id = bytes_str u, ar_err_msg = ''''\<rparr>
           | Some _ \<Rightarrow> threw
           | None \<Rightarrow>
               (case json_get ''user_id'' payload of
                  Some (JStr u) \<Rightarrow> \<lparr>ar_ok = True, ar_user_id = bytes_str u, ar_err_msg = ''''\<rparr>
                | Some _ \<Rightarrow> threw
                | None \<Rightarrow> reject ''missing sub/user_id in payload''));
          not_before = (case json_get ''nbf'' payload of
             Some (JNum nbf) \<Rightarrow> if now < nbf then reject ''token not yet valid'' else subject
           | Some _ \<Rightarrow> threw
           | None \<Rightarrow> subject)
      in case json_get ''exp'' payload of
           Some (JNum exp) \<Rightarrow> if now > exp then reject ''token expired'' else not_before
         | Some _ \<Rightarrow> threw
         | None \<Rightarrow> not_before)"

definition verify :: "jwt_env \<Rightarrow> 8 word list \<Rightarrow> int \<Rightarrow> 8 word list \<Rightarrow> auth_result" where
  "verify j secret now token =
     (case split_dot token of
        None \<Rightarrow> reject ''invalid jwt format''
      | Some (header_b64, rest) \<Rightarrow>
          (case split_dot rest of
             None \<Rightarrow> reject ''invalid jwt format''
           | Some (payload_b64, signature_b64) \<Rightarrow>
               (case jw_parse j (base64Decode header_b64) of
                  None \<Rightarrow> reject ''header parse error''
                | Some header \<Rightarrow>
                    if json_get ''alg'' header \<noteq> Some (JStr (str_bytes ''HS256''))
                    then reject ''unsupported alg''
                    else if secret = [] then reject ''jwt secret not configured''
                    else if jw_hmacSha256 j secret (header_b64 @ [46] @ payload_b64) \<noteq> base64Decode signature_b64
                    then reject ''signature mismatch''
                    else (case jw_parse j (base64Decode payload_b64) of
                            None \<Rightarrow> reject ''payload parse error: ''
                          | Some payload \<Rightarrow> check_claims now payload))))"

section \<open>Issuing a token\<close>

definition header_json :: "8 word list" where
  "header_json = str_bytes (''{'' @ [CHR 0x22] @ ''alg'' @ [CHR 0x22] @ '':'' @ [CHR 0x22] @ ''HS256'' @ [CHR 0x22] @
     '','' @ [CHR 0x22] @ ''typ'' @ [CHR 0x22] @ '':'' @ [CHR 0x22] @ ''JWT'' @ [CHR 0x22] @ ''}'')"

definition payload_json :: "8 word list \<Rightarrow> int \<Rightarrow> 8 word list" where
  "payload_json account exp =
     str_bytes (''{'' @ [CHR 0x22] @ ''sub'' @ [CHR 0x22] @ '':'' @ [CHR 0x22]) @ account @
     str_bytes ([CHR 0x22] @ '','' @ [CHR 0x22] @ ''exp'' @ [CHR 0x22] @ '':'') @ to_string exp @ str_bytes ''}''"

definition signJwt :: "jwt_env \<Rightarrow> 8 word list \<Rightarrow> int \<Rightarrow> int \<Rightarrow> 8 word list \<Rightarrow> 8 word list" where
  "signJwt j jwt_secret jwt_ttl now account =
     (let h = base64UrlEncode header_json;
          p = base64UrlEncode (payload_json account (now + jwt_ttl));
          sig = base64UrlEncode (jw_hmacSha256 j jwt_secret (h @ [46] @ p))
      in h @ [46] @ p @ [46] @ sig)"

definition kMaxAccountLen :: nat where "kMaxAccountLen = 64"

text \<open>The error code and the token \<open>onApplyToken\<close> replies with; no reply when the request does not parse.\<close>

definition onApplyToken ::
  "jwt_env \<Rightarrow> 8 word list \<Rightarrow> int \<Rightarrow> int \<Rightarrow> 8 word list option \<Rightarrow> (nat \<times> 8 word list) option" where
  "onApplyToken j jwt_secret jwt_ttl now request =
     (case request of
        None \<Rightarrow> None
      | Some account \<Rightarrow>
          if account = [] \<or> length account > kMaxAccountLen then Some (Error_auth_failed, [])
          else Some (Error_success, signJwt j jwt_secret jwt_ttl now account))"

text \<open>\<open>AccountApp::onInit\<close>: the configured secret and what starting the bus returned.\<close>

definition AccountApp_onInit :: "8 word list \<Rightarrow> bool \<Rightarrow> init_event list \<times> bool" where
  "AccountApp_onInit jwt_secret bus_ok =
     (if jwt_secret = [] then ([], False)
      else if \<not> bus_ok then ([StartBus], False)
      else ([StartBus, RegistMessage CS_PLAYER_APPLY_TOKEN], True))"

section \<open>Lemmas\<close>

lemma split_dot_append: "46 \<notin> set h \<Longrightarrow> split_dot (h @ [46] @ r) = Some (h, r)"
proof -
  assume "46 \<notin> set h"
  then have "takeWhile (\<lambda>c. c \<noteq> 46) h = h" by (auto simp: takeWhile_eq_all_conv)
  then show ?thesis by (simp add: split_dot_def takeWhile_tail)
qed

lemma split_dot_Some:
  assumes "split_dot token = Some (h, r)"
  shows "token = h @ [46] @ r \<and> 46 \<notin> set h"
proof -
  let ?h = "takeWhile (\<lambda>c. c \<noteq> 46) token"
  have l: "length ?h < length token" "h = take (length ?h) token" "r = drop (length ?h + 1) token"
    using assms by (auto simp: split_dot_def Let_def split: if_splits)
  have "h = ?h" using l(2) by (metis takeWhile_eq_take)
  moreover have "token ! length ?h = 46" using nth_length_takeWhile [OF l(1)] by simp
  ultimately show ?thesis
    using l id_take_nth_drop [OF l(1)] by (auto dest: set_takeWhileD)
qed

lemma split_dot_iff: "split_dot token = Some (h, r) \<longleftrightarrow> token = h @ [46] @ r \<and> 46 \<notin> set h"
  using split_dot_Some split_dot_append by blast

text \<open>The user a set of claims names at a time, \<^term>\<open>None\<close> when they are rejected.\<close>

definition claimed_user :: "json \<Rightarrow> int \<Rightarrow> 8 word list \<Rightarrow> bool" where
  "claimed_user payload now u \<longleftrightarrow>
     (json_get ''sub'' payload = Some (JStr u) \<or>
      json_get ''sub'' payload = None \<and> json_get ''user_id'' payload = Some (JStr u)) \<and>
     (json_get ''exp'' payload = None \<or> (\<exists>n. json_get ''exp'' payload = Some (JNum n) \<and> now \<le> n)) \<and>
     (json_get ''nbf'' payload = None \<or> (\<exists>n. json_get ''nbf'' payload = Some (JNum n) \<and> n \<le> now))"

lemma check_claims_ok:
  "ar_ok (check_claims now payload) \<and> ar_user_id (check_claims now payload) = bytes_str u \<longleftrightarrow>
     claimed_user payload now u"
  unfolding check_claims_def claimed_user_def reject_def Let_def
  by (cases "json_get ''exp'' payload"; cases "json_get ''nbf'' payload")
    (auto simp: bytes_str_inj split: option.splits json.splits)

lemma verify_split:
  assumes "46 \<notin> set h" "46 \<notin> set p"
  shows "verify j secret now (h @ [46] @ p @ [46] @ s) =
    (case jw_parse j (base64Decode h) of
       None \<Rightarrow> reject ''header parse error''
     | Some header \<Rightarrow>
         if json_get ''alg'' header \<noteq> Some (JStr (str_bytes ''HS256'')) then reject ''unsupported alg''
         else if secret = [] then reject ''jwt secret not configured''
         else if jw_hmacSha256 j secret (h @ [46] @ p) \<noteq> base64Decode s then reject ''signature mismatch''
         else (case jw_parse j (base64Decode p) of
                 None \<Rightarrow> reject ''payload parse error: ''
               | Some payload \<Rightarrow> check_claims now payload))"
proof -
  have "split_dot (h @ [46] @ p @ [46] @ s) = Some (h, p @ [46] @ s)" "split_dot (p @ [46] @ s) = Some (p, s)"
    by (rule split_dot_append, rule assms)+
  then show ?thesis by (simp add: verify_def)
qed

lemma reject_ok [simp]: "ar_ok (reject e) \<longleftrightarrow> False"
  by (simp add: reject_def)

lemma str_bytes_length [simp]: "length (str_bytes s) = length s"
  by (simp add: str_bytes_def)

section \<open>Properties\<close>

text \<open>
  C14: A token is accepted for a user exactly when the secret is configured and the token consists of
  three parts of which the first is a header naming HS256, the third is the MAC of the other two
  under the secret, and the second holds claims that are valid now and name that user.
\<close>

theorem verify_accepts_exactly:
  "ar_ok (verify j secret now token) \<and> ar_user_id (verify j secret now token) = bytes_str u \<longleftrightarrow>
     secret \<noteq> [] \<and>
     (\<exists>h p s header payload.
        token = h @ [46] @ p @ [46] @ s \<and> 46 \<notin> set h \<and> 46 \<notin> set p \<and>
        jw_parse j (base64Decode h) = Some header \<and>
        json_get ''alg'' header = Some (JStr (str_bytes ''HS256'')) \<and>
        base64Decode s = jw_hmacSha256 j secret (h @ [46] @ p) \<and>
        jw_parse j (base64Decode p) = Some payload \<and> claimed_user payload now u)"
    (is "?acc \<longleftrightarrow> ?spec")
proof
  assume a: ?acc
  then obtain h rest p s where sp: "split_dot token = Some (h, rest)" "split_dot rest = Some (p, s)"
    by (auto simp: verify_def split: option.splits prod.splits)
  then have t: "token = h @ [46] @ p @ [46] @ s" "46 \<notin> set h" "46 \<notin> set p"
    by (auto dest!: split_dot_Some)
  note v = verify_split [OF t(2,3), of j secret now s, folded t(1)]
  obtain header payload where "jw_parse j (base64Decode h) = Some header"
      "json_get ''alg'' header = Some (JStr (str_bytes ''HS256''))" "secret \<noteq> []"
      "base64Decode s = jw_hmacSha256 j secret (h @ [46] @ p)"
      "jw_parse j (base64Decode p) = Some payload" "verify j secret now token = check_claims now payload"
    using a by (auto simp: v split: option.splits if_splits)
  moreover from this(6) have "claimed_user payload now u" using a by (simp flip: check_claims_ok)
  ultimately show ?spec using t by blast
next
  assume ?spec
  then obtain h p s header payload where s: "secret \<noteq> []" "token = h @ [46] @ p @ [46] @ s" "46 \<notin> set h"
      "46 \<notin> set p" "jw_parse j (base64Decode h) = Some header"
      "json_get ''alg'' header = Some (JStr (str_bytes ''HS256''))"
      "base64Decode s = jw_hmacSha256 j secret (h @ [46] @ p)"
      "jw_parse j (base64Decode p) = Some payload" "claimed_user payload now u" by blast
  have "verify j secret now token = check_claims now payload"
    unfolding s(2) verify_split [OF s(3,4)] by (simp add: s)
  then show ?acc using s(9) by (simp add: check_claims_ok)
qed

lemma verify_signJwt:
  assumes "jw_parse j header_json =
      Some (JObj [(str_bytes ''alg'', JStr (str_bytes ''HS256'')), (str_bytes ''typ'', JStr (str_bytes ''JWT''))])"
    and "jw_parse j (payload_json account (now + ttl)) =
      Some (JObj [(str_bytes ''sub'', JStr account), (str_bytes ''exp'', JNum (now + ttl))])"
    and "secret \<noteq> []"
  shows "verify j secret later (signJwt j secret ttl now account) =
    (if later \<le> now + ttl then \<lparr>ar_ok = True, ar_user_id = bytes_str account, ar_err_msg = ''''\<rparr>
     else reject ''token expired'')"
proof -
  have d: "str_bytes ''exp'' \<noteq> str_bytes ''sub''" "str_bytes ''nbf'' \<noteq> str_bytes ''sub''"
      "str_bytes ''nbf'' \<noteq> str_bytes ''exp''" by (simp_all add: str_bytes_def)
  show ?thesis
    unfolding signJwt_def Let_def verify_split [OF base64UrlEncode_no_dot base64UrlEncode_no_dot]
    using assms d by (simp add: base64_decode_encode check_claims_def)
qed

lemma signJwt_length:
  assumes "length account \<le> kMaxAccountLen" "\<bar>now + ttl\<bar> < 10 ^ 19"
    and "\<And>k d. length (jw_hmacSha256 j k d) = 32"
  shows "length (signJwt j secret ttl now account) \<le> kMaxTokenLen"
proof -
  have "length (payload_json account (now + ttl)) \<le> 101"
    using to_string_length [OF assms(2)] assms(1) by (simp add: payload_json_def kMaxAccountLen_def)
  then have "length (base64UrlEncode (payload_json account (now + ttl))) \<le> 4 * (103 div 3)"
    using base64UrlEncode_length [of "payload_json account (now + ttl)"]
      div_le_mono [of "length (payload_json account (now + ttl)) + 2" 103 3] by linarith
  moreover have "length (base64UrlEncode header_json) \<le> 36"
    using base64UrlEncode_length [of header_json] by (simp add: header_json_def)
  moreover have "length (base64UrlEncode (jw_hmacSha256 j secret d)) \<le> 44" for d
    using base64UrlEncode_length [of "jw_hmacSha256 j secret d"] by (simp add: assms(3))
  moreover have "length (signJwt j secret ttl now account) =
      length (base64UrlEncode header_json) + length (base64UrlEncode (payload_json account (now + ttl))) +
      length (base64UrlEncode (jw_hmacSha256 j secret
        (base64UrlEncode header_json @ [46] @ base64UrlEncode (payload_json account (now + ttl))))) + 2"
    by (simp add: signJwt_def Let_def)
  ultimately have "length (signJwt j secret ttl now account) \<le> 36 + 4 * (103 div 3) + 44 + 2"
    by (metis (no_types, lifting) add_le_mono add_le_mono1)
  then show ?thesis by (simp add: kMaxTokenLen_def)
qed


text \<open>
  Without a configured secret no token is accepted, so no message ever reaches the logic service.\<close>

theorem empty_secret_admits_nobody:
  assumes "env_verify e = verify j [] now" "connd_run e ops SessionManager_ctor = Inr (evs, s)"
  shows "\<not> is_authed c s \<and> EvForward c ''LogicService'' m \<notin> set evs"
proof -
  have "\<not> ar_ok (verify j [] now token)" for token
    by (simp add: verify_def split: option.splits)
  then have "login_user e op \<noteq> Some (c, u)" for op u
    using assms(1) by (auto elim!: login_userE)
  then show ?thesis
    using authed_since_login [OF assms(2), of c] forwarded_since_login [OF assms(2), of c m]
    by (cases "user_of s c") (auto simp: is_authed_user)
qed

section \<open>A concrete issuer\<close>

definition demo_jwt :: jwt_env where
  "demo_jwt = \<lparr>jw_parse = (\<lambda>b.
       if b = header_json then
         Some (JObj [(str_bytes ''alg'', JStr (str_bytes ''HS256'')), (str_bytes ''typ'', JStr (str_bytes ''JWT''))])
       else if b = payload_json [97] 86500 then
         Some (JObj [(str_bytes ''sub'', JStr [97]), (str_bytes ''exp'', JNum 86500)])
       else None),
     jw_hmacSha256 = (\<lambda>k d. replicate 32 (if k = [] then 0 else hd k))\<rparr>"

definition demo_gateway :: "8 word list \<Rightarrow> int \<Rightarrow> connd_env" where
  "demo_gateway secret now = demo_env\<lparr>env_verify := verify demo_jwt secret now,
     env_parse_auth := (\<lambda>b. Some (signJwt demo_jwt [7] 86400 100 [97]))\<rparr>"

lemma demo_payload: "payload_json [97] 86500 \<noteq> header_json"
  by (simp add: payload_json_def header_json_def str_bytes_def)

text \<open>Connection 5 was just opened.\<close>

definition demo_sessions :: session_mgr where
  "demo_sessions = on_connect 0 5 ''tcp'' SessionManager_ctor"

lemma demo_sessions_ok: "sm_clean demo_sessions" "connected demo_sessions 5" "user_of demo_sessions 5 = None"
  by (auto simp: demo_sessions_def sm_clean_def sm_inv_on_connect sm_inv_ctor connected_on_connect user_of_on_connect)
     (simp_all add: SessionManager_ctor_def)


theorem empty_secret_admits_nobody_witness:
  "\<exists>evs s. connd_run (demo_gateway [] 0) [(0, OpConnect 1 ''tcp''), (1, OpMessage 1 (Some (client_msg 2000 [1])))]
       SessionManager_ctor = Inr (evs, s) \<and> \<not> is_authed 1 s"
proof -
  let ?ops = "[(0, OpConnect 1 ''tcp''), (1, OpMessage 1 (Some (client_msg 2000 [1])))]"
  obtain evs s where r: "connd_run (demo_gateway [] 0) ?ops SessionManager_ctor = Inr (evs, s)"
    by (simp add: onClientMessage_def is_authed_def on_connect_def SessionManager_ctor_def client_msg_def msg_ids)
  have "env_verify (demo_gateway [] 0) = verify demo_jwt [] 0" by (simp add: demo_gateway_def)
  from empty_secret_admits_nobody [OF this r, of 1] r show ?thesis by blast
qed

end
