(* ===== verification/Packing.thy ===== *)
theory Packing
  imports Slab Connection
begin

text \<open>
  Building packets in the shared slab: \<open>Helper::CreateSSPack\<close>, \<open>Helper::CreateCSPackage\<close> and
  \<open>Helper::ForwardRawAppMsg\<close> (server/common/Helper.cpp) and the deleter of the wrapper they return. A
  protobuf message is its full type name, its serialised bytes and whether serialising succeeds; the
  registries from names to ids (generated code) are parameters. \<open>base\<close> is the address the slab is
  mapped at. Members the code does not assign keep the bytes the block held before.
\<close>

unbundle bit_operations_syntax

record pb_message =
  pb_type_name :: string
  pb_bytes :: "8 word list"
  pb_serializes :: bool

record app_msg_wrapper =
  aw_offset :: nat
  aw_dst :: "8 word list"
  aw_pack_len :: "32 word"

definition GetShortTypeName :: "string \<Rightarrow> string" where
  "GetShortTypeName full =
     (if CHR ''.'' \<in> set full then rev (takeWhile (\<lambda>c. c \<noteq> CHR ''.'') (rev full)) else full)"

text \<open>A store of consecutive bytes; outside the mapping, or through the null pointer, it is undefined.\<close>

definition put :: "nat \<Rightarrow> nat \<Rightarrow> 8 word list \<Rightarrow> slab \<Rightarrow> slab option" where
  "put off k xs s =
     (if off \<noteq> 0 \<and> off + k + length xs \<le> total_size (hdr s)
      then Some (s\<lparr>mem := (\<lambda>a. if off + k \<le> a \<and> a < off + k + length xs
                              then xs ! (a - (off + k)) else mem s a)\<rparr>)
      else None)"

definition block_at :: "slab \<Rightarrow> nat \<Rightarrow> nat \<Rightarrow> 8 word list" where
  "block_at s off n = map (mem s) [off..<off + n]"

text \<open>The stores of \<open>CreateSSPack\<close> and \<open>CreateCSPackage\<close>, which differ in \<open>type_\<close> and \<open>co_id_\<close> only.\<close>

definition fill_pack ::
  "nat \<Rightarrow> nat \<Rightarrow> nat \<Rightarrow> nat \<Rightarrow> nat option \<Rightarrow> nat \<Rightarrow> nat \<Rightarrow> nat \<Rightarrow> 8 word list \<Rightarrow> slab \<Rightarrow> slab option" where
  "fill_pack base off pack_len seq co_id typ data_len msg_id body s0 =
     do { s1 \<leftarrow> put off 0 (le_bytes 1 MAGIC_VERSION) s0;
          s2 \<leftarrow> put off 2 (le_bytes 4 pack_len) s1;
          s3 \<leftarrow> put off 6 (le_bytes 4 seq) s2;
          s4 \<leftarrow> (case co_id of None \<Rightarrow> Some s3 | Some co \<Rightarrow> put off 30 (le_bytes 8 co) s3);
          s5 \<leftarrow> put off 1 (le_bytes 1 typ) s4;
          s6 \<leftarrow> put off 22 (le_bytes 8 (base + off + sizeof_AppMsg)) s5;
          s7 \<leftarrow> put off 20 (le_bytes 2 data_len) s6;
          s8 \<leftarrow> put off 18 (le_bytes 2 msg_id) s7;
          put off sizeof_AppMsg body s8 }"

definition create_pack ::
  "nat \<Rightarrow> (string \<Rightarrow> nat option) \<Rightarrow> pb_message \<Rightarrow> nat \<Rightarrow> nat option \<Rightarrow> nat \<Rightarrow> slab \<Rightarrow>
     fault + (app_msg_wrapper option \<times> nat \<times> slab)" where
  "create_pack base ids msg typ co_id seq s =
     (case ids (GetShortTypeName (pb_type_name msg)) of
        None \<Rightarrow> Inr (None, seq, s)
      | Some msg_id \<Rightarrow>
          (let data_len = length (pb_bytes msg) mod 2 ^ 32;
               pack_len = u32_add sizeof_AppMsg data_len in
           case Alloc (of_nat pack_len) s of
             None \<Rightarrow> Inl Undefined
           | Some (off, s1) \<Rightarrow>
               (case fill_pack base off pack_len seq co_id typ data_len msg_id
                       (if pb_serializes msg then pb_bytes msg else []) s1 of
                  None \<Rightarrow> Inl Undefined
                | Some s2 \<Rightarrow>
                    if \<not> pb_serializes msg
                    then (case Free off (of_nat pack_len) s2 of
                            None \<Rightarrow> Inl Undefined
                          | Some s3 \<Rightarrow> Inr (None, u32_add seq 1, s3))
                    else Inr (Some \<lparr>aw_offset = off, aw_dst = replicate 16 0, aw_pack_len = of_nat pack_len\<rparr>,
                              u32_add seq 1, s2))))"

definition CreateSSPack ::
  "nat \<Rightarrow> (string \<Rightarrow> nat option) \<Rightarrow> pb_message \<Rightarrow> nat \<Rightarrow> nat \<Rightarrow> nat \<Rightarrow> slab \<Rightarrow>
     fault + (app_msg_wrapper option \<times> nat \<times> slab)" where
  "CreateSSPack base kssMsgNameToId msg typ co_id seq s =
     create_pack base kssMsgNameToId msg typ (if co_id \<noteq> 0 then Some co_id else None) seq s"

definition CreateCSPackage ::
  "nat \<Rightarrow> (string \<Rightarrow> nat option) \<Rightarrow> pb_message \<Rightarrow> nat \<Rightarrow> slab \<Rightarrow>
     fault + (app_msg_wrapper option \<times> nat \<times> slab)" where
  "CreateCSPackage base kcsMsgNameToId msg seq s = create_pack base kcsMsgNameToId msg 1 None seq s"

text \<open>
  \<open>ForwardRawAppMsg\<close>: the source is the bytes of its struct and what \<open>data_\<close> points to, \<^term>\<open>None\<close> for null.
\<close>

definition ForwardRawAppMsg ::
  "nat \<Rightarrow> 8 word list \<Rightarrow> 8 word list option \<Rightarrow> 8 word list \<Rightarrow> slab \<Rightarrow>
     fault + (app_msg_wrapper option \<times> slab)" where
  "ForwardRawAppMsg base src data dst_service s =
     (let data_len = field 20 2 src; pack_len = u32_add sizeof_AppMsg data_len in
      case Alloc (of_nat pack_len) s of
        None \<Rightarrow> Inl Undefined
      | Some (off, s1) \<Rightarrow>
          if off = 0 then Inr (None, s1)
          else (case do { s2 \<leftarrow> put off 0 (take sizeof_AppMsg src) s1;
                          s3 \<leftarrow> (case data of
                                  Some d \<Rightarrow> if data_len > 0
                                            then do { body \<leftarrow> mem_read d 0 data_len; put off sizeof_AppMsg body s2 }
                                            else Some s2
                                | None \<Rightarrow> Some s2);
                          put off 22 (le_bytes 8 (base + off + sizeof_AppMsg)) s3 } of
                  None \<Rightarrow> Inl Undefined
                | Some s4 \<Rightarrow>
                    Inr (Some \<lparr>aw_offset = off,
                               aw_dst = take 15 (dst_service @ replicate 15 0) @ [0],
                               aw_pack_len = of_nat pack_len\<rparr>, s4)))"

text \<open>The deleter of the returned \<open>shared_ptr\<close>.\<close>

definition release_pack :: "app_msg_wrapper \<Rightarrow> slab \<Rightarrow> slab option" where
  "release_pack w s = Free (aw_offset w) (aw_pack_len w) s"

section \<open>Stores into a block\<close>

definition splice :: "nat \<Rightarrow> 'a list \<Rightarrow> 'a list \<Rightarrow> 'a list" where
  "splice k xs l = take k l @ xs @ drop (k + length xs) l"

lemma put_splice:
  assumes "off \<noteq> 0" "k + length xs \<le> n" "off + n \<le> total_size (hdr s)"
  obtains s' where "put off k xs s = Some s'" "block_at s' off n = splice k xs (block_at s off n)"
    "hdr s' = hdr s" "\<forall>a. a < off \<or> off + n \<le> a \<longrightarrow> mem s' a = mem s a"
proof -
  let ?s' = "s\<lparr>mem := (\<lambda>a. if off + k \<le> a \<and> a < off + k + length xs
                           then xs ! (a - (off + k)) else mem s a)\<rparr>"
  have "put off k xs s = Some ?s'" using assms by (simp add: put_def)
  moreover have "block_at ?s' off n = splice k xs (block_at s off n)"
    using assms(2) by (intro nth_equalityI) (auto simp: block_at_def splice_def nth_append min_def)
  moreover have "mem ?s' a = mem s a" if "a < off \<or> off + n \<le> a" for a
    using assms(2) that by auto
  moreover have "hdr ?s' = hdr s" by simp
  ultimately show thesis using that by blast
qed

lemma block_at_length [simp]: "length (block_at s off n) = n"
  by (simp add: block_at_def)

lemma segment: "length xs = k + m \<Longrightarrow> \<exists>a b. xs = a @ b \<and> length a = k \<and> length b = m"
  by (intro exI [of _ "take k xs"] exI [of _ "drop k xs"]) simp

lemma msg_segments:
  assumes "length R = sizeof_AppMsg + m"
  obtains v t pl sq ci mi dl pt co nm bd where "R = v @ t @ pl @ sq @ ci @ mi @ dl @ pt @ co @ nm @ bd"
    "length v = 1" "length t = 1" "length pl = 4" "length sq = 4" "length ci = 8" "length mi = 2"
    "length dl = 2" "length pt = 8" "length co = 8" "length nm = 32" "length bd = m"
proof -
  have l: "length R = 1 + (1 + (4 + (4 + (8 + (2 + (2 + (8 + (8 + (32 + m)))))))))"
    using assms by (simp add: sizeof_AppMsg_def sizeof_Header_def)
  obtain v r1 where 1: "R = v @ r1" "length v = 1" "length r1 = 1 + (4 + (4 + (8 + (2 + (2 + (8 + (8 + (32 + m))))))))"
    using segment [OF l] by blast
  obtain t r2 where 2: "r1 = t @ r2" "length t = 1" "length r2 = 4 + (4 + (8 + (2 + (2 + (8 + (8 + (32 + m)))))))"
    using segment [OF 1(3)] by blast
  obtain pl r3 where 3: "r2 = pl @ r3" "length pl = 4" "length r3 = 4 + (8 + (2 + (2 + (8 + (8 + (32 + m))))))"
    using segment [OF 2(3)] by blast
  obtain sq r4 where 4: "r3 = sq @ r4" "length sq = 4" "length r4 = 8 + (2 + (2 + (8 + (8 + (32 + m)))))"
    using segment [OF 3(3)] by blast
  obtain ci r5 where 5: "r4 = ci @ r5" "length ci = 8" "length r5 = 2 + (2 + (8 + (8 + (32 + m))))"
    using segment [OF 4(3)] by blast
  obtain mi r6 where 6: "r5 = mi @ r6" "length mi = 2" "length r6 = 2 + (8 + (8 + (32 + m)))"
    using segment [OF 5(3)] by blast
  obtain dl r7 where 7: "r6 = dl @ r7" "length dl = 2" "length r7 = 8 + (8 + (32 + m))"
    using segment [OF 6(3)] by blast
  obtain pt r8 where 8: "r7 = pt @ r8" "length pt = 8" "length r8 = 8 + (32 + m)"
    using segment [OF 7(3)] by blast
  obtain co r9 where 9: "r8 = co @ r9" "length co = 8" "length r9 = 32 + m"
    using segment [OF 8(3)] by blast
  obtain nm bd where 10: "r9 = nm @ bd" "length nm = 32" "length bd = m"
    using segment [OF 9(3)] by blast
  show thesis
    by (rule that [OF _ 1(2) 2(2) 3(2) 4(2) 5(2) 6(2) 7(2) 8(2) 9(2) 10(2,3)])
      (simp add: 1(1) 2(1) 3(1) 4(1) 5(1) 6(1) 7(1) 8(1) 9(1) 10(1))
qed

text \<open>The message a filled block holds, given what the block held before.\<close>

definition packed_msg ::
  "nat \<Rightarrow> nat option \<Rightarrow> nat \<Rightarrow> nat \<Rightarrow> 8 word list \<Rightarrow> 8 word list \<Rightarrow> app_msg" where
  "packed_msg seq co_id typ msg_id body R =
     \<lparr>m_header = \<lparr>h_version = MAGIC_VERSION, h_type = typ, h_pack_len = sizeof_AppMsg + length body,
        h_seq = seq, h_conn_id = field 10 8 R\<rparr>,
      m_msg_id = msg_id, m_data_len = length body,
      m_co_id = (case co_id of Some co \<Rightarrow> co | None \<Rightarrow> field 30 8 R),
      m_src_name = take 16 (drop 38 R), m_dst_name = take 16 (drop 54 R), m_data = body\<rparr>"

lemma fill_pack_block:
  assumes "off \<noteq> 0" "off + (sizeof_AppMsg + length body) \<le> total_size (hdr s)"
  obtains s' where "fill_pack base off (sizeof_AppMsg + length body) seq co_id typ (length body) msg_id body s = Some s'"
    "hdr s' = hdr s"
    "\<forall>a. a < off \<or> off + (sizeof_AppMsg + length body) \<le> a \<longrightarrow> mem s' a = mem s a"
    "block_at s' off (sizeof_AppMsg + length body) =
       encode_AppMsg (base + off + sizeof_AppMsg)
         (packed_msg seq co_id typ msg_id body (block_at s off (sizeof_AppMsg + length body)))"
proof -
  let ?n = "sizeof_AppMsg + length body"
  note sz = sizeof_AppMsg_def sizeof_Header_def
  note go = put_splice [OF assms(1)]
  obtain s1 where 1: "put off 0 (le_bytes 1 MAGIC_VERSION) s = Some s1"
      "block_at s1 off ?n = splice 0 (le_bytes 1 MAGIC_VERSION) (block_at s off ?n)" "hdr s1 = hdr s"
      "\<forall>a. a < off \<or> off + ?n \<le> a \<longrightarrow> mem s1 a = mem s a"
    by (rule go [of 0 "le_bytes 1 MAGIC_VERSION" ?n s]) (use assms(2) in \<open>simp_all add: sz\<close>)
  obtain s2 where 2: "put off 2 (le_bytes 4 ?n) s1 = Some s2"
      "block_at s2 off ?n = splice 2 (le_bytes 4 ?n) (block_at s1 off ?n)" "hdr s2 = hdr s"
      "\<forall>a. a < off \<or> off + ?n \<le> a \<longrightarrow> mem s2 a = mem s a"
    by (rule go [of 2 "le_bytes 4 ?n" ?n s1]) (use assms(2) 1(3,4) in \<open>simp_all add: sz\<close>)
  obtain s3 where 3: "put off 6 (le_bytes 4 seq) s2 = Some s3"
      "block_at s3 off ?n = splice 6 (le_bytes 4 seq) (block_at s2 off ?n)" "hdr s3 = hdr s"
      "\<forall>a. a < off \<or> off + ?n \<le> a \<longrightarrow> mem s3 a = mem s a"
    by (rule go [of 6 "le_bytes 4 seq" ?n s2]) (use assms(2) 2(3,4) in \<open>simp_all add: sz\<close>)
  obtain s4 where 4: "(case co_id of None \<Rightarrow> Some s3 | Some co \<Rightarrow> put off 30 (le_bytes 8 co) s3) = Some s4"
      "block_at s4 off ?n = (case co_id of None \<Rightarrow> block_at s3 off ?n
         | Some co \<Rightarrow> splice 30 (le_bytes 8 co) (block_at s3 off ?n))" "hdr s4 = hdr s"
      "\<forall>a. a < off \<or> off + ?n \<le> a \<longrightarrow> mem s4 a = mem s a"
  proof (cases co_id)
    case None
    then show thesis using that [of s3] 3(3,4) by simp
  next
    case (Some co)
    obtain t where "put off 30 (le_bytes 8 co) s3 = Some t"
        "block_at t off ?n = splice 30 (le_bytes 8 co) (block_at s3 off ?n)" "hdr t = hdr s3"
        "\<forall>a. a < off \<or> off + ?n \<le> a \<longrightarrow> mem t a = mem s3 a"
      by (rule go [of 30 "le_bytes 8 co" ?n s3]) (use assms(2) 3(3) in \<open>simp_all add: sz\<close>)
    then show thesis using that [of t] 3(3,4) Some by simp
  qed
  obtain s5 where 5: "put off 1 (le_bytes 1 typ) s4 = Some s5"
      "block_at s5 off ?n = splice 1 (le_bytes 1 typ) (block_at s4 off ?n)" "hdr s5 = hdr s"
      "\<forall>a. a < off \<or> off + ?n \<le> a \<longrightarrow> mem s5 a = mem s a"
    by (rule go [of 1 "le_bytes 1 typ" ?n s4]) (use assms(2) 4(3,4) in \<open>simp_all add: sz\<close>)
  obtain s6 where 6: "put off 22 (le_bytes 8 (base + off + sizeof_AppMsg)) s5 = Some s6"
      "block_at s6 off ?n = splice 22 (le_bytes 8 (base + off + sizeof_AppMsg)) (block_at s5 off ?n)" "hdr s6 = hdr s"
      "\<forall>a. a < off \<or> off + ?n \<le> a \<longrightarrow> mem s6 a = mem s a"
    by (rule go [of 22 "le_bytes 8 (base + off + sizeof_AppMsg)" ?n s5])
      (use assms(2) 5(3,4) in \<open>simp_all add: sz\<close>)
  obtain s7 where 7: "put off 20 (le_bytes 2 (length body)) s6 = Some s7"
      "block_at s7 off ?n = splice 20 (le_bytes 2 (length body)) (block_at s6 off ?n)" "hdr s7 = hdr s"
      "\<forall>a. a < off \<or> off + ?n \<le> a \<longrightarrow> mem s7 a = mem s a"
    by (rule go [of 20 "le_bytes 2 (length body)" ?n s6]) (use assms(2) 6(3,4) in \<open>simp_all add: sz\<close>)
  obtain s8 where 8: "put off 18 (le_bytes 2 msg_id) s7 = Some s8"
      "block_at s8 off ?n = splice 18 (le_bytes 2 msg_id) (block_at s7 off ?n)" "hdr s8 = hdr s"
      "\<forall>a. a < off \<or> off + ?n \<le> a \<longrightarrow> mem s8 a = mem s a"
    by (rule go [of 18 "le_bytes 2 msg_id" ?n s7]) (use assms(2) 7(3,4) in \<open>simp_all add: sz\<close>)
  obtain s9 where 9: "put off sizeof_AppMsg body s8 = Some s9"
      "block_at s9 off ?n = splice sizeof_AppMsg body (block_at s8 off ?n)" "hdr s9 = hdr s"
      "\<forall>a. a < off \<or> off + ?n \<le> a \<longrightarrow> mem s9 a = mem s a"
    by (rule go [of sizeof_AppMsg body ?n s8]) (use assms(2) 8(3,4) in simp_all)
  have run: "fill_pack base off ?n seq co_id typ (length body) msg_id body s = Some s9"
    using 1(1) 2(1) 3(1) 4(1) 5(1) 6(1) 7(1) 8(1) 9(1) by (simp add: fill_pack_def)
  obtain v t pl sq ci mi dl pt co nm bd where
      R: "block_at s off ?n = v @ t @ pl @ sq @ ci @ mi @ dl @ pt @ co @ nm @ bd"
      "length v = 1" "length t = 1" "length pl = 4" "length sq = 4" "length ci = 8" "length mi = 2"
      "length dl = 2" "length pt = 8" "length co = 8" "length nm = 32" "length bd = length body"
    by (rule msg_segments [of "block_at s off ?n" "length body"]) simp
  have "block_at s9 off ?n = encode_AppMsg (base + off + sizeof_AppMsg)
      (packed_msg seq co_id typ msg_id body (block_at s off ?n))"
    unfolding 9(2) 8(2) 7(2) 6(2) 5(2) 4(2) 3(2) 2(2) 1(2) R(1)
    by (cases co_id)
      (simp_all add: splice_def R(2-) sz encode_AppMsg_def encode_header_def packed_msg_def field_def
        le_bytes_le_nat)
  then show thesis using that run 9(3,4) by blast
qed

section \<open>Packets in the slab\<close>

text \<open>What \<open>Alloc\<close> gives for a request of \<open>n\<close> bytes when it succeeds.\<close>

lemma alloc_block:
  assumes "slab_owns B E s L" "n \<le> 2 ^ 31" "Alloc (of_nat n) s = Some (off, s1)" "off \<noteq> 0"
  obtains c where "SizeClassIndex (Align8 (of_nat n)) = Some c" "(off, c) \<notin> L"
    "slab_owns B E s1 (insert (off, c) L)" "off + n \<le> total_size (hdr s1)"
    "\<forall>a. a \<notin> block_bytes (off, c) \<longrightarrow> a < off \<or> off + n \<le> a"
    "\<forall>x \<in> L. \<forall>a \<in> block_bytes x. mem s1 a = mem s a"
proof -
  have u: "unat (of_nat n :: 32 word) = n" using assms(2) by (simp add: unat_of_nat)
  obtain c where c: "SizeClassIndex (Align8 (of_nat n)) = Some c" "(off, c) \<notin> L"
      "slab_owns B E s1 (insert (off, c) L)" "\<forall>x \<in> L. \<forall>a \<in> block_bytes x. mem s1 a = mem s a"
    using slab_alloc_law [OF assms(1), of "of_nat n"] assms(2-4) u by auto
  have n: "n \<le> class_size c" using request_class(2) [of "of_nat n" c] u assms(2) c(1) by simp
  obtain fl where fl: "slab_inv s1 fl (insert (off, c) L)" using c(3) by (auto simp: slab_owns_def)
  have "off + class_size c \<le> bump (hdr s1)" "bump (hdr s1) \<le> total_size (hdr s1)"
    using slab_invD(1,7) [OF fl] live_in_blocks [of "(off, c)"] by (force simp: header_wf_def)+
  then have "off + n \<le> total_size (hdr s1)" using n by simp
  moreover have "a < off \<or> off + n \<le> a" if "a \<notin> block_bytes (off, c)" for a
    using that n by (auto simp: block_bytes_def)
  ultimately show thesis using that c by blast
qed

lemma slab_owns_write:
  assumes "slab_owns B E s L" "b \<in> L" "hdr s' = hdr s" "\<And>a. a \<notin> block_bytes b \<Longrightarrow> mem s' a = mem s a"
  shows "slab_owns B E s' L"
proof -
  obtain fl where fl: "slab_inv s fl L" using assms(1) by (auto simp: slab_owns_def)
  have "slab_inv (s\<lparr>mem := mem s'\<rparr>) fl L" by (rule client_write_inv [OF fl assms(2,4)])
  moreover have "s\<lparr>mem := mem s'\<rparr> = s'" using assms(3) by (cases s'; cases s) simp
  ultimately show ?thesis using assms(1,3) by (auto simp: slab_owns_def)
qed

lemma packed_msg_wf:
  assumes "off + (sizeof_AppMsg + length body) \<le> n" "typ < 256" "seq < 2 ^ 32" "msg_id < 2 ^ 16"
    "length body < 2 ^ 16" "case co_id of None \<Rightarrow> True | Some co \<Rightarrow> co < 2 ^ 64"
    "length R = sizeof_AppMsg + length body"
  shows "msg_wf (packed_msg seq co_id typ msg_id body R)"
  using assms field_less [of 10 8 R] field_less [of 30 8 R]
  by (auto simp: msg_wf_def packed_msg_def sizeof_AppMsg_def sizeof_Header_def split: option.splits)

text \<open>A packet that is created lies in a block of its own and holds the message.\<close>

lemma create_pack_block:
  assumes "slab_owns B E s L" "create_pack base ids msg typ co_id seq s = Inr (Some w, seq', s')"
    "length (pb_bytes msg) \<le> 2 ^ 31 - sizeof_AppMsg"
  obtains off msg_id c s1 where "w = \<lparr>aw_offset = off, aw_dst = replicate 16 0,
        aw_pack_len = of_nat (sizeof_AppMsg + length (pb_bytes msg))\<rparr>"
    "ids (GetShortTypeName (pb_type_name msg)) = Some msg_id" "(off, c) \<notin> L"
    "SizeClassIndex (Align8 (aw_pack_len w)) = Some c"
    "Alloc (aw_pack_len w) s = Some (off, s1)" "slab_owns B E s' (insert (off, c) L)"
    "\<forall>x \<in> L. \<forall>a \<in> block_bytes x. mem s' a = mem s a" "seq' = u32_add seq 1"
    "block_at s' off (sizeof_AppMsg + length (pb_bytes msg)) =
       encode_AppMsg (base + off + sizeof_AppMsg) (packed_msg seq co_id typ msg_id (pb_bytes msg)
         (block_at s1 off (sizeof_AppMsg + length (pb_bytes msg))))"
proof -
  let ?d = "length (pb_bytes msg)" let ?n = "sizeof_AppMsg + ?d"
  have n: "?n \<le> 2 ^ 31" "?n < 2 ^ 32" "?d mod 2 ^ 32 = ?d"
    using assms(3) by (simp_all add: sizeof_AppMsg_def sizeof_Header_def)
  then have pl: "u32_add sizeof_AppMsg ?d = ?n" by (simp add: uadd_small)
  obtain msg_id off s1 where a: "ids (GetShortTypeName (pb_type_name msg)) = Some msg_id"
      "Alloc (of_nat ?n) s = Some (off, s1)" "pb_serializes msg"
      "fill_pack base off ?n seq co_id typ ?d msg_id (pb_bytes msg) s1 = Some s'"
      "seq' = u32_add seq 1"
      "w = \<lparr>aw_offset = off, aw_dst = replicate 16 0, aw_pack_len = of_nat ?n\<rparr>"
    using assms(2) n(3) pl
    by (auto simp: create_pack_def Let_def split: option.splits prod.splits if_splits)
  have off: "off \<noteq> 0"
    by (rule ccontr) (use a(4) in \<open>simp add: fill_pack_def put_def\<close>)
  obtain c where c: "SizeClassIndex (Align8 (of_nat ?n)) = Some c" "(off, c) \<notin> L"
      "slab_owns B E s1 (insert (off, c) L)" "off + ?n \<le> total_size (hdr s1)"
      "\<forall>a. a \<notin> block_bytes (off, c) \<longrightarrow> a < off \<or> off + ?n \<le> a"
      "\<forall>x \<in> L. \<forall>a \<in> block_bytes x. mem s1 a = mem s a"
    by (rule alloc_block [OF assms(1) n(1) a(2) off])
  obtain t where t: "fill_pack base off ?n seq co_id typ ?d msg_id (pb_bytes msg) s1 = Some t"
      "hdr t = hdr s1" "\<forall>a. a < off \<or> off + ?n \<le> a \<longrightarrow> mem t a = mem s1 a"
      "block_at t off ?n = encode_AppMsg (base + off + sizeof_AppMsg)
         (packed_msg seq co_id typ msg_id (pb_bytes msg) (block_at s1 off ?n))"
    by (rule fill_pack_block [OF off c(4)])
  have ts: "t = s'" using t(1) a(4) by simp
  have own: "slab_owns B E s' (insert (off, c) L)"
    by (rule slab_owns_write [OF c(3), of "(off, c)"]) (use t(2,3) c(5) ts in auto)
  have "mem s' x = mem s x" if h: "y \<in> L" "x \<in> block_bytes y" for x y
  proof -
    have "x \<notin> block_bytes (off, c)"
      using slab_alloc.apart_law [OF own, of y "(off, c)"] h c(2) by auto
    then show ?thesis using t(3) c(5,6) h ts by auto
  qed
  then show thesis
    by (intro that [OF a(6,1) c(2) _ _ own _ a(5) t(4) [unfolded ts]]) (use a(6,2) c(1) in simp_all)
qed

lemma create_pack_runs:
  assumes "slab_owns B E s L" "ids (GetShortTypeName (pb_type_name msg)) = Some msg_id" "pb_serializes msg"
    "length (pb_bytes msg) \<le> 2 ^ 31 - sizeof_AppMsg" "bump (hdr s) + PAGE_SIZE \<le> E"
    "SizeClassIndex (Align8 (of_nat (sizeof_AppMsg + length (pb_bytes msg)))) = Some c"
  shows "\<exists>w seq' s'. create_pack base ids msg typ co_id seq s = Inr (Some w, seq', s')"
proof -
  let ?d = "length (pb_bytes msg)" let ?n = "sizeof_AppMsg + ?d"
  have n: "?n \<le> 2 ^ 31" "?n < 2 ^ 32" "?d mod 2 ^ 32 = ?d"
    using assms(4) by (simp_all add: sizeof_AppMsg_def sizeof_Header_def)
  then have pl: "u32_add sizeof_AppMsg ?d = ?n" by (simp add: uadd_small)
  obtain fl where fl: "slab_inv s fl L" "end_off (hdr s) = E" using assms(1) by (auto simp: slab_owns_def)
  obtain off s1 where a: "Alloc (of_nat ?n) s = Some (off, s1)" "off \<noteq> 0"
    using Alloc_spec [OF fl(1) assms(6)] assms(5) fl(2) by fastforce
  obtain c where "off + ?n \<le> total_size (hdr s1)" by (rule alloc_block [OF assms(1) n(1) a])
  from fill_pack_block [OF a(2) this] obtain s' where
      "fill_pack base off ?n seq co_id typ ?d msg_id (pb_bytes msg) s1 = Some s'" by metis
  then show ?thesis using assms(2,3) n(3) pl a(1) by (simp add: create_pack_def Let_def)
qed

section \<open>Properties\<close>

text \<open>
  C16: A packet built for a client, sent as it lies in the slab, is decoded as exactly one message with
  the registered id, the sequence number and the serialised body; building it touches no block in use and
  dropping it gives its block back. The members that are not assigned keep what the block held before: the
  coroutine id and the two service names, which the receiver decodes, and the connection id in the header,
  which the receiver replaces by its own.
\<close>

theorem created_packet_decodes:
  assumes "slab_owns B E s L" "CreateCSPackage base ids msg seq s = Inr (Some w, seq', s')"
    "length (pb_bytes msg) < 2 ^ 16" "seq < 2 ^ 32" "\<forall>n i. ids n = Some i \<longrightarrow> i < 2 ^ 16"
  shows "\<exists>m s1 c s2. decode cid (block_at s' (aw_offset w) (sizeof_AppMsg + length (pb_bytes msg))) = ([m], [], False) \<and>
    Some (m_msg_id m) = ids (GetShortTypeName (pb_type_name msg)) \<and> m_data m = pb_bytes msg \<and>
    m_data_len m = length (pb_bytes msg) \<and> h_seq (m_header m) = seq \<and> h_type (m_header m) = 1 \<and>
    h_conn_id (m_header m) = cid \<and> seq' = u32_add seq 1 \<and>
    Alloc (aw_pack_len w) s = Some (aw_offset w, s1) \<and>
    m_co_id m = le_nat (block_at s1 (aw_offset w + 30) 8) \<and>
    m_src_name m @ m_dst_name m = block_at s1 (aw_offset w + 38) 32 \<and>
    block_at s' (aw_offset w + 10) 8 = block_at s1 (aw_offset w + 10) 8 \<and>
    slab_owns B E s' (insert (aw_offset w, c) L) \<and>
    (\<forall>x \<in> L. \<forall>a \<in> block_bytes x. mem s' a = mem s a) \<and>
    release_pack w s' = Some s2 \<and> slab_owns B E s2 L"
proof -
  let ?n = "sizeof_AppMsg + length (pb_bytes msg)"
  have len: "length (pb_bytes msg) \<le> 2 ^ 31 - sizeof_AppMsg"
    using assms(3) by (simp add: sizeof_AppMsg_def sizeof_Header_def)
  obtain off msg_id c s1 where p: "w = \<lparr>aw_offset = off, aw_dst = replicate 16 0, aw_pack_len = of_nat ?n\<rparr>"
      "ids (GetShortTypeName (pb_type_name msg)) = Some msg_id" "(off, c) \<notin> L"
      "SizeClassIndex (Align8 (aw_pack_len w)) = Some c"
      "Alloc (aw_pack_len w) s = Some (off, s1)" "slab_owns B E s' (insert (off, c) L)"
      "\<forall>x \<in> L. \<forall>a \<in> block_bytes x. mem s' a = mem s a" "seq' = u32_add seq 1"
      "block_at s' off ?n = encode_AppMsg (base + off + sizeof_AppMsg)
         (packed_msg seq None 1 msg_id (pb_bytes msg) (block_at s1 off ?n))"
    by (rule create_pack_block [OF assms(1) assms(2)[unfolded CreateCSPackage_def] len])
  let ?m = "packed_msg seq None 1 msg_id (pb_bytes msg) (block_at s1 off ?n)"
  have wf: "msg_wf ?m"
    by (rule packed_msg_wf [of off _ "off + ?n"]) (use assms(3,4) assms(5) p(2) in simp_all)
  have dec: "decode cid (block_at s' off ?n) = ([received_as cid ?m], [], False)"
    using decode_encode [OF wf, of cid "base + off + sizeof_AppMsg" "[]"] decode_stream [of "[]" cid]
    by (simp add: p(9))
  have names: "take 16 (drop 38 (block_at s1 off ?n)) @ take 16 (drop 54 (block_at s1 off ?n)) =
      block_at s1 (off + 38) 32"
    by (rule nth_equalityI)
      (auto simp: block_at_def sizeof_AppMsg_def sizeof_Header_def nth_append add.assoc)
  have part: "take k (drop o' (block_at t off ?n)) = block_at t (off + o') k" if "o' + k \<le> sizeof_AppMsg" for o' k t
    using that by (intro nth_equalityI) (auto simp: block_at_def nth_append add.assoc)
  have co: "field 30 8 (block_at s1 off ?n) = le_nat (block_at s1 (off + 30) 8)"
    using part [of 30 8 s1] by (simp add: field_def sizeof_AppMsg_def sizeof_Header_def)
  have "length (block_at s1 off ?n) = ?n" by (simp add: block_at_def)
  then have "take 8 (drop 10 (encode_AppMsg (base + off + sizeof_AppMsg) ?m)) = take 8 (drop 10 (block_at s1 off ?n))"
    by (simp add: encode_AppMsg_def encode_header_def packed_msg_def field_def le_bytes_le_nat sizeof_AppMsg_def sizeof_Header_def)
  then have conn: "block_at s' (off + 10) 8 = block_at s1 (off + 10) 8"
    using part [of 10 8 s'] part [of 10 8 s1] p(9) by (simp add: sizeof_AppMsg_def sizeof_Header_def)
  have rel: "\<exists>s2. Free off (aw_pack_len w) s' = Some s2 \<and> slab_owns B E s2 (insert (off, c) L - {(off, c)})"
    using slab_release_law [OF p(6,4)] by blast
  then obtain s2 where s2: "release_pack w s' = Some s2" "slab_owns B E s2 L"
    using p(1,3) by (auto simp: release_pack_def)
  have "Some (m_msg_id (received_as cid ?m)) = ids (GetShortTypeName (pb_type_name msg)) \<and>
      m_data (received_as cid ?m) = pb_bytes msg \<and> m_data_len (received_as cid ?m) = length (pb_bytes msg) \<and>
      h_seq (m_header (received_as cid ?m)) = seq \<and> h_type (m_header (received_as cid ?m)) = 1 \<and>
      h_conn_id (m_header (received_as cid ?m)) = cid \<and>
      m_co_id (received_as cid ?m) = le_nat (block_at s1 (off + 30) 8) \<and>
      m_src_name (received_as cid ?m) @ m_dst_name (received_as cid ?m) = block_at s1 (off + 38) 32"
    using names co p(2) by (simp add: received_as_def packed_msg_def)
  then show ?thesis
    using dec p(5-8) s2 conn
    by (intro exI [of _ "received_as cid ?m"] exI [of _ s1] exI [of _ c] exI [of _ s2]) (simp add: p(1))
qed

text \<open>
  A message whose body has more than 8122 bytes crashes the sender: no size class holds the
  packet, the allocator returns offset zero, and the stores go through a null pointer. Forwarding such
  a message fails cleanly instead.
\<close>

theorem large_message_crashes:
  assumes "slab_owns B E s L" "ids (GetShortTypeName (pb_type_name msg)) = Some msg_id"
    and "8192 - sizeof_AppMsg < length (pb_bytes msg)" "length (pb_bytes msg) \<le> 2 ^ 31 - sizeof_AppMsg - 8"
  shows "CreateSSPack base ids msg typ co_id seq s = Inl Undefined \<and>
    CreateCSPackage base ids msg seq s = Inl Undefined \<and>
    (\<forall>src data. field 20 2 src = length (pb_bytes msg) \<longrightarrow>
       ForwardRawAppMsg base src data dst s = Inr (None, s))"
proof -
  let ?d = "length (pb_bytes msg)" let ?n = "sizeof_AppMsg + ?d"
  have n: "8192 < ?n" "?n \<le> 2 ^ 31 - 8" "?n < 2 ^ 32" "?d mod 2 ^ 32 = ?d"
    using assms(3,4) by (simp_all add: sizeof_AppMsg_def sizeof_Header_def)
  then have pl: "u32_add sizeof_AppMsg ?d = ?n" by (simp add: uadd_small)
  have "unat (of_nat k :: 32 word) = k" if "k < 2 ^ 32" for k using that by (simp add: unat_of_nat)
  then have u: "unat (of_nat ?n :: 32 word) = ?n" using n(3) by blast
  have "unat (Align8 (of_nat ?n)) = (?n + 7) div 8 * 8"
    using Align8_eq [of "of_nat ?n"] n by (simp only: u) simp
  moreover have "?n \<le> (?n + 7) div 8 * 8" by presburger
  moreover have "(?n + 7) div 8 * 8 \<le> ?n + 7" by (rule div_times_less_eq_dividend)
  ultimately have "SizeClassIndex (Align8 (of_nat ?n)) = None"
    using n by (intro pow2ceil_large) auto
  then have a: "Alloc (of_nat ?n) s = Some (0, s)" by (simp add: Alloc_def)
  have "create_pack base ids msg ty co seq s = Inl Undefined" for ty co
    using assms(2) n(4) pl a by (simp add: create_pack_def Let_def fill_pack_def put_def)
  then show ?thesis
    using pl a by (simp add: CreateSSPack_def CreateCSPackage_def ForwardRawAppMsg_def Let_def)
qed

definition demo_ids :: "string \<Rightarrow> nat option" where
  "demo_ids n = (if n = ''Heart'' then Some 0 else None)"

definition demo_pb :: "8 word list \<Rightarrow> pb_message" where
  "demo_pb b = \<lparr>pb_type_name = ''cs.Heart'', pb_bytes = b, pb_serializes = True\<rparr>"

lemma demo_slab:
  obtains s where "ShmSlab_ctor True 200000 64 190000 blank_slab = Some s"
    "slab_owns 64 190064 s {}" "bump (hdr s) + PAGE_SIZE \<le> 190064"
proof -
  obtain s where s: "ShmSlab_ctor True 200000 64 190000 blank_slab = Some s"
      "slab_owns 64 (64 + 190000) s {}" "bump (hdr s) = 64 + sizeof_SlabHeader"
    by (rule ctor_owns [of 190000 64 200000 blank_slab]) (simp_all add: sizeof_SlabHeader_def PAGE_SIZE_def)
  then show thesis by (intro that [OF s(1)]) (simp_all add: sizeof_SlabHeader_def PAGE_SIZE_def)
qed

lemma demo_short: "demo_ids (GetShortTypeName (pb_type_name (demo_pb b))) = Some 0"
  by (simp add: demo_ids_def demo_pb_def GetShortTypeName_def)

theorem created_packet_decodes_witness:
  "\<exists>s w seq' s' m. ShmSlab_ctor True 200000 64 190000 blank_slab = Some s \<and>
     CreateCSPackage 4096 demo_ids (demo_pb [1, 2]) 5 s = Inr (Some w, seq', s') \<and>
     decode 9 (block_at s' (aw_offset w) 72) = ([m], [], False) \<and> m_data m = [1, 2] \<and>
     h_seq (m_header m) = 5"
proof -
  obtain s where s: "ShmSlab_ctor True 200000 64 190000 blank_slab = Some s"
      "slab_owns 64 190064 s {}" "bump (hdr s) + PAGE_SIZE \<le> 190064" by (rule demo_slab)
  have "SizeClassIndex (Align8 72) = Some 3"
    by (simp_all add: SizeClassIndex_def Align8_def pow2ceil_def Let_def class_loop.simps MAX_CLASSES_def
        word_le_nat_alt)
  then have c: "SizeClassIndex (Align8 (of_nat (sizeof_AppMsg + length (pb_bytes (demo_pb [1, 2]))))) = Some 3"
    by (simp add: demo_pb_def sizeof_AppMsg_def sizeof_Header_def)
  obtain w seq' s' where r: "CreateCSPackage 4096 demo_ids (demo_pb [1, 2]) 5 s = Inr (Some w, seq', s')"
    using create_pack_runs [of 64 190064 s "{}" demo_ids "demo_pb [1, 2]" 0 3 4096 1 None 5, OF s(2) demo_short _ _ s(3) c]
    by (auto simp: CreateCSPackage_def demo_pb_def sizeof_AppMsg_def sizeof_Header_def)
  have "length (pb_bytes (demo_pb [1, 2])) < 2 ^ 16" "(5 :: nat) < 2 ^ 32"
      "\<forall>n i. demo_ids n = Some i \<longrightarrow> i < 2 ^ 16" by (simp_all add: demo_pb_def demo_ids_def)
  from created_packet_decodes [of 64 190064 s "{}" 4096 demo_ids "demo_pb [1, 2]" 5 w seq' s' 9, OF s(2) r this]
  have "\<exists>m. decode 9 (block_at s' (aw_offset w) (sizeof_AppMsg + length (pb_bytes (demo_pb [1, 2])))) = ([m], [], False) \<and>
      m_data m = pb_bytes (demo_pb [1, 2]) \<and> h_seq (m_header m) = 5"
    by blast
  then show ?thesis using s(1) r by (auto simp: demo_pb_def sizeof_AppMsg_def sizeof_Header_def)
qed

theorem large_message_crashes_witness:
  "\<exists>s. ShmSlab_ctor True 200000 64 190000 blank_slab = Some s \<and>
     CreateCSPackage 4096 demo_ids (demo_pb (replicate 8123 0)) 5 s = Inl Undefined"
proof -
  obtain s where s: "ShmSlab_ctor True 200000 64 190000 blank_slab = Some s"
      "slab_owns 64 190064 s {}" by (rule demo_slab)
  have "CreateCSPackage 4096 demo_ids (demo_pb (replicate 8123 0)) 5 s = Inl Undefined"
    using large_message_crashes [of 64 190064 s "{}" demo_ids "demo_pb (replicate 8123 0)" 0, OF s(2) demo_short]
    by (simp add: demo_pb_def sizeof_AppMsg_def sizeof_Header_def)
  then show ?thesis using s(1) by blast
qed

end
