(* ===== verification/LoadBalancer.thy ===== *)
theory LoadBalancer
  imports Prelude "HOL-Library.AList"
begin

text \<open>
  The nine load-balancing strategies and their factory (server/common/LoadBalancer.h,
  LoadBalancer.cpp, ServiceInstance.h). \<open>ServiceInstances\<close> and the node table of the smooth strategy
  are hash maps that are iterated over, so they are association lists in iteration order. The hash of a
  string and the random roll are parameters. Counters are \<open>uint64_t\<close>; the running weight of a
  node ins an \<open>int64_t\<close>. The locale \<open>balancer\<close> ins the interface \<open>ILoadBalancer\<close>.
\<close>

section \<open>Instances\<close>

record service_instance =
  si_id :: string
  si_svc_name :: string
  si_address :: string
  si_port :: nat
  si_weight :: nat
  si_shm_recv_buffer_name :: string
  si_metadata :: "(string \<times> string) list"
  si_healthy :: bool
  si_connections :: nat
  si_last_seen :: nat
  si_avg_latency_us :: nat
  si_cpu_percent :: nat
  si_load_score :: nat

type_synonym service_instances = "(string \<times> service_instance) list"

section \<open>Strategies\<close>

definition RoundRobin_select ::
  "nat \<Rightarrow> service_instances \<Rightarrow> string \<Rightarrow> nat \<times> service_instance option" where
  "RoundRobin_select idx instances key =
     (if instances = [] then (idx, None)
      else if key \<noteq> '''' then (idx, map_of instances key)
      else (uadd 64 idx 1, Some (snd (instances ! (idx mod length instances)))))"

definition WeightedRR_wheel :: "service_instances \<Rightarrow> service_instance list" where
  "WeightedRR_wheel instances =
     concat (map (\<lambda>(k, i). replicate (max 1 (si_weight i)) i) instances)"

definition WeightedRR_select ::
  "nat \<Rightarrow> service_instances \<Rightarrow> string \<Rightarrow> nat \<times> service_instance option" where
  "WeightedRR_select idx instances key =
     (if instances = [] then (idx, None)
      else let wheel = WeightedRR_wheel instances in
        if wheel = [] then (idx, None)
        else (uadd 64 idx 1, Some (wheel ! (idx mod length wheel))))"

text \<open>The loop of the four strategies that compare instances: \<open>best\<close> ins null or holds \<open>bv\<close>.\<close>

fun scan_best ::
  "(nat \<Rightarrow> nat \<Rightarrow> bool) \<Rightarrow> (service_instance \<Rightarrow> nat) \<Rightarrow> service_instances \<Rightarrow>
     service_instance option \<Rightarrow> nat \<Rightarrow> service_instance option" where
  "scan_best better f [] best bv = best"
| "scan_best better f ((k, i) # ins) best bv =
     (if best = None \<or> better (f i) bv then scan_best better f ins (Some i) (f i)
      else scan_best better f ins best bv)"

definition LeastConn_select :: "service_instances \<Rightarrow> string \<Rightarrow> service_instance option" where
  "LeastConn_select instances key =
     (if instances = [] then None
      else scan_best (<) si_connections instances None (2 ^ 64 - 1))"

definition ConsistentHash_select ::
  "(string \<Rightarrow> nat) \<Rightarrow> service_instances \<Rightarrow> string \<Rightarrow> service_instance option" where
  "ConsistentHash_select hash instances key =
     (if instances = [] then None
      else if key = '''' then snd (RoundRobin_select 0 instances '''')
      else Some (snd (instances ! (hash key mod length instances))))"

definition latency_of :: "service_instance \<Rightarrow> nat" where
  "latency_of i = (if si_avg_latency_us i = 0 then (2 ^ 64 - 1) div 2 else si_avg_latency_us i)"

definition LatencyAware_select :: "service_instances \<Rightarrow> string \<Rightarrow> service_instance option" where
  "LatencyAware_select instances key =
     (if instances = [] then None else scan_best (<) latency_of instances None (2 ^ 64 - 1))"

definition load_weight :: "service_instance \<Rightarrow> nat" where
  "load_weight i = (if si_load_score i > 0 then si_load_score i else 1)"

fun roll_wheel :: "service_instances \<Rightarrow> nat \<Rightarrow> nat \<Rightarrow> service_instance option \<Rightarrow> service_instance option" where
  "roll_wheel [] acc roll prev = prev"
| "roll_wheel ((k, i) # ins) acc roll prev =
     (let acc' = uadd 64 acc (load_weight i)
      in if roll < acc' then Some i else roll_wheel ins acc' roll (Some i))"

text \<open>\<open>rng total\<close> ins the number drawn from \<open>[0, total)\<close>.\<close>

definition WeightedLoad_select ::
  "(nat \<Rightarrow> nat) \<Rightarrow> service_instances \<Rightarrow> string \<Rightarrow> service_instance option" where
  "WeightedLoad_select rng instances key =
     (if instances = [] then None
      else let tot = fold (\<lambda>(k, i) t. uadd 64 t (load_weight i)) instances 0 in
        if tot = 0 then Some (snd (hd instances))
        else roll_wheel instances 0 (rng tot) None)"

definition LeastLoad_select :: "service_instances \<Rightarrow> string \<Rightarrow> service_instance option" where
  "LeastLoad_select instances key =
     (if instances = [] then None else scan_best (<) si_load_score instances None (2 ^ 32 - 1))"

definition MostLoad_select :: "service_instances \<Rightarrow> string \<Rightarrow> service_instance option" where
  "MostLoad_select instances key =
     (if instances = [] then None else scan_best (>) si_load_score instances None 0)"

section \<open>Smooth weighted round robin\<close>

record lb_node =
  n_weight :: nat
  n_current :: int
  n_effective_weight :: nat

type_synonym lb_nodes = "(string \<times> lb_node) list"

definition s64 :: "int \<Rightarrow> int" where
  "s64 x = (x + 2 ^ 63) mod 2 ^ 64 - 2 ^ 63"

text \<open>First pass: unknown instances get a node, known ones their new weight; \<open>total\<close> adds up.\<close>

fun smooth_update :: "service_instances \<Rightarrow> lb_nodes \<Rightarrow> nat \<Rightarrow> lb_nodes \<times> nat" where
  "smooth_update [] nodes tot = (nodes, tot)"
| "smooth_update ((k, p) # ins) nodes tot =
     (let w = max 1 (si_weight p);
          n = (case map_of nodes (si_id p) of
                 None \<Rightarrow> \<lparr>n_weight = w, n_current = 0, n_effective_weight = w\<rparr>
               | Some n \<Rightarrow> n\<lparr>n_weight := w\<rparr>)
      in smooth_update ins (AList.update (si_id p) n nodes) (uadd 64 tot (n_effective_weight n)))"

fun smooth_add :: "service_instances \<Rightarrow> lb_nodes \<Rightarrow> lb_nodes" where
  "smooth_add [] nodes = nodes"
| "smooth_add ((k, p) # ins) nodes =
     smooth_add ins (case map_of nodes (si_id p) of
        None \<Rightarrow> nodes
      | Some n \<Rightarrow> AList.update (si_id p) (n\<lparr>n_current := s64 (n_current n + int (n_effective_weight n))\<rparr>) nodes)"

fun smooth_best :: "lb_nodes \<Rightarrow> string \<Rightarrow> int \<Rightarrow> string" where
  "smooth_best [] best_id best_current = best_id"
| "smooth_best ((k, n) # ns) best_id best_current =
     (if n_current n > best_current then smooth_best ns k (n_current n)
      else smooth_best ns best_id best_current)"

definition SmoothWeightedRR_select ::
  "lb_nodes \<Rightarrow> service_instances \<Rightarrow> string \<Rightarrow> lb_nodes \<times> service_instance option" where
  "SmoothWeightedRR_select nodes instances key =
     (if instances = [] then (nodes, None)
      else
        let (nodes1, tot) = smooth_update instances nodes 0;
            alive = map (\<lambda>(k, p). si_id p) instances;
            nodes2 = filter (\<lambda>(k, n). k \<in> set alive) nodes1;
            nodes3 = smooth_add instances nodes2;
            best_id = smooth_best nodes3 '''' (- (2 ^ 63))
        in if best_id = '''' then (nodes3, None)
           else
             (case map_of nodes3 best_id of
                None \<Rightarrow> (nodes3, None)
              | Some n \<Rightarrow>
                  (AList.update best_id (n\<lparr>n_current := s64 (n_current n - int tot)\<rparr>) nodes3,
                   map_of instances best_id)))"

section \<open>The factory\<close>

datatype lb_strategy =
    RoundRobin | WeightedRR | LeastConn | ConsHash | SmoothWeighted | LatencyAware
  | WeightedLoad | LeastLoad | MostLoad

datatype lb_instance =
    LB_RoundRobin nat
  | LB_WeightedRR nat
  | LB_LeastConn
  | LB_ConsistentHash
  | LB_SmoothWeightedRR lb_nodes
  | LB_LatencyAware
  | LB_WeightedLoad
  | LB_LeastLoad
  | LB_MostLoad

definition LBFactory_ctor :: "string \<rightharpoonup> lb_instance" where
  "LBFactory_ctor =
     [''round_robin'' \<mapsto> LB_RoundRobin 0, ''weighted_rr'' \<mapsto> LB_WeightedRR 0, ''least_conn'' \<mapsto> LB_LeastConn,
      ''cons_hash'' \<mapsto> LB_ConsistentHash, ''smooth_weighted'' \<mapsto> LB_SmoothWeightedRR [],
      ''latency_aware'' \<mapsto> LB_LatencyAware, ''weighted_load'' \<mapsto> LB_WeightedLoad,
      ''least_load'' \<mapsto> LB_LeastLoad, ''most_load'' \<mapsto> LB_MostLoad]"

definition register_factory ::
  "string \<Rightarrow> lb_instance \<Rightarrow> (string \<rightharpoonup> lb_instance) \<Rightarrow> (string \<rightharpoonup> lb_instance)" where
  "register_factory name c factory = factory(name \<mapsto> c)"

text \<open>Calling a missing creator is calling an empty \<open>std::function\<close>, which throws.\<close>

definition create_by_name :: "string \<Rightarrow> (string \<rightharpoonup> lb_instance) \<Rightarrow> fault + lb_instance" where
  "create_by_name name factory =
     (case factory name of
        None \<Rightarrow> (case factory ''round_robin'' of None \<Rightarrow> Inl Thrown | Some c \<Rightarrow> Inr c)
      | Some c \<Rightarrow> Inr c)"

fun strategy_name :: "lb_strategy \<Rightarrow> string" where
  "strategy_name RoundRobin = ''round_robin''"
| "strategy_name WeightedRR = ''weighted_rr''"
| "strategy_name LeastConn = ''least_conn''"
| "strategy_name ConsHash = ''cons_hash''"
| "strategy_name SmoothWeighted = ''smooth_weighted''"
| "strategy_name LatencyAware = ''latency_aware''"
| "strategy_name WeightedLoad = ''weighted_load''"
| "strategy_name LeastLoad = ''least_load''"
| "strategy_name MostLoad = ''most_load''"

definition create_by_strategy :: "lb_strategy \<Rightarrow> (string \<rightharpoonup> lb_instance) \<Rightarrow> fault + lb_instance" where
  "create_by_strategy strategy factory =
     (case factory (strategy_name strategy) of None \<Rightarrow> Inl Thrown | Some c \<Rightarrow> Inr c)"

text \<open>\<open>select\<close>, dispatched on the class of the object; the hash and the roll are parameters.\<close>

definition lb_select ::
  "(string \<Rightarrow> nat) \<Rightarrow> (nat \<Rightarrow> nat) \<Rightarrow> lb_instance \<Rightarrow> service_instances \<Rightarrow> string \<Rightarrow>
     lb_instance \<times> service_instance option" where
  "lb_select hash rng lb instances key =
     (case lb of
        LB_RoundRobin idx \<Rightarrow> map_prod LB_RoundRobin id (RoundRobin_select idx instances key)
      | LB_WeightedRR idx \<Rightarrow> map_prod LB_WeightedRR id (WeightedRR_select idx instances key)
      | LB_LeastConn \<Rightarrow> (lb, LeastConn_select instances key)
      | LB_ConsistentHash \<Rightarrow> (lb, ConsistentHash_select hash instances key)
      | LB_SmoothWeightedRR nodes \<Rightarrow>
          map_prod LB_SmoothWeightedRR id (SmoothWeightedRR_select nodes instances key)
      | LB_LatencyAware \<Rightarrow> (lb, LatencyAware_select instances key)
      | LB_WeightedLoad \<Rightarrow> (lb, WeightedLoad_select rng instances key)
      | LB_LeastLoad \<Rightarrow> (lb, LeastLoad_select instances key)
      | LB_MostLoad \<Rightarrow> (lb, MostLoad_select instances key))"

section \<open>Comparing strategies\<close>

text \<open>The loop finds a best instance for every strict comparison that comes from an order on integers.\<close>

lemma scan_best_best:
  fixes h :: "nat \<Rightarrow> int"
  assumes "\<And>a b. better a b \<longleftrightarrow> h a < h b"
    and "best = None \<or> (\<exists>b0. best = Some b0 \<and> bv = f b0)"
  shows "case scan_best better f ins best bv of
     None \<Rightarrow> ins = [] \<and> best = None
   | Some b \<Rightarrow> (best = Some b \<or> b \<in> snd ` set ins) \<and> (\<forall>i \<in> snd ` set ins. h (f b) \<le> h (f i)) \<and>
        (\<forall>b0. best = Some b0 \<and> bv = f b0 \<longrightarrow> h (f b) \<le> h (f b0))"
  using assms
proof (induction better f ins best bv rule: scan_best.induct)
  case (2 better f k i ins best bv)
  show ?case
  proof (cases "best = None \<or> better (f i) bv")
    case True
    have "case scan_best better f ins (Some i) (f i) of None \<Rightarrow> ins = [] \<and> Some i = None
        | Some b \<Rightarrow> (Some i = Some b \<or> b \<in> snd ` set ins) \<and> (\<forall>j \<in> snd ` set ins. h (f b) \<le> h (f j)) \<and>
            (\<forall>b0. Some i = Some b0 \<and> f i = f b0 \<longrightarrow> h (f b) \<le> h (f b0))"
      by (rule 2(1) [OF True 2(3)]) simp
    moreover have "\<forall>b0. best = Some b0 \<and> bv = f b0 \<longrightarrow> h (f i) \<le> h (f b0)"
      using True 2(3) [of "f i" bv] by auto
    ultimately show ?thesis using True by (auto split: option.splits intro: order_trans)
  next
    case False
    have "case scan_best better f ins best bv of None \<Rightarrow> ins = [] \<and> best = None
        | Some b \<Rightarrow> (best = Some b \<or> b \<in> snd ` set ins) \<and> (\<forall>j \<in> snd ` set ins. h (f b) \<le> h (f j)) \<and>
            (\<forall>b0. best = Some b0 \<and> bv = f b0 \<longrightarrow> h (f b) \<le> h (f b0))"
      by (rule 2(2) [OF False 2(3,4)])
    moreover have "\<forall>b0. best = Some b0 \<and> bv = f b0 \<longrightarrow> h (f b0) \<le> h (f i)"
      using False 2(3) [of "f i" bv] by auto
    ultimately show ?thesis using False 2(4) by (auto split: option.splits intro: order_trans)
  qed
qed (auto split: option.splits)

lemma scan_best_chosen:
  fixes h :: "nat \<Rightarrow> int"
  assumes "\<And>a b. better a b \<longleftrightarrow> h a < h b" "instances \<noteq> []"
  obtains b where "scan_best better f instances None bv = Some b" "b \<in> snd ` set instances"
    "\<forall>i \<in> snd ` set instances. h (f b) \<le> h (f i)"
  using scan_best_best [where better = better and h = h and best = None and bv = bv and f = f and ins = instances] assms
  by (auto split: option.splits)

section \<open>Rotation ins fair\<close>

text \<open>A well-formed instance table: ids are the keys, and the weights are far below \<open>2^63\<close>.\<close>

definition weight_of :: "service_instances \<Rightarrow> string \<Rightarrow> nat" where
  "weight_of ins k = (case map_of ins k of None \<Rightarrow> 0 | Some i \<Rightarrow> max 1 (si_weight i))"

definition total_weight :: "service_instances \<Rightarrow> nat" where
  "total_weight ins = (\<Sum>k \<in> fst ` set ins. weight_of ins k)"

definition lb_wf :: "service_instances \<Rightarrow> bool" where
  "lb_wf ins \<longleftrightarrow> distinct (map fst ins) \<and> (\<forall>(k, i) \<in> set ins. si_id i = k \<and> k \<noteq> '''') \<and>
     length ins * total_weight ins < 2 ^ 62"

text \<open>The node table when every instance has its node.\<close>

definition nodes_of :: "service_instances \<Rightarrow> (string \<Rightarrow> int) \<Rightarrow> lb_nodes" where
  "nodes_of ins cur = map (\<lambda>(k, i). (k, \<lparr>n_weight = max 1 (si_weight i), n_current = cur k,
     n_effective_weight = max 1 (si_weight i)\<rparr>)) ins"

lemma nodes_of_keys: "map fst (nodes_of ins cur) = map fst ins"
  by (induction ins) (auto simp: nodes_of_def)

lemma nodes_of_get:
  "map_of (nodes_of ins cur) k = map_option (\<lambda>i. \<lparr>n_weight = max 1 (si_weight i), n_current = cur k,
     n_effective_weight = max 1 (si_weight i)\<rparr>) (map_of ins k)"
  by (induction ins) (auto simp: nodes_of_def)

lemma nodes_of_cong: "(\<And>k. k \<in> fst ` set ins \<Longrightarrow> cur k = cur' k) \<Longrightarrow> nodes_of ins cur = nodes_of ins cur'"
  by (induction ins) (auto simp: nodes_of_def)

lemma nodes_of_update:
  assumes "distinct (map fst ins)" "map_of ins k = Some i"
  shows "AList.update k \<lparr>n_weight = max 1 (si_weight i), n_current = x,
     n_effective_weight = max 1 (si_weight i)\<rparr> (nodes_of ins cur) = nodes_of ins (cur(k := x))"
  using assms
proof (induction ins)
  case (Cons a ins)
  obtain k' i' where a: "a = (k', i')" by (cases a)
  have "nodes_of ins (cur(k := x)) = nodes_of ins cur" if "k' = k"
    using Cons.prems(1) a that by (intro nodes_of_cong) auto
  then show ?case using Cons a by (auto simp: nodes_of_def split: if_splits)
qed simp

lemma s64_small: "- (2 ^ 63) \<le> x \<Longrightarrow> x < 2 ^ 63 \<Longrightarrow> s64 x = x"
  by (simp add: s64_def)

lemma weight_of_entry: "distinct (map fst ins) \<Longrightarrow> (k, i) \<in> set ins \<Longrightarrow> weight_of ins k = max 1 (si_weight i)"
  by (simp add: weight_of_def)

lemma smooth_update_known:
  assumes "lb_wf ins" "set js \<subseteq> set ins" "distinct (map fst js)" "t + (\<Sum>k \<in> fst ` set js. weight_of ins k) < 2 ^ 64"
  shows "smooth_update js (nodes_of ins cur) t = (nodes_of ins cur, t + (\<Sum>k \<in> fst ` set js. weight_of ins k))"
  using assms(2-)
proof (induction js arbitrary: t)
  case (Cons a js)
  obtain k i where a: "a = (k, i)" by (cases a)
  have w: "distinct (map fst ins)" "(k, i) \<in> set ins" "si_id i = k" "map_of ins k = Some i"
    using assms(1) Cons.prems a by (auto simp: lb_wf_def)
  have u: "AList.update k \<lparr>n_weight = max 1 (si_weight i), n_current = cur k,
      n_effective_weight = max 1 (si_weight i)\<rparr> (nodes_of ins cur) = nodes_of ins cur"
    using nodes_of_update [OF w(1,4), of "cur k" cur] by simp
  have s: "(\<Sum>k \<in> fst ` set (a # js). weight_of ins k) = weight_of ins k + (\<Sum>k \<in> fst ` set js. weight_of ins k)"
    using Cons.prems(2) a by (subst sum.insert [symmetric]) auto
  show ?case
    using Cons.IH [of "t + weight_of ins k"] Cons.prems s w u
    by (simp add: a nodes_of_get uadd_small weight_of_entry [OF w(1,2)] Let_def add.assoc)
qed simp

lemma smooth_update_new:
  assumes "distinct (map fst js)" "\<forall>(k, i) \<in> set js. si_id i = k" "fst ` set js \<inter> fst ` set nodes = {}"
    "t + (\<Sum>k \<in> fst ` set js. weight_of js k) < 2 ^ 64"
  shows "smooth_update js nodes t =
     (nodes @ nodes_of js (\<lambda>_. 0), t + (\<Sum>k \<in> fst ` set js. weight_of js k))"
  using assms
proof (induction js arbitrary: nodes t)
  case (Cons a js)
  obtain k i where a: "a = (k, i)" by (cases a)
  have k: "si_id i = k" "k \<notin> fst ` set nodes" "k \<notin> fst ` set js"
    using Cons.prems a by auto
  have app: "AList.update k n nodes = nodes @ [(k, n)]" for n
    using k(2) by (induction nodes) auto
  have "map_of nodes k = None" using k(2) by (simp add: map_of_eq_None_iff)
  moreover have "(\<Sum>k \<in> fst ` set (a # js). weight_of (a # js) k) =
      max 1 (si_weight i) + (\<Sum>k \<in> fst ` set js. weight_of js k)"
  proof -
    have "(\<Sum>x \<in> fst ` set js. weight_of (a # js) x) = (\<Sum>x \<in> fst ` set js. weight_of js x)"
      using k(3) a by (intro sum.cong) (auto simp: weight_of_def)
    then show ?thesis using k(3) a by (simp add: weight_of_def)
  qed
  ultimately show ?case
    using Cons.IH [of "nodes @ [(k, \<lparr>n_weight = max 1 (si_weight i), n_current = 0,
        n_effective_weight = max 1 (si_weight i)\<rparr>)]" "t + max 1 (si_weight i)"] Cons.prems k app
    by (simp add: a uadd_small Let_def nodes_of_def add.assoc)
qed (simp add: nodes_of_def)

lemma smooth_add_nodes:
  assumes "lb_wf ins" "set js \<subseteq> set ins" "distinct (map fst js)"
    and "\<forall>k \<in> fst ` set js. - (2 ^ 62) \<le> cur k \<and> cur k < 2 ^ 62" "\<forall>k \<in> fst ` set ins. weight_of ins k < 2 ^ 62"
  shows "smooth_add js (nodes_of ins cur) =
    nodes_of ins (\<lambda>k. if k \<in> fst ` set js then cur k + int (weight_of ins k) else cur k)"
  using assms(2-4)
proof (induction js arbitrary: cur)
  case (Cons a js)
  obtain k i where a: "a = (k, i)" by (cases a)
  have w: "distinct (map fst ins)" "(k, i) \<in> set ins" "si_id i = k" "map_of ins k = Some i"
    using assms(1) Cons.prems a by (auto simp: lb_wf_def)
  have u: "AList.update k \<lparr>n_weight = max 1 (si_weight i), n_current = x, n_effective_weight = max 1 (si_weight i)\<rparr>
      (nodes_of ins cur) = nodes_of ins (cur(k := x))" for x
    by (rule nodes_of_update [OF w(1,4)])
  have k: "k \<in> fst ` set ins" "k \<notin> fst ` set js" using w(2) Cons.prems(2) a by force+
  let ?cur = "cur(k := cur k + int (weight_of ins k))"
  have b: "- (2 ^ 62) \<le> cur k" "cur k < 2 ^ 62" "weight_of ins k < 2 ^ 62"
    using Cons.prems(3) assms(5) k(1) a by auto
  then have s: "s64 (cur k + int (weight_of ins k)) = cur k + int (weight_of ins k)" by (intro s64_small) auto
  have "smooth_add (a # js) (nodes_of ins cur) = smooth_add js (nodes_of ins ?cur)"
    unfolding a using w s by (simp add: u [simplified] nodes_of_get weight_of_entry [OF w(1,2)])
  also have "\<dots> = nodes_of ins (\<lambda>k'. if k' \<in> fst ` set js then ?cur k' + int (weight_of ins k') else ?cur k')"
    by (rule Cons.IH) (use Cons.prems k(2) in auto)
  also have "\<dots> = nodes_of ins (\<lambda>k'. if k' \<in> fst ` set (a # js) then cur k' + int (weight_of ins k') else cur k')"
    using k(2) a by (intro nodes_of_cong) auto
  finally show ?case .
qed simp

lemma smooth_best_step:
  "(smooth_best ns b v = b \<and> (\<forall>x \<in> set ns. n_current (snd x) \<le> v)) \<or>
   (\<exists>n. (smooth_best ns b v, n) \<in> set ns \<and> v < n_current n \<and>
      (\<forall>x \<in> set ns. n_current (snd x) \<le> n_current n))"
proof (induction ns b v rule: smooth_best.induct)
  case (2 k n ns b v)
  show ?case
  proof (cases "n_current n > v")
    case True
    consider "smooth_best ns k (n_current n) = k" "\<forall>x \<in> set ns. n_current (snd x) \<le> n_current n"
      | m where "(smooth_best ns k (n_current n), m) \<in> set ns" "n_current n < n_current m"
          "\<forall>x \<in> set ns. n_current (snd x) \<le> n_current m"
      using 2(1) [OF True] by blast
    then show ?thesis
    proof cases
      case 1
      then show ?thesis using True by (intro disjI2 exI [of _ n]) simp
    next
      case 2
      then show ?thesis using True by (intro disjI2 exI [of _ m]) simp
    qed
  next
    case False
    consider "smooth_best ns b v = b" "\<forall>x \<in> set ns. n_current (snd x) \<le> v"
      | m where "(smooth_best ns b v, m) \<in> set ns" "v < n_current m"
          "\<forall>x \<in> set ns. n_current (snd x) \<le> n_current m"
      using 2(2) [OF False] by blast
    then show ?thesis
    proof cases
      case 1
      then show ?thesis using False by (intro disjI1) simp
    next
      case 2
      then show ?thesis using False by (intro disjI2 exI [of _ m]) simp
    qed
  qed
qed simp

lemma smooth_best_spec:
  assumes "ns \<noteq> []" "\<forall>x \<in> set ns. - (2 ^ 63) < n_current (snd x)"
  obtains k n where "smooth_best ns '''' (- (2 ^ 63)) = k" "(k, n) \<in> set ns"
    "\<forall>x \<in> set ns. n_current (snd x) \<le> n_current n"
proof -
  have "\<not> (\<forall>x \<in> set ns. n_current (snd x) \<le> - (2 ^ 63))"
    using assms by (metis hd_in_set not_le)
  then show thesis
    using smooth_best_step [of ns "''''" "- (2 ^ 63)"] that by blast
qed

text \<open>One selection when every instance has its node: the largest raised weight wins and pays.\<close>

definition raised :: "service_instances \<Rightarrow> (string \<Rightarrow> int) \<Rightarrow> string \<Rightarrow> int" where
  "raised ins cur k = cur k + int (weight_of ins k)"

lemma weight_le_total: "k \<in> fst ` set ins \<Longrightarrow> weight_of ins k \<le> total_weight ins"
  unfolding total_weight_def by (rule member_le_sum) auto

lemma total_weight_pos: "ins \<noteq> [] \<Longrightarrow> 0 < total_weight ins"
proof -
  assume "ins \<noteq> []"
  then obtain k i xs where ins: "ins = (k, i) # xs" by (cases ins) auto
  then have "0 < weight_of ins k" by (simp add: weight_of_def)
  also have "\<dots> \<le> total_weight ins" using ins by (intro weight_le_total) simp
  finally show ?thesis .
qed

lemma smooth_select_step:
  assumes "lb_wf ins" "ins \<noteq> []" "total_weight ins < 2 ^ 62"
    and cur: "\<forall>k \<in> fst ` set ins. - (2 ^ 62) \<le> cur k \<and> cur k < 2 ^ 62"
    and first: "smooth_update ins nodes 0 = (nodes_of ins cur, total_weight ins)"
  obtains b i where "(b, i) \<in> set ins" "\<forall>k \<in> fst ` set ins. raised ins cur k \<le> raised ins cur b"
    "SmoothWeightedRR_select nodes ins key =
       (nodes_of ins ((raised ins cur)(b := raised ins cur b - int (total_weight ins))), Some i)"
proof -
  have d: "distinct (map fst ins)" using assms(1) by (simp add: lb_wf_def)
  have w: "\<forall>k \<in> fst ` set ins. weight_of ins k < 2 ^ 62"
    using weight_le_total assms(3) le_less_trans by blast
  have "map (\<lambda>(k, p). si_id p) ins = map fst ins" using assms(1) by (auto simp: lb_wf_def)
  then have keep: "filter (\<lambda>(k, n). k \<in> set (map (\<lambda>(k, p). si_id p) ins)) (nodes_of ins cur) = nodes_of ins cur"
    by (intro filter_True) (force simp: nodes_of_def)
  have add: "smooth_add ins (nodes_of ins cur) = nodes_of ins (raised ins cur)"
    using smooth_add_nodes [OF assms(1) order_refl d cur w]
    by simp (rule nodes_of_cong, simp add: raised_def)
  have big: "- (2 ^ 62) < raised ins cur k \<and> raised ins cur k < 2 ^ 63" if "k \<in> fst ` set ins" for k
  proof -
    have "0 < weight_of ins k" using that d by (auto simp: weight_of_entry)
    then show ?thesis using cur w that by (fastforce simp: raised_def)
  qed
  obtain b n where b: "smooth_best (nodes_of ins (raised ins cur)) '''' (- (2 ^ 63)) = b"
      "(b, n) \<in> set (nodes_of ins (raised ins cur))"
      "\<forall>x \<in> set (nodes_of ins (raised ins cur)). n_current (snd x) \<le> n_current n"
  proof (rule smooth_best_spec)
    show "nodes_of ins (raised ins cur) \<noteq> []" using assms(2) by (simp add: nodes_of_def)
    show "\<forall>x \<in> set (nodes_of ins (raised ins cur)). - (2 ^ 63) < n_current (snd x)"
      using big by (force simp: nodes_of_def)
  qed
  then obtain i where i: "(b, i) \<in> set ins" "n = \<lparr>n_weight = max 1 (si_weight i),
      n_current = raised ins cur b, n_effective_weight = max 1 (si_weight i)\<rparr>"
    by (auto simp: nodes_of_def)
  have g: "map_of ins b = Some i" "b \<noteq> ''''" "b \<in> fst ` set ins"
    using i(1) assms(1) d by (force simp: lb_wf_def)+
  have s: "s64 (raised ins cur b - int (total_weight ins)) = raised ins cur b - int (total_weight ins)"
    using big [OF g(3)] assms(3) by (intro s64_small) auto
  have "\<forall>k \<in> fst ` set ins. raised ins cur k \<le> raised ins cur b"
    using b(3) i(2) by (force simp: nodes_of_def)
  moreover have "SmoothWeightedRR_select nodes ins key =
      (nodes_of ins ((raised ins cur)(b := raised ins cur b - int (total_weight ins))), Some i)"
    using assms(2) g s
    by (simp only: SmoothWeightedRR_select_def first keep add b(1) Let_def case_prod_conv nodes_of_get
        option.map option.case if_False lb_node.select_convs lb_node.update_convs nodes_of_update [OF d g(1)])
  ultimately show thesis using that i(1) by blast
qed

text \<open>\<open>r\<close> successive selections on the same table.\<close>

primrec smooth_run :: "nat \<Rightarrow> lb_nodes \<Rightarrow> service_instances \<Rightarrow> lb_nodes \<times> service_instance option list" where
  "smooth_run 0 nodes ins = (nodes, [])"
| "smooth_run (Suc r) nodes ins =
     (case smooth_run r nodes ins of (nodes1, picks) \<Rightarrow>
        case SmoothWeightedRR_select nodes1 ins '''' of (nodes2, p) \<Rightarrow> (nodes2, picks @ [p]))"

definition rr_state :: "service_instances \<Rightarrow> nat \<Rightarrow> service_instance list \<Rightarrow> (string \<Rightarrow> int) \<Rightarrow> bool" where
  "rr_state ins r chosen cur \<longleftrightarrow>
     length chosen = r \<and> set chosen \<subseteq> snd ` set ins \<and>
     (\<forall>k \<in> fst ` set ins. - int (total_weight ins) < cur k \<and>
        cur k = int r * int (weight_of ins k) - int (total_weight ins) * int (count_list (map si_id chosen) k))"

lemma rr_state_sum:
  assumes "lb_wf ins" "rr_state ins r chosen cur"
  shows "(\<Sum>k \<in> fst ` set ins. cur k) = 0"
proof -
  let ?K = "fst ` set ins" let ?c = "count_list (map si_id chosen)"
  have "set (map si_id chosen) \<subseteq> ?K"
  proof
    fix x assume "x \<in> set (map si_id chosen)"
    then obtain i where "x = si_id i" "i \<in> set chosen" by auto
    moreover have "set chosen \<subseteq> snd ` set ins" using assms(2) by (simp add: rr_state_def)
    ultimately have "x = si_id i" "i \<in> snd ` set ins" by blast+
    then obtain k where "(k, i) \<in> set ins" "x = si_id i" by auto
    then show "x \<in> ?K" using assms(1) by (force simp: lb_wf_def)
  qed
  then have "(\<Sum>k \<in> ?K. ?c k) = r"
    using sum_count_set [of "map si_id chosen" ?K] assms(2) by (simp add: rr_state_def)
  then have c: "(\<Sum>k \<in> ?K. int (?c k)) = int r" by (metis of_nat_sum)
  have "(\<Sum>k \<in> ?K. cur k) = (\<Sum>k \<in> ?K. int r * int (weight_of ins k) - int (total_weight ins) * int (?c k))"
    using assms(2) by (intro sum.cong) (auto simp: rr_state_def)
  also have "\<dots> = int r * (\<Sum>k \<in> ?K. int (weight_of ins k)) - int (total_weight ins) * (\<Sum>k \<in> ?K. int (?c k))"
    by (simp add: sum_subtractf sum_distrib_left)
  also have "(\<Sum>k \<in> ?K. int (weight_of ins k)) = int (total_weight ins)" by (simp add: total_weight_def)
  finally show ?thesis by (simp add: c)
qed

lemma rr_state_bound:
  assumes "lb_wf ins" "rr_state ins r chosen cur" "k \<in> fst ` set ins"
  shows "- (2 ^ 62) \<le> cur k \<and> cur k < 2 ^ 62"
proof -
  let ?K = "fst ` set ins" let ?W = "int (total_weight ins)"
  have low: "- ?W < cur j" if "j \<in> ?K" for j
    using assms(2) that unfolding rr_state_def by blast
  have n: "card ?K = length ins" using assms(1) by (simp add: lb_wf_def distinct_card flip: set_map)
  have pos: "0 < length ins" using assms(3) by (cases ins) auto
  have lim: "int (length ins) * ?W < 2 ^ 62" using assms(1) by (simp add: lb_wf_def flip: of_nat_mult)
  have "cur k = - (\<Sum>j \<in> ?K - {k}. cur j)"
    using rr_state_sum [OF assms(1,2)] assms(3) by (simp add: sum.remove)
  also have "\<dots> \<le> (\<Sum>j \<in> ?K - {k}. ?W)"
    unfolding sum_negf [symmetric] using low by (intro sum_mono) force
  also have "\<dots> = int (length ins - 1) * ?W" using n assms(3) by simp
  also have "\<dots> \<le> int (length ins) * ?W" by (intro mult_right_mono) auto
  finally have "cur k < 2 ^ 62" using lim by linarith
  moreover have "?W \<le> int (length ins) * ?W" using pos by (cases ins) (auto simp: distrib_right)
  ultimately show ?thesis using low [OF assms(3)] lim by linarith
qed

lemma smooth_run_state:
  assumes "lb_wf ins" "ins \<noteq> []"
  shows "\<exists>nodes chosen cur. smooth_run r [] ins = (nodes, map Some chosen) \<and> rr_state ins r chosen cur \<and>
    smooth_update ins nodes 0 = (nodes_of ins cur, total_weight ins) \<and> (0 < r \<longrightarrow> nodes = nodes_of ins cur)"
proof (induction r)
  case 0
  have W: "0 < total_weight ins" by (rule total_weight_pos [OF assms(2)])
  have "length ins * total_weight ins < 2 ^ 62" using assms(1) by (simp add: lb_wf_def)
  moreover have "total_weight ins \<le> length ins * total_weight ins" using assms(2) by (cases ins) auto
  ultimately have "total_weight ins < 2 ^ 62" by (rule le_less_trans [rotated])
  then have "total_weight ins < 2 ^ 64" by simp
  then have "smooth_update ins [] 0 = (nodes_of ins (\<lambda>_. 0), total_weight ins)"
    using smooth_update_new [of ins "[]" 0] assms(1) by (auto simp: lb_wf_def total_weight_def)
  moreover have "rr_state ins 0 [] (\<lambda>_. 0)" using W by (simp add: rr_state_def)
  ultimately show ?case by fastforce
next
  case (Suc r)
  then obtain nodes chosen cur where IH: "smooth_run r [] ins = (nodes, map Some chosen)"
      "rr_state ins r chosen cur" "smooth_update ins nodes 0 = (nodes_of ins cur, total_weight ins)" by blast
  let ?K = "fst ` set ins" let ?W = "total_weight ins"
  have lim: "length ins * ?W < 2 ^ 62" using assms(1) by (simp add: lb_wf_def)
  moreover have "?W \<le> length ins * ?W" using assms(2) by (cases ins) auto
  ultimately have W: "?W < 2 ^ 62" by (rule le_less_trans [rotated])
  have cur: "\<forall>k \<in> ?K. - (2 ^ 62) \<le> cur k \<and> cur k < 2 ^ 62"
    using rr_state_bound [OF assms(1) IH(2)] by blast
  obtain b i where b: "(b, i) \<in> set ins" "\<forall>k \<in> ?K. raised ins cur k \<le> raised ins cur b"
      "SmoothWeightedRR_select nodes ins '''' =
         (nodes_of ins ((raised ins cur)(b := raised ins cur b - int ?W)), Some i)"
    by (rule smooth_select_step [OF assms W cur IH(3)])
  let ?cur = "(raised ins cur)(b := raised ins cur b - int ?W)"
  have bK: "b \<in> ?K" "si_id i = b" using b(1) assms(1) by (force simp: lb_wf_def)+
  have pos: "0 < raised ins cur b"
  proof (rule ccontr)
    assume "\<not> 0 < raised ins cur b"
    then have "(\<Sum>k \<in> ?K. raised ins cur k) \<le> 0" using b(2) by (intro sum_nonpos) force
    moreover have "(\<Sum>k \<in> ?K. raised ins cur k) = int ?W"
      using rr_state_sum [OF assms(1) IH(2)] by (simp add: raised_def sum.distrib total_weight_def)
    moreover have "0 < weight_of ins b" using b(1) assms(1) by (simp add: weight_of_entry lb_wf_def)
    then have "0 < ?W" using weight_le_total [OF bK(1)] by linarith
    ultimately show False by simp
  qed
  have "rr_state ins (Suc r) (chosen @ [i]) ?cur"
    unfolding rr_state_def
  proof (intro conjI ballI)
    fix k assume k: "k \<in> ?K"
    have old: "- int ?W < cur k" "cur k = int r * int (weight_of ins k) - int ?W * int (count_list (map si_id chosen) k)"
      using IH(2) k unfolding rr_state_def by blast+
    show "- int ?W < ?cur k" using old(1) pos by (simp add: raised_def)
    show "?cur k = int (Suc r) * int (weight_of ins k) - int ?W * int (count_list (map si_id (chosen @ [i])) k)"
      using old(2) bK(2) by (auto simp: raised_def algebra_simps)
  next
    show "length (chosen @ [i]) = Suc r" using IH(2) by (simp add: rr_state_def)
    have "set chosen \<subseteq> snd ` set ins" using IH(2) by (simp add: rr_state_def)
    moreover have "i \<in> snd ` set ins" using b(1) by force
    ultimately show "set (chosen @ [i]) \<subseteq> snd ` set ins" by simp
  qed
  moreover have "smooth_run (Suc r) [] ins = (nodes_of ins ?cur, map Some (chosen @ [i]))"
    by (simp add: IH(1) b(3))
  moreover have "smooth_update ins (nodes_of ins ?cur) 0 = (nodes_of ins ?cur, ?W)"
    using smooth_update_known [OF assms(1) order_refl, of 0 ?cur] assms(1) W
    by (simp add: lb_wf_def total_weight_def)
  ultimately show ?case by blast
qed

section \<open>The interface\<close>

locale balancer =
  fixes sel :: "'st \<Rightarrow> service_instances \<Rightarrow> string \<Rightarrow> 'st \<times> service_instance option"
  assumes sel_empty: "sel st [] key = (st, None)"
    and sel_member: "snd (sel st ins key) = Some i \<Longrightarrow> i \<in> snd ` set ins"

locale total_balancer = balancer +
  assumes sel_total: "ins \<noteq> [] \<Longrightarrow> snd (sel st ins '''') \<noteq> None"
begin

lemma sel_none_iff: "snd (sel st ins '''') = None \<longleftrightarrow> ins = []"
  using sel_empty sel_total by (cases "ins = []") auto

lemma sel_some: "ins \<noteq> [] \<Longrightarrow> \<exists>i. snd (sel st ins '''') = Some i \<and> i \<in> snd ` set ins"
  using sel_total [of ins st] sel_member by fastforce

end

lemma nth_member: "ins \<noteq> [] \<Longrightarrow> snd (ins ! (x mod length ins)) \<in> snd ` set ins"
  by (intro imageI nth_mem) simp

lemma wheel_member:
  assumes "ins \<noteq> []"
  shows "WeightedRR_wheel ins \<noteq> []" "WeightedRR_wheel ins ! (x mod length (WeightedRR_wheel ins)) \<in> snd ` set ins"
proof -
  obtain k i xs where ins: "ins = (k, i) # xs" using assms by (cases ins) auto
  have "max 1 (si_weight i) \<noteq> 0" by simp
  then show "WeightedRR_wheel ins \<noteq> []" by (auto simp: WeightedRR_wheel_def ins)
  then have "WeightedRR_wheel ins ! (x mod length (WeightedRR_wheel ins)) \<in> set (WeightedRR_wheel ins)"
    by (intro nth_mem) simp
  then show "WeightedRR_wheel ins ! (x mod length (WeightedRR_wheel ins)) \<in> snd ` set ins"
    by (force simp: WeightedRR_wheel_def)
qed

lemma map_of_member: "map_of ins key = Some i \<Longrightarrow> i \<in> snd ` set ins"
  by (drule map_of_SomeD) force

lemma roll_member: "roll_wheel ins acc r prev = Some i \<Longrightarrow> prev = Some i \<or> i \<in> snd ` set ins"
  by (induction ins acc r prev rule: roll_wheel.induct) (auto simp: Let_def split: if_splits)

lemma roll_some: "ins \<noteq> [] \<or> prev \<noteq> None \<Longrightarrow> roll_wheel ins acc r prev \<noteq> None"
  by (induction ins acc r prev rule: roll_wheel.induct) (auto simp: Let_def)

interpretation rr: total_balancer RoundRobin_select
  by unfold_locales
    (auto simp: RoundRobin_select_def nth_member map_of_member split: if_splits)

interpretation wrr: total_balancer WeightedRR_select
  by unfold_locales
    (auto simp: WeightedRR_select_def Let_def wheel_member split: if_splits)

interpretation hashed: total_balancer "\<lambda>hash ins key. (hash, ConsistentHash_select hash ins key)"
  by unfold_locales
    (auto simp: ConsistentHash_select_def RoundRobin_select_def nth_member split: if_splits)

interpretation rolled: total_balancer "\<lambda>rng ins key. (rng, WeightedLoad_select rng ins key)"
  by unfold_locales
    (auto simp: WeightedLoad_select_def Let_def roll_some simp del: not_None_eq dest: roll_member
      split: if_splits)

text \<open>The strategies that compare instances.\<close>

lemmas compare_defs = LeastConn_select_def LatencyAware_select_def LeastLoad_select_def MostLoad_select_def

lemma least_h: "a < b \<longleftrightarrow> int a < int b" and most_h: "a > b \<longleftrightarrow> - int a < - int b"
  by auto

lemma scan_member:
  fixes h :: "nat \<Rightarrow> int"
  assumes "\<And>a b. better a b \<longleftrightarrow> h a < h b" "ins \<noteq> []"
  shows "scan_best better f ins None bv \<noteq> None"
    "scan_best better f ins None bv = Some i \<Longrightarrow> i \<in> snd ` set ins"
proof -
  obtain b where b: "scan_best better f ins None bv = Some b" "b \<in> snd ` set ins"
    by (rule scan_best_chosen [of better h ins f bv, OF assms])
  then show "scan_best better f ins None bv \<noteq> None" by simp
  show "i \<in> snd ` set ins" if "scan_best better f ins None bv = Some i" using b that by simp
qed

interpretation least_conn: total_balancer "\<lambda>u ins key. (u, LeastConn_select ins key)"
  by unfold_locales
    (auto simp: compare_defs dest: scan_member [of _ int, OF least_h] split: if_splits)

interpretation latency: total_balancer "\<lambda>u ins key. (u, LatencyAware_select ins key)"
  by unfold_locales
    (auto simp: compare_defs dest: scan_member [of _ int, OF least_h] split: if_splits)

interpretation least_load: total_balancer "\<lambda>u ins key. (u, LeastLoad_select ins key)"
  by unfold_locales
    (auto simp: compare_defs dest: scan_member [of _ int, OF least_h] split: if_splits)

interpretation most_load: total_balancer "\<lambda>u ins key. (u, MostLoad_select ins key)"
  by unfold_locales
    (auto simp: compare_defs dest: scan_member [of _ "\<lambda>x. - int x", OF most_h] split: if_splits)

interpretation smooth: balancer SmoothWeightedRR_select
  by unfold_locales
    (auto simp: SmoothWeightedRR_select_def Let_def map_of_member split: if_splits prod.splits option.splits)

section \<open>Properties\<close>

text \<open>
  C17: The smooth strategy is exactly fair: over as many selections as the weights add up to, from a
  fresh balancer and on an unchanged table, every instance is chosen as often as its weight says, and
  all running weights are back at zero.
\<close>

theorem smooth_wrr_fair:
  assumes "lb_wf ins" "ins \<noteq> []"
  shows "\<exists>chosen. smooth_run (total_weight ins) [] ins = (nodes_of ins (\<lambda>_. 0), map Some chosen) \<and>
    (\<forall>(k, i) \<in> set ins. count_list (map si_id chosen) k = max 1 (si_weight i))"
proof -
  let ?W = "total_weight ins" let ?K = "fst ` set ins"
  obtain nodes chosen cur where r: "smooth_run ?W [] ins = (nodes, map Some chosen)"
      "rr_state ins ?W chosen cur" "0 < ?W \<longrightarrow> nodes = nodes_of ins cur"
    using smooth_run_state [OF assms, of ?W] by (elim exE conjE) (rule that; assumption)
  have st: "- int ?W < cur k" "cur k = int ?W * (int (weight_of ins k) - int (count_list (map si_id chosen) k))"
    if "k \<in> ?K" for k
    using r(2) that unfolding rr_state_def by (force simp: algebra_simps)+
  have W: "0 < ?W" using total_weight_pos [OF assms(2)] .
  have nonneg: "0 \<le> cur k" if k: "k \<in> ?K" for k
  proof -
    let ?d = "int (weight_of ins k) - int (count_list (map si_id chosen) k)"
    have "?d \<le> - 1 \<or> 0 \<le> ?d" by linarith
    then show ?thesis
    proof
      assume "?d \<le> - 1"
      then have "int ?W * ?d \<le> int ?W * (- 1)" by (intro mult_left_mono) auto
      then show ?thesis using st [OF k] by simp
    qed (simp add: st(2) [OF k])
  qed
  have zero: "cur k = 0" if "k \<in> ?K" for k
    using rr_state_sum [OF assms(1) r(2)] nonneg that sum_nonneg_eq_0_iff [of ?K cur] by auto
  have "nodes = nodes_of ins (\<lambda>_. 0)" using r(3) W zero by (auto intro: nodes_of_cong)
  moreover have "count_list (map si_id chosen) k = max 1 (si_weight i)" if "(k, i) \<in> set ins" for k i
  proof -
    have k: "k \<in> ?K" using that by force
    have "int (weight_of ins k) - int (count_list (map si_id chosen) k) = 0"
      using st(2) [OF k] zero [OF k] W by simp
    then show ?thesis using weight_of_entry [OF _ that] assms(1) by (simp add: lb_wf_def)
  qed
  ultimately show ?thesis using r(1) by auto
qed

text \<open>
  On a table that is not empty the four comparing strategies return an instance of the table that
  is best by their measure: fewest connections, lowest known latency, least load, most load.
\<close>

theorem comparing_strategies_optimal:
  assumes "ins \<noteq> []"
  shows "\<exists>a b c d. LeastConn_select ins key = Some a \<and> LatencyAware_select ins key = Some b \<and>
    LeastLoad_select ins key = Some c \<and> MostLoad_select ins key = Some d \<and>
    {a, b, c, d} \<subseteq> snd ` set ins \<and>
    (\<forall>i \<in> snd ` set ins. si_connections a \<le> si_connections i \<and> latency_of b \<le> latency_of i \<and>
       si_load_score c \<le> si_load_score i \<and> si_load_score i \<le> si_load_score d)"
proof -
  obtain a where a: "scan_best (<) si_connections ins None (2 ^ 64 - 1) = Some a" "a \<in> snd ` set ins"
      "\<forall>i \<in> snd ` set ins. int (si_connections a) \<le> int (si_connections i)"
    by (rule scan_best_chosen [of "(<)" int ins, OF least_h assms])
  obtain b where b: "scan_best (<) latency_of ins None (2 ^ 64 - 1) = Some b" "b \<in> snd ` set ins"
      "\<forall>i \<in> snd ` set ins. int (latency_of b) \<le> int (latency_of i)"
    by (rule scan_best_chosen [of "(<)" int ins, OF least_h assms])
  obtain c where c: "scan_best (<) si_load_score ins None (2 ^ 32 - 1) = Some c" "c \<in> snd ` set ins"
      "\<forall>i \<in> snd ` set ins. int (si_load_score c) \<le> int (si_load_score i)"
    by (rule scan_best_chosen [of "(<)" int ins, OF least_h assms])
  obtain d where d: "scan_best (>) si_load_score ins None 0 = Some d" "d \<in> snd ` set ins"
      "\<forall>i \<in> snd ` set ins. - int (si_load_score d) \<le> - int (si_load_score i)"
    by (rule scan_best_chosen [of "(>)" "\<lambda>x. - int x" ins, OF most_h assms])
  show ?thesis
    using a b c d assms by (intro exI [of _ a] exI [of _ b] exI [of _ c] exI [of _ d]) (simp add: compare_defs)
qed

definition demo_instance :: "string \<Rightarrow> nat \<Rightarrow> service_instance" where
  "demo_instance k w = \<lparr>si_id = k, si_svc_name = ''s'', si_address = ''h'', si_port = 1, si_weight = w,
     si_shm_recv_buffer_name = '''', si_metadata = [], si_healthy = True, si_connections = w,
     si_last_seen = 0, si_avg_latency_us = 0,
     si_cpu_percent = 0, si_load_score = w\<rparr>"

definition demo_table :: service_instances where
  "demo_table = [(''a'', demo_instance ''a'' 5), (''b'', demo_instance ''b'' 1), (''c'', demo_instance ''c'' 1)]"

lemma demo_table_total: "total_weight demo_table = 7"
  by (simp add: total_weight_def weight_of_def demo_table_def demo_instance_def)

theorem smooth_wrr_fair_witness:
  "\<exists>chosen. smooth_run 7 [] demo_table = (nodes_of demo_table (\<lambda>_. 0), map Some chosen) \<and>
     count_list (map si_id chosen) ''a'' = 5 \<and> count_list (map si_id chosen) ''c'' = 1"
proof -
  have "lb_wf demo_table"
    by (simp add: lb_wf_def demo_table_total) (simp add: demo_table_def demo_instance_def)
  moreover have "demo_table \<noteq> []" by (simp add: demo_table_def)
  ultimately obtain chosen where
      c: "smooth_run 7 [] demo_table = (nodes_of demo_table (\<lambda>_. 0), map Some chosen)"
      "\<forall>(k, i) \<in> set demo_table. count_list (map si_id chosen) k = max 1 (si_weight i)"
    using smooth_wrr_fair [of demo_table] unfolding demo_table_total by blast
  have "(''a'', demo_instance ''a'' 5) \<in> set demo_table" "(''c'', demo_instance ''c'' 1) \<in> set demo_table"
    by (simp_all add: demo_table_def)
  then have "count_list (map si_id chosen) ''a'' = 5" "count_list (map si_id chosen) ''c'' = 1"
    using c(2) by (force simp: demo_instance_def)+
  then show ?thesis using c(1) by blast
qed

theorem comparing_strategies_optimal_witness:
  "LeastConn_select demo_table '''' = Some (demo_instance ''b'' 1) \<and>
   (\<exists>d. MostLoad_select demo_table '''' = Some d \<and> si_load_score d = 5)"
proof -
  have "demo_table \<noteq> []" by (simp add: demo_table_def)
  from comparing_strategies_optimal [OF this, of "''''"] obtain d where
      d: "MostLoad_select demo_table '''' = Some d" "d \<in> snd ` set demo_table"
      "\<forall>i \<in> snd ` set demo_table. si_load_score i \<le> si_load_score d" by auto
  then have "si_load_score d = 5" by (auto simp: demo_table_def demo_instance_def)
  moreover have "LeastConn_select demo_table '''' = Some (demo_instance ''b'' 1)"
    by (simp add: LeastConn_select_def demo_table_def demo_instance_def)
  ultimately show ?thesis using d(1) by blast
qed

end
