(* ===== verification/Registry.thy ===== *)
theory Registry
  imports LoadBalancer "HOL-Library.List_Lexorder" "HOL-Library.Char_ord"
begin

text \<open>
  \<open>ServiceRegistry\<close> (server/center/ServiceRegistry.h, ServiceRegistry.cpp): the instances by service
  and id, their expiry times and, for every subscriber, the changes it has not fetched yet. The
  tables are iterated over, so they are association lists. Instances are shared by pointer: an
  \<open>inst_ref\<close> is an address in a heap of instances. Every public method holds the lock to its end and
  calls no other public method, so each is one step. The locale \<open>change_log\<close> states what the pending
  changes are good for: replayed on an old copy of the table they give the new one.
\<close>

section \<open>State\<close>

type_synonym inst_ref = nat
type_synonym inst_heap = "inst_ref \<Rightarrow> service_instance"

datatype delta_op = UPSERT | OFFLINE

record delta_entry =
  de_op :: delta_op
  de_inst :: inst_ref

record registry =
  rg_registry :: "(string \<times> (string \<times> inst_ref) list) list"
  rg_expirations :: "(string \<times> nat) list"
  rg_delta_map :: "(string \<times> delta_entry list) list"

definition ServiceRegistry_ctor :: registry where
  "ServiceRegistry_ctor = \<lparr>rg_registry = [], rg_expirations = [], rg_delta_map = []\<rparr>"

section \<open>Operations\<close>

definition push_delta_to_others :: "string \<Rightarrow> delta_entry \<Rightarrow> registry \<Rightarrow> registry" where
  "push_delta_to_others changed_id entry r =
     r\<lparr>rg_delta_map := map (\<lambda>(k, ds). (k, if k = changed_id then ds else ds @ [entry])) (rg_delta_map r)\<rparr>"

definition instances_of :: "registry \<Rightarrow> string \<Rightarrow> (string \<times> inst_ref) list" where
  "instances_of r svc = (case map_of (rg_registry r) svc of None \<Rightarrow> [] | Some m \<Rightarrow> m)"

definition register_instance ::
  "nat \<Rightarrow> inst_ref \<Rightarrow> nat \<Rightarrow> bool \<Rightarrow> inst_heap \<Rightarrow> registry \<Rightarrow> inst_heap \<times> registry" where
  "register_instance now inst ttl is_new_instance h r =
     (let svc = si_svc_name (h inst); i = si_id (h inst);
          m = instances_of r svc;
          h1 = h(inst := (h inst)\<lparr>si_last_seen := now\<rparr>);
          r1 = r\<lparr>rg_registry := AList.update svc (AList.update i inst m) (rg_registry r),
                 rg_expirations := AList.update i (now + ttl) (rg_expirations r)\<rparr>
      in (h1, if is_new_instance then push_delta_to_others i \<lparr>de_op = UPSERT, de_inst = inst\<rparr> r1 else r1))"

definition deregister_instance :: "string \<Rightarrow> string \<Rightarrow> registry \<Rightarrow> registry" where
  "deregister_instance svc_name i r =
     (case map_of (rg_registry r) svc_name of
        None \<Rightarrow> r
      | Some m \<Rightarrow>
          (case map_of m i of
             None \<Rightarrow> r
           | Some offline_inst \<Rightarrow>
               (let m1 = AList.delete i m;
                    r1 = r\<lparr>rg_registry := (if m1 = [] then AList.delete svc_name (rg_registry r)
                                           else AList.update svc_name m1 (rg_registry r)),
                           rg_expirations := AList.delete i (rg_expirations r)\<rparr>
                in push_delta_to_others i \<lparr>de_op = OFFLINE, de_inst = offline_inst\<rparr> r1)))"

definition get_instances :: "string \<Rightarrow> bool \<Rightarrow> inst_heap \<Rightarrow> registry \<Rightarrow> (string \<times> inst_ref) list" where
  "get_instances svc_name only_healthy h r =
     (case map_of (rg_registry r) svc_name of
        None \<Rightarrow> []
      | Some m \<Rightarrow> filter (\<lambda>(k, p). \<not> only_healthy \<or> si_healthy (h p)) m)"

definition snapshot :: "registry \<Rightarrow> (string \<times> (string \<times> inst_ref) list) list" where
  "snapshot r = rg_registry r"

text \<open>The two nested loops that erase one id from every service; the last instance found is kept.\<close>

fun erase_id :: "inst_heap \<Rightarrow> string \<Rightarrow> (string \<times> (string \<times> inst_ref) list) list \<Rightarrow> inst_ref option \<Rightarrow>
    (string \<times> (string \<times> inst_ref) list) list \<times> inst_ref option" where
  "erase_id h i [] found = ([], found)"
| "erase_id h i ((svc, m) # rest) found =
     (let gone = filter (\<lambda>(k, p). si_id (h p) = i) m;
          m1 = filter (\<lambda>(k, p). si_id (h p) \<noteq> i) m;
          found1 = (if gone = [] then found else Some (snd (last gone)));
          (rest1, found2) = erase_id h i rest found1
      in (if m1 = [] then rest1 else (svc, m1) # rest1, found2))"

definition expire_one :: "inst_heap \<Rightarrow> string \<Rightarrow> registry \<Rightarrow> registry" where
  "expire_one h i r =
     (let (reg1, found) = erase_id h i (rg_registry r) None;
          r1 = r\<lparr>rg_registry := reg1, rg_expirations := AList.delete i (rg_expirations r)\<rparr>
      in case found of
           None \<Rightarrow> r1
         | Some p \<Rightarrow> push_delta_to_others i \<lparr>de_op = OFFLINE, de_inst = p\<rparr> r1)"

definition expired_ids :: "nat \<Rightarrow> registry \<Rightarrow> string list" where
  "expired_ids now r = sort (remdups (map fst (filter (\<lambda>(k, e). e < now) (rg_expirations r))))"

definition cleanup_expired :: "nat \<Rightarrow> inst_heap \<Rightarrow> registry \<Rightarrow> registry" where
  "cleanup_expired now h r = fold (expire_one h) (expired_ids now r) r"

definition get_by_id :: "string \<Rightarrow> string \<Rightarrow> inst_heap \<Rightarrow> registry \<Rightarrow> inst_ref option" where
  "get_by_id svc_name i h r =
     (case map_of (rg_registry r) svc_name of
        None \<Rightarrow> None
      | Some m \<Rightarrow> map_option snd (find (\<lambda>(k, p). si_id (h p) = i) m))"

definition subscribe :: "string \<Rightarrow> registry \<Rightarrow> registry" where
  "subscribe sid r =
     (case map_of (rg_delta_map r) sid of
        None \<Rightarrow> r\<lparr>rg_delta_map := rg_delta_map r @ [(sid, [])]\<rparr>
      | Some ds \<Rightarrow> r)"

definition unsubscribe :: "string \<Rightarrow> registry \<Rightarrow> registry" where
  "unsubscribe sid r = r\<lparr>rg_delta_map := AList.delete sid (rg_delta_map r)\<rparr>"

definition pop_deltas :: "string \<Rightarrow> registry \<Rightarrow> delta_entry list \<times> registry" where
  "pop_deltas sid r =
     (case map_of (rg_delta_map r) sid of
        None \<Rightarrow> ([], r)
      | Some ds \<Rightarrow> (ds, r\<lparr>rg_delta_map := AList.update sid [] (rg_delta_map r)\<rparr>))"

section \<open>What the registry means\<close>

text \<open>The instances it lists, as pairs of service name and id.\<close>

definition look :: "registry \<Rightarrow> string \<Rightarrow> string \<Rightarrow> inst_ref option" where
  "look r svc i = map_of (instances_of r svc) i"

definition present :: "registry \<Rightarrow> (string \<times> string) set" where
  "present r = {(svc, i). look r svc i \<noteq> None}"

definition pending :: "registry \<Rightarrow> string \<Rightarrow> delta_entry list option" where
  "pending r sid = map_of (rg_delta_map r) sid"

definition name_of :: "inst_heap \<Rightarrow> inst_ref \<Rightarrow> string \<times> string" where
  "name_of h p = (si_svc_name (h p), si_id (h p))"

text \<open>Replaying changes on a copy of the table; copies agree for a subscriber apart from its own id.\<close>

type_synonym change = "delta_op \<times> string \<times> string"

definition change_of :: "inst_heap \<Rightarrow> delta_entry \<Rightarrow> change" where
  "change_of h e = (de_op e, name_of h (de_inst e))"

definition apply_change :: "change \<Rightarrow> (string \<times> string) set \<Rightarrow> (string \<times> string) set" where
  "apply_change c V = (case fst c of UPSERT \<Rightarrow> insert (snd c) V | OFFLINE \<Rightarrow> V - {snd c})"

definition replay :: "change list \<Rightarrow> (string \<times> string) set \<Rightarrow> (string \<times> string) set" where
  "replay cs V = fold apply_change cs V"

definition agree :: "string \<Rightarrow> (string \<times> string) set \<Rightarrow> (string \<times> string) set \<Rightarrow> bool" where
  "agree sid A B \<longleftrightarrow> (\<forall>x. snd x \<noteq> sid \<longrightarrow> (x \<in> A \<longleftrightarrow> x \<in> B))"

text \<open>Well-formed: keys are what the instances say, no id is used by two services, everything listed expires.\<close>

definition reg_wf :: "inst_heap \<Rightarrow> registry \<Rightarrow> bool" where
  "reg_wf h r \<longleftrightarrow>
     distinct (map fst (rg_registry r)) \<and> distinct (map fst (rg_delta_map r)) \<and>
     distinct (map fst (rg_expirations r)) \<and>
     (\<forall>svc m. map_of (rg_registry r) svc = Some m \<longrightarrow> distinct (map fst m)) \<and>
     (\<forall>svc i p. look r svc i = Some p \<longrightarrow> name_of h p = (svc, i)) \<and>
     (\<forall>s s' i. (s, i) \<in> present r \<longrightarrow> (s', i) \<in> present r \<longrightarrow> s = s') \<and>
     (\<forall>s i. (s, i) \<in> present r \<longrightarrow> map_of (rg_expirations r) i \<noteq> None)"

lemma reg_wfD:
  assumes "reg_wf h r"
  shows "distinct (map fst (rg_registry r))" "distinct (map fst (rg_delta_map r))"
    "distinct (map fst (rg_expirations r))"
    "map_of (rg_registry r) svc = Some m \<Longrightarrow> distinct (map fst m)"
    "look r svc i = Some p \<Longrightarrow> name_of h p = (svc, i)"
    "(svc, i) \<in> present r \<Longrightarrow> (svc', i) \<in> present r \<Longrightarrow> svc = svc'"
    "(svc, i) \<in> present r \<Longrightarrow> map_of (rg_expirations r) i \<noteq> None"
  using assms unfolding reg_wf_def by blast+

lemma present_look: "(svc, i) \<in> present r \<longleftrightarrow> look r svc i \<noteq> None"
  by (simp add: present_def)

lemma map_of_delete_key: "map_of (AList.delete k xs) = (map_of xs)(k := None)"
  by (rule ext) (simp add: delete_conv')

lemma push_look [simp]: "look (push_delta_to_others i e r) = look r"
  by (simp add: look_def instances_of_def push_delta_to_others_def fun_eq_iff)

lemma push_fields [simp]:
  "rg_registry (push_delta_to_others i e r) = rg_registry r"
  "rg_expirations (push_delta_to_others i e r) = rg_expirations r"
  by (simp_all add: push_delta_to_others_def)

lemma push_keys [simp]: "map fst (rg_delta_map (push_delta_to_others i e r)) = map fst (rg_delta_map r)"
  by (simp add: push_delta_to_others_def case_prod_beta o_def)

lemma push_pending:
  "pending (push_delta_to_others i e r) sid = map_option (\<lambda>ds. if sid = i then ds else ds @ [e]) (pending r sid)"
proof -
  have "map_of (map (\<lambda>(k, ds). (k, if k = i then ds else ds @ [e])) xs) sid =
      map_option (\<lambda>ds. if sid = i then ds else ds @ [e]) (map_of xs sid)" for xs
    by (induction xs) auto
  then show ?thesis by (simp add: pending_def push_delta_to_others_def)
qed

lemma look_register:
  "look (snd (register_instance now p ttl new h r)) =
     (look r)(si_svc_name (h p) := (look r (si_svc_name (h p)))(si_id (h p) \<mapsto> p))"
  by (intro ext) (simp add: register_instance_def Let_def look_def instances_of_def update_conv')

lemma look_deregister:
  "look (deregister_instance svc i r) = (look r)(svc := (look r svc)(i := None))"
proof (cases "map_of (instances_of r svc) i")
  case None
  then have "deregister_instance svc i r = r"
    by (auto simp: deregister_instance_def instances_of_def split: option.splits)
  then show ?thesis using None by (auto simp: look_def fun_eq_iff)
next
  case (Some p)
  then obtain m where m: "map_of (rg_registry r) svc = Some m" "map_of m i = Some p"
    by (auto simp: instances_of_def split: option.splits)
  have e: "(map_of m)(i := None) = Map.empty" if "AList.delete i m = []"
    using map_of_delete_key [of i m] that by simp
  show ?thesis
  proof (intro ext)
    fix s x
    show "look (deregister_instance svc i r) s x = ((look r)(svc := (look r svc)(i := None))) s x"
    proof (cases "AList.delete i m = []")
      case True
      then show ?thesis using m fun_cong [OF e [OF True], of x]
        by (auto simp: deregister_instance_def Let_def look_def instances_of_def map_of_delete_key)
    next
      case False
      then show ?thesis using m
        by (auto simp: deregister_instance_def Let_def look_def instances_of_def map_of_delete_key update_conv')
    qed
  qed
qed

lemma erase_id_found:
  "snd (erase_id h i reg found) =
     (let xs = filter (\<lambda>(k, p). si_id (h p) = i) (concat (map snd reg))
      in if xs = [] then found else Some (snd (last xs)))"
proof (induction h i reg found rule: erase_id.induct)
  case (2 h i svc m rest found)
  let ?g = "filter (\<lambda>(k, p). si_id (h p) = i) m"
  have "snd (erase_id h i ((svc, m) # rest) found) =
      snd (erase_id h i rest (if ?g = [] then found else Some (snd (last ?g))))"
    by (simp only: erase_id.simps Let_def case_prod_beta snd_conv)
  also have "\<dots> = (let xs = filter (\<lambda>(k, p). si_id (h p) = i) (concat (map snd rest))
      in if xs = [] then (if ?g = [] then found else Some (snd (last ?g))) else Some (snd (last xs)))"
    by (rule 2) simp_all
  finally show ?case by (simp add: Let_def last_append)
qed simp

text \<open>What is left does not depend on what was found so far.\<close>

lemma erase_id_left: "fst (erase_id h i reg found) = filter (\<lambda>(svc, m). m \<noteq> [])
    (map (\<lambda>(svc, m). (svc, filter (\<lambda>(k, p). si_id (h p) \<noteq> i) m)) reg)"
proof (induction reg arbitrary: found)
  case (Cons a reg)
  then show ?case by (cases a) (simp add: Let_def case_prod_unfold)
qed simp


lemma erase_id_distinct:
  "distinct (map fst reg) \<Longrightarrow> distinct (map fst (fst (erase_id h i reg found)))"
  by (simp add: erase_id_left distinct_map_filter o_def case_prod_beta)

lemma erase_id_map:
  "distinct (map fst reg) \<Longrightarrow> map_of (fst (erase_id h i reg found)) svc = (case map_of reg svc of None \<Rightarrow> None
     | Some m \<Rightarrow> (let m1 = filter (\<lambda>(k, p). si_id (h p) \<noteq> i) m in if m1 = [] then None else Some m1))"
proof (induction reg)
  case (Cons a reg)
  obtain s m where a: "a = (s, m)" by (cases a)
  have "map_of reg s = None" using Cons(2) a by (simp add: map_of_eq_None_iff)
  then show ?case using Cons a by (auto simp: erase_id_left Let_def case_prod_beta)
qed (simp add: erase_id_left)

lemma map_of_filter_value:
  "distinct (map fst m) \<Longrightarrow> map_of (filter (\<lambda>(k, p). P p) m) x =
     (case map_of m x of None \<Rightarrow> None | Some p \<Rightarrow> if P p then Some p else None)"
proof (induction m)
  case (Cons a m)
  then show ?case by (cases a) (auto simp: map_of_eq_None_iff split: option.splits)
qed simp

text \<open>Expiring an id takes it out of the table, whatever its service.\<close>

lemma registry_expire_one [simp]:
  "rg_registry (expire_one h i r) = fst (erase_id h i (rg_registry r) None)"
  "rg_expirations (expire_one h i r) = AList.delete i (rg_expirations r)"
  "map fst (rg_delta_map (expire_one h i r)) = map fst (rg_delta_map r)"
  by (auto simp: expire_one_def case_prod_beta Let_def split: option.split)

lemma look_expire_one:
  assumes "reg_wf h r"
  shows "look (expire_one h i r) svc x = (if x = i then None else look r svc x)"
proof (cases "map_of (rg_registry r) svc")
  case None
  then show ?thesis by (simp add: erase_id_map [OF reg_wfD(1) [OF assms]] look_def instances_of_def)
next
  case (Some m)
  note d = reg_wfD(4) [OF assms Some]
  have nm: "si_id (h p) = y" if "map_of m y = Some p" for p y
    using reg_wfD(5) [OF assms, of svc y p] Some that by (simp add: look_def instances_of_def name_of_def)
  have "look (expire_one h i r) svc x = map_of (filter (\<lambda>(k, p). si_id (h p) \<noteq> i) m) x"
    by (simp add: erase_id_map [OF reg_wfD(1) [OF assms]] Some look_def instances_of_def Let_def)
  also have "\<dots> = (if x = i then None else map_of m x)"
    by (subst map_of_filter_value [OF d]) (auto split: option.splits dest: nm)
  finally show ?thesis by (simp add: Some look_def instances_of_def)
qed


section \<open>Well-formedness is kept\<close>

lemma register_fields:
  "rg_delta_map (snd (register_instance now p ttl False h r)) = rg_delta_map r"
  "map fst (rg_delta_map (snd (register_instance now p ttl new h r))) = map fst (rg_delta_map r)"
  "rg_expirations (snd (register_instance now p ttl new h r)) =
     AList.update (si_id (h p)) (now + ttl) (rg_expirations r)"
  "rg_registry (snd (register_instance now p ttl new h r)) =
     AList.update (si_svc_name (h p)) (AList.update (si_id (h p)) p (instances_of r (si_svc_name (h p)))) (rg_registry r)"
  by (simp_all add: register_instance_def Let_def)

lemma name_of_register [simp]: "name_of (fst (register_instance now p ttl new h r)) = name_of h"
  by (simp add: register_instance_def Let_def name_of_def fun_eq_iff)

lemma instances_distinct: "reg_wf h r \<Longrightarrow> distinct (map fst (instances_of r svc))"
  by (auto simp: instances_of_def split: option.split dest: reg_wfD(4))

text \<open>An instance may be registered where its id is not used by another service.\<close>

definition id_free :: "inst_heap \<Rightarrow> inst_ref \<Rightarrow> registry \<Rightarrow> bool" where
  "id_free h p r \<longleftrightarrow> (\<forall>s. (s, si_id (h p)) \<in> present r \<longrightarrow> s = si_svc_name (h p))"

lemma present_register:
  "present (snd (register_instance now p ttl new h r)) = insert (name_of h p) (present r)"
  by (auto simp: present_def look_register name_of_def split: if_splits)

lemma register_wf:
  assumes wf: "reg_wf h r" and free: "id_free h p r"
  shows "reg_wf (fst (register_instance now p ttl new h r)) (snd (register_instance now p ttl new h r))"
  unfolding reg_wf_def
proof (intro conjI allI impI)
  let ?r = "snd (register_instance now p ttl new h r)"
  note W = reg_wfD [OF wf]
  show "distinct (map fst (rg_registry ?r))" "distinct (map fst (rg_delta_map ?r))"
    "distinct (map fst (rg_expirations ?r))"
    using W(1-3) by (simp_all add: register_fields distinct_update)
  show "distinct (map fst m)" if "map_of (rg_registry ?r) svc = Some m" for svc m
    using that W(4) instances_distinct [OF wf]
    by (auto simp: register_fields update_conv' distinct_update split: if_splits)
  show "name_of (fst (register_instance now p ttl new h r)) q = (svc, i)" if "look ?r svc i = Some q" for svc i q
    using that W(5) by (auto simp: look_register name_of_def split: if_splits)
  show "s = s'" if "(s, i) \<in> present ?r" "(s', i) \<in> present ?r" for s s' i
    using that W(6) free by (auto simp: present_register name_of_def id_free_def)
  show "map_of (rg_expirations ?r) i \<noteq> None" if "(s, i) \<in> present ?r" for s i
    using that W(7) by (auto simp: present_register name_of_def register_fields update_conv')
qed

lemma present_deregister: "present (deregister_instance svc i r) = present r - {(svc, i)}"
  by (auto simp: present_def look_deregister split: if_splits)

lemma deregister_fields:
  assumes "look r svc i = Some p"
  shows "rg_registry (deregister_instance svc i r) = (let m1 = AList.delete i (instances_of r svc) in
      if m1 = [] then AList.delete svc (rg_registry r) else AList.update svc m1 (rg_registry r))"
    "rg_expirations (deregister_instance svc i r) = AList.delete i (rg_expirations r)"
    "pending (deregister_instance svc i r) sid =
      map_option (\<lambda>ds. if sid = i then ds else ds @ [\<lparr>de_op = OFFLINE, de_inst = p\<rparr>]) (pending r sid)"
    "map fst (rg_delta_map (deregister_instance svc i r)) = map fst (rg_delta_map r)"
  using assms
  by (auto simp: deregister_instance_def look_def instances_of_def Let_def push_pending [unfolded pending_def] pending_def
      split: option.splits)

lemma deregister_absent: "look r svc i = None \<Longrightarrow> deregister_instance svc i r = r"
  by (auto simp: deregister_instance_def look_def instances_of_def split: option.split)

lemma deregister_wf:
  assumes wf: "reg_wf h r"
  shows "reg_wf h (deregister_instance svc i r)"
proof (cases "look r svc i")
  case None
  then show ?thesis using wf by (simp add: deregister_absent)
next
  case (Some p)
  let ?r = "deregister_instance svc i r"
  note W = reg_wfD [OF wf] and F = deregister_fields [OF Some]
  have here: "(svc, i) \<in> present r" using Some by (simp add: present_def)
  show ?thesis unfolding reg_wf_def
  proof (intro conjI allI impI)
    show "distinct (map fst (rg_registry ?r))" "distinct (map fst (rg_delta_map ?r))"
      "distinct (map fst (rg_expirations ?r))"
      using W(1-3) by (simp_all add: F Let_def distinct_update distinct_delete)
    show "distinct (map fst m)" if "map_of (rg_registry ?r) s = Some m" for s m
      using that W(4) instances_distinct [OF wf]
      by (auto simp: F Let_def update_conv' map_of_delete_key distinct_delete split: if_splits)
    show "name_of h q = (s, x)" if "look ?r s x = Some q" for s x q
      using that W(5) by (auto simp: look_deregister split: if_splits)
    show "s = s'" if "(s, x) \<in> present ?r" "(s', x) \<in> present ?r" for s s' x
      using that W(6) by (auto simp: present_deregister)
    show "map_of (rg_expirations ?r) x \<noteq> None" if "(s, x) \<in> present ?r" for s x
      using that W(7) W(6) [OF here] by (auto simp: present_deregister F map_of_delete_key)
  qed
qed

lemma present_expire_one: "reg_wf h r \<Longrightarrow> present (expire_one h i r) = {v \<in> present r. snd v \<noteq> i}"
  by (auto simp: present_def look_expire_one split: if_splits)

lemma expire_wf:
  assumes wf: "reg_wf h r"
  shows "reg_wf h (expire_one h i r)"
  unfolding reg_wf_def
proof (intro conjI allI impI)
  let ?r = "expire_one h i r"
  note W = reg_wfD [OF wf]
  show "distinct (map fst (rg_registry ?r))" "distinct (map fst (rg_delta_map ?r))"
    "distinct (map fst (rg_expirations ?r))"
    using W(1-3) by (simp_all add: erase_id_distinct distinct_delete)
  show "distinct (map fst m)" if "map_of (rg_registry ?r) s = Some m" for s m
    using that W(4)
    by (auto simp: erase_id_map [OF W(1)] Let_def distinct_map_filter split: option.splits if_splits)
  show "name_of h q = (s, x)" if "look ?r s x = Some q" for s x q
    using that W(5) by (auto simp: look_expire_one [OF wf] split: if_splits)
  show "s = s'" if "(s, x) \<in> present ?r" "(s', x) \<in> present ?r" for s s' x
    using that W(6) by (auto simp: present_expire_one [OF wf])
  show "map_of (rg_expirations ?r) x \<noteq> None" if "(s, x) \<in> present ?r" for s x
    using that W(7) by (auto simp: present_expire_one [OF wf] map_of_delete_key)
qed

lemma subscribe_simps [simp]:
  "look (subscribe sid r) = look r" "present (subscribe sid r) = present r"
  "pending (subscribe sid r) k = (if k = sid \<and> pending r sid = None then Some [] else pending r k)"
  by (auto simp: subscribe_def fun_eq_iff look_def instances_of_def present_def pending_def map_add_def split: option.split)

lemma unsubscribe_simps [simp]:
  "look (unsubscribe sid r) = look r" "present (unsubscribe sid r) = present r"
  "pending (unsubscribe sid r) k = (if k = sid then None else pending r k)"
  by (auto simp: unsubscribe_def fun_eq_iff look_def instances_of_def present_def pending_def map_of_delete_key)

lemma pop_simps [simp]:
  "look (snd (pop_deltas sid r)) = look r" "present (snd (pop_deltas sid r)) = present r"
  "pending (snd (pop_deltas sid r)) k = (if k = sid \<and> pending r sid \<noteq> None then Some [] else pending r k)"
  "fst (pop_deltas sid r) = (case pending r sid of None \<Rightarrow> [] | Some ds \<Rightarrow> ds)"
  by (auto simp: pop_deltas_def fun_eq_iff look_def instances_of_def present_def pending_def update_conv' split: option.split)

lemma subscription_wf:
  assumes "reg_wf h r"
  shows "reg_wf h (subscribe sid r)" "reg_wf h (unsubscribe sid r)" "reg_wf h (snd (pop_deltas sid r))"
  using assms unfolding reg_wf_def subscribe_simps unsubscribe_simps pop_simps
  by (simp_all add: subscribe_def unsubscribe_def pop_deltas_def distinct_delete distinct_update
      map_of_eq_None_iff split: option.split)

section \<open>The change log\<close>

text \<open>
  A table that keeps, for one subscriber, the changes it has not fetched: if each step logs enough to
  bring an old copy up to date, so does any run. \<open>same\<close> is what the subscriber can tell apart.
\<close>

fun legal_run :: "('op \<Rightarrow> 's \<Rightarrow> 's) \<Rightarrow> ('op \<Rightarrow> 's \<Rightarrow> bool) \<Rightarrow> 'op list \<Rightarrow> 's \<Rightarrow> bool" where
  "legal_run step legal [] s = True"
| "legal_run step legal (x # xs) s = (legal x s \<and> legal_run step legal xs (step x s))"

locale change_log =
  fixes step :: "'op \<Rightarrow> 's \<Rightarrow> 's" and legal :: "'op \<Rightarrow> 's \<Rightarrow> bool" and good :: "'s \<Rightarrow> bool"
    and table :: "'s \<Rightarrow> 't" and log :: "'s \<Rightarrow> 'd list option"
    and app :: "'d \<Rightarrow> 't \<Rightarrow> 't" and same :: "'t \<Rightarrow> 't \<Rightarrow> bool"
  assumes good_step: "good s \<Longrightarrow> legal x s \<Longrightarrow> good (step x s)"
    and log_step: "good s \<Longrightarrow> legal x s \<Longrightarrow> log s = Some ds \<Longrightarrow>
      \<exists>new. log (step x s) = Some (ds @ new) \<and> same (fold app new (table s)) (table (step x s))"
    and same_refl: "same t t"
    and same_trans: "same t u \<Longrightarrow> same u v \<Longrightarrow> same t v"
    and same_app: "same t u \<Longrightarrow> same (app d t) (app d u)"
begin

lemma same_fold: "same t u \<Longrightarrow> same (fold app ds t) (fold app ds u)"
  by (induction ds arbitrary: t u) (simp_all add: same_app)

lemma run_good: "good s \<Longrightarrow> legal_run step legal xs s \<Longrightarrow> good (fold step xs s)"
  by (induction xs arbitrary: s) (simp_all add: good_step)

lemma run_log:
  assumes "good s" "legal_run step legal xs s" "log s = Some ds"
  shows "\<exists>new. log (fold step xs s) = Some (ds @ new) \<and> same (fold app new (table s)) (table (fold step xs s))"
  using assms
proof (induction xs arbitrary: s ds)
  case Nil
  then show ?case by (simp add: same_refl)
next
  case (Cons x xs)
  then obtain n1 where n1: "log (step x s) = Some (ds @ n1)" "same (fold app n1 (table s)) (table (step x s))"
    using log_step by force
  obtain n2 where "log (fold step xs (step x s)) = Some ((ds @ n1) @ n2)"
    "same (fold app n2 (table (step x s))) (table (fold step xs (step x s)))"
    using Cons.IH [OF _ _ n1(1)] Cons.prems good_step by fastforce
  then show ?case using same_trans [OF same_fold [OF n1(2)]] by (intro exI [of _ "n1 @ n2"]) simp
qed

end

lemma agree_refl: "agree sid A A"
  by (simp add: agree_def)

lemma agree_trans: "agree sid A B \<Longrightarrow> agree sid B C \<Longrightarrow> agree sid A C"
  by (simp add: agree_def)

lemma agree_apply: "agree sid A B \<Longrightarrow> agree sid (apply_change c A) (apply_change c B)"
  by (cases "fst c") (auto simp: agree_def apply_change_def)

text \<open>What one expired id leaves in the log.\<close>

lemma erase_id_witness:
  assumes wf: "reg_wf h r" and f: "snd (erase_id h i (rg_registry r) None) = Some p"
  shows "\<exists>svc. look r svc i = Some p"
proof -
  let ?xs = "filter (\<lambda>(k, p). si_id (h p) = i) (concat (map snd (rg_registry r)))"
  have ne: "?xs \<noteq> []" and p: "p = snd (last ?xs)"
    using f by (auto simp: erase_id_found Let_def split: if_splits)
  have "last ?xs \<in> set ?xs" using ne by (rule last_in_set)
  then obtain svc m where m: "(svc, m) \<in> set (rg_registry r)" "last ?xs \<in> set m" "si_id (h p) = i"
    using p by (auto simp: case_prod_beta)
  have s: "map_of (rg_registry r) svc = Some m" using reg_wfD(1) [OF wf] m(1) by (rule map_of_is_SomeI)
  have "(fst (last ?xs), p) \<in> set m" using m(2) p by simp
  then have l: "look r svc (fst (last ?xs)) = Some p"
    using map_of_is_SomeI [OF reg_wfD(4) [OF wf s]] s by (simp add: look_def instances_of_def)
  then have "fst (last ?xs) = i" using reg_wfD(5) [OF wf l] m(3) by (simp add: name_of_def)
  then show ?thesis using l by auto
qed

lemma erase_id_none:
  assumes wf: "reg_wf h r" and f: "snd (erase_id h i (rg_registry r) None) = None"
  shows "look r svc i = None"
proof (rule ccontr)
  assume "look r svc i \<noteq> None"
  then obtain m p where m: "map_of (rg_registry r) svc = Some m" "map_of m i = Some p"
    by (auto simp: look_def instances_of_def split: option.splits)
  have "si_id (h p) = i"
    using reg_wfD(5) [OF wf, of svc i p] m by (simp add: look_def instances_of_def name_of_def)
  then have "(i, p) \<in> set (filter (\<lambda>(k, p). si_id (h p) = i) (concat (map snd (rg_registry r))))"
    using map_of_SomeD [OF m(1)] map_of_SomeD [OF m(2)] by force
  then have "filter (\<lambda>(k, p). si_id (h p) = i) (concat (map snd (rg_registry r))) \<noteq> []"
    by (metis empty_iff empty_set)
  then show False using f by (simp only: erase_id_found Let_def if_False option.distinct)
qed

lemma expire_log:
  assumes wf: "reg_wf h r" and p: "pending r sid = Some ds"
  shows "\<exists>new. pending (expire_one h i r) sid = Some (ds @ new) \<and>
     agree sid (replay (map (change_of h) new) (present r)) (present (expire_one h i r))"
proof (cases "snd (erase_id h i (rg_registry r) None)")
  case None
  then have "pending (expire_one h i r) sid = Some ds"
    using p by (simp add: expire_one_def case_prod_beta Let_def pending_def)
  moreover have "present (expire_one h i r) = present r"
    using erase_id_none [OF wf None] by (auto simp: present_expire_one [OF wf] present_look)
  ultimately show ?thesis by (intro exI [of _ "[]"]) (simp add: agree_refl replay_def)
next
  case (Some q)
  then obtain svc where svc: "look r svc i = Some q" using erase_id_witness [OF wf] by blast
  have n: "name_of h q = (svc, i)" using reg_wfD(5) [OF wf svc] .
  have gone: "present (expire_one h i r) = present r - {(svc, i)}"
    using reg_wfD(6) [OF wf] svc by (auto simp: present_expire_one [OF wf] present_look)
  have "pending (expire_one h i r) sid =
      Some (if sid = i then ds else ds @ [\<lparr>de_op = OFFLINE, de_inst = q\<rparr>])"
    using p Some by (simp add: expire_one_def case_prod_beta Let_def push_pending) (auto simp: pending_def)
  then show ?thesis
    by (intro exI [of _ "if sid = i then [] else [\<lparr>de_op = OFFLINE, de_inst = q\<rparr>]"])
      (simp add: replay_def apply_change_def change_of_def n gone agree_def)
qed

interpretation expiry: change_log "expire_one h" "\<lambda>i r. True" "reg_wf h" present
    "\<lambda>r. map_option (map (change_of h)) (pending r sid)" apply_change "agree sid" for h sid
proof unfold_locales
  show "\<exists>new. map_option (map (change_of h)) (pending (expire_one h i r) sid) = Some (ds @ new) \<and>
      agree sid (fold apply_change new (present r)) (present (expire_one h i r))"
    if wf: "reg_wf h r" and p: "map_option (map (change_of h)) (pending r sid) = Some ds" for r i ds
  proof -
    obtain d where d: "pending r sid = Some d" "ds = map (change_of h) d" using p by auto
    then show ?thesis using expire_log [OF wf d(1), of i] by (auto simp: replay_def)
  qed
qed (simp_all add: expire_wf agree_refl agree_apply agree_trans [of sid])

lemma expiry_legal [simp]: "legal_run (expire_one h) (\<lambda>i r. True) xs r"
  by (induction xs arbitrary: r) simp_all

lemma present_expiry: "reg_wf h r \<Longrightarrow> present (fold (expire_one h) xs r) = {v \<in> present r. snd v \<notin> set xs}"
  by (induction xs arbitrary: r) (auto simp: expire_wf present_expire_one)

lemma cleanup_wf: "reg_wf h r \<Longrightarrow> reg_wf h (cleanup_expired now h r)"
  unfolding cleanup_expired_def by (rule expiry.run_good) simp_all

lemma expired_ids_iff:
  assumes "reg_wf h r"
  shows "i \<in> set (expired_ids now r) \<longleftrightarrow> (\<exists>e. map_of (rg_expirations r) i = Some e \<and> e < now)"
proof -
  have "(i, e) \<in> set (rg_expirations r) \<longleftrightarrow> map_of (rg_expirations r) i = Some e" for e
    using reg_wfD(3) [OF assms] by simp
  then show ?thesis by (force simp: expired_ids_def)
qed

text \<open>After a clean-up exactly the instances whose time had not run out are listed.\<close>

lemma present_cleanup:
  assumes "reg_wf h r"
  shows "present (cleanup_expired now h r) =
    {v \<in> present r. \<exists>e. map_of (rg_expirations r) (snd v) = Some e \<and> now \<le> e}"
  using reg_wfD(7) [OF assms]
  by (fastforce simp: cleanup_expired_def present_expiry [OF assms] expired_ids_iff [OF assms])

text \<open>The registry's calls as steps. An id is not moved between services, a renewal is of a listed instance.\<close>

datatype registry_op =
    Register nat inst_ref nat bool
  | Deregister string string
  | Cleanup nat
  | Subscribe string
  | Unsubscribe string
  | PopDeltas string

fun registry_step :: "registry_op \<Rightarrow> inst_heap \<times> registry \<Rightarrow> inst_heap \<times> registry" where
  "registry_step (Register now p ttl new) (h, r) = register_instance now p ttl new h r"
| "registry_step (Deregister svc i) (h, r) = (h, deregister_instance svc i r)"
| "registry_step (Cleanup now) (h, r) = (h, cleanup_expired now h r)"
| "registry_step (Subscribe k) (h, r) = (h, subscribe k r)"
| "registry_step (Unsubscribe k) (h, r) = (h, unsubscribe k r)"
| "registry_step (PopDeltas k) (h, r) = (h, snd (pop_deltas k r))"

fun registry_legal :: "string \<Rightarrow> registry_op \<Rightarrow> inst_heap \<times> registry \<Rightarrow> bool" where
  "registry_legal sid (Register now p ttl new) (h, r) = (id_free h p r \<and> (new \<or> name_of h p \<in> present r))"
| "registry_legal sid (Unsubscribe k) s = (k \<noteq> sid)"
| "registry_legal sid (PopDeltas k) s = (k \<noteq> sid)"
| "registry_legal sid _ s = True"

definition registry_log :: "string \<Rightarrow> inst_heap \<times> registry \<Rightarrow> change list option" where
  "registry_log sid s = map_option (map (change_of (fst s))) (pending (snd s) sid)"

lemma registry_step_simps:
  "registry_step (Register now p ttl new) s = register_instance now p ttl new (fst s) (snd s)"
  "registry_legal sid (Register now p ttl new) s =
     (id_free (fst s) p (snd s) \<and> (new \<or> name_of (fst s) p \<in> present (snd s)))"
  by (cases s; simp)+

lemma names_register [simp]:
  "si_id (fst (register_instance now p ttl new h r) q) = si_id (h q)"
  "si_svc_name (fst (register_instance now p ttl new h r) q) = si_svc_name (h q)"
  by (simp_all add: register_instance_def Let_def)

lemma change_of_register [simp]: "change_of (fst (register_instance now p ttl new h r)) = change_of h"
  by (simp add: change_of_def fun_eq_iff)

lemma pending_register:
  "pending (snd (register_instance now p ttl new h r)) sid = map_option (\<lambda>ds.
     if new \<and> sid \<noteq> si_id (h p) then ds @ [\<lparr>de_op = UPSERT, de_inst = p\<rparr>] else ds) (pending r sid)"
  by (cases "pending r sid") (auto simp: register_instance_def Let_def push_pending, auto simp: pending_def)

lemma register_log:
  assumes "pending r sid = Some ds" "new \<or> name_of h p \<in> present r"
  shows "\<exists>cs. pending (snd (register_instance now p ttl new h r)) sid = Some (ds @ cs) \<and>
    agree sid (replay (map (change_of h) cs) (present r)) (present (snd (register_instance now p ttl new h r)))"
  using assms
  by (intro exI [of _ "if new \<and> sid \<noteq> si_id (h p) then [\<lparr>de_op = UPSERT, de_inst = p\<rparr>] else []"])
    (auto simp: present_register pending_register replay_def agree_def apply_change_def change_of_def name_of_def)

lemma deregister_log:
  assumes wf: "reg_wf h r" and "pending r sid = Some ds"
  shows "\<exists>cs. pending (deregister_instance svc i r) sid = Some (ds @ cs) \<and>
    agree sid (replay (map (change_of h) cs) (present r)) (present (deregister_instance svc i r))"
proof (cases "look r svc i")
  case None
  then show ?thesis using assms by (intro exI [of _ "[]"]) (simp add: deregister_absent replay_def agree_refl)
next
  case (Some p)
  then show ?thesis using assms reg_wfD(5) [OF wf Some]
    by (intro exI [of _ "if sid = i then [] else [\<lparr>de_op = OFFLINE, de_inst = p\<rparr>]"])
      (auto simp: deregister_fields present_deregister replay_def apply_change_def change_of_def agree_def)
qed

lemma cleanup_log:
  assumes "reg_wf h r" "pending r sid = Some ds"
  shows "\<exists>cs. map_option (map (change_of h)) (pending (cleanup_expired now h r) sid) = Some (map (change_of h) ds @ cs) \<and>
    agree sid (replay cs (present r)) (present (cleanup_expired now h r))"
  using expiry.run_log [OF assms(1) expiry_legal, where xs = "expired_ids now r" and sid = sid
      and ds = "map (change_of h) ds"] assms(2)
  by (simp add: cleanup_expired_def replay_def)

interpretation changes: change_log registry_step "registry_legal sid" "\<lambda>s. reg_wf (fst s) (snd s)"
    "\<lambda>s. present (snd s)" "registry_log sid" apply_change "agree sid" for sid
proof unfold_locales
  fix s :: "inst_heap \<times> registry" and x :: registry_op
  obtain h r where s: "s = (h, r)" by (cases s)
  assume wf: "reg_wf (fst s) (snd s)" and legal: "registry_legal sid x s"
  then show "reg_wf (fst (registry_step x s)) (snd (registry_step x s))"
    by (cases x) (simp_all add: s register_wf deregister_wf cleanup_wf subscription_wf)
  fix ds assume log: "registry_log sid s = Some ds"
  then obtain d where d: "pending r sid = Some d" "ds = map (change_of h) d" by (auto simp: registry_log_def s)
  have wf': "reg_wf h r" using wf s by simp
  show "\<exists>new. registry_log sid (registry_step x s) = Some (ds @ new) \<and>
      agree sid (fold apply_change new (present (snd s))) (present (snd (registry_step x s)))"
  proof (cases x)
    case (Register now p ttl new)
    then show ?thesis using register_log [OF d(1), of new h p now ttl] legal
      by (auto simp: s d registry_log_def replay_def)
  next
    case (Deregister svc i)
    then show ?thesis using deregister_log [OF wf' d(1), of svc i] by (auto simp: s d registry_log_def replay_def)
  next
    case (Cleanup now)
    then show ?thesis using cleanup_log [OF wf' d(1), of now] by (auto simp: s d registry_log_def replay_def)
  qed (use legal d in \<open>auto simp: s registry_log_def agree_refl intro!: exI [of _ "[]"]\<close>)
qed (simp_all add: agree_refl agree_apply agree_trans [of sid])

lemma ctor_wf [simp]: "reg_wf h ServiceRegistry_ctor"
  by (simp add: reg_wf_def ServiceRegistry_ctor_def look_def instances_of_def present_def)

lemma ctor_present [simp]: "present ServiceRegistry_ctor = {}" "pending ServiceRegistry_ctor sid = None"
  by (simp_all add: ServiceRegistry_ctor_def look_def instances_of_def present_def pending_def)

section \<open>Properties\<close>

text \<open>
  C18: A subscriber whose copy of the listed names (service and id) is up to date and that has nothing
  pending gets, whatever the other services then do (registering, leaving, subscribing, fetching their own
  changes) and whatever expires, a list of pending changes which, replayed in order on its old copy, gives
  exactly the names now listed, apart from its own id. This holds as long as no id is moved between services
  and an instance is renewed only while it is listed (\<open>legal_run\<close>), and the second condition is needed: a
  renewal of another instance that is not listed, which the registrar's cached fast path can make after an
  expiry, lists it again without anything pending, and the copy is wrong.
\<close>

theorem replica_follows_registry:
  assumes "reg_wf h r" "pending r sid = Some []"
    and "legal_run registry_step (registry_legal sid) xs (h, r)"
    and "fold registry_step xs (h, r) = (h', r')"
  shows "(\<exists>ds. pending r' sid = Some ds \<and>
      agree sid (replay (map (change_of h') ds) (present r)) (present r')) \<and>
    (\<forall>now p ttl h'' r''. register_instance now p ttl False h' r' = (h'', r'') \<longrightarrow>
       name_of h' p \<notin> present r' \<longrightarrow> si_id (h' p) \<noteq> sid \<longrightarrow>
       pending r'' sid = pending r' sid \<and> \<not> agree sid (present r') (present r''))"
proof (intro conjI allI impI)
  have "registry_log sid (h, r) = Some []" using assms(2) by (simp add: registry_log_def)
  then show "\<exists>ds. pending r' sid = Some ds \<and> agree sid (replay (map (change_of h') ds) (present r)) (present r')"
    using changes.run_log [of "(h, r)" sid xs "[]"] assms(1,3,4) by (auto simp: registry_log_def replay_def)
  fix now p ttl h'' r''
  assume a: "register_instance now p ttl False h' r' = (h'', r'')" "name_of h' p \<notin> present r'" "si_id (h' p) \<noteq> sid"
  then have r'': "r'' = snd (register_instance now p ttl False h' r')" by simp
  show "pending r'' sid = pending r' sid" by (cases "pending r' sid") (simp_all add: r'' pending_register)
  show "\<not> agree sid (present r') (present r'')"
    using a(2,3) by (auto simp: r'' present_register agree_def name_of_def)
qed

text \<open>The run of the witness: two instances of one service appear, one is renewed, the other expires.\<close>

definition demo_heap :: inst_heap where
  "demo_heap p = \<lparr>si_id = (if p = 0 then ''1'' else ''3''), si_svc_name = ''logic'', si_address = [], si_port = 0,
     si_weight = 1, si_shm_recv_buffer_name = [], si_metadata = [], si_healthy = True, si_connections = 0,
     si_last_seen = 0, si_avg_latency_us = 0, si_cpu_percent = 0, si_load_score = 0\<rparr>"

theorem replica_follows_registry_witness:
  "\<exists>ds. pending (snd (fold registry_step [Register 10 0 15 True, Register 11 1 15 True, Register 12 0 15 False, Cleanup 27]
       (demo_heap, subscribe ''2'' ServiceRegistry_ctor))) ''2'' = Some ds \<and>
     agree ''2'' (replay (map (change_of (fst (fold registry_step [Register 10 0 15 True, Register 11 1 15 True,
       Register 12 0 15 False, Cleanup 27] (demo_heap, subscribe ''2'' ServiceRegistry_ctor)))) ds) {})
     (present (snd (fold registry_step [Register 10 0 15 True, Register 11 1 15 True, Register 12 0 15 False, Cleanup 27]
       (demo_heap, subscribe ''2'' ServiceRegistry_ctor))))"
proof -
  let ?xs = "[Register 10 0 15 True, Register 11 1 15 True, Register 12 0 15 False, Cleanup 27]"
  let ?r = "subscribe ''2'' ServiceRegistry_ctor"
  have "legal_run registry_step (registry_legal ''2'') ?xs (demo_heap, ?r)"
    by (simp add: registry_step_simps id_free_def present_register name_of_def demo_heap_def del: registry_step.simps(1) registry_legal.simps(1))
  then show ?thesis
    using replica_follows_registry [of demo_heap ?r "''2''" ?xs, THEN conjunct1] by (simp add: subscription_wf)
qed

end
