(* ===== verification/Registrar.thy ===== *)
theory Registrar
  imports Registry
begin

text \<open>
  \<open>TcpRegistrar\<close> (server/center/TcpRegistrar.h, TcpRegistrar.cpp): the handlers of the service centre,
  run by the event loop of its \<open>TcpServer\<close>, one call after the other. A message is its decoded
  protobuf content; what \<open>server_.send\<close> is given is appended to \<open>rt_sent\<close>. The three clock readings of
  a call are an argument. \<open>make_shared\<close> takes the next unused address of the heap of instances.
\<close>

section \<open>Messages and state\<close>

record service_info =
  sv_id :: string
  sv_svr_name :: string
  sv_ip :: string
  sv_port :: int
  sv_shm_recv_buffer_name :: string
  sv_is_daemon :: bool
  sv_is_offline :: bool
  sv_connections :: nat
  sv_cpu_percent :: nat
  sv_load_score :: nat

datatype ss_error = Error_success | Error_instance_not_found

datatype center_msg =
    RegistToCenter service_info nat
  | UpdateServiceStatus service_info
  | OtherCenterMsg nat

datatype center_rsp =
    RegistRsp ss_error
  | UpdateRsp ss_error bool "service_info list"

record center_clock =
  ck_us :: nat
  ck_now :: nat
  ck_later :: nat

record registrar =
  rt_reg :: registry
  rt_heap :: inst_heap
  rt_fresh :: inst_ref
  rt_fd_to_id :: "32 word \<rightharpoonup> string"
  rt_fd_to_inst :: "32 word \<rightharpoonup> inst_ref"
  rt_got_full_update :: "nat set"
  rt_sent :: "(nat \<times> center_rsp) list"

definition TTL :: nat where "TTL = 15"

text \<open>Two of the tables are keyed by \<open>int\<close>, the connection ids are 64-bit.\<close>

definition fd_key :: "nat \<Rightarrow> 32 word" where
  "fd_key client_fd = of_nat client_fd"

definition registrar_send :: "nat \<Rightarrow> center_rsp \<Rightarrow> registrar \<Rightarrow> registrar" where
  "registrar_send client_fd rsp st = st\<lparr>rt_sent := rt_sent st @ [(client_fd, rsp)]\<rparr>"

section \<open>Handlers\<close>

definition make_instance :: "service_info \<Rightarrow> nat \<Rightarrow> nat \<Rightarrow> service_instance" where
  "make_instance info latency now =
     \<lparr>si_id = sv_id info, si_svc_name = sv_svr_name info, si_address = sv_ip info,
      si_port = nat (sv_port info mod 2 ^ 16), si_weight = 1,
      si_shm_recv_buffer_name = sv_shm_recv_buffer_name info, si_metadata = [], si_healthy = True,
      si_connections = sv_connections info, si_last_seen = now, si_avg_latency_us = latency,
      si_cpu_percent = sv_cpu_percent info, si_load_score = sv_load_score info\<rparr>"

text \<open>The new instance: subscribe its id, register it as new, remember it for the connection.\<close>

definition enlist :: "nat \<Rightarrow> nat \<Rightarrow> service_instance \<Rightarrow> registrar \<Rightarrow> registrar" where
  "enlist client_fd now inst st =
     (let p = rt_fresh st;
          (h, r) = register_instance now p TTL True ((rt_heap st)(p := inst)) (subscribe (si_id inst) (rt_reg st))
      in st\<lparr>rt_reg := r, rt_heap := h, rt_fresh := p + 1,
            rt_fd_to_id := (rt_fd_to_id st)(fd_key client_fd \<mapsto> si_id inst),
            rt_fd_to_inst := (rt_fd_to_inst st)(fd_key client_fd \<mapsto> p)\<rparr>)"

definition onRegist :: "center_clock \<Rightarrow> nat \<Rightarrow> service_info \<Rightarrow> nat \<Rightarrow> registrar \<Rightarrow> registrar" where
  "onRegist clk client_fd info send_time st =
     (let latency = nat ((int (ck_us clk) - int send_time) mod 2 ^ 64)
      in registrar_send client_fd (RegistRsp Error_success)
           (enlist client_fd (ck_now clk) (make_instance info latency (ck_now clk)) st))"

definition upd_metrics :: "service_info \<Rightarrow> service_instance \<Rightarrow> service_instance" where
  "upd_metrics info i = i\<lparr>si_connections := sv_connections info, si_cpu_percent := sv_cpu_percent info,
     si_load_score := sv_load_score info\<rparr>"

definition renew :: "nat \<Rightarrow> inst_ref \<Rightarrow> registrar \<Rightarrow> registrar" where
  "renew now p st = (let (h, r) = register_instance now p TTL False (rt_heap st) (rt_reg st)
                     in st\<lparr>rt_reg := r, rt_heap := h\<rparr>)"

definition find_in_snapshot :: "inst_heap \<Rightarrow> string \<Rightarrow> (string \<times> (string \<times> inst_ref) list) list \<Rightarrow> inst_ref option" where
  "find_in_snapshot h i snap = find (\<lambda>p. si_id (h p) = i) (concat (map (map snd \<circ> snd) snap))"

text \<open>The first half of the heartbeat: renew from the cache, else from the table, else enlist again.\<close>

definition heartbeat_instance :: "center_clock \<Rightarrow> nat \<Rightarrow> service_info \<Rightarrow> registrar \<Rightarrow> inst_ref option \<times> registrar" where
  "heartbeat_instance clk client_fd info st =
     (let cached = (case rt_fd_to_inst st (fd_key client_fd) of None \<Rightarrow> None
                    | Some p \<Rightarrow> if si_id (rt_heap st p) = sv_id info then Some p else None)
      in case cached of
           Some p \<Rightarrow>
             (Some p, renew (ck_now clk) p (st\<lparr>rt_heap := (rt_heap st)(p := upd_metrics info (rt_heap st p))\<rparr>))
         | None \<Rightarrow>
             (case find_in_snapshot (rt_heap st) (sv_id info) (snapshot (rt_reg st)) of
                Some p \<Rightarrow>
                  (Some p, (renew (ck_now clk) p st)\<lparr>rt_fd_to_inst := (rt_fd_to_inst st)(fd_key client_fd \<mapsto> p)\<rparr>)
              | None \<Rightarrow>
                  (let st1 = enlist client_fd (ck_now clk) (make_instance info 0 (ck_now clk)) st
                   in (Some (rt_fresh st),
                       st1\<lparr>rt_got_full_update := rt_got_full_update st1 - {client_fd}\<rparr>))))"

definition fill_info :: "inst_heap \<Rightarrow> inst_ref \<Rightarrow> bool \<Rightarrow> service_info" where
  "fill_info h p offline =
     \<lparr>sv_id = si_id (h p), sv_svr_name = si_svc_name (h p), sv_ip = si_address (h p),
      sv_port = int (si_port (h p)), sv_shm_recv_buffer_name = [], sv_is_daemon = False,
      sv_is_offline = offline, sv_connections = si_connections (h p),
      sv_cpu_percent = si_cpu_percent (h p), sv_load_score = si_load_score (h p)\<rparr>"

text \<open>The second half: the pending changes, or on the first empty answer the whole table.\<close>

definition heartbeat_answer :: "nat \<Rightarrow> inst_ref \<Rightarrow> registrar \<Rightarrow> center_rsp \<times> registrar" where
  "heartbeat_answer client_fd p st =
     (let (deltas, r) = pop_deltas (si_id (rt_heap st p)) (rt_reg st);
          st1 = st\<lparr>rt_reg := r\<rparr>
      in if deltas = []
         then if client_fd \<in> rt_got_full_update st
              then (UpdateRsp Error_success False [], st1)
              else (UpdateRsp Error_success True
                      (map (\<lambda>q. fill_info (rt_heap st) q False) (concat (map (map snd \<circ> snd) (snapshot r)))),
                    st1\<lparr>rt_got_full_update := insert client_fd (rt_got_full_update st)\<rparr>)
         else (UpdateRsp Error_success False
                 (map (\<lambda>e. fill_info (rt_heap st) (de_inst e) (de_op e = OFFLINE)) deltas), st1))"

definition onUpdateServiceStatus :: "center_clock \<Rightarrow> nat \<Rightarrow> service_info \<Rightarrow> registrar \<Rightarrow> registrar" where
  "onUpdateServiceStatus clk client_fd info st =
     (case heartbeat_instance clk client_fd info st of
        (None, st1) \<Rightarrow> registrar_send client_fd (UpdateRsp Error_instance_not_found False []) st1
      | (Some p, st1) \<Rightarrow>
          (let (rsp, st2) = heartbeat_answer client_fd p st1;
               st3 = registrar_send client_fd rsp st2
           in st3\<lparr>rt_reg := cleanup_expired (ck_later clk) (rt_heap st3) (rt_reg st3)\<rparr>))"

definition handleClient :: "center_clock \<Rightarrow> nat \<Rightarrow> center_msg \<Rightarrow> registrar \<Rightarrow> registrar" where
  "handleClient clk client_fd msg st =
     (case msg of
        RegistToCenter info send_time \<Rightarrow> onRegist clk client_fd info send_time st
      | UpdateServiceStatus info \<Rightarrow> onUpdateServiceStatus clk client_fd info st
      | OtherCenterMsg n \<Rightarrow> st)"

definition handleDisconnect :: "nat \<Rightarrow> registrar \<Rightarrow> registrar" where
  "handleDisconnect client_fd st =
     (let k = fd_key client_fd
      in case rt_fd_to_id st k of
           None \<Rightarrow> st
         | Some i \<Rightarrow>
             (let r1 = (case rt_fd_to_inst st k of
                          None \<Rightarrow> rt_reg st
                        | Some p \<Rightarrow> unsubscribe (si_id (rt_heap st p))
                            (deregister_instance (si_svc_name (rt_heap st p)) (si_id (rt_heap st p)) (rt_reg st)))
              in st\<lparr>rt_reg := r1, rt_fd_to_id := (rt_fd_to_id st)(k := None),
                    rt_fd_to_inst := (rt_fd_to_inst st)(k := None),
                    rt_got_full_update := rt_got_full_update st - {client_fd}\<rparr>))"

definition TcpRegistrar_ctor :: registrar where
  "TcpRegistrar_ctor = \<lparr>rt_reg = ServiceRegistry_ctor, rt_heap = (\<lambda>p. make_instance
       \<lparr>sv_id = [], sv_svr_name = [], sv_ip = [], sv_port = 0, sv_shm_recv_buffer_name = [], sv_is_daemon = False,
        sv_is_offline = False, sv_connections = 0, sv_cpu_percent = 0, sv_load_score = 0\<rparr> 0 0),
     rt_fresh = 0, rt_fd_to_id = Map.empty, rt_fd_to_inst = Map.empty, rt_got_full_update = {}, rt_sent = []\<rparr>"

section \<open>Heartbeats of known connections\<close>

lemma reg_wf_names: "name_of h = name_of h' \<Longrightarrow> reg_wf h r \<longleftrightarrow> reg_wf h' r"
  by (simp add: reg_wf_def)

lemma id_free_present: "reg_wf h r \<Longrightarrow> name_of h p \<in> present r \<Longrightarrow> id_free h p r"
  using reg_wfD(6) by (fastforce simp: id_free_def name_of_def)

lemma name_of_metrics [simp]: "name_of (h(p := upd_metrics info (h p))) = name_of h"
  by (simp add: name_of_def upd_metrics_def fun_eq_iff)

lemma upd_metrics_sel [simp]:
  "si_id (upd_metrics info i) = si_id i" "si_svc_name (upd_metrics info i) = si_svc_name i"
  by (simp_all add: upd_metrics_def)

lemma register_keeps:
  "present (snd (register_instance now p ttl False h r)) = insert (name_of h p) (present r)"
  "pending (snd (register_instance now p ttl False h r)) = pending r"
  by (simp_all add: present_register pending_register fun_eq_iff option.map_ident)

text \<open>What the registry goes through in the heartbeat of a connection whose instance is cached.\<close>

lemma heartbeat_cached:
  fixes clk :: center_clock
  assumes "rt_fd_to_inst st (fd_key c) = Some p" "si_id (rt_heap st p) = sv_id info"
  defines "h0 \<equiv> (rt_heap st)(p := upd_metrics info (rt_heap st p))"
  defines "r1 \<equiv> snd (register_instance (ck_now clk) p TTL False h0 (rt_reg st))"
  shows "rt_reg (onUpdateServiceStatus clk c info st) =
      cleanup_expired (ck_later clk) (fst (register_instance (ck_now clk) p TTL False h0 (rt_reg st)))
        (snd (pop_deltas (sv_id info) r1))"
    "rt_heap (onUpdateServiceStatus clk c info st) = fst (register_instance (ck_now clk) p TTL False h0 (rt_reg st))"
    "rt_fd_to_inst (onUpdateServiceStatus clk c info st) = rt_fd_to_inst st"
  using assms(1,2)
  by (auto simp: onUpdateServiceStatus_def heartbeat_instance_def heartbeat_answer_def renew_def registrar_send_def
      h0_def r1_def Let_def case_prod_beta)

lemma cleanup_offline:
  assumes "pending r sid = Some ds"
  shows "\<exists>new. pending (fold (expire_one h) xs r) sid = Some (ds @ new) \<and> (\<forall>e \<in> set new. de_op e = OFFLINE)"
  using assms
proof (induction xs arbitrary: r ds)
  case (Cons x xs)
  have "\<exists>new. pending (expire_one h x r) sid = Some (ds @ new) \<and> (\<forall>e \<in> set new. de_op e = OFFLINE)"
  proof (cases "snd (erase_id h x (rg_registry r) None)")
    case None
    then show ?thesis using Cons.prems by (simp add: expire_one_def case_prod_beta Let_def pending_def)
  next
    case (Some q)
    then show ?thesis using Cons.prems
      by (intro exI [of _ "if sid = x then [] else [\<lparr>de_op = OFFLINE, de_inst = q\<rparr>]"])
        (simp add: expire_one_def case_prod_beta Let_def push_pending, auto simp: pending_def)
  qed
  then obtain n1 where n1: "pending (expire_one h x r) sid = Some (ds @ n1)" "\<forall>e \<in> set n1. de_op e = OFFLINE"
    by blast
  then show ?case using Cons.IH [OF n1(1)] by (fastforce simp: ball_Un)
qed simp

lemma replay_offline:
  assumes "\<forall>e \<in> set new. de_op e = OFFLINE"
  shows "replay (map (change_of h) new) V \<subseteq> V"
  using assms
  by (induction new arbitrary: V) (fastforce simp: replay_def apply_change_def change_of_def)+

lemma replay_append: "replay (xs @ ys) V = replay ys (replay xs V)"
  by (simp add: replay_def)

text \<open>A heartbeat at which some other instance is found expired.\<close>

lemma heartbeat_expires:
  fixes clk :: center_clock
  assumes wf: "reg_wf (rt_heap st) (rt_reg st)"
    and cached: "rt_fd_to_inst st (fd_key c) = Some p" "si_id (rt_heap st p) = sv_id info"
    and listed: "name_of (rt_heap st) p \<in> present (rt_reg st)"
    and k: "sid \<noteq> sv_id info" "pending (rt_reg st) sid = Some []"
  defines "st' \<equiv> onUpdateServiceStatus clk c info st"
  shows "reg_wf (rt_heap st') (rt_reg st')" "name_of (rt_heap st') = name_of (rt_heap st)"
    "(svc, i) \<in> present (rt_reg st') \<Longrightarrow> (svc, i) \<in> present (rt_reg st)"
    "map_of (rg_expirations (rt_reg st)) i = Some e \<Longrightarrow> e < ck_later clk \<Longrightarrow> i \<noteq> sv_id info \<Longrightarrow>
       (svc, i) \<notin> present (rt_reg st')"
    "\<exists>ds. pending (rt_reg st') sid = Some ds \<and>
       agree sid (replay (map (change_of (rt_heap st')) ds) (present (rt_reg st))) (present (rt_reg st'))"
proof -
  let ?g = "(rt_heap st)(p := upd_metrics info (rt_heap st p))"
  let ?h = "fst (register_instance (ck_now clk) p TTL False ?g (rt_reg st))"
  let ?r1 = "snd (register_instance (ck_now clk) p TTL False ?g (rt_reg st))"
  let ?r2 = "snd (pop_deltas (sv_id info) ?r1)"
  note hc = heartbeat_cached [OF cached, of clk, folded st'_def]
  have wf0: "reg_wf ?g (rt_reg st)" using wf by (simp only: reg_wf_names [OF name_of_metrics])
  have "name_of ?g p \<in> present (rt_reg st)" using listed by (simp only: name_of_metrics)
  then have "reg_wf ?h ?r1" by (intro register_wf [OF wf0] id_free_present [OF wf0])
  then have wf2: "reg_wf ?h ?r2" by (rule subscription_wf(3))
  have pr2: "present ?r2 = present (rt_reg st)" using listed by (auto simp: register_keeps)
  have pe2: "pending ?r2 sid = Some []" using k by (simp add: register_keeps)
  show "reg_wf (rt_heap st') (rt_reg st')" by (simp add: hc cleanup_wf [OF wf2])
  show nm: "name_of (rt_heap st') = name_of (rt_heap st)" by (simp add: hc)
  show "(svc, i) \<in> present (rt_reg st')  \<Longrightarrow> (svc, i) \<in> present (rt_reg st)"
    using pr2 by (auto simp: hc present_cleanup [OF wf2])
  show "(svc, i) \<notin> present (rt_reg st')"
    if "map_of (rg_expirations (rt_reg st)) i = Some e" "e < ck_later clk" "i \<noteq> sv_id info"
  proof -
    have "rg_expirations ?r2 = rg_expirations ?r1" by (simp add: pop_deltas_def split: option.split)
    then have "map_of (rg_expirations ?r2) i = Some e"
      using that cached by (simp add: register_fields update_conv')
    then show ?thesis using that(2) by (simp add: hc present_cleanup [OF wf2])
  qed
  obtain cs where cs: "map_option (map (change_of ?h)) (pending (cleanup_expired (ck_later clk) ?h ?r2) sid) = Some cs"
    "agree sid (replay cs (present ?r2)) (present (cleanup_expired (ck_later clk) ?h ?r2))"
    using cleanup_log [OF wf2 pe2, of "ck_later clk"] by auto
  then show "\<exists>ds. pending (rt_reg st') sid = Some ds \<and>
       agree sid (replay (map (change_of (rt_heap st')) ds) (present (rt_reg st))) (present (rt_reg st'))"
    using pr2 by (auto simp: hc)
qed

text \<open>A renewal from the cache lists an instance again without telling anybody.\<close>

lemma late_renewal:
  fixes clk :: center_clock
  assumes wf: "reg_wf (rt_heap st) (rt_reg st)"
    and cached: "rt_fd_to_inst st (fd_key c) = Some p" "si_id (rt_heap st p) = sv_id info"
    and free: "id_free (rt_heap st) p (rt_reg st)"
    and k: "sid \<noteq> sv_id info" "pending (rt_reg st) sid = Some ds"
    and soon: "ck_later clk \<le> ck_now clk + TTL"
  defines "st' \<equiv> onUpdateServiceStatus clk c info st"
  shows "name_of (rt_heap st) p \<in> present (rt_reg st')" "name_of (rt_heap st') = name_of (rt_heap st)"
    "\<exists>new. pending (rt_reg st') sid = Some (ds @ new) \<and> (\<forall>e \<in> set new. de_op e = OFFLINE)"
proof -
  let ?g = "(rt_heap st)(p := upd_metrics info (rt_heap st p))"
  let ?h = "fst (register_instance (ck_now clk) p TTL False ?g (rt_reg st))"
  let ?q = "snd (register_instance (ck_now clk) p TTL False ?g (rt_reg st))"
  let ?r = "snd (pop_deltas (sv_id info) ?q)"
  note hc = heartbeat_cached [OF cached, of clk, folded st'_def]
  have "reg_wf ?g (rt_reg st)" using wf by (simp only: reg_wf_names [OF name_of_metrics])
  moreover have "id_free ?g p (rt_reg st)" using free by (simp add: id_free_def)
  ultimately have "reg_wf ?h ?q" by (rule register_wf)
  then have wf': "reg_wf ?h ?r" by (rule subscription_wf(3))
  have "rg_expirations ?r = rg_expirations ?q" by (simp add: pop_deltas_def split: option.split)
  then have "map_of (rg_expirations ?r) (sv_id info) = Some (ck_now clk + TTL)"
    using cached by (simp add: register_fields update_conv')
  moreover have "name_of (rt_heap st) p \<in> present ?r" by (simp add: register_keeps)
  ultimately show "name_of (rt_heap st) p \<in> present (rt_reg st')"
    using soon cached by (simp add: hc present_cleanup [OF wf'] name_of_def)
  show "name_of (rt_heap st') = name_of (rt_heap st)" by (simp add: hc)
  have "pending ?r sid = Some ds" using k by (simp add: register_keeps)
  then show "\<exists>new. pending (rt_reg st') sid = Some (ds @ new) \<and> (\<forall>e \<in> set new. de_op e = OFFLINE)"
    unfolding hc cleanup_expired_def by (rule cleanup_offline)
qed

section \<open>Properties\<close>

text \<open>
  A service that is only late with its heartbeat becomes invisible to the others for good. If its
  time runs out, the next heartbeat of any other connection takes it out of the table and reports it
  offline; its own next heartbeat then finds it in the connection's cache and puts it back without
  reporting it. A subscriber whose copy was up to date and which replays every change pending for it
  ends without the service, although the centre lists it and goes on renewing it.
\<close>

theorem late_heartbeat_hides_instance:
  assumes wf: "reg_wf (rt_heap st) (rt_reg st)"
    and other: "rt_fd_to_inst st (fd_key c') = Some q" "si_id (rt_heap st q) = sv_id info'"
      "name_of (rt_heap st) q \<in> present (rt_reg st)"
    and late: "rt_fd_to_inst st (fd_key c) = Some p" "si_id (rt_heap st p) = sv_id info"
      "name_of (rt_heap st) p \<in> present (rt_reg st)" "sv_id info \<noteq> sv_id info'"
      "map_of (rg_expirations (rt_reg st)) (sv_id info) = Some e" "e < ck_later clk'"
    and sub: "sid \<noteq> sv_id info" "sid \<noteq> sv_id info'" "pending (rt_reg st) sid = Some []"
    and soon: "ck_later clk \<le> ck_now clk + TTL"
  defines "st2 \<equiv> onUpdateServiceStatus clk c info (onUpdateServiceStatus clk' c' info' st)"
  shows "name_of (rt_heap st2) p \<in> present (rt_reg st2) \<and>
    (\<exists>ds. pending (rt_reg st2) sid = Some ds \<and>
       name_of (rt_heap st2) p \<notin> replay (map (change_of (rt_heap st2)) ds) (present (rt_reg st)))"
proof -
  let ?st1 = "onUpdateServiceStatus clk' c' info' st"
  note E = heartbeat_expires [OF wf other sub(2,3), where clk = clk']
  have nm: "name_of (rt_heap st) p = (si_svc_name (rt_heap st p), sv_id info)" using late by (simp add: name_of_def)
  have gone: "name_of (rt_heap st) p \<notin> present (rt_reg ?st1)"
    unfolding nm by (rule E(4)) (use late in auto)
  obtain ds where ds: "pending (rt_reg ?st1) sid = Some ds"
    "agree sid (replay (map (change_of (rt_heap ?st1)) ds) (present (rt_reg st))) (present (rt_reg ?st1))"
    using E(5) by blast
  have cached: "rt_fd_to_inst ?st1 (fd_key c) = Some p"
    using late(1) heartbeat_cached(3) [OF other(1,2)] by simp
  have names: "si_id (rt_heap ?st1 p) = sv_id info" "si_svc_name (rt_heap ?st1 p) = si_svc_name (rt_heap st p)"
    using fun_cong [OF E(2), of p] late(2) by (simp_all add: name_of_def)
  have "(s, sv_id info) \<in> present (rt_reg ?st1) \<Longrightarrow> s = si_svc_name (rt_heap st p)" for s
    using E(3) reg_wfD(6) [OF wf] late(3) nm by metis
  then have free: "id_free (rt_heap ?st1) p (rt_reg ?st1)" by (simp add: id_free_def names)
  note L = late_renewal [OF E(1) cached names(1) free sub(1) ds(1) soon, folded st2_def]
  obtain new where new: "pending (rt_reg st2) sid = Some (ds @ new)" "\<forall>e \<in> set new. de_op e = OFFLINE"
    using L(3) by blast
  have same: "name_of (rt_heap st2) = name_of (rt_heap st)" "change_of (rt_heap st2) = change_of (rt_heap ?st1)"
    using L(2) E(2) by (simp_all add: change_of_def fun_eq_iff)
  have "name_of (rt_heap st) p \<notin> replay (map (change_of (rt_heap ?st1)) ds) (present (rt_reg st))"
    using ds(2) gone sub(1) unfolding nm by (auto simp: agree_def)
  then have "name_of (rt_heap st) p \<notin> replay (map (change_of (rt_heap st2)) (ds @ new)) (present (rt_reg st))"
    using replay_offline [OF new(2)] by (simp add: replay_append same) blast
  then show ?thesis using L(1) E(2) new(1) by (simp add: same)
qed

text \<open>Instance 1 is one second late when instance 2 sends its heartbeat; instance 9 watches.\<close>

definition demo_info :: "string \<Rightarrow> string \<Rightarrow> service_info" where
  "demo_info svc i = \<lparr>sv_id = i, sv_svr_name = svc, sv_ip = [], sv_port = 0, sv_shm_recv_buffer_name = [],
     sv_is_daemon = False, sv_is_offline = False, sv_connections = 0, sv_cpu_percent = 0, sv_load_score = 0\<rparr>"

definition demo_center :: registrar where
  "demo_center = TcpRegistrar_ctor\<lparr>
     rt_reg := \<lparr>rg_registry = [(''logic'', [(''1'', 0)]), (''gate'', [(''2'', 1)])],
       rg_expirations = [(''1'', 15), (''2'', 20)], rg_delta_map = [(''1'', []), (''2'', []), (''9'', [])]\<rparr>,
     rt_heap := (\<lambda>p. make_instance (if p = 0 then demo_info ''logic'' ''1'' else demo_info ''gate'' ''2'') 0 0),
     rt_fd_to_inst := [fd_key 1 \<mapsto> 0, fd_key 2 \<mapsto> 1]\<rparr>"

lemma demo_center_wf: "reg_wf (rt_heap demo_center) (rt_reg demo_center)"
  by (auto simp: reg_wf_def demo_center_def look_def instances_of_def present_def name_of_def make_instance_def
      demo_info_def split: if_splits)

theorem late_heartbeat_hides_instance_witness:
  "let clk' = \<lparr>ck_us = 0, ck_now = 16, ck_later = 16\<rparr>; clk = \<lparr>ck_us = 0, ck_now = 17, ck_later = 17\<rparr>;
       st2 = onUpdateServiceStatus clk 1 (demo_info ''logic'' ''1'')
               (onUpdateServiceStatus clk' 2 (demo_info ''gate'' ''2'') demo_center)
   in name_of (rt_heap st2) 0 \<in> present (rt_reg st2) \<and>
      (\<exists>ds. pending (rt_reg st2) ''9'' = Some ds \<and>
         name_of (rt_heap st2) 0 \<notin> replay (map (change_of (rt_heap st2)) ds) (present (rt_reg demo_center)))"
  unfolding Let_def
proof (rule late_heartbeat_hides_instance [where e = 15])
  show "reg_wf (rt_heap demo_center) (rt_reg demo_center)" by (rule demo_center_wf)
  show "rt_fd_to_inst demo_center (fd_key 2) = Some 1" "rt_fd_to_inst demo_center (fd_key 1) = Some 0"
    by (simp_all add: demo_center_def fd_key_def)
  show "name_of (rt_heap demo_center) 1 \<in> present (rt_reg demo_center)"
    "name_of (rt_heap demo_center) 0 \<in> present (rt_reg demo_center)"
    by (simp_all add: demo_center_def name_of_def present_def look_def instances_of_def make_instance_def demo_info_def)
qed (simp_all add: demo_center_def make_instance_def demo_info_def pending_def TTL_def)

end
