(* ===== verification/BusNet.thy ===== *)
theory BusNet
  imports Registrar RingBuffer Packing
begin

text \<open>
  \<open>IBusNet\<close> (server/core/bus/IBusNet.h, IBusNet.cpp), the routing of messages between services, and
  \<open>BusClientNet\<close> (server/core/bus/BusClientNet.cpp), what an ordinary service does with a route. The
  rings of the machine are a map from names to mapped regions; \<open>shm_open size name old\<close> (the operating
  system, a parameter) is the region \<open>Open\<close> maps under a name, \<^term>\<open>None\<close> when it fails. The virtual
  \<open>sendMsgByServiceInfo\<close> is an argument of \<open>sendMsgTo\<close>.
\<close>

section \<open>State\<close>

type_synonym service_map = "(string \<times> service_info list) list"
type_synonym name_instances = "(string \<times> service_instances) list"

record net_options =
  op_region_id :: nat
  op_zone_id :: nat
  op_service_id :: nat
  op_instance_id :: nat
  op_local_ring_size :: nat
  op_local_ip :: string
  op_local_port :: int
  op_center_ip :: string
  op_center_port :: int

definition client_id :: "net_options \<Rightarrow> string" where
  "client_id opts = (let part = (\<lambda>k. bytes_str (to_string (int k))) in
     part (op_region_id opts) @ ''.'' @ part (op_zone_id opts) @ ''.'' @
     part (op_service_id opts) @ ''.'' @ part (op_instance_id opts))"

text \<open>What a ring holds is the struct \<open>AppMsgWrapper\<close>: the offset of the packet and its destination.\<close>

type_synonym msg_ref = "nat \<times> 8 word list"

type_synonym shm_rings = "string \<rightharpoonup> msg_ref ring"
type_synonym shm_opener = "nat \<Rightarrow> string \<Rightarrow> msg_ref ring option \<Rightarrow> msg_ref ring option"

record bus_net =
  bn_options :: net_options
  bn_service_map :: "service_map option"
  bn_name_instances :: "name_instances option"
  bn_local_busd :: "string option"
  bn_local_services :: "string \<rightharpoonup> string"
  bn_ready :: bool
  bn_has_center :: bool
  bn_local_info :: service_info
  bn_to_center :: "center_msg list"
  bn_timers :: nat
  bn_rings :: shm_rings

text \<open>Opening a ring under a name: what is mapped there is re-initialised by the constructor.\<close>

definition default_ring_size :: nat where "default_ring_size = 2 ^ 20"
definition sizeof_AppMsgWrapper :: nat where "sizeof_AppMsgWrapper = 20"

definition open_ring ::
  "shm_opener \<Rightarrow> nat \<Rightarrow> string \<Rightarrow> bus_net \<Rightarrow> fault + bus_net" where
  "open_ring shm_open sz name n =
     (case ShmRingBuffer_ctor sizeof_AppMsgWrapper sz (shm_open sz name (bn_rings n name)) of
        None \<Rightarrow> Inl Thrown
      | Some ring \<Rightarrow> Inr (n\<lparr>bn_rings := (bn_rings n)(name \<mapsto> ring)\<rparr>))"

definition push_ring :: "string \<Rightarrow> msg_ref \<Rightarrow> bus_net \<Rightarrow> fault + bool \<times> bus_net" where
  "push_ring name msg n =
     (case bn_rings n name of
        None \<Rightarrow> Inl Undefined
      | Some ring \<Rightarrow>
          (case Push ring msg of
             None \<Rightarrow> Inl Undefined
           | Some (ok, ring') \<Rightarrow> Inr (ok, n\<lparr>bn_rings := (bn_rings n)(name \<mapsto> ring')\<rparr>)))"

section \<open>Talking to the centre\<close>

definition IBusNet_genServiceInfo :: "bus_net \<Rightarrow> bus_net" where
  "IBusNet_genServiceInfo n = n\<lparr>bn_local_info := (bn_local_info n)\<lparr>sv_ip := ''127.0.0.1'', sv_port := 3099,
     sv_is_daemon := False\<rparr>\<rparr>"

definition BusClientNet_genServiceInfo :: "bus_net \<Rightarrow> bus_net" where
  "BusClientNet_genServiceInfo n = (let opts = bn_options n in
     n\<lparr>bn_local_info := (bn_local_info n)\<lparr>sv_ip := op_local_ip opts, sv_port := op_local_port opts, sv_is_daemon := False,
        sv_id := client_id opts, sv_svr_name := ''service_'' @ bytes_str (to_string (int (op_service_id opts))),
        sv_shm_recv_buffer_name := ''/ibus_'' @ client_id opts\<rparr>\<rparr>)"

definition sendMsgToCenter :: "center_msg \<Rightarrow> bus_net \<Rightarrow> bus_net" where
  "sendMsgToCenter msg n = (if bn_has_center n then n\<lparr>bn_to_center := bn_to_center n @ [msg]\<rparr> else n)"

text \<open>One round of the loop of \<open>regist2Center\<close>; the answer arrives on another thread between rounds.\<close>

definition regist2Center_round :: "bus_net \<Rightarrow> bus_net option" where
  "regist2Center_round n =
     (if \<not> bn_ready n \<and> bn_has_center n then Some (sendMsgToCenter (RegistToCenter (bn_local_info n) 0) n) else None)"

definition onCenterRegistRsp :: "ss_error \<Rightarrow> bus_net \<Rightarrow> bus_net" where
  "onCenterRegistRsp err n =
     (if err \<noteq> Error_success then n else n\<lparr>bn_ready := True, bn_timers := bn_timers n + 1\<rparr>)"

definition updateServiceStatusReq :: "bus_net \<Rightarrow> bus_net" where
  "updateServiceStatusReq n =
     (if \<not> bn_ready n then n else sendMsgToCenter (UpdateServiceStatus (bn_local_info n)) n)"

text \<open>One entry of the answer; the instance under an id is created once, then only its load changes.\<close>

definition route_instance :: "service_info \<Rightarrow> service_instance" where
  "route_instance s =
     \<lparr>si_id = sv_id s, si_svc_name = sv_svr_name s, si_address = sv_ip s, si_port = nat (sv_port s mod 2 ^ 16),
      si_weight = 1, si_shm_recv_buffer_name = sv_shm_recv_buffer_name s, si_metadata = [], si_healthy = True,
      si_connections = sv_connections s, si_last_seen = 0, si_avg_latency_us = 0,
      si_cpu_percent = sv_cpu_percent s, si_load_score = sv_load_score s\<rparr>"

definition add_route :: "service_info \<Rightarrow> service_map \<times> name_instances \<Rightarrow> service_map \<times> name_instances" where
  "add_route s tabs =
     (let (ids, names) = tabs;
          ids1 = AList.update (sv_id s) ((case map_of ids (sv_id s) of None \<Rightarrow> [] | Some ss \<Rightarrow> ss) @ [s]) ids;
          insts = (case map_of names (sv_svr_name s) of None \<Rightarrow> [] | Some m \<Rightarrow> m);
          inst1 = (case map_of insts (sv_id s) of None \<Rightarrow> route_instance s | Some i \<Rightarrow> upd_metrics s i)
      in (ids1, AList.update (sv_svr_name s) (AList.update (sv_id s) inst1 insts) names))"

fun rebuild_routes ::
  "shm_opener \<Rightarrow> service_info list \<Rightarrow>
     service_map \<times> name_instances \<Rightarrow> bus_net \<Rightarrow> fault + (service_map \<times> name_instances) \<times> bus_net" where
  "rebuild_routes shm_open [] tabs n = Inr (tabs, n)"
| "rebuild_routes shm_open (s # ss) tabs n =
     (if sv_is_offline s then rebuild_routes shm_open ss tabs n
      else if bn_local_busd n = None \<and> sv_is_daemon s \<and> sv_ip s = sv_ip (bn_local_info n)
      then (case open_ring shm_open default_ring_size (sv_shm_recv_buffer_name s) n of
              Inl f \<Rightarrow> Inl f
            | Inr n1 \<Rightarrow> rebuild_routes shm_open ss (add_route s tabs)
                (n1\<lparr>bn_local_busd := Some (sv_shm_recv_buffer_name s)\<rparr>))
      else rebuild_routes shm_open ss (add_route s tabs) n)"

definition onCenterUpdateServiceStatusRsp ::
  "shm_opener \<Rightarrow> ss_error \<Rightarrow> bool \<Rightarrow>
     service_info list \<Rightarrow> bus_net \<Rightarrow> fault + bus_net" where
  "onCenterUpdateServiceStatusRsp shm_open err is_full_update infos n =
     (if err \<noteq> Error_success then Inr n
      else (case rebuild_routes shm_open infos ([], []) n of
              Inl f \<Rightarrow> Inl f
            | Inr ((ids, names), n1) \<Rightarrow> Inr (n1\<lparr>bn_service_map := Some ids, bn_name_instances := Some names\<rparr>)))"

definition onRecvMsg ::
  "shm_opener \<Rightarrow> center_rsp \<Rightarrow> bus_net \<Rightarrow> fault + bus_net" where
  "onRecvMsg shm_open rsp n =
     (case rsp of
        RegistRsp err \<Rightarrow> Inr (onCenterRegistRsp err n)
      | UpdateRsp err full infos \<Rightarrow> onCenterUpdateServiceStatusRsp shm_open err full infos n)"

section \<open>Routing\<close>

definition is_alpha :: "char \<Rightarrow> bool" where
  "is_alpha c \<longleftrightarrow> (let k = of_char c :: nat in 65 \<le> k \<and> k \<le> 90 \<or> 97 \<le> k \<and> k \<le> 122)"

definition first_info :: "service_map option \<Rightarrow> string \<Rightarrow> service_info option" where
  "first_info m i = (case m of None \<Rightarrow> None | Some ids \<Rightarrow>
     (case map_of ids i of None \<Rightarrow> None | Some ss \<Rightarrow> (case ss of [] \<Rightarrow> None | s # _ \<Rightarrow> Some s)))"

text \<open>The choice of a route; a fresh balancer is created for every message, its state is dropped.\<close>

definition choose_route ::
  "(string \<Rightarrow> nat) \<Rightarrow> (nat \<Rightarrow> nat) \<Rightarrow> string \<Rightarrow> lb_strategy \<Rightarrow> bus_net \<Rightarrow> fault + service_info option" where
  "choose_route hash rng target strategy n =
     (if \<exists>c \<in> set target. is_alpha c
      then (case bn_name_instances n of
              None \<Rightarrow> Inr None
            | Some names \<Rightarrow>
                (case map_of names target of
                   None \<Rightarrow> Inr None
                 | Some insts \<Rightarrow>
                     if insts = [] then Inr None
                     else (case create_by_strategy strategy LBFactory_ctor of
                             Inl f \<Rightarrow> Inl f
                           | Inr lb \<Rightarrow>
                               (case snd (lb_select hash rng lb insts []) of
                                  None \<Rightarrow> Inr None
                                | Some selected \<Rightarrow> Inr (first_info (bn_service_map n) (si_id selected))))))
      else Inr (first_info (bn_service_map n) target))"

definition sendMsgTo ::
  "(service_info \<Rightarrow> msg_ref \<Rightarrow> 'n \<Rightarrow> fault + bool \<times> 'n) \<Rightarrow> ('n \<Rightarrow> bus_net) \<Rightarrow> (string \<Rightarrow> nat) \<Rightarrow> (nat \<Rightarrow> nat) \<Rightarrow>
     string \<Rightarrow> msg_ref \<Rightarrow> lb_strategy \<Rightarrow> 'n \<Rightarrow> fault + bool \<times> 'n" where
  "sendMsgTo sendMsgByServiceInfo net hash rng target msg strategy n =
     (case choose_route hash rng target strategy (net n) of
        Inl f \<Rightarrow> Inl f
      | Inr None \<Rightarrow> Inr (False, n)
      | Inr (Some info) \<Rightarrow> sendMsgByServiceInfo info msg n)"

section \<open>BusClientNet\<close>

definition BusClientNet_sendMsgByServiceInfo ::
  "shm_opener \<Rightarrow> service_info \<Rightarrow> msg_ref \<Rightarrow>
     bus_net \<Rightarrow> fault + bool \<times> bus_net" where
  "BusClientNet_sendMsgByServiceInfo shm_open info msg n =
     (if ''127.0.0.1'' = sv_ip info
      then (let opened = (case bn_local_services n (sv_id info) of
                            Some name \<Rightarrow> Inr n
                          | None \<Rightarrow>
                              (case open_ring shm_open default_ring_size (sv_shm_recv_buffer_name info) n of
                                 Inl f \<Rightarrow> Inl f
                               | Inr n1 \<Rightarrow> Inr (n1\<lparr>bn_local_services :=
                                   (bn_local_services n1)(sv_id info \<mapsto> sv_shm_recv_buffer_name info)\<rparr>)))
            in case opened of
                 Inl f \<Rightarrow> Inl f
               | Inr n1 \<Rightarrow>
                   (case bn_local_services n1 (sv_id info) of
                      None \<Rightarrow> Inl Undefined
                    | Some name \<Rightarrow> push_ring name msg n1))
      else (case bn_local_busd n of
              None \<Rightarrow> Inr (False, n)
            | Some name \<Rightarrow> push_ring name msg n))"

definition BusClientNet_broadCast :: "msg_ref \<Rightarrow> bus_net \<Rightarrow> fault + bus_net" where
  "BusClientNet_broadCast msg n =
     (case bn_local_busd n of None \<Rightarrow> Inr n | Some name \<Rightarrow> map_sum id snd (push_ring name msg n))"

definition BusClientNet_sendMsgToGroup :: "string \<Rightarrow> msg_ref \<Rightarrow> bus_net \<Rightarrow> fault + bool \<times> bus_net" where
  "BusClientNet_sendMsgToGroup groupName msg n =
     (case bn_local_busd n of
        None \<Rightarrow> Inr (False, n)
      | Some name \<Rightarrow> (case push_ring name msg n of Inl f \<Rightarrow> Inl f | Inr (ok, n1) \<Rightarrow> Inr (True, n1)))"

definition BusClientNet_sendMsgTo where
  "BusClientNet_sendMsgTo shm_open = sendMsgTo (BusClientNet_sendMsgByServiceInfo shm_open) (\<lambda>n. n)"

section \<open>What the routing tables hold\<close>

lemma rebuild_tables:
  "rebuild_routes shm_open infos tabs n = Inr (tabs', n') \<Longrightarrow>
     tabs' = fold add_route (filter (\<lambda>s. \<not> sv_is_offline s) infos) tabs"
  by (induction shm_open infos tabs n rule: rebuild_routes.induct) (auto split: if_splits sum.splits)

lemma update_subset: "set (AList.update k v xs) \<subseteq> insert (k, v) (set xs)"
  by (induction xs) auto

lemma update_not_Nil [simp]: "AList.update k v xs \<noteq> []"
  by (cases xs) (simp_all split: prod.split)

text \<open>The tables after the entries \<open>seen\<close>: every instance listed under a name has a route by its id.\<close>

definition tables_ok :: "service_info list \<Rightarrow> service_map \<Rightarrow> name_instances \<Rightarrow> bool" where
  "tables_ok seen ids names \<longleftrightarrow>
     (\<forall>i. map_of ids i = (let ss = filter (\<lambda>s. sv_id s = i) seen in if ss = [] then None else Some ss)) \<and>
     (\<forall>svc. map_of names svc = None \<longleftrightarrow> (\<forall>s \<in> set seen. sv_svr_name s \<noteq> svc)) \<and>
     (\<forall>svc insts. map_of names svc = Some insts \<longrightarrow> insts \<noteq> [] \<and>
        (\<forall>(k, x) \<in> set insts. si_id x = k \<and> (\<exists>s \<in> set seen. sv_svr_name s = svc \<and> sv_id s = k)))"

lemma tables_okD:
  assumes "tables_ok seen ids names"
  shows "map_of ids i = (let ss = filter (\<lambda>s. sv_id s = i) seen in if ss = [] then None else Some ss)"
    "map_of names svc = None \<longleftrightarrow> (\<forall>s \<in> set seen. sv_svr_name s \<noteq> svc)"
    "map_of names svc = Some insts \<Longrightarrow> insts \<noteq> []"
    "map_of names svc = Some insts \<Longrightarrow> (k, x) \<in> set insts \<Longrightarrow>
       si_id x = k \<and> (\<exists>s \<in> set seen. sv_svr_name s = svc \<and> sv_id s = k)"
  using assms unfolding tables_ok_def by blast+

lemma add_route_ok:
  assumes ok: "tables_ok seen ids names"
  shows "tables_ok (seen @ [s]) (fst (add_route s (ids, names))) (snd (add_route s (ids, names)))"
  unfolding tables_ok_def
proof (intro conjI allI impI)
  note T = tables_okD [OF ok]
  let ?insts = "case map_of names (sv_svr_name s) of None \<Rightarrow> [] | Some m \<Rightarrow> m"
  let ?x = "case map_of ?insts (sv_id s) of None \<Rightarrow> route_instance s | Some i \<Rightarrow> upd_metrics s i"
  have ids: "map_of (fst (add_route s (ids, names))) i =
      (if i = sv_id s then Some ((case map_of ids i of None \<Rightarrow> [] | Some ss \<Rightarrow> ss) @ [s]) else map_of ids i)" for i
    by (simp add: add_route_def Let_def update_conv')
  have names: "map_of (snd (add_route s (ids, names))) svc =
      (if svc = sv_svr_name s then Some (AList.update (sv_id s) ?x ?insts) else map_of names svc)" for svc
    by (simp add: add_route_def Let_def update_conv')
  show "map_of (fst (add_route s (ids, names))) i =
      (let ss = filter (\<lambda>s. sv_id s = i) (seen @ [s]) in if ss = [] then None else Some ss)" for i
    by (auto simp: ids T(1) Let_def)
  show "map_of (snd (add_route s (ids, names))) svc = None \<longleftrightarrow> (\<forall>s \<in> set (seen @ [s]). sv_svr_name s \<noteq> svc)" for svc
    by (auto simp: names T(2))
  fix svc insts
  assume i: "map_of (snd (add_route s (ids, names))) svc = Some insts"
  show "insts \<noteq> []" using i T(3) by (auto simp: names split: if_splits)
  have old: "si_id y = k \<and> (\<exists>u \<in> set seen. sv_svr_name u = sv_svr_name s \<and> sv_id u = k)" if "(k, y) \<in> set ?insts" for k y
    using that T(4) [of "sv_svr_name s"] by (cases "map_of names (sv_svr_name s)") auto
  have x: "si_id ?x = sv_id s"
    using old [of "sv_id s"] by (auto simp: route_instance_def split: option.split dest: map_of_SomeD)
  show "\<forall>(k, y) \<in> set insts. si_id y = k \<and> (\<exists>u \<in> set (seen @ [s]). sv_svr_name u = svc \<and> sv_id u = k)"
  proof (cases "svc = sv_svr_name s")
    case True
    then have "set insts \<subseteq> insert (sv_id s, ?x) (set ?insts)" using i update_subset by (fastforce simp: names)
    then show ?thesis using old x True by fastforce
  next
    case False
    then show ?thesis using i T(4) by (fastforce simp: names)
  qed
qed

lemma fold_add_route:
  assumes "tables_ok seen (fst tabs) (snd tabs)"
  shows "tables_ok (seen @ ss) (fst (fold add_route ss tabs)) (snd (fold add_route ss tabs))"
  using assms
proof (induction ss arbitrary: seen tabs)
  case (Cons s ss)
  then show ?case using Cons.IH [of "seen @ [s]"] add_route_ok [of seen "fst tabs" "snd tabs" s] by simp
qed simp

lemma answer_tables:
  assumes "onCenterUpdateServiceStatusRsp shm_open Error_success full infos n = Inr n'"
  obtains ids names where "bn_service_map n' = Some ids" "bn_name_instances n' = Some names"
    "tables_ok (filter (\<lambda>s. \<not> sv_is_offline s) infos) ids names"
proof -
  obtain ids names n1 where r: "rebuild_routes shm_open infos ([], []) n = Inr ((ids, names), n1)"
    and n': "n' = n1\<lparr>bn_service_map := Some ids, bn_name_instances := Some names\<rparr>"
    using assms by (auto simp: onCenterUpdateServiceStatusRsp_def split: sum.splits)
  have "tables_ok [] [] []" by (simp add: tables_ok_def)
  then have "tables_ok (filter (\<lambda>s. \<not> sv_is_offline s) infos) ids names"
    using fold_add_route [of "[]" "([], [])" "filter (\<lambda>s. \<not> sv_is_offline s) infos"] rebuild_tables [OF r]
    by (simp add: prod_eq_iff)
  then show thesis using that n' by simp
qed

text \<open>Every strategy but the smooth one always has an answer on a table that is not empty.\<close>

lemma fresh_balancer_selects:
  assumes "insts \<noteq> []" "strategy \<noteq> SmoothWeighted"
  shows "\<exists>lb i. create_by_strategy strategy LBFactory_ctor = Inr lb \<and>
    snd (lb_select hash rng lb insts []) = Some i \<and> i \<in> snd ` set insts"
  using assms(2)
proof (cases strategy)
  case RoundRobin
  then show ?thesis using rr.sel_some [OF assms(1), of 0]
    by (auto simp: create_by_strategy_def LBFactory_ctor_def lb_select_def)
next
  case WeightedRR
  then show ?thesis using wrr.sel_some [OF assms(1), of 0]
    by (auto simp: create_by_strategy_def LBFactory_ctor_def lb_select_def)
next
  case LeastConn
  then show ?thesis using least_conn.sel_some [OF assms(1), of "()"]
    by (auto simp: create_by_strategy_def LBFactory_ctor_def lb_select_def)
next
  case ConsHash
  then show ?thesis using hashed.sel_some [OF assms(1), of hash]
    by (auto simp: create_by_strategy_def LBFactory_ctor_def lb_select_def)
next
  case LatencyAware
  then show ?thesis using latency.sel_some [OF assms(1), of "()"]
    by (auto simp: create_by_strategy_def LBFactory_ctor_def lb_select_def)
next
  case WeightedLoad
  then show ?thesis using rolled.sel_some [OF assms(1), of rng]
    by (auto simp: create_by_strategy_def LBFactory_ctor_def lb_select_def)
next
  case LeastLoad
  then show ?thesis using least_load.sel_some [OF assms(1), of "()"]
    by (auto simp: create_by_strategy_def LBFactory_ctor_def lb_select_def)
next
  case MostLoad
  then show ?thesis using most_load.sel_some [OF assms(1), of "()"]
    by (auto simp: create_by_strategy_def LBFactory_ctor_def lb_select_def)
qed simp

lemma route_by_name:
  assumes ok: "tables_ok seen ids names"
    and n: "bn_service_map n = Some ids" "bn_name_instances n = Some names"
    and target: "\<exists>c \<in> set target. is_alpha c" and "strategy \<noteq> SmoothWeighted"
  shows "if \<exists>s \<in> set seen. sv_svr_name s = target
    then \<exists>info \<in> set seen. choose_route hash rng target strategy n = Inr (Some info) \<and>
       (\<exists>s \<in> set seen. sv_svr_name s = target \<and> sv_id s = sv_id info)
    else choose_route hash rng target strategy n = Inr None"
proof (cases "map_of names target")
  case None
  then show ?thesis using tables_okD(2) [OF ok, of target] n target by (simp add: choose_route_def)
next
  case (Some insts)
  note T = tables_okD [OF ok]
  have ne: "insts \<noteq> []" using T(3) [OF Some] .
  obtain lb x where lb: "create_by_strategy strategy LBFactory_ctor = Inr lb"
    "snd (lb_select hash rng lb insts []) = Some x" "x \<in> snd ` set insts"
    using fresh_balancer_selects [OF ne assms(5)] by blast
  then obtain s where s: "s \<in> set seen" "sv_svr_name s = target" "sv_id s = si_id x" using T(4) [OF Some] by force
  let ?ss = "filter (\<lambda>s. sv_id s = si_id x) seen"
  have mem: "s \<in> set ?ss" using s by simp
  then obtain info rest where ss: "?ss = info # rest" by (cases ?ss) auto
  then have "info \<in> set ?ss" by simp
  then have info: "info \<in> set seen" "sv_id info = si_id x" by simp_all
  have "choose_route hash rng target strategy n = Inr (first_info (Some ids) (si_id x))"
    using n target ne Some lb by (simp add: choose_route_def)
  also have "first_info (Some ids) (si_id x) = Some info" by (simp add: first_info_def T(1) ss Let_def)
  finally show ?thesis using info s by auto
qed

section \<open>What the centre sends\<close>

text \<open>Every entry the centre fills in lacks the buffer name and the daemon flag.\<close>

definition blank_entry :: "service_info \<Rightarrow> bool" where
  "blank_entry s \<longleftrightarrow> sv_shm_recv_buffer_name s = [] \<and> \<not> sv_is_daemon s"

fun blank_answer :: "center_rsp \<Rightarrow> bool" where
  "blank_answer (RegistRsp err) = True"
| "blank_answer (UpdateRsp err full infos) = (\<forall>s \<in> set infos. blank_entry s)"

lemma fill_info_blank [simp]: "blank_entry (fill_info h p off)"
  by (simp add: blank_entry_def fill_info_def)

lemma answer_blank: "blank_answer (fst (heartbeat_answer c p st))"
  by (auto simp: heartbeat_answer_def Let_def case_prod_beta)

lemma sent_simps [simp]:
  "rt_sent (registrar_send c rsp st) = rt_sent st @ [(c, rsp)]"
  "rt_sent (enlist c now inst st) = rt_sent st"
  "rt_sent (renew now p st) = rt_sent st"
  "rt_sent (snd (heartbeat_answer c p st)) = rt_sent st"
  "rt_sent (snd (heartbeat_instance clk c info st)) = rt_sent st"
  by (auto simp: registrar_send_def enlist_def renew_def heartbeat_answer_def heartbeat_instance_def Let_def
      case_prod_beta split: option.split)

text \<open>The centre as a step relation: a message from a connection, or the end of one.\<close>

inductive center_step :: "registrar \<Rightarrow> registrar \<Rightarrow> bool" where
  message: "center_step st (handleClient clk c msg st)"
| disconnect: "center_step st (handleDisconnect c st)"

inductive center_reachable :: "registrar \<Rightarrow> bool" where
  init: "center_reachable TcpRegistrar_ctor"
| step: "center_reachable st \<Longrightarrow> center_step st st' \<Longrightarrow> center_reachable st'"

lemma handler_sends_blank:
  assumes "\<forall>m \<in> set (rt_sent st). blank_answer (snd m)"
  shows "\<forall>m \<in> set (rt_sent (handleClient clk c msg st)). blank_answer (snd m)"
proof (cases msg)
  case (UpdateServiceStatus info)
  obtain o' st1 where h: "heartbeat_instance clk c info st = (o', st1)" by (cases "heartbeat_instance clk c info st")
  then have s1: "rt_sent st1 = rt_sent st" using sent_simps(5) [of clk c info st] by simp
  show ?thesis
  proof (cases o')
    case None
    then show ?thesis using assms by (simp add: UpdateServiceStatus handleClient_def onUpdateServiceStatus_def h s1)
  next
    case (Some p)
    obtain rsp st2 where a: "heartbeat_answer c p st1 = (rsp, st2)" by (cases "heartbeat_answer c p st1")
    then have "blank_answer rsp" "rt_sent st2 = rt_sent st"
      using answer_blank [of c p st1] sent_simps(4) [of c p st1] s1 by simp_all
    then show ?thesis using assms
      by (simp add: UpdateServiceStatus handleClient_def onUpdateServiceStatus_def h Some a Let_def)
  qed
qed (use assms in \<open>simp_all add: handleClient_def onRegist_def Let_def\<close>)

lemma center_sends_blank:
  "center_reachable st \<Longrightarrow> \<forall>m \<in> set (rt_sent st). blank_answer (snd m)"
proof (induction rule: center_reachable.induct)
  case init
  then show ?case by (simp add: TcpRegistrar_ctor_def)
next
  case (step st st')
  from step(2) show ?case
  proof cases
    case (message clk c msg)
    then show ?thesis using handler_sends_blank [OF step.IH] by simp
  next
    case (disconnect c)
    then show ?thesis using step.IH by (auto simp: handleDisconnect_def Let_def split: option.split)
  qed
qed

text \<open>A service that only knows routes of the centre: no busd link, no ring but those opened by name.\<close>

definition blank_net :: "bus_net \<Rightarrow> bool" where
  "blank_net n \<longleftrightarrow> bn_local_busd n = None \<and> bn_local_services n = Map.empty \<and>
     (\<forall>ids. bn_service_map n = Some ids \<longrightarrow>
        (\<forall>i ss. map_of ids i = Some ss \<longrightarrow> (\<forall>s \<in> set ss. blank_entry s)))"

lemma rebuild_blank:
  assumes "\<forall>s \<in> set infos. blank_entry s" "bn_local_busd n = None"
  shows "rebuild_routes shm_open infos tabs n =
    Inr (fold add_route (filter (\<lambda>s. \<not> sv_is_offline s) infos) tabs, n)"
  using assms(1) by (induction infos arbitrary: tabs) (auto simp: blank_entry_def assms(2))

lemma answer_keeps_blank:
  assumes n: "blank_net n" and r: "blank_answer rsp"
  shows "\<exists>n'. onRecvMsg shm_open rsp n = Inr n' \<and> blank_net n'"
proof (cases rsp)
  case (RegistRsp err)
  then show ?thesis using n by (simp add: onRecvMsg_def onCenterRegistRsp_def blank_net_def)
next
  case (UpdateRsp err full infos)
  let ?on = "filter (\<lambda>s. \<not> sv_is_offline s) infos"
  let ?tabs = "fold add_route ?on ([], [])"
  have b: "\<forall>s \<in> set infos. blank_entry s" "bn_local_busd n = None"
    using r n UpdateRsp by (simp_all add: blank_net_def)
  have "tables_ok [] [] []" by (simp add: tables_ok_def)
  then have ok: "tables_ok ?on (fst ?tabs) (snd ?tabs)" using fold_add_route [of "[]" "([], [])" ?on] by simp
  have "\<forall>s \<in> set ss. blank_entry s" if "map_of (fst ?tabs) i = Some ss" for i ss
    using that b(1) tables_okD(1) [OF ok, of i] by (auto simp: Let_def split: if_splits)
  then show ?thesis using n
    by (cases "fold add_route ?on ([], [])")
      (auto simp: UpdateRsp onRecvMsg_def onCenterUpdateServiceStatusRsp_def rebuild_blank [OF b] blank_net_def)
qed

fun receive_all ::
  "shm_opener \<Rightarrow> center_rsp list \<Rightarrow> bus_net \<Rightarrow> fault + bus_net" where
  "receive_all shm_open [] n = Inr n"
| "receive_all shm_open (rsp # rsps) n =
     (case onRecvMsg shm_open rsp n of Inl f \<Rightarrow> Inl f | Inr n1 \<Rightarrow> receive_all shm_open rsps n1)"

lemma receive_all_blank:
  assumes "blank_net n" "\<forall>rsp \<in> set rsps. blank_answer rsp"
  shows "\<exists>n'. receive_all shm_open rsps n = Inr n' \<and> blank_net n'"
  using assms
proof (induction rsps arbitrary: n)
  case (Cons rsp rsps)
  then obtain n1 where "onRecvMsg shm_open rsp n = Inr n1" "blank_net n1"
    using answer_keeps_blank [of n rsp shm_open] by auto
  then show ?case using Cons by simp
qed simp

text \<open>
  \<open>init\<close> up to its registration loop; \<open>connects\<close> says whether \<open>TcpClient::start\<close> succeeds.
\<close>

definition BusClientNet_init :: "net_options \<Rightarrow> bool \<Rightarrow> shm_rings \<Rightarrow> bus_net" where
  "BusClientNet_init opts connects rings = BusClientNet_genServiceInfo
     \<lparr>bn_options = opts, bn_service_map = None, bn_name_instances = None, bn_local_busd = None,
      bn_local_services = Map.empty, bn_ready = False,
      bn_has_center = (op_center_ip opts \<noteq> [] \<and> 0 < op_center_port opts \<and> connects),
      bn_local_info = \<lparr>sv_id = [], sv_svr_name = [], sv_ip = [], sv_port = 0, sv_shm_recv_buffer_name = [],
        sv_is_daemon = False, sv_is_offline = False, sv_connections = 0, sv_cpu_percent = 0, sv_load_score = 0\<rparr>,
      bn_to_center = [], bn_timers = 0, bn_rings = rings\<rparr>"

lemma init_blank: "blank_net (BusClientNet_init opts connects rings)"
  by (simp add: BusClientNet_init_def BusClientNet_genServiceInfo_def blank_net_def Let_def)

lemma blank_route:
  assumes "blank_net n" "choose_route hash rng target strategy n = Inr (Some info)"
  shows "blank_entry info"
  using assms
  by (auto simp: choose_route_def first_info_def blank_net_def split: if_splits option.splits sum.splits list.splits)

lemma blank_send:
  assumes n: "blank_net n" and os: "shm_open default_ring_size [] (bn_rings n []) = None"
  shows "BusClientNet_sendMsgTo shm_open hash rng target msg strategy n \<in> {Inr (False, n), Inl Thrown}"
proof (cases "choose_route hash rng target strategy n")
  case (Inl f)
  then have "f = Thrown"
    by (auto simp: choose_route_def create_by_strategy_def split: if_splits option.splits sum.splits)
  then show ?thesis by (simp add: BusClientNet_sendMsgTo_def sendMsgTo_def Inl)
next
  case (Inr r)
  show ?thesis
  proof (cases r)
    case None
    then show ?thesis by (simp add: BusClientNet_sendMsgTo_def sendMsgTo_def Inr)
  next
    case (Some info)
    have "blank_entry info" using blank_route [OF n] Inr Some by simp
    then show ?thesis using n os
      by (simp add: BusClientNet_sendMsgTo_def sendMsgTo_def Inr Some BusClientNet_sendMsgByServiceInfo_def
          blank_entry_def blank_net_def open_ring_def ShmRingBuffer_ctor_def)
  qed
qed

section \<open>Properties\<close>

text \<open>
  C19: The two routing tables built from an answer of the centre fit together. Whatever the answer
  holds, a message for a service name is given a route, under every strategy but the smooth one, exactly
  if the answer lists that service online; the route is an online entry of the answer that has the id of
  an instance of the service. So the branch for a selected id that has no entry is never taken.
\<close>

theorem routing_tables_typed:
  assumes "onCenterUpdateServiceStatusRsp shm_open Error_success full infos n = Inr n'"
    and "\<exists>c \<in> set target. is_alpha c" "strategy \<noteq> SmoothWeighted"
  defines "online \<equiv> {s \<in> set infos. \<not> sv_is_offline s}"
  shows "if \<exists>s \<in> online. sv_svr_name s = target
    then \<exists>info \<in> online. choose_route hash rng target strategy n' = Inr (Some info) \<and>
       (\<exists>s \<in> online. sv_svr_name s = target \<and> sv_id s = sv_id info)
    else choose_route hash rng target strategy n' = Inr None"
proof -
  obtain ids names where t: "bn_service_map n' = Some ids" "bn_name_instances n' = Some names"
    "tables_ok (filter (\<lambda>s. \<not> sv_is_offline s) infos) ids names"
    using answer_tables [OF assms(1)] by blast
  have o: "online = set (filter (\<lambda>s. \<not> sv_is_offline s) infos)" by (auto simp: online_def)
  show ?thesis unfolding o by (rule route_by_name [OF t(3,1,2) assms(2,3)])
qed

text \<open>
  C20: A heartbeat in a quiet moment disconnects a service from all the others. Once a connection has had
  its full table, the centre's answer to a heartbeat with no change pending is empty; the service takes
  every answer for the whole table, whatever its full-update flag says, so both routing tables are
  emptied and every message it sends, to any name or id with any strategy, is refused.
\<close>

theorem quiet_heartbeat_empties_routes:
  assumes "rt_fd_to_inst st (fd_key c) = Some p" "si_id (rt_heap st p) = sv_id info"
    and "pending (rt_reg st) (sv_id info) \<in> {None, Some []}" "c \<in> rt_got_full_update st"
  shows "\<exists>n'. onRecvMsg shm_open (snd (last (rt_sent (onUpdateServiceStatus clk c info st)))) n = Inr n' \<and>
    bn_service_map n' = Some [] \<and> bn_name_instances n' = Some [] \<and>
    (\<forall>hash rng target msg strategy.
       BusClientNet_sendMsgTo shm_open hash rng target msg strategy n' = Inr (False, n'))"
proof -
  have "last (rt_sent (onUpdateServiceStatus clk c info st)) = (c, UpdateRsp Error_success False [])"
    using assms
    by (auto simp: onUpdateServiceStatus_def heartbeat_instance_def heartbeat_answer_def renew_def
        registrar_send_def Let_def case_prod_beta register_keeps)
  then show ?thesis
    by (simp add: onRecvMsg_def onCenterUpdateServiceStatusRsp_def BusClientNet_sendMsgTo_def sendMsgTo_def
        choose_route_def first_info_def)
qed

text \<open>
  No service can send to another with the routes it gets from the centre. The centre's entries carry
  neither the name of the receive buffer nor the daemon flag. Whatever a centre sent in its whole
  history, a service that has received any of it in any order never has a link to its busd, and a send
  either is refused (the target is on another machine or unknown) or throws, because the ring to open
  for a target on the same machine has the empty name, which the operating system rejects.
\<close>

theorem no_service_is_reachable:
  assumes "center_reachable st" "set rsps \<subseteq> snd ` set (rt_sent st)"
    and "\<And>k old. shm_open k [] old = None"
  shows "\<exists>n. receive_all shm_open rsps (BusClientNet_init opts connects rings) = Inr n \<and>
    bn_local_busd n = None \<and>
    (\<forall>hash rng target msg strategy.
       BusClientNet_sendMsgTo shm_open hash rng target msg strategy n \<in> {Inr (False, n), Inl Thrown})"
proof -
  have "\<forall>rsp \<in> set rsps. blank_answer rsp" using center_sends_blank [OF assms(1)] assms(2) by blast
  then obtain n where n: "receive_all shm_open rsps (BusClientNet_init opts connects rings) = Inr n" "blank_net n"
    using receive_all_blank [OF init_blank] by blast
  have "bn_local_busd n = None" using n(2) by (simp add: blank_net_def)
  then show ?thesis using n(1) blank_send [OF n(2), of shm_open] assms(3) by blast
qed

text \<open>The inputs of the witnesses.\<close>

definition demo_open :: shm_opener where
  "demo_open k name old = (if name = [] then None else old)"

definition demo_options :: net_options where
  "demo_options = \<lparr>op_region_id = 0, op_zone_id = 1, op_service_id = 3, op_instance_id = 0, op_local_ring_size = 2 ^ 20,
     op_local_ip = ''127.0.0.1'', op_local_port = 3089, op_center_ip = ''127.0.0.1'', op_center_port = 9090\<rparr>"

theorem routing_tables_typed_witness:
  "\<exists>n'. onCenterUpdateServiceStatusRsp demo_open Error_success True
       [demo_info ''logic'' ''1'', (demo_info ''gate'' ''2'')\<lparr>sv_is_offline := True\<rparr>]
       (BusClientNet_init demo_options True Map.empty) = Inr n' \<and>
     (\<exists>info. choose_route (\<lambda>k. 0) (\<lambda>k. 0) ''logic'' RoundRobin n' = Inr (Some info)) \<and>
     choose_route (\<lambda>k. 0) (\<lambda>k. 0) ''gate'' RoundRobin n' = Inr None"
proof -
  let ?infos = "[demo_info ''logic'' ''1'', (demo_info ''gate'' ''2'')\<lparr>sv_is_offline := True\<rparr>]"
  obtain n' where n': "onCenterUpdateServiceStatusRsp demo_open Error_success True ?infos
      (BusClientNet_init demo_options True Map.empty) = Inr n'"
    by (auto simp: onCenterUpdateServiceStatusRsp_def demo_info_def add_route_def Let_def)
  have a: "\<exists>c \<in> set ''logic''. is_alpha c" "\<exists>c \<in> set ''gate''. is_alpha c"
    by (simp_all add: is_alpha_def)
  have on: "{s \<in> set ?infos. \<not> sv_is_offline s} = {demo_info ''logic'' ''1''}" by (auto simp: demo_info_def)
  have v: "sv_svr_name (demo_info ''logic'' ''1'') = ''logic''" by (simp add: demo_info_def)
  show ?thesis
    using routing_tables_typed [OF n' a(1), of RoundRobin "\<lambda>k. 0" "\<lambda>k. 0"]
      routing_tables_typed [OF n' a(2), of RoundRobin "\<lambda>k. 0" "\<lambda>k. 0"] n'
    unfolding on by (intro exI [of _ n']) (simp add: v)
qed

theorem quiet_heartbeat_empties_routes_witness:
  "\<exists>n'. onRecvMsg demo_open (snd (last (rt_sent (onUpdateServiceStatus \<lparr>ck_us = 0, ck_now = 5, ck_later = 5\<rparr> 1
       (demo_info ''logic'' ''1'') (demo_center\<lparr>rt_got_full_update := {1}\<rparr>)))))
       (BusClientNet_init demo_options True Map.empty) = Inr n' \<and>
     bn_service_map n' = Some [] \<and> bn_name_instances n' = Some [] \<and>
     (\<forall>hash rng target msg strategy.
       BusClientNet_sendMsgTo demo_open hash rng target msg strategy n' = Inr (False, n'))"
  by (rule quiet_heartbeat_empties_routes [where p = 0])
    (simp_all add: demo_center_def fd_key_def make_instance_def demo_info_def pending_def)

theorem no_service_is_reachable_witness:
  "let st = handleClient \<lparr>ck_us = 0, ck_now = 6, ck_later = 6\<rparr> 2 (UpdateServiceStatus (demo_info ''gate'' ''2''))
       (handleClient \<lparr>ck_us = 0, ck_now = 5, ck_later = 5\<rparr> 1 (RegistToCenter (demo_info ''logic'' ''1'') 0) TcpRegistrar_ctor)
   in \<exists>n. receive_all demo_open (map snd (rt_sent st)) (BusClientNet_init demo_options True Map.empty) = Inr n \<and>
    bn_local_busd n = None \<and>
    (\<forall>hash rng target msg strategy.
       BusClientNet_sendMsgTo demo_open hash rng target msg strategy n \<in> {Inr (False, n), Inl Thrown})"
proof -
  let ?st = "handleClient \<lparr>ck_us = 0, ck_now = 6, ck_later = 6\<rparr> 2 (UpdateServiceStatus (demo_info ''gate'' ''2''))
       (handleClient \<lparr>ck_us = 0, ck_now = 5, ck_later = 5\<rparr> 1 (RegistToCenter (demo_info ''logic'' ''1'') 0) TcpRegistrar_ctor)"
  have "center_reachable ?st"
    by (intro center_reachable.step [OF _ center_step.message] center_reachable.init)
  then show ?thesis unfolding Let_def
    by (rule no_service_is_reachable) (simp_all add: demo_open_def)
qed

end
