(* ===== verification/Scheduler.thy ===== *)
theory Scheduler
  imports Prelude
begin

text \<open>
  \<open>CoroutineScheduler\<close> (server/core/coroutine/CoroutineScheduler.h, CoroutineScheduler.cpp). A step is
  what one thread does between two points where others can interfere: a worker takes a task, the
  coroutine it runs calls \<open>yield\<close> or ends, the coroutine is really suspended, the worker looks at it
  afterwards; the timeout thread scans and fires; anyone schedules or resumes. Coroutines are the
  libcotask library's: resuming a suspended one continues it, resuming a running one is refused. The
  fields \<open>sc_yields\<close>, \<open>sc_wakes\<close> and \<open>sc_returned\<close> only record what happened.
\<close>

section \<open>State\<close>

record 'm task_item =
  ti_waiting :: bool
  ti_resume_value :: "'m option"
  ti_timeout_point :: nat
  ti_timeout_enabled :: bool
  ti_timed_out :: bool
  ti_started :: bool
  ti_running :: bool
  ti_completed :: bool

datatype worker = WIdle | WRun nat | WSuspend nat | WBack nat

record 'm scheduler =
  sc_worker_count :: nat
  sc_workers :: "worker list"
  sc_queue :: "nat list"
  sc_items :: "nat \<Rightarrow> 'm task_item"
  sc_all_tasks :: "nat list"
  sc_timeout_running :: bool
  sc_expiring :: "nat list"
  sc_stopping :: bool
  sc_id_gen :: nat
  sc_yields :: "nat \<Rightarrow> nat"
  sc_wakes :: "nat \<Rightarrow> nat"
  sc_returned :: "(nat \<times> 'm option) list"

definition new_item :: "'m task_item" where
  "new_item = \<lparr>ti_waiting = False, ti_resume_value = None, ti_timeout_point = 0, ti_timeout_enabled = False,
     ti_timed_out = False, ti_started = False, ti_running = False, ti_completed = False\<rparr>"

definition CoroutineScheduler_ctor :: "nat \<Rightarrow> 'm scheduler" where
  "CoroutineScheduler_ctor worker_count =
     \<lparr>sc_worker_count = worker_count, sc_workers = [], sc_queue = [], sc_items = (\<lambda>i. new_item),
      sc_all_tasks = [], sc_timeout_running = False, sc_expiring = [], sc_stopping = False, sc_id_gen = 1,
      sc_yields = (\<lambda>i. 0), sc_wakes = (\<lambda>i. 0), sc_returned = []\<rparr>"

definition upd_item :: "nat \<Rightarrow> ('m task_item \<Rightarrow> 'm task_item) \<Rightarrow> 'm scheduler \<Rightarrow> 'm scheduler" where
  "upd_item i f s = s\<lparr>sc_items := (sc_items s)(i := f (sc_items s i))\<rparr>"

definition set_worker :: "nat \<Rightarrow> worker \<Rightarrow> 'm scheduler \<Rightarrow> 'm scheduler" where
  "set_worker w x s = s\<lparr>sc_workers := (sc_workers s)[w := x]\<rparr>"

section \<open>Operations\<close>

definition sched_start :: "'m scheduler \<Rightarrow> 'm scheduler" where
  "sched_start s = s\<lparr>sc_stopping := False, sc_timeout_running := True,
     sc_workers := sc_workers s @ replicate (sc_worker_count s) WIdle\<rparr>"

definition enqueue_ready :: "nat \<Rightarrow> 'm scheduler \<Rightarrow> 'm scheduler" where
  "enqueue_ready i s = s\<lparr>sc_queue := sc_queue s @ [i]\<rparr>"

definition schedule :: "'m scheduler \<Rightarrow> nat \<times> 'm scheduler" where
  "schedule s =
     (let i = sc_id_gen s
      in (i, enqueue_ready i (s\<lparr>sc_id_gen := uadd 64 i 1, sc_items := (sc_items s)(i := new_item),
                               sc_all_tasks := sc_all_tasks s @ [i]\<rparr>)))"

definition find_task :: "nat \<Rightarrow> 'm scheduler \<Rightarrow> nat option" where
  "find_task i s = (if i \<in> set (sc_all_tasks s) then Some i else None)"

text \<open>The compare-and-exchange on \<open>waiting\<close> decides who wakes a task.\<close>

definition wake :: "nat \<Rightarrow> ('m task_item \<Rightarrow> 'm task_item) \<Rightarrow> 'm scheduler \<Rightarrow> bool \<times> 'm scheduler" where
  "wake i f s =
     (if ti_waiting (sc_items s i)
      then (True, enqueue_ready i (upd_item i (\<lambda>t. f (t\<lparr>ti_waiting := False\<rparr>))
              (s\<lparr>sc_wakes := (sc_wakes s)(i := sc_wakes s i + 1)\<rparr>)))
      else (False, s))"

definition sched_resume :: "nat \<Rightarrow> 'm option \<Rightarrow> 'm scheduler \<Rightarrow> bool \<times> 'm scheduler" where
  "sched_resume task_id v s =
     (case find_task task_id s of
        None \<Rightarrow> (False, s)
      | Some i \<Rightarrow>
          if ti_completed (sc_items s i) then (False, s)
          else wake i (\<lambda>t. t\<lparr>ti_resume_value := v, ti_timeout_enabled := False\<rparr>) s)"

text \<open>The two halves of \<open>yield\<close>, before and after the coroutine was suspended.\<close>

definition yield_enter :: "nat \<Rightarrow> int \<Rightarrow> nat \<Rightarrow> 'm scheduler \<Rightarrow> 'm scheduler" where
  "yield_enter now timeout i s =
     (let s1 = s\<lparr>sc_yields := (sc_yields s)(i := sc_yields s i + 1)\<rparr>
      in if timeout \<le> 0
         then upd_item i (\<lambda>t. t\<lparr>ti_waiting := True, ti_timeout_enabled := False, ti_timed_out := False\<rparr>) s1
         else upd_item i (\<lambda>t. t\<lparr>ti_waiting := True, ti_timeout_point := now + nat timeout,
                              ti_timeout_enabled := True, ti_timed_out := False\<rparr>) s1)"

definition yield_leave :: "nat \<Rightarrow> 'm scheduler \<Rightarrow> 'm scheduler" where
  "yield_leave i s =
     (let t = sc_items s i
      in s\<lparr>sc_returned := sc_returned s @ [(i, if ti_timed_out t then None else ti_resume_value t)]\<rparr>)"

text \<open>The timeout thread: the scan under the lock, then one task after the other.\<close>

definition timeout_scan :: "nat \<Rightarrow> 'm scheduler \<Rightarrow> 'm scheduler" where
  "timeout_scan now s = s\<lparr>sc_expiring := filter (\<lambda>i. ti_timeout_enabled (sc_items s i) \<and>
     ti_waiting (sc_items s i) \<and> ti_timeout_point (sc_items s i) \<le> now) (sc_all_tasks s)\<rparr>"

definition timeout_fire :: "'m scheduler \<Rightarrow> 'm scheduler option" where
  "timeout_fire s =
     (case sc_expiring s of
        [] \<Rightarrow> None
      | i # is' \<Rightarrow> Some (snd (wake i (\<lambda>t. t\<lparr>ti_timed_out := True, ti_timeout_enabled := False, ti_resume_value := None\<rparr>)
                             (s\<lparr>sc_expiring := is'\<rparr>))))"

text \<open>The worker: take and resume, then look whether the task is to be queued again or is finished.\<close>

definition worker_take :: "nat \<Rightarrow> 'm scheduler \<Rightarrow> 'm scheduler option" where
  "worker_take w s =
     (if w < length (sc_workers s) \<and> sc_workers s ! w = WIdle \<and> \<not> sc_stopping s
      then (case sc_queue s of
              [] \<Rightarrow> None
            | i # q \<Rightarrow>
                (let s1 = s\<lparr>sc_queue := q\<rparr>; t = sc_items s i
                 in if ti_completed t then Some s1
                    else if ti_running t then Some (set_worker w (WBack i) s1)
                    else Some (set_worker w (WRun i)
                           (upd_item i (\<lambda>t. t\<lparr>ti_running := True, ti_started := True\<rparr>)
                             (if ti_started t then yield_leave i s1 else s1)))))
      else None)"

definition body_yield :: "nat \<Rightarrow> int \<Rightarrow> nat \<Rightarrow> 'm scheduler \<Rightarrow> 'm scheduler option" where
  "body_yield now timeout w s =
     (if w < length (sc_workers s)
      then (case sc_workers s ! w of
              WRun i \<Rightarrow> Some (set_worker w (WSuspend i) (yield_enter now timeout i s))
            | _ \<Rightarrow> None)
      else None)"

definition body_suspend :: "nat \<Rightarrow> 'm scheduler \<Rightarrow> 'm scheduler option" where
  "body_suspend w s =
     (if w < length (sc_workers s)
      then (case sc_workers s ! w of
              WSuspend i \<Rightarrow> Some (set_worker w (WBack i) (upd_item i (\<lambda>t. t\<lparr>ti_running := False\<rparr>) s))
            | _ \<Rightarrow> None)
      else None)"

definition body_end :: "nat \<Rightarrow> 'm scheduler \<Rightarrow> 'm scheduler option" where
  "body_end w s =
     (if w < length (sc_workers s)
      then (case sc_workers s ! w of
              WRun i \<Rightarrow> Some (set_worker w (WBack i) (upd_item i (\<lambda>t. t\<lparr>ti_running := False, ti_completed := True\<rparr>) s))
            | _ \<Rightarrow> None)
      else None)"

definition worker_look :: "nat \<Rightarrow> 'm scheduler \<Rightarrow> 'm scheduler option" where
  "worker_look w s =
     (if w < length (sc_workers s)
      then (case sc_workers s ! w of
              WBack i \<Rightarrow>
                (let t = sc_items s i;
                     s1 = (if \<not> ti_completed t \<and> \<not> ti_waiting t then enqueue_ready i s else s);
                     s2 = (if ti_completed t then s1\<lparr>sc_all_tasks := removeAll i (sc_all_tasks s1)\<rparr> else s1)
                 in Some (set_worker w WIdle s2))
            | _ \<Rightarrow> None)
      else None)"

definition sched_stop :: "'m scheduler \<Rightarrow> 'm scheduler" where
  "sched_stop s = s\<lparr>sc_stopping := True, sc_timeout_running := False\<rparr>"

text \<open>The end of \<open>stop\<close>, once every worker has come back.\<close>

definition sched_join :: "'m scheduler \<Rightarrow> 'm scheduler option" where
  "sched_join s = (if sc_stopping s \<and> set (sc_workers s) \<subseteq> {WIdle} then Some (s\<lparr>sc_workers := []\<rparr>) else None)"

datatype 'm sched_op =
    OpStart
  | OpStop
  | OpJoin
  | OpSchedule
  | OpResume nat "'m option"
  | OpScan nat
  | OpFire
  | OpTake nat
  | OpYield nat int nat
  | OpSuspend nat
  | OpEnd nat
  | OpLook nat

fun sched_step :: "'m sched_op \<Rightarrow> 'm scheduler \<Rightarrow> 'm scheduler option" where
  "sched_step OpStart s = Some (sched_start s)"
| "sched_step OpStop s = Some (sched_stop s)"
| "sched_step OpJoin s = sched_join s"
| "sched_step OpSchedule s = Some (snd (schedule s))"
| "sched_step (OpResume i v) s = Some (snd (sched_resume i v s))"
| "sched_step (OpScan now) s = (if sc_timeout_running s \<and> sc_expiring s = [] then Some (timeout_scan now s) else None)"
| "sched_step OpFire s = timeout_fire s"
| "sched_step (OpTake w) s = worker_take w s"
| "sched_step (OpYield now timeout w) s = body_yield now timeout w s"
| "sched_step (OpSuspend w) s = body_suspend w s"
| "sched_step (OpEnd w) s = body_end w s"
| "sched_step (OpLook w) s = worker_look w s"

fun sched_run :: "'m sched_op list \<Rightarrow> 'm scheduler \<Rightarrow> 'm scheduler option" where
  "sched_run [] s = Some s"
| "sched_run (x # xs) s = (case sched_step x s of None \<Rightarrow> None | Some s1 \<Rightarrow> sched_run xs s1)"

section \<open>Waking\<close>

text \<open>Every wake-up answers a \<open>yield\<close> of its own.\<close>

definition wakes_ok :: "'m scheduler \<Rightarrow> bool" where
  "wakes_ok s \<longleftrightarrow> (\<forall>i. sc_wakes s i + of_bool (ti_waiting (sc_items s i)) \<le> sc_yields s i)"

lemma wakes_okI: "wakes_ok s \<Longrightarrow> sc_wakes s' = sc_wakes s \<Longrightarrow> sc_yields s' = sc_yields s \<Longrightarrow>
    (\<And>i. ti_waiting (sc_items s' i) \<Longrightarrow> ti_waiting (sc_items s i)) \<Longrightarrow> wakes_ok s'"
  unfolding wakes_ok_def by (metis (mono_tags) add_le_cancel_left le_trans of_bool_eq_iff of_bool_less_eq_iff order_refl)

lemma wake_ok:
  assumes "wakes_ok s" "\<And>t. ti_waiting (f t) = ti_waiting t"
  shows "wakes_ok (snd (wake i f s))"
proof -
  have "sc_wakes s i + of_bool (ti_waiting (sc_items s i)) \<le> sc_yields s i"
    using assms(1) unfolding wakes_ok_def by (rule spec)
  then have "ti_waiting (sc_items s i) \<longrightarrow> Suc (sc_wakes s i) \<le> sc_yields s i" by (cases "ti_waiting (sc_items s i)") simp_all
  then show ?thesis using assms
    by (auto simp: wakes_ok_def wake_def enqueue_ready_def upd_item_def split: if_splits)
qed

lemma yield_enter_ok: "wakes_ok s \<Longrightarrow> wakes_ok (yield_enter now timeout i s)"
  by (auto simp: wakes_ok_def yield_enter_def upd_item_def Let_def) (metis Suc_eq_plus1 add_leD1 le_SucI)+

lemma sched_step_ok:
  assumes "wakes_ok s" "sched_step x s = Some s'"
  shows "wakes_ok s'"
proof (cases x)
  case (OpResume i v)
  then show ?thesis using assms wake_ok [of s]
    by (auto simp: sched_resume_def find_task_def split: if_splits)
next
  case OpFire
  have "wakes_ok (s\<lparr>sc_expiring := xs\<rparr>)" for xs by (rule wakes_okI [OF assms(1)]) simp_all
  then show ?thesis using OpFire assms(2) by (auto simp: timeout_fire_def intro!: wake_ok split: list.splits)
next
  case (OpYield now timeout w)
  then obtain i where "s' = set_worker w (WSuspend i) (yield_enter now timeout i s)"
    using assms(2) by (auto simp: body_yield_def split: if_splits worker.splits)
  then show ?thesis
    using wakes_okI [OF yield_enter_ok [OF assms(1)], of s' now timeout i] by (simp add: set_worker_def)
next
  case (OpTake w)
  then show ?thesis using assms(2)
    by (intro wakes_okI [OF assms(1)])
      (auto simp: worker_take_def Let_def set_worker_def upd_item_def yield_leave_def
        split: if_splits list.splits)
next
  case (OpLook w)
  then show ?thesis using assms(2)
    by (intro wakes_okI [OF assms(1)])
      (auto simp: worker_look_def Let_def set_worker_def enqueue_ready_def split: if_splits worker.splits)
qed (use assms(2) in \<open>auto simp: sched_start_def sched_stop_def sched_join_def schedule_def timeout_scan_def
      body_suspend_def body_end_def set_worker_def upd_item_def enqueue_ready_def Let_def new_item_def
      intro!: wakes_okI [OF assms(1)] split: if_splits worker.splits\<close>)

lemma sched_run_ok: "wakes_ok s \<Longrightarrow> sched_run xs s = Some s' \<Longrightarrow> wakes_ok s'"
  by (induction xs arbitrary: s) (auto split: option.splits dest: sched_step_ok)

section \<open>Properties\<close>

text \<open>
  C21: In every run, however the workers, the timeout thread and the answers interleave, the wake-ups of a
  coroutine number at most its calls of \<open>yield\<close>, and strictly fewer while it waits: an answer and a
  timeout never both end the same wait, and no wait is ended twice.
\<close>

theorem each_wait_ends_once:
  assumes "sched_run ops (CoroutineScheduler_ctor n) = Some s"
  shows "if ti_waiting (sc_items s i) then sc_wakes s i < sc_yields s i else sc_wakes s i \<le> sc_yields s i"
proof -
  have "wakes_ok s" using assms
    by (intro sched_run_ok [OF _ assms]) (simp add: wakes_ok_def CoroutineScheduler_ctor_def new_item_def)
  then have "sc_wakes s i + of_bool (ti_waiting (sc_items s i)) \<le> sc_yields s i" by (simp add: wakes_ok_def)
  then show ?thesis by (cases "ti_waiting (sc_items s i)") simp_all
qed

text \<open>
  Yet a coroutine can be continued without being woken, and then gets an old answer. If the answer
  to its first request arrives before the worker that ran it has looked at it, the task is queued
  twice; the second entry continues it in the middle of its next wait, for which nobody has answered
  and no time has run out, and \<open>yield\<close> returns the first answer again.
\<close>

theorem second_wait_gets_first_answer:
  "\<exists>s. sched_run [OpStart, OpSchedule, OpTake 0, OpYield t1 3000 0, OpSuspend 0, OpResume 1 (Some answer), OpLook 0,
         OpTake 0, OpYield t2 3000 0, OpSuspend 0, OpLook 0, OpTake 0] (CoroutineScheduler_ctor (Suc n)) = Some s \<and>
       sc_returned s = [(1, Some answer), (1, Some answer)] \<and> sc_yields s 1 = 2 \<and> sc_wakes s 1 = 1"
  by (simp add: CoroutineScheduler_ctor_def sched_start_def schedule_def worker_take_def body_yield_def
      body_suspend_def worker_look_def sched_resume_def find_task_def wake_def yield_enter_def yield_leave_def
      enqueue_ready_def set_worker_def upd_item_def new_item_def Let_def)

theorem each_wait_ends_once_witness:
  "\<exists>s. sched_run [OpStart, OpSchedule, OpTake 0, OpYield 0 5 0, OpSuspend 0, OpScan 9, OpResume 1 (Some ''a''), OpFire]
       (CoroutineScheduler_ctor 1) = Some s \<and>
     (if ti_waiting (sc_items s 1) then sc_wakes s 1 < sc_yields s 1 else sc_wakes s 1 \<le> sc_yields s 1)"
proof -
  obtain s where s: "sched_run [OpStart, OpSchedule, OpTake 0, OpYield 0 5 0, OpSuspend 0, OpScan 9,
      OpResume 1 (Some ''a''), OpFire] (CoroutineScheduler_ctor 1) = Some s"
    by (simp add: CoroutineScheduler_ctor_def sched_start_def schedule_def worker_take_def body_yield_def
      body_suspend_def sched_resume_def find_task_def wake_def yield_enter_def timeout_scan_def timeout_fire_def
      enqueue_ready_def set_worker_def upd_item_def new_item_def Let_def)
  then show ?thesis using each_wait_ends_once [OF s] by blast
qed

end
