(* ===== verification/Bus.thy ===== *)
theory Bus
  imports BusNet Scheduler
begin

text \<open>
  \<open>BusClient\<close> (server/core/bus/IBus.h, IBus.cpp) of an ordinary service, with the dispatcher of
  server/common/MsgDispatcher.h: sending through the slab and the rings of \<open>BusNet\<close>, the receive loop
  and the coroutine scheduler it hands every packet to. What is outside the program is in \<open>bus_env\<close>:
  the address of the slab, the generated table of message ids, \<open>shm_open\<close>, whether the centre accepts the
  connection, the hash and the random numbers of the balancers, and which handlers throw.
  \<open>bc_handled\<close> records the calls of handlers.
\<close>

section \<open>State\<close>

record bus_env =
  be_base :: nat
  be_ids :: "string \<Rightarrow> nat option"
  be_shm_open :: shm_opener
  be_connects :: bool
  be_hash :: "string \<Rightarrow> nat"
  be_rng :: "nat \<Rightarrow> nat"
  be_throws :: "nat \<Rightarrow> bool"

type_synonym msg_handlers = "nat \<rightharpoonup> nat list"

record bus_client =
  bc_options :: net_options
  bc_running :: bool
  bc_ready :: bool
  bc_local_ring :: "string option"
  bc_net :: bus_net
  bc_slab :: slab
  bc_seq :: nat
  bc_handlers :: msg_handlers
  bc_ss_handlers :: msg_handlers
  bc_sched :: "nat scheduler option"
  bc_closures :: "nat \<Rightarrow> nat"
  bc_handled :: "(nat \<times> nat) list"

section \<open>The dispatcher\<close>

definition MsgDispatcher_regist :: "nat \<Rightarrow> nat \<Rightarrow> msg_handlers \<Rightarrow> msg_handlers" where
  "MsgDispatcher_regist msg_id handler hs =
     hs(msg_id \<mapsto> (case hs msg_id of None \<Rightarrow> [] | Some xs \<Rightarrow> xs) @ [handler])"

definition MsgDispatcher_unregist :: "nat \<Rightarrow> msg_handlers \<Rightarrow> msg_handlers" where
  "MsgDispatcher_unregist msg_id hs = hs(msg_id := None)"

text \<open>The handlers called for a message; the first that throws is the last.\<close>

fun call_handlers :: "(nat \<Rightarrow> bool) \<Rightarrow> nat list \<Rightarrow> bool \<times> nat list" where
  "call_handlers throws [] = (True, [])"
| "call_handlers throws (h # hs) =
     (if throws h then (False, [h]) else map_prod id ((#) h) (call_handlers throws hs))"

definition MsgDispatcher_onMsg :: "(nat \<Rightarrow> bool) \<Rightarrow> nat \<Rightarrow> msg_handlers \<Rightarrow> bool \<times> nat list" where
  "MsgDispatcher_onMsg throws msg_id hs =
     (case hs msg_id of None \<Rightarrow> (True, []) | Some xs \<Rightarrow> call_handlers throws xs)"

section \<open>Life cycle\<close>

definition BusClient_ctor :: "net_options \<Rightarrow> shm_rings \<Rightarrow> slab \<Rightarrow> bus_client" where
  "BusClient_ctor opts rings s =
     \<lparr>bc_options = opts, bc_running = False, bc_ready = False, bc_local_ring = None,
      bc_net = BusClientNet_init opts False rings, bc_slab = s, bc_seq = 0,
      bc_handlers = Map.empty, bc_ss_handlers = Map.empty, bc_sched = None, bc_closures = (\<lambda>i. 0), bc_handled = []\<rparr>"

definition InitSharedMemory :: "bus_env \<Rightarrow> bus_client \<Rightarrow> fault + bus_client" where
  "InitSharedMemory env bc =
     (let name = ''/ibus_'' @ client_id (bc_options bc)
      in case open_ring (be_shm_open env) (op_local_ring_size (bc_options bc)) name (bc_net bc) of
           Inl f \<Rightarrow> Inl f
         | Inr n \<Rightarrow> Inr (bc\<lparr>bc_net := n, bc_local_ring := Some name\<rparr>))"

definition BusClient_Start :: "bus_env \<Rightarrow> bus_client \<Rightarrow> fault + bool \<times> bus_client" where
  "BusClient_Start env bc =
     (if bc_running bc then Inr (False, bc)
      else (case InitSharedMemory env (bc\<lparr>bc_running := True\<rparr>) of
              Inl f \<Rightarrow> Inl f
            | Inr bc1 \<Rightarrow>
                Inr (True, bc1\<lparr>bc_net := BusClientNet_init (bc_options bc1) (be_connects env) (bn_rings (bc_net bc1)),
                  bc_handlers := Map.empty, bc_ss_handlers := Map.empty,
                  bc_sched := Some (CoroutineScheduler_ctor 4), bc_ready := True\<rparr>)))"

definition BusClient_Stop :: "bus_client \<Rightarrow> bus_client" where
  "BusClient_Stop bc =
     (if \<not> bc_running bc then bc
      else bc\<lparr>bc_running := False, bc_ready := False, bc_sched := map_option sched_stop (bc_sched bc),
              bc_local_ring := None\<rparr>)"

text \<open>
  The dispatchers are created by \<open>Start\<close>, together with the scheduler; before, \<open>RegistMessage\<close> and
  \<open>UnregistMessage\<close> go through a null pointer, which their \<open>SS\<close> counterparts check for.
\<close>

definition RegistMessage :: "nat \<Rightarrow> nat \<Rightarrow> bus_client \<Rightarrow> fault + bool \<times> bus_client" where
  "RegistMessage msg_id handler bc =
     (if bc_sched bc = None then Inl Undefined
      else Inr (True, bc\<lparr>bc_handlers := MsgDispatcher_regist msg_id handler (bc_handlers bc)\<rparr>))"

text \<open>What the services do when they register their handlers: message ids with the numbers of handlers, in order.\<close>

fun regist_each :: "(nat \<times> nat) list \<Rightarrow> bus_client \<Rightarrow> fault + bus_client" where
  "regist_each [] bc = Inr bc"
| "regist_each ((msg_id, h) # hs) bc =
     (case RegistMessage msg_id h bc of Inl f \<Rightarrow> Inl f | Inr (ok, bc1) \<Rightarrow> regist_each hs bc1)"

definition UnregistMessage :: "nat \<Rightarrow> bus_client \<Rightarrow> fault + bool \<times> bus_client" where
  "UnregistMessage msg_id bc =
     (if bc_sched bc = None then Inl Undefined
      else Inr (True, bc\<lparr>bc_handlers := MsgDispatcher_unregist msg_id (bc_handlers bc)\<rparr>))"

definition SSRegistMessage :: "nat \<Rightarrow> nat \<Rightarrow> bus_client \<Rightarrow> bool \<times> bus_client" where
  "SSRegistMessage msg_id handler bc =
     (if bc_sched bc = None then (False, bc)
      else (True, bc\<lparr>bc_ss_handlers := MsgDispatcher_regist msg_id handler (bc_ss_handlers bc)\<rparr>))"

definition SSUnregistMessage :: "nat \<Rightarrow> bus_client \<Rightarrow> bool \<times> bus_client" where
  "SSUnregistMessage msg_id bc =
     (if bc_sched bc = None then (False, bc)
      else (True, bc\<lparr>bc_ss_handlers := MsgDispatcher_unregist msg_id (bc_ss_handlers bc)\<rparr>))"

section \<open>Sending\<close>

definition ref_of :: "app_msg_wrapper \<Rightarrow> msg_ref" where
  "ref_of w = (aw_offset w, aw_dst w)"

text \<open>\<open>SendToNode\<close> of a packet that exists already.\<close>

definition SendToNode_pack :: "bus_env \<Rightarrow> string \<Rightarrow> lb_strategy \<Rightarrow> msg_ref \<Rightarrow> bus_client \<Rightarrow> fault + bool \<times> bus_client" where
  "SendToNode_pack env service_name strategy msg bc =
     (if \<not> bc_ready bc then Inr (False, bc)
      else (case BusClientNet_sendMsgTo (be_shm_open env) (be_hash env) (be_rng env) service_name msg strategy (bc_net bc) of
              Inl f \<Rightarrow> Inl f
            | Inr (ok, n) \<Rightarrow> Inr (ok, bc\<lparr>bc_net := n\<rparr>)))"

text \<open>
  The end of the scope that holds the \<open>shared_ptr\<close> of a packet: its deleter gives the block back.
\<close>

definition drop_pack :: "app_msg_wrapper \<Rightarrow> fault + 'r \<times> bus_client \<Rightarrow> fault + 'r \<times> bus_client" where
  "drop_pack w res =
     (case res of
        Inl f \<Rightarrow> Inl f
      | Inr (v, bc) \<Rightarrow>
          (case release_pack w (bc_slab bc) of
             None \<Rightarrow> Inl Undefined
           | Some s \<Rightarrow> Inr (v, bc\<lparr>bc_slab := s\<rparr>)))"

text \<open>\<open>CreateSSPack\<close> and what follows; a null result is dereferenced.\<close>

definition with_pack ::
  "bus_env \<Rightarrow> pb_message \<Rightarrow> nat \<Rightarrow> nat \<Rightarrow> (app_msg_wrapper \<Rightarrow> bus_client \<Rightarrow> fault + 'r \<times> bus_client) \<Rightarrow>
     bus_client \<Rightarrow> fault + 'r \<times> bus_client" where
  "with_pack env message typ co_id body bc =
     (case CreateSSPack (be_base env) (be_ids env) message typ co_id (bc_seq bc) (bc_slab bc) of
        Inl f \<Rightarrow> Inl f
      | Inr (None, seq, s) \<Rightarrow> Inl Undefined
      | Inr (Some w, seq, s) \<Rightarrow> body w (bc\<lparr>bc_seq := seq, bc_slab := s\<rparr>))"

definition SendToNode :: "bus_env \<Rightarrow> string \<Rightarrow> pb_message \<Rightarrow> bus_client \<Rightarrow> fault + bool \<times> bus_client" where
  "SendToNode env service_name message bc =
     (if \<not> bc_ready bc then Inr (False, bc)
      else with_pack env message 3 0 (\<lambda>w bc1.
             drop_pack w (SendToNode_pack env service_name RoundRobin (ref_of w) bc1)) bc)"

definition BusClient_Reply :: "bus_env \<Rightarrow> app_msg \<Rightarrow> pb_message \<Rightarrow> bus_client \<Rightarrow> fault + bool \<times> bus_client" where
  "BusClient_Reply env req_msg rsp_msg bc =
     (if \<not> bc_ready bc then Inr (False, bc)
      else with_pack env rsp_msg 4 (m_co_id req_msg) (\<lambda>w bc1.
             drop_pack w (SendToNode_pack env
               (bytes_str (takeWhile (\<lambda>b. b \<noteq> 0) (m_src_name req_msg))) RoundRobin (ref_of w) bc1)) bc)"

text \<open>
  \<open>Request\<close> up to its \<open>yield\<close>: the packet stays in the coroutine's frame, \<open>Some w\<close>; \<open>None\<close> is the early
  return of a null answer, which drops it.
\<close>

definition Request_send :: "bus_env \<Rightarrow> nat \<Rightarrow> string \<Rightarrow> pb_message \<Rightarrow> bus_client \<Rightarrow>
    fault + app_msg_wrapper option \<times> bus_client" where
  "Request_send env cur_co_id service_name message bc =
     (if \<not> bc_ready bc then Inr (None, bc)
      else with_pack env message 3 0 (\<lambda>w bc1.
             if aw_offset w = 0 then drop_pack w (Inr (None, bc1))
             else (case put (aw_offset w) 30 (le_bytes 8 cur_co_id) (bc_slab bc1) of
                     None \<Rightarrow> Inl Undefined
                   | Some s \<Rightarrow>
                       (case SendToNode_pack env service_name RoundRobin (ref_of w) (bc1\<lparr>bc_slab := s\<rparr>) of
                          Inl f \<Rightarrow> Inl f
                        | Inr (True, bc2) \<Rightarrow> Inr (Some w, bc2)
                        | Inr (False, bc2) \<Rightarrow> drop_pack w (Inr (None, bc2))))) bc)"

text \<open>The rest of \<open>Request\<close>: no answer in time throws, and either way the packet is dropped.\<close>

definition Request_finish :: "app_msg_wrapper \<Rightarrow> nat option \<Rightarrow> bus_client \<Rightarrow> fault + nat \<times> bus_client" where
  "Request_finish w rsp_msg bc =
     (case rsp_msg of None \<Rightarrow> Inl Thrown | Some m \<Rightarrow> drop_pack w (Inr (m, bc)))"

definition BusClient_ForwardRawAppMsg ::
  "bus_env \<Rightarrow> string \<Rightarrow> 8 word list \<Rightarrow> 8 word list option \<Rightarrow> lb_strategy \<Rightarrow> bus_client \<Rightarrow> fault + bool \<times> bus_client" where
  "BusClient_ForwardRawAppMsg env service_name src data strategy bc =
     (if \<not> bc_ready bc then Inr (False, bc)
      else (case ForwardRawAppMsg (be_base env) src data (str_bytes service_name) (bc_slab bc) of
              Inl f \<Rightarrow> Inl f
            | Inr (None, s) \<Rightarrow> Inr (False, bc\<lparr>bc_slab := s\<rparr>)
            | Inr (Some w, s) \<Rightarrow>
                drop_pack w (SendToNode_pack env service_name strategy (ref_of w) (bc\<lparr>bc_slab := s\<rparr>))))"

definition ForwardRawAppMsgToId ::
  "bus_env \<Rightarrow> string \<Rightarrow> 8 word list \<Rightarrow> 8 word list option \<Rightarrow> bus_client \<Rightarrow> fault + bool \<times> bus_client" where
  "ForwardRawAppMsgToId env instance_id src data bc =
     BusClient_ForwardRawAppMsg env instance_id src data RoundRobin bc"

section \<open>Receiving\<close>

text \<open>
  One round of \<open>IoLoop\<close>: a packet that is popped is captured in a task of the scheduler.
\<close>

definition IoLoop_round :: "bus_client \<Rightarrow> fault + bus_client" where
  "IoLoop_round bc =
     (if \<not> bc_running bc then Inr bc
      else (case bc_local_ring bc of
              None \<Rightarrow> Inl Undefined
            | Some name \<Rightarrow>
                (case bn_rings (bc_net bc) name of
                   None \<Rightarrow> Inl Undefined
                 | Some ring \<Rightarrow>
                     (case Pop ring of
                        None \<Rightarrow> Inl Undefined
                      | Some (None, ring1) \<Rightarrow> Inr bc
                      | Some (Some (off, dst), ring1) \<Rightarrow>
                          (let bc1 = bc\<lparr>bc_net := (bc_net bc)\<lparr>bn_rings := (bn_rings (bc_net bc))(name \<mapsto> ring1)\<rparr>\<rparr>
                           in if off = 0 then Inr bc1
                              else (case bc_sched bc1 of
                                      None \<Rightarrow> Inr bc1
                                    | Some sch \<Rightarrow>
                                        (let (i, sch1) = schedule sch
                                         in Inr (bc1\<lparr>bc_sched := Some sch1,
                                                   bc_closures := (bc_closures bc1)(i := off)\<rparr>))))))))"

definition handled_by :: "bus_env \<Rightarrow> msg_handlers \<Rightarrow> nat \<Rightarrow> nat \<Rightarrow> bus_client \<Rightarrow> bus_client" where
  "handled_by env hs msg_id off bc =
     bc\<lparr>bc_handled := bc_handled bc @ map (\<lambda>h. (h, off)) (snd (MsgDispatcher_onMsg (be_throws env) msg_id hs))\<rparr>"

definition HandleResponse :: "nat \<Rightarrow> nat \<Rightarrow> bus_client \<Rightarrow> bus_client" where
  "HandleResponse co_id off bc =
     (if co_id = 0 then bc
      else bc\<lparr>bc_sched := map_option (\<lambda>sch. snd (sched_resume co_id (Some off) sch)) (bc_sched bc)\<rparr>)"

text \<open>The body of the task, when a worker runs it: dispatch on the type the packet has by then.\<close>

definition run_closure :: "bus_env \<Rightarrow> nat \<Rightarrow> bus_client \<Rightarrow> bus_client" where
  "run_closure env off bc =
     (let raw = block_at (bc_slab bc) off sizeof_AppMsg; typ = field 1 1 raw; msg_id = field 18 2 raw
      in if typ = 1 \<or> typ = 2 then handled_by env (bc_handlers bc) msg_id off bc
         else if typ = 3 then handled_by env (bc_ss_handlers bc) msg_id off bc
         else if typ = 4 then HandleResponse (field 30 8 raw) off bc
         else bc)"

text \<open>
  A step of the scheduler's own threads; a worker that takes a task for the first time runs its body.
  \<open>start\<close> is not among them: it is only a call away, but nothing in the program calls it.
\<close>

definition sched_thread_step :: "bus_env \<Rightarrow> nat sched_op \<Rightarrow> bus_client \<Rightarrow> bus_client option" where
  "sched_thread_step env x bc =
     (case bc_sched bc of
        None \<Rightarrow> None
      | Some sch \<Rightarrow>
          (case sched_step x sch of
             None \<Rightarrow> None
           | Some sch1 \<Rightarrow>
               (let bc1 = bc\<lparr>bc_sched := Some sch1\<rparr>
                in case x of
                     OpTake w \<Rightarrow>
                       (case sc_workers sch1 ! w of
                          WRun i \<Rightarrow> Some (if ti_started (sc_items sch i) then bc1
                                         else run_closure env (bc_closures bc i) bc1)
                        | _ \<Rightarrow> Some bc1)
                   | _ \<Rightarrow> Some bc1)))"

section \<open>What a successful send leaves behind\<close>

definition rings_ok :: "bus_net \<Rightarrow> bool" where
  "rings_ok n \<longleftrightarrow> (\<forall>name r. bn_rings n name = Some r \<longrightarrow> rb_inv r)"

text \<open>\<open>Open\<close> gives a region of the size asked for.\<close>

definition opens_sized :: "shm_opener \<Rightarrow> bool" where
  "opens_sized shm_open \<longleftrightarrow> (\<forall>k name old m. shm_open k name old = Some m \<longrightarrow> length (rb_buffer m) = k)"

lemma open_ring_ok:
  assumes "rings_ok n" "opens_sized shm_open" "0 < k" "k < 2 ^ 63" "open_ring shm_open k name n = Inr n'"
  shows "rings_ok n'"
proof -
  obtain m r where m: "shm_open k name (bn_rings n name) = Some m"
      "ShmRingBuffer_ctor sizeof_AppMsgWrapper k (Some m) = Some r"
      "n' = n\<lparr>bn_rings := (bn_rings n)(name \<mapsto> r)\<rparr>"
    using assms(5) by (cases "shm_open k name (bn_rings n name)")
      (auto simp: open_ring_def ShmRingBuffer_ctor_def split: option.splits)
  have "length (rb_buffer m) = k" using assms(2) m(1) by (simp add: opens_sized_def)
  then have "rb_inv r" using ctor_spec [OF assms(3,4), of m sizeof_AppMsgWrapper] m(2) by auto
  then show ?thesis using assms(1) m(3) by (simp add: rings_ok_def)
qed

lemma push_ring_True:
  assumes "rings_ok n" "push_ring name msg n = Inr (True, n')"
  shows "\<exists>r'. bn_rings n' name = Some r' \<and> contents r' \<noteq> [] \<and> last (contents r') = msg"
proof -
  obtain r r' where r: "bn_rings n name = Some r" "Push r msg = Some (True, r')" "bn_rings n' name = Some r'"
    using assms(2) by (auto simp: push_ring_def split: option.splits)
  then have "rb_inv r" using assms(1) by (auto simp: rings_ok_def)
  then show ?thesis using Push_spec [of r msg] r by auto
qed

lemma client_send_True:
  assumes ok: "rings_ok n" "opens_sized shm_open"
    and s: "BusClientNet_sendMsgByServiceInfo shm_open info msg n = Inr (True, n')"
  shows "\<exists>name r'. bn_rings n' name = Some r' \<and> contents r' \<noteq> [] \<and> last (contents r') = msg"
proof -
  obtain name n1 where n1: "rings_ok n1" "push_ring name msg n1 = Inr (True, n')"
  proof (cases "''127.0.0.1'' = sv_ip info")
    case True
    show thesis
    proof (cases "bn_local_services n (sv_id info)")
      case None
      then obtain n2 where n2: "open_ring shm_open default_ring_size (sv_shm_recv_buffer_name info) n = Inr n2"
        and p: "push_ring (sv_shm_recv_buffer_name info) msg (n2\<lparr>bn_local_services :=
          (bn_local_services n2)(sv_id info \<mapsto> sv_shm_recv_buffer_name info)\<rparr>) = Inr (True, n')"
        using s True by (auto simp: BusClientNet_sendMsgByServiceInfo_def split: sum.splits)
      have "rings_ok n2" by (rule open_ring_ok [OF ok _ _ n2]) (simp_all add: default_ring_size_def)
      then show thesis using that [OF _ p] by (simp add: rings_ok_def)
    next
      case (Some name)
      then show thesis using s True that [OF ok(1)] by (auto simp: BusClientNet_sendMsgByServiceInfo_def)
    qed
  next
    case False
    then show thesis using s that [OF ok(1)]
      by (auto simp: BusClientNet_sendMsgByServiceInfo_def split: option.splits)
  qed
  then show ?thesis using push_ring_True by blast
qed

lemma sendMsgTo_True:
  assumes "rings_ok n" "opens_sized shm_open"
    and "BusClientNet_sendMsgTo shm_open hash rng target msg strategy n = Inr (True, n')"
  shows "\<exists>name r'. bn_rings n' name = Some r' \<and> contents r' \<noteq> [] \<and> last (contents r') = msg"
  using assms(3) client_send_True [OF assms(1,2)]
  by (auto simp: BusClientNet_sendMsgTo_def sendMsgTo_def split: sum.splits option.splits)

lemma sent_pack:
  assumes "SendToNode env service_name message bc = Inr (True, bc')"
  obtains w seq s1 n where
    "CreateSSPack (be_base env) (be_ids env) message 3 0 (bc_seq bc) (bc_slab bc) = Inr (Some w, seq, s1)"
    "BusClientNet_sendMsgTo (be_shm_open env) (be_hash env) (be_rng env) service_name (ref_of w) RoundRobin (bc_net bc) = Inr (True, n)"
    "release_pack w s1 = Some (bc_slab bc')" "bc_net bc' = n"
proof -
  have r: "bc_ready bc" using assms by (auto simp: SendToNode_def split: if_splits)
  obtain w seq s1 where c: "CreateSSPack (be_base env) (be_ids env) message 3 0 (bc_seq bc) (bc_slab bc) = Inr (Some w, seq, s1)"
    and d: "drop_pack w (SendToNode_pack env service_name RoundRobin (ref_of w) (bc\<lparr>bc_seq := seq, bc_slab := s1\<rparr>)) = Inr (True, bc')"
    using assms r by (auto simp: SendToNode_def with_pack_def split: sum.splits option.splits prod.splits)
  obtain n where n: "BusClientNet_sendMsgTo (be_shm_open env) (be_hash env) (be_rng env) service_name (ref_of w) RoundRobin (bc_net bc) = Inr (True, n)"
      "release_pack w s1 = Some (bc_slab bc')" "bc_net bc' = n"
    using d r by (auto simp: drop_pack_def SendToNode_pack_def split: sum.splits option.splits)
  show thesis by (rule that [OF c n])
qed

section \<open>Properties\<close>

text \<open>
  C22: A message that was sent successfully lies in memory that is already free. The last entry of the
  ring the message was pushed to refers to a block that nobody holds any more when \<open>SendToNode\<close> returns;
  the next packet of its size class, whoever builds it, is written into that block, over the message
  the receiver has not read yet.
\<close>

theorem sent_message_is_freed_in_flight:
  assumes "slab_owns B E (bc_slab bc) L" "length (pb_bytes message) \<le> 2 ^ 31 - sizeof_AppMsg"
    and "rings_ok (bc_net bc)" "opens_sized (be_shm_open env)"
    and "SendToNode env service_name message bc = Inr (True, bc')"
  shows "\<exists>name ring off c. bn_rings (bc_net bc') name = Some ring \<and> contents ring \<noteq> [] \<and>
    last (contents ring) = (off, replicate 16 0) \<and> off \<noteq> 0 \<and>
    SizeClassIndex (Align8 (of_nat (sizeof_AppMsg + length (pb_bytes message)))) = Some c \<and>
    (off, c) \<notin> L \<and> slab_owns B E (bc_slab bc') L \<and>
    (\<forall>b. SizeClassIndex (Align8 b) = Some c \<longrightarrow> (\<exists>s. Alloc b (bc_slab bc') = Some (off, s)))"
proof -
  obtain w seq s1 n where s: "CreateSSPack (be_base env) (be_ids env) message 3 0 (bc_seq bc) (bc_slab bc) = Inr (Some w, seq, s1)"
    "BusClientNet_sendMsgTo (be_shm_open env) (be_hash env) (be_rng env) service_name (ref_of w) RoundRobin (bc_net bc) = Inr (True, n)"
    "release_pack w s1 = Some (bc_slab bc')" "bc_net bc' = n"
    by (rule sent_pack [OF assms(5)])
  obtain off c where p: "w = \<lparr>aw_offset = off, aw_dst = replicate 16 0,
        aw_pack_len = of_nat (sizeof_AppMsg + length (pb_bytes message))\<rparr>" "(off, c) \<notin> L"
      "SizeClassIndex (Align8 (aw_pack_len w)) = Some c" "slab_owns B E s1 (insert (off, c) L)"
    by (rule create_pack_block [OF assms(1) s(1) [unfolded CreateSSPack_def] assms(2)])
  obtain name ring where ring: "bn_rings (bc_net bc') name = Some ring" "contents ring \<noteq> []"
      "last (contents ring) = ref_of w"
    using sendMsgTo_True [OF assms(3,4) s(2)] s(4) by blast
  have free: "Free off (aw_pack_len w) s1 = Some (bc_slab bc')" using s(3) p(1) by (simp add: release_pack_def)
  have own: "slab_owns B E (bc_slab bc') L"
    using slab_release_law [OF p(4,3), of off] free p(2) by auto
  have "off \<in> block_bytes (off, c)" using class_size_ge [of c] by (simp add: block_bytes_def)
  then have "off \<in> {B + sizeof_SlabHeader..<E}" using slab_alloc.arena_law [OF p(4), of "(off, c)"] by blast
  then have "off \<noteq> 0" by (simp add: sizeof_SlabHeader_def)
  moreover have "\<exists>s. Alloc b (bc_slab bc') = Some (off, s)" if "SizeClassIndex (Align8 b) = Some c" for b
    using free_then_alloc_reuses [OF p(4) _ p(3) that, of off] free by auto
  ultimately show ?thesis using ring own p by (intro exI [of _ name] exI [of _ ring] exI [of _ off] exI [of _ c])
      (simp add: ref_of_def)
qed

section \<open>Nothing is ever handled\<close>

text \<open>
  Everything that happens to a client: its own calls, the receive loop, answers of the centre, the
  scheduler's threads, and other processes that change the slab and the rings at will.
\<close>

inductive bus_step :: "bus_env \<Rightarrow> bus_client \<Rightarrow> bus_client \<Rightarrow> bool" for env where
  start: "BusClient_Start env bc = Inr (ok, bc') \<Longrightarrow> bus_step env bc bc'"
| stop: "bus_step env bc (BusClient_Stop bc)"
| regist: "RegistMessage m h bc = Inr (ok, bc') \<Longrightarrow> bus_step env bc bc'"
| unregist: "UnregistMessage m bc = Inr (ok, bc') \<Longrightarrow> bus_step env bc bc'"
| ss_regist: "bus_step env bc (snd (SSRegistMessage m h bc))"
| ss_unregist: "bus_step env bc (snd (SSUnregistMessage m bc))"
| send: "SendToNode env name message bc = Inr (ok, bc') \<Longrightarrow> bus_step env bc bc'"
| reply: "BusClient_Reply env req rsp bc = Inr (ok, bc') \<Longrightarrow> bus_step env bc bc'"
| request: "Request_send env co name message bc = Inr (w, bc') \<Longrightarrow> bus_step env bc bc'"
| answered: "Request_finish w rsp bc = Inr (v, bc') \<Longrightarrow> bus_step env bc bc'"
| forward: "BusClient_ForwardRawAppMsg env name src data strategy bc = Inr (ok, bc') \<Longrightarrow> bus_step env bc bc'"
| io: "IoLoop_round bc = Inr bc' \<Longrightarrow> bus_step env bc bc'"
| center: "onRecvMsg (be_shm_open env) rsp (bc_net bc) = Inr n \<Longrightarrow> bus_step env bc (bc\<lparr>bc_net := n\<rparr>)"
| others: "bus_step env bc (bc\<lparr>bc_slab := s, bc_net := (bc_net bc)\<lparr>bn_rings := rings\<rparr>\<rparr>)"
| threads: "x \<noteq> OpStart \<Longrightarrow> sched_thread_step env x bc = Some bc' \<Longrightarrow> bus_step env bc bc'"

definition idle :: "bus_client \<Rightarrow> bool" where
  "idle bc \<longleftrightarrow> bc_handled bc = [] \<and> (\<forall>sch. bc_sched bc = Some sch \<longrightarrow> sc_workers sch = [])"

definition same_threads :: "bus_client \<Rightarrow> bus_client \<Rightarrow> bool" where
  "same_threads bc bc' \<longleftrightarrow> bc_handled bc' = bc_handled bc \<and> bc_sched bc' = bc_sched bc"

lemma same_threads_idle: "idle bc \<Longrightarrow> same_threads bc bc' \<Longrightarrow> idle bc'"
  by (simp add: idle_def same_threads_def)

lemma pack_same:
  "SendToNode_pack env name strategy msg bc = Inr (ok, bc') \<Longrightarrow> same_threads bc bc'"
  by (auto simp: SendToNode_pack_def same_threads_def split: if_splits sum.splits)

lemma drop_same: "drop_pack w res = Inr (v, bc') \<Longrightarrow> \<exists>u bc1. res = Inr (u, bc1) \<and> same_threads bc1 bc'"
  by (auto simp: drop_pack_def same_threads_def split: sum.splits option.splits)

text \<open>Sending, of whatever kind, leaves the scheduler and the handlers alone.\<close>

lemma send_same: "SendToNode env name message bc = Inr (ok, bc') \<Longrightarrow> same_threads bc bc'"
  by (auto simp: SendToNode_def with_pack_def same_threads_def split: if_splits sum.splits option.splits
      dest!: drop_same pack_same)

lemma reply_same: "BusClient_Reply env req rsp bc = Inr (ok, bc') \<Longrightarrow> same_threads bc bc'"
  by (auto simp: BusClient_Reply_def with_pack_def same_threads_def split: if_splits sum.splits option.splits
      dest!: drop_same pack_same)

lemma forward_same:
  "BusClient_ForwardRawAppMsg env name src data strategy bc = Inr (ok, bc') \<Longrightarrow> same_threads bc bc'"
  by (auto simp: BusClient_ForwardRawAppMsg_def same_threads_def split: if_splits sum.splits option.splits
      dest!: drop_same pack_same)

lemma request_same: "Request_send env co name message bc = Inr (v, bc') \<Longrightarrow> same_threads bc bc'"
  by (auto simp: Request_send_def with_pack_def same_threads_def
      split: if_splits sum.splits option.splits bool.splits dest!: drop_same pack_same)

lemma answered_same: "Request_finish w rsp bc = Inr (v, bc') \<Longrightarrow> same_threads bc bc'"
  by (auto simp: Request_finish_def same_threads_def split: option.splits dest!: drop_same)

lemma io_idle: "idle bc \<Longrightarrow> IoLoop_round bc = Inr bc' \<Longrightarrow> idle bc'"
  by (auto simp: IoLoop_round_def idle_def Let_def schedule_def enqueue_ready_def
      split: if_splits option.splits prod.splits)

lemma no_workers_step:
  assumes "sc_workers sch = []" "sched_step x sch = Some sch'" "x \<noteq> OpStart"
  shows "sc_workers sch' = [] \<and> (\<forall>w. x \<noteq> OpTake w)"
  using assms
  by (cases x) (auto simp: sched_stop_def sched_join_def schedule_def enqueue_ready_def sched_resume_def wake_def
      upd_item_def timeout_scan_def timeout_fire_def worker_take_def body_yield_def body_suspend_def body_end_def
      worker_look_def Let_def split: if_splits option.splits list.splits)

lemma threads_idle:
  assumes i: "idle bc" and x: "x \<noteq> OpStart" and s: "sched_thread_step env x bc = Some bc'"
  shows "idle bc'"
proof -
  obtain sch sch1 where sch: "bc_sched bc = Some sch" "sched_step x sch = Some sch1"
    using s by (auto simp: sched_thread_step_def split: option.splits)
  have "sc_workers sch = []" using i sch(1) by (simp add: idle_def)
  then have n: "sc_workers sch1 = []" "\<And>w. x \<noteq> OpTake w" using no_workers_step [OF _ sch(2) x] by auto
  then have "bc' = bc\<lparr>bc_sched := Some sch1\<rparr>"
    using s sch by (auto simp: sched_thread_step_def Let_def split: sched_op.splits)
  then show ?thesis using i n(1) by (simp add: idle_def)
qed

lemma stop_idle: "idle bc \<Longrightarrow> idle (BusClient_Stop bc)"
  by (auto simp: BusClient_Stop_def idle_def sched_stop_def)

lemma start_idle: "idle bc \<Longrightarrow> BusClient_Start env bc = Inr (ok, bc') \<Longrightarrow> idle bc'"
  by (auto simp: BusClient_Start_def InitSharedMemory_def idle_def CoroutineScheduler_ctor_def Let_def
      split: if_splits sum.splits)

lemma regist_idle:
  assumes "idle bc"
  shows "RegistMessage m h bc = Inr (ok, bc') \<Longrightarrow> idle bc'" "UnregistMessage m bc = Inr (ok, bc') \<Longrightarrow> idle bc'"
    "idle (snd (SSRegistMessage m h bc))" "idle (snd (SSUnregistMessage m bc))"
  using assms
  by (auto simp: RegistMessage_def UnregistMessage_def SSRegistMessage_def SSUnregistMessage_def idle_def
      split: if_splits)

lemma world_idle:
  assumes "idle bc"
  shows "idle (bc\<lparr>bc_net := n\<rparr>)" "idle (bc\<lparr>bc_slab := s, bc_net := n\<rparr>)"
  using assms by (simp_all add: idle_def)

lemma bus_step_idle: "bus_step env bc bc' \<Longrightarrow> idle bc \<Longrightarrow> idle bc'"
  by (induction rule: bus_step.induct)
    (blast intro: stop_idle start_idle regist_idle world_idle io_idle threads_idle same_threads_idle
      send_same reply_same request_same answered_same forward_same)+

inductive bus_reachable :: "bus_env \<Rightarrow> bus_client \<Rightarrow> bool" for env where
  init: "bus_reachable env (BusClient_ctor opts rings s)"
| step: "bus_reachable env bc \<Longrightarrow> bus_step env bc bc' \<Longrightarrow> bus_reachable env bc'"

lemma reachable_idle: "bus_reachable env bc \<Longrightarrow> idle bc"
proof (induction rule: bus_reachable.induct)
  case (init opts rings s)
  then show ?case by (simp add: BusClient_ctor_def idle_def)
qed (rule bus_step_idle)

text \<open>
  C23: No message is ever handled. A started client runs its receive loop and captures every packet in a
  task of the scheduler, but no call in the program starts the scheduler: in every reachable state no
  handler has been called, and a task that was scheduled cannot be taken.
\<close>

theorem no_message_is_ever_handled:
  assumes "bus_reachable env bc"
  shows "bc_handled bc = [] \<and> sched_thread_step env (OpTake w) bc = None"
proof -
  have "idle bc" by (rule reachable_idle [OF assms])
  then show ?thesis by (auto simp: idle_def sched_thread_step_def worker_take_def split: option.split)
qed

text \<open>The inputs of the witnesses: a client with a route to an instance whose ring it has open.\<close>

definition demo_ring :: "nat \<Rightarrow> msg_ref ring" where
  "demo_ring k = \<lparr>rb_head = 0, rb_tail = 0, rb_capacity = k, rb_element_size = sizeof_AppMsgWrapper,
     rb_initialized = True, rb_ring_size = k, rb_buffer = replicate k (0, [])\<rparr>"

definition demo_env :: bus_env where
  "demo_env = \<lparr>be_base = 4096, be_ids = demo_ids, be_shm_open = (\<lambda>k name old. if name = [] then None else Some (demo_ring k)),
     be_connects = True, be_hash = (\<lambda>k. 0), be_rng = (\<lambda>k. 0), be_throws = (\<lambda>h. False)\<rparr>"

definition demo_client :: "slab \<Rightarrow> bus_client" where
  "demo_client s = (BusClient_ctor demo_options Map.empty s)\<lparr>bc_ready := True,
     bc_net := (BusClientNet_init demo_options True [''/ibus_1'' \<mapsto> demo_ring 4])\<lparr>
       bn_service_map := Some [(''1'', [(demo_info ''logic'' ''1'')\<lparr>sv_ip := ''127.0.0.1''\<rparr>])],
       bn_local_services := [''1'' \<mapsto> ''/ibus_1'']\<rparr>\<rparr>"

lemma demo_push: "\<exists>r. Push (demo_ring 4) x = Some (True, r)"
  by (simp add: Push_def demo_ring_def IsFull_def sz_mod_def uadd_def mem_write_def)

lemma demo_send:
  assumes "slab_owns B E s L" "bump (hdr s) + PAGE_SIZE \<le> E"
  shows "\<exists>bc'. SendToNode demo_env ''1'' (demo_pb [1, 2]) (demo_client s) = Inr (True, bc')"
proof -
  have "SizeClassIndex (Align8 72) = Some 3"
    by (simp_all add: SizeClassIndex_def Align8_def pow2ceil_def Let_def class_loop.simps MAX_CLASSES_def
        word_le_nat_alt)
  then have c: "SizeClassIndex (Align8 (of_nat (sizeof_AppMsg + length (pb_bytes (demo_pb [1, 2]))))) = Some 3"
    by (simp add: demo_pb_def sizeof_AppMsg_def sizeof_Header_def)
  have len: "length (pb_bytes (demo_pb [1, 2])) \<le> 2 ^ 31 - sizeof_AppMsg"
    by (simp add: demo_pb_def sizeof_AppMsg_def sizeof_Header_def)
  obtain w seq s1 where r: "create_pack 4096 demo_ids (demo_pb [1, 2]) 3 None 0 s = Inr (Some w, seq, s1)"
    using create_pack_runs [of B E s L demo_ids "demo_pb [1, 2]" 0 3 4096 3 None 0, OF assms(1) demo_short _ len assms(2) c]
    by (auto simp: demo_pb_def)
  obtain off k where p: "w = \<lparr>aw_offset = off, aw_dst = replicate 16 0,
        aw_pack_len = of_nat (sizeof_AppMsg + length (pb_bytes (demo_pb [1, 2])))\<rparr>"
      "SizeClassIndex (Align8 (aw_pack_len w)) = Some k" "slab_owns B E s1 (insert (off, k) L)"
    by (rule create_pack_block [OF assms(1) r len])
  obtain s2 where s2: "release_pack w s1 = Some s2"
    using slab_release_law [OF p(3,2), of off] p(1) by (auto simp: release_pack_def)
  obtain q where q: "Push (demo_ring 4) (ref_of w) = Some (True, q)" using demo_push by blast
  have a: "\<not> (\<exists>c \<in> set ''1''. is_alpha c)" by (simp add: is_alpha_def)
  have "BusClientNet_sendMsgTo (be_shm_open demo_env) (be_hash demo_env) (be_rng demo_env) ''1'' (ref_of w)
      RoundRobin (bc_net (demo_client s)) = Inr (True, (bc_net (demo_client s))\<lparr>bn_rings := [''/ibus_1'' \<mapsto> q]\<rparr>)"
    using q by (simp add: BusClientNet_sendMsgTo_def sendMsgTo_def choose_route_def is_alpha_def first_info_def
        demo_client_def BusClientNet_sendMsgByServiceInfo_def push_ring_def demo_info_def BusClientNet_init_def
        BusClientNet_genServiceInfo_def Let_def)
  then show ?thesis using r s2
    by (simp add: SendToNode_def with_pack_def CreateSSPack_def drop_pack_def SendToNode_pack_def)
      (simp add: demo_client_def demo_env_def BusClient_ctor_def)
qed

theorem sent_message_is_freed_in_flight_witness:
  "\<exists>s bc' name ring off c. ShmSlab_ctor True 200000 64 190000 blank_slab = Some s \<and>
    SendToNode demo_env ''1'' (demo_pb [1, 2]) (demo_client s) = Inr (True, bc') \<and>
    bn_rings (bc_net bc') name = Some ring \<and> last (contents ring) = (off, replicate 16 0) \<and>
    SizeClassIndex (Align8 72) = Some c \<and> (\<exists>s. Alloc 72 (bc_slab bc') = Some (off, s))"
proof -
  obtain s where s: "ShmSlab_ctor True 200000 64 190000 blank_slab = Some s"
      "slab_owns 64 190064 s {}" "bump (hdr s) + PAGE_SIZE \<le> 190064" by (rule demo_slab)
  obtain bc' where bc': "SendToNode demo_env ''1'' (demo_pb [1, 2]) (demo_client s) = Inr (True, bc')"
    using demo_send [OF s(2,3)] by blast
  have h: "slab_owns 64 190064 (bc_slab (demo_client s)) {}"
    "length (pb_bytes (demo_pb [1, 2])) \<le> 2 ^ 31 - sizeof_AppMsg"
    "rings_ok (bc_net (demo_client s))" "opens_sized (be_shm_open demo_env)"
    using s(2) by (auto simp: demo_client_def BusClient_ctor_def demo_pb_def sizeof_AppMsg_def sizeof_Header_def
        rings_ok_def opens_sized_def demo_env_def demo_ring_def rb_inv_def BusClientNet_init_def
        BusClientNet_genServiceInfo_def Let_def split: if_splits)
  have n: "of_nat (sizeof_AppMsg + length (pb_bytes (demo_pb [1, 2]))) = (72 :: 32 word)"
    by (simp add: demo_pb_def sizeof_AppMsg_def sizeof_Header_def)
  from sent_message_is_freed_in_flight [OF h bc', unfolded n] show ?thesis using s(1) bc' by metis
qed

theorem no_message_is_ever_handled_witness:
  "\<exists>bc sch. bc_sched bc = Some sch \<and> sc_queue sch = [1] \<and> bc_running bc \<and>
     bc_handled bc = [] \<and> sched_thread_step demo_env (OpTake 0) bc = None"
proof -
  let ?bc0 = "BusClient_ctor demo_options Map.empty blank_slab"
  let ?name = "''/ibus_'' @ client_id demo_options"
  let ?ring = "(demo_ring 4)\<lparr>rb_tail := 1, rb_buffer := (320, []) # replicate 3 (0, [])\<rparr>"
  obtain bc1 where bc1: "BusClient_Start demo_env ?bc0 = Inr (True, bc1)" "bc_running bc1"
      "bc_local_ring bc1 = Some ?name" "bc_sched bc1 = Some (CoroutineScheduler_ctor 4)"
    by (simp add: BusClient_Start_def InitSharedMemory_def open_ring_def ShmRingBuffer_ctor_def InitShm_def
        demo_env_def BusClient_ctor_def Let_def)
  let ?bc2 = "bc1\<lparr>bc_slab := blank_slab, bc_net := (bc_net bc1)\<lparr>bn_rings := [?name \<mapsto> ?ring]\<rparr>\<rparr>"
  have pop: "Pop ?ring = Some (Some (320, []), ?ring\<lparr>rb_head := 1\<rparr>)"
    by (simp add: Pop_def IsEmpty_def mem_read_def sz_mod_def uadd_def demo_ring_def)
  obtain bc3 where bc3: "IoLoop_round ?bc2 = Inr bc3" "bc_running bc3"
      "bc_sched bc3 = Some (snd (schedule (CoroutineScheduler_ctor 4)))"
    using bc1 pop by (simp add: IoLoop_round_def case_prod_beta Let_def)
  have "bus_reachable demo_env bc3"
    using bus_reachable.init [of demo_env demo_options Map.empty blank_slab] bus_step.start [OF bc1(1)]
      bus_step.others [where env = demo_env and bc = bc1 and s = blank_slab and rings = "[?name \<mapsto> ?ring]"] bus_step.io [OF bc3(1)]
    by (blast intro: bus_reachable.step)
  then show ?thesis using no_message_is_ever_handled [of demo_env bc3 0] bc3(2,3)
    by (intro exI [of _ bc3] exI [of _ "snd (schedule (CoroutineScheduler_ctor 4))"])
      (simp add: schedule_def enqueue_ready_def CoroutineScheduler_ctor_def Let_def)
qed

end
