(* ===== verification/Busd.thy ===== *)
theory Busd
  imports Bus TcpClient
begin

text \<open>
  \<open>BusdNet\<close> (server/core/bus/BusdNet.h, BusdNet.cpp), what a daemon does with a route: it pushes to the
  rings of its own machine and keeps a TCP connection (\<open>TcpClient\<close>) to each other daemon;
  \<open>Helper::DeleteSSPack\<close> (server/common/Helper.cpp). The connections a daemon accepts are those of
  \<open>BusdApp\<close> (server/busd/BusdService.h), whose receive handler only writes a log line. The answers of the
  kernel while a message is sent are part of the environment.
\<close>

section \<open>State\<close>

record busd_env = bus_env +
  de_connect :: "string \<Rightarrow> connect_env"
  de_now :: nat
  de_write :: write_result

record busd =
  bd_net :: bus_net
  bd_slab :: slab
  bd_remotes :: "string \<rightharpoonup> tcp_client"
  bd_running :: bool

definition BusdNet_genServiceInfo :: "bus_net \<Rightarrow> bus_net" where
  "BusdNet_genServiceInfo n = (let opts = bn_options n in
     n\<lparr>bn_local_info := (bn_local_info n)\<lparr>sv_ip := op_local_ip opts, sv_port := op_local_port opts, sv_is_daemon := True,
        sv_id := ''busd_'' @ client_id opts, sv_svr_name := ''busd'',
        sv_shm_recv_buffer_name := ''/busd_recv_'' @ client_id opts\<rparr>\<rparr>)"

text \<open>\<open>init\<close> up to its registration loop, and the destructor after its \<open>join\<close>.\<close>

definition BusdNet_init :: "net_options \<Rightarrow> bool \<Rightarrow> shm_rings \<Rightarrow> slab \<Rightarrow> busd" where
  "BusdNet_init opts connects rings s =
     \<lparr>bd_net = BusdNet_genServiceInfo (BusClientNet_init opts connects rings), bd_slab = s, bd_remotes = Map.empty,
      bd_running = False\<rparr>"

section \<open>Packets\<close>

text \<open>\<open>pack_len_\<close> read through a pointer into the slab; through null, or outside, it is undefined.\<close>

definition pack_len_at :: "nat \<Rightarrow> slab \<Rightarrow> nat option" where
  "pack_len_at off s =
     (if off \<noteq> 0 \<and> off + 6 \<le> total_size (hdr s) then Some (field 2 4 (block_at s off 6)) else None)"

definition DeleteSSPack :: "msg_ref \<Rightarrow> slab \<Rightarrow> slab option" where
  "DeleteSSPack pack s = (case pack_len_at (fst pack) s of None \<Rightarrow> None | Some n \<Rightarrow> Free (fst pack) (of_nat n) s)"

text \<open>A copy of a packet, as \<open>broadCast\<close> and \<open>sendMsgToGroup\<close> make one for each receiver.\<close>

definition copy_pack :: "msg_ref \<Rightarrow> slab \<Rightarrow> (msg_ref \<times> slab) option" where
  "copy_pack msg s =
     do { n \<leftarrow> pack_len_at (fst msg) s;
          (off, s1) \<leftarrow> Alloc (of_nat n) s;
          n1 \<leftarrow> pack_len_at (fst msg) s1;
          s2 \<leftarrow> (if fst msg + n1 \<le> total_size (hdr s1) then put off 0 (block_at s1 (fst msg) n1) s1 else None);
          Some ((off, snd msg), s2) }"

definition c_string :: "8 word list \<Rightarrow> string" where
  "c_string cs = bytes_str (takeWhile (\<lambda>b. b \<noteq> 0) cs)"

section \<open>Sending\<close>

text \<open>The ring of a service of this machine, opened when it is used first.\<close>

definition busd_open_local :: "shm_opener \<Rightarrow> service_info \<Rightarrow> bus_net \<Rightarrow> fault + bus_net" where
  "busd_open_local shm_open info n =
     (case bn_local_services n (sv_id info) of
        Some name \<Rightarrow> Inr n
      | None \<Rightarrow>
          (case open_ring shm_open default_ring_size (sv_shm_recv_buffer_name info) n of
             Inl f \<Rightarrow> Inl f
           | Inr n1 \<Rightarrow> Inr (n1\<lparr>bn_local_services :=
               (bn_local_services n1)(sv_id info \<mapsto> sv_shm_recv_buffer_name info)\<rparr>)))"

definition delete_pack :: "bool \<Rightarrow> msg_ref \<Rightarrow> bool \<Rightarrow> busd \<Rightarrow> fault + bool \<times> busd" where
  "delete_pack delete_msg msg result d =
     (if \<not> delete_msg then Inr (result, d)
      else case DeleteSSPack msg (bd_slab d) of None \<Rightarrow> Inl Undefined | Some s \<Rightarrow> Inr (result, d\<lparr>bd_slab := s\<rparr>))"

definition busd_send_local ::
  "busd_env \<Rightarrow> bool \<Rightarrow> service_info \<Rightarrow> msg_ref \<Rightarrow> busd \<Rightarrow> fault + bool \<times> busd" where
  "busd_send_local env delete_msg info msg d =
     (case busd_open_local (be_shm_open env) info (bd_net d) of
        Inl f \<Rightarrow> Inl f
      | Inr n1 \<Rightarrow>
          (case bn_local_services n1 (sv_id info) of
             None \<Rightarrow> Inl Undefined
           | Some name \<Rightarrow>
               (case push_ring name msg n1 of
                  Inl f \<Rightarrow> Inl f
                | Inr (result, n2) \<Rightarrow> delete_pack delete_msg msg result (d\<lparr>bd_net := n2\<rparr>))))"

definition remote_key :: "service_info \<Rightarrow> string" where
  "remote_key info = sv_ip info @ '':'' @ bytes_str (to_string (sv_port info))"

text \<open>The connection to another daemon, made when it is used first.\<close>

definition busd_connect :: "busd_env \<Rightarrow> string \<Rightarrow> busd \<Rightarrow> fault + bool \<times> busd" where
  "busd_connect env key d =
     (if bd_remotes d key \<noteq> None then Inr (True, d)
      else case client_start (de_connect env key) (de_now env) TcpClient_ctor of
             Inl f \<Rightarrow> Inl f
           | Inr (False, c) \<Rightarrow> Inr (False, d)
           | Inr (True, c) \<Rightarrow> Inr (True, d\<lparr>bd_remotes := (bd_remotes d)(key \<mapsto> c)\<rparr>))"

text \<open>
  \<open>TcpClient::send\<close> reads the packet where it lies in the slab and writes its connection id there; if the
  kernel refuses it, \<open>send\<close> returns when the client's event thread has been joined. The
  block is not given back, whatever \<open>delete_msg\<close> says.
\<close>

definition busd_send_tcp :: "busd_env \<Rightarrow> string \<Rightarrow> msg_ref \<Rightarrow> busd \<Rightarrow> fault + bool \<times> busd" where
  "busd_send_tcp env key msg d =
     (case bd_remotes d key of
        None \<Rightarrow> Inl Undefined
      | Some c \<Rightarrow>
          (let s = bd_slab d; pack = block_at s (fst msg) (total_size (hdr s) - fst msg)
           in if \<not> tc_running c then Inr (True, d)
              else (case client_send_joined (de_now env) pack (de_write env) c of
                      Inl f \<Rightarrow> Inl f
                    | Inr (out, c1) \<Rightarrow>
                        (case put (fst msg) 10 (le_bytes 8 client_conn_id) s of
                           None \<Rightarrow> Inl Undefined
                         | Some s1 \<Rightarrow> Inr (True, d\<lparr>bd_slab := s1, bd_remotes := (bd_remotes d)(key \<mapsto> c1)\<rparr>)))))"

definition BusdNet_sendMsgByServiceInfo ::
  "busd_env \<Rightarrow> bool \<Rightarrow> service_info \<Rightarrow> msg_ref \<Rightarrow> busd \<Rightarrow> fault + bool \<times> busd" where
  "BusdNet_sendMsgByServiceInfo env delete_msg info msg d =
     (if op_local_ip (bn_options (bd_net d)) = sv_ip info then busd_send_local env delete_msg info msg d
      else case busd_connect env (remote_key info) d of
             Inl f \<Rightarrow> Inl f
           | Inr (False, d1) \<Rightarrow> delete_pack delete_msg msg False d1
           | Inr (True, d1) \<Rightarrow> busd_send_tcp env (remote_key info) msg d1)"

definition BusdNet_sendMsgTo :: "busd_env \<Rightarrow> string \<Rightarrow> msg_ref \<Rightarrow> busd \<Rightarrow> fault + bool \<times> busd" where
  "BusdNet_sendMsgTo env target msg d =
     sendMsgTo (BusdNet_sendMsgByServiceInfo env True) bd_net (be_hash env) (be_rng env) target msg RoundRobin d"

text \<open>The end of \<open>broadCast\<close> and of the failing branches: the packet itself is deleted.\<close>

definition drop_msg :: "msg_ref \<Rightarrow> busd \<Rightarrow> fault + busd" where
  "drop_msg msg d = (case DeleteSSPack msg (bd_slab d) of None \<Rightarrow> Inl Undefined | Some s \<Rightarrow> Inr (d\<lparr>bd_slab := s\<rparr>))"

fun broadcast_each :: "busd_env \<Rightarrow> msg_ref \<Rightarrow> service_info list \<Rightarrow> busd \<Rightarrow> fault + busd" where
  "broadcast_each env msg [] d = Inr d"
| "broadcast_each env msg (info # infos) d =
     (if sv_is_daemon info then broadcast_each env msg infos d
      else case copy_pack msg (bd_slab d) of
             None \<Rightarrow> Inl Undefined
           | Some (copy, s) \<Rightarrow>
               (case BusdNet_sendMsgByServiceInfo env True info copy (d\<lparr>bd_slab := s\<rparr>) of
                  Inl f \<Rightarrow> Inl f
                | Inr (result, d1) \<Rightarrow> broadcast_each env msg infos d1))"

definition BusdNet_broadCast :: "busd_env \<Rightarrow> msg_ref \<Rightarrow> busd \<Rightarrow> fault + busd" where
  "BusdNet_broadCast env msg d =
     (case bn_service_map (bd_net d) of
        None \<Rightarrow> drop_msg msg d
      | Some service_map \<Rightarrow>
          (case broadcast_each env msg (concat (map snd service_map)) d of
             Inl f \<Rightarrow> Inl f
           | Inr d1 \<Rightarrow> drop_msg msg d1))"

text \<open>All receivers of a group but the last get a copy; the last gets the packet itself.\<close>

fun group_each :: "busd_env \<Rightarrow> msg_ref \<Rightarrow> service_info list \<Rightarrow> nat \<Rightarrow> busd \<Rightarrow> fault + nat \<times> busd" where
  "group_each env msg [] failed d = Inr (failed, d)"
| "group_each env msg (info # infos) failed d =
     (case (if infos \<noteq> [] then copy_pack msg (bd_slab d) else Some (msg, bd_slab d)) of
        None \<Rightarrow> Inl Undefined
      | Some (to_send, s) \<Rightarrow>
          (case BusdNet_sendMsgByServiceInfo env True info to_send (d\<lparr>bd_slab := s\<rparr>) of
             Inl f \<Rightarrow> Inl f
           | Inr (result, d1) \<Rightarrow> group_each env msg infos (if result then failed else failed + 1) d1))"

definition group_targets :: "service_map \<Rightarrow> service_instances \<Rightarrow> service_info list" where
  "group_targets ids insts =
     concat (map (\<lambda>(k, i). case first_info (Some ids) k of None \<Rightarrow> [] | Some info \<Rightarrow> [info]) insts)"

definition BusdNet_sendMsgToGroup :: "busd_env \<Rightarrow> string \<Rightarrow> msg_ref \<Rightarrow> busd \<Rightarrow> fault + bool \<times> busd" where
  "BusdNet_sendMsgToGroup env groupName msg d =
     (let refuse = map_sum id (\<lambda>d1. (False, d1)) (drop_msg msg d)
      in case bn_name_instances (bd_net d) of
           None \<Rightarrow> refuse
         | Some names \<Rightarrow>
             (case map_of names groupName of
                None \<Rightarrow> refuse
              | Some insts \<Rightarrow>
                  if insts = [] then refuse
                  else (case bn_service_map (bd_net d) of
                          None \<Rightarrow> refuse
                        | Some ids \<Rightarrow>
                            if group_targets ids insts = [] then refuse
                            else map_sum id (\<lambda>(failed, d1). (failed = 0, d1))
                                   (group_each env msg (group_targets ids insts) 0 d))))"

section \<open>Receiving\<close>

text \<open>
  A message a remote daemon sent on a connection of this one: the struct, its pointer \<open>data_\<close> at \<open>ptr\<close>, is
  copied into the slab as it is.
\<close>

definition onRecvFromRemoteDaemon :: "busd_env \<Rightarrow> nat \<Rightarrow> app_msg \<Rightarrow> busd \<Rightarrow> fault + busd" where
  "onRecvFromRemoteDaemon env ptr m d =
     (let pack_len = h_pack_len (m_header m)
      in case Alloc (of_nat pack_len) (bd_slab d) of
           None \<Rightarrow> Inl Undefined
         | Some (off, s1) \<Rightarrow>
             (case put off 0 (take pack_len (encode_AppMsg ptr m)) s1 of
                None \<Rightarrow> Inl Undefined
              | Some s2 \<Rightarrow>
                  (case BusdNet_sendMsgTo env (c_string (m_dst_name m)) (off, m_dst_name m) (d\<lparr>bd_slab := s2\<rparr>) of
                     Inl f \<Rightarrow> Inl f
                   | Inr (True, d1) \<Rightarrow> Inr d1
                   | Inr (False, d1) \<Rightarrow>
                       (case Free off (of_nat pack_len) (bd_slab d1) of
                          None \<Rightarrow> Inl Undefined
                        | Some s3 \<Rightarrow> Inr (d1\<lparr>bd_slab := s3\<rparr>)))))"

text \<open>One round of \<open>messageForwardLoop\<close>; a ring that is missing or empty only makes it sleep.\<close>

definition forward_round :: "busd_env \<Rightarrow> busd \<Rightarrow> fault + busd" where
  "forward_round env d =
     (if \<not> bd_running d then Inr d
      else case bn_local_busd (bd_net d) of
             None \<Rightarrow> Inr d
           | Some name \<Rightarrow>
               (case bn_rings (bd_net d) name of
                  None \<Rightarrow> Inl Undefined
                | Some ring \<Rightarrow>
                    (case Pop ring of
                       None \<Rightarrow> Inl Undefined
                     | Some (None, ring1) \<Rightarrow> Inr d
                     | Some (Some msg, ring1) \<Rightarrow>
                         (let d1 = d\<lparr>bd_net := (bd_net d)\<lparr>bn_rings := (bn_rings (bd_net d))(name \<mapsto> ring1)\<rparr>\<rparr>
                          in case BusdNet_sendMsgTo env (c_string (snd msg)) msg d1 of
                               Inl f \<Rightarrow> Inl f
                             | Inr (True, d2) \<Rightarrow> Inr d2
                             | Inr (False, d2) \<Rightarrow> drop_msg msg d2))))"

text \<open>
  The loop sets \<open>running_\<close> when its thread begins; the destructor clears it, waits for the thread, and
  then drops the connections.
\<close>

definition forward_begin :: "busd \<Rightarrow> busd" where
  "forward_begin d = d\<lparr>bd_running := True\<rparr>"

definition busd_destroy :: "busd \<Rightarrow> busd" where
  "busd_destroy d = d\<lparr>bd_running := False\<rparr>"

definition busd_joined :: "busd \<Rightarrow> busd" where
  "busd_joined d = d\<lparr>bd_remotes := Map.empty\<rparr>"

section \<open>The forward loop never sees a ring\<close>

lemma open_ring_busd: "open_ring shm_open k name n = Inr n' \<Longrightarrow> bn_local_busd n' = bn_local_busd n"
  by (auto simp: open_ring_def split: option.splits)

lemma push_ring_busd: "push_ring name msg n = Inr (ok, n') \<Longrightarrow> bn_local_busd n' = bn_local_busd n"
  by (auto simp: push_ring_def split: option.splits)

lemma open_local_busd: "busd_open_local shm_open info n = Inr n' \<Longrightarrow> bn_local_busd n' = bn_local_busd n"
  by (auto simp: busd_open_local_def dest: open_ring_busd split: option.splits sum.splits)

lemma delete_pack_net: "delete_pack b msg result d = Inr (ok, d') \<Longrightarrow> bd_net d' = bd_net d"
  by (auto simp: delete_pack_def split: if_splits option.splits)

lemma drop_msg_net: "drop_msg msg d = Inr d' \<Longrightarrow> bd_net d' = bd_net d"
  by (auto simp: drop_msg_def split: option.splits)

lemma connect_net: "busd_connect env key d = Inr (ok, d') \<Longrightarrow> bd_net d' = bd_net d"
  by (auto simp: busd_connect_def split: if_splits sum.splits prod.splits bool.splits)

lemma send_tcp_net: "busd_send_tcp env key msg d = Inr (ok, d') \<Longrightarrow> bd_net d' = bd_net d"
  by (auto simp: busd_send_tcp_def Let_def split: if_splits sum.splits option.splits)

lemma send_local_busd:
  assumes "busd_send_local env b info msg d = Inr (ok, d')"
  shows "bn_local_busd (bd_net d') = bn_local_busd (bd_net d)"
proof -
  obtain n1 name result n2 where n: "busd_open_local (be_shm_open env) info (bd_net d) = Inr n1"
      "push_ring name msg n1 = Inr (result, n2)" "delete_pack b msg result (d\<lparr>bd_net := n2\<rparr>) = Inr (ok, d')"
    using assms by (auto simp: busd_send_local_def split: sum.splits option.splits)
  show ?thesis using open_local_busd [OF n(1)] push_ring_busd [OF n(2)] delete_pack_net [OF n(3)] by simp
qed

lemma send_busd:
  assumes "BusdNet_sendMsgByServiceInfo env b info msg d = Inr (ok, d')"
  shows "bn_local_busd (bd_net d') = bn_local_busd (bd_net d)"
proof (cases "op_local_ip (bn_options (bd_net d)) = sv_ip info")
  case True
  then show ?thesis using assms send_local_busd by (simp add: BusdNet_sendMsgByServiceInfo_def)
next
  case False
  then obtain r d1 where c: "busd_connect env (remote_key info) d = Inr (r, d1)"
      "(if r then busd_send_tcp env (remote_key info) msg d1 else delete_pack b msg False d1) = Inr (ok, d')"
    using assms by (auto simp: BusdNet_sendMsgByServiceInfo_def split: sum.splits prod.splits bool.splits)
  then have "bd_net d' = bd_net d1" using send_tcp_net delete_pack_net by (cases r) auto
  then show ?thesis using connect_net [OF c(1)] by simp
qed

lemma sendMsgTo_busd:
  "BusdNet_sendMsgTo env target msg d = Inr (ok, d') \<Longrightarrow> bn_local_busd (bd_net d') = bn_local_busd (bd_net d)"
  by (auto simp: BusdNet_sendMsgTo_def sendMsgTo_def dest: send_busd split: sum.splits option.splits)

lemma broadcast_each_busd:
  "broadcast_each env msg infos d = Inr d' \<Longrightarrow> bn_local_busd (bd_net d') = bn_local_busd (bd_net d)"
proof (induction infos arbitrary: d)
  case (Cons info infos)
  show ?case
  proof (cases "sv_is_daemon info")
    case True
    then show ?thesis using Cons by simp
  next
    case False
    then obtain copy s r d1 where "BusdNet_sendMsgByServiceInfo env True info copy (d\<lparr>bd_slab := s\<rparr>) = Inr (r, d1)"
        "broadcast_each env msg infos d1 = Inr d'"
      using Cons.prems by (auto split: option.splits sum.splits)
    then show ?thesis using Cons.IH [of d1] send_busd [of env True info copy "d\<lparr>bd_slab := s\<rparr>"] by simp
  qed
qed simp

lemma group_each_busd:
  "group_each env msg infos failed d = Inr (k, d') \<Longrightarrow> bn_local_busd (bd_net d') = bn_local_busd (bd_net d)"
proof (induction infos arbitrary: failed d)
  case (Cons info infos)
  obtain to_send s r d1 where "BusdNet_sendMsgByServiceInfo env True info to_send (d\<lparr>bd_slab := s\<rparr>) = Inr (r, d1)"
      "group_each env msg infos (if r then failed else failed + 1) d1 = Inr (k, d')"
    using Cons.prems by (auto split: option.splits sum.splits)
  then show ?case using Cons.IH [of "if r then failed else failed + 1" d1] send_busd [of env True info to_send "d\<lparr>bd_slab := s\<rparr>"] by simp
qed simp

lemma map_sum_Inr: "map_sum id f x = Inr y \<longleftrightarrow> (\<exists>z. x = Inr z \<and> f z = y)"
  by (cases x) auto

lemma refuse_busd:
  "map_sum id (\<lambda>d1. (False, d1)) (drop_msg msg d) = Inr (ok, d') \<Longrightarrow> bd_net d' = bd_net d"
  by (cases "drop_msg msg d") (auto dest: drop_msg_net)

text \<open>
  Everything that happens to a daemon: answers of the centre, sends of its own, messages of other daemons,
  the loop, and other processes that change the slab and the rings at will.
\<close>

inductive busd_step :: "busd_env \<Rightarrow> busd \<Rightarrow> busd \<Rightarrow> bool" for env where
  answer: "center_reachable st \<Longrightarrow> (c, rsp) \<in> set (rt_sent st) \<Longrightarrow> onRecvMsg (be_shm_open env) rsp (bd_net d) = Inr n \<Longrightarrow>
    busd_step env d (d\<lparr>bd_net := n\<rparr>)"
| send: "BusdNet_sendMsgTo env target msg d = Inr (ok, d') \<Longrightarrow> busd_step env d d'"
| broadcast: "BusdNet_broadCast env msg d = Inr d' \<Longrightarrow> busd_step env d d'"
| group_send: "BusdNet_sendMsgToGroup env name msg d = Inr (ok, d') \<Longrightarrow> busd_step env d d'"
| remote: "onRecvFromRemoteDaemon env ptr m d = Inr d' \<Longrightarrow> busd_step env d d'"
| forward: "forward_round env d = Inr d' \<Longrightarrow> busd_step env d d'"
| loop_begins: "busd_step env d (forward_begin d)"
| others: "busd_step env d (d\<lparr>bd_slab := s, bd_net := (bd_net d)\<lparr>bn_rings := rings\<rparr>\<rparr>)"

inductive busd_reachable :: "busd_env \<Rightarrow> busd \<Rightarrow> bool" for env where
  init: "busd_reachable env (BusdNet_init opts connects rings s)"
| step: "busd_reachable env d \<Longrightarrow> busd_step env d d' \<Longrightarrow> busd_reachable env d'"

lemma answer_busd:
  assumes "center_reachable st" "(c, rsp) \<in> set (rt_sent st)" "onRecvMsg shm_open rsp n = Inr n'" "bn_local_busd n = None"
  shows "bn_local_busd n' = None"
proof (cases rsp)
  case (RegistRsp err)
  then show ?thesis using assms(3,4) by (auto simp: onRecvMsg_def onCenterRegistRsp_def)
next
  case (UpdateRsp err full infos)
  then have "\<forall>s \<in> set infos. blank_entry s" using center_sends_blank [OF assms(1)] assms(2) by fastforce
  from rebuild_blank [OF this assms(4), of shm_open "([], [])"] show ?thesis using assms(3,4) UpdateRsp
    by (auto simp: onRecvMsg_def onCenterUpdateServiceStatusRsp_def split: if_splits sum.splits prod.splits)
qed

lemma step_busd:
  assumes "busd_step env d d'" "bn_local_busd (bd_net d) = None"
  shows "bn_local_busd (bd_net d') = None"
  using assms(1)
proof cases
  case (answer st c rsp n)
  then show ?thesis using answer_busd [OF answer(2-4) assms(2)] by simp
next
  case (send target msg ok)
  then show ?thesis using sendMsgTo_busd [OF send] assms(2) by simp
next
  case (broadcast msg)
  show ?thesis
  proof (cases "bn_service_map (bd_net d)")
    case None
    then show ?thesis using broadcast drop_msg_net [of msg d d'] assms(2) by (simp add: BusdNet_broadCast_def)
  next
    case (Some ids)
    then obtain d1 where "broadcast_each env msg (concat (map snd ids)) d = Inr d1" "drop_msg msg d1 = Inr d'"
      using broadcast by (auto simp: BusdNet_broadCast_def split: sum.splits)
    then show ?thesis using broadcast_each_busd drop_msg_net assms(2) by metis
  qed
next
  case (group_send name msg ok)
  then consider "map_sum id (\<lambda>d1. (False, d1)) (drop_msg msg d) = Inr (ok, d')"
    | infos k where "group_each env msg infos 0 d = Inr (k, d')"
    by (auto simp: BusdNet_sendMsgToGroup_def Let_def map_sum_Inr split: option.splits if_splits)
  then show ?thesis using refuse_busd group_each_busd assms(2) by cases metis+
next
  case (remote ptr m)
  then obtain off s2 r d1 where "BusdNet_sendMsgTo env (c_string (m_dst_name m)) (off, m_dst_name m) (d\<lparr>bd_slab := s2\<rparr>) = Inr (r, d1)"
      "bd_net d' = bd_net d1"
    by (auto simp: onRecvFromRemoteDaemon_def Let_def split: option.splits sum.splits prod.splits bool.splits)
  then show ?thesis using sendMsgTo_busd [of env _ _ "d\<lparr>bd_slab := s2\<rparr>"] assms(2) by simp
next
  case forward
  then show ?thesis using assms(2) by (auto simp: forward_round_def split: if_splits)
next
  case loop_begins
  then show ?thesis using assms(2) by (simp add: forward_begin_def)
next
  case (others s rings)
  then show ?thesis using assms(2) by simp
qed

lemma reachable_no_busd: "busd_reachable env d \<Longrightarrow> bn_local_busd (bd_net d) = None"
proof (induction rule: busd_reachable.induct)
  case (init opts connects rings s)
  then show ?case by (simp add: BusdNet_init_def BusdNet_genServiceInfo_def BusClientNet_init_def BusClientNet_genServiceInfo_def Let_def)
next
  case (step d d')
  then show ?case using step_busd by blast
qed

section \<open>Copies share a block\<close>

text \<open>Every ring of \<open>n'\<close> holds what it held in \<open>n\<close>, or was opened since, and then only copies of \<open>x\<close>.\<close>

definition only_adds :: "msg_ref \<Rightarrow> bus_net \<Rightarrow> bus_net \<Rightarrow> bool" where
  "only_adds x n n' \<longleftrightarrow> (\<forall>name r'. bn_rings n' name = Some r' \<longrightarrow>
     (\<exists>base j. contents r' = base @ replicate j x \<and>
        (base = [] \<or> (\<exists>r. bn_rings n name = Some r \<and> contents r = base))))"

lemma only_adds_refl: "bn_rings n' = bn_rings n \<Longrightarrow> only_adds x n n'"
  unfolding only_adds_def
proof (intro allI impI)
  fix name r' assume "bn_rings n' = bn_rings n" "bn_rings n' name = Some r'"
  then show "\<exists>base j. contents r' = base @ replicate j x \<and> (base = [] \<or> (\<exists>r. bn_rings n name = Some r \<and> contents r = base))"
    by (intro exI [of _ "contents r'"] exI [of _ 0]) simp
qed

lemma only_adds_trans:
  assumes "only_adds x n n1" "only_adds x n1 n2"
  shows "only_adds x n n2"
  unfolding only_adds_def
proof (intro allI impI)
  fix name r2 assume "bn_rings n2 name = Some r2"
  then obtain base j where b: "contents r2 = base @ replicate j x"
      "base = [] \<or> (\<exists>r. bn_rings n1 name = Some r \<and> contents r = base)"
    using assms(2) unfolding only_adds_def by blast
  show "\<exists>base j. contents r2 = base @ replicate j x \<and> (base = [] \<or> (\<exists>r. bn_rings n name = Some r \<and> contents r = base))"
  proof (cases "base = []")
    case True
    then show ?thesis using b(1) by blast
  next
    case False
    then obtain r where "bn_rings n1 name = Some r" "contents r = base" using b(2) by blast
    then obtain base0 i where "base = base0 @ replicate i x" "base0 = [] \<or> (\<exists>r. bn_rings n name = Some r \<and> contents r = base0)"
      using assms(1) unfolding only_adds_def by blast
    then show ?thesis using b(1) by (intro exI [of _ base0] exI [of _ "i + j"]) (simp add: replicate_add)
  qed
qed

lemma open_ring_adds:
  assumes "rings_ok n" "opens_sized shm_open" "open_ring shm_open default_ring_size name n = Inr n'"
  shows "rings_ok n' \<and> only_adds x n n'"
proof -
  obtain m r where m: "shm_open default_ring_size name (bn_rings n name) = Some m"
      "ShmRingBuffer_ctor sizeof_AppMsgWrapper default_ring_size (Some m) = Some r"
      "n' = n\<lparr>bn_rings := (bn_rings n)(name \<mapsto> r)\<rparr>"
    using assms(3) by (cases "shm_open default_ring_size name (bn_rings n name)")
      (auto simp: open_ring_def ShmRingBuffer_ctor_def split: option.splits)
  have k: "0 < default_ring_size" "default_ring_size < 2 ^ 63" by (simp_all add: default_ring_size_def)
  have "length (rb_buffer m) = default_ring_size" using assms(2) m(1) by (simp add: opens_sized_def)
  then have r: "contents r = []" using ctor_spec [OF k, of m sizeof_AppMsgWrapper] m(2) by auto
  have "only_adds x n n'" unfolding only_adds_def
  proof (intro allI impI)
    fix nm r' assume "bn_rings n' nm = Some r'"
    then show "\<exists>base j. contents r' = base @ replicate j x \<and> (base = [] \<or> (\<exists>r. bn_rings n nm = Some r \<and> contents r = base))"
      using r m(3) by (intro exI [of _ "contents r'"] exI [of _ 0]) (auto split: if_splits)
  qed
  then show ?thesis using open_ring_ok [OF assms(1,2) k assms(3)] by simp
qed

lemma open_local_adds:
  assumes "rings_ok n" "opens_sized shm_open" "busd_open_local shm_open info n = Inr n'"
  shows "rings_ok n' \<and> only_adds x n n' \<and> bn_options n' = bn_options n"
proof (cases "bn_local_services n (sv_id info)")
  case (Some name)
  then show ?thesis using assms only_adds_refl [OF refl] by (simp add: busd_open_local_def)
next
  case None
  then obtain n1 where n1: "open_ring shm_open default_ring_size (sv_shm_recv_buffer_name info) n = Inr n1"
      "bn_rings n' = bn_rings n1" "bn_options n' = bn_options n1"
    using assms(3) by (auto simp: busd_open_local_def split: sum.splits)
  have "bn_options n1 = bn_options n" using n1(1) by (auto simp: open_ring_def split: option.splits)
  moreover have "rings_ok n1 \<and> only_adds x n n1" by (rule open_ring_adds [OF assms(1,2) n1(1)])
  ultimately show ?thesis using n1(2,3) only_adds_trans [OF _ only_adds_refl [OF n1(2)], of x n]
    by (simp add: rings_ok_def)
qed

lemma push_ring_adds:
  assumes "rings_ok n" "push_ring name x n = Inr (ok, n')"
  shows "rings_ok n' \<and> only_adds x n n' \<and> bn_options n' = bn_options n"
proof -
  obtain r r' where r: "bn_rings n name = Some r" "Push r x = Some (ok, r')" "n' = n\<lparr>bn_rings := (bn_rings n)(name \<mapsto> r')\<rparr>"
    using assms(2) by (auto simp: push_ring_def split: option.splits)
  then have "rb_inv r" using assms(1) by (auto simp: rings_ok_def)
  then have p: "rb_inv r'" "contents r' = contents r @ replicate (if ok then 1 else 0) x"
    using Push_spec [of r x] r(2) by (auto split: if_splits)
  have "only_adds x n n'" unfolding only_adds_def
  proof (intro allI impI)
    fix nm s assume s: "bn_rings n' nm = Some s"
    show "\<exists>base j. contents s = base @ replicate j x \<and> (base = [] \<or> (\<exists>r. bn_rings n nm = Some r \<and> contents r = base))"
    proof (cases "nm = name")
      case True
      then show ?thesis using s r p by (intro exI [of _ "contents r"]) auto
    next
      case False
      then show ?thesis using s r by (intro exI [of _ "contents s"] exI [of _ 0]) simp
    qed
  qed
  then show ?thesis using assms(1) p r by (auto simp: rings_ok_def)
qed

lemma send_local_adds:
  assumes "rings_ok (bd_net d)" "opens_sized (be_shm_open env)" "busd_send_local env True info x d = Inr (ok, d')"
  shows "rings_ok (bd_net d') \<and> only_adds x (bd_net d) (bd_net d') \<and> bn_options (bd_net d') = bn_options (bd_net d) \<and>
    DeleteSSPack x (bd_slab d) = Some (bd_slab d')"
proof -
  obtain n1 name result n2 where n: "busd_open_local (be_shm_open env) info (bd_net d) = Inr n1"
      "push_ring name x n1 = Inr (result, n2)" "delete_pack True x result (d\<lparr>bd_net := n2\<rparr>) = Inr (ok, d')"
    using assms(3) by (auto simp: busd_send_local_def split: sum.splits option.splits)
  have 1: "rings_ok n1 \<and> only_adds x (bd_net d) n1 \<and> bn_options n1 = bn_options (bd_net d)"
    by (rule open_local_adds [OF assms(1,2) n(1)])
  have 2: "rings_ok n2 \<and> only_adds x n1 n2 \<and> bn_options n2 = bn_options n1"
    using 1 by (intro push_ring_adds [OF _ n(2)]) simp
  have "bd_net d' = n2" "DeleteSSPack x (bd_slab d) = Some (bd_slab d')"
    using n(3) by (auto simp: delete_pack_def split: option.splits)
  then show ?thesis using 1 2 only_adds_trans [of x "bd_net d" n1 n2] by simp
qed

text \<open>A packet of \<open>len\<close> bytes that lies at \<open>off\<close> in a block of its own.\<close>

definition holds_pack :: "nat \<Rightarrow> nat \<Rightarrow> slab \<Rightarrow> (nat \<times> nat) set \<Rightarrow> nat \<Rightarrow> nat \<Rightarrow> nat \<Rightarrow> bool" where
  "holds_pack B E s L off c len \<longleftrightarrow> slab_owns B E s L \<and> (off, c) \<in> L \<and> pack_len_at off s = Some len \<and>
     SizeClassIndex (Align8 (of_nat len)) = Some c \<and> 6 \<le> len \<and> len \<le> 2 ^ 31"

lemma live_block:
  assumes "slab_owns B E s L" "(off, c) \<in> L"
  shows "off \<noteq> 0" "off + class_size c \<le> total_size (hdr s)" "pack_len_at off s = Some (field 2 4 (block_at s off 6))"
proof -
  obtain fl where fl: "slab_inv s fl L" using assms(1) by (auto simp: slab_owns_def)
  note D = slab_invD [OF fl] live_in_blocks [OF assms(2)]
  show 0: "off \<noteq> 0" using D(6) [OF D(9)] by (simp add: sizeof_SlabHeader_def)
  show 1: "off + class_size c \<le> total_size (hdr s)" using D(7) [OF D(9)] D(1) by (simp add: header_wf_def)
  then show "pack_len_at off s = Some (field 2 4 (block_at s off 6))"
    using 0 class_size_ge [of c] by (simp add: pack_len_at_def)
qed

lemma pack_len_frame:
  assumes "slab_owns B E s L" "(off, c) \<in> L" "slab_owns B E s' L'" "(off, c) \<in> L'"
    "\<forall>a \<in> block_bytes (off, c). mem s' a = mem s a"
  shows "pack_len_at off s' = pack_len_at off s"
proof -
  have "block_at s' off 6 = block_at s off 6"
    using assms(5) class_size_ge [of c] by (auto simp: block_at_def block_bytes_def)
  then show ?thesis using live_block(3) [OF assms(1,2)] live_block(3) [OF assms(3,4)] by simp
qed

lemma block_at_take: "n \<le> m \<Longrightarrow> block_at s off n = take n (block_at s off m)"
  by (simp add: block_at_def take_map)

lemma copy_pack_block:
  assumes h: "holds_pack B E s L off c len" and r: "copy_pack (off, dst) s = Some (copy, s2)"
  obtains k s1 where "copy = (k, dst)" "k \<noteq> 0" "(k, c) \<notin> L" "Alloc (of_nat len) s = Some (k, s1)"
    "holds_pack B E s2 (insert (k, c) L) off c len" "holds_pack B E s2 (insert (k, c) L) k c len"
proof -
  have own: "slab_owns B E s L" "(off, c) \<in> L" "pack_len_at off s = Some len" "len \<le> 2 ^ 31" "6 \<le> len"
      and cls: "SizeClassIndex (Align8 (of_nat len)) = Some c"
    using h by (auto simp: holds_pack_def)
  obtain k s1 n1 where a: "Alloc (of_nat len) s = Some (k, s1)" "pack_len_at off s1 = Some n1"
      "off + n1 \<le> total_size (hdr s1)" "put k 0 (block_at s1 off n1) s1 = Some s2" "copy = (k, dst)"
    using r own(3) by (auto simp: copy_pack_def Option.bind_eq_Some_conv split: if_splits)
  have k: "k \<noteq> 0" using a(4) by (auto simp: put_def split: if_splits)
  obtain c' where c': "SizeClassIndex (Align8 (of_nat len)) = Some c'" "(k, c') \<notin> L"
      "slab_owns B E s1 (insert (k, c') L)" "k + len \<le> total_size (hdr s1)"
      "\<forall>a. a \<notin> block_bytes (k, c') \<longrightarrow> a < k \<or> k + len \<le> a" "\<forall>x \<in> L. \<forall>a \<in> block_bytes x. mem s1 a = mem s a"
    by (rule alloc_block [OF own(1,4) a(1) k])
  then have cc: "c' = c" using cls by simp
  have n1: "n1 = len"
    using pack_len_frame [OF own(1,2) c'(3), of] own(2,3) c'(6) a(2) by simp
  obtain s2' where s2': "put k 0 (block_at s1 off len) s1 = Some s2'"
      "block_at s2' k len = splice 0 (block_at s1 off len) (block_at s1 k len)" "hdr s2' = hdr s1"
      "\<forall>a. a < k \<or> k + len \<le> a \<longrightarrow> mem s2' a = mem s1 a"
    by (rule put_splice [OF k, of 0 "block_at s1 off len" len s1]) (use c'(4) in simp_all)
  have s2: "s2 = s2'" using s2'(1) a(4) n1 by simp
  have o2: "slab_owns B E s2 (insert (k, c) L)"
    using c'(3,5) s2'(3,4) s2 cc by (intro slab_owns_write [of B E s1 _ "(k, c)" s2]) auto
  have apart: "mem s2 a = mem s1 a" if "a \<in> block_bytes (off, c)" for a
  proof -
    have "block_bytes (off, c) \<inter> block_bytes (k, c) = {}"
      using slab_alloc.apart_law [OF o2, of "(off, c)" "(k, c)"] own(2) c'(2) cc by auto
    then show ?thesis using that c'(5) s2'(4) s2 cc by blast
  qed
  have m2: "\<forall>a \<in> block_bytes (off, c). mem s2 a = mem s a" using apart c'(6) own(2) by auto
  have "pack_len_at off s2 = Some len" using pack_len_frame [OF own(1,2) o2 _ m2] own(2,3) by simp
  then have 1: "holds_pack B E s2 (insert (k, c) L) off c len" using own o2 cls by (simp add: holds_pack_def)
  have "block_at s2 k 6 = take 6 (block_at s1 off len)"
    using s2'(2) s2 block_at_take [OF own(5), of s2 k] by (simp add: splice_def)
  also have "\<dots> = block_at s1 off 6" using block_at_take [OF own(5), of s1 off] by simp
  finally have "pack_len_at k s2 = pack_len_at off s1"
    using live_block(3) [OF o2, of k c] live_block(3) [OF c'(3), of off c] own(2) by simp
  then have 2: "holds_pack B E s2 (insert (k, c) L) k c len" using own o2 cls a(2) n1 by (simp add: holds_pack_def)
  show thesis by (rule that [OF a(5) k _ a(1) 1 2]) (use c'(2) cc in simp)
qed

text \<open>Giving a block back leaves the other packets as they are, and the next allocation gets it.\<close>

lemma delete_gives_back:
  assumes h: "holds_pack B E s L k c len" and d: "DeleteSSPack (k, dst) s = Some s'"
  shows "slab_owns B E s' (L - {(k, c)}) \<and> (\<exists>s1. Alloc (of_nat len) s' = Some (k, s1)) \<and>
    (\<forall>off. (off, c) \<in> L - {(k, c)} \<longrightarrow> pack_len_at off s' = pack_len_at off s)"
proof -
  have own: "slab_owns B E s L" "(k, c) \<in> L" "SizeClassIndex (Align8 (of_nat len)) = Some c"
      and f: "Free k (of_nat len) s = Some s'"
    using h d by (auto simp: holds_pack_def DeleteSSPack_def)
  obtain s'' where "Free k (of_nat len) s = Some s''" "slab_owns B E s'' (L - {(k, c)})"
      "\<forall>x \<in> L - {(k, c)}. \<forall>a \<in> block_bytes x. mem s'' a = mem s a"
    using slab_release_law [OF own(1,3,2)] by blast
  then have s': "slab_owns B E s' (L - {(k, c)})" "\<forall>x \<in> L - {(k, c)}. \<forall>a \<in> block_bytes x. mem s' a = mem s a"
    using f by simp_all
  have "pack_len_at off s' = pack_len_at off s" if "(off, c) \<in> L - {(k, c)}" for off
    using that s' by (intro pack_len_frame [OF own(1) _ s'(1)]) auto
  then show ?thesis using s'(1) free_then_alloc_reuses [OF own(1,2,3,3)] f by auto
qed

lemma broadcast_each_shares:
  assumes "holds_pack B E (bd_slab d) L off c len" "rings_ok (bd_net d)" "opens_sized (be_shm_open env)"
    and "\<forall>i \<in> set infos. sv_is_daemon i \<or> sv_ip i = op_local_ip (bn_options (bd_net d))"
    and "Alloc (of_nat len) (bd_slab d) = Some (k, s0)" "broadcast_each env (off, dst) infos d = Inr d'"
  shows "holds_pack B E (bd_slab d') L off c len \<and> only_adds (k, dst) (bd_net d) (bd_net d') \<and>
    ((\<exists>i \<in> set infos. \<not> sv_is_daemon i) \<longrightarrow> k \<noteq> 0 \<and> (k, c) \<notin> L)"
  using assms
proof (induction infos arbitrary: d s0)
  case Nil
  then show ?case by (simp add: only_adds_refl)
next
  case (Cons info infos)
  show ?case
  proof (cases "sv_is_daemon info")
    case True
    then show ?thesis using Cons.IH [OF Cons.prems(1-3) _ Cons.prems(5)] Cons.prems(4,6) by simp
  next
    case False
    then obtain copy s ok d1 where c: "copy_pack (off, dst) (bd_slab d) = Some (copy, s)"
        "BusdNet_sendMsgByServiceInfo env True info copy (d\<lparr>bd_slab := s\<rparr>) = Inr (ok, d1)"
        "broadcast_each env (off, dst) infos d1 = Inr d'"
      using Cons.prems(6) by (auto split: option.splits sum.splits)
    obtain k' s1 where k': "copy = (k', dst)" "k' \<noteq> 0" "(k', c) \<notin> L" "Alloc (of_nat len) (bd_slab d) = Some (k', s1)"
        "holds_pack B E s (insert (k', c) L) off c len" "holds_pack B E s (insert (k', c) L) k' c len"
      by (rule copy_pack_block [OF Cons.prems(1) c(1)])
    have kk: "k' = k" using k'(4) Cons.prems(5) by simp
    have l: "busd_send_local env True info (k, dst) (d\<lparr>bd_slab := s\<rparr>) = Inr (ok, d1)"
      using c(2) False Cons.prems(4) k'(1) kk by (simp add: BusdNet_sendMsgByServiceInfo_def)
    have d1: "rings_ok (bd_net d1)" "only_adds (k, dst) (bd_net d) (bd_net d1)" "bn_options (bd_net d1) = bn_options (bd_net d)"
        "DeleteSSPack (k, dst) s = Some (bd_slab d1)"
      using send_local_adds [OF _ Cons.prems(3) l] Cons.prems(2) by simp_all
    note g = delete_gives_back [OF k'(6) [unfolded kk] d1(4)]
    have L: "insert (k, c) L - {(k, c)} = L" using k'(3) kk by auto
    have mem: "(off, c) \<in> L" using Cons.prems(1) by (simp add: holds_pack_def)
    then have "pack_len_at off (bd_slab d1) = pack_len_at off s" using g L by simp
    then have h1: "holds_pack B E (bd_slab d1) L off c len" using g L mem k'(5) by (simp add: holds_pack_def)
    obtain s2 where s2: "Alloc (of_nat len) (bd_slab d1) = Some (k, s2)" using g by blast
    have "\<forall>i \<in> set infos. sv_is_daemon i \<or> sv_ip i = op_local_ip (bn_options (bd_net d1))"
      using Cons.prems(4) d1(3) by simp
    from Cons.IH [OF h1 d1(1) Cons.prems(3) this s2 c(3)] show ?thesis
      using only_adds_trans [OF d1(2)] k'(2,3) kk by auto
  qed
qed

text \<open>
  A broadcast to the services of the machine sends every receiver the same block of memory, and that block is
  free. Each copy is given back as soon as it is pushed, so the next copy is built in the same block, over the
  one before; what the broadcast has added to the rings are references to this one block, which nobody
  holds when it returns, and the packet itself is given back too.
\<close>

theorem broadcast_shares_free_block:
  assumes "holds_pack B E (bd_slab d) L off c len" "rings_ok (bd_net d)" "opens_sized (be_shm_open env)"
    and "bn_service_map (bd_net d) = Some service_map"
    and "\<forall>i \<in> set (concat (map snd service_map)). sv_is_daemon i \<or> sv_ip i = op_local_ip (bn_options (bd_net d))"
    and "\<exists>i \<in> set (concat (map snd service_map)). \<not> sv_is_daemon i"
    and "BusdNet_broadCast env (off, dst) d = Inr d'"
  shows "\<exists>k. k \<noteq> 0 \<and> (k, c) \<notin> L \<and> slab_owns B E (bd_slab d') (L - {(off, c)}) \<and>
    only_adds (k, dst) (bd_net d) (bd_net d')"
proof -
  let ?infos = "concat (map snd service_map)"
  obtain d1 where d1: "broadcast_each env (off, dst) ?infos d = Inr d1" "drop_msg (off, dst) d1 = Inr d'"
    using assms(4,7) by (auto simp: BusdNet_broadCast_def split: sum.splits)
  have "slab_owns B E (bd_slab d) L" "len \<le> 2 ^ 31" using assms(1) by (simp_all add: holds_pack_def)
  then obtain k s0 where k: "Alloc (of_nat len) (bd_slab d) = Some (k, s0)"
    using slab_alloc_law [of B E "bd_slab d" L "of_nat len"] by (auto simp: unat_of_nat)
  note b = broadcast_each_shares [OF assms(1-3,5) k d1(1)]
  have "DeleteSSPack (off, dst) (bd_slab d1) = Some (bd_slab d')" "bd_net d' = bd_net d1"
    using d1(2) by (auto simp: drop_msg_def split: option.splits)
  then show ?thesis using delete_gives_back [of B E "bd_slab d1" L off c len dst] b assms(6) by (intro exI [of _ k]) simp
qed

section \<open>A failed delivery frees its block twice\<close>

text \<open>A chunk that is the head of its list and its own successor.\<close>

definition self_loop :: "nat \<Rightarrow> nat \<Rightarrow> slab \<Rightarrow> bool" where
  "self_loop k c s \<longleftrightarrow> k \<noteq> 0 \<and> c < length (classes (hdr s)) \<and> free_list (classes (hdr s) ! c) = k \<and>
     k + 4 \<le> total_size (hdr s) \<and> rd32 (mem s) k = k"

lemma self_loop_Alloc:
  assumes "self_loop k c s" "SizeClassIndex (Align8 b) = Some c"
  shows "\<exists>s1. Alloc b s = Some (k, s1) \<and> self_loop k c s1"
proof -
  have "Alloc b s = pop_chunk c s" using assms by (simp add: Alloc_def self_loop_def)
  also have "\<dots> = Some (k, upd_class c (\<lambda>x. x\<lparr>free_list := k\<rparr>) s)"
    using assms(1) by (simp add: pop_chunk_def self_loop_def ld32_def)
  finally show ?thesis using assms(1) by (simp add: self_loop_def)
qed

lemma double_free_loops:
  assumes "slab_owns B E s L" "(k, c) \<in> L" "SizeClassIndex (Align8 b) = Some c"
  shows "\<exists>s1 s2. Free k b s = Some s1 \<and> Free k b s1 = Some s2 \<and> self_loop k c s2"
proof -
  obtain fl where fl: "slab_inv s fl L" using assms(1) by (auto simp: slab_owns_def)
  obtain s1 where s1: "Free k b s = Some s1" "slab_inv s1 (fl(c := k # fl c)) (L - {(k, c)})"
    using Free_spec [OF fl assms(3,2)] by auto
  have c: "c < 10" by (rule SizeClassIndex_less [OF assms(3)])
  note D = slab_invD [OF s1(2)]
  have h: "k \<noteq> 0" "free_list (classes (hdr s1) ! c) = k" using D(2) [OF c] by auto
  have len: "c < length (classes (hdr s1))" using D(1) c by (simp add: header_wf_def)
  have blk: "(k, c) \<in> all_blocks (fl(c := k # fl c)) (L - {(k, c)})" by (rule free_in_blocks [OF c]) simp
  have fits: "k + 4 \<le> total_size (hdr s1)" "k < 2 ^ 32"
    using D(7) [OF blk] class_size_ge [of c] D(1) by (auto simp: header_wf_def)
  let ?s2 = "upd_class c (\<lambda>x. x\<lparr>free_list := k\<rparr>) (s1\<lparr>mem := wr32 (mem s1) k k\<rparr>)"
  have "Free k b s1 = Some ?s2" using h len fits assms(3) by (simp add: Free_def st32_def)
  moreover have "self_loop k c ?s2" using h(1) len fits by (simp add: self_loop_def rd32_wr32_same)
  ultimately show ?thesis using s1(1) by blast
qed

text \<open>The offsets a run of allocations returns.\<close>

fun alloc_all :: "32 word list \<Rightarrow> slab \<Rightarrow> nat list option" where
  "alloc_all [] s = Some []"
| "alloc_all (b # bs) s = do { (k, s1) \<leftarrow> Alloc b s; ks \<leftarrow> alloc_all bs s1; Some (k # ks) }"

lemma self_loop_alloc_all:
  "self_loop k c s \<Longrightarrow> \<forall>b \<in> set bs. SizeClassIndex (Align8 b) = Some c \<Longrightarrow> alloc_all bs s = Some (replicate (length bs) k)"
proof (induction bs arbitrary: s)
  case (Cons b bs)
  then obtain s1 where "Alloc b s = Some (k, s1)" "self_loop k c s1" using self_loop_Alloc by fastforce
  then show ?case using Cons by simp
qed simp

lemma full_push:
  assumes "rb_inv ring" "Used ring + 1 = rb_ring_size ring" "bn_rings n name = Some ring"
  shows "\<exists>n'. push_ring name x n = Inr (False, n')"
  using Push_spec [OF assms(1), of x] assms(2,3) by (auto simp: push_ring_def)

lemma pack_len_written:
  assumes "msg_wf m" "k \<noteq> 0" "k + h_pack_len (m_header m) \<le> total_size (hdr s)"
  obtains s' where "put k 0 (take (h_pack_len (m_header m)) (encode_AppMsg ptr m)) s = Some s'" "hdr s' = hdr s"
    "\<forall>a. a < k \<or> k + h_pack_len (m_header m) \<le> a \<longrightarrow> mem s' a = mem s a"
    "pack_len_at k s' = Some (h_pack_len (m_header m))"
proof -
  let ?n = "h_pack_len (m_header m)" let ?xs = "encode_AppMsg ptr m"
  have len: "length ?xs = ?n" by (rule length_encode [OF assms(1)])
  have n: "18 \<le> ?n" using assms(1) by (simp add: msg_wf_def sizeof_AppMsg_def sizeof_Header_def)
  obtain s' where s': "put k 0 ?xs s = Some s'" "block_at s' k ?n = splice 0 ?xs (block_at s k ?n)" "hdr s' = hdr s"
      "\<forall>a. a < k \<or> k + ?n \<le> a \<longrightarrow> mem s' a = mem s a"
    by (rule put_splice [OF assms(2), of 0 ?xs ?n s]) (use len assms(3) in simp_all)
  have b: "block_at s' k 6 = take 6 ?xs"
    using s'(2) block_at_take [of 6 ?n s' k] n len by (simp add: splice_def)
  have "field 2 4 (take 6 ?xs) = h_pack_len (Header_of ?xs)" by (simp add: Header_of_def field_take)
  also have "\<dots> = ?n" using Header_of_encode [OF assms(1), of ptr "[]"] by simp
  finally have "pack_len_at k s' = Some ?n" using b assms(2,3) n s'(3) by (simp add: pack_len_at_def)
  then show thesis using that [of s'] s' len by simp
qed


text \<open>
  With the centre of this repository the forward loop of a daemon moves nothing, whatever happens:
  it waits for the ring of a daemon on its own address, which only an entry of the table that is marked as
  a daemon would open, and the centre never marks one.
\<close>

theorem daemon_forwards_nothing:
  assumes "busd_reachable env d"
  shows "forward_round env d = Inr d"
  using reachable_no_busd [OF assms] by (simp add: forward_round_def)

section \<open>Witnesses\<close>

text \<open>A daemon with one service of its machine, whose ring has room for \<open>n - 1\<close> references.\<close>

definition local_info :: service_info where
  "local_info = (demo_info ''logic'' ''1'')\<lparr>sv_ip := ''127.0.0.1''\<rparr>"

definition demo_busd :: "nat \<Rightarrow> slab \<Rightarrow> busd" where
  "demo_busd n s = (BusdNet_init demo_options True Map.empty s)\<lparr>bd_net :=
     (bd_net (BusdNet_init demo_options True [''/ibus_1'' \<mapsto> demo_ring n] s))\<lparr>
       bn_service_map := Some [(''1'', [local_info])], bn_local_services := [''1'' \<mapsto> ''/ibus_1'']\<rparr>\<rparr>"

definition demo_busd_env :: busd_env where
  "demo_busd_env = \<lparr>be_base = 4096, be_ids = demo_ids, be_shm_open = (\<lambda>k name old. None),
     be_connects = True, be_hash = (\<lambda>k. 0), be_rng = (\<lambda>k. 0), be_throws = (\<lambda>h. False),
     de_connect = (\<lambda>key. good_env 5), de_now = 0, de_write = (0, True)\<rparr>"

lemma demo_busd_simps [simp]:
  "bd_slab (demo_busd n s) = s" "bn_service_map (bd_net (demo_busd n s)) = Some [(''1'', [local_info])]"
  "bn_local_services (bd_net (demo_busd n s)) = [''1'' \<mapsto> ''/ibus_1'']"
  "bn_rings (bd_net (demo_busd n s)) = [''/ibus_1'' \<mapsto> demo_ring n]"
  "op_local_ip (bn_options (bd_net (demo_busd n s))) = ''127.0.0.1''"
  "sv_ip local_info = ''127.0.0.1''" "sv_id local_info = ''1''" "\<not> sv_is_daemon local_info"
  by (simp_all add: demo_busd_def BusdNet_init_def BusdNet_genServiceInfo_def BusClientNet_init_def
      BusClientNet_genServiceInfo_def local_info_def demo_info_def demo_options_def Let_def)

lemma demo_ring_inv: "0 < n \<Longrightarrow> n < 2 ^ 63 \<Longrightarrow> rb_inv (demo_ring n)"
  by (simp add: demo_ring_def rb_inv_def)

lemma class_72: "SizeClassIndex (Align8 72) = Some 3"
  by (simp add: SizeClassIndex_def Align8_def pow2ceil_def Let_def class_loop.simps MAX_CLASSES_def word_le_nat_alt)

lemma NewPage_bump: "NewPage c s = Some (p, s') \<Longrightarrow> bump (hdr s') \<le> bump (hdr s) + PAGE_SIZE"
  by (auto simp: NewPage_def Let_def uadd_def Option.bind_eq_Some_conv upd_class_def split: if_splits)

lemma pop_chunk_bump: "pop_chunk c s = Some (p, s') \<Longrightarrow> bump (hdr s') = bump (hdr s)"
  by (auto simp: pop_chunk_def Let_def Option.bind_eq_Some_conv upd_class_def)

lemma Alloc_bump:
  assumes "Alloc b s = Some (p, s')"
  shows "bump (hdr s') \<le> bump (hdr s) + PAGE_SIZE"
proof -
  consider "s' = s" | c s1 q where "s1 = s \<or> NewPage c s = Some (q, s1)" "s' = s1 \<or> pop_chunk c s1 = Some (p, s')"
    using assms by (auto simp: Alloc_def Option.bind_eq_Some_conv split: option.splits if_splits)
  then show ?thesis
  proof cases
    case 1
    then show ?thesis by simp
  next
    case (2 c s1 q)
    have "bump (hdr s1) \<le> bump (hdr s) + PAGE_SIZE" using 2(1) NewPage_bump by auto
    moreover have "bump (hdr s') = bump (hdr s1)" using 2(2) pop_chunk_bump by auto
    ultimately show ?thesis by simp
  qed
qed

text \<open>A packet of 72 bytes in a fresh slab.\<close>

lemma demo_packet:
  obtains s off where "holds_pack 64 190064 s {(off, 3)} off 3 72" "bump (hdr s) + PAGE_SIZE \<le> 190064"
proof -
  obtain s0 where s0: "slab_owns 64 190064 s0 {}" "bump (hdr s0) = 64 + sizeof_SlabHeader"
    by (rule ctor_owns [of 190000 64 200000 blank_slab]) (simp_all add: sizeof_SlabHeader_def PAGE_SIZE_def)
  have room: "\<not> 190064 < bump (hdr s0) + PAGE_SIZE" by (simp add: s0(2) sizeof_SlabHeader_def PAGE_SIZE_def)
  obtain off s1 where a: "Alloc 72 s0 = Some (off, s1)" "off \<noteq> 0"
    using alloc_fails_iff_exhausted [OF s0(1) class_72] room by blast
  obtain c where c: "SizeClassIndex (Align8 (of_nat 72)) = Some c" "slab_owns 64 190064 s1 (insert (off, c) {})"
      "off + 72 \<le> total_size (hdr s1)" "\<forall>a. a \<notin> block_bytes (off, c) \<longrightarrow> a < off \<or> off + 72 \<le> a"
    by (rule alloc_block [of 64 190064 s0 "{}" 72 off s1]) (use a s0(1) in simp_all)
  have cc: "c = 3" using c(1) class_72 by simp
  obtain s2 where s2: "hdr s2 = hdr s1" "\<forall>a. a < off \<or> off + 72 \<le> a \<longrightarrow> mem s2 a = mem s1 a" "pack_len_at off s2 = Some 72"
    using pack_len_written [OF ping_wf a(2), of s1 0] c(3) by (auto simp: ping_msg_def)
  have "slab_owns 64 190064 s2 {(off, 3)}"
    using c(2,4) s2 cc by (intro slab_owns_write [of 64 190064 s1 _ "(off, 3)" s2]) auto
  then have "holds_pack 64 190064 s2 {(off, 3)} off 3 72" using s2(3) class_72 by (simp add: holds_pack_def)
  moreover have "bump (hdr s2) + PAGE_SIZE \<le> 190064"
    using Alloc_bump [OF a(1)] s2(1) by (simp add: s0(2) sizeof_SlabHeader_def PAGE_SIZE_def)
  ultimately show thesis by (rule that)
qed

lemma copy_pack_runs:
  assumes h: "holds_pack B E s L off c len" and room: "bump (hdr s) + PAGE_SIZE \<le> E"
  shows "\<exists>k s2. copy_pack (off, dst) s = Some ((k, dst), s2)"
proof -
  have own: "slab_owns B E s L" "(off, c) \<in> L" "pack_len_at off s = Some len" "len \<le> 2 ^ 31"
      and cls: "SizeClassIndex (Align8 (of_nat len)) = Some c" using h by (auto simp: holds_pack_def)
  obtain k s1 where a: "Alloc (of_nat len) s = Some (k, s1)" "k \<noteq> 0"
    using alloc_fails_iff_exhausted [OF own(1) cls] room by fastforce
  obtain c' where c': "slab_owns B E s1 (insert (k, c') L)" "k + len \<le> total_size (hdr s1)"
      "\<forall>x \<in> L. \<forall>a \<in> block_bytes x. mem s1 a = mem s a"
    by (rule alloc_block [OF own(1,4) a])
  have p: "pack_len_at off s1 = Some len" using pack_len_frame [OF own(1,2) c'(1)] own(2,3) c'(3) by simp
  have "len \<le> class_size c" using request_class(2) [of "of_nat len" c] own(4) cls by (simp add: unat_of_nat)
  moreover have "off + class_size c \<le> total_size (hdr s1)" by (rule live_block(2) [OF c'(1)]) (use own(2) in simp)
  ultimately have "off + len \<le> total_size (hdr s1)" by simp
  then show ?thesis using own(3) a p c'(2) by (auto simp: copy_pack_def put_def)
qed

lemma DeleteSSPack_runs: "holds_pack B E s L k c len \<Longrightarrow> \<exists>s'. DeleteSSPack (k, dst) s = Some s'"
  using slab_release_law [of B E s L "of_nat len" c k] by (auto simp: holds_pack_def DeleteSSPack_def)

theorem broadcast_shares_free_block_witness:
  "\<exists>s off d' k. holds_pack 64 190064 s {(off, 3)} off 3 72 \<and>
     BusdNet_broadCast demo_busd_env (off, []) (demo_busd 4 s) = Inr d' \<and> k \<noteq> 0 \<and> k \<noteq> off \<and>
     slab_owns 64 190064 (bd_slab d') {} \<and> only_adds (k, []) (bd_net (demo_busd 4 s)) (bd_net d')"
proof -
  obtain s off where s: "holds_pack 64 190064 s {(off, 3)} off 3 72" "bump (hdr s) + PAGE_SIZE \<le> 190064"
    by (rule demo_packet)
  let ?d = "demo_busd 4 s"
  obtain k s2 where c: "copy_pack (off, []) s = Some ((k, []), s2)" using copy_pack_runs [OF s] by blast
  have h2: "holds_pack 64 190064 s2 (insert (k, 3) {(off, 3)}) off 3 72"
      "holds_pack 64 190064 s2 (insert (k, 3) {(off, 3)}) k 3 72" and new: "(k, 3) \<notin> {(off, 3 :: nat)}"
    using copy_pack_block [OF s(1) c] by auto
  obtain s3 where s3: "DeleteSSPack (k, []) s2 = Some s3" using DeleteSSPack_runs [OF h2(2)] by blast
  note g = delete_gives_back [OF h2(2) s3]
  have "insert (k, 3) {(off, 3)} - {(k, 3)} = {(off, 3 :: nat)}" using new by auto
  then have h3: "holds_pack 64 190064 s3 {(off, 3)} off 3 72" using g h2(1) by (simp add: holds_pack_def)
  obtain s4 where s4: "DeleteSSPack (off, []) s3 = Some s4" using DeleteSSPack_runs [OF h3] by blast
  obtain r where r: "Push (demo_ring 4) (k, []) = Some (True, r)" using demo_push by blast
  have "BusdNet_sendMsgByServiceInfo demo_busd_env True local_info (k, []) (?d\<lparr>bd_slab := s2\<rparr>) =
      Inr (True, ?d\<lparr>bd_slab := s3, bd_net := (bd_net ?d)\<lparr>bn_rings := [''/ibus_1'' \<mapsto> r]\<rparr>\<rparr>)"
    using r s3 by (simp add: BusdNet_sendMsgByServiceInfo_def busd_send_local_def busd_open_local_def push_ring_def delete_pack_def)
  then obtain d' where d': "BusdNet_broadCast demo_busd_env (off, []) ?d = Inr d'"
    using c s4 by (simp add: BusdNet_broadCast_def drop_msg_def)
  have pre: "holds_pack 64 190064 (bd_slab ?d) {(off, 3)} off 3 72" "rings_ok (bd_net ?d)" "opens_sized (be_shm_open demo_busd_env)"
    using s(1) demo_ring_inv [of 4] by (auto simp: rings_ok_def opens_sized_def demo_busd_env_def)
  have "\<forall>i \<in> set (concat (map snd [(''1'', [local_info])])). sv_is_daemon i \<or> sv_ip i = op_local_ip (bn_options (bd_net ?d))"
      "\<exists>i \<in> set (concat (map snd [(''1'', [local_info])])). \<not> sv_is_daemon i" by simp_all
  from broadcast_shares_free_block [OF pre _ this d'] obtain k where "k \<noteq> 0" "(k, 3) \<notin> {(off, 3 :: nat)}"
      "slab_owns 64 190064 (bd_slab d') ({(off, 3)} - {(off, 3)})" "only_adds (k, []) (bd_net ?d) (bd_net d')" by auto
  then show ?thesis using s(1) d' by (intro exI [of _ s] exI [of _ off] exI [of _ d'] exI [of _ k]) simp
qed


theorem daemon_forwards_nothing_witness:
  "\<exists>d. busd_reachable demo_busd_env d \<and> bd_running d \<and> forward_round demo_busd_env d = Inr d"
proof -
  let ?d = "forward_begin (BusdNet_init demo_options True [''/busd_recv_0.1.3.0'' \<mapsto> demo_ring 4] blank_slab)"
  have r: "busd_reachable demo_busd_env ?d"
    by (rule busd_reachable.step [OF busd_reachable.init busd_step.loop_begins])
  then show ?thesis using daemon_forwards_nothing [OF r] by (intro exI [of _ ?d]) (simp add: forward_begin_def)
qed

end
