(* ===== verification/ConnPool.thy ===== *)
theory ConnPool
  imports Prelude "HOL-Library.Multiset"
begin

text \<open>
  The MySQL connections of the database proxy and their pool (server/dbproxy/MySQLConnection.cpp,
  MySQLConnectionPool.cpp). What the MySQL library answers is an argument. The pool's methods are split
  at their locks, so that threads may interleave. Objects made with \<open>new\<close> are addresses; \<open>pl_conns\<close> holds
  those not deleted yet, and using or deleting another one is undefined. \<open>pl_out\<close>, the connections lent
  in a \<open>shared_ptr\<close>, and the numbers of threads that wait and that were notified are recorded beside the
  members; dropping the last copy of a \<open>shared_ptr\<close> calls its deleter, \<open>pool_release\<close>.
\<close>

section \<open>A connection\<close>

record mysql_connection =
  mc_connected :: bool

text \<open>What \<open>mysql_store_result\<close> gives: the fields with their types, and rows whose null entries are \<open>None\<close>.\<close>

record mysql_res =
  mr_fields :: "(string \<times> nat) list"
  mr_rows :: "string option list list"

datatype query_answer = QueryError string | NoResult nat string | ResultSet mysql_res

record query_result =
  qr_column_names :: "string list"
  qr_column_types :: "string list"
  qr_rows :: "string list list"
  qr_null_flags :: "bool list list"

record exec_result =
  er_affected_rows :: nat
  er_last_insert_id :: nat

definition MySQLConnection_connect :: "bool \<Rightarrow> mysql_connection \<Rightarrow> bool \<times> mysql_connection" where
  "MySQLConnection_connect real_connect c =
     (if mc_connected c then (True, c)
      else if \<not> real_connect then (False, c)
      else (True, c\<lparr>mc_connected := True\<rparr>))"

definition MySQLConnection_close :: "mysql_connection \<Rightarrow> mysql_connection" where
  "MySQLConnection_close c = (if mc_connected c then c\<lparr>mc_connected := False\<rparr> else c)"

definition MySQLConnection_reconnect :: "bool \<Rightarrow> mysql_connection \<Rightarrow> bool \<times> mysql_connection" where
  "MySQLConnection_reconnect real_connect c = MySQLConnection_connect real_connect (MySQLConnection_close c)"

definition MySQLConnection_ping :: "bool \<Rightarrow> mysql_connection \<Rightarrow> bool \<times> mysql_connection" where
  "MySQLConnection_ping pings c =
     (if \<not> mc_connected c then (False, c)
      else if pings then (True, c)
      else (False, c\<lparr>mc_connected := False\<rparr>))"

text \<open>The library's answer to a statement is \<open>None\<close>, or the error; so is the result, in \<open>err_msg\<close>.\<close>

definition execRaw :: "string option \<Rightarrow> string \<Rightarrow> bool \<times> string" where
  "execRaw ans err_msg = (case ans of None \<Rightarrow> (True, err_msg) | Some e \<Rightarrow> (False, e))"

definition row_data :: "nat \<Rightarrow> string option list \<Rightarrow> string list" where
  "row_data num_fields row = map (\<lambda>i. case row ! i of None \<Rightarrow> '''' | Some s \<Rightarrow> s) [0..<num_fields]"

definition null_data :: "nat \<Rightarrow> string option list \<Rightarrow> bool list" where
  "null_data num_fields row = map (\<lambda>i. row ! i = None) [0..<num_fields]"

definition empty_result :: query_result where
  "empty_result = \<lparr>qr_column_names = [], qr_column_types = [], qr_rows = [], qr_null_flags = []\<rparr>"

definition MySQLConnection_query :: "query_answer \<Rightarrow> mysql_connection \<Rightarrow> string + query_result" where
  "MySQLConnection_query ans c =
     (if \<not> mc_connected c then Inl ''not connected''
      else (case ans of
              QueryError e \<Rightarrow> Inl e
            | NoResult field_count e \<Rightarrow> if field_count \<noteq> 0 then Inl e else Inr empty_result
            | ResultSet res \<Rightarrow>
                (let n = length (mr_fields res)
                 in Inr \<lparr>qr_column_names = map fst (mr_fields res),
                         qr_column_types = map (\<lambda>f. bytes_str (to_string (int (snd f)))) (mr_fields res),
                         qr_rows = map (row_data n) (mr_rows res),
                         qr_null_flags = map (null_data n) (mr_rows res)\<rparr>)))"

definition MySQLConnection_execute :: "string + nat \<times> nat \<Rightarrow> mysql_connection \<Rightarrow> string + exec_result" where
  "MySQLConnection_execute ans c =
     (if \<not> mc_connected c then Inl ''not connected''
      else (case ans of
              Inl e \<Rightarrow> Inl e
            | Inr (affected, insert_id) \<Rightarrow> Inr \<lparr>er_affected_rows = affected, er_last_insert_id = insert_id\<rparr>))"

section \<open>The pool\<close>

record pool =
  pl_idle :: "nat list"
  pl_all :: "nat list"
  pl_active_count :: int
  pl_creating :: int
  pl_shutdown :: bool
  pl_max_pool_size :: int
  pl_conns :: "nat \<rightharpoonup> mysql_connection"
  pl_fresh :: nat
  pl_out :: "nat list"
  pl_to_check :: "nat list"
  pl_healthy :: "nat list"
  pl_waiting :: nat
  pl_woken :: nat

definition createOne :: "bool \<Rightarrow> pool \<Rightarrow> nat option \<times> pool" where
  "createOne real_connect p =
     (let p1 = p\<lparr>pl_fresh := pl_fresh p + 1\<rparr>
      in case MySQLConnection_connect real_connect \<lparr>mc_connected = False\<rparr> of
           (True, c) \<Rightarrow> (Some (pl_fresh p), p1\<lparr>pl_conns := (pl_conns p)(pl_fresh p \<mapsto> c)\<rparr>)
         | (False, c) \<Rightarrow> (None, p1))"

fun pool_fill :: "bool list \<Rightarrow> pool \<Rightarrow> pool" where
  "pool_fill [] p = p"
| "pool_fill (b # bs) p =
     (case createOne b p of
        (None, p1) \<Rightarrow> pool_fill bs p1
      | (Some c, p1) \<Rightarrow> pool_fill bs (p1\<lparr>pl_idle := pl_idle p1 @ [c], pl_all := pl_all p1 @ [c]\<rparr>))"

text \<open>An answer of the server for each of the \<open>pool_size\<close> connections.\<close>

definition MySQLConnectionPool_ctor :: "bool list \<Rightarrow> int \<Rightarrow> pool" where
  "MySQLConnectionPool_ctor connects max_pool_size = pool_fill connects
     \<lparr>pl_idle = [], pl_all = [], pl_active_count = 0, pl_creating = 0, pl_shutdown = False,
      pl_max_pool_size = max_pool_size, pl_conns = Map.empty, pl_fresh = 0, pl_out = [],
      pl_to_check = [], pl_healthy = [], pl_waiting = 0, pl_woken = 0\<rparr>"

text \<open>\<open>delete conn\<close>, whose destructor closes the connection.\<close>

definition delete_conn :: "nat \<Rightarrow> pool \<Rightarrow> fault + pool" where
  "delete_conn c p = (if pl_conns p c = None then Inl Undefined else Inr (p\<lparr>pl_conns := (pl_conns p)(c := None)\<rparr>))"

definition notify_one :: "pool \<Rightarrow> pool" where
  "notify_one p =
     (if pl_waiting p = 0 then p else p\<lparr>pl_waiting := pl_waiting p - 1, pl_woken := pl_woken p + 1\<rparr>)"

definition pool_release :: "nat \<Rightarrow> pool \<Rightarrow> fault + pool" where
  "pool_release c p =
     (let p1 = p\<lparr>pl_out := remove1 c (pl_out p)\<rparr>
      in if pl_shutdown p then delete_conn c p1
         else Inr (notify_one (p1\<lparr>pl_active_count := pl_active_count p - 1, pl_idle := pl_idle p @ [c]\<rparr>)))"

datatype acquire_result = AcqNull | AcqConn nat | AcqCreate | AcqWait

text \<open>One turn of the loop of \<open>acquire\<close>, up to where it returns or gives the lock up.\<close>

definition acquire_locked :: "pool \<Rightarrow> acquire_result \<times> pool" where
  "acquire_locked p =
     (if pl_shutdown p then (AcqNull, p)
      else (case pl_idle p of
              c # q \<Rightarrow> (AcqConn c, p\<lparr>pl_idle := q, pl_active_count := pl_active_count p + 1, pl_out := c # pl_out p\<rparr>)
            | [] \<Rightarrow>
                if int (length (pl_all p)) + pl_creating p < pl_max_pool_size p
                then (AcqCreate, p\<lparr>pl_creating := pl_creating p + 1\<rparr>)
                else (AcqWait, p\<lparr>pl_waiting := pl_waiting p + 1\<rparr>)))"

text \<open>
  After the creation outside the lock: another turn of the loop, or the wait, or null after a shutdown.
\<close>

definition acquire_created :: "bool \<Rightarrow> pool \<Rightarrow> fault + acquire_result \<times> pool" where
  "acquire_created real_connect p =
     (case createOne real_connect p of
        (None, p1) \<Rightarrow> Inr (AcqWait, p1\<lparr>pl_creating := pl_creating p1 - 1, pl_waiting := pl_waiting p1 + 1\<rparr>)
      | (Some c, p1) \<Rightarrow>
          (let p2 = p1\<lparr>pl_creating := pl_creating p1 - 1\<rparr>
           in if pl_shutdown p2 then map_sum id (\<lambda>q. (AcqNull, q)) (delete_conn c p2)
              else Inr (acquire_locked (p2\<lparr>pl_all := pl_all p2 @ [c], pl_idle := pl_idle p2 @ [c]\<rparr>))))"

text \<open>The end of a wait: notified, or timed out.\<close>

definition acquire_woken :: "pool \<Rightarrow> acquire_result \<times> pool" where
  "acquire_woken p = acquire_locked (p\<lparr>pl_woken := pl_woken p - 1\<rparr>)"

definition acquire_timed_out :: "pool \<Rightarrow> acquire_result \<times> pool" where
  "acquire_timed_out p = (AcqNull, p\<lparr>pl_waiting := pl_waiting p - 1\<rparr>)"

text \<open>The health check: take the idle connections, check one after the other, put the healthy ones back.\<close>

definition health_begin :: "pool \<Rightarrow> pool" where
  "health_begin p = p\<lparr>pl_to_check := pl_idle p, pl_idle := []\<rparr>"

definition health_one :: "bool \<Rightarrow> bool \<Rightarrow> pool \<Rightarrow> fault + pool" where
  "health_one pings real_connect p =
     (case pl_to_check p of
        [] \<Rightarrow> Inr p
      | c # cs \<Rightarrow>
          (let p1 = p\<lparr>pl_to_check := cs\<rparr>
           in case pl_conns p c of
                None \<Rightarrow> Inl Undefined
              | Some m \<Rightarrow>
                  (case MySQLConnection_ping pings m of
                     (True, m1) \<Rightarrow>
                       Inr (p1\<lparr>pl_conns := (pl_conns p)(c \<mapsto> m1), pl_healthy := pl_healthy p @ [c]\<rparr>)
                   | (False, m1) \<Rightarrow>
                       (case MySQLConnection_reconnect real_connect m1 of
                          (True, m2) \<Rightarrow>
                            Inr (p1\<lparr>pl_conns := (pl_conns p)(c \<mapsto> m2), pl_healthy := pl_healthy p @ [c]\<rparr>)
                        | (False, m2) \<Rightarrow> delete_conn c (p1\<lparr>pl_all := remove1 c (pl_all p)\<rparr>)))))"

definition health_end :: "pool \<Rightarrow> pool" where
  "health_end p = p\<lparr>pl_idle := pl_idle p @ pl_healthy p, pl_healthy := []\<rparr>"

text \<open>The whole of \<open>healthCheck\<close>, for the answers to the pings and the reconnects.\<close>

fun health_loop :: "(bool \<times> bool) list \<Rightarrow> pool \<Rightarrow> fault + pool" where
  "health_loop [] p = Inr p"
| "health_loop ((b1, b2) # bs) p = (case health_one b1 b2 p of Inl f \<Rightarrow> Inl f | Inr p1 \<Rightarrow> health_loop bs p1)"

definition healthCheck :: "(nat \<Rightarrow> bool \<times> bool) \<Rightarrow> pool \<Rightarrow> fault + pool" where
  "healthCheck answers p =
     (let p1 = health_begin p
      in map_sum id health_end (health_loop (map answers (pl_to_check p1)) p1))"

fun delete_all :: "nat list \<Rightarrow> pool \<Rightarrow> fault + pool" where
  "delete_all [] p = Inr p"
| "delete_all (c # cs) p = (case delete_conn c p of Inl f \<Rightarrow> Inl f | Inr p1 \<Rightarrow> delete_all cs p1)"

definition pool_shutdown :: "pool \<Rightarrow> fault + pool" where
  "pool_shutdown p =
     (if pl_shutdown p then Inr p
      else map_sum id (\<lambda>q. q\<lparr>pl_all := [], pl_idle := []\<rparr>)
             (delete_all (pl_all p)
               (p\<lparr>pl_shutdown := True, pl_woken := pl_woken p + pl_waiting p, pl_waiting := 0\<rparr>)))"

definition idleCount :: "pool \<Rightarrow> nat" where
  "idleCount p = length (pl_idle p)"

definition activeCount :: "pool \<Rightarrow> int" where
  "activeCount p = pl_active_count p"

section \<open>Threads\<close>

text \<open>
  A step of some thread; \<open>None\<close> when no thread is where the step begins. One thread runs health checks.
\<close>

datatype pool_op =
    PAcquire | PCreated bool | PWake | PTimeout | PRelease nat
  | PHealthBegin | PHealthOne bool bool | PHealthEnd | PShutdown

definition pool_step :: "pool_op \<Rightarrow> pool \<Rightarrow> (fault + pool) option" where
  "pool_step x p =
     (case x of
        PAcquire \<Rightarrow> Some (Inr (snd (acquire_locked p)))
      | PCreated b \<Rightarrow> if pl_creating p > 0 then Some (map_sum id snd (acquire_created b p)) else None
      | PWake \<Rightarrow> if pl_woken p > 0 then Some (Inr (snd (acquire_woken p))) else None
      | PTimeout \<Rightarrow> if pl_waiting p > 0 then Some (Inr (snd (acquire_timed_out p))) else None
      | PRelease c \<Rightarrow> if c \<in> set (pl_out p) then Some (pool_release c p) else None
      | PHealthBegin \<Rightarrow> if pl_to_check p = [] \<and> pl_healthy p = [] then Some (Inr (health_begin p)) else None
      | PHealthOne b1 b2 \<Rightarrow> if pl_to_check p = [] then None else Some (health_one b1 b2 p)
      | PHealthEnd \<Rightarrow> if pl_to_check p = [] then Some (Inr (health_end p)) else None
      | PShutdown \<Rightarrow> Some (pool_shutdown p))"

inductive pool_reachable :: "bool list \<Rightarrow> int \<Rightarrow> pool \<Rightarrow> bool" for connects max_pool_size where
  made: "pool_reachable connects max_pool_size (MySQLConnectionPool_ctor connects max_pool_size)"
| moved: "pool_reachable connects max_pool_size p \<Longrightarrow> pool_step x p = Some (Inr p') \<Longrightarrow>
    pool_reachable connects max_pool_size p'"

section \<open>Every connection is somewhere\<close>

definition pool_ok :: "pool \<Rightarrow> bool" where
  "pool_ok p \<longleftrightarrow>
     \<not> pl_shutdown p \<and>
     mset (pl_all p) = mset (pl_idle p) + mset (pl_out p) + mset (pl_to_check p) + mset (pl_healthy p) \<and>
     distinct (pl_all p) \<and> dom (pl_conns p) = set (pl_all p) \<and> (\<forall>c \<in> set (pl_all p). c < pl_fresh p) \<and>
     (\<forall>c m. pl_conns p c = Some m \<longrightarrow> mc_connected m) \<and>
     pl_active_count p = int (length (pl_out p)) \<and> 0 \<le> pl_creating p"

lemma pool_ok_parts:
  assumes "pool_ok p"
  shows "distinct (pl_idle p @ pl_out p @ pl_to_check p @ pl_healthy p)"
    "set (pl_all p) = set (pl_idle p @ pl_out p @ pl_to_check p @ pl_healthy p)"
proof -
  have m: "mset (pl_all p) = mset (pl_idle p @ pl_out p @ pl_to_check p @ pl_healthy p)" "distinct (pl_all p)"
    using assms by (auto simp: pool_ok_def)
  show "distinct (pl_idle p @ pl_out p @ pl_to_check p @ pl_healthy p)"
    using mset_eq_imp_distinct_iff [OF m(1)] m(2) by simp
  show "set (pl_all p) = set (pl_idle p @ pl_out p @ pl_to_check p @ pl_healthy p)"
    using mset_eq_setD [OF m(1)] .
qed

lemma createOne_cases:
  "createOne b p = (if b then (Some (pl_fresh p), p\<lparr>pl_fresh := pl_fresh p + 1,
       pl_conns := (pl_conns p)(pl_fresh p \<mapsto> \<lparr>mc_connected = True\<rparr>)\<rparr>)
     else (None, p\<lparr>pl_fresh := pl_fresh p + 1\<rparr>))"
  by (simp add: createOne_def MySQLConnection_connect_def)

text \<open>A connection that was just made, and one that was not.\<close>

lemma createOne_ok:
  assumes "pool_ok p"
  shows "pool_ok (p\<lparr>pl_fresh := Suc (pl_fresh p)\<rparr>)"
    and "pool_ok (p\<lparr>pl_fresh := Suc (pl_fresh p), pl_conns := (pl_conns p)(pl_fresh p \<mapsto> \<lparr>mc_connected = True\<rparr>),
          pl_idle := pl_idle p @ [pl_fresh p], pl_all := pl_all p @ [pl_fresh p]\<rparr>)"
  using assms by (auto simp: pool_ok_def)

lemma pool_fill_ok:
  assumes "pool_ok p"
  shows "pool_ok (pool_fill connects p) \<and>
    length (pl_all (pool_fill connects p)) \<le> length (pl_all p) + length connects \<and>
    pl_creating (pool_fill connects p) = pl_creating p \<and>
    pl_max_pool_size (pool_fill connects p) = pl_max_pool_size p"
  using assms
proof (induction connects arbitrary: p)
  case (Cons b bs)
  show ?case
    using Cons.IH [OF createOne_ok(1) [OF Cons.prems]] Cons.IH [OF createOne_ok(2) [OF Cons.prems]]
    by (cases b) (simp_all add: createOne_cases)
qed simp

lemma ctor_ok:
  "pool_ok (MySQLConnectionPool_ctor connects m)"
  "length (pl_all (MySQLConnectionPool_ctor connects m)) \<le> length connects"
  "pl_creating (MySQLConnectionPool_ctor connects m) = 0"
  "pl_max_pool_size (MySQLConnectionPool_ctor connects m) = m"
proof -
  let ?p = "\<lparr>pl_idle = [], pl_all = [], pl_active_count = 0, pl_creating = 0, pl_shutdown = False,
      pl_max_pool_size = m, pl_conns = Map.empty, pl_fresh = 0, pl_out = [],
      pl_to_check = [], pl_healthy = [], pl_waiting = 0, pl_woken = 0\<rparr>"
  have "pool_ok ?p" by (simp add: pool_ok_def)
  from pool_fill_ok [OF this, of connects]
  show "pool_ok (MySQLConnectionPool_ctor connects m)"
    "length (pl_all (MySQLConnectionPool_ctor connects m)) \<le> length connects"
    "pl_creating (MySQLConnectionPool_ctor connects m) = 0"
    "pl_max_pool_size (MySQLConnectionPool_ctor connects m) = m"
    by (auto simp: MySQLConnectionPool_ctor_def)
qed

lemma pool_ok_conn: "pool_ok p \<Longrightarrow> c \<in> set (pl_all p) \<Longrightarrow> pl_conns p c = Some \<lparr>mc_connected = True\<rparr>"
proof -
  assume a: "pool_ok p" "c \<in> set (pl_all p)"
  then have "c \<in> dom (pl_conns p)" by (simp add: pool_ok_def)
  then obtain m where "pl_conns p c = Some m" by blast
  moreover have "mc_connected m" using a(1) calculation by (simp add: pool_ok_def)
  ultimately show ?thesis by simp
qed

text \<open>The number of connections never passes the larger of the initial and the maximal size.\<close>

definition pool_bound :: "int \<Rightarrow> pool \<Rightarrow> bool" where
  "pool_bound k p \<longleftrightarrow> int (length (pl_all p)) + pl_creating p \<le> k \<and> pl_max_pool_size p \<le> k"

lemma acquire_locked_ok:
  assumes "pool_ok p" "pool_bound k p"
  shows "pool_ok (snd (acquire_locked p)) \<and> pool_bound k (snd (acquire_locked p))"
  using assms by (auto simp: acquire_locked_def pool_ok_def pool_bound_def split: list.split)

lemma acquire_created_ok:
  assumes "pool_ok p" "pool_bound k p" "pl_creating p > 0"
  shows "\<exists>r p'. acquire_created b p = Inr (r, p') \<and> pool_ok p' \<and> pool_bound k p'"
proof (cases b)
  case True
  let ?q = "p\<lparr>pl_fresh := Suc (pl_fresh p), pl_conns := (pl_conns p)(pl_fresh p \<mapsto> \<lparr>mc_connected = True\<rparr>),
    pl_creating := pl_creating p - 1, pl_all := pl_all p @ [pl_fresh p], pl_idle := pl_idle p @ [pl_fresh p]\<rparr>"
  have q: "pool_ok ?q"
    using createOne_ok(2) [OF assms(1)] assms(3) by (simp add: pool_ok_def)
  have "pool_bound k ?q" using assms(2) by (simp add: pool_bound_def)
  note after = acquire_locked_ok [OF q this]
  have "acquire_created b p = Inr (acquire_locked ?q)"
    using True assms(1) by (simp add: acquire_created_def createOne_cases pool_ok_def)
  then show ?thesis using after by (metis prod.collapse)
next
  case False
  then show ?thesis
    using createOne_ok(1) [OF assms(1)] assms(2,3)
    by (simp add: acquire_created_def createOne_cases pool_ok_def pool_bound_def)
qed

lemma notify_one_ok: "pool_ok (notify_one p) = pool_ok p" "pool_bound k (notify_one p) = pool_bound k p"
  by (simp_all add: notify_one_def pool_ok_def pool_bound_def)

lemma pool_release_ok:
  assumes "pool_ok p" "pool_bound k p" "c \<in> set (pl_out p)"
  shows "\<exists>p'. pool_release c p = Inr p' \<and> pool_ok p' \<and> pool_bound k p'"
proof -
  let ?q = "p\<lparr>pl_out := remove1 c (pl_out p), pl_active_count := pl_active_count p - 1, pl_idle := pl_idle p @ [c]\<rparr>"
  have l: "int (length (pl_out p) - Suc 0) = int (length (pl_out p)) - 1"
    using assms(3) by (cases "pl_out p") auto
  have "pool_ok ?q" using assms l by (auto simp: pool_ok_def length_remove1)
  moreover have "pool_bound k ?q" using assms(2) by (simp add: pool_bound_def)
  moreover have "pool_release c p = Inr (notify_one ?q)" using assms(1) by (simp add: pool_release_def pool_ok_def)
  ultimately show ?thesis by (simp add: notify_one_ok)
qed

lemma health_one_ok:
  assumes ok: "pool_ok p" "pool_bound k p" and l: "pl_to_check p = c # cs"
  shows "\<exists>p'. health_one b1 b2 p = Inr p' \<and> pool_ok p' \<and> pool_bound k p'"
proof -
  have c: "c \<in> set (pl_all p)" "pl_conns p c = Some \<lparr>mc_connected = True\<rparr>"
    using pool_ok_parts(2) [OF ok(1)] l pool_ok_conn [OF ok(1), of c] by auto
  show ?thesis
  proof (cases "b1 \<or> b2")
    case True
    let ?q = "p\<lparr>pl_to_check := cs, pl_conns := (pl_conns p)(c \<mapsto> \<lparr>mc_connected = True\<rparr>), pl_healthy := pl_healthy p @ [c]\<rparr>"
    have "health_one b1 b2 p = Inr ?q"
      using l c True by (auto simp: health_one_def MySQLConnection_ping_def MySQLConnection_reconnect_def
        MySQLConnection_connect_def MySQLConnection_close_def)
    moreover have "pool_ok ?q" using ok(1) l c by (auto simp: pool_ok_def)
    moreover have "pool_bound k ?q" using ok(2) by (simp add: pool_bound_def)
    ultimately show ?thesis by simp
  next
    case False
    let ?q = "p\<lparr>pl_to_check := cs, pl_all := remove1 c (pl_all p), pl_conns := (pl_conns p)(c := None)\<rparr>"
    have "health_one b1 b2 p = Inr ?q"
      using l c False by (auto simp: health_one_def MySQLConnection_ping_def MySQLConnection_reconnect_def
        MySQLConnection_connect_def MySQLConnection_close_def delete_conn_def)
    moreover have "pool_ok ?q" using ok(1) l c by (auto simp: pool_ok_def dest: in_set_remove1 [THEN iffD1, rotated])
    moreover have "pool_bound k ?q" using ok(2) by (auto simp: pool_bound_def length_remove1)
    ultimately show ?thesis by simp
  qed
qed

text \<open>Shutting down deletes all connections, those lent or being checked, too.\<close>

lemma delete_all_spec:
  "\<lbrakk>distinct cs; \<forall>c \<in> set cs. pl_conns p c \<noteq> None\<rbrakk> \<Longrightarrow>
     delete_all cs p = Inr (p\<lparr>pl_conns := (\<lambda>c. if c \<in> set cs then None else pl_conns p c)\<rparr>)"
proof (induction cs arbitrary: p)
  case (Cons c cs)
  let ?q = "p\<lparr>pl_conns := (pl_conns p)(c := None)\<rparr>"
  have "delete_all cs ?q = Inr (?q\<lparr>pl_conns := (\<lambda>c. if c \<in> set cs then None else pl_conns ?q c)\<rparr>)"
    using Cons.prems by (intro Cons.IH) auto
  then show ?case using Cons.prems
    by (auto simp: delete_conn_def fun_eq_iff intro!: pool.equality)
qed (auto simp: fun_eq_iff intro!: pool.equality)

lemma pool_shutdown_spec:
  assumes ok: "pool_ok p"
  shows "pool_shutdown p = Inr (p\<lparr>pl_shutdown := True, pl_woken := pl_woken p + pl_waiting p, pl_waiting := 0,
    pl_conns := Map.empty, pl_all := [], pl_idle := []\<rparr>)"
proof -
  have d: "distinct (pl_all p)" using ok by (simp add: pool_ok_def)
  let ?s = "p\<lparr>pl_shutdown := True, pl_woken := pl_woken p + pl_waiting p, pl_waiting := 0\<rparr>"
  have "\<forall>c \<in> set (pl_all p). pl_conns ?s c \<noteq> None" using ok by (simp add: pool_ok_conn)
  from delete_all_spec [OF d this]
  have "delete_all (pl_all p) ?s =
      Inr (?s\<lparr>pl_conns := (\<lambda>c. if c \<in> set (pl_all p) then None else pl_conns p c)\<rparr>)"
    by (simp cong: if_cong)
  moreover have "(\<lambda>c. if c \<in> set (pl_all p) then None else pl_conns p c) = Map.empty"
    using ok unfolding pool_ok_def by (metis domIff)
  ultimately show ?thesis using ok by (simp add: pool_shutdown_def pool_ok_def)
qed

lemma pool_step_ok:
  assumes "pool_ok p" "pool_bound k p" "pool_step x p = Some r" "x \<noteq> PShutdown"
  shows "\<exists>p'. r = Inr p' \<and> pool_ok p' \<and> pool_bound k p'"
proof (cases x)
  case (PCreated b)
  then have c: "pl_creating p > 0" "r = map_sum id snd (acquire_created b p)"
    using assms(3) by (auto simp: pool_step_def split: if_splits)
  then show ?thesis using acquire_created_ok [OF assms(1,2) c(1), of b] by auto
next
  case PWake
  let ?q = "p\<lparr>pl_woken := pl_woken p - 1\<rparr>"
  have "pool_ok ?q" "pool_bound k ?q" using assms(1,2) by (simp_all add: pool_ok_def pool_bound_def)
  from acquire_locked_ok [OF this] show ?thesis
    using PWake assms(3) by (auto simp: pool_step_def acquire_woken_def split: if_splits)
next
  case (PRelease c)
  then show ?thesis
    using assms(3) pool_release_ok [OF assms(1,2), of c] by (auto simp: pool_step_def split: if_splits)
next
  case (PHealthOne b1 b2)
  then show ?thesis
    using assms(3) health_one_ok [OF assms(1,2)] by (cases "pl_to_check p") (auto simp: pool_step_def)
next
  case PAcquire
  then show ?thesis using assms(3) acquire_locked_ok [OF assms(1,2)] by (auto simp: pool_step_def)
qed (use assms in \<open>auto simp: pool_step_def acquire_timed_out_def health_begin_def health_end_def
       pool_ok_def pool_bound_def split: if_splits\<close>)

text \<open>After a shutdown no connection is open, whatever goes on.\<close>

definition pool_closed :: "pool \<Rightarrow> bool" where
  "pool_closed p \<longleftrightarrow> pl_shutdown p \<and> pl_conns p = Map.empty"

text \<open>The steps that use a connection the shutdown has deleted: the end of its lending, and its check.\<close>

definition uses_deleted :: "pool_op \<Rightarrow> pool \<Rightarrow> bool" where
  "uses_deleted x p =
     (case x of PRelease c \<Rightarrow> c \<in> set (pl_out p) | PHealthOne b1 b2 \<Rightarrow> pl_to_check p \<noteq> [] | _ \<Rightarrow> False)"

lemma closed_step:
  assumes "pool_closed p" "pool_step x p = Some r"
  shows "if uses_deleted x p then r = Inl Undefined else \<exists>p'. r = Inr p' \<and> pool_closed p'"
proof (cases x)
  case (PCreated b)
  then have "r = map_sum id snd (acquire_created b p)" using assms(2) by (simp add: pool_step_def split: if_splits)
  then show ?thesis using assms(1) PCreated
    by (cases b) (auto simp: uses_deleted_def acquire_created_def createOne_cases pool_closed_def delete_conn_def Let_def)
next
  case (PRelease c)
  then show ?thesis using assms by (auto simp: uses_deleted_def pool_step_def pool_release_def delete_conn_def pool_closed_def Let_def split: if_splits)
next
  case (PHealthOne b1 b2)
  then show ?thesis using assms
    by (cases "pl_to_check p") (auto simp: uses_deleted_def pool_step_def health_one_def pool_closed_def)
qed (use assms in \<open>auto simp: uses_deleted_def pool_step_def acquire_locked_def acquire_woken_def acquire_timed_out_def
       health_begin_def health_end_def pool_shutdown_def pool_closed_def split: if_splits\<close>)

lemma pool_reachable_ok:
  assumes "pool_reachable connects m p"
  shows "if pl_shutdown p then pool_closed p
    else pool_ok p \<and> pool_bound (max (int (length connects)) m) p"
  using assms
proof induction
  case made
  then show ?case using ctor_ok [of connects m] by (auto simp: pool_bound_def pool_ok_def)
next
  case (moved p x p')
  show ?case
  proof (cases "pl_shutdown p")
    case True
    then show ?thesis using closed_step [of p x "Inr p'"] moved by (auto simp: pool_closed_def split: if_splits)
  next
    case False
    then have ok: "pool_ok p" "pool_bound (max (int (length connects)) m) p" using moved by auto
    show ?thesis
    proof (cases "x = PShutdown")
      case True
      then show ?thesis using moved(2) pool_shutdown_spec [OF ok(1)] by (auto simp: pool_step_def pool_closed_def)
    next
      case False
      then show ?thesis using pool_step_ok [OF ok moved(2)] by (auto simp: pool_ok_def)
    qed
  qed
qed


section \<open>Two threads\<close>

fun pool_run :: "pool_op list \<Rightarrow> pool \<Rightarrow> (fault + pool) option" where
  "pool_run [] p = Some (Inr p)"
| "pool_run (x # xs) p =
     (case pool_step x p of Some (Inr p1) \<Rightarrow> pool_run xs p1 | r \<Rightarrow> r)"

lemma pool_run_reachable:
  assumes "pool_reachable connects m p" "pool_run xs p = Some (Inr p')"
  shows "pool_reachable connects m p'"
  using assms
proof (induction xs arbitrary: p)
  case (Cons x xs)
  then show ?case by (auto split: option.splits sum.splits intro: pool_reachable.moved)
qed simp

lemma pool_run_append:
  "pool_run xs p = Some (Inr p1) \<Longrightarrow> pool_run (xs @ ys) p = pool_run ys p1"
  by (induction xs arbitrary: p) (auto split: option.splits sum.splits)

lemma fill_all:
  "pool_fill (replicate n True) p =
     p\<lparr>pl_idle := pl_idle p @ [pl_fresh p..<pl_fresh p + n], pl_all := pl_all p @ [pl_fresh p..<pl_fresh p + n],
       pl_fresh := pl_fresh p + n,
       pl_conns := (\<lambda>c. if pl_fresh p \<le> c \<and> c < pl_fresh p + n then Some \<lparr>mc_connected = True\<rparr> else pl_conns p c)\<rparr>"
proof (induction n arbitrary: p)
  case (Suc n)
  show ?case by (auto simp: createOne_cases Suc upt_conv_Cons fun_eq_iff intro!: pool.equality)
qed (auto simp: fun_eq_iff intro!: pool.equality)

text \<open>A health check that finds every connection alive.\<close>

lemma check_all:
  assumes "pl_to_check p = cs" "\<forall>c \<in> set cs. pl_conns p c = Some \<lparr>mc_connected = True\<rparr>"
  shows "\<exists>q. pool_run (replicate (length cs) (PHealthOne True b)) p = Some (Inr q) \<and>
    pl_to_check q = [] \<and> pl_healthy q = pl_healthy p @ cs \<and> pl_idle q = pl_idle p \<and> pl_out q = pl_out p \<and>
    pl_waiting q = pl_waiting p \<and> pl_woken q = pl_woken p"
  using assms
proof (induction cs arbitrary: p)
  case (Cons c cs)
  let ?q = "p\<lparr>pl_to_check := cs, pl_conns := (pl_conns p)(c \<mapsto> \<lparr>mc_connected = True\<rparr>), pl_healthy := pl_healthy p @ [c]\<rparr>"
  have "pool_step (PHealthOne True b) p = Some (Inr ?q)"
    using Cons.prems by (simp add: pool_step_def health_one_def MySQLConnection_ping_def)
  moreover have "pl_to_check ?q = cs" "\<forall>c \<in> set cs. pl_conns ?q c = Some \<lparr>mc_connected = True\<rparr>"
    using Cons.prems by auto
  ultimately show ?case using Cons.IH [of ?q] by auto
qed simp

text \<open>
  The end of a health check notifies nobody. For every pool of one or more connections that may not
  grow there is a run that ends with every connection idle and none lent or checked, while a thread that
  asked for a connection during the check still waits and no notification is on its way: it gets null
  when its five seconds are over.
\<close>

theorem health_check_strands_waiter:
  "\<exists>p. pool_reachable (replicate (Suc n) True) (int (Suc n)) p \<and>
     pl_idle p = [0..<Suc n] \<and> pl_out p = [] \<and> pl_to_check p = [] \<and> pl_healthy p = [] \<and>
     pl_waiting p = 1 \<and> pl_woken p = 0 \<and> pool_step PWake p = None \<and> fst (acquire_timed_out p) = AcqNull"
proof -
  let ?m = "Suc n"
  let ?p0 = "MySQLConnectionPool_ctor (replicate ?m True) (int ?m)"
  have p0: "pl_idle ?p0 = [0..<?m]" "pl_all ?p0 = [0..<?m]" "pl_out ?p0 = []" "pl_to_check ?p0 = []"
    "pl_healthy ?p0 = []" "pl_waiting ?p0 = 0" "pl_woken ?p0 = 0" "pl_creating ?p0 = 0" "\<not> pl_shutdown ?p0"
    "pl_max_pool_size ?p0 = int ?m" "\<forall>c \<in> set [0..<?m]. pl_conns ?p0 c = Some \<lparr>mc_connected = True\<rparr>"
    unfolding MySQLConnectionPool_ctor_def fill_all by auto
  let ?p1 = "health_begin ?p0" and ?ops = "replicate (length [0..<?m]) (PHealthOne True True)"
  let ?p2 = "?p1\<lparr>pl_waiting := 1\<rparr>"
  have begun: "pool_run [PHealthBegin, PAcquire] ?p0 = Some (Inr ?p2)"
    using p0 by (simp add: pool_step_def acquire_locked_def health_begin_def)
  have c2: "pl_to_check ?p2 = [0..<?m]" "\<forall>c \<in> set [0..<?m]. pl_conns ?p2 c = Some \<lparr>mc_connected = True\<rparr>"
    using p0 by (simp_all add: health_begin_def)
  obtain q where q: "pool_run ?ops ?p2 = Some (Inr q)" "pl_to_check q = []" "pl_healthy q = [0..<?m]"
      "pl_idle q = []" "pl_out q = []" "pl_waiting q = 1" "pl_woken q = 0"
    using check_all [OF c2, of True] p0 by (auto simp: health_begin_def)
  have "pool_run ([PHealthBegin, PAcquire] @ ?ops @ [PHealthEnd]) ?p0 = Some (Inr (health_end q))"
    using pool_run_append [OF begun, of "?ops @ [PHealthEnd]"] pool_run_append [OF q(1), of "[PHealthEnd]"] q(2)
    by (simp add: pool_step_def)
  then have "pool_reachable (replicate ?m True) (int ?m) (health_end q)"
    by (rule pool_run_reachable [OF pool_reachable.made])
  then show ?thesis using q
    by (intro exI [of _ "health_end q"]) (simp add: health_end_def pool_step_def acquire_timed_out_def)
qed

lemma demo_pool_run:
  "pool_run [PAcquire, PAcquire] (MySQLConnectionPool_ctor [True, False, True] 2) =
     Some (Inr (snd (acquire_locked (snd (acquire_locked (MySQLConnectionPool_ctor [True, False, True] 2))))))"
  by (simp add: pool_step_def)


text \<open>
  Shutting a pool down deletes every connection, the lent ones as well, without a fault of its own;
  the end of the \<open>shared_ptr\<close> of any connection that was lent then deletes it a second time.
\<close>

theorem shutdown_deletes_lent_connections:
  assumes "pool_reachable connects m p" "c \<in> set (pl_out p)" "\<not> pl_shutdown p"
  shows "\<exists>q. pool_shutdown p = Inr q \<and> pl_conns q = Map.empty \<and> c \<in> set (pl_out q) \<and>
    pool_release c q = Inl Undefined"
  using pool_shutdown_spec pool_reachable_ok [OF assms(1)] assms(2,3)
  by (simp add: pool_release_def delete_conn_def)

theorem shutdown_deletes_lent_connections_witness:
  "\<exists>q. pool_shutdown (snd (acquire_locked (MySQLConnectionPool_ctor [True] 1))) = Inr q \<and>
     pool_release 0 q = Inl Undefined"
proof -
  let ?p = "snd (acquire_locked (MySQLConnectionPool_ctor [True] 1))"
  have "pool_run [PAcquire] (MySQLConnectionPool_ctor [True] 1) = Some (Inr ?p)" by (simp add: pool_step_def)
  then have "pool_reachable [True] 1 ?p" by (rule pool_run_reachable [OF pool_reachable.made])
  moreover have "0 \<in> set (pl_out ?p)"
    by (simp add: MySQLConnectionPool_ctor_def createOne_cases acquire_locked_def)
  moreover have "\<not> pl_shutdown ?p"
    by (simp add: MySQLConnectionPool_ctor_def createOne_cases acquire_locked_def)
  ultimately show ?thesis using shutdown_deletes_lent_connections by blast
qed

end
