(* ===== verification/Transactions.thy ===== *)
theory Transactions
  imports ConnPool
begin

text \<open>
  The transaction manager of the database proxy (server/dbproxy/TransactionManager.cpp) and the part of
  the message handlers (DBProxyHandler.cpp) between parsing the request and sending the reply. A message
  is handled from its beginning to its end. The answers of the server and the clock are in \<open>db_answers\<close>;
  \<open>dp_sent\<close> records the statements sent on each connection. Times are nanoseconds.
\<close>

section \<open>Transactions\<close>

record tx_context =
  tx_conn :: nat
  tx_deadline :: int

record db_proxy =
  dp_pool :: pool
  dp_active_txs :: "nat \<rightharpoonup> tx_context"
  dp_tx_id_gen :: nat
  dp_default_timeout_ms :: nat
  dp_sent :: "(nat \<times> string) list"

record db_answers =
  an_now :: int
  an_connects :: bool
  an_raw :: "string option"
  an_query :: query_answer
  an_exec :: "string + nat \<times> nat"

text \<open>
  \<open>acquire\<close> from its first turn to its end, when no other thread runs meanwhile: a wait times out.
\<close>

definition acquire_end :: "acquire_result \<times> pool \<Rightarrow> nat option \<times> pool" where
  "acquire_end rp =
     (case rp of
        (AcqConn c, p) \<Rightarrow> (Some c, p)
      | (AcqWait, p) \<Rightarrow> (None, snd (acquire_timed_out p))
      | (r, p) \<Rightarrow> (None, p))"

definition pool_acquire :: "bool \<Rightarrow> pool \<Rightarrow> fault + nat option \<times> pool" where
  "pool_acquire connects p =
     (case acquire_locked p of
        (AcqCreate, p1) \<Rightarrow> map_sum id acquire_end (acquire_created connects p1)
      | rp \<Rightarrow> Inr (acquire_end rp))"

text \<open>The end of the last \<open>shared_ptr\<close> of a connection.\<close>

definition drop_conn :: "nat \<Rightarrow> db_proxy \<Rightarrow> fault + db_proxy" where
  "drop_conn c d = map_sum id (\<lambda>p. d\<lparr>dp_pool := p\<rparr>) (pool_release c (dp_pool d))"

text \<open>A statement sent on a connection; a deleted one must not be used.\<close>

definition on_conn :: "nat \<Rightarrow> string \<Rightarrow> (mysql_connection \<Rightarrow> db_proxy \<Rightarrow> fault + 'r) \<Rightarrow> db_proxy \<Rightarrow> fault + 'r" where
  "on_conn c sql body d =
     (case pl_conns (dp_pool d) c of
        None \<Rightarrow> Inl Undefined
      | Some m \<Rightarrow> body m (d\<lparr>dp_sent := dp_sent d @ [(c, sql)]\<rparr>))"

definition TransactionManager_ctor :: "pool \<Rightarrow> nat \<Rightarrow> db_proxy" where
  "TransactionManager_ctor p default_timeout_ms =
     \<lparr>dp_pool = p, dp_active_txs = Map.empty, dp_tx_id_gen = 1, dp_default_timeout_ms = default_timeout_ms,
      dp_sent = []\<rparr>"

text \<open>
  \<open>steady_clock::now() + milliseconds(timeout_ms)\<close>: 64-bit signed nanoseconds, whose overflow is undefined.
\<close>

definition s64 :: "nat \<Rightarrow> int" where
  "s64 n = (if n mod 2 ^ 64 < 2 ^ 63 then int (n mod 2 ^ 64) else int (n mod 2 ^ 64) - 2 ^ 64)"

definition in_s64 :: "int \<Rightarrow> bool" where
  "in_s64 i \<longleftrightarrow> - (2 ^ 63) \<le> i \<and> i < 2 ^ 63"

definition deadline_after :: "int \<Rightarrow> nat \<Rightarrow> int option" where
  "deadline_after now timeout_ms =
     (let ns = 1000000 * s64 timeout_ms
      in if in_s64 ns \<and> in_s64 (now + ns) then Some (now + ns) else None)"

text \<open>Returns the id, or 0 with an error message.\<close>

definition tx_begin :: "db_answers \<Rightarrow> nat \<Rightarrow> db_proxy \<Rightarrow> fault + (nat \<times> string) \<times> db_proxy" where
  "tx_begin a timeout_ms d =
     (let timeout = (if timeout_ms = 0 then dp_default_timeout_ms d else timeout_ms)
      in case pool_acquire (an_connects a) (dp_pool d) of
           Inl f \<Rightarrow> Inl f
         | Inr (None, p) \<Rightarrow> Inr ((0, ''failed to acquire connection from pool''), d\<lparr>dp_pool := p\<rparr>)
         | Inr (Some c, p) \<Rightarrow>
             on_conn c ''START TRANSACTION'' (\<lambda>m d1.
               case execRaw (an_raw a) '''' of
                 (False, e) \<Rightarrow> map_sum id (\<lambda>d2. ((0, e), d2)) (drop_conn c d1)
               | (True, e) \<Rightarrow>
                   (let tx_id = dp_tx_id_gen d1; d2 = d1\<lparr>dp_tx_id_gen := uadd 64 tx_id 1\<rparr>
                    in case deadline_after (an_now a) timeout of
                         None \<Rightarrow> Inl Undefined
                       | Some deadline \<Rightarrow>
                           (case dp_active_txs d2 tx_id of
                              Some ctx \<Rightarrow> map_sum id (\<lambda>d3. ((tx_id, e), d3)) (drop_conn c d2)
                            | None \<Rightarrow> Inr ((tx_id, e), d2\<lparr>dp_active_txs := (dp_active_txs d2)(tx_id \<mapsto>
                                       \<lparr>tx_conn = c, tx_deadline = deadline\<rparr>)\<rparr>))))
               (d\<lparr>dp_pool := p\<rparr>))"

definition getConnection :: "int \<Rightarrow> nat \<Rightarrow> db_proxy \<Rightarrow> nat option" where
  "getConnection now tx_id d =
     (case dp_active_txs d tx_id of
        None \<Rightarrow> None
      | Some ctx \<Rightarrow> if now > tx_deadline ctx then None else Some (tx_conn ctx))"

definition tx_finalize :: "string option \<Rightarrow> nat \<Rightarrow> bool \<Rightarrow> db_proxy \<Rightarrow> fault + (bool \<times> string) \<times> db_proxy" where
  "tx_finalize raw tx_id do_commit d =
     (case dp_active_txs d tx_id of
        None \<Rightarrow> Inr ((False, ''tx_id='' @ bytes_str (to_string (int tx_id)) @ '' not found''), d)
      | Some ctx \<Rightarrow>
          on_conn (tx_conn ctx) (if do_commit then ''COMMIT'' else ''ROLLBACK'') (\<lambda>m d1.
            map_sum id (\<lambda>d2. (execRaw raw '''', d2)) (drop_conn (tx_conn ctx) d1))
            (d\<lparr>dp_active_txs := (dp_active_txs d)(tx_id := None)\<rparr>))"

definition tx_commit :: "string option \<Rightarrow> nat \<Rightarrow> db_proxy \<Rightarrow> fault + (bool \<times> string) \<times> db_proxy" where
  "tx_commit raw tx_id d = tx_finalize raw tx_id True d"

definition tx_rollback :: "string option \<Rightarrow> nat \<Rightarrow> db_proxy \<Rightarrow> fault + (bool \<times> string) \<times> db_proxy" where
  "tx_rollback raw tx_id d = tx_finalize raw tx_id False d"

fun rollback_each :: "(nat \<Rightarrow> string option) \<Rightarrow> nat list \<Rightarrow> db_proxy \<Rightarrow> fault + db_proxy" where
  "rollback_each raw [] d = Inr d"
| "rollback_each raw (i # ids) d =
     (case tx_rollback (raw i) i d of Inl f \<Rightarrow> Inl f | Inr (r, d1) \<Rightarrow> rollback_each raw ids d1)"

text \<open>\<open>order\<close> lists the keys of the map in the order in which the iterator visits them.\<close>

definition expired :: "int \<Rightarrow> db_proxy \<Rightarrow> nat \<Rightarrow> bool" where
  "expired now d i = (case dp_active_txs d i of None \<Rightarrow> False | Some ctx \<Rightarrow> now > tx_deadline ctx)"

definition checkTimeouts :: "int \<Rightarrow> nat list \<Rightarrow> (nat \<Rightarrow> string option) \<Rightarrow> db_proxy \<Rightarrow> fault + db_proxy" where
  "checkTimeouts now order raw d = rollback_each raw (filter (expired now d) order) d"

section \<open>The handlers\<close>

datatype ss_error =
    Error_success | Error_db_connection_failed | Error_db_query_failed | Error_db_exec_failed
  | Error_db_tx_not_found

datatype db_value = NullVal | StrVal string

record db_response =
  rs_err :: ss_error
  rs_err_msg :: string
  rs_columns :: "(string \<times> string) list"
  rs_rows :: "db_value list list"
  rs_affected_rows :: nat
  rs_last_insert_id :: nat
  rs_tx_id :: nat

definition new_response :: db_response where
  "new_response = \<lparr>rs_err = Error_success, rs_err_msg = '''', rs_columns = [], rs_rows = [],
     rs_affected_rows = 0, rs_last_insert_id = 0, rs_tx_id = 0\<rparr>"

definition error_response :: "ss_error \<Rightarrow> string \<Rightarrow> db_response" where
  "error_response e msg = new_response\<lparr>rs_err := e, rs_err_msg := msg\<rparr>"

text \<open>
  The connection of a query or an execution: that of the transaction, or one of the pool, which goes back
  at the end.
\<close>

definition handler_conn :: "db_answers \<Rightarrow> nat \<Rightarrow> db_proxy \<Rightarrow> fault + (db_response + nat) \<times> db_proxy" where
  "handler_conn a tx_id d =
     (if tx_id \<noteq> 0 then
        (case getConnection (an_now a) tx_id d of
           None \<Rightarrow> Inr (Inl (error_response Error_db_tx_not_found
             (''transaction not found or expired: tx_id='' @ bytes_str (to_string (int tx_id)))), d)
         | Some c \<Rightarrow> Inr (Inr c, d))
      else
        (case pool_acquire (an_connects a) (dp_pool d) of
           Inl f \<Rightarrow> Inl f
         | Inr (None, p) \<Rightarrow> Inr (Inl (error_response Error_db_connection_failed
             ''failed to acquire connection from pool''), d\<lparr>dp_pool := p\<rparr>)
         | Inr (Some c, p) \<Rightarrow> Inr (Inr c, d\<lparr>dp_pool := p\<rparr>)))"

definition handler_statement ::
  "db_answers \<Rightarrow> string \<Rightarrow> nat \<Rightarrow> (mysql_connection \<Rightarrow> db_response) \<Rightarrow> db_proxy \<Rightarrow> fault + db_response \<times> db_proxy" where
  "handler_statement a sql tx_id answer d =
     (case handler_conn a tx_id d of
        Inl f \<Rightarrow> Inl f
      | Inr (Inl r, d1) \<Rightarrow> Inr (r, d1)
      | Inr (Inr c, d1) \<Rightarrow>
          on_conn c sql (\<lambda>m d2. if tx_id \<noteq> 0 then Inr (answer m, d2)
                                else map_sum id (\<lambda>d3. (answer m, d3)) (drop_conn c d2)) d1)"

definition fill_columns :: "query_result \<Rightarrow> (string \<times> string) list" where
  "fill_columns q = map (\<lambda>i. (qr_column_names q ! i,
       if i < length (qr_column_types q) then qr_column_types q ! i else '''')) [0..<length (qr_column_names q)]"

definition fill_row :: "string list \<Rightarrow> bool list \<Rightarrow> db_value list" where
  "fill_row vals nulls = map (\<lambda>c. if nulls ! c then NullVal else StrVal (vals ! c)) [0..<length vals]"

definition fill_rows :: "query_result \<Rightarrow> db_value list list" where
  "fill_rows q = map (\<lambda>r. fill_row (qr_rows q ! r) (qr_null_flags q ! r)) [0..<length (qr_rows q)]"

definition onDBQuery :: "db_answers \<Rightarrow> string \<times> nat \<Rightarrow> db_proxy \<Rightarrow> fault + db_response \<times> db_proxy" where
  "onDBQuery a req d =
     handler_statement a (fst req) (snd req)
       (\<lambda>m. case MySQLConnection_query (an_query a) m of
              Inl e \<Rightarrow> error_response Error_db_query_failed e
            | Inr q \<Rightarrow> new_response\<lparr>rs_columns := fill_columns q, rs_rows := fill_rows q\<rparr>) d"

definition onDBExec :: "db_answers \<Rightarrow> string \<times> nat \<Rightarrow> db_proxy \<Rightarrow> fault + db_response \<times> db_proxy" where
  "onDBExec a req d =
     handler_statement a (fst req) (snd req)
       (\<lambda>m. case MySQLConnection_execute (an_exec a) m of
              Inl e \<Rightarrow> error_response Error_db_exec_failed e
            | Inr q \<Rightarrow> new_response\<lparr>rs_affected_rows := er_affected_rows q,
                                    rs_last_insert_id := er_last_insert_id q\<rparr>) d"

definition onDBTxBegin :: "db_answers \<Rightarrow> nat \<Rightarrow> db_proxy \<Rightarrow> fault + db_response \<times> db_proxy" where
  "onDBTxBegin a timeout_ms d =
     map_sum id (\<lambda>((tx_id, e), d1).
       (if tx_id = 0 then error_response Error_db_connection_failed e else new_response\<lparr>rs_tx_id := tx_id\<rparr>, d1))
       (tx_begin a timeout_ms d)"

definition onDBTxCommit :: "db_answers \<Rightarrow> nat \<Rightarrow> db_proxy \<Rightarrow> fault + db_response \<times> db_proxy" where
  "onDBTxCommit a tx_id d =
     map_sum id (\<lambda>((ok, e), d1). (if ok then new_response else error_response Error_db_exec_failed e, d1))
       (tx_commit (an_raw a) tx_id d)"

definition onDBTxRollback :: "db_answers \<Rightarrow> nat \<Rightarrow> db_proxy \<Rightarrow> fault + db_response \<times> db_proxy" where
  "onDBTxRollback a tx_id d =
     map_sum id (\<lambda>((ok, e), d1). (if ok then new_response else error_response Error_db_exec_failed e, d1))
       (tx_rollback (an_raw a) tx_id d)"

text \<open>A message, or the application's tick.\<close>

datatype db_event =
    DbQuery string nat | DbExec string nat | DbBegin nat | DbCommit nat | DbRollback nat
  | DbTimeouts "nat list" "nat \<Rightarrow> string option" | DbHealth "nat \<Rightarrow> bool \<times> bool"

definition db_step :: "db_answers \<Rightarrow> db_event \<Rightarrow> db_proxy \<Rightarrow> fault + db_proxy" where
  "db_step a x d =
     (case x of
        DbQuery sql i \<Rightarrow> map_sum id snd (onDBQuery a (sql, i) d)
      | DbExec sql i \<Rightarrow> map_sum id snd (onDBExec a (sql, i) d)
      | DbBegin ms \<Rightarrow> map_sum id snd (onDBTxBegin a ms d)
      | DbCommit i \<Rightarrow> map_sum id snd (onDBTxCommit a i d)
      | DbRollback i \<Rightarrow> map_sum id snd (onDBTxRollback a i d)
      | DbTimeouts order raw \<Rightarrow> checkTimeouts (an_now a) order raw d
      | DbHealth answers \<Rightarrow> map_sum id (\<lambda>p. d\<lparr>dp_pool := p\<rparr>) (healthCheck answers (dp_pool d)))"

inductive db_reachable :: "pool \<Rightarrow> nat \<Rightarrow> db_proxy \<Rightarrow> bool" for p ms where
  started: "db_reachable p ms (TransactionManager_ctor p ms)"
| handled: "db_reachable p ms d \<Longrightarrow> db_step a x d = Inr d' \<Longrightarrow> db_reachable p ms d'"

section \<open>Transactions and lent connections\<close>

text \<open>A pool between two messages: nothing is being created or checked.\<close>

definition quiet :: "pool \<Rightarrow> bool" where
  "quiet p \<longleftrightarrow> pool_ok p \<and> pl_to_check p = [] \<and> pl_healthy p = [] \<and> pl_creating p = 0"

definition tx_conn_of :: "db_proxy \<Rightarrow> nat \<Rightarrow> nat" where
  "tx_conn_of d i = tx_conn (the (dp_active_txs d i))"

definition txs_ok :: "db_proxy \<Rightarrow> bool" where
  "txs_ok d \<longleftrightarrow> quiet (dp_pool d) \<and> inj_on (tx_conn_of d) (dom (dp_active_txs d)) \<and>
     tx_conn_of d ` dom (dp_active_txs d) = set (pl_out (dp_pool d))"

lemma some_bound: "\<exists>k. pool_bound k p"
  by (intro exI [of _ "max (int (length (pl_all p)) + pl_creating p) (pl_max_pool_size p)"]) (simp add: pool_bound_def)

lemma quiet_conn:
  assumes "quiet p" "c \<in> set (pl_out p)"
  shows "pl_conns p c = Some \<lparr>mc_connected = True\<rparr>"
proof -
  have ok: "pool_ok p" using assms(1) by (simp add: quiet_def)
  then show ?thesis using pool_ok_parts(2) [OF ok] assms(2) by (intro pool_ok_conn) auto
qed

lemma quiet_distinct: "quiet p \<Longrightarrow> distinct (pl_out p)"
  using pool_ok_parts(1) by (auto simp: quiet_def)

lemma acquire_end_locked:
  assumes "quiet p"
  shows "\<exists>r p'. acquire_locked p = (r, p') \<and> pool_ok p' \<and> pl_to_check p' = [] \<and> pl_healthy p' = [] \<and>
    (case r of AcqConn c \<Rightarrow> pl_out p' = c # pl_out p \<and> pl_creating p' = 0
             | AcqCreate \<Rightarrow> pl_out p' = pl_out p \<and> pl_creating p' = 1
             | AcqWait \<Rightarrow> pl_out p' = pl_out p \<and> pl_creating p' = 0 \<and> pl_waiting p' = Suc (pl_waiting p)
             | AcqNull \<Rightarrow> pl_out p' = pl_out p \<and> pl_creating p' = 0)"
proof -
  obtain k where "pool_bound k p" using some_bound by blast
  then have "pool_ok (snd (acquire_locked p))" using acquire_locked_ok assms by (auto simp: quiet_def)
  then show ?thesis using assms
    by (cases "pl_idle p") (auto simp: acquire_locked_def quiet_def)
qed

lemma timed_out_ok: "pool_ok p \<Longrightarrow> pool_ok (snd (acquire_timed_out p))"
  by (simp add: acquire_timed_out_def pool_ok_def)

lemma created_conn:
  assumes "pool_ok p" "pl_to_check p = []" "pl_healthy p = []" "pl_creating p = 1"
  shows "\<exists>r p'. map_sum id acquire_end (acquire_created b p) = Inr (r, p') \<and> quiet p' \<and>
    pl_out p' = (case r of None \<Rightarrow> pl_out p | Some c \<Rightarrow> c # pl_out p)"
proof -
  obtain k where "pool_bound k p" using some_bound by blast
  then obtain r q where a: "acquire_created b p = Inr (r, q)" "pool_ok q"
    using acquire_created_ok [OF assms(1), of k b] assms(4) by auto
  have s: "\<not> pl_shutdown p" using assms(1) by (simp add: pool_ok_def)
  show ?thesis
  proof (cases b)
    case True
    then obtain c where "r = AcqConn c" "pl_out q = c # pl_out p" "pl_to_check q = []" "pl_healthy q = []"
        "pl_creating q = 0"
      using a(1) s assms(2-4)
      by (cases "pl_idle p") (auto simp: acquire_created_def createOne_cases acquire_locked_def)
    then show ?thesis using a by (simp add: acquire_end_def quiet_def)
  next
    case False
    then have "r = AcqWait" "pl_out q = pl_out p" "pl_to_check q = []" "pl_healthy q = []" "pl_creating q = 0"
      using a(1) assms(2-4) by (auto simp: acquire_created_def createOne_cases)
    then show ?thesis using a(1) timed_out_ok [OF a(2)]
      by (simp add: acquire_end_def quiet_def) (simp add: acquire_timed_out_def)
  qed
qed

lemma pool_acquire_spec:
  assumes "quiet p"
  shows "\<exists>r p'. pool_acquire b p = Inr (r, p') \<and> quiet p' \<and>
    pl_out p' = (case r of None \<Rightarrow> pl_out p | Some c \<Rightarrow> c # pl_out p)"
proof -
  obtain r p1 where l: "acquire_locked p = (r, p1)" "pool_ok p1" "pl_to_check p1 = []" "pl_healthy p1 = []"
    and c: "case r of AcqConn c \<Rightarrow> pl_out p1 = c # pl_out p \<and> pl_creating p1 = 0
             | AcqCreate \<Rightarrow> pl_out p1 = pl_out p \<and> pl_creating p1 = 1
             | AcqWait \<Rightarrow> pl_out p1 = pl_out p \<and> pl_creating p1 = 0 \<and> pl_waiting p1 = Suc (pl_waiting p)
             | AcqNull \<Rightarrow> pl_out p1 = pl_out p \<and> pl_creating p1 = 0"
    using acquire_end_locked [OF assms] by auto
  show ?thesis
  proof (cases r)
    case AcqCreate
    then have c: "pl_creating p1 = 1" "pl_out p1 = pl_out p" using c by simp_all
    show ?thesis using created_conn [OF l(2-4) c(1), of b, unfolded c(2)] l(1) AcqCreate by (simp add: pool_acquire_def)
  next
    case AcqWait
    then show ?thesis using l c timed_out_ok [OF l(2)]
      by (simp add: pool_acquire_def acquire_end_def quiet_def) (simp add: acquire_timed_out_def)
  qed (use l c in \<open>simp_all add: pool_acquire_def acquire_end_def quiet_def\<close>)
qed

lemma drop_conn_spec:
  assumes "quiet (dp_pool d)" "c \<in> set (pl_out (dp_pool d))"
  shows "\<exists>p'. drop_conn c d = Inr (d\<lparr>dp_pool := p'\<rparr>) \<and> quiet p' \<and> pl_out p' = remove1 c (pl_out (dp_pool d)) \<and>
    c \<in> set (pl_idle p')"
proof -
  let ?p = "dp_pool d"
  obtain k where "pool_bound k ?p" using some_bound by blast
  then obtain p' where p': "pool_release c ?p = Inr p'" "pool_ok p'"
    using pool_release_ok [of ?p k c] assms by (auto simp: quiet_def)
  then have "pl_to_check p' = []" "pl_healthy p' = []" "pl_creating p' = 0" "pl_out p' = remove1 c (pl_out ?p)"
      "c \<in> set (pl_idle p')"
    using assms(1) by (auto simp: pool_release_def notify_one_def quiet_def pool_ok_def Let_def split: if_splits)
  then show ?thesis using p' by (intro exI [of _ p']) (simp add: drop_conn_def quiet_def)
qed

lemma txs_ok_same:
  assumes "txs_ok d" "quiet (dp_pool e)" "pl_out (dp_pool e) = pl_out (dp_pool d)" "dp_active_txs e = dp_active_txs d"
  shows "txs_ok e"
proof -
  have "tx_conn_of e = tx_conn_of d" using assms(4) by (simp add: tx_conn_of_def fun_eq_iff)
  then show ?thesis using assms by (simp add: txs_ok_def)
qed

lemma tx_conn_lent:
  assumes "txs_ok d" "dp_active_txs d i = Some ctx"
  shows "tx_conn ctx \<in> set (pl_out (dp_pool d))"
proof -
  have "tx_conn_of d i \<in> tx_conn_of d ` dom (dp_active_txs d)" using assms(2) by blast
  then show ?thesis using assms by (simp add: txs_ok_def tx_conn_of_def)
qed

lemma handler_conn_spec:
  assumes "txs_ok d"
  shows "\<exists>r d1. handler_conn a i d = Inr (r, d1) \<and>
    (case r of Inl x \<Rightarrow> txs_ok d1 \<and> dp_active_txs d1 = dp_active_txs d \<and> dp_sent d1 = dp_sent d
       | Inr c \<Rightarrow> if i \<noteq> 0 then d1 = d \<and> getConnection (an_now a) i d = Some c \<and> c \<in> set (pl_out (dp_pool d))
                  else (\<exists>p. d1 = d\<lparr>dp_pool := p\<rparr> \<and> quiet p \<and> pl_out p = c # pl_out (dp_pool d)))"
proof (cases "i = 0")
  case True
  obtain r p where p: "pool_acquire (an_connects a) (dp_pool d) = Inr (r, p)" "quiet p"
      "pl_out p = (case r of None \<Rightarrow> pl_out (dp_pool d) | Some c \<Rightarrow> c # pl_out (dp_pool d))"
    using pool_acquire_spec [of "dp_pool d" "an_connects a"] assms by (auto simp: txs_ok_def)
  show ?thesis
  proof (cases r)
    case None
    then have "txs_ok (d\<lparr>dp_pool := p\<rparr>)" using p by (intro txs_ok_same [OF assms]) simp_all
    then show ?thesis using True p None by (simp add: handler_conn_def)
  next
    case (Some c)
    then show ?thesis using True p by (auto simp: handler_conn_def)
  qed
next
  case False
  then show ?thesis
    using assms tx_conn_lent [OF assms, of i]
    by (auto simp: handler_conn_def getConnection_def split: option.splits)
qed

lemma statement_ok:
  assumes "txs_ok d"
  shows "\<exists>r d1. handler_statement a sql i ans d = Inr (r, d1) \<and> txs_ok d1 \<and> dp_active_txs d1 = dp_active_txs d"
proof -
  obtain r d1 where h: "handler_conn a i d = Inr (r, d1)"
    and c: "case r of Inl x \<Rightarrow> txs_ok d1 \<and> dp_active_txs d1 = dp_active_txs d \<and> dp_sent d1 = dp_sent d
       | Inr c \<Rightarrow> if i \<noteq> 0 then d1 = d \<and> getConnection (an_now a) i d = Some c \<and> c \<in> set (pl_out (dp_pool d))
                  else (\<exists>p. d1 = d\<lparr>dp_pool := p\<rparr> \<and> quiet p \<and> pl_out p = c # pl_out (dp_pool d))"
    using handler_conn_spec [OF assms] by blast
  show ?thesis
  proof (cases r)
    case (Inl x)
    then show ?thesis using h c by (simp add: handler_statement_def)
  next
    case (Inr conn)
    show ?thesis
    proof (cases "i = 0")
      case True
      then obtain p where p: "d1 = d\<lparr>dp_pool := p\<rparr>" "quiet p" "pl_out p = conn # pl_out (dp_pool d)"
        using c Inr by auto
      let ?d2 = "d1\<lparr>dp_sent := dp_sent d1 @ [(conn, sql)]\<rparr>"
      have k: "pl_conns p conn = Some \<lparr>mc_connected = True\<rparr>" using quiet_conn [OF p(2)] p(3) by simp
      obtain p' where p': "drop_conn conn ?d2 = Inr (?d2\<lparr>dp_pool := p'\<rparr>)" "quiet p'" "pl_out p' = pl_out (dp_pool d)"
        using drop_conn_spec [of ?d2 conn] p by auto
      have "txs_ok (?d2\<lparr>dp_pool := p'\<rparr>)"
        using p(1) p' by (intro txs_ok_same [OF assms]) simp_all
      then show ?thesis using True h Inr p(1) p'(1) k by (simp add: handler_statement_def on_conn_def)
    next
      case False
      then have d1: "d1 = d" "conn \<in> set (pl_out (dp_pool d))" using c Inr by auto
      then have k: "pl_conns (dp_pool d) conn = Some \<lparr>mc_connected = True\<rparr>"
        using quiet_conn assms by (simp add: txs_ok_def)
      have "txs_ok (d\<lparr>dp_sent := dp_sent d @ [(conn, sql)]\<rparr>)"
        using assms by (intro txs_ok_same [OF assms]) (simp_all add: txs_ok_def)
      then show ?thesis using False h Inr d1(1) k by (simp add: handler_statement_def on_conn_def)
    qed
  qed
qed

lemma removed_key:
  assumes "inj_on f A" "f ` A = S" "i \<in> A" "\<And>j. j \<noteq> i \<Longrightarrow> g j = f j"
  shows "inj_on g (A - {i})" "g ` (A - {i}) = S - {f i}"
proof -
  have g: "g ` (A - {i}) = f ` (A - {i})" using assms(4) by (auto simp: image_iff)
  show "inj_on g (A - {i})" using assms(1,4) by (auto simp: inj_on_def)
  show "g ` (A - {i}) = S - {f i}" unfolding g using assms(1-3) by (auto simp: inj_on_def)
qed

text \<open>A transaction leaves the map and its connection is dropped.\<close>

lemma drop_tx_ok:
  assumes "txs_ok d" "dp_active_txs d i = Some ctx"
  shows "\<exists>d1. drop_conn (tx_conn ctx) (d\<lparr>dp_active_txs := (dp_active_txs d)(i := None), dp_sent := xs\<rparr>) = Inr d1 \<and>
    txs_ok d1 \<and> dp_active_txs d1 = (dp_active_txs d)(i := None)"
proof -
  let ?c = "tx_conn ctx" and ?d1 = "d\<lparr>dp_active_txs := (dp_active_txs d)(i := None), dp_sent := xs\<rparr>"
  have c: "?c \<in> set (pl_out (dp_pool d))" by (rule tx_conn_lent [OF assms])
  have q: "quiet (dp_pool d)" using assms(1) by (simp add: txs_ok_def)
  obtain p' where p': "drop_conn ?c ?d1 = Inr (?d1\<lparr>dp_pool := p'\<rparr>)" "quiet p'"
      "pl_out p' = remove1 ?c (pl_out (dp_pool d))"
    using drop_conn_spec [of ?d1 ?c] q c by auto
  have other: "tx_conn_of (?d1\<lparr>dp_pool := p'\<rparr>) j = tx_conn_of d j" if "j \<noteq> i" for j
    using that by (simp add: tx_conn_of_def)
  have "tx_conn_of d i = ?c" using assms(2) by (simp add: tx_conn_of_def)
  moreover have "set (pl_out p') = set (pl_out (dp_pool d)) - {?c}"
    using p'(3) quiet_distinct [OF q] by simp
  moreover have inj: "inj_on (tx_conn_of d) (dom (dp_active_txs d))"
    "tx_conn_of d ` dom (dp_active_txs d) = set (pl_out (dp_pool d))" "i \<in> dom (dp_active_txs d)"
    using assms by (auto simp: txs_ok_def)
  ultimately have "inj_on (tx_conn_of (?d1\<lparr>dp_pool := p'\<rparr>)) (dom (dp_active_txs d) - {i})"
      "tx_conn_of (?d1\<lparr>dp_pool := p'\<rparr>) ` (dom (dp_active_txs d) - {i}) = set (pl_out p')"
    using removed_key [OF inj other] by simp_all
  then have "txs_ok (?d1\<lparr>dp_pool := p'\<rparr>)" using p'(2) by (simp add: txs_ok_def)
  then show ?thesis using p'(1) by auto
qed

lemma finalize_ok:
  assumes "txs_ok d"
  shows "\<exists>r d1. tx_finalize raw i commit d = Inr (r, d1) \<and> txs_ok d1 \<and>
    dp_active_txs d1 = (dp_active_txs d)(i := None)"
proof (cases "dp_active_txs d i")
  case None
  then have "(dp_active_txs d)(i := None) = dp_active_txs d" by auto
  then show ?thesis using None assms by (auto simp: tx_finalize_def)
next
  case (Some ctx)
  let ?xs = "dp_sent d @ [(tx_conn ctx, if commit then ''COMMIT'' else ''ROLLBACK'')]"
  have "pl_conns (dp_pool d) (tx_conn ctx) = Some \<lparr>mc_connected = True\<rparr>"
    using quiet_conn tx_conn_lent [OF assms Some] assms by (simp add: txs_ok_def)
  then show ?thesis using Some drop_tx_ok [OF assms Some, of ?xs] by (auto simp: tx_finalize_def on_conn_def)
qed

lemma added_key:
  assumes "inj_on f A" "f ` A = S" "i \<notin> A" "c \<notin> S" "g i = c" "\<And>j. j \<noteq> i \<Longrightarrow> g j = f j"
  shows "inj_on g (insert i A)" "g ` insert i A = insert c S"
proof -
  have eq: "g j = f j" if "j \<in> A" for j using that assms(3,6) by metis
  then have g: "g ` A = S" using assms(2) by (metis image_cong)
  show "g ` insert i A = insert c S" using g assms(5) by simp
  have "inj_on g A" using assms(1) eq by (simp add: inj_on_def)
  moreover have "g i \<notin> g ` (A - {i})" using g assms(4,5) by auto
  ultimately show "inj_on g (insert i A)" by (simp add: inj_on_insert)
qed

lemma begin_ok:
  assumes "txs_ok d" and t: "timeout = (if ms = 0 then dp_default_timeout_ms d else ms)"
  shows "(\<exists>r d1. tx_begin a ms d = Inr (r, d1) \<and> txs_ok d1) \<or>
    tx_begin a ms d = Inl Undefined \<and> deadline_after (an_now a) timeout = None"
proof -
  have quiet: "quiet (dp_pool d)" and inj: "inj_on (tx_conn_of d) (dom (dp_active_txs d))"
    "tx_conn_of d ` dom (dp_active_txs d) = set (pl_out (dp_pool d))"
    using assms(1) by (simp_all add: txs_ok_def)
  obtain r p where p: "pool_acquire (an_connects a) (dp_pool d) = Inr (r, p)" "quiet p"
      "pl_out p = (case r of None \<Rightarrow> pl_out (dp_pool d) | Some c \<Rightarrow> c # pl_out (dp_pool d))"
    using pool_acquire_spec [OF quiet, of "an_connects a"] by blast
  show ?thesis
  proof (cases r)
    case None
    have "txs_ok (d\<lparr>dp_pool := p\<rparr>)" by (intro txs_ok_same [OF assms(1)]) (use p None in simp_all)
    then show ?thesis using p(1) None by (simp add: tx_begin_def)
  next
    case (Some c)
    let ?d1 = "d\<lparr>dp_pool := p, dp_sent := dp_sent d @ [(c, ''START TRANSACTION'')]\<rparr>"
    have out: "pl_out p = c # pl_out (dp_pool d)" "c \<notin> set (pl_out (dp_pool d))"
      using p(3) Some quiet_distinct [OF p(2)] by simp_all
    have k: "pl_conns p c = Some \<lparr>mc_connected = True\<rparr>" using quiet_conn [OF p(2)] out(1) by simp
    have dropped: "\<exists>e. drop_conn c (?d1\<lparr>dp_tx_id_gen := g\<rparr>) = Inr e \<and> txs_ok e" for g
    proof -
      obtain p' where p': "drop_conn c (?d1\<lparr>dp_tx_id_gen := g\<rparr>) = Inr (?d1\<lparr>dp_tx_id_gen := g, dp_pool := p'\<rparr>)"
          "quiet p'" "pl_out p' = pl_out (dp_pool d)"
        using drop_conn_spec [of "?d1\<lparr>dp_tx_id_gen := g\<rparr>" c] p(2) out(1) by auto
      moreover have "txs_ok (?d1\<lparr>dp_tx_id_gen := g, dp_pool := p'\<rparr>)"
        by (intro txs_ok_same [OF assms(1)]) (use p' in simp_all)
      ultimately show ?thesis by blast
    qed
    let ?i = "dp_tx_id_gen d"
    let ?d2 = "?d1\<lparr>dp_tx_id_gen := uadd 64 ?i 1\<rparr>"
    have begun: "tx_begin a ms d =
        (case execRaw (an_raw a) '''' of
           (False, e) \<Rightarrow> map_sum id (\<lambda>d2. ((0, e), d2)) (drop_conn c ?d1)
         | (True, e) \<Rightarrow>
             (case deadline_after (an_now a) timeout of
                None \<Rightarrow> Inl Undefined
              | Some deadline \<Rightarrow>
                  (case dp_active_txs d ?i of
                     Some ctx \<Rightarrow> map_sum id (\<lambda>d3. ((?i, e), d3)) (drop_conn c ?d2)
                   | None \<Rightarrow> Inr ((?i, e), ?d2\<lparr>dp_active_txs := (dp_active_txs d)(?i \<mapsto>
                              \<lparr>tx_conn = c, tx_deadline = deadline\<rparr>)\<rparr>))))"
      unfolding tx_begin_def using p(1) Some k t
      by (simp add: on_conn_def Let_def cong: option.case_cong prod.case_cong bool.case_cong)
    have entered: "txs_ok (?d2\<lparr>dp_active_txs := (dp_active_txs d)(?i \<mapsto> \<lparr>tx_conn = c, tx_deadline = t'\<rparr>)\<rparr>)"
      if "dp_active_txs d ?i = None" for t'
    proof -
      let ?e = "?d2\<lparr>dp_active_txs := (dp_active_txs d)(?i \<mapsto> \<lparr>tx_conn = c, tx_deadline = t'\<rparr>)\<rparr>"
      have "?i \<notin> dom (dp_active_txs d)" using that by (simp add: domIff)
      moreover have "tx_conn_of ?e ?i = c" "\<And>j. j \<noteq> ?i \<Longrightarrow> tx_conn_of ?e j = tx_conn_of d j"
        by (simp_all add: tx_conn_of_def)
      ultimately have "inj_on (tx_conn_of ?e) (insert ?i (dom (dp_active_txs d)))"
        "tx_conn_of ?e ` insert ?i (dom (dp_active_txs d)) = insert c (set (pl_out (dp_pool d)))"
        using added_key [OF inj, of ?i c "tx_conn_of ?e"] out(2) by blast+
      then show ?thesis using p(2) out(1) by (simp add: txs_ok_def)
    qed
    obtain e1 where e1: "drop_conn c ?d1 = Inr e1" "txs_ok e1" using dropped [of "dp_tx_id_gen d"] by auto
    obtain e2 where e2: "drop_conn c ?d2 = Inr e2" "txs_ok e2" using dropped [of "uadd 64 ?i 1"] by auto
    show ?thesis
    proof (cases "an_raw a")
      case None
      then show ?thesis
        using e2 entered
        by (cases "deadline_after (an_now a) timeout"; cases "dp_active_txs d ?i") (simp_all add: begun execRaw_def)
    qed (use e1 in \<open>simp add: begun execRaw_def\<close>)
  qed
qed

lemma rollback_each_ok:
  assumes "txs_ok d"
  shows "\<exists>d1. rollback_each raw ids d = Inr d1 \<and> txs_ok d1 \<and>
    dp_active_txs d1 = (\<lambda>i. if i \<in> set ids then None else dp_active_txs d i)"
  using assms
proof (induction ids arbitrary: d)
  case (Cons i ids)
  obtain r d1 where d1: "tx_rollback (raw i) i d = Inr (r, d1)" "txs_ok d1"
      "dp_active_txs d1 = (dp_active_txs d)(i := None)"
    using finalize_ok [OF Cons.prems, of "raw i" i False] by (auto simp: tx_rollback_def)
  then show ?case using Cons.IH [OF d1(2)] by (auto simp: fun_eq_iff)
qed (simp add: fun_eq_iff)

lemma health_loop_ok:
  assumes "pool_ok p" "length bs = length (pl_to_check p)"
  shows "\<exists>q. health_loop bs p = Inr q \<and> pool_ok q \<and> pl_to_check q = [] \<and> pl_out q = pl_out p \<and>
    pl_creating q = pl_creating p"
  using assms
proof (induction bs arbitrary: p)
  case (Cons b bs)
  obtain b1 b2 where b: "b = (b1, b2)" by force
  obtain c cs where cs: "pl_to_check p = c # cs" using Cons.prems(2) by (cases "pl_to_check p") auto
  obtain k where "pool_bound k p" using some_bound by blast
  then obtain q where q: "health_one b1 b2 p = Inr q" "pool_ok q" using health_one_ok [OF Cons.prems(1) _ cs] by blast
  then have "pl_to_check q = cs" "pl_out q = pl_out p" "pl_creating q = pl_creating p"
    using cs by (auto simp: health_one_def delete_conn_def Let_def split: option.splits prod.splits bool.splits if_splits)
  then show ?case using Cons.IH [OF q(2)] Cons.prems(2) cs q(1) b by auto
qed simp

lemma healthCheck_ok:
  assumes "quiet p"
  shows "\<exists>q. healthCheck answers p = Inr q \<and> quiet q \<and> pl_out q = pl_out p"
proof -
  let ?p1 = "health_begin p"
  have "pool_ok ?p1" using assms by (simp add: health_begin_def quiet_def pool_ok_def)
  then obtain q where q: "health_loop (map answers (pl_to_check ?p1)) ?p1 = Inr q" "pool_ok q"
      "pl_to_check q = []" "pl_out q = pl_out p" "pl_creating q = 0"
    using health_loop_ok [of ?p1 "map answers (pl_to_check ?p1)"] assms by (auto simp: quiet_def health_begin_def)
  then have "quiet (health_end q)" by (simp add: health_end_def quiet_def pool_ok_def)
  then show ?thesis using q by (simp add: healthCheck_def) (simp add: health_end_def)
qed

lemma query_ok:
  assumes "txs_ok d"
  shows "\<exists>r d1. onDBQuery a req d = Inr (r, d1) \<and> txs_ok d1 \<and> dp_active_txs d1 = dp_active_txs d"
  unfolding onDBQuery_def by (rule statement_ok [OF assms])

lemma exec_ok:
  assumes "txs_ok d"
  shows "\<exists>r d1. onDBExec a req d = Inr (r, d1) \<and> txs_ok d1 \<and> dp_active_txs d1 = dp_active_txs d"
  unfolding onDBExec_def by (rule statement_ok [OF assms])

text \<open>The time-out a request asks for, or the configured one.\<close>

definition asked_timeout :: "nat \<Rightarrow> db_proxy \<Rightarrow> nat" where
  "asked_timeout ms d = (if ms = 0 then dp_default_timeout_ms d else ms)"

lemma db_step_ok:
  assumes "txs_ok d"
  shows "(\<exists>d'. db_step a x d = Inr d' \<and> txs_ok d') \<or>
    db_step a x d = Inl Undefined \<and> (\<exists>ms. x = DbBegin ms \<and> deadline_after (an_now a) (asked_timeout ms d) = None)"
proof (cases x)
  case (DbBegin ms)
  then show ?thesis
    using begin_ok [OF assms refl, of a ms]
    by (auto simp: db_step_def onDBTxBegin_def asked_timeout_def split_beta)
next
  case (DbQuery sql i)
  then show ?thesis using query_ok [OF assms, of a "(sql, i)"] by (auto simp: db_step_def)
next
  case (DbExec sql i)
  then show ?thesis using exec_ok [OF assms, of a "(sql, i)"] by (auto simp: db_step_def)
next
  case (DbCommit i)
  then show ?thesis using finalize_ok [OF assms, of "an_raw a" i True]
    by (auto simp: db_step_def onDBTxCommit_def tx_commit_def split_beta)
next
  case (DbRollback i)
  then show ?thesis using finalize_ok [OF assms, of "an_raw a" i False]
    by (auto simp: db_step_def onDBTxRollback_def tx_rollback_def split_beta)
next
  case (DbTimeouts order raw)
  then show ?thesis using rollback_each_ok [OF assms] by (fastforce simp: db_step_def checkTimeouts_def)
next
  case (DbHealth answers)
  obtain q where q: "healthCheck answers (dp_pool d) = Inr q" "quiet q" "pl_out q = pl_out (dp_pool d)"
    using healthCheck_ok [of "dp_pool d" answers] assms by (auto simp: txs_ok_def)
  have "txs_ok (d\<lparr>dp_pool := q\<rparr>)" by (intro txs_ok_same [OF assms]) (use q in simp_all)
  then show ?thesis using DbHealth q(1) by (simp add: db_step_def)
qed

lemma ctor_quiet: "quiet (MySQLConnectionPool_ctor connects m) \<and> pl_out (MySQLConnectionPool_ctor connects m) = []"
proof -
  have "pl_out (pool_fill connects p) = pl_out p \<and> pl_to_check (pool_fill connects p) = pl_to_check p \<and>
      pl_healthy (pool_fill connects p) = pl_healthy p" for p
    by (induction connects arbitrary: p) (auto simp: createOne_cases)
  then show ?thesis using ctor_ok [of connects m] by (simp add: quiet_def MySQLConnectionPool_ctor_def)
qed

lemma db_reachable_ok:
  assumes "db_reachable (MySQLConnectionPool_ctor connects m) ms d"
  shows "txs_ok d"
  using assms
proof induction
  case started
  then show ?case using ctor_quiet by (simp add: txs_ok_def TransactionManager_ctor_def)
next
  case (handled d a x d')
  then show ?case using db_step_ok [of d a x] by auto
qed

text \<open>
  C25: Between two messages the connections lent by the pool are exactly those of the active transactions,
  one for each, whatever the database answers; no message is undefined but a begin whose deadline
  overflows the clock.
\<close>

theorem lent_connections_are_transactions:
  assumes "db_reachable (MySQLConnectionPool_ctor connects m) ms d"
  shows "inj_on (tx_conn_of d) (dom (dp_active_txs d)) \<and>
    tx_conn_of d ` dom (dp_active_txs d) = set (pl_out (dp_pool d)) \<and>
    set (pl_out (dp_pool d)) \<inter> set (pl_idle (dp_pool d)) = {} \<and>
    activeCount (dp_pool d) = int (card (dom (dp_active_txs d))) \<and>
    (db_step a x d = Inl f \<longrightarrow>
       (\<exists>t. x = DbBegin t \<and> deadline_after (an_now a) (asked_timeout t d) = None))"
proof -
  have ok: "txs_ok d" by (rule db_reachable_ok [OF assms])
  then have q: "quiet (dp_pool d)" and inj: "inj_on (tx_conn_of d) (dom (dp_active_txs d))"
    and im: "tx_conn_of d ` dom (dp_active_txs d) = set (pl_out (dp_pool d))" by (simp_all add: txs_ok_def)
  have p: "pool_ok (dp_pool d)" using q by (simp add: quiet_def)
  have "card (dom (dp_active_txs d)) = length (pl_out (dp_pool d))"
    using card_image [OF inj] im distinct_card [OF quiet_distinct [OF q]] by simp
  then have "activeCount (dp_pool d) = int (card (dom (dp_active_txs d)))"
    using p by (simp add: activeCount_def pool_ok_def)
  moreover have "set (pl_out (dp_pool d)) \<inter> set (pl_idle (dp_pool d)) = {}"
    using pool_ok_parts(1) [OF p] by auto
  ultimately show ?thesis using inj im db_step_ok [OF ok, of a x] by auto
qed

definition demo_answers :: db_answers where
  "demo_answers = \<lparr>an_now = 1000, an_connects = True, an_raw = None,
     an_query = ResultSet \<lparr>mr_fields = [(''id'', 8), (''name'', 253)], mr_rows = [[Some ''7'', None]]\<rparr>,
     an_exec = Inr (1, 0)\<rparr>"

text \<open>A proxy with two connections, after two transactions have begun.\<close>

definition demo_proxy :: db_proxy where
  "demo_proxy = TransactionManager_ctor (MySQLConnectionPool_ctor [True, True] 2) 30000"

definition demo_begun :: db_proxy where
  "demo_begun = (let b = (\<lambda>d. case db_step demo_answers (DbBegin 50) d of Inr e \<Rightarrow> e | Inl f \<Rightarrow> d) in b (b demo_proxy))"

lemma demo_proxy_eq:
  "demo_proxy = \<lparr>dp_pool = \<lparr>pl_idle = [0, 1], pl_all = [0, 1], pl_active_count = 0, pl_creating = 0, pl_shutdown = False,
      pl_max_pool_size = 2, pl_conns = Map.empty(0 \<mapsto> \<lparr>mc_connected = True\<rparr>, 1 \<mapsto> \<lparr>mc_connected = True\<rparr>),
      pl_fresh = 2, pl_out = [], pl_to_check = [], pl_healthy = [], pl_waiting = 0, pl_woken = 0\<rparr>,
    dp_active_txs = Map.empty, dp_tx_id_gen = 1, dp_default_timeout_ms = 30000, dp_sent = []\<rparr>"
  by (simp add: demo_proxy_def TransactionManager_ctor_def MySQLConnectionPool_ctor_def createOne_cases numeral_2_eq_2)

lemma demo_deadline: "deadline_after 1000 50 = Some 50001000"
  by (simp add: deadline_after_def s64_def in_s64_def)

lemmas demo_step = db_step_def onDBTxBegin_def tx_begin_def pool_acquire_def acquire_locked_def acquire_end_def
  on_conn_def execRaw_def demo_answers_def demo_deadline uadd_def

lemma demo_begun_eq:
  "demo_begun = \<lparr>dp_pool = \<lparr>pl_idle = [], pl_all = [0, 1], pl_active_count = 2, pl_creating = 0, pl_shutdown = False,
      pl_max_pool_size = 2, pl_conns = Map.empty(0 \<mapsto> \<lparr>mc_connected = True\<rparr>, 1 \<mapsto> \<lparr>mc_connected = True\<rparr>),
      pl_fresh = 2, pl_out = [1, 0], pl_to_check = [], pl_healthy = [], pl_waiting = 0, pl_woken = 0\<rparr>,
    dp_active_txs = Map.empty(1 \<mapsto> \<lparr>tx_conn = 0, tx_deadline = 50001000\<rparr>, 2 \<mapsto> \<lparr>tx_conn = 1, tx_deadline = 50001000\<rparr>),
    dp_tx_id_gen = 3, dp_default_timeout_ms = 30000,
    dp_sent = [(0, ''START TRANSACTION''), (1, ''START TRANSACTION'')]\<rparr>"
  by (simp add: demo_begun_def demo_proxy_eq demo_step) (simp add: numeral_2_eq_2)

lemma demo_begun_reachable: "db_reachable (MySQLConnectionPool_ctor [True, True] 2) 30000 demo_begun"
proof -
  let ?b = "\<lambda>d. case db_step demo_answers (DbBegin 50) d of Inr e \<Rightarrow> e | Inl f \<Rightarrow> d"
  have b: "db_reachable p t d \<Longrightarrow> db_reachable p t (?b d)" for p t d
    by (auto split: sum.split intro: db_reachable.handled)
  show ?thesis unfolding demo_begun_def demo_proxy_def Let_def by (intro b db_reachable.started)
qed

theorem lent_connections_are_transactions_witness:
  "\<exists>d. dom (dp_active_txs d) = {1, 2} \<and> set (pl_out (dp_pool d)) = {0, 1} \<and> inj_on (tx_conn_of d) {1, 2} \<and>
     activeCount (dp_pool d) = 2"
  using lent_connections_are_transactions [OF demo_begun_reachable, of demo_answers "DbCommit 1" Undefined]
  by (intro exI [of _ demo_begun]) (auto simp: demo_begun_eq)

section \<open>Replies\<close>

text \<open>What a cell of the result set is in the reply.\<close>

definition db_cell :: "string option \<Rightarrow> db_value" where
  "db_cell x = (case x of None \<Rightarrow> NullVal | Some s \<Rightarrow> StrVal s)"

lemma fill_row_cells:
  assumes "length row = n"
  shows "fill_row (row_data n row) (null_data n row) = map db_cell row"
  using assms by (intro nth_equalityI) (auto simp: fill_row_def row_data_def null_data_def db_cell_def split: option.split)

lemma query_cells:
  assumes "\<forall>row \<in> set (mr_rows res). length row = length (mr_fields res)"
    "MySQLConnection_query (ResultSet res) \<lparr>mc_connected = True\<rparr> = Inr q"
  shows "fill_columns q = map (\<lambda>(n, t). (n, bytes_str (to_string (int t)))) (mr_fields res)"
    and "fill_rows q = map (map db_cell) (mr_rows res)"
proof -
  let ?n = "length (mr_fields res)"
  have q: "qr_column_names q = map fst (mr_fields res)"
    "qr_column_types q = map (\<lambda>f. bytes_str (to_string (int (snd f)))) (mr_fields res)"
    "qr_rows q = map (row_data ?n) (mr_rows res)" "qr_null_flags q = map (null_data ?n) (mr_rows res)"
    using assms(2) by (auto simp: MySQLConnection_query_def Let_def)
  show "fill_columns q = map (\<lambda>(n, t). (n, bytes_str (to_string (int t)))) (mr_fields res)"
    by (intro nth_equalityI) (auto simp: fill_columns_def q split_beta)
  show "fill_rows q = map (map db_cell) (mr_rows res)"
    by (intro nth_equalityI) (auto simp: fill_rows_def q fill_row_cells assms(1) [rule_format, OF nth_mem])
qed

text \<open>
  A query with a transaction id runs on that transaction's connection and on no other, and its reply
  is the result set cell by cell, nulls marked; when the id is unknown or its time is over, the reply says
  so and nothing is sent to the database.
\<close>

theorem query_in_transaction:
  assumes "db_reachable (MySQLConnectionPool_ctor connects m) ms d" "i \<noteq> 0"
    and "an_query a = ResultSet res" "\<forall>row \<in> set (mr_rows res). length row = length (mr_fields res)"
  shows "onDBQuery a (sql, i) d =
    (case getConnection (an_now a) i d of
       None \<Rightarrow> Inr (error_response Error_db_tx_not_found
         (''transaction not found or expired: tx_id='' @ bytes_str (to_string (int i))), d)
     | Some c \<Rightarrow> Inr (new_response\<lparr>rs_columns := map (\<lambda>(n, t). (n, bytes_str (to_string (int t)))) (mr_fields res),
                                   rs_rows := map (map db_cell) (mr_rows res)\<rparr>,
                      d\<lparr>dp_sent := dp_sent d @ [(c, sql)]\<rparr>))"
proof (cases "getConnection (an_now a) i d")
  case None
  then show ?thesis using assms(2) by (simp add: onDBQuery_def handler_statement_def handler_conn_def)
next
  case (Some c)
  have ok: "txs_ok d" by (rule db_reachable_ok [OF assms(1)])
  have "c \<in> set (pl_out (dp_pool d))"
    using Some tx_conn_lent [OF ok, of i] by (auto simp: getConnection_def split: option.splits if_splits)
  then have k: "pl_conns (dp_pool d) c = Some \<lparr>mc_connected = True\<rparr>" using ok quiet_conn by (simp add: txs_ok_def)
  obtain q where q: "MySQLConnection_query (ResultSet res) \<lparr>mc_connected = True\<rparr> = Inr q"
    by (simp add: MySQLConnection_query_def Let_def)
  show ?thesis using Some assms(2,3) k q query_cells [OF assms(4) q]
    by (simp add: onDBQuery_def handler_statement_def handler_conn_def on_conn_def)
qed

theorem query_in_transaction_witness:
  "\<exists>r d1. onDBQuery demo_answers (''SELECT * FROM t'', 2) demo_begun = Inr (r, d1) \<and>
     rs_rows r = [[StrVal ''7'', NullVal]] \<and> last (dp_sent d1) = (1, ''SELECT * FROM t'')"
  using query_in_transaction [OF demo_begun_reachable, of 2 demo_answers
      "\<lparr>mr_fields = [(''id'', 8), (''name'', 253)], mr_rows = [[Some ''7'', None]]\<rparr>" "''SELECT * FROM t''"]
  by (simp add: getConnection_def demo_begun_eq demo_answers_def db_cell_def)

text \<open>
  When the database refuses a commit, the transaction is forgotten and its connection is idle again
  in the pool with the COMMIT as the last statement sent: nothing rolls it back, and the next borrower's
  statements run inside it.
\<close>

theorem failed_commit_pools_open_transaction:
  assumes "db_reachable (MySQLConnectionPool_ctor connects m) ms d"
    and "dp_active_txs d i = Some ctx" "an_raw a = Some e"
  shows "\<exists>d1. onDBTxCommit a i d = Inr (error_response Error_db_exec_failed e, d1) \<and>
    dp_active_txs d1 i = None \<and> tx_conn ctx \<in> set (pl_idle (dp_pool d1)) \<and>
    dp_sent d1 = dp_sent d @ [(tx_conn ctx, ''COMMIT'')]"
proof -
  have ok: "txs_ok d" by (rule db_reachable_ok [OF assms(1)])
  let ?c = "tx_conn ctx"
  let ?d1 = "d\<lparr>dp_active_txs := (dp_active_txs d)(i := None), dp_sent := dp_sent d @ [(?c, ''COMMIT'')]\<rparr>"
  have q: "quiet (dp_pool d)" "?c \<in> set (pl_out (dp_pool d))"
    using ok tx_conn_lent [OF ok assms(2)] by (simp_all add: txs_ok_def)
  then obtain p' where p': "drop_conn ?c ?d1 = Inr (?d1\<lparr>dp_pool := p'\<rparr>)" "?c \<in> set (pl_idle p')"
    using drop_conn_spec [of ?d1 ?c] by auto
  then show ?thesis using assms(2,3) quiet_conn [OF q]
    by (simp add: onDBTxCommit_def tx_commit_def tx_finalize_def on_conn_def execRaw_def)
qed

theorem failed_commit_pools_open_transaction_witness:
  "\<exists>d1. onDBTxCommit (demo_answers\<lparr>an_raw := Some ''gone''\<rparr>) 1 demo_begun =
       Inr (error_response Error_db_exec_failed ''gone'', d1) \<and> 0 \<in> set (pl_idle (dp_pool d1))"
  using failed_commit_pools_open_transaction [OF demo_begun_reachable, of 1
      "\<lparr>tx_conn = 0, tx_deadline = 50001000\<rparr>" "demo_answers\<lparr>an_raw := Some ''gone''\<rparr>" "''gone''"]
  by (auto simp: demo_begun_eq)

text \<open>
  The check of the time-outs ends exactly the transactions whose deadline has passed, in whatever order
  the map is visited, and gives their connections back.
\<close>

theorem timeouts_end_exactly_expired:
  assumes "db_reachable (MySQLConnectionPool_ctor connects m) ms d" "dom (dp_active_txs d) \<subseteq> set order"
  shows "\<exists>d1. checkTimeouts now order raw d = Inr d1 \<and>
    dp_active_txs d1 = (\<lambda>i. if expired now d i then None else dp_active_txs d i) \<and>
    set (pl_out (dp_pool d1)) = tx_conn_of d ` {i \<in> dom (dp_active_txs d). \<not> expired now d i}"
proof -
  obtain d1 where d1: "checkTimeouts now order raw d = Inr d1" "txs_ok d1"
      "dp_active_txs d1 = (\<lambda>i. if i \<in> set (filter (expired now d) order) then None else dp_active_txs d i)"
    using rollback_each_ok [OF db_reachable_ok [OF assms(1)]] unfolding checkTimeouts_def by blast
  have "i \<in> set order" if "expired now d i" for i
    using that assms(2) by (auto simp: expired_def split: option.splits)
  then have a: "dp_active_txs d1 = (\<lambda>i. if expired now d i then None else dp_active_txs d i)"
    unfolding d1(3) by (auto simp: fun_eq_iff)
  then have "dom (dp_active_txs d1) = {i \<in> dom (dp_active_txs d). \<not> expired now d i}"
    by (auto split: if_splits)
  moreover have "tx_conn_of d1 i = tx_conn_of d i" if "\<not> expired now d i" for i
    using that a by (simp add: tx_conn_of_def)
  ultimately have "tx_conn_of d1 ` dom (dp_active_txs d1) = tx_conn_of d ` {i \<in> dom (dp_active_txs d). \<not> expired now d i}"
    by (intro image_cong) auto
  then show ?thesis using d1(1,2) a by (simp add: txs_ok_def)
qed

end
