(* ===== verification/DbProxy.thy ===== *)
theory DbProxy
  imports Transactions Bus
begin

text \<open>
  The database proxy as a service (server/dbproxy/DBProxyHandler.cpp, DBProxyService.h): its handlers with
  the parsing and the reply around them, their registration, and the application's life cycle over the bus
  client of \<open>Bus\<close>. Parsing and serialising are generated code: the parsed request (\<open>None\<close> when it does not
  parse) and the function from a response to its message are arguments.
\<close>

section \<open>Messages\<close>

text \<open>The template of the five handlers: parse, run the body, reply; the reply's success is not looked at.\<close>

definition ss_process ::
  "bus_env \<Rightarrow> (db_response \<Rightarrow> pb_message) \<Rightarrow> app_msg \<Rightarrow> 'req option \<Rightarrow>
     ('req \<Rightarrow> db_proxy \<Rightarrow> fault + db_response \<times> db_proxy) \<Rightarrow> db_proxy \<times> bus_client \<Rightarrow> fault + db_proxy \<times> bus_client" where
  "ss_process env encode msg parsed body st =
     (case parsed of
        None \<Rightarrow> Inr st
      | Some req \<Rightarrow>
          (case body req (fst st) of
             Inl f \<Rightarrow> Inl f
           | Inr (rsp, d) \<Rightarrow> map_sum id (\<lambda>(ok, bc). (d, bc)) (BusClient_Reply env msg (encode rsp) (snd st))))"

datatype db_request =
    QueryReq "(string \<times> nat) option" | ExecReq "(string \<times> nat) option" | BeginReq "nat option"
  | CommitReq "nat option" | RollbackReq "nat option"

definition db_handle ::
  "bus_env \<Rightarrow> (db_response \<Rightarrow> pb_message) \<Rightarrow> db_answers \<Rightarrow> app_msg \<Rightarrow> db_request \<Rightarrow> db_proxy \<times> bus_client \<Rightarrow>
     fault + db_proxy \<times> bus_client" where
  "db_handle env encode a msg req st =
     (case req of
        QueryReq r \<Rightarrow> ss_process env encode msg r (onDBQuery a) st
      | ExecReq r \<Rightarrow> ss_process env encode msg r (onDBExec a) st
      | BeginReq r \<Rightarrow> ss_process env encode msg r (onDBTxBegin a) st
      | CommitReq r \<Rightarrow> ss_process env encode msg r (onDBTxCommit a) st
      | RollbackReq r \<Rightarrow> ss_process env encode msg r (onDBTxRollback a) st)"

section \<open>The application\<close>

text \<open>The ids of the five messages with the number of their handler.\<close>

definition db_handlers :: "(nat \<times> nat) list" where
  "db_handlers = [(5, 0), (7, 1), (9, 2), (11, 3), (13, 4)]"

definition registerHandlers :: "bus_client \<Rightarrow> fault + bus_client" where
  "registerHandlers bc = regist_each db_handlers bc"

text \<open>
  \<open>connects\<close> holds the server's answer for each of the \<open>db_pool_size\<close> connections; the time-out is an
  \<open>int\<close> that is cast to \<open>uint64_t\<close>.
\<close>

definition DBProxyApp_onInit ::
  "bus_env \<Rightarrow> bool list \<Rightarrow> int \<Rightarrow> int \<Rightarrow> bus_client \<Rightarrow> fault + bool \<times> pool \<times> db_proxy option \<times> bus_client" where
  "DBProxyApp_onInit env connects max_pool_size tx_timeout_ms bc =
     (let p = MySQLConnectionPool_ctor connects max_pool_size
      in if idleCount p = 0 then Inr (False, p, None, bc)
         else (let d = TransactionManager_ctor p (nat (tx_timeout_ms mod 2 ^ 64))
               in case registerHandlers bc of
                    Inl f \<Rightarrow> Inl f
                  | Inr bc1 \<Rightarrow>
                      (case BusClient_Start env bc1 of
                         Inl f \<Rightarrow> Inl f
                       | Inr (ok, bc2) \<Rightarrow> Inr (ok, p, Some d, bc2))))"

definition DBProxyApp_onTick ::
  "int \<Rightarrow> nat list \<Rightarrow> (nat \<Rightarrow> string option) \<Rightarrow> (nat \<Rightarrow> bool \<times> bool) \<Rightarrow> nat \<times> db_proxy \<Rightarrow> fault + nat \<times> db_proxy" where
  "DBProxyApp_onTick now order raw answers st =
     (let tick_counter = uadd 32 (fst st) 1; d = snd st
      in case (if tick_counter mod 30 = 0 then map_sum id (\<lambda>p. d\<lparr>dp_pool := p\<rparr>) (healthCheck answers (dp_pool d))
               else Inr d) of
           Inl f \<Rightarrow> Inl f
         | Inr d1 \<Rightarrow> map_sum id (Pair tick_counter) (checkTimeouts now order raw d1))"

text \<open>
  \<open>onCleanup\<close>: destroying the transaction manager drops the connections of its transactions, in the
  order of the map; then the pool is shut down.
\<close>

fun drop_txs :: "nat list \<Rightarrow> db_proxy \<Rightarrow> fault + db_proxy" where
  "drop_txs [] d = Inr d"
| "drop_txs (i # ids) d =
     (case dp_active_txs d i of
        None \<Rightarrow> drop_txs ids d
      | Some ctx \<Rightarrow>
          (case drop_conn (tx_conn ctx) (d\<lparr>dp_active_txs := (dp_active_txs d)(i := None)\<rparr>) of
             Inl f \<Rightarrow> Inl f
           | Inr d1 \<Rightarrow> drop_txs ids d1))"

definition DBProxyApp_onCleanup :: "nat list \<Rightarrow> db_proxy \<Rightarrow> fault + pool" where
  "DBProxyApp_onCleanup order d = (case drop_txs order d of Inl f \<Rightarrow> Inl f | Inr d1 \<Rightarrow> pool_shutdown (dp_pool d1))"

section \<open>The service cannot start\<close>

text \<open>
  C26: The handlers are registered before the bus is started, through a dispatcher that only \<open>Start\<close>
  creates: with any database connection at all, initialising the proxy is undefined, and without one it
  refuses to start. So no configuration starts it.
\<close>

theorem dbproxy_never_starts:
  "DBProxyApp_onInit env connects max_pool_size tx_timeout_ms (BusClient_ctor opts rings s) =
     (if True \<in> set connects then Inl Undefined
      else Inr (False, MySQLConnectionPool_ctor connects max_pool_size, None, BusClient_ctor opts rings s))"
proof -
  have l: "length (pl_idle (pool_fill connects p)) = length (pl_idle p) + length (filter id connects)" for p
    by (induction connects arbitrary: p) (auto simp: createOne_cases)
  have "idleCount (MySQLConnectionPool_ctor connects max_pool_size) = length (filter id connects)"
    by (simp add: idleCount_def MySQLConnectionPool_ctor_def l)
  moreover have "filter id connects = [] \<longleftrightarrow> True \<notin> set connects" by (auto simp: filter_empty_conv)
  moreover have "registerHandlers (BusClient_ctor opts rings s) = Inl Undefined"
    by (simp add: registerHandlers_def db_handlers_def RegistMessage_def BusClient_ctor_def)
  ultimately show ?thesis by (simp add: DBProxyApp_onInit_def)
qed

text \<open>
  Cleaning up between two messages is defined in every reachable state, and afterwards no connection
  of the pool is left open.
\<close>

theorem cleanup_closes_everything:
  assumes "db_reachable (MySQLConnectionPool_ctor connects m) ms d" "dom (dp_active_txs d) \<subseteq> set order"
  shows "\<exists>p. DBProxyApp_onCleanup order d = Inr p \<and> pl_conns p = Map.empty \<and> pl_out p = [] \<and> pl_all p = []"
proof -
  have drops: "\<exists>d1. drop_txs ids d = Inr d1 \<and> txs_ok d1 \<and>
      dp_active_txs d1 = (\<lambda>i. if i \<in> set ids then None else dp_active_txs d i)" if "txs_ok d" for ids d
    using that
  proof (induction ids arbitrary: d)
    case (Cons i ids)
    show ?case
    proof (cases "dp_active_txs d i")
      case None
      then show ?thesis using Cons.IH [OF Cons.prems] by (auto simp: fun_eq_iff)
    next
      case (Some ctx)
      then obtain d1 where "drop_conn (tx_conn ctx) (d\<lparr>dp_active_txs := (dp_active_txs d)(i := None)\<rparr>) = Inr d1"
          "txs_ok d1" "dp_active_txs d1 = (dp_active_txs d)(i := None)"
        using drop_tx_ok [OF Cons.prems Some, of "dp_sent d"] by auto
      then show ?thesis using Some Cons.IH [of d1] by (auto simp: fun_eq_iff)
    qed
  qed (simp add: fun_eq_iff)
  obtain d1 where d1: "drop_txs order d = Inr d1" "txs_ok d1"
      "dp_active_txs d1 = (\<lambda>i. if i \<in> set order then None else dp_active_txs d i)"
    using drops [OF db_reachable_ok [OF assms(1)]] by blast
  have "dp_active_txs d1 = Map.empty" using assms(2) unfolding d1(3) by (auto simp: fun_eq_iff)
  then have out: "pl_out (dp_pool d1) = []" and ok: "pool_ok (dp_pool d1)"
    using d1(2) by (auto simp: txs_ok_def quiet_def)
  then show ?thesis using d1(1) pool_shutdown_spec [OF ok] by (simp add: DBProxyApp_onCleanup_def)
qed

theorem cleanup_closes_everything_witness:
  "\<exists>p. DBProxyApp_onCleanup [2, 1] demo_begun = Inr p \<and> pl_conns p = Map.empty \<and> pl_all p = []"
proof -
  have "dom (dp_active_txs demo_begun) \<subseteq> set [2, 1]" by (simp add: demo_begun_eq)
  from cleanup_closes_everything [OF demo_begun_reachable this] show ?thesis by blast
qed

end
