(* ===== verification/Logic.thy ===== *)
theory Logic
  imports DbProxy
begin

text \<open>
  The logic service (server/logic): the frame of a handler (ILogic.h), the five handlers of client messages
  (Heart/HeartHandler.cpp, Chat/ChatHandler.cpp, Login/LoginHandler.cpp), their registration
  (ModuleManager.cpp) and the start of the service (LogicService.h). Parsing and serialising are generated
  code: the parsed request (\<^term>\<open>None\<close> when it does not parse) and the message of a response are arguments.
\<close>

section \<open>Messages\<close>

record send_request =
  sr_msg :: "8 word list"
  sr_emojiId :: int
  sr_channel :: int
  sr_chatId :: int

record req_message =
  rq_msg_id :: int
  rq_after_count :: int
  rq_channel :: int

record chat_message =
  cm_player_id :: int
  cm_msg :: "8 word list"
  cm_emoji_id :: int
  cm_channel_id :: int
  cm_chat_id :: int
  cm_timestamp :: int
  cm_msg_id :: int

datatype error_code = Success | WrongMsg | MsgTooLong | NoChannel | BadArgument

definition error_number :: "error_code \<Rightarrow> nat" where
  "error_number e = (case e of Success \<Rightarrow> 1 | BadArgument \<Rightarrow> 3 | NoChannel \<Rightarrow> 131 | MsgTooLong \<Rightarrow> 132 | WrongMsg \<Rightarrow> 133)"

datatype logic_response =
    HeartRsp error_code int | LoginRsp error_code | SendRsp error_code | ReqRsp error_code | ChatInfoRsp error_code int int

datatype logic_request =
    Heart "unit option" | LoginGame "unit option" | SendMessage "send_request option" | ReqMessage "req_message option"
  | ReqChatInfo "unit option"

text \<open>The type names of the messages the responses are sent in.\<close>

definition response_type :: "logic_response \<Rightarrow> string" where
  "response_type r =
     (case r of HeartRsp _ _ \<Rightarrow> ''cs.Heart'' | LoginRsp _ \<Rightarrow> ''cs.PlayerLoginGame'' | SendRsp _ \<Rightarrow> ''cs.PlayerSendMessage''
      | ReqRsp _ \<Rightarrow> ''cs.PlayerReqMessage'' | ChatInfoRsp _ _ _ \<Rightarrow> ''cs.PlayerReqChatInfo'')"

section \<open>The handlers\<close>

definition kMaxChatMsgLen :: nat where "kMaxChatMsgLen = 512"
definition kMinChannelId :: int where "kMinChannelId = 0"
definition kMaxChannelId :: int where "kMaxChannelId = 3"

definition logic_onHeart :: "int \<Rightarrow> logic_response" where
  "logic_onHeart now = HeartRsp Success now"

definition onLoginGame :: "logic_response" where
  "onLoginGame = LoginRsp Success"

text \<open>
  \<open>onSendMessage\<close> with the counter \<open>next_msg_id_\<close>. The message it builds is only written to the log; it
  is kept here with the result. Counting past the largest \<open>int64_t\<close> is undefined. The workers of the bus would run
  handlers at the same time, and the counter is no atomic; a handler is one step here.
\<close>

definition onSendMessage ::
  "int \<Rightarrow> int \<Rightarrow> send_request \<Rightarrow> int \<Rightarrow> fault + logic_response \<times> chat_message option \<times> int" where
  "onSendMessage now uid req next_msg_id =
     (if sr_msg req = [] then Inr (SendRsp WrongMsg, None, next_msg_id)
      else if kMaxChatMsgLen < length (sr_msg req) then Inr (SendRsp MsgTooLong, None, next_msg_id)
      else if sr_channel req < kMinChannelId \<or> kMaxChannelId < sr_channel req then Inr (SendRsp NoChannel, None, next_msg_id)
      else if next_msg_id = 2 ^ 63 - 1 then Inl Undefined
      else Inr (SendRsp Success,
             Some \<lparr>cm_player_id = uid, cm_msg = sr_msg req, cm_emoji_id = sr_emojiId req, cm_channel_id = sr_channel req,
                   cm_chat_id = sr_chatId req, cm_timestamp = now, cm_msg_id = next_msg_id\<rparr>,
             next_msg_id + 1))"

definition onReqMessage :: "req_message \<Rightarrow> logic_response" where
  "onReqMessage req =
     (if rq_channel req < kMinChannelId \<or> kMaxChannelId < rq_channel req then ReqRsp NoChannel
      else if rq_after_count req \<le> 0 then ReqRsp BadArgument
      else ReqRsp Success)"

definition onReqChatInfo :: "int \<Rightarrow> logic_response" where
  "onReqChatInfo uid = ChatInfoRsp Success uid 0"

record logic_service =
  ls_next_msg_id :: int
  ls_logged :: "chat_message list"

text \<open>What is between \<open>PROCESS_NETPACK_BEGIN\<close> and \<open>PROCESS_NETPACK_END\<close>; \<open>uid\<close> is the connection id.\<close>

definition msg_uid :: "app_msg \<Rightarrow> int" where
  "msg_uid msg = sint (of_nat (h_conn_id (m_header msg)) :: 64 word)"

definition logic_body ::
  "int \<Rightarrow> app_msg \<Rightarrow> logic_request \<Rightarrow> logic_service \<Rightarrow> fault + (logic_response \<times> logic_service) option" where
  "logic_body now msg req ls =
     (case req of
        Heart (Some r) \<Rightarrow> Inr (Some (logic_onHeart now, ls))
      | LoginGame (Some r) \<Rightarrow> Inr (Some (onLoginGame, ls))
      | SendMessage (Some r) \<Rightarrow>
          map_sum id (\<lambda>(rsp, logged, k). Some (rsp, ls\<lparr>ls_next_msg_id := k,
            ls_logged := ls_logged ls @ (case logged of None \<Rightarrow> [] | Some cm \<Rightarrow> [cm])\<rparr>))
            (onSendMessage now (msg_uid msg) r (ls_next_msg_id ls))
      | ReqMessage (Some r) \<Rightarrow> Inr (Some (onReqMessage r, ls))
      | ReqChatInfo (Some r) \<Rightarrow> Inr (Some (onReqChatInfo (msg_uid msg), ls))
      | _ \<Rightarrow> Inr None)"

text \<open>A handler as a whole: parse, run the body, reply.\<close>

definition logic_handle ::
  "bus_env \<Rightarrow> (logic_response \<Rightarrow> pb_message) \<Rightarrow> int \<Rightarrow> app_msg \<Rightarrow> logic_request \<Rightarrow> logic_service \<times> bus_client \<Rightarrow>
     fault + logic_service \<times> bus_client" where
  "logic_handle env encode now msg req st =
     (case logic_body now msg req (fst st) of
        Inl f \<Rightarrow> Inl f
      | Inr None \<Rightarrow> Inr st
      | Inr (Some (rsp, ls)) \<Rightarrow> map_sum id (\<lambda>(ok, bc). (ls, bc)) (BusClient_Reply env msg (encode rsp) (snd st)))"

section \<open>The service\<close>

text \<open>The registrations of the modules, in the order of \<open>registerAllModule\<close>.\<close>

definition logic_handlers :: "(nat \<times> nat) list" where
  "logic_handlers = [(0, 0), (103, 1), (104, 2), (105, 3), (3, 4)]"

definition registerAllModule :: "bus_client \<Rightarrow> fault + logic_service \<times> bus_client" where
  "registerAllModule bc = map_sum id (Pair \<lparr>ls_next_msg_id = 1, ls_logged = []\<rparr>) (regist_each logic_handlers bc)"

definition LogicApp_onInit :: "bus_env \<Rightarrow> bus_client \<Rightarrow> fault + bool \<times> logic_service \<times> bus_client" where
  "LogicApp_onInit env bc =
     (case registerAllModule bc of
        Inl f \<Rightarrow> Inl f
      | Inr (ls, bc1) \<Rightarrow> map_sum id (\<lambda>(ok, bc2). (ok, ls, bc2)) (BusClient_Start env bc1))"

section \<open>Starting the service\<close>

text \<open>
  The logic service does not start: its \<open>onInit\<close> lets the modules register their handlers before it starts the
  bus, and registering goes through the dispatcher that only the start of the bus creates.
\<close>

theorem logic_never_starts: "LogicApp_onInit env (BusClient_ctor opts rings s) = Inl Undefined"
  by (simp add: LogicApp_onInit_def registerAllModule_def logic_handlers_def RegistMessage_def BusClient_ctor_def)

section \<open>Replies\<close>

text \<open>
  The reply of every handler is undefined behaviour, once the bus is ready: \<open>Reply\<close> builds a packet for
  messages between services only, whose table has no entry for the messages of clients, and goes through
  the null pointer it gets. So the first client message that parses ends the service.
\<close>

theorem logic_reply_undefined:
  assumes "bc_ready bc" "\<forall>r. pb_type_name (encode r) = response_type r"
    and "\<forall>n \<in> set [''Heart'', ''PlayerLoginGame'', ''PlayerSendMessage'', ''PlayerReqMessage'', ''PlayerReqChatInfo'']. be_ids env n = None"
    and "logic_body now msg req ls \<noteq> Inr None"
  shows "logic_handle env encode now msg req (ls, bc) = Inl Undefined"
proof -
  have "be_ids env (GetShortTypeName (pb_type_name (encode r))) = None" for r
    using assms(2,3) by (cases r) (simp_all add: response_type_def GetShortTypeName_def)
  then have "BusClient_Reply env msg (encode r) bc = Inl Undefined" for r
    using assms(1) by (simp add: BusClient_Reply_def with_pack_def CreateSSPack_def create_pack_def)
  moreover have "f = Undefined" if "logic_body now msg req ls = Inl f" for f
    using that by (auto simp: logic_body_def onSendMessage_def split: logic_request.splits option.splits if_splits)
  ultimately show ?thesis using assms(4) by (auto simp: logic_handle_def split: sum.split option.split)
qed

section \<open>What a client writes into the header\<close>

lemma put_mem:
  "put off k xs s = Some s' \<Longrightarrow>
     mem s' a = (if off + k \<le> a \<and> a < off + k + length xs then xs ! (a - (off + k)) else mem s a)"
  by (auto simp: put_def split: if_splits)

text \<open>The three writes of \<open>ForwardRawAppMsg\<close>: the struct, the data behind it, the pointer.\<close>

lemma forwarded_writes:
  assumes "ForwardRawAppMsg base src data dst s = Inr (Some w, s')"
  obtains s1 s2 s3 where "put (aw_offset w) 0 (take sizeof_AppMsg src) s1 = Some s2"
    "(case data of Some d \<Rightarrow> if field 20 2 src > 0
        then do { body \<leftarrow> mem_read d 0 (field 20 2 src); put (aw_offset w) sizeof_AppMsg body s2 } else Some s2
      | None \<Rightarrow> Some s2) = Some s3"
    "put (aw_offset w) 22 (le_bytes 8 (base + aw_offset w + sizeof_AppMsg)) s3 = Some s'"
proof -
  let ?chain = "\<lambda>off s1. do { s2 \<leftarrow> put off 0 (take sizeof_AppMsg src) s1;
        s3 \<leftarrow> (case data of
                Some d \<Rightarrow> if field 20 2 src > 0
                          then do { body \<leftarrow> mem_read d 0 (field 20 2 src); put off sizeof_AppMsg body s2 } else Some s2
              | None \<Rightarrow> Some s2);
        put off 22 (le_bytes 8 (base + off + sizeof_AppMsg)) s3 }"
  obtain off s1 where c: "?chain off s1 = Some s'" "aw_offset w = off"
  proof (cases "Alloc (of_nat (u32_add sizeof_AppMsg (field 20 2 src))) s")
    case None
    then show thesis using assms by (simp add: ForwardRawAppMsg_def Let_def)
  next
    case (Some q)
    obtain off s1 where q: "q = (off, s1)" by (cases q)
    show thesis using assms Some q that [of off s1]
      by (cases "?chain off s1") (auto simp: ForwardRawAppMsg_def Let_def split: if_split_asm)
  qed
  then show thesis using that by (auto simp: Option.bind_eq_Some_conv)
qed

lemma forwarded_struct:
  assumes "ForwardRawAppMsg base src data dst s = Inr (Some w, s')" "length src = sizeof_AppMsg"
    and "i < sizeof_AppMsg" "i < 22 \<or> 30 \<le> i"
  shows "mem s' (aw_offset w + i) = src ! i"
proof -
  obtain s1 s2 s3 where p: "put (aw_offset w) 0 (take sizeof_AppMsg src) s1 = Some s2"
    "(case data of Some d \<Rightarrow> if field 20 2 src > 0
        then do { body \<leftarrow> mem_read d 0 (field 20 2 src); put (aw_offset w) sizeof_AppMsg body s2 } else Some s2
      | None \<Rightarrow> Some s2) = Some s3"
    "put (aw_offset w) 22 (le_bytes 8 (base + aw_offset w + sizeof_AppMsg)) s3 = Some s'"
    by (rule forwarded_writes [OF assms(1)])
  have "mem s' (aw_offset w + i) = mem s3 (aw_offset w + i)" using assms(4) put_mem [OF p(3), of "aw_offset w + i"] by auto
  also have "mem s3 (aw_offset w + i) = mem s2 (aw_offset w + i)"
    using p(2) assms(3) by (auto simp: Option.bind_eq_Some_conv put_mem split: option.splits if_splits)
  also have "\<dots> = src ! i" using put_mem [OF p(1), of "aw_offset w + i"] assms(2,3) by simp
  finally show ?thesis .
qed

lemma forwarded_pointer:
  assumes "ForwardRawAppMsg base src data dst s = Inr (Some w, s')" "i < 8"
  shows "mem s' (aw_offset w + (22 + i)) = le_bytes 8 (base + aw_offset w + sizeof_AppMsg) ! i"
proof -
  obtain s3 where "put (aw_offset w) 22 (le_bytes 8 (base + aw_offset w + sizeof_AppMsg)) s3 = Some s'"
    by (rule forwarded_writes [OF assms(1)])
  from put_mem [OF this, of "aw_offset w + (22 + i)"] show ?thesis using assms(2) by simp
qed

lemma forwarded_data:
  assumes "ForwardRawAppMsg base src (Some d) dst s = Inr (Some w, s')"
  shows "block_at s' (aw_offset w + sizeof_AppMsg) (field 20 2 src) = take (field 20 2 src) d"
proof (cases "field 20 2 src = 0")
  case True
  then show ?thesis by (simp add: block_at_def)
next
  case False
  obtain s1 s2 s3 where p: "put (aw_offset w) 0 (take sizeof_AppMsg src) s1 = Some s2"
    "(case Some d of Some d \<Rightarrow> if field 20 2 src > 0
        then do { body \<leftarrow> mem_read d 0 (field 20 2 src); put (aw_offset w) sizeof_AppMsg body s2 } else Some s2
      | None \<Rightarrow> Some s2) = Some s3"
    "put (aw_offset w) 22 (le_bytes 8 (base + aw_offset w + sizeof_AppMsg)) s3 = Some s'"
    by (rule forwarded_writes [OF assms])
  then have d: "field 20 2 src \<le> length d" "put (aw_offset w) sizeof_AppMsg (take (field 20 2 src) d) s2 = Some s3"
    using False by (auto simp: mem_read_def Option.bind_eq_Some_conv split: if_splits)
  have "mem s' (aw_offset w + sizeof_AppMsg + i) = d ! i" if "i < field 20 2 src" for i
    using put_mem [OF p(3), of "aw_offset w + sizeof_AppMsg + i"] put_mem [OF d(2), of "aw_offset w + sizeof_AppMsg + i"]
      that d(1) by (simp add: sizeof_AppMsg_def sizeof_Header_def)
  then show ?thesis using d(1) by (intro nth_equalityI) (auto simp: block_at_def)
qed

lemma forwarded_field:
  assumes "ForwardRawAppMsg base src data dst s = Inr (Some w, s')" "length src = sizeof_AppMsg"
    and "k + n \<le> 22 \<or> 30 \<le> k \<and> k + n \<le> sizeof_AppMsg"
  shows "field k n (block_at s' (aw_offset w) sizeof_AppMsg) = field k n src"
proof -
  have sz: "sizeof_AppMsg = 70" by (simp add: sizeof_AppMsg_def sizeof_Header_def)
  have "take n (drop k (block_at s' (aw_offset w) sizeof_AppMsg)) = take n (drop k src)"
    using forwarded_struct [OF assms(1,2)] assms(2,3) sz
    by (intro nth_equalityI) (auto simp: block_at_def)
  then show ?thesis by (simp add: field_def)
qed

text \<open>
  A forwarded packet is the client's, byte for byte: of the struct only the pointer \<open>data_\<close> is new, which points
  behind it, where the client's data follow. So the type, the coroutine id, the message id and the source
  name the logic service reads are the ones the client wrote.
\<close>

theorem forwarded_packet_is_the_clients:
  assumes "ForwardRawAppMsg base src (Some data) dst s = Inr (Some w, s')" "length src = sizeof_AppMsg"
  shows "block_at s' (aw_offset w) sizeof_AppMsg =
      take 22 src @ le_bytes 8 (base + aw_offset w + sizeof_AppMsg) @ drop 30 src \<and>
    block_at s' (aw_offset w + sizeof_AppMsg) (field 20 2 src) = take (field 20 2 src) data \<and>
    (\<forall>k n. k + n \<le> 22 \<or> 30 \<le> k \<and> k + n \<le> sizeof_AppMsg \<longrightarrow>
       field k n (block_at s' (aw_offset w) sizeof_AppMsg) = field k n src)"
proof -
  have sz: "sizeof_AppMsg = 70" by (simp add: sizeof_AppMsg_def sizeof_Header_def)
  let ?p = "le_bytes 8 (base + aw_offset w + sizeof_AppMsg)"
  have "mem s' (aw_offset w + i) = (take 22 src @ ?p @ drop 30 src) ! i" if "i < 70" for i
  proof (cases "i < 22 \<or> 30 \<le> i")
    case True
    then show ?thesis using forwarded_struct [OF assms, of i] that assms(2) sz
      by (auto simp: nth_append)
  next
    case False
    then have "i - 22 < 8" by auto
    then show ?thesis using False forwarded_pointer [OF assms(1), of "i - 22"] assms(2) sz by (simp add: nth_append)
  qed
  then have "block_at s' (aw_offset w) sizeof_AppMsg = take 22 src @ ?p @ drop 30 src"
    using assms(2) sz by (intro nth_equalityI) (auto simp: block_at_def)
  then show ?thesis using forwarded_field [OF assms] forwarded_data [OF assms(1)] by blast
qed

section \<open>Witnesses\<close>

definition demo_send_request :: "nat \<Rightarrow> int \<Rightarrow> send_request" where
  "demo_send_request n channel = \<lparr>sr_msg = replicate n 97, sr_emojiId = 0, sr_channel = channel, sr_chatId = 0\<rparr>"

text \<open>A bus that is running lets the modules register.\<close>

definition started_client :: bus_client where
  "started_client = (BusClient_ctor demo_options Map.empty blank_slab)\<lparr>bc_ready := True, bc_sched := Some (CoroutineScheduler_ctor 4)\<rparr>"

theorem logic_reply_undefined_witness:
  "logic_handle (demo_env\<lparr>be_ids := Map.empty\<rparr>) (\<lambda>r. \<lparr>pb_type_name = response_type r, pb_bytes = [], pb_serializes = True\<rparr>) 10 ping_msg
     (SendMessage (Some (demo_send_request 2 1))) (\<lparr>ls_next_msg_id = 1, ls_logged = []\<rparr>, started_client) = Inl Undefined"
  by (rule logic_reply_undefined)
    (simp_all add: started_client_def logic_body_def onSendMessage_def demo_send_request_def
      kMaxChatMsgLen_def kMinChannelId_def kMaxChannelId_def)

text \<open>A response packet for coroutine 7, without data.\<close>

definition forged :: "8 word list" where
  "forged = [1, 4] @ replicate 28 0 @ [7] @ replicate 39 0"

lemma class_70: "SizeClassIndex (Align8 70) = Some 3"
  by (simp add: SizeClassIndex_def Align8_def pow2ceil_def Let_def class_loop.simps MAX_CLASSES_def word_le_nat_alt)

theorem forwarded_packet_is_the_clients_witness:
  "\<exists>s w s'. ForwardRawAppMsg 4096 forged (Some []) [] s = Inr (Some w, s') \<and>
     field 1 1 (block_at s' (aw_offset w) sizeof_AppMsg) = 4 \<and> field 30 8 (block_at s' (aw_offset w) sizeof_AppMsg) = 7"
proof -
  obtain s where s: "slab_owns 64 190064 s {}" "bump (hdr s) + PAGE_SIZE \<le> 190064" by (rule demo_slab)
  obtain off s1 where a: "Alloc 70 s = Some (off, s1)" "off \<noteq> 0"
    using alloc_fails_iff_exhausted [OF s(1) class_70] s(2) by fastforce
  obtain c where c: "off + 70 \<le> total_size (hdr s1)"
    by (rule alloc_block [of 64 190064 s "{}" 70 off s1]) (use a s(1) in simp_all)
  have zeros: "((*) (256 :: nat) ^^ k) 0 = 0" for k by (induction k) simp_all
  have f: "length forged = sizeof_AppMsg" "field 1 1 forged = 4" "field 30 8 forged = 7" "field 20 2 forged = 0"
    using zeros by (simp_all add: forged_def field_def le_nat_def sizeof_AppMsg_def sizeof_Header_def)
  obtain s2 where s2: "put off 0 (take sizeof_AppMsg forged) s1 = Some s2" "hdr s2 = hdr s1"
    using a(2) c f(1) by (simp add: put_def sizeof_AppMsg_def sizeof_Header_def)
  obtain s3 where s3: "put off 22 (le_bytes 8 (4096 + off + sizeof_AppMsg)) s2 = Some s3"
    using a(2) c s2(2) by (simp add: put_def sizeof_AppMsg_def sizeof_Header_def)
  have n: "u32_add sizeof_AppMsg 0 = 70" by (simp add: uadd_def sizeof_AppMsg_def sizeof_Header_def)
  obtain w where w: "ForwardRawAppMsg 4096 forged (Some []) [] s = Inr (Some w, s3)"
    using a s2(1) s3 f(4) n by (simp add: ForwardRawAppMsg_def Let_def)
  have "1 + 1 \<le> (22::nat)" "30 \<le> (30::nat) \<and> 30 + 8 \<le> sizeof_AppMsg" by (simp_all add: sizeof_AppMsg_def sizeof_Header_def)
  then have "field 1 1 (block_at s3 (aw_offset w) sizeof_AppMsg) = 4" "field 30 8 (block_at s3 (aw_offset w) sizeof_AppMsg) = 7"
    using forwarded_packet_is_the_clients [OF w f(1)] f(2,3) by metis+
  then show ?thesis using w by blast
qed

end
