(* ===== verification/SqlGen.thy ===== *)
theory SqlGen
  imports StdText
begin

text \<open>
  The SQL generator of the migration tool (server/tools/dbmigrate/SQLGenerator.h, SQLGenerator.cpp) and the
  splitting of its output into statements (the inner loop of \<open>MigrationEngine::applyMigration\<close>). The
  tagged struct \<open>Operation\<close> is a datatype; a stream that is written to is the string written.
\<close>

section \<open>Operations\<close>

record column_def =
  col_name :: string
  col_type :: string
  col_not_null :: bool
  col_auto_increment :: bool
  col_primary_key :: bool
  col_default_val :: string
  col_on_update :: string

record index_def =
  idx_name :: string
  idx_columns :: "string list"
  idx_unique :: bool

record create_table_op =
  ct_table :: string
  ct_columns :: "column_def list"
  ct_indexes :: "index_def list"
  ct_engine :: string
  ct_charset :: string
  ct_comment :: string

record alter_table_op =
  at_table :: string
  at_add_columns :: "column_def list"
  at_drop_columns :: "string list"
  at_modify_columns :: "column_def list"
  at_after_column :: string

record create_index_op =
  ci_table :: string
  ci_name :: string
  ci_columns :: "string list"
  ci_unique :: bool

record drop_index_op =
  di_table :: string
  di_name :: string

record drop_table_op =
  dt_table :: string
  dt_if_exists :: bool

record seed_data_op =
  sd_table :: string
  sd_rows :: "(string \<times> string) list list"

datatype operation =
    CreateTable create_table_op | AlterTable alter_table_op | CreateIndex create_index_op
  | DropIndex drop_index_op | DropTable drop_table_op | SeedData seed_data_op

section \<open>Generation\<close>

definition nl :: string where
  "nl = [CHR 0x0A]"

definition quoteIdent :: "string \<Rightarrow> string" where
  "quoteIdent s = CHR 0x60 # s @ [CHR 0x60]"

definition columnDefSQL :: "column_def \<Rightarrow> string" where
  "columnDefSQL c =
     ''    '' @ quoteIdent (col_name c) @ '' '' @ col_type c @
     (if col_not_null c then '' NOT NULL'' else []) @
     (if col_auto_increment c then '' AUTO_INCREMENT'' else []) @
     (if col_default_val c \<noteq> [] then '' DEFAULT '' @ col_default_val c else []) @
     (if col_on_update c \<noteq> [] then '' ON UPDATE '' @ col_on_update c else [])"

text \<open>The separated lists of quoted names of the generators.\<close>

fun quoted_list :: "string list \<Rightarrow> string" where
  "quoted_list [] = []"
| "quoted_list [x] = quoteIdent x"
| "quoted_list (x # y # xs) = quoteIdent x @ '', '' @ quoted_list (y # xs)"

text \<open>The loop over the columns, with \<open>has_pk\<close> and whether there are indexes.\<close>

fun column_lines :: "bool \<Rightarrow> bool \<Rightarrow> column_def list \<Rightarrow> string" where
  "column_lines has_pk has_idx [] = []"
| "column_lines has_pk has_idx (c # cs) =
     (let has_pk' = (has_pk \<or> col_primary_key c)
      in columnDefSQL c @ (if cs \<noteq> [] \<or> has_pk' \<or> has_idx then '','' else []) @ nl @ column_lines has_pk' has_idx cs)"

definition primary_key_line :: "bool \<Rightarrow> column_def list \<Rightarrow> string" where
  "primary_key_line has_idx cs =
     (case find col_primary_key cs of
        None \<Rightarrow> []
      | Some c \<Rightarrow> ''    PRIMARY KEY ('' @ quoteIdent (col_name c) @ '')'' @ (if has_idx then '','' else []) @ nl)"

definition index_sql :: "index_def \<Rightarrow> string" where
  "index_sql i = ''    '' @ (if idx_unique i then ''UNIQUE '' else []) @ ''INDEX '' @ quoteIdent (idx_name i) @ '' ('' @
     quoted_list (idx_columns i) @ '')''"

fun index_lines :: "index_def list \<Rightarrow> string" where
  "index_lines [] = []"
| "index_lines (i # is') = index_sql i @ (if is' \<noteq> [] then '','' else []) @ nl @ index_lines is'"

definition generateCreateTable :: "create_table_op \<Rightarrow> string" where
  "generateCreateTable op =
     ''CREATE TABLE IF NOT EXISTS '' @ quoteIdent (ct_table op) @ '' ('' @ nl @
     column_lines False (ct_indexes op \<noteq> []) (ct_columns op) @
     primary_key_line (ct_indexes op \<noteq> []) (ct_columns op) @
     index_lines (ct_indexes op) @
     '') ENGINE='' @ ct_engine op @ '' DEFAULT CHARSET='' @ ct_charset op @
     (if ct_comment op \<noteq> [] then '' COMMENT='' @ [CHR 0x27] @ ct_comment op @ [CHR 0x27] else []) @ '';''"

text \<open>What follows each call of \<open>sep\<close>, and the text so far with its flag \<open>first\<close>.\<close>

definition alter_sep :: "string \<Rightarrow> bool \<times> string \<Rightarrow> bool \<times> string" where
  "alter_sep tbl st = (False, snd st @ (if fst st then [] else '';'' @ nl) @ ''ALTER TABLE '' @ tbl)"

definition alter_write :: "string \<Rightarrow> string \<Rightarrow> bool \<times> string \<Rightarrow> bool \<times> string" where
  "alter_write tbl s st = map_prod id (\<lambda>t. t @ s) (alter_sep tbl st)"

definition generateAlterTable :: "alter_table_op \<Rightarrow> string" where
  "generateAlterTable op =
     (let tbl = quoteIdent (at_table op);
          s1 = fold (\<lambda>c. alter_write tbl ('' ADD COLUMN'' @ nl @ columnDefSQL c @
                 (if at_after_column op \<noteq> [] then '' AFTER '' @ quoteIdent (at_after_column op) else [])))
                 (at_add_columns op) (True, []);
          s2 = fold (\<lambda>n. alter_write tbl ('' DROP COLUMN '' @ quoteIdent n)) (at_drop_columns op) s1;
          s3 = fold (\<lambda>c. alter_write tbl ('' MODIFY COLUMN'' @ nl @ columnDefSQL c)) (at_modify_columns op) s2
      in snd s3 @ (if fst s3 then [] else '';''))"

definition generateCreateIndex :: "create_index_op \<Rightarrow> string" where
  "generateCreateIndex op =
     ''CREATE '' @ (if ci_unique op then ''UNIQUE '' else []) @ ''INDEX '' @ quoteIdent (ci_name op) @ '' ON '' @
     quoteIdent (ci_table op) @ '' ('' @ quoted_list (ci_columns op) @ '');''"

definition generateDropIndex :: "drop_index_op \<Rightarrow> string" where
  "generateDropIndex op = ''DROP INDEX '' @ quoteIdent (di_name op) @ '' ON '' @ quoteIdent (di_table op) @ '';''"

definition generateDropTable :: "drop_table_op \<Rightarrow> string" where
  "generateDropTable op =
     ''DROP TABLE '' @ (if dt_if_exists op then ''IF EXISTS '' else []) @ quoteIdent (dt_table op) @ '';''"

definition seed_value :: "string \<Rightarrow> string" where
  "seed_value val =
     (let is_numeric = (val \<noteq> [] \<and> (hd val \<in> set ''0123456789'' \<or> hd val = CHR ''-''));
          is_keyword = (val \<in> {''NULL'', ''TRUE'', ''FALSE'', ''CURRENT_TIMESTAMP''})
      in if is_numeric \<or> is_keyword then val else [CHR 0x27] @ val @ [CHR 0x27])"

fun seed_values :: "string list \<Rightarrow> string" where
  "seed_values [] = []"
| "seed_values [v] = seed_value v"
| "seed_values (v # w # vs) = seed_value v @ '', '' @ seed_values (w # vs)"

fun seed_rows :: "string list list \<Rightarrow> string" where
  "seed_rows [] = []"
| "seed_rows (r # rs) = ''    ('' @ seed_values r @ '')'' @ (if rs \<noteq> [] then '','' else []) @ nl @ seed_rows rs"

definition generateSeedData :: "seed_data_op \<Rightarrow> string" where
  "generateSeedData op =
     (case sd_rows op of
        [] \<Rightarrow> []
      | first_row # rs \<Rightarrow>
          ''INSERT IGNORE INTO '' @ quoteIdent (sd_table op) @ '' ('' @ quoted_list (map fst first_row) @
          '') VALUES'' @ nl @ seed_rows (map (map snd) (sd_rows op)) @ '';'')"

fun operationToSQL :: "operation \<Rightarrow> string" where
  "operationToSQL (CreateTable op) = generateCreateTable op"
| "operationToSQL (AlterTable op) = generateAlterTable op"
| "operationToSQL (CreateIndex op) = generateCreateIndex op"
| "operationToSQL (DropIndex op) = generateDropIndex op"
| "operationToSQL (DropTable op) = generateDropTable op"
| "operationToSQL (SeedData op) = generateSeedData op"

section \<open>Splitting\<close>

definition blank :: "char \<Rightarrow> bool" where
  "blank c \<longleftrightarrow> c = CHR '' '' \<or> c = CHR 0x09 \<or> c = CHR 0x0D \<or> c = CHR 0x0A"

definition trim :: "string \<Rightarrow> string" where
  "trim s = rev (dropWhile blank (rev (dropWhile blank s)))"

text \<open>The statements \<open>applyMigration\<close> executes for a generated text.\<close>

definition statements :: "string \<Rightarrow> string list" where
  "statements sql = filter (\<lambda>s. s \<noteq> []) (map trim (getlines (CHR '';'') sql))"

section \<open>Reference forms\<close>

fun joined :: "string \<Rightarrow> string list \<Rightarrow> string" where
  "joined sep [] = []"
| "joined sep [x] = x"
| "joined sep (x # y # xs) = x @ sep @ joined sep (y # xs)"

lemma joined_Cons: "xs \<noteq> [] \<Longrightarrow> joined sep (x # xs) = x @ sep @ joined sep xs"
  by (cases xs) auto

lemma joined_snoc: "joined sep (xs @ [x]) = (if xs = [] then x else joined sep xs @ sep @ x)"
proof (induction xs)
  case (Cons y ys)
  then show ?case by (cases ys) auto
qed simp

lemma in_joined: "c \<in> set (joined sep xs) \<Longrightarrow> c \<in> set sep \<or> (\<exists>x \<in> set xs. c \<in> set x)"
  by (induction sep xs rule: joined.induct) auto

lemma quoted_list_joined: "quoted_list xs = joined '', '' (map quoteIdent xs)"
  by (induction xs rule: quoted_list.induct) auto

lemma seed_values_joined: "seed_values vs = joined '', '' (map seed_value vs)"
  by (induction vs rule: seed_values.induct) auto

text \<open>Items on a line each, separated by commas.\<close>

definition items_text :: "string list \<Rightarrow> string" where
  "items_text xs = (if xs = [] then [] else joined ('','' @ nl) xs @ nl)"

lemma items_text_Cons: "items_text (x # xs) = x @ (if xs \<noteq> [] then '','' else []) @ nl @ items_text xs"
  by (cases xs) (auto simp: items_text_def)

lemma index_lines_items: "index_lines xs = items_text (map index_sql xs)"
  by (induction xs) (simp add: items_text_def, simp add: items_text_Cons)

lemma seed_rows_items: "seed_rows rs = items_text (map (\<lambda>r. ''    ('' @ seed_values r @ '')'') rs)"
  by (induction rs) (simp add: items_text_def, simp add: items_text_Cons)

lemma column_lines_items:
  assumes "cs \<noteq> [] \<longrightarrow> (rest \<noteq> [] \<longleftrightarrow> has_pk \<or> (\<exists>c \<in> set cs. col_primary_key c) \<or> has_idx)"
  shows "column_lines has_pk has_idx cs @ items_text rest = items_text (map columnDefSQL cs @ rest)"
  using assms
proof (induction cs arbitrary: has_pk)
  case (Cons c cs)
  have "column_lines (has_pk \<or> col_primary_key c) has_idx cs @ items_text rest = items_text (map columnDefSQL cs @ rest)"
    using Cons.prems by (intro Cons.IH) auto
  moreover have "(cs \<noteq> [] \<or> has_pk \<or> col_primary_key c \<or> has_idx) = (map columnDefSQL cs @ rest \<noteq> [])"
    using Cons.prems by (cases cs) auto
  ultimately show ?case by (simp add: items_text_Cons Let_def)
qed simp

definition primary_key_items :: "column_def list \<Rightarrow> string list" where
  "primary_key_items cs = (case find col_primary_key cs of
     None \<Rightarrow> [] | Some c \<Rightarrow> [''    PRIMARY KEY ('' @ quoteIdent (col_name c) @ '')''])"

definition create_items :: "create_table_op \<Rightarrow> string list" where
  "create_items op = map columnDefSQL (ct_columns op) @ primary_key_items (ct_columns op) @ map index_sql (ct_indexes op)"

definition create_text :: "create_table_op \<Rightarrow> string" where
  "create_text op =
     ''CREATE TABLE IF NOT EXISTS '' @ quoteIdent (ct_table op) @ '' ('' @ nl @ items_text (create_items op) @
     '') ENGINE='' @ ct_engine op @ '' DEFAULT CHARSET='' @ ct_charset op @
     (if ct_comment op \<noteq> [] then '' COMMENT='' @ [CHR 0x27] @ ct_comment op @ [CHR 0x27] else [])"

lemma primary_key_line_items:
  "primary_key_line (xs \<noteq> []) cs @ items_text (map index_sql xs) = items_text (primary_key_items cs @ map index_sql xs)"
  by (cases "find col_primary_key cs") (simp_all add: primary_key_line_def primary_key_items_def items_text_Cons)

lemma primary_key_items_Nil: "primary_key_items cs \<noteq> [] \<longleftrightarrow> (\<exists>c \<in> set cs. col_primary_key c)"
  by (induction cs) (auto simp: primary_key_items_def split: option.splits)

lemma generateCreateTable_text: "generateCreateTable op = create_text op @ '';''"
proof -
  have pk: "primary_key_items (ct_columns op) \<noteq> [] \<longleftrightarrow> (\<exists>c \<in> set (ct_columns op). col_primary_key c)"
    by (rule primary_key_items_Nil)
  have "column_lines False (ct_indexes op \<noteq> []) (ct_columns op) @
      items_text (primary_key_items (ct_columns op) @ map index_sql (ct_indexes op)) = items_text (create_items op)"
    unfolding create_items_def using pk by (intro column_lines_items) auto
  then show ?thesis
    unfolding generateCreateTable_def create_text_def
    by (simp add: index_lines_items flip: primary_key_line_items append_assoc) 
qed

section \<open>Statements of an operation\<close>

definition alter_statements :: "alter_table_op \<Rightarrow> string list" where
  "alter_statements op =
     map (\<lambda>s. ''ALTER TABLE '' @ quoteIdent (at_table op) @ s)
       (map (\<lambda>c. '' ADD COLUMN'' @ nl @ columnDefSQL c @
               (if at_after_column op \<noteq> [] then '' AFTER '' @ quoteIdent (at_after_column op) else [])) (at_add_columns op) @
        map (\<lambda>n. '' DROP COLUMN '' @ quoteIdent n) (at_drop_columns op) @
        map (\<lambda>c. '' MODIFY COLUMN'' @ nl @ columnDefSQL c) (at_modify_columns op))"

lemma alter_write_joined:
  "alter_write tbl s (xs = [], joined ('';'' @ nl) xs) =
     (xs @ [''ALTER TABLE '' @ tbl @ s] = [], joined ('';'' @ nl) (xs @ [''ALTER TABLE '' @ tbl @ s]))"
  by (simp add: alter_write_def alter_sep_def joined_snoc)

lemma alter_fold:
  "fold (\<lambda>c. alter_write tbl (f c)) cs (xs = [], joined ('';'' @ nl) xs) =
     (xs @ map (\<lambda>c. ''ALTER TABLE '' @ tbl @ f c) cs = [],
      joined ('';'' @ nl) (xs @ map (\<lambda>c. ''ALTER TABLE '' @ tbl @ f c) cs))"
proof (induction cs arbitrary: xs)
  case (Cons c cs)
  show ?case using Cons [of "xs @ [''ALTER TABLE '' @ tbl @ f c]"] by (simp only: fold.simps o_apply alter_write_joined) simp
qed simp

lemma generateAlterTable_joined:
  "generateAlterTable op =
     (if alter_statements op = [] then [] else joined ('';'' @ nl) (alter_statements op) @ '';'')"
proof -
  let ?t = "quoteIdent (at_table op)"
  have start: "(True, []) = (([] :: string list) = [], joined ('';'' @ nl) [])" by simp
  show ?thesis
    unfolding generateAlterTable_def Let_def start alter_fold
    by (simp add: alter_statements_def o_def)
qed

lemma getlines_Nil [simp]: "getlines d [] = []"
  by (simp add: getlines.simps)

lemma cut_at:
  assumes "d \<notin> set x"
  shows "takeWhile (\<lambda>c. c \<noteq> d) (x @ d # r) = x" "dropWhile (\<lambda>c. c \<noteq> d) (x @ d # r) = d # r"
    "takeWhile (\<lambda>c. c \<noteq> d) x = x" "dropWhile (\<lambda>c. c \<noteq> d) x = []"
  using assms by (induction x) auto

lemma getlines_step: "d \<notin> set x \<Longrightarrow> getlines d (x @ d # r) = x # getlines d r"
  by (subst getlines.simps) (simp add: cut_at)

lemma getlines_last: "d \<notin> set x \<Longrightarrow> x \<noteq> [] \<Longrightarrow> getlines d x = [x]"
  by (subst getlines.simps) (simp add: cut_at)

lemma blank_nl [simp]: "blank (CHR 0x0A)"
  by (simp add: blank_def)

lemma trim_nl [simp]: "trim (nl @ s) = trim s"
  by (simp add: trim_def nl_def)

lemma trim_Nil_iff: "trim s = [] \<longleftrightarrow> (\<forall>c \<in> set s. blank c)"
proof -
  have "trim s = [] \<longleftrightarrow> (\<forall>c \<in> set (dropWhile blank s). blank c)" by (simp add: trim_def)
  also have "\<dots> \<longleftrightarrow> (\<forall>c \<in> set s. blank c)" by (induction s) auto
  finally show ?thesis .
qed

lemma trim_nonblank: "\<not> blank c \<Longrightarrow> trim (c # s) \<noteq> []"
  by (auto simp: trim_Nil_iff)

lemma joined_ended: "joined ('';'' @ nl) (x # xs) @ '';'' = x @ '';'' @ concat (map (\<lambda>y. nl @ y @ '';'') xs)"
  by (induction xs arbitrary: x) auto

lemma getlines_joined:
  assumes "\<forall>x \<in> set (x # xs). CHR '';'' \<notin> set x"
  shows "getlines (CHR '';'') (joined ('';'' @ nl) (x # xs) @ '';'') = x # map (\<lambda>y. nl @ y) xs"
proof -
  have "getlines (CHR '';'') (concat (map (\<lambda>y. nl @ y @ '';'') xs)) = map (\<lambda>y. nl @ y) xs"
    if "\<forall>y \<in> set xs. CHR '';'' \<notin> set y" for xs
    using that
  proof (induction xs)
    case (Cons y ys)
    then show ?case using getlines_step [of "CHR '';''" "nl @ y"] by (simp add: nl_def)
  qed simp
  then show ?thesis unfolding joined_ended using assms by (simp add: getlines_step)
qed

text \<open>Every text of the operation.\<close>

definition column_texts :: "column_def \<Rightarrow> string list" where
  "column_texts c = [col_name c, col_type c, col_default_val c, col_on_update c]"

fun op_texts :: "operation \<Rightarrow> string list" where
  "op_texts (CreateTable op) = [ct_table op, ct_engine op, ct_charset op, ct_comment op] @
     concat (map column_texts (ct_columns op)) @ concat (map (\<lambda>i. idx_name i # idx_columns i) (ct_indexes op))"
| "op_texts (AlterTable op) = [at_table op, at_after_column op] @ concat (map column_texts (at_add_columns op)) @
     at_drop_columns op @ concat (map column_texts (at_modify_columns op))"
| "op_texts (CreateIndex op) = ci_table op # ci_name op # ci_columns op"
| "op_texts (DropIndex op) = [di_table op, di_name op]"
| "op_texts (DropTable op) = [dt_table op]"
| "op_texts (SeedData op) = sd_table op # concat (map (\<lambda>r. concat (map (\<lambda>kv. [fst kv, snd kv]) r)) (sd_rows op))"

definition seed_text :: "seed_data_op \<Rightarrow> string" where
  "seed_text op =
     ''INSERT IGNORE INTO '' @ quoteIdent (sd_table op) @ '' ('' @ joined '', '' (map quoteIdent (map fst (hd (sd_rows op)))) @
     '') VALUES'' @ nl @
     items_text (map (\<lambda>r. ''    ('' @ joined '', '' (map (\<lambda>kv. seed_value (snd kv)) r) @ '')'') (sd_rows op))"

fun op_statements :: "operation \<Rightarrow> string list" where
  "op_statements (CreateTable op) = [create_text op]"
| "op_statements (AlterTable op) = alter_statements op"
| "op_statements (CreateIndex op) =
     [''CREATE '' @ (if ci_unique op then ''UNIQUE '' else []) @ ''INDEX '' @ quoteIdent (ci_name op) @ '' ON '' @
      quoteIdent (ci_table op) @ '' ('' @ joined '', '' (map quoteIdent (ci_columns op)) @ '')'']"
| "op_statements (DropIndex op) = [''DROP INDEX '' @ quoteIdent (di_name op) @ '' ON '' @ quoteIdent (di_table op)]"
| "op_statements (DropTable op) = [''DROP TABLE '' @ (if dt_if_exists op then ''IF EXISTS '' else []) @ quoteIdent (dt_table op)]"
| "op_statements (SeedData op) = (if sd_rows op = [] then [] else [seed_text op])"

lemma operationToSQL_joined:
  "operationToSQL op = (if op_statements op = [] then [] else joined ('';'' @ nl) (op_statements op) @ '';'')"
proof (cases op)
  case (SeedData s)
  then show ?thesis
    by (cases "sd_rows s") (simp_all add: generateSeedData_def seed_text_def quoted_list_joined seed_rows_items
      seed_values_joined o_def)
qed (simp_all add: generateCreateTable_text generateAlterTable_joined generateCreateIndex_def generateDropIndex_def
       generateDropTable_def quoted_list_joined)

definition op_plain :: "operation \<Rightarrow> bool" where
  "op_plain op \<longleftrightarrow> (\<forall>s \<in> set (op_texts op). CHR '';'' \<notin> set s)"

lemma semi_quote: "CHR '';'' \<in> set (quoteIdent s) \<longleftrightarrow> CHR '';'' \<in> set s"
  by (simp add: quoteIdent_def)

lemma semi_column: "CHR '';'' \<in> set (columnDefSQL c) \<Longrightarrow> \<exists>s \<in> set (column_texts c). CHR '';'' \<in> set s"
  by (auto simp: columnDefSQL_def column_texts_def semi_quote split: if_splits)

lemma semi_joined:
  "CHR '';'' \<notin> set sep \<Longrightarrow> CHR '';'' \<in> set (joined sep xs) \<Longrightarrow> \<exists>x \<in> set xs. CHR '';'' \<in> set x"
  using in_joined by fastforce

lemma semi_items: "CHR '';'' \<in> set (items_text xs) \<Longrightarrow> \<exists>x \<in> set xs. CHR '';'' \<in> set x"
  using semi_joined [of "'','' @ nl" xs] by (auto simp: items_text_def nl_def split: if_splits)

lemma semi_names: "CHR '';'' \<in> set (joined '', '' (map quoteIdent xs)) \<Longrightarrow> \<exists>x \<in> set xs. CHR '';'' \<in> set x"
  using semi_joined [of "'', ''" "map quoteIdent xs"] by (auto simp: semi_quote)

lemma semi_index: "CHR '';'' \<in> set (index_sql i) \<Longrightarrow> CHR '';'' \<in> set (idx_name i) \<or> (\<exists>x \<in> set (idx_columns i). CHR '';'' \<in> set x)"
  using semi_names [of "idx_columns i"] by (auto simp: index_sql_def semi_quote quoted_list_joined split: if_splits)

lemma semi_primary_key: "x \<in> set (primary_key_items cs) \<Longrightarrow> CHR '';'' \<in> set x \<Longrightarrow> \<exists>c \<in> set cs. CHR '';'' \<in> set (col_name c)"
  by (cases "find col_primary_key cs") (auto simp: primary_key_items_def semi_quote find_Some_iff)

lemma semi_value: "CHR '';'' \<in> set (seed_value v) \<longleftrightarrow> CHR '';'' \<in> set v"
  by (auto simp: seed_value_def Let_def)

lemma semi_seed_row:
  "CHR '';'' \<in> set (joined '', '' (map (\<lambda>kv. seed_value (snd kv)) r)) \<Longrightarrow> \<exists>kv \<in> set r. CHR '';'' \<in> set (snd kv)"
  using semi_joined [of "'', ''" "map (\<lambda>kv. seed_value (snd kv)) r"] by (auto simp: semi_value)

lemma semi_create:
  assumes "op_plain (CreateTable op)"
  shows "CHR '';'' \<notin> set (create_text op)"
proof
  assume "CHR '';'' \<in> set (create_text op)"
  then have "CHR '';'' \<in> set (items_text (create_items op))"
    using assms by (auto simp: create_text_def op_plain_def semi_quote nl_def split: if_splits)
  then obtain x where x: "x \<in> set (create_items op)" "CHR '';'' \<in> set x" using semi_items by blast
  then consider (column) c where "c \<in> set (ct_columns op)" "x = columnDefSQL c"
    | (pk) "x \<in> set (primary_key_items (ct_columns op))" | (index) i where "i \<in> set (ct_indexes op)" "x = index_sql i"
    by (auto simp: create_items_def)
  then show False
  proof cases
    case column
    then show False using assms x(2) semi_column [of c] by (auto simp: op_plain_def)
  next
    case pk
    then show False using assms semi_primary_key [OF pk x(2)] by (auto simp: op_plain_def column_texts_def)
  next
    case index
    then show False using assms x(2) semi_index [of i] by (auto simp: op_plain_def)
  qed
qed

lemma alter_statement_cases:
  assumes "x \<in> set (alter_statements op)"
  obtains (add) c where "c \<in> set (at_add_columns op)" "x = ''ALTER TABLE '' @ quoteIdent (at_table op) @
      '' ADD COLUMN'' @ nl @ columnDefSQL c @
      (if at_after_column op \<noteq> [] then '' AFTER '' @ quoteIdent (at_after_column op) else [])"
    | (drop) n where "n \<in> set (at_drop_columns op)"
      "x = ''ALTER TABLE '' @ quoteIdent (at_table op) @ '' DROP COLUMN '' @ quoteIdent n"
    | (modify) c where "c \<in> set (at_modify_columns op)"
      "x = ''ALTER TABLE '' @ quoteIdent (at_table op) @ '' MODIFY COLUMN'' @ nl @ columnDefSQL c"
  using assms unfolding alter_statements_def set_map set_append by blast

lemma semi_nl: "CHR '';'' \<notin> set nl"
  by (simp add: nl_def)

lemma semi_alter:
  assumes "op_plain (AlterTable op)" "x \<in> set (alter_statements op)"
  shows "CHR '';'' \<notin> set x"
proof -
  have t: "CHR '';'' \<notin> set (at_table op)" "CHR '';'' \<notin> set (at_after_column op)"
    and d: "n \<in> set (at_drop_columns op) \<Longrightarrow> CHR '';'' \<notin> set n" for n
    using assms(1) by (simp_all add: op_plain_def)
  have c: "CHR '';'' \<notin> set (columnDefSQL c)" if "c \<in> set (at_add_columns op) \<union> set (at_modify_columns op)" for c
  proof
    assume "CHR '';'' \<in> set (columnDefSQL c)"
    then obtain s where "s \<in> set (column_texts c)" "CHR '';'' \<in> set s" using semi_column by blast
    then show False using assms(1) that by (auto simp: op_plain_def)
  qed
  from assms(2) show ?thesis
    by (cases rule: alter_statement_cases) (simp_all add: t d c semi_quote semi_nl)
qed

lemma semi_seed:
  assumes "op_plain (SeedData op)" "sd_rows op \<noteq> []"
  shows "CHR '';'' \<notin> set (seed_text op)"
proof -
  have kv: "CHR '';'' \<notin> set (fst kv)" "CHR '';'' \<notin> set (snd kv)" if "kv \<in> set r" "r \<in> set (sd_rows op)" for kv r
    using assms(1) that by (fastforce simp: op_plain_def)+
  have "CHR '';'' \<notin> set (sd_table op)" using assms(1) by (simp add: op_plain_def)
  moreover have "CHR '';'' \<notin> set (joined '', '' (map quoteIdent (map fst (hd (sd_rows op)))))"
    using semi_names [of "map fst (hd (sd_rows op))"] kv(1) hd_in_set [OF assms(2)] by auto
  moreover have "CHR '';'' \<notin> set (joined '', '' (map (\<lambda>kv. seed_value (snd kv)) r))" if "r \<in> set (sd_rows op)" for r
    using semi_seed_row [of r] kv(2) that by blast
  then have "CHR '';'' \<notin> set (items_text (map (\<lambda>r. ''    ('' @ joined '', '' (map (\<lambda>kv. seed_value (snd kv)) r) @ '')'') (sd_rows op)))"
    using semi_items [of "map (\<lambda>r. ''    ('' @ joined '', '' (map (\<lambda>kv. seed_value (snd kv)) r) @ '')'') (sd_rows op)"] by auto
  ultimately show ?thesis unfolding seed_text_def by (simp add: semi_quote semi_nl)
qed

lemma op_statements_plain:
  assumes "op_plain op" "x \<in> set (op_statements op)"
  shows "CHR '';'' \<notin> set x"
proof (cases op)
  case (CreateIndex i)
  have "CHR '';'' \<notin> set (joined '', '' (map quoteIdent (ci_columns i)))"
    using semi_names [of "ci_columns i"] assms(1) CreateIndex by (auto simp: op_plain_def)
  moreover have "CHR '';'' \<notin> set (ci_name i)" "CHR '';'' \<notin> set (ci_table i)"
    using assms(1) CreateIndex by (simp_all add: op_plain_def)
  ultimately show ?thesis using assms(2) CreateIndex by (simp add: semi_quote split: if_splits)
next
  case (CreateTable c)
  then show ?thesis using assms semi_create by simp
next
  case (AlterTable a)
  then show ?thesis using assms semi_alter by simp
next
  case (SeedData s)
  then show ?thesis using assms semi_seed [of s] by (simp split: if_splits)
qed (use assms in \<open>simp_all add: op_plain_def semi_quote split: if_splits\<close>)

lemma op_statements_nonblank:
  assumes "x \<in> set (op_statements op)"
  shows "trim x \<noteq> []"
proof -
  have "\<exists>c r. x = c # r \<and> \<not> blank c"
  proof (cases op)
    case (AlterTable a)
    then have "x \<in> set (alter_statements a)" using assms by simp
    then obtain r where "x = ''ALTER TABLE '' @ r" by (cases rule: alter_statement_cases) blast+
    then show ?thesis by (simp add: blank_def)
  next
    case (SeedData s)
    then have "x = seed_text s" using assms by (simp split: if_splits)
    then show ?thesis by (simp add: seed_text_def blank_def)
  qed (use assms in \<open>simp_all add: create_text_def blank_def\<close>)
  then show ?thesis using trim_nonblank by blast
qed

section \<open>The reference\<close>

text \<open>
  What the statements should be, written independently of the generators: words separated by blanks, names
  in backquotes, lists separated by commas, bare numbers and keywords and everything else in quotes.
\<close>

definition words :: "string list \<Rightarrow> string" where
  "words = joined '' ''"

definition opt_word :: "bool \<Rightarrow> string \<Rightarrow> string list" where
  "opt_word b w = (if b then [w] else [])"

definition ident :: "string \<Rightarrow> string" where
  "ident s = [CHR 0x60] @ s @ [CHR 0x60]"

definition in_parens :: "string list \<Rightarrow> string" where
  "in_parens xs = ''('' @ joined '', '' xs @ '')''"

definition column_spec :: "column_def \<Rightarrow> string" where
  "column_spec c = words ([ident (col_name c), col_type c] @
     opt_word (col_not_null c) ''NOT NULL'' @ opt_word (col_auto_increment c) ''AUTO_INCREMENT'' @
     (if col_default_val c = [] then [] else [''DEFAULT'', col_default_val c]) @
     (if col_on_update c = [] then [] else [''ON UPDATE'', col_on_update c]))"

definition index_spec :: "index_def \<Rightarrow> string" where
  "index_spec i = words (opt_word (idx_unique i) ''UNIQUE'' @ [''INDEX'', ident (idx_name i), in_parens (map ident (idx_columns i))])"

definition literal :: "string \<Rightarrow> string" where
  "literal v = (if v \<in> {''NULL'', ''TRUE'', ''FALSE'', ''CURRENT_TIMESTAMP''} \<or> (\<exists>c \<in> set ''-0123456789''. take 1 v = [c])
     then v else [CHR 0x27] @ v @ [CHR 0x27])"

definition indented :: "string list \<Rightarrow> string" where
  "indented xs = nl @ items_text (map (\<lambda>x. ''    '' @ x) xs)"

fun statements_spec :: "operation \<Rightarrow> string list" where
  "statements_spec (CreateTable op) =
     [words ([''CREATE TABLE IF NOT EXISTS'', ident (ct_table op),
        ''('' @ indented (map column_spec (ct_columns op) @
           map (\<lambda>c. words [''PRIMARY KEY'', in_parens [ident (col_name c)]]) (take 1 (filter col_primary_key (ct_columns op))) @
           map index_spec (ct_indexes op)) @ '')'',
        ''ENGINE='' @ ct_engine op, ''DEFAULT CHARSET='' @ ct_charset op] @
        opt_word (ct_comment op \<noteq> []) (''COMMENT='' @ [CHR 0x27] @ ct_comment op @ [CHR 0x27]))]"
| "statements_spec (AlterTable op) =
     map (\<lambda>s. words [''ALTER TABLE'', ident (at_table op), s])
       (map (\<lambda>c. words ([''ADD COLUMN'' @ nl @ ''    '' @ column_spec c] @
               (if at_after_column op = [] then [] else [''AFTER'', ident (at_after_column op)]))) (at_add_columns op) @
        map (\<lambda>n. words [''DROP COLUMN'', ident n]) (at_drop_columns op) @
        map (\<lambda>c. ''MODIFY COLUMN'' @ nl @ ''    '' @ column_spec c) (at_modify_columns op))"
| "statements_spec (CreateIndex op) =
     [words ([''CREATE''] @ opt_word (ci_unique op) ''UNIQUE'' @
        [''INDEX'', ident (ci_name op), ''ON'', ident (ci_table op), in_parens (map ident (ci_columns op))])]"
| "statements_spec (DropIndex op) = [words [''DROP INDEX'', ident (di_name op), ''ON'', ident (di_table op)]]"
| "statements_spec (DropTable op) =
     [words ([''DROP TABLE''] @ opt_word (dt_if_exists op) ''IF EXISTS'' @ [ident (dt_table op)])]"
| "statements_spec (SeedData op) = (if sd_rows op = [] then [] else
     [words [''INSERT IGNORE INTO'', ident (sd_table op), in_parens (map (ident \<circ> fst) (hd (sd_rows op))),
        ''VALUES'' @ indented (map (\<lambda>r. in_parens (map (literal \<circ> snd) r)) (sd_rows op))]])"

lemma ident_quote: "ident = quoteIdent"
  by (simp add: ident_def quoteIdent_def fun_eq_iff)

lemma column_spec_text: "columnDefSQL = (\<lambda>c. ''    '' @ column_spec c)"
  by (simp add: fun_eq_iff columnDefSQL_def column_spec_def words_def opt_word_def ident_quote)

lemma index_spec_text: "index_sql = (\<lambda>i. ''    '' @ index_spec i)"
  by (simp add: fun_eq_iff index_sql_def index_spec_def words_def opt_word_def ident_quote in_parens_def quoted_list_joined)

lemma literal_value: "literal v = seed_value v"
  by (cases v) (auto simp: literal_def seed_value_def Let_def)

lemma primary_key_spec:
  "primary_key_items cs = map (\<lambda>c. ''    '' @ words [''PRIMARY KEY'', in_parens [ident (col_name c)]]) (take 1 (filter col_primary_key cs))"
  by (induction cs) (auto simp: primary_key_items_def words_def in_parens_def ident_quote split: option.splits)

lemma create_text_spec: "statements_spec (CreateTable op) = [create_text op]"
  by (simp add: create_text_def create_items_def primary_key_spec column_spec_text index_spec_text o_def words_def
      opt_word_def indented_def ident_quote)

lemma alter_spec: "statements_spec (AlterTable op) = alter_statements op"
  by (simp add: alter_statements_def column_spec_text words_def ident_quote)

lemma statements_spec_eq: "statements_spec op = op_statements op"
proof (cases op)
  case (SeedData o')
  then show ?thesis
    by (simp add: seed_text_def words_def in_parens_def indented_def ident_quote literal_value o_def)
qed (simp_all add: create_text_spec alter_spec words_def opt_word_def in_parens_def ident_quote
       del: statements_spec.simps(1,2))

text \<open>
  C28: When no text of an operation contains a semicolon, splitting the generated SQL at semicolons gives
  exactly the statements of the reference, in order: one CREATE TABLE whose columns, first primary key and
  indexes are separated by commas; one ALTER TABLE for each added, dropped and modified column, each added
  one with the AFTER clause if there is one (the comment at SQLGenerator.h:45 says only the first has it);
  one statement for each other operation, and none for seed data without rows.
\<close>

theorem generated_sql_splits_back:
  assumes "op_plain op"
  shows "statements (operationToSQL op) = map trim (statements_spec op)"
proof (cases "op_statements op")
  case Nil
  then show ?thesis by (simp add: operationToSQL_joined statements_def statements_spec_eq)
next
  case (Cons x xs)
  have p: "\<forall>y \<in> set (x # xs). CHR '';'' \<notin> set y" using op_statements_plain [OF assms] Cons by simp
  have "map trim (getlines (CHR '';'') (operationToSQL op)) = map trim (op_statements op)"
    using getlines_joined [OF p] by (simp add: operationToSQL_joined Cons)
  moreover have "filter (\<lambda>s. s \<noteq> []) (map trim (op_statements op)) = map trim (op_statements op)"
    using op_statements_nonblank by (simp add: filter_id_conv)
  ultimately show ?thesis by (simp only: statements_def statements_spec_eq)
qed

definition demo_users :: operation where
  "demo_users = AlterTable \<lparr>at_table = ''users'',
     at_add_columns = [\<lparr>col_name = ''age'', col_type = ''INT'', col_not_null = True, col_auto_increment = False,
       col_primary_key = False, col_default_val = ''0'', col_on_update = []\<rparr>],
     at_drop_columns = [''nick''], at_modify_columns = [], at_after_column = ''uid''\<rparr>"

theorem generated_sql_splits_back_witness:
  "length (statements (operationToSQL demo_users)) = 2"
proof -
  have "op_plain demo_users" by (simp add: op_plain_def demo_users_def column_texts_def)
  from generated_sql_splits_back [OF this] show ?thesis by (simp add: demo_users_def)
qed

section \<open>Seed data\<close>

text \<open>
  The columns of seeded rows are those of the first row alone: whatever columns a later row names, its
  values go where the first row's went, so the text does not depend on those names.
\<close>

theorem seed_columns_of_later_rows_ignored:
  assumes "map (map snd) rows = map (map snd) rows'"
  shows "generateSeedData \<lparr>sd_table = t, sd_rows = r # rows\<rparr> = generateSeedData \<lparr>sd_table = t, sd_rows = r # rows'\<rparr>"
  using assms by (simp add: generateSeedData_def)

theorem seed_columns_of_later_rows_ignored_witness:
  "generateSeedData \<lparr>sd_table = ''config'', sd_rows = [[(''site_name'', ''tgChat'')], [(''version'', ''v1'')]]\<rparr> =
   generateSeedData \<lparr>sd_table = ''config'', sd_rows = [[(''site_name'', ''tgChat'')], [(''site_name'', ''v1'')]]\<rparr>"
  by (rule seed_columns_of_later_rows_ignored) simp

end
