(* ===== verification/MigrationXml.thy ===== *)
theory MigrationXml
  imports SqlGen
begin

text \<open>
  Migration files (server/tools/dbmigrate/XmlParser.h, XmlParser.cpp). The document is what the vendored
  tinyxml2 library gives: elements with their attributes and child elements in order, comments and text
  left out; reading the file is an argument. A thrown \<open>runtime_error\<close> is its message, on the left.
\<close>

datatype xml = Element (xml_name: string) (xml_attrs: "(string \<times> string) list") (xml_children: "xml list")

record migration_file =
  mf_version :: int
  mf_description :: string
  mf_filename :: string
  mf_filepath :: string
  mf_operations :: "operation list"

section \<open>File names\<close>

definition to_lower :: "char \<Rightarrow> char" where
  "to_lower c = (let n = (of_char c :: nat) in if 65 \<le> n \<and> n \<le> 90 then char_of (n + 32) else c)"

text \<open>
  A whole match of \<open>^V(\d+)__.+\.xml$\<close>, case ignored: the digits, or no match. The digits end at the first
  other character; \<open>.\<close> matches anything but a line break.
\<close>

definition match_filename :: "string \<Rightarrow> string option" where
  "match_filename s =
     (case s of
        [] \<Rightarrow> None
      | v # s1 \<Rightarrow>
          (let ds = takeWhile is_digit s1; s2 = dropWhile is_digit s1; name = drop 2 s2; n = length name - 4
           in if to_lower v = CHR ''v'' \<and> ds \<noteq> [] \<and> take 2 s2 = ''__'' \<and> length name > 4 \<and>
                 map to_lower (drop n name) = ''.xml'' \<and> (\<forall>c \<in> set (take n name). c \<noteq> CHR 0x0A \<and> c \<noteq> CHR 0x0D)
              then Some ds else None))"

text \<open>\<open>std::stoi\<close> of digits: out of the range of \<open>int\<close> it throws.\<close>

definition stoi :: "string \<Rightarrow> string + int" where
  "stoi ds = (if decimal ds < 2 ^ 31 then Inr (int (decimal ds)) else Inl ''stoi'')"

definition parseVersionFromFilename :: "string \<Rightarrow> string + int" where
  "parseVersionFromFilename filename =
     (case match_filename filename of
        None \<Rightarrow> Inl (''invalid filename format: '' @ filename @ '' (expected V{NNN}__description.xml)'')
      | Some ds \<Rightarrow> stoi ds)"

section \<open>Elements\<close>

definition attr :: "xml \<Rightarrow> string \<Rightarrow> string \<Rightarrow> string" where
  "attr e name fallback = (case map_of (xml_attrs e) name of None \<Rightarrow> fallback | Some v \<Rightarrow> v)"

definition attrBool :: "xml \<Rightarrow> string \<Rightarrow> bool" where
  "attrBool e name = (case map_of (xml_attrs e) name of
     Some (c # cs) \<Rightarrow> c = CHR ''1'' \<or> c = CHR ''t'' \<or> c = CHR ''T'' | _ \<Rightarrow> False)"

definition splitColumns :: "string \<Rightarrow> string list" where
  "splitColumns s = filter (\<lambda>t. t \<noteq> []) (getlines (CHR '','') s)"

definition parseColumn :: "xml \<Rightarrow> string + column_def" where
  "parseColumn e =
     (let c = \<lparr>col_name = attr e ''name'' [], col_type = attr e ''type'' [], col_not_null = attrBool e ''not_null'',
            col_auto_increment = attrBool e ''auto_increment'', col_primary_key = attrBool e ''primary_key'',
            col_default_val = attr e ''default'' [], col_on_update = attr e ''on_update'' []\<rparr>
      in if col_name c = [] then Inl (''<column> missing '' @ [CHR 0x27] @ ''name'' @ [CHR 0x27] @ '' attribute'')
         else if col_type c = [] then Inl (''<column name='' @ [CHR 0x27] @ col_name c @ [CHR 0x27] @ ''> missing '' @
                [CHR 0x27] @ ''type'' @ [CHR 0x27] @ '' attribute'')
         else Inr c)"

definition parseIndex :: "xml \<Rightarrow> string + index_def" where
  "parseIndex e =
     (let i = \<lparr>idx_name = attr e ''name'' [], idx_columns = splitColumns (attr e ''columns'' []),
               idx_unique = attrBool e ''unique''\<rparr>
      in if idx_name i = [] then Inl (''<index> missing '' @ [CHR 0x27] @ ''name'' @ [CHR 0x27] @ '' attribute'')
         else if idx_columns i = [] then Inl (''<index name='' @ [CHR 0x27] @ idx_name i @ [CHR 0x27] @ ''> missing '' @
                [CHR 0x27] @ ''columns'' @ [CHR 0x27] @ '' attribute'')
         else Inr i)"

section \<open>Operations\<close>

definition missing :: "string \<Rightarrow> string \<Rightarrow> string \<Rightarrow> string" where
  "missing tag name rest = ''<'' @ tag @ ''> missing '' @ [CHR 0x27] @ name @ [CHR 0x27] @ rest"

fun create_children :: "xml list \<Rightarrow> create_table_op \<Rightarrow> string + create_table_op" where
  "create_children [] op = Inr op"
| "create_children (e # es) op =
     (if xml_name e = ''column'' then
        (case parseColumn e of Inl m \<Rightarrow> Inl m
         | Inr c \<Rightarrow> create_children es (op\<lparr>ct_columns := ct_columns op @ [c]\<rparr>))
      else if xml_name e = ''index'' then
        (case parseIndex e of Inl m \<Rightarrow> Inl m
         | Inr i \<Rightarrow> create_children es (op\<lparr>ct_indexes := ct_indexes op @ [i]\<rparr>))
      else create_children es op)"

definition parseCreateTable :: "xml \<Rightarrow> string + operation" where
  "parseCreateTable e =
     (let op = \<lparr>ct_table = attr e ''name'' [], ct_columns = [], ct_indexes = [], ct_engine = attr e ''engine'' ''InnoDB'',
                ct_charset = attr e ''charset'' ''utf8mb4'', ct_comment = attr e ''comment'' []\<rparr>
      in if ct_table op = [] then Inl (missing ''create_table'' ''name'' '' attribute'')
         else map_sum id CreateTable (create_children (xml_children e) op))"

fun alter_children :: "xml list \<Rightarrow> alter_table_op \<Rightarrow> string + alter_table_op" where
  "alter_children [] op = Inr op"
| "alter_children (e # es) op =
     (if xml_name e = ''add'' then
        (case parseColumn e of Inl m \<Rightarrow> Inl m
         | Inr c \<Rightarrow> alter_children es (op\<lparr>at_after_column :=
               (if at_after_column op = [] then attr e ''after'' [] else at_after_column op),
             at_add_columns := at_add_columns op @ [c]\<rparr>))
      else if xml_name e = ''drop'' then
        (let name = attr e ''name'' []
         in if name = [] then Inl (missing ''drop'' ''name'' '' attribute'')
            else alter_children es (op\<lparr>at_drop_columns := at_drop_columns op @ [name]\<rparr>))
      else if xml_name e = ''modify'' then
        (case parseColumn e of Inl m \<Rightarrow> Inl m
         | Inr c \<Rightarrow> alter_children es (op\<lparr>at_modify_columns := at_modify_columns op @ [c]\<rparr>))
      else alter_children es op)"

definition parseAlterTable :: "xml \<Rightarrow> string + operation" where
  "parseAlterTable e =
     (let op = \<lparr>at_table = attr e ''name'' [], at_add_columns = [], at_drop_columns = [], at_modify_columns = [],
                at_after_column = []\<rparr>
      in if at_table op = [] then Inl (missing ''alter_table'' ''name'' '' attribute'')
         else map_sum id AlterTable (alter_children (xml_children e) op))"

definition parseCreateIndex :: "xml \<Rightarrow> string + operation" where
  "parseCreateIndex e =
     (let op = \<lparr>ci_table = attr e ''table'' [], ci_name = attr e ''name'' [],
                ci_columns = splitColumns (attr e ''columns'' []), ci_unique = attrBool e ''unique''\<rparr>
      in if ci_name op = [] then Inl (missing ''create_index'' ''name'' [])
         else if ci_table op = [] then Inl (missing ''create_index'' ''table'' [])
         else if ci_columns op = [] then Inl (missing ''create_index'' ''columns'' [])
         else Inr (CreateIndex op))"

definition parseDropIndex :: "xml \<Rightarrow> string + operation" where
  "parseDropIndex e =
     (let op = \<lparr>di_table = attr e ''table'' [], di_name = attr e ''name'' []\<rparr>
      in if di_name op = [] then Inl (missing ''drop_index'' ''name'' [])
         else if di_table op = [] then Inl (missing ''drop_index'' ''table'' [])
         else Inr (DropIndex op))"

definition parseDropTable :: "xml \<Rightarrow> string + operation" where
  "parseDropTable e =
     (let op = \<lparr>dt_table = attr e ''name'' [], dt_if_exists = (attrBool e ''if_exists'' \<or> True)\<rparr>
      in if dt_table op = [] then Inl (missing ''drop_table'' ''name'' []) else Inr (DropTable op))"

fun seed_children :: "xml list \<Rightarrow> (string \<times> string) list list" where
  "seed_children [] = []"
| "seed_children (row # rest) =
     (if xml_name row \<noteq> ''row'' then seed_children rest
      else (case map_of (xml_attrs row) ''key'' of
              Some key \<Rightarrow> [(key, attr row ''value'' [])] # seed_children rest
            | None \<Rightarrow> (if xml_attrs row \<noteq> [] then [xml_attrs row] else []) @ seed_children rest))"

definition parseSeedData :: "xml \<Rightarrow> string + operation" where
  "parseSeedData e =
     (let t = attr e ''table'' []
      in if t = [] then Inl (missing ''seed_data'' ''table'' [])
         else Inr (SeedData \<lparr>sd_table = t, sd_rows = seed_children (xml_children e)\<rparr>))"

definition parseOperation :: "string \<Rightarrow> xml \<Rightarrow> string + operation" where
  "parseOperation filepath e =
     (if xml_name e = ''create_table'' then parseCreateTable e
      else if xml_name e = ''alter_table'' then parseAlterTable e
      else if xml_name e = ''create_index'' then parseCreateIndex e
      else if xml_name e = ''drop_index'' then parseDropIndex e
      else if xml_name e = ''drop_table'' then parseDropTable e
      else if xml_name e = ''seed_data'' then parseSeedData e
      else Inl (filepath @ '': unknown operation element <'' @ xml_name e @ ''>''))"

fun parse_operations :: "string \<Rightarrow> xml list \<Rightarrow> string + operation list" where
  "parse_operations filepath [] = Inr []"
| "parse_operations filepath (e # es) =
     (case parseOperation filepath e of
        Inl m \<Rightarrow> Inl m
      | Inr op \<Rightarrow> map_sum id ((#) op) (parse_operations filepath es))"

text \<open>\<open>load\<close> is \<open>LoadFile\<close>: its error, or the elements at the top of the document.\<close>

definition filename_of :: "string \<Rightarrow> string" where
  "filename_of path = rev (takeWhile (\<lambda>c. c \<noteq> CHR ''/'') (rev path))"

definition parseMigrationFile :: "(string \<Rightarrow> string + xml list) \<Rightarrow> string \<Rightarrow> string + migration_file" where
  "parseMigrationFile load filepath =
     (let filename = filename_of filepath
      in case parseVersionFromFilename filename of
           Inl m \<Rightarrow> Inl m
         | Inr version \<Rightarrow>
             (case load filepath of
                Inl e \<Rightarrow> Inl (filepath @ '': XML parse error: '' @ e)
              | Inr doc \<Rightarrow>
                  (case find (\<lambda>e. xml_name e = ''migration'') doc of
                     None \<Rightarrow> Inl (filepath @ '': root element must be <migration>'')
                   | Some root \<Rightarrow>
                       (case parse_operations filepath (xml_children root) of
                          Inl m \<Rightarrow> Inl m
                        | Inr ops \<Rightarrow>
                            if ops = [] then Inl (filepath @ '': no operations found'')
                            else Inr \<lparr>mf_version = version, mf_description = attr root ''description'' [],
                                      mf_filename = filename, mf_filepath = filepath, mf_operations = ops\<rparr>))))"

definition validateMigrationFile :: "(string \<Rightarrow> string + xml list) \<Rightarrow> string \<Rightarrow> string list" where
  "validateMigrationFile load filepath =
     (case parseMigrationFile load filepath of Inl m \<Rightarrow> [m] | Inr mf \<Rightarrow> [])"

section \<open>What is accepted\<close>

definition column_complete :: "column_def \<Rightarrow> bool" where
  "column_complete c \<longleftrightarrow> col_name c \<noteq> [] \<and> col_type c \<noteq> []"

definition index_complete :: "index_def \<Rightarrow> bool" where
  "index_complete i \<longleftrightarrow> idx_name i \<noteq> [] \<and> idx_columns i \<noteq> [] \<and> [] \<notin> set (idx_columns i)"

fun op_complete :: "operation \<Rightarrow> bool" where
  "op_complete (CreateTable op) \<longleftrightarrow> ct_table op \<noteq> [] \<and> (\<forall>c \<in> set (ct_columns op). column_complete c) \<and>
     (\<forall>i \<in> set (ct_indexes op). index_complete i)"
| "op_complete (AlterTable op) \<longleftrightarrow> at_table op \<noteq> [] \<and> (\<forall>c \<in> set (at_add_columns op). column_complete c) \<and>
     [] \<notin> set (at_drop_columns op) \<and> (\<forall>c \<in> set (at_modify_columns op). column_complete c)"
| "op_complete (CreateIndex op) \<longleftrightarrow> ci_name op \<noteq> [] \<and> ci_table op \<noteq> [] \<and> ci_columns op \<noteq> [] \<and> [] \<notin> set (ci_columns op)"
| "op_complete (DropIndex op) \<longleftrightarrow> di_name op \<noteq> [] \<and> di_table op \<noteq> []"
| "op_complete (DropTable op) \<longleftrightarrow> dt_table op \<noteq> [] \<and> dt_if_exists op"
| "op_complete (SeedData op) \<longleftrightarrow> sd_table op \<noteq> [] \<and> [] \<notin> set (sd_rows op)"

lemma parseColumn_complete: "parseColumn e = Inr c \<Longrightarrow> column_complete c"
  by (auto simp: parseColumn_def column_complete_def Let_def split: if_splits)

lemma splitColumns_nonempty: "[] \<notin> set (splitColumns s)"
  by (simp add: splitColumns_def)

lemma parseIndex_complete: "parseIndex e = Inr i \<Longrightarrow> index_complete i"
  by (auto simp: parseIndex_def index_complete_def splitColumns_nonempty Let_def split: if_splits)

lemma create_children_complete:
  "create_children es op = Inr op' \<Longrightarrow> op_complete (CreateTable op) \<Longrightarrow> op_complete (CreateTable op')"
proof (induction es arbitrary: op)
  case (Cons e es)
  consider (column) "xml_name e = ''column''" | (index) "xml_name e = ''index''"
    | (other) "xml_name e \<noteq> ''column''" "xml_name e \<noteq> ''index''" by blast
  then show ?case
  proof cases
    case column
    then obtain c where c: "parseColumn e = Inr c" using Cons.prems(1) by (cases "parseColumn e") simp_all
    then have "create_children es (op\<lparr>ct_columns := ct_columns op @ [c]\<rparr>) = Inr op'" using column Cons.prems(1) by simp
    then show ?thesis by (rule Cons.IH) (use parseColumn_complete [OF c] Cons.prems(2) in auto)
  next
    case index
    then obtain i where i: "parseIndex e = Inr i" using Cons.prems(1) by (cases "parseIndex e") simp_all
    then have "create_children es (op\<lparr>ct_indexes := ct_indexes op @ [i]\<rparr>) = Inr op'" using index Cons.prems(1) by simp
    then show ?thesis by (rule Cons.IH) (use parseIndex_complete [OF i] Cons.prems(2) in auto)
  next
    case other
    then have "create_children es op = Inr op'" using Cons.prems(1) by simp
    then show ?thesis by (rule Cons.IH [OF _ Cons.prems(2)])
  qed
qed simp

lemma alter_children_complete:
  "alter_children es op = Inr op' \<Longrightarrow> op_complete (AlterTable op) \<Longrightarrow> op_complete (AlterTable op')"
proof (induction es arbitrary: op)
  case (Cons e es)
  consider (add) "xml_name e = ''add''" | (drop) "xml_name e = ''drop''" | (modify) "xml_name e = ''modify''"
    | (other) "xml_name e \<noteq> ''add''" "xml_name e \<noteq> ''drop''" "xml_name e \<noteq> ''modify''" by blast
  then show ?case
  proof cases
    case add
    then obtain c where c: "parseColumn e = Inr c" using Cons.prems(1) by (cases "parseColumn e") simp_all
    have "alter_children es (op\<lparr>at_after_column := (if at_after_column op = [] then attr e ''after'' [] else at_after_column op),
             at_add_columns := at_add_columns op @ [c]\<rparr>) = Inr op'"
      using Cons.prems(1) add c by simp
    then show ?thesis by (rule Cons.IH) (use parseColumn_complete [OF c] Cons.prems(2) in auto)
  next
    case drop
    then have n: "attr e ''name'' [] \<noteq> []" using Cons.prems(1) by (cases "attr e ''name'' []") simp_all
    then have "alter_children es (op\<lparr>at_drop_columns := at_drop_columns op @ [attr e ''name'' []]\<rparr>) = Inr op'"
      using Cons.prems(1) drop by (simp add: Let_def)
    then show ?thesis by (rule Cons.IH) (use n Cons.prems(2) in auto)
  next
    case modify
    then obtain c where c: "parseColumn e = Inr c" using Cons.prems(1) by (cases "parseColumn e") simp_all
    have "alter_children es (op\<lparr>at_modify_columns := at_modify_columns op @ [c]\<rparr>) = Inr op'"
      using Cons.prems(1) modify c by simp
    then show ?thesis by (rule Cons.IH) (use parseColumn_complete [OF c] Cons.prems(2) in auto)
  next
    case other
    then have "alter_children es op = Inr op'" using Cons.prems(1) by simp
    then show ?thesis by (rule Cons.IH [OF _ Cons.prems(2)])
  qed
qed simp

lemma seed_children_nonempty: "[] \<notin> set (seed_children es)"
  by (induction es) (auto split: option.splits if_splits)

lemma parseCreateTable_complete:
  assumes "parseCreateTable e = Inr op"
  shows "op_complete op"
proof -
  let ?o = "\<lparr>ct_table = attr e ''name'' [], ct_columns = [], ct_indexes = [], ct_engine = attr e ''engine'' ''InnoDB'',
    ct_charset = attr e ''charset'' ''utf8mb4'', ct_comment = attr e ''comment'' []\<rparr>"
  obtain o' where o': "create_children (xml_children e) ?o = Inr o'" "op = CreateTable o'" "attr e ''name'' [] \<noteq> []"
    using assms by (cases "create_children (xml_children e) ?o") (auto simp: parseCreateTable_def Let_def split: if_splits)
  then show ?thesis using create_children_complete [OF o'(1)] by simp
qed

lemma parseAlterTable_complete:
  assumes "parseAlterTable e = Inr op"
  shows "op_complete op"
proof -
  let ?o = "\<lparr>at_table = attr e ''name'' [], at_add_columns = [], at_drop_columns = [], at_modify_columns = [],
    at_after_column = []\<rparr>"
  obtain o' where o': "alter_children (xml_children e) ?o = Inr o'" "op = AlterTable o'" "attr e ''name'' [] \<noteq> []"
    using assms by (cases "alter_children (xml_children e) ?o") (auto simp: parseAlterTable_def Let_def split: if_splits)
  then show ?thesis using alter_children_complete [OF o'(1)] by simp
qed

lemma simple_ops_complete:
  "parseCreateIndex e = Inr op \<Longrightarrow> op_complete op" "parseDropIndex e = Inr op \<Longrightarrow> op_complete op"
  "parseDropTable e = Inr op \<Longrightarrow> op_complete op" "parseSeedData e = Inr op \<Longrightarrow> op_complete op"
  by (auto simp: parseCreateIndex_def parseDropIndex_def parseDropTable_def parseSeedData_def Let_def
      splitColumns_nonempty seed_children_nonempty split: if_splits)

lemma parseOperation_complete: "parseOperation path e = Inr op \<Longrightarrow> op_complete op"
  unfolding parseOperation_def
  by (simp split: if_splits)
    (blast intro: parseCreateTable_complete parseAlterTable_complete simple_ops_complete)+

lemma parse_operations_complete:
  "parse_operations path es = Inr ops \<Longrightarrow> length ops = length es \<and> (\<forall>op \<in> set ops. op_complete op)"
proof (induction es arbitrary: ops)
  case (Cons e es)
  obtain op where op: "parseOperation path e = Inr op" using Cons.prems by (cases "parseOperation path e") simp_all
  then obtain ops' where "parse_operations path es = Inr ops'" "ops = op # ops'"
    using Cons.prems by (cases "parse_operations path es") simp_all
  then show ?case using Cons.IH parseOperation_complete [OF op] by simp
qed simp

text \<open>
  A migration file that is accepted has a non-negative version and at least one operation, one for
  each element of its root, and no operation lacks a table, a name, a column type or an index's columns;
  every DROP TABLE of it says IF EXISTS.
\<close>

theorem accepted_migrations_complete:
  assumes "parseMigrationFile load filepath = Inr mf"
  shows "0 \<le> mf_version mf \<and> mf_operations mf \<noteq> [] \<and> (\<forall>op \<in> set (mf_operations mf). op_complete op) \<and>
    (\<exists>doc root. load filepath = Inr doc \<and> find (\<lambda>e. xml_name e = ''migration'') doc = Some root \<and>
       length (mf_operations mf) = length (xml_children root))"
proof -
  obtain v doc root ops where p: "parseVersionFromFilename (filename_of filepath) = Inr v" "load filepath = Inr doc"
      "find (\<lambda>e. xml_name e = ''migration'') doc = Some root" "parse_operations filepath (xml_children root) = Inr ops"
      "ops \<noteq> []" "mf_version mf = v" "mf_operations mf = ops"
    using assms by (auto simp: parseMigrationFile_def Let_def split: sum.splits option.splits if_splits)
  have "0 \<le> v" using p(1)
    by (auto simp: parseVersionFromFilename_def stoi_def split: option.splits if_splits)
  then show ?thesis using p parse_operations_complete [OF p(4)] by auto
qed

section \<open>Writing operations\<close>

definition bool_attr :: "string \<Rightarrow> bool \<Rightarrow> (string \<times> string) list" where
  "bool_attr name b = (if b then [(name, ''1'')] else [])"

definition column_attrs :: "column_def \<Rightarrow> (string \<times> string) list" where
  "column_attrs c = [(''name'', col_name c), (''type'', col_type c)] @ bool_attr ''not_null'' (col_not_null c) @
     bool_attr ''auto_increment'' (col_auto_increment c) @ bool_attr ''primary_key'' (col_primary_key c) @
     [(''default'', col_default_val c), (''on_update'', col_on_update c)]"

definition index_xml :: "index_def \<Rightarrow> xml" where
  "index_xml i = Element ''index'' ([(''name'', idx_name i), (''columns'', joined '','' (idx_columns i))] @
     bool_attr ''unique'' (idx_unique i)) []"

fun op_xml :: "operation \<Rightarrow> xml" where
  "op_xml (CreateTable op) = Element ''create_table'' [(''name'', ct_table op), (''engine'', ct_engine op),
     (''charset'', ct_charset op), (''comment'', ct_comment op)]
     (map (\<lambda>c. Element ''column'' (column_attrs c) []) (ct_columns op) @ map index_xml (ct_indexes op))"
| "op_xml (AlterTable op) = Element ''alter_table'' [(''name'', at_table op)]
     (map (\<lambda>c. Element ''add'' (column_attrs c @ [(''after'', at_after_column op)]) []) (at_add_columns op) @
      map (\<lambda>n. Element ''drop'' [(''name'', n)] []) (at_drop_columns op) @
      map (\<lambda>c. Element ''modify'' (column_attrs c) []) (at_modify_columns op))"
| "op_xml (CreateIndex op) = Element ''create_index'' ([(''name'', ci_name op), (''table'', ci_table op),
     (''columns'', joined '','' (ci_columns op))] @ bool_attr ''unique'' (ci_unique op)) []"
| "op_xml (DropIndex op) = Element ''drop_index'' [(''name'', di_name op), (''table'', di_table op)] []"
| "op_xml (DropTable op) = Element ''drop_table'' [(''name'', dt_table op)] []"
| "op_xml (SeedData op) = Element ''seed_data'' [(''table'', sd_table op)] (map (\<lambda>r. Element ''row'' r []) (sd_rows op))"

text \<open>What the format can express: no comma in an indexed column, no seeded column called \<open>key\<close>.\<close>

fun op_writable :: "operation \<Rightarrow> bool" where
  "op_writable (CreateTable op) \<longleftrightarrow> (\<forall>i \<in> set (ct_indexes op). \<forall>c \<in> set (idx_columns i). CHR '','' \<notin> set c)"
| "op_writable (AlterTable op) \<longleftrightarrow> (at_add_columns op = [] \<longrightarrow> at_after_column op = [])"
| "op_writable (CreateIndex op) \<longleftrightarrow> (\<forall>c \<in> set (ci_columns op). CHR '','' \<notin> set c)"
| "op_writable (SeedData op) \<longleftrightarrow> (\<forall>r \<in> set (sd_rows op). ''key'' \<notin> fst ` set r)"
| "op_writable op \<longleftrightarrow> True"

lemma getlines_comma:
  assumes "\<forall>x \<in> set xs. CHR '','' \<notin> set x" "[] \<notin> set xs"
  shows "getlines (CHR '','') (joined '','' xs) = xs"
  using assms
proof (induction xs)
  case (Cons x xs)
  show ?case
  proof (cases xs)
    case Nil
    then show ?thesis using Cons.prems by (simp add: getlines_last)
  next
    case (Cons y ys)
    then have "joined '','' (x # xs) = x @ CHR '','' # joined '','' xs" by simp
    then show ?thesis using Cons.IH Cons.prems getlines_step by simp
  qed
qed simp

lemma splitColumns_joined:
  "\<forall>x \<in> set xs. CHR '','' \<notin> set x \<Longrightarrow> [] \<notin> set xs \<Longrightarrow> splitColumns (joined '','' xs) = xs"
  using getlines_comma by (simp add: splitColumns_def filter_id_conv) metis

lemma column_lookup:
  "map_of (column_attrs c @ xs) ''name'' = Some (col_name c)"
  "map_of (column_attrs c @ xs) ''type'' = Some (col_type c)"
  "map_of (column_attrs c @ xs) ''default'' = Some (col_default_val c)"
  "map_of (column_attrs c @ xs) ''on_update'' = Some (col_on_update c)"
  "map_of (column_attrs c @ xs) ''not_null'' = (if col_not_null c then Some ''1'' else map_of xs ''not_null'')"
  "map_of (column_attrs c @ xs) ''auto_increment'' = (if col_auto_increment c then Some ''1'' else map_of xs ''auto_increment'')"
  "map_of (column_attrs c @ xs) ''primary_key'' = (if col_primary_key c then Some ''1'' else map_of xs ''primary_key'')"
  by (simp_all add: column_attrs_def bool_attr_def)

lemma parseColumn_attrs:
  assumes "column_complete c" "set (map fst xs) \<subseteq> {''after''}"
  shows "parseColumn (Element tag (column_attrs c @ xs) []) = Inr c"
proof -
  have "map_of xs ''not_null'' = None" "map_of xs ''auto_increment'' = None" "map_of xs ''primary_key'' = None"
    using assms(2) by (force simp: map_of_eq_None_iff)+
  then show ?thesis using assms(1)
    by (simp add: parseColumn_def attr_def attrBool_def column_lookup column_complete_def Let_def del: map_of_append)
qed

lemma parseIndex_xml:
  assumes "index_complete i" "\<forall>c \<in> set (idx_columns i). CHR '','' \<notin> set c"
  shows "parseIndex (index_xml i) = Inr i"
  using assms splitColumns_joined [of "idx_columns i"]
  by (simp add: parseIndex_def index_xml_def attr_def attrBool_def bool_attr_def index_complete_def Let_def)

lemma create_children_columns:
  assumes "\<forall>c \<in> set cs. column_complete c"
  shows "create_children (map (\<lambda>c. Element ''column'' (column_attrs c) []) cs @ rest) op =
    create_children rest (op\<lparr>ct_columns := ct_columns op @ cs\<rparr>)"
  using assms
proof (induction cs arbitrary: op)
  case (Cons c cs)
  then show ?case using parseColumn_attrs [of c "[]" "''column''"] by simp
qed simp

lemma create_children_indexes:
  assumes "\<forall>i \<in> set is'. index_complete i \<and> (\<forall>c \<in> set (idx_columns i). CHR '','' \<notin> set c)"
  shows "create_children (map index_xml is') op = Inr (op\<lparr>ct_indexes := ct_indexes op @ is'\<rparr>)"
  using assms
proof (induction is' arbitrary: op)
  case (Cons i is')
  have "xml_name (index_xml i) = ''index''" by (simp add: index_xml_def)
  then show ?case using Cons parseIndex_xml [of i] by simp
qed simp

lemma alter_children_adds:
  assumes "\<forall>c \<in> set cs. column_complete c"
  shows "alter_children (map (\<lambda>c. Element ''add'' (column_attrs c @ [(''after'', a)]) []) cs @ rest) op =
    alter_children rest (op\<lparr>at_after_column := (if cs \<noteq> [] \<and> at_after_column op = [] then a else at_after_column op),
      at_add_columns := at_add_columns op @ cs\<rparr>)"
  using assms
proof (induction cs arbitrary: op)
  case (Cons c cs)
  let ?e = "Element ''add'' (column_attrs c @ [(''after'', a)]) []"
  have p: "parseColumn ?e = Inr c" using Cons.prems parseColumn_attrs [of c "[(''after'', a)]"] by simp
  have "attr ?e ''after'' [] = a" by (simp add: attr_def column_attrs_def bool_attr_def)
  then show ?case using Cons p by (cases "at_after_column op = []") (simp_all add: Cons.IH)
qed simp

lemma alter_children_drops:
  assumes "[] \<notin> set ns"
  shows "alter_children (map (\<lambda>n. Element ''drop'' [(''name'', n)] []) ns @ rest) op =
    alter_children rest (op\<lparr>at_drop_columns := at_drop_columns op @ ns\<rparr>)"
  using assms
proof (induction ns arbitrary: op)
  case (Cons n ns)
  have "attr (Element ''drop'' [(''name'', n)] []) ''name'' [] = n" by (simp add: attr_def)
  moreover have "n \<noteq> []" using Cons.prems by auto
  ultimately show ?case using Cons by (simp add: Let_def)
qed simp

lemma alter_children_modifies:
  assumes "\<forall>c \<in> set cs. column_complete c"
  shows "alter_children (map (\<lambda>c. Element ''modify'' (column_attrs c) []) cs) op =
    Inr (op\<lparr>at_modify_columns := at_modify_columns op @ cs\<rparr>)"
  using assms
proof (induction cs arbitrary: op)
  case (Cons c cs)
  then show ?case using parseColumn_attrs [of c "[]" "''modify''"] by simp
qed simp

lemma seed_children_rows:
  assumes "\<forall>r \<in> set rows. ''key'' \<notin> fst ` set r" "[] \<notin> set rows"
  shows "seed_children (map (\<lambda>r. Element ''row'' r []) rows) = rows"
  using assms
proof (induction rows)
  case (Cons r rows)
  then have "map_of r ''key'' = None" "r \<noteq> []" by (auto simp: map_of_eq_None_iff)
  then show ?case using Cons by simp
qed simp

lemma op_xml_parses:
  assumes "op_complete op" "op_writable op"
  shows "parseOperation path (op_xml op) = Inr op"
proof (cases op)
  case (CreateTable o')
  then show ?thesis using assms
    by (simp add: parseOperation_def parseCreateTable_def attr_def Let_def create_children_columns create_children_indexes)
next
  case (AlterTable o')
  then show ?thesis using assms
    by (cases "at_add_columns o' = []")
      (simp_all add: parseOperation_def parseAlterTable_def attr_def Let_def alter_children_adds alter_children_drops
        alter_children_modifies)
next
  case (CreateIndex o')
  then show ?thesis using assms splitColumns_joined [of "ci_columns o'"]
    by (simp add: parseOperation_def parseCreateIndex_def attr_def attrBool_def bool_attr_def Let_def)
next
  case (DropIndex o')
  then show ?thesis using assms by (simp add: parseOperation_def parseDropIndex_def attr_def Let_def)
next
  case (DropTable o')
  then show ?thesis using assms by (simp add: parseOperation_def parseDropTable_def attr_def Let_def)
next
  case (SeedData o')
  then show ?thesis using assms seed_children_rows [of "sd_rows o'"]
    by (simp add: parseOperation_def parseSeedData_def attr_def Let_def)
qed


lemma demo_users_ok: "op_complete demo_users" "op_writable demo_users"
  by (simp_all add: demo_users_def column_complete_def)


definition demo_document :: "xml list" where
  "demo_document = [Element ''migration'' [(''version'', ''3''), (''description'', ''age'')] [op_xml demo_users]]"

theorem accepted_migrations_complete_witness:
  "\<exists>mf. parseMigrationFile (\<lambda>p. Inr demo_document) ''db/V003__age.xml'' = Inr mf \<and> mf_version mf = 3 \<and>
     op_complete (hd (mf_operations mf))"
proof -
  have v: "parseVersionFromFilename ''V003__age.xml'' = Inr 3"
    by (simp add: parseVersionFromFilename_def match_filename_def is_digit_def to_lower_def stoi_def decimal_def
        digit_val_def char_of_def bit_0 Let_def)
  have "parse_operations ''db/V003__age.xml'' [op_xml demo_users] = Inr [demo_users]"
    by (simp add: op_xml_parses demo_users_ok)
  then have p: "parseMigrationFile (\<lambda>p. Inr demo_document) ''db/V003__age.xml'' = Inr \<lparr>mf_version = 3,
      mf_description = ''age'', mf_filename = ''V003__age.xml'', mf_filepath = ''db/V003__age.xml'',
      mf_operations = [demo_users]\<rparr>"
    using v by (simp add: parseMigrationFile_def filename_of_def demo_document_def attr_def Let_def)
  from accepted_migrations_complete [OF p] show ?thesis using p by simp
qed

end
