(* ===== verification/Migration.thy ===== *)
theory Migration
  imports MigrationXml
begin

text \<open>
  The migration engine (server/tools/dbmigrate/MigrationEngine.h, MigrationEngine.cpp). \<open>en_sent\<close> records
  what is sent to the server, in order: \<open>Sql\<close> through \<open>execSQL\<close>, \<open>Query\<close> through \<open>mysql_query\<close>, and the calls
  for the character set, the autocommit mode and the ends of transactions. What is outside the program is in
  \<open>migration_env\<close>: the server's answer to the newest event (\<open>None\<close> for success, or the error), the rows of
  its two queries, its escaping, the digests of files, the files of the directory and the time a migration
  took. A thrown exception is its message, on the left. Printing is left out.
\<close>

datatype sql_event = Sql string | Query string | SetCharset string | Autocommit bool | CommitCall | RollbackCall

record applied_migration =
  am_version :: int
  am_description :: string
  am_filename :: string
  am_checksum :: string

record migration_config =
  cf_migrations_dir :: string
  cf_dry_run :: bool

record migration_env =
  ev_connects :: bool
  ev_answer :: "sql_event list \<Rightarrow> string option"
  ev_rows :: "sql_event list \<Rightarrow> (int option \<times> string option \<times> string option \<times> string option) list option"
  ev_tables :: "sql_event list \<Rightarrow> string option list option"
  ev_escape :: "string \<Rightarrow> string"
  ev_checksum :: "string \<Rightarrow> string option"
  ev_dir :: "string list option"
  ev_load :: "string \<Rightarrow> string + xml list"
  ev_ms :: int

record engine =
  en_connected :: bool
  en_sent :: "sql_event list"

section \<open>Talking to the server\<close>

definition send_event :: "sql_event \<Rightarrow> engine \<Rightarrow> engine" where
  "send_event x st = st\<lparr>en_sent := en_sent st @ [x]\<rparr>"

definition engine_connect :: "migration_env \<Rightarrow> engine \<Rightarrow> bool \<times> engine" where
  "engine_connect env st =
     (if en_connected st then (True, st)
      else if \<not> ev_connects env then (False, st)
      else (True, (send_event (Autocommit False) (send_event (SetCharset ''utf8mb4'') st))\<lparr>en_connected := True\<rparr>))"

definition execSQL :: "migration_config \<Rightarrow> migration_env \<Rightarrow> string \<Rightarrow> engine \<Rightarrow> bool \<times> engine" where
  "execSQL cfg env sql st =
     (if cf_dry_run cfg then (True, st)
      else (let st1 = send_event (Sql sql) st in (ev_answer env (en_sent st1) = None, st1)))"

definition kCreateVersionTable :: string where
  "kCreateVersionTable = nl @ concat (map (\<lambda>l. l @ nl)
     [''CREATE TABLE IF NOT EXISTS '' @ quoteIdent ''db_schema_version'' @ '' ('',
      ''    '' @ quoteIdent ''version'' @ ''      INT          NOT NULL,'',
      ''    '' @ quoteIdent ''description'' @ ''  VARCHAR(256) NOT NULL,'',
      ''    '' @ quoteIdent ''filename'' @ ''     VARCHAR(256) NOT NULL,'',
      ''    '' @ quoteIdent ''checksum'' @ ''     VARCHAR(64)  NOT NULL,'',
      ''    '' @ quoteIdent ''applied_at'' @ ''   DATETIME     NOT NULL DEFAULT CURRENT_TIMESTAMP,'',
      ''    '' @ quoteIdent ''execution_ms'' @ '' INT          NOT NULL DEFAULT 0,'',
      ''    PRIMARY KEY ('' @ quoteIdent ''version'' @ '')'',
      '') ENGINE=InnoDB DEFAULT CHARSET=utf8mb4 COMMENT='' @ [CHR 0x27] @ ''DB schema migration history'' @ [CHR 0x27] @ '';''])"

definition ensureVersionTable :: "migration_config \<Rightarrow> migration_env \<Rightarrow> engine \<Rightarrow> bool \<times> engine" where
  "ensureVersionTable cfg env st =
     map_prod id (send_event (Autocommit False))
       (execSQL cfg env kCreateVersionTable (send_event (Autocommit True) st))"

definition kSelectApplied :: string where
  "kSelectApplied = ''SELECT version, description, filename, checksum FROM db_schema_version ORDER BY version ASC''"

definition loadAppliedMigrations :: "migration_env \<Rightarrow> engine \<Rightarrow> applied_migration list \<times> engine" where
  "loadAppliedMigrations env st =
     (let st1 = send_event (Query kSelectApplied) st;
          text = (\<lambda>x. case x of None \<Rightarrow> [] | Some s \<Rightarrow> s)
      in (case ev_rows env (en_sent st1) of
            None \<Rightarrow> []
          | Some rows \<Rightarrow> map (\<lambda>(v, d, f, c). \<lparr>am_version = (case v of None \<Rightarrow> 0 | Some i \<Rightarrow> i), am_description = text d,
                                             am_filename = text f, am_checksum = text c\<rparr>) rows, st1))"

definition getUserTables :: "migration_env \<Rightarrow> engine \<Rightarrow> string list \<times> engine" where
  "getUserTables env st =
     (let st1 = send_event (Query ''SHOW TABLES'') st
      in (case ev_tables env (en_sent st1) of
            None \<Rightarrow> []
          | Some rows \<Rightarrow> concat (map (\<lambda>r. case r of None \<Rightarrow> []
                                  | Some t \<Rightarrow> if t \<noteq> ''db_schema_version'' then [t] else []) rows), st1))"

section \<open>Migration files\<close>

fun parse_files :: "migration_env \<Rightarrow> string list \<Rightarrow> string + migration_file list" where
  "parse_files env [] = Inr []"
| "parse_files env (p # ps) =
     (case parseMigrationFile (ev_load env) p of
        Inl m \<Rightarrow> Inl m
      | Inr mf \<Rightarrow> map_sum id ((#) mf) (parse_files env ps))"

text \<open>\<open>std::sort\<close> leaves the order of equal versions open; here they keep the directory's.\<close>

definition scanMigrationFiles :: "migration_config \<Rightarrow> migration_env \<Rightarrow> string + migration_file list" where
  "scanMigrationFiles cfg env =
     (case ev_dir env of
        None \<Rightarrow> Inl (''migrations dir not found: '' @ cf_migrations_dir cfg)
      | Some names \<Rightarrow>
          map_sum id (sort_key mf_version)
            (parse_files env (map (\<lambda>n. cf_migrations_dir cfg @ ''/'' @ n) (filter (\<lambda>n. match_filename n \<noteq> None) names))))"

definition computeChecksum :: "migration_env \<Rightarrow> string \<Rightarrow> string + string" where
  "computeChecksum env path =
     (case ev_checksum env path of None \<Rightarrow> Inl (''cannot open file: '' @ path) | Some ck \<Rightarrow> Inr ck)"

section \<open>Applying\<close>

definition engine_rollback :: "migration_config \<Rightarrow> engine \<Rightarrow> engine" where
  "engine_rollback cfg st = (if cf_dry_run cfg then st else send_event RollbackCall st)"

text \<open>The statements of the operations, until one fails.\<close>

fun exec_all :: "migration_config \<Rightarrow> migration_env \<Rightarrow> string list \<Rightarrow> engine \<Rightarrow> bool \<times> engine" where
  "exec_all cfg env [] st = (True, st)"
| "exec_all cfg env (s # ss) st =
     (case execSQL cfg env s st of
        (False, st1) \<Rightarrow> (False, engine_rollback cfg st1)
      | (True, st1) \<Rightarrow> exec_all cfg env ss st1)"

definition migration_statements :: "migration_file \<Rightarrow> string list" where
  "migration_statements mf = concat (map (\<lambda>op. statements (operationToSQL op)) (mf_operations mf))"

definition insert_sql :: "migration_env \<Rightarrow> migration_file \<Rightarrow> string \<Rightarrow> string" where
  "insert_sql env mf cksum =
     ''INSERT INTO db_schema_version (version, description, filename, checksum, execution_ms) VALUES ('' @
     bytes_str (to_string (mf_version mf)) @ '', '' @ [CHR 0x27] @ ev_escape env (mf_description mf) @ [CHR 0x27] @ '', '' @
     [CHR 0x27] @ ev_escape env (mf_filename mf) @ [CHR 0x27] @ '', '' @ [CHR 0x27] @ ev_escape env cksum @ [CHR 0x27] @ '', '' @
     bytes_str (to_string (ev_ms env)) @ '')''"

definition applyMigration :: "migration_config \<Rightarrow> migration_env \<Rightarrow> migration_file \<Rightarrow> engine \<Rightarrow> (string + bool) \<times> engine" where
  "applyMigration cfg env mf st =
     (case execSQL cfg env ''START TRANSACTION'' st of
        (False, st1) \<Rightarrow> (Inr False, st1)
      | (True, st1) \<Rightarrow>
          (case exec_all cfg env (migration_statements mf) st1 of
             (False, st2) \<Rightarrow> (Inr False, st2)
           | (True, st2) \<Rightarrow>
               (case computeChecksum env (mf_filepath mf) of
                  Inl m \<Rightarrow> (Inl m, st2)
                | Inr cksum \<Rightarrow>
                    (case execSQL cfg env (insert_sql env mf cksum) st2 of
                       (False, st3) \<Rightarrow> (Inr False, engine_rollback cfg st3)
                     | (True, st3) \<Rightarrow>
                         if cf_dry_run cfg then (Inr True, st3)
                         else (let st4 = send_event CommitCall st3
                               in if ev_answer env (en_sent st4) = None then (Inr True, st4)
                                  else (Inr False, send_event RollbackCall st4))))))"

text \<open>Every applied migration must still have its file, unchanged.\<close>

fun check_applied :: "migration_env \<Rightarrow> migration_file list \<Rightarrow> applied_migration list \<Rightarrow> string + bool" where
  "check_applied env files [] = Inr True"
| "check_applied env files (a # as') =
     (case find (\<lambda>f. mf_version f = am_version a) files of
        None \<Rightarrow> Inr False
      | Some f \<Rightarrow>
          (case computeChecksum env (mf_filepath f) of
             Inl m \<Rightarrow> Inl m
           | Inr cksum \<Rightarrow> if cksum \<noteq> am_checksum a then Inr False else check_applied env files as'))"

fun apply_pending ::
  "migration_config \<Rightarrow> migration_env \<Rightarrow> int set \<Rightarrow> migration_file list \<Rightarrow> engine \<Rightarrow> (string + bool) \<times> engine" where
  "apply_pending cfg env applied [] st = (Inr True, st)"
| "apply_pending cfg env applied (mf # mfs) st =
     (if mf_version mf \<in> applied then apply_pending cfg env applied mfs st
      else (case applyMigration cfg env mf st of
              (Inl m, st1) \<Rightarrow> (Inl m, st1)
            | (Inr False, st1) \<Rightarrow> (Inr False, st1)
            | (Inr True, st1) \<Rightarrow> apply_pending cfg env applied mfs st1))"

definition migrate :: "migration_config \<Rightarrow> migration_env \<Rightarrow> engine \<Rightarrow> (string + bool) \<times> engine" where
  "migrate cfg env st =
     (case engine_connect env st of
        (False, st1) \<Rightarrow> (Inr False, st1)
      | (True, st1) \<Rightarrow>
          (case ensureVersionTable cfg env st1 of
             (False, st2) \<Rightarrow> (Inr False, st2)
           | (True, st2) \<Rightarrow>
               (let (applied, st3) = loadAppliedMigrations env st2
                in case scanMigrationFiles cfg env of
                     Inl m \<Rightarrow> (Inl m, st3)
                   | Inr files \<Rightarrow>
                       (case check_applied env files applied of
                          Inl m \<Rightarrow> (Inl m, st3)
                        | Inr False \<Rightarrow> (Inr False, st3)
                        | Inr True \<Rightarrow> apply_pending cfg env (am_version ` set applied) files st3))))"

section \<open>The other commands\<close>

text \<open>\<open>status\<close>: version and description of each file with the digest it was applied with; then the orphans.\<close>

definition status_rows :: "applied_migration list \<Rightarrow> migration_file list \<Rightarrow>
    (int \<times> string \<times> string option) list \<times> (int \<times> string) list" where
  "status_rows applied files =
     (map (\<lambda>mf. (mf_version mf, mf_description mf,
              map_option (\<lambda>a. take 8 (am_checksum a)) (find (\<lambda>a. am_version a = mf_version mf) (rev applied)))) files,
      map (\<lambda>a. (am_version a, am_filename a))
        (filter (\<lambda>a. \<not> list_ex (\<lambda>f. mf_version f = am_version a) files) applied))"

definition pad3 :: "string \<Rightarrow> string" where
  "pad3 s = replicate (3 - length s) (CHR ''0'') @ s"

fun max_version :: "string list \<Rightarrow> int \<Rightarrow> string + int" where
  "max_version [] m = Inr m"
| "max_version (n # ns) m =
     (case match_filename n of
        None \<Rightarrow> max_version ns m
      | Some ds \<Rightarrow> (case stoi ds of Inl e \<Rightarrow> Inl e | Inr v \<Rightarrow> max_version ns (max m v)))"

text \<open>The file name \<open>createMigrationFile\<close> and, with its own \<open>name\<close>, \<open>importSchema\<close> write to.\<close>

definition new_file_name :: "string list option \<Rightarrow> string \<Rightarrow> string + string" where
  "new_file_name names name =
     (case max_version (case names of None \<Rightarrow> [] | Some ns \<Rightarrow> ns) 0 of
        Inl e \<Rightarrow> Inl e
      | Inr m \<Rightarrow> Inr (''V'' @ pad3 (bytes_str (to_string (m + 1))) @ ''__'' @ name @ ''.xml''))"

text \<open>Statements whose failure is only counted.\<close>

fun exec_count :: "migration_config \<Rightarrow> migration_env \<Rightarrow> string list \<Rightarrow> engine \<Rightarrow> nat \<times> engine" where
  "exec_count cfg env [] st = (0, st)"
| "exec_count cfg env (s # ss) st =
     (let (ok, st1) = execSQL cfg env s st
      in map_prod (\<lambda>n. if ok then Suc n else n) id (exec_count cfg env ss st1))"

definition truncateAll :: "migration_config \<Rightarrow> migration_env \<Rightarrow> engine \<Rightarrow> bool \<times> engine" where
  "truncateAll cfg env st =
     (case engine_connect env st of
        (False, st1) \<Rightarrow> (False, st1)
      | (True, st1) \<Rightarrow>
          (let (tables, st2') = getUserTables env st1
           in if tables = [] then (True, st2')
              else (let st2 = send_event (Autocommit True) st2';
                        st3 = snd (execSQL cfg env ''SET FOREIGN_KEY_CHECKS = 0'' st2);
                        (count, st4) = exec_count cfg env (map (\<lambda>t. ''TRUNCATE TABLE '' @ quoteIdent t) tables) st3;
                        st5 = snd (execSQL cfg env ''SET FOREIGN_KEY_CHECKS = 1'' st4)
                    in (count = length tables, send_event (Autocommit False) st5))))"

text \<open>The statements \<open>rebuild\<close> takes from the file: what begins with a minus sign is a comment to it.\<close>

definition rebuild_statements :: "string \<Rightarrow> string list" where
  "rebuild_statements content =
     filter (\<lambda>s. s \<noteq> [] \<and> hd s \<noteq> CHR ''-'') (map trim (getlines (CHR '';'') content))"

definition rebuild :: "migration_config \<Rightarrow> migration_env \<Rightarrow> string option \<Rightarrow> engine \<Rightarrow> bool \<times> engine" where
  "rebuild cfg env file st =
     (case engine_connect env st of
        (False, st1) \<Rightarrow> (False, st1)
      | (True, st1) \<Rightarrow>
          (case file of
             None \<Rightarrow> (False, st1)
           | Some content \<Rightarrow>
               (let (tables, st2') = getUserTables env st1;
                    st2 = send_event (Autocommit True) st2';
                    st3 = snd (execSQL cfg env ''SET FOREIGN_KEY_CHECKS = 0'' st2);
                    st4 = snd (exec_count cfg env (map (\<lambda>t. ''DROP TABLE IF EXISTS '' @ quoteIdent t) tables) st3);
                    st5 = snd (execSQL cfg env (''DROP TABLE IF EXISTS '' @ quoteIdent ''db_schema_version'') st4);
                    st6 = snd (execSQL cfg env ''SET FOREIGN_KEY_CHECKS = 1'' st5);
                    (ok_count, st7) = exec_count cfg env (rebuild_statements content) st6
                in (ok_count = length (rebuild_statements content), send_event (Autocommit False) st7))))"

section \<open>What a migration should send\<close>

text \<open>
  The specification: \<open>sent_until\<close> sends events, after those sent before, as long as the server accepts each;
  \<open>transaction\<close> rolls back unless it was the first event that was refused; \<open>run_pending\<close> goes through the
  migrations. A file that cannot be read ends the run with an exception after the statements, before the record.
\<close>

fun sent_until :: "migration_env \<Rightarrow> sql_event list \<Rightarrow> sql_event list \<Rightarrow> bool \<times> sql_event list" where
  "sent_until env h [] = (True, h)"
| "sent_until env h (x # xs) =
     (if ev_answer env (h @ [x]) = None then sent_until env (h @ [x]) xs else (False, h @ [x]))"

fun transaction :: "migration_env \<Rightarrow> sql_event list \<Rightarrow> sql_event list \<Rightarrow> bool \<times> sql_event list" where
  "transaction env h [] = (True, h)"
| "transaction env h (x # xs) =
     (if ev_answer env (h @ [x]) \<noteq> None then (False, h @ [x])
      else case sent_until env (h @ [x]) xs of (True, h') \<Rightarrow> (True, h') | (False, h') \<Rightarrow> (False, h' @ [RollbackCall]))"

definition migration_body :: "migration_file \<Rightarrow> sql_event list" where
  "migration_body mf = Sql ''START TRANSACTION'' # map Sql (migration_statements mf)"

fun run_pending :: "migration_env \<Rightarrow> sql_event list \<Rightarrow> migration_file list \<Rightarrow> (string + bool) \<times> sql_event list" where
  "run_pending env h [] = (Inr True, h)"
| "run_pending env h (mf # mfs) =
     (case ev_checksum env (mf_filepath mf) of
        None \<Rightarrow> (case transaction env h (migration_body mf) of
                   (False, h') \<Rightarrow> (Inr False, h')
                 | (True, h') \<Rightarrow> (Inl (''cannot open file: '' @ mf_filepath mf), h'))
      | Some ck \<Rightarrow> (case transaction env h (migration_body mf @ [Sql (insert_sql env mf ck), CommitCall]) of
                   (False, h') \<Rightarrow> (Inr False, h')
                 | (True, h') \<Rightarrow> run_pending env h' mfs))"

section \<open>What a migration sends\<close>

lemma send_event_sent [simp]: "en_sent (send_event x st) = en_sent st @ [x]" "en_connected (send_event x st) = en_connected st"
  by (simp_all add: send_event_def)

lemma execSQL_wet:
  "\<not> cf_dry_run cfg \<Longrightarrow> execSQL cfg env s st = (ev_answer env (en_sent st @ [Sql s]) = None, send_event (Sql s) st)"
  by (simp add: execSQL_def)

lemma sent_until_append:
  "sent_until env h (xs @ ys) =
     (case sent_until env h xs of (True, h') \<Rightarrow> sent_until env h' ys | (False, h') \<Rightarrow> (False, h'))"
  by (induction xs arbitrary: h) simp_all

lemma exec_all_wet:
  assumes "\<not> cf_dry_run cfg"
  shows "fst (exec_all cfg env ss st) = fst (sent_until env (en_sent st) (map Sql ss)) \<and>
    en_sent (snd (exec_all cfg env ss st)) =
      (case sent_until env (en_sent st) (map Sql ss) of (True, h') \<Rightarrow> h' | (False, h') \<Rightarrow> h' @ [RollbackCall])"
proof (induction ss arbitrary: st)
  case (Cons s ss)
  then show ?case using Cons.IH [of "send_event (Sql s) st"] assms
    by (cases "ev_answer env (en_sent st @ [Sql s])") (simp_all add: execSQL_wet [OF assms] engine_rollback_def)
qed simp

lemma applyMigration_wet:
  assumes dry: "\<not> cf_dry_run cfg"
  shows "(fst (applyMigration cfg env mf st), en_sent (snd (applyMigration cfg env mf st))) =
    (case ev_checksum env (mf_filepath mf) of
       None \<Rightarrow> (case transaction env (en_sent st) (migration_body mf) of
                  (False, h') \<Rightarrow> (Inr False, h')
                | (True, h') \<Rightarrow> (Inl (''cannot open file: '' @ mf_filepath mf), h'))
     | Some ck \<Rightarrow> (case transaction env (en_sent st) (migration_body mf @ [Sql (insert_sql env mf ck), CommitCall]) of
                  (b, h') \<Rightarrow> (Inr b, h')))"
proof (cases "ev_answer env (en_sent st @ [Sql ''START TRANSACTION'']) = None")
  case False
  then obtain e where "ev_answer env (en_sent st @ [Sql ''START TRANSACTION'']) = Some e" by auto
  then show ?thesis
    by (simp add: applyMigration_def execSQL_wet [OF dry] migration_body_def split: option.split)
next
  case True
  let ?st = "send_event (Sql ''START TRANSACTION'') st" and ?ss = "migration_statements mf"
  obtain ok st2 where e: "exec_all cfg env ?ss ?st = (ok, st2)" by force
  obtain b h where u: "sent_until env (en_sent ?st) (map Sql ?ss) = (b, h)" by force
  have eq: "ok = b" "en_sent st2 = (if b then h else h @ [RollbackCall])"
    using exec_all_wet [OF dry, of env ?ss ?st] e u by (simp_all split: bool.splits)
  show ?thesis
  proof (cases b)
    case False
    then show ?thesis using True e u eq
      by (simp add: applyMigration_def execSQL_wet [OF dry] migration_body_def sent_until_append split: option.split)
  next
    case b: True
    show ?thesis
    proof (cases "ev_checksum env (mf_filepath mf)")
      case None
      then show ?thesis using True b e u eq
        by (simp add: applyMigration_def execSQL_wet [OF dry] migration_body_def computeChecksum_def)
    next
      case (Some ck)
      then show ?thesis using True b e u eq dry
        by (cases "ev_answer env (h @ [Sql (insert_sql env mf ck)])";
            cases "ev_answer env (h @ [Sql (insert_sql env mf ck), CommitCall])")
          (simp_all add: applyMigration_def execSQL_wet [OF dry] migration_body_def computeChecksum_def sent_until_append
            engine_rollback_def Let_def)
    qed
  qed
qed

lemma apply_pending_wet:
  assumes dry: "\<not> cf_dry_run cfg"
  shows "(fst (apply_pending cfg env applied files st), en_sent (snd (apply_pending cfg env applied files st))) =
    run_pending env (en_sent st) (filter (\<lambda>f. mf_version f \<notin> applied) files)"
proof (induction files arbitrary: st)
  case (Cons mf mfs)
  show ?case
  proof (cases "mf_version mf \<in> applied")
    case True
    then show ?thesis using Cons by simp
  next
    case False
    obtain r st1 where r: "applyMigration cfg env mf st = (r, st1)" by force
    note a = applyMigration_wet [OF dry, of env mf st, unfolded r fst_conv snd_conv]
    show ?thesis
    proof (cases "ev_checksum env (mf_filepath mf)")
      case None
      obtain b h where "transaction env (en_sent st) (migration_body mf) = (b, h)" by force
      then show ?thesis using a None False r by (cases b) auto
    next
      case (Some ck)
      obtain b h where "transaction env (en_sent st) (migration_body mf @ [Sql (insert_sql env mf ck), CommitCall]) = (b, h)"
        by force
      then show ?thesis using a Some False r Cons.IH [of st1] by (cases b) auto
    qed
  qed
qed simp

definition preamble :: "sql_event list" where
  "preamble = [SetCharset ''utf8mb4'', Autocommit False, Autocommit True, Sql kCreateVersionTable, Autocommit False,
     Query kSelectApplied]"

text \<open>The state in which the applied migrations have been read, by a first command of an engine.\<close>

definition ready :: engine where
  "ready = \<lparr>en_connected = True, en_sent = preamble\<rparr>"

definition new_engine :: engine where
  "new_engine = \<lparr>en_connected = False, en_sent = []\<rparr>"

definition version_table_ok :: "migration_env \<Rightarrow> bool" where
  "version_table_ok env \<longleftrightarrow> ev_connects env \<and> ev_answer env (take 4 preamble) = None"

definition applied_rows :: "migration_env \<Rightarrow> applied_migration list" where
  "applied_rows env = fst (loadAppliedMigrations env (ready\<lparr>en_sent := butlast preamble\<rparr>))"

lemma migrate_ready:
  assumes "\<not> cf_dry_run cfg" "version_table_ok env"
  shows "migrate cfg env new_engine =
    (case scanMigrationFiles cfg env of
       Inl m \<Rightarrow> (Inl m, ready)
     | Inr files \<Rightarrow>
         (case check_applied env files (applied_rows env) of
            Inl m \<Rightarrow> (Inl m, ready)
          | Inr False \<Rightarrow> (Inr False, ready)
          | Inr True \<Rightarrow> apply_pending cfg env (am_version ` set (applied_rows env)) files ready))"
proof -
  let ?c = "\<lparr>en_connected = True, en_sent = [SetCharset ''utf8mb4'', Autocommit False]\<rparr>"
  let ?b = "ready\<lparr>en_sent := butlast preamble\<rparr>"
  have "engine_connect env new_engine = (True, ?c)"
    using assms(2) by (simp add: engine_connect_def new_engine_def send_event_def version_table_ok_def)
  moreover have "ensureVersionTable cfg env ?c = (True, ?b)"
    using assms by (simp add: ensureVersionTable_def execSQL_def send_event_def ready_def preamble_def version_table_ok_def)
  moreover have "snd (loadAppliedMigrations env ?b) = ready"
    by (simp add: loadAppliedMigrations_def Let_def send_event_def ready_def preamble_def)
  then have "loadAppliedMigrations env ?b = (applied_rows env, ready)" by (simp add: applied_rows_def prod_eq_iff)
  ultimately show ?thesis by (simp add: migrate_def)
qed

lemma en_sent_ready: "en_sent ready = preamble"
  by (simp add: ready_def)

text \<open>Every applied migration still has its file, with the digest it was applied with.\<close>

definition history_intact :: "migration_env \<Rightarrow> migration_file list \<Rightarrow> applied_migration list \<Rightarrow> bool" where
  "history_intact env files applied \<longleftrightarrow>
     (\<forall>a \<in> set applied. \<exists>f. find (\<lambda>f. mf_version f = am_version a) files = Some f \<and>
        ev_checksum env (mf_filepath f) = Some (am_checksum a))"

lemma check_applied_intact: "check_applied env files applied = Inr True \<longleftrightarrow> history_intact env files applied"
  by (induction applied) (auto simp: history_intact_def computeChecksum_def split: option.splits)

text \<open>
  C27: Without \<open>--dry-run\<close>, when the server accepts the connection and the version table and all migration files
  parse, \<open>migrate\<close> first compares every applied migration with its file, and sends nothing beyond the version
  table and the query for its rows, and does not return true, when one is missing, unreadable or changed.
  Otherwise it does what \<open>run_pending\<close> says for the files whose version is not applied, in ascending order of
  version: each is one transaction of START TRANSACTION, its statements, the record and COMMIT; the first
  event the server refuses is the last but a ROLLBACK (none after a refused START TRANSACTION), and the result is
  false; a file that cannot be read for its digest ends the run with an exception before the record; and true is
  returned only when the server has accepted everything.
\<close>

theorem migrate_sends_pending_in_order:
  assumes "\<not> cf_dry_run cfg" "version_table_ok env" "scanMigrationFiles cfg env = Inr files"
    and "migrate cfg env new_engine = (result, st)"
  shows "sorted (map mf_version files) \<and>
    (if \<not> history_intact env files (applied_rows env) then result \<noteq> Inr True \<and> en_sent st = preamble
     else (result, en_sent st) =
       run_pending env preamble (filter (\<lambda>f. mf_version f \<notin> am_version ` set (applied_rows env)) files))"
proof (rule conjI)
  show "sorted (map mf_version files)"
    using assms(3) by (auto simp: scanMigrationFiles_def map_sum_def split: option.splits sum.splits)
next
  note m = assms(4) [unfolded migrate_ready [OF assms(1,2)] Let_def assms(3), simplified]
  show "if \<not> history_intact env files (applied_rows env) then result \<noteq> Inr True \<and> en_sent st = preamble
     else (result, en_sent st) =
       run_pending env preamble (filter (\<lambda>f. mf_version f \<notin> am_version ` set (applied_rows env)) files)"
  proof (cases "history_intact env files (applied_rows env)")
    case True
    then have "check_applied env files (applied_rows env) = Inr True" by (simp add: check_applied_intact)
    then have "apply_pending cfg env (am_version ` set (applied_rows env)) files ready = (result, st)" using m by simp
    then show ?thesis
      using True apply_pending_wet [OF assms(1), of env "am_version ` set (applied_rows env)" files ready]
      by (simp add: en_sent_ready)
  next
    case False
    then have "check_applied env files (applied_rows env) \<noteq> Inr True" by (simp add: check_applied_intact)
    then show ?thesis using m False by (auto simp: ready_def split: sum.splits bool.splits)
  qed
qed

section \<open>New files\<close>

lemma take_digits:
  assumes "list_all is_digit ds"
  shows "takeWhile is_digit (ds @ CHR ''_'' # s) = ds" "dropWhile is_digit (ds @ CHR ''_'' # s) = CHR ''_'' # s"
  using assms by (induction ds) (auto simp: is_digit_def)

lemma match_new_name:
  assumes "list_all is_digit ds" "ds \<noteq> []" "name \<noteq> []" "\<forall>c \<in> set name. c \<noteq> CHR 0x0A \<and> c \<noteq> CHR 0x0D"
  shows "match_filename (''V'' @ ds @ ''__'' @ name @ ''.xml'') = Some ds"
  using assms take_digits [OF assms(1), of "CHR ''_'' # name @ ''.xml''"]
  by (simp add: match_filename_def to_lower_def char_of_def bit_0 Let_def)

lemma digit_char:
  assumes "d < 10"
  shows "is_digit (char_of (48 + d))" "digit_val (char_of (48 + d)) = d"
proof -
  have "\<forall>d \<in> set [0, 1, 2, 3, 4, 5, 6, 7, 8, 9]. is_digit (char_of (48 + d :: nat))"
    by (simp add: is_digit_def char_of_def bit_0)
  moreover have "d \<in> set [0, 1, 2, 3, 4, 5, 6, 7, 8, 9]" using assms by simp arith
  ultimately show "is_digit (char_of (48 + d))" by blast
  have "of_char (char_of (48 + d) :: char) = 48 + d" using assms by (simp add: of_char_of)
  then show "digit_val (char_of (48 + d)) = d" by (simp add: digit_val_def)
qed

lemma decimal_append: "decimal (a @ [c]) = 10 * decimal a + digit_val c"
  by (simp add: decimal_def)

lemma to_string_digits:
  "list_all is_digit (bytes_str (to_string_nat n)) \<and> bytes_str (to_string_nat n) \<noteq> [] \<and>
   decimal (bytes_str (to_string_nat n)) = n"
proof (induction n rule: to_string_nat.induct)
  case (1 n)
  have u: "unat (of_nat (48 + k) :: 8 word) = 48 + k" if "k < 10" for k
    using that by (simp add: unat_of_nat del: of_nat_add of_nat_numeral)
  show ?case
  proof (cases "n < 10")
    case True
    then have "bytes_str (to_string_nat n) = [char_of (48 + n)]"
      using u [OF True] by (subst to_string_nat.simps) (simp add: bytes_str_def)
    then show ?thesis using digit_char [OF True] by (simp add: decimal_def)
  next
    case False
    have d: "n mod 10 < 10" by simp
    have "bytes_str (to_string_nat n) = bytes_str (to_string_nat (n div 10)) @ [char_of (48 + n mod 10)]"
      using False u [OF d] by (subst to_string_nat.simps) (simp add: bytes_str_def)
    then show ?thesis using 1 [OF False] digit_char [OF d] by (simp add: decimal_append)
  qed
qed

lemma decimal_zeros: "decimal (replicate k (CHR ''0'') @ ds) = decimal ds"
  by (induction k) (simp_all add: decimal_def digit_val_def)

lemma pad3_digits:
  fixes i :: int
  assumes "0 \<le> i"
  defines "ds \<equiv> pad3 (bytes_str (to_string i))"
  shows "list_all is_digit ds" "ds \<noteq> []" "decimal ds = nat i"
proof -
  have t: "to_string i = to_string_nat (nat i)" using assms(1) by (simp add: to_string_def)
  show "list_all is_digit ds" "ds \<noteq> []" "decimal ds = nat i"
    using to_string_digits [of "nat i"]
    by (auto simp: ds_def pad3_def t decimal_zeros list_all_iff) (auto simp: is_digit_def)
qed

lemma max_version_spec:
  "max_version names m = Inr k \<Longrightarrow> m \<le> k \<and> (k = m \<or> (\<exists>n \<in> set names. parseVersionFromFilename n = Inr k)) \<and>
     (\<forall>n \<in> set names. \<forall>u. parseVersionFromFilename n = Inr u \<longrightarrow> u \<le> k)"
proof (induction names arbitrary: m)
  case (Cons n ns)
  show ?case
  proof (cases "match_filename n")
    case None
    then show ?thesis using Cons by (simp add: parseVersionFromFilename_def)
  next
    case (Some ds)
    then obtain v where v: "stoi ds = Inr v" "max_version ns (max m v) = Inr k"
      using Cons.prems by (auto split: sum.splits)
    then have "parseVersionFromFilename n = Inr v" using Some by (simp add: parseVersionFromFilename_def)
    then show ?thesis using Cons.IH [OF v(2)] by (auto simp: max_def split: if_splits)
  qed
qed simp

text \<open>
  The file \<open>create\<close> makes is a migration file whose version is above those of all migration files of
  the directory, as long as the highest is below the largest \<open>int\<close>.
\<close>

theorem new_file_has_next_version:
  assumes "new_file_name (Some names) name = Inr file" "name \<noteq> []" "\<forall>c \<in> set name. c \<noteq> CHR 0x0A \<and> c \<noteq> CHR 0x0D"
    and "\<forall>n \<in> set names. parseVersionFromFilename n \<noteq> Inr (2 ^ 31 - 1)"
  shows "\<exists>v. parseVersionFromFilename file = Inr v \<and>
    (\<forall>n \<in> set names. \<forall>u. parseVersionFromFilename n = Inr u \<longrightarrow> u < v)"
proof -
  obtain m where m: "max_version names 0 = Inr m" "file = ''V'' @ pad3 (bytes_str (to_string (m + 1))) @ ''__'' @ name @ ''.xml''"
    using assms(1) by (auto simp: new_file_name_def split: sum.splits)
  note spec = max_version_spec [OF m(1)]
  have "0 \<le> m" using spec by simp
  note d = pad3_digits [of "m + 1"]
  have "m < 2 ^ 31 - 1"
  proof (cases "m = 0")
    case False
    then obtain n where n: "n \<in> set names" "parseVersionFromFilename n = Inr m" using spec by blast
    then have "m \<le> 2 ^ 31 - 1" by (auto simp: parseVersionFromFilename_def stoi_def split: option.splits if_splits)
    moreover have "m \<noteq> 2 ^ 31 - 1" using n assms(4) by blast
    ultimately show ?thesis by simp
  qed simp
  then have "parseVersionFromFilename file = Inr (m + 1)"
    using match_new_name [OF d(1,2) assms(2,3)] d(3) \<open>0 \<le> m\<close>
    by (simp add: parseVersionFromFilename_def m(2) stoi_def)
  moreover have "u < m + 1" if "n \<in> set names" "parseVersionFromFilename n = Inr u" for n u
    using spec that by fastforce
  ultimately show ?thesis by blast
qed

section \<open>Rebuilding\<close>

lemma execSQL_ok:
  "\<not> cf_dry_run cfg \<Longrightarrow> \<forall>xs. ev_answer env xs = None \<Longrightarrow> execSQL cfg env s st = (True, send_event (Sql s) st)"
  by (simp add: execSQL_def Let_def)

lemma exec_count_ok:
  assumes "\<not> cf_dry_run cfg" "\<forall>xs. ev_answer env xs = None"
  shows "exec_count cfg env ss st = (length ss, st\<lparr>en_sent := en_sent st @ map Sql ss\<rparr>)"
proof (induction ss arbitrary: st)
  case (Cons s ss)
  then show ?case by (simp add: execSQL_ok [OF assms] send_event_def)
qed simp

text \<open>
  Rebuilding from a file drops every table first; a statement that follows a comment line is part of
  the piece that begins with the comment and is skipped with it. So when every piece of the file begins
  with a comment, nothing of it is executed, the database is left empty, and success is reported.
\<close>

theorem rebuild_drops_all_and_skips_commented:
  assumes "\<not> cf_dry_run cfg" "ev_connects env" "\<forall>xs. ev_answer env xs = None"
    and "\<forall>s \<in> set (getlines (CHR '';'') content). trim s = [] \<or> hd (trim s) = CHR ''-''"
  shows "rebuild cfg env (Some content) new_engine =
    (True, \<lparr>en_connected = True, en_sent =
       [SetCharset ''utf8mb4'', Autocommit False, Query ''SHOW TABLES'', Autocommit True, Sql ''SET FOREIGN_KEY_CHECKS = 0''] @
       map (\<lambda>t. Sql (''DROP TABLE IF EXISTS '' @ quoteIdent t))
         (fst (getUserTables env \<lparr>en_connected = True, en_sent = [SetCharset ''utf8mb4'', Autocommit False]\<rparr>)) @
       [Sql (''DROP TABLE IF EXISTS '' @ quoteIdent ''db_schema_version''), Sql ''SET FOREIGN_KEY_CHECKS = 1'',
        Autocommit False]\<rparr>)"
proof -
  let ?c = "\<lparr>en_connected = True, en_sent = [SetCharset ''utf8mb4'', Autocommit False]\<rparr>"
  have t: "snd (getUserTables env ?c) = send_event (Query ''SHOW TABLES'') ?c" by (simp add: getUserTables_def Let_def)
  have c: "engine_connect env new_engine = (True, ?c)"
    using assms(2) by (simp add: engine_connect_def new_engine_def send_event_def)
  have "rebuild_statements content = []" using assms(4) by (auto simp: rebuild_statements_def filter_empty_conv)
  then show ?thesis
    by (simp add: rebuild_def c case_prod_unfold t execSQL_ok [OF assms(1,3)] exec_count_ok [OF assms(1,3)] Let_def o_def send_event_def)
qed

section \<open>A small database\<close>

definition demo_config :: migration_config where
  "demo_config = \<lparr>cf_migrations_dir = ''db'', cf_dry_run = False\<rparr>"

definition demo_migration_env :: migration_env where
  "demo_migration_env = \<lparr>ev_connects = True, ev_answer = (\<lambda>xs. None),
     ev_rows = (\<lambda>xs. Some [(Some 1, Some ''init'', Some ''V001__init.xml'', Some ''c1'')]),
     ev_tables = (\<lambda>xs. Some [Some ''users'', Some ''db_schema_version'']), ev_escape = (\<lambda>s. s),
     ev_checksum = (\<lambda>p. Some ''c1''), ev_dir = Some [''V003__age.xml'', ''README.md'', ''V001__init.xml''],
     ev_load = (\<lambda>p. Inr demo_document), ev_ms = 5\<rparr>"

theorem rebuild_drops_all_and_skips_commented_witness:
  "Sql (''DROP TABLE IF EXISTS '' @ quoteIdent ''users'') \<in>
     set (en_sent (snd (rebuild demo_config demo_migration_env (Some (''-- users'' @ nl @ ''CREATE TABLE users (id INT);'')) new_engine)))"
proof -
  have "getlines (CHR '';'') (''-- users'' @ nl @ ''CREATE TABLE users (id INT);'') = [''-- users'' @ nl @ ''CREATE TABLE users (id INT)'']"
    using getlines_step [of "CHR '';''" "''-- users'' @ nl @ ''CREATE TABLE users (id INT)''" "[]"] by (simp add: nl_def)
  then have "\<forall>s \<in> set (getlines (CHR '';'') (''-- users'' @ nl @ ''CREATE TABLE users (id INT);'')).
      trim s = [] \<or> hd (trim s) = CHR ''-''"
    by (simp add: trim_def blank_def nl_def)
  from rebuild_drops_all_and_skips_commented [OF _ _ _ this, of demo_config demo_migration_env]
  show ?thesis by (simp add: demo_config_def demo_migration_env_def getUserTables_def)
qed

theorem new_file_has_next_version_witness:
  "\<exists>file v. new_file_name (Some [''V003__age.xml'', ''README.md'']) ''chat'' = Inr file \<and>
     parseVersionFromFilename file = Inr v \<and> 3 < v"
proof -
  have p: "parseVersionFromFilename ''V003__age.xml'' = Inr 3" "parseVersionFromFilename ''README.md'' \<noteq> Inr (2 ^ 31 - 1)"
    by (simp_all add: parseVersionFromFilename_def match_filename_def is_digit_def to_lower_def stoi_def decimal_def
        digit_val_def char_of_def bit_0 Let_def)
  have "max_version [''V003__age.xml'', ''README.md''] 0 = Inr 3"
    by (simp add: match_filename_def is_digit_def to_lower_def stoi_def decimal_def digit_val_def char_of_def bit_0 Let_def)
  then obtain fn where f: "new_file_name (Some [''V003__age.xml'', ''README.md'']) ''chat'' = Inr fn"
    by (simp add: new_file_name_def)
  have "\<forall>n \<in> set [''V003__age.xml'', ''README.md'']. parseVersionFromFilename n \<noteq> Inr (2 ^ 31 - 1)" using p by simp
  from new_file_has_next_version [OF f _ _ this] p(1) f show ?thesis by auto
qed

definition demo_file :: "int \<Rightarrow> string \<Rightarrow> migration_file" where
  "demo_file v n = \<lparr>mf_version = v, mf_description = ''age'', mf_filename = n, mf_filepath = ''db/'' @ n,
     mf_operations = [demo_users]\<rparr>"

lemma demo_scan:
  "scanMigrationFiles demo_config demo_migration_env = Inr [demo_file 1 ''V001__init.xml'', demo_file 3 ''V003__age.xml'']"
proof -
  have v: "parseVersionFromFilename ''V003__age.xml'' = Inr 3" "parseVersionFromFilename ''V001__init.xml'' = Inr 1"
    by (simp_all add: parseVersionFromFilename_def match_filename_def is_digit_def to_lower_def stoi_def decimal_def
        digit_val_def char_of_def bit_0 Let_def)
  have n: "match_filename ''V003__age.xml'' \<noteq> None" "match_filename ''V001__init.xml'' \<noteq> None"
    "match_filename ''README.md'' = None"
    by (simp_all add: match_filename_def is_digit_def to_lower_def char_of_def bit_0 Let_def)
  have o: "parse_operations p [op_xml demo_users] = Inr [demo_users]" for p
    by (simp add: op_xml_parses demo_users_ok)
  have "parseMigrationFile (\<lambda>p. Inr demo_document) (''db/'' @ n) = Inr (demo_file v n)"
    if "parseVersionFromFilename n = Inr v" "filename_of (''db/'' @ n) = n" for n v
    using that o by (simp add: parseMigrationFile_def demo_document_def attr_def Let_def demo_file_def)
  from this [OF v(1)] this [OF v(2)] n show ?thesis
    by (simp add: scanMigrationFiles_def demo_config_def demo_migration_env_def filename_of_def) (simp add: demo_file_def)
qed

lemma demo_applied: "applied_rows demo_migration_env = [\<lparr>am_version = 1, am_description = ''init'',
    am_filename = ''V001__init.xml'', am_checksum = ''c1''\<rparr>]"
  by (simp add: applied_rows_def loadAppliedMigrations_def demo_migration_env_def Let_def)

text \<open>A server that takes everything, and one that refuses the commit.\<close>

definition no_commit :: "sql_event list \<Rightarrow> string option" where
  "no_commit h = (if last h = CommitCall then Some ''deadlock'' else None)"

lemma sent_until_statements:
  "(\<And>h s. ans (h @ [Sql s]) = None) \<Longrightarrow> sent_until (env\<lparr>ev_answer := ans\<rparr>) h (map Sql ss) = (True, h @ map Sql ss)"
  by (induction ss arbitrary: h) simp_all

theorem migrate_sends_pending_in_order_witness:
  "\<exists>st st' h. migrate demo_config demo_migration_env new_engine = (Inr True, st) \<and>
     migrate demo_config (demo_migration_env\<lparr>ev_answer := no_commit\<rparr>) new_engine = (Inr False, st') \<and>
     en_sent st = preamble @ h @ [CommitCall] \<and> en_sent st' = preamble @ h @ [CommitCall, RollbackCall]"
proof -
  let ?mf = "demo_file 3 ''V003__age.xml''"
  let ?h = "migration_body ?mf @ [Sql (insert_sql demo_migration_env ?mf ''c1'')]"
  have v: "mf_version (demo_file i n) = i" "mf_filepath (demo_file i n) = ''db/'' @ n" for i n
    by (simp_all add: demo_file_def)
  have run: "(fst (migrate demo_config (demo_migration_env\<lparr>ev_answer := ans\<rparr>) new_engine),
       en_sent (snd (migrate demo_config (demo_migration_env\<lparr>ev_answer := ans\<rparr>) new_engine))) =
      (case ans (preamble @ ?h @ [CommitCall]) of None \<Rightarrow> (Inr True, preamble @ ?h @ [CommitCall])
       | Some x \<Rightarrow> (Inr False, preamble @ ?h @ [CommitCall, RollbackCall]))"
    if a: "\<And>h s. ans (h @ [Sql s]) = None" for ans
  proof -
    let ?env = "demo_migration_env\<lparr>ev_answer := ans\<rparr>"
    obtain r st where r: "migrate demo_config ?env new_engine = (r, st)" by force
    have "take 4 preamble = take 3 preamble @ [Sql kCreateVersionTable]" by (simp add: preamble_def)
    then have ok: "\<not> cf_dry_run demo_config" "version_table_ok ?env"
      using a by (simp_all add: demo_config_def demo_migration_env_def version_table_ok_def)
    have scan: "scanMigrationFiles demo_config ?env = Inr [demo_file 1 ''V001__init.xml'', ?mf]"
    proof -
      have "ev_dir ?env = ev_dir demo_migration_env" "ev_load ?env = ev_load demo_migration_env" by simp_all
      moreover from this have "parse_files ?env ps = parse_files demo_migration_env ps" for ps by (induction ps) (simp_all split: sum.split)
      ultimately show ?thesis using demo_scan by (simp add: scanMigrationFiles_def split: option.splits)
    qed
    have rows: "applied_rows ?env = applied_rows demo_migration_env"
      by (simp add: applied_rows_def loadAppliedMigrations_def Let_def)
    have ck: "ev_checksum demo_migration_env p = Some ''c1''" for p by (simp add: demo_migration_env_def)
    have "history_intact ?env [demo_file 1 ''V001__init.xml'', ?mf] (applied_rows ?env)"
      by (simp add: history_intact_def rows demo_applied ck v)
    then have "(r, en_sent st) = run_pending ?env preamble [?mf]"
      using migrate_sends_pending_in_order [OF ok scan r] by (simp add: rows demo_applied v)
    also have "\<dots> = (case ans (preamble @ ?h @ [CommitCall]) of None \<Rightarrow> (Inr True, preamble @ ?h @ [CommitCall])
       | Some x \<Rightarrow> (Inr False, preamble @ ?h @ [CommitCall, RollbackCall]))"
      by (simp add: ck migration_body_def sent_until_append sent_until_statements a insert_sql_def split: option.split)
    finally show ?thesis using r by simp
  qed
  have same: "demo_migration_env\<lparr>ev_answer := \<lambda>xs. None\<rparr> = demo_migration_env" by (simp add: demo_migration_env_def)
  have "no_commit (h @ [Sql s]) = None" "no_commit (preamble @ ?h @ [CommitCall]) = Some ''deadlock''" for h s
    by (simp_all add: no_commit_def)
  then show ?thesis using run [of "\<lambda>xs. None"] run [of no_commit] unfolding same
    by (intro exI [of _ "snd (migrate demo_config demo_migration_env new_engine)"]
        exI [of _ "snd (migrate demo_config (demo_migration_env\<lparr>ev_answer := no_commit\<rparr>) new_engine)"] exI [of _ ?h])
      (simp add: prod_eq_iff)
qed

end
