(* ===== verification/MigrateCli.thy ===== *)
theory MigrateCli
  imports Migration
begin

text \<open>
  The command line of the migration tool (server/tools/dbmigrate/main.cpp) and the commands of
  \<open>MigrationEngine\<close> that write or only print: \<open>create\<close>, \<open>import\<close>, \<open>status\<close>, \<open>list-tables\<close>. The server as
  seen with given options, the directories and the SQL files are arguments; a command yields its exit status,
  the events sent to the server and the files written. Printing is left out.
\<close>

section \<open>Options\<close>

record cli_options =
  co_host :: string
  co_port :: nat
  co_user :: string
  co_password :: string
  co_database :: string
  co_migrations_dir :: string
  co_dry_run :: bool
  co_verbose :: bool
  co_name :: string
  co_sql_file :: string
  co_confirm :: bool

definition default_options :: cli_options where
  "default_options = \<lparr>co_host = ''127.0.0.1'', co_port = 3306, co_user = ''root'', co_password = [], co_database = [],
     co_migrations_dir = ''./db/migrations'', co_dry_run = False, co_verbose = False, co_name = [],
     co_sql_file = [], co_confirm = False\<rparr>"

definition cli_config :: "cli_options \<Rightarrow> migration_config" where
  "cli_config o' = \<lparr>cf_migrations_dir = co_migrations_dir o', cf_dry_run = co_dry_run o'\<rparr>"

text \<open>\<open>parseArg\<close>: the value, and what is left of the arguments after it.\<close>

definition cli_arg :: "string \<Rightarrow> string \<Rightarrow> string \<Rightarrow> string list \<Rightarrow> (string \<times> string list) option" where
  "cli_arg short_flag long_flag arg rest =
     (if (arg = short_flag \<or> arg = long_flag) \<and> rest \<noteq> [] then Some (hd rest, tl rest)
      else let prefix = long_flag @ ''='' in
           if take (length prefix) arg = prefix then Some (drop (length prefix) arg, rest) else None)"

definition value_options :: "(string \<times> string \<times> (string \<Rightarrow> cli_options \<Rightarrow> cli_options)) list" where
  "value_options =
     [(''-H'', ''--host'', \<lambda>v o'. o'\<lparr>co_host := v\<rparr>),
      (''-u'', ''--user'', \<lambda>v o'. o'\<lparr>co_user := v\<rparr>),
      (''-p'', ''--password'', \<lambda>v o'. o'\<lparr>co_password := v\<rparr>),
      (''-d'', ''--database'', \<lambda>v o'. o'\<lparr>co_database := v\<rparr>),
      (''-D'', ''--dir'', \<lambda>v o'. o'\<lparr>co_migrations_dir := v\<rparr>),
      (''-n'', ''--name'', \<lambda>v o'. o'\<lparr>co_name := v\<rparr>),
      (''-f'', ''--file'', \<lambda>v o'. o'\<lparr>co_sql_file := v\<rparr>)]"

fun cli_values ::
  "(string \<times> string \<times> (string \<Rightarrow> cli_options \<Rightarrow> cli_options)) list \<Rightarrow> string \<Rightarrow> string list \<Rightarrow> cli_options \<Rightarrow>
     (cli_options \<times> string list) option" where
  "cli_values [] arg rest o' = None"
| "cli_values ((s, l, assign) # vs) arg rest o' =
     (case cli_arg s l arg rest of
        Some (v, rest') \<Rightarrow> Some (assign v o', rest')
      | None \<Rightarrow> cli_values vs arg rest o')"

lemma cli_values_shorter: "cli_values vs arg rest o' = Some (o1, rest') \<Longrightarrow> length rest' \<le> length rest"
  by (induction vs arg rest o' rule: cli_values.induct) (auto simp: cli_arg_def Let_def split: option.splits if_splits)

text \<open>The loop over the arguments; \<open>None\<close> when \<open>std::stoi\<close> throws. An unknown option only warns.\<close>

function (sequential) cli_parse :: "string list \<Rightarrow> cli_options \<Rightarrow> cli_options option" where
  "cli_parse [] o' = Some o'"
| "cli_parse (arg # rest) o' =
     (case cli_values value_options arg rest o' of
        Some (o1, rest') \<Rightarrow> cli_parse rest' o1
      | None \<Rightarrow>
          if arg = ''-P'' \<or> arg = ''--port'' then
            (case rest of
               [] \<Rightarrow> Some o'
             | v # rest' \<Rightarrow> (case std_stoi v of None \<Rightarrow> None | Some n \<Rightarrow> cli_parse rest' (o'\<lparr>co_port := nat (n mod 2 ^ 16)\<rparr>)))
          else if arg = ''--dry-run'' then cli_parse rest (o'\<lparr>co_dry_run := True\<rparr>)
          else if arg = ''--confirm'' then cli_parse rest (o'\<lparr>co_confirm := True\<rparr>)
          else if arg = ''-v'' \<or> arg = ''--verbose'' then cli_parse rest (o'\<lparr>co_verbose := True\<rparr>)
          else cli_parse rest o')"
  by pat_completeness auto
termination
  by (relation "measure (\<lambda>(args, o'). length args)") (auto simp: less_Suc_eq_le dest: cli_values_shorter)

section \<open>Files written\<close>

text \<open>A directory: missing, present but not to be listed, or the names in it.\<close>

type_synonym directories = "string \<Rightarrow> string list option option"

definition existing_names :: "directories \<Rightarrow> (string \<Rightarrow> bool) \<Rightarrow> string \<Rightarrow> fault + string list" where
  "existing_names dirs mkdir dir =
     (case dirs dir of
        None \<Rightarrow> if mkdir dir then Inr [] else Inl Thrown
      | Some None \<Rightarrow> Inl Thrown
      | Some (Some names) \<Rightarrow> Inr names)"

definition next_file :: "directories \<Rightarrow> (string \<Rightarrow> bool) \<Rightarrow> string \<Rightarrow> string \<Rightarrow> fault + int \<times> string" where
  "next_file dirs mkdir dir name =
     (case existing_names dirs mkdir dir of
        Inl f \<Rightarrow> Inl f
      | Inr names \<Rightarrow>
          (case max_version names 0 of
             Inl e \<Rightarrow> Inl Thrown
           | Inr m \<Rightarrow>
               if m = 2 ^ 31 - 1 then Inl Undefined
               else Inr (m + 1, dir @ ''/V'' @ pad3 (bytes_str (to_string (m + 1))) @ ''__'' @ name @ ''.xml'')))"

abbreviation qu :: string where "qu \<equiv> [CHR 0x22]"

definition skeleton :: "int \<Rightarrow> string \<Rightarrow> string" where
  "skeleton next_version name = concat (map (\<lambda>l. l @ nl)
     [''<migration version='' @ qu @ bytes_str (to_string next_version) @ qu @ '' description='' @ qu @ name @ qu @ ''>'',
      [],
      ''  <!-- create_table example:'',
      ''  <create_table name='' @ qu @ ''my_table'' @ qu @ '' engine='' @ qu @ ''InnoDB'' @ qu @ '' charset='' @ qu @
        ''utf8mb4'' @ qu @ '' comment='' @ qu @ qu @ ''>'',
      ''    <column name='' @ qu @ ''id'' @ qu @ ''   type='' @ qu @ ''BIGINT'' @ qu @ ''      not_null='' @ qu @ ''1'' @ qu @
        '' auto_increment='' @ qu @ ''1'' @ qu @ '' primary_key='' @ qu @ ''1'' @ qu @ ''/>'',
      ''    <column name='' @ qu @ ''name'' @ qu @ '' type='' @ qu @ ''VARCHAR(64)'' @ qu @ '' not_null='' @ qu @ ''1'' @ qu @
        '' default='' @ qu @ [CHR 0x27, CHR 0x27] @ qu @ ''/>'',
      ''    <index  name='' @ qu @ ''idx_name'' @ qu @ '' columns='' @ qu @ ''name'' @ qu @ ''/>'',
      ''  </create_table>'',
      ''  -->'',
      [],
      ''</migration>''])"

definition createMigrationFile :: "directories \<Rightarrow> (string \<Rightarrow> bool) \<Rightarrow> string \<Rightarrow> string \<Rightarrow> fault + (string \<times> string)" where
  "createMigrationFile dirs mkdir dir name =
     (case next_file dirs mkdir dir name of
        Inl f \<Rightarrow> Inl f
      | Inr (next_version, filepath) \<Rightarrow> Inr (filepath, skeleton next_version name))"

section \<open>The tables of an SQL file\<close>

text \<open>
  The search for \<open>CREATE\s+TABLE\s+(?:IF\s+NOT\s+EXISTS\s+)?`?(\w+)`?\<close>, case ignored: a match at the front of a text
  gives the name and what follows. The optional part is tried first and given up if no name follows it.
\<close>

definition word_char :: "char \<Rightarrow> bool" where
  "word_char c \<longleftrightarrow> is_digit c \<or> c = CHR ''_'' \<or> to_lower c \<in> set ''abcdefghijklmnopqrstuvwxyz''"

definition keyword :: "string \<Rightarrow> string \<Rightarrow> string option" where
  "keyword w s = (if map to_lower (take (length w) s) = w then Some (drop (length w) s) else None)"

definition blanks :: "string \<Rightarrow> string option" where
  "blanks s = (if s \<noteq> [] \<and> std_space (hd s) then Some (dropWhile std_space s) else None)"

definition match_name :: "string \<Rightarrow> (string \<times> string) option" where
  "match_name s =
     (let s1 = (if take 1 s = [CHR 0x60] then drop 1 s else s);
          n = takeWhile word_char s1; s2 = dropWhile word_char s1
      in if n = [] then None else Some (n, if take 1 s2 = [CHR 0x60] then drop 1 s2 else s2))"

definition if_not_exists :: "string \<Rightarrow> string option" where
  "if_not_exists s =
     Option.bind (keyword ''if'' s) (\<lambda>s. Option.bind (blanks s) (\<lambda>s. Option.bind (keyword ''not'' s) (\<lambda>s.
     Option.bind (blanks s) (\<lambda>s. Option.bind (keyword ''exists'' s) blanks))))"

definition match_table :: "string \<Rightarrow> (string \<times> string) option" where
  "match_table s =
     Option.bind (keyword ''create'' s) (\<lambda>s. Option.bind (blanks s) (\<lambda>s. Option.bind (keyword ''table'' s) (\<lambda>s.
     Option.bind (blanks s) (\<lambda>s.
       case Option.bind (if_not_exists s) match_name of
         Some r \<Rightarrow> Some r
       | None \<Rightarrow> match_name s))))"

lemma keyword_length: "keyword w s = Some r \<Longrightarrow> length r \<le> length s"
  by (auto simp: keyword_def split: if_splits)

lemma blanks_length: "blanks s = Some r \<Longrightarrow> length r < length s"
  by (cases s) (auto simp: blanks_def less_Suc_eq_le length_dropWhile_le split: if_splits)

lemma match_name_length: "match_name s = Some (n, r) \<Longrightarrow> length r \<le> length s"
proof -
  assume h: "match_name s = Some (n, r)"
  let ?s1 = "if take 1 s = [CHR 0x60] then drop 1 s else s"
  have "length (dropWhile word_char ?s1) \<le> length ?s1" "length ?s1 \<le> length s" by (simp_all add: length_dropWhile_le)
  moreover have "length r \<le> length (dropWhile word_char ?s1)"
    using h by (auto simp: match_name_def Let_def split: if_splits)
  ultimately show "length r \<le> length s" by linarith
qed

lemma if_not_exists_length: "if_not_exists s = Some r \<Longrightarrow> length r \<le> length s"
  by (fastforce simp: if_not_exists_def bind_eq_Some_conv dest!: keyword_length blanks_length)

lemma match_table_length:
  assumes "match_table s = Some (n, r)"
  shows "length r < length s"
proof -
  obtain s1 s2 s3 s4 where s: "keyword ''create'' s = Some s1" "blanks s1 = Some s2" "keyword ''table'' s2 = Some s3"
    "blanks s3 = Some s4" "(case Option.bind (if_not_exists s4) match_name of Some r \<Rightarrow> Some r | None \<Rightarrow> match_name s4) = Some (n, r)"
    using assms by (auto simp: match_table_def bind_eq_Some_conv)
  have "length r \<le> length s4"
  proof (cases "Option.bind (if_not_exists s4) match_name")
    case None
    then show ?thesis using s(5) match_name_length by simp
  next
    case (Some q)
    then obtain s5 where "if_not_exists s4 = Some s5" "match_name s5 = Some (n, r)" using s(5) by (auto simp: bind_eq_Some_conv)
    then show ?thesis using if_not_exists_length match_name_length by fastforce
  qed
  then show ?thesis
    using keyword_length [OF s(1)] blanks_length [OF s(2)] keyword_length [OF s(3)] blanks_length [OF s(4)] by linarith
qed

function find_tables :: "string \<Rightarrow> string list" where
  "find_tables s =
     (case match_table s of
        Some (n, rest) \<Rightarrow> n # find_tables rest
      | None \<Rightarrow> if s = [] then [] else find_tables (tl s))"
  by pat_completeness auto
termination
  by (relation "measure length") (auto dest: match_table_length)

declare find_tables.simps [simp del]

definition imported_table :: "string \<Rightarrow> string" where
  "imported_table tbl = concat (map (\<lambda>l. l @ nl)
     [''  <!-- imported table: '' @ tbl @ '' -->'',
      ''  <create_table name='' @ qu @ tbl @ qu @ '' engine='' @ qu @ ''InnoDB'' @ qu @ '' charset='' @ qu @ ''utf8mb4'' @ qu @ ''>'',
      ''    <!-- TODO: fill in column definitions -->'',
      ''    <column name='' @ qu @ ''id'' @ qu @ '' type='' @ qu @ ''BIGINT'' @ qu @ '' not_null='' @ qu @ ''1'' @ qu @
        '' auto_increment='' @ qu @ ''1'' @ qu @ '' primary_key='' @ qu @ ''1'' @ qu @ ''/>'',
      ''  </create_table>'',
      []])"

text \<open>What \<open>importSchema\<close> writes, if anything.\<close>

definition importSchema ::
  "(string \<Rightarrow> string option) \<Rightarrow> directories \<Rightarrow> (string \<Rightarrow> bool) \<Rightarrow> string \<Rightarrow> string \<Rightarrow> fault + (string \<times> string) option" where
  "importSchema read_file dirs mkdir dir sql_file =
     (case read_file sql_file of
        None \<Rightarrow> Inr None
      | Some content \<Rightarrow>
          (let tables = find_tables content in
           if tables = [] then Inr None
           else case next_file dirs mkdir dir ''import_from_sql'' of
                  Inl f \<Rightarrow> Inl f
                | Inr (next_version, filepath) \<Rightarrow>
                    Inr (Some (filepath,
                      ''<migration version='' @ qu @ bytes_str (to_string next_version) @ qu @ '' description='' @ qu @
                      ''import from sql'' @ qu @ ''>'' @ nl @ nl @ concat (map imported_table tables) @ ''</migration>'' @ nl))))"

section \<open>Commands\<close>

definition engine_status :: "migration_config \<Rightarrow> migration_env \<Rightarrow> engine \<Rightarrow>
    (string + ((int \<times> string \<times> string option) list \<times> (int \<times> string) list) option) \<times> engine" where
  "engine_status cfg env st =
     (case engine_connect env st of
        (False, st1) \<Rightarrow> (Inr None, st1)
      | (True, st1) \<Rightarrow>
          (case ensureVersionTable cfg env st1 of
             (False, st2) \<Rightarrow> (Inr None, st2)
           | (True, st2) \<Rightarrow>
               (let (applied, st3) = loadAppliedMigrations env st2
                in case scanMigrationFiles cfg env of
                     Inl m \<Rightarrow> (Inl m, st3)
                   | Inr files \<Rightarrow> (Inr (Some (status_rows applied files)), st3))))"

definition listTables :: "migration_env \<Rightarrow> engine \<Rightarrow> string list option \<times> engine" where
  "listTables env st =
     (case engine_connect env st of
        (False, st1) \<Rightarrow> (None, st1)
      | (True, st1) \<Rightarrow> map_prod Some id (getUserTables env st1))"

datatype cli_exit = Exit int | Fault fault

record cli_result =
  cr_exit :: cli_exit
  cr_sent :: "sql_event list"
  cr_files :: "(string \<times> string) list"

definition leave :: "cli_exit \<Rightarrow> cli_result" where
  "leave e = \<lparr>cr_exit = e, cr_sent = [], cr_files = []\<rparr>"

definition leave_with :: "engine \<Rightarrow> cli_exit \<Rightarrow> cli_result" where
  "leave_with st e = \<lparr>cr_exit = e, cr_sent = en_sent st, cr_files = []\<rparr>"

abbreviation status_of :: "bool \<Rightarrow> cli_exit" where
  "status_of ok \<equiv> Exit (if ok then 0 else 1)"

definition validate_cmd :: "directories \<Rightarrow> (string \<Rightarrow> string + xml list) \<Rightarrow> string \<Rightarrow> cli_exit" where
  "validate_cmd dirs load dir =
     (case dirs dir of
        None \<Rightarrow> Exit 1
      | Some None \<Rightarrow> Fault Thrown
      | Some (Some names) \<Rightarrow>
          status_of (\<forall>fname \<in> set (filter (\<lambda>n. 4 \<le> length n \<and> drop (length n - 4) n = ''.xml'') names).
            validateMigrationFile load (dir @ ''/'' @ fname) = []))"

text \<open>The commands that need a database. An exception that leaves \<open>main\<close> is a fault.\<close>

definition database_cmd :: "migration_env \<Rightarrow> (string \<Rightarrow> string option) \<Rightarrow> string \<Rightarrow> cli_options \<Rightarrow> cli_result" where
  "database_cmd env read_file command o' =
     (let cfg = cli_config o' in
      if co_database o' = [] then leave (Exit 1)
      else if command = ''migrate'' then
        (case migrate cfg env new_engine of
           (Inl m, st) \<Rightarrow> leave_with st (Fault Thrown)
         | (Inr ok, st) \<Rightarrow> leave_with st (status_of ok))
      else if command = ''status'' then
        (case engine_status cfg env new_engine of
           (Inl m, st) \<Rightarrow> leave_with st (Fault Thrown)
         | (Inr rows, st) \<Rightarrow> leave_with st (Exit 0))
      else if command = ''list-tables'' then leave_with (snd (listTables env new_engine)) (Exit 0)
      else if command = ''truncate-all'' then
        (if \<not> co_confirm o' then leave (Exit 1)
         else case truncateAll cfg env new_engine of (ok, st) \<Rightarrow> leave_with st (status_of ok))
      else if command = ''rebuild'' then
        (if co_sql_file o' = [] then leave (Exit 1)
         else case rebuild cfg env (read_file (co_sql_file o')) new_engine of (ok, st) \<Rightarrow> leave_with st (status_of ok))
      else leave (Exit 1))"

definition cli_main ::
  "(cli_options \<Rightarrow> migration_env) \<Rightarrow> (string \<Rightarrow> string option) \<Rightarrow> directories \<Rightarrow> (string \<Rightarrow> bool) \<Rightarrow> string list \<Rightarrow> cli_result" where
  "cli_main server read_file dirs mkdir argv =
     (case drop 1 argv of
        [] \<Rightarrow> leave (Exit 1)
      | command # args \<Rightarrow>
          if command = ''--help'' \<or> command = ''-h'' then leave (Exit 0)
          else case cli_parse args default_options of
                 None \<Rightarrow> leave (Fault Thrown)
               | Some o' \<Rightarrow>
                   if command = ''validate'' then leave (validate_cmd dirs (ev_load (server o')) (co_migrations_dir o'))
                   else if command = ''create'' then
                     (if co_name o' = [] then leave (Exit 1)
                      else case createMigrationFile dirs mkdir (co_migrations_dir o') (co_name o') of
                             Inl f \<Rightarrow> leave (Fault f)
                           | Inr file \<Rightarrow> (leave (Exit 0))\<lparr>cr_files := [file]\<rparr>)
                   else if command = ''import'' then
                     (if co_sql_file o' = [] then leave (Exit 1)
                      else case importSchema read_file dirs mkdir (co_migrations_dir o') (co_sql_file o') of
                             Inl f \<Rightarrow> leave (Fault f)
                           | Inr files \<Rightarrow> (leave (Exit 0))\<lparr>cr_files := (case files of None \<Rightarrow> [] | Some f \<Rightarrow> [f])\<rparr>)
                   else database_cmd (server o') read_file command o')"

section \<open>Dry runs\<close>

text \<open>What reaches the server in a dry run: settings of the connection and two queries that change nothing.\<close>

definition reads_only :: "sql_event \<Rightarrow> bool" where
  "reads_only e \<longleftrightarrow> (\<exists>b. e = Autocommit b) \<or> e = SetCharset ''utf8mb4'' \<or> e = Query kSelectApplied \<or> e = Query ''SHOW TABLES''"

definition only_reads :: "engine \<Rightarrow> bool" where
  "only_reads st \<longleftrightarrow> (\<forall>e \<in> set (en_sent st). reads_only e)"

lemma reads_only_simps [simp]:
  "reads_only (Autocommit b)" "reads_only (SetCharset ''utf8mb4'')" "reads_only (Query kSelectApplied)"
  "reads_only (Query ''SHOW TABLES'')"
  by (simp_all add: reads_only_def)

lemma only_reads_send [simp]: "only_reads st \<Longrightarrow> only_reads (send_event (Autocommit b) st)"
  by (simp add: only_reads_def)

lemma only_reads_queries [simp]:
  "only_reads st \<Longrightarrow> only_reads (snd (loadAppliedMigrations env st))"
  "only_reads st \<Longrightarrow> only_reads (snd (getUserTables env st))"
  by (simp_all add: loadAppliedMigrations_def getUserTables_def Let_def only_reads_def)

lemma only_reads_new [simp]: "only_reads new_engine"
  by (simp add: only_reads_def new_engine_def)

lemma only_reads_connect: "engine_connect env st = (ok, st') \<Longrightarrow> only_reads st \<Longrightarrow> only_reads st'"
  by (auto simp: engine_connect_def only_reads_def split: if_splits)

lemma exec_dry: "cf_dry_run cfg \<Longrightarrow> execSQL cfg env s st = (True, st)"
  by (simp add: execSQL_def)

lemma exec_all_dry: "cf_dry_run cfg \<Longrightarrow> exec_all cfg env ss st = (True, st)"
  by (induction ss) (simp_all add: exec_dry)

lemma exec_count_dry: "cf_dry_run cfg \<Longrightarrow> exec_count cfg env ss st = (length ss, st)"
  by (induction ss) (simp_all add: exec_dry)

lemma ensure_dry:
  "cf_dry_run cfg \<Longrightarrow> ensureVersionTable cfg env st = (True, send_event (Autocommit False) (send_event (Autocommit True) st))"
  by (simp add: ensureVersionTable_def exec_dry)

lemma apply_dry: "cf_dry_run cfg \<Longrightarrow> snd (applyMigration cfg env mf st) = st"
  by (simp add: applyMigration_def exec_dry exec_all_dry split: sum.split)

lemma apply_pending_dry: "cf_dry_run cfg \<Longrightarrow> snd (apply_pending cfg env applied mfs st) = st"
proof (induction mfs)
  case (Cons mf mfs)
  then show ?case using apply_dry [OF Cons.prems, of env mf st]
    by (auto split: prod.split sum.split bool.split)
qed simp

lemma migrate_dry:
  assumes "cf_dry_run cfg" "only_reads st"
  shows "only_reads (snd (migrate cfg env st))"
proof (cases "engine_connect env st")
  case (Pair ok st1)
  then have "only_reads st1" using only_reads_connect assms(2) by blast
  then show ?thesis using Pair apply_pending_dry [OF assms(1)]
    by (simp add: migrate_def ensure_dry [OF assms(1)] Let_def case_prod_beta split: bool.split sum.split)
qed

lemma status_dry:
  assumes "cf_dry_run cfg" "only_reads st"
  shows "only_reads (snd (engine_status cfg env st))"
proof (cases "engine_connect env st")
  case (Pair ok st1)
  then have "only_reads st1" using only_reads_connect assms(2) by blast
  then show ?thesis using Pair
    by (simp add: engine_status_def ensure_dry [OF assms(1)] Let_def case_prod_beta split: bool.split sum.split)
qed

lemma tables_reads: "only_reads st \<Longrightarrow> only_reads (snd (listTables env st))"
  by (auto simp: listTables_def dest: only_reads_connect split: prod.split bool.split)

lemma truncate_dry:
  assumes "cf_dry_run cfg" "only_reads st"
  shows "only_reads (snd (truncateAll cfg env st))"
proof (cases "engine_connect env st")
  case (Pair ok st1)
  then have "only_reads st1" using only_reads_connect assms(2) by blast
  then show ?thesis using Pair
    by (simp add: truncateAll_def exec_dry [OF assms(1)] exec_count_dry [OF assms(1)] Let_def case_prod_beta split: bool.split)
qed

lemma rebuild_dry:
  assumes "cf_dry_run cfg" "only_reads st"
  shows "only_reads (snd (rebuild cfg env content st))"
proof (cases "engine_connect env st")
  case (Pair ok st1)
  then have "only_reads st1" using only_reads_connect assms(2) by blast
  then show ?thesis using Pair
    by (simp add: rebuild_def exec_dry [OF assms(1)] exec_count_dry [OF assms(1)] Let_def case_prod_beta split: bool.split option.split)
qed

lemmas commands_dry = migrate_dry status_dry tables_reads truncate_dry rebuild_dry

lemma leave_with_reads: "only_reads st \<Longrightarrow> e \<in> set (cr_sent (leave_with st x)) \<Longrightarrow> reads_only e"
  by (simp add: leave_with_def only_reads_def)

lemma database_cmd_dry:
  assumes "co_dry_run o'" "e \<in> set (cr_sent (database_cmd env read_file command o'))"
  shows "reads_only e"
proof -
  have d: "cf_dry_run (cli_config o')" using assms(1) by (simp add: cli_config_def)
  have l: "cr_sent (leave y) = []" for y by (simp add: leave_def)
  note safe = leave_with_reads [OF migrate_dry [OF d only_reads_new]]
    leave_with_reads [OF status_dry [OF d only_reads_new]]
    leave_with_reads [OF tables_reads [OF only_reads_new]]
    leave_with_reads [OF truncate_dry [OF d only_reads_new]]
    leave_with_reads [OF rebuild_dry [OF d only_reads_new]]
  consider "e \<in> set (cr_sent (leave_with (snd (migrate (cli_config o') env new_engine)) (Fault Thrown)))"
    | "e \<in> set (cr_sent (leave_with (snd (engine_status (cli_config o') env new_engine)) (Fault Thrown)))"
    | "e \<in> set (cr_sent (leave_with (snd (listTables env new_engine)) (Fault Thrown)))"
    | "e \<in> set (cr_sent (leave_with (snd (truncateAll (cli_config o') env new_engine)) (Fault Thrown)))"
    | "e \<in> set (cr_sent (leave_with (snd (rebuild (cli_config o') env (read_file (co_sql_file o')) new_engine)) (Fault Thrown)))"
    using assms(2) by (auto simp: database_cmd_def leave_with_def l Let_def split: if_splits prod.splits sum.splits)
  then show ?thesis by cases (fact safe)+
qed

text \<open>
  C38: With \<open>--dry-run\<close> among the options that are read, no command sends the server a statement that could change
  anything, a commit or a rollback: all that reaches it are the setting of the character set, switches of the
  autocommit mode, the query for the rows of the version table and \<open>SHOW TABLES\<close>.
\<close>

theorem dry_run_sends_no_statement:
  assumes "cli_parse args default_options = Some o'" "co_dry_run o'"
    and "e \<in> set (cr_sent (cli_main server read_file dirs mkdir (prog # command # args)))"
  shows "(\<exists>b. e = Autocommit b) \<or> e = SetCharset ''utf8mb4'' \<or> e = Query kSelectApplied \<or> e = Query ''SHOW TABLES''"
proof -
  have l: "cr_sent (leave y) = []" "cr_sent ((leave y)\<lparr>cr_files := fs\<rparr>) = []" for y fs by (simp_all add: leave_def)
  have "e \<in> set (cr_sent (database_cmd (server o') read_file command o'))"
    using assms(1,3) by (auto simp: cli_main_def l split: if_splits sum.splits)
  then show ?thesis using database_cmd_dry [OF assms(2)] by (simp add: reads_only_def)
qed

section \<open>What a command may change\<close>

lemma ensure_sends:
  "ensureVersionTable cfg env st = (ok, st') \<Longrightarrow>
   set (en_sent st') \<subseteq> set (en_sent st) \<union> {Autocommit True, Autocommit False, Sql kCreateVersionTable}"
  by (auto simp: ensureVersionTable_def execSQL_def Let_def split: if_splits)

lemma connect_sends: "engine_connect env st = (ok, st') \<Longrightarrow> set (en_sent st') \<subseteq> set (en_sent st) \<union> {SetCharset ''utf8mb4'', Autocommit False}"
  by (auto simp: engine_connect_def split: if_splits)

lemma status_sends: "set (en_sent (snd (engine_status cfg env new_engine))) \<subseteq> set preamble"
proof (cases "engine_connect env new_engine")
  case c: (Pair ok st1)
  obtain ok2 st2 where e: "ensureVersionTable cfg env st1 = (ok2, st2)" by force
  have "set (en_sent st1) \<subseteq> set preamble" using connect_sends [OF c] by (auto simp: new_engine_def preamble_def)
  moreover from this have "set (en_sent st2) \<subseteq> set preamble" using ensure_sends [OF e] by (auto simp: preamble_def)
  ultimately show ?thesis using c e
    by (auto simp: engine_status_def loadAppliedMigrations_def Let_def preamble_def split: bool.split sum.split)
qed

lemma tables_sends: "set (en_sent (snd (listTables env new_engine))) \<subseteq> insert (Query ''SHOW TABLES'') (set preamble)"
proof (cases "engine_connect env new_engine")
  case c: (Pair ok st1)
  have "set (en_sent st1) \<subseteq> set preamble" using connect_sends [OF c] by (auto simp: new_engine_def preamble_def)
  then show ?thesis using c by (auto simp: listTables_def getUserTables_def Let_def split: bool.split)
qed

text \<open>
  Whatever its options, a command other than \<open>migrate\<close>, \<open>rebuild\<close> and a confirmed \<open>truncate-all\<close> sends at
  most the creation of the version table and the two queries.
\<close>

theorem other_commands_keep_tables:
  assumes "command \<noteq> ''migrate''" "command \<noteq> ''rebuild''"
    and "command = ''truncate-all'' \<Longrightarrow> \<forall>o'. cli_parse args default_options = Some o' \<longrightarrow> \<not> co_confirm o'"
  shows "set (cr_sent (cli_main server read_file dirs mkdir (prog # command # args))) \<subseteq> insert (Query ''SHOW TABLES'') (set preamble)"
proof (cases "cli_parse args default_options")
  case (Some o')
  have l: "cr_sent (leave y) = []" "cr_sent ((leave y)\<lparr>cr_files := fs\<rparr>) = []" for y fs by (simp_all add: leave_def)
  have w: "cr_sent (leave_with st y) = en_sent st" for st y by (simp add: leave_with_def)
  let ?d = "database_cmd (server o') read_file command o'"
  consider "?d = leave (Exit 1)" | st x where "?d = leave_with st x" "st = snd (engine_status (cli_config o') (server o') new_engine)"
    | "?d = leave_with (snd (listTables (server o') new_engine)) (Exit 0)"
  proof (cases "co_database o' = []")
    case True
    then show thesis using that(1) by (simp add: database_cmd_def)
  next
    case db: False
    show thesis
    proof (cases "command = ''status''")
      case True
      then show thesis using that(2) db
        by (cases "engine_status (cli_config o') (server o') new_engine"; cases "fst (engine_status (cli_config o') (server o') new_engine)")
          (simp_all add: database_cmd_def)
    next
      case st: False
      show thesis
      proof (cases "command = ''list-tables''")
        case True
        then show thesis using that(3) db by (simp add: database_cmd_def)
      next
        case False
        have "command = ''truncate-all'' \<Longrightarrow> \<not> co_confirm o'" using assms(3) Some by blast
        then have "?d = leave (Exit 1)" unfolding database_cmd_def Let_def
          by (simp only: db st False assms(1,2) if_False simp_thms split: if_split) blast
        then show thesis by (rule that(1))
      qed
    qed
  qed
  then have "set (cr_sent ?d) \<subseteq> insert (Query ''SHOW TABLES'') (set preamble)"
    by cases (use status_sends tables_sends in \<open>auto simp: l w\<close>)
  then show ?thesis using Some by (simp add: cli_main_def l split: sum.split)
qed (simp add: cli_main_def leave_def)

section \<open>Importing what was generated\<close>

lemma find_tables_skip:
  assumes "\<forall>i < length u. match_table (drop i u @ v) = None"
  shows "find_tables (u @ v) = find_tables v"
  using assms
proof (induction u)
  case (Cons c u)
  have "match_table (c # u @ v) = None" using Cons.prems [rule_format, of 0] by simp
  moreover have "\<forall>i < length u. match_table (drop i u @ v) = None" using Cons.prems by auto
  ultimately show ?case using Cons.IH by (simp add: find_tables.simps [of "c # u @ v"])
qed simp

fun mentions_create :: "string \<Rightarrow> bool" where
  "mentions_create [] = False"
| "mentions_create (c # s) = (map to_lower (take 6 (c # s)) = ''create'' \<or> mentions_create s)"

lemma drop_some: "(\<exists>i. P (drop i (c # s))) \<longleftrightarrow> P (c # s) \<or> (\<exists>i. P (drop i s))"
  by (metis drop_0 drop_Suc_Cons not0_implies_Suc)

lemma mentions_create_at: "mentions_create s \<longleftrightarrow> (\<exists>i. map to_lower (take 6 (drop i s)) = ''create'')"
proof (induction s)
  case (Cons c s)
  show ?case
    unfolding mentions_create.simps Cons drop_some [of "\<lambda>x. map to_lower (take 6 x) = ''create''"] by (rule refl)
qed simp

lemma match_table_None: "map to_lower (take 6 s) \<noteq> ''create'' \<Longrightarrow> match_table s = None"
proof -
  assume h: "map to_lower (take 6 s) \<noteq> ''create''"
  have "length ''create'' = 6" by simp
  then have "keyword ''create'' s = None" using h unfolding keyword_def by metis
  then show "match_table s = None" by (simp add: match_table_def)
qed

lemma find_tables_over:
  assumes "\<not> mentions_create u"
  shows "find_tables (u @ nl @ v) = find_tables v"
proof -
  have n: "to_lower (CHR 0x0A) = CHR 0x0A" by (simp add: to_lower_def)
  have "match_table (drop i (u @ nl) @ v) = None" if i: "i < length (u @ nl)" for i
  proof (cases "i + 6 \<le> length u")
    case True
    then have "take 6 (drop i (u @ nl) @ v) = take 6 (drop i u)" by simp
    then have "map to_lower (take 6 (drop i (u @ nl) @ v)) \<noteq> ''create''"
      using assms unfolding mentions_create_at by metis
    then show ?thesis by (rule match_table_None)
  next
    case False
    have m: "to_lower (CHR 0x0A) \<in> set (map to_lower (take 6 (drop i (u @ nl) @ v)))"
    proof -
      have "drop i (u @ nl) = drop i u @ nl" using i by (simp add: nl_def)
      moreover have "length (drop i u) < 6" using False by simp
      ultimately have "(take 6 (drop i (u @ nl) @ v)) ! length (drop i u) = CHR 0x0A"
        "length (drop i u) < length (take 6 (drop i (u @ nl) @ v))"
        by (simp_all add: nl_def nth_append del: length_drop)
      then show ?thesis by (metis nth_mem image_eqI list.set_map)
    qed
    have "map to_lower (take 6 (drop i (u @ nl) @ v)) \<noteq> ''create''"
    proof
      assume "map to_lower (take 6 (drop i (u @ nl) @ v)) = ''create''"
      then show False using m unfolding n by simp
    qed
    then show ?thesis by (rule match_table_None)
  qed
  then have "find_tables ((u @ nl) @ v) = find_tables v" by (intro find_tables_skip) blast
  then show ?thesis by simp
qed

lemma match_generated:
  assumes "t \<noteq> []" "\<forall>c \<in> set t. word_char c"
  shows "match_table (''CREATE TABLE IF NOT EXISTS '' @ quoteIdent t @ r) = Some (t, r)"
proof -
  have q: "\<not> word_char (CHR 0x60)" by (simp add: word_char_def is_digit_def to_lower_def)
  have "match_name (quoteIdent t @ r) = Some (t, r)"
    using assms q by (simp add: match_name_def quoteIdent_def takeWhile_append dropWhile_append Let_def)
  moreover have "quoteIdent t @ r = CHR 0x60 # t @ CHR 0x60 # r" by (simp add: quoteIdent_def)
  ultimately show ?thesis
    by (simp add: match_table_def if_not_exists_def keyword_def blanks_def to_lower_def std_space_def char_of_def bit_0)
qed

lemma mentions_suffix: "mentions_create (drop k s) \<Longrightarrow> mentions_create s"
  unfolding mentions_create_at drop_drop by metis

lemma find_generated:
  assumes "ct_table op \<noteq> []" "\<forall>c \<in> set (ct_table op). word_char c" "\<not> mentions_create (drop 6 (generateCreateTable op))"
  shows "find_tables (generateCreateTable op @ nl @ v) = ct_table op # find_tables v"
proof -
  obtain r where r: "generateCreateTable op = ''CREATE TABLE IF NOT EXISTS '' @ quoteIdent (ct_table op) @ r"
    unfolding generateCreateTable_def by blast
  have "drop 21 (drop 6 (generateCreateTable op)) = quoteIdent (ct_table op) @ r" by (simp add: r)
  then have "drop (length (quoteIdent (ct_table op))) (drop 21 (drop 6 (generateCreateTable op))) = r" by simp
  then have "\<not> mentions_create r" using mentions_suffix assms(3) by metis
  moreover have "match_table (generateCreateTable op @ nl @ v) = Some (ct_table op, r @ nl @ v)"
    unfolding r append_assoc by (rule match_generated [OF assms(1,2)])
  ultimately show ?thesis
    by (subst find_tables.simps) (simp add: find_tables_over)
qed

text \<open>
  C?: From a file with the statements that the generator prints for some tables, \<open>import\<close> lists exactly these
  tables, in order, when their names are plain and CREATE occurs nowhere else in a statement.
\<close>

theorem import_lists_generated_tables:
  assumes "\<forall>op \<in> set ops. ct_table op \<noteq> [] \<and> (\<forall>c \<in> set (ct_table op). word_char c) \<and>
      \<not> mentions_create (drop 6 (generateCreateTable op))"
  shows "find_tables (concat (map (\<lambda>op. generateCreateTable op @ nl) ops)) = map ct_table ops"
  using assms
proof (induction ops)
  case Nil
  show ?case by (simp add: find_tables.simps match_table_def keyword_def)
next
  case (Cons op ops)
  then show ?case by (simp add: find_generated)
qed

section \<open>Witnesses\<close>

definition demo_users_table :: create_table_op where
  "demo_users_table = \<lparr>ct_table = ''users'', ct_columns = [\<lparr>col_name = ''id'', col_type = ''INT'', col_not_null = True, col_auto_increment = False,
     col_primary_key = True, col_default_val = [], col_on_update = []\<rparr>], ct_indexes = [], ct_engine = ''InnoDB'',
     ct_charset = ''utf8mb4'', ct_comment = []\<rparr>"

theorem import_lists_generated_tables_witness:
  "find_tables (concat (map (\<lambda>op. generateCreateTable op @ nl) [demo_users_table])) = [''users'']"
proof -
  have t6: "drop 6 (generateCreateTable demo_users_table) =
      '' TABLE IF NOT EXISTS '' @ quoteIdent ''users'' @ '' ('' @ nl @ ''    '' @ quoteIdent ''id'' @ '' INT NOT NULL,'' @ nl @
      ''    PRIMARY KEY ('' @ quoteIdent ''id'' @ '')'' @ nl @ '') ENGINE=InnoDB DEFAULT CHARSET=utf8mb4;''"
    by (simp add: generateCreateTable_def demo_users_table_def columnDefSQL_def primary_key_line_def)
  have "\<not> mentions_create (drop 6 (generateCreateTable demo_users_table))"
    unfolding t6 by (simp add: quoteIdent_def nl_def to_lower_def char_of_def bit_0)
  moreover have t: "ct_table demo_users_table = ''users''" by (simp add: demo_users_table_def)
  moreover have "\<forall>c \<in> set ''users''. word_char c" by code_simp
  ultimately have "\<forall>op \<in> set [demo_users_table]. ct_table op \<noteq> [] \<and> (\<forall>c \<in> set (ct_table op). word_char c) \<and>
      \<not> mentions_create (drop 6 (generateCreateTable op))" by simp
  from import_lists_generated_tables [OF this] show ?thesis by (simp only: list.map t)
qed

theorem dry_run_sends_no_statement_witness:
  "cr_sent (cli_main (\<lambda>o'. demo_migration_env) (\<lambda>f. Some ''DROP TABLE users'') (\<lambda>d. None) (\<lambda>d. True)
      [''dbmigrate'', ''rebuild'', ''--dry-run'', ''-d'', ''mydb'', ''-f'', ''a.sql'']) =
     [SetCharset ''utf8mb4'', Autocommit False, Query ''SHOW TABLES'', Autocommit True, Autocommit False] \<and>
   ((\<exists>b. Query ''SHOW TABLES'' = Autocommit b) \<or> Query ''SHOW TABLES'' = SetCharset ''utf8mb4'' \<or>
    Query ''SHOW TABLES'' = Query kSelectApplied \<or> Query ''SHOW TABLES'' = Query ''SHOW TABLES'')"
proof -
  have v: "cli_values value_options ''--dry-run'' r o' = None" for r o'
    by (simp add: value_options_def cli_arg_def)
  have d: "cli_values value_options ''-d'' (x # r) o' = Some (o'\<lparr>co_database := x\<rparr>, r)" for x r o'
    by (simp add: value_options_def cli_arg_def)
  have f: "cli_values value_options ''-f'' (x # r) o' = Some (o'\<lparr>co_sql_file := x\<rparr>, r)" for x r o'
    by (simp add: value_options_def cli_arg_def)
  have p: "cli_parse [''--dry-run'', ''-d'', ''mydb'', ''-f'', ''a.sql''] default_options =
      Some (default_options\<lparr>co_dry_run := True, co_database := ''mydb'', co_sql_file := ''a.sql''\<rparr>)"
    by (simp add: v d f)
  then have s: "cr_sent (cli_main (\<lambda>o'. demo_migration_env) (\<lambda>f. Some ''DROP TABLE users'') (\<lambda>d. None) (\<lambda>d. True)
      [''dbmigrate'', ''rebuild'', ''--dry-run'', ''-d'', ''mydb'', ''-f'', ''a.sql'']) =
     [SetCharset ''utf8mb4'', Autocommit False, Query ''SHOW TABLES'', Autocommit True, Autocommit False]"
    by (simp add: cli_main_def database_cmd_def leave_with_def rebuild_def cli_config_def exec_dry exec_count_dry
        engine_connect_def demo_migration_env_def new_engine_def send_event_def getUserTables_def Let_def)
  have "(\<exists>b. Query ''SHOW TABLES'' = Autocommit b) \<or> Query ''SHOW TABLES'' = SetCharset ''utf8mb4'' \<or>
    Query ''SHOW TABLES'' = Query kSelectApplied \<or> Query ''SHOW TABLES'' = Query ''SHOW TABLES''"
    by (rule dry_run_sends_no_statement [OF p, of _ "\<lambda>o'. demo_migration_env" "\<lambda>f. Some ''DROP TABLE users''"
        "\<lambda>d. None" "\<lambda>d. True" "''dbmigrate''" "''rebuild''"]) (simp_all add: s)
  with s show ?thesis by blast
qed

end
