(* ===== verification/ConndThreads.thy ===== *)
theory ConndThreads
  imports Dispatcher
begin

text \<open>
  The gateway's handlers on several threads (server/connd/ConndMsgDispatcher.cpp, SessionManager.cpp). Each
  listener calls the dispatcher on threads of its own, and nothing but the lock inside each method of
  \<open>SessionManager\<close> orders them. \<open>Dispatcher\<close> runs a handler as one step; here a step of a thread calls at
  most one method of the session manager. The handlers run one after another give \<open>connd_step\<close> again.
\<close>

section \<open>A handler step by step\<close>

text \<open>
  Where a thread is: outside a handler; in \<open>handleLogin\<close> before the first \<open>on_auth_ok\<close>, before \<open>close_conn\<close> of the
  older connection, before \<open>on_disconnect\<close> of it, before the second \<open>on_auth_ok\<close>, before the reply; and in
  \<open>onClientMessage\<close> between \<open>is_authed\<close> and \<open>forwardToLogic\<close>.
\<close>

datatype login_pc = Outside | Binds nat string | Kicks nat string nat | Drops nat string nat
  | Rebinds nat string | Replies nat | Forwards nat raw_msg

definition begin_login ::
  "connd_env \<Rightarrow> nat \<Rightarrow> raw_msg \<Rightarrow> session_mgr \<Rightarrow> fault + connd_event list \<times> session_mgr \<times> login_pc" where
  "begin_login e conn_id msg s =
     (case msg_body msg of
        None \<Rightarrow> Inl Undefined
      | Some b \<Rightarrow>
          (case env_parse_auth e b of
             None \<Rightarrow> Inr ([], s, Outside)
           | Some token \<Rightarrow>
               (let res = check_token e token in
                if \<not> ar_ok res then Inr (send_reply e conn_id (AuthReply Error_auth_failed), s, Outside)
                else Inr ([], s, Binds conn_id (ar_user_id res)))))"

fun begin_op ::
  "connd_env \<Rightarrow> nat \<Rightarrow> connd_op \<Rightarrow> session_mgr \<Rightarrow> fault + connd_event list \<times> session_mgr \<times> login_pc" where
  "begin_op e now (OpConnect c proto) s = Inr ([], on_connect now c proto s, Outside)"
| "begin_op e now (OpDisconnect c) s = Inr ([], on_disconnect c s, Outside)"
| "begin_op e now (OpDownstream m) s = Inr (onDownstreamMessage e m, s, Outside)"
| "begin_op e now (OpMessage c None) s = Inr ([], s, Outside)"
| "begin_op e now (OpMessage c (Some m)) s =
     (if r_msg_id m = CS_HEART_BEAT then
        (case onHeart e now m of Inl f \<Rightarrow> Inl f | Inr evs \<Rightarrow> Inr (evs, s, Outside))
      else if r_msg_id m = CS_PLAYER_APPLY_TOKEN then Inr (forwardToAccount c m, s, Outside)
      else if r_msg_id m = CS_PLAYER_AUTH then begin_login e c m s
      else if \<not> is_authed c s then Inr ([], s, Outside)
      else Inr ([], s, Forwards c m))"

text \<open>The next step of a thread inside a handler. The result of the second \<open>on_auth_ok\<close> is not looked at.\<close>

fun next_step :: "connd_env \<Rightarrow> login_pc \<Rightarrow> session_mgr \<Rightarrow> (connd_event list \<times> session_mgr \<times> login_pc) option" where
  "next_step e Outside s = None"
| "next_step e (Binds c u) s =
     (case on_auth_ok c u s of
        (None, s1) \<Rightarrow> Some ([], s1, Replies c)
      | (Some old, s1) \<Rightarrow> Some ([], s1, Kicks c u old))"
| "next_step e (Kicks c u old) s = (let (evs, s1) = kick e old s in Some (evs, s1, Drops c u old))"
| "next_step e (Drops c u old) s = Some ([], on_disconnect old s, Rebinds c u)"
| "next_step e (Rebinds c u) s = Some ([], snd (on_auth_ok c u s), Replies c)"
| "next_step e (Replies c) s = Some (send_reply e c (AuthReply Error_success), s, Outside)"
| "next_step e (Forwards c m) s = Some (forwardToLogic c m, s, Outside)"

section \<open>Several threads\<close>

text \<open>
  The sessions, the place of each thread, the events in their order, and, for the statements, the pairs of
  connection and user for which an accepted token was presented.
\<close>

record gateway =
  gw_sessions :: session_mgr
  gw_pc :: "nat \<Rightarrow> login_pc"
  gw_events :: "connd_event list"
  gw_accepted :: "(nat \<times> string) set"

definition gateway_start :: gateway where
  "gateway_start = \<lparr>gw_sessions = SessionManager_ctor, gw_pc = (\<lambda>t. Outside), gw_events = [], gw_accepted = {}\<rparr>"

definition moved :: "nat \<Rightarrow> connd_event list \<times> session_mgr \<times> login_pc \<Rightarrow> gateway \<Rightarrow> gateway" where
  "moved t r g =
     (case r of (evs, s, pc) \<Rightarrow>
        g\<lparr>gw_sessions := s, gw_pc := (gw_pc g)(t := pc), gw_events := gw_events g @ evs\<rparr>)"

text \<open>\<open>Call\<close>: the listener of the thread calls a handler; \<open>Go\<close>: the thread goes on in its handler.\<close>

datatype gw_move = Call nat nat connd_op | Go nat

fun gw_exec :: "connd_env \<Rightarrow> gw_move \<Rightarrow> gateway \<Rightarrow> (fault + gateway) option" where
  "gw_exec e (Call t now op) g =
     (if gw_pc g t \<noteq> Outside then None
      else Some (map_sum id
        (\<lambda>r. (moved t r g)\<lparr>gw_accepted := gw_accepted g \<union> set_option (login_user e op)\<rparr>)
        (begin_op e now op (gw_sessions g))))"
| "gw_exec e (Go t) g = map_option (\<lambda>r. Inr (moved t r g)) (next_step e (gw_pc g t) (gw_sessions g))"

inductive gw_reach :: "connd_env \<Rightarrow> gateway \<Rightarrow> bool" for e where
  start: "gw_reach e gateway_start"
| step: "gw_reach e g \<Longrightarrow> gw_exec e mv g = Some (Inr g') \<Longrightarrow> gw_reach e g'"

fun gw_run :: "connd_env \<Rightarrow> gw_move list \<Rightarrow> gateway \<Rightarrow> (fault + gateway) option" where
  "gw_run e [] g = Some (Inr g)"
| "gw_run e (mv # mvs) g =
     (case gw_exec e mv g of
        None \<Rightarrow> None
      | Some (Inl f) \<Rightarrow> Some (Inl f)
      | Some (Inr g1) \<Rightarrow> gw_run e mvs g1)"

section \<open>Alone, a handler is one step of the dispatcher\<close>

fun finish :: "connd_env \<Rightarrow> nat \<Rightarrow> login_pc \<Rightarrow> session_mgr \<Rightarrow> connd_event list \<times> session_mgr \<times> login_pc" where
  "finish e 0 pc s = ([], s, pc)"
| "finish e (Suc n) pc s =
     (case next_step e pc s of
        None \<Rightarrow> ([], s, pc)
      | Some (evs, s1, pc1) \<Rightarrow> (let (evs2, s2, pc2) = finish e n pc1 s1 in (evs @ evs2, s2, pc2)))"

lemma finish_login:
  "finish e 5 (Binds c u) s =
     (case on_auth_ok c u s of
        (None, s1) \<Rightarrow> (send_reply e c (AuthReply Error_success), s1, Outside)
      | (Some old, s1) \<Rightarrow>
          (fst (kick e old s1) @ send_reply e c (AuthReply Error_success),
           snd (on_auth_ok c u (on_disconnect old (snd (kick e old s1)))), Outside))"
  by (simp add: numeral_eq_Suc split: prod.split option.split)

text \<open>
  A handler whose five steps at most are not interrupted by another thread does exactly what the dispatcher's
  model does in one step: the same events, the same sessions, and undefined behaviour in the same cases.
\<close>

theorem uninterrupted_handler_is_step:
  "case begin_op e now op s of
     Inl f \<Rightarrow> connd_step e now op s = Inl f
   | Inr (evs, s1, pc) \<Rightarrow>
       (\<exists>evs2 s2. finish e 5 pc s1 = (evs2, s2, Outside) \<and> connd_step e now op s = Inr (evs @ evs2, s2))"
proof -
  have out: "finish e 5 Outside t = ([], t, Outside)" for t by (simp add: numeral_eq_Suc)
  have fwd: "finish e 5 (Forwards c m) t = (forwardToLogic c m, t, Outside)" for c m t by (simp add: numeral_eq_Suc)
  show ?thesis
  proof (cases op)
    case (OpMessage c mo)
    show ?thesis
    proof (cases mo)
      case (Some m)
      then show ?thesis using OpMessage
        by (auto simp: onClientMessage_def begin_login_def handleLogin_def Let_def out fwd finish_login
            split: option.splits sum.splits prod.splits if_splits)
    qed (use OpMessage in \<open>simp add: onClientMessage_def out\<close>)
  qed (simp_all add: out)
qed

section \<open>What holds in every interleaving\<close>

fun pc_login :: "login_pc \<Rightarrow> (nat \<times> string) set" where
  "pc_login (Binds c u) = {(c, u)}"
| "pc_login (Kicks c u d) = {(c, u)}"
| "pc_login (Drops c u d) = {(c, u)}"
| "pc_login (Rebinds c u) = {(c, u)}"
| "pc_login pc = {}"

fun pc_forward :: "login_pc \<Rightarrow> nat set" where
  "pc_forward (Forwards c m) = {c}"
| "pc_forward pc = {}"

text \<open>Connections for which a message went to the logic service.\<close>

fun forwarded :: "connd_event list \<Rightarrow> nat set" where
  "forwarded [] = {}"
| "forwarded (EvForward c service m # evs) = (if service = ''LogicService'' then {c} else {}) \<union> forwarded evs"
| "forwarded (ev # evs) = forwarded evs"

lemma forwarded_append [simp]: "forwarded (xs @ ys) = forwarded xs \<union> forwarded ys"
  by (induction xs rule: forwarded.induct) auto

lemma forwarded_mem: "EvForward c ''LogicService'' m \<in> set evs \<Longrightarrow> c \<in> forwarded evs"
  by (induction evs rule: forwarded.induct) auto

lemma forwarded_calls [simp]:
  "forwarded (forwardToLogic c m) = {c}" "forwarded (forwardToAccount c m) = {}"
  "forwarded (send_reply e c r) = {}" "forwarded (onDownstreamMessage e m) = {}" "forwarded (fst (kick e d s)) = {}"
  by (simp_all add: forwardToLogic_def forwardToAccount_def send_reply_def onDownstreamMessage_def kick_def
      Let_def split: option.splits)

lemma forwarded_onHeart: "onHeart e now m = Inr evs \<Longrightarrow> forwarded evs = {}"
  by (auto simp: onHeart_def Let_def split: option.splits if_splits)

definition gw_inv :: "gateway \<Rightarrow> bool" where
  "gw_inv g \<longleftrightarrow> sm_inv (gw_sessions g) \<and>
     (\<forall>c u. user_of (gw_sessions g) c = Some u \<longrightarrow> (c, u) \<in> gw_accepted g) \<and>
     (\<forall>t. pc_login (gw_pc g t) \<subseteq> gw_accepted g \<and> pc_forward (gw_pc g t) \<subseteq> fst ` gw_accepted g) \<and>
     forwarded (gw_events g) \<subseteq> fst ` gw_accepted g"

lemma gw_invI:
  assumes "gw_inv g" "sm_inv s" "gw_accepted g \<subseteq> A"
    and "\<And>c u. user_of s c = Some u \<Longrightarrow> user_of (gw_sessions g) c = Some u \<or> (c, u) \<in> A"
    and "pc_login pc \<subseteq> A" "pc_forward pc \<subseteq> fst ` A" "forwarded evs \<subseteq> fst ` A"
  shows "gw_inv ((moved t (evs, s, pc) g)\<lparr>gw_accepted := A\<rparr>)"
proof -
  have "fst ` gw_accepted g \<subseteq> fst ` A" using assms(3) by (rule image_mono)
  then show ?thesis using assms unfolding gw_inv_def moved_def by (simp add: subset_iff) blast
qed

lemma login_begins:
  assumes "begin_op e now op s = Inr (evs, s1, pc)"
  shows "pc_login pc \<subseteq> set_option (login_user e op) \<and> forwarded evs = {} \<and>
    pc_forward pc \<subseteq> {c. is_authed c s} \<and> (\<forall>c u. user_of s1 c = Some u \<longrightarrow> user_of s c = Some u) \<and>
    (sm_inv s \<longrightarrow> sm_inv s1)"
proof (cases op)
  case (OpConnect c p)
  then have "evs = []" "s1 = on_connect now c p s" "pc = Outside" using assms by simp_all
  then show ?thesis by (simp add: sm_inv_on_connect user_of_on_connect)
next
  case (OpDisconnect c)
  then have "evs = []" "s1 = on_disconnect c s" "pc = Outside" using assms by simp_all
  then show ?thesis by (simp add: sm_inv_on_disconnect user_of_on_disconnect)
next
  case (OpDownstream m)
  then show ?thesis using assms by auto
next
  case (OpMessage c mo)
  then show ?thesis using assms
    by (cases mo) (auto simp: begin_login_def login_user_def check_token_def Let_def msg_ids dest: forwarded_onHeart
        split: if_splits option.splits sum.splits)
qed

lemma next_keeps:
  assumes "next_step e pc s = Some (evs, s1, pc1)"
  shows "(sm_inv s \<longrightarrow> sm_inv s1) \<and> pc_login pc1 \<subseteq> pc_login pc \<and> pc_forward pc1 = {} \<and>
    forwarded evs \<subseteq> pc_forward pc \<and>
    (\<forall>c u. user_of s1 c = Some u \<longrightarrow> user_of s c = Some u \<or> (c, u) \<in> pc_login pc)"
proof (cases pc)
  case (Binds c u)
  obtain r t where r: "on_auth_ok c u s = (r, t)" by (cases "on_auth_ok c u s")
  have "sm_inv s \<longrightarrow> sm_inv t" using sm_inv_on_auth_ok [of s c u] r by simp
  moreover have "user_of t d = Some w \<Longrightarrow> user_of s d = Some w \<or> d = c \<and> w = u" for d w
    using user_of_on_auth_ok [of c u s d w] r by simp
  ultimately show ?thesis using assms Binds r by (cases r) auto
next
  case (Kicks c u d)
  then have "evs = fst (kick e d s)" "s1 = snd (kick e d s)" "pc1 = Drops c u d"
    using assms by (auto split: prod.splits)
  then show ?thesis using Kicks
    by (auto simp: kick_def sm_inv_on_disconnect user_of_on_disconnect split: option.splits if_splits)
next
  case (Drops c u d)
  then show ?thesis using assms by (auto simp: sm_inv_on_disconnect user_of_on_disconnect split: if_splits)
next
  case (Rebinds c u)
  then show ?thesis using assms sm_inv_on_auth_ok user_of_on_auth_ok by auto
qed (use assms in auto)

lemma gw_exec_inv:
  assumes "gw_inv g" "gw_exec e mv g = Some (Inr g')"
  shows "gw_inv g'"
proof (cases mv)
  case (Call t now op)
  then obtain evs s1 pc where b: "begin_op e now op (gw_sessions g) = Inr (evs, s1, pc)"
    and g': "g' = (moved t (evs, s1, pc) g)\<lparr>gw_accepted := gw_accepted g \<union> set_option (login_user e op)\<rparr>"
    using assms(2) by (cases "begin_op e now op (gw_sessions g)") (auto split: if_splits)
  note l = login_begins [OF b]
  have "{c. is_authed c (gw_sessions g)} \<subseteq> fst ` gw_accepted g"
    using assms(1) by (auto simp: is_authed_user gw_inv_def image_iff) (metis fst_conv)
  then show ?thesis unfolding g' using l assms(1)
    by (intro gw_invI) (auto simp: gw_inv_def)
next
  case (Go t)
  then obtain evs s1 pc where n: "next_step e (gw_pc g t) (gw_sessions g) = Some (evs, s1, pc)"
    and g': "g' = moved t (evs, s1, pc) g"
    using assms(2) by auto
  have eq: "g' = (moved t (evs, s1, pc) g)\<lparr>gw_accepted := gw_accepted g\<rparr>" by (simp add: g' moved_def)
  note k = next_keeps [OF n]
  have "pc_login (gw_pc g t) \<subseteq> gw_accepted g" "pc_forward (gw_pc g t) \<subseteq> fst ` gw_accepted g"
    using assms(1) by (simp_all add: gw_inv_def)
  then have log: "pc_login pc \<subseteq> gw_accepted g" and fwd: "forwarded evs \<subseteq> fst ` gw_accepted g"
    and user: "\<And>c u. user_of s1 c = Some u \<Longrightarrow> user_of (gw_sessions g) c = Some u \<or> (c, u) \<in> gw_accepted g"
    using k by blast+
  have "sm_inv s1" using k assms(1) by (simp add: gw_inv_def)
  then show ?thesis unfolding eq using k log fwd user assms(1) by (intro gw_invI) simp_all
qed

lemma gw_reach_inv: "gw_reach e g \<Longrightarrow> gw_inv g"
proof (induction rule: gw_reach.induct)
  case start
  then show ?case
    by (simp add: gw_inv_def gateway_start_def sm_inv_ctor) (simp add: user_of_def SessionManager_ctor_def)
next
  case (step g mv g')
  then show ?case using gw_exec_inv by blast
qed

text \<open>
  C12: However the handlers of the listeners' threads interleave, a user is authenticated on at most one connection,
  the one the session manager finds for the user; for that connection and that user an accepted token was
  presented; and messages reach the logic service only for connections for which one was presented.
\<close>

theorem logins_interleaved:
  assumes "gw_reach e g"
  shows "(\<forall>c d u. user_of (gw_sessions g) c = Some u \<longrightarrow> user_of (gw_sessions g) d = Some u \<longrightarrow> c = d) \<and>
    (\<forall>c u. user_of (gw_sessions g) c = Some u \<longrightarrow>
       find_conn_by_user u (gw_sessions g) = Some c \<and> (c, u) \<in> gw_accepted g) \<and>
    (\<forall>c m. EvForward c ''LogicService'' m \<in> set (gw_events g) \<longrightarrow> (\<exists>u. (c, u) \<in> gw_accepted g))"
proof -
  have i: "gw_inv g" by (rule gw_reach_inv [OF assms])
  then have s: "sm_inv (gw_sessions g)" by (simp add: gw_inv_def)
  have "c = d" if "user_of (gw_sessions g) c = Some u" "user_of (gw_sessions g) d = Some u" for c d u
    using store.unique_session [OF s that] .
  moreover have "find_conn_by_user u (gw_sessions g) = Some c \<and> (c, u) \<in> gw_accepted g"
    if "user_of (gw_sessions g) c = Some u" for c u
    using store.user_bound [OF s that] i that by (simp add: find_conn_by_user_def gw_inv_def)
  moreover have "\<exists>u. (c, u) \<in> gw_accepted g" if "EvForward c ''LogicService'' m \<in> set (gw_events g)" for c m
  proof -
    have "c \<in> fst ` gw_accepted g" using forwarded_mem [OF that] i by (auto simp: gw_inv_def)
    then show ?thesis by auto
  qed
  ultimately show ?thesis by blast
qed

section \<open>Two logins of one user at once\<close>

lemma gone_disconnect: "\<not> connected s d \<Longrightarrow> on_disconnect d s = s"
  by (simp add: on_disconnect_def connected_def)

lemma login_call:
  assumes "login_user e (OpMessage c (Some m)) = Some (c, u)"
  shows "begin_op e now (OpMessage c (Some m)) s = Inr ([], s, Binds c u)"
  using assms by (auto elim!: login_userE simp: begin_login_def check_token_def msg_ids Let_def)

lemma kick_state: "snd (kick e d s) = s \<or> snd (kick e d s) = on_disconnect d s"
  by (simp add: kick_def split: option.split)

text \<open>The order: both look the user up, the first finishes its login, then the second.\<close>

definition race :: "nat \<Rightarrow> nat \<Rightarrow> nat \<Rightarrow> nat \<Rightarrow> raw_msg \<Rightarrow> raw_msg \<Rightarrow> gw_move list" where
  "race t1 t2 c1 c2 m1 m2 =
     [Call t1 0 (OpMessage c1 (Some m1)), Call t2 0 (OpMessage c2 (Some m2)), Go t1, Go t2,
      Go t1, Go t1, Go t1, Go t1, Go t2, Go t2, Go t2, Go t2]"

text \<open>
  C13: Two connections log in at once as a user who is still bound to a third connection. Both find the third
  one and close it; the first binds the user; the second's second \<open>on_auth_ok\<close> finds the user bound to the
  first, binds nothing, and its result is ignored: both clients are told that they are logged in, the second
  is not authenticated, and the first is not closed.
\<close>

theorem concurrent_logins_lose_one:
  assumes "sm_clean (gw_sessions g)" "user_of (gw_sessions g) d = Some u" "u \<noteq> ''''"
    and "connected (gw_sessions g) c1" "connected (gw_sessions g) c2"
    and "user_of (gw_sessions g) c1 = None" "user_of (gw_sessions g) c2 = None" "c1 \<noteq> c2"
    and "t1 \<noteq> t2" "gw_pc g t1 = Outside" "gw_pc g t2 = Outside"
    and "login_user e (OpMessage c1 (Some m1)) = Some (c1, u)" "login_user e (OpMessage c2 (Some m2)) = Some (c2, u)"
  shows "\<exists>g'. gw_run e (race t1 t2 c1 c2 m1 m2) g = Some (Inr g') \<and>
    gw_events g' = gw_events g @ fst (kick e d (gw_sessions g)) @ send_reply e c1 (AuthReply Error_success) @
      fst (kick e d (gw_sessions g)) @ send_reply e c2 (AuthReply Error_success) \<and>
    user_of (gw_sessions g') c1 = Some u \<and> user_of (gw_sessions g') c2 = None \<and>
    connected (gw_sessions g') c1 \<and> connected (gw_sessions g') c2 \<and> \<not> connected (gw_sessions g') d \<and>
    gw_pc g' t1 = Outside \<and> gw_pc g' t2 = Outside"
proof -
  let ?s = "gw_sessions g"
  have d: "d \<noteq> c1" "d \<noteq> c2" using assms(2,6,7) by (metis option.distinct(1))+
  have b: "sm_user_to_conn ?s u = Some d" by (rule store.user_bound [OF store.clean_inv [OF assms(1)] assms(2)])
  note first = on_auth_ok_kick [OF b d(1)] on_auth_ok_kick [OF b d(2)]
  let ?s1 = "on_disconnect d ?s"
  have drop1: "on_disconnect d (snd (kick e d ?s)) = ?s1" using kick_state [of e d ?s] on_disconnect_idem [of d ?s] by metis
  let ?s2 = "snd (on_auth_ok c1 u ?s1)"
  have u2: "user_of ?s2 = (user_of ?s)(d := None, c1 \<mapsto> u)"
    by (rule store.rebind [OF assms(1) first(1) assms(4) d(1) b])
  have inv2: "sm_inv ?s2" by (intro sm_inv_on_auth_ok sm_inv_on_disconnect store.clean_inv [OF assms(1)])
  have b2: "sm_user_to_conn ?s2 u = Some c1"
    by (rule store.user_bound [OF inv2]) (simp add: u2)
  have conn2: "connected ?s2 x \<longleftrightarrow> x \<noteq> d \<and> connected ?s x" for x
    by (simp add: store.auth_live connected_on_disconnect)
  then have gone: "on_disconnect d ?s2 = ?s2" by (intro gone_disconnect) simp
  have drop2: "snd (kick e d ?s2) = ?s2" using kick_state [of e d ?s2] gone by metis
  have kick2: "fst (kick e d ?s2) = fst (kick e d ?s)" by (simp add: kick_def split: option.split)
  have last: "on_auth_ok c2 u ?s2 = (Some c1, ?s2)" by (rule on_auth_ok_kick [OF b2 assms(8)])
  let ?evs = "gw_events g @ fst (kick e d ?s) @ send_reply e c1 (AuthReply Error_success) @
      fst (kick e d ?s) @ send_reply e c2 (AuthReply Error_success)"
  have "\<exists>g'. gw_run e (race t1 t2 c1 c2 m1 m2) g = Some (Inr g') \<and> gw_events g' = ?evs \<and> gw_sessions g' = ?s2 \<and>
      gw_pc g' t1 = Outside \<and> gw_pc g' t2 = Outside"
    using assms(9-11) login_call [OF assms(12)] login_call [OF assms(13)] first drop1 drop2 gone kick2 last
    by (simp add: race_def moved_def case_prod_beta)
  then obtain g' where g': "gw_run e (race t1 t2 c1 c2 m1 m2) g = Some (Inr g')" "gw_events g' = ?evs" "gw_sessions g' = ?s2"
      "gw_pc g' t1 = Outside" "gw_pc g' t2 = Outside" by blast
  have "user_of ?s2 c1 = Some u" "user_of ?s2 c2 = None" using u2 assms(7,8) by simp_all
  moreover have "connected ?s2 c1" "connected ?s2 c2" "\<not> connected ?s2 d" using conn2 d assms(4,5) by auto
  ultimately show ?thesis using g' by (intro exI [of _ g']) simp
qed

section \<open>Witnesses\<close>

text \<open>The sessions in which A is on connection 1, and connections 2 and 1000000 (WebSocket) are open.\<close>

definition before_race :: gateway where
  "before_race = gateway_start\<lparr>gw_sessions := on_connect 4 1000000 ''ws'' (on_connect 3 2 ''tcp'' logged_in)\<rparr>"

theorem concurrent_logins_lose_one_witness:
  "\<exists>g'. gw_run demo_env (race 0 1 2 1000000 (client_msg 2 [65]) (client_msg 2 [65])) before_race = Some (Inr g') \<and>
     EvSend 0 2 (AuthReply Error_success) \<in> set (gw_events g') \<and>
     EvSend 1 1000000 (AuthReply Error_success) \<in> set (gw_events g') \<and>
     user_of (gw_sessions g') 2 = Some ''A'' \<and> user_of (gw_sessions g') 1000000 = None"
proof -
  let ?s = "gw_sessions before_race"
  let ?t = "on_connect 3 2 ''tcp'' logged_in"
  have t: "?s = on_connect 4 1000000 ''ws'' ?t" by (simp add: before_race_def)
  have "sm_clean ?s" unfolding t sm_clean_def
  proof (intro conjI allI impI)
    show "sm_inv (on_connect 4 1000000 ''ws'' ?t)"
      by (intro sm_inv_on_connect store.clean_inv) (rule logged_in_facts)
    fix u c assume "sm_user_to_conn (on_connect 4 1000000 ''ws'' ?t) u = Some c"
    then have "u = ''A'' \<and> c = 1" by (simp add: logged_in_def split: if_splits)
    then show "u \<noteq> ''''" "user_of (on_connect 4 1000000 ''ws'' ?t) c = Some u"
      using logged_in_facts(3) by (simp_all add: user_of_on_connect)
  qed
  moreover have "user_of ?s 1 = Some ''A''" "connected ?s 2" "connected ?s 1000000" "user_of ?s 2 = None"
    "user_of ?s 1000000 = None"
    unfolding t using logged_in_facts by (simp_all add: user_of_on_connect connected_on_connect)
  ultimately have s: "sm_clean ?s" "user_of ?s 1 = Some ''A''" "connected ?s 2" "connected ?s 1000000"
    "user_of ?s 2 = None" "user_of ?s 1000000 = None" by blast+
  have pc: "gw_pc before_race 0 = Outside" "gw_pc before_race 1 = Outside"
    by (simp_all add: before_race_def gateway_start_def)
  have r: "send_reply demo_env 2 (AuthReply Error_success) = [EvSend 0 2 (AuthReply Error_success)]"
    "send_reply demo_env 1000000 (AuthReply Error_success) = [EvSend 1 1000000 (AuthReply Error_success)]"
    by (simp_all add: send_reply_def findListener_def demo_env_def)
  have n: "''A'' \<noteq> ''''" "(2::nat) \<noteq> 1000000" "(0::nat) \<noteq> 1" by simp_all
  obtain g' where g': "gw_run demo_env (race 0 1 2 1000000 (client_msg 2 [65]) (client_msg 2 [65])) before_race = Some (Inr g')"
    "gw_events g' = gw_events before_race @ fst (kick demo_env 1 ?s) @ send_reply demo_env 2 (AuthReply Error_success) @
      fst (kick demo_env 1 ?s) @ send_reply demo_env 1000000 (AuthReply Error_success)"
    "user_of (gw_sessions g') 2 = Some ''A''" "user_of (gw_sessions g') 1000000 = None"
    using concurrent_logins_lose_one [OF s(1,2) n(1) s(3-6) n(2,3) pc login_A login_A] by blast
  then have "EvSend 0 2 (AuthReply Error_success) \<in> set (gw_events g')"
    "EvSend 1 1000000 (AuthReply Error_success) \<in> set (gw_events g')" by (simp_all add: r)
  then show ?thesis using g' by blast
qed

theorem logins_interleaved_witness:
  "\<exists>g. gw_reach demo_env g \<and> user_of (gw_sessions g) 1 = Some ''A'' \<and>
     find_conn_by_user ''A'' (gw_sessions g) = Some 1 \<and> (1, ''A'') \<in> gw_accepted g"
proof -
  let ?op = "OpMessage 1 (Some (client_msg 2 [65]))"
  have "\<exists>g. gw_run demo_env [Call 0 0 (OpConnect 1 ''tcp''), Call 0 1 ?op, Go 0] gateway_start = Some (Inr g) \<and>
      user_of (gw_sessions g) 1 = Some ''A''"
    using login_call [OF login_A, of 1 1]
    by (simp add: gateway_start_def moved_def user_of_def on_auth_ok_def on_connect_def SessionManager_ctor_def)
  then obtain g where g: "gw_run demo_env [Call 0 0 (OpConnect 1 ''tcp''), Call 0 1 ?op, Go 0] gateway_start = Some (Inr g)"
    "user_of (gw_sessions g) 1 = Some ''A''" by blast
  have run: "gw_run e mvs h = Some (Inr h') \<Longrightarrow> gw_reach e h \<Longrightarrow> gw_reach e h'" for e mvs h h'
    by (induction mvs arbitrary: h) (auto split: option.splits sum.splits intro: gw_reach.step)
  have "gw_reach demo_env g" by (rule run [OF g(1) gw_reach.start])
  then show ?thesis using logins_interleaved [of demo_env g] g(2) by blast
qed

end
