(* ===== verification/Utility.thy ===== *)
theory Utility
  imports Prelude
begin

text \<open>
  The rest of \<open>Helper\<close> (server/common/Helper.cpp): the check for UTF-8, unique ids drawn by several threads,
  hexadecimal dumps, clocks and character sets. \<open>iconv\<close>, curl and the clocks are arguments.
\<close>

unbundle bit_operations_syntax

section \<open>UTF-8\<close>

text \<open>The number of bytes the first byte of a sequence announces; \<^term>\<open>None\<close> where the loop returns false.\<close>

definition sequence_length :: "8 word \<Rightarrow> nat option" where
  "sequence_length chr =
     (if 0xFC \<le> chr \<and> chr \<le> 0xFD then Some 6
      else if 0xF8 \<le> chr then Some 5
      else if 0xF0 \<le> chr then Some 4
      else if 0xE0 \<le> chr then Some 3
      else if 0xC0 \<le> chr then Some 2
      else None)"

definition continues :: "8 word \<Rightarrow> bool" where
  "continues chr = ((chr AND 0xC0) = 0x80)"

fun utf8_loop :: "nat \<Rightarrow> bool \<Rightarrow> 8 word list \<Rightarrow> bool" where
  "utf8_loop nBytes bAllAscii [] = (if nBytes > 0 then False else if bAllAscii then False else True)"
| "utf8_loop nBytes bAllAscii (chr # str) =
     (let all_ascii = (if chr AND 0x80 \<noteq> 0 then False else bAllAscii)
      in if nBytes = 0
         then (if chr \<ge> 0x80
               then (case sequence_length chr of None \<Rightarrow> False | Some n \<Rightarrow> utf8_loop (n - 1) all_ascii str)
               else utf8_loop 0 all_ascii str)
         else if \<not> continues chr then False
         else utf8_loop (nBytes - 1) all_ascii str)"

definition IsTextUTF8 :: "8 word list \<Rightarrow> bool" where
  "IsTextUTF8 str = utf8_loop 0 True str"

text \<open>The grammar behind it: characters of one byte, and a first byte with the continuation bytes it announces.\<close>

inductive utf8_text :: "8 word list \<Rightarrow> bool" where
  empty: "utf8_text []"
| ascii: "b < 0x80 \<Longrightarrow> utf8_text bs \<Longrightarrow> utf8_text (b # bs)"
| multi: "0x80 \<le> b \<Longrightarrow> sequence_length b = Some (Suc (length cs)) \<Longrightarrow> \<forall>c \<in> set cs. continues c \<Longrightarrow> utf8_text bs \<Longrightarrow>
    utf8_text (b # cs @ bs)"

inductive_cases utf8_text_ConsE: "utf8_text (b # bs)"

lemma high_bit_le: "((chr :: 8 word) AND 0x80 \<noteq> 0) = (0x80 \<le> chr)"
proof -
  have "\<forall>n \<in> set [0..<256]. ((of_nat n :: 8 word) AND 0x80 \<noteq> 0) = (128 \<le> n)" by code_simp
  moreover have u: "unat chr < 256" using unsigned_less [of chr] by simp
  moreover have "of_nat (unat chr) = chr" by simp
  ultimately have "(chr AND 0x80 \<noteq> 0) = (128 \<le> unat chr)" by (metis atLeastLessThan_iff set_upt zero_le)
  then show ?thesis by (simp add: word_le_nat_alt)
qed

lemma continues_high: "continues chr \<Longrightarrow> 0x80 \<le> chr"
proof -
  have "chr AND 0x80 = (chr AND 0xC0) AND 0x80" by (simp add: and.assoc)
  then show "continues chr \<Longrightarrow> 0x80 \<le> chr" unfolding high_bit_le [symmetric] continues_def by simp
qed

lemma sequence_length_pos: "sequence_length b = Some n \<Longrightarrow> 0 < n"
  by (auto simp: sequence_length_def split: if_splits)

lemma utf8_loop_iff:
  "utf8_loop n a bs \<longleftrightarrow>
     (\<exists>cs rest. bs = cs @ rest \<and> length cs = n \<and> (\<forall>c \<in> set cs. continues c) \<and> utf8_text rest) \<and>
     \<not> (a \<and> (\<forall>b \<in> set bs. b < 0x80))"
proof (induction n a bs rule: utf8_loop.induct)
  case (1 n a)
  then show ?case by (auto intro: utf8_text.empty)
next
  case (2 n a chr str)
  let ?a = "if chr AND 0x80 \<noteq> 0 then False else a"
  have asc: "(?a \<and> (\<forall>b \<in> set str. b < 0x80)) = (a \<and> (\<forall>b \<in> set (chr # str). b < 0x80))"
    unfolding high_bit_le by auto
  show ?case
  proof (cases n)
    case 0
    show ?thesis
    proof (cases "0x80 \<le> chr")
      case high: True
      show ?thesis
      proof (cases "sequence_length chr")
        case None
        then have "\<not> utf8_text (chr # str)" using high by (auto elim: utf8_text_ConsE)
        then show ?thesis using 0 high None by simp
      next
        case (Some k)
        have "(\<exists>cs rest. str = cs @ rest \<and> length cs = k - 1 \<and> (\<forall>c \<in> set cs. continues c) \<and> utf8_text rest) =
            utf8_text (chr # str)"
          using Some high sequence_length_pos [OF Some] by (auto elim!: utf8_text_ConsE intro!: utf8_text.multi) blast
        then show ?thesis using 2(1) [OF refl 0 high Some] asc 0 high Some by simp
      qed
    next
      case False
      then have "utf8_text (chr # str) = utf8_text str" by (auto elim: utf8_text_ConsE intro: utf8_text.ascii)
      then show ?thesis using 2(2) [OF refl 0 False] asc 0 False by simp
    qed
  next
    case (Suc k)
    have "(\<exists>cs rest. chr # str = cs @ rest \<and> length cs = n \<and> (\<forall>c \<in> set cs. continues c) \<and> utf8_text rest) \<longleftrightarrow>
        continues chr \<and> (\<exists>cs rest. str = cs @ rest \<and> length cs = n - 1 \<and> (\<forall>c \<in> set cs. continues c) \<and> utf8_text rest)"
      (is "?l \<longleftrightarrow> ?r")
    proof
      assume ?l
      then obtain cs rest where h: "chr # str = cs @ rest" "length cs = n" "\<forall>c \<in> set cs. continues c" "utf8_text rest" by blast
      then obtain cs' where "cs = chr # cs'" using Suc by (cases cs) auto
      then have "continues chr" "str = cs' @ rest" "length cs' = n - 1" "\<forall>c \<in> set cs'. continues c" using h by auto
      then show ?r using h(4) by blast
    next
      assume ?r
      then obtain cs rest where h: "continues chr" "str = cs @ rest" "length cs = n - 1" "\<forall>c \<in> set cs. continues c" "utf8_text rest"
        by blast
      then show ?l using Suc by (intro exI [of _ "chr # cs"] exI [of _ rest]) auto
    qed
    then show ?thesis using 2(3) [OF refl] asc Suc by (cases "continues chr") auto
  qed
qed

text \<open>
  \<open>IsTextUTF8\<close> accepts exactly the texts of the grammar that have at least one character outside ASCII.
\<close>

theorem utf8_check_is_grammar: "IsTextUTF8 str \<longleftrightarrow> utf8_text str \<and> (\<exists>b \<in> set str. 0x80 \<le> b)"
  unfolding IsTextUTF8_def utf8_loop_iff by (auto simp: not_less)

section \<open>Unique ids\<close>

text \<open>
  The two atomics of \<open>GenUID\<close>, and what a thread in it does between them: load \<open>last_ms\<close>, exchange it (and load
  again if another thread was faster; a weak exchange may also fail without reason, which
  only repeats this step), reset the counter if the time has moved on, and count.
\<close>

record uid_state =
  us_last_ms :: int
  us_counter :: int

datatype uid_phase = ULoad | ULoaded int | USwapped int | UCount | UDone int

definition uid_step :: "int \<Rightarrow> uid_phase \<times> uid_state \<Rightarrow> uid_phase \<times> uid_state" where
  "uid_step now_ms ps =
     (case ps of
        (ULoad, st) \<Rightarrow> (ULoaded (us_last_ms st), st)
      | (ULoaded base, st) \<Rightarrow>
          if us_last_ms st = base then (USwapped base, st\<lparr>us_last_ms := now_ms\<rparr>) else (ULoad, st)
      | (USwapped base, st) \<Rightarrow> (UCount, if now_ms > base then st\<lparr>us_counter := 0\<rparr> else st)
      | (UCount, st) \<Rightarrow> (UDone (now_ms * 1000 + us_counter st), st\<lparr>us_counter := us_counter st + 1\<rparr>)
      | (UDone uid, st) \<Rightarrow> (UDone uid, st))"

text \<open>A call that no other thread interrupts.\<close>

definition GenUID :: "int \<Rightarrow> uid_state \<Rightarrow> int \<times> uid_state" where
  "GenUID now_ms st =
     (let base = us_last_ms st;
          st = st\<lparr>us_last_ms := now_ms\<rparr>;
          st = (if now_ms > base then st\<lparr>us_counter := 0\<rparr> else st)
      in (now_ms * 1000 + us_counter st, st\<lparr>us_counter := us_counter st + 1\<rparr>))"

definition uid_init :: uid_state where
  "uid_init = \<lparr>us_last_ms = 0, us_counter = 0\<rparr>"

fun gen_all :: "int list \<Rightarrow> uid_state \<Rightarrow> int list" where
  "gen_all [] st = []"
| "gen_all (now # ts) st = (let (uid, st1) = GenUID now st in uid # gen_all ts st1)"

text \<open>Threads that are in the call at the same time, thread \<open>i\<close> having read the time \<open>nows ! i\<close>.\<close>

fun uid_run :: "int list \<Rightarrow> nat list \<Rightarrow> uid_phase list \<times> uid_state \<Rightarrow> uid_phase list \<times> uid_state" where
  "uid_run nows [] s = s"
| "uid_run nows (i # is) (ps, st) =
     (let (p, st1) = uid_step (nows ! i) (ps ! i, st) in uid_run nows is (ps[i := p], st1))"

lemma alone: "(uid_step now ^^ 4) (ULoad, st) = (UDone (fst (GenUID now st)), snd (GenUID now st))"
  by (simp add: uid_step_def GenUID_def Let_def eval_nat_numeral)

lemma gen_all_increases:
  assumes "sorted ts" "\<forall>t \<in> set ts. us_last_ms st \<le> t" "0 \<le> us_counter st"
    and "us_counter st + int (count_list ts (us_last_ms st)) \<le> 1000" "\<forall>t. count_list ts t \<le> 1000"
  shows "sorted_wrt (<) (gen_all ts st) \<and>
    (\<forall>uid \<in> set (gen_all ts st). us_last_ms st * 1000 + us_counter st \<le> uid)"
  using assms
proof (induction ts arbitrary: st)
  case (Cons now ts)
  let ?st = "snd (GenUID now st)" and ?uid = "fst (GenUID now st)"
  have now: "us_last_ms st \<le> now" using Cons.prems(2) by simp
  have st: "us_last_ms ?st = now" "us_counter ?st = (if now > us_last_ms st then 1 else us_counter st + 1)"
      "?uid = now * 1000 + (if now > us_last_ms st then 0 else us_counter st)" by (simp_all add: GenUID_def Let_def)
  have later: "\<forall>t \<in> set ts. us_last_ms ?st \<le> t" using Cons.prems(1) st(1) by simp
  have cnt: "us_counter ?st + int (count_list ts (us_last_ms ?st)) \<le> 1000"
  proof (cases "now > us_last_ms st")
    case True
    have "count_list (now # ts) now \<le> 1000" using Cons.prems(5) by blast
    then show ?thesis using True st by simp
  next
    case False
    then have "now = us_last_ms st" using now by simp
    then show ?thesis using Cons.prems(4) st by simp
  qed
  have each: "\<forall>t. count_list ts t \<le> 1000"
  proof
    fix t
    have "count_list (now # ts) t \<le> 1000" using Cons.prems(5) by blast
    then show "count_list ts t \<le> 1000" by (auto split: if_splits)
  qed
  have "0 \<le> us_counter ?st" "sorted ts" using st Cons.prems(1,3) by auto
  from Cons.IH [OF this(2) later this(1) cnt each]
  have ih: "sorted_wrt (<) (gen_all ts ?st)" "\<forall>uid \<in> set (gen_all ts ?st). now * 1000 + us_counter ?st \<le> uid"
    by (simp_all add: st(1))
  have "us_last_ms st * 1000 + us_counter st \<le> ?uid"
  proof (cases "now > us_last_ms st")
    case True
    have "us_counter st \<le> 1000" using Cons.prems(4) by simp
    then show ?thesis using True st(3) by simp
  next
    case False
    then show ?thesis using now st(3) by simp
  qed
  moreover have "?uid < uid" if "uid \<in> set (gen_all ts ?st)" for uid
    using ih(2) that st by (force split: if_splits)
  moreover have "gen_all (now # ts) st = ?uid # gen_all ts ?st" by (simp add: case_prod_beta Let_def)
  ultimately show ?case using ih(1) by fastforce
qed simp

text \<open>
  Ids drawn one after the other are strictly increasing, as long as the clock does not go back and no
  millisecond sees more than a thousand calls.
\<close>

theorem sequential_uids_increase:
  assumes "sorted ts" "\<forall>t \<in> set ts. 0 < t" "\<forall>t. count_list ts t \<le> 1000"
  shows "sorted_wrt (<) (gen_all ts uid_init)"
proof -
  have "0 \<notin> set ts" using assms(2) by blast
  then have "count_list ts 0 = 0" by (simp add: count_list_0_iff)
  moreover have "\<forall>t \<in> set ts. 0 \<le> t" using assms(2) by fastforce
  ultimately show ?thesis using gen_all_increases [OF assms(1), of uid_init] assms(3) by (simp add: uid_init_def)
qed

text \<open>
  Two threads that draw the first ids of a process in the same millisecond can both get the same one:
  the second counts before the first has reset the counter.
\<close>

theorem racing_uids_collide:
  assumes "0 < now"
  shows "\<exists>schedule uid. fst (uid_run [now, now] schedule ([ULoad, ULoad], uid_init)) = [UDone uid, UDone uid]"
proof -
  have "fst (uid_run [now, now] [0, 0, 1, 1, 1, 1, 0, 0] ([ULoad, ULoad], uid_init)) = [UDone (now * 1000), UDone (now * 1000)]"
    using assms by (simp add: uid_step_def uid_init_def)
  then show ?thesis by blast
qed

section \<open>Dumps, clocks and character sets\<close>

definition hex_digit :: "nat \<Rightarrow> char" where
  "hex_digit n = (if n < 10 then char_of (48 + n) else char_of (87 + n))"

definition hex_byte :: "8 word \<Rightarrow> string" where
  "hex_byte b = [hex_digit (unat b div 16), hex_digit (unat b mod 16)]"

fun toHex :: "8 word list \<Rightarrow> string" where
  "toHex [] = []"
| "toHex [b] = hex_byte b"
| "toHex (b # c # bs) = hex_byte b @ CHR '' '' # toHex (c # bs)"

text \<open>What \<open>printStringData\<close> writes between its heading and the end of the line.\<close>

definition printStringData :: "8 word list \<Rightarrow> string" where
  "printStringData data = ''String content as bytes: '' @ concat (map (\<lambda>b. ''0x'' @ hex_byte b @ '' '') data) @ [CHR 0x0A]"

text \<open>\<open>clock_gettime\<close> gives seconds and nanoseconds.\<close>

definition timeGetTimeUS :: "nat \<times> nat \<Rightarrow> nat" where
  "timeGetTimeUS ts = sz_add (umul 64 (fst ts) 1000000) (snd ts div 1000)"

definition timeGetTimeMS :: "nat \<times> nat \<Rightarrow> nat" where
  "timeGetTimeMS ts = timeGetTimeUS ts div 1000"

definition timeGetTimeS :: "nat \<times> nat \<Rightarrow> nat" where
  "timeGetTimeS ts = timeGetTimeUS ts div 1000000"

text \<open>
  \<open>convert_iconv\<close>: the converter for the two names, if there is one, is given a buffer of four times the
  size of the input; it answers the bytes it has written, or an error.
\<close>

definition convert_iconv ::
  "(string \<Rightarrow> string \<Rightarrow> (8 word list \<Rightarrow> nat \<Rightarrow> 8 word list option) option) \<Rightarrow> 8 word list \<Rightarrow> string \<Rightarrow> string \<Rightarrow> fault + 8 word list" where
  "convert_iconv iconv_open input from_set to_set =
     (case iconv_open to_set from_set of
        None \<Rightarrow> Inl Thrown
      | Some iconv \<Rightarrow>
          (case iconv input (umul 64 (length input) 4) of None \<Rightarrow> Inl Thrown | Some out \<Rightarrow> Inr out))"

definition utf8_to_local where
  "utf8_to_local iconv_open s = convert_iconv iconv_open s ''UTF-8'' ''GBK''"

definition local_to_utf8 where
  "local_to_utf8 iconv_open s = convert_iconv iconv_open s ''GBK'' ''UTF-8''"

definition gbk_to_local :: "8 word list \<Rightarrow> 8 word list" where "gbk_to_local s = s"
definition local_to_gbk :: "8 word list \<Rightarrow> 8 word list" where "local_to_gbk s = s"

text \<open>
  \<open>sendTgMessage\<close>: the URL it requests, if any. The text is escaped by curl; a failed escape gives a null
  pointer, from which a string is made.
\<close>

definition sendTgMessage ::
  "bool \<Rightarrow> (string \<Rightarrow> string option) \<Rightarrow> string \<Rightarrow> string \<Rightarrow> string \<Rightarrow> fault + string option" where
  "sendTgMessage curl_init curl_escape token chat_id txt =
     (if \<not> curl_init then Inr None
      else case curl_escape txt of
             None \<Rightarrow> Inl Undefined
           | Some escaped_text \<Rightarrow>
               if token = [] then Inr None
               else Inr (Some (''https://api.telegram.org/bot'' @ token @ ''/sendMessage?chat_id='' @ chat_id @ ''&text='' @ escaped_text)))"

lemma hex_digit_inj: "m < 16 \<Longrightarrow> n < 16 \<Longrightarrow> hex_digit m = hex_digit n \<Longrightarrow> m = n"
proof -
  have "\<forall>m \<in> set [0..<16]. \<forall>n \<in> set [0..<16]. hex_digit m = hex_digit n \<longrightarrow> m = n" by code_simp
  then show "m < 16 \<Longrightarrow> n < 16 \<Longrightarrow> hex_digit m = hex_digit n \<Longrightarrow> m = n" by simp
qed

lemma hex_byte_inj: "hex_byte a = hex_byte b \<Longrightarrow> a = b"
proof -
  assume h: "hex_byte a = hex_byte b"
  have u: "unat a < 256" "unat b < 256" using unsigned_less [of a] unsigned_less [of b] by simp_all
  have "unat a div 16 = unat b div 16" "unat a mod 16 = unat b mod 16"
    using h u by (auto simp: hex_byte_def intro!: hex_digit_inj)
  then have "unat a = unat b" by (metis mult_div_mod_eq)
  then show "a = b" by (simp add: word_unat_eq_iff)
qed

theorem toHex_injective: "toHex xs = toHex ys \<longleftrightarrow> xs = ys"
proof (induction xs arbitrary: ys rule: toHex.induct)
  case 1
  then show ?case by (cases ys rule: toHex.cases) (auto simp: hex_byte_def)
next
  case (2 b)
  then show ?case by (cases ys rule: toHex.cases) (auto dest: hex_byte_inj, auto simp: hex_byte_def)
next
  case (3 b c bs)
  show ?case
  proof (cases ys rule: toHex.cases)
    case (3 b' c' bs')
    then show ?thesis using "3.IH" [of "c' # bs'"] hex_byte_inj [of b b'] by (auto simp: hex_byte_def)
  qed (auto simp: hex_byte_def)
qed

section \<open>Witnesses\<close>

theorem sequential_uids_increase_witness:
  "gen_all [5, 5, 6] uid_init = [5000, 5001, 6000] \<and> sorted_wrt (<) (gen_all [5, 5, 6] uid_init)"
proof -
  have "sorted_wrt (<) (gen_all [5, 5, 6] uid_init)" by (rule sequential_uids_increase) auto
  then show ?thesis by (simp add: GenUID_def uid_init_def Let_def)
qed

theorem racing_uids_collide_witness:
  "\<exists>schedule uid. fst (uid_run [7, 7] schedule ([ULoad, ULoad], uid_init)) = [UDone uid, UDone uid]"
  by (rule racing_uids_collide) simp

end
