(* ===== verification/CmdLine.thy ===== *)
theory CmdLine
  imports StdText
begin

text \<open>
  \<open>CommandLineParser\<close> (src/server/core/app/CommandLineParser.h, CommandLineParser.cpp): the
  options a service accepts, their defaults, and the parsing of \<open>argv\<close>.  A \<open>std::map\<close> is a list of
  pairs in ascending order of keys; of a callback only its presence is kept, and \<open>parse\<close> lists the
  calls it makes.  Output for a person is left out.
\<close>

section \<open>State\<close>

record arg_info =
  ai_name :: string
  ai_description :: string
  ai_default_value :: string
  ai_value :: string
  ai_callback :: bool

record cmd_parser =
  cp_program_name :: string
  cp_args :: "(string \<times> arg_info) list"
  cp_values :: "(string \<times> string) list"
  cp_name_map :: "(string \<times> string) list"
  cp_positional_args :: "string list"
  cp_terminal_mode :: bool
  cp_help_mode :: bool

definition registerArg :: "string \<Rightarrow> string \<Rightarrow> string \<Rightarrow> bool \<Rightarrow> cmd_parser \<Rightarrow> cmd_parser" where
  "registerArg name description default_value callback cp =
     (let info = \<lparr>ai_name = name, ai_description = description, ai_default_value = default_value,
                  ai_value = default_value, ai_callback = callback\<rparr>
      in case cut (CHR '','') name of
        Some (short_name, long_name) \<Rightarrow>
          cp\<lparr>cp_args := ordered_put long_name info (cp_args cp),
             cp_name_map := ordered_put short_name long_name (cp_name_map cp),
             cp_values := ordered_put long_name default_value (cp_values cp)\<rparr>
      | None \<Rightarrow>
          cp\<lparr>cp_args := ordered_put name info (cp_args cp),
             cp_values := ordered_put name default_value (cp_values cp)\<rparr>)"

text \<open>The descriptions are texts for the help screen.\<close>

definition CommandLineParser_ctor :: "(string \<Rightarrow> string) \<Rightarrow> cmd_parser" where
  "CommandLineParser_ctor descr =
     (registerArg ''telnet-port'' (descr ''telnet-port'') ''23'' False \<circ>
      registerArg ''enable-telnet'' (descr ''enable-telnet'') ''false'' False \<circ>
      registerArg ''c,config'' (descr ''c,config'') ''config.json'' False \<circ>
      registerArg ''tick-interval'' (descr ''tick-interval'') ''10'' False \<circ>
      registerArg ''t,terminal'' (descr ''t,terminal'') ''false'' False \<circ>
      registerArg ''h,help'' (descr ''h,help'') ''false'' False)
     \<lparr>cp_program_name = [], cp_args = [], cp_values = [], cp_name_map = [], cp_positional_args = [],
      cp_terminal_mode = False, cp_help_mode = False\<rparr>"

section \<open>Lookup\<close>

definition findCanonicalName :: "cmd_parser \<Rightarrow> string \<Rightarrow> string" where
  "findCanonicalName cp name =
     (if map_of (cp_args cp) name \<noteq> None then name
      else case map_of (cp_name_map cp) name of Some long_name \<Rightarrow> long_name | None \<Rightarrow> [])"

definition cmd_getValue :: "cmd_parser \<Rightarrow> string \<Rightarrow> string" where
  "cmd_getValue cp name =
     (let canonical_name = findCanonicalName cp name in
      if canonical_name = [] then []
      else case map_of (cp_values cp) canonical_name of Some v \<Rightarrow> v | None \<Rightarrow> [])"

definition hasArg :: "cmd_parser \<Rightarrow> string \<Rightarrow> bool" where
  "hasArg cp name =
     (let canonical_name = findCanonicalName cp name in
      canonical_name \<noteq> [] \<and> map_of (cp_values cp) canonical_name \<noteq> None)"

lemma getValue_cong:
  "cp_args cp' = cp_args cp \<Longrightarrow> cp_name_map cp' = cp_name_map cp \<Longrightarrow> cp_values cp' = cp_values cp \<Longrightarrow>
   cmd_getValue cp' n = cmd_getValue cp n"
  by (simp add: cmd_getValue_def findCanonicalName_def Let_def cong: if_cong option.case_cong)

section \<open>Parsing\<close>

text \<open>
  \<open>parseArg\<close> gets the argument, and what follows it in \<open>argv\<close>; it returns what is left to
  parse, without the next argument if that was taken as the value.
\<close>

definition parseArg :: "cmd_parser \<Rightarrow> string \<Rightarrow> string list \<Rightarrow> cmd_parser \<times> string list" where
  "parseArg cp arg rest =
     (let (name, given) =
        (if take 2 arg = ''--'' then
           (let name = drop 2 arg in
            case cut (CHR ''='') name of Some (n, v) \<Rightarrow> (n, Some v) | None \<Rightarrow> (name, None))
         else
           (let name = drop 1 arg in
            if length name > 1 then (take 1 name, Some (drop 1 name)) else (name, None)));
        canonical_name = findCanonicalName cp name
      in if canonical_name = [] then (cp, rest)
         else let (value, rest') =
           (case given of
              Some v \<Rightarrow> (v, rest)
            | None \<Rightarrow> (case rest of
                next_arg # others \<Rightarrow>
                  if take 1 next_arg \<noteq> ''-'' then (next_arg, others) else (''true'', rest)
              | [] \<Rightarrow> (''true'', rest)))
         in (cp\<lparr>cp_values := ordered_put canonical_name value (cp_values cp)\<rparr>, rest'))"

lemma parseArg_shorter: "length (snd (parseArg cp arg rest)) \<le> length rest"
  by (simp add: parseArg_def Let_def case_prod_beta split: option.split list.split)

function (sequential) parse_args :: "cmd_parser \<Rightarrow> string list \<Rightarrow> cmd_parser" where
  "parse_args cp [] = cp"
| "parse_args cp (arg # rest) =
     (if arg = [] then parse_args cp rest
      else if take 1 arg = ''-'' then
        (let (cp', rest') = parseArg cp arg rest in parse_args cp' rest')
      else parse_args (cp\<lparr>cp_positional_args := cp_positional_args cp @ [arg]\<rparr>) rest)"
  by pat_completeness auto
termination
  by (relation "measure (\<lambda>(cp, args). length args)")
    (auto simp: less_Suc_eq_le case_prod_beta parseArg_shorter)

text \<open>\<open>parse\<close> fails without a program name; otherwise it also makes the calls listed.\<close>

definition cmd_parse :: "cmd_parser \<Rightarrow> string list \<Rightarrow> (cmd_parser \<times> (string \<times> string) list) option" where
  "cmd_parse cp argv =
     (case argv of
        [] \<Rightarrow> None
      | prog # args \<Rightarrow>
          let cp1 = parse_args (cp\<lparr>cp_program_name := prog\<rparr>) args;
              cp2 = (if cmd_getValue cp1 ''help'' = ''true'' \<or> cmd_getValue cp1 ''h'' = ''true''
                     then cp1\<lparr>cp_help_mode := True\<rparr> else cp1);
              cp3 = (if cmd_getValue cp2 ''terminal'' = ''true'' \<or> cmd_getValue cp2 ''t'' = ''true''
                     then cp2\<lparr>cp_terminal_mode := True\<rparr> else cp2)
          in Some (cp3, filter (\<lambda>(n, v). case map_of (cp_args cp3) n of
                                   Some info \<Rightarrow> ai_callback info | None \<Rightarrow> False) (cp_values cp3)))"

section \<open>What is parsed\<close>

text \<open>
  The forms in which a caller writes an argument: \<open>--name=value\<close>, \<open>--name value\<close>, \<open>-nvalue\<close>,
  \<open>-n value\<close>, a flag, and a positional argument.
\<close>

datatype cmd_item = LongEq string string | LongNext string string | ShortGlued char string
  | ShortNext char string | Flag string | Positional string

fun render_item :: "cmd_item \<Rightarrow> string list" where
  "render_item (LongEq n v) = [''--'' @ n @ ''='' @ v]"
| "render_item (LongNext n v) = [''--'' @ n, v]"
| "render_item (ShortGlued c v) = [''-'' @ c # v]"
| "render_item (ShortNext c v) = [[CHR ''-'', c], v]"
| "render_item (Flag n) = [''--'' @ n]"
| "render_item (Positional s) = [s]"

fun item_name :: "cmd_item \<Rightarrow> string" where
  "item_name (LongEq n v) = n"
| "item_name (LongNext n v) = n"
| "item_name (ShortGlued c v) = [c]"
| "item_name (ShortNext c v) = [c]"
| "item_name (Flag n) = n"
| "item_name (Positional s) = []"

fun item_value :: "cmd_item \<Rightarrow> string" where
  "item_value (LongEq n v) = v"
| "item_value (LongNext n v) = v"
| "item_value (ShortGlued c v) = v"
| "item_value (ShortNext c v) = v"
| "item_value (Flag n) = ''true''"
| "item_value (Positional s) = s"

text \<open>
  An item can be told apart: its name is known, contains no \<open>=\<close>, a glued value is not empty, a
  separate value and a positional argument do not begin with a dash.
\<close>

fun item_ok :: "cmd_parser \<Rightarrow> cmd_item \<Rightarrow> bool" where
  "item_ok cp (LongEq n v) \<longleftrightarrow> CHR ''='' \<notin> set n \<and> findCanonicalName cp n \<noteq> []"
| "item_ok cp (LongNext n v) \<longleftrightarrow>
     CHR ''='' \<notin> set n \<and> findCanonicalName cp n \<noteq> [] \<and> take 1 v \<noteq> ''-''"
| "item_ok cp (ShortGlued c v) \<longleftrightarrow> c \<noteq> CHR ''-'' \<and> v \<noteq> [] \<and> findCanonicalName cp [c] \<noteq> []"
| "item_ok cp (ShortNext c v) \<longleftrightarrow>
     c \<noteq> CHR ''-'' \<and> findCanonicalName cp [c] \<noteq> [] \<and> take 1 v \<noteq> ''-''"
| "item_ok cp (Flag n) \<longleftrightarrow> CHR ''='' \<notin> set n \<and> findCanonicalName cp n \<noteq> []"
| "item_ok cp (Positional s) \<longleftrightarrow> s \<noteq> [] \<and> take 1 s \<noteq> ''-''"

fun is_positional :: "cmd_item \<Rightarrow> bool" where
  "is_positional (Positional s) = True"
| "is_positional i = False"

text \<open>A flag must not be followed by something that would be taken for its value.\<close>

fun flags_ok :: "cmd_item list \<Rightarrow> bool" where
  "flags_ok (Flag n # Positional s # items) = False"
| "flags_ok (i # items) = flags_ok items"
| "flags_ok [] = True"

text \<open>The effect an item should have.\<close>

definition item_effect :: "cmd_item \<Rightarrow> cmd_parser \<Rightarrow> cmd_parser" where
  "item_effect i cp =
     (if is_positional i then cp\<lparr>cp_positional_args := cp_positional_args cp @ [item_value i]\<rparr>
      else cp\<lparr>cp_values := ordered_put (findCanonicalName cp (item_name i)) (item_value i) (cp_values cp)\<rparr>)"

section \<open>Parsing what was written\<close>

lemma parse_args_flag_end:
  "CHR ''='' \<notin> set n \<Longrightarrow> findCanonicalName cp n \<noteq> [] \<Longrightarrow> rest = [] \<or> take 1 (hd rest) = ''-'' \<Longrightarrow>
   parse_args cp (render_item (Flag n) @ rest) = parse_args (item_effect (Flag n) cp) rest"
  by (cases rest) (auto simp: parseArg_def cut_def item_effect_def Let_def split: if_splits)

lemma parse_args_item:
  assumes "item_ok cp i" "\<forall>n. i = Flag n \<longrightarrow> rest = [] \<or> take 1 (hd rest) = ''-''"
  shows "parse_args cp (render_item i @ rest) = parse_args (item_effect i cp) rest"
proof (cases i)
  case (LongEq n v)
  then have "CHR ''='' \<notin> set n" using assms(1) by simp
  then have "cut (CHR ''='') (n @ ''='' @ v) = Some (n, v)"
    by (auto simp: cut_def takeWhile_tail dropWhile_append)
  then show ?thesis using assms(1) LongEq by (simp add: parseArg_def item_effect_def Let_def)
next
  case (LongNext n v)
  then show ?thesis using assms(1) by (simp add: parseArg_def cut_def item_effect_def Let_def)
next
  case (ShortGlued c v)
  then show ?thesis using assms(1) by (simp add: parseArg_def item_effect_def Let_def)
next
  case (ShortNext c v)
  then show ?thesis using assms(1) by (simp add: parseArg_def item_effect_def Let_def)
next
  case (Flag n)
  then show ?thesis using assms parse_args_flag_end [of n cp rest] by simp
next
  case (Positional s)
  then show ?thesis using assms(1) by (simp add: item_effect_def)
qed

lemma item_ok_cong: "findCanonicalName cp = findCanonicalName cp' \<Longrightarrow> item_ok cp i \<longleftrightarrow> item_ok cp' i"
  by (cases i) simp_all

lemma effect_keeps_names [simp]:
  "findCanonicalName (item_effect i cp) n = findCanonicalName cp n"
  "item_ok (item_effect i cp) j = item_ok cp j"
proof -
  show *: "findCanonicalName (item_effect i cp) n = findCanonicalName cp n" for n
    by (auto simp: item_effect_def findCanonicalName_def split: option.splits)
  show "item_ok (item_effect i cp) j = item_ok cp j" by (cases j) (simp_all add: *)
qed

lemma flags_tail: "flags_ok (i # items) \<Longrightarrow> flags_ok items"
  by (cases "(i, items)" rule: prod.exhaust; cases i; cases items rule: list.exhaust)
    (auto split: cmd_item.splits elim: flags_ok.elims)

lemma render_dash:
  "item_ok cp i \<Longrightarrow> \<not> is_positional i \<Longrightarrow> render_item i \<noteq> [] \<and> take 1 (hd (render_item i)) = ''-''"
  by (cases i) auto

lemma flag_next:
  assumes "flags_ok (Flag n # items)" "\<forall>i \<in> set items. item_ok cp i"
  shows "concat (map render_item items) = [] \<or> take 1 (hd (concat (map render_item items))) = ''-''"
proof (cases items)
  case (Cons j js)
  then have "\<not> is_positional j" using assms(1) by (cases j) auto
  then show ?thesis using render_dash [of cp j] assms(2) Cons by simp
qed simp

lemma parse_args_render:
  "\<forall>i \<in> set items. item_ok cp i \<Longrightarrow> flags_ok items \<Longrightarrow>
   parse_args cp (concat (map render_item items)) = fold item_effect items cp"
proof (induction items arbitrary: cp)
  case (Cons i items)
  have "\<forall>n. i = Flag n \<longrightarrow> concat (map render_item items) = [] \<or>
      take 1 (hd (concat (map render_item items))) = ''-''"
    using flag_next [of _ items cp] Cons.prems by auto
  then have "parse_args cp (concat (map render_item (i # items))) =
      parse_args (item_effect i cp) (concat (map render_item items))"
    using parse_args_item [of cp i] Cons.prems(1) by simp
  then show ?case using Cons.IH [of "item_effect i cp"] Cons.prems flags_tail by simp
qed simp

text \<open>The value in effect for a name after some items: the last one given for it.\<close>

definition given :: "cmd_parser \<Rightarrow> cmd_item list \<Rightarrow> string \<Rightarrow> cmd_item list" where
  "given cp items n =
     filter (\<lambda>i. \<not> is_positional i \<and> findCanonicalName cp (item_name i) = findCanonicalName cp n) items"

lemma getValue_effect:
  assumes "item_ok cp i"
  shows "cmd_getValue (item_effect i cp) n =
    (if \<not> is_positional i \<and> findCanonicalName cp (item_name i) = findCanonicalName cp n
     then item_value i else cmd_getValue cp n)"
proof -
  have "findCanonicalName cp (item_name i) \<noteq> []" if "\<not> is_positional i"
    using assms that by (cases i) auto
  moreover have "cp_values (item_effect i cp) = (if is_positional i then cp_values cp
      else ordered_put (findCanonicalName cp (item_name i)) (item_value i) (cp_values cp))"
    by (simp add: item_effect_def)
  ultimately show ?thesis by (auto simp: cmd_getValue_def Let_def split: option.splits)
qed

lemma getValue_fold:
  "\<forall>i \<in> set items. item_ok cp i \<Longrightarrow>
   cmd_getValue (fold item_effect items cp) n =
     (if given cp items n = [] then cmd_getValue cp n else item_value (last (given cp items n)))"
proof (induction items arbitrary: cp)
  case (Cons i items)
  have g: "given (item_effect i cp) items n = given cp items n" by (simp add: given_def)
  show ?case using Cons getValue_effect [of cp i n] by (auto simp: g given_def)
qed (simp add: given_def)

lemma fold_effect_fields:
  "cp_positional_args (fold item_effect items cp) =
     cp_positional_args cp @ map item_value (filter is_positional items)"
  "findCanonicalName (fold item_effect items cp) n = findCanonicalName cp n"
  "cp_program_name (fold item_effect items cp) = cp_program_name cp"
  by (induction items arbitrary: cp) (auto simp: item_effect_def findCanonicalName_def)

lemma read_back:
  assumes "\<forall>i \<in> set items. item_ok cp i" "flags_ok items"
  shows "\<exists>cp' calls. cmd_parse cp (prog # concat (map render_item items)) = Some (cp', calls) \<and>
    cp_program_name cp' = prog \<and>
    cp_positional_args cp' = cp_positional_args cp @ map item_value (filter is_positional items) \<and>
    (\<forall>n. cmd_getValue cp' n =
       (if given cp items n = [] then cmd_getValue cp n else item_value (last (given cp items n))))"
proof -
  define cp0 where "cp0 = cp\<lparr>cp_program_name := prog\<rparr>"
  have can: "findCanonicalName cp0 = findCanonicalName cp"
    by (simp add: cp0_def findCanonicalName_def fun_eq_iff)
  have ok: "\<forall>i \<in> set items. item_ok cp0 i"
    using assms(1) item_ok_cong [OF can] by blast
  define cp1 where "cp1 = fold item_effect items cp0"
  have 1: "parse_args cp0 (concat (map render_item items)) = cp1"
    unfolding cp1_def by (rule parse_args_render [OF ok assms(2)])
  have val: "cmd_getValue cp1 n =
      (if given cp items n = [] then cmd_getValue cp n else item_value (last (given cp items n)))" for n
  proof -
    have "cp_values cp0 = cp_values cp" by (simp add: cp0_def)
    then have "cmd_getValue cp0 n = cmd_getValue cp n" by (simp add: cmd_getValue_def can Let_def cong: if_cong)
    moreover have "given cp0 items n = given cp items n" by (simp add: given_def can)
    ultimately show ?thesis using getValue_fold [OF ok, of n] by (simp add: cp1_def)
  qed
  obtain cp' calls where p: "cmd_parse cp (prog # concat (map render_item items)) = Some (cp', calls)"
    "cp_positional_args cp' = cp_positional_args cp1" "cp_program_name cp' = cp_program_name cp1"
    "cp_values cp' = cp_values cp1" "findCanonicalName cp' = findCanonicalName cp1"
    using 1 [unfolded cp0_def] by (auto simp: cmd_parse_def Let_def findCanonicalName_def fun_eq_iff)
  then have "cmd_getValue cp' n = cmd_getValue cp1 n" for n
    by (simp add: cmd_getValue_def Let_def cong: if_cong)
  then show ?thesis
    using p val fold_effect_fields [of items cp0] by (auto simp: cp1_def) (simp_all add: cp0_def)
qed

text \<open>
  A command line that writes options in any of the accepted forms, and positional arguments
  among them, is read back: every name, long or short, has the value that was given last for it or
  keeps its old one, and the positional arguments come in their order.
\<close>

theorem command_line_read_back:
  assumes "\<forall>i \<in> set items. item_ok cp i" "flags_ok items"
  shows "\<exists>cp' calls. cmd_parse cp (prog # concat (map render_item items)) = Some (cp', calls) \<and>
    cp_program_name cp' = prog \<and>
    cp_positional_args cp' = cp_positional_args cp @ map item_value (filter is_positional items) \<and>
    (\<forall>n. cmd_getValue cp' n =
       (if given cp items n = [] then cmd_getValue cp n else item_value (last (given cp items n))))"
  using assms by (rule read_back)

text \<open>The options every service has, as the constructor registers them.\<close>

lemmas cmd_eval = CommandLineParser_ctor_def registerArg_def cut_def findCanonicalName_def
  cmd_getValue_def Let_def

theorem command_line_read_back_witness:
  "\<exists>cp' calls. cmd_parse (CommandLineParser_ctor (\<lambda>_. []))
      [''connd'', ''--config=a.json'', ''run'', ''--terminal'', ''--tick-interval'', ''20'', ''-cb.json''] =
      Some (cp', calls) \<and>
    cp_positional_args cp' = [''run''] \<and> cmd_getValue cp' ''c'' = ''b.json'' \<and>
    cmd_getValue cp' ''terminal'' = ''true'' \<and> cmd_getValue cp' ''tick-interval'' = ''20'' \<and>
    cmd_getValue cp' ''telnet-port'' = ''23''"
proof -
  define cp where "cp = CommandLineParser_ctor (\<lambda>_. [])"
  define items where "items = [LongEq ''config'' ''a.json'', Positional ''run'', Flag ''terminal'',
    LongNext ''tick-interval'' ''20'', ShortGlued (CHR ''c'') ''b.json'']"
  have can: "findCanonicalName cp ''config'' = ''config''" "findCanonicalName cp ''terminal'' = ''terminal''"
    "findCanonicalName cp ''tick-interval'' = ''tick-interval''" "findCanonicalName cp ''c'' = ''config''"
    "findCanonicalName cp ''telnet-port'' = ''telnet-port''" "cmd_getValue cp ''telnet-port'' = ''23''"
    by (simp_all add: cp_def cmd_eval)
  have ok: "\<forall>i \<in> set items. item_ok cp i" "flags_ok items" by (simp_all add: items_def can)
  have parts: "concat (map render_item items) =
      [''--config=a.json'', ''run'', ''--terminal'', ''--tick-interval'', ''20'', ''-cb.json'']"
    "map item_value (filter is_positional items) = [''run'']" "cp_positional_args cp = []"
    by (simp_all add: items_def cp_def cmd_eval)
  have "given cp items ''c'' = [LongEq ''config'' ''a.json'', ShortGlued (CHR ''c'') ''b.json'']"
    "given cp items ''terminal'' = [Flag ''terminal'']"
    "given cp items ''tick-interval'' = [LongNext ''tick-interval'' ''20'']"
    "given cp items ''telnet-port'' = []"
    by (simp_all add: given_def items_def can)
  then show ?thesis
    using command_line_read_back [OF ok, of "''connd''"] unfolding parts cp_def [symmetric]
    by (auto simp: can)
qed

end
