(* ===== verification/Config.thy ===== *)
theory Config
  imports StdText "HOL-Library.Monad_Syntax"
begin

text \<open>
  The configuration of a service: \<open>JsonParser\<close>, which finds and changes members of a JSON
  document by dotted paths (src/server/core/app/JsonParser.cpp), and \<open>ConfigManager\<close>, which keeps the
  document, its file and the listeners (src/server/core/app/ConfigManager.cpp).  The file
  system's answers are arguments.  An object is a list of members in ascending order of names.
\<close>

section \<open>Paths\<close>

definition parseKeyPath :: "string \<Rightarrow> string list" where
  "parseKeyPath keyPath = getlines (CHR ''.'') keyPath"

fun json_at :: "string list \<Rightarrow> json \<Rightarrow> json option" where
  "json_at [] j = Some j"
| "json_at (token # tokens) (JObj kvs) =
     (case map_of kvs (str_bytes token) of None \<Rightarrow> None | Some c \<Rightarrow> json_at tokens c)"
| "json_at (token # tokens) (JArr xs) =
     (case std_stoul token of
        None \<Rightarrow> None
      | Some index \<Rightarrow> if index < length xs then json_at tokens (xs ! index) else None)"
| "json_at (token # tokens) j = None"

definition getConstJsonRef :: "json \<Rightarrow> string \<Rightarrow> json option" where
  "getConstJsonRef config keyPath = json_at (parseKeyPath keyPath) config"

text \<open>
  \<open>getMutableJsonRef\<close> with \<open>createIfNotExist\<close>, and the assignment to what it finds.  The result is
  whether a place was found, and the changed document: an index beyond an array extends it, until
  the array has \<open>lim\<close> elements, where memory is exhausted and the exception ends the search.
\<close>

fun json_set :: "nat \<Rightarrow> string list \<Rightarrow> json \<Rightarrow> json \<Rightarrow> bool \<times> json" where
  "json_set lim [] v j = (True, v)"
| "json_set lim (token # tokens) v (JObj kvs) =
     (let child = (case map_of kvs (str_bytes token) of None \<Rightarrow> JObj [] | Some c \<Rightarrow> c);
          (found, c') = json_set lim tokens v child
      in (found, JObj (ordered_put (str_bytes token) c' kvs)))"
| "json_set lim (token # tokens) v (JArr xs) =
     (case std_stoul token of
        None \<Rightarrow> (False, JArr xs)
      | Some index \<Rightarrow>
          if index < length xs then
            (let (found, c') = json_set lim tokens v (xs ! index) in (found, JArr (xs[index := c'])))
          else if index < lim then
            (let xs' = xs @ replicate (Suc index - length xs) (JObj []);
                 (found, c') = json_set lim tokens v (xs' ! index)
             in (found, JArr (xs'[index := c'])))
          else (False, JArr (xs @ replicate (lim - length xs) (JObj []))))"
| "json_set lim (token # tokens) v JNull =
     (let (found, c') = json_set lim tokens v (JObj []) in (found, JObj [(str_bytes token, c')]))"
| "json_set lim (token # tokens) v j = (False, j)"

definition JsonParser_getValue :: "json \<Rightarrow> string \<Rightarrow> json option" where
  "JsonParser_getValue config keyPath =
     (case getConstJsonRef config keyPath of
        Some node \<Rightarrow> if node \<noteq> JNull then Some node else None
      | None \<Rightarrow> None)"

definition JsonParser_hasKey :: "json \<Rightarrow> string \<Rightarrow> bool" where
  "JsonParser_hasKey config keyPath =
     (case getConstJsonRef config keyPath of Some node \<Rightarrow> node \<noteq> JNull | None \<Rightarrow> False)"

definition JsonParser_setValue :: "nat \<Rightarrow> json \<Rightarrow> string \<Rightarrow> json \<Rightarrow> bool \<times> json" where
  "JsonParser_setValue lim config keyPath v = json_set lim (parseKeyPath keyPath) v config"

text \<open>\<open>collectKeysRecursive\<close>: the paths of all members, elements of arrays as \<open>[i]\<close>.\<close>

fun collectKeys :: "json \<Rightarrow> string \<Rightarrow> string list"
  and collect_members :: "(8 word list \<times> json) list \<Rightarrow> string \<Rightarrow> string list"
  and collect_elements :: "nat \<Rightarrow> json list \<Rightarrow> string \<Rightarrow> string list" where
  "collectKeys (JObj kvs) path = collect_members kvs path"
| "collectKeys (JArr xs) path = collect_elements 0 xs path"
| "collectKeys j path = []"
| "collect_members [] path = []"
| "collect_members ((k, c) # kvs) path =
     (let new_path = (if path = [] then bytes_str k else path @ ''.'' @ bytes_str k)
      in new_path # collectKeys c new_path @ collect_members kvs path)"
| "collect_elements i [] path = []"
| "collect_elements i (x # xs) path =
     collectKeys x (path @ ''['' @ bytes_str (to_string_nat i) @ '']'') @ collect_elements (Suc i) xs path"

definition JsonParser_getAllKeys :: "json \<Rightarrow> string \<Rightarrow> string list" where
  "JsonParser_getAllKeys config prefix =
     (case config of JObj kvs \<Rightarrow> collectKeys config prefix | _ \<Rightarrow> [])"

section \<open>ConfigManager\<close>

datatype config_event = CONFIG_LOADED | CONFIG_SAVED | CONFIG_CHANGED string | CONFIG_RELOADED

text \<open>
  A listener is code of the application.  What matters here is whether, for an event, it calls a
  method of the manager that locks \<open>config_mutex\<close>, or one that locks \<open>listeners_mutex\<close>.
\<close>

record listener =
  uses_config :: "config_event \<Rightarrow> bool"
  uses_listeners :: "config_event \<Rightarrow> bool"

record config_manager =
  cm_config_root :: json
  cm_config_file_path :: string
  cm_last_modified_time :: int
  cm_hot_reload_enabled :: bool
  cm_hot_reload_running :: bool
  cm_check_interval_ms :: int
  cm_event_listeners :: "(nat \<times> listener) list"
  cm_next_listener_id :: nat

text \<open>
  Reading a file into the document: it does not open, it is parsed, or the parser throws and leaves
  some document behind. The file's time is looked at before a reload and again after the reading.
\<close>

datatype file_answer = NotOpened | Parsed json | ParseError json

record fs_answers =
  fs_exists :: bool
  fs_created :: bool
  fs_read :: file_answer
  fs_saved :: bool
  fs_mtime :: int
  fs_mtime_after :: int

definition ConfigManager_ctor :: "int \<Rightarrow> config_manager" where
  "ConfigManager_ctor epoch = \<lparr>cm_config_root = JObj [], cm_config_file_path = [],
     cm_last_modified_time = epoch, cm_hot_reload_enabled = False, cm_hot_reload_running = False,
     cm_check_interval_ms = 1000, cm_event_listeners = [], cm_next_listener_id = 0\<rparr>"

definition loadFromFile :: "file_answer \<Rightarrow> json \<Rightarrow> bool \<times> json" where
  "loadFromFile r config =
     (case r of NotOpened \<Rightarrow> (False, config) | Parsed j \<Rightarrow> (True, j) | ParseError j \<Rightarrow> (False, j))"

text \<open>
  \<open>fireEvent\<close> calls every listener with \<open>listeners_mutex\<close> locked, and with \<open>config_mutex\<close> locked if its
  caller holds it.  The result lists the calls.
\<close>

definition fireEvent :: "bool \<Rightarrow> config_event \<Rightarrow> config_manager \<Rightarrow> fault + (nat \<times> config_event) list" where
  "fireEvent holds_config ev cm =
     (if \<exists>(i, l) \<in> set (cm_event_listeners cm). holds_config \<and> uses_config l ev \<or> uses_listeners l ev
      then Inl Deadlock
      else Inr (map (\<lambda>(i, l). (i, ev)) (cm_event_listeners cm)))"

type_synonym 'a config_result = "fault + 'a \<times> config_manager \<times> (nat \<times> config_event) list"

definition cfg_fire :: "bool \<Rightarrow> config_event \<Rightarrow> 'a \<Rightarrow> config_manager \<Rightarrow> 'a config_result" where
  "cfg_fire holds_config ev x cm =
     (case fireEvent holds_config ev cm of Inl e \<Rightarrow> Inl e | Inr calls \<Rightarrow> Inr (x, cm, calls))"

definition loadConfig :: "fs_answers \<Rightarrow> string \<Rightarrow> bool \<Rightarrow> config_manager \<Rightarrow> bool config_result" where
  "loadConfig fs config_file auto_create cm =
     (let cm1 = cm\<lparr>cm_config_file_path := config_file\<rparr> in
      if \<not> fs_exists fs \<and> \<not> (auto_create \<and> fs_created fs) then Inr (False, cm1, [])
      else let (ok, root) = loadFromFile (fs_read fs) (cm_config_root cm1);
               cm2 = cm1\<lparr>cm_config_root := root\<rparr>
           in if ok then cfg_fire True CONFIG_LOADED True (cm2\<lparr>cm_last_modified_time := fs_mtime_after fs\<rparr>)
              else Inr (False, cm2, []))"

definition saveConfig :: "fs_answers \<Rightarrow> string \<Rightarrow> config_manager \<Rightarrow> bool config_result" where
  "saveConfig fs config_file cm =
     (let target_file = (if config_file = [] then cm_config_file_path cm else config_file) in
      if target_file = [] then Inr (False, cm, [])
      else if fs_saved fs
      then cfg_fire True CONFIG_SAVED True (cm\<lparr>cm_last_modified_time := fs_mtime_after fs\<rparr>)
      else Inr (False, cm, []))"

definition startHotReloadMonitor :: "config_manager \<Rightarrow> config_manager" where
  "startHotReloadMonitor cm =
     (if cm_hot_reload_running cm then cm else cm\<lparr>cm_hot_reload_running := True\<rparr>)"

definition stopHotReloadMonitor :: "config_manager \<Rightarrow> config_manager" where
  "stopHotReloadMonitor cm =
     (if \<not> cm_hot_reload_running cm then cm else cm\<lparr>cm_hot_reload_running := False\<rparr>)"

definition enableHotReload :: "bool \<Rightarrow> int \<Rightarrow> config_manager \<Rightarrow> config_manager" where
  "enableHotReload enabled check_interval_ms cm =
     (if enabled then
        let cm1 = cm\<lparr>cm_check_interval_ms := check_interval_ms\<rparr> in
        if \<not> cm_hot_reload_enabled cm1
        then startHotReloadMonitor (cm1\<lparr>cm_hot_reload_enabled := True\<rparr>) else cm1
      else if cm_hot_reload_enabled cm
      then stopHotReloadMonitor (cm\<lparr>cm_hot_reload_enabled := False\<rparr>) else cm)"

definition config_hasKey :: "string \<Rightarrow> config_manager \<Rightarrow> bool" where
  "config_hasKey key cm = JsonParser_hasKey (cm_config_root cm) key"

text \<open>
  \<open>getValue<T>\<close>: \<open>conv\<close> is the library's \<open>get<T>\<close>, which throws on another type (\<^term>\<open>None\<close>). For a vector
  of strings the node must be an array.  \<open>setValue<T>\<close> gets the value as a document.
\<close>

definition config_getValue :: "(json \<Rightarrow> 'a option) \<Rightarrow> string \<Rightarrow> 'a \<Rightarrow> config_manager \<Rightarrow> 'a" where
  "config_getValue conv key default_value cm =
     (case JsonParser_getValue (cm_config_root cm) key of
        Some node \<Rightarrow> (case conv node of Some v \<Rightarrow> v | None \<Rightarrow> default_value)
      | None \<Rightarrow> default_value)"

definition config_getStrings ::
  "(json \<Rightarrow> string list option) \<Rightarrow> string \<Rightarrow> string list \<Rightarrow> config_manager \<Rightarrow> string list" where
  "config_getStrings conv key default_value cm =
     (case JsonParser_getValue (cm_config_root cm) key of
        Some (JArr xs) \<Rightarrow> (case conv (JArr xs) of Some v \<Rightarrow> v | None \<Rightarrow> default_value)
      | _ \<Rightarrow> default_value)"

definition config_setValue ::
  "nat \<Rightarrow> string \<Rightarrow> json \<Rightarrow> bool \<Rightarrow> config_manager \<Rightarrow> unit config_result" where
  "config_setValue lim key v notify cm =
     (let cm1 = cm\<lparr>cm_config_root := snd (JsonParser_setValue lim (cm_config_root cm) key v)\<rparr> in
      if notify then cfg_fire False (CONFIG_CHANGED key) () cm1 else Inr ((), cm1, []))"

text \<open>\<open>merge_patch\<close> is the library's; parsing gives no document when it throws.\<close>

definition loadFromJsonString ::
  "(json \<Rightarrow> json \<Rightarrow> json) \<Rightarrow> json option \<Rightarrow> bool \<Rightarrow> config_manager \<Rightarrow> bool config_result" where
  "loadFromJsonString merge_patch parsed merge cm =
     (case parsed of
        None \<Rightarrow> Inr (False, cm, [])
      | Some new_config \<Rightarrow>
          cfg_fire True CONFIG_LOADED True
            (cm\<lparr>cm_config_root :=
                 (if merge then merge_patch (cm_config_root cm) new_config else new_config)\<rparr>))"

definition registerEventListener :: "listener \<Rightarrow> config_manager \<Rightarrow> nat \<times> config_manager" where
  "registerEventListener l cm =
     (cm_next_listener_id cm,
      cm\<lparr>cm_event_listeners := ordered_put (cm_next_listener_id cm) l (cm_event_listeners cm),
         cm_next_listener_id := Suc (cm_next_listener_id cm)\<rparr>)"

definition unregisterEventListener :: "nat \<Rightarrow> config_manager \<Rightarrow> bool \<times> config_manager" where
  "unregisterEventListener listener_id cm =
     (map_of (cm_event_listeners cm) listener_id \<noteq> None,
      cm\<lparr>cm_event_listeners := filter (\<lambda>(i, l). i \<noteq> listener_id) (cm_event_listeners cm)\<rparr>)"

definition config_getAllKeys :: "string \<Rightarrow> config_manager \<Rightarrow> string list" where
  "config_getAllKeys prefix cm = JsonParser_getAllKeys (cm_config_root cm) prefix"

definition config_clear :: "config_manager \<Rightarrow> unit config_result" where
  "config_clear cm = cfg_fire True (CONFIG_CHANGED []) () (cm\<lparr>cm_config_root := JObj []\<rparr>)"

definition isConfigFileModified :: "fs_answers \<Rightarrow> config_manager \<Rightarrow> bool" where
  "isConfigFileModified fs cm =
     (cm_config_file_path cm \<noteq> [] \<and> fs_mtime fs > cm_last_modified_time cm)"

text \<open>One round of the monitor thread, after its sleep.\<close>

definition hotReload_round :: "fs_answers \<Rightarrow> config_manager \<Rightarrow> unit config_result" where
  "hotReload_round fs cm =
     (if cm_hot_reload_enabled cm \<and> cm_config_file_path cm \<noteq> [] \<and> isConfigFileModified fs cm then
        let (ok, root) = loadFromFile (fs_read fs) (cm_config_root cm);
            cm1 = cm\<lparr>cm_config_root := root\<rparr>
        in if ok then cfg_fire True CONFIG_RELOADED () (cm1\<lparr>cm_last_modified_time := fs_mtime_after fs\<rparr>)
           else Inr ((), cm1, [])
      else Inr ((), cm, []))"

section \<open>Well-formed documents\<close>

fun wf_json :: "json \<Rightarrow> bool" and wf_members :: "(8 word list \<times> json) list \<Rightarrow> bool"
  and wf_elements :: "json list \<Rightarrow> bool" where
  "wf_json (JObj kvs) \<longleftrightarrow> sorted_wrt (<) (map fst kvs) \<and> wf_members kvs"
| "wf_json (JArr xs) \<longleftrightarrow> wf_elements xs"
| "wf_json j \<longleftrightarrow> True"
| "wf_members [] \<longleftrightarrow> True"
| "wf_members ((k, c) # kvs) \<longleftrightarrow> wf_json c \<and> wf_members kvs"
| "wf_elements [] \<longleftrightarrow> True"
| "wf_elements (x # xs) \<longleftrightarrow> wf_json x \<and> wf_elements xs"

lemma wf_members_iff: "wf_members kvs \<longleftrightarrow> (\<forall>(k, c) \<in> set kvs. wf_json c)"
  by (induction kvs) auto

lemma wf_elements_iff: "wf_elements xs \<longleftrightarrow> (\<forall>x \<in> set xs. wf_json x)"
  by (induction xs) auto

lemma wf_member: "wf_json (JObj kvs) \<Longrightarrow> map_of kvs k = Some c \<Longrightarrow> wf_json c"
  by (auto simp: wf_members_iff dest: map_of_SomeD)

lemma set_ordered_put: "set (ordered_put k v m) \<subseteq> insert (k, v) (set m)"
  by (induction k v m rule: ordered_put.induct) auto

lemma ordered_put_same:
  "sorted_wrt (<) (map fst m) \<Longrightarrow> map_of m k = Some v \<Longrightarrow> ordered_put k v m = m"
proof (induction k v m rule: ordered_put.induct)
  case (2 k v k' v' m)
  have "\<not> k < k'" if "k \<noteq> k'" using 2(2,3) that map_of_SomeD [of m k v] by fastforce
  then show ?case using 2 by auto
qed simp

lemma str_bytes_inj: "str_bytes a = str_bytes b \<longleftrightarrow> a = b"
proof
  assume "str_bytes a = str_bytes b"
  moreover have "bytes_str (str_bytes s) = s" for s
    by (simp add: bytes_str_def str_bytes_def o_def unsigned_of_nat take_bit_eq_mod)
  ultimately show "a = b" by metis
qed simp

section \<open>Setting and getting\<close>

lemma json_set_at: "json_set lim p v j = (True, j') \<Longrightarrow> json_at p j' = Some v"
proof (induction lim p v j arbitrary: j' rule: json_set.induct)
  case (2 lim token tokens v kvs)
  then show ?case by (auto simp: Let_def split: option.splits prod.splits)
next
  case (3 lim token tokens v xs)
  then show ?case by (auto simp: Let_def split: option.splits prod.splits if_splits)
qed (auto split: prod.splits)

lemma json_set_new: "fst (json_set lim p v (JObj []))"
  by (induction p) (auto simp: Let_def split: prod.splits)

lemma json_set_wf: "wf_json j \<Longrightarrow> wf_json v \<Longrightarrow> wf_json (snd (json_set lim p v j))"
proof (induction lim p v j rule: json_set.induct)
  case (2 lim token tokens v kvs)
  define child where "child = (case map_of kvs (str_bytes token) of None \<Rightarrow> JObj [] | Some c \<Rightarrow> c)"
  have "wf_json child" using 2(2) wf_member by (auto simp: child_def split: option.splits)
  then have c: "wf_json (snd (json_set lim tokens v child))"
    using 2 by (simp add: child_def)
  have "wf_members (ordered_put (str_bytes token) (snd (json_set lim tokens v child)) kvs)"
    using c 2(2) set_ordered_put by (fastforce simp: wf_members_iff)
  then show ?case
    using 2(2) by (simp add: ordered_put_sorted Let_def child_def case_prod_beta)
next
  case (3 lim token tokens v xs)
  have xs: "\<forall>x \<in> set xs. wf_json x" using 3(3) by (simp add: wf_elements_iff)
  show ?case
  proof (cases "std_stoul token")
    case None
    then show ?thesis using 3(3) by simp
  next
    case (Some i)
    consider "i < length xs" | "length xs \<le> i" "i < lim" | "length xs \<le> i" "lim \<le> i" by linarith
    then show ?thesis
    proof cases
      case 1
      then have "wf_json (snd (json_set lim tokens v (xs ! i)))" using 3 Some xs by simp
      then show ?thesis using 1 Some xs
        by (auto simp: Let_def case_prod_beta wf_elements_iff dest: subsetD [OF set_update_subset_insert])
    next
      case 2
      define ys where "ys = xs @ replicate (Suc i - length xs) (JObj [])"
      have ys: "\<forall>x \<in> set ys. wf_json x" "i < length ys" using xs 2 by (auto simp: ys_def)
      then have "wf_json (snd (json_set lim tokens v (ys ! i)))"
        using 3(2) [OF Some _ _ ys_def] 3(4) 2 by simp
      then show ?thesis using 2 Some ys
        by (auto simp: Let_def case_prod_beta wf_elements_iff ys_def
            dest!: subsetD [OF set_update_subset_insert])
    next
      case 3
      then show ?thesis using Some xs by (auto simp: wf_elements_iff)
    qed
  qed
next
  case (4 lim token tokens v)
  then show ?case by (simp add: case_prod_beta)
qed simp_all

text \<open>All indices on the path leave room in memory.\<close>

definition indices_fit :: "nat \<Rightarrow> string list \<Rightarrow> bool" where
  "indices_fit lim p \<longleftrightarrow> (\<forall>t \<in> set p. \<forall>i. std_stoul t = Some i \<longrightarrow> i < lim)"

lemma json_set_fails:
  "json_set lim p v j = (False, j') \<Longrightarrow> indices_fit lim p \<Longrightarrow> wf_json j \<Longrightarrow> j' = j"
proof (induction lim p v j arbitrary: j' rule: json_set.induct)
  case (2 lim token tokens v kvs)
  then obtain c c' where c: "map_of kvs (str_bytes token) = Some c" "json_set lim tokens v c = (False, c')"
    "j' = JObj (ordered_put (str_bytes token) c' kvs)"
    using json_set_new [of lim tokens v] by (auto simp: Let_def split: option.splits prod.splits)
  then have "c' = c" using 2 wf_member by (auto simp: indices_fit_def)
  then show ?case using c 2(4) by (simp add: ordered_put_same)
next
  case (3 lim token tokens v xs)
  show ?case
  proof (cases "std_stoul token")
    case None
    then show ?thesis using 3 by simp
  next
    case (Some i)
    then have "i < lim" using 3(4) by (simp add: indices_fit_def)
    moreover have "i < length xs"
    proof (rule ccontr)
      assume "\<not> i < length xs"
      moreover have "(xs @ replicate (Suc i - length xs) (JObj [])) ! i = JObj []" using calculation
        by (simp add: nth_append)
      ultimately show False using 3(3) Some \<open>i < lim\<close> json_set_new [of lim tokens v]
        by (auto simp: Let_def split: prod.splits)
    qed
    ultimately obtain c' where c: "json_set lim tokens v (xs ! i) = (False, c')" "j' = JArr (xs[i := c'])"
      using 3(3) Some by (auto split: prod.splits)
    have "wf_json (xs ! i)" using 3(5) \<open>i < length xs\<close> by (simp add: wf_elements_iff)
    then have "c' = xs ! i" using 3(1) [OF Some \<open>i < length xs\<close> c(1)] 3(4) by (simp add: indices_fit_def)
    then show ?thesis using c by simp
  qed
next
  case (4 lim token tokens v)
  then show ?case using json_set_new [of lim tokens v] by (auto split: prod.splits)
qed (auto split: prod.splits)

text \<open>
  Two paths part in a document: at the first step where they differ they name different members,
  or different elements, and neither ends before.
\<close>

fun paths_part :: "json \<Rightarrow> string list \<Rightarrow> string list \<Rightarrow> bool" where
  "paths_part (JObj kvs) (t # p) (u # q) \<longleftrightarrow>
     (t = u \<longrightarrow> (case map_of kvs (str_bytes t) of Some c \<Rightarrow> paths_part c p q | None \<Rightarrow> True))"
| "paths_part (JArr xs) (t # p) (u # q) \<longleftrightarrow>
     (std_stoul t = std_stoul u \<longrightarrow>
       (case std_stoul t of Some i \<Rightarrow> if i < length xs then paths_part (xs ! i) p q else True | None \<Rightarrow> True))"
| "paths_part j [] q \<longleftrightarrow> False"
| "paths_part j p [] \<longleftrightarrow> False"
| "paths_part j p q \<longleftrightarrow> True"

lemma json_set_frame:
  "paths_part j p q \<Longrightarrow> json_at q j = Some w \<Longrightarrow> json_at q (snd (json_set lim p v j)) = Some w"
proof (induction j p q rule: paths_part.induct)
  case (1 kvs t p u q)
  then show ?case by (cases "t = u") (auto simp: Let_def case_prod_beta str_bytes_inj split: option.splits)
next
  case (2 xs t p u q)
  then obtain k where k: "std_stoul u = Some k" "k < length xs" "json_at q (xs ! k) = Some w"
    by (auto split: option.splits if_splits)
  show ?case
  proof (cases "std_stoul t")
    case None
    then show ?thesis using k by simp
  next
    case (Some i)
    show ?thesis
    proof (cases "i = k")
      case True
      then have "json_at q (snd (json_set lim p v (xs ! k))) = Some w" using 2 k Some by simp
      then show ?thesis using True k Some by (simp add: Let_def case_prod_beta)
    next
      case False
      then show ?thesis using k Some by (auto simp: Let_def case_prod_beta nth_append)
    qed
  qed
qed auto

section \<open>Properties\<close>

lemma fireEvent_free:
  assumes "\<forall>(i, l) \<in> set (cm_event_listeners cm). \<not> uses_listeners l ev"
  shows "fireEvent False ev cm = Inr (map (\<lambda>(i, l). (i, ev)) (cm_event_listeners cm))"
  using assms by (auto simp: fireEvent_def)

text \<open>
  A value that was set under a path is what the path gives afterwards, and every value under
  a path that parts from it stays; every listener is told once.
\<close>

theorem config_set_get:
  assumes "config_setValue lim key v True cm = Inr ((), cm', calls)"
    and "fst (JsonParser_setValue lim (cm_config_root cm) key v)" "v \<noteq> JNull" "conv v = Some x"
  shows "config_getValue conv key d cm' = x \<and> config_hasKey key cm' \<and>
    map fst calls = map fst (cm_event_listeners cm) \<and> set (map snd calls) \<subseteq> {CONFIG_CHANGED key} \<and>
    (\<forall>other e (conv' :: json \<Rightarrow> 'b option).
       paths_part (cm_config_root cm) (parseKeyPath key) (parseKeyPath other) \<and> config_hasKey other cm \<longrightarrow>
       config_hasKey other cm' \<and> config_getValue conv' other e cm' = config_getValue conv' other e cm)"
proof -
  define root' where "root' = snd (JsonParser_setValue lim (cm_config_root cm) key v)"
  have cm': "cm' = cm\<lparr>cm_config_root := root'\<rparr>" and
    calls: "calls = map (\<lambda>(i, l). (i, CONFIG_CHANGED key)) (cm_event_listeners cm)"
    using assms(1) by (auto simp: config_setValue_def cfg_fire_def fireEvent_def root'_def Let_def
        split: if_splits)
  have "json_set lim (parseKeyPath key) v (cm_config_root cm) = (True, root')"
    using assms(2) by (simp add: root'_def JsonParser_setValue_def prod_eq_iff)
  then have get: "json_at (parseKeyPath key) root' = Some v" by (rule json_set_at)
  have part: "json_at (parseKeyPath other) root' = json_at (parseKeyPath other) (cm_config_root cm)"
    if "paths_part (cm_config_root cm) (parseKeyPath key) (parseKeyPath other)" "config_hasKey other cm" for other
    using that json_set_frame [of "cm_config_root cm" "parseKeyPath key" "parseKeyPath other" _ lim v]
    by (auto simp: config_hasKey_def JsonParser_hasKey_def getConstJsonRef_def root'_def JsonParser_setValue_def
        split: option.splits)
  show ?thesis
    using get part assms(3,4)
    by (auto simp: cm' calls config_getValue_def config_hasKey_def JsonParser_hasKey_def
        JsonParser_getValue_def getConstJsonRef_def comp_def case_prod_beta)
qed

definition demo_cfg :: config_manager where
  "demo_cfg = (ConfigManager_ctor 0)\<lparr>cm_config_root :=
     JObj [(str_bytes ''app'', JObj [(str_bytes ''port'', JNum 80)]), (str_bytes ''list'', JArr [JNum 1, JNum 2])]\<rparr>"

fun json_int :: "json \<Rightarrow> int option" where
  "json_int (JNum i) = Some i"
| "json_int j = None"

lemmas path_eval = parseKeyPath_def getlines.simps

theorem config_set_get_witness:
  "\<exists>cm'. config_setValue 100 ''app.tick'' (JNum 7) True demo_cfg = Inr ((), cm', []) \<and>
     config_getValue json_int ''app.tick'' 0 cm' = 7 \<and> config_getValue json_int ''app.port'' 0 cm' = 80"
proof -
  have p: "parseKeyPath ''app.tick'' = [''app'', ''tick'']" "parseKeyPath ''app.port'' = [''app'', ''port'']"
    by (simp_all add: path_eval)
  define cm' where "cm' = demo_cfg\<lparr>cm_config_root := JObj
    [(str_bytes ''app'', JObj [(str_bytes ''port'', JNum 80), (str_bytes ''tick'', JNum 7)]),
     (str_bytes ''list'', JArr [JNum 1, JNum 2])]\<rparr>"
  have lt: "str_bytes ''port'' < str_bytes ''tick''" "str_bytes ''app'' < str_bytes ''list''"
    by (simp_all add: str_bytes_def)
  have root: "cm_config_root demo_cfg = JObj [(str_bytes ''app'', JObj [(str_bytes ''port'', JNum 80)]),
      (str_bytes ''list'', JArr [JNum 1, JNum 2])]"
    "cm_event_listeners demo_cfg = []"
    by (simp_all add: demo_cfg_def ConfigManager_ctor_def)
  have set: "JsonParser_setValue 100 (cm_config_root demo_cfg) ''app.tick'' (JNum 7) =
      (True, cm_config_root cm')"
    using lt by (simp add: JsonParser_setValue_def p root str_bytes_inj Let_def cm'_def)
  have "config_setValue 100 ''app.tick'' (JNum 7) True demo_cfg = Inr ((), cm', [])"
    using set by (simp add: config_setValue_def cfg_fire_def fireEvent_def root Let_def cm'_def)
  moreover have "paths_part (cm_config_root demo_cfg) (parseKeyPath ''app.tick'') (parseKeyPath ''app.port'')"
    "config_hasKey ''app.port'' demo_cfg" "config_getValue json_int ''app.port'' 0 demo_cfg = 80"
    by (simp_all add: p root config_hasKey_def JsonParser_hasKey_def getConstJsonRef_def config_getValue_def
        JsonParser_getValue_def str_bytes_inj)
  ultimately show ?thesis
    using config_set_get [where 'b = int and conv = json_int and x = 7 and d = 0, of 100 "''app.tick''" "JNum 7" demo_cfg cm' "[]"]
      set by auto
qed

text \<open>A refused \<open>setValue\<close> changes nothing, and is announced to every listener as a change.\<close>

lemma rejected_set_notifies:
  assumes "\<not> fst (JsonParser_setValue lim (cm_config_root cm) key v)"
    and "indices_fit lim (parseKeyPath key)" "wf_json (cm_config_root cm)"
    and "\<forall>(i, l) \<in> set (cm_event_listeners cm). \<not> uses_listeners l (CONFIG_CHANGED key)"
  shows "config_setValue lim key v True cm =
    Inr ((), cm, map (\<lambda>(i, l). (i, CONFIG_CHANGED key)) (cm_event_listeners cm))"
proof -
  have "snd (JsonParser_setValue lim (cm_config_root cm) key v) = cm_config_root cm"
    using json_set_fails [of lim "parseKeyPath key" v "cm_config_root cm"] assms(1-3)
    by (simp add: JsonParser_setValue_def prod_eq_iff)
  then show ?thesis
    using fireEvent_free [OF assms(4)] by (simp add: config_setValue_def cfg_fire_def)
qed

text \<open>A listener that reads the configuration never returns from being told of a load or a reload.\<close>

lemma reading_listener_deadlocks:
  assumes "(i, l) \<in> set (cm_event_listeners cm)" "fs_read fs = Parsed j" "fs_exists fs"
  shows "uses_config l CONFIG_LOADED \<Longrightarrow> loadConfig fs path auto_create cm = Inl Deadlock"
    and "uses_config l CONFIG_RELOADED \<Longrightarrow> cm_hot_reload_enabled cm \<Longrightarrow> isConfigFileModified fs cm \<Longrightarrow>
      hotReload_round fs cm = Inl Deadlock"
  using assms
  by (auto simp: loadConfig_def hotReload_round_def loadFromFile_def cfg_fire_def fireEvent_def
      isConfigFileModified_def Let_def)

text \<open>A reload that fails leaves whatever the parser made, and is tried again at every round.\<close>

lemma failed_reload_repeats:
  assumes "cm_hot_reload_enabled cm" "isConfigFileModified fs cm" "fs_read fs = ParseError j"
  shows "hotReload_round fs cm = Inr ((), cm\<lparr>cm_config_root := j\<rparr>, []) \<and>
    isConfigFileModified fs (cm\<lparr>cm_config_root := j\<rparr>)"
  using assms by (simp add: hotReload_round_def loadFromFile_def isConfigFileModified_def)

lemma monitor_runs_while_enabled:
  assumes "cm_hot_reload_running cm = cm_hot_reload_enabled cm"
  shows "cm_hot_reload_running (enableHotReload b ms cm) = cm_hot_reload_enabled (enableHotReload b ms cm) \<and>
    cm_hot_reload_enabled (enableHotReload b ms cm) = b"
  using assms
  by (simp add: enableHotReload_def startHotReloadMonitor_def stopHotReloadMonitor_def Let_def)

end
