(* ===== verification/JsonConfig.thy ===== *)
theory JsonConfig
  imports Config
begin

text \<open>
  \<open>JsonConfig\<close> and \<open>JsonConfigNode\<close> (server/common/JsonConfig.h, JsonConfig.cpp, JsonConfigNode.h,
  JsonConfigNode.cpp): one document read from a file or a directory, and nodes that point into it. A pointer is
  the way to its value; what ended the life of the values below a place is kept in a list, so a node knows whether
  its value is still the one it was made for. The file system's answers and the library's merging and conversions
  are arguments.
\<close>

section \<open>Pointers into a document\<close>

datatype jstep = Key string | Idx nat

fun deref :: "jstep list \<Rightarrow> json \<Rightarrow> json option" where
  "deref [] j = Some j"
| "deref (Key k # p) (JObj kvs) = (case map_of kvs (str_bytes k) of None \<Rightarrow> None | Some c \<Rightarrow> deref p c)"
| "deref (Idx i # p) (JArr xs) = (if i < length xs then deref p (xs ! i) else None)"
| "deref (s # p) j = None"

fun changed_at :: "jstep list \<Rightarrow> (json \<Rightarrow> json) \<Rightarrow> json \<Rightarrow> json" where
  "changed_at [] f j = f j"
| "changed_at (Key k # p) f (JObj kvs) =
     (case map_of kvs (str_bytes k) of None \<Rightarrow> JObj kvs | Some c \<Rightarrow> JObj (ordered_put (str_bytes k) (changed_at p f c) kvs))"
| "changed_at (Idx i # p) f (JArr xs) = (if i < length xs then JArr (xs[i := changed_at p f (xs ! i)]) else JArr xs)"
| "changed_at (s # p) f j = j"

definition contains :: "string \<Rightarrow> json \<Rightarrow> bool" where
  "contains k j = (json_get k j \<noteq> None)"

fun with_member :: "string \<Rightarrow> json \<Rightarrow> json \<Rightarrow> json" where
  "with_member k v (JObj kvs) = (if map_of kvs (str_bytes k) = None then JObj (ordered_put (str_bytes k) v kvs) else JObj kvs)"
| "with_member k v j = j"

section \<open>The configuration\<close>

datatype load_mode = SingleFile | Directory | MergeDirectory

text \<open>A callback is told a key and a value; it may throw, or come back to the configuration, whose mutex is held.\<close>

record change_callback =
  cb_id :: nat
  cb_throws :: bool
  cb_reenters :: bool

record json_config =
  jc_data :: json
  jc_path :: string
  jc_mode :: load_mode
  jc_auto_save :: bool
  jc_dirty :: bool
  jc_files :: "(string \<times> json) list"
  jc_callbacks :: "change_callback list"
  jc_told :: "(nat \<times> string \<times> json) list"
  jc_dropped :: "jstep list list"

datatype path_kind = Missing | File | DirOf "(string \<times> bool) list" | Unlistable

record json_files =
  jf_kind :: "string \<Rightarrow> path_kind"
  jf_read :: "string \<Rightarrow> file_answer"
  jf_opens :: "string \<Rightarrow> bool"
  jf_merge :: "json \<Rightarrow> json \<Rightarrow> json"

definition empty_config :: json_config where
  "empty_config = \<lparr>jc_data = JNull, jc_path = [], jc_mode = SingleFile, jc_auto_save = False, jc_dirty = False,
     jc_files = [], jc_callbacks = [], jc_told = [], jc_dropped = []\<rparr>"

definition markDirty :: "json_config \<Rightarrow> json_config" where
  "markDirty jc = jc\<lparr>jc_dirty := True\<rparr>"

text \<open>A new document, whose values are not those any node points to.\<close>

definition set_data :: "json \<Rightarrow> json_config \<Rightarrow> json_config" where
  "set_data j jc = jc\<lparr>jc_data := j, jc_dropped := jc_dropped jc @ [[]]\<rparr>"

definition loadFile :: "json_files \<Rightarrow> string \<Rightarrow> json_config \<Rightarrow> bool \<times> json_config" where
  "loadFile jf path jc =
     (if jf_kind jf path = Missing then (True, (set_data (JObj []) jc)\<lparr>jc_dirty := True\<rparr>)
      else case jf_read jf path of
             Parsed j \<Rightarrow> (True, (set_data j jc)\<lparr>jc_files := ordered_put path j (jc_files jc), jc_dirty := False\<rparr>)
           | _ \<Rightarrow> (False, (set_data (JObj []) jc)\<lparr>jc_dirty := True\<rparr>))"

definition is_json :: "string \<Rightarrow> bool" where
  "is_json name \<longleftrightarrow> 5 < length name \<and> drop (length name - 5) name = ''.json''"

fun load_entries :: "json_files \<Rightarrow> string \<Rightarrow> bool \<Rightarrow> (string \<times> bool) list \<Rightarrow> json_config \<Rightarrow> bool \<times> json_config" where
  "load_entries jf dir merge [] jc = (True, jc)"
| "load_entries jf dir merge ((name, regular) # es) jc =
     (if \<not> (regular \<and> is_json name) then load_entries jf dir merge es jc
      else let path = dir @ ''/'' @ name in
           case jf_read jf path of
             Parsed j \<Rightarrow>
               (let jc1 = jc\<lparr>jc_files := ordered_put path j (jc_files jc)\<rparr>;
                    added = (case jc_data jc of
                               JArr xs \<Rightarrow> JArr (xs @ [JObj [(str_bytes ''data'', j), (str_bytes ''file'', JStr (str_bytes name))]])
                             | d \<Rightarrow> d)
                in load_entries jf dir merge es (set_data (if merge then jf_merge jf (jc_data jc) j else added) jc1))
           | _ \<Rightarrow> (False, snd (load_entries jf dir merge es jc)))"

definition loadDirectory :: "json_files \<Rightarrow> string \<Rightarrow> bool \<Rightarrow> json_config \<Rightarrow> bool \<times> json_config" where
  "loadDirectory jf dir merge jc =
     (case jf_kind jf dir of
        DirOf es \<Rightarrow>
          (case load_entries jf dir merge es (set_data (if merge then JObj [] else JArr []) jc) of
             (ok, jc1) \<Rightarrow> (ok, jc1\<lparr>jc_dirty := False\<rparr>))
      | Unlistable \<Rightarrow> (False, (set_data (if merge then JObj [] else JArr []) jc)\<lparr>jc_dirty := False\<rparr>)
      | _ \<Rightarrow> (True, (set_data (JObj []) jc)\<lparr>jc_dirty := True\<rparr>))"

definition load :: "json_files \<Rightarrow> string \<Rightarrow> load_mode \<Rightarrow> json_config \<Rightarrow> bool \<times> json_config" where
  "load jf path mode jc =
     (let jc1 = jc\<lparr>jc_path := path, jc_mode := mode, jc_files := []\<rparr> in
      if path = [] then (True, set_data (JObj []) jc1)
      else case mode of
             SingleFile \<Rightarrow> loadFile jf path jc1
           | Directory \<Rightarrow> loadDirectory jf path False jc1
           | MergeDirectory \<Rightarrow> loadDirectory jf path True jc1)"

definition JsonConfig_ctor :: "json_files \<Rightarrow> string \<Rightarrow> load_mode \<Rightarrow> bool \<Rightarrow> json_config" where
  "JsonConfig_ctor jf path mode auto_save =
     (let jc = empty_config\<lparr>jc_auto_save := auto_save\<rparr> in
      if path \<noteq> [] then snd (load jf path mode jc) else set_data (JObj []) jc)"

text \<open>A write: whether it was done, the file with its new content, and the configuration afterwards.\<close>

definition saveToFile :: "json_files \<Rightarrow> string \<Rightarrow> json_config \<Rightarrow> bool \<times> (string \<times> json) list \<times> json_config" where
  "saveToFile jf path jc =
     (if jf_opens jf path then (True, [(path, jc_data jc)], jc\<lparr>jc_dirty := False\<rparr>) else (False, [], jc))"

fun save_files :: "json_files \<Rightarrow> (string \<times> json) list \<Rightarrow> json_config \<Rightarrow> bool \<times> (string \<times> json) list \<times> json_config" where
  "save_files jf [] jc = (True, [], jc)"
| "save_files jf ((path, data) # fs) jc =
     (let (ok1, w1, jc1) = (if data \<noteq> jc_data jc then saveToFile jf path jc else (True, [], jc));
          (ok2, w2, jc2) = save_files jf fs jc1
      in (ok1 \<and> ok2, w1 @ w2, jc2))"

definition save :: "json_files \<Rightarrow> string \<Rightarrow> json_config \<Rightarrow> bool \<times> (string \<times> json) list \<times> json_config" where
  "save jf specific jc =
     (if \<not> jc_dirty jc \<and> specific = [] then (True, [], jc)
      else if specific \<noteq> [] then saveToFile jf specific jc
      else case jc_mode jc of
             SingleFile \<Rightarrow> saveToFile jf (jc_path jc) jc
           | _ \<Rightarrow> (case save_files jf (jc_files jc) jc of (ok, w, jc1) \<Rightarrow> (ok, w, jc1\<lparr>jc_dirty := \<not> ok\<rparr>)))"

definition JsonConfig_dtor :: "json_files \<Rightarrow> json_config \<Rightarrow> (string \<times> json) list" where
  "JsonConfig_dtor jf jc = (if jc_auto_save jc \<and> jc_dirty jc then fst (snd (save jf [] jc)) else [])"

text \<open>The new object and what is left of the old one, whose callbacks stay with it.\<close>

definition move_config :: "json_config \<Rightarrow> json_config \<Rightarrow> json_config \<times> json_config" where
  "move_config target other =
     (target\<lparr>jc_data := jc_data other, jc_path := jc_path other, jc_mode := jc_mode other, jc_auto_save := jc_auto_save other,
            jc_dirty := jc_dirty other, jc_files := jc_files other, jc_dropped := jc_dropped target @ [[]]\<rparr>,
      other\<lparr>jc_data := JNull, jc_path := [], jc_mode := SingleFile, jc_auto_save := False, jc_dirty := False, jc_files := [],
            jc_dropped := jc_dropped other @ [[]]\<rparr>)"

definition addChangeCallback :: "change_callback \<Rightarrow> json_config \<Rightarrow> json_config" where
  "addChangeCallback c jc = jc\<lparr>jc_callbacks := jc_callbacks jc @ [c]\<rparr>"

fun tell :: "change_callback list \<Rightarrow> string \<Rightarrow> json \<Rightarrow> fault + (nat \<times> string \<times> json) list" where
  "tell [] key v = Inr []"
| "tell (c # cs) key v =
     (if cb_reenters c then Inl Deadlock
      else if cb_throws c then Inr [(cb_id c, key, v)]
      else map_sum id ((#) (cb_id c, key, v)) (tell cs key v))"

definition notifyChange :: "string \<Rightarrow> json \<Rightarrow> json_config \<Rightarrow> fault + json_config" where
  "notifyChange key v jc =
     (case tell (jc_callbacks jc) key v of Inl f \<Rightarrow> Inl f | Inr told \<Rightarrow> Inr (jc\<lparr>jc_told := jc_told jc @ told\<rparr>))"

definition createDefaultConfig :: "json_files \<Rightarrow> string \<Rightarrow> json \<Rightarrow> (string \<times> json) list" where
  "createDefaultConfig jf path dflt = (if jf_kind jf path = Missing \<and> jf_opens jf path then [(path, dflt)] else [])"

section \<open>Nodes\<close>

record config_node =
  nd_data :: "jstep list option"
  nd_key_path :: string
  nd_made :: nat

definition node_at :: "json_config \<Rightarrow> jstep list option \<Rightarrow> string \<Rightarrow> config_node" where
  "node_at jc p key_path = \<lparr>nd_data = p, nd_key_path = key_path, nd_made = length (jc_dropped jc)\<rparr>"

text \<open>A place was given up when, since the node was made, the values below one of its ancestors were.\<close>

definition gone :: "json_config \<Rightarrow> config_node \<Rightarrow> jstep list \<Rightarrow> bool" where
  "gone jc nd p \<longleftrightarrow> (\<exists>q \<in> set (drop (nd_made nd) (jc_dropped jc)). length q < length p \<and> take (length q) p = q)"

text \<open>The value of a node: nothing for a null pointer, undefined for one that dangles.\<close>

definition node_value :: "json_config \<Rightarrow> config_node \<Rightarrow> fault + json option" where
  "node_value jc nd =
     (case nd_data nd of
        None \<Rightarrow> Inr None
      | Some p \<Rightarrow> if gone jc nd p then Inl Undefined
                  else (case deref p (jc_data jc) of None \<Rightarrow> Inl Undefined | Some j \<Rightarrow> Inr (Some j)))"

fun find_or_make :: "string list \<Rightarrow> jstep list \<Rightarrow> json \<Rightarrow> json \<times> jstep list option" where
  "find_or_make [] p root = (root, Some p)"
| "find_or_make (t # ts) p root =
     (case deref p root of
        Some (JObj kvs) \<Rightarrow> find_or_make ts (p @ [Key t]) (changed_at p (with_member t (JObj [])) root)
      | Some (JArr xs) \<Rightarrow>
          (case std_stoul t of
             None \<Rightarrow> (root, None)
           | Some i \<Rightarrow> if i < length xs then find_or_make ts (p @ [Idx i]) root else (root, None))
      | _ \<Rightarrow> (root, None))"

text \<open>The constructor with a path, which is also \<open>operator[]\<close> of the configuration.\<close>

definition node_of_path :: "json_config \<Rightarrow> string \<Rightarrow> config_node \<times> json_config" where
  "node_of_path jc key_path =
     (if key_path = [] then (node_at jc None key_path, jc)
      else case find_or_make (parseKeyPath key_path) [] (jc_data jc) of
             (root, p) \<Rightarrow> (node_at jc p key_path, jc\<lparr>jc_data := root\<rparr>))"

fun find_members :: "string list \<Rightarrow> jstep list \<Rightarrow> json \<Rightarrow> jstep list option" where
  "find_members [] p j = Some p"
| "find_members (t # ts) p j =
     (case json_get t j of None \<Rightarrow> None | Some c \<Rightarrow> find_members ts (p @ [Key t]) c)"

definition getNode :: "json_config \<Rightarrow> string \<Rightarrow> config_node option" where
  "getNode jc path =
     (case find_members (parseKeyPath path) [] (jc_data jc) of
        None \<Rightarrow> None
      | Some p \<Rightarrow> Some (node_at jc (Some p) path))"

definition sub_path :: "config_node \<Rightarrow> string \<Rightarrow> string" where
  "sub_path nd key = (if nd_key_path nd = [] then key else nd_key_path nd @ ''.'' @ key)"

definition index_path :: "config_node \<Rightarrow> string \<Rightarrow> string" where
  "index_path nd i = nd_key_path nd @ ''['' @ i @ '']''"

definition child :: "json_config \<Rightarrow> config_node \<Rightarrow> jstep \<Rightarrow> string \<Rightarrow> config_node" where
  "child jc nd s key_path = node_at jc (map_option (\<lambda>p. p @ [s]) (nd_data nd)) key_path"

definition tryGet :: "json_config \<Rightarrow> config_node \<Rightarrow> string \<Rightarrow> fault + config_node option" where
  "tryGet jc nd key =
     (case node_value jc nd of
        Inl f \<Rightarrow> Inl f
      | Inr (Some (JObj kvs)) \<Rightarrow>
          Inr (if contains key (JObj kvs) then Some (child jc nd (Key key) (sub_path nd key)) else None)
      | Inr v \<Rightarrow> Inr None)"

text \<open>Members are added without touching the others, so no node is lost; \<open>operator[]\<close> adds a null value.\<close>

definition add_member :: "string \<Rightarrow> json \<Rightarrow> config_node \<Rightarrow> json_config \<Rightarrow> json_config" where
  "add_member key v nd jc = jc\<lparr>jc_data := changed_at (the (nd_data nd)) (with_member key v) (jc_data jc)\<rparr>"

definition getOrCreate :: "json_config \<Rightarrow> config_node \<Rightarrow> string \<Rightarrow> fault + config_node \<times> json_config" where
  "getOrCreate jc nd key =
     (case node_value jc nd of
        Inl f \<Rightarrow> Inl f
      | Inr (Some (JObj kvs)) \<Rightarrow> Inr (child jc nd (Key key) (sub_path nd key), add_member key (JObj []) nd jc)
      | Inr v \<Rightarrow> Inl Thrown)"

definition node_key :: "json_config \<Rightarrow> config_node \<Rightarrow> string \<Rightarrow> fault + config_node \<times> json_config" where
  "node_key jc nd key =
     (case node_value jc nd of
        Inl f \<Rightarrow> Inl f
      | Inr (Some (JObj kvs)) \<Rightarrow> Inr (child jc nd (Key key) (sub_path nd key), add_member key JNull nd jc)
      | Inr (Some (JArr xs)) \<Rightarrow>
          (case std_stoul key of
             None \<Rightarrow> Inl Thrown
           | Some i \<Rightarrow> if i < length xs then Inr (child jc nd (Idx i) (index_path nd key), jc) else Inl Thrown)
      | Inr v \<Rightarrow> Inl Thrown)"

definition node_index :: "json_config \<Rightarrow> config_node \<Rightarrow> nat \<Rightarrow> fault + config_node" where
  "node_index jc nd i =
     (case node_value jc nd of
        Inl f \<Rightarrow> Inl f
      | Inr (Some (JArr xs)) \<Rightarrow>
          if i < length xs then Inr (child jc nd (Idx i) (index_path nd (bytes_str (to_string_nat i)))) else Inl Thrown
      | Inr v \<Rightarrow> Inl Thrown)"

definition node_dirty :: "config_node \<Rightarrow> json_config \<Rightarrow> fault + json_config" where
  "node_dirty nd jc =
     (case deref (the (nd_data nd)) (jc_data jc) of
        None \<Rightarrow> Inl Undefined
      | Some v \<Rightarrow> notifyChange (nd_key_path nd) v (markDirty jc))"

definition put_value :: "jstep list \<Rightarrow> (json \<Rightarrow> json) \<Rightarrow> json_config \<Rightarrow> json_config" where
  "put_value p f jc = jc\<lparr>jc_data := changed_at p f (jc_data jc), jc_dropped := jc_dropped jc @ [p]\<rparr>"

definition node_assign :: "json_config \<Rightarrow> config_node \<Rightarrow> json \<Rightarrow> fault + json_config" where
  "node_assign jc nd v =
     (case node_value jc nd of
        Inl f \<Rightarrow> Inl f
      | Inr None \<Rightarrow> Inl Thrown
      | Inr (Some old) \<Rightarrow> node_dirty nd (put_value (the (nd_data nd)) (\<lambda>j. v) jc))"

text \<open>Appending makes an array of whatever the value was; the elements may move in memory.\<close>

definition node_append :: "json_config \<Rightarrow> config_node \<Rightarrow> json \<Rightarrow> fault + json_config" where
  "node_append jc nd v =
     (case node_value jc nd of
        Inl f \<Rightarrow> Inl f
      | Inr None \<Rightarrow> Inl Thrown
      | Inr (Some old) \<Rightarrow>
          node_dirty nd (put_value (the (nd_data nd)) (\<lambda>j. case j of JArr xs \<Rightarrow> JArr (xs @ [v]) | _ \<Rightarrow> JArr [v]) jc))"

text \<open>\<open>exists\<close>, and reading with a default, as a value or not at all; a failed conversion is \<^term>\<open>None\<close>.\<close>

definition node_exists :: "json_config \<Rightarrow> config_node \<Rightarrow> fault + bool" where
  "node_exists jc nd = map_sum id (\<lambda>v. v \<noteq> None \<and> v \<noteq> Some JNull) (node_value jc nd)"

definition node_tryAs :: "(json \<Rightarrow> 'a option) \<Rightarrow> json_config \<Rightarrow> config_node \<Rightarrow> fault + 'a option" where
  "node_tryAs conv jc nd =
     (case node_value jc nd of
        Inl f \<Rightarrow> Inl f
      | Inr (Some j) \<Rightarrow> Inr (if j = JNull then None else conv j)
      | Inr None \<Rightarrow> Inr None)"

definition node_value_or :: "(json \<Rightarrow> 'a option) \<Rightarrow> 'a \<Rightarrow> json_config \<Rightarrow> config_node \<Rightarrow> fault + 'a" where
  "node_value_or conv dflt jc nd = map_sum id (\<lambda>r. case r of Some v \<Rightarrow> v | None \<Rightarrow> dflt) (node_tryAs conv jc nd)"

definition node_as :: "(json \<Rightarrow> 'a option) \<Rightarrow> json_config \<Rightarrow> config_node \<Rightarrow> fault + 'a" where
  "node_as conv jc nd =
     (case node_tryAs conv jc nd of Inl f \<Rightarrow> Inl f | Inr None \<Rightarrow> Inl Thrown | Inr (Some v) \<Rightarrow> Inr v)"

definition node_raw :: "json_config \<Rightarrow> config_node \<Rightarrow> fault + json" where
  "node_raw jc nd = (case node_value jc nd of Inl f \<Rightarrow> Inl f | Inr None \<Rightarrow> Inl Thrown | Inr (Some j) \<Rightarrow> Inr j)"

definition asArray :: "json_config \<Rightarrow> config_node \<Rightarrow> fault + config_node list" where
  "asArray jc nd =
     (case node_value jc nd of
        Inl f \<Rightarrow> Inl f
      | Inr (Some (JArr xs)) \<Rightarrow>
          Inr (map (\<lambda>i. child jc nd (Idx i) (index_path nd (bytes_str (to_string_nat i)))) [0..<length xs])
      | Inr v \<Rightarrow> Inr [])"

definition asObject :: "json_config \<Rightarrow> config_node \<Rightarrow> fault + (string \<times> config_node) list" where
  "asObject jc nd =
     (case node_value jc nd of
        Inl f \<Rightarrow> Inl f
      | Inr (Some (JObj kvs)) \<Rightarrow>
          Inr (map (\<lambda>(k, v). (bytes_str k, child jc nd (Key (bytes_str k)) (sub_path nd (bytes_str k)))) kvs)
      | Inr v \<Rightarrow> Inr [])"

section \<open>Properties\<close>

lemma deref_changed: "deref p j = Some c \<Longrightarrow> deref p (changed_at p f j) = Some (f c)"
  by (induction p f j rule: changed_at.induct) (auto split: option.splits if_splits)

text \<open>Neither place lies on the way to the other.\<close>

definition apart :: "jstep list \<Rightarrow> jstep list \<Rightarrow> bool" where
  "apart p q \<longleftrightarrow> take (length q) p \<noteq> q \<and> take (length p) q \<noteq> p"

lemma apart_Cons: "apart (s # p) (t # q) \<longleftrightarrow> s \<noteq> t \<or> apart p q"
  by (auto simp: apart_def)

lemma deref_changed_apart: "apart p q \<Longrightarrow> deref q (changed_at p f j) = deref q j"
proof (induction p f j arbitrary: q rule: changed_at.induct)
  case (2 k p f kvs)
  show ?case
  proof (cases q)
    case (Cons t q')
    show ?thesis
    proof (cases t)
      case (Key k')
      then show ?thesis using 2 Cons str_bytes_inj [of k k'] by (auto simp: apart_Cons split: option.splits)
    qed (simp add: Cons split: option.splits)
  qed (use 2 in \<open>simp add: apart_def\<close>)
next
  case (3 i p f xs)
  show ?case
  proof (cases q)
    case (Cons t q')
    show ?thesis
    proof (cases t)
      case (Idx i')
      then show ?thesis using 3 Cons by (auto simp: apart_Cons nth_list_update)
    qed (use Cons in auto)
  qed (use 3 in \<open>simp add: apart_def\<close>)
qed (auto simp: apart_def)

lemma notify_keeps:
  "notifyChange key v jc = Inr jc' \<Longrightarrow> jc_data jc' = jc_data jc \<and> jc_dirty jc' = jc_dirty jc \<and> jc_dropped jc' = jc_dropped jc"
  by (auto simp: notifyChange_def split: sum.splits)

text \<open>
  What is assigned to a node is its value afterwards, and the value of every node apart from it stays; the change is
  noted, and the callbacks up to the first that throws are told of it.
\<close>

theorem assigned_value_is_read:
  assumes "node_assign jc nd v = Inr jc'" "nd_data nd = Some p"
  shows "node_value jc' (node_at jc' (Some p) key) = Inr (Some v)" "jc_dirty jc'"
    and "nd_data other = Some q \<Longrightarrow> apart p q \<Longrightarrow> nd_made other \<le> length (jc_dropped jc) \<Longrightarrow>
      node_value jc' other = node_value jc other"
proof -
  let ?jc = "put_value p (\<lambda>j. v) jc"
  obtain old where old: "deref p (jc_data jc) = Some old" "node_dirty nd ?jc = Inr jc'"
    using assms by (auto simp: node_assign_def node_value_def split: sum.splits option.splits if_splits)
  then have d: "jc_data jc' = changed_at p (\<lambda>j. v) (jc_data jc)" "jc_dirty jc'" "jc_dropped jc' = jc_dropped jc @ [p]"
    using assms(2) notify_keeps [of "nd_key_path nd" _ "markDirty ?jc" jc']
    by (auto simp: node_dirty_def put_value_def markDirty_def split: option.splits)
  show "node_value jc' (node_at jc' (Some p) key) = Inr (Some v)"
    using deref_changed [OF old(1), of "\<lambda>j. v"] by (simp add: node_value_def node_at_def gone_def d)
  show "jc_dirty jc'" by (rule d)
  assume o: "nd_data other = Some q" "apart p q" "nd_made other \<le> length (jc_dropped jc)"
  have "\<not> (length p < length q \<and> take (length p) q = p)" using o(2) by (simp add: apart_def)
  then have "gone jc' other q = gone jc other q" using o(3) by (auto simp: gone_def d(3))
  then show "node_value jc' other = node_value jc other"
    using o deref_changed_apart [OF o(2), of "\<lambda>j. v" "jc_data jc"] by (simp add: node_value_def d(1))
qed

text \<open>
  Saving what was read from a directory does not bring the files back: every file that differs from the joint
  document is overwritten with the whole of it.
\<close>

theorem directory_save_overwrites:
  assumes "jc_mode jc \<noteq> SingleFile" "jc_dirty jc" "\<forall>(path, j) \<in> set (jc_files jc). jf_opens jf path"
  shows "\<exists>jc'. save jf [] jc = (True, map (\<lambda>x. (fst x, jc_data jc)) (filter (\<lambda>x. snd x \<noteq> jc_data jc) (jc_files jc)), jc')"
proof -
  have "\<exists>jc'. save_files jf fs jc = (True, map (\<lambda>x. (fst x, jc_data jc)) (filter (\<lambda>x. snd x \<noteq> jc_data jc) fs), jc')"
    if "\<forall>(path, j) \<in> set fs. jf_opens jf path" for fs jc
    using that
  proof (induction jf fs jc rule: save_files.induct)
    case (2 jf path data fs jc)
    let ?s = "if data \<noteq> jc_data jc then saveToFile jf path jc else (True, [], jc)"
    have s: "fst ?s" "fst (snd ?s) = (if data \<noteq> jc_data jc then [(path, jc_data jc)] else [])" "jc_data (snd (snd ?s)) = jc_data jc"
      using 2(2) by (simp_all add: saveToFile_def)
    have p: "(fst ?s, snd ?s) = ?s" "(fst (snd ?s), snd (snd ?s)) = snd ?s" by simp_all
    obtain jc' where "save_files jf fs (snd (snd ?s)) =
        (True, map (\<lambda>x. (fst x, jc_data jc)) (filter (\<lambda>x. snd x \<noteq> jc_data jc) fs), jc')"
      using 2(1) [OF refl p] 2(2) s(3) by auto
    then show ?case using s by (auto simp: case_prod_beta Let_def split: if_splits)
  qed simp
  from this [OF assms(3), of jc] show ?thesis
    using assms(1,2) by (cases "jc_mode jc") (auto simp: save_def)
qed

text \<open>
  Looking a missing member up by \<open>operator[]\<close> makes it, as an empty object, without the configuration being
  changed as far as saving goes.
\<close>

theorem lookup_makes_member:
  assumes "jc_data jc = JObj kvs" "key \<noteq> []" "CHR ''.'' \<notin> set key" "map_of kvs (str_bytes key) = None"
  shows "\<exists>nd jc'. node_of_path jc key = (nd, jc') \<and> node_exists jc' nd = Inr True \<and> jc_dirty jc' = jc_dirty jc \<and>
    jc_data jc' = JObj (ordered_put (str_bytes key) (JObj []) kvs)"
proof -
  have d: "takeWhile (\<lambda>c. c \<noteq> CHR ''.'') key = key" "dropWhile (\<lambda>c. c \<noteq> CHR ''.'') key = []"
    using assms(3) by (auto simp: takeWhile_eq_all_conv dropWhile_eq_Nil_conv)
  have "getlines (CHR ''.'') [] = []" by (subst getlines.simps) simp
  then have "parseKeyPath key = [key]"
    using assms(2) unfolding parseKeyPath_def by (subst getlines.simps) (simp only: d if_False drop_Nil)
  then show ?thesis using assms
    by (simp add: node_of_path_def node_exists_def node_value_def node_at_def gone_def)
qed

text \<open>Appending to an array ends every node of its elements: using one afterwards is undefined.\<close>

theorem append_ends_elements:
  assumes "node_append jc nd v = Inr jc'" "asArray jc nd = Inr elements" "e \<in> set elements"
  shows "node_value jc' e = Inl Undefined"
proof -
  obtain xs where xs: "node_value jc nd = Inr (Some (JArr xs))"
    "elements = map (\<lambda>i. child jc nd (Idx i) (index_path nd (bytes_str (to_string_nat i)))) [0..<length xs]"
    using assms(2,3) by (auto simp: asArray_def split: sum.splits option.splits json.splits)
  then obtain p where p: "nd_data nd = Some p" by (auto simp: node_value_def split: option.splits)
  have d: "jc_dropped jc' = jc_dropped jc @ [p]"
    using assms(1) xs(1) p notify_keeps
    by (fastforce simp: node_append_def node_dirty_def put_value_def markDirty_def split: option.splits)
  obtain i where "e = child jc nd (Idx i) (index_path nd (bytes_str (to_string_nat i)))" using assms(3) xs(2) by auto
  then have "nd_data e = Some (p @ [Idx i])" "nd_made e = length (jc_dropped jc)" by (simp_all add: child_def node_at_def p)
  then show ?thesis by (auto simp: node_value_def gone_def d)
qed

text \<open>A callback that comes back to the configuration waits for the mutex its own caller holds.\<close>

theorem reentrant_callback_hangs:
  assumes "jc_callbacks jc = pre @ c # post" "\<forall>x \<in> set pre. \<not> cb_throws x" "cb_reenters c"
  shows "notifyChange key v jc = Inl Deadlock"
proof -
  have "tell (pre @ c # post) key v = Inl Deadlock" using assms(2,3) by (induction pre) auto
  then show ?thesis using assms(1) by (simp add: notifyChange_def)
qed

end
