(* ===== verification/App.thy ===== *)
theory App
  imports CmdLine Config
begin

text \<open>
  \<open>IApp\<close> (src/server/core/app/IApp.h, IApp.cpp), the frame every service runs in: what \<open>initialize\<close> takes
  from the command line and the configuration, and the life cycle with its main thread, its tick
  thread, and the signals and commands that stop or reload it.  The virtual functions of the
  service are events with their answers.
\<close>

section \<open>Settings\<close>

definition u32_of_int :: "int \<Rightarrow> nat" where
  "u32_of_int i = nat (i mod 2 ^ 32)"

text \<open>
  \<open>conv\<close> is the JSON library's \<open>get<int>\<close>.  An option that is not empty goes before the configuration; a text
  that is no number falls back to it.
\<close>

definition tick_interval_of :: "(json \<Rightarrow> int option) \<Rightarrow> cmd_parser \<Rightarrow> config_manager \<Rightarrow> nat" where
  "tick_interval_of conv cp cm =
     (let s = cmd_getValue cp ''tick-interval''; dflt = config_getValue conv ''app.tick_interval_ms'' 10 cm in
      if s \<noteq> [] then (case std_stoi s of Some i \<Rightarrow> u32_of_int i | None \<Rightarrow> u32_of_int dflt)
      else u32_of_int dflt)"

text \<open>In \<open>run\<close> a port that is no number throws.\<close>

definition telnet_settings ::
  "(json \<Rightarrow> int option) \<Rightarrow> (json \<Rightarrow> bool option) \<Rightarrow> cmd_parser \<Rightarrow> config_manager \<Rightarrow> fault + bool \<times> nat" where
  "telnet_settings conv_int conv_bool cp cm =
     (let enable = config_getValue conv_bool ''terminal.enable_telnet'' False cm;
          e = cmd_getValue cp ''enable-telnet'';
          enable' = (if e \<noteq> [] then e = ''true'' \<or> e = ''1'' else enable);
          port = config_getValue conv_int ''terminal.telnet_port'' 23 cm;
          p = cmd_getValue cp ''telnet-port''
      in if p \<noteq> []
         then (case std_stoi p of Some i \<Rightarrow> Inr (enable', nat (i mod 2 ^ 16)) | None \<Rightarrow> Inl Thrown)
         else Inr (enable', nat (port mod 2 ^ 16)))"

record app_settings =
  as_cmd :: cmd_parser
  as_config :: config_manager
  as_tick_interval_ms :: nat

text \<open>
  \<open>initialize\<close> up to the signal handlers: it gives up without a program name, for the help screen, and
  if the configuration cannot be loaded.
\<close>

definition initialize_settings ::
  "(json \<Rightarrow> int option) \<Rightarrow> fs_answers \<Rightarrow> cmd_parser \<Rightarrow> config_manager \<Rightarrow> string list \<Rightarrow> fault + app_settings option" where
  "initialize_settings conv fs cp cm argv =
     (case cmd_parse cp argv of
        None \<Rightarrow> Inr None
      | Some (cp', calls) \<Rightarrow>
          if cp_help_mode cp' then Inr None
          else case loadConfig fs (cmd_getValue cp' ''config'') False cm of
            Inl f \<Rightarrow> Inl f
          | Inr (False, cm', ev) \<Rightarrow> Inr None
          | Inr (True, cm', ev) \<Rightarrow>
              Inr (Some \<lparr>as_cmd = cp', as_config = cm',
                         as_tick_interval_ms = tick_interval_of conv cp' cm'\<rparr>))"

text \<open>
  Whatever the configuration file says of the tick interval, a service takes 10 ms, unless the
  command line gives another number: the option's registered default already counts as given.
  Only an option that is no number makes the file's value count.
\<close>

theorem config_interval_hidden:
  assumes "initialize_settings conv fs (CommandLineParser_ctor descr) cm (prog # concat (map render_item items)) =
      Inr (Some s)"
    and "\<forall>i \<in> set items. item_ok (CommandLineParser_ctor descr) i" "flags_ok items"
  shows "as_tick_interval_ms s =
    (case given (CommandLineParser_ctor descr) items ''tick-interval'' of
       [] \<Rightarrow> 10
     | is \<Rightarrow> if item_value (last is) \<noteq> [] \<and> std_stoi (item_value (last is)) \<noteq> None
            then u32_of_int (the (std_stoi (item_value (last is))))
            else u32_of_int (config_getValue conv ''app.tick_interval_ms'' 10 (as_config s)))"
proof -
  let ?cp = "CommandLineParser_ctor descr"
  obtain cp' calls where p: "cmd_parse ?cp (prog # concat (map render_item items)) = Some (cp', calls)"
    and v: "cmd_getValue cp' ''tick-interval'' =
      (if given ?cp items ''tick-interval'' = [] then cmd_getValue ?cp ''tick-interval''
       else item_value (last (given ?cp items ''tick-interval'')))"
    using read_back [OF assms(2,3), of prog] by blast
  have dflt: "cmd_getValue ?cp ''tick-interval'' = ''10''" by (simp add: cmd_eval)
  have ten: "std_stoi ''10'' = Some 10"
    by (simp add: std_stoi_def signed_digits_def std_space_def is_digit_def decimal_def digit_val_def Let_def)
  have "as_tick_interval_ms s = tick_interval_of conv cp' (as_config s)"
    using assms(1) p by (auto simp: initialize_settings_def split: if_splits sum.splits bool.splits prod.splits)
  then show ?thesis
    by (auto simp: tick_interval_of_def v dflt ten u32_of_int_def Let_def split: list.splits option.splits)
qed

text \<open>The file says 250, and the service ticks every 10 ms.\<close>

definition tick_file :: json where
  "tick_file = JObj [(str_bytes ''app'', JObj [(str_bytes ''tick_interval_ms'', JNum 250)])]"

theorem config_interval_hidden_witness:
  "\<exists>s. initialize_settings json_int
      \<lparr>fs_exists = True, fs_created = False, fs_read = Parsed tick_file, fs_saved = False, fs_mtime = 0, fs_mtime_after = 0\<rparr>
      (CommandLineParser_ctor (\<lambda>_. [])) (ConfigManager_ctor 0) [''logic''] = Inr (Some s) \<and>
    as_tick_interval_ms s = 10 \<and> cm_config_root (as_config s) = tick_file"
proof -
  define fs where "fs = \<lparr>fs_exists = True, fs_created = False, fs_read = Parsed tick_file, fs_saved = False,
    fs_mtime = 0, fs_mtime_after = 0\<rparr>"
  define cp where "cp = CommandLineParser_ctor (\<lambda>_. [])"
  obtain cp' calls where p: "cmd_parse cp [''logic''] = Some (cp', calls)" "\<not> cp_help_mode cp'"
  proof -
    have "cmd_getValue cp ''help'' = ''false''" "cmd_getValue cp ''h'' = ''false''"
      "cmd_getValue cp ''terminal'' = ''false''" "cmd_getValue cp ''t'' = ''false''" "\<not> cp_help_mode cp"
      by (simp_all add: cp_def cmd_eval)
    moreover have "cmd_getValue (cp\<lparr>cp_program_name := x\<rparr>) n = cmd_getValue cp n" for x n
      by (rule getValue_cong) simp_all
    ultimately show thesis using that by (simp add: cmd_parse_def)
  qed
  have "\<exists>cm'. loadConfig fs (cmd_getValue cp' ''config'') False (ConfigManager_ctor 0) = Inr (True, cm', []) \<and>
      cm_config_root cm' = tick_file"
    by (simp add: loadConfig_def fs_def ConfigManager_ctor_def loadFromFile_def cfg_fire_def fireEvent_def)
  then obtain cm' where cm': "loadConfig fs (cmd_getValue cp' ''config'') False (ConfigManager_ctor 0) = Inr (True, cm', [])"
    "cm_config_root cm' = tick_file" by blast
  define s where "s = \<lparr>as_cmd = cp', as_config = cm', as_tick_interval_ms = tick_interval_of json_int cp' cm'\<rparr>"
  have s: "initialize_settings json_int fs cp (ConfigManager_ctor 0) [''logic''] = Inr (Some s)"
    "cm_config_root (as_config s) = tick_file"
    using p cm' by (simp_all add: initialize_settings_def s_def)
  have "as_tick_interval_ms s = 10"
    using config_interval_hidden [of json_int fs "\<lambda>_. []" "ConfigManager_ctor 0" "''logic''" "[]" s] s(1)
    by (simp add: cp_def given_def)
  then show ?thesis using s unfolding fs_def cp_def by blast
qed

section \<open>Life cycle\<close>

text \<open>
  What the frame calls: the service's functions, and the parts of \<open>stop\<close>.  \<open>ReloadCommand\<close> is \<open>onReload\<close> called by
  the command \<open>config reload\<close>, on the thread of the terminal that read it.
\<close>

datatype hook = OnInit | OnTick | OnReload | ReloadCommand | OnMessageLoop | OnCleanup | BusStop | TerminalStop
  | TimerDeleted

text \<open>
  Where the main thread is: before \<open>run\<close>; with the signal handlers installed; in \<open>onInit\<close>; at the top of the
  main loop, at the test of the reload flag, at \<open>onMessageLoop\<close>, in the wait; in the loop of the terminal
  mode; before \<open>onCleanup\<close>; before and in \<open>stop\<close>, waiting there for the tick thread; back from \<open>run\<close>;
  and the same in the destructor.
\<close>

datatype main_pc = Begin | HandlersInstalled | Initializing | LoopTop | LoopReload | LoopMessage | LoopWait
  | TerminalLoop | BeforeCleanup | BeforeStop | InStop | JoiningTick | Returned int | InDestructor
  | DestructorJoining | Destroyed

datatype tick_pc = NoTick | TickTop | TickBody | TickDone

text \<open>
  \<open>ap_terminal\<close>: the terminal's threads exist; \<open>ap_terminal_on\<close> is the terminal's own \<open>m_running\<close>, which its command
  \<open>exit\<close> clears.
\<close>

record app =
  ap_running :: bool
  ap_stopped :: bool
  ap_should_reload :: bool
  ap_created :: bool
  ap_main :: main_pc
  ap_tick :: tick_pc
  ap_terminal :: bool
  ap_terminal_on :: bool
  ap_hooks :: "hook list"

definition IApp_ctor :: app where
  "IApp_ctor = \<lparr>ap_running = False, ap_stopped = False, ap_should_reload = False, ap_created = False,
     ap_main = Begin, ap_tick = NoTick, ap_terminal = False, ap_terminal_on = False, ap_hooks = []\<rparr>"

abbreviation at :: "main_pc \<Rightarrow> app \<Rightarrow> app" where
  "at pc a \<equiv> a\<lparr>ap_main := pc\<rparr>"

abbreviation calls :: "hook \<Rightarrow> app \<Rightarrow> app" where
  "calls h a \<equiv> a\<lparr>ap_hooks := ap_hooks a @ [h]\<rparr>"

text \<open>
  The steps of the main thread.  \<open>SetUp ok\<close>: parsing, help and configuration; \<open>Create\<close>: bus client and
  timer, then \<open>m_running = true\<close>; the other arguments are the answers of the service.
\<close>

datatype main_event = SetUp bool | Create | InitReturns bool bool | LoopTest | ReloadTest
  | MessageLoopReturns bool | WaitEnds | CleanupReturns | StopEnter | StopBody | TickJoined | Destroy

definition stop_enter :: "main_pc \<Rightarrow> main_pc \<Rightarrow> app \<Rightarrow> app" where
  "stop_enter body after a = (if ap_stopped a then at after a else at body (a\<lparr>ap_stopped := True\<rparr>))"

definition stop_body :: "main_pc \<Rightarrow> app \<Rightarrow> app" where
  "stop_body joining a =
     (let a1 = a\<lparr>ap_running := False\<rparr> in at joining (if ap_created a then calls BusStop a1 else a1))"

text \<open>
  A thread that was not started is not joined; one that was must have ended.  \<open>stop\<close> of the terminal joins
  the terminal's threads, or returns at once if the terminal is not running.
\<close>

definition stop_joined :: "main_pc \<Rightarrow> app \<Rightarrow> app option" where
  "stop_joined after a =
     (if ap_tick a = NoTick \<or> ap_tick a = TickDone
      then Some (at after
             (let a1 = calls TerminalStop
                (if ap_terminal_on a then a\<lparr>ap_terminal_on := False, ap_terminal := False\<rparr> else a) in if ap_created a then calls TimerDeleted a1 else a1))
      else None)"

fun main_step :: "main_event \<Rightarrow> app \<Rightarrow> app option" where
  "main_step (SetUp ok) a =
     (if ap_main a = Begin then Some (at (if ok then HandlersInstalled else Returned 1) a) else None)"
| "main_step Create a =
     (if ap_main a = HandlersInstalled
      then Some (at Initializing (a\<lparr>ap_created := True, ap_running := True\<rparr>)) else None)"
| "main_step (InitReturns ok terminal) a =
     (if ap_main a = Initializing
      then Some (if ok then at (if terminal then TerminalLoop else LoopTop) (calls OnInit
                   (a\<lparr>ap_tick := TickTop, ap_terminal := terminal, ap_terminal_on := terminal\<rparr>))
                 else at (Returned 1) (calls OnInit a)) else None)"
| "main_step LoopTest a =
     (if ap_main a = LoopTop then Some (at (if ap_running a then LoopReload else BeforeCleanup) a)
      else if ap_main a = TerminalLoop then Some (at (if ap_running a then TerminalLoop else BeforeCleanup) a)
      else None)"
| "main_step ReloadTest a =
     (if ap_main a = LoopReload
      then Some (at LoopMessage (if ap_should_reload a then calls OnReload (a\<lparr>ap_should_reload := False\<rparr>) else a))
      else None)"
| "main_step (MessageLoopReturns go_on) a =
     (if ap_main a = LoopMessage
      then Some (at (if go_on then LoopWait else BeforeCleanup) (calls OnMessageLoop a)) else None)"
| "main_step WaitEnds a = (if ap_main a = LoopWait then Some (at LoopTop a) else None)"
| "main_step CleanupReturns a =
     (if ap_main a = BeforeCleanup then Some (at BeforeStop (calls OnCleanup a)) else None)"
| "main_step StopEnter a =
     (if ap_main a = BeforeStop then Some (stop_enter InStop (Returned 0) a) else None)"
| "main_step StopBody a =
     (if ap_main a = InStop then Some (stop_body JoiningTick a)
      else if ap_main a = InDestructor then Some (stop_body DestructorJoining a) else None)"
| "main_step TickJoined a =
     (if ap_main a = JoiningTick then stop_joined (Returned 0) a
      else if ap_main a = DestructorJoining then stop_joined Destroyed a else None)"
| "main_step Destroy a =
     (case ap_main a of Returned c \<Rightarrow> Some (stop_enter InDestructor Destroyed a) | _ \<Rightarrow> None)"

fun tick_step :: "app \<Rightarrow> app option" where
  "tick_step a =
     (case ap_tick a of
        TickTop \<Rightarrow> Some (a\<lparr>ap_tick := (if ap_running a then TickBody else TickDone)\<rparr>)
      | TickBody \<Rightarrow> Some (calls OnTick (a\<lparr>ap_tick := TickTop\<rparr>))
      | _ \<Rightarrow> None)"

text \<open>
  A termination signal, or the command \<open>stop\<close>, and a hangup, or a changed configuration file; before
  the handlers are installed they do not get here.
\<close>

definition term_signal :: "app \<Rightarrow> app option" where
  "term_signal a = (if ap_main a \<in> {Begin, Destroyed} then None else Some (a\<lparr>ap_running := False\<rparr>))"

definition hup_signal :: "app \<Rightarrow> app option" where
  "hup_signal a = (if ap_main a \<in> {Begin, Destroyed} then None else Some (a\<lparr>ap_should_reload := True\<rparr>))"

text \<open>
  The terminal's threads run the commands they read until the terminal is stopped: \<open>config reload\<close>, and \<open>exit\<close>,
  after which a connection still runs the commands of the bytes it has read.
\<close>

definition terminal_reload :: "app \<Rightarrow> app option" where
  "terminal_reload a =
     (if ap_terminal a \<and> ap_main a \<noteq> Destroyed then Some (calls ReloadCommand a) else None)"

definition terminal_exit :: "app \<Rightarrow> app option" where
  "terminal_exit a =
     (if ap_terminal a \<and> ap_main a \<noteq> Destroyed then Some (a\<lparr>ap_terminal_on := False\<rparr>) else None)"

datatype app_event = Main main_event | Tick | Terminate | Hangup | TerminalReload | TerminalExit

fun app_exec :: "app_event \<Rightarrow> app \<Rightarrow> app option" where
  "app_exec (Main e) a = main_step e a"
| "app_exec Tick a = tick_step a"
| "app_exec Terminate a = term_signal a"
| "app_exec Hangup a = hup_signal a"
| "app_exec TerminalReload a = terminal_reload a"
| "app_exec TerminalExit a = terminal_exit a"

inductive app_reach :: "app \<Rightarrow> app_event list \<Rightarrow> app \<Rightarrow> bool" for a where
  app_refl: "app_reach a [] a"
| app_then: "app_reach a es b \<Longrightarrow> app_exec e b = Some c \<Longrightarrow> app_reach a (es @ [e]) c"

section \<open>The order of calls\<close>

fun hook_rank :: "hook \<Rightarrow> nat" where
  "hook_rank OnInit = 0"
| "hook_rank OnTick = 1"
| "hook_rank OnReload = 1"
| "hook_rank ReloadCommand = 1"
| "hook_rank OnMessageLoop = 1"
| "hook_rank OnCleanup = 2"
| "hook_rank BusStop = 3"
| "hook_rank TerminalStop = 4"
| "hook_rank TimerDeleted = 5"

definition main_hooks :: "app \<Rightarrow> hook list" where
  "main_hooks a = filter (\<lambda>h. h \<noteq> OnTick \<and> h \<noteq> ReloadCommand) (ap_hooks a)"

text \<open>The calls the main thread has made, and what they can be by its place.\<close>

fun hooks_at :: "main_pc \<Rightarrow> hook list \<Rightarrow> bool" where
  "hooks_at Begin H \<longleftrightarrow> H = []"
| "hooks_at HandlersInstalled H \<longleftrightarrow> H = []"
| "hooks_at Initializing H \<longleftrightarrow> H = []"
| "hooks_at (Returned c) H \<longleftrightarrow>
     (if c = 0 then OnCleanup \<in> set H else c = 1 \<and> (H = [] \<or> H = [OnInit]))"
| "hooks_at InDestructor H \<longleftrightarrow> H = [] \<or> H = [OnInit]"
| "hooks_at DestructorJoining H \<longleftrightarrow> (\<forall>h \<in> set H. hook_rank h \<le> 3)"
| "hooks_at Destroyed H \<longleftrightarrow> True"
| "hooks_at BeforeStop H \<longleftrightarrow> (\<forall>h \<in> set H. hook_rank h \<le> 2) \<and> OnCleanup \<in> set H"
| "hooks_at InStop H \<longleftrightarrow> (\<forall>h \<in> set H. hook_rank h \<le> 2) \<and> OnCleanup \<in> set H"
| "hooks_at JoiningTick H \<longleftrightarrow> (\<forall>h \<in> set H. hook_rank h \<le> 3) \<and> OnCleanup \<in> set H"
| "hooks_at pc H \<longleftrightarrow> (\<forall>h \<in> set H. hook_rank h \<le> 1) \<and> OnInit \<in> set H"

definition after_stop :: "main_pc \<Rightarrow> bool" where
  "after_stop pc \<longleftrightarrow> pc \<in> {InStop, JoiningTick, Returned 0, InDestructor, DestructorJoining, Destroyed}"

text \<open>Calls in the order of their ranks, each of those that are no part of the loop at most once.\<close>

definition in_order :: "hook list \<Rightarrow> bool" where
  "in_order H \<longleftrightarrow> sorted (map hook_rank H) \<and> distinct (filter (\<lambda>h. hook_rank h \<noteq> 1) H)"

lemma in_order_snoc:
  "in_order (H @ [h]) \<longleftrightarrow> in_order H \<and> (\<forall>g \<in> set H. hook_rank g \<le> hook_rank h) \<and> (hook_rank h \<noteq> 1 \<longrightarrow> h \<notin> set H)"
  by (auto simp: in_order_def sorted_append)

lemma in_order_small: "in_order []" "in_order [h]"
  by (simp_all add: in_order_def)

definition tick_settled :: "app \<Rightarrow> bool" where
  "tick_settled a \<longleftrightarrow> ap_tick a = NoTick \<or> ap_tick a = TickDone"

text \<open>\<open>h\<close> is not called once the terminal is stopped.\<close>

definition not_late :: "hook \<Rightarrow> hook list \<Rightarrow> bool" where
  "not_late h H \<longleftrightarrow> h \<notin> set (dropWhile (\<lambda>g. g \<noteq> TerminalStop) H)"

lemma late_snoc:
  "not_late OnTick (H @ [h]) \<longleftrightarrow> not_late OnTick H \<and> (TerminalStop \<in> set H \<longrightarrow> h \<noteq> OnTick)"
  "not_late ReloadCommand (H @ [h]) \<longleftrightarrow>
     not_late ReloadCommand H \<and> (TerminalStop \<in> set H \<longrightarrow> h \<noteq> ReloadCommand)"
  by (induction H) (auto simp: not_late_def)

lemma snoc2:
  "in_order (H @ [g, h]) \<longleftrightarrow> in_order (H @ [g]) \<and> (\<forall>k \<in> set (H @ [g]). hook_rank k \<le> hook_rank h) \<and>
     (hook_rank h \<noteq> 1 \<longrightarrow> h \<notin> set (H @ [g]))"
  "not_late OnTick (H @ [g, h]) \<longleftrightarrow> not_late OnTick (H @ [g]) \<and> (TerminalStop \<in> set (H @ [g]) \<longrightarrow> h \<noteq> OnTick)"
  "not_late ReloadCommand (H @ [g, h]) \<longleftrightarrow>
     not_late ReloadCommand (H @ [g]) \<and> (TerminalStop \<in> set (H @ [g]) \<longrightarrow> h \<noteq> ReloadCommand)"
  using in_order_snoc [of "H @ [g]" h] late_snoc [of "H @ [g]" h] by simp_all

definition app_inv :: "app \<Rightarrow> bool" where
  "app_inv a \<longleftrightarrow> hooks_at (ap_main a) (main_hooks a) \<and> in_order (main_hooks a) \<and>
     (ap_stopped a \<longleftrightarrow> after_stop (ap_main a)) \<and>
     (ap_main a \<in> {Begin, HandlersInstalled, Initializing, Returned 1, InDestructor, DestructorJoining} \<longrightarrow>
        ap_tick a = NoTick) \<and>
     (TerminalStop \<in> set (ap_hooks a) \<longrightarrow> tick_settled a) \<and> not_late OnTick (ap_hooks a)"

lemma main_hooks_simps [simp]:
  "main_hooks (a\<lparr>ap_running := b\<rparr>) = main_hooks a" "main_hooks (a\<lparr>ap_stopped := b\<rparr>) = main_hooks a"
  "main_hooks (a\<lparr>ap_should_reload := b\<rparr>) = main_hooks a" "main_hooks (a\<lparr>ap_created := b\<rparr>) = main_hooks a"
  "main_hooks (a\<lparr>ap_main := pc\<rparr>) = main_hooks a" "main_hooks (a\<lparr>ap_tick := t\<rparr>) = main_hooks a"
  "main_hooks (a\<lparr>ap_terminal := b\<rparr>) = main_hooks a" "main_hooks (a\<lparr>ap_terminal_on := b\<rparr>) = main_hooks a"
  "main_hooks (a\<lparr>ap_hooks := hs\<rparr>) = filter (\<lambda>h. h \<noteq> OnTick \<and> h \<noteq> ReloadCommand) hs"
  by (simp_all add: main_hooks_def)

lemma set_main_hooks: "h \<noteq> OnTick \<Longrightarrow> h \<noteq> ReloadCommand \<Longrightarrow> h \<in> set (ap_hooks a) \<longleftrightarrow> h \<in> set (main_hooks a)"
  by (simp add: main_hooks_def)

lemma filter_hooks [simp]: "filter (\<lambda>h. h \<noteq> OnTick \<and> h \<noteq> ReloadCommand) (ap_hooks a) = main_hooks a"
  by (simp add: main_hooks_def)

lemmas app_eval = snoc2 app_inv_def after_stop_def in_order_snoc in_order_small late_snoc tick_settled_def
  set_main_hooks stop_enter_def stop_body_def Let_def

lemma rank_more:
  "\<forall>h \<in> set H. hook_rank h \<le> k \<Longrightarrow>
   (\<forall>h \<in> set H. hook_rank h \<le> Suc k)"
  by (simp add: le_SucI)

lemma rank_new: "\<forall>h \<in> set H. hook_rank h \<le> k \<Longrightarrow> k < hook_rank g \<Longrightarrow> g \<notin> set H"
  by fastforce

lemma app_inv_flags [simp]:
  "app_inv (a\<lparr>ap_running := b\<rparr>) = app_inv a" "app_inv (a\<lparr>ap_should_reload := b\<rparr>) = app_inv a"
  by (simp_all add: app_inv_def tick_settled_def)

lemma app_inv_tick:
  assumes "app_inv a" "tick_step a = Some b"
  shows "app_inv b"
proof (cases "ap_tick a")
  case TickTop
  then have b: "b = a\<lparr>ap_tick := (if ap_running a then TickBody else TickDone)\<rparr>" using assms(2) by simp
  show ?thesis using assms(1) TickTop by (auto simp: b app_inv_def tick_settled_def)
next
  case TickBody
  then have b: "b = calls OnTick (a\<lparr>ap_tick := TickTop\<rparr>)" using assms(2) by simp
  show ?thesis using assms(1) TickBody
    by (auto simp: b app_inv_def tick_settled_def late_snoc)
qed (use assms(2) in simp_all)

lemma app_inv_main:
  assumes "app_inv a" "main_step e a = Some b"
  shows "app_inv b"
proof (cases e)
  case (SetUp ok)
  then show ?thesis using assms by (auto simp: app_eval split: if_splits)
next
  case Create
  then show ?thesis using assms by (auto simp: app_eval split: if_splits)
next
  case (InitReturns ok t)
  then show ?thesis using assms by (auto simp: app_eval split: if_splits)
next
  case LoopTest
  then have "\<exists>pc. b = at pc a \<and> (ap_main a = LoopTop \<or> ap_main a = TerminalLoop) \<and>
      (pc = LoopReload \<or> pc = BeforeCleanup \<or> pc = TerminalLoop)"
    using assms(2) by (auto split: if_splits)
  then obtain pc where "b = at pc a" "ap_main a = LoopTop \<or> ap_main a = TerminalLoop"
    "pc = LoopReload \<or> pc = BeforeCleanup \<or> pc = TerminalLoop" by blast
  then show ?thesis using assms(1)
    by (elim disjE) (simp_all add: app_inv_def after_stop_def tick_settled_def)
next
  case ReloadTest
  then show ?thesis using assms by (auto simp: app_eval split: if_splits)
next
  case (MessageLoopReturns g)
  then show ?thesis using assms by (auto simp: app_eval split: if_splits)
next
  case WaitEnds
  then show ?thesis using assms by (auto simp: app_eval split: if_splits)
next
  case CleanupReturns
  then have m: "ap_main a = BeforeCleanup" and b: "b = at BeforeStop (calls OnCleanup a)"
    using assms(2) by (auto split: if_splits)
  have r: "\<forall>h \<in> set (main_hooks a). hook_rank h \<le> 1" using assms(1) m by (simp add: app_inv_def)
  then have "\<forall>h \<in> set (main_hooks a). hook_rank h \<le> 2" "OnCleanup \<notin> set (main_hooks a)"
    "TerminalStop \<notin> set (main_hooks a)"
    using rank_more [of _ 1] rank_new [of _ 1 OnCleanup] rank_new [of _ 1 TerminalStop]
    by (simp_all add: numeral_2_eq_2)
  then show ?thesis using assms(1) m by (simp add: b app_eval)
next
  case StopEnter
  then show ?thesis using assms by (auto simp: app_eval split: if_splits)
next
  case StopBody
  have new: "\<forall>h \<in> set (main_hooks a). hook_rank h \<le> 2 \<Longrightarrow>
      (\<forall>h \<in> set (main_hooks a). hook_rank h \<le> 3) \<and> BusStop \<notin> set (main_hooks a) \<and>
      TerminalStop \<notin> set (main_hooks a)"
    using rank_more [of _ 2] rank_new [of _ 2 BusStop] rank_new [of _ 2 TerminalStop]
    by (simp add: numeral_3_eq_3)
  consider "ap_main a = InStop" "b = stop_body JoiningTick a"
    | "ap_main a = InDestructor" "b = stop_body DestructorJoining a"
    using StopBody assms(2) by (auto split: if_splits)
  then show ?thesis
  proof cases
    case 1
    then show ?thesis using assms(1) new by (simp add: app_eval)
  next
    case 2
    then have "main_hooks a = [] \<or> main_hooks a = [OnInit]" using assms(1) by (simp add: app_inv_def)
    then show ?thesis using assms(1) 2 by (auto simp add: app_eval)
  qed
next
  case TickJoined
  then obtain pc where m: "ap_main a = JoiningTick \<and> pc = Returned 0 \<or> ap_main a = DestructorJoining \<and> pc = Destroyed"
    and j: "stop_joined pc a = Some b"
    using assms(2) by (auto split: if_splits)
  have t: "tick_settled a" using j by (auto simp: stop_joined_def tick_settled_def split: if_splits)
  obtain x y where b: "b = at pc (if ap_created a
      then calls TimerDeleted (calls TerminalStop (a\<lparr>ap_terminal := x, ap_terminal_on := y\<rparr>))
      else calls TerminalStop (a\<lparr>ap_terminal := x, ap_terminal_on := y\<rparr>))"
  proof
    show "b = at pc (if ap_created a
      then calls TimerDeleted (calls TerminalStop
        (a\<lparr>ap_terminal := ap_terminal a \<and> \<not> ap_terminal_on a, ap_terminal_on := False\<rparr>))
      else calls TerminalStop (a\<lparr>ap_terminal := ap_terminal a \<and> \<not> ap_terminal_on a, ap_terminal_on := False\<rparr>))"
      using j by (cases "ap_terminal_on a") (auto simp: stop_joined_def Let_def split: if_splits)
  qed
  have "hooks_at JoiningTick (main_hooks a) \<or> hooks_at DestructorJoining (main_hooks a)"
    using assms(1) m unfolding app_inv_def by metis
  then have r: "\<forall>h \<in> set (main_hooks a). hook_rank h \<le> 3" by (elim disjE) simp_all
  then have "\<forall>h \<in> set (main_hooks a). hook_rank h \<le> 4" "\<forall>h \<in> set (main_hooks a). hook_rank h \<le> 5"
    "TerminalStop \<notin> set (main_hooks a)" "TimerDeleted \<notin> set (main_hooks a)"
    using rank_new [of _ 3 TerminalStop] rank_new [of _ 3 TimerDeleted] by fastforce+
  note new = this
  from m show ?thesis
  proof
    assume "ap_main a = JoiningTick \<and> pc = Returned 0"
    then show ?thesis using assms(1) t new by (cases "ap_created a") (simp_all add: b app_eval)
  next
    assume "ap_main a = DestructorJoining \<and> pc = Destroyed"
    then show ?thesis using assms(1) t new by (cases "ap_created a") (simp_all add: b app_eval)
  qed
next
  case Destroy
  then show ?thesis using assms by (auto simp: app_eval split: main_pc.splits if_splits)
qed

lemma app_inv_exec:
  assumes "app_inv a" "app_exec e a = Some b"
  shows "app_inv b"
proof (cases e)
  case (Main m)
  then show ?thesis using assms app_inv_main by simp
next
  case Tick
  then show ?thesis using assms app_inv_tick by (simp del: tick_step.simps)
next
  case Terminate
  then have "b = a\<lparr>ap_running := False\<rparr>" using assms(2) by (simp add: term_signal_def split: if_splits)
  then show ?thesis using assms(1) by simp
next
  case Hangup
  then have "b = a\<lparr>ap_should_reload := True\<rparr>" using assms(2) by (simp add: hup_signal_def split: if_splits)
  then show ?thesis using assms(1) by simp
next
  case TerminalReload
  then have "b = calls ReloadCommand a" using assms(2) by (simp add: terminal_reload_def split: if_splits)
  then show ?thesis using assms(1) by (simp add: app_inv_def tick_settled_def late_snoc)
next
  case TerminalExit
  then have "b = a\<lparr>ap_terminal_on := False\<rparr>" using assms(2) by (simp add: terminal_exit_def split: if_splits)
  then show ?thesis using assms(1) by (simp add: app_inv_def tick_settled_def)
qed

lemma app_reach_inv: "app_reach a es b \<Longrightarrow> app_inv a \<Longrightarrow> app_inv b"
  by (induction rule: app_reach.induct) (auto intro: app_inv_exec)

lemma IApp_ctor_inv: "app_inv IApp_ctor"
  by (simp add: app_inv_def IApp_ctor_def main_hooks_def in_order_small not_late_def after_stop_def)

text \<open>
  As long as nobody types \<open>exit\<close>, \<open>stop\<close> waits for the terminal's threads.
\<close>

definition terminal_inv :: "app \<Rightarrow> bool" where
  "terminal_inv a \<longleftrightarrow> (ap_terminal a \<longrightarrow> ap_terminal_on a) \<and> (TerminalStop \<in> set (ap_hooks a) \<longrightarrow> \<not> ap_terminal a) \<and>
     not_late ReloadCommand (ap_hooks a)"

lemma terminal_inv_exec:
  assumes "terminal_inv a" "app_inv a" "app_exec e a = Some b" "e \<noteq> TerminalExit"
  shows "terminal_inv b"
proof (cases e)
  case (Main m)
  show ?thesis
  proof (cases "\<exists>ok t. m = InitReturns ok t")
    case True
    then obtain ok t where m: "m = InitReturns ok t" by blast
    have "ap_main a = Initializing" using assms(3) Main m by (auto split: if_splits)
    then have "main_hooks a = []" using assms(2) by (simp add: app_inv_def)
    then have "TerminalStop \<notin> set (ap_hooks a)" by (simp add: set_main_hooks)
    then show ?thesis using assms(1,3) Main m
      by (auto simp: terminal_inv_def late_snoc split: if_splits)
  next
    case False
    then show ?thesis using assms(1,3) Main
      by (cases m) (auto simp: terminal_inv_def late_snoc snoc2 stop_enter_def stop_body_def stop_joined_def
          Let_def split: if_splits main_pc.splits)
  qed
next
  case Tick
  then show ?thesis using assms(1,3) by (auto simp: terminal_inv_def late_snoc split: tick_pc.splits)
next
  case Terminate
  then show ?thesis using assms(1,3) by (auto simp: terminal_inv_def term_signal_def split: if_splits)
next
  case Hangup
  then show ?thesis using assms(1,3) by (auto simp: terminal_inv_def hup_signal_def split: if_splits)
next
  case TerminalReload
  then show ?thesis using assms(1,3)
    by (auto simp: terminal_inv_def terminal_reload_def late_snoc split: if_splits)
qed (use assms(4) in simp)

lemma app_reach_terminal:
  "app_reach a es b \<Longrightarrow> app_inv a \<Longrightarrow> terminal_inv a \<Longrightarrow> TerminalExit \<notin> set es \<Longrightarrow> terminal_inv b"
  by (induction rule: app_reach.induct) (auto intro: terminal_inv_exec app_reach_inv)

text \<open>
  C33: In every interleaving of the main thread, the tick thread, the terminal's threads and signals, the main
  thread's calls are in order: the service is initialised first, then reloads and handles messages, is cleaned
  up, and then its bus client, its terminal and its timer are stopped, each at most once, although \<open>stop\<close> is
  called twice.  The other threads' calls, \<open>onTick\<close> and the \<open>onReload\<close> of the command \<open>config reload\<close>, come at any
  time between (also during and after the clean-up), but no tick follows the stop of the terminal, and no such
  reload either unless somebody typed \<open>exit\<close>.  \<open>run\<close> returns 0 exactly if it came to the clean-up, else 1.
\<close>

theorem app_calls_in_order:
  assumes "app_reach IApp_ctor es a"
  shows "in_order (main_hooks a) \<and> not_late OnTick (ap_hooks a) \<and>
    (TerminalExit \<notin> set es \<longrightarrow> not_late ReloadCommand (ap_hooks a)) \<and>
    (\<forall>c. ap_main a = Returned c \<longrightarrow> c = (if OnCleanup \<in> set (ap_hooks a) then 0 else 1))"
proof -
  have inv: "app_inv a" using app_reach_inv [OF assms IApp_ctor_inv] .
  have ctor: "terminal_inv IApp_ctor" by (simp add: terminal_inv_def IApp_ctor_def not_late_def)
  have "c = (if OnCleanup \<in> set (ap_hooks a) then 0 else 1)" if "ap_main a = Returned c" for c
  proof -
    have "hooks_at (Returned c) (main_hooks a)" using inv that by (simp add: app_inv_def)
    then show ?thesis by (auto simp: set_main_hooks split: if_splits)
  qed
  moreover have "TerminalExit \<notin> set es \<longrightarrow> not_late ReloadCommand (ap_hooks a)"
    using app_reach_terminal [OF assms IApp_ctor_inv ctor] by (simp add: terminal_inv_def)
  ultimately show ?thesis using inv by (simp add: app_inv_def)
qed

fun app_run :: "app_event list \<Rightarrow> app \<Rightarrow> app option" where
  "app_run [] a = Some a"
| "app_run (e # es) a = (case app_exec e a of None \<Rightarrow> None | Some b \<Rightarrow> app_run es b)"

lemma app_run_snoc:
  "app_run (es @ [e]) a = (case app_run es a of None \<Rightarrow> None | Some b \<Rightarrow> app_exec e b)"
  by (induction es arbitrary: a) (auto split: option.splits)

lemma app_run_reach: "app_run es a = Some b \<Longrightarrow> app_reach a es b"
proof (induction es arbitrary: b rule: rev_induct)
  case (snoc e es)
  then obtain c where c: "app_run es a = Some c" "app_exec e c = Some b"
    by (auto simp: app_run_snoc split: option.splits)
  from app_then [OF snoc.IH [OF c(1)] c(2)] show ?case .
qed (simp add: app_refl)

text \<open>A run with a tick, a signal, the clean-up, \<open>stop\<close>, and the destructor.\<close>

definition whole_run :: "app_event list" where
  "whole_run = [Main (SetUp True), Main Create, Main (InitReturns True False), Tick, Tick, Main LoopTest,
     Main ReloadTest, Main (MessageLoopReturns True), Terminate, Main WaitEnds, Main LoopTest, Tick,
     Main CleanupReturns, Main StopEnter, Main StopBody, Main TickJoined, Main Destroy]"

lemma whole_run_hooks:
  "\<exists>a. app_run whole_run IApp_ctor = Some a \<and> ap_main a = Destroyed \<and>
     main_hooks a = [OnInit, OnMessageLoop, OnCleanup, BusStop, TerminalStop, TimerDeleted]"
  by (simp add: whole_run_def IApp_ctor_def main_hooks_def stop_enter_def stop_body_def stop_joined_def
      term_signal_def Let_def del: filter_hooks)

text \<open>In terminal mode \<open>config reload\<close> is answered also while the service is cleaned up and stopped.\<close>

definition terminal_run :: "app_event list" where
  "terminal_run = [Main (SetUp True), Main Create, Main (InitReturns True True), TerminalReload, Main LoopTest, Tick,
     Tick, Terminate, Main LoopTest, Main CleanupReturns, TerminalReload, Main StopEnter, Main StopBody, TerminalReload,
     Tick, Main TickJoined]"

theorem app_calls_in_order_witness:
  "\<exists>a. app_run terminal_run IApp_ctor = Some a \<and> ap_main a = Returned 0 \<and>
     ap_hooks a = [OnInit, ReloadCommand, OnTick, OnCleanup, ReloadCommand, BusStop, ReloadCommand, TerminalStop,
       TimerDeleted] \<and>
     in_order [OnInit, OnCleanup, BusStop, TerminalStop, TimerDeleted] \<and> not_late ReloadCommand (ap_hooks a)"
proof -
  have "\<exists>a. app_run terminal_run IApp_ctor = Some a \<and> ap_main a = Returned 0 \<and>
      ap_hooks a = [OnInit, ReloadCommand, OnTick, OnCleanup, ReloadCommand, BusStop, ReloadCommand, TerminalStop,
        TimerDeleted]"
    by (simp add: terminal_run_def IApp_ctor_def stop_enter_def stop_body_def stop_joined_def term_signal_def
        terminal_reload_def Let_def)
  then obtain a where a: "app_run terminal_run IApp_ctor = Some a" "ap_main a = Returned 0"
    "ap_hooks a = [OnInit, ReloadCommand, OnTick, OnCleanup, ReloadCommand, BusStop, ReloadCommand, TerminalStop,
        TimerDeleted]" by blast
  have "main_hooks a = [OnInit, OnCleanup, BusStop, TerminalStop, TimerDeleted]" using a(3)
    by (simp add: main_hooks_def del: filter_hooks)
  moreover have "TerminalExit \<notin> set terminal_run" by (simp add: terminal_run_def)
  ultimately show ?thesis using app_calls_in_order [OF app_run_reach [OF a(1)]] a by auto
qed

text \<open>
  After \<open>exit\<close>, \<open>stop\<close> of the terminal does not wait for its threads, and \<open>config reload\<close> calls \<open>onReload\<close> of a service
  that is stopped.
\<close>

lemma reload_after_stop:
  "\<exists>a. app_run (butlast terminal_run @ [TerminalExit, Main TickJoined, TerminalReload]) IApp_ctor = Some a \<and>
     last (ap_hooks a) = ReloadCommand \<and> TerminalStop \<in> set (ap_hooks a)"
  by (simp add: terminal_run_def IApp_ctor_def stop_enter_def stop_body_def stop_joined_def term_signal_def
      terminal_reload_def terminal_exit_def Let_def)

text \<open>A termination signal that arrives before \<open>m_running\<close> is set is forgotten: the service runs.\<close>

lemma early_signal_is_lost:
  "\<exists>a. app_run [Main (SetUp True), Terminate, Main Create, Main (InitReturns True False), Main LoopTest]
     IApp_ctor = Some a \<and> ap_main a = LoopReload \<and> ap_running a"
  by (simp add: IApp_ctor_def term_signal_def)

text \<open>
  When \<open>onMessageLoop\<close> ends the service, \<open>m_running\<close> is still set: \<open>onTick\<close> is called during and after
  \<open>onCleanup\<close>.
\<close>

lemma ticks_after_cleanup:
  "\<exists>a. app_run [Main (SetUp True), Main Create, Main (InitReturns True False), Main LoopTest, Main ReloadTest,
     Main (MessageLoopReturns False), Main CleanupReturns, Tick, Tick] IApp_ctor = Some a \<and>
     ap_hooks a = [OnInit, OnMessageLoop, OnCleanup, OnTick]"
  by (simp add: IApp_ctor_def)

text \<open>In terminal mode the reload flag is set and never looked at.\<close>

lemma terminal_mode_never_reloads:
  "ap_main a = TerminalLoop \<Longrightarrow> main_step e a = Some b \<Longrightarrow>
   ap_hooks b = ap_hooks a \<and> ap_main b \<in> {TerminalLoop, BeforeCleanup}"
  by (cases e) (auto split: if_splits)

text \<open>Once the flag is cleared the main loop calls \<open>onMessageLoop\<close> at most once more.\<close>

lemma stopped_loop_ends:
  assumes "\<not> ap_running a" "ap_main a = LoopTop \<or> ap_main a = LoopWait \<or> ap_main a = TerminalLoop"
    and "main_step e a = Some b"
  shows "ap_hooks b = ap_hooks a \<and> (ap_main b = LoopTop \<or> ap_main b = BeforeCleanup)"
  using assms by (cases e) auto

end
