(* ===== verification/Timer.thy ===== *)
theory Timer
  imports Prelude
begin

text \<open>
  \<open>Timer\<close> (src/server/common/Timer.h, Timer.cpp): tasks that a worker thread runs when they are due.
  A step is a section the code runs under \<open>mutex_\<close>, or one between two locks; the worker holds the
  mutex from the top of its loop until it waits or runs a task.  Intervals and times are in ticks of
  the clock; a callback is known by its task, and what it does itself are further steps.
\<close>

section \<open>State\<close>

record task =
  tk_nextRun :: int
  tk_interval :: int

text \<open>
  Where the worker is: at the top of its loop; having found no task, or none due, but not yet
  waiting; waiting for a notification, or until a time; running a callback; gone.
\<close>

datatype worker_pc = AtTop | FoundNone | NotYet int | Waiting | WaitingUntil int | Executing nat task | Gone

text \<open>Where a thread that shuts the timer down is.\<close>

datatype shut_pc = NotShutting | FlagCleared | Joining | ShutDone

record timer =
  tm_running :: bool
  tm_tasks :: "(nat \<times> task) list"
  tm_nextId :: nat
  tm_worker :: worker_pc
  tm_shut :: shut_pc
  tm_ran :: "nat list"

definition Timer_ctor :: timer where
  "Timer_ctor = \<lparr>tm_running = True, tm_tasks = [], tm_nextId = 1, tm_worker = AtTop,
     tm_shut = NotShutting, tm_ran = []\<rparr>"

text \<open>The mutex is free while the worker waits, runs a callback, or is gone.\<close>

definition mutex_free :: "timer \<Rightarrow> bool" where
  "mutex_free s \<longleftrightarrow> (case tm_worker s of
     AtTop \<Rightarrow> False | FoundNone \<Rightarrow> False | NotYet t \<Rightarrow> False | _ \<Rightarrow> True)"

text \<open>\<open>notify_one\<close> reaches the worker only if it is waiting.\<close>

definition notify :: "timer \<Rightarrow> timer" where
  "notify s = (case tm_worker s of
     Waiting \<Rightarrow> s\<lparr>tm_worker := AtTop\<rparr> | WaitingUntil t \<Rightarrow> s\<lparr>tm_worker := AtTop\<rparr> | _ \<Rightarrow> s)"

section \<open>Operations\<close>

text \<open>Ids ascend, so that the new task is the last of the map.\<close>

definition runEvery :: "int \<Rightarrow> int \<Rightarrow> timer \<Rightarrow> nat \<times> timer" where
  "runEvery now interval s =
     (tm_nextId s,
      notify (s\<lparr>tm_nextId := Suc (tm_nextId s),
                tm_tasks := tm_tasks s @ [(tm_nextId s, \<lparr>tk_nextRun = now + interval, tk_interval = interval\<rparr>)]\<rparr>))"

definition runAfter :: "int \<Rightarrow> int \<Rightarrow> timer \<Rightarrow> nat \<times> timer" where
  "runAfter now delay s = runEvery now delay s"

definition cancel :: "nat \<Rightarrow> timer \<Rightarrow> timer" where
  "cancel i s = notify (s\<lparr>tm_tasks := filter (\<lambda>(j, t). j \<noteq> i) (tm_tasks s)\<rparr>)"

text \<open>\<open>std::min_element\<close>: the first of the tasks with the least time.\<close>

fun next_task :: "(nat \<times> task) list \<Rightarrow> nat \<times> task" where
  "next_task [x] = x"
| "next_task (x # y # ts) =
     (let m = next_task (y # ts) in if tk_nextRun (snd m) < tk_nextRun (snd x) then m else x)"
| "next_task [] = undefined"

text \<open>
  The parts of \<open>workerThread\<close>. What the callback throws is ignored; \<open>emplace\<close> inserts a task only
  if its id is not in the map.
\<close>

definition worker_top :: "int \<Rightarrow> timer \<Rightarrow> timer" where
  "worker_top now s =
     (if \<not> tm_running s then s\<lparr>tm_tasks := [], tm_worker := Gone\<rparr>
      else if tm_tasks s = [] then s\<lparr>tm_worker := FoundNone\<rparr>
      else let (i, t) = next_task (tm_tasks s) in
        if tk_nextRun t \<le> now
        then s\<lparr>tm_tasks := filter (\<lambda>(j, u). j \<noteq> i) (tm_tasks s), tm_worker := Executing i t\<rparr>
        else s\<lparr>tm_worker := NotYet (tk_nextRun t)\<rparr>)"

fun emplace :: "nat \<Rightarrow> task \<Rightarrow> (nat \<times> task) list \<Rightarrow> (nat \<times> task) list" where
  "emplace i t [] = [(i, t)]"
| "emplace i t ((j, u) # ts) =
     (if i < j then (i, t) # (j, u) # ts else if i = j then (j, u) # ts else (j, u) # emplace i t ts)"

definition worker_ran :: "nat \<Rightarrow> task \<Rightarrow> int \<Rightarrow> timer \<Rightarrow> timer" where
  "worker_ran i t now s =
     (let s1 = s\<lparr>tm_ran := tm_ran s @ [i], tm_worker := AtTop\<rparr> in
      if 0 < tk_interval t \<and> tm_running s
      then s1\<lparr>tm_tasks := emplace i (t\<lparr>tk_nextRun := now + tk_interval t\<rparr>) (tm_tasks s)\<rparr> else s1)"

definition worker_step :: "int \<Rightarrow> timer \<Rightarrow> timer option" where
  "worker_step now s =
     (case tm_worker s of
        AtTop \<Rightarrow> Some (worker_top now s)
      | FoundNone \<Rightarrow> Some (s\<lparr>tm_worker := Waiting\<rparr>)
      | NotYet t \<Rightarrow> Some (s\<lparr>tm_worker := WaitingUntil t\<rparr>)
      | Waiting \<Rightarrow> None
      | WaitingUntil t \<Rightarrow> if t \<le> now then Some (s\<lparr>tm_worker := AtTop\<rparr>) else None
      | Executing i t \<Rightarrow> Some (worker_ran i t now s)
      | Gone \<Rightarrow> None)"

text \<open>\<open>shutdown\<close> takes no lock: it clears the flag, notifies, and waits for the worker to end.\<close>

definition shutdown_step :: "timer \<Rightarrow> timer option" where
  "shutdown_step s =
     (case tm_shut s of
        NotShutting \<Rightarrow> if \<not> tm_running s then Some (s\<lparr>tm_shut := ShutDone\<rparr>)
          else Some (s\<lparr>tm_running := False, tm_shut := FlagCleared\<rparr>)
      | FlagCleared \<Rightarrow> Some ((notify s)\<lparr>tm_shut := Joining\<rparr>)
      | Joining \<Rightarrow> if tm_worker s = Gone then Some (s\<lparr>tm_shut := ShutDone\<rparr>) else None
      | ShutDone \<Rightarrow> None)"

datatype timer_event = RunEvery int int | RunAfter int int | Cancel nat | Worker int | Shutdown

fun timer_exec :: "timer_event \<Rightarrow> timer \<Rightarrow> timer option" where
  "timer_exec (RunEvery now interval) s = (if mutex_free s then Some (snd (runEvery now interval s)) else None)"
| "timer_exec (RunAfter now delay) s = (if mutex_free s then Some (snd (runAfter now delay s)) else None)"
| "timer_exec (Cancel i) s = (if mutex_free s then Some (cancel i s) else None)"
| "timer_exec (Worker now) s = worker_step now s"
| "timer_exec Shutdown s = shutdown_step s"

fun timer_run :: "timer_event list \<Rightarrow> timer \<Rightarrow> timer option" where
  "timer_run [] s = Some s"
| "timer_run (e # es) s = (case timer_exec e s of None \<Rightarrow> None | Some t \<Rightarrow> timer_run es t)"

section \<open>Tasks stay\<close>

lemma notify_simps [simp]:
  "tm_tasks (notify s) = tm_tasks s" "tm_running (notify s) = tm_running s"
  "tm_nextId (notify s) = tm_nextId s" "tm_shut (notify s) = tm_shut s" "tm_ran (notify s) = tm_ran s"
  by (simp_all add: notify_def split: worker_pc.splits)

lemma notify_executing [simp]: "tm_worker (notify s) = Executing i t \<longleftrightarrow> tm_worker s = Executing i t"
  by (simp add: notify_def split: worker_pc.splits)

lemma next_task_in: "ts \<noteq> [] \<Longrightarrow> next_task ts \<in> set ts \<and> (\<forall>x \<in> set ts. tk_nextRun (snd (next_task ts)) \<le> tk_nextRun (snd x))"
  by (induction ts rule: next_task.induct) (auto simp: Let_def)

lemma set_emplace: "fst ` set (emplace i t ts) = insert i (fst ` set ts)"
  by (induction i t ts rule: emplace.induct) auto

lemma emplace_sorted:
  "sorted_wrt (<) (map fst ts) \<Longrightarrow> sorted_wrt (<) (map fst (emplace i t ts))"
proof (induction i t ts rule: emplace.induct)
  case (2 i t j u ts)
  have "fst ` set (emplace i t ts) = insert i (fst ` set ts)" by (rule set_emplace)
  then show ?case using 2 by (fastforce simp: not_less_iff_gr_or_eq)
qed simp

lemma emplace_new: "i \<notin> fst ` set ts \<Longrightarrow> set (emplace i t ts) = insert (i, t) (set ts)"
  by (induction i t ts rule: emplace.induct) auto

text \<open>The map is ordered, ids are not used twice, and a task being run is not in the map.\<close>

definition timer_inv :: "timer \<Rightarrow> bool" where
  "timer_inv s \<longleftrightarrow> sorted_wrt (<) (map fst (tm_tasks s)) \<and>
     fst ` set (tm_tasks s) \<subseteq> {..<tm_nextId s} \<and>
     (\<forall>i t. tm_worker s = Executing i t \<longrightarrow> i < tm_nextId s \<and> i \<notin> fst ` set (tm_tasks s))"

text \<open>A task that repeats is in the map or being run.\<close>

definition has_task :: "nat \<Rightarrow> timer \<Rightarrow> bool" where
  "has_task i s \<longleftrightarrow> (\<exists>t. 0 < tk_interval t \<and> ((i, t) \<in> set (tm_tasks s) \<or> tm_worker s = Executing i t))"

lemma sorted_filter_fst: "sorted_wrt (<) (map fst ts) \<Longrightarrow> sorted_wrt (<) (map fst (filter P ts))"
  by (induction ts) auto

lemma distinct_keys:
  "sorted_wrt (<) (map fst (ts :: (nat \<times> 'a) list)) \<Longrightarrow> (i, t) \<in> set ts \<Longrightarrow> (i, u) \<in> set ts \<Longrightarrow> t = u"
  by (metis strict_sorted_iff eq_key_imp_eq_value)

lemma inv_same:
  "timer_inv s \<Longrightarrow> tm_tasks s' = tm_tasks s \<Longrightarrow> tm_nextId s' = tm_nextId s \<Longrightarrow>
   (\<And>i t. tm_worker s' = Executing i t \<Longrightarrow> tm_worker s = Executing i t) \<Longrightarrow> timer_inv s'"
  by (simp add: timer_inv_def)

lemma inv_add: "timer_inv s \<Longrightarrow> timer_inv (snd (runEvery now k s))"
  by (fastforce simp: timer_inv_def runEvery_def sorted_wrt_append)

lemma inv_cancel: "timer_inv s \<Longrightarrow> timer_inv (cancel i s)"
  by (fastforce simp: timer_inv_def cancel_def intro: sorted_filter_fst)

lemma inv_top:
  assumes "timer_inv s" "tm_worker s = AtTop"
  shows "timer_inv (worker_top now s)"
proof -
  have "next_task (tm_tasks s) \<in> set (tm_tasks s)" if "tm_tasks s \<noteq> []"
    using next_task_in [OF that] by blast
  then have "fst (next_task (tm_tasks s)) < tm_nextId s" if "tm_tasks s \<noteq> []"
    using assms(1) that by (auto simp: timer_inv_def)
  then show ?thesis using assms
    by (auto simp: timer_inv_def worker_top_def Let_def case_prod_beta intro: sorted_filter_fst)
qed

lemma inv_ran:
  assumes "timer_inv s" "tm_worker s = Executing i t"
  shows "timer_inv (worker_ran i t now s)"
  using assms by (simp add: timer_inv_def worker_ran_def Let_def emplace_sorted set_emplace)

lemma timer_exec_inv: "timer_exec e s = Some s' \<Longrightarrow> timer_inv s \<Longrightarrow> timer_inv s'"
proof (cases e)
  case (Worker now)
  assume s: "timer_exec e s = Some s'" "timer_inv s"
  show ?thesis
  proof (cases "tm_worker s")
    case AtTop
    then show ?thesis using s Worker inv_top by (auto simp: worker_step_def)
  next
    case (Executing i t)
    then show ?thesis using s Worker inv_ran by (auto simp: worker_step_def)
  qed (use s Worker in \<open>auto simp: worker_step_def split: if_splits intro: inv_same\<close>)
next
  case Shutdown
  assume "timer_exec e s = Some s'" "timer_inv s"
  then show ?thesis using Shutdown
    by (auto simp: shutdown_step_def split: shut_pc.splits if_splits intro: inv_same)
qed (auto simp: runAfter_def inv_add inv_cancel split: if_splits)

lemma timer_run_inv: "timer_run es s = Some s' \<Longrightarrow> timer_inv s \<Longrightarrow> timer_inv s'"
  by (induction es s rule: timer_run.induct) (auto split: option.splits dest: timer_exec_inv)

lemma Timer_ctor_inv: "timer_inv Timer_ctor"
  by (simp add: timer_inv_def Timer_ctor_def)

lemma emplace_keeps: "x \<in> set ts \<Longrightarrow> x \<in> set (emplace i t ts)"
  by (induction i t ts rule: emplace.induct) auto

lemma top_keeps:
  assumes "timer_inv s" "has_task i s" "tm_running s" "tm_worker s = AtTop"
  shows "has_task i (worker_top now s)"
proof -
  obtain t where t: "0 < tk_interval t" "(i, t) \<in> set (tm_tasks s)"
    using assms(2,4) by (auto simp: has_task_def)
  then have ne: "tm_tasks s \<noteq> []" by auto
  obtain j u where n: "next_task (tm_tasks s) = (j, u)" by (cases "next_task (tm_tasks s)")
  then have j: "(j, u) \<in> set (tm_tasks s)" using next_task_in [OF ne] by simp
  show ?thesis
  proof (cases "j = i")
    case True
    then have "u = t" using j t(2) assms(1) distinct_keys by (fastforce simp: timer_inv_def)
    then show ?thesis using True t n ne assms(3) by (auto simp: worker_top_def has_task_def)
  next
    case False
    then show ?thesis using t n ne assms(3) by (auto simp: worker_top_def has_task_def)
  qed
qed

lemma ran_keeps:
  assumes "timer_inv s" "has_task i s" "tm_running s" "tm_worker s = Executing j u"
  shows "has_task i (worker_ran j u now s)"
proof -
  consider t where "0 < tk_interval t" "(i, t) \<in> set (tm_tasks s)" | "i = j" "0 < tk_interval u"
    using assms(2,4) by (auto simp: has_task_def)
  then show ?thesis
  proof cases
    case 1
    then show ?thesis by (auto simp: worker_ran_def has_task_def Let_def emplace_keeps)
  next
    case 2
    have "j \<notin> fst ` set (tm_tasks s)" using assms(1,4) by (simp add: timer_inv_def)
    then show ?thesis using 2 assms(3) unfolding has_task_def
      by (intro exI [of _ "u\<lparr>tk_nextRun := now + tk_interval u\<rparr>"]) (simp add: worker_ran_def Let_def emplace_new)
  qed
qed

lemma has_task_same:
  "has_task i s \<Longrightarrow> set (tm_tasks s) \<subseteq> set (tm_tasks s') \<Longrightarrow>
   (\<And>j t. tm_worker s = Executing j t \<Longrightarrow> tm_worker s' = Executing j t) \<Longrightarrow> has_task i s'"
  by (fastforce simp: has_task_def)

lemma running_back: "timer_exec e s = Some s' \<Longrightarrow> tm_running s' \<Longrightarrow> tm_running s"
  by (cases e) (auto simp: runAfter_def runEvery_def cancel_def worker_step_def worker_top_def worker_ran_def
      shutdown_step_def Let_def split: if_splits worker_pc.splits shut_pc.splits prod.splits)

text \<open>Cancelling a task in the map removes it; a task that is being run is not touched.\<close>

definition cancels_waiting :: "nat \<Rightarrow> timer \<Rightarrow> timer_event \<Rightarrow> bool" where
  "cancels_waiting i s e \<longleftrightarrow> e = Cancel i \<and> (\<forall>t. tm_worker s \<noteq> Executing i t)"

lemma exec_keeps:
  assumes "timer_exec e s = Some s'" "timer_inv s" "has_task i s" "tm_running s'"
    "\<not> cancels_waiting i s e"
  shows "has_task i s'"
proof (cases e)
  case (Cancel j)
  have s': "s' = cancel j s" using assms(1) Cancel by (simp split: if_splits)
  have "\<exists>t. 0 < tk_interval t \<and> ((i, t) \<in> set (tm_tasks s) \<and> i \<noteq> j \<or> tm_worker s = Executing i t)"
  proof (cases "i = j")
    case True
    then obtain t where t: "tm_worker s = Executing i t" using assms(5) Cancel by (auto simp: cancels_waiting_def)
    then have "i \<notin> fst ` set (tm_tasks s)" using assms(2) by (simp add: timer_inv_def)
    then show ?thesis using assms(3) by (force simp: has_task_def)
  next
    case False
    then show ?thesis using assms(3) by (auto simp: has_task_def)
  qed
  then show ?thesis by (auto simp: s' has_task_def cancel_def)
next
  case (Worker now)
  then show ?thesis using assms running_back [OF assms(1,4)] top_keeps ran_keeps
    by (auto simp: worker_step_def split: worker_pc.splits if_splits) (auto simp: has_task_def)
next
  case Shutdown
  then show ?thesis using assms
    by (auto simp: shutdown_step_def split: shut_pc.splits if_splits intro: has_task_same)
qed (use assms in \<open>auto simp: runAfter_def runEvery_def split: if_splits intro: has_task_same\<close>)

section \<open>Properties\<close>

fun uncancelled :: "nat \<Rightarrow> timer_event list \<Rightarrow> timer \<Rightarrow> bool" where
  "uncancelled i [] s = True"
| "uncancelled i (e # es) s =
     (\<not> cancels_waiting i s e \<and> (case timer_exec e s of None \<Rightarrow> True | Some t \<Rightarrow> uncancelled i es t))"

lemma run_running_back: "timer_run es s = Some s' \<Longrightarrow> tm_running s' \<Longrightarrow> tm_running s"
  by (induction es s rule: timer_run.induct) (auto split: option.splits dest: running_back)

lemma run_keeps:
  "timer_run es s = Some s' \<Longrightarrow> timer_inv s \<Longrightarrow> has_task i s \<Longrightarrow> tm_running s' \<Longrightarrow> uncancelled i es s \<Longrightarrow>
   has_task i s'"
proof (induction es arbitrary: s)
  case (Cons e es)
  then obtain t where t: "timer_exec e s = Some t" "timer_run es t = Some s'"
    by (auto split: option.splits)
  have "has_task i t"
    using exec_keeps [OF t(1)] Cons.prems run_running_back [OF t(2)] t(1) by auto
  then show ?case using Cons.IH [OF t(2)] timer_exec_inv [OF t(1)] Cons.prems t(1) by auto
qed simp

lemma add_has_task:
  "timer_exec e s = Some s' \<Longrightarrow> e = RunAfter now d \<or> e = RunEvery now d \<Longrightarrow> 0 < d \<Longrightarrow> has_task (tm_nextId s) s'"
  unfolding has_task_def
  by (intro exI [of _ "\<lparr>tk_nextRun = now + d, tk_interval = d\<rparr>"])
    (auto simp: runAfter_def runEvery_def split: if_splits)

text \<open>
  A task with a positive time, added by \<open>runEvery\<close> or by \<open>runAfter\<close>, is waiting or being run in
  every later state until the timer is shut down, unless it is cancelled while it waits: what was to
  run once runs again and again, and cancelling a task during its run has no effect.
\<close>

theorem timer_tasks_repeat:
  assumes "timer_run before Timer_ctor = Some s"
    and "timer_exec e s = Some s1" "e = RunAfter now d \<or> e = RunEvery now d" "0 < d"
    and "timer_run after s1 = Some s2" "tm_running s2" "uncancelled (tm_nextId s) after s1"
  shows "has_task (tm_nextId s) s2"
proof -
  have "timer_inv s1" using timer_run_inv [OF assms(1) Timer_ctor_inv] timer_exec_inv [OF assms(2)] by blast
  then show ?thesis using run_keeps [OF assms(5)] add_has_task [OF assms(2-4)] assms(6,7) by blast
qed

text \<open>A task that is to run after 5 runs at 5, is cancelled by its own callback, and runs again at 12.\<close>

theorem timer_tasks_repeat_witness:
  "\<exists>s. timer_run [Worker 0, Worker 0, RunAfter 0 5, Worker 1, Worker 1, Worker 5, Worker 5, Cancel 1, Worker 7]
      Timer_ctor = Some s \<and> has_task 1 s \<and> tm_ran s = [1]"
proof -
  define after where "after = [Worker 1, Worker 1, Worker 5, Worker 5, Cancel 1, Worker 7]"
  define s where "s = Timer_ctor\<lparr>tm_worker := Waiting\<rparr>"
  define s1 where "s1 = Timer_ctor\<lparr>tm_nextId := 2, tm_tasks := [(1, \<lparr>tk_nextRun = 5, tk_interval = 5\<rparr>)]\<rparr>"
  define s2 where "s2 = s1\<lparr>tm_tasks := [(1, \<lparr>tk_nextRun = 12, tk_interval = 5\<rparr>)], tm_ran := [1]\<rparr>"
  note eval = s_def s1_def s2_def Timer_ctor_def mutex_free_def worker_step_def worker_top_def runAfter_def
    runEvery_def notify_def cancel_def worker_ran_def Let_def after_def cancels_waiting_def
  have "timer_run [Worker 0, Worker 0] Timer_ctor = Some s" "timer_exec (RunAfter 0 5) s = Some s1"
    "timer_run after s1 = Some s2" "uncancelled 1 after s1" "tm_nextId s = 1" "tm_running s2"
    by (simp_all add: eval)
  moreover from this have "has_task 1 s2"
    using timer_tasks_repeat [of "[Worker 0, Worker 0]" s "RunAfter 0 5" s1 0 5 after s2] by simp
  moreover have "timer_run [Worker 0, Worker 0, RunAfter 0 5, Worker 1, Worker 1, Worker 5, Worker 5, Cancel 1, Worker 7]
      Timer_ctor = Some s2"
    by (simp add: eval)
  ultimately show ?thesis by (auto simp: s2_def)
qed

text \<open>
  \<open>shutdown\<close> clears the flag without the mutex: between the worker's look at the flag and its wait the
  notification is lost, and then neither the worker nor the thread that joins it goes on (but for a
  spurious wake-up, which the standard allows and does not promise).
\<close>

lemma shutdown_can_hang:
  "\<exists>es s. timer_run es Timer_ctor = Some s \<and> tm_shut s = Joining \<and> tm_worker s = Waiting \<and>
     timer_exec Shutdown s = None \<and> (\<forall>now. timer_exec (Worker now) s = None)"
  by (rule exI [of _ "[Worker 0, Shutdown, Shutdown, Worker 0]"])
    (simp add: Timer_ctor_def worker_step_def worker_top_def shutdown_step_def notify_def)

end
