(* ===== verification/Terminal.thy ===== *)
theory Terminal
  imports StdText
begin

text \<open>
  \<open>TerminalInterface\<close> (src/server/core/app/TerminalInterface.h, TerminalInterface.cpp): the commands
  a service offers at its terminal, their execution, the console, telnet connections with their line
  editing, and starting and stopping.  The results of the system calls are arguments, and what a handler
  does is an argument of the command it belongs to.
\<close>

section \<open>Commands\<close>

text \<open>
  A handler returns a text, throws an exception with a message, or does not return. It is told whether
  \<open>m_commands_mutex\<close> is held, and may change whether the terminal runs.
\<close>

datatype handler_result = Returns string | Throws string | Hangs fault

datatype command_code = Builtin_help | Builtin_exit | Builtin_list | Custom "string list \<Rightarrow> handler_result"

record command_info =
  ci_name :: string
  ci_description :: string
  ci_handler :: command_code

record terminal =
  te_running :: bool
  te_telnet_enabled :: bool
  te_telnet_port :: nat
  te_prompt :: string
  te_commands :: "(string \<times> command_info) list"
  te_stdio_thread :: bool
  te_telnet_thread :: bool

definition registerCommand :: "string \<Rightarrow> string \<Rightarrow> command_code \<Rightarrow> terminal \<Rightarrow> terminal" where
  "registerCommand command description handler te =
     te\<lparr>te_commands := ordered_put command
          \<lparr>ci_name = command, ci_description = description, ci_handler = handler\<rparr> (te_commands te)\<rparr>"

definition registerBuiltinCommands :: "(string \<Rightarrow> string) \<Rightarrow> terminal \<Rightarrow> terminal" where
  "registerBuiltinCommands descr =
     registerCommand ''list'' (descr ''list'') Builtin_list \<circ>
     registerCommand ''exit'' (descr ''exit'') Builtin_exit \<circ>
     registerCommand ''help'' (descr ''help'') Builtin_help"

definition TerminalInterface_ctor :: "(string \<Rightarrow> string) \<Rightarrow> terminal" where
  "TerminalInterface_ctor descr = registerBuiltinCommands descr
     \<lparr>te_running = False, te_telnet_enabled = False, te_telnet_port = 23, te_prompt = ''iApp> '',
      te_commands = [], te_stdio_thread = False, te_telnet_thread = False\<rparr>"

text \<open>Both listings lock \<open>m_commands_mutex\<close>, which is not recursive.\<close>

definition helpCommand :: "bool \<Rightarrow> terminal \<Rightarrow> handler_result" where
  "helpCommand commands_locked te =
     (if commands_locked then Hangs Deadlock
      else Returns (''Available commands:'' @ [CHR 0x0A] @
        concat (map (\<lambda>(n, c). ''  '' @ n @ '' - '' @ ci_description c @ [CHR 0x0A]) (te_commands te))))"

definition listCommand :: "bool \<Rightarrow> terminal \<Rightarrow> handler_result" where
  "listCommand commands_locked te =
     (if commands_locked then Hangs Deadlock
      else Returns (''Registered commands:'' @ [CHR 0x0A] @
        concat (map (\<lambda>(n, c). ''  '' @ n @ [CHR 0x0A]) (te_commands te))))"

definition exitCommand :: "terminal \<Rightarrow> handler_result \<times> terminal" where
  "exitCommand te = (Returns ''Goodbye!'', te\<lparr>te_running := False\<rparr>)"

definition run_command :: "bool \<Rightarrow> command_code \<Rightarrow> string list \<Rightarrow> terminal \<Rightarrow> handler_result \<times> terminal" where
  "run_command commands_locked code args te =
     (case code of
        Builtin_help \<Rightarrow> (helpCommand commands_locked te, te)
      | Builtin_list \<Rightarrow> (listCommand commands_locked te, te)
      | Builtin_exit \<Rightarrow> exitCommand te
      | Custom f \<Rightarrow> (f args, te))"

text \<open>\<open>iss >> token\<close>: the words between blanks.\<close>

function parseCommandLine :: "string \<Rightarrow> string list" where
  "parseCommandLine s =
     (let s1 = dropWhile std_space s in
      if s1 = [] then []
      else takeWhile (\<lambda>c. \<not> std_space c) s1 # parseCommandLine (dropWhile (\<lambda>c. \<not> std_space c) s1))"
  by pat_completeness auto
termination
proof (relation "measure length")
  fix s s1 :: string
  assume s1: "s1 = dropWhile std_space s" "s1 \<noteq> []"
  obtain c cs where c: "s1 = c # cs" using s1(2) by (cases s1) auto
  have "\<not> std_space c" using hd_dropWhile [of std_space s] s1(2) unfolding s1(1) [symmetric] c by simp
  then have "length (dropWhile (\<lambda>c. \<not> std_space c) s1) < length s1"
    using length_dropWhile_le [of "\<lambda>c. \<not> std_space c" cs] by (simp add: c le_imp_less_Suc)
  then show "(dropWhile (\<lambda>c. \<not> std_space c) s1, s) \<in> measure length"
    using length_dropWhile_le [of std_space s] s1(1) by simp
qed simp

declare parseCommandLine.simps [simp del]

text \<open>The command runs with \<open>m_commands_mutex\<close> locked; exceptions become a text.\<close>

definition processCommand :: "string \<Rightarrow> terminal \<Rightarrow> (fault + string) \<times> terminal" where
  "processCommand command_line te =
     (case parseCommandLine command_line of
        [] \<Rightarrow> (Inr [], te)
      | command # args \<Rightarrow>
          (case map_of (te_commands te) command of
             Some c \<Rightarrow>
               (case run_command True (ci_handler c) args te of
                  (Returns s, te') \<Rightarrow> (Inr s, te')
                | (Throws what, te') \<Rightarrow> (Inr (''Error executing command: '' @ what), te')
                | (Hangs f, te') \<Rightarrow> (Inl f, te'))
           | None \<Rightarrow> (Inr (''Unknown command: '' @ command @ ''. Type '' @ [CHR 0x27] @ ''help'' @ [CHR 0x27] @
                       '' for available commands.''), te)))"

section \<open>Starting and stopping\<close>

definition terminal_start :: "bool \<Rightarrow> nat \<Rightarrow> terminal \<Rightarrow> bool \<times> terminal" where
  "terminal_start enable_telnet telnet_port te =
     (if te_running te then (False, te)
      else (True, te\<lparr>te_running := True, te_telnet_enabled := enable_telnet, te_telnet_port := telnet_port,
                    te_stdio_thread := True,
                    te_telnet_thread := (te_telnet_thread te \<or> enable_telnet)\<rparr>))"

text \<open>
  \<open>te_stdio_thread\<close> and \<open>te_telnet_thread\<close> say that the thread objects must still be joined.  \<open>stop\<close> joins
  them, but only if the terminal runs; destroying an object that was not joined ends the process.
\<close>

definition terminal_stop :: "terminal \<Rightarrow> terminal" where
  "terminal_stop te =
     (if \<not> te_running te then te
      else te\<lparr>te_running := False, te_stdio_thread := False, te_telnet_thread := False\<rparr>)"

definition terminal_destroy :: "terminal \<Rightarrow> fault + unit" where
  "terminal_destroy te =
     (let te' = terminal_stop te in
      if te_stdio_thread te' \<or> te_telnet_thread te' then Inl Thrown else Inr ())"

text \<open>Assigning a new thread to an object that was not joined ends the process too.\<close>

definition terminal_restart_ok :: "terminal \<Rightarrow> bool" where
  "terminal_restart_ok te \<longleftrightarrow> te_running te \<or> \<not> te_stdio_thread te"

section \<open>A telnet connection\<close>

text \<open>
  One received byte: the line so far, and what is sent back.  The result of a command is followed by a
  line break; a command that does not return ends the thread's progress.
\<close>

definition crlf :: string where "crlf = [CHR 0x0D, CHR 0x0A]"

definition telnet_byte :: "char \<Rightarrow> string \<times> terminal \<Rightarrow> fault + string \<times> string \<times> terminal" where
  "telnet_byte c lt =
     (let (line, te) = lt in
      if c = CHR 0x0D \<or> c = CHR 0x0A then
        (if line \<noteq> [] then
           (case processCommand line te of
              (Inl f, te') \<Rightarrow> Inl f
            | (Inr result, te') \<Rightarrow>
                Inr ((if result \<noteq> [] then result @ crlf else []) @ te_prompt te', [], te'))
         else Inr (te_prompt te, line, te))
      else if c = CHR 0x08 \<or> c = CHR 0x7F then
        (if line \<noteq> [] then Inr ([CHR 0x08, CHR '' '', CHR 0x08], butlast line, te) else Inr ([], line, te))
      else if 32 \<le> (of_char c :: nat) \<and> (of_char c :: nat) \<le> 126 then Inr ([c], line @ [c], te)
      else Inr ([], line, te))"

fun telnet_bytes :: "string \<Rightarrow> string \<times> terminal \<Rightarrow> fault + string \<times> string \<times> terminal" where
  "telnet_bytes [] lt = Inr ([], lt)"
| "telnet_bytes (c # cs) lt =
     (case telnet_byte c lt of
        Inl f \<Rightarrow> Inl f
      | Inr (out, lt') \<Rightarrow>
          (case telnet_bytes cs lt' of Inl f \<Rightarrow> Inl f | Inr (more_out, lt'') \<Rightarrow> Inr (out @ more_out, lt'')))"

section \<open>What a user gets\<close>

lemma word_alone:
  assumes "w \<noteq> []" "\<forall>c \<in> set w. \<not> std_space c"
  shows "parseCommandLine w = [w]"
proof -
  have w: "dropWhile std_space w = w" using assms by (cases w) auto
  have all: "takeWhile (\<lambda>c. \<not> std_space c) w = w" "dropWhile (\<lambda>c. \<not> std_space c) w = []"
    using assms(2) by (simp_all add: takeWhile_eq_all_conv dropWhile_eq_Nil_conv)
  have "parseCommandLine [] = []" by (subst parseCommandLine.simps) simp
  then show ?thesis using assms(1) by (subst parseCommandLine.simps) (simp only: w all Let_def if_False)
qed

lemma word_then:
  assumes "w \<noteq> []" "\<forall>c \<in> set w. \<not> std_space c"
  shows "parseCommandLine (w @ CHR '' '' # s) = w # parseCommandLine s"
proof -
  have sp: "std_space (CHR '' '')" by (simp add: std_space_def)
  obtain c cs where w: "w = c # cs" using assms(1) by (cases w) auto
  have "dropWhile std_space (w @ CHR '' '' # s) = w @ CHR '' '' # s" using assms(2) w by simp
  moreover have "takeWhile (\<lambda>c. \<not> std_space c) (w @ CHR '' '' # s) = w"
    "dropWhile (\<lambda>c. \<not> std_space c) (w @ CHR '' '' # s) = CHR '' '' # s"
    using assms(2) sp by (auto simp: takeWhile_append2 takeWhile_eq_all_conv dropWhile_append)
  moreover have "parseCommandLine (CHR '' '' # s) = parseCommandLine s"
    by (subst (1 2) parseCommandLine.simps) (simp add: sp)
  ultimately show ?thesis using w by (subst parseCommandLine.simps) simp
qed

text \<open>A chunk boundary makes no difference to what is typed.\<close>

lemma telnet_bytes_append:
  "telnet_bytes (a @ b) lt =
     (case telnet_bytes a lt of
        Inl f \<Rightarrow> Inl f
      | Inr (out, lt') \<Rightarrow>
          (case telnet_bytes b lt' of Inl f \<Rightarrow> Inl f | Inr (more_out, lt'') \<Rightarrow> Inr (out @ more_out, lt'')))"
  by (induction a arbitrary: lt) (auto split: sum.splits prod.splits)

definition printable :: "char \<Rightarrow> bool" where
  "printable c \<longleftrightarrow> 32 \<le> (of_char c :: nat) \<and> (of_char c :: nat) \<le> 126"

lemma printable_not_control:
  "printable c \<Longrightarrow> c \<noteq> CHR 0x0D \<and> c \<noteq> CHR 0x0A \<and> c \<noteq> CHR 0x08 \<and> c \<noteq> CHR 0x7F"
  by (auto simp: printable_def)

lemma telnet_typed:
  "\<forall>c \<in> set s. printable c \<Longrightarrow> telnet_bytes s (line, te) = Inr (s, line @ s, te)"
proof (induction s arbitrary: line)
  case (Cons c s)
  then have "telnet_byte c (line, te) = Inr ([c], line @ [c], te)"
    using printable_not_control [of c] by (simp add: telnet_byte_def printable_def)
  then show ?case using Cons by simp
qed simp

text \<open>
  Whoever types \<open>help\<close> or \<open>list\<close> at a terminal never gets an answer: the listing locks the mutex that
  the execution of the command holds. This is so with any further commands, on a telnet
  connection and at the console.
\<close>

theorem help_never_answers:
  assumes "map_of (te_commands te) cmd = Some c" "ci_handler c \<in> {Builtin_help, Builtin_list}"
    and "cmd \<noteq> []" "\<forall>x \<in> set cmd. printable x \<and> \<not> std_space x"
  shows "fst (processCommand cmd te) = Inl Deadlock \<and>
    (\<forall>cs. telnet_bytes (cmd @ CHR 0x0D # cs) ([], te) = Inl Deadlock)"
proof -
  have "parseCommandLine cmd = [cmd]" using word_alone [of cmd] assms(3,4) by blast
  then have p: "processCommand cmd te = (Inl Deadlock, te)"
    using assms(1,2) by (auto simp: processCommand_def run_command_def helpCommand_def listCommand_def)
  have "telnet_bytes cmd ([], te) = Inr (cmd, cmd, te)"
    using telnet_typed [of cmd "[]" te] assms(4) by simp
  then show ?thesis using p assms(3) by (simp add: telnet_bytes_append telnet_byte_def)
qed

theorem help_never_answers_witness:
  "fst (processCommand ''help'' (TerminalInterface_ctor (\<lambda>_. []))) = Inl Deadlock"
proof -
  have "map_of (te_commands (TerminalInterface_ctor (\<lambda>_. []))) ''help'' =
      Some \<lparr>ci_name = ''help'', ci_description = [], ci_handler = Builtin_help\<rparr>"
    by (simp add: TerminalInterface_ctor_def registerBuiltinCommands_def registerCommand_def)
  moreover have "\<forall>x \<in> set ''help''. printable x \<and> \<not> std_space x"
    by (simp add: printable_def std_space_def)
  ultimately show ?thesis using help_never_answers [of _ "''help''"] by simp
qed

text \<open>After \<open>exit\<close> the thread objects are never joined, and destroying the terminal ends the process.\<close>

lemma exit_then_destroy_terminates:
  assumes "map_of (te_commands te) ''exit'' = Some c" "ci_handler c = Builtin_exit"
    and "te_running te" "te_stdio_thread te"
  shows "\<exists>te'. processCommand ''exit'' te = (Inr ''Goodbye!'', te') \<and> terminal_stop te' = te' \<and>
    terminal_destroy te' = Inl Thrown \<and> \<not> terminal_restart_ok te'"
proof -
  have "parseCommandLine ''exit'' = [''exit'']" by (rule word_alone) (simp_all add: std_space_def)
  then show ?thesis using assms
    by (simp add: processCommand_def run_command_def exitCommand_def terminal_stop_def terminal_destroy_def
        terminal_restart_ok_def)
qed

lemma stop_then_destroy_ok: "te_running te \<Longrightarrow> terminal_destroy te = Inr ()"
  by (simp add: terminal_destroy_def terminal_stop_def)

section \<open>Console and connections\<close>

definition executeCommand :: "string \<Rightarrow> terminal \<Rightarrow> (fault + string) \<times> terminal" where
  "executeCommand command_line te = processCommand command_line te"

definition setPrompt :: "string \<Rightarrow> terminal \<Rightarrow> terminal" where
  "setPrompt prompt te = te\<lparr>te_prompt := prompt\<rparr>"

text \<open>The console: a prompt before each line; it ends with the input or when the terminal is stopped.\<close>

fun stdio_run :: "string list \<Rightarrow> terminal \<Rightarrow> fault + string \<times> terminal" where
  "stdio_run [] te = Inr (if te_running te then te_prompt te else [], te)"
| "stdio_run (line # rest) te =
     (if \<not> te_running te then Inr ([], te)
      else if line = [] then map_sum id (map_prod ((@) (te_prompt te)) id) (stdio_run rest te)
      else case processCommand line te of
             (Inl f, te') \<Rightarrow> Inl f
           | (Inr result, te') \<Rightarrow>
               map_sum id (map_prod ((@) (te_prompt te @ (if result \<noteq> [] then result @ [CHR 0x0A] else []))) id) (stdio_run rest te'))"

text \<open>A connection, by the results of \<open>recv\<close>; the flag is looked at before each of them.\<close>

datatype recv_result = RecvBytes string | RecvInterrupted | RecvFailed | RecvClosed

fun telnet_session :: "recv_result list \<Rightarrow> string \<times> terminal \<Rightarrow> fault + string \<times> string \<times> terminal" where
  "telnet_session [] lt = Inr ([], lt)"
| "telnet_session (r # rs) lt =
     (if \<not> te_running (snd lt) then Inr ([], lt)
      else case r of
             RecvInterrupted \<Rightarrow> telnet_session rs lt
           | RecvFailed \<Rightarrow> Inr ([], lt)
           | RecvClosed \<Rightarrow> Inr ([], lt)
           | RecvBytes bs \<Rightarrow>
               (case telnet_bytes bs lt of
                  Inl f \<Rightarrow> Inl f
                | Inr (out, lt') \<Rightarrow> map_sum id (map_prod ((@) out) id) (telnet_session rs lt')))"

definition telnet_client :: "recv_result list \<Rightarrow> terminal \<Rightarrow> fault + string \<times> string \<times> terminal" where
  "telnet_client rs te =
     map_sum id (map_prod ((@) (''Welcome to iApp Terminal'' @ crlf @ te_prompt te)) id) (telnet_session rs ([], te))"

text \<open>The connections accepted, by the results of \<open>accept\<close>, each with the flag after the call; a failure is tried again.\<close>

fun telnet_accepts :: "(bool \<times> bool) list \<Rightarrow> nat" where
  "telnet_accepts [] = 0"
| "telnet_accepts ((accepted, running) # rs) =
     (if accepted then 1 else 0) + (if running then telnet_accepts rs else 0)"

definition telnetServerThread :: "bool \<Rightarrow> bool \<Rightarrow> bool \<Rightarrow> (bool \<times> bool) list \<Rightarrow> nat" where
  "telnetServerThread made bound listening rs = (if made \<and> bound \<and> listening then telnet_accepts rs else 0)"

lemma command_keeps_stopped: "processCommand s te = (r, te') \<Longrightarrow> te_running te' \<Longrightarrow> te_running te"
  by (auto simp: processCommand_def run_command_def exitCommand_def split: list.splits option.splits command_code.splits
      handler_result.splits)

lemma telnet_keeps_stopped: "telnet_bytes cs lt = Inr (out, line, te') \<Longrightarrow> te_running te' \<Longrightarrow> te_running (snd lt)"
proof (induction cs arbitrary: lt out)
  case (Cons c cs)
  obtain o1 l1 t1 where s: "telnet_byte c lt = Inr (o1, l1, t1)" "te_running t1"
    using Cons.prems Cons.IH by (fastforce split: sum.splits prod.splits)
  then show ?case
    by (cases lt) (auto simp: telnet_byte_def split: if_splits sum.splits prod.splits dest: command_keeps_stopped)
qed simp

text \<open>
  A connection runs the lines that are typed into it as the console does: with the same effect, and stopped
  by the same command.
\<close>

theorem telnet_like_console:
  assumes "\<forall>l \<in> set ls. \<forall>c \<in> set l. printable c" "te_running te"
    and "telnet_bytes (concat (map (\<lambda>l. l @ [CHR 0x0D]) ls)) ([], te) = Inr (out, line, te')" "te_running te'"
  shows "line = [] \<and> (\<exists>answer. stdio_run ls te = Inr (answer, te'))"
  using assms
proof (induction ls arbitrary: te out)
  case (Cons l ls)
  have typed: "telnet_bytes l ([], te) = Inr (l, l, te)" using telnet_typed [of l "[]" te] Cons.prems(1) by simp
  let ?more = "concat (map (\<lambda>l. l @ [CHR 0x0D]) ls)"
  show ?case
  proof (cases "l = []")
    case True
    then obtain o2 where "telnet_bytes ?more ([], te) = Inr (o2, line, te')"
      using Cons.prems(3) by (auto simp: telnet_byte_def split: sum.splits prod.splits)
    then show ?thesis using Cons.IH [of te o2] Cons.prems True by auto
  next
    case False
    obtain r te1 where p: "processCommand l te = (r, te1)" by force
    then obtain s where r: "r = Inr s" using Cons.prems(3) False
      by (cases r) (auto simp: telnet_bytes_append typed telnet_byte_def)
    then obtain o2 where m: "telnet_bytes ?more ([], te1) = Inr (o2, line, te')"
      using Cons.prems(3) False p by (auto simp: telnet_bytes_append typed telnet_byte_def split: sum.splits prod.splits)
    have "te_running te1" using telnet_keeps_stopped [OF m Cons.prems(4)] by simp
    then show ?thesis using Cons.IH [OF _ _ m Cons.prems(4)] Cons.prems(1,2) False p r by auto
  qed
qed simp

end
