(* ===== verification/AppCommands.thy ===== *)
theory AppCommands
  imports App Terminal
begin

text \<open>
  The commands that \<open>IApp\<close> adds to the terminal, its command line arguments with callbacks, its accessors, and
  the reactions to a configuration file that has changed (server/core/app/IApp.cpp). The JSON library's text
  and conversions, the file system and the answer of the service's \<open>onReload\<close> are arguments.
\<close>

record app_service =
  sv_app_name :: string
  sv_config :: config_manager
  sv_cmd :: cmd_parser
  sv_tick_interval_ms :: nat
  sv_running :: bool
  sv_should_reload :: bool

record app_world =
  aw_json_text :: "json \<Rightarrow> string"
  aw_get_string :: "json \<Rightarrow> string option"
  aw_limit :: nat
  aw_fs :: fs_answers
  aw_reloads :: bool

abbreviation eol :: string where "eol \<equiv> [CHR 0x0A]"

section \<open>Accessors\<close>

definition getTickInterval :: "app_service \<Rightarrow> nat" where
  "getTickInterval sv = sv_tick_interval_ms sv"

definition setTickInterval :: "nat \<Rightarrow> app_service \<Rightarrow> app_service" where
  "setTickInterval interval_ms sv = sv\<lparr>sv_tick_interval_ms := interval_ms\<rparr>"

definition app_saveConfig :: "app_world \<Rightarrow> app_service \<Rightarrow> fault + bool \<times> app_service" where
  "app_saveConfig aw sv =
     (case saveConfig (aw_fs aw) (cmd_getValue (sv_cmd sv) ''config'') (sv_config sv) of
        Inl f \<Rightarrow> Inl f
      | Inr (ok, cm, told_to) \<Rightarrow> Inr (ok, sv\<lparr>sv_config := cm\<rparr>))"

definition app_loadConfig :: "app_world \<Rightarrow> app_service \<Rightarrow> fault + bool \<times> app_service" where
  "app_loadConfig aw sv =
     (case loadConfig (aw_fs aw) (cmd_getValue (sv_cmd sv) ''config'') False (sv_config sv) of
        Inl f \<Rightarrow> Inl f
      | Inr (ok, cm, told_to) \<Rightarrow> Inr (ok, sv\<lparr>sv_config := cm\<rparr>))"

text \<open>The value is told to the callback at once, when there is one; the parser is not given the callback.\<close>

definition registerCommandLineArg :: "string \<Rightarrow> string \<Rightarrow> string \<Rightarrow> bool \<Rightarrow> cmd_parser \<Rightarrow> cmd_parser \<times> string option" where
  "registerCommandLineArg name description default_value callback cp =
     (let cp1 = registerArg name description default_value False cp;
          value = cmd_getValue cp1 name
      in (cp1, if callback \<and> value \<noteq> [] then Some value else None))"

text \<open>\<open>SIGTERM\<close> is 15, \<open>SIGINT\<close> 2, \<open>SIGHUP\<close> 1.\<close>

definition app_handleSignal :: "nat \<Rightarrow> app_service \<Rightarrow> app_service" where
  "app_handleSignal signal sv =
     (if signal = 15 \<or> signal = 2 then sv\<lparr>sv_running := False\<rparr>
      else if signal = 1 then sv\<lparr>sv_should_reload := True\<rparr> else sv)"

text \<open>The listener \<open>initialize\<close> registers with the configuration manager.\<close>

definition on_config_event :: "config_event \<Rightarrow> app_service \<Rightarrow> app_service" where
  "on_config_event ev sv = (if ev = CONFIG_RELOADED then sv\<lparr>sv_should_reload := True\<rparr> else sv)"

definition reload_test :: "bool \<Rightarrow> app_service \<Rightarrow> bool \<times> app_service" where
  "reload_test called sv = (if sv_should_reload sv then (called, sv\<lparr>sv_should_reload := False\<rparr>) else (False, sv))"

section \<open>Terminal commands\<close>

definition config_command :: "app_world \<Rightarrow> string list \<Rightarrow> app_service \<Rightarrow> fault + string \<times> app_service" where
  "config_command aw args sv =
     (case args of
        [] \<Rightarrow> Inr (''Current configuration:'' @ eol @ aw_json_text aw (cm_config_root (sv_config sv)), sv)
      | a # rest \<Rightarrow>
          if a = ''reload'' then
            Inr (if aw_reloads aw then ''Configuration reloaded successfully.'' @ eol else ''Failed to reload configuration.'' @ eol, sv)
          else if a = ''save'' then
            (case app_saveConfig aw sv of
               Inl f \<Rightarrow> Inl f
             | Inr (ok, sv1) \<Rightarrow>
                 Inr (if ok then ''Configuration saved successfully.'' @ eol else ''Failed to save configuration.'' @ eol, sv1))
          else if a = ''set'' \<and> 2 \<le> length rest then
            (case config_setValue (aw_limit aw) (rest ! 0) (JStr (str_bytes (rest ! 1))) True (sv_config sv) of
               Inl f \<Rightarrow> Inl f
             | Inr (u, cm, told_to) \<Rightarrow>
                 Inr (''Configuration updated: '' @ rest ! 0 @ '' = '' @ rest ! 1 @ eol, sv\<lparr>sv_config := cm\<rparr>))
          else if a = ''get'' \<and> 1 \<le> length rest then
            Inr (rest ! 0 @ '' = '' @ config_getValue (aw_get_string aw) (rest ! 0) ''not found'' (sv_config sv) @ eol, sv)
          else Inr (''Usage: config [reload|save|set <key> <value>|get <key>]'' @ eol, sv))"

abbreviation num_text :: "nat \<Rightarrow> string" where
  "num_text n \<equiv> bytes_str (to_string_nat n)"

definition status_command :: "app_service \<Rightarrow> string" where
  "status_command sv =
     ''Application status:'' @ eol @ ''Name: '' @ sv_app_name sv @ eol @
     ''Running: '' @ (if sv_running sv then ''yes'' else ''no'') @ eol @
     ''Tick interval: '' @ num_text (sv_tick_interval_ms sv) @ '' ms'' @ eol @
     ''Config file: '' @ cm_config_file_path (sv_config sv) @ eol"

definition stop_command :: "app_service \<Rightarrow> string \<times> app_service" where
  "stop_command sv = (''Stopping application...'' @ eol, sv\<lparr>sv_running := False\<rparr>)"

definition tick_command :: "string list \<Rightarrow> app_service \<Rightarrow> string \<times> app_service" where
  "tick_command args sv =
     (case args of
        [] \<Rightarrow> (''Current tick interval: '' @ num_text (sv_tick_interval_ms sv) @ '' ms'' @ eol, sv)
      | a # rest \<Rightarrow>
          (case std_stoi a of
             None \<Rightarrow> (''Invalid tick interval: '' @ a @ eol, sv)
           | Some new_interval \<Rightarrow>
               if new_interval \<le> 0 then (''Invalid tick interval: must be positive'' @ eol, sv)
               else let sv1 = setTickInterval (u32_of_int new_interval) sv
                    in (''Tick interval set to '' @ num_text (sv_tick_interval_ms sv1) @ '' ms'' @ eol, sv1)))"

text \<open>A command by its name, as \<open>initialize\<close> registers them; \<^term>\<open>None\<close> for another name.\<close>

definition app_command :: "app_world \<Rightarrow> string \<Rightarrow> string list \<Rightarrow> app_service \<Rightarrow> (fault + string \<times> app_service) option" where
  "app_command aw name args sv =
     (if name = ''config'' then Some (config_command aw args sv)
      else if name = ''status'' then Some (Inr (status_command sv, sv))
      else if name = ''stop'' then Some (Inr (stop_command sv))
      else if name = ''tick'' then Some (Inr (tick_command args sv))
      else None)"

section \<open>Properties\<close>

text \<open>
  The tick interval stays a positive number that fits an \<open>int\<close>, whatever is typed.
\<close>

theorem tick_command_positive:
  assumes "tick_command args sv = (answer, sv')" "0 < sv_tick_interval_ms sv" "sv_tick_interval_ms sv < 2 ^ 31"
  shows "0 < sv_tick_interval_ms sv' \<and> sv_tick_interval_ms sv' < 2 ^ 31"
proof (cases args)
  case (Cons a rest)
  show ?thesis
  proof (cases "std_stoi a")
    case (Some i)
    then have "i < 2 ^ 31" by (auto simp: std_stoi_def Let_def split: option.splits if_splits)
    then show ?thesis using assms Cons Some
      by (auto simp: tick_command_def setTickInterval_def u32_of_int_def split: if_splits)
  qed (use assms Cons in \<open>auto simp: tick_command_def\<close>)
qed (use assms in \<open>auto simp: tick_command_def\<close>)

text \<open>
  \<open>config set\<close> stores every value as a text: whatever number or truth value was configured under the key, and
  whatever is typed, reading it as one gives the default from then on. The answer is the same, even if
  nothing could be set.
\<close>

theorem console_set_hides_numbers:
  assumes "config_command aw [''set'', key, v] sv = Inr (answer, sv')"
    and "\<forall>s. conv (JStr s) = None"
  shows "answer = ''Configuration updated: '' @ key @ '' = '' @ v @ eol"
    and "fst (JsonParser_setValue (aw_limit aw) (cm_config_root (sv_config sv)) key (JStr (str_bytes v))) \<Longrightarrow>
      config_getValue conv key dflt (sv_config sv') = dflt"
proof -
  let ?set = "JsonParser_setValue (aw_limit aw) (cm_config_root (sv_config sv)) key (JStr (str_bytes v))"
  have r: "answer = ''Configuration updated: '' @ key @ '' = '' @ v @ eol"
    "cm_config_root (sv_config sv') = snd ?set"
    using assms(1) by (auto simp: config_command_def config_setValue_def cfg_fire_def fireEvent_def Let_def
        split: sum.splits if_splits)
  then show "answer = ''Configuration updated: '' @ key @ '' = '' @ v @ eol" by simp
  assume "fst ?set"
  then have "json_set (aw_limit aw) (parseKeyPath key) (JStr (str_bytes v)) (cm_config_root (sv_config sv)) =
      (True, cm_config_root (sv_config sv'))"
    using r(2) by (simp add: JsonParser_setValue_def prod_eq_iff)
  then have "json_at (parseKeyPath key) (cm_config_root (sv_config sv')) = Some (JStr (str_bytes v))" by (rule json_set_at)
  then show "config_getValue conv key dflt (sv_config sv') = dflt"
    using assms(2) by (simp add: config_getValue_def JsonParser_getValue_def getConstJsonRef_def)
qed

text \<open>
  A callback registered for an argument before the start is told the default, and is not called when the
  argument is given on the command line.
\<close>

theorem callback_never_told:
  assumes "registerCommandLineArg name description dflt True cp = (cp1, told)" "CHR '','' \<notin> set name" "name \<noteq> []"
    and "cmd_parse cp1 (prog # args) = Some (cp2, told_to)"
  shows "told = (if dflt = [] then None else Some dflt)" "name \<notin> fst ` set told_to"
proof -
  have cp1: "cp1 = registerArg name description dflt False cp" and told: "told = (let v = cmd_getValue cp1 name in if v \<noteq> [] then Some v else None)"
    using assms(1) by (auto simp: registerCommandLineArg_def Let_def)
  have c: "cut (CHR '','') name = None" using assms(2) by (simp add: cut_def)
  have v: "map_of (cp_args cp1) name = Some \<lparr>ai_name = name, ai_description = description, ai_default_value = dflt,
      ai_value = dflt, ai_callback = False\<rparr>" "map_of (cp_values cp1) name = Some dflt"
    by (simp_all add: cp1 registerArg_def c)
  then show "told = (if dflt = [] then None else Some dflt)"
    using assms(3) by (simp add: told cmd_getValue_def findCanonicalName_def)
  have keep: "cp_args (parse_args cp' args) = cp_args cp'" for cp'
  proof (induction cp' args rule: parse_args.induct)
    case (2 cp' arg rest)
    have "cp_args (fst (parseArg cp' arg rest)) = cp_args cp'"
      by (simp add: parseArg_def Let_def split: option.split list.split prod.split)
    then show ?case using 2 by (auto simp: case_prod_beta)
  qed simp
  have "map_of (cp_args cp2) name = map_of (cp_args cp1) name" "told_to = filter (\<lambda>(n, v). case map_of (cp_args cp2) n of
      Some info \<Rightarrow> ai_callback info | None \<Rightarrow> False) (cp_values cp2)"
    using assms(4) keep by (auto simp: cmd_parse_def Let_def)
  then show "name \<notin> fst ` set told_to" using v(1) by auto
qed

end
