(* ===== verification/Signals.thy ===== *)
theory Signals
  imports StdText
begin

text \<open>
  \<open>SignalHandler\<close> (src/server/core/app/SignalHandler.h, SignalHandler.cpp): the handlers of signals, run
  where the signal arrives or later by a thread that takes them from a queue.  What a handler does
  is a number, its effect belongs to whoever registered it; system calls and logging are left out.
\<close>

section \<open>State\<close>

datatype disposition = Default | Ignored | Installed

text \<open>Where the handler thread is: not started, in \<open>popSignal\<close> with the mutex held, waiting there, running a handler.\<close>

datatype handler_pc = NotStarted | InPop | InWait | InHandler nat | HandlerGone

record signal_handler =
  sh_handlers :: "nat \<rightharpoonup> nat"
  sh_async_signals :: "nat set"
  sh_signal_queue :: "nat list"
  sh_running :: bool
  sh_in_signal_context :: bool
  sh_global_exit_flag :: bool
  sh_disposition :: "nat \<Rightarrow> disposition"
  sh_thread :: handler_pc
  sh_ran :: "(nat \<times> nat) list"

definition SIGNAL_QUEUE_SIZE :: nat where "SIGNAL_QUEUE_SIZE = 100"

definition SignalHandler_ctor :: signal_handler where
  "SignalHandler_ctor = \<lparr>sh_handlers = Map.empty, sh_async_signals = {}, sh_signal_queue = [],
     sh_running = False, sh_in_signal_context = False, sh_global_exit_flag = False,
     sh_disposition = (\<lambda>_. Default), sh_thread = NotStarted, sh_ran = []\<rparr>"

section \<open>Operations\<close>

definition handler_start :: "signal_handler \<Rightarrow> signal_handler" where
  "handler_start sh = (if sh_running sh then sh else sh\<lparr>sh_running := True, sh_thread := InPop\<rparr>)"

definition installSignalHandler :: "nat \<Rightarrow> signal_handler \<Rightarrow> signal_handler" where
  "installSignalHandler n sh = sh\<lparr>sh_disposition := (sh_disposition sh)(n := Installed)\<rparr>"

definition resetSignalToDefault :: "nat \<Rightarrow> signal_handler \<Rightarrow> signal_handler" where
  "resetSignalToDefault n sh = sh\<lparr>sh_disposition := (sh_disposition sh)(n := Default)\<rparr>"

definition ignoreSignal :: "nat \<Rightarrow> signal_handler \<Rightarrow> signal_handler" where
  "ignoreSignal n sh = sh\<lparr>sh_disposition := (sh_disposition sh)(n := Ignored)\<rparr>"

text \<open>An empty \<open>std::function\<close> is \<^term>\<open>None\<close>.\<close>

definition registerHandler :: "nat \<Rightarrow> nat option \<Rightarrow> bool \<Rightarrow> signal_handler \<Rightarrow> bool \<times> signal_handler" where
  "registerHandler n handler is_async sh =
     (case handler of
        None \<Rightarrow> (False, sh)
      | Some h \<Rightarrow>
          (True, installSignalHandler n
             (sh\<lparr>sh_handlers := (sh_handlers sh)(n \<mapsto> h),
                 sh_async_signals := (if is_async then insert n (sh_async_signals sh)
                                      else sh_async_signals sh - {n})\<rparr>)))"

definition removeHandler :: "nat \<Rightarrow> signal_handler \<Rightarrow> bool \<times> signal_handler" where
  "removeHandler n sh =
     (if sh_handlers sh n = None then (False, sh)
      else (True, resetSignalToDefault n
             (sh\<lparr>sh_handlers := (sh_handlers sh)(n := None), sh_async_signals := sh_async_signals sh - {n}\<rparr>)))"

text \<open>The signals of \<open>initialize\<close>: TERM 15, INT 2, HUP 1, USR1 10, USR2 12, CHLD 17, PIPE 13.\<close>

definition SignalHandler_initialize :: "(nat \<Rightarrow> nat) \<Rightarrow> signal_handler \<Rightarrow> signal_handler" where
  "SignalHandler_initialize h sh =
     (ignoreSignal 13 \<circ>
      snd \<circ> registerHandler 17 (Some (h 17)) False \<circ>
      snd \<circ> registerHandler 12 (Some (h 12)) True \<circ>
      snd \<circ> registerHandler 10 (Some (h 10)) True \<circ>
      snd \<circ> registerHandler 1 (Some (h 1)) True \<circ>
      snd \<circ> registerHandler 2 (Some (h 2)) False \<circ>
      snd \<circ> registerHandler 15 (Some (h 15)) False \<circ>
      handler_start) sh"

text \<open>
  \<open>pushSignal\<close> locks \<open>signal_mutex\<close>. \<open>held_here\<close> says that the thread on which the signal arrives holds it.
  \<open>signal_cv.notify_one\<close> lets a waiting handler thread take the mutex.
\<close>

definition pushSignal :: "bool \<Rightarrow> nat \<Rightarrow> signal_handler \<Rightarrow> fault + signal_handler" where
  "pushSignal held_here n sh =
     (if held_here then Inl Deadlock
      else if length (sh_signal_queue sh) < SIGNAL_QUEUE_SIZE
      then Inr (sh\<lparr>sh_signal_queue := sh_signal_queue sh @ [n],
                   sh_thread := (if sh_thread sh = InWait then InPop else sh_thread sh)\<rparr>)
      else Inr sh)"

definition handleSignalSync :: "nat \<Rightarrow> signal_handler \<Rightarrow> signal_handler" where
  "handleSignalSync n sh =
     (case sh_handlers sh n of
        Some h \<Rightarrow> sh\<lparr>sh_ran := sh_ran sh @ [(n, h)], sh_in_signal_context := False\<rparr>
      | None \<Rightarrow> sh\<lparr>sh_in_signal_context := False\<rparr>)"

definition handleSignal :: "bool \<Rightarrow> nat \<Rightarrow> signal_handler \<Rightarrow> fault + signal_handler" where
  "handleSignal held_here n sh =
     (if n \<in> sh_async_signals sh then pushSignal held_here n sh else Inr (handleSignalSync n sh))"

text \<open>One step of the handler thread: \<open>popSignal\<close> and the handler it found.\<close>

definition handler_thread :: "signal_handler \<Rightarrow> signal_handler option" where
  "handler_thread sh =
     (case sh_thread sh of
        InPop \<Rightarrow>
          (if \<not> sh_running sh then Some (sh\<lparr>sh_thread := HandlerGone\<rparr>)
           else case sh_signal_queue sh of
             [] \<Rightarrow> Some (sh\<lparr>sh_thread := InWait\<rparr>)
           | n # q \<Rightarrow> Some (sh\<lparr>sh_signal_queue := q, sh_thread := InHandler n\<rparr>))
      | InHandler n \<Rightarrow>
          (case sh_handlers sh n of
             Some h \<Rightarrow> Some (sh\<lparr>sh_ran := sh_ran sh @ [(n, h)], sh_thread := InPop\<rparr>)
           | None \<Rightarrow> Some (sh\<lparr>sh_thread := InPop\<rparr>))
      | _ \<Rightarrow> None)"

definition handler_stop :: "signal_handler \<Rightarrow> signal_handler" where
  "handler_stop sh =
     (if sh_running sh
      then sh\<lparr>sh_running := False, sh_thread := (if sh_thread sh = InWait then InPop else sh_thread sh)\<rparr> else sh)"

definition signal_names :: "string list" where
  "signal_names =
     [''SIGHUP'', ''SIGINT'', ''SIGQUIT'', ''SIGILL'', ''SIGTRAP'', ''SIGABRT'', ''SIGBUS'', ''SIGFPE'',
      ''SIGKILL'', ''SIGUSR1'', ''SIGSEGV'', ''SIGUSR2'', ''SIGPIPE'', ''SIGALRM'', ''SIGTERM'', ''SIGSTKFLT'',
      ''SIGCHLD'', ''SIGCONT'', ''SIGSTOP'', ''SIGTSTP'', ''SIGTTIN'', ''SIGTTOU'', ''SIGURG'', ''SIGXCPU'',
      ''SIGXFSZ'', ''SIGVTALRM'', ''SIGPROF'', ''SIGWINCH'', ''SIGIO'', ''SIGPWR'', ''SIGSYS'']"

definition getSignalName :: "nat \<Rightarrow> string" where
  "getSignalName n =
     (if 1 \<le> n \<and> n \<le> length signal_names then signal_names ! (n - 1)
      else ''UNKNOWN('' @ bytes_str (to_string_nat n) @ '')'')"

section \<open>The queue\<close>

text \<open>What was handled, is being handled and waits: a queue that is not full keeps the order of arrival.\<close>

definition signals_seen :: "signal_handler \<Rightarrow> nat list" where
  "signals_seen sh = map fst (sh_ran sh) @
     (case sh_thread sh of InHandler n \<Rightarrow> [n] | _ \<Rightarrow> []) @ sh_signal_queue sh"

lemma push_seen:
  "pushSignal False n sh = Inr sh' \<Longrightarrow>
   signals_seen sh' = (if length (sh_signal_queue sh) < SIGNAL_QUEUE_SIZE then signals_seen sh @ [n] else signals_seen sh)"
  by (auto simp: pushSignal_def signals_seen_def split: handler_pc.splits if_splits)

lemma thread_seen:
  "handler_thread sh = Some sh' \<Longrightarrow> sh_running sh \<Longrightarrow> \<forall>n. sh_thread sh = InHandler n \<longrightarrow> sh_handlers sh n \<noteq> None \<Longrightarrow>
   signals_seen sh' = signals_seen sh"
  by (auto simp: handler_thread_def signals_seen_def split: handler_pc.splits list.splits option.splits if_splits)

lemma queue_bounded:
  "handleSignal b n sh = Inr sh' \<Longrightarrow> length (sh_signal_queue sh) \<le> SIGNAL_QUEUE_SIZE \<Longrightarrow>
   length (sh_signal_queue sh') \<le> SIGNAL_QUEUE_SIZE"
  by (auto simp: handleSignal_def pushSignal_def handleSignalSync_def split: option.splits if_splits)

text \<open>
  A signal that arrives on the handler thread while it is in \<open>popSignal\<close> finds the mutex held by its own
  thread, if it is one that is queued.
\<close>

lemma signal_in_pop_deadlocks:
  assumes "n \<in> sh_async_signals sh" "sh_thread sh = InPop"
  shows "handleSignal (sh_thread sh = InPop) n sh = Inl Deadlock"
  using assms by (simp add: handleSignal_def pushSignal_def)

lemma initialize_queues_hangup:
  "sh_async_signals (SignalHandler_initialize h SignalHandler_ctor) = {1, 10, 12} \<and>
   sh_disposition (SignalHandler_initialize h SignalHandler_ctor) 13 = Ignored \<and>
   sh_thread (SignalHandler_initialize h SignalHandler_ctor) = InPop"
  by (auto simp: SignalHandler_initialize_def SignalHandler_ctor_def registerHandler_def handler_start_def
      ignoreSignal_def installSignalHandler_def)

section \<open>Masks, waiting and destruction\<close>

text \<open>The signals blocked for the thread. A system call that fails changes nothing.\<close>

definition blockSignal :: "bool \<Rightarrow> nat \<Rightarrow> nat set \<Rightarrow> bool \<times> nat set" where
  "blockSignal ok n blocked = (ok, if ok then insert n blocked else blocked)"

definition unblockSignal :: "bool \<Rightarrow> nat \<Rightarrow> nat set \<Rightarrow> bool \<times> nat set" where
  "unblockSignal ok n blocked = (ok, if ok then blocked - {n} else blocked)"

text \<open>What \<open>sigtimedwait\<close> or \<open>sigwaitinfo\<close> answers, given the mask in force and the longest wait, if there is one.\<close>

datatype wait_answer = Arrived nat | TimedOut | WaitFailed

definition waitForAnySignal :: "bool \<Rightarrow> (nat set \<Rightarrow> wait_answer) \<Rightarrow> nat set \<Rightarrow> nat set \<Rightarrow> int \<times> nat set" where
  "waitForAnySignal masked answer all blocked =
     (if \<not> masked then (-1, blocked)
      else (case answer (blocked \<union> all) of Arrived n \<Rightarrow> int n | _ \<Rightarrow> -1, blocked))"

definition waitForSignals ::
  "bool \<Rightarrow> (nat set \<Rightarrow> (int \<times> int) option \<Rightarrow> wait_answer) \<Rightarrow> nat set \<Rightarrow> int \<Rightarrow> nat set \<Rightarrow> int \<times> nat set" where
  "waitForSignals masked answer signals timeout_ms blocked =
     (if signals = {} \<or> \<not> masked then (-2, blocked)
      else let timeout = (if timeout_ms > 0 then Some (timeout_ms div 1000, timeout_ms mod 1000 * 1000000) else None)
           in (case answer (blocked \<union> signals) timeout of Arrived n \<Rightarrow> int n | TimedOut \<Rightarrow> -1 | WaitFailed \<Rightarrow> -2, blocked))"

definition is_reliable :: "int \<Rightarrow> int \<Rightarrow> int \<Rightarrow> bool" where
  "is_reliable sigrtmin sigrtmax n \<longleftrightarrow> sigrtmin \<le> n \<and> n \<le> sigrtmax"

text \<open>The handler installed with the system; \<^term>\<open>None\<close> is a destroyed object.\<close>

definition globalSignalHandler :: "bool \<Rightarrow> nat \<Rightarrow> signal_handler option \<Rightarrow> fault + signal_handler option" where
  "globalSignalHandler held_here n inst =
     (case inst of None \<Rightarrow> Inr None | Some sh \<Rightarrow> map_sum id Some (handleSignal held_here n sh))"

definition SignalHandler_dtor :: "signal_handler \<Rightarrow> signal_handler" where
  "SignalHandler_dtor sh =
     (let sh1 = handler_stop sh
      in sh1\<lparr>sh_disposition := (\<lambda>n. if sh_handlers sh1 n \<noteq> None then Default else sh_disposition sh1 n)\<rparr>)"

datatype signal_op = DoRegister nat "nat option" bool | DoRemove nat | DoIgnore nat | DoReset nat | DoHandle nat | DoThread

definition signal_apply :: "signal_op \<Rightarrow> signal_handler \<Rightarrow> signal_handler" where
  "signal_apply opn sh =
     (case opn of
        DoRegister n h a \<Rightarrow> snd (registerHandler n h a sh)
      | DoRemove n \<Rightarrow> snd (removeHandler n sh)
      | DoIgnore n \<Rightarrow> ignoreSignal n sh
      | DoReset n \<Rightarrow> resetSignalToDefault n sh
      | DoHandle n \<Rightarrow> (case handleSignal False n sh of Inl f \<Rightarrow> sh | Inr sh' \<Rightarrow> sh')
      | DoThread \<Rightarrow> (case handler_thread sh of None \<Rightarrow> sh | Some sh' \<Rightarrow> sh'))"

definition installed_registered :: "signal_handler \<Rightarrow> bool" where
  "installed_registered sh \<longleftrightarrow> (\<forall>n. sh_disposition sh n = Installed \<longrightarrow> sh_handlers sh n \<noteq> None)"

lemma installed_kept: "installed_registered sh \<Longrightarrow> installed_registered (signal_apply opn sh)"
proof (cases opn)
  case (DoHandle n)
  then show "installed_registered sh \<Longrightarrow> ?thesis"
    by (auto simp: signal_apply_def installed_registered_def handleSignal_def pushSignal_def handleSignalSync_def
        split: option.split)
next
  case DoThread
  then show "installed_registered sh \<Longrightarrow> ?thesis"
    by (simp add: signal_apply_def installed_registered_def handler_thread_def split: option.split handler_pc.split list.split)
qed (auto simp: signal_apply_def installed_registered_def registerHandler_def removeHandler_def ignoreSignal_def
    resetSignalToDefault_def installSignalHandler_def split: option.split)

lemma installed_initialize: "installed_registered (SignalHandler_initialize h SignalHandler_ctor)"
  by (auto simp: installed_registered_def SignalHandler_initialize_def registerHandler_def ignoreSignal_def
      installSignalHandler_def handler_start_def SignalHandler_ctor_def)

text \<open>
  Whatever was registered, removed, ignored and delivered before, after the object is destroyed no signal of the
  process is directed to it any more; a signal it had ignored stays ignored.
\<close>

theorem destroyed_gets_no_signal:
  assumes "sh = fold signal_apply ops (SignalHandler_initialize h SignalHandler_ctor)"
  shows "sh_disposition (SignalHandler_dtor sh) n \<noteq> Installed"
    and "sh_disposition sh n = Ignored \<and> sh_handlers sh n = None \<Longrightarrow> sh_disposition (SignalHandler_dtor sh) n = Ignored"
proof -
  have "installed_registered (fold signal_apply ops s)" if "installed_registered s" for s
    using that by (induction ops arbitrary: s) (auto intro: installed_kept)
  then have i: "installed_registered sh" using installed_initialize assms by blast
  have stop: "sh_handlers (handler_stop sh) = sh_handlers sh" "sh_disposition (handler_stop sh) = sh_disposition sh"
    by (simp_all add: handler_stop_def)
  show "sh_disposition (SignalHandler_dtor sh) n \<noteq> Installed"
    using i by (cases "sh_handlers sh n") (auto simp: SignalHandler_dtor_def stop installed_registered_def Let_def)
  show "sh_disposition sh n = Ignored \<and> sh_handlers sh n = None \<Longrightarrow> sh_disposition (SignalHandler_dtor sh) n = Ignored"
    by (simp add: SignalHandler_dtor_def stop Let_def)
qed

end
