(* ===== verification/Client.thy ===== *)
theory Client
  imports Connection StdText
begin

text \<open>
  The test client of the gateway (server/client/main.cpp) and its older packet class (server/client/NetPack.h,
  NetPack.cpp). What generated code serialises and parses is an argument; the socket is the results of its next
  calls of \<open>send\<close>, what it has sent, and the pieces in which the server's bytes will be received.
\<close>

section \<open>Client\<close>

definition kFrameOverhead :: nat where "kFrameOverhead = 18 + 2 + 2 + 8 + 8 + 16 + 16"
definition kMagicVersion :: nat where "kMagicVersion = 1"
definition kTypeC2S :: nat where "kTypeC2S = 1"
definition kMsgHeartBeat :: nat where "kMsgHeartBeat = 0"
definition kMsgApplyToken :: nat where "kMsgApplyToken = 1"
definition kMsgAuth :: nat where "kMsgAuth = 2"
definition kTestAccount :: string where "kTestAccount = ''test_user_1''"

text \<open>
  A result of \<open>send\<close> is the number of bytes taken, or an error; without one left it takes all. A received piece that
  is empty is the end of the stream, and with none left \<open>recv\<close> times out.
\<close>

record client =
  cl_connected :: bool
  cl_seq :: nat
  cl_sends :: "nat option list"
  cl_out :: "8 word list"
  cl_in :: "8 word list list"

record protocol =
  pr_apply_request :: "string \<Rightarrow> 8 word list"
  pr_auth_request :: "string \<Rightarrow> 8 word list"
  pr_heart_request :: "8 word list"
  pr_apply_response :: "8 word list \<Rightarrow> (int \<times> string) option"
  pr_auth_response :: "8 word list \<Rightarrow> int option"
  pr_heart_response :: "8 word list \<Rightarrow> int option"
  pr_success :: int

definition ConndClient_ctor :: client where
  "ConndClient_ctor = \<lparr>cl_connected = False, cl_seq = 0, cl_sends = [], cl_out = [], cl_in = []\<rparr>"

text \<open>\<open>connect\<close>: \<^term>\<open>None\<close> if a system call fails, otherwise the pieces the server will send.\<close>

definition client_connect :: "8 word list list option \<Rightarrow> client \<Rightarrow> bool \<times> client" where
  "client_connect answer cl =
     (case answer of
        None \<Rightarrow> (False, cl\<lparr>cl_connected := False\<rparr>)
      | Some pieces \<Rightarrow> (True, cl\<lparr>cl_connected := True, cl_out := [], cl_in := pieces\<rparr>))"

definition client_disconnect :: "client \<Rightarrow> client" where
  "client_disconnect cl = cl\<lparr>cl_connected := False\<rparr>"

section \<open>Frames\<close>

definition client_frame :: "nat \<Rightarrow> nat \<Rightarrow> 8 word list \<Rightarrow> 8 word list" where
  "client_frame seq msg_id body =
     le_bytes 1 kMagicVersion @ le_bytes 1 kTypeC2S @ le_bytes 4 (kFrameOverhead + length body) @ le_bytes 4 seq @
     le_bytes 8 0 @ le_bytes 2 msg_id @ le_bytes 2 (length body mod 2 ^ 16) @ le_bytes 8 0 @ le_bytes 8 0 @
     replicate 16 0 @ replicate 16 0 @ body"

text \<open>\<open>sendPack\<close> takes any result that is no error for success. A total beyond 32 bits would be written past the frame.\<close>

definition sendPack :: "nat \<Rightarrow> 8 word list \<Rightarrow> client \<Rightarrow> fault + bool \<times> client" where
  "sendPack msg_id body cl =
     (if 2 ^ 32 \<le> kFrameOverhead + length body then Inl Undefined
      else let seq = u32_add (cl_seq cl) 1;
               frame = client_frame seq msg_id body;
               cl1 = cl\<lparr>cl_seq := seq\<rparr>
           in case cl_sends cl1 of
                [] \<Rightarrow> Inr (True, cl1\<lparr>cl_out := cl_out cl1 @ frame\<rparr>)
              | None # rs \<Rightarrow> Inr (False, cl1\<lparr>cl_sends := rs\<rparr>)
              | Some k # rs \<Rightarrow> Inr (True, cl1\<lparr>cl_sends := rs, cl_out := cl_out cl1 @ take k frame\<rparr>))"

fun recvExact :: "nat \<Rightarrow> 8 word list list \<Rightarrow> 8 word list \<times> 8 word list list \<times> bool" where
  "recvExact n [] = ([], [], n = 0)"
| "recvExact n (c # cs) =
     (if n = 0 then ([], c # cs, True)
      else if c = [] then ([], cs, False)
      else if n < length c then (take n c, drop n c # cs, True)
      else let (d, cs', ok) = recvExact (n - length c) cs in (c @ d, cs', ok))"

definition recvPack :: "client \<Rightarrow> (nat \<times> 8 word list) option \<times> client" where
  "recvPack cl =
     (case recvExact kFrameOverhead (cl_in cl) of
        (buf, cs, False) \<Rightarrow> (None, cl\<lparr>cl_in := cs\<rparr>)
      | (buf, cs, True) \<Rightarrow>
          if field 0 1 buf \<noteq> kMagicVersion then (None, cl\<lparr>cl_in := cs\<rparr>)
          else let dlen = field 20 2 buf in
               case recvExact dlen cs of
                 (data, cs1, False) \<Rightarrow> (None, cl\<lparr>cl_in := cs1\<rparr>)
               | (data, cs1, True) \<Rightarrow>
                   let declared_total = field 2 4 buf; expected_total = kFrameOverhead + dlen;
                       cs2 = (if declared_total > expected_total then fst (snd (recvExact (declared_total - expected_total) cs1)) else cs1)
                   in (Some (field 18 2 buf, data), cl\<lparr>cl_in := cs2\<rparr>))"

section \<open>Requests\<close>

text \<open>A request and its answer, which must carry the same message id where that is looked at.\<close>

definition request :: "bool \<Rightarrow> nat \<Rightarrow> 8 word list \<Rightarrow> client \<Rightarrow> fault + 8 word list option \<times> client" where
  "request check_id msg_id body cl =
     (case sendPack msg_id body cl of
        Inl f \<Rightarrow> Inl f
      | Inr (False, cl1) \<Rightarrow> Inr (None, cl1)
      | Inr (True, cl1) \<Rightarrow>
          (case recvPack cl1 of
             (None, cl2) \<Rightarrow> Inr (None, cl2)
           | (Some (i, data), cl2) \<Rightarrow> Inr (if check_id \<and> i \<noteq> msg_id then None else Some data, cl2)))"

definition applyToken :: "protocol \<Rightarrow> string \<Rightarrow> client \<Rightarrow> fault + string option \<times> client" where
  "applyToken pr account cl =
     (case request True kMsgApplyToken (pr_apply_request pr account) cl of
        Inl f \<Rightarrow> Inl f
      | Inr (None, cl1) \<Rightarrow> Inr (None, cl1)
      | Inr (Some data, cl1) \<Rightarrow>
          (case pr_apply_response pr data of
             None \<Rightarrow> Inr (None, cl1)
           | Some (err, token) \<Rightarrow> Inr (if err \<noteq> pr_success pr then None else Some token, cl1)))"

definition client_auth :: "protocol \<Rightarrow> string \<Rightarrow> client \<Rightarrow> fault + bool \<times> client" where
  "client_auth pr token cl =
     (case request True kMsgAuth (pr_auth_request pr token) cl of
        Inl f \<Rightarrow> Inl f
      | Inr (None, cl1) \<Rightarrow> Inr (False, cl1)
      | Inr (Some data, cl1) \<Rightarrow> Inr (pr_auth_response pr data = Some (pr_success pr), cl1))"

definition client_login :: "protocol \<Rightarrow> string \<Rightarrow> client \<Rightarrow> fault + bool \<times> client" where
  "client_login pr account cl =
     (case applyToken pr account cl of
        Inl f \<Rightarrow> Inl f
      | Inr (None, cl1) \<Rightarrow> Inr (False, cl1)
      | Inr (Some token, cl1) \<Rightarrow> client_auth pr token cl1)"

text \<open>A heartbeat looks neither at the id of the answer nor at whether it could be parsed.\<close>

definition client_heart :: "protocol \<Rightarrow> client \<Rightarrow> fault + bool \<times> client" where
  "client_heart pr cl =
     (case request False kMsgHeartBeat (pr_heart_request pr) cl of
        Inl f \<Rightarrow> Inl f
      | Inr (None, cl1) \<Rightarrow> Inr (False, cl1)
      | Inr (Some data, cl1) \<Rightarrow> Inr (pr_heart_response pr data = Some 1, cl1))"

fun hearts :: "nat \<Rightarrow> protocol \<Rightarrow> client \<Rightarrow> fault + client" where
  "hearts 0 pr cl = Inr cl"
| "hearts (Suc k) pr cl = (case client_heart pr cl of Inl f \<Rightarrow> Inl f | Inr (ok, cl1) \<Rightarrow> hearts k pr cl1)"

definition autoTest :: "8 word list list option \<Rightarrow> protocol \<Rightarrow> client \<Rightarrow> fault + client" where
  "autoTest answer pr cl =
     (case client_connect answer cl of
        (False, cl1) \<Rightarrow> Inr cl1
      | (True, cl1) \<Rightarrow>
          (case client_login pr kTestAccount cl1 of
             Inl f \<Rightarrow> Inl f
           | Inr (False, cl2) \<Rightarrow> Inr (client_disconnect cl2)
           | Inr (True, cl2) \<Rightarrow> map_sum id client_disconnect (hearts 3 pr cl2)))"

text \<open>One line of the interactive mode, read as words; \<^term>\<open>None\<close> on the right ends it.\<close>

definition repl_line :: "8 word list list option \<Rightarrow> protocol \<Rightarrow> string list \<Rightarrow> client \<Rightarrow> fault + client option" where
  "repl_line answer pr ws cl =
     (case ws of
        [] \<Rightarrow> Inr (Some cl)
      | cmd # args \<Rightarrow>
          if cmd = ''quit'' \<or> cmd = ''exit'' \<or> cmd = ''q'' then Inr None
          else if cmd = ''connect'' then Inr (Some (if cl_connected cl then cl else snd (client_connect answer cl)))
          else if cmd = ''disconnect'' then Inr (Some (client_disconnect cl))
          else if cmd = ''login'' then
            (if \<not> cl_connected cl then Inr (Some cl)
             else map_sum id (Some \<circ> snd) (client_login pr (if args = [] then kTestAccount else hd args) cl))
          else if cmd = ''auth'' then
            (if \<not> cl_connected cl \<or> args = [] then Inr (Some cl)
             else map_sum id (Some \<circ> snd) (client_auth pr (hd args) cl))
          else if cmd = ''heart'' then
            (if \<not> cl_connected cl then Inr (Some cl) else map_sum id (Some \<circ> snd) (client_heart pr cl))
          else Inr (Some cl))"

text \<open>The options: interactive, host and port, or the help screen; a port that is no number throws.\<close>

fun client_args :: "string list \<Rightarrow> bool \<times> string \<times> int \<Rightarrow> fault + (bool \<times> string \<times> int) option" where
  "client_args [] (i, h, p) = Inr (Some (i, h, p))"
| "client_args (arg # rest) (i, h, p) =
     (if arg = ''-i'' then client_args rest (True, h, p)
      else if arg = ''-h'' \<and> rest \<noteq> [] then client_args (tl rest) (i, hd rest, p)
      else if arg = ''-p'' \<and> rest \<noteq> [] then
        (case std_stoi (hd rest) of None \<Rightarrow> Inl Thrown | Some n \<Rightarrow> client_args (tl rest) (i, h, n))
      else if arg = ''--help'' \<or> arg = ''-?'' then Inr None
      else client_args rest (i, h, p))"

section \<open>NetPack\<close>

record net_pack =
  np_len :: "32 word"
  np_seq :: "32 word"
  np_msg_id :: "32 word"
  np_conn_id :: "64 word"
  np_uid :: "64 word"
  np_flag :: "8 word"
  np_msg :: "8 word list"

abbreviation word_bytes :: "nat \<Rightarrow> 'a::len word \<Rightarrow> 8 word list" where
  "word_bytes k w \<equiv> le_bytes k (unat w)"

definition NetPack_serialize :: "net_pack \<Rightarrow> 8 word list" where
  "NetPack_serialize p =
     le_bytes 4 ((29 + length (np_msg p)) mod 2 ^ 32) @ word_bytes 4 (np_seq p) @ word_bytes 4 (np_msg_id p) @
     word_bytes 8 (np_conn_id p) @ word_bytes 8 (np_uid p) @ word_bytes 1 (np_flag p) @ np_msg p"

definition NetPack_deserialize :: "64 word \<Rightarrow> 8 word list \<Rightarrow> net_pack \<Rightarrow> net_pack" where
  "NetPack_deserialize conn_id data p =
     (if length data < 4 * 3 + 8 * 2 + 1 then p
      else \<lparr>np_len = of_nat (field 0 4 data), np_seq = of_nat (field 4 4 data), np_msg_id = of_nat (field 8 4 data),
            np_conn_id = conn_id, np_uid = of_nat (field 20 8 data), np_flag = of_nat (field 28 1 data),
            np_msg = drop 29 data\<rparr>)"

section \<open>Properties\<close>

lemma recvExact_cut:
  "[] \<notin> set cs \<Longrightarrow> n \<le> length (concat cs) \<Longrightarrow>
   \<exists>cs'. recvExact n cs = (take n (concat cs), cs', True) \<and> concat cs' = drop n (concat cs) \<and> [] \<notin> set cs'"
proof (induction cs arbitrary: n)
  case (Cons c cs)
  show ?case
  proof (cases "n < length c")
    case True
    then show ?thesis using Cons.prems by (cases "n = 0") auto
  next
    case False
    have "n - length c \<le> length (concat cs)" "[] \<notin> set cs" using Cons.prems by auto
    then obtain cs' where "recvExact (n - length c) cs = (take (n - length c) (concat cs), cs', True)"
      "concat cs' = drop (n - length c) (concat cs)" "[] \<notin> set cs'"
      using Cons.IH [of "n - length c"] by blast
    moreover have "c \<noteq> []" "0 < n \<or> n = 0" using Cons.prems(1) by auto
    moreover from this have "0 < n" using False by (cases c) auto
    ultimately show ?thesis using False Cons.prems by auto
  qed
qed simp

text \<open>
  Whatever pieces the network makes of it, \<open>recvPack\<close> reads exactly the next message a server has sent, and leaves
  what follows.
\<close>

theorem client_reads_next_message:
  assumes "msg_wf m" "concat (cl_in cl) = encode_AppMsg ptr m @ rest" "[] \<notin> set (cl_in cl)"
  shows "\<exists>cs. recvPack cl = (Some (m_msg_id m, m_data m), cl\<lparr>cl_in := cs\<rparr>) \<and> concat cs = rest \<and> [] \<notin> set cs"
proof -
  let ?e = "encode_AppMsg ptr m" and ?d = "m_data m"
  have len: "length ?e = 70 + length ?d" "h_pack_len (m_header m) = 70 + length ?d"
    using length_encode [OF assms(1), of ptr] assms(1) by (auto simp: msg_wf_def sizeof_AppMsg_def sizeof_Header_def)
  have k: "kFrameOverhead = 70" by (simp add: kFrameOverhead_def)
  define buf where "buf = take 70 ?e"
  have "take 70 (?e @ rest) = buf" using len by (simp add: buf_def)
  then obtain cs1 where 1: "recvExact 70 (cl_in cl) = (buf, cs1, True)" "concat cs1 = drop 70 (?e @ rest)" "[] \<notin> set cs1"
    using recvExact_cut [OF assms(3), of 70] assms(2) len by auto
  have b: "drop 70 ?e = ?d"
    using assms(1) by (simp add: encode_AppMsg_def encode_header_def msg_wf_def)
  then have "concat cs1 = ?d @ rest" using 1(2) len by simp
  moreover obtain cs2 where "recvExact (length ?d) cs1 = (take (length ?d) (concat cs1), cs2, True)"
      "concat cs2 = drop (length ?d) (concat cs1)" "[] \<notin> set cs2"
    using recvExact_cut [OF 1(3), of "length ?d"] calculation by auto
  ultimately have 2: "recvExact (length ?d) cs1 = (?d, cs2, True)" "concat cs2 = rest" "[] \<notin> set cs2" by auto
  have a: "AppMsg_of 0 ?e = received_as 0 m" by (rule AppMsg_of_encode [OF assms(1)])
  have h: "Header_of (?e @ []) = m_header m" by (rule Header_of_encode [OF assms(1)])
  have f: "field i n buf = field i n ?e" if "i + n \<le> 70" for i n
    using that by (simp add: field_take buf_def)
  have "field 18 2 ?e = m_msg_id m" "field 20 2 ?e = length ?d" "field 0 1 ?e = 1" "field 2 4 ?e = 70 + length ?d"
  proof -
    show "field 18 2 ?e = m_msg_id m" using arg_cong [OF a, of m_msg_id] by (simp add: AppMsg_of_def received_as_def)
    show "field 20 2 ?e = length ?d" using arg_cong [OF a, of m_data_len] assms(1)
      by (simp add: AppMsg_of_def received_as_def msg_wf_def)
    show "field 0 1 ?e = 1" using arg_cong [OF h, of h_version] assms(1) by (simp add: Header_of_def msg_wf_def MAGIC_VERSION_def)
    show "field 2 4 ?e = 70 + length ?d" using arg_cong [OF h, of h_pack_len] len by (simp add: Header_of_def)
  qed
  then have "recvPack cl = (Some (m_msg_id m, ?d), cl\<lparr>cl_in := cs2\<rparr>)"
    using 1(1) 2 by (simp add: recvPack_def k kMagicVersion_def f Let_def)
  then show ?thesis using 2(2,3) by blast
qed


text \<open>What the server reads from the frame of a request.\<close>

definition request_msg :: "nat \<Rightarrow> nat \<times> 8 word list \<Rightarrow> app_msg" where
  "request_msg seq p =
     \<lparr>m_header = \<lparr>h_version = 1, h_type = 1, h_pack_len = kFrameOverhead + length (snd p), h_seq = seq, h_conn_id = 0\<rparr>,
      m_msg_id = fst p, m_data_len = length (snd p), m_co_id = 0, m_src_name = replicate 16 0, m_dst_name = replicate 16 0,
      m_data = snd p\<rparr>"

lemma frame_encodes: "length b < 2 ^ 16 \<Longrightarrow> client_frame seq i b = encode_AppMsg 0 (request_msg seq (i, b))"
  by (simp add: client_frame_def encode_AppMsg_def encode_header_def request_msg_def kMagicVersion_def kTypeC2S_def)

lemma request_wf: "length (snd p) < 2 ^ 16 \<Longrightarrow> fst p < 2 ^ 16 \<Longrightarrow> seq < 2 ^ 32 \<Longrightarrow> msg_wf (request_msg seq p)"
  by (simp add: msg_wf_def request_msg_def MAGIC_VERSION_def kFrameOverhead_def sizeof_AppMsg_def sizeof_Header_def)

fun send_all :: "(nat \<times> 8 word list) list \<Rightarrow> client \<Rightarrow> fault + bool \<times> client" where
  "send_all [] cl = Inr (True, cl)"
| "send_all (p # ps) cl =
     (case sendPack (fst p) (snd p) cl of
        Inl f \<Rightarrow> Inl f
      | Inr (False, cl1) \<Rightarrow> Inr (False, cl1)
      | Inr (True, cl1) \<Rightarrow> send_all ps cl1)"

fun requests_from :: "nat \<Rightarrow> (nat \<times> 8 word list) list \<Rightarrow> app_msg list" where
  "requests_from seq [] = []"
| "requests_from seq (p # ps) = request_msg (Suc seq) p # requests_from (Suc seq) ps"

lemma send_all_stream:
  assumes "\<forall>p \<in> set ps. length (snd p) < 2 ^ 16" "cl_seq cl + length ps < 2 ^ 32" "cl_sends cl = []"
  shows "\<exists>cl'. send_all ps cl = Inr (True, cl') \<and>
    cl_out cl' = cl_out cl @ concat (map (encode_AppMsg 0) (requests_from (cl_seq cl) ps))"
  using assms
proof (induction ps arbitrary: cl)
  case (Cons p ps)
  let ?cl = "cl\<lparr>cl_seq := Suc (cl_seq cl), cl_out := cl_out cl @ client_frame (Suc (cl_seq cl)) (fst p) (snd p)\<rparr>"
  have "u32_add (cl_seq cl) 1 = Suc (cl_seq cl)" using Cons.prems(2) by (simp add: uadd_small)
  then have "sendPack (fst p) (snd p) cl = Inr (True, ?cl)"
    using Cons.prems(1,3) by (auto simp: sendPack_def kFrameOverhead_def Let_def)
  then show ?case using Cons.IH [of ?cl] Cons.prems frame_encodes [of "snd p" "Suc (cl_seq cl)" "fst p"] by auto
qed simp

lemma requests_wf:
  "\<forall>p \<in> set ps. length (snd p) < 2 ^ 16 \<and> fst p < 2 ^ 16 \<Longrightarrow> seq + length ps < 2 ^ 32 \<Longrightarrow>
   \<forall>m \<in> set (requests_from seq ps). msg_wf m"
proof (induction ps arbitrary: seq)
  case (Cons p ps)
  have "\<forall>m \<in> set (requests_from (Suc seq) ps). msg_wf m" using Cons.prems by (intro Cons.IH) auto
  then show ?case using Cons.prems by (simp add: request_wf)
qed simp

lemma requests_content: "map (\<lambda>m. (m_msg_id m, m_data m)) (map (received_as cid) (requests_from seq ps)) = ps"
  by (induction ps arbitrary: seq) (auto simp: request_msg_def received_as_def)

lemma requests_shape:
  "m \<in> set (requests_from seq ps) \<Longrightarrow> h_type (m_header m) = kTypeC2S \<and> m_co_id m = 0 \<and> m_src_name m = replicate 16 0"
  by (induction ps arbitrary: seq) (auto simp: request_msg_def kTypeC2S_def)


text \<open>A login that succeeds has sent the request for a token and then the token it got, and nothing else.\<close>

theorem login_sends_token:
  assumes "client_login pr account cl = Inr (True, cl')" "cl_sends cl = []"
  shows "\<exists>token data. pr_apply_response pr data = Some (pr_success pr, token) \<and>
    cl_out cl' = cl_out cl @ client_frame (u32_add (cl_seq cl) 1) kMsgApplyToken (pr_apply_request pr account) @
      client_frame (u32_add (u32_add (cl_seq cl) 1) 1) kMsgAuth (pr_auth_request pr token)"
proof -
  have keep: "recvPack c = (r, c') \<Longrightarrow> cl_out c' = cl_out c \<and> cl_seq c' = cl_seq c \<and> cl_sends c' = cl_sends c" for c r c'
    by (auto simp: recvPack_def Let_def split: prod.splits bool.splits if_splits)
  have req: "cl_out c' = cl_out c @ client_frame (u32_add (cl_seq c) 1) i b \<and> cl_seq c' = u32_add (cl_seq c) 1 \<and> cl_sends c' = []"
    if "request chk i b c = Inr (r, c')" "cl_sends c = []" for chk i b c r c'
    using that by (auto simp: request_def sendPack_def Let_def dest!: keep split: if_splits prod.splits option.splits)
  obtain token c1 where a: "applyToken pr account cl = Inr (Some token, c1)" "client_auth pr token c1 = Inr (True, cl')"
    using assms(1) by (auto simp: client_login_def split: sum.splits prod.splits option.splits)
  then obtain data where d: "request True kMsgApplyToken (pr_apply_request pr account) cl = Inr (Some data, c1)"
    "pr_apply_response pr data = Some (pr_success pr, token)"
    by (auto simp: applyToken_def split: sum.splits prod.splits option.splits if_splits)
  obtain r where "request True kMsgAuth (pr_auth_request pr token) c1 = Inr (r, cl')"
    using a(2) by (auto simp: client_auth_def split: sum.splits prod.splits option.splits)
  then show ?thesis using req [OF d(1) assms(2)] req [of _ _ _ c1] d(2) by auto
qed

text \<open>
  A packet is read back as it was written, but for its length, which is counted anew, and the connection, which the
  reader sets.
\<close>

theorem net_pack_roundtrip:
  assumes "29 + length (np_msg p) < 2 ^ 32"
  shows "NetPack_deserialize cid (NetPack_serialize p) q = p\<lparr>np_len := of_nat (29 + length (np_msg p)), np_conn_id := cid\<rparr>"
proof -
  have u: "unat (x :: 'a::len word) < 2 ^ LENGTH('a)" for x by (rule unsigned_less)
  have "unat (np_seq p) < 256 ^ 4" "unat (np_msg_id p) < 256 ^ 4" "unat (np_conn_id p) < 256 ^ 8" "unat (np_uid p) < 256 ^ 8"
    "unat (np_flag p) < 256 ^ 1" "29 + length (np_msg p) < 256 ^ 4"
    using unsigned_less [of "np_seq p"] unsigned_less [of "np_msg_id p"] unsigned_less [of "np_conn_id p"]
      unsigned_less [of "np_uid p"] unsigned_less [of "np_flag p"] assms by simp_all
  then show ?thesis using assms
    by (simp add: NetPack_deserialize_def NetPack_serialize_def field_def le_nat_le_bytes)
qed

section \<open>Witness\<close>


end
