(* ===== verification/Spec2Isabelle.thy ===== *)
theory Spec2Isabelle
  imports Prelude Shm Locks RingBuffer Allocator Slab HashMap Connection EventLoop TcpServer TcpClient WsListener KcpListener
    Session Dispatcher Base64 Jwt Packing LoadBalancer Registry Registrar BusNet
    Scheduler Bus Busd ConnPool Transactions DbProxy Logic
    SqlGen MigrationXml Migration MigrateCli
    ConndThreads StdText Utility CmdLine Config JsonConfig App Timer Terminal AppCommands Signals Client
begin

text \<open>
  A verification development for the tgChatServer back end (C++ under \<open>src/server\<close>).

  \<^bold>\<open>The program.\<close>  Clients connect to a gateway (\<open>connd\<close>) over TCP, WebSocket or KCP. The gateway checks a
  token at login, binds the connection to a user and forwards what a logged-in client sends to the logic
  service, and answers back. The services run on one machine and exchange messages through ring buffers in
  shared memory: a service builds a packet in a shared slab, pushes its index into the ring of the
  destination, and that service reads the packet out of the slab. A service centre keeps the table of
  running instances over TCP and tells its subscribers of changes; a load-balancing strategy
  selects one instance. A database proxy runs SQL for the others over a pool of MySQL connections, with
  transactions, and a command line tool applies schema migrations written in XML.

  \<^bold>\<open>Shared memory\<close> (\<open>core/shm\<close>).  \<open>Shm\<close>: named regions, \<open>Open\<close> as a sequence of system calls among other processes.
  \<open>Locks\<close>: \<open>ShmLock\<close> and \<open>ShmSpinLock\<close> over the documented behaviour of a
  process-shared POSIX mutex; the spin loop is a partial function of the answers of \<open>TryLock\<close>; mutual
  exclusion among processes that may die, and what a death inside the lock does (locale
  \<open>process_lock\<close>). \<open>RingBuffer\<close>: \<open>ShmRingBuffer\<close>, generic and for bytes, over the header record and the
  element area; every run of operations refines a bounded double-ended queue. \<open>Allocator\<close>: the
  interface of the allocator (locale) and what its clients get; \<open>Slab\<close>: \<open>ShmSlab\<close> over a byte memory
  that holds the page headers and the free lists, interpreting that interface. \<open>HashMap\<close>: \<open>ShmHashMap\<close> with its
  epochs, over one memory that holds all its headers, since they overlap.

  \<^bold>\<open>Networking\<close> (\<open>core/network\<close>).  \<open>Connection\<close>: framing, receiving and sending on one TCP connection, over
  the receive ring. \<open>EventLoop\<close>: the poller. \<open>TcpServer\<close>: the server and its listener, with the
  invariant of its tables over all reachable states. \<open>TcpClient\<close>: the reconnecting client, with its event
  thread, its periodic check and its callers interleaved where they wait for each other; the model finds
  what goes wrong between them, and does not show that their unlocked accesses are harmless. \<open>WsListener\<close>: RFC 6455 frames.
  \<open>KcpListener\<close>: sessions over one UDP socket, the KCP protocol itself a parameter.

  \<^bold>\<open>Gateway and accounts\<close> (\<open>connd\<close>, \<open>account\<close>).  \<open>Session\<close>: the session manager, with its contract as a locale.
  \<open>Dispatcher\<close>: the message dispatcher, the heart handler and the wiring of the service, as steps
  of a gateway that runs its handlers one after another; \<open>ConndThreads\<close>: the same handlers on several threads,
  interleaved at their calls of the session manager, with what still holds then and a race of two logins.
  \<open>Base64\<close> and \<open>Jwt\<close>: encoding, issue and check of tokens; the MAC and the JSON library
  are parameters. The main results join these: a token that was issued logs a connection in, and only
  logged-in connections reach the logic service.

  \<^bold>\<open>Service bus\<close> (\<open>common\<close>, \<open>center\<close>, \<open>core/bus\<close>, \<open>core/coroutine\<close>).  \<open>Packing\<close>: packets built in the slab.
  \<open>LoadBalancer\<close>: the nine strategies and their factory. \<open>Registry\<close>: the table of instances and its change
  log, which a subscriber replays; \<open>Registrar\<close>: the handlers of the centre. \<open>BusNet\<close>: the routing tables of a
  service. \<open>Scheduler\<close>: the coroutine scheduler, a coroutine standing for the steps it takes between
  suspensions. \<open>Bus\<close>: \<open>BusClient\<close>, its life cycle, sending and receiving. \<open>Busd\<close>: the daemon that relays
  between machines.

  \<^bold>\<open>Database and logic\<close> (\<open>dbproxy\<close>, \<open>logic\<close>, \<open>tools/dbmigrate\<close>).  \<open>ConnPool\<close>: a MySQL connection and the pool, whose methods are
  split at their locks so that threads interleave. \<open>Transactions\<close>: the transaction manager and the bodies
  of the handlers. \<open>DbProxy\<close>: replies, registration and life cycle of the service. \<open>Logic\<close>: the handlers of the
  logic service (\<open>logic\<close>), which follow the same frame. \<open>SqlGen\<close>, \<open>MigrationXml\<close>
  and \<open>Migration\<close>: SQL generation, the XML reader and the engine of the migration tool; \<open>MigrateCli\<close>: its command
  line, and the commands that write files.

  \<^bold>\<open>Application frame\<close> (\<open>core/app\<close>, \<open>common\<close>).  \<open>StdText\<close>: the number parsers of the standard library the sources
  use. \<open>CmdLine\<close>: the command line parser; \<open>Config\<close>: the configuration store; \<open>JsonConfig\<close>: an older one, with nodes that point into
  the document; \<open>App\<close>: the life cycle every service
  derives from, with its tick thread and the terminal's threads; \<open>Timer\<close>: the periodic tasks; \<open>Terminal\<close>, \<open>AppCommands\<close> and \<open>Signals\<close>: console and telnet
  connections, the commands the frame adds, and the signal thread. \<open>Utility\<close>: the text check, unique ids and dumps of
  \<open>Helper\<close>. \<open>Client\<close>: the test client of the gateway, whose frames the gateway's connection is shown to read.

  \<^bold>\<open>Conventions.\<close>  An operation takes its state and returns it changed. A result
  \<^typ>\<open>fault + 'a\<close> is a fault on the left: a thread that waits for a mutex it holds itself, undefined
  behaviour, an exception that leaves the method, or shared memory that cannot be mapped.
  Unsigned integers are naturals with the wrap-around written out (\<^const>\<open>uadd\<close>, \<^const>\<open>usub\<close>,
  \<^const>\<open>umul\<close>) and bytes are words. Strings are lists of characters or bytes. A hash map whose
  order of iteration matters is an association list. What the operating system, the clock, a random
  generator or a library answers is an argument of the step that asks. Concurrent code is a
  transition system whose steps are the sections the code runs under one lock, or one message at a time
  where a component has a single thread, or, where the code shares state without a lock, what a thread does
  between two places at which it waits; the theories say which.

  \<^bold>\<open>Bounds and fuel.\<close>  Loops that consume input or a list are structural recursions, or have a
  measure. The spin loop is a \<open>partial_function\<close>: the theorems say exactly when it returns. Where a definition
  takes fuel the theorems about it hold for every amount that is at least the stated measure of the input.

  \<^bold>\<open>Findings.\<close>  Several theorems show behaviour that the code does not mean to have; they are stated as they are proved:
  packets freed while in flight, two logins at once of which one is lost, a client that is stopped while it reconnects, a send that takes one mutex twice, a scheduler nobody starts, handlers
  registered before the object that holds them exists, a heartbeat answer that empties the routing
  tables, a dead process that shuts a shared lock, and others named at the theorems.

  \<^bold>\<open>Not modelled.\<close>  Vendored code (\<open>tinyxml2\<close>), code generated from the protocol files, the tests, code that is
  commented out, wrappers no module uses (\<open>Channel\<close>, \<open>Callback\<close>), logging, and the system calls that set up
  sockets. Threads of the standard library are
  steps; the memory model is sequential consistency. The real time taken by an operation is not
  modelled; clocks are arguments.
\<close>

end
